(* ===== verification/Prelude.thy ===== *)
theory Prelude
  imports Main "HOL-Library.Multiset"
begin

text \<open>
  Shared vocabulary of the development: results of fallible operations, the vector operations
  of Rust's standard library that the index code uses (insertion and removal at an index), the
  search for the first element that satisfies a predicate, and the lemmas about them that the
  component theories rely on.

  A fallible operation returns a value of the sum type: \<open>Inl\<close> carries the error or the fault,
  \<open>Inr\<close> the result.  The early return of the \<open>?\<close> operator is \<open>rbind\<close>.
\<close>

section \<open>Collections of rewrite rules\<close>

named_theorems vec_simps \<open>vector operations and their lengths\<close>

section \<open>Results\<close>

text \<open>A fault is what a checked build reports as a panic: a failed assertion, an index out of
  bounds, an arithmetic underflow or overflow.\<close>

datatype fault = AssertFault | IndexFault | OverflowFault

definition rbind :: "'e + 'a \<Rightarrow> ('a \<Rightarrow> 'e + 'b) \<Rightarrow> 'e + 'b" where
  "rbind r f = (case r of Inl e \<Rightarrow> Inl e | Inr x \<Rightarrow> f x)"

lemma rbind_simps [simp]:
  "rbind (Inl e) f = Inl e"
  "rbind (Inr x) f = f x"
  by (simp_all add: rbind_def)

lemma rbind_eq_Inr_iff: "rbind r f = Inr y \<longleftrightarrow> (\<exists>x. r = Inr x \<and> f x = Inr y)"
  by (cases r) auto

lemma rbind_eq_Inl_iff: "rbind r f = Inl e \<longleftrightarrow> r = Inl e \<or> (\<exists>x. r = Inr x \<and> f x = Inl e)"
  by (cases r) auto

lemma rbind_assoc: "rbind (rbind r f) g = rbind r (\<lambda>x. rbind (f x) g)"
  by (cases r) auto

lemma rbind_cong [fundef_cong]:
  assumes "r = r'" "\<And>x. r' = Inr x \<Longrightarrow> f x = g x"
  shows "rbind r f = rbind r' g"
  using assms by (cases r') auto

definition is_ok :: "'e + 'a \<Rightarrow> bool" where
  "is_ok r = (case r of Inl _ \<Rightarrow> False | Inr _ \<Rightarrow> True)"

lemma is_ok_simps [simp]: "\<not> is_ok (Inl e)" "is_ok (Inr x)"
  by (simp_all add: is_ok_def)

text \<open>A loop over a list whose body may fail: the first failure ends it.\<close>

fun rfold :: "('a \<Rightarrow> 's \<Rightarrow> 'e + 's) \<Rightarrow> 'a list \<Rightarrow> 's \<Rightarrow> 'e + 's" where
  "rfold f [] s = Inr s"
| "rfold f (x # xs) s = rbind (f x s) (rfold f xs)"

lemma rfold_append: "rfold f (xs @ ys) s = rbind (rfold f xs s) (rfold f ys)"
proof (induction xs arbitrary: s)
  case Nil
  then show ?case by simp
next
  case (Cons x xs)
  then show ?case by (cases "f x s") simp_all
qed

lemma rfold_invariant:
  assumes "rfold f xs s = Inr t" and "P s"
    and "\<And>x s t. x \<in> set xs \<Longrightarrow> P s \<Longrightarrow> f x s = Inr t \<Longrightarrow> P t"
  shows "P t"
  using assms
proof (induction xs arbitrary: s)
  case Nil
  then show ?case by simp
next
  case (Cons x xs)
  from Cons.prems(1) obtain u where u: "f x s = Inr u" "rfold f xs u = Inr t"
    by (auto simp: rbind_eq_Inr_iff)
  have "P u" using Cons.prems u(1) by auto
  then show ?case using Cons.IH [OF u(2)] Cons.prems(3) by auto
qed

lemma rfold_total:
  assumes "P s" and "\<And>x s. x \<in> set xs \<Longrightarrow> P s \<Longrightarrow> \<exists>t. f x s = Inr t \<and> P t"
  shows "\<exists>t. rfold f xs s = Inr t \<and> P t"
  using assms
proof (induction xs arbitrary: s)
  case Nil
  then show ?case by simp
next
  case (Cons x xs)
  from Cons.prems obtain u where u: "f x s = Inr u" "P u" by auto
  have "\<exists>t. rfold f xs u = Inr t \<and> P t" using Cons.IH [OF u(2)] Cons.prems(2) by auto
  with u show ?case by simp
qed

section \<open>Vectors\<close>

text \<open>\<open>Vec::insert\<close> and \<open>Vec::remove\<close>, for an index in range.\<close>

definition insert_at :: "nat \<Rightarrow> 'a \<Rightarrow> 'a list \<Rightarrow> 'a list" where
  "insert_at i x xs = take i xs @ x # drop i xs"

definition remove_at :: "nat \<Rightarrow> 'a list \<Rightarrow> 'a list" where
  "remove_at i xs = take i xs @ drop (Suc i) xs"

lemma length_insert_at [vec_simps, simp]: "length (insert_at i x xs) = Suc (length xs)"
  by (simp add: insert_at_def)

lemma length_remove_at [vec_simps, simp]: "i < length xs \<Longrightarrow> length (remove_at i xs) = length xs - 1"
  by (simp add: remove_at_def)

lemma set_insert_at [simp]: "set (insert_at i x xs) = insert x (set xs)"
proof -
  have "set (take i xs) \<union> set (drop i xs) = set xs"
    by (metis append_take_drop_id set_append)
  then show ?thesis by (simp add: insert_at_def)
qed

lemma mset_insert_at [simp]: "mset (insert_at i x xs) = add_mset x (mset xs)"
proof -
  have "mset (take i xs) + mset (drop i xs) = mset xs"
    by (metis append_take_drop_id mset_append)
  then show ?thesis by (simp add: insert_at_def)
qed

lemma mset_take_subset: "mset (take n xs) \<subseteq># mset xs"
  by (metis append_take_drop_id mset_append mset_subset_eq_add_left)

lemma set_remove_at_subset: "set (remove_at i xs) \<subseteq> set xs"
  by (auto simp: remove_at_def dest: in_set_takeD in_set_dropD)

lemma map_insert_at: "map f (insert_at i x xs) = insert_at i (f x) (map f xs)"
  by (simp add: insert_at_def take_map drop_map)

lemma map_remove_at: "map f (remove_at i xs) = remove_at i (map f xs)"
  by (simp add: remove_at_def take_map drop_map)

lemma zip_insert_at:
  assumes "length xs = length ys"
  shows "zip (insert_at i x xs) (insert_at i y ys) = insert_at i (x, y) (zip xs ys)"
  using assms by (simp add: insert_at_def take_zip drop_zip)

lemma zip_remove_at:
  assumes "length xs = length ys"
  shows "zip (remove_at i xs) (remove_at i ys) = remove_at i (zip xs ys)"
  using assms by (simp add: remove_at_def take_zip drop_zip)

lemma nth_insert_at:
  assumes "i \<le> length xs" "j \<le> length xs"
  shows "insert_at i x xs ! j = (if j < i then xs ! j else if j = i then x else xs ! (j - 1))"
  using assms by (auto simp: insert_at_def nth_append min_def nth_Cons')

lemma nth_remove_at:
  assumes "i < length xs" "j < length xs - 1"
  shows "remove_at i xs ! j = (if j < i then xs ! j else xs ! Suc j)"
  using assms by (auto simp: remove_at_def nth_append min_def)

lemma remove_at_split: "remove_at (length ys) (ys @ z # zs) = ys @ zs"
  by (simp add: remove_at_def)

lemma insert_at_split: "insert_at (length ys) z (ys @ zs) = ys @ z # zs"
  by (simp add: insert_at_def)

lemma take_insert_at_full:
  assumes "0 < length xs" "i \<le> length xs - 1"
  shows "insert_at i x (take (length xs - 1) xs) = take (length xs) (insert_at i x xs)"
proof -
  have "i < length xs" using assms by linarith
  with assms show ?thesis by (simp add: insert_at_def min_def take_Cons' drop_take)
qed

section \<open>The first element that satisfies a predicate\<close>

definition first_index :: "('a \<Rightarrow> bool) \<Rightarrow> 'a list \<Rightarrow> nat" where
  "first_index P xs = length (takeWhile (\<lambda>x. \<not> P x) xs)"

lemma first_index_simps [simp]:
  "first_index P [] = 0"
  "first_index P (x # xs) = (if P x then 0 else Suc (first_index P xs))"
  by (simp_all add: first_index_def)

lemma first_index_le [simp]: "first_index P xs \<le> length xs"
  by (simp add: first_index_def length_takeWhile_le)

lemma first_index_sat: "first_index P xs < length xs \<Longrightarrow> P (xs ! first_index P xs)"
  by (induction xs) auto

lemma first_index_before: "j < first_index P xs \<Longrightarrow> \<not> P (xs ! j)"
proof (induction xs arbitrary: j)
  case Nil
  then show ?case by simp
next
  case (Cons x xs)
  then show ?case by (cases j) (auto split: if_splits)
qed

lemma first_index_eqI:
  assumes "i \<le> length xs" and "\<And>j. j < i \<Longrightarrow> \<not> P (xs ! j)" and "i < length xs \<Longrightarrow> P (xs ! i)"
  shows "first_index P xs = i"
proof (rule antisym)
  show "first_index P xs \<le> i"
  proof (rule ccontr)
    assume "\<not> first_index P xs \<le> i"
    then have "i < first_index P xs" by simp
    moreover from this have "i < length xs" using first_index_le [of P xs] by linarith
    ultimately show False using assms(3) first_index_before by blast
  qed
  show "i \<le> first_index P xs"
  proof (rule ccontr)
    assume *: "\<not> i \<le> first_index P xs"
    with assms(1) have "first_index P xs < length xs" by simp
    then have "P (xs ! first_index P xs)" by (rule first_index_sat)
    with * assms(2) show False by simp
  qed
qed

lemma first_index_append:
  "first_index P (xs @ ys)
   = (if \<exists>x\<in>set xs. P x then first_index P xs else length xs + first_index P ys)"
  by (induction xs) auto

lemma first_index_none: "\<forall>x\<in>set xs. \<not> P x \<Longrightarrow> first_index P xs = length xs"
  by (induction xs) auto

lemma first_index_lt_iff: "first_index P xs < length xs \<longleftrightarrow> (\<exists>x\<in>set xs. P x)"
  by (induction xs) auto

lemma first_index_map: "first_index P (map f xs) = first_index (\<lambda>x. P (f x)) xs"
  by (induction xs) auto

lemma first_index_cong:
  assumes "xs = ys" "\<And>x. x \<in> set ys \<Longrightarrow> P x = Q x"
  shows "first_index P xs = first_index Q ys"
  using assms(2) unfolding assms(1) by (induction ys) auto

lemma first_index_take: "first_index P (take n xs) = min n (first_index P xs)"
  if "n \<le> length xs"
  using that
proof (induction xs arbitrary: n)
  case Nil
  then show ?case by simp
next
  case (Cons x xs)
  then show ?case by (cases n) auto
qed

lemma first_index_insert_at:
  assumes "P x" "i \<le> length xs"
  shows "first_index P (insert_at i x xs) = min i (first_index P xs)"
  using assms(2)
proof (induction xs arbitrary: i)
  case Nil
  with assms(1) show ?case by (simp add: insert_at_def)
next
  case (Cons y ys)
  with assms(1) show ?case by (cases i) (auto simp: insert_at_def)
qed

lemma first_index_update:
  assumes "\<not> P y" "c = first_index P xs" "c < length xs"
  shows "first_index P (xs[c := y]) = Suc c + first_index P (drop (Suc c) xs)"
  using assms(2,3)
proof (induction xs arbitrary: c)
  case Nil
  then show ?case by simp
next
  case (Cons x xs)
  with assms(1) show ?case by (cases c) auto
qed

lemma first_index_filter_hd:
  assumes "first_index P xs < length xs"
  shows "filter P xs = xs ! first_index P xs # filter P (drop (Suc (first_index P xs)) xs)"
  using assms by (induction xs) auto

section \<open>Lists in order\<close>

lemma insert_at_first_sort:
  fixes xs :: "'a::linorder list"
  assumes "sorted xs"
  shows "insert_at (first_index (\<lambda>y. x \<le> y) xs) x xs = insort x xs"
  using assms by (induction xs) (auto simp: insert_at_def)

lemma sorted_insert_at_first:
  fixes xs :: "'a::linorder list"
  assumes "sorted xs"
  shows "sorted (insert_at (first_index (\<lambda>y. x \<le> y) xs) x xs)"
  using assms by (simp add: insert_at_first_sort sorted_insort)

lemma take_insort_take:
  fixes xs :: "'a::linorder list"
  assumes "sorted xs"
  shows "take n (insort x (take n xs)) = take n (insort x xs)"
  using assms
proof (induction xs arbitrary: n)
  case Nil
  then show ?case by simp
next
  case (Cons y ys)
  then show ?case by (cases n) (auto simp: take_Cons')
qed

lemma sort_snoc: "sort (xs @ [x]) = insort x (sort xs)"
  for x :: "'a::linorder"
proof (rule properties_for_sort)
  show "mset (insort x (sort xs)) = mset (xs @ [x])" by simp
  show "sorted (insort x (sort xs))" by (simp add: sorted_insort)
qed

lemma distinct_submset:
  assumes "mset xs \<subseteq># mset ys" "distinct ys"
  shows "distinct xs"
proof -
  have "count (mset xs) a = (if a \<in> set xs then 1 else 0)" for a
  proof -
    have "count (mset xs) a \<le> 1"
      using mset_subset_eq_count [OF assms(1), of a] assms(2)
      unfolding distinct_count_atmost_1 by (metis le0 le_trans order_refl zero_le_one)
    moreover have "count (mset xs) a = 0 \<longleftrightarrow> a \<notin> set xs" by (rule count_mset_0_iff)
    ultimately show ?thesis by (metis One_nat_def le_Suc_eq le_zero_eq)
  qed
  then show ?thesis by (simp add: distinct_count_atmost_1)
qed

lemma sorted_remove_at:
  fixes xs :: "'a::linorder list"
  assumes "sorted xs"
  shows "sorted (remove_at i xs)"
proof -
  have "sorted (take i xs @ drop i xs)" using assms by simp
  then have "\<forall>x\<in>set (take i xs). \<forall>y\<in>set (drop i xs). x \<le> y"
    unfolding sorted_append by blast
  moreover have "set (drop (Suc i) xs) \<subseteq> set (drop i xs)" by (rule set_drop_subset_set_drop) simp
  ultimately show ?thesis
    using assms by (auto simp: remove_at_def sorted_append sorted_wrt_take sorted_wrt_drop)
qed

lemma distinct_remove_at: "distinct xs \<Longrightarrow> distinct (remove_at i xs)"
  by (auto simp: remove_at_def set_take_disj_set_drop_if_distinct)

lemma distinct_insert_at: "distinct (insert_at i x xs) \<longleftrightarrow> x \<notin> set xs \<and> distinct xs"
proof -
  have "distinct (insert_at i x xs) \<longleftrightarrow> distinct (x # take i xs @ drop i xs)"
    unfolding insert_at_def by (auto simp del: append_take_drop_id)
  then show ?thesis by simp
qed


section \<open>Iteration of hash maps\<close>

text \<open>A map is iterated in some order of its entries; one of them is the order of the keys.\<close>

definition map_iteration :: "(('k \<rightharpoonup> 'v) \<Rightarrow> ('k \<times> 'v) list) \<Rightarrow> bool" where
  "map_iteration order \<longleftrightarrow> (\<forall>m. finite (dom m) \<longrightarrow> distinct (map fst (order m)) \<and> map_of (order m) = m)"

lemma map_iteration_keys:
  assumes "map_iteration order" "finite (dom m)"
  shows "distinct (map fst (order m))" "fst ` set (order m) = dom m" "(j, b) \<in> set (order m) \<Longrightarrow> m j = Some b"
proof -
  have m: "distinct (map fst (order m))" "map_of (order m) = m" using assms by (auto simp: map_iteration_def)
  show "distinct (map fst (order m))" by (rule m(1))
  show "fst ` set (order m) = dom m" using dom_map_of_conv_image_fst [of "order m"] m(2) by simp
  show "(j, b) \<in> set (order m) \<Longrightarrow> m j = Some b" using map_of_is_SomeI [OF m(1)] m(2) by simp
qed

definition key_order :: "('k :: linorder \<rightharpoonup> 'v) \<Rightarrow> ('k \<times> 'v) list" where
  "key_order m = map (\<lambda>k. (k, the (m k))) (sorted_list_of_set (dom m))"

lemma key_order_iteration: "map_iteration key_order"
proof (unfold map_iteration_def, intro allI impI conjI)
  fix m :: "'a \<rightharpoonup> 'b" assume f: "finite (dom m)"
  have keys: "map fst (key_order m) = sorted_list_of_set (dom m)" by (simp add: key_order_def comp_def)
  then show d: "distinct (map fst (key_order m))" by simp
  show "map_of (key_order m) = m"
  proof
    fix k
    show "map_of (key_order m) k = m k"
    proof (cases "m k")
      case None
      then have "k \<notin> fst ` set (key_order m)" using f by (auto simp: key_order_def)
      then show ?thesis using None by (simp add: map_of_eq_None_iff)
    next
      case (Some v)
      then have "(k, v) \<in> set (key_order m)" using f by (force simp: key_order_def)
      then show ?thesis using Some map_of_is_SomeI [OF d] by simp
    qed
  qed
qed

end
