(* ===== verification/F32.thy ===== *)
theory F32
  imports Prelude
begin

text \<open>
  The IEEE-754 single precision numbers the code computes with.  A finite number is an integral
  multiple of the smallest subnormal, so \<open>Fin k\<close> stands for \<open>k * 2 ^ -149\<close>; infinities and NaN
  are values of their own.  The two zeros are identified: no comparison tells them apart, and
  no code modelled here divides by zero.

  Comparisons follow IEEE-754 (every comparison with NaN is false).  Multiplication, division
  and addition compute the exact result and round it to the nearest representable number,
  ties to even, and to infinity beyond the largest finite one.
\<close>

section \<open>Numbers and comparisons\<close>

datatype f32 = NegInf | Fin int | PosInf | NaN

definition is_nan :: "f32 \<Rightarrow> bool" where
  "is_nan x \<longleftrightarrow> x = NaN"

definition is_finite :: "f32 \<Rightarrow> bool" where
  "is_finite x = (case x of Fin _ \<Rightarrow> True | _ \<Rightarrow> False)"

text \<open>A linear order for the library's sorting functions: the order of the numbers, with NaN
  above everything else.  The comparisons of the code are the IEEE ones below.\<close>

instantiation f32 :: linorder
begin

definition less_eq_f32 :: "f32 \<Rightarrow> f32 \<Rightarrow> bool" where
  "less_eq_f32 x y =
     (case y of
        NaN \<Rightarrow> True
      | PosInf \<Rightarrow> x \<noteq> NaN
      | Fin b \<Rightarrow> (case x of NegInf \<Rightarrow> True | Fin a \<Rightarrow> a \<le> b | _ \<Rightarrow> False)
      | NegInf \<Rightarrow> x = NegInf)"

definition less_f32 :: "f32 \<Rightarrow> f32 \<Rightarrow> bool" where
  "less_f32 x y \<longleftrightarrow> x \<le> y \<and> \<not> y \<le> (x :: f32)"

instance
proof
  fix x y z :: f32
  show "x < y \<longleftrightarrow> x \<le> y \<and> \<not> y \<le> x" by (rule less_f32_def)
  show "x \<le> x" by (simp add: less_eq_f32_def split: f32.split)
  show "x \<le> y \<Longrightarrow> y \<le> z \<Longrightarrow> x \<le> z" by (auto simp: less_eq_f32_def split: f32.splits)
  show "x \<le> y \<Longrightarrow> y \<le> x \<Longrightarrow> x = y" by (auto simp: less_eq_f32_def split: f32.splits)
  show "x \<le> y \<or> y \<le> x" by (auto simp: less_eq_f32_def split: f32.splits)
qed

end

lemma f32_le_simps [simp]:
  "x \<le> NaN" "NegInf \<le> x" "Fin a \<le> Fin b \<longleftrightarrow> a \<le> b" "Fin a \<le> PosInf"
  "\<not> PosInf \<le> Fin a" "\<not> Fin a \<le> NegInf" "\<not> NaN \<le> Fin a"
  by (auto simp: less_eq_f32_def split: f32.split)

lemma f32_less_simps [simp]:
  "Fin a < Fin b \<longleftrightarrow> a < b" "Fin a < PosInf" "NegInf < Fin a" "\<not> PosInf < Fin a"
  by (auto simp: less_f32_def less_eq_f32_def)

definition f32_le :: "f32 \<Rightarrow> f32 \<Rightarrow> bool" where
  "f32_le x y \<longleftrightarrow> x \<noteq> NaN \<and> y \<noteq> NaN \<and> x \<le> y"

definition f32_lt :: "f32 \<Rightarrow> f32 \<Rightarrow> bool" where
  "f32_lt x y \<longleftrightarrow> x \<noteq> NaN \<and> y \<noteq> NaN \<and> x < y"

definition f32_ge :: "f32 \<Rightarrow> f32 \<Rightarrow> bool" where
  "f32_ge x y = f32_le y x"

definition f32_gt :: "f32 \<Rightarrow> f32 \<Rightarrow> bool" where
  "f32_gt x y = f32_lt y x"

definition f32_eq :: "f32 \<Rightarrow> f32 \<Rightarrow> bool" where
  "f32_eq x y \<longleftrightarrow> x \<noteq> NaN \<and> y \<noteq> NaN \<and> x = y"

lemmas f32_cmp_defs = f32_le_def f32_lt_def f32_ge_def f32_gt_def f32_eq_def

text \<open>\<open>f32::max\<close> and \<open>f32::min\<close> return the other argument when one is NaN.\<close>

definition f32_max :: "f32 \<Rightarrow> f32 \<Rightarrow> f32" where
  "f32_max x y = (if x = NaN then y else if y = NaN then x else max x y)"

definition f32_min :: "f32 \<Rightarrow> f32 \<Rightarrow> f32" where
  "f32_min x y = (if x = NaN then y else if y = NaN then x else min x y)"

lemma f32_ge_not_lt: "x \<noteq> NaN \<Longrightarrow> y \<noteq> NaN \<Longrightarrow> f32_ge x y \<longleftrightarrow> \<not> f32_lt x y"
  by (auto simp: f32_cmp_defs)

lemma f32_ge_iff_le: "x \<noteq> NaN \<Longrightarrow> y \<noteq> NaN \<Longrightarrow> f32_ge x y \<longleftrightarrow> y \<le> x"
  by (simp add: f32_cmp_defs)

section \<open>Rounding\<close>

text \<open>Quotient of two magnitudes, rounded to the nearest integer, ties to even.\<close>

definition div_half_even :: "int \<Rightarrow> int \<Rightarrow> int" where
  "div_half_even n d =
     (let q = n div d; r = n mod d in
      if 2 * r < d \<or> (2 * r = d \<and> even q) then q else q + 1)"

fun bit_len :: "int \<Rightarrow> nat" where
  "bit_len n = (if n \<le> 0 then 0 else Suc (bit_len (n div 2)))"

declare bit_len.simps [simp del]

text \<open>The magnitude \<open>n / d\<close>, in units of the smallest subnormal, rounded to 24 significant
  bits.  \<open>None\<close> is an overflow of the exponent range.\<close>

definition round_mag :: "int \<Rightarrow> int \<Rightarrow> int option" where
  "round_mag n d =
     (let s = bit_len (n div d) - 24;
          m = div_half_even n (d * 2 ^ s) * 2 ^ s
      in if m < 2 ^ 277 then Some m else None)"

definition round_frac :: "int \<Rightarrow> int \<Rightarrow> f32" where
  "round_frac n d =
     (case round_mag \<bar>n\<bar> d of
        Some m \<Rightarrow> Fin (if n < 0 then - m else m)
      | None \<Rightarrow> (if n < 0 then NegInf else PosInf))"

abbreviation f32_scale :: int where
  "f32_scale \<equiv> 2 ^ 149"

text \<open>The largest finite number, \<open>f32::MAX\<close>, and the literals of the code: a literal \<open>n / d\<close>
  denotes the nearest representable number.\<close>

definition f32_MAX :: f32 where
  "f32_MAX = Fin ((2 ^ 24 - 1) * 2 ^ 253)"

definition f32_lit :: "int \<Rightarrow> int \<Rightarrow> f32" where
  "f32_lit n d = round_frac (n * f32_scale) d"

definition f32_zero :: f32 where "f32_zero = Fin 0"

definition f32_one :: f32 where "f32_one = Fin f32_scale"

section \<open>Arithmetic\<close>

fun f32_sgn :: "f32 \<Rightarrow> int" where
  "f32_sgn (Fin k) = sgn k"
| "f32_sgn PosInf = 1"
| "f32_sgn NegInf = -1"
| "f32_sgn NaN = 0"

definition signed_inf :: "int \<Rightarrow> f32" where
  "signed_inf s = (if s < 0 then NegInf else if s = 0 then NaN else PosInf)"

fun f32_mul :: "f32 \<Rightarrow> f32 \<Rightarrow> f32" where
  "f32_mul NaN y = NaN"
| "f32_mul x NaN = NaN"
| "f32_mul (Fin a) (Fin b) = round_frac (a * b) f32_scale"
| "f32_mul x y = signed_inf (f32_sgn x * f32_sgn y)"

fun f32_div :: "f32 \<Rightarrow> f32 \<Rightarrow> f32" where
  "f32_div NaN y = NaN"
| "f32_div x NaN = NaN"
| "f32_div (Fin a) (Fin b) =
     (if b = 0 then signed_inf (sgn a)
      else round_frac (a * sgn b * f32_scale) \<bar>b\<bar>)"
| "f32_div (Fin a) y = Fin 0"
| "f32_div x (Fin b) = signed_inf (f32_sgn x * (if b < 0 then -1 else 1))"
| "f32_div x y = NaN"

fun f32_add :: "f32 \<Rightarrow> f32 \<Rightarrow> f32" where
  "f32_add NaN y = NaN"
| "f32_add x NaN = NaN"
| "f32_add (Fin a) (Fin b) = round_frac (a + b) 1"
| "f32_add (Fin a) y = y"
| "f32_add x (Fin b) = x"
| "f32_add x y = (if x = y then x else NaN)"

text \<open>\<open>n as f32\<close>, \<open>f32::ceil\<close>, and the saturating conversion \<open>x as usize\<close>.\<close>

definition f32_of_nat :: "nat \<Rightarrow> f32" where
  "f32_of_nat n = round_frac (int n * f32_scale) 1"

fun f32_as_usize :: "f32 \<Rightarrow> nat" where
  "f32_as_usize (Fin k) = nat (min (2 ^ 64 - 1) (k div f32_scale))"
| "f32_as_usize PosInf = nat (2 ^ 64 - 1)"
| "f32_as_usize _ = 0"

fun f32_ceil :: "f32 \<Rightarrow> f32" where
  "f32_ceil (Fin k) = Fin (- ((- k) div f32_scale) * f32_scale)"
| "f32_ceil x = x"

section \<open>Lemmas on rounding\<close>

lemma bit_len_lower: "0 < n \<Longrightarrow> 2 ^ (bit_len n - 1) \<le> n"
proof (induction n rule: bit_len.induct)
  case (1 n)
  show ?case
  proof (cases "n div 2 = 0")
    case True
    with 1 have "n = 1" by simp
    then show ?thesis by (simp add: bit_len.simps)
  next
    case False
    with "1.prems" have pos: "0 < n div 2" by simp
    with 1 have "2 ^ (bit_len (n div 2) - 1) \<le> n div 2" by simp
    moreover have "0 < bit_len (n div 2)" using pos by (subst bit_len.simps) simp
    then obtain b where b: "bit_len (n div 2) = Suc b" by (cases "bit_len (n div 2)") auto
    ultimately have "2 ^ b \<le> n div 2" by simp
    then have "2 ^ bit_len (n div 2) \<le> n" unfolding b power_Suc by linarith
    with "1.prems" show ?thesis by (subst bit_len.simps) simp
  qed
qed

lemma div_half_even_lower: "0 < d \<Longrightarrow> 2 * n \<le> (2 * div_half_even n d + 1) * d"
proof -
  assume d: "0 < d"
  have n: "n = d * (n div d) + n mod d" by simp
  have r: "n mod d < d" using d by simp
  show ?thesis
  proof (cases "2 * (n mod d) < d \<or> (2 * (n mod d) = d \<and> even (n div d))")
    case True
    then have "div_half_even n d = n div d" by (simp add: div_half_even_def Let_def)
    moreover have "2 * n \<le> 2 * (d * (n div d)) + d" using n True by linarith
    ultimately show ?thesis by (simp add: algebra_simps)
  next
    case False
    then have "div_half_even n d = n div d + 1" by (simp add: div_half_even_def Let_def)
    moreover have "2 * n \<le> 2 * (d * (n div d)) + 3 * d" using n r d by linarith
    ultimately show ?thesis by (simp add: algebra_simps)
  qed
qed

lemma div_half_even_exact: "0 < d \<Longrightarrow> div_half_even (q * d) d = q"
  by (simp add: div_half_even_def)

text \<open>A representable magnitude has at most 24 significant bits above the subnormal unit.\<close>

definition f32_mag_wf :: "int \<Rightarrow> bool" where
  "f32_mag_wf m \<longleftrightarrow> 0 \<le> m \<and> m < 2 ^ 277 \<and> 2 ^ (bit_len m - 24) dvd m"

definition f32_wf :: "f32 \<Rightarrow> bool" where
  "f32_wf x = (case x of Fin k \<Rightarrow> f32_mag_wf \<bar>k\<bar> | _ \<Rightarrow> True)"

lemma round_mag_exact: "f32_mag_wf m \<Longrightarrow> 0 < d \<Longrightarrow> round_mag (m * d) d = Some m"
proof -
  assume wf: "f32_mag_wf m" and d: "0 < d"
  define s where "s = bit_len m - 24"
  obtain q where q: "m = q * 2 ^ s" using wf unfolding f32_mag_wf_def s_def by (metis dvdE mult.commute)
  have "m * d = q * (d * 2 ^ s)" by (simp add: q)
  moreover have "0 < d * 2 ^ s" using d by simp
  ultimately have "div_half_even (m * d) (d * 2 ^ s) = q" by (simp only: div_half_even_exact)
  moreover have "q * 2 ^ s < 2 ^ 277" using wf q by (simp add: f32_mag_wf_def)
  ultimately show ?thesis using d by (simp add: round_mag_def Let_def flip: s_def q)
qed

lemma f32_mul_one: "f32_wf x \<Longrightarrow> f32_mul f32_one x = x"
proof (cases x)
  case (Fin k)
  assume "f32_wf x"
  with Fin have wf: "f32_mag_wf \<bar>k\<bar>" by (simp add: f32_wf_def)
  have "\<bar>f32_scale * k\<bar> = \<bar>k\<bar> * f32_scale" by (simp add: abs_mult mult.commute)
  with round_mag_exact [OF wf, of f32_scale] show ?thesis
    by (auto simp: f32_one_def round_frac_def zero_less_mult_iff mult_less_0_iff Fin)
qed (simp_all add: f32_one_def signed_inf_def)

text \<open>Rounding loses at most an eighth of a magnitude of at least sixteen units.\<close>

lemma round_mag_lower:
  assumes d: "0 < d" and big: "16 * d \<le> n" and r: "round_mag n d = Some m"
  shows "7 * n \<le> 8 * (m * d)"
proof -
  define s where "s = bit_len (n div d) - 24"
  define h where "h = div_half_even n (d * 2 ^ s)"
  have m: "m = h * 2 ^ s"
    using r by (simp add: round_mag_def Let_def s_def h_def split: if_splits)
  have "0 < d * 2 ^ s" using d by simp
  from div_half_even_lower [OF this, of n]
  have low: "2 * n \<le> 2 * (m * d) + 2 ^ s * d" by (simp add: h_def [symmetric] m algebra_simps)
  have "8 * (2 ^ s * d) \<le> 2 * n"
  proof (cases "s = 0")
    case True
    then show ?thesis using big d by simp
  next
    case False
    then have b: "bit_len (n div d) - 1 = s + 23" by (simp add: s_def)
    have "0 < n div d" using big d by (simp add: pos_imp_zdiv_pos_iff)
    from bit_len_lower [OF this] have "2 ^ (s + 23) \<le> n div d" unfolding b .
    then have "2 ^ (s + 23) * d \<le> n div d * d" using d by (simp add: mult_right_mono)
    also have "\<dots> \<le> n" using d pos_mod_sign [OF d, of n]
      by (simp add: minus_mod_eq_div_mult [symmetric])
    finally have "8388608 * (2 ^ s * d) \<le> n" by (simp add: power_add algebra_simps)
    moreover have "0 \<le> 2 ^ s * d" using d by simp
    ultimately show ?thesis by linarith
  qed
  with low show ?thesis by linarith
qed

text \<open>Integers below \<open>2 ^ 24\<close> are converted exactly.\<close>

lemma bit_len_le: "n < 2 ^ k \<Longrightarrow> bit_len n \<le> k"
proof (induction k arbitrary: n)
  case 0
  then show ?case by (simp add: bit_len.simps)
next
  case (Suc k)
  then have "n div 2 < 2 ^ k" by simp
  with Suc.IH show ?case by (subst bit_len.simps) auto
qed

lemma bit_len_shift: "0 < n \<Longrightarrow> bit_len (n * 2 ^ k) = bit_len n + k"
proof (induction k)
  case (Suc k)
  have "n * 2 ^ Suc k div 2 = n * 2 ^ k" by simp
  with Suc show ?case by (subst bit_len.simps) (simp add: not_le)
qed simp

lemma small_mag_wf:
  assumes "0 \<le> n" "n < 2 ^ 24"
  shows "f32_mag_wf (n * f32_scale)"
proof (cases "n = 0")
  case False
  then have "bit_len (n * f32_scale) - 24 \<le> 149" using bit_len_le [OF assms(2)] assms(1) bit_len_shift [of n 149]
    by linarith
  then have "2 ^ (bit_len (n * f32_scale) - 24) dvd f32_scale" by (rule le_imp_power_dvd)
  moreover have "n * f32_scale < 2 ^ 24 * f32_scale" using assms(2) by simp
  then have "n * f32_scale < 2 ^ 277" by simp
  ultimately show ?thesis using assms(1) by (simp add: f32_mag_wf_def dvd_mult)
qed (simp add: f32_mag_wf_def)

lemma f32_of_nat_exact:
  assumes "n < 2 ^ 24"
  shows "f32_of_nat n = Fin (int n * f32_scale)" "f32_wf (f32_of_nat n)"
    "f32_as_usize (f32_mul (f32_of_nat n) f32_one) = n"
proof -
  have wf: "f32_mag_wf (int n * f32_scale)" using assms by (intro small_mag_wf) (simp_all add: of_nat_less_iff)
  show e: "f32_of_nat n = Fin (int n * f32_scale)"
    using round_mag_exact [OF wf, of 1] by (simp add: f32_of_nat_def round_frac_def abs_mult)
  with wf show w: "f32_wf (f32_of_nat n)" by (simp add: f32_wf_def abs_mult)
  have "f32_mul (f32_of_nat n) f32_one = f32_mul f32_one (f32_of_nat n)"
    by (simp add: e f32_one_def mult.commute)
  with f32_mul_one [OF w] assms show "f32_as_usize (f32_mul (f32_of_nat n) f32_one) = n" by (simp add: e min_def)
qed

end
