(* ===== verification/Neighbor.thy ===== *)
theory Neighbor
  imports F32
begin

text \<open>
  \<open>diskann/src/neighbor/mod.rs\<close>: a candidate of a search, an identifier with its distance to
  the query.  Equality compares identifiers only, the order compares distances only; a distance
  that is not a number compares as equal to everything.
\<close>

datatype ordering = Less | Equal | Greater

record 'i neighbor =
  nbr_id :: 'i
  nbr_distance :: f32

definition neighbor_new :: "'i \<Rightarrow> f32 \<Rightarrow> 'i neighbor" where
  "neighbor_new i d = \<lparr>nbr_id = i, nbr_distance = d\<rparr>"

definition as_tuple :: "'i neighbor \<Rightarrow> 'i \<times> f32" where
  "as_tuple n = (nbr_id n, nbr_distance n)"

text \<open>\<open>Default\<close>: the default identifier (of the identifier type) at distance zero.\<close>

definition neighbor_default :: "'i \<Rightarrow> 'i neighbor" where
  "neighbor_default i = \<lparr>nbr_id = i, nbr_distance = f32_zero\<rparr>"

definition neighbor_eq :: "'i neighbor \<Rightarrow> 'i neighbor \<Rightarrow> bool" where
  "neighbor_eq a b \<longleftrightarrow> nbr_id a = nbr_id b"

definition f32_partial_cmp :: "f32 \<Rightarrow> f32 \<Rightarrow> ordering option" where
  "f32_partial_cmp x y =
     (if f32_lt x y then Some Less
      else if f32_eq x y then Some Equal
      else if f32_gt x y then Some Greater
      else None)"

text \<open>\<open>Ord::cmp\<close> and \<open>PartialOrd::lt\<close>, without the debug assertion that the two identifiers
  differ.\<close>

definition neighbor_cmp :: "'i neighbor \<Rightarrow> 'i neighbor \<Rightarrow> ordering" where
  "neighbor_cmp a b =
     (case f32_partial_cmp (nbr_distance a) (nbr_distance b) of Some c \<Rightarrow> c | None \<Rightarrow> Equal)"

definition neighbor_lt :: "'i neighbor \<Rightarrow> 'i neighbor \<Rightarrow> bool" where
  "neighbor_lt a b = f32_lt (nbr_distance a) (nbr_distance b)"

lemma neighbor_sel [simp]:
  "nbr_id (neighbor_new i d) = i" "nbr_distance (neighbor_new i d) = d"
  by (simp_all add: neighbor_new_def)

lemma neighbor_new_eta [simp]: "neighbor_new (nbr_id n) (nbr_distance n) = n"
  by (simp add: neighbor_new_def)

lemma neighbor_new_inject [simp]: "neighbor_new i d = neighbor_new j e \<longleftrightarrow> i = j \<and> d = e"
  by (auto simp: neighbor_new_def)

lemma as_tuple_roundtrip: "case as_tuple n of (i, d) \<Rightarrow> neighbor_new i d = n"
  by (simp add: as_tuple_def)

text \<open>On distances that are numbers, \<open>cmp\<close> is the linear order of the distances and agrees with
  \<open>lt\<close>; a NaN makes every comparison \<open>Equal\<close> and \<open>lt\<close> false.\<close>

lemma neighbor_cmp_numbers:
  assumes "nbr_distance a \<noteq> NaN" "nbr_distance b \<noteq> NaN"
  shows "neighbor_cmp a b =
    (if nbr_distance a < nbr_distance b then Less
     else if nbr_distance a = nbr_distance b then Equal else Greater)"
  using assms by (auto simp: neighbor_cmp_def f32_partial_cmp_def f32_cmp_defs)

lemma neighbor_cmp_NaN:
  assumes "nbr_distance a = NaN \<or> nbr_distance b = NaN"
  shows "neighbor_cmp a b = Equal" "\<not> neighbor_lt a b"
  using assms by (auto simp: neighbor_cmp_def neighbor_lt_def f32_partial_cmp_def f32_cmp_defs)

end
