(* ===== verification/Neighbor_Queue.thy ===== *)
theory Neighbor_Queue
  imports Neighbor
begin

text \<open>
  \<open>diskann/src/neighbor/queue.rs\<close>: the bounded priority queue of the greedy search.  The queue
  keeps the distances in one vector and the identifiers with their visited flags in another, so
  that the place of a new distance can be found eight lanes at a time; \<open>cursor\<close> is the index of
  the closest candidate that was not visited.

  Panics are faults, and so is an arithmetic underflow, which a checked build reports and a
  release build wraps.  \<open>insert\<close> has a debug assertion, that the identifier is not in the queue
  yet: \<open>npq_insert\<close> is the function of a build without debug assertions, \<open>npq_insert_debug\<close> the one
  of a build with them.  The two agree on a new identifier; inserting an identifier again is what
  the documentation forbids, and no property of \<open>insert\<close> is stated for it.
\<close>

record 'i npq =
  npq_size :: nat
  npq_capacity :: nat
  npq_cursor :: nat
  id_visiteds :: "('i \<times> bool) list"
  distances :: "f32 list"
  auto_resizable :: bool
  search_param_l :: nat

section \<open>Operations\<close>

definition npq_new :: "nat \<Rightarrow> 'i npq" where
  "npq_new l = \<lparr>npq_size = 0, npq_capacity = l, npq_cursor = 0, id_visiteds = [], distances = [],
     auto_resizable = False, search_param_l = l\<rparr>"

definition auto_resizable_with_search_param_l :: "nat \<Rightarrow> 'i npq" where
  "auto_resizable_with_search_param_l l =
     \<lparr>npq_size = 0, npq_capacity = l, npq_cursor = 0, id_visiteds = [], distances = [],
     auto_resizable = True, search_param_l = l\<rparr>"

text \<open>Eight lanes of \<open>f32x8\<close>: a full load, a load of the first \<open>n\<close> lanes (the others are zero),
  the lane-wise comparison, and the first set lane of a mask.\<close>

definition load_simd :: "f32 list \<Rightarrow> nat \<Rightarrow> f32 list" where
  "load_simd ds i = take 8 (drop i ds)"

definition load_simd_first :: "f32 list \<Rightarrow> nat \<Rightarrow> nat \<Rightarrow> f32 list" where
  "load_simd_first ds i n = (let m = min n 8 in take m (drop i ds) @ replicate (8 - m) f32_zero)"

definition ge_simd :: "f32 list \<Rightarrow> f32 \<Rightarrow> bool list" where
  "ge_simd lanes target = map (\<lambda>x. f32_ge x target) lanes"

fun mask_first :: "bool list \<Rightarrow> nat option" where
  "mask_first [] = None"
| "mask_first (b # bs) = (if b then Some 0 else map_option Suc (mask_first bs))"

text \<open>The loop of \<open>get_lower_bound\<close> over sixteen items at a time: \<open>Inl\<close> is a return from the
  function, \<open>Inr\<close> the index after the loop.\<close>

function lower_bound_loop :: "f32 list \<Rightarrow> f32 \<Rightarrow> nat \<Rightarrow> nat \<Rightarrow> nat + nat" where
  "lower_bound_loop ds target sz index =
     (if index + 16 \<le> sz then
        (let offset1 = mask_first (ge_simd (load_simd ds index) target);
             offset2 = mask_first (ge_simd (load_simd ds (index + 8)) target)
         in case (offset1, offset2) of
              (Some offset, _) \<Rightarrow> Inl (index + offset)
            | (None, Some offset) \<Rightarrow> Inl (index + 8 + offset)
            | (None, None) \<Rightarrow> lower_bound_loop ds target sz (index + 16))
      else Inr index)"
  by pat_completeness auto
termination
  by (relation "measure (\<lambda>(ds, target, sz, index). sz - index)") auto

declare lower_bound_loop.simps [simp del]

definition lower_bound_rest :: "f32 list \<Rightarrow> f32 \<Rightarrow> nat \<Rightarrow> nat \<Rightarrow> nat" where
  "lower_bound_rest ds target sz index =
     (if index < sz then
        (case mask_first (ge_simd (load_simd_first ds index (sz - index)) target) of
           Some offset \<Rightarrow> index + offset
         | None \<Rightarrow> sz)
      else sz)"

definition get_lower_bound :: "'i npq \<Rightarrow> 'i neighbor \<Rightarrow> nat" where
  "get_lower_bound q nbr =
     (let ds = distances q; target = nbr_distance nbr; sz = npq_size q in
      case lower_bound_loop ds target sz 0 of
        Inl r \<Rightarrow> r
      | Inr index \<Rightarrow>
          (if index + 8 \<le> sz then
             (case mask_first (ge_simd (load_simd ds index) target) of
                Some offset \<Rightarrow> index + offset
              | None \<Rightarrow> lower_bound_rest ds target sz (index + 8))
           else lower_bound_rest ds target sz index))"

text \<open>Unchecked access, for an index below the size.\<close>

definition get_unchecked :: "'i npq \<Rightarrow> nat \<Rightarrow> 'i neighbor" where
  "get_unchecked q index = neighbor_new (fst (id_visiteds q ! index)) (distances q ! index)"

definition npq_get :: "'i npq \<Rightarrow> nat \<Rightarrow> fault + 'i neighbor" where
  "npq_get q index = (if index < npq_size q then Inr (get_unchecked q index) else Inl AssertFault)"

definition npq_reserve :: "'i npq \<Rightarrow> nat \<Rightarrow> 'i npq" where
  "npq_reserve q additional = q\<lparr>npq_capacity := npq_capacity q + additional\<rparr>"

text \<open>The second half of \<open>insert\<close>: find the place, drop the last item of a full queue, shift and
  write.  \<open>Vec::insert\<close> panics on an index beyond the length.\<close>

definition insert_tail :: "'i npq \<Rightarrow> 'i neighbor \<Rightarrow> fault + 'i npq" where
  "insert_tail q nbr =
     (let insert_idx = (if 0 < npq_size q then get_lower_bound q nbr else 0);
          q1 = (if npq_size q = npq_capacity q
                then q\<lparr>id_visiteds := take (npq_size q - 1) (id_visiteds q),
                       distances := take (npq_size q - 1) (distances q),
                       npq_size := npq_size q - 1\<rparr>
                else q)
      in if length (id_visiteds q1) < insert_idx \<or> length (distances q1) < insert_idx
         then Inl IndexFault
         else Inr (q1\<lparr>id_visiteds := insert_at insert_idx (nbr_id nbr, False) (id_visiteds q1),
                      distances := insert_at insert_idx (nbr_distance nbr) (distances q1),
                      npq_size := npq_size q1 + 1,
                      npq_cursor := (if insert_idx < npq_cursor q1 then insert_idx
                                     else npq_cursor q1)\<rparr>))"

definition npq_insert :: "'i npq \<Rightarrow> 'i neighbor \<Rightarrow> fault + 'i npq" where
  "npq_insert q nbr =
     (if is_nan (nbr_distance nbr) then Inr q
      else if auto_resizable q then
        (if npq_size q = npq_capacity q
         then insert_tail (npq_reserve q (max 1 (npq_capacity q div 2))) nbr
         else insert_tail q nbr)
      else if npq_size q = npq_capacity q then
        (if npq_size q = 0 then Inl OverflowFault
         else if neighbor_lt (get_unchecked q (npq_size q - 1)) nbr then Inr q
         else insert_tail q nbr)
      else insert_tail q nbr)"

text \<open>\<open>dbgassert_unique_insert\<close> of a build with debug assertions, and \<open>insert\<close> in that build.\<close>

definition dbgassert_unique_insert :: "'i npq \<Rightarrow> 'i \<Rightarrow> bool" where
  "dbgassert_unique_insert q i \<longleftrightarrow> list_all (\<lambda>iv. fst iv \<noteq> i) (take (npq_size q) (id_visiteds q))"

definition npq_insert_debug :: "'i npq \<Rightarrow> 'i neighbor \<Rightarrow> fault + 'i npq" where
  "npq_insert_debug q nbr =
     (if is_nan (nbr_distance nbr) then Inr q
      else if dbgassert_unique_insert q (nbr_id nbr) then npq_insert q nbr
      else Inl AssertFault)"

definition drain_best :: "'i npq \<Rightarrow> nat \<Rightarrow> 'i npq" where
  "drain_best q count0 =
     (let count = min count0 (npq_size q) in
      q\<lparr>id_visiteds := drop count (id_visiteds q), distances := drop count (distances q),
        npq_size := npq_size q - count, npq_cursor := 0\<rparr>)"

text \<open>The items an iteration over the queue yields, in order (\<open>BestCandidatesIterator\<close>).\<close>

definition npq_iter :: "'i npq \<Rightarrow> 'i neighbor list" where
  "npq_iter q = map (get_unchecked q) [0..<min (search_param_l q) (npq_size q)]"

definition npq_remove :: "'i npq \<Rightarrow> 'i neighbor \<Rightarrow> bool \<times> 'i npq" where
  "npq_remove q nbr =
     (if npq_size q = 0 then (False, q)
      else
        let index = get_lower_bound q nbr in
        if index < npq_size q \<and> nbr_id (get_unchecked q index) = nbr_id nbr then
          (True, q\<lparr>id_visiteds := remove_at index (id_visiteds q),
                   distances := remove_at index (distances q),
                   npq_size := npq_size q - 1,
                   npq_cursor := (if index < npq_cursor q \<and> 0 < npq_cursor q
                                  then npq_cursor q - 1 else npq_cursor q)\<rparr>)
        else (False, q))"

definition has_notvisited_node :: "'i npq \<Rightarrow> bool" where
  "has_notvisited_node q \<longleftrightarrow> npq_cursor q < min (search_param_l q) (npq_size q)"

definition set_visited :: "'i npq \<Rightarrow> nat \<Rightarrow> bool \<Rightarrow> fault + 'i npq" where
  "set_visited q index flag =
     (if index < npq_size q \<and> npq_size q \<le> npq_capacity q
      then Inr (q\<lparr>id_visiteds := (id_visiteds q)[index := (fst (id_visiteds q ! index), flag)]\<rparr>)
      else Inl AssertFault)"

definition get_visited :: "'i npq \<Rightarrow> nat \<Rightarrow> fault + bool" where
  "get_visited q index =
     (if index < npq_size q then Inr (snd (id_visiteds q ! index)) else Inl AssertFault)"

function advance_cursor :: "('i \<times> bool) list \<Rightarrow> nat \<Rightarrow> nat \<Rightarrow> nat" where
  "advance_cursor ivs sz c = (if c < sz \<and> snd (ivs ! c) then advance_cursor ivs sz (c + 1) else c)"
  by pat_completeness auto
termination
  by (relation "measure (\<lambda>(ivs, sz, c). sz - c)") auto

declare advance_cursor.simps [simp del]

definition closest_notvisited :: "'i npq \<Rightarrow> fault + ('i neighbor option \<times> 'i npq)" where
  "closest_notvisited q =
     (if \<not> has_notvisited_node q then Inr (None, q)
      else
        let current = npq_cursor q in
        rbind (set_visited q current True) (\<lambda>q1.
          let q2 = q1\<lparr>npq_cursor := advance_cursor (id_visiteds q1) (npq_size q1) (current + 1)\<rparr>
          in Inr (Some (get_unchecked q2 current), q2)))"

definition reconfigure :: "'i npq \<Rightarrow> nat \<Rightarrow> 'i npq" where
  "reconfigure q l =
     (let q1 = (if l < npq_size q
                then q\<lparr>id_visiteds := take l (id_visiteds q), distances := take l (distances q),
                       npq_size := l, npq_cursor := min (npq_cursor q) l\<rparr>
                else q)
      in q1\<lparr>search_param_l := l, npq_capacity := l\<rparr>)"

definition npq_clear :: "'i npq \<Rightarrow> 'i npq" where
  "npq_clear q = q\<lparr>id_visiteds := [], distances := [], npq_size := 0, npq_cursor := 0\<rparr>"

definition is_full :: "'i npq \<Rightarrow> bool" where
  "is_full q \<longleftrightarrow> \<not> auto_resizable q \<and> npq_size q = npq_capacity q"

definition npq_truncate :: "'i npq \<Rightarrow> nat \<Rightarrow> 'i npq" where
  "npq_truncate q len =
     (if len < npq_size q
      then q\<lparr>id_visiteds := take len (id_visiteds q), distances := take len (distances q),
             npq_size := len, npq_cursor := 0\<rparr>
      else q)"

text \<open>The in-place compaction of \<open>retain\<close>: \<open>n\<close> items are left to read, the next one at
  \<open>read_idx\<close>; kept items are written at \<open>write_idx\<close>.\<close>

fun retain_loop :: "('i neighbor \<Rightarrow> bool) \<Rightarrow> nat \<Rightarrow> nat \<Rightarrow> nat \<Rightarrow> 'i npq \<Rightarrow> nat \<times> 'i npq" where
  "retain_loop f 0 read_idx write_idx q = (write_idx, q)"
| "retain_loop f (Suc n) read_idx write_idx q =
     (if f (get_unchecked q read_idx) then
        let q1 = (if write_idx \<noteq> read_idx
                  then q\<lparr>id_visiteds := (id_visiteds q)[write_idx := id_visiteds q ! read_idx],
                         distances := (distances q)[write_idx := distances q ! read_idx]\<rparr>
                  else q);
            q2 = q1\<lparr>id_visiteds :=
                      (id_visiteds q1)[write_idx := (fst (id_visiteds q1 ! write_idx), False)]\<rparr>
        in retain_loop f n (Suc read_idx) (Suc write_idx) q2
      else retain_loop f n (Suc read_idx) write_idx q)"

definition npq_retain :: "('i neighbor \<Rightarrow> bool) \<Rightarrow> 'i npq \<Rightarrow> 'i npq" where
  "npq_retain f q =
     (if npq_size q = 0 then q
      else case retain_loop f (npq_size q) 0 0 q of (write_idx, q1) \<Rightarrow> npq_truncate q1 write_idx)"

section \<open>The place of a new distance\<close>

lemma mask_first_map:
  "mask_first (map P xs) = (if \<exists>x\<in>set xs. P x then Some (first_index P xs) else None)"
  by (induction xs) auto

lemma first_index_drop:
  assumes "\<forall>x\<in>set (take i xs). \<not> P x" "i \<le> length xs"
  shows "first_index P xs = i + first_index P (drop i xs)"
proof -
  have "first_index P (take i xs @ drop i xs) = i + first_index P (drop i xs)"
    using assms by (simp only: first_index_append) auto
  then show ?thesis by simp
qed

lemma first_index_block:
  assumes "\<exists>x\<in>set (take n xs). P x"
  shows "first_index P xs = first_index P (take n xs)"
proof -
  have "first_index P (take n xs @ drop n xs) = first_index P (take n xs)"
    using assms by (simp only: first_index_append) auto
  then show ?thesis by simp
qed

lemma set_take_add: "set (take (i + n) xs) = set (take i xs) \<union> set (take n (drop i xs))"
  by (simp add: take_add)

text \<open>One block of eight lanes: a hit is the first index of the whole vector, a miss extends the
  prefix that is known to be below the target.\<close>

lemma load_simd_hit:
  assumes "\<forall>x\<in>set (take i ds). \<not> f32_ge x t" "i \<le> length ds"
    and "mask_first (ge_simd (load_simd ds i) t) = Some off"
  shows "first_index (\<lambda>x. f32_ge x t) ds = i + off"
proof -
  let ?P = "\<lambda>x. f32_ge x t"
  have "\<exists>x\<in>set (take 8 (drop i ds)). ?P x" and off: "off = first_index ?P (take 8 (drop i ds))"
    using assms(3) by (auto simp: ge_simd_def load_simd_def mask_first_map split: if_splits)
  then have "first_index ?P (drop i ds) = off" using first_index_block by simp
  then show ?thesis using first_index_drop [OF assms(1,2)] by simp
qed

lemma load_simd_miss:
  assumes "\<forall>x\<in>set (take i ds). \<not> f32_ge x t"
    and "mask_first (ge_simd (load_simd ds i) t) = None"
  shows "\<forall>x\<in>set (take (i + 8) ds). \<not> f32_ge x t"
  using assms
  by (auto simp: ge_simd_def load_simd_def mask_first_map set_take_add split: if_splits)

lemma lower_bound_loop_correct:
  assumes "\<forall>x\<in>set (take index ds). \<not> f32_ge x t" "index \<le> length ds"
  shows "case lower_bound_loop ds t (length ds) index of
      Inl r \<Rightarrow> r = first_index (\<lambda>x. f32_ge x t) ds
    | Inr i \<Rightarrow> i \<le> length ds \<and> length ds < i + 16 \<and> (\<forall>x\<in>set (take i ds). \<not> f32_ge x t)"
  using assms
proof (induction ds t "length ds" index rule: lower_bound_loop.induct)
  case (1 ds t index)
  show ?case
  proof (cases "index + 16 \<le> length ds")
    case False
    with "1.prems" show ?thesis by (simp add: lower_bound_loop.simps)
  next
    case True
    let ?m1 = "mask_first (ge_simd (load_simd ds index) t)"
    let ?m2 = "mask_first (ge_simd (load_simd ds (index + 8)) t)"
    show ?thesis
    proof (cases ?m1)
      case (Some off)
      then show ?thesis using True load_simd_hit [OF "1.prems" Some]
        by (simp add: lower_bound_loop.simps)
    next
      case None
      then have pre8: "\<forall>x\<in>set (take (index + 8) ds). \<not> f32_ge x t"
        using load_simd_miss "1.prems"(1) by blast
      show ?thesis
      proof (cases ?m2)
        case (Some off)
        have "index + 8 \<le> length ds" using True by simp
        from load_simd_hit [OF pre8 this Some] show ?thesis using True None Some
          by (simp add: lower_bound_loop.simps)
      next
        case None2: None
        then have "\<forall>x\<in>set (take (index + 16) ds). \<not> f32_ge x t"
          using load_simd_miss [OF pre8] by (simp add: add.assoc)
        from "1.hyps" [OF True refl refl _ None None2 this] True None None2 show ?thesis
          by (subst lower_bound_loop.simps) simp
      qed
    qed
  qed
qed

text \<open>The tail of fewer than eight items: the zero lanes beyond the end may compare as greater
  than the target, but the first of them is exactly the size of the queue.\<close>

lemma lower_bound_rest_correct:
  assumes pre: "\<forall>x\<in>set (take i ds). \<not> f32_ge x t" and le: "i \<le> length ds"
    and small: "length ds < i + 8"
  shows "lower_bound_rest ds t (length ds) i = first_index (\<lambda>x. f32_ge x t) ds"
proof (cases "i < length ds")
  case False
  with pre le have "first_index (\<lambda>x. f32_ge x t) ds = length ds" by (simp add: first_index_none)
  with False show ?thesis by (simp add: lower_bound_rest_def)
next
  case True
  let ?P = "\<lambda>x. f32_ge x t"
  let ?zs = "replicate (8 - (length ds - i)) f32_zero"
  have lanes: "load_simd_first ds i (length ds - i) = drop i ds @ ?zs"
    using small by (simp add: load_simd_first_def Let_def)
  have idx: "first_index ?P ds = i + first_index ?P (drop i ds)"
    by (rule first_index_drop [OF pre le])
  have app: "first_index ?P (drop i ds @ ?zs)
      = (if \<exists>x\<in>set (drop i ds). ?P x then first_index ?P (drop i ds)
         else length ds - i + first_index ?P ?zs)"
    by (simp add: first_index_append)
  have z: "\<exists>x\<in>set ?zs. ?P x \<Longrightarrow> first_index ?P ?zs = 0"
    using small by (cases "8 - (length ds - i)") auto
  have none: "\<forall>x\<in>set (drop i ds). \<not> ?P x \<Longrightarrow> first_index ?P (drop i ds) = length ds - i"
    by (simp add: first_index_none)
  show ?thesis
  proof (cases "\<exists>x\<in>set (drop i ds). ?P x")
    case hit: True
    then have "\<exists>x\<in>set (drop i ds @ ?zs). ?P x" by auto
    then have "mask_first (ge_simd (load_simd_first ds i (length ds - i)) t)
        = Some (first_index ?P (drop i ds))"
      unfolding ge_simd_def lanes mask_first_map using hit app by simp
    with True idx show ?thesis by (simp add: lower_bound_rest_def)
  next
    case miss: False
    then have "first_index ?P ds = length ds" using idx none True by simp
    moreover have "mask_first (ge_simd (load_simd_first ds i (length ds - i)) t) \<in>
        {None, Some (length ds - i)}"
      unfolding ge_simd_def lanes mask_first_map using miss app z by auto
    ultimately show ?thesis using True by (auto simp: lower_bound_rest_def)
  qed
qed

lemma get_lower_bound_first_index:
  assumes "npq_size q = length (distances q)"
  shows "get_lower_bound q nbr = first_index (\<lambda>x. f32_ge x (nbr_distance nbr)) (distances q)"
proof -
  let ?ds = "distances q" and ?t = "nbr_distance nbr"
  have loop: "case lower_bound_loop ?ds ?t (length ?ds) 0 of
      Inl r \<Rightarrow> r = first_index (\<lambda>x. f32_ge x ?t) ?ds
    | Inr i \<Rightarrow> i \<le> length ?ds \<and> length ?ds < i + 16 \<and> (\<forall>x\<in>set (take i ?ds). \<not> f32_ge x ?t)"
    by (rule lower_bound_loop_correct) simp_all
  show ?thesis
  proof (cases "lower_bound_loop ?ds ?t (length ?ds) 0")
    case (Inl r)
    with loop assms show ?thesis by (simp add: get_lower_bound_def)
  next
    case (Inr i)
    with loop have i: "i \<le> length ?ds" "length ?ds < i + 16" "\<forall>x\<in>set (take i ?ds). \<not> f32_ge x ?t"
      by auto
    show ?thesis
    proof (cases "i + 8 \<le> length ?ds")
      case False
      with lower_bound_rest_correct [OF i(3,1)] Inr assms show ?thesis
        by (simp add: get_lower_bound_def)
    next
      case True
      show ?thesis
      proof (cases "mask_first (ge_simd (load_simd ?ds i) ?t)")
        case None
        from lower_bound_rest_correct [OF load_simd_miss [OF i(3) None] True] i(2)
        have "lower_bound_rest ?ds ?t (length ?ds) (i + 8) = first_index (\<lambda>x. f32_ge x ?t) ?ds"
          by simp
        with True None Inr assms show ?thesis by (simp add: get_lower_bound_def)
      next
        case (Some off)
        from load_simd_hit [OF i(3,1) Some] True Some Inr assms show ?thesis
          by (simp add: get_lower_bound_def)
      qed
    qed
  qed
qed

section \<open>The invariant\<close>

text \<open>The abstract content of a queue: its entries in order, each a distance with an identifier
  and its visited flag.\<close>

type_synonym 'i entry = "f32 \<times> 'i \<times> bool"

definition npq_entries :: "'i npq \<Rightarrow> 'i entry list" where
  "npq_entries q = zip (distances q) (id_visiteds q)"

definition npq_wf :: "'i npq \<Rightarrow> bool" where
  "npq_wf q \<longleftrightarrow> npq_size q = length (id_visiteds q) \<and> npq_size q = length (distances q)
     \<and> npq_size q \<le> npq_capacity q \<and> NaN \<notin> set (distances q) \<and> sorted (distances q)"

definition unvisited :: "'i \<times> bool \<Rightarrow> bool" where
  "unvisited e \<longleftrightarrow> \<not> snd e"

definition cursor_ok :: "'i npq \<Rightarrow> bool" where
  "cursor_ok q \<longleftrightarrow> npq_cursor q = first_index unvisited (id_visiteds q)"

definition npq_inv :: "'i npq \<Rightarrow> bool" where
  "npq_inv q \<longleftrightarrow> npq_wf q \<and> cursor_ok q"

lemma npq_wfD:
  assumes "npq_wf q"
  shows "length (id_visiteds q) = npq_size q" "length (distances q) = npq_size q"
    "npq_size q \<le> npq_capacity q" "NaN \<notin> set (distances q)" "sorted (distances q)"
  using assms by (auto simp: npq_wf_def)

lemma map_fst_entries: "npq_wf q \<Longrightarrow> map fst (npq_entries q) = distances q"
  by (simp add: npq_entries_def npq_wf_def)

lemma map_snd_entries: "npq_wf q \<Longrightarrow> map snd (npq_entries q) = id_visiteds q"
  by (simp add: npq_entries_def npq_wf_def)

lemma length_entries: "npq_wf q \<Longrightarrow> length (npq_entries q) = npq_size q"
  by (simp add: npq_entries_def npq_wf_def)

lemma npq_inv_new [simp]: "npq_inv (npq_new l)"
  by (simp add: npq_inv_def npq_wf_def cursor_ok_def npq_new_def)

lemma npq_inv_auto [simp]: "npq_inv (auto_resizable_with_search_param_l l)"
  by (simp add: npq_inv_def npq_wf_def cursor_ok_def auto_resizable_with_search_param_l_def)

section \<open>Insertion\<close>

text \<open>The reference: insert before the first entry at least as far away.\<close>

definition ins_entry :: "f32 \<Rightarrow> 'i \<Rightarrow> 'i entry list \<Rightarrow> 'i entry list" where
  "ins_entry d i es = insert_at (first_index (\<lambda>e. d \<le> fst e) es) (d, i, False) es"

lemma lower_bound_entries:
  assumes "npq_wf q" "nbr_distance nbr \<noteq> NaN"
  shows "get_lower_bound q nbr = first_index (\<lambda>e. nbr_distance nbr \<le> fst e) (npq_entries q)"
proof -
  have "get_lower_bound q nbr = first_index (\<lambda>x. f32_ge x (nbr_distance nbr)) (distances q)"
    using assms by (intro get_lower_bound_first_index) (simp add: npq_wf_def)
  also have "\<dots> = first_index (\<lambda>x. nbr_distance nbr \<le> x) (distances q)"
    using assms npq_wfD(4) [OF assms(1)] by (intro first_index_cong) (auto simp: f32_cmp_defs)
  also have "\<dots> = first_index (\<lambda>e. nbr_distance nbr \<le> fst e) (npq_entries q)"
    by (simp flip: map_fst_entries [OF assms(1)] add: first_index_map)
  finally show ?thesis .
qed

lemma lower_bound_distances:
  assumes "npq_wf q" "nbr_distance nbr \<noteq> NaN"
  shows "get_lower_bound q nbr = first_index (\<lambda>x. nbr_distance nbr \<le> x) (distances q)"
  using lower_bound_entries [OF assms] map_fst_entries [OF assms(1)]
  by (metis (no_types, lifting) first_index_cong first_index_map)

lemma map_fst_ins_entry:
  assumes "sorted (map fst es)"
  shows "map fst (ins_entry d i es) = insort d (map fst es)"
  unfolding ins_entry_def map_insert_at using insert_at_first_sort [OF assms, of d]
  by (simp add: first_index_map)

lemma insert_tail_spec:
  assumes wf: "npq_wf q" and num: "nbr_distance nbr \<noteq> NaN"
    and room: "npq_size q < npq_capacity q
      \<or> (0 < npq_size q \<and> nbr_distance nbr \<le> last (distances q))"
  obtains q' where "insert_tail q nbr = Inr q'" and "npq_wf q'"
    and "npq_entries q' = take (npq_capacity q) (ins_entry (nbr_distance nbr) (nbr_id nbr) (npq_entries q))"
    and "npq_capacity q' = npq_capacity q" "auto_resizable q' = auto_resizable q"
      "search_param_l q' = search_param_l q"
    and "cursor_ok q \<Longrightarrow> cursor_ok q'"
proof -
  let ?d = "nbr_distance nbr"
  note w = npq_wfD [OF wf]
  define i where "i = first_index (\<lambda>x. ?d \<le> x) (distances q)"
  have i_le: "i \<le> npq_size q" using first_index_le [of _ "distances q"] w(2) by (simp add: i_def)
  have idx: "(if 0 < npq_size q then get_lower_bound q nbr else 0) = i"
    using lower_bound_distances [OF wf num] w(2) by (auto simp: i_def)
  have i_ent: "first_index (\<lambda>e. ?d \<le> fst e) (npq_entries q) = i"
    by (simp add: i_def first_index_map flip: map_fst_entries [OF wf])
  define n where "n = (if npq_size q = npq_capacity q then npq_size q - 1 else npq_size q)"
  define ids where "ids = insert_at i (nbr_id nbr, False) (take n (id_visiteds q))"
  define ds where "ds = insert_at i ?d (take n (distances q))"
  have i_n: "i \<le> n"
  proof (cases "npq_size q = npq_capacity q")
    case True
    with room have pos: "0 < npq_size q" and "?d \<le> last (distances q)" by auto
    moreover have "last (distances q) \<in> set (distances q)" using pos w(2) by (intro last_in_set) auto
    ultimately have "i < npq_size q" using w(2) first_index_lt_iff [of "\<lambda>x. ?d \<le> x" "distances q"]
      by (auto simp: i_def)
    then show ?thesis by (auto simp: n_def)
  qed (simp add: n_def i_le)
  have n_le: "n \<le> npq_size q" by (simp add: n_def)
  define q' where "q' = q\<lparr>id_visiteds := ids, distances := ds, npq_size := n + 1,
    npq_cursor := (if i < npq_cursor q then i else npq_cursor q)\<rparr>"
  have "insert_tail q nbr = Inr q'"
    using w n_le i_n unfolding insert_tail_def idx q'_def ids_def ds_def n_def by (auto simp: Let_def)
  moreover have ent: "npq_entries q' = take (npq_capacity q) (ins_entry ?d (nbr_id nbr) (npq_entries q))"
  proof -
    have "npq_entries q' = insert_at i (?d, nbr_id nbr, False) (take n (npq_entries q))"
      using w n_le by (simp add: npq_entries_def q'_def ids_def ds_def zip_insert_at take_zip)
    also have "\<dots> = take (npq_capacity q) (insert_at i (?d, nbr_id nbr, False) (npq_entries q))"
    proof (cases "npq_size q = npq_capacity q")
      case True
      with room have "0 < npq_size q" by auto
      then show ?thesis using take_insert_at_full [of "npq_entries q" i] i_n True length_entries [OF wf]
        by (simp add: n_def)
    next
      case False
      with w(3) have "Suc (npq_size q) \<le> npq_capacity q" by simp
      then show ?thesis using length_entries [OF wf] by (simp add: n_def False)
    qed
    finally show ?thesis by (simp add: ins_entry_def i_ent)
  qed
  moreover have "npq_wf q'"
  proof -
    have "sorted ds"
    proof -
      have fi: "first_index (\<lambda>x. ?d \<le> x) (take n (distances q)) = i"
        using n_le w(2) i_n by (simp add: first_index_take i_def)
      have "sorted (take n (distances q))" using w(5) by (rule sorted_wrt_take)
      then show ?thesis using sorted_insert_at_first [of "take n (distances q)" ?d]
        by (simp add: ds_def fi)
    qed
    moreover have "NaN \<notin> set ds" using num w(4) by (auto simp: ds_def dest: in_set_takeD)
    moreover have "n + 1 \<le> npq_capacity q" using w(3) room by (auto simp: n_def)
    ultimately show ?thesis using w n_le by (simp add: npq_wf_def q'_def ids_def ds_def)
  qed
  moreover have "cursor_ok q'" if "cursor_ok q"
  proof -
    have "first_index unvisited ids = min i (first_index unvisited (id_visiteds q))"
      using i_n n_le w(1)
      by (simp add: ids_def first_index_insert_at first_index_take unvisited_def)
    with that show ?thesis by (simp add: cursor_ok_def q'_def min_def)
  qed
  ultimately show ?thesis using that by (simp add: q'_def)
qed

text \<open>What a queue of fixed capacity keeps, and what a resizable one keeps.\<close>

definition keep_best :: "'i npq \<Rightarrow> 'a list \<Rightarrow> 'a list" where
  "keep_best q es = (if auto_resizable q then es else take (npq_capacity q) es)"

lemma npq_insert_full_far:
  assumes wf: "npq_wf q" and num: "nbr_distance nbr \<noteq> NaN" and pos: "0 < npq_size q"
    and full: "npq_size q = npq_capacity q" and far: "last (distances q) < nbr_distance nbr"
  shows "take (npq_capacity q) (ins_entry (nbr_distance nbr) (nbr_id nbr) (npq_entries q)) = npq_entries q"
proof -
  note w = npq_wfD [OF wf]
  have "\<forall>x\<in>set (distances q). \<not> nbr_distance nbr \<le> x"
  proof
    fix x assume "x \<in> set (distances q)"
    then have "x \<le> last (distances q)" using w(5)
      by (metis in_set_conv_nth last_conv_nth length_pos_if_in_set length_greater_0_conv
          less_Suc_eq_le One_nat_def Suc_pred diff_less sorted_nth_mono zero_less_one)
    with far show "\<not> nbr_distance nbr \<le> x" by simp
  qed
  then have "first_index (\<lambda>e. nbr_distance nbr \<le> fst e) (npq_entries q) = npq_size q"
    using w(2) by (simp add: first_index_none flip: map_fst_entries [OF wf] length_entries [OF wf])
  then show ?thesis using length_entries [OF wf] full by (simp add: ins_entry_def insert_at_def)
qed

lemma npq_insert_spec:
  assumes inv: "npq_wf q" and num: "nbr_distance nbr \<noteq> NaN"
    and cap: "auto_resizable q \<or> 0 < npq_capacity q"
  obtains q' where "npq_insert q nbr = Inr q'" and "npq_wf q'"
    and "npq_entries q' = keep_best q (ins_entry (nbr_distance nbr) (nbr_id nbr) (npq_entries q))"
    and "auto_resizable q' = auto_resizable q" "search_param_l q' = search_param_l q"
      "npq_capacity q \<le> npq_capacity q'" "\<not> auto_resizable q \<Longrightarrow> npq_capacity q' = npq_capacity q"
    and "cursor_ok q \<Longrightarrow> cursor_ok q'"
proof (cases "auto_resizable q")
  case True
  define q0 where "q0 = (if npq_size q = npq_capacity q
    then npq_reserve q (max 1 (npq_capacity q div 2)) else q)"
  have ins: "npq_insert q nbr = insert_tail q0 nbr"
    using True num by (simp add: npq_insert_def q0_def is_nan_def)
  have wf0: "npq_wf q0" and ent: "npq_entries q0 = npq_entries q"
    and room: "npq_size q0 < npq_capacity q0" and le: "npq_capacity q \<le> npq_capacity q0"
    and rest: "auto_resizable q0" "search_param_l q0 = search_param_l q"
    and cur: "cursor_ok q0 = cursor_ok q"
    using inv True
    by (auto simp: q0_def npq_reserve_def npq_wf_def npq_entries_def cursor_ok_def)
  from insert_tail_spec [OF wf0 num] room obtain q' where q':
    "insert_tail q0 nbr = Inr q'" "npq_wf q'"
    "npq_entries q' = take (npq_capacity q0) (ins_entry (nbr_distance nbr) (nbr_id nbr) (npq_entries q0))"
    "npq_capacity q' = npq_capacity q0" "auto_resizable q' = auto_resizable q0"
    "search_param_l q' = search_param_l q0" "cursor_ok q0 \<Longrightarrow> cursor_ok q'"
    by metis
  have "length (ins_entry (nbr_distance nbr) (nbr_id nbr) (npq_entries q)) \<le> npq_capacity q0"
    using room length_entries [OF wf0] by (simp add: ins_entry_def ent)
  with q' have "npq_entries q' = keep_best q (ins_entry (nbr_distance nbr) (nbr_id nbr) (npq_entries q))"
    by (simp add: keep_best_def True ent)
  with that q' show ?thesis using ins rest le cur True by simp
next
  case False
  note w = npq_wfD [OF inv]
  show ?thesis
  proof (cases "npq_size q = npq_capacity q \<and> last (distances q) < nbr_distance nbr")
    case True
    with cap False have pos: "0 < npq_size q" by auto
    then have "last (distances q) = distances q ! (npq_size q - 1)"
      using w(2) by (metis last_conv_nth length_greater_0_conv)
    moreover have "distances q ! (npq_size q - 1) \<noteq> NaN"
      using pos w(2,4) by (metis diff_less nth_mem zero_less_one)
    ultimately have "npq_insert q nbr = Inr q"
      using True False pos num
      by (simp add: npq_insert_def is_nan_def neighbor_lt_def get_unchecked_def f32_lt_def)
    with that [of q] npq_insert_full_far [OF inv num pos] True False inv show ?thesis
      by (simp add: keep_best_def)
  next
    case near: False
    have ins: "npq_insert q nbr = insert_tail q nbr"
    proof (cases "npq_size q = npq_capacity q")
      case True
      with cap False have pos: "0 < npq_size q" by auto
      then have "last (distances q) = distances q ! (npq_size q - 1)"
        using w(2) by (metis last_conv_nth length_greater_0_conv)
      then show ?thesis using True False near pos num
        by (simp add: npq_insert_def is_nan_def neighbor_lt_def get_unchecked_def f32_lt_def)
    qed (use False num in \<open>simp add: npq_insert_def is_nan_def\<close>)
    have room: "npq_size q < npq_capacity q
        \<or> (0 < npq_size q \<and> nbr_distance nbr \<le> last (distances q))"
      using near w(3) cap False by auto
    from insert_tail_spec [OF inv num room] obtain q' where q':
      "insert_tail q nbr = Inr q'" "npq_wf q'"
      "npq_entries q' = take (npq_capacity q) (ins_entry (nbr_distance nbr) (nbr_id nbr) (npq_entries q))"
      "npq_capacity q' = npq_capacity q" "auto_resizable q' = auto_resizable q"
      "search_param_l q' = search_param_l q" "cursor_ok q \<Longrightarrow> cursor_ok q'"
      by metis
    with that ins False show ?thesis by (simp add: keep_best_def)
  qed
qed

lemma npq_insert_NaN: "nbr_distance nbr = NaN \<Longrightarrow> npq_insert q nbr = Inr q"
  by (simp add: npq_insert_def is_nan_def)

lemma npq_insert_zero_capacity:
  assumes "npq_wf q" "\<not> auto_resizable q" "npq_capacity q = 0" "nbr_distance nbr \<noteq> NaN"
  shows "npq_insert q nbr = Inl OverflowFault"
  using assms npq_wfD(3) [OF assms(1)] by (simp add: npq_insert_def is_nan_def)

lemma sorted_map_fst_entries: "npq_wf q \<Longrightarrow> sorted (map fst (npq_entries q))"
  by (simp add: map_fst_entries npq_wfD)

lemma npq_insert_distances:
  assumes "npq_wf q" "nbr_distance nbr \<noteq> NaN" "auto_resizable q \<or> 0 < npq_capacity q"
    and "npq_insert q nbr = Inr q'"
  shows "distances q' = keep_best q (insort (nbr_distance nbr) (distances q))"
proof -
  from npq_insert_spec [OF assms(1-3)] assms(4) have wf: "npq_wf q'"
    and ent: "npq_entries q' = keep_best q (ins_entry (nbr_distance nbr) (nbr_id nbr) (npq_entries q))"
    by (metis sum.inject(2))+
  have "distances q' = map fst (npq_entries q')" by (simp add: map_fst_entries [OF wf])
  also have "\<dots> = keep_best q (insort (nbr_distance nbr) (distances q))"
    unfolding ent using map_fst_ins_entry [OF sorted_map_fst_entries [OF assms(1)]]
    by (simp add: keep_best_def map_fst_entries [OF assms(1)] flip: take_map)
  finally show ?thesis .
qed

section \<open>Visiting\<close>

lemma advance_cursor_first:
  assumes "c \<le> length ivs"
  shows "advance_cursor ivs (length ivs) c = c + first_index unvisited (drop c ivs)"
  using assms
proof (induction ivs "length ivs" c rule: advance_cursor.induct)
  case (1 ivs c)
  show ?case
  proof (cases "c < length ivs")
    case False
    with "1.prems" show ?thesis by (simp add: advance_cursor.simps)
  next
    case True
    then have d: "drop c ivs = ivs ! c # drop (Suc c) ivs" by (simp add: Cons_nth_drop_Suc)
    show ?thesis
    proof (cases "snd (ivs ! c)")
      case False
      then show ?thesis by (simp add: advance_cursor.simps d unvisited_def)
    next
      case vis: True
      with True 1 have "advance_cursor ivs (length ivs) (c + 1)
          = c + 1 + first_index unvisited (drop (c + 1) ivs)"
        by simp
      with True vis show ?thesis by (subst advance_cursor.simps) (simp add: d unvisited_def)
    qed
  qed
qed

definition visit_entry :: "nat \<Rightarrow> 'i entry list \<Rightarrow> 'i entry list" where
  "visit_entry c es = es[c := (fst (es ! c), fst (snd (es ! c)), True)]"

definition entry_unvisited :: "'i entry \<Rightarrow> bool" where
  "entry_unvisited e \<longleftrightarrow> \<not> snd (snd e)"

lemma first_index_entry_unvisited:
  "npq_wf q \<Longrightarrow> first_index entry_unvisited (npq_entries q) = first_index unvisited (id_visiteds q)"
  by (simp flip: map_snd_entries add: first_index_map entry_unvisited_def [abs_def] unvisited_def)

definition entry_nbr :: "'i entry \<Rightarrow> 'i neighbor" where
  "entry_nbr e = neighbor_new (fst (snd e)) (fst e)"

lemma get_unchecked_entry:
  assumes "npq_wf q" "i < npq_size q"
  shows "get_unchecked q i = entry_nbr (npq_entries q ! i)"
  using assms by (simp add: get_unchecked_def entry_nbr_def npq_entries_def npq_wf_def)

lemma has_notvisited_iff:
  assumes "npq_inv q"
  shows "has_notvisited_node q \<longleftrightarrow> (\<exists>e\<in>set (take (search_param_l q) (npq_entries q)). entry_unvisited e)"
proof -
  from assms have wf: "npq_wf q" and c: "npq_cursor q = first_index entry_unvisited (npq_entries q)"
    by (auto simp: npq_inv_def cursor_ok_def first_index_entry_unvisited)
  let ?es = "npq_entries q" and ?n = "min (search_param_l q) (npq_size q)"
  have "take (search_param_l q) ?es = take ?n ?es"
    using length_entries [OF wf] by (simp add: min_def)
  moreover have "first_index entry_unvisited (take ?n ?es) = min ?n (npq_cursor q)"
    using length_entries [OF wf] by (simp add: first_index_take c)
  moreover have "length (take ?n ?es) = ?n" using length_entries [OF wf] by simp
  ultimately have "min ?n (npq_cursor q) < ?n
      \<longleftrightarrow> (\<exists>e\<in>set (take (search_param_l q) ?es). entry_unvisited e)"
    using first_index_lt_iff [of entry_unvisited "take ?n ?es"] by simp
  moreover have "min ?n (npq_cursor q) < ?n \<longleftrightarrow> npq_cursor q < ?n" by linarith
  ultimately show ?thesis unfolding has_notvisited_node_def by blast
qed

lemma closest_notvisited_None:
  "\<not> has_notvisited_node q \<Longrightarrow> closest_notvisited q = Inr (None, q)"
  by (simp add: closest_notvisited_def)

lemma closest_notvisited_Some:
  assumes inv: "npq_inv q" and has: "has_notvisited_node q"
  obtains q' where "closest_notvisited q = Inr (Some (entry_nbr (npq_entries q ! npq_cursor q)), q')"
    and "npq_inv q'" and "npq_entries q' = visit_entry (npq_cursor q) (npq_entries q)"
    and "search_param_l q' = search_param_l q" "npq_capacity q' = npq_capacity q"
      "auto_resizable q' = auto_resizable q" "npq_size q' = npq_size q"
proof -
  from inv have wf: "npq_wf q" and c: "npq_cursor q = first_index unvisited (id_visiteds q)"
    by (auto simp: npq_inv_def cursor_ok_def)
  note w = npq_wfD [OF wf]
  let ?c = "npq_cursor q"
  from has have lt: "?c < npq_size q" by (simp add: has_notvisited_node_def)
  define ids where "ids = (id_visiteds q)[?c := (fst (id_visiteds q ! ?c), True)]"
  define q' where "q' = q\<lparr>id_visiteds := ids, npq_cursor := advance_cursor ids (npq_size q) (?c + 1)\<rparr>"
  have lids: "length ids = npq_size q" by (simp add: ids_def w)
  have "closest_notvisited q = Inr (Some (entry_nbr (npq_entries q ! ?c)), q')"
    using has lt w unfolding closest_notvisited_def set_visited_def
    by (simp add: Let_def q'_def ids_def get_unchecked_def entry_nbr_def npq_entries_def)
  moreover have ent: "npq_entries q' = visit_entry ?c (npq_entries q)"
    using lt w by (simp add: npq_entries_def q'_def ids_def visit_entry_def update_zip)
  moreover have "npq_inv q'"
  proof -
    have "advance_cursor ids (npq_size q) (?c + 1) = ?c + 1 + first_index unvisited (drop (?c + 1) ids)"
      using advance_cursor_first [of "?c + 1" ids] lt lids by simp
    also have "drop (?c + 1) ids = drop (?c + 1) (id_visiteds q)" by (simp add: ids_def)
    also have "?c + 1 + first_index unvisited (drop (?c + 1) (id_visiteds q)) = first_index unvisited ids"
      using first_index_update [of unvisited _ ?c "id_visiteds q"] lt w(1)
      by (simp add: ids_def unvisited_def c)
    finally have "cursor_ok q'" by (simp add: cursor_ok_def q'_def)
    moreover have "npq_wf q'" using wf lids by (simp add: npq_wf_def q'_def)
    ultimately show ?thesis by (simp add: npq_inv_def)
  qed
  ultimately show ?thesis using that by (simp add: q'_def)
qed

section \<open>The other operations\<close>

lemma npq_inv_clear: "npq_inv (npq_clear q)"
  by (simp add: npq_inv_def npq_wf_def cursor_ok_def npq_clear_def)

lemma npq_inv_reconfigure:
  assumes "npq_inv q"
  shows "npq_inv (reconfigure q l)" "npq_entries (reconfigure q l) = take l (npq_entries q)"
    "npq_capacity (reconfigure q l) = l" "search_param_l (reconfigure q l) = l"
proof -
  from assms have wf: "npq_wf q" and c: "npq_cursor q = first_index unvisited (id_visiteds q)"
    by (auto simp: npq_inv_def cursor_ok_def)
  note w = npq_wfD [OF wf]
  have "NaN \<notin> set (take l (distances q))" using w(4) by (auto dest: in_set_takeD)
  moreover have "sorted (take l (distances q))" using w(5) by (rule sorted_wrt_take)
  ultimately show "npq_inv (reconfigure q l)" using w c
    by (auto simp: npq_inv_def npq_wf_def cursor_ok_def reconfigure_def Let_def first_index_take min.commute)
  show "npq_entries (reconfigure q l) = take l (npq_entries q)"
    using w by (auto simp: npq_entries_def reconfigure_def Let_def take_zip)
  show "npq_capacity (reconfigure q l) = l" "search_param_l (reconfigure q l) = l"
    by (simp_all add: reconfigure_def Let_def)
qed

lemma drain_best_spec:
  assumes "npq_wf q"
  shows "npq_wf (drain_best q n)" "npq_entries (drain_best q n) = drop n (npq_entries q)"
    "npq_cursor (drain_best q n) = 0"
proof -
  note w = npq_wfD [OF assms]
  show "npq_wf (drain_best q n)" using w sorted_wrt_drop [OF w(5)]
    by (auto simp: npq_wf_def drain_best_def Let_def dest: in_set_dropD)
  show "npq_entries (drain_best q n) = drop n (npq_entries q)"
    using w by (auto simp: npq_entries_def drain_best_def Let_def drop_zip min_def)
  show "npq_cursor (drain_best q n) = 0" by (simp add: drain_best_def Let_def)
qed

lemma npq_iter_entries:
  assumes "npq_wf q"
  shows "npq_iter q = map entry_nbr (take (search_param_l q) (npq_entries q))"
proof (rule nth_equalityI)
  show "length (npq_iter q) = length (map entry_nbr (take (search_param_l q) (npq_entries q)))"
    using length_entries [OF assms] by (simp add: npq_iter_def)
  fix i assume "i < length (npq_iter q)"
  then show "npq_iter q ! i = map entry_nbr (take (search_param_l q) (npq_entries q)) ! i"
    using length_entries [OF assms] by (simp add: npq_iter_def get_unchecked_entry [OF assms])
qed

text \<open>Removal looks at one index only, the first one whose distance is at least the given one.\<close>

lemma npq_remove_spec:
  fixes nbr :: "'i neighbor"
  assumes wf: "npq_wf q" and num: "nbr_distance nbr \<noteq> NaN"
  defines "i \<equiv> first_index (\<lambda>e. nbr_distance nbr \<le> fst e) (npq_entries q)"
  shows "i < npq_size q \<Longrightarrow> nbr_id (entry_nbr (npq_entries q ! i)) = nbr_id nbr \<Longrightarrow>
      fst (npq_remove q nbr) \<and> npq_wf (snd (npq_remove q nbr))
      \<and> npq_entries (snd (npq_remove q nbr)) = remove_at i (npq_entries q)"
    and "\<not> (i < npq_size q \<and> nbr_id (entry_nbr (npq_entries q ! i)) = nbr_id nbr) \<Longrightarrow>
      npq_remove q nbr = (False, q)"
proof -
  note w = npq_wfD [OF wf]
  have lb: "get_lower_bound q nbr = i" using lower_bound_entries [OF wf num] by (simp add: i_def)
  {
    assume i: "i < npq_size q" and eq: "nbr_id (entry_nbr (npq_entries q ! i)) = nbr_id nbr"
    then have id: "nbr_id (get_unchecked q i) = nbr_id nbr" by (simp add: get_unchecked_entry wf)
    have "sorted (remove_at i (distances q))"
      using w(5) by (rule sorted_remove_at)
    then show "fst (npq_remove q nbr) \<and> npq_wf (snd (npq_remove q nbr))
      \<and> npq_entries (snd (npq_remove q nbr)) = remove_at i (npq_entries q)"
      using i id w set_remove_at_subset [of i "distances q"]
      by (auto simp: npq_remove_def lb Let_def npq_wf_def npq_entries_def zip_remove_at)
  }
  assume "\<not> (i < npq_size q \<and> nbr_id (entry_nbr (npq_entries q ! i)) = nbr_id nbr)"
  then show "npq_remove q nbr = (False, q)"
    by (auto simp: npq_remove_def lb Let_def get_unchecked_entry wf)
qed

text \<open>Compaction: the kept entries in order, with their visited flags cleared.\<close>

definition unvisit :: "'i entry \<Rightarrow> 'i entry" where
  "unvisit e = (fst e, fst (snd e), False)"

lemma retain_write:
  assumes "length (id_visiteds q) = npq_size q" "length (distances q) = npq_size q"
    and "w \<le> r" "r < npq_size q"
  defines "q1 \<equiv> (if w \<noteq> r then q\<lparr>id_visiteds := (id_visiteds q)[w := id_visiteds q ! r],
      distances := (distances q)[w := distances q ! r]\<rparr> else q)"
  shows "zip (distances q1) ((id_visiteds q1)[w := (fst (id_visiteds q1 ! w), False)])
    = (npq_entries q)[w := unvisit (npq_entries q ! r)]"
  using assms by (auto simp: npq_entries_def update_zip unvisit_def)

lemma retain_loop_spec:
  assumes "length (id_visiteds q) = npq_size q" "length (distances q) = npq_size q"
    and "w \<le> r" "r + n = npq_size q"
  shows "case retain_loop f n r w q of (w', q') \<Rightarrow>
      take w' (npq_entries q') = take w (npq_entries q)
        @ map unvisit (filter (\<lambda>e. f (entry_nbr e)) (drop r (npq_entries q)))
      \<and> w' = w + length (filter (\<lambda>e. f (entry_nbr e)) (drop r (npq_entries q)))
      \<and> q' = q\<lparr>id_visiteds := id_visiteds q', distances := distances q'\<rparr>
      \<and> length (id_visiteds q') = npq_size q \<and> length (distances q') = npq_size q"
  using assms
proof (induction n arbitrary: r w q)
  case 0
  then show ?case by (simp add: npq_entries_def)
next
  case (Suc n)
  let ?es = "npq_entries q"
  have len: "length ?es = npq_size q" using Suc.prems by (simp add: npq_entries_def)
  have r: "r < npq_size q" using Suc.prems by simp
  have dr: "drop r ?es = ?es ! r # drop (Suc r) ?es" using r len by (simp add: Cons_nth_drop_Suc)
  have g: "get_unchecked q r = entry_nbr (?es ! r)"
    using r Suc.prems by (simp add: get_unchecked_def entry_nbr_def npq_entries_def)
  show ?case
  proof (cases "f (entry_nbr (?es ! r))")
    case False
    have "w \<le> Suc r" "Suc r + n = npq_size q" using Suc.prems by simp_all
    from Suc.IH [OF Suc.prems(1,2) this] False show ?thesis by (simp add: g dr)
  next
    case True
    define q1 where "q1 = (if w \<noteq> r then q\<lparr>id_visiteds := (id_visiteds q)[w := id_visiteds q ! r],
      distances := (distances q)[w := distances q ! r]\<rparr> else q)"
    define q2 where "q2 = q1\<lparr>id_visiteds := (id_visiteds q1)[w := (fst (id_visiteds q1 ! w), False)]\<rparr>"
    have e2: "npq_entries q2 = ?es[w := unvisit (?es ! r)]"
      using retain_write [OF Suc.prems(1-3) r] by (simp add: npq_entries_def q2_def q1_def)
    have l2: "length (id_visiteds q2) = npq_size q2" "length (distances q2) = npq_size q2"
      and s2: "npq_size q2 = npq_size q"
      and q2: "q2 = q\<lparr>id_visiteds := id_visiteds q2, distances := distances q2\<rparr>"
      using Suc.prems by (simp_all add: q2_def q1_def)
    have step: "retain_loop f (Suc n) r w q = retain_loop f n (Suc r) (Suc w) q2"
      using True by (simp add: g q1_def q2_def Let_def)
    have "Suc w \<le> Suc r" "Suc r + n = npq_size q2" using Suc.prems s2 by simp_all
    note IH = Suc.IH [OF l2 this]
    have t: "take (Suc w) (npq_entries q2) = take w ?es @ [unvisit (?es ! r)]"
      using Suc.prems(3) r len by (simp add: e2 take_Suc_conv_app_nth)
    have d: "drop (Suc r) (npq_entries q2) = drop (Suc r) ?es" using Suc.prems(3) by (simp add: e2)
    from IH obtain w' q' where res: "retain_loop f n (Suc r) (Suc w) q2 = (w', q')"
      and R: "take w' (npq_entries q') = take w ?es @ [unvisit (?es ! r)]
        @ map unvisit (filter (\<lambda>e. f (entry_nbr e)) (drop (Suc r) ?es))"
        "w' = Suc w + length (filter (\<lambda>e. f (entry_nbr e)) (drop (Suc r) ?es))"
        "q' = q2\<lparr>id_visiteds := id_visiteds q', distances := distances q'\<rparr>"
        "length (id_visiteds q') = npq_size q" "length (distances q') = npq_size q"
      by (cases "retain_loop f n (Suc r) (Suc w) q2") (auto simp: t d s2)
    have "q' = q\<lparr>id_visiteds := id_visiteds q', distances := distances q'\<rparr>"
      by (subst R(3), subst q2) simp
    with R True show ?thesis unfolding step res by (simp add: dr)
  qed
qed

lemma npq_retain_spec:
  assumes wf: "npq_wf q"
  shows "npq_entries (npq_retain f q) = map unvisit (filter (\<lambda>e. f (entry_nbr e)) (npq_entries q))"
    and "npq_wf (npq_retain f q)"
    and "npq_cursor (npq_retain f q) = (if \<forall>e\<in>set (npq_entries q). f (entry_nbr e) then npq_cursor q else 0)"
proof -
  note w = npq_wfD [OF wf]
  let ?es = "npq_entries q" and ?P = "\<lambda>e. f (entry_nbr e)"
  obtain w' q' where res: "retain_loop f (npq_size q) 0 0 q = (w', q')" by fastforce
  from retain_loop_spec [of q 0 0 "npq_size q" f] w res
  have t: "take w' (npq_entries q') = map unvisit (filter ?P ?es)"
    and w': "w' = length (filter ?P ?es)"
    and q': "q' = q\<lparr>id_visiteds := id_visiteds q', distances := distances q'\<rparr>"
    and l': "length (id_visiteds q') = npq_size q" "length (distances q') = npq_size q"
    by auto
  have le: "w' \<le> npq_size q" unfolding w' using length_filter_le [of ?P ?es] length_entries [OF wf] by simp
  have sz: "npq_size q' = npq_size q" "npq_cursor q' = npq_cursor q" "npq_capacity q' = npq_capacity q"
    by (subst q', simp)+
  have ret: "npq_retain f q = (if npq_size q = 0 then q else npq_truncate q' w')"
    by (simp add: npq_retain_def res)
  have tr: "distances (npq_truncate q' w') = take w' (distances q')"
    "id_visiteds (npq_truncate q' w') = take w' (id_visiteds q')"
    "npq_size (npq_truncate q' w') = w'" "npq_capacity (npq_truncate q' w') = npq_capacity q"
    using l' le by (auto simp: npq_truncate_def sz)
  show ent: "npq_entries (npq_retain f q) = map unvisit (filter ?P ?es)"
    using t l' w by (auto simp: ret npq_entries_def tr take_zip)
  have "map fst (npq_entries (npq_retain f q)) = map fst (filter ?P ?es)"
    by (simp add: ent unvisit_def)
  then have ds: "distances (npq_retain f q) = map fst (filter ?P ?es)"
    using l' le w by (auto simp: ret npq_entries_def tr split: if_splits)
  have "sorted (map fst (filter ?P ?es))" using sorted_map_fst_entries [OF wf]
    by (rule sorted_filter)
  moreover have "NaN \<notin> set (map fst (filter ?P ?es))"
    using w(4) map_fst_entries [OF wf] by (metis (no_types, lifting) filter_is_subset image_mono list.set_map subset_iff)
  ultimately show "npq_wf (npq_retain f q)" using w w' le l' tr ds
    by (auto simp: ret npq_wf_def split: if_splits)
  have "w' < npq_size q \<longleftrightarrow> \<not> (\<forall>e\<in>set ?es. ?P e)"
    unfolding w' using length_filter_less [of _ ?es ?P] length_entries [OF wf]
    by (metis (no_types, lifting) filter_True less_irrefl)
  moreover have "npq_size q = 0 \<Longrightarrow> \<forall>e\<in>set ?es. ?P e" using length_entries [OF wf] by simp
  ultimately show "npq_cursor (npq_retain f q) = (if \<forall>e\<in>set ?es. ?P e then npq_cursor q else 0)"
    using sz by (auto simp: ret npq_truncate_def)
qed

section \<open>Sequences of insertions\<close>

definition insert_all :: "'i neighbor list \<Rightarrow> 'i npq \<Rightarrow> fault + 'i npq" where
  "insert_all ns q = rfold (\<lambda>n q. npq_insert q n) ns q"

lemma insert_all_distances:
  assumes "0 < l" "\<forall>n\<in>set ns. nbr_distance n \<noteq> NaN"
  shows "\<exists>q. insert_all ns (npq_new l) = Inr q \<and> npq_inv q \<and> \<not> auto_resizable q
    \<and> npq_capacity q = l \<and> distances q = take l (sort (map nbr_distance ns))"
  using assms(2)
proof (induction ns rule: rev_induct)
  case Nil
  then show ?case using npq_inv_new [of l] by (simp add: insert_all_def npq_new_def)
next
  case (snoc n ns)
  then obtain q where q: "insert_all ns (npq_new l) = Inr q" "npq_inv q" "\<not> auto_resizable q"
    "npq_capacity q = l" "distances q = take l (sort (map nbr_distance ns))" by auto
  have num: "nbr_distance n \<noteq> NaN" and cap: "auto_resizable q \<or> 0 < npq_capacity q"
    using snoc.prems assms(1) q(4) by auto
  from npq_insert_spec [OF _ num cap] q(2) obtain q' where q': "npq_insert q n = Inr q'" "npq_inv q'"
    "auto_resizable q' = auto_resizable q" "npq_capacity q' = npq_capacity q"
    using q(3) unfolding npq_inv_def by metis
  have "distances q' = take l (insort (nbr_distance n) (take l (sort (map nbr_distance ns))))"
    using npq_insert_distances [OF _ num cap q'(1)] q by (simp add: npq_inv_def keep_best_def)
  also have "\<dots> = take l (sort (map nbr_distance (ns @ [n])))"
    by (simp add: take_insort_take sort_snoc)
  finally show ?case using q q' by (simp add: insert_all_def rfold_append)
qed

text \<open>The identifiers of a queue, and what an insertion does to its entries.\<close>

definition npq_ids :: "'i npq \<Rightarrow> 'i set" where
  "npq_ids q = fst ` set (id_visiteds q)"

lemma npq_ids_entries: "npq_wf q \<Longrightarrow> npq_ids q = (fst \<circ> snd) ` set (npq_entries q)"
  by (simp add: npq_ids_def image_image flip: map_snd_entries)

lemma npq_insert_debug_new:
  assumes "npq_wf q" "nbr_id nbr \<notin> npq_ids q"
  shows "npq_insert_debug q nbr = npq_insert q nbr"
proof -
  have "dbgassert_unique_insert q (nbr_id nbr)"
    using assms by (force simp: dbgassert_unique_insert_def npq_ids_def npq_wf_def list_all_iff)
  then show ?thesis by (simp add: npq_insert_debug_def npq_insert_def)
qed

lemma npq_insert_debug_repeated:
  assumes "npq_wf q" "nbr_id nbr \<in> npq_ids q" "nbr_distance nbr \<noteq> NaN"
  shows "npq_insert_debug q nbr = Inl AssertFault"
  using assms by (auto simp: npq_insert_debug_def dbgassert_unique_insert_def npq_ids_def is_nan_def
      npq_wf_def list_all_iff)

definition insert_all_debug :: "'i neighbor list \<Rightarrow> 'i npq \<Rightarrow> fault + 'i npq" where
  "insert_all_debug ns q = rfold (\<lambda>n q. npq_insert_debug q n) ns q"

lemma insert_all_entries:
  assumes "0 < l" "\<forall>n\<in>set ns. nbr_distance n \<noteq> NaN" "distinct (map nbr_id ns)"
    and "insert_all ns (npq_new l) = Inr q"
  shows "insert_all_debug ns (npq_new l) = Inr q"
    and "mset (npq_entries q) \<subseteq># mset (map (\<lambda>n. (nbr_distance n, nbr_id n, False)) ns)"
  using assms(2-)
proof (induction ns arbitrary: q rule: rev_induct)
  case Nil
  {
    case 1 then show ?case by (simp add: insert_all_def insert_all_debug_def)
  next
    case 2 then show ?case by (auto simp: insert_all_def npq_new_def npq_entries_def)
  }
next
  case (snoc n ns)
  have "\<forall>n\<in>set ns. nbr_distance n \<noteq> NaN" "distinct (map nbr_id ns)"
    if "\<forall>n\<in>set (ns @ [n]). nbr_distance n \<noteq> NaN" "distinct (map nbr_id (ns @ [n]))"
    using that by simp_all
  note pre = this
  have step: "insert_all_debug (ns @ [n]) (npq_new l) = Inr q
      \<and> mset (npq_entries q) \<subseteq># mset (map (\<lambda>n. (nbr_distance n, nbr_id n, False)) (ns @ [n]))"
    if num: "\<forall>n\<in>set (ns @ [n]). nbr_distance n \<noteq> NaN" and dist: "distinct (map nbr_id (ns @ [n]))"
      and ins: "insert_all (ns @ [n]) (npq_new l) = Inr q" for q
  proof -
    from ins obtain p where p: "insert_all ns (npq_new l) = Inr p" "npq_insert p n = Inr q"
      by (auto simp: insert_all_def rfold_append rbind_eq_Inr_iff)
    note IH = snoc.IH(1) [OF pre [OF num dist] p(1)] snoc.IH(2) [OF pre [OF num dist] p(1)]
    have inv: "npq_inv p" "npq_capacity p = l"
      using insert_all_distances [OF assms(1) pre(1) [OF num dist]] p(1) by auto
    then have wf: "npq_wf p" by (simp add: npq_inv_def)
    have "set (npq_entries p) \<subseteq> (\<lambda>n. (nbr_distance n, nbr_id n, False)) ` set ns"
      using IH(2) by (auto dest!: mset_subset_eqD set_mset_mono)
    then have "npq_ids p \<subseteq> nbr_id ` set ns" unfolding npq_ids_entries [OF wf] by force
    then have new: "nbr_id n \<notin> npq_ids p" using dist by auto
    have cap: "auto_resizable p \<or> 0 < npq_capacity p" and nn: "nbr_distance n \<noteq> NaN"
      using inv(2) assms(1) num by auto
    from npq_insert_spec [OF wf nn cap] p(2)
    have ent: "npq_entries q = keep_best p (ins_entry (nbr_distance n) (nbr_id n) (npq_entries p))"
      by (metis sum.inject(2))
    have "mset (npq_entries q) \<subseteq># mset (ins_entry (nbr_distance n) (nbr_id n) (npq_entries p))"
      unfolding ent keep_best_def
      by (simp add: mset_take_subset)
    also have "\<dots> = add_mset (nbr_distance n, nbr_id n, False) (mset (npq_entries p))"
      by (simp add: ins_entry_def)
    also have "\<dots> \<subseteq># mset (map (\<lambda>n. (nbr_distance n, nbr_id n, False)) (ns @ [n]))" using IH(2) by simp
    finally show ?thesis
      using IH(1) p(2) npq_insert_debug_new [OF wf new]
      by (simp add: insert_all_debug_def rfold_append)
  qed
  {
    case 1 then show ?case using step by blast
  next
    case 2 then show ?case using step by blast
  }
qed

section \<open>The interface of a neighbor queue\<close>

text \<open>The trait \<open>NeighborQueue\<close> as a record of its operations: the search is written against it.\<close>

record ('i, 'q) nq_ops =
  nq_insert :: "'q \<Rightarrow> 'i neighbor \<Rightarrow> fault + 'q"
  nq_get :: "'q \<Rightarrow> nat \<Rightarrow> fault + 'i neighbor"
  nq_closest_notvisited :: "'q \<Rightarrow> fault + ('i neighbor option \<times> 'q)"
  nq_has_notvisited_node :: "'q \<Rightarrow> bool"
  nq_size :: "'q \<Rightarrow> nat"
  nq_capacity :: "'q \<Rightarrow> nat"
  nq_search_l :: "'q \<Rightarrow> nat"
  nq_clear :: "'q \<Rightarrow> 'q"
  nq_iter :: "'q \<Rightarrow> 'i neighbor list"

definition npq_ops :: "('i, 'i npq) nq_ops" where
  "npq_ops = \<lparr>nq_insert = npq_insert, nq_get = npq_get, nq_closest_notvisited = closest_notvisited,
     nq_has_notvisited_node = has_notvisited_node, nq_size = npq_size, nq_capacity = npq_capacity,
     nq_search_l = search_param_l, nq_clear = npq_clear, nq_iter = npq_iter\<rparr>"

definition visited_entry :: "'i entry \<Rightarrow> 'i entry" where
  "visited_entry e = (fst e, fst (snd e), True)"

definition unvisited_count :: "'i entry list \<Rightarrow> nat" where
  "unvisited_count es = size (filter_mset entry_unvisited (mset es))"

text \<open>What the search relies on: an insertion adds at most the given neighbor, unvisited; a visit
  hands out a closest unvisited entry and marks it, and it succeeds exactly when the queue says
  that there is one.\<close>

locale neighbor_queue =
  fixes ops :: "('i, 'q) nq_ops"
    and inv :: "'q \<Rightarrow> bool"
    and ents :: "'q \<Rightarrow> 'i entry list"
  assumes insert_law: "inv q \<Longrightarrow> \<exists>q'. nq_insert ops q n = Inr q' \<and> inv q'
      \<and> mset (ents q') \<subseteq># add_mset (nbr_distance n, nbr_id n, False) (mset (ents q))
      \<and> nq_search_l ops q' = nq_search_l ops q"
    and none_law: "inv q \<Longrightarrow> \<not> nq_has_notvisited_node ops q \<Longrightarrow>
      nq_closest_notvisited ops q = Inr (None, q)"
    and some_law: "inv q \<Longrightarrow> nq_has_notvisited_node ops q \<Longrightarrow>
      \<exists>e q'. nq_closest_notvisited ops q = Inr (Some (entry_nbr e), q') \<and> inv q'
        \<and> e \<in># mset (ents q) \<and> entry_unvisited e
        \<and> (\<forall>e'\<in>set (ents q). entry_unvisited e' \<longrightarrow> fst e \<le> fst e')
        \<and> mset (ents q') = add_mset (visited_entry e) (mset (ents q) - {#e#})
        \<and> nq_search_l ops q' = nq_search_l ops q"
    and clear_law: "inv q \<Longrightarrow> inv (nq_clear ops q) \<and> ents (nq_clear ops q) = []"
    and iter_law: "inv q \<Longrightarrow> nq_iter ops q = map entry_nbr (take (nq_search_l ops q) (ents q))"
    and sorted_law: "inv q \<Longrightarrow> sorted (map fst (ents q)) \<and> NaN \<notin> fst ` set (ents q)"
begin

lemma insert_count:
  assumes "inv q" "nq_insert ops q n = Inr q'"
  shows "unvisited_count (ents q') \<le> Suc (unvisited_count (ents q))"
proof -
  let ?e = "(nbr_distance n, nbr_id n, False)"
  have "mset (ents q') \<subseteq># add_mset ?e (mset (ents q))" using insert_law [OF assms(1), of n] assms(2) by auto
  then have "filter_mset entry_unvisited (mset (ents q'))
      \<subseteq># filter_mset entry_unvisited (add_mset ?e (mset (ents q)))"
    by (rule multiset_filter_mono)
  then have "unvisited_count (ents q') \<le> size (filter_mset entry_unvisited (add_mset ?e (mset (ents q))))"
    unfolding unvisited_count_def by (rule size_mset_mono)
  then show ?thesis by (simp add: unvisited_count_def entry_unvisited_def)
qed

lemma insert_set:
  assumes "inv q" "nq_insert ops q n = Inr q'"
  shows "set (ents q') \<subseteq> insert (nbr_distance n, nbr_id n, False) (set (ents q))"
proof -
  have "mset (ents q') \<subseteq># add_mset (nbr_distance n, nbr_id n, False) (mset (ents q))"
    using insert_law [OF assms(1), of n] assms(2) by auto
  from set_mset_mono [OF this] show ?thesis by simp
qed

lemma visit_count:
  assumes "inv q" "nq_closest_notvisited ops q = Inr (Some n, q')"
  shows "Suc (unvisited_count (ents q')) = unvisited_count (ents q)"
proof -
  have "nq_has_notvisited_node ops q" using none_law [OF assms(1)] assms(2) by fastforce
  with some_law [OF assms(1)] assms(2) obtain e where e: "e \<in># mset (ents q)" "entry_unvisited e"
    "mset (ents q') = add_mset (visited_entry e) (mset (ents q) - {#e#})" by auto
  obtain M where M: "mset (ents q) = add_mset e M" using e(1) by (rule mset_add)
  show ?thesis using e(2,3) by (simp add: unvisited_count_def M visited_entry_def entry_unvisited_def)
qed

lemma visit_ids:
  assumes "inv q" "nq_closest_notvisited ops q = Inr (Some n, q')"
  shows "nbr_id n \<in> (\<lambda>e. fst (snd e)) ` set (ents q)"
    and "(\<lambda>e. fst (snd e)) ` set (ents q') = (\<lambda>e. fst (snd e)) ` set (ents q)" and "inv q'"
proof -
  have "nq_has_notvisited_node ops q" using none_law [OF assms(1)] assms(2) by fastforce
  with some_law [OF assms(1)] assms(2) obtain e where n: "n = entry_nbr e" and
    e: "e \<in># mset (ents q)" "mset (ents q') = add_mset (visited_entry e) (mset (ents q) - {#e#})"
    and i: "inv q'"
    by auto
  show "inv q'" by (rule i)
  show "nbr_id n \<in> (\<lambda>e. fst (snd e)) ` set (ents q)" using e(1) by (auto simp: n entry_nbr_def)
  obtain M where M: "mset (ents q) = add_mset e M" using e(1) by (rule mset_add)
  have "set (ents q) = insert e (set_mset M)" "set (ents q') = insert (visited_entry e) (set_mset M)"
    using M e(2) by (simp_all flip: set_mset_mset)
  then show "(\<lambda>e. fst (snd e)) ` set (ents q') = (\<lambda>e. fst (snd e)) ` set (ents q)"
    by (simp add: visited_entry_def)
qed

end

definition npq_usable :: "'i npq \<Rightarrow> bool" where
  "npq_usable q \<longleftrightarrow> npq_inv q \<and> (auto_resizable q \<or> 0 < npq_capacity q)"

lemma npq_insert_usable:
  assumes "npq_usable q"
  shows "\<exists>q'. npq_insert q n = Inr q' \<and> npq_usable q'
      \<and> mset (npq_entries q') \<subseteq># add_mset (nbr_distance n, nbr_id n, False) (mset (npq_entries q))
      \<and> search_param_l q' = search_param_l q"
proof (cases "nbr_distance n = NaN")
  case True
  then show ?thesis using assms by (auto simp: npq_insert_NaN)
next
  case False
  with npq_insert_spec [of q n] assms obtain q' where q': "npq_insert q n = Inr q'" "npq_inv q'"
    "npq_entries q' = keep_best q (ins_entry (nbr_distance n) (nbr_id n) (npq_entries q))"
    "auto_resizable q' = auto_resizable q" "npq_capacity q \<le> npq_capacity q'"
    "search_param_l q' = search_param_l q"
    unfolding npq_usable_def npq_inv_def by metis
  have "mset (npq_entries q') \<subseteq># mset (ins_entry (nbr_distance n) (nbr_id n) (npq_entries q))"
    by (simp add: q'(3) keep_best_def mset_take_subset)
  with q' assms show ?thesis by (auto simp: npq_usable_def ins_entry_def)
qed

lemma closest_notvisited_usable:
  assumes "npq_usable q" "has_notvisited_node q"
  shows "\<exists>e q'. closest_notvisited q = Inr (Some (entry_nbr e), q') \<and> npq_usable q'
        \<and> e \<in># mset (npq_entries q) \<and> entry_unvisited e
        \<and> (\<forall>e'\<in>set (npq_entries q). entry_unvisited e' \<longrightarrow> fst e \<le> fst e')
        \<and> mset (npq_entries q') = add_mset (visited_entry e) (mset (npq_entries q) - {#e#})
        \<and> search_param_l q' = search_param_l q"
proof -
  let ?es = "npq_entries q" and ?c = "npq_cursor q"
  from assms(1) have inv: "npq_inv q" and wf: "npq_wf q" and c: "?c = first_index entry_unvisited ?es"
    by (auto simp: npq_usable_def npq_inv_def cursor_ok_def first_index_entry_unvisited)
  from assms(2) have lt: "?c < length ?es" by (simp add: has_notvisited_node_def length_entries [OF wf])
  from closest_notvisited_Some [OF inv assms(2)] obtain q' where
    q': "closest_notvisited q = Inr (Some (entry_nbr (?es ! ?c)), q')" "npq_inv q'"
    "npq_entries q' = visit_entry ?c ?es" "search_param_l q' = search_param_l q"
    "npq_capacity q' = npq_capacity q" "auto_resizable q' = auto_resizable q" by metis
  have "fst (?es ! ?c) \<le> fst e'" if e': "e' \<in> set ?es" "entry_unvisited e'" for e'
  proof -
    from e'(1) obtain j where j: "j < length ?es" "e' = ?es ! j" by (metis in_set_conv_nth)
    have "?c \<le> j" using first_index_before [of j entry_unvisited ?es] e'(2) j(2) c
      by (metis linorder_not_less)
    then show ?thesis using sorted_nth_mono [OF sorted_map_fst_entries [OF wf]] j lt by simp
  qed
  moreover have "entry_unvisited (?es ! ?c)" using first_index_sat [of entry_unvisited ?es] lt c by simp
  moreover have "mset (visit_entry ?c ?es) = add_mset (visited_entry (?es ! ?c)) (mset ?es - {#?es ! ?c#})"
    using lt by (simp add: visit_entry_def visited_entry_def mset_update)
  moreover have "npq_usable q'" using q' assms(1) by (simp add: npq_usable_def)
  moreover have "?es ! ?c \<in># mset ?es" using lt by simp
  ultimately show ?thesis using q' by metis
qed

interpretation npq: neighbor_queue npq_ops npq_usable npq_entries
proof (standard, goal_cases)
  case (1 q n)
  then show ?case using npq_insert_usable by (simp add: npq_ops_def)
next
  case (2 q)
  then show ?case by (simp add: npq_ops_def closest_notvisited_None)
next
  case (3 q)
  then show ?case using closest_notvisited_usable by (simp add: npq_ops_def)
next
  case (4 q)
  then show ?case using npq_inv_clear [of q]
    by (simp add: npq_ops_def npq_usable_def npq_entries_def npq_clear_def)
next
  case (5 q)
  then show ?case by (simp add: npq_ops_def npq_iter_entries npq_usable_def npq_inv_def)
next
  case (6 q)
  then have wf: "npq_wf q" by (simp add: npq_usable_def npq_inv_def)
  then have "fst ` set (npq_entries q) = set (distances q)" using map_fst_entries [OF wf] by (metis list.set_map)
  then show ?case using wf npq_wfD(4) [OF wf] by (simp add: sorted_map_fst_entries)
qed

section \<open>What a bounded queue remembers\<close>

text \<open>A distance with its identifier is covered when the entry is there, or when the queue is full
  and every entry is at most as far.  A search relies on the queue covering everything it was
  given.\<close>

definition covered :: "bool \<Rightarrow> 'i entry list \<Rightarrow> f32 \<Rightarrow> 'i \<Rightarrow> bool" where
  "covered full es d i \<longleftrightarrow> (\<exists>b. (d, i, b) \<in> set es) \<or> (full \<and> (\<forall>e\<in>set es. fst e \<le> d))"

definition ekey :: "'i entry \<Rightarrow> f32 \<times> 'i" where
  "ekey e = (fst e, fst (snd e))"

lemma covered_ekey: "ekey ` set es = ekey ` set es' \<Longrightarrow> covered full es d i = covered full es' d i"
proof -
  assume eq: "ekey ` set es = ekey ` set es'"
  have "(\<exists>b. (d, i, b) \<in> set zs) \<longleftrightarrow> (d, i) \<in> ekey ` set zs" for zs :: "'a entry list"
    by (force simp: ekey_def)
  moreover have "(\<forall>e\<in>set zs. fst e \<le> d) \<longleftrightarrow> (\<forall>k\<in>ekey ` set zs. fst k \<le> d)" for zs :: "'a entry list"
    by (simp add: ekey_def)
  ultimately show ?thesis unfolding covered_def using eq by (simp only:)
qed

text \<open>\<open>cov\<close> is what such a queue remembers: whatever it was given, and a visit does not change it.\<close>

locale bounded_queue = neighbor_queue +
  fixes cov :: "'b \<Rightarrow> f32 \<Rightarrow> 'a \<Rightarrow> bool"
  assumes insert_covered: "inv q \<Longrightarrow> nq_insert ops q n = Inr q' \<Longrightarrow> cov q d i \<Longrightarrow> cov q' d i"
    and insert_covered_new: "inv q \<Longrightarrow> nq_insert ops q n = Inr q' \<Longrightarrow> nbr_distance n \<noteq> NaN \<Longrightarrow>
      cov q' (nbr_distance n) (nbr_id n)"
    and visit_cov: "inv q \<Longrightarrow> nq_closest_notvisited ops q = Inr (c, q') \<Longrightarrow> cov q' = cov q"
begin

lemma visit_ekey:
  assumes "inv q" "nq_closest_notvisited ops q = Inr (c, q')"
  shows "mset (map ekey (ents q')) = mset (map ekey (ents q))"
proof (cases "nq_has_notvisited_node ops q")
  case True
  with some_law [OF assms(1)] assms(2) obtain e where
    e: "e \<in># mset (ents q)" "mset (ents q') = add_mset (visited_entry e) (mset (ents q) - {#e#})" by auto
  obtain M where M: "mset (ents q) = add_mset e M" using e(1) by (rule mset_add)
  have "ekey (visited_entry e) = ekey e" by (simp add: ekey_def visited_entry_def)
  then show ?thesis using e(2) by (simp add: M)
next
  case False
  with none_law [OF assms(1)] assms(2) show ?thesis by simp
qed

end

definition npq_full :: "'i npq \<Rightarrow> bool" where
  "npq_full q \<longleftrightarrow> \<not> auto_resizable q \<and> npq_size q = npq_capacity q"

lemma npq_full_is_full: "npq_full q = is_full q"
  by (simp add: npq_full_def is_full_def)

lemma sorted_ins_entry: "sorted (map fst es) \<Longrightarrow> sorted (map fst (ins_entry d i es))"
  by (simp add: map_fst_ins_entry sorted_insort)

text \<open>Inserting into a full list of entries and cutting the last one.\<close>

lemma ins_entry_cut:
  fixes d :: f32 and i :: 'i
  assumes "sorted (map fst es)" "es \<noteq> []"
  defines "es' \<equiv> take (length es) (ins_entry d i es)"
  obtains z where "ins_entry d i es = es' @ [z]" "\<forall>e\<in>set es'. fst e \<le> fst z"
    "z = last es \<or> es' = es"
proof -
  let ?L = "ins_entry d i es"
  have len: "length ?L = Suc (length es)" by (simp add: ins_entry_def)
  then have L: "?L = es' @ [last ?L]"
    unfolding es'_def by (metis append_butlast_last_id butlast_conv_take diff_Suc_1 length_0_conv nat.distinct(1))
  have "sorted (map fst (es' @ [last ?L]))" using sorted_ins_entry [OF assms(1), of d i] L by metis
  then have "\<forall>e\<in>set es'. fst e \<le> fst (last ?L)" by (simp add: sorted_append)
  moreover have "last ?L = last es \<or> es' = es"
  proof (cases "first_index (\<lambda>e. d \<le> fst e) es = length es")
    case True
    then show ?thesis by (simp add: es'_def ins_entry_def insert_at_def)
  next
    case False
    then have "drop (first_index (\<lambda>e. d \<le> fst e) es) es \<noteq> []"
      using first_index_le [of "\<lambda>e. d \<le> fst e" es] by (simp add: not_le order.strict_iff_order)
    then show ?thesis by (simp add: ins_entry_def insert_at_def last_drop)
  qed
  ultimately show ?thesis using that L by blast
qed

lemma npq_insert_entries:
  assumes "npq_usable q" "npq_insert q n = Inr q'" "nbr_distance n \<noteq> NaN"
  shows "npq_wf q'" "npq_entries q' = keep_best q (ins_entry (nbr_distance n) (nbr_id n) (npq_entries q))"
    "npq_full q' \<longleftrightarrow> \<not> auto_resizable q \<and> npq_capacity q \<le> Suc (npq_size q)"
proof -
  from assms(1) have wf: "npq_wf q" and cap: "auto_resizable q \<or> 0 < npq_capacity q"
    by (auto simp: npq_usable_def npq_inv_def)
  from npq_insert_spec [OF wf assms(3) cap] assms(2) have q': "npq_wf q'"
    "npq_entries q' = keep_best q (ins_entry (nbr_distance n) (nbr_id n) (npq_entries q))"
    "auto_resizable q' = auto_resizable q" "\<not> auto_resizable q \<Longrightarrow> npq_capacity q' = npq_capacity q"
    by (metis sum.inject(2))+
  show "npq_wf q'" "npq_entries q' = keep_best q (ins_entry (nbr_distance n) (nbr_id n) (npq_entries q))" by (fact q')+
  have "npq_size q' = (if auto_resizable q then Suc (npq_size q) else min (npq_capacity q) (Suc (npq_size q)))"
    using length_entries [OF q'(1)] length_entries [OF wf]
    by (cases "auto_resizable q") (simp_all add: q'(2) keep_best_def ins_entry_def min.commute)
  then show "npq_full q' \<longleftrightarrow> \<not> auto_resizable q \<and> npq_capacity q \<le> Suc (npq_size q)"
    using q' by (auto simp: npq_full_def min_def)
qed

lemma npq_insert_covered:
  assumes us: "npq_usable q" and ins: "npq_insert q n = Inr q'" and num: "nbr_distance n \<noteq> NaN"
  shows "covered (npq_full q) (npq_entries q) d i \<Longrightarrow> covered (npq_full q') (npq_entries q') d i"
    and "covered (npq_full q') (npq_entries q') (nbr_distance n) (nbr_id n)"
proof -
  let ?es = "npq_entries q" and ?L = "ins_entry (nbr_distance n) (nbr_id n) (npq_entries q)"
  from us have wf: "npq_wf q" by (simp add: npq_usable_def npq_inv_def)
  note w = npq_wfD [OF wf]
  note q' = npq_insert_entries [OF us ins num]
  have set: "set ?L = insert (nbr_distance n, nbr_id n, False) (set ?es)" by (simp add: ins_entry_def)
  have *: "(covered (npq_full q) ?es d i \<longrightarrow> covered (npq_full q') (npq_entries q') d i)
      \<and> covered (npq_full q') (npq_entries q') (nbr_distance n) (nbr_id n)"
  proof (cases "npq_full q")
    case False
    then have "npq_entries q' = ?L" using w(3) length_entries [OF wf]
      by (auto simp: q'(2) keep_best_def npq_full_def ins_entry_def)
    then show ?thesis using set False by (auto simp: covered_def)
  next
    case True
    then have f': "npq_full q'" and es': "npq_entries q' = take (length ?es) ?L"
      using length_entries [OF wf] unfolding q'(2,3) by (simp_all add: keep_best_def npq_full_def)
    have "?es \<noteq> []" using True us length_entries [OF wf] by (auto simp: npq_full_def npq_usable_def)
    from ins_entry_cut [OF sorted_map_fst_entries [OF wf] this, of "nbr_distance n" "nbr_id n"] es'
    obtain z where z: "?L = npq_entries q' @ [z]" "\<forall>e\<in>set (npq_entries q'). fst e \<le> fst z"
      "z = last ?es \<or> npq_entries q' = ?es" by metis
    have old: "covered True (npq_entries q') (fst e) (fst (snd e))" if "e \<in> set ?L" for e
    proof -
      from that z(1) consider "e \<in> set (npq_entries q')" | "e = z" by auto
      then show ?thesis
      proof cases
        case 1
        then show ?thesis unfolding covered_def by (metis prod.collapse)
      next
        case 2
        then show ?thesis using z(2) by (simp add: covered_def)
      qed
    qed
    have "covered True (npq_entries q') d i" if all: "\<forall>e\<in>set ?es. fst e \<le> d"
    proof (cases "npq_entries q' = ?es")
      case True
      with all show ?thesis by (simp add: covered_def)
    next
      case False
      with z(3) have "fst z \<le> d" using all \<open>?es \<noteq> []\<close> by simp
      with z(2) show ?thesis unfolding covered_def by (meson order_trans)
    qed
    moreover have "covered True (npq_entries q') d i" if "(d, i, b) \<in> set ?es" for b
      using old [of "(d, i, b)"] that set by simp
    moreover have "covered True (npq_entries q') (nbr_distance n) (nbr_id n)"
      using old [of "(nbr_distance n, nbr_id n, False)"] set by simp
    ultimately show ?thesis using f' unfolding covered_def [of _ ?es] by auto
  qed
  then show "covered (npq_full q) ?es d i \<Longrightarrow> covered (npq_full q') (npq_entries q') d i"
    and "covered (npq_full q') (npq_entries q') (nbr_distance n) (nbr_id n)" by blast+
qed

lemma closest_notvisited_full:
  assumes "npq_usable q" "closest_notvisited q = Inr (c, q')"
  shows "npq_full q' = npq_full q"
proof (cases "has_notvisited_node q")
  case True
  from assms(1) have "npq_inv q" by (simp add: npq_usable_def)
  from closest_notvisited_Some [OF this True] assms(2) show ?thesis
    by (metis (no_types, lifting) npq_full_def old.sum.inject(2) prod.inject)
next
  case False
  with assms(2) show ?thesis by (simp add: closest_notvisited_None)
qed

definition npq_cov :: "'i npq \<Rightarrow> f32 \<Rightarrow> 'i \<Rightarrow> bool" where
  "npq_cov q d i \<longleftrightarrow> covered (npq_full q) (npq_entries q) d i"

interpretation npqb: bounded_queue npq_ops npq_usable npq_entries npq_cov
proof (standard, goal_cases)
  case (1 q n q' d i)
  then show ?case
    by (cases "nbr_distance n = NaN") (auto simp: npq_cov_def npq_ops_def npq_insert_NaN dest: npq_insert_covered(1))
next
  case (2 q n q')
  then show ?case by (auto simp: npq_cov_def npq_ops_def dest: npq_insert_covered(2))
next
  case (3 q c q')
  have c: "closest_notvisited q = Inr (c, q')" using 3(2) by (simp add: npq_ops_def)
  have "ekey ` set (npq_entries q') = ekey ` set (npq_entries q)"
  proof (cases "has_notvisited_node q")
    case True
    with closest_notvisited_usable [OF 3(1)] c obtain e where e: "e \<in># mset (npq_entries q)"
      "mset (npq_entries q') = add_mset (visited_entry e) (mset (npq_entries q) - {#e#})" by auto
    obtain M where M: "mset (npq_entries q) = add_mset e M" using e(1) by (rule mset_add)
    have "image_mset ekey (mset (npq_entries q')) = image_mset ekey (mset (npq_entries q))"
      using e(2) by (simp add: M ekey_def visited_entry_def)
    then show ?thesis by (metis set_image_mset set_mset_mset)
  next
    case False
    with c show ?thesis by (simp add: closest_notvisited_None)
  qed
  from covered_ekey [OF this] show ?case
    using closest_notvisited_full [OF 3(1) c] by (intro ext) (simp add: npq_cov_def)
qed

text \<open>A queue of fixed capacity \<open>l\<close> with \<open>search_l = l\<close> stays one.\<close>

definition npq_fixed :: "nat \<Rightarrow> 'i npq \<Rightarrow> bool" where
  "npq_fixed l q \<longleftrightarrow> npq_usable q \<and> \<not> auto_resizable q \<and> npq_capacity q = l \<and> search_param_l q = l"

lemma npq_fixed_usable: "npq_fixed l q \<Longrightarrow> npq_usable q"
  by (simp add: npq_fixed_def)

lemma npq_insert_fixed:
  assumes "npq_fixed l q" "npq_insert q n = Inr q'"
  shows "npq_fixed l q'"
proof (cases "nbr_distance n = NaN")
  case True
  then show ?thesis using assms by (simp add: npq_insert_NaN)
next
  case False
  from assms(1) have u: "npq_usable q" "\<not> auto_resizable q" "npq_capacity q = l" "search_param_l q = l"
    by (simp_all add: npq_fixed_def)
  then have "npq_wf q" "auto_resizable q \<or> 0 < npq_capacity q" by (auto simp: npq_usable_def npq_inv_def)
  from npq_insert_spec [OF this(1) False this(2)] assms(2) have
    "auto_resizable q' = auto_resizable q" "search_param_l q' = search_param_l q" "npq_capacity q' = npq_capacity q"
    using u(2) by (metis sum.inject(2))+
  moreover have "npq_usable q'" using npq_insert_usable [OF u(1), of n] assms(2) by auto
  ultimately show ?thesis using u by (simp add: npq_fixed_def)
qed

lemma closest_notvisited_fixed:
  assumes "npq_fixed l q" "closest_notvisited q = Inr (c, q')"
  shows "npq_fixed l q'"
proof (cases "has_notvisited_node q")
  case True
  from assms(1) have u: "npq_usable q" by (rule npq_fixed_usable)
  then have inv: "npq_inv q" by (simp add: npq_usable_def)
  from closest_notvisited_Some [OF inv True] assms(2) have "auto_resizable q' = auto_resizable q"
    "search_param_l q' = search_param_l q" "npq_capacity q' = npq_capacity q"
    by (metis (no_types, lifting) old.sum.inject(2) prod.inject)+
  moreover have "npq_usable q'" using closest_notvisited_usable [OF u True] assms(2) by auto
  ultimately show ?thesis using assms(1) by (simp add: npq_fixed_def)
next
  case False
  with assms show ?thesis by (simp add: closest_notvisited_None)
qed

interpretation npql: bounded_queue npq_ops "npq_fixed l" npq_entries npq_cov for l
proof (standard, goal_cases)
  case (1 q n)
  from npq.insert_law [OF npq_fixed_usable [OF 1], of n] obtain q' where q': "nq_insert npq_ops q n = Inr q'"
    "mset (npq_entries q') \<subseteq># add_mset (nbr_distance n, nbr_id n, False) (mset (npq_entries q))"
    "nq_search_l npq_ops q' = nq_search_l npq_ops q" by blast
  have "npq_fixed l q'" using npq_insert_fixed [OF 1] q'(1) by (simp add: npq_ops_def)
  with q' show ?case by blast
next
  case (2 q)
  then show ?case by (simp add: npq_ops_def closest_notvisited_None)
next
  case (3 q)
  from npq.some_law [OF npq_fixed_usable [OF 3(1)] 3(2)] obtain e q' where
    e: "nq_closest_notvisited npq_ops q = Inr (Some (entry_nbr e), q')" "e \<in># mset (npq_entries q)" "entry_unvisited e"
      "\<forall>e'\<in>set (npq_entries q). entry_unvisited e' \<longrightarrow> fst e \<le> fst e'"
      "mset (npq_entries q') = add_mset (visited_entry e) (mset (npq_entries q) - {#e#})"
      "nq_search_l npq_ops q' = nq_search_l npq_ops q" by blast
  have "npq_fixed l q'" using closest_notvisited_fixed [OF 3(1)] e(1) by (simp add: npq_ops_def)
  with e show ?case by blast
next
  case (4 q)
  then show ?case using npq.clear_law [OF npq_fixed_usable [OF 4]]
    by (auto simp: npq_ops_def npq_fixed_def npq_clear_def npq_usable_def)
next
  case (5 q)
  then show ?case using npq.iter_law [OF npq_fixed_usable [OF 5]] by simp
next
  case (6 q)
  then show ?case using npq.sorted_law [OF npq_fixed_usable [OF 6]] by simp
next
  case (7 q n q' d i)
  then show ?case using npqb.insert_covered [OF npq_fixed_usable [OF 7(1)]] by blast
next
  case (8 q n q')
  then show ?case using npqb.insert_covered_new [OF npq_fixed_usable [OF 8(1)]] by blast
next
  case (9 q c q')
  then show ?case using npqb.visit_cov [OF npq_fixed_usable [OF 9(1)]] by blast
qed

section \<open>Properties\<close>

definition sample_queue :: "nat npq" where
  "sample_queue = \<lparr>npq_size = 2, npq_capacity = 2, npq_cursor = 1,
     id_visiteds = [(1, True), (2, False)], distances = [Fin 3, Fin 5],
     auto_resizable = False, search_param_l = 2\<rparr>"

text \<open>The eight-lane search of \<open>get_lower_bound\<close>, with its blocks of sixteen, its block of
  eight and its zero-padded tail, returns the index of the first distance that is at least the
  target's, and the size when there is none.\<close>

theorem get_lower_bound_correct:
  assumes "npq_size q = length (distances q)"
  shows "get_lower_bound q nbr = first_index (\<lambda>d. f32_ge d (nbr_distance nbr)) (distances q)"
  using assms by (rule get_lower_bound_first_index)

text \<open>C22: \<open>insert\<close> of a distance that is a number, with an identifier that is not in the queue,
  into a well-formed queue that can hold an item succeeds, with and without debug assertions, keeps
  the invariant (equal lengths, ascending distances without NaN, the cursor on the first unvisited
  entry), and its content is the old content with the new unvisited entry before the first entry
  at least as far, cut to the capacity unless the queue resizes itself.\<close>

theorem npq_insert_refines:
  assumes "npq_inv q" "nbr_distance nbr \<noteq> NaN" "auto_resizable q \<or> 0 < npq_capacity q"
    and "nbr_id nbr \<notin> fst ` set (id_visiteds q)"
  shows "\<exists>q'. npq_insert q nbr = Inr q' \<and> npq_insert_debug q nbr = Inr q' \<and> npq_inv q'
    \<and> npq_entries q' = (let es = ins_entry (nbr_distance nbr) (nbr_id nbr) (npq_entries q)
                        in if auto_resizable q then es else take (npq_capacity q) es)"
proof -
  from assms(1) have wf: "npq_wf q" and c: "cursor_ok q" by (simp_all add: npq_inv_def)
  have "npq_insert_debug q nbr = npq_insert q nbr"
    using npq_insert_debug_new [OF wf] assms(4) by (simp add: npq_ids_def)
  with npq_insert_spec [OF wf assms(2,3)] c show ?thesis
    unfolding Let_def keep_best_def npq_inv_def by metis
qed

theorem npq_insert_refines_witness:
  "\<exists>q'. npq_insert sample_queue (neighbor_new 4 (Fin 4)) = Inr q'
     \<and> npq_insert_debug sample_queue (neighbor_new 4 (Fin 4)) = Inr q' \<and> npq_inv q'
     \<and> npq_entries q' = [(Fin 3, 1, True), (Fin 4, 4, False)]"
proof -
  have inv: "npq_inv sample_queue"
    by (simp add: sample_queue_def npq_inv_def npq_wf_def cursor_ok_def unvisited_def)
  from npq_insert_refines [OF inv, of "neighbor_new 4 (Fin 4)"] show ?thesis
    by (simp add: sample_queue_def npq_entries_def ins_entry_def insert_at_def Let_def)
qed



text \<open>C23: on a queue that satisfies the invariant, \<open>closest_notvisited\<close> returns nothing exactly
  when none of the best \<open>search_l\<close> entries is unvisited; otherwise it returns the first unvisited
  entry, no unvisited entry is closer, the entry and only it becomes visited, and the invariant
  holds again.\<close>

theorem closest_notvisited_correct:
  assumes "npq_inv q"
  shows "if \<exists>e\<in>set (take (search_param_l q) (npq_entries q)). entry_unvisited e
    then \<exists>c q'. c = first_index entry_unvisited (npq_entries q) \<and> c < min (search_param_l q) (npq_size q)
      \<and> closest_notvisited q = Inr (Some (entry_nbr (npq_entries q ! c)), q')
      \<and> npq_inv q' \<and> npq_entries q' = (npq_entries q)[c := visited_entry (npq_entries q ! c)]
    else closest_notvisited q = Inr (None, q)"
proof (cases "has_notvisited_node q")
  case True
  have c: "npq_cursor q = first_index entry_unvisited (npq_entries q)"
    using assms by (auto simp: npq_inv_def cursor_ok_def first_index_entry_unvisited)
  from closest_notvisited_Some [OF assms True] obtain q' where
    q': "closest_notvisited q = Inr (Some (entry_nbr (npq_entries q ! npq_cursor q)), q')" "npq_inv q'"
    "npq_entries q' = visit_entry (npq_cursor q) (npq_entries q)" by metis
  have "npq_cursor q < min (search_param_l q) (npq_size q)"
    using True unfolding has_notvisited_node_def .
  with True q' c show ?thesis unfolding has_notvisited_iff [OF assms, symmetric]
    by (simp add: visit_entry_def visited_entry_def)
next
  case False
  then show ?thesis unfolding has_notvisited_iff [OF assms, symmetric] by (simp add: closest_notvisited_None)
qed

theorem closest_notvisited_correct_witness:
  "\<exists>q'. closest_notvisited sample_queue = Inr (Some (neighbor_new 2 (Fin 5)), q')
     \<and> npq_inv q' \<and> npq_entries q' = [(Fin 3, 1, True), (Fin 5, 2, True)]"
proof -
  have es: "npq_entries sample_queue = [(Fin 3, 1, True), (Fin 5, 2, False)]"
    and inv: "npq_inv sample_queue" and l: "search_param_l sample_queue = 2"
    by (simp_all add: sample_queue_def npq_entries_def npq_inv_def npq_wf_def cursor_ok_def unvisited_def)
  from closest_notvisited_correct [OF inv] show ?thesis unfolding es l
    by (auto simp: entry_unvisited_def entry_nbr_def visited_entry_def)
qed

text \<open>\<open>retain\<close> keeps exactly the entries the predicate accepts, in order and marked unvisited;
  the cursor returns to 0 only when something was dropped, so after a \<open>retain\<close> that drops nothing
  the unvisited entries before the old cursor are not handed out again.\<close>

theorem npq_retain_correct:
  assumes "npq_wf q"
  shows "npq_entries (npq_retain f q)
      = map (\<lambda>e. (fst e, fst (snd e), False)) (filter (\<lambda>e. f (entry_nbr e)) (npq_entries q))
    \<and> npq_wf (npq_retain f q)
    \<and> npq_cursor (npq_retain f q) = (if list_all (\<lambda>e. f (entry_nbr e)) (npq_entries q) then npq_cursor q else 0)"
  using npq_retain_spec [OF assms, of f] by (auto simp: unvisit_def [abs_def] list_all_iff)

text \<open>A full, fixed queue of capacity 0 has no last element to compare with: \<open>insert\<close> computes
  \<open>size - 1\<close> with \<open>size = 0\<close>.\<close>

theorem npq_insert_capacity_zero:
  assumes "nbr_distance nbr \<noteq> NaN"
  shows "npq_insert (npq_new 0) nbr = Inl OverflowFault"
  using assms by (simp add: npq_insert_def is_nan_def npq_new_def)

text \<open>\<open>remove\<close> misses a neighbor that is in the queue when another one has the same distance
  (of two neighbors at the same distance the first inserted cannot be removed), and it removes a
  neighbor whose distance differs from the given one when the identifiers agree.\<close>

theorem npq_remove_ties:
  "case insert_all [neighbor_new (1::nat) (Fin 5), neighbor_new 2 (Fin 5)] (npq_new 4) of
     Inl _ \<Rightarrow> False
   | Inr q \<Rightarrow> npq_entries q = [(Fin 5, 2, False), (Fin 5, 1, False)]
       \<and> npq_remove q (neighbor_new 1 (Fin 5)) = (False, q)
       \<and> fst (npq_remove q (neighbor_new 2 (Fin 4)))"
  by code_simp

end
