(* ===== verification/Contains_Simd.thy ===== *)
theory Contains_Simd
  imports Prelude "HOL-Library.Word"
begin

text \<open>
  \<open>diskann-vector/src/contains\<close>: membership of an identifier in a slice.  The AVX2 versions for
  32-bit and 64-bit identifiers compare blocks of lanes, gather the sign bits of the comparison
  into a mask and test the mask; the fallback is the slice's own \<open>contains\<close>.  A block is a list
  of lanes; a pointer that is advanced by \<open>n\<close> lanes drops \<open>n\<close> of them.
\<close>

section \<open>Lanes\<close>

text \<open>\<open>set1\<close>, the lane-wise comparison (all bits of a lane set when the two are equal), and
  \<open>movemask\<close>, which collects the most significant bit of every lane.\<close>

definition simd_set1 :: "nat \<Rightarrow> 'w::len word \<Rightarrow> 'w word list" where
  "simd_set1 lanes t = replicate lanes t"

definition simd_loadu :: "nat \<Rightarrow> 'w::len word list \<Rightarrow> 'w word list" where
  "simd_loadu lanes chunk = take lanes chunk"

definition simd_cmpeq :: "'w::len word list \<Rightarrow> 'w word list \<Rightarrow> 'w word list" where
  "simd_cmpeq xs ys = map2 (\<lambda>x y. if x = y then -1 else 0) xs ys"

definition simd_movemask :: "'w::len word list \<Rightarrow> nat" where
  "simd_movemask xs = horner_sum of_bool 2 (map (\<lambda>x. bit x (LENGTH('w) - 1)) xs)"

section \<open>32-bit identifiers\<close>

definition compare_8_items_u32 :: "32 word list \<Rightarrow> 32 word list \<Rightarrow> bool" where
  "compare_8_items_u32 chunk target_lane =
     (let current_block = simd_loadu 8 chunk;
          comparison = simd_cmpeq current_block target_lane
      in simd_movemask comparison \<noteq> 0)"

definition compare_16_items_u32 :: "32 word list \<Rightarrow> 32 word list \<Rightarrow> bool" where
  "compare_16_items_u32 chunk target_lane \<longleftrightarrow>
     compare_8_items_u32 chunk target_lane \<or> compare_8_items_u32 (drop 8 chunk) target_lane"

definition compare_32_items_u32 :: "32 word list \<Rightarrow> 32 word list \<Rightarrow> bool" where
  "compare_32_items_u32 chunk target_lane \<longleftrightarrow>
     compare_16_items_u32 chunk target_lane \<or> compare_16_items_u32 (drop 16 chunk) target_lane"

definition compare_4_items_u32 :: "32 word list \<Rightarrow> 32 word \<Rightarrow> bool" where
  "compare_4_items_u32 chunk target =
     (let current_block = simd_loadu 4 chunk;
          target_lane = simd_set1 4 target;
          comparison = simd_cmpeq current_block target_lane
      in simd_movemask comparison \<noteq> 0)"

text \<open>The loop over blocks of 32: \<open>None\<close> is a return of \<open>true\<close>, \<open>Some\<close> the rest of the slice.\<close>

function contains_blocks_u32 :: "32 word list \<Rightarrow> 32 word list \<Rightarrow> 32 word list option" where
  "contains_blocks_u32 target_lane remaining =
     (if 32 \<le> length remaining then
        if compare_32_items_u32 remaining target_lane then None
        else contains_blocks_u32 target_lane (drop 32 remaining)
      else Some remaining)"
  by pat_completeness auto
termination
  by (relation "measure (length \<circ> snd)") auto

declare contains_blocks_u32.simps [simp del]

text \<open>One \<open>if remaining.len() >= n\<close> step: \<open>None\<close> when the block contains the target.\<close>

definition contains_step :: "nat \<Rightarrow> ('a list \<Rightarrow> bool) \<Rightarrow> 'a list \<Rightarrow> 'a list option" where
  "contains_step n cmp remaining =
     (if n \<le> length remaining then (if cmp remaining then None else Some (drop n remaining))
      else Some remaining)"

definition contains_simd_u32 :: "32 word list \<Rightarrow> 32 word \<Rightarrow> bool" where
  "contains_simd_u32 vector target =
     (let target_lane = simd_set1 8 target in
      case contains_blocks_u32 target_lane vector of None \<Rightarrow> True | Some r32 \<Rightarrow>
      (case contains_step 16 (\<lambda>r. compare_16_items_u32 r target_lane) r32 of None \<Rightarrow> True | Some r16 \<Rightarrow>
      (case contains_step 8 (\<lambda>r. compare_8_items_u32 r target_lane) r16 of None \<Rightarrow> True | Some r8 \<Rightarrow>
      (case contains_step 4 (\<lambda>r. compare_4_items_u32 r target) r8 of None \<Rightarrow> True | Some r4 \<Rightarrow>
       list_ex (\<lambda>v. v = target) r4))))"

section \<open>64-bit identifiers\<close>

definition compare_4_items_u64 :: "64 word list \<Rightarrow> 64 word list \<Rightarrow> bool" where
  "compare_4_items_u64 chunk target_lane =
     (let current_block = simd_loadu 4 chunk;
          comparison = simd_cmpeq current_block target_lane
      in simd_movemask comparison \<noteq> 0)"

definition compare_8_items_u64 :: "64 word list \<Rightarrow> 64 word list \<Rightarrow> bool" where
  "compare_8_items_u64 chunk target_lane \<longleftrightarrow>
     compare_4_items_u64 chunk target_lane \<or> compare_4_items_u64 (drop 4 chunk) target_lane"

definition compare_16_items_u64 :: "64 word list \<Rightarrow> 64 word list \<Rightarrow> bool" where
  "compare_16_items_u64 chunk target_lane \<longleftrightarrow>
     compare_8_items_u64 chunk target_lane \<or> compare_8_items_u64 (drop 8 chunk) target_lane"

definition compare_32_items_u64 :: "64 word list \<Rightarrow> 64 word list \<Rightarrow> bool" where
  "compare_32_items_u64 chunk target_lane \<longleftrightarrow>
     compare_16_items_u64 chunk target_lane \<or> compare_16_items_u64 (drop 16 chunk) target_lane"

definition compare_2_items_u64 :: "64 word list \<Rightarrow> 64 word \<Rightarrow> bool" where
  "compare_2_items_u64 chunk target =
     (let current_block = simd_loadu 2 chunk;
          target_lane = simd_set1 2 target;
          comparison = simd_cmpeq current_block target_lane
      in simd_movemask comparison \<noteq> 0)"

function contains_blocks_u64 :: "64 word list \<Rightarrow> 64 word list \<Rightarrow> 64 word list option" where
  "contains_blocks_u64 target_lane remaining =
     (if 32 \<le> length remaining then
        if compare_32_items_u64 remaining target_lane then None
        else contains_blocks_u64 target_lane (drop 32 remaining)
      else Some remaining)"
  by pat_completeness auto
termination
  by (relation "measure (length \<circ> snd)") auto

declare contains_blocks_u64.simps [simp del]

definition contains_simd_u64 :: "64 word list \<Rightarrow> 64 word \<Rightarrow> bool" where
  "contains_simd_u64 vector target =
     (let target_lane = simd_set1 4 target in
      case contains_blocks_u64 target_lane vector of None \<Rightarrow> True | Some r32 \<Rightarrow>
      (case contains_step 16 (\<lambda>r. compare_16_items_u64 r target_lane) r32 of None \<Rightarrow> True | Some r16 \<Rightarrow>
      (case contains_step 8 (\<lambda>r. compare_8_items_u64 r target_lane) r16 of None \<Rightarrow> True | Some r8 \<Rightarrow>
      (case contains_step 4 (\<lambda>r. compare_4_items_u64 r target_lane) r8 of None \<Rightarrow> True | Some r4 \<Rightarrow>
      (case contains_step 2 (\<lambda>r. compare_2_items_u64 r target) r4 of None \<Rightarrow> True | Some r2 \<Rightarrow>
       list_ex (\<lambda>v. v = target) r2)))))"

section \<open>Correctness\<close>

lemma horner_of_bool_zero: "horner_sum of_bool (2::nat) bs = 0 \<longleftrightarrow> (\<forall>b\<in>set bs. \<not> b)"
  by (induction bs) auto

lemma movemask_cmpeq_set1:
  fixes xs :: "'w::len word list"
  assumes "length xs = n"
  shows "simd_movemask (simd_cmpeq xs (simd_set1 n t)) \<noteq> 0 \<longleftrightarrow> t \<in> set xs"
proof -
  have "map2 (\<lambda>x y. if x = y then -1 else 0) xs (replicate n t)
      = map (\<lambda>x. if x = t then -1 else 0 :: 'w word) xs"
    using assms by (induction xs arbitrary: n) auto
  then show ?thesis
    by (auto simp: simd_movemask_def simd_cmpeq_def simd_set1_def horner_of_bool_zero)
qed

text \<open>What a block comparison has to say about the remaining slice.\<close>

definition block_ok :: "nat \<Rightarrow> 'a \<Rightarrow> ('a list \<Rightarrow> bool) \<Rightarrow> bool" where
  "block_ok n t cmp \<longleftrightarrow> (\<forall>xs. n \<le> length xs \<longrightarrow> cmp xs = (t \<in> set (take n xs)))"

lemma block_ok_lanes:
  fixes t :: "'w::len word"
  shows "block_ok n t (\<lambda>xs. simd_movemask (simd_cmpeq (simd_loadu n xs) (simd_set1 n t)) \<noteq> 0)"
  unfolding block_ok_def simd_loadu_def by (intro allI impI movemask_cmpeq_set1) simp

lemma block_ok_double:
  assumes "block_ok n t cmp"
  shows "block_ok (n + n) t (\<lambda>xs. cmp xs \<or> cmp (drop n xs))"
  using assms unfolding block_ok_def by (auto simp: take_add)

lemma contains_step_spec:
  assumes "block_ok n t cmp"
  shows "case contains_step n cmp xs of None \<Rightarrow> t \<in> set xs | Some ys \<Rightarrow> t \<in> set ys \<longleftrightarrow> t \<in> set xs"
proof -
  have split: "t \<in> set xs \<longleftrightarrow> t \<in> set (take n xs) \<or> t \<in> set (drop n xs)"
    by (metis append_take_drop_id set_append Un_iff)
  have cmp: "cmp xs = (t \<in> set (take n xs))" if "n \<le> length xs"
    using assms that unfolding block_ok_def by blast
  show ?thesis
  proof (cases "n \<le> length xs")
    case True
    then show ?thesis unfolding contains_step_def using cmp [OF True] split by simp
  next
    case False
    then show ?thesis by (simp add: contains_step_def)
  qed
qed

lemma block_ok_u32:
  "block_ok 8 t (\<lambda>r. compare_8_items_u32 r (simd_set1 8 t))"
  "block_ok 16 t (\<lambda>r. compare_16_items_u32 r (simd_set1 8 t))"
  "block_ok 32 t (\<lambda>r. compare_32_items_u32 r (simd_set1 8 t))"
  "block_ok 4 t (\<lambda>r. compare_4_items_u32 r t)"
proof -
  show 8: "block_ok 8 t (\<lambda>r. compare_8_items_u32 r (simd_set1 8 t))"
    using block_ok_lanes [of 8 t] by (simp add: compare_8_items_u32_def)
  show 16: "block_ok 16 t (\<lambda>r. compare_16_items_u32 r (simd_set1 8 t))"
    using block_ok_double [OF 8] by (simp add: compare_16_items_u32_def)
  show "block_ok 32 t (\<lambda>r. compare_32_items_u32 r (simd_set1 8 t))"
    using block_ok_double [OF 16] by (simp add: compare_32_items_u32_def)
  show "block_ok 4 t (\<lambda>r. compare_4_items_u32 r t)"
    using block_ok_lanes [of 4 t] by (simp add: compare_4_items_u32_def)
qed

lemma block_ok_u64:
  "block_ok 4 t (\<lambda>r. compare_4_items_u64 r (simd_set1 4 t))"
  "block_ok 8 t (\<lambda>r. compare_8_items_u64 r (simd_set1 4 t))"
  "block_ok 16 t (\<lambda>r. compare_16_items_u64 r (simd_set1 4 t))"
  "block_ok 32 t (\<lambda>r. compare_32_items_u64 r (simd_set1 4 t))"
  "block_ok 2 t (\<lambda>r. compare_2_items_u64 r t)"
proof -
  show 4: "block_ok 4 t (\<lambda>r. compare_4_items_u64 r (simd_set1 4 t))"
    using block_ok_lanes [of 4 t] by (simp add: compare_4_items_u64_def)
  show 8: "block_ok 8 t (\<lambda>r. compare_8_items_u64 r (simd_set1 4 t))"
    using block_ok_double [OF 4] by (simp add: compare_8_items_u64_def)
  show 16: "block_ok 16 t (\<lambda>r. compare_16_items_u64 r (simd_set1 4 t))"
    using block_ok_double [OF 8] by (simp add: compare_16_items_u64_def)
  show "block_ok 32 t (\<lambda>r. compare_32_items_u64 r (simd_set1 4 t))"
    using block_ok_double [OF 16] by (simp add: compare_32_items_u64_def)
  show "block_ok 2 t (\<lambda>r. compare_2_items_u64 r t)"
    using block_ok_lanes [of 2 t] by (simp add: compare_2_items_u64_def)
qed

text \<open>The loop is the step of 32 repeated.\<close>

lemma contains_blocks_u32_step:
  "contains_blocks_u32 lane xs = (if 32 \<le> length xs
     then case contains_step 32 (\<lambda>r. compare_32_items_u32 r lane) xs of
            None \<Rightarrow> None | Some ys \<Rightarrow> contains_blocks_u32 lane ys
     else Some xs)"
  by (subst contains_blocks_u32.simps) (simp add: contains_step_def)

lemma contains_blocks_u64_step:
  "contains_blocks_u64 lane xs = (if 32 \<le> length xs
     then case contains_step 32 (\<lambda>r. compare_32_items_u64 r lane) xs of
            None \<Rightarrow> None | Some ys \<Rightarrow> contains_blocks_u64 lane ys
     else Some xs)"
  by (subst contains_blocks_u64.simps) (simp add: contains_step_def)

lemma contains_blocks_u32_spec:
  "case contains_blocks_u32 (simd_set1 8 t) xs of None \<Rightarrow> t \<in> set xs | Some ys \<Rightarrow> t \<in> set ys \<longleftrightarrow> t \<in> set xs"
proof (induction xs rule: length_induct)
  case (1 xs)
  show ?case
  proof (cases "32 \<le> length xs")
    case True
    then have "length (drop 32 xs) < length xs" by simp
    with 1 have IH: "case contains_blocks_u32 (simd_set1 8 t) (drop 32 xs) of
      None \<Rightarrow> t \<in> set (drop 32 xs) | Some ys \<Rightarrow> t \<in> set ys \<longleftrightarrow> t \<in> set (drop 32 xs)" by blast
    show ?thesis using contains_step_spec [OF block_ok_u32(3), of t xs] IH True
      by (subst contains_blocks_u32_step) (auto simp: contains_step_def split: option.splits if_splits)
  qed (subst contains_blocks_u32.simps, simp)
qed

lemma contains_blocks_u64_spec:
  "case contains_blocks_u64 (simd_set1 4 t) xs of None \<Rightarrow> t \<in> set xs | Some ys \<Rightarrow> t \<in> set ys \<longleftrightarrow> t \<in> set xs"
proof (induction xs rule: length_induct)
  case (1 xs)
  show ?case
  proof (cases "32 \<le> length xs")
    case True
    then have "length (drop 32 xs) < length xs" by simp
    with 1 have IH: "case contains_blocks_u64 (simd_set1 4 t) (drop 32 xs) of
      None \<Rightarrow> t \<in> set (drop 32 xs) | Some ys \<Rightarrow> t \<in> set ys \<longleftrightarrow> t \<in> set (drop 32 xs)" by blast
    show ?thesis using contains_step_spec [OF block_ok_u64(4), of t xs] IH True
      by (subst contains_blocks_u64_step) (auto simp: contains_step_def split: option.splits if_splits)
  qed (subst contains_blocks_u64.simps, simp)
qed

lemma contains_chain:
  assumes "case r of None \<Rightarrow> t \<in> set xs | Some ys \<Rightarrow> t \<in> set ys \<longleftrightarrow> t \<in> set xs"
    and "\<And>ys. t \<in> set ys \<longleftrightarrow> t \<in> set xs \<Longrightarrow> f ys = (t \<in> set xs)"
  shows "(case r of None \<Rightarrow> True | Some ys \<Rightarrow> f ys) = (t \<in> set xs)"
  using assms by (cases r) auto

section \<open>The trait\<close>

text \<open>\<open>ContainsSimd\<close>: the contract its clients rely on is that of the slice method.\<close>

locale contains_simd =
  fixes contains :: "'i list \<Rightarrow> 'i \<Rightarrow> bool"
  assumes contains_law: "contains v t \<longleftrightarrow> t \<in> set v"
begin

lemma contains_append: "contains (v @ w) t \<longleftrightarrow> contains v t \<or> contains w t"
  by (simp add: contains_law)

lemma not_contains_filter: "filter (\<lambda>t. \<not> contains v t) v = []"
  by (simp add: contains_law filter_empty_conv)

end

interpretation u32: contains_simd contains_simd_u32
proof
  fix v t
  show "contains_simd_u32 v t \<longleftrightarrow> t \<in> set v" unfolding contains_simd_u32_def Let_def
  proof (rule contains_chain [OF contains_blocks_u32_spec])
    fix r32 :: "32 word list" assume a: "t \<in> set r32 \<longleftrightarrow> t \<in> set v"
    note s16 = contains_step_spec [OF block_ok_u32(2)] and s8 = contains_step_spec [OF block_ok_u32(1)]
      and s4 = contains_step_spec [OF block_ok_u32(4)]
    show "(case contains_step 16 (\<lambda>r. compare_16_items_u32 r (simd_set1 8 t)) r32 of None \<Rightarrow> True | Some r16 \<Rightarrow>
      (case contains_step 8 (\<lambda>r. compare_8_items_u32 r (simd_set1 8 t)) r16 of None \<Rightarrow> True | Some r8 \<Rightarrow>
      (case contains_step 4 (\<lambda>r. compare_4_items_u32 r t) r8 of None \<Rightarrow> True | Some r4 \<Rightarrow>
       list_ex (\<lambda>v. v = t) r4))) = (t \<in> set v)"
      unfolding a [symmetric]
      by (rule contains_chain [OF s16], erule subst, rule contains_chain [OF s8], erule subst,
          rule contains_chain [OF s4], erule subst, auto simp: list_ex_iff)
  qed
qed

interpretation u64: contains_simd contains_simd_u64
proof
  fix v t
  show "contains_simd_u64 v t \<longleftrightarrow> t \<in> set v" unfolding contains_simd_u64_def Let_def
  proof (rule contains_chain [OF contains_blocks_u64_spec])
    fix r32 :: "64 word list" assume a: "t \<in> set r32 \<longleftrightarrow> t \<in> set v"
    note s16 = contains_step_spec [OF block_ok_u64(3)] and s8 = contains_step_spec [OF block_ok_u64(2)]
      and s4 = contains_step_spec [OF block_ok_u64(1)] and s2 = contains_step_spec [OF block_ok_u64(5)]
    show "(case contains_step 16 (\<lambda>r. compare_16_items_u64 r (simd_set1 4 t)) r32 of None \<Rightarrow> True | Some r16 \<Rightarrow>
      (case contains_step 8 (\<lambda>r. compare_8_items_u64 r (simd_set1 4 t)) r16 of None \<Rightarrow> True | Some r8 \<Rightarrow>
      (case contains_step 4 (\<lambda>r. compare_4_items_u64 r (simd_set1 4 t)) r8 of None \<Rightarrow> True | Some r4 \<Rightarrow>
      (case contains_step 2 (\<lambda>r. compare_2_items_u64 r t) r4 of None \<Rightarrow> True | Some r2 \<Rightarrow>
       list_ex (\<lambda>v. v = t) r2)))) = (t \<in> set v)"
      unfolding a [symmetric]
      by (rule contains_chain [OF s16], erule subst, rule contains_chain [OF s8], erule subst,
          rule contains_chain [OF s4], erule subst, rule contains_chain [OF s2], erule subst,
          auto simp: list_ex_iff)
  qed
qed

text \<open>C26: the block-wise AVX2 membership tests agree with membership in the slice, for 32-bit and
  for 64-bit identifiers and every slice length.\<close>

theorem contains_simd_correct:
  "contains_simd_u32 v t = (t \<in> set v) \<and> contains_simd_u64 v' t' = (t' \<in> set v')"
  by (simp add: u32.contains_law u64.contains_law)

end
