(* ===== verification/Adjacency_List.thy ===== *)
theory Adjacency_List
  imports Contains_Simd "HOL-Library.Sublist"
begin

text \<open>
  \<open>diskann/src/graph/adjacencylist.rs\<close>: the out-neighbors of a vertex, a vector of identifiers
  whose operations keep it free of duplicates.  \<open>AdjacencyList\<close> is a transparent wrapper of its
  vector and is the list of its edges here.  The membership test is the one of the trait
  \<open>ContainsSimd\<close>, which is membership (\<open>Contains_Simd\<close>).  The debug-only check for duplicates is
  not part of the model.
\<close>

type_synonym 'i adjacency_list = "'i list"

section \<open>Operations\<close>

definition al_new :: "'i adjacency_list" where
  "al_new = []"

definition al_last :: "'i adjacency_list \<Rightarrow> nat \<Rightarrow> 'i list option" where
  "al_last es cnt = (if cnt \<le> length es then Some (drop (length es - cnt) es) else None)"

definition al_retain :: "('i \<Rightarrow> bool) \<Rightarrow> 'i adjacency_list \<Rightarrow> 'i adjacency_list" where
  "al_retain f es = filter f es"

definition al_clear :: "'i adjacency_list \<Rightarrow> 'i adjacency_list" where
  "al_clear es = []"

definition al_truncate :: "nat \<Rightarrow> 'i adjacency_list \<Rightarrow> 'i adjacency_list" where
  "al_truncate len es = take len es"

definition al_contains :: "'i adjacency_list \<Rightarrow> 'i \<Rightarrow> bool" where
  "al_contains es i = List.member es i"

definition al_push :: "'i \<Rightarrow> 'i adjacency_list \<Rightarrow> bool \<times> 'i adjacency_list" where
  "al_push i es = (if \<not> al_contains es i then (True, es @ [i]) else (False, es))"

text \<open>The filter of \<open>extend_from_slice\<close> pushes every item and counts the pushes that succeed.\<close>

fun extend_from_slice :: "'i list \<Rightarrow> 'i adjacency_list \<Rightarrow> nat \<times> 'i adjacency_list" where
  "extend_from_slice [] es = (0, es)"
| "extend_from_slice (i # ns) es =
     (let (pushed, es1) = al_push i es; (n, es2) = extend_from_slice ns es1
      in (if pushed then Suc n else n, es2))"

definition al_sort :: "'i::linorder adjacency_list \<Rightarrow> 'i adjacency_list" where
  "al_sort es = sort es"

definition from_iter_unique :: "'i list \<Rightarrow> 'i adjacency_list" where
  "from_iter_unique itr = itr"

definition from_iter_untrusted :: "'i::linorder list \<Rightarrow> 'i adjacency_list" where
  "from_iter_untrusted itr = remdups_adj (sort itr)"

definition overwrite_trusted :: "'i list \<Rightarrow> 'i adjacency_list \<Rightarrow> 'i adjacency_list" where
  "overwrite_trusted ns es = al_clear es @ ns"

definition remap_trusted :: "('i \<Rightarrow> 'i) \<Rightarrow> 'i adjacency_list \<Rightarrow> 'i adjacency_list" where
  "remap_trusted f es = map f es"

definition all_unique :: "'i adjacency_list \<Rightarrow> bool" where
  "all_unique es \<longleftrightarrow> fst (extend_from_slice es al_new) = length es"

text \<open>\<open>resize\<close> hands out a guard over the resized storage.  The holder of the guard writes to it;
  \<open>finish\<close> truncates the list, dropping the guard without it clears the list.\<close>

definition al_resize :: "'i \<Rightarrow> nat \<Rightarrow> 'i adjacency_list \<Rightarrow> 'i list" where
  "al_resize dflt capacity es = take capacity es @ replicate (capacity - length es) dflt"

definition guard_finish :: "nat \<Rightarrow> 'i list \<Rightarrow> 'i adjacency_list" where
  "guard_finish at_most guard = al_truncate at_most guard"

definition guard_drop :: "'i list \<Rightarrow> 'i adjacency_list" where
  "guard_drop guard = al_clear guard"

section \<open>Lemmas\<close>

lemma al_contains_iff [simp]: "al_contains es i \<longleftrightarrow> i \<in> set es"
  by (simp add: al_contains_def)

text \<open>The two machine versions of the membership test give the test of the model.\<close>

lemma al_contains_simd:
  "contains_simd_u32 es32 i32 = al_contains es32 i32"
  "contains_simd_u64 es64 i64 = al_contains es64 i64"
  by (simp_all add: u32.contains_law u64.contains_law)

lemma al_push_props:
  assumes "al_push i es = (b, es')"
  shows "distinct es \<Longrightarrow> distinct es'" "set es' = insert i (set es)" "b \<longleftrightarrow> i \<notin> set es"
    "length es' = (if b then Suc (length es) else length es)" "prefix es es'"
  using assms by (auto simp: al_push_def split: if_splits)

text \<open>What \<open>extend_from_slice\<close> adds: the items that are new, the first occurrence of each.\<close>

fun fresh :: "'i list \<Rightarrow> 'i set \<Rightarrow> 'i list" where
  "fresh [] seen = []"
| "fresh (i # ns) seen = (if i \<in> seen then fresh ns seen else i # fresh ns (insert i seen))"

lemma extend_from_slice_eq:
  "extend_from_slice ns es = (length (fresh ns (set es)), es @ fresh ns (set es))"
  by (induction "ns" arbitrary: es) (auto simp: al_push_def)

lemma set_fresh: "set (fresh ns seen) = set ns - seen"
  by (induction "ns" arbitrary: seen) auto

lemma distinct_fresh: "distinct (fresh ns seen)"
  by (induction "ns" arbitrary: seen) (auto simp: set_fresh)

lemma subseq_fresh: "subseq (fresh ns seen) ns"
  by (induction "ns" arbitrary: seen) auto

lemma fresh_id: "distinct ns \<Longrightarrow> set ns \<inter> seen = {} \<Longrightarrow> fresh ns seen = ns"
  by (induction "ns" arbitrary: seen) auto

text \<open>In terms of the library: \<open>remdups\<close> keeps last occurrences, so it is turned around.\<close>

lemma remdups_append_filter: "remdups (xs @ ys) = filter (\<lambda>x. x \<notin> set ys) (remdups xs) @ remdups ys"
  by (induction xs) auto

lemma fresh_remdups: "fresh ns seen = filter (\<lambda>i. i \<notin> seen) (rev (remdups (rev ns)))"
  by (induction "ns" arbitrary: seen) (auto simp: remdups_append_filter rev_filter [symmetric] intro: filter_cong)

lemma length_fresh_le: "length (fresh ns seen) \<le> length ns"
  using subseq_fresh by (rule list_emb_length)

lemma all_unique_iff: "all_unique es \<longleftrightarrow> distinct es"
proof
  assume "all_unique es"
  then have "length (fresh es {}) = length es"
    by (simp add: all_unique_def extend_from_slice_eq al_new_def)
  with subseq_fresh [of es "{}"] have "fresh es {} = es" by (rule subseq_same_length)
  then show "distinct es" using distinct_fresh [of es "{}"] by simp
next
  assume "distinct es"
  then show "all_unique es"
    by (simp add: all_unique_def extend_from_slice_eq al_new_def fresh_id)
qed

lemma distinct_remdups_adj_sorted: "sorted xs \<Longrightarrow> distinct (remdups_adj xs)"
  for xs :: "'a::linorder list"
  by (induction xs rule: remdups_adj.induct) auto

lemma from_iter_untrusted_props:
  "distinct (from_iter_untrusted xs)" "set (from_iter_untrusted xs) = set xs" "sorted (from_iter_untrusted xs)"
  by (simp_all add: from_iter_untrusted_def distinct_remdups_adj_sorted)

lemma from_iter_untrusted_eq: "from_iter_untrusted xs = sorted_list_of_set (set xs)"
  using from_iter_untrusted_props [of xs]
  by (metis finite_set sorted_distinct_set_unique sorted_list_of_set.distinct_sorted_key_list_of_set
      sorted_list_of_set.set_sorted_key_list_of_set sorted_list_of_set.sorted_sorted_key_list_of_set)

section \<open>Properties\<close>

text \<open>C28: \<open>extend_from_slice\<close> appends to any list the items of the slice that are not in it, each at
  its first occurrence and in the order of the slice, and reports how many it appended, so that
  \<open>last\<close> of that number is the new part; \<open>push\<close> does the same for one item; \<open>all_unique\<close> is true
  exactly of the lists without duplicates; \<open>from_iter_untrusted\<close> is the ascending list of the
  items; and no operation brings duplicates into a list that has none.\<close>

theorem adjacency_list_unique:
  fixes es ns :: "'i::linorder list"
  shows "(let new = filter (\<lambda>i. i \<notin> set es) (rev (remdups (rev ns)))
          in extend_from_slice ns es = (length new, es @ new)
             \<and> al_last (es @ new) (length new) = Some new)
    \<and> al_push i es = (i \<notin> set es, if i \<in> set es then es else es @ [i])
    \<and> (all_unique es \<longleftrightarrow> distinct es)
    \<and> from_iter_untrusted ns = sorted_list_of_set (set ns)
    \<and> (distinct es \<longrightarrow> distinct (snd (al_push i es)) \<and> distinct (snd (extend_from_slice ns es))
        \<and> distinct (al_retain f es) \<and> distinct (al_truncate n es) \<and> distinct (al_sort es))"
proof (intro conjI impI)
  show "(let new = filter (\<lambda>i. i \<notin> set es) (rev (remdups (rev ns)))
          in extend_from_slice ns es = (length new, es @ new)
             \<and> al_last (es @ new) (length new) = Some new)"
    by (simp add: extend_from_slice_eq al_last_def Let_def flip: fresh_remdups)
qed (simp_all add: al_push_def all_unique_iff from_iter_untrusted_eq extend_from_slice_eq distinct_fresh
    set_fresh al_retain_def al_truncate_def al_sort_def)

theorem adjacency_list_unique_witness:
  "extend_from_slice [3, 1, 3, 0::nat] [1, 2] = (2, [1, 2, 3, 0]) \<and> \<not> all_unique [1, 2, 1::nat]
     \<and> distinct (snd (extend_from_slice [3, 1, 3, 0::nat] [1, 2]))"
  using adjacency_list_unique [of "[1, 2::nat]" "[3, 1, 3, 0]" 3 "\<lambda>x. True" 1]
    adjacency_list_unique [of "[1, 2, 1::nat]" "[]" 3 "\<lambda>x. True" 1]
  by (simp add: Let_def del: extend_from_slice.simps)

end
