(* ===== verification/Ranked_Error.thy ===== *)
theory Ranked_Error
  imports Prelude
begin

text \<open>
  \<open>diskann/src/error/ranked.rs\<close>: errors of the data providers are transient or critical.  A call
  site either allows transient errors, which then count as the absence of a value, or escalates
  them.  An escalated transient error is the error it carries.
\<close>

datatype 'e ranked_error = Transient 'e | RError 'e

definition allow_transient :: "'e ranked_error + 'a \<Rightarrow> 'e + 'a option" where
  "allow_transient r =
     (case r of
        Inr v \<Rightarrow> Inr (Some v)
      | Inl err \<Rightarrow> (case err of Transient t \<Rightarrow> Inr None | RError e \<Rightarrow> Inl e))"

definition escalate :: "'e ranked_error + 'a \<Rightarrow> 'e + 'a" where
  "escalate r =
     (case r of
        Inr v \<Rightarrow> Inr v
      | Inl err \<Rightarrow> (case err of Transient t \<Rightarrow> Inl t | RError e \<Rightarrow> Inl e))"

lemma allow_transient_simps [simp]:
  "allow_transient (Inr v) = Inr (Some v)" "allow_transient (Inl (Transient t)) = Inr None"
  "allow_transient (Inl (RError e)) = Inl e"
  by (simp_all add: allow_transient_def)

lemma escalate_simps [simp]:
  "escalate (Inr v) = Inr v" "escalate (Inl (Transient t)) = Inl t" "escalate (Inl (RError e)) = Inl e"
  by (simp_all add: escalate_def)

text \<open>The two ways agree on values and on critical errors.\<close>

lemma allow_transient_Some: "allow_transient r = Inr (Some v) \<longleftrightarrow> escalate r = Inr v"
  by (auto simp: allow_transient_def escalate_def split: sum.splits ranked_error.splits)

end
