(* ===== verification/Graph_Search.thy ===== *)
theory Graph_Search
  imports Neighbor_Queue Adjacency_List Ranked_Error
begin

text \<open>
  The greedy search over the graph: \<open>diskann/src/graph/search/scratch.rs\<close>, the search records, the
  beam expansion of \<open>diskann/src/graph/glue.rs\<close> and \<open>search_internal\<close>, \<open>filter_search_candidates\<close>
  and the paged search of \<open>diskann/src/graph/index.rs\<close>.

  What the search uses of a data provider is a record of functions: the element of an identifier
  (its retrieval may fail transiently or critically), its out-neighbors, and the test for early
  termination, which may change the accessor's state.  The queue is any implementation of the trait
  \<open>NeighborQueue\<close>.  The visited set is a set, the counters are \<open>u32\<close> and wrap.  A search loop that
  does not end is \<open>None\<close>.
\<close>

section \<open>Scratch space and records\<close>

record ('i, 'q) search_scratch =
  best :: 'q
  visited :: "'i set"
  id_scratch :: "'i list"
  beam_nodes :: "'i list"
  range_frontier :: "'i list"
  in_range :: "'i neighbor list"
  hops :: "32 word"
  cmps :: "32 word"

datatype pq_configuration = Fixed nat | Resizable nat

definition search_scratch_new :: "pq_configuration \<Rightarrow> ('i, 'i npq) search_scratch" where
  "search_scratch_new nbest =
     \<lparr>best = (case nbest of Fixed c \<Rightarrow> npq_new c | Resizable c \<Rightarrow> auto_resizable_with_search_param_l c),
      visited = {}, id_scratch = [], beam_nodes = [], range_frontier = [], in_range = [],
      hops = 0, cmps = 0\<rparr>"

definition scratch_resize :: "nat \<Rightarrow> ('i, 'i npq) search_scratch \<Rightarrow> ('i, 'i npq) search_scratch" where
  "scratch_resize nbest s = s\<lparr>best := reconfigure (best s) nbest\<rparr>"

definition scratch_clear :: "('i, 'i npq) search_scratch \<Rightarrow> ('i, 'i npq) search_scratch" where
  "scratch_clear s =
     \<lparr>best = npq_clear (best s), visited = {}, id_scratch = [], beam_nodes = [], range_frontier = [],
      in_range = [], hops = 0, cmps = 0\<rparr>"

definition scratch_search_l :: "('i, 'i npq) search_scratch \<Rightarrow> nat" where
  "scratch_search_l s = search_param_l (best s)"

text \<open>Scratch spaces are pooled: \<open>AsPooled::modify\<close> prepares a used one for the next search.\<close>

record search_scratch_params =
  l_value :: nat
  ssp_max_degree :: nat
  num_frozen_pts :: nat

definition scratch_create :: "search_scratch_params \<Rightarrow> ('i, 'i npq) search_scratch" where
  "scratch_create p = search_scratch_new (Fixed (l_value p + num_frozen_pts p))"

definition scratch_modify :: "search_scratch_params \<Rightarrow> ('i, 'i npq) search_scratch \<Rightarrow> ('i, 'i npq) search_scratch" where
  "scratch_modify p s =
     (let s1 = scratch_clear s in
      if auto_resizable (best s1) then s1\<lparr>best := npq_new (l_value p + num_frozen_pts p)\<rparr>
      else s1\<lparr>best := reconfigure (best s1) (l_value p + num_frozen_pts p)\<rparr>)"

text \<open>The records: nothing, the visited candidates, or the recall against a ground truth.\<close>

definition noop_record :: "unit \<Rightarrow> 'i neighbor \<Rightarrow> 32 word \<Rightarrow> 32 word \<Rightarrow> unit" where
  "noop_record r n h c = r"

definition visited_record :: "'i neighbor list \<Rightarrow> 'i neighbor \<Rightarrow> 32 word \<Rightarrow> 32 word \<Rightarrow> 'i neighbor list" where
  "visited_record r n h c = r @ [n]"

record 'i recall_search_record =
  groundtruth :: "'i list"
  running_recall :: nat
  rec_hops :: "32 word list"
  rec_recall :: "nat list"

definition recall_record ::
  "'i recall_search_record \<Rightarrow> 'i neighbor \<Rightarrow> 32 word \<Rightarrow> 32 word \<Rightarrow> 'i recall_search_record" where
  "recall_record r n h c =
     (let running = (if nbr_id n \<in> set (groundtruth r) then running_recall r + 1 else running_recall r)
      in r\<lparr>rec_hops := rec_hops r @ [h], running_recall := running, rec_recall := rec_recall r @ [running]\<rparr>)"

section \<open>Expansion of a beam\<close>

record ('i, 'v, 'e, 'a) search_accessor =
  sa_get_element :: "'i \<Rightarrow> 'e ranked_error + 'v"
  sa_get_neighbors :: "'i \<Rightarrow> 'e + 'i adjacency_list"
  sa_terminate_early :: "'a \<Rightarrow> bool \<times> 'a"

text \<open>\<open>NotInMut\<close>: the predicate on a set; the mutable version inserts and says whether it was new.\<close>

definition not_in_eval :: "'i set \<Rightarrow> 'i \<Rightarrow> bool" where
  "not_in_eval vis i \<longleftrightarrow> i \<notin> vis"

definition not_in_eval_mut :: "'i set \<Rightarrow> 'i \<Rightarrow> bool \<times> 'i set" where
  "not_in_eval_mut vis i = (i \<notin> vis, insert i vis)"

text \<open>\<open>distances_unordered\<close> with its default \<open>on_elements_unordered\<close>: the first element that cannot
  be retrieved ends the call.\<close>

fun distances_unordered ::
  "('i, 'v, 'e, 'a) search_accessor \<Rightarrow> ('v \<Rightarrow> f32) \<Rightarrow> (f32 \<Rightarrow> 'i \<Rightarrow> 's \<Rightarrow> 's) \<Rightarrow> 'i list \<Rightarrow> 's
    \<Rightarrow> ('e ranked_error + unit) \<times> 's" where
  "distances_unordered acc computer f [] s = (Inr (), s)"
| "distances_unordered acc computer f (i # ids) s =
     (case sa_get_element acc i of
        Inl e \<Rightarrow> (Inl e, s)
      | Inr v \<Rightarrow> distances_unordered acc computer f ids (f (computer v) i s))"

definition on_neighbor :: "f32 \<Rightarrow> 'i \<Rightarrow> 'i set \<times> 'i neighbor list \<Rightarrow> 'i set \<times> 'i neighbor list" where
  "on_neighbor d i st =
     (case st of (vis, out) \<Rightarrow>
        case not_in_eval_mut vis i of (isnew, vis') \<Rightarrow> (vis', if isnew then out @ [neighbor_new i d] else out))"

fun expand_beam ::
  "('i, 'v, 'e, 'a) search_accessor \<Rightarrow> ('v \<Rightarrow> f32) \<Rightarrow> 'i list \<Rightarrow> 'i set \<times> 'i neighbor list
    \<Rightarrow> 'e + ('i set \<times> 'i neighbor list)" where
  "expand_beam acc computer [] st = Inr st"
| "expand_beam acc computer (i # ids) st =
     rbind (sa_get_neighbors acc i) (\<lambda>ns.
       let ns' = al_retain (not_in_eval (fst st)) ns;
           (r, st') = distances_unordered acc computer on_neighbor ns' st
       in rbind (allow_transient r) (\<lambda>_. expand_beam acc computer ids st'))"

section \<open>The search loop\<close>

datatype 'e search_error = SError 'e | SPanic fault

definition lift_fault :: "fault + 'a \<Rightarrow> 'e search_error + 'a" where
  "lift_fault r = (case r of Inl f \<Rightarrow> Inl (SPanic f) | Inr x \<Rightarrow> Inr x)"

definition lift_error :: "'e + 'a \<Rightarrow> 'e search_error + 'a" where
  "lift_error r = (case r of Inl e \<Rightarrow> Inl (SError e) | Inr x \<Rightarrow> Inr x)"

definition init_start ::
  "('i, 'v, 'e, 'a) search_accessor \<Rightarrow> ('v \<Rightarrow> f32) \<Rightarrow> ('i, 'q) nq_ops \<Rightarrow> 'i \<Rightarrow> ('i, 'q) search_scratch
    \<Rightarrow> 'e search_error + ('i, 'q) search_scratch" where
  "init_start acc computer ops i s =
     rbind (lift_error (escalate (sa_get_element acc i))) (\<lambda>v.
     rbind (lift_fault (nq_insert ops (best s) (neighbor_new i (computer v)))) (\<lambda>q.
     Inr (s\<lparr>visited := insert i (visited s), best := q, cmps := cmps s + 1\<rparr>)))"

text \<open>The inner loop: take up to \<open>n\<close> more nodes from the queue.\<close>

fun pop_beam ::
  "('i, 'q) nq_ops \<Rightarrow> ('r \<Rightarrow> 'i neighbor \<Rightarrow> 32 word \<Rightarrow> 32 word \<Rightarrow> 'r) \<Rightarrow> nat \<Rightarrow> ('i, 'q) search_scratch \<Rightarrow> 'r
    \<Rightarrow> fault + (('i, 'q) search_scratch \<times> 'r)" where
  "pop_beam ops rec 0 s r = Inr (s, r)"
| "pop_beam ops rec (Suc n) s r =
     rbind (nq_closest_notvisited ops (best s)) (\<lambda>(c, q).
       case c of
         None \<Rightarrow> Inr (s\<lparr>best := q\<rparr>, r)
       | Some node \<Rightarrow>
           pop_beam ops rec n (s\<lparr>best := q, beam_nodes := beam_nodes s @ [nbr_id node]\<rparr>)
             (rec r node (hops s) (cmps s)))"

definition search_step ::
  "('i, 'v, 'e, 'a) search_accessor \<Rightarrow> ('v \<Rightarrow> f32) \<Rightarrow> ('i, 'q) nq_ops
    \<Rightarrow> ('r \<Rightarrow> 'i neighbor \<Rightarrow> 32 word \<Rightarrow> 32 word \<Rightarrow> 'r) \<Rightarrow> nat \<Rightarrow> ('i, 'q) search_scratch \<Rightarrow> 'r
    \<Rightarrow> 'e search_error + (('i, 'q) search_scratch \<times> 'r)" where
  "search_step acc computer ops rec beam_width s r =
     rbind (lift_fault (pop_beam ops rec beam_width (s\<lparr>beam_nodes := []\<rparr>) r)) (\<lambda>(s1, r1).
     rbind (lift_error (expand_beam acc computer (beam_nodes s1) (visited s1, []))) (\<lambda>(vis, neighbors).
     rbind (lift_fault (rfold (\<lambda>n q. nq_insert ops q n) neighbors (best s1))) (\<lambda>q.
     Inr (s1\<lparr>visited := vis, best := q, cmps := cmps s1 + of_nat (length neighbors),
             hops := hops s1 + of_nat (length (beam_nodes s1))\<rparr>, r1))))"

partial_function (option) search_loop ::
  "('i, 'v, 'e, 'a) search_accessor \<Rightarrow> ('v \<Rightarrow> f32) \<Rightarrow> ('i, 'q) nq_ops
    \<Rightarrow> ('r \<Rightarrow> 'i neighbor \<Rightarrow> 32 word \<Rightarrow> 32 word \<Rightarrow> 'r) \<Rightarrow> nat \<Rightarrow> ('i, 'q) search_scratch \<Rightarrow> 'r \<Rightarrow> 'a
    \<Rightarrow> ('e search_error + (('i, 'q) search_scratch \<times> 'r \<times> 'a)) option"
where
  "search_loop acc computer ops rec beam_width s r a =
     (if nq_has_notvisited_node ops (best s) then
        (case sa_terminate_early acc a of (stop, a') \<Rightarrow>
           if stop then Some (Inr (s, r, a'))
           else (case search_step acc computer ops rec beam_width s r of
                   Inl e \<Rightarrow> Some (Inl e)
                 | Inr (s', r') \<Rightarrow> search_loop acc computer ops rec beam_width s' r' a'))
      else Some (Inr (s, r, a)))"

declare search_loop.simps [code]

record search_stats =
  stat_cmps :: "32 word"
  stat_hops :: "32 word"
  range_search_second_round :: bool

definition search_internal ::
  "('i, 'v, 'e, 'a) search_accessor \<Rightarrow> ('v \<Rightarrow> f32) \<Rightarrow> ('i, 'q) nq_ops
    \<Rightarrow> ('r \<Rightarrow> 'i neighbor \<Rightarrow> 32 word \<Rightarrow> 32 word \<Rightarrow> 'r) \<Rightarrow> nat option \<Rightarrow> 'i list \<Rightarrow> ('i, 'q) search_scratch \<Rightarrow> 'r \<Rightarrow> 'a
    \<Rightarrow> ('e search_error + (search_stats \<times> ('i, 'q) search_scratch \<times> 'r \<times> 'a)) option" where
  "search_internal acc computer ops rec beam_width start_ids s r a =
     (let bw = (case beam_width of None \<Rightarrow> 1 | Some b \<Rightarrow> b) in
      case (if visited s = {} then rfold (init_start acc computer ops) start_ids s else Inr s) of
        Inl e \<Rightarrow> Some (Inl e)
      | Inr s0 \<Rightarrow>
          map_option (\<lambda>res. rbind res (\<lambda>(s', r', a').
              Inr (\<lparr>stat_cmps = cmps s', stat_hops = hops s', range_search_second_round = False\<rparr>, s', r', a')))
            (search_loop acc computer ops rec bw s0 r a))"

text \<open>\<open>filter_search_candidates\<close>: the best candidates that are not start points, at most \<open>l\<close>, and how
  many were looked at.\<close>

fun filter_candidates :: "'i list \<Rightarrow> nat \<Rightarrow> 'i neighbor list \<Rightarrow> 'i neighbor list \<Rightarrow> nat \<Rightarrow> 'i neighbor list \<times> nat" where
  "filter_candidates start_points l [] candidates tot = (candidates, tot)"
| "filter_candidates start_points l (n # ns) candidates tot =
     (if nbr_id n \<notin> set start_points then
        (if l \<le> length (candidates @ [n]) then (candidates @ [n], tot + 1)
         else filter_candidates start_points l ns (candidates @ [n]) (tot + 1))
      else filter_candidates start_points l ns candidates (tot + 1))"

definition filter_search_candidates :: "'i list \<Rightarrow> nat \<Rightarrow> 'i npq \<Rightarrow> 'i neighbor list \<times> nat" where
  "filter_search_candidates start_points l q = filter_candidates start_points l (npq_iter q) [] 0"

section \<open>Expansion\<close>

text \<open>The distance of an identifier, and the neighbor the expansion reports for it.\<close>

definition dist_of :: "('i, 'v, 'e, 'a) search_accessor \<Rightarrow> ('v \<Rightarrow> f32) \<Rightarrow> 'i \<Rightarrow> f32" where
  "dist_of acc computer i = (case sa_get_element acc i of Inr v \<Rightarrow> computer v | Inl _ \<Rightarrow> NaN)"

definition found :: "('i, 'v, 'e, 'a) search_accessor \<Rightarrow> ('v \<Rightarrow> f32) \<Rightarrow> 'i \<Rightarrow> 'i neighbor" where
  "found acc computer i = neighbor_new i (dist_of acc computer i)"

lemma found_sel [simp]: "nbr_id (found acc computer i) = i" "nbr_distance (found acc computer i) = dist_of acc computer i"
  by (simp_all add: found_def)

lemma fresh_append: "fresh (xs @ ys) seen = fresh xs seen @ fresh ys (seen \<union> set xs)"
proof (induction xs arbitrary: seen)
  case (Cons x xs)
  then show ?case by (cases "x \<in> seen") (auto simp: insert_absorb)
qed simp

lemma on_neighbor_simp [simp]:
  "on_neighbor d i (vis, out) = (insert i vis, if i \<notin> vis then out @ [neighbor_new i d] else out)"
  by (simp add: on_neighbor_def not_in_eval_mut_def)

text \<open>A call of \<open>distances_unordered\<close> handles a prefix of its list, all of it when it succeeds.\<close>

lemma distances_unordered_spec:
  assumes "distances_unordered acc computer on_neighbor ids (vis, out) = (r, st)"
  shows "\<exists>pre. prefix pre ids \<and> st = (vis \<union> set pre, out @ map (found acc computer) (fresh pre vis))
    \<and> (\<forall>i\<in>set pre. \<exists>v. sa_get_element acc i = Inr v)
    \<and> ((\<forall>i\<in>set ids. \<exists>v. sa_get_element acc i = Inr v) \<longrightarrow> r = Inr () \<and> pre = ids)"
  using assms
proof (induction ids arbitrary: vis out)
  case Nil
  then show ?case by simp
next
  case (Cons i ids)
  show ?case
  proof (cases "sa_get_element acc i")
    case (Inl e)
    with Cons.prems show ?thesis by (intro exI [of _ "[]"]) auto
  next
    case (Inr v)
    let ?out = "if i \<notin> vis then out @ [found acc computer i] else out"
    have "distances_unordered acc computer on_neighbor ids (insert i vis, ?out) = (r, st)"
      using Cons.prems Inr by (cases "i \<in> vis") (simp_all add: found_def dist_of_def)
    from Cons.IH [OF this] obtain pre where pre: "prefix pre ids"
      "st = (insert i vis \<union> set pre, ?out @ map (found acc computer) (fresh pre (insert i vis)))"
      "\<forall>i\<in>set pre. \<exists>v. sa_get_element acc i = Inr v"
      "(\<forall>i\<in>set ids. \<exists>v. sa_get_element acc i = Inr v) \<longrightarrow> r = Inr () \<and> pre = ids" by blast
    have "fresh (i # pre) vis = (if i \<in> vis then fresh pre (insert i vis) else i # fresh pre (insert i vis))"
      by (simp add: insert_absorb)
    with pre Inr show ?thesis by (intro exI [of _ "i # pre"]) auto
  qed
qed

lemma expand_beam_spec:
  assumes "expand_beam acc computer ids (vis, out) = Inr (vis', out')"
  shows "\<exists>fs. out' = out @ map (found acc computer) fs \<and> distinct fs \<and> set fs \<inter> vis = {} \<and> vis' = vis \<union> set fs
    \<and> (\<forall>i\<in>set fs. \<exists>v. sa_get_element acc i = Inr v)
    \<and> (\<forall>j\<in>set fs. \<exists>i\<in>set ids. \<exists>ns. sa_get_neighbors acc i = Inr ns \<and> j \<in> set ns)
    \<and> ((\<forall>i\<in>set ids. \<forall>ns. sa_get_neighbors acc i = Inr ns \<longrightarrow> (\<forall>j\<in>set ns. \<exists>v. sa_get_element acc j = Inr v))
       \<longrightarrow> (\<forall>i\<in>set ids. \<exists>ns. sa_get_neighbors acc i = Inr ns \<and> set ns \<subseteq> vis'))"
  using assms
proof (induction ids arbitrary: vis out)
  case Nil
  then show ?case by simp
next
  case (Cons i ids)
  from Cons.prems obtain ns where ns: "sa_get_neighbors acc i = Inr ns" by (auto simp: rbind_eq_Inr_iff)
  let ?ns = "al_retain (not_in_eval vis) ns"
  obtain r st where d: "distances_unordered acc computer on_neighbor ?ns (vis, out) = (r, st)" by (metis surj_pair)
  from distances_unordered_spec [OF d] obtain pre where pre: "prefix pre ?ns"
    "st = (vis \<union> set pre, out @ map (found acc computer) (fresh pre vis))"
    "\<forall>i\<in>set pre. \<exists>v. sa_get_element acc i = Inr v"
    "(\<forall>i\<in>set ?ns. \<exists>v. sa_get_element acc i = Inr v) \<longrightarrow> r = Inr () \<and> pre = ?ns" by blast
  have "expand_beam acc computer ids st = Inr (vis', out')"
    using Cons.prems ns d by (auto simp: rbind_eq_Inr_iff)
  from Cons.IH [OF this [unfolded pre(2)]] obtain fs where fs:
    "out' = (out @ map (found acc computer) (fresh pre vis)) @ map (found acc computer) fs" "distinct fs"
    "set fs \<inter> (vis \<union> set pre) = {}" "vis' = vis \<union> set pre \<union> set fs" "\<forall>i\<in>set fs. \<exists>v. sa_get_element acc i = Inr v"
    "\<forall>j\<in>set fs. \<exists>i\<in>set ids. \<exists>ns. sa_get_neighbors acc i = Inr ns \<and> j \<in> set ns"
    "(\<forall>i\<in>set ids. \<forall>ns. sa_get_neighbors acc i = Inr ns \<longrightarrow> (\<forall>j\<in>set ns. \<exists>v. sa_get_element acc j = Inr v))
       \<longrightarrow> (\<forall>i\<in>set ids. \<exists>ns. sa_get_neighbors acc i = Inr ns \<and> set ns \<subseteq> vis')" by blast
  have sub: "set pre \<subseteq> set ns - vis" using set_mono_prefix [OF pre(1)] by (auto simp: al_retain_def not_in_eval_def)
  let ?gs = "fresh pre vis @ fs"
  have "distinct ?gs" "set ?gs \<inter> vis = {}" "vis' = vis \<union> set ?gs"
    using fs(2,3,4) sub by (auto simp: distinct_fresh set_fresh)
  moreover have "\<forall>i\<in>set ?gs. \<exists>v. sa_get_element acc i = Inr v" using fs(5) pre(3) by (auto simp: set_fresh)
  moreover have "\<forall>j\<in>set ?gs. \<exists>i\<in>set (i # ids). \<exists>ns. sa_get_neighbors acc i = Inr ns \<and> j \<in> set ns"
    using fs(6) sub ns by (auto simp: set_fresh)
  moreover have "set ns \<subseteq> vis'" if "\<forall>j\<in>set ns. \<exists>v. sa_get_element acc j = Inr v"
  proof -
    have "pre = ?ns" using pre(4) that by (auto simp: al_retain_def)
    then show ?thesis using fs(4) by (auto simp: al_retain_def not_in_eval_def)
  qed
  ultimately show ?case using fs(1,7) ns by (intro exI [of _ ?gs]) auto
qed

section \<open>One round of the search\<close>

definition vids :: "'i entry list \<Rightarrow> 'i set" where
  "vids es = {fst (snd e) | e. e \<in> set es \<and> snd (snd e)}"

definition eids :: "'i entry list \<Rightarrow> 'i list" where
  "eids es = map (\<lambda>e. fst (snd e)) es"

lemma eids_ekey: "eids es = map snd (map ekey es)"
  by (simp add: eids_def ekey_def)

context bounded_queue
begin

lemma pop_beam_spec:
  assumes "inv (best s)"
  shows "\<exists>q bs r'. pop_beam ops rec n s r = Inr (s\<lparr>best := q, beam_nodes := beam_nodes s @ bs\<rparr>, r') \<and> inv q
    \<and> mset (map ekey (ents q)) = mset (map ekey (ents (best s))) \<and> cov q = cov (best s)
    \<and> unvisited_count (ents q) + length bs = unvisited_count (ents (best s))
    \<and> vids (ents q) \<subseteq> vids (ents (best s)) \<union> set bs \<and> set bs \<subseteq> set (eids (ents (best s)))
    \<and> (0 < n \<and> nq_has_notvisited_node ops (best s) \<longrightarrow> bs \<noteq> [])"
  using assms
proof (induction n arbitrary: s r)
  case 0
  have "pop_beam ops rec 0 s r = Inr (s\<lparr>best := best s, beam_nodes := beam_nodes s @ []\<rparr>, r)" by simp
  with 0 show ?case by fastforce
next
  case (Suc n)
  show ?case
  proof (cases "nq_has_notvisited_node ops (best s)")
    case False
    with none_law [OF Suc.prems]
    have "pop_beam ops rec (Suc n) s r = Inr (s\<lparr>best := best s, beam_nodes := beam_nodes s @ []\<rparr>, r)" by simp
    with Suc.prems False show ?thesis by fastforce
  next
    case True
    from some_law [OF Suc.prems True] obtain e q where c: "nq_closest_notvisited ops (best s) = Inr (Some (entry_nbr e), q)"
      and q: "inv q" "e \<in># mset (ents (best s))" "mset (ents q) = add_mset (visited_entry e) (mset (ents (best s)) - {#e#})"
      by blast
    let ?i = "fst (snd e)"
    let ?s = "s\<lparr>best := q, beam_nodes := beam_nodes s @ [?i]\<rparr>"
    have step: "pop_beam ops rec (Suc n) s r = pop_beam ops rec n ?s (rec r (entry_nbr e) (hops s) (cmps s))"
      using c by (simp add: entry_nbr_def)
    have "inv (best ?s)" using q(1) by simp
    from Suc.IH [OF this, of "rec r (entry_nbr e) (hops s) (cmps s)"] obtain q2 bs r' where
      IH: "pop_beam ops rec n ?s (rec r (entry_nbr e) (hops s) (cmps s)) = Inr (?s\<lparr>best := q2, beam_nodes := beam_nodes ?s @ bs\<rparr>, r')"
      "inv q2" "mset (map ekey (ents q2)) = mset (map ekey (ents q))" "cov q2 = cov q"
      "unvisited_count (ents q2) + length bs = unvisited_count (ents q)"
      "vids (ents q2) \<subseteq> vids (ents q) \<union> set bs" "set bs \<subseteq> set (eids (ents q))"
      by auto
    have keys: "mset (map ekey (ents q)) = mset (map ekey (ents (best s)))" using visit_ekey [OF Suc.prems c] .
    have ids: "set (eids (ents q)) = set (eids (ents (best s)))"
      using mset_eq_setD [OF keys] by (metis eids_ekey list.set_map)
    have "set (ents q) \<subseteq> insert (visited_entry e) (set (ents (best s)))"
      using arg_cong [OF q(3), of set_mset] in_diffD by fastforce
    then have v: "vids (ents q) \<subseteq> insert ?i (vids (ents (best s)))"
      by (auto simp: vids_def visited_entry_def)
    have "?i \<in> set (eids (ents (best s)))" using q(2) by (simp add: eids_def)
    moreover have "cov q2 = cov (best s)" using IH(4) visit_cov [OF Suc.prems c] by simp
    moreover have "unvisited_count (ents q2) + length (?i # bs) = unvisited_count (ents (best s))"
      using IH(5) visit_count [OF Suc.prems c] by simp
    moreover have "pop_beam ops rec (Suc n) s r = Inr (s\<lparr>best := q2, beam_nodes := beam_nodes s @ (?i # bs)\<rparr>, r')"
      unfolding step IH(1) by simp
    ultimately show ?thesis using IH(2,3,6,7) keys ids v
      by (intro exI [of _ q2] exI [of _ "?i # bs"] exI [of _ r']) auto
  qed
qed

lemma insert_found:
  assumes "inv q" "distinct fs" "set fs \<inter> set (eids (ents q)) = {}" "distinct (eids (ents q))"
    "\<forall>e\<in>set (ents q). fst e = dist_of acc computer (fst (snd e))"
  shows "\<exists>q'. rfold (\<lambda>n q. nq_insert ops q n) (map (found acc computer) fs) q = Inr q' \<and> inv q'
    \<and> set (eids (ents q')) \<subseteq> set (eids (ents q)) \<union> set fs \<and> distinct (eids (ents q'))
    \<and> (\<forall>e\<in>set (ents q'). fst e = dist_of acc computer (fst (snd e)))
    \<and> vids (ents q') \<subseteq> vids (ents q) \<and> unvisited_count (ents q') \<le> unvisited_count (ents q) + length fs
    \<and> (\<forall>d i. cov q d i \<longrightarrow> cov q' d i)
    \<and> (\<forall>i\<in>set fs. dist_of acc computer i \<noteq> NaN \<longrightarrow> cov q' (dist_of acc computer i) i)"
  using assms
proof (induction fs arbitrary: q)
  case Nil
  then show ?case by simp
next
  case (Cons i fs)
  let ?n = "found acc computer i"
  let ?e = "(dist_of acc computer i, i, False)"
  from insert_law [OF Cons.prems(1), of ?n] obtain q1 where q1: "nq_insert ops q ?n = Inr q1" "inv q1"
    "mset (ents q1) \<subseteq># add_mset ?e (mset (ents q))" by auto
  have sub: "set (ents q1) \<subseteq> insert ?e (set (ents q))" using insert_set [OF Cons.prems(1) q1(1)] by simp
  have "mset (eids (ents q1)) \<subseteq># mset (i # eids (ents q))"
    using image_mset_subseteq_mono [OF q1(3), of "\<lambda>e. fst (snd e)"] by (simp add: eids_def)
  moreover have "distinct (i # eids (ents q))" using Cons.prems by auto
  ultimately have d1: "distinct (eids (ents q1))"
    by (rule distinct_submset)
  have i1: "set (eids (ents q1)) \<subseteq> insert i (set (eids (ents q)))" using sub by (auto simp: eids_def)
  have "distinct fs" "set fs \<inter> set (eids (ents q1)) = {}" using Cons.prems i1 by auto
  moreover have "\<forall>e\<in>set (ents q1). fst e = dist_of acc computer (fst (snd e))" using Cons.prems(5) sub by auto
  ultimately obtain q' where q': "rfold (\<lambda>n q. nq_insert ops q n) (map (found acc computer) fs) q1 = Inr q'" "inv q'"
    "set (eids (ents q')) \<subseteq> set (eids (ents q1)) \<union> set fs" "distinct (eids (ents q'))"
    "\<forall>e\<in>set (ents q'). fst e = dist_of acc computer (fst (snd e))"
    "vids (ents q') \<subseteq> vids (ents q1)" "unvisited_count (ents q') \<le> unvisited_count (ents q1) + length fs"
    "\<forall>d i. cov q1 d i \<longrightarrow> cov q' d i"
    "\<forall>i\<in>set fs. dist_of acc computer i \<noteq> NaN \<longrightarrow> cov q' (dist_of acc computer i) i"
    using Cons.IH [OF q1(2) _ _ d1] by blast
  have "vids (ents q1) \<subseteq> vids (ents q)" using sub by (auto simp: vids_def)
  moreover have "unvisited_count (ents q1) \<le> Suc (unvisited_count (ents q))" using insert_count [OF Cons.prems(1) q1(1)] .
  moreover have "\<forall>d i. cov q d i \<longrightarrow> cov q' d i"
    using insert_covered [OF Cons.prems(1) q1(1)] q'(8) by blast
  moreover have "dist_of acc computer i \<noteq> NaN \<longrightarrow> cov q' (dist_of acc computer i) i"
    using insert_covered_new [OF Cons.prems(1) q1(1)] q'(8) by simp
  ultimately show ?case using q1(1) q' i1 by (intro exI [of _ q']) auto
qed

end

section \<open>The invariant of the search\<close>

text \<open>\<open>V\<close> bounds the identifiers, \<open>X\<close> is the set of expanded ones.\<close>

definition graph_closed :: "('i, 'v, 'e, 'a) search_accessor \<Rightarrow> 'i set \<Rightarrow> bool" where
  "graph_closed acc V \<longleftrightarrow> finite V \<and> (\<forall>i\<in>V. \<forall>ns. sa_get_neighbors acc i = Inr ns \<longrightarrow> set ns \<subseteq> V)"

definition graph_total :: "('i, 'v, 'e, 'a) search_accessor \<Rightarrow> 'i set \<Rightarrow> bool" where
  "graph_total acc V \<longleftrightarrow> (\<forall>i\<in>V. (\<exists>v. sa_get_element acc i = Inr v) \<and> (\<exists>ns. sa_get_neighbors acc i = Inr ns))"

definition search_inv ::
  "('q \<Rightarrow> bool) \<Rightarrow> ('q \<Rightarrow> 'i entry list) \<Rightarrow> ('q \<Rightarrow> f32 \<Rightarrow> 'i \<Rightarrow> bool) \<Rightarrow> ('i, 'v, 'e, 'a) search_accessor \<Rightarrow> ('v \<Rightarrow> f32)
    \<Rightarrow> 'i set \<Rightarrow> 'i set \<Rightarrow> ('i, 'q) search_scratch \<Rightarrow> bool" where
  "search_inv qinv ents cov acc computer V X s \<longleftrightarrow>
     qinv (best s) \<and> set (eids (ents (best s))) \<subseteq> visited s \<and> visited s \<subseteq> V \<and> distinct (eids (ents (best s)))
     \<and> (\<forall>e\<in>set (ents (best s)). fst e = dist_of acc computer (fst (snd e)))
     \<and> (\<forall>i\<in>visited s. dist_of acc computer i \<noteq> NaN \<longrightarrow>
          cov (best s) (dist_of acc computer i) i)
     \<and> vids (ents (best s)) \<subseteq> X
     \<and> (graph_total acc V \<longrightarrow> (\<forall>i\<in>X. \<exists>ns. sa_get_neighbors acc i = Inr ns \<and> set ns \<subseteq> visited s))
     \<and> cmps s = of_nat (card (visited s))"

definition search_measure :: "('q \<Rightarrow> 'i entry list) \<Rightarrow> 'i set \<Rightarrow> ('i, 'q) search_scratch \<Rightarrow> nat" where
  "search_measure ents V s = card (V - visited s) + unvisited_count (ents (best s))"

text \<open>The part of the invariant that does not depend on how the search was started, and what one round
  of the search does: the entries \<open>bs\<close> are expanded, the identifiers \<open>fs\<close> are new.\<close>

definition search_base ::
  "('q \<Rightarrow> bool) \<Rightarrow> ('q \<Rightarrow> 'i entry list) \<Rightarrow> ('i, 'v, 'e, 'a) search_accessor \<Rightarrow> ('v \<Rightarrow> f32) \<Rightarrow> 'i set
    \<Rightarrow> ('i, 'q) search_scratch \<Rightarrow> bool" where
  "search_base qinv ents acc computer V s \<longleftrightarrow>
     qinv (best s) \<and> set (eids (ents (best s))) \<subseteq> visited s \<and> visited s \<subseteq> V \<and> distinct (eids (ents (best s)))
     \<and> (\<forall>e\<in>set (ents (best s)). fst e = dist_of acc computer (fst (snd e)))"

lemma search_inv_base: "search_inv qinv ents cov acc computer V X s \<Longrightarrow> search_base qinv ents acc computer V s"
  by (simp add: search_inv_def search_base_def)

definition search_round ::
  "('q \<Rightarrow> bool) \<Rightarrow> ('q \<Rightarrow> 'i entry list) \<Rightarrow> ('q \<Rightarrow> f32 \<Rightarrow> 'i \<Rightarrow> bool) \<Rightarrow> ('i, 'v, 'e, 'a) search_accessor \<Rightarrow> ('v \<Rightarrow> f32)
    \<Rightarrow> 'i set \<Rightarrow> 'i list \<Rightarrow> 'i list \<Rightarrow> ('i, 'q) search_scratch \<Rightarrow> ('i, 'q) search_scratch \<Rightarrow> bool" where
  "search_round qinv ents cov acc computer V bs fs s s' \<longleftrightarrow>
     search_base qinv ents acc computer V s'
     \<and> distinct fs \<and> set fs \<inter> visited s = {} \<and> set fs \<subseteq> V \<and> visited s' = visited s \<union> set fs
     \<and> set bs \<subseteq> set (eids (ents (best s)))
     \<and> (\<forall>j\<in>set fs. \<exists>i\<in>set bs. \<exists>ns. sa_get_neighbors acc i = Inr ns \<and> j \<in> set ns)
     \<and> set (eids (ents (best s'))) \<subseteq> set (eids (ents (best s))) \<union> set fs
     \<and> vids (ents (best s')) \<subseteq> vids (ents (best s)) \<union> set bs
     \<and> unvisited_count (ents (best s')) + length bs \<le> unvisited_count (ents (best s)) + length fs
     \<and> (\<forall>d i. cov (best s) d i \<longrightarrow> cov (best s') d i)
     \<and> (\<forall>i\<in>set fs. dist_of acc computer i \<noteq> NaN \<longrightarrow>
          cov (best s') (dist_of acc computer i) i)
     \<and> (graph_total acc V \<longrightarrow> (\<forall>i\<in>set bs. \<exists>ns. sa_get_neighbors acc i = Inr ns \<and> set ns \<subseteq> visited s'))
     \<and> cmps s' = cmps s + of_nat (length fs)"

lemma expand_beam_total:
  assumes "graph_closed acc V" "graph_total acc V" "set ids \<subseteq> V"
  shows "\<exists>st'. expand_beam acc computer ids st = Inr st'"
  using assms(3)
proof (induction ids arbitrary: st)
  case Nil
  then show ?case by simp
next
  case (Cons i ids)
  then obtain ns where ns: "sa_get_neighbors acc i = Inr ns" "set ns \<subseteq> V"
    using assms(1,2) unfolding graph_closed_def graph_total_def by (metis list.set_intros(1) subsetD)
  obtain vis out where st: "st = (vis, out)" by fastforce
  obtain r st' where d: "distances_unordered acc computer on_neighbor (al_retain (not_in_eval vis) ns) (vis, out) = (r, st')"
    by (metis surj_pair)
  have "\<forall>j\<in>set (al_retain (not_in_eval vis) ns). \<exists>v. sa_get_element acc j = Inr v"
    using assms(2) ns(2) unfolding graph_total_def al_retain_def by auto
  then have "r = Inr ()" using distances_unordered_spec [OF d] by blast
  with Cons.IH [of st'] Cons.prems ns(1) d st show ?case by simp
qed

context bounded_queue
begin

text \<open>One round: it expands some entries \<open>bs\<close> of the queue and visits the identifiers \<open>fs\<close>.\<close>

lemma search_step_effect:
  fixes acc :: "('a, 'v, 'e, 'x) search_accessor"
  assumes base: "search_base inv ents acc computer V s" and closed: "graph_closed acc V"
  shows "(\<exists>e. search_step acc computer ops rec bw s r = Inl (SError e) \<and> \<not> graph_total acc V)
    \<or> (\<exists>s' r' bs fs. search_step acc computer ops rec bw s r = Inr (s', r')
        \<and> search_round inv ents cov acc computer V bs fs s s'
        \<and> (0 < bw \<and> nq_has_notvisited_node ops (best s) \<longrightarrow> bs \<noteq> []))"
proof -
  note I = base [unfolded search_base_def]
  let ?s0 = "s\<lparr>beam_nodes := []\<rparr>"
  have "inv (best ?s0)" using I by simp
  from pop_beam_spec [OF this, of rec bw r] obtain q bs r1 where
    pop: "pop_beam ops rec bw ?s0 r = Inr (?s0\<lparr>best := q, beam_nodes := beam_nodes ?s0 @ bs\<rparr>, r1)"
    and q: "inv q" "mset (map ekey (ents q)) = mset (map ekey (ents (best s)))" "cov q = cov (best s)"
      "unvisited_count (ents q) + length bs = unvisited_count (ents (best s))"
      "vids (ents q) \<subseteq> vids (ents (best s)) \<union> set bs" "set bs \<subseteq> set (eids (ents (best s)))"
      "0 < bw \<and> nq_has_notvisited_node ops (best s) \<longrightarrow> bs \<noteq> []"
    by auto
  have ek: "ekey ` set (ents q) = ekey ` set (ents (best s))" using mset_eq_setD [OF q(2)] by simp
  have ids: "mset (eids (ents q)) = mset (eids (ents (best s)))"
    unfolding eids_ekey using q(2) by (metis mset_map)
  have bsV: "set bs \<subseteq> V" using q(6) I by blast
  show ?thesis
  proof (cases "expand_beam acc computer bs (visited s, [])")
    case (Inl e)
    then have "\<not> graph_total acc V" using expand_beam_total [OF closed _ bsV, of computer "(visited s, [])"] by auto
    with Inl show ?thesis by (simp add: search_step_def pop lift_fault_def lift_error_def)
  next
    case (Inr st)
    obtain vis out where st: "st = (vis, out)" by fastforce
    from expand_beam_spec [OF Inr [unfolded st], unfolded append_Nil] obtain fs where fs:
      "out = map (found acc computer) fs" "distinct fs" "set fs \<inter> visited s = {}" "vis = visited s \<union> set fs"
      "\<forall>j\<in>set fs. \<exists>i\<in>set bs. \<exists>ns. sa_get_neighbors acc i = Inr ns \<and> j \<in> set ns"
      "(\<forall>i\<in>set bs. \<forall>ns. sa_get_neighbors acc i = Inr ns \<longrightarrow> (\<forall>j\<in>set ns. \<exists>v. sa_get_element acc j = Inr v))
       \<longrightarrow> (\<forall>i\<in>set bs. \<exists>ns. sa_get_neighbors acc i = Inr ns \<and> set ns \<subseteq> vis)" by blast
    have fsV: "set fs \<subseteq> V" using fs(5) bsV closed unfolding graph_closed_def by blast
    have eq: "\<forall>e\<in>set (ents q). fst e = dist_of acc computer (fst (snd e))"
    proof
      fix e assume "e \<in> set (ents q)"
      then obtain e' where "e' \<in> set (ents (best s))" "ekey e' = ekey e" using ek by (metis image_iff)
      then show "fst e = dist_of acc computer (fst (snd e))" using I by (auto simp: ekey_def)
    qed
    have "set fs \<inter> set (eids (ents q)) = {}" "distinct (eids (ents q))"
      using mset_eq_setD [OF ids] mset_eq_imp_distinct_iff [OF ids] fs(3) I by auto
    from insert_found [OF q(1) fs(2) this eq] obtain q' where q':
      "rfold (\<lambda>n q. nq_insert ops q n) out q = Inr q'" "inv q'"
      "set (eids (ents q')) \<subseteq> set (eids (ents q)) \<union> set fs" "distinct (eids (ents q'))"
      "\<forall>e\<in>set (ents q'). fst e = dist_of acc computer (fst (snd e))" "vids (ents q') \<subseteq> vids (ents q)"
      "unvisited_count (ents q') \<le> unvisited_count (ents q) + length fs"
      "\<forall>d i. cov q d i \<longrightarrow> cov q' d i"
      "\<forall>i\<in>set fs. dist_of acc computer i \<noteq> NaN \<longrightarrow> cov q' (dist_of acc computer i) i"
      unfolding fs(1) by blast
    define s' where "s' = s\<lparr>visited := vis, best := q', beam_nodes := bs, cmps := cmps s + of_nat (length out),
        hops := hops s + of_nat (length bs)\<rparr>"
    have step: "search_step acc computer ops rec bw s r = Inr (s', r1)"
      using Inr st q'(1) by (simp add: search_step_def pop lift_fault_def lift_error_def s'_def)
    have exp: "\<forall>i\<in>set bs. \<exists>ns. sa_get_neighbors acc i = Inr ns \<and> set ns \<subseteq> vis" if tot: "graph_total acc V"
      using fs(6) tot closed bsV unfolding graph_total_def graph_closed_def by (meson subsetD)
    have "search_base inv ents acc computer V s'"
      unfolding search_base_def s'_def using q'(2-5) I fs(4) fsV mset_eq_setD [OF ids] by auto
    moreover have "\<forall>d i. cov (best s) d i \<longrightarrow> cov q' d i"
      using q'(8) q(3) by simp
    ultimately have "search_round inv ents cov acc computer V bs fs s s'"
      unfolding search_round_def using q' q(4-6) fs(2-5) fsV exp mset_eq_setD [OF ids]
      by (auto simp: s'_def fs(1))
    then show ?thesis using step q(7) by blast
  qed
qed

lemma search_round_inv:
  assumes round: "search_round inv ents cov acc computer V bs fs s s'"
    and inv: "search_inv inv ents cov acc computer V X s" and fin: "finite V"
  shows "search_inv inv ents cov acc computer V (X \<union> set bs) s'"
proof -
  note I = inv [unfolded search_inv_def]
  note R = round [unfolded search_round_def]
  have finv: "finite (visited s)" using I fin finite_subset by blast
  have card: "card (visited s') = card (visited s) + length fs"
    using R card_Un_disjoint [OF finv, of "set fs"] by (simp add: distinct_card Int_commute)
  have cov: "\<forall>i\<in>visited s'. dist_of acc computer i \<noteq> NaN \<longrightarrow> cov (best s') (dist_of acc computer i) i"
    using R I by auto
  have exp: "\<forall>i\<in>X \<union> set bs. \<exists>ns. sa_get_neighbors acc i = Inr ns \<and> set ns \<subseteq> visited s'" if tot: "graph_total acc V"
  proof
    fix i assume "i \<in> X \<union> set bs"
    then show "\<exists>ns. sa_get_neighbors acc i = Inr ns \<and> set ns \<subseteq> visited s'"
    proof
      assume "i \<in> X"
      then obtain ns where "sa_get_neighbors acc i = Inr ns" "set ns \<subseteq> visited s" using I tot by blast
      then show ?thesis using R by auto
    qed (use R tot in blast)
  qed
  show ?thesis unfolding search_inv_def using R I cov exp card unfolding search_base_def by auto
qed

lemma search_round_measure:
  assumes round: "search_round inv ents cov acc computer V bs fs s s'" and fin: "finite V" and bs: "bs \<noteq> []"
  shows "search_measure ents V s' < search_measure ents V s"
proof -
  note R = round [unfolded search_round_def]
  have "V - visited s = (V - visited s') \<union> set fs" "(V - visited s') \<inter> set fs = {}" using R by auto
  then have "card (V - visited s) = card (V - visited s') + length fs"
    using card_Un_disjoint [of "V - visited s'" "set fs"] fin R by (simp add: distinct_card)
  moreover have "unvisited_count (ents (best s')) + length bs \<le> unvisited_count (ents (best s)) + length fs" using R by simp
  ultimately show ?thesis using bs by (cases bs) (auto simp: search_measure_def)
qed

lemma search_step_spec:
  fixes acc :: "('a, 'v, 'e, 'x) search_accessor"
  assumes inv: "search_inv inv ents cov acc computer V X s" and closed: "graph_closed acc V"
    and step: "search_step acc computer ops rec bw s r = Inr (s', r')"
  shows "\<exists>X'. search_inv inv ents cov acc computer V X' s'"
proof -
  have "finite V" using closed by (simp add: graph_closed_def)
  then show ?thesis using search_step_effect [OF search_inv_base [OF inv] closed, of rec bw r] step search_round_inv [OF _ inv]
    by fastforce
qed

end

section \<open>The whole search\<close>

context bounded_queue
begin

lemma search_loop_base:
  fixes acc :: "('a, 'v, 'e, 'x) search_accessor"
  assumes "search_base inv ents acc computer V s" and closed: "graph_closed acc V" and bw: "0 < bw"
    and J: "J s r" and step: "\<forall>s r s' r'. search_base inv ents acc computer V s \<longrightarrow> J s r \<longrightarrow>
      search_step acc computer ops rec bw s r = Inr (s', r') \<longrightarrow> J s' r'"
  shows "\<exists>res. search_loop acc computer ops rec bw s r a = Some res \<and> (\<forall>f. res \<noteq> Inl (SPanic f))
    \<and> (graph_total acc V \<longrightarrow> (\<exists>out. res = Inr out))
    \<and> (\<forall>s' r' a'. res = Inr (s', r', a') \<longrightarrow> search_base inv ents acc computer V s' \<and> J s' r'
        \<and> ((\<forall>a. \<not> fst (sa_terminate_early acc a)) \<longrightarrow> \<not> nq_has_notvisited_node ops (best s')))"
  using assms(1) J
proof (induction "search_measure ents V s" arbitrary: s r a rule: less_induct)
  case less
  have fin: "finite V" using closed by (simp add: graph_closed_def)
  show ?case
  proof (cases "nq_has_notvisited_node ops (best s)")
    case False
    then show ?thesis using less.prems by (subst search_loop.simps) auto
  next
    case True
    obtain stop a1 where t: "sa_terminate_early acc a = (stop, a1)" by fastforce
    show ?thesis
    proof (cases stop)
      case st: True
      have "\<not> (\<forall>a. \<not> fst (sa_terminate_early acc a))" using t st by (metis fst_conv)
      then show ?thesis using less.prems True t st by (subst search_loop.simps) auto
    next
      case False
      from search_step_effect [OF less.prems(1) closed, of rec bw r] show ?thesis
      proof (elim disjE exE conjE)
        fix e assume "search_step acc computer ops rec bw s r = Inl (SError e)" "\<not> graph_total acc V"
        then show ?thesis using True t False by (subst search_loop.simps) auto
      next
        fix s1 r1 bs fs assume st: "search_step acc computer ops rec bw s r = Inr (s1, r1)"
          and round: "search_round inv ents cov acc computer V bs fs s s1"
          and ne: "0 < bw \<and> nq_has_notvisited_node ops (best s) \<longrightarrow> bs \<noteq> []"
        have dec: "search_measure ents V s1 < search_measure ents V s" using search_round_measure [OF round fin] ne bw True by simp
        have base: "search_base inv ents acc computer V s1" using round by (simp add: search_round_def)
        have "search_loop acc computer ops rec bw s r a = search_loop acc computer ops rec bw s1 r1 a1"
          using True t False st by (subst search_loop.simps) simp
        then show ?thesis using less.hyps [OF dec base, of r1 a1] step [rule_format, OF less.prems st] by simp
      qed
    qed
  qed
qed

lemma search_loop_spec:
  fixes acc :: "('a, 'v, 'e, 'x) search_accessor"
  assumes inv: "search_inv inv ents cov acc computer V X s" and closed: "graph_closed acc V" and bw: "0 < bw"
    and J: "J s r" and step: "\<forall>X s r s' r'. search_inv inv ents cov acc computer V X s \<longrightarrow> J s r \<longrightarrow>
      search_step acc computer ops rec bw s r = Inr (s', r') \<longrightarrow> J s' r'"
  shows "\<exists>res. search_loop acc computer ops rec bw s r a = Some res \<and> (\<forall>f. res \<noteq> Inl (SPanic f))
    \<and> (graph_total acc V \<longrightarrow> (\<exists>out. res = Inr out))
    \<and> (\<forall>s' r' a'. res = Inr (s', r', a') \<longrightarrow> (\<exists>X'. search_inv inv ents cov acc computer V X' s') \<and> J s' r'
        \<and> ((\<forall>a. \<not> fst (sa_terminate_early acc a)) \<longrightarrow> \<not> nq_has_notvisited_node ops (best s')))"
proof -
  let ?J = "\<lambda>s r. (\<exists>X. search_inv inv ents cov acc computer V X s) \<and> J s r"
  have j: "?J s r" using inv J by blast
  have "\<forall>s r s' r'. search_base inv ents acc computer V s \<longrightarrow> ?J s r \<longrightarrow>
      search_step acc computer ops rec bw s r = Inr (s', r') \<longrightarrow> ?J s' r'"
    using step search_step_spec [OF _ closed] by meson
  from search_loop_base [where J = ?J, OF search_inv_base [OF inv] closed bw j this, of a] obtain res where
    "search_loop acc computer ops rec bw s r a = Some res" "\<forall>f. res \<noteq> Inl (SPanic f)"
    "graph_total acc V \<longrightarrow> (\<exists>out. res = Inr out)"
    "\<forall>s' r' a'. res = Inr (s', r', a') \<longrightarrow> search_base inv ents acc computer V s' \<and> ?J s' r'
        \<and> ((\<forall>a. \<not> fst (sa_terminate_early acc a)) \<longrightarrow> \<not> nq_has_notvisited_node ops (best s'))"
    by (elim exE conjE)
  then show ?thesis by (intro exI [of _ res]) simp
qed

lemma init_start_spec:
  fixes acc :: "('a, 'v, 'e, 'x) search_accessor"
  assumes inv: "search_inv inv ents cov acc computer V X s" and fin: "finite V" and i: "i \<in> V" "i \<notin> visited s"
  shows "(\<exists>e. init_start acc computer ops i s = Inl (SError e) \<and> \<not> graph_total acc V)
    \<or> (\<exists>s'. init_start acc computer ops i s = Inr s' \<and> search_inv inv ents cov acc computer V X s'
        \<and> visited s' = insert i (visited s))"
proof (cases "escalate (sa_get_element acc i)")
  case (Inl e)
  then have "sa_get_element acc i \<noteq> Inr v" for v by (metis escalate_simps(1) sum.distinct(1))
  then have "\<not> graph_total acc V" using i(1) unfolding graph_total_def by blast
  with Inl show ?thesis by (simp add: init_start_def lift_error_def)
next
  case (Inr v)
  note I = inv [unfolded search_inv_def]
  have g: "sa_get_element acc i = Inr v"
    using Inr by (auto simp: escalate_def split: sum.splits ranked_error.splits)
  have f: "neighbor_new i (computer v) = found acc computer i" by (simp add: found_def dist_of_def g)
  have "distinct [i]" "set [i] \<inter> set (eids (ents (best s))) = {}" using I i(2) by auto
  from insert_found [OF _ this, of acc computer] I obtain q' where q':
    "nq_insert ops (best s) (found acc computer i) = Inr q'" "inv q'"
    "set (eids (ents q')) \<subseteq> set (eids (ents (best s))) \<union> {i}" "distinct (eids (ents q'))"
    "\<forall>e\<in>set (ents q'). fst e = dist_of acc computer (fst (snd e))" "vids (ents q') \<subseteq> vids (ents (best s))"
    "\<forall>d i. cov (best s) d i \<longrightarrow> cov q' d i"
    "dist_of acc computer i \<noteq> NaN \<longrightarrow> cov q' (dist_of acc computer i) i"
    by (auto simp: rbind_eq_Inr_iff)
  have "finite (visited s)" using I fin finite_subset by blast
  then have "card (insert i (visited s)) = card (visited s) + 1" using i(2) by simp
  moreover have "\<forall>j\<in>X. \<exists>ns. sa_get_neighbors acc j = Inr ns \<and> set ns \<subseteq> insert i (visited s)" if "graph_total acc V"
    using I that by (meson subset_insertI2)
  ultimately have "search_inv inv ents cov acc computer V X
      (s\<lparr>visited := insert i (visited s), best := q', cmps := cmps s + 1\<rparr>)"
    unfolding search_inv_def using I i q' by auto
  then show ?thesis using Inr q'(1) by (simp add: init_start_def lift_error_def lift_fault_def f)
qed

lemma init_all_spec:
  fixes acc :: "('a, 'v, 'e, 'x) search_accessor"
  assumes "search_inv inv ents cov acc computer V X s" "finite V" "set ids \<subseteq> V" "distinct ids" "set ids \<inter> visited s = {}"
  shows "(\<exists>e. rfold (init_start acc computer ops) ids s = Inl (SError e) \<and> \<not> graph_total acc V)
    \<or> (\<exists>s'. rfold (init_start acc computer ops) ids s = Inr s' \<and> search_inv inv ents cov acc computer V X s')"
  using assms
proof (induction ids arbitrary: s)
  case (Cons i ids)
  have "i \<in> V" "i \<notin> visited s" using Cons.prems by auto
  from init_start_spec [OF Cons.prems(1,2) this] show ?case
  proof (elim disjE exE conjE)
    fix s1 assume "init_start acc computer ops i s = Inr s1" "search_inv inv ents cov acc computer V X s1"
      "visited s1 = insert i (visited s)"
    then show ?thesis using Cons.IH [of s1] Cons.prems by auto
  qed auto
qed simp

lemma search_internal_spec:
  fixes acc :: "('a, 'v, 'e, 'x) search_accessor"
  assumes "inv (best s)" "ents (best s) = []" "visited s = {}" "cmps s = 0"
    and closed: "graph_closed acc V" and start: "set start_ids \<subseteq> V" "distinct start_ids" and bw: "beam_width \<noteq> Some 0"
    and J: "\<And>s. J s r" and step: "\<forall>X s r s' r'. search_inv inv ents cov acc computer V X s \<longrightarrow> J s r \<longrightarrow>
      search_step acc computer ops rec (case beam_width of None \<Rightarrow> 1 | Some b \<Rightarrow> b) s r = Inr (s', r') \<longrightarrow> J s' r'"
  shows "\<exists>res. search_internal acc computer ops rec beam_width start_ids s r a = Some res \<and> (\<forall>f. res \<noteq> Inl (SPanic f))
    \<and> (graph_total acc V \<longrightarrow> (\<exists>out. res = Inr out))
    \<and> (\<forall>st s' r' a'. res = Inr (st, s', r', a') \<longrightarrow> (\<exists>X'. search_inv inv ents cov acc computer V X' s') \<and> J s' r'
        \<and> st = \<lparr>stat_cmps = cmps s', stat_hops = hops s', range_search_second_round = False\<rparr>
        \<and> ((\<forall>a. \<not> fst (sa_terminate_early acc a)) \<longrightarrow> \<not> nq_has_notvisited_node ops (best s')))"
proof -
  let ?bw = "case beam_width of None \<Rightarrow> 1 | Some b \<Rightarrow> b"
  have bw0: "0 < ?bw" using bw by (auto split: option.splits)
  have "search_inv inv ents cov acc computer V {} s" using assms(1-4) by (simp add: search_inv_def eids_def vids_def)
  moreover have "finite V" "set start_ids \<inter> visited s = {}" using closed assms(3) by (simp_all add: graph_closed_def)
  ultimately consider (err) e where "rfold (init_start acc computer ops) start_ids s = Inl (SError e)" "\<not> graph_total acc V"
    | (ok) s0 where "rfold (init_start acc computer ops) start_ids s = Inr s0" "search_inv inv ents cov acc computer V {} s0"
    using init_all_spec [OF _ _ start] by blast
  then show ?thesis
  proof cases
    case err
    then show ?thesis using assms(3) by (simp add: search_internal_def Let_def)
  next
    case ok
    from search_loop_spec [where J = J and a = a, OF ok(2) closed bw0 J step] obtain res where
      "search_loop acc computer ops rec ?bw s0 r a = Some res" "\<forall>f. res \<noteq> Inl (SPanic f)"
      "graph_total acc V \<longrightarrow> (\<exists>out. res = Inr out)"
      "\<forall>s' r' a'. res = Inr (s', r', a') \<longrightarrow> (\<exists>X'. search_inv inv ents cov acc computer V X' s') \<and> J s' r'
        \<and> ((\<forall>a. \<not> fst (sa_terminate_early acc a)) \<longrightarrow> \<not> nq_has_notvisited_node ops (best s'))" by blast
    then show ?thesis using ok(1) assms(3) by (cases res) (auto simp: search_internal_def Let_def)
  qed
qed

end

section \<open>The record of visited candidates\<close>

lemma lift_eq_Inr: "lift_fault x = Inr y \<longleftrightarrow> x = Inr y" "lift_error x' = Inr y' \<longleftrightarrow> x' = Inr y'"
  by (auto simp: lift_fault_def lift_error_def split: sum.splits)

text \<open>The record has every candidate once, and none that is still to be visited.\<close>

definition rec_ok :: "'i entry list \<Rightarrow> 'i set \<Rightarrow> 'i neighbor list \<Rightarrow> bool" where
  "rec_ok es vis r \<longleftrightarrow> distinct (map nbr_id r) \<and> nbr_id ` set r \<subseteq> vis
     \<and> (\<forall>e\<in>set es. entry_unvisited e \<longrightarrow> fst (snd e) \<notin> nbr_id ` set r)"

context bounded_queue
begin

lemma pop_beam_rec:
  assumes "inv (best s)" "distinct (eids (ents (best s)))" "set (eids (ents (best s))) \<subseteq> vis" "rec_ok (ents (best s)) vis r"
    and "pop_beam ops visited_record n s r = Inr (s', r')"
  shows "rec_ok (ents (best s')) vis r'"
  using assms
proof (induction n arbitrary: s r)
  case (Suc n)
  show ?case
  proof (cases "nq_has_notvisited_node ops (best s)")
    case False
    then show ?thesis using Suc.prems none_law [OF Suc.prems(1)] by auto
  next
    case True
    from some_law [OF Suc.prems(1) True] obtain e q where c: "nq_closest_notvisited ops (best s) = Inr (Some (entry_nbr e), q)"
      and q: "inv q" "e \<in># mset (ents (best s))" "entry_unvisited e"
        "mset (ents q) = add_mset (visited_entry e) (mset (ents (best s)) - {#e#})" by blast
    let ?i = "fst (snd e)"
    let ?s = "s\<lparr>best := q, beam_nodes := beam_nodes s @ [nbr_id (entry_nbr e)]\<rparr>"
    have keys: "mset (map ekey (ents q)) = mset (map ekey (ents (best s)))" using visit_ekey [OF Suc.prems(1) c] .
    have ids: "mset (eids (ents q)) = mset (eids (ents (best s)))"
      unfolding eids_ekey using keys by (metis mset_map)
    obtain M where M: "mset (ents (best s)) = add_mset e M" using q(2) by (rule mset_add)
    obtain xs where xs: "M = mset xs" using ex_mset by metis
    have "mset (eids (ents (best s))) = mset (?i # eids xs)" unfolding eids_def by (simp add: M xs)
    then have "?i \<notin> set (eids xs)" using Suc.prems(2) mset_eq_imp_distinct_iff by fastforce
    then have other: "fst (snd e') \<noteq> ?i" if "e' \<in># M" for e'
      using that unfolding xs eids_def set_map by (metis imageI set_mset_mset)
    have sq: "set (ents q) = insert (visited_entry e) (set_mset M)"
      using arg_cong [OF q(4), of set_mset] by (simp add: M)
    have sM: "set_mset M \<subseteq> set (ents (best s))" using arg_cong [OF M, of set_mset] by auto
    have new: "?i \<notin> nbr_id ` set r" "?i \<in> vis"
      using Suc.prems(3,4) q(2,3) by (auto simp: rec_ok_def eids_def)
    have "rec_ok (ents q) vis (r @ [entry_nbr e])"
      using Suc.prems(4) new other sM unfolding rec_ok_def sq
      by (auto simp: entry_nbr_def visited_entry_def entry_unvisited_def)
    moreover have "distinct (eids (ents (best ?s)))" "set (eids (ents (best ?s))) \<subseteq> vis" "inv (best ?s)"
      using ids Suc.prems(2,3) q(1) mset_eq_setD [OF ids] mset_eq_imp_distinct_iff [OF ids] by auto
    moreover have "pop_beam ops visited_record n ?s (r @ [entry_nbr e]) = Inr (s', r')"
      using Suc.prems(5) c by (simp add: visited_record_def [of r])
    ultimately show ?thesis using Suc.IH [of ?s "r @ [entry_nbr e]"] by simp
  qed
qed simp

lemma insert_all_set:
  assumes "inv q" "rfold (\<lambda>n q. nq_insert ops q n) ns q = Inr q'"
  shows "inv q' \<and> set (ents q') \<subseteq> set (ents q) \<union> {e. fst (snd e) \<in> nbr_id ` set ns}"
proof (rule rfold_invariant [OF assms(2), where P = "\<lambda>q'. inv q' \<and> set (ents q') \<subseteq> set (ents q) \<union> {e. fst (snd e) \<in> nbr_id ` set ns}"])
  fix n q1 q2 assume n: "n \<in> set ns" and q1: "inv q1 \<and> set (ents q1) \<subseteq> set (ents q) \<union> {e. fst (snd e) \<in> nbr_id ` set ns}"
    and i: "nq_insert ops q1 n = Inr q2"
  have "inv q2" using insert_law [of q1 n] q1 i by auto
  moreover have "set (ents q2) \<subseteq> insert (nbr_distance n, nbr_id n, False) (set (ents q1))" using insert_set q1 i by blast
  ultimately show "inv q2 \<and> set (ents q2) \<subseteq> set (ents q) \<union> {e. fst (snd e) \<in> nbr_id ` set ns}" using q1 n by auto
qed (use assms(1) in simp)

lemma search_step_rec:
  assumes inv: "search_inv inv ents cov acc computer V X s" and r: "rec_ok (ents (best s)) (visited s) r"
    and step: "search_step acc computer ops visited_record bw s r = Inr (s', r')"
  shows "rec_ok (ents (best s')) (visited s') r'"
proof -
  note I = inv [unfolded search_inv_def]
  let ?s0 = "s\<lparr>beam_nodes := []\<rparr>"
  have q0: "inv (best ?s0)" using I by simp
  from pop_beam_spec [OF q0, of visited_record bw r] obtain q bs r1 where
    pop: "pop_beam ops visited_record bw ?s0 r = Inr (?s0\<lparr>best := q, beam_nodes := beam_nodes ?s0 @ bs\<rparr>, r1)" and q: "inv q"
    by auto
  have "rec_ok (ents (best (?s0\<lparr>best := q, beam_nodes := beam_nodes ?s0 @ bs\<rparr>))) (visited s) r1"
    using pop_beam_rec [OF q0 _ _ _ pop, of "visited s"] I r by simp
  then have r1: "rec_ok (ents q) (visited s) r1" by simp
  from step pop obtain vis out q' where
    ex: "expand_beam acc computer bs (visited s, []) = Inr (vis, out)"
    and ins: "rfold (\<lambda>n q. nq_insert ops q n) out q = Inr q'"
    and s': "best s' = q'" "visited s' = vis" "r' = r1"
    by (auto simp: search_step_def lift_eq_Inr rbind_eq_Inr_iff)
  from expand_beam_spec [OF ex, unfolded append_Nil] obtain fs where
    fs: "out = map (found acc computer) fs" "set fs \<inter> visited s = {}" "vis = visited s \<union> set fs" by blast
  have "set (ents q') \<subseteq> set (ents q) \<union> {e. fst (snd e) \<in> set fs}"
    using insert_all_set [OF q ins] unfolding fs(1) by (auto simp: image_image)
  then show ?thesis using r1 fs(2,3) unfolding rec_ok_def s' by blast
qed

end

section \<open>Filtering the candidates\<close>

text \<open>What is looked at is a prefix; the candidates are its items that are not start points, and
  the prefix is everything unless \<open>l\<close> candidates were found.\<close>

lemma filter_candidates_spec:
  assumes "length cs < l" "filter_candidates sp l ns cs t = (cs', t')"
  shows "\<exists>k\<le>length ns. t' = t + k \<and> cs' = cs @ filter (\<lambda>n. nbr_id n \<notin> set sp) (take k ns)
    \<and> length cs' \<le> l \<and> (k < length ns \<longrightarrow> length cs' = l)"
  using assms
proof (induction ns arbitrary: cs t)
  case Nil
  then show ?case by simp
next
  case (Cons n ns)
  show ?case
  proof (cases "nbr_id n \<notin> set sp")
    case False
    with Cons.prems Cons.IH [of cs "t + 1"] obtain k where "k \<le> length ns" "t' = t + 1 + k"
      "cs' = cs @ filter (\<lambda>n. nbr_id n \<notin> set sp) (take k ns)" "length cs' \<le> l" "k < length ns \<longrightarrow> length cs' = l" by auto
    with False show ?thesis by (intro exI [of _ "Suc k"]) auto
  next
    case True
    show ?thesis
    proof (cases "l \<le> length (cs @ [n])")
      case full: True
      with True Cons.prems show ?thesis by (intro exI [of _ 1]) auto
    next
      case more: False
      with True Cons.prems Cons.IH [of "cs @ [n]" "t + 1"] obtain k where "k \<le> length ns" "t' = t + 1 + k"
        "cs' = (cs @ [n]) @ filter (\<lambda>n. nbr_id n \<notin> set sp) (take k ns)" "length cs' \<le> l" "k < length ns \<longrightarrow> length cs' = l" by auto
      with True show ?thesis by (intro exI [of _ "Suc k"]) auto
    qed
  qed
qed

section \<open>Properties\<close>

text \<open>A small graph for the examples: a line of points, the vector of a point is its position.\<close>

definition line_accessor :: "(nat, int, unit, unit) search_accessor" where
  "line_accessor = \<lparr>sa_get_element = (\<lambda>i. Inr (int i)),
     sa_get_neighbors = (\<lambda>i. Inr (if i < 4 then [i + 1] else [])), sa_terminate_early = (\<lambda>a. (False, a))\<rparr>"

lemma line_accessor_ok:
  "graph_closed line_accessor {0..4}" "graph_total line_accessor {0..4}" "\<forall>a. \<not> fst (sa_terminate_early line_accessor a)"
  by (auto simp: graph_closed_def graph_total_def line_accessor_def)

lemma scratch_new_fixed:
  assumes "0 < l"
  shows "npq_fixed l (best (search_scratch_new (Fixed l)))" "npq_entries (best (search_scratch_new (Fixed l))) = []"
    "visited (search_scratch_new (Fixed l)) = {}" "cmps (search_scratch_new (Fixed l)) = 0"
  using assms npq_inv_new [of l]
  by (simp_all add: search_scratch_new_def npq_fixed_def npq_usable_def npq_new_def npq_entries_def)

text \<open>C15: on a finite graph a greedy search with a fresh scratch space of fixed length \<open>l > 0\<close> and a
  beam width that is not 0 ends; it does not panic, and it returns a result unless a provider
  fails.\<close>

theorem search_internal_terminates:
  assumes "0 < l" "graph_closed acc V" "set start_ids \<subseteq> V" "distinct start_ids" "beam_width \<noteq> Some 0"
  shows "\<exists>res. search_internal acc computer npq_ops rec beam_width start_ids (search_scratch_new (Fixed l)) r a = Some res
    \<and> (\<forall>f. res \<noteq> Inl (SPanic f)) \<and> (graph_total acc V \<longrightarrow> (\<exists>out. res = Inr out))"
  using npql.search_internal_spec [where J = "\<lambda>_ _. True" and r = r and a = a and computer = computer, OF scratch_new_fixed [OF assms(1)] assms(2-5)] by blast

theorem search_internal_terminates_witness:
  "\<exists>out. search_internal line_accessor (\<lambda>v. Fin \<bar>v - 3\<bar>) npq_ops noop_record None [0] (search_scratch_new (Fixed 2)) () ()
     = Some (Inr out)"
proof -
  have "0 < (2::nat)" "set [0] \<subseteq> {0..4::nat}" "distinct [0::nat]" "None \<noteq> Some (0::nat)" by simp_all
  from search_internal_terminates [OF this(1) line_accessor_ok(1) this(2-4), of "\<lambda>v. Fin \<bar>v - 3\<bar>" noop_record "()" "()"]
  show ?thesis using line_accessor_ok(2) by blast
qed

text \<open>C3: when no provider fails and nothing stops it early, the search ends in a local optimum.  The
  identifiers of its entries are distinct, the distances are those of the vectors and ascending, at
  most \<open>l\<close> entries are kept; every distance was computed once (\<open>cmps\<close> is the number of visited
  vertices, modulo \<open>2 ^ 32\<close>); and every out-neighbor of every entry is itself an entry, or is at
  least as far as all of the \<open>l\<close> entries, or has a distance that is not a number.\<close>

theorem search_internal_local_optimum:
  assumes "0 < l" "graph_closed acc V" "graph_total acc V" "set start_ids \<subseteq> V" "distinct start_ids"
    "beam_width \<noteq> Some 0" "\<forall>a. \<not> fst (sa_terminate_early acc a)"
  shows "\<exists>stats s r' a'. search_internal acc computer npq_ops rec beam_width start_ids (search_scratch_new (Fixed l)) r a
      = Some (Inr (stats, s, r', a'))
    \<and> distinct (map (\<lambda>e. fst (snd e)) (npq_entries (best s))) \<and> sorted (map fst (npq_entries (best s)))
    \<and> length (npq_entries (best s)) \<le> l
    \<and> (\<forall>e\<in>set (npq_entries (best s)). fst e = dist_of acc computer (fst (snd e)))
    \<and> stat_cmps stats = of_nat (card (visited s))
    \<and> (\<forall>e\<in>set (npq_entries (best s)). \<exists>ns. sa_get_neighbors acc (fst (snd e)) = Inr ns
        \<and> (\<forall>j\<in>set ns. dist_of acc computer j = NaN \<or> (\<exists>b. (dist_of acc computer j, j, b) \<in> set (npq_entries (best s)))
            \<or> (length (npq_entries (best s)) = l \<and> (\<forall>e'\<in>set (npq_entries (best s)). fst e' \<le> dist_of acc computer j))))"
proof -
  from npql.search_internal_spec [where J = "\<lambda>_ _. True" and r = r and a = a and computer = computer and rec = rec, OF scratch_new_fixed [OF assms(1)] assms(2,4,5,6)] assms(3,7)
  obtain stats s r' a' X where
    run: "search_internal acc computer npq_ops rec beam_width start_ids (search_scratch_new (Fixed l)) r a = Some (Inr (stats, s, r', a'))"
    and inv: "search_inv (npq_fixed l) npq_entries npq_cov acc computer V X s"
    and st: "stats = \<lparr>stat_cmps = cmps s, stat_hops = hops s, range_search_second_round = False\<rparr>"
    and stop: "\<not> nq_has_notvisited_node npq_ops (best s)"
    by (metis (no_types, lifting) prod.collapse)
  note I = inv [unfolded search_inv_def]
  let ?es = "npq_entries (best s)"
  from I have fixed: "npq_fixed l (best s)" and ninv: "npq_inv (best s)" and wf: "npq_wf (best s)"
    by (auto simp: npq_fixed_def npq_usable_def npq_inv_def)
  have len: "length ?es \<le> l" using length_entries [OF wf] npq_wfD(3) [OF wf] fixed by (simp add: npq_fixed_def)
  have "\<forall>e\<in>set ?es. \<not> entry_unvisited e"
    using stop len fixed has_notvisited_iff [OF ninv] by (simp add: npq_ops_def npq_fixed_def)
  then have "\<forall>e\<in>set ?es. fst (snd e) \<in> vids ?es" unfolding vids_def entry_unvisited_def by blast
  then have vis: "\<forall>e\<in>set ?es. fst (snd e) \<in> X" using I by blast
  have full: "npq_full (best s) \<Longrightarrow> length ?es = l"
    using length_entries [OF wf] fixed by (simp add: npq_full_def npq_fixed_def)
  have "\<exists>ns. sa_get_neighbors acc (fst (snd e)) = Inr ns
      \<and> (\<forall>j\<in>set ns. dist_of acc computer j = NaN \<or> (\<exists>b. (dist_of acc computer j, j, b) \<in> set ?es)
          \<or> (length ?es = l \<and> (\<forall>e'\<in>set ?es. fst e' \<le> dist_of acc computer j)))" if e: "e \<in> set ?es" for e
  proof -
    from vis e I assms(3) obtain ns where ns: "sa_get_neighbors acc (fst (snd e)) = Inr ns" "set ns \<subseteq> visited s" by blast
    have "\<forall>j\<in>set ns. dist_of acc computer j = NaN \<or> covered (npq_full (best s)) ?es (dist_of acc computer j) j"
      using I ns(2) unfolding npq_cov_def by blast
    with ns(1) full show ?thesis unfolding covered_def by blast
  qed
  then show ?thesis using run I len st sorted_map_fst_entries [OF wf]
    by (intro exI [of _ stats] exI [of _ s] exI [of _ r'] exI [of _ a']) (simp add: eids_def)
qed

theorem search_internal_local_optimum_witness:
  "\<exists>stats s r' a'. search_internal line_accessor (\<lambda>v. Fin \<bar>v - 3\<bar>) npq_ops noop_record None [0] (search_scratch_new (Fixed 2)) () ()
      = Some (Inr (stats, s, r', a')) \<and> length (npq_entries (best s)) \<le> 2"
proof -
  have "0 < (2::nat)" "set [0] \<subseteq> {0..4::nat}" "distinct [0::nat]" "None \<noteq> Some (0::nat)" by simp_all
  from search_internal_local_optimum [OF this(1) line_accessor_ok(1,2) this(2-4) line_accessor_ok(3), of "\<lambda>v. Fin \<bar>v - 3\<bar>" noop_record "()" "()"]
  show ?thesis by blast
qed

text \<open>\<open>filter_search_candidates\<close> with \<open>l > 0\<close> looks at a prefix of the best candidates and
  returns exactly those of them that are not start points, at most \<open>l\<close>; it stops early only when
  it has \<open>l\<close>.\<close>

theorem filter_search_candidates_correct:
  assumes "0 < l" "filter_search_candidates start_points l q = (candidates, considered)"
  shows "considered \<le> length (npq_iter q)
    \<and> candidates = filter (\<lambda>n. nbr_id n \<notin> set start_points) (take considered (npq_iter q))
    \<and> length candidates \<le> l \<and> (considered < length (npq_iter q) \<longrightarrow> length candidates = l)"
  using filter_candidates_spec [of "[]" l start_points "npq_iter q" 0 candidates considered] assms
  by (auto simp: filter_search_candidates_def)

text \<open>A pooled scratch space that is prepared for the next search is indistinguishable from a new
  one, whatever the previous searches left in it: no visited flag, candidate, counter or queue
  setting is carried over.\<close>

theorem scratch_modify_fresh: "scratch_modify p s = scratch_create p"
  by (cases "best s") (simp add: scratch_modify_def scratch_create_def search_scratch_new_def scratch_clear_def
      npq_clear_def npq_new_def reconfigure_def Let_def)

end
