(* ===== verification/Output_Buffer.thy ===== *)
theory Output_Buffer
  imports Neighbor
begin

text \<open>
  \<open>diskann/src/graph/search_output_buffer.rs\<close> and the implementations of its trait in
  \<open>diskann/src/neighbor/mod.rs\<close>: the containers a search writes its results to.  Three of them
  are fixed slices with a write position, one is a growing vector.  The trait is the locale
  \<open>search_output_buffer\<close>; its client lemmas say that pushing one by one and extending by a whole
  iterator leave the same content.
\<close>

datatype buffer_state = Available | Full

definition is_available :: "buffer_state \<Rightarrow> bool" where
  "is_available s \<longleftrightarrow> s = Available"

definition state_is_full :: "buffer_state \<Rightarrow> bool" where
  "state_is_full s \<longleftrightarrow> s = Full"

text \<open>Overwriting a slice from a position on, for as many items as both have:
  \<open>zip(slice.iter_mut().skip(p), itr)\<close>.\<close>

fun overwrite :: "'a list \<Rightarrow> 'a list \<Rightarrow> 'a list" where
  "overwrite (x # xs) (y # ys) = y # overwrite xs ys"
| "overwrite xs [] = xs"
| "overwrite [] ys = []"

definition overwrite_from :: "nat \<Rightarrow> 'a list \<Rightarrow> 'a list \<Rightarrow> 'a list" where
  "overwrite_from p xs ys = take p xs @ overwrite (drop p xs) ys"

section \<open>\<open>BackInserter\<close>\<close>

record 'i back_inserter =
  bi_buffer :: "'i neighbor list"
  bi_position :: nat

definition bi_new :: "'i neighbor list \<Rightarrow> 'i back_inserter" where
  "bi_new buffer = \<lparr>bi_buffer = buffer, bi_position = 0\<rparr>"

definition bi_capacity :: "'i back_inserter \<Rightarrow> nat" where
  "bi_capacity b = length (bi_buffer b)"

definition bi_size_hint :: "'i back_inserter \<Rightarrow> nat option" where
  "bi_size_hint b = Some (length (bi_buffer b) - bi_position b)"

definition bi_push :: "'i back_inserter \<Rightarrow> 'i \<Rightarrow> f32 \<Rightarrow> buffer_state \<times> 'i back_inserter" where
  "bi_push b i d =
     (if bi_position b = length (bi_buffer b) then (Full, b)
      else
        let b' = \<lparr>bi_buffer = (bi_buffer b)[bi_position b := neighbor_new i d],
                  bi_position = bi_position b + 1\<rparr>
        in (if bi_position b' = length (bi_buffer b') then Full else Available, b'))"

definition bi_current_len :: "'i back_inserter \<Rightarrow> nat" where
  "bi_current_len b = bi_position b"

definition bi_extend :: "'i back_inserter \<Rightarrow> ('i \<times> f32) list \<Rightarrow> nat \<times> 'i back_inserter" where
  "bi_extend b itr =
     (let i = min (length (bi_buffer b) - bi_position b) (length itr)
      in (i, \<lparr>bi_buffer = overwrite_from (bi_position b) (bi_buffer b) (map (\<lambda>(i, d). neighbor_new i d) itr),
              bi_position = bi_position b + i\<rparr>))"

section \<open>\<open>Vec<Neighbor<I>>\<close>\<close>

definition vec_size_hint :: "'i neighbor list \<Rightarrow> nat option" where
  "vec_size_hint v = None"

definition vec_push :: "'i neighbor list \<Rightarrow> 'i \<Rightarrow> f32 \<Rightarrow> buffer_state \<times> 'i neighbor list" where
  "vec_push v i d = (Available, v @ [neighbor_new i d])"

definition vec_current_len :: "'i neighbor list \<Rightarrow> nat" where
  "vec_current_len v = length v"

definition vec_extend :: "'i neighbor list \<Rightarrow> ('i \<times> f32) list \<Rightarrow> nat \<times> 'i neighbor list" where
  "vec_extend v itr =
     (let before = length v; v' = v @ map (\<lambda>(i, d). neighbor_new i d) itr in (length v' - before, v'))"

section \<open>\<open>IdDistance\<close>\<close>

record 'i id_distance =
  idd_ids :: "'i list"
  idd_distances :: "f32 list"
  idd_position :: nat

definition idd_new :: "'i list \<Rightarrow> f32 list \<Rightarrow> fault + 'i id_distance" where
  "idd_new is ds =
     (if length is = length ds then Inr \<lparr>idd_ids = is, idd_distances = ds, idd_position = 0\<rparr>
      else Inl AssertFault)"

definition idd_capacity :: "'i id_distance \<Rightarrow> nat" where
  "idd_capacity b = length (idd_ids b)"

definition idd_size_hint :: "'i id_distance \<Rightarrow> nat option" where
  "idd_size_hint b = Some (idd_capacity b - idd_position b)"

definition idd_push :: "'i id_distance \<Rightarrow> 'i \<Rightarrow> f32 \<Rightarrow> buffer_state \<times> 'i id_distance" where
  "idd_push b i d =
     (if idd_position b = idd_capacity b then (Full, b)
      else
        let b' = \<lparr>idd_ids = (idd_ids b)[idd_position b := i],
                  idd_distances = (idd_distances b)[idd_position b := d],
                  idd_position = idd_position b + 1\<rparr>
        in (if idd_position b' = idd_capacity b' then Full else Available, b'))"

definition idd_current_len :: "'i id_distance \<Rightarrow> nat" where
  "idd_current_len b = idd_position b"

definition idd_extend :: "'i id_distance \<Rightarrow> ('i \<times> f32) list \<Rightarrow> nat \<times> 'i id_distance" where
  "idd_extend b itr =
     (let p = idd_position b;
          i = min (min (length (idd_ids b) - p) (length (idd_distances b) - p)) (length itr)
      in (i, \<lparr>idd_ids = overwrite_from p (idd_ids b) (take i (map fst itr)),
              idd_distances = overwrite_from p (idd_distances b) (take i (map snd itr)),
              idd_position = idd_position b + i\<rparr>))"

section \<open>\<open>IdDistanceAssociatedData\<close>\<close>

record ('i, 'a) id_distance_assoc =
  ida_ids :: "'i list"
  ida_distances :: "f32 list"
  ida_associated_data :: "'a list"
  ida_position :: nat

definition ida_new :: "'i list \<Rightarrow> f32 list \<Rightarrow> 'a list \<Rightarrow> fault + ('i, 'a) id_distance_assoc" where
  "ida_new is ds as =
     (if length is \<noteq> length ds then Inl AssertFault
      else if length is \<noteq> length as then Inl AssertFault
      else Inr \<lparr>ida_ids = is, ida_distances = ds, ida_associated_data = as, ida_position = 0\<rparr>)"

definition ida_capacity :: "('i, 'a) id_distance_assoc \<Rightarrow> nat" where
  "ida_capacity b = length (ida_ids b)"

definition ida_size_hint :: "('i, 'a) id_distance_assoc \<Rightarrow> nat option" where
  "ida_size_hint b = Some (ida_capacity b - ida_position b)"

definition ida_push ::
  "('i, 'a) id_distance_assoc \<Rightarrow> 'i \<times> 'a \<Rightarrow> f32 \<Rightarrow> buffer_state \<times> ('i, 'a) id_distance_assoc" where
  "ida_push b item d =
     (if ida_position b = ida_capacity b then (Full, b)
      else
        let p = ida_position b;
            b' = \<lparr>ida_ids = (ida_ids b)[p := fst item], ida_distances = (ida_distances b)[p := d],
                  ida_associated_data = (ida_associated_data b)[p := snd item], ida_position = p + 1\<rparr>
        in (if ida_position b' = ida_capacity b' then Full else Available, b'))"

definition ida_current_len :: "('i, 'a) id_distance_assoc \<Rightarrow> nat" where
  "ida_current_len b = ida_position b"

definition ida_extend ::
  "('i, 'a) id_distance_assoc \<Rightarrow> (('i \<times> 'a) \<times> f32) list \<Rightarrow> nat \<times> ('i, 'a) id_distance_assoc" where
  "ida_extend b itr =
     (let p = ida_position b;
          i = min (min (min (length (ida_ids b) - p) (length (ida_distances b) - p))
                       (length (ida_associated_data b) - p)) (length itr)
      in (i, \<lparr>ida_ids = overwrite_from p (ida_ids b) (take i (map (\<lambda>x. fst (fst x)) itr)),
              ida_distances = overwrite_from p (ida_distances b) (take i (map snd itr)),
              ida_associated_data =
                overwrite_from p (ida_associated_data b) (take i (map (\<lambda>x. snd (fst x)) itr)),
              ida_position = ida_position b + i\<rparr>))"

section \<open>Overwriting\<close>

lemma length_overwrite [simp]: "length (overwrite xs ys) = length xs"
  by (induction xs ys rule: overwrite.induct) auto

lemma overwrite_eq: "overwrite xs ys = take (length xs) ys @ drop (length ys) xs"
  by (induction xs ys rule: overwrite.induct) auto

lemma length_overwrite_from [simp]: "length (overwrite_from p xs ys) = length xs"
  by (simp add: overwrite_from_def)

lemma take_overwrite_from:
  assumes "p \<le> length xs"
  shows "take (p + min (length xs - p) (length ys)) (overwrite_from p xs ys)
    = take p xs @ take (length xs - p) ys"
  using assms by (simp add: overwrite_from_def overwrite_eq min_def)

lemma take_Suc_update: "p < length xs \<Longrightarrow> take (Suc p) (xs[p := x]) = take p xs @ [x]"
  by (simp add: take_Suc_conv_app_nth)

section \<open>The trait\<close>

definition take_room :: "nat option \<Rightarrow> 'a list \<Rightarrow> 'a list" where
  "take_room r xs = (case r of None \<Rightarrow> xs | Some n \<Rightarrow> take n xs)"

text \<open>The contract: \<open>content\<close> is what was pushed, in order; a push appends while there is room
  and reports \<open>Full\<close> exactly when no room is left after it.\<close>

locale search_output_buffer =
  fixes size_hint :: "'b \<Rightarrow> nat option"
    and push :: "'b \<Rightarrow> 'i \<Rightarrow> f32 \<Rightarrow> buffer_state \<times> 'b"
    and current_len :: "'b \<Rightarrow> nat"
    and extend :: "'b \<Rightarrow> ('i \<times> f32) list \<Rightarrow> nat \<times> 'b"
    and inv :: "'b \<Rightarrow> bool"
    and content :: "'b \<Rightarrow> ('i \<times> f32) list"
  assumes len_law: "inv b \<Longrightarrow> current_len b = length (content b)"
    and push_full: "inv b \<Longrightarrow> size_hint b = Some 0 \<Longrightarrow> push b i d = (Full, b)"
    and push_room: "inv b \<Longrightarrow> size_hint b \<noteq> Some 0 \<Longrightarrow> push b i d = (s, b') \<Longrightarrow>
      inv b' \<and> content b' = content b @ [(i, d)] \<and> size_hint b' = map_option (\<lambda>n. n - 1) (size_hint b)
      \<and> (s = Full \<longleftrightarrow> size_hint b' = Some 0)"
    and extend_law: "inv b \<Longrightarrow> extend b xs = (n, b') \<Longrightarrow>
      inv b' \<and> content b' = content b @ take_room (size_hint b) xs \<and> n = length (take_room (size_hint b) xs)"
begin

definition push_all :: "('i \<times> f32) list \<Rightarrow> 'b \<Rightarrow> 'b" where
  "push_all xs b = fold (\<lambda>(i, d) b. snd (push b i d)) xs b"

lemma push_all_content: "inv b \<Longrightarrow> inv (push_all xs b)
    \<and> content (push_all xs b) = content b @ take_room (size_hint b) xs"
proof (induction xs arbitrary: b)
  case Nil
  then show ?case by (simp add: push_all_def take_room_def split: option.splits)
next
  case (Cons x xs)
  obtain i d where x: "x = (i, d)" by fastforce
  obtain s b' where p: "push b i d = (s, b')" by fastforce
  show ?case
  proof (cases "size_hint b = Some 0")
    case True
    with Cons.prems p have "b' = b" using push_full by simp
    with Cons p x True show ?thesis by (simp add: push_all_def take_room_def)
  next
    case False
    note law = push_room [OF Cons.prems False p]
    with Cons.IH [of b'] have IH: "inv (push_all xs b')"
      "content (push_all xs b') = content b @ (i, d) # take_room (map_option (\<lambda>n. n - 1) (size_hint b)) xs"
      by simp_all
    have "(i, d) # take_room (map_option (\<lambda>n. n - 1) (size_hint b)) xs = take_room (size_hint b) ((i, d) # xs)"
      using False by (cases "size_hint b") (auto simp: take_room_def take_Cons')
    with IH p x show ?thesis by (simp add: push_all_def)
  qed
qed

lemma extend_push_all:
  assumes "inv b"
  shows "content (snd (extend b xs)) = content (push_all xs b)"
    and "fst (extend b xs) = current_len (push_all xs b) - current_len b"
proof -
  obtain n b' where e: "extend b xs = (n, b')" by fastforce
  from extend_law [OF assms e] push_all_content [OF assms, of xs]
  show "content (snd (extend b xs)) = content (push_all xs b)" by (simp add: e)
  from extend_law [OF assms e] push_all_content [OF assms, of xs] len_law [OF assms]
    len_law [of "push_all xs b"]
  show "fst (extend b xs) = current_len (push_all xs b) - current_len b" by (simp add: e)
qed

lemma full_absorbs:
  assumes "inv b" "push b i d = (Full, b')"
  shows "push b' j e = (Full, b')"
proof (cases "size_hint b = Some 0")
  case True
  with assms push_full show ?thesis by simp
next
  case False
  from push_room [OF assms(1) False assms(2)] have "inv b'" "size_hint b' = Some 0" by blast+
  then show ?thesis by (rule push_full)
qed

end

section \<open>The four implementations\<close>

definition bi_content :: "'i back_inserter \<Rightarrow> ('i \<times> f32) list" where
  "bi_content b = map as_tuple (take (bi_position b) (bi_buffer b))"

definition bi_inv :: "'i back_inserter \<Rightarrow> bool" where
  "bi_inv b \<longleftrightarrow> bi_position b \<le> length (bi_buffer b)"

lemma as_tuple_map: "map (as_tuple \<circ> (\<lambda>(i, d). neighbor_new i d)) xs = xs"
  by (induction xs) (auto simp: as_tuple_def)

interpretation bi: search_output_buffer bi_size_hint bi_push bi_current_len bi_extend bi_inv bi_content
proof (standard, goal_cases)
  case (1 b)
  then show ?case by (simp add: bi_inv_def bi_current_len_def bi_content_def)
next
  case (2 b i d)
  then show ?case by (simp add: bi_inv_def bi_size_hint_def bi_push_def)
next
  case (3 b i d s b')
  then have p: "bi_position b < length (bi_buffer b)" by (simp add: bi_inv_def bi_size_hint_def)
  from 3 p have b': "b' = \<lparr>bi_buffer = (bi_buffer b)[bi_position b := neighbor_new i d], bi_position = bi_position b + 1\<rparr>"
    and s: "s = (if bi_position b + 1 = length (bi_buffer b) then Full else Available)"
    by (auto simp: bi_push_def Let_def)
  have "take (Suc (bi_position b)) ((bi_buffer b)[bi_position b := neighbor_new i d])
      = take (bi_position b) (bi_buffer b) @ [neighbor_new i d]"
    using p by (rule take_Suc_update)
  then show ?case using p
    by (auto simp: b' s bi_inv_def bi_content_def bi_size_hint_def as_tuple_def)
next
  case (4 b xs n b')
  then have p: "bi_position b \<le> length (bi_buffer b)" by (simp add: bi_inv_def)
  let ?ys = "map (\<lambda>(i, d). neighbor_new i d) xs"
  have t: "take (bi_position b + min (length (bi_buffer b) - bi_position b) (length xs))
      (overwrite_from (bi_position b) (bi_buffer b) ?ys)
    = take (bi_position b) (bi_buffer b) @ take (length (bi_buffer b) - bi_position b) ?ys"
    using take_overwrite_from [OF p, of ?ys] by simp
  from 4 have e: "n = min (length (bi_buffer b) - bi_position b) (length xs)"
    "b' = \<lparr>bi_buffer = overwrite_from (bi_position b) (bi_buffer b) ?ys,
       bi_position = bi_position b + min (length (bi_buffer b) - bi_position b) (length xs)\<rparr>"
    by (auto simp: bi_extend_def Let_def)
  have "bi_content b' = bi_content b @ map as_tuple (take (length (bi_buffer b) - bi_position b) ?ys)"
    unfolding bi_content_def e(2) by (simp add: t)
  then show ?case using p
    by (simp add: e bi_inv_def bi_size_hint_def take_room_def take_map as_tuple_map min.commute)
qed

interpretation vec: search_output_buffer vec_size_hint vec_push vec_current_len vec_extend
  "\<lambda>v. True" "map as_tuple"
  by (standard, auto simp: vec_size_hint_def vec_push_def vec_current_len_def vec_extend_def Let_def
      take_room_def as_tuple_map, simp add: as_tuple_def)

definition idd_content :: "'i id_distance \<Rightarrow> ('i \<times> f32) list" where
  "idd_content b = zip (take (idd_position b) (idd_ids b)) (take (idd_position b) (idd_distances b))"

definition idd_inv :: "'i id_distance \<Rightarrow> bool" where
  "idd_inv b \<longleftrightarrow> length (idd_ids b) = length (idd_distances b) \<and> idd_position b \<le> length (idd_ids b)"

lemma take_overwrite_prefix:
  assumes "p + n \<le> length xs" "n \<le> length us"
  shows "take (p + n) (overwrite_from p xs (take n us)) = take p xs @ take n us"
  using assms by (simp add: overwrite_from_def overwrite_eq)

lemma zip_take_update:
  assumes "p < length xs" "length xs = length ys"
  shows "zip (take (Suc p) (xs[p := x])) (take (Suc p) (ys[p := y])) = zip (take p xs) (take p ys) @ [(x, y)]"
  using assms by (simp add: take_Suc_update)

interpretation idd: search_output_buffer idd_size_hint idd_push idd_current_len idd_extend idd_inv idd_content
proof (standard, goal_cases)
  case (1 b)
  then show ?case by (simp add: idd_inv_def idd_current_len_def idd_content_def)
next
  case (2 b i d)
  then show ?case by (simp add: idd_inv_def idd_size_hint_def idd_push_def idd_capacity_def)
next
  case (3 b i d s b')
  then have p: "idd_position b < length (idd_ids b)" "length (idd_ids b) = length (idd_distances b)"
    by (simp_all add: idd_inv_def idd_size_hint_def idd_capacity_def)
  from 3 p have "b' = \<lparr>idd_ids = (idd_ids b)[idd_position b := i],
      idd_distances = (idd_distances b)[idd_position b := d], idd_position = idd_position b + 1\<rparr>"
    "s = (if idd_position b + 1 = length (idd_ids b) then Full else Available)"
    by (auto simp: idd_push_def Let_def idd_capacity_def)
  then show ?case using p zip_take_update [OF p, of i d]
    by (auto simp: idd_inv_def idd_content_def idd_size_hint_def idd_capacity_def)
next
  case (4 b xs n b')
  then have p: "idd_position b \<le> length (idd_ids b)" "length (idd_ids b) = length (idd_distances b)"
    by (simp_all add: idd_inv_def)
  from 4 have n: "n = min (length (idd_ids b) - idd_position b) (length (map fst xs))"
    and b': "b' = \<lparr>idd_ids = overwrite_from (idd_position b) (idd_ids b) (take n (map fst xs)),
       idd_distances = overwrite_from (idd_position b) (idd_distances b) (take n (map snd xs)),
       idd_position = idd_position b + n\<rparr>"
    using p by (auto simp: idd_extend_def Let_def)
  have le: "idd_position b + n \<le> length (idd_ids b)" "n \<le> length xs" using p n by simp_all
  have "idd_content b' = idd_content b @ take n xs"
    using take_overwrite_prefix [of "idd_position b" n "idd_ids b" "map fst xs"]
      take_overwrite_prefix [of "idd_position b" n "idd_distances b" "map snd xs"] le p
    by (simp add: b' idd_content_def take_map zip_map_fst_snd)
  moreover have "take n xs = take (length (idd_ids b) - idd_position b) xs"
    by (simp add: n min_def)
  ultimately show ?case using p n
    by (simp add: b' idd_inv_def idd_size_hint_def idd_capacity_def take_room_def min.commute)
qed

definition ida_content :: "('i, 'a) id_distance_assoc \<Rightarrow> (('i \<times> 'a) \<times> f32) list" where
  "ida_content b = zip (zip (take (ida_position b) (ida_ids b)) (take (ida_position b) (ida_associated_data b)))
     (take (ida_position b) (ida_distances b))"

definition ida_inv :: "('i, 'a) id_distance_assoc \<Rightarrow> bool" where
  "ida_inv b \<longleftrightarrow> length (ida_ids b) = length (ida_distances b)
     \<and> length (ida_ids b) = length (ida_associated_data b) \<and> ida_position b \<le> length (ida_ids b)"

interpretation ida: search_output_buffer ida_size_hint ida_push ida_current_len ida_extend ida_inv ida_content
proof (standard, goal_cases)
  case (1 b)
  then show ?case by (simp add: ida_inv_def ida_current_len_def ida_content_def)
next
  case (2 b i d)
  then show ?case by (simp add: ida_inv_def ida_size_hint_def ida_push_def ida_capacity_def)
next
  case (3 b i d s b')
  then have p: "ida_position b < length (ida_ids b)" "length (ida_ids b) = length (ida_distances b)"
    "length (ida_ids b) = length (ida_associated_data b)"
    by (simp_all add: ida_inv_def ida_size_hint_def ida_capacity_def)
  from 3 p have "b' = \<lparr>ida_ids = (ida_ids b)[ida_position b := fst i],
      ida_distances = (ida_distances b)[ida_position b := d],
      ida_associated_data = (ida_associated_data b)[ida_position b := snd i], ida_position = ida_position b + 1\<rparr>"
    "s = (if ida_position b + 1 = length (ida_ids b) then Full else Available)"
    by (auto simp: ida_push_def Let_def ida_capacity_def)
  then show ?case using p by (auto simp: ida_inv_def ida_content_def ida_size_hint_def ida_capacity_def take_Suc_update)
next
  case (4 b xs n b')
  then have p: "ida_position b \<le> length (ida_ids b)" "length (ida_ids b) = length (ida_distances b)"
    "length (ida_ids b) = length (ida_associated_data b)"
    by (simp_all add: ida_inv_def)
  from 4 have n: "n = min (length (ida_ids b) - ida_position b) (length xs)"
    and b': "b' = \<lparr>ida_ids = overwrite_from (ida_position b) (ida_ids b) (take n (map (\<lambda>x. fst (fst x)) xs)),
       ida_distances = overwrite_from (ida_position b) (ida_distances b) (take n (map snd xs)),
       ida_associated_data = overwrite_from (ida_position b) (ida_associated_data b) (take n (map (\<lambda>x. snd (fst x)) xs)),
       ida_position = ida_position b + n\<rparr>"
    using p by (auto simp: ida_extend_def Let_def)
  have le: "ida_position b + n \<le> length (ida_ids b)" "n \<le> length xs" using p n by simp_all
  have z: "zip (zip (map (\<lambda>x. fst (fst x)) ys) (map (\<lambda>x. snd (fst x)) ys)) (map snd ys) = ys"
    for ys :: "(('a \<times> 'b) \<times> f32) list"
    by (induction ys) auto
  have "ida_content b' = ida_content b @ take n xs"
    using take_overwrite_prefix [of "ida_position b" n "ida_ids b" "map (\<lambda>x. fst (fst x)) xs"]
      take_overwrite_prefix [of "ida_position b" n "ida_associated_data b" "map (\<lambda>x. snd (fst x)) xs"]
      take_overwrite_prefix [of "ida_position b" n "ida_distances b" "map snd xs"] le p
    by (simp add: b' ida_content_def take_map z)
  moreover have "take n xs = take (length (ida_ids b) - ida_position b) xs"
    by (simp add: n min_def)
  ultimately show ?case using p n
    by (simp add: b' ida_inv_def ida_size_hint_def ida_capacity_def take_room_def min.commute)
qed

section \<open>Properties\<close>

text \<open>On each of the four output containers, \<open>extend\<close> leaves the same content as pushing the
  items one by one, and returns how many of them were stored.\<close>

theorem extend_is_push_all:
  "idd_inv b1 \<Longrightarrow> bi_inv b2 \<Longrightarrow> ida_inv b3 \<Longrightarrow>
     idd_content (snd (idd_extend b1 xs)) = idd_content (fold (\<lambda>(i, d) b. snd (idd_push b i d)) xs b1)
     \<and> bi_content (snd (bi_extend b2 xs)) = bi_content (fold (\<lambda>(i, d) b. snd (bi_push b i d)) xs b2)
     \<and> ida_content (snd (ida_extend b3 ys)) = ida_content (fold (\<lambda>(i, d) b. snd (ida_push b i d)) ys b3)
     \<and> snd (vec_extend v xs) = fold (\<lambda>(i, d) b. snd (vec_push b i d)) xs v
     \<and> fst (idd_extend b1 xs) = min (idd_capacity b1 - idd_position b1) (length xs)"
proof -
  assume inv: "idd_inv b1" "bi_inv b2" "ida_inv b3"
  have "fold (\<lambda>(i, d) b. snd (vec_push b i d)) xs v = v @ map (\<lambda>(i, d). neighbor_new i d) xs"
    by (induction xs arbitrary: v) (auto simp: vec_push_def)
  then have v: "snd (vec_extend v xs) = fold (\<lambda>(i, d) b. snd (vec_push b i d)) xs v"
    by (simp add: vec_extend_def Let_def)
  have "fst (idd_extend b1 xs) = min (idd_capacity b1 - idd_position b1) (length xs)"
    using inv(1) by (simp add: idd_extend_def Let_def idd_inv_def idd_capacity_def)
  with v idd.extend_push_all(1) [OF inv(1), of xs] bi.extend_push_all(1) [OF inv(2), of xs]
    ida.extend_push_all(1) [OF inv(3), of ys] show ?thesis
    unfolding idd.push_all_def bi.push_all_def ida.push_all_def by simp
qed

end
