(* ===== verification/Backedge.thy ===== *)
theory Backedge
  imports Adjacency_List
begin

text \<open>
  \<open>diskann/src/graph/internal/backedge.rs\<close> and \<open>aggregate_backedges\<close> of
  \<open>diskann/src/graph/index.rs\<close>: the reverse edges a batch of insertions adds.  A buffer holds up
  to four identifiers in place and moves to an adjacency list with the fifth; it refines an
  adjacency list.  The parameter \<open>dflt\<close> is the default identifier the resized storage is filled with.
\<close>

datatype 'i backedge_buffer =
  BNone | BOne 'i | BTwo 'i 'i | BThree 'i 'i 'i | BFour 'i 'i 'i 'i | BMany "'i adjacency_list"

definition bb_default :: "'i backedge_buffer" where
  "bb_default = BNone"

definition bb_new :: "'i \<Rightarrow> 'i backedge_buffer" where
  "bb_new v = BOne v"

fun bb_len :: "'i backedge_buffer \<Rightarrow> nat" where
  "bb_len BNone = 0"
| "bb_len (BOne _) = 1"
| "bb_len (BTwo _ _) = 2"
| "bb_len (BThree _ _ _) = 3"
| "bb_len (BFour _ _ _ _) = 4"
| "bb_len (BMany adj) = length adj"

fun bb_deref :: "'i backedge_buffer \<Rightarrow> 'i list" where
  "bb_deref BNone = []"
| "bb_deref (BOne v) = [v]"
| "bb_deref (BTwo v0 v1) = [v0, v1]"
| "bb_deref (BThree v0 v1 v2) = [v0, v1, v2]"
| "bb_deref (BFour v0 v1 v2 v3) = [v0, v1, v2, v3]"
| "bb_deref (BMany adj) = adj"

fun bb_push :: "'i \<Rightarrow> 'i backedge_buffer \<Rightarrow> 'i \<Rightarrow> 'i backedge_buffer \<times> bool" where
  "bb_push dflt BNone v = (BOne v, True)"
| "bb_push dflt (BOne v0) v = (if v0 \<noteq> v then (BTwo v0 v, True) else (BOne v0, False))"
| "bb_push dflt (BTwo v0 v1) v =
     (if v0 \<noteq> v \<and> v1 \<noteq> v then (BThree v0 v1 v, True) else (BTwo v0 v1, False))"
| "bb_push dflt (BThree v0 v1 v2) v =
     (if v0 \<noteq> v \<and> v1 \<noteq> v \<and> v2 \<noteq> v then (BFour v0 v1 v2 v, True) else (BThree v0 v1 v2, False))"
| "bb_push dflt (BFour v0 v1 v2 v3) v =
     (if v0 \<noteq> v \<and> v1 \<noteq> v \<and> v2 \<noteq> v \<and> v3 \<noteq> v then
        let guard = al_resize dflt 5 al_new;
            guard = guard[0 := v0, 1 := v1, 2 := v2, 3 := v3, 4 := v]
        in (BMany (guard_finish 5 guard), True)
      else (BFour v0 v1 v2 v3, False))"
| "bb_push dflt (BMany adj) v = (let (inserted, adj') = al_push v adj in (BMany adj', inserted))"

section \<open>Aggregation\<close>

record 'i pending_edge =
  pe_source :: 'i
  pe_edges :: "'i adjacency_list"

definition add_backedge :: "'i \<Rightarrow> 'i \<Rightarrow> 'i \<Rightarrow> ('i \<rightharpoonup> 'i backedge_buffer) \<Rightarrow> ('i \<rightharpoonup> 'i backedge_buffer)" where
  "add_backedge dflt source target m =
     (case m target of
        Some buf \<Rightarrow> m(target \<mapsto> fst (bb_push dflt buf source))
      | None \<Rightarrow> m(target \<mapsto> bb_new source))"

definition aggregate_backedges :: "'i \<Rightarrow> 'i pending_edge list \<Rightarrow> ('i \<rightharpoonup> 'i backedge_buffer)" where
  "aggregate_backedges dflt pes =
     fold (\<lambda>p m. fold (add_backedge dflt (pe_source p)) (pe_edges p) m) pes Map.empty"

section \<open>Lemmas\<close>

lemma bb_len_deref: "bb_len b = length (bb_deref b)"
  by (cases b) auto

lemma bb_push_refines:
  "(snd (bb_push dflt b v), bb_deref (fst (bb_push dflt b v))) = al_push v (bb_deref b)"
proof (cases b)
  case (BFour v0 v1 v2 v3)
  then show ?thesis
    by (auto simp: al_push_def al_resize_def al_new_def guard_finish_def al_truncate_def
        numeral_eq_Suc)
next
  case (BMany adj)
  then show ?thesis by (cases "al_push v adj") auto
qed (auto simp: al_push_def)

lemma bb_push_deref:
  "set (bb_deref (fst (bb_push dflt b v))) = insert v (set (bb_deref b))"
  "distinct (bb_deref b) \<Longrightarrow> distinct (bb_deref (fst (bb_push dflt b v)))"
  using al_push_props [of v "bb_deref b"] bb_push_refines [of dflt b v] by metis+

text \<open>The content of an entry of the map; an absent entry is empty.\<close>

definition bb_entry :: "('i \<rightharpoonup> 'i backedge_buffer) \<Rightarrow> 'i \<Rightarrow> 'i list" where
  "bb_entry m t = (case m t of None \<Rightarrow> [] | Some b \<Rightarrow> bb_deref b)"

lemma bb_entry_add:
  "set (bb_entry (add_backedge dflt s t m) u) = (if u = t then insert s (set (bb_entry m t)) else set (bb_entry m u))"
  by (auto simp: bb_entry_def add_backedge_def bb_push_deref bb_new_def split: option.splits)

lemma bb_entry_add_distinct:
  assumes "\<forall>t. distinct (bb_entry m t)"
  shows "\<forall>u. distinct (bb_entry (add_backedge dflt s t m) u)"
proof
  fix u
  show "distinct (bb_entry (add_backedge dflt s t m) u)"
    using assms [rule_format, of u] assms [rule_format, of t]
    by (auto simp: bb_entry_def add_backedge_def bb_push_deref(2) bb_new_def split: option.splits)
qed

lemma dom_add_backedge: "dom (add_backedge dflt s t m) = insert t (dom m)"
  by (auto simp: add_backedge_def split: option.splits)

lemma add_backedges_fold:
  "set (bb_entry (fold (add_backedge dflt s) ts m) u) = (if u \<in> set ts then {s} else {}) \<union> set (bb_entry m u)"
  "dom (fold (add_backedge dflt s) ts m) = set ts \<union> dom m"
  "\<forall>t. distinct (bb_entry m t) \<Longrightarrow> distinct (bb_entry (fold (add_backedge dflt s) ts m) u)"
proof -
  show "set (bb_entry (fold (add_backedge dflt s) ts m) u) = (if u \<in> set ts then {s} else {}) \<union> set (bb_entry m u)"
    by (induction ts arbitrary: m) (auto simp: bb_entry_add)
  show "dom (fold (add_backedge dflt s) ts m) = set ts \<union> dom m"
    by (induction ts arbitrary: m) (auto simp: dom_add_backedge)
  show "\<forall>t. distinct (bb_entry m t) \<Longrightarrow> distinct (bb_entry (fold (add_backedge dflt s) ts m) u)"
    by (induction ts arbitrary: m) (auto simp: bb_entry_add_distinct)
qed

lemma aggregate_fold:
  fixes dflt :: 'i and m :: "'i \<rightharpoonup> 'i backedge_buffer"
  defines "agg \<equiv> \<lambda>ls m. fold (\<lambda>p m. fold (add_backedge dflt (pe_source p)) (pe_edges p) m) ls m"
  shows "set (bb_entry (agg ls m) u) = {pe_source p | p. p \<in> set ls \<and> u \<in> set (pe_edges p)} \<union> set (bb_entry m u)"
    and "dom (agg ls m) = (\<Union>p\<in>set ls. set (pe_edges p)) \<union> dom m"
    and "\<forall>t. distinct (bb_entry m t) \<Longrightarrow> distinct (bb_entry (agg ls m) u)"
  unfolding agg_def
proof -
  let ?agg = "\<lambda>ls. fold (\<lambda>p. fold (add_backedge dflt (pe_source p)) (pe_edges p)) ls"
  show "set (bb_entry (?agg ls m) u) = {pe_source p | p. p \<in> set ls \<and> u \<in> set (pe_edges p)} \<union> set (bb_entry m u)"
    by (induction ls arbitrary: m) (auto simp: add_backedges_fold(1))
  show "dom (?agg ls m) = (\<Union>p\<in>set ls. set (pe_edges p)) \<union> dom m"
    by (induction ls arbitrary: m) (auto simp: add_backedges_fold(2))
  show "\<forall>t. distinct (bb_entry m t) \<Longrightarrow> distinct (bb_entry (?agg ls m) u)"
    by (induction ls arbitrary: m) (auto simp: add_backedges_fold(3))
qed

section \<open>Properties\<close>

text \<open>C30: a backedge buffer behaves as an adjacency list: whichever of its six representations it
  is in, \<open>push\<close> appends the value exactly when it is absent and says so, and the length agrees.\<close>

theorem backedge_buffer_refines:
  "(snd (bb_push dflt b v), bb_deref (fst (bb_push dflt b v))) = al_push v (bb_deref b)
   \<and> bb_len (fst (bb_push dflt b v)) = (if v \<in> set (bb_deref b) then bb_len b else bb_len b + 1)"
proof -
  have "bb_deref (fst (bb_push dflt b v)) = snd (al_push v (bb_deref b))"
    using bb_push_refines [of dflt b v] by (metis snd_conv)
  then have "bb_len (fst (bb_push dflt b v)) = (if v \<in> set (bb_deref b) then bb_len b else bb_len b + 1)"
    by (simp add: bb_len_deref al_push_def)
  then show ?thesis using bb_push_refines [of dflt b v] by blast
qed

text \<open>C29: \<open>aggregate_backedges\<close> turns the pending edges around: a vertex has an entry exactly when
  some pending edge list points at it, and the entry holds each source that does exactly once.\<close>

theorem aggregate_backedges_correct:
  "dom (aggregate_backedges dflt ls) = (\<Union>p\<in>set ls. set (pe_edges p))
   \<and> set (case aggregate_backedges dflt ls t of None \<Rightarrow> [] | Some b \<Rightarrow> bb_deref b)
       = {pe_source p | p. p \<in> set ls \<and> t \<in> set (pe_edges p)}
   \<and> distinct (case aggregate_backedges dflt ls t of None \<Rightarrow> [] | Some b \<Rightarrow> bb_deref b)"
  using aggregate_fold(1) [where m = Map.empty and dflt = dflt and ls = ls and u = t]
    aggregate_fold(2) [where m = Map.empty and dflt = dflt and ls = ls]
    aggregate_fold(3) [where m = Map.empty and dflt = dflt and ls = ls and u = t]
  by (simp add: aggregate_backedges_def bb_entry_def)

end
