(* ===== verification/Graph_Config.thy ===== *)
theory Graph_Config
  imports F32
begin

text \<open>
  \<open>diskann/src/graph/config\<close>: the parameters of index construction, their builder with its checks,
  the pruning rule and the retry policy of insertions.  A \<open>NonZeroU32\<close> is a natural number that
  \<open>try_nonzero_u32\<close> has checked; the checked range is part of \<open>config_wf\<close>.
\<close>

section \<open>The pruning rule\<close>

datatype metric = Cosine | InnerProduct | L2 | CosineNormalized

datatype prune_kind = TriangleInequality | Occluding

definition OCCLUDING_MASK :: f32 where
  "OCCLUDING_MASK = f32_lit 1 100"

fun from_metric :: "metric \<Rightarrow> prune_kind" where
  "from_metric L2 = TriangleInequality"
| "from_metric Cosine = TriangleInequality"
| "from_metric CosineNormalized = TriangleInequality"
| "from_metric InnerProduct = Occluding"

definition update_occlude_factor :: "prune_kind \<Rightarrow> f32 \<Rightarrow> f32 \<Rightarrow> f32 \<Rightarrow> f32 \<Rightarrow> f32" where
  "update_occlude_factor kind distance_ik distance_jk current_factor current_alpha =
     (case kind of
        TriangleInequality \<Rightarrow>
          if f32_eq distance_jk f32_zero then f32_MAX
          else f32_max current_factor (f32_div distance_ik distance_jk)
      | Occluding \<Rightarrow>
          if f32_lt distance_jk (f32_mul current_alpha distance_ik)
          then f32_add current_alpha OCCLUDING_MASK
          else current_factor)"

section \<open>Candidates within a batch\<close>

datatype intra_batch_candidates = IBNone | IBMax nat | IBAll

definition intra_batch_new :: "nat \<Rightarrow> intra_batch_candidates" where
  "intra_batch_new v = (if v = 0 then IBNone else IBMax v)"

fun intra_batch_get :: "intra_batch_candidates \<Rightarrow> nat \<Rightarrow> nat" where
  "intra_batch_get IBNone batch_size = 0"
| "intra_batch_get (IBMax m) batch_size = min m batch_size"
| "intra_batch_get IBAll batch_size = batch_size"

definition intra_batch_is_none :: "intra_batch_candidates \<Rightarrow> bool" where
  "intra_batch_is_none c \<longleftrightarrow> c = IBNone"

section \<open>Defaults\<close>

definition MAX_OCCLUSION_SIZE :: nat where "MAX_OCCLUSION_SIZE = 750"
definition SATURATE_AFTER_PRUNE :: bool where "SATURATE_AFTER_PRUNE = False"
definition GRAPH_SLACK_FACTOR :: f32 where "GRAPH_SLACK_FACTOR = f32_lit 13 10"
definition ALPHA :: f32 where "ALPHA = f32_lit 12 10"
definition MAX_MINIBATCH_PARALLELISM :: nat where "MAX_MINIBATCH_PARALLELISM = 1"
definition INTRA_BATCH_CANDIDATES :: intra_batch_candidates where "INTRA_BATCH_CANDIDATES = IBAll"

section \<open>The retry policy\<close>

record insert_retry =
  max_retries :: nat
  retry_if_candidates_shorter_than :: nat
  saturate_on_last_attempt :: bool

definition insert_retry_new :: "nat \<Rightarrow> nat \<Rightarrow> bool \<Rightarrow> insert_retry" where
  "insert_retry_new n shorter sat =
     \<lparr>max_retries = n, retry_if_candidates_shorter_than = shorter, saturate_on_last_attempt = sat\<rparr>"

definition should_saturate :: "insert_retry \<Rightarrow> nat \<Rightarrow> bool" where
  "should_saturate r attempt \<longleftrightarrow> saturate_on_last_attempt r \<and> attempt = max_retries r - 1"

definition should_retry :: "insert_retry \<Rightarrow> nat \<Rightarrow> nat \<Rightarrow> bool" where
  "should_retry r attempt num_candidates \<longleftrightarrow>
     attempt \<noteq> max_retries r - 1 \<and> num_candidates < retry_if_candidates_shorter_than r"

section \<open>The configuration and its builder\<close>

record config =
  pruned_degree :: nat
  max_degree :: nat
  l_build :: nat
  alpha :: f32
  prune_kind_of :: prune_kind
  max_occlusion_size :: nat
  max_backedges :: nat
  max_minibatch_par :: nat
  intra_batch :: intra_batch_candidates
  saturate_after_prune :: bool
  experimental_insert_retry :: "insert_retry option"

datatype config_error =
    CEParameter string nat
  | CESlack f32
  | CEDegrees nat nat
  | CEBackedges nat nat
  | CEBackedgeRatio f32

datatype max_degree_spec = MDValue nat | MDSlack f32 | MDSame

definition default_slack :: max_degree_spec where
  "default_slack = MDSlack GRAPH_SLACK_FACTOR"

datatype backedge_spec = BRatio f32 | BAmount nat

record builder =
  b_pruned_degree :: nat
  b_max_degree :: max_degree_spec
  b_l_build :: nat
  b_prune_kind :: prune_kind
  b_alpha :: "f32 option"
  b_max_occlusion_size :: "nat option"
  b_backedge_spec :: "backedge_spec option"
  b_max_minibatch_par :: "nat option"
  b_intra_batch_candidates :: "intra_batch_candidates option"
  b_saturate_after_prune :: "bool option"
  b_insert_retry :: "insert_retry option"

definition builder_new :: "nat \<Rightarrow> max_degree_spec \<Rightarrow> nat \<Rightarrow> prune_kind \<Rightarrow> builder" where
  "builder_new pruned md l kind =
     \<lparr>b_pruned_degree = pruned, b_max_degree = md, b_l_build = l, b_prune_kind = kind,
      b_alpha = None, b_max_occlusion_size = None, b_backedge_spec = None,
      b_max_minibatch_par = None, b_intra_batch_candidates = None,
      b_saturate_after_prune = None, b_insert_retry = None\<rparr>"

definition builder_new_with ::
  "nat \<Rightarrow> max_degree_spec \<Rightarrow> nat \<Rightarrow> prune_kind \<Rightarrow> (builder \<Rightarrow> builder) \<Rightarrow> builder" where
  "builder_new_with pruned md l kind f = f (builder_new pruned md l kind)"

definition set_alpha :: "f32 \<Rightarrow> builder \<Rightarrow> builder" where
  "set_alpha a b = b\<lparr>b_alpha := Some a\<rparr>"

definition set_l_build :: "nat \<Rightarrow> builder \<Rightarrow> builder" where
  "set_l_build n b = b\<lparr>b_l_build := n\<rparr>"

definition set_max_occlusion_size :: "nat \<Rightarrow> builder \<Rightarrow> builder" where
  "set_max_occlusion_size n b = b\<lparr>b_max_occlusion_size := Some n\<rparr>"

definition set_backedge_ratio :: "f32 \<Rightarrow> builder \<Rightarrow> builder" where
  "set_backedge_ratio r b = b\<lparr>b_backedge_spec := Some (BRatio r)\<rparr>"

definition set_max_backedges :: "nat \<Rightarrow> builder \<Rightarrow> builder" where
  "set_max_backedges n b = b\<lparr>b_backedge_spec := Some (BAmount n)\<rparr>"

definition set_max_minibatch_par :: "nat \<Rightarrow> builder \<Rightarrow> builder" where
  "set_max_minibatch_par n b = b\<lparr>b_max_minibatch_par := Some n\<rparr>"

definition set_intra_batch_candidates :: "intra_batch_candidates \<Rightarrow> builder \<Rightarrow> builder" where
  "set_intra_batch_candidates c b = b\<lparr>b_intra_batch_candidates := Some c\<rparr>"

definition set_saturate_after_prune :: "bool \<Rightarrow> builder \<Rightarrow> builder" where
  "set_saturate_after_prune s b = b\<lparr>b_saturate_after_prune := Some s\<rparr>"

definition set_insert_retry :: "insert_retry \<Rightarrow> builder \<Rightarrow> builder" where
  "set_insert_retry r b = b\<lparr>b_insert_retry := Some r\<rparr>"

definition try_nonzero_u32 :: "nat \<Rightarrow> nat + nat" where
  "try_nonzero_u32 x = (if 2 ^ 32 \<le> x then Inl x else if x = 0 then Inl x else Inr x)"

definition non_zero_error :: "string \<Rightarrow> nat \<Rightarrow> config_error + nat" where
  "non_zero_error param v = (case try_nonzero_u32 v of Inl e \<Rightarrow> Inl (CEParameter param e) | Inr y \<Rightarrow> Inr y)"

definition resolve_max_degree :: "max_degree_spec \<Rightarrow> nat \<Rightarrow> config_error + nat" where
  "resolve_max_degree md pruned =
     (case md of
        MDValue m \<Rightarrow> non_zero_error ''max_degree'' m
      | MDSlack slack \<Rightarrow>
          if f32_lt slack f32_one \<or> \<not> is_finite slack then Inl (CESlack slack)
          else non_zero_error ''max_degree (from slack)'' (f32_as_usize (f32_mul slack (f32_of_nat pruned)))
      | MDSame \<Rightarrow> Inr pruned)"

definition resolve_backedges :: "backedge_spec option \<Rightarrow> nat \<Rightarrow> config_error + nat" where
  "resolve_backedges spec pruned =
     (case spec of
        Some (BRatio ratio) \<Rightarrow>
          if \<not> is_finite ratio \<or> f32_le ratio f32_zero \<or> f32_gt ratio f32_one
          then Inl (CEBackedgeRatio ratio)
          else non_zero_error ''backedge_ratio (from slack)''
                 (f32_as_usize (f32_ceil (f32_mul ratio (f32_of_nat pruned))))
      | Some (BAmount amount) \<Rightarrow> non_zero_error ''max_backedges'' amount
      | None \<Rightarrow> Inr pruned)"

definition or_default :: "string \<Rightarrow> nat option \<Rightarrow> nat \<Rightarrow> config_error + nat" where
  "or_default param v d = (case v of Some x \<Rightarrow> non_zero_error param x | None \<Rightarrow> Inr d)"

definition try_from_builder :: "builder \<Rightarrow> config_error + config" where
  "try_from_builder b =
     (let alpha = (case b_alpha b of Some a \<Rightarrow> a | None \<Rightarrow> ALPHA) in
      rbind (non_zero_error ''pruned_degree'' (b_pruned_degree b)) (\<lambda>pruned.
      rbind (resolve_max_degree (b_max_degree b) pruned) (\<lambda>maxd.
      if maxd < pruned then Inl (CEDegrees maxd pruned) else
      rbind (non_zero_error ''l_build'' (b_l_build b)) (\<lambda>l.
      rbind (or_default ''max_occlusion_size'' (b_max_occlusion_size b) MAX_OCCLUSION_SIZE) (\<lambda>occ.
      rbind (resolve_backedges (b_backedge_spec b) pruned) (\<lambda>back.
      if pruned < back then Inl (CEBackedges back pruned) else
      rbind (or_default ''max_minibatch_par'' (b_max_minibatch_par b) MAX_MINIBATCH_PARALLELISM) (\<lambda>par.
      Inr \<lparr>pruned_degree = pruned, max_degree = maxd, l_build = l, alpha = alpha,
           prune_kind_of = b_prune_kind b, max_occlusion_size = occ, max_backedges = back,
           max_minibatch_par = par,
           intra_batch = (case b_intra_batch_candidates b of Some c \<Rightarrow> c | None \<Rightarrow> INTRA_BATCH_CANDIDATES),
           saturate_after_prune = (case b_saturate_after_prune b of Some s \<Rightarrow> s | None \<Rightarrow> False),
           experimental_insert_retry = b_insert_retry b\<rparr>)))))))"

definition builder_build :: "builder \<Rightarrow> config_error + config" where
  "builder_build b = try_from_builder b"

section \<open>Lemmas\<close>

definition nonzero_u32 :: "nat \<Rightarrow> bool" where
  "nonzero_u32 n \<longleftrightarrow> 0 < n \<and> n < 2 ^ 32"

definition config_wf :: "config \<Rightarrow> bool" where
  "config_wf c \<longleftrightarrow> list_all nonzero_u32 [pruned_degree c, max_degree c, l_build c,
       max_occlusion_size c, max_backedges c, max_minibatch_par c]
     \<and> pruned_degree c \<le> max_degree c \<and> max_backedges c \<le> pruned_degree c"

lemma non_zero_error_iff: "non_zero_error p v = Inr y \<longleftrightarrow> y = v \<and> nonzero_u32 v"
  by (auto simp: non_zero_error_def try_nonzero_u32_def nonzero_u32_def)

lemma non_zero_error_Inl: "non_zero_error p v = Inl e \<longleftrightarrow> e = CEParameter p v \<and> \<not> nonzero_u32 v"
  by (auto simp: non_zero_error_def try_nonzero_u32_def nonzero_u32_def)

lemma resolve_max_degree_u32:
  "nonzero_u32 pruned \<Longrightarrow> resolve_max_degree md pruned = Inr m \<Longrightarrow> nonzero_u32 m"
  by (auto simp: resolve_max_degree_def non_zero_error_iff split: max_degree_spec.splits if_splits)

lemma resolve_backedges_u32:
  "nonzero_u32 pruned \<Longrightarrow> resolve_backedges spec pruned = Inr m \<Longrightarrow> nonzero_u32 m"
  by (auto simp: resolve_backedges_def non_zero_error_iff split: backedge_spec.splits option.splits if_splits)

lemma or_default_u32: "nonzero_u32 d \<Longrightarrow> or_default p v d = Inr m \<Longrightarrow> nonzero_u32 m"
  by (auto simp: or_default_def non_zero_error_iff split: option.splits)

lemma update_occlude_factor_triangle_ge:
  assumes "current \<noteq> NaN" "current \<le> f32_MAX"
  shows "current \<le> update_occlude_factor TriangleInequality ik jk current a"
  using assms by (auto simp: update_occlude_factor_def f32_max_def)

section \<open>Properties\<close>

text \<open>A configuration that \<open>build\<close> accepts has all its counts between 1 and \<open>u32::MAX\<close>, a
  maximum degree of at least the pruned degree and at most as many backedges as the pruned degree;
  the builder's own values arrive in it.\<close>

theorem build_checks_config:
  assumes "builder_build b = Inr c"
  shows "config_wf c \<and> pruned_degree c = b_pruned_degree b \<and> l_build c = b_l_build b
    \<and> prune_kind_of c = b_prune_kind b
    \<and> (\<forall>m. b_max_degree b = MDValue m \<longrightarrow> max_degree c = m)
    \<and> (b_max_degree b = MDSame \<longrightarrow> max_degree c = pruned_degree c)
    \<and> (b_alpha b = None \<longrightarrow> alpha c = ALPHA)
    \<and> (\<forall>a. b_alpha b = Some a \<longrightarrow> alpha c = a)"
proof -
  from assms obtain maxd occ bk par where r: "nonzero_u32 (b_pruned_degree b)"
    "resolve_max_degree (b_max_degree b) (b_pruned_degree b) = Inr maxd" "b_pruned_degree b \<le> maxd"
    "nonzero_u32 (b_l_build b)"
    "or_default ''max_occlusion_size'' (b_max_occlusion_size b) MAX_OCCLUSION_SIZE = Inr occ"
    "resolve_backedges (b_backedge_spec b) (b_pruned_degree b) = Inr bk" "bk \<le> b_pruned_degree b"
    "or_default ''max_minibatch_par'' (b_max_minibatch_par b) MAX_MINIBATCH_PARALLELISM = Inr par"
    and c: "pruned_degree c = b_pruned_degree b" "max_degree c = maxd" "l_build c = b_l_build b"
      "alpha c = (case b_alpha b of Some a \<Rightarrow> a | None \<Rightarrow> ALPHA)" "prune_kind_of c = b_prune_kind b"
      "max_occlusion_size c = occ" "max_backedges c = bk" "max_minibatch_par c = par"
    by (auto simp: builder_build_def try_from_builder_def Let_def rbind_eq_Inr_iff non_zero_error_iff not_less
        split: if_splits)
  have "nonzero_u32 MAX_OCCLUSION_SIZE" "nonzero_u32 MAX_MINIBATCH_PARALLELISM"
    by (simp_all add: nonzero_u32_def MAX_OCCLUSION_SIZE_def MAX_MINIBATCH_PARALLELISM_def)
  then have "config_wf c" using r c resolve_max_degree_u32 [OF r(1,2)] resolve_backedges_u32 [OF r(1,6)]
      or_default_u32 [OF _ r(5)] or_default_u32 [OF _ r(8)]
    by (simp add: config_wf_def)
  then show ?thesis using r(2) c by (auto simp: resolve_max_degree_def non_zero_error_iff)
qed

text \<open>With a slack of 1.0 the maximum degree is computed through a 32-bit float, so a pruned
  degree that such a float cannot represent is rejected as exceeding the maximum degree, and a
  backedge ratio of 1.0 can be rejected as exceeding the pruned degree.\<close>

theorem build_float_degrees:
  "builder_build (builder_new 16777217 (MDSlack f32_one) 100 TriangleInequality)
     = Inl (CEDegrees 16777216 16777217)
   \<and> builder_build (set_backedge_ratio f32_one (builder_new 16777219 MDSame 100 TriangleInequality))
     = Inl (CEBackedges 16777220 16777219)"
proof -
  have p: "f32_of_nat 16777217 = round_frac (16777217 * f32_scale) 1" "f32_of_nat 16777219 = round_frac (16777219 * f32_scale) 1"
    by (simp_all add: f32_of_nat_def)
  have m: "f32_mul f32_one (round_frac (16777217 * f32_scale) 1) = Fin (16777216 * f32_scale)"
    "f32_ceil (f32_mul f32_one (round_frac (16777219 * f32_scale) 1)) = Fin (16777220 * f32_scale)"
    "\<not> f32_lt f32_one f32_one" "is_finite f32_one" "\<not> f32_le f32_one f32_zero" "\<not> f32_gt f32_one f32_one"
    by code_simp+
  have u: "f32_as_usize (Fin (16777216 * f32_scale)) = 16777216" "f32_as_usize (Fin (16777220 * f32_scale)) = 16777220"
    by simp_all
  have "f32_as_usize (f32_mul f32_one (f32_of_nat 16777217)) = 16777216"
    "f32_as_usize (f32_ceil (f32_mul f32_one (f32_of_nat 16777219))) = 16777220"
    by (simp_all only: p m u)
  then show ?thesis
    by (simp add: builder_build_def try_from_builder_def builder_new_def set_backedge_ratio_def non_zero_error_def
        try_nonzero_u32_def resolve_max_degree_def or_default_def resolve_backedges_def MAX_OCCLUSION_SIZE_def m)
qed

end
