(* ===== verification/Prune.thy ===== *)
theory Prune
  imports Neighbor Adjacency_List Graph_Config
begin

text \<open>
  The pruning of candidate lists: \<open>internal/prune.rs\<close>, \<open>internal/sorted_neighbors.rs\<close> and
  \<open>occlude_list\<close>, \<open>robust_prune\<close>, \<open>robust_prune_list\<close> and \<open>robust_prune_with\<close> of
  \<open>diskann/src/graph/index.rs\<close>.

  The vectors are not modelled: \<open>get\<close> stands for the view of the working set (it returns the vector
  of an identifier, if it was retrieved) and \<open>sim\<close> for the distance computer.  The position up to
  which a candidate was compared is a \<open>u16\<close>; it wraps.  The loop over that position and the loop
  over the values of alpha are partial functions, so that \<open>None\<close> is a loop that does not end;
  panics are faults.  The positions of the chosen candidates are natural numbers (the conversion
  to an identifier type of at least 32 bits succeeds for every pool).
\<close>

section \<open>State\<close>

record 'i prune_scratch =
  ps_pool :: "'i neighbor list"
  ps_occlude_factor :: "f32 list"
  ps_last_checked :: "16 word list"
  ps_neighbors :: "'i adjacency_list"

definition prune_scratch_new :: "'i prune_scratch" where
  "prune_scratch_new =
     \<lparr>ps_pool = [], ps_occlude_factor = [], ps_last_checked = [], ps_neighbors = al_new\<rparr>"

text \<open>\<open>SortedNeighbors::new\<close>: the \<open>max\<close> closest candidates in order.  The library's selection and
  sort leave the order of candidates at the same distance open; the model keeps their order.\<close>

definition sorted_neighbors :: "'i neighbor list \<Rightarrow> nat \<Rightarrow> 'i neighbor list" where
  "sorted_neighbors ns m = take m (sort_key nbr_distance ns)"

definition as_context :: "nat \<Rightarrow> 'i prune_scratch \<Rightarrow> 'i prune_scratch" where
  "as_context max_candidates s = s\<lparr>ps_pool := sorted_neighbors (ps_pool s) max_candidates\<rparr>"

section \<open>The occlusion loops\<close>

type_synonym 'v cache = "(f32 \<times> 'v option) list"

record occ_state =
  occ_dst :: "nat list"
  occ_factor :: "f32 list"
  occ_last :: "16 word list"

text \<open>The distance between a candidate's vector and the result at a position of the pool.\<close>

definition result_distance :: "('v \<Rightarrow> 'v \<Rightarrow> f32) \<Rightarrow> 'v cache \<Rightarrow> 'v \<Rightarrow> nat \<Rightarrow> f32" where
  "result_distance sim cache v rp = (case snd (cache ! rp) of Some w \<Rightarrow> sim v w | None \<Rightarrow> f32_MAX)"

text \<open>The inner loop: compare candidate \<open>i\<close> (at distance \<open>d\<close>, with vector \<open>v\<close>) with the results
  from position \<open>pos\<close> on.  It returns the new position, the new factor and whether to skip.\<close>

partial_function (option) check_loop ::
  "prune_kind \<Rightarrow> ('v \<Rightarrow> 'v \<Rightarrow> f32) \<Rightarrow> 'v cache \<Rightarrow> f32 \<Rightarrow> nat \<Rightarrow> f32 \<Rightarrow> 'v \<Rightarrow> nat list \<Rightarrow> 16 word \<Rightarrow> f32
    \<Rightarrow> (fault + 16 word \<times> f32 \<times> bool) option"
where
  "check_loop kind sim cache ca i d v dst pos factor =
     (if unat pos = length dst then Some (Inr (pos, factor, False))
      else if length dst < unat pos then Some (Inl IndexFault)
      else
        let result_position = dst ! unat pos in
        if i \<le> result_position then check_loop kind sim cache ca i d v dst (pos + 1) factor
        else
          let factor' = update_occlude_factor kind d (result_distance sim cache v result_position) factor ca in
          if f32_gt factor' ca then Some (Inr (pos + 1, factor', True))
          else check_loop kind sim cache ca i d v dst (pos + 1) factor')"

definition occlude_step ::
  "prune_kind \<Rightarrow> ('v \<Rightarrow> 'v \<Rightarrow> f32) \<Rightarrow> 'v cache \<Rightarrow> nat \<Rightarrow> f32 \<Rightarrow> nat \<Rightarrow> occ_state \<Rightarrow> (fault + occ_state) option"
where
  "occlude_step kind sim cache degree ca i s =
     (if degree \<le> length (occ_dst s) then Some (Inr s)
      else if f32_gt (occ_factor s ! i) ca then Some (Inr s)
      else case snd (cache ! i) of
        None \<Rightarrow> Some (Inr (s\<lparr>occ_factor := (occ_factor s)[i := f32_MAX]\<rparr>))
      | Some v \<Rightarrow>
          (case check_loop kind sim cache ca i (fst (cache ! i)) v (occ_dst s) (occ_last s ! i) (occ_factor s ! i) of
             None \<Rightarrow> None
           | Some (Inl e) \<Rightarrow> Some (Inl e)
           | Some (Inr (pos, factor, skip)) \<Rightarrow>
               if skip \<or> f32_gt factor ca
               then Some (Inr (s\<lparr>occ_factor := (occ_factor s)[i := factor], occ_last := (occ_last s)[i := pos]\<rparr>))
               else Some (Inr (s\<lparr>occ_factor := (occ_factor s)[i := f32_MAX], occ_last := (occ_last s)[i := pos],
                                 occ_dst := snd (al_push i (occ_dst s))\<rparr>))))"

fun occlude_pass ::
  "prune_kind \<Rightarrow> ('v \<Rightarrow> 'v \<Rightarrow> f32) \<Rightarrow> 'v cache \<Rightarrow> nat \<Rightarrow> f32 \<Rightarrow> nat list \<Rightarrow> occ_state \<Rightarrow> (fault + occ_state) option"
where
  "occlude_pass kind sim cache degree ca [] s = Some (Inr s)"
| "occlude_pass kind sim cache degree ca (i # js) s =
     (case occlude_step kind sim cache degree ca i s of
        None \<Rightarrow> None
      | Some (Inl e) \<Rightarrow> Some (Inl e)
      | Some (Inr s') \<Rightarrow> occlude_pass kind sim cache degree ca js s')"

definition next_alpha :: "f32 \<Rightarrow> f32 \<Rightarrow> f32" where
  "next_alpha alp ca = f32_min (f32_mul ca (f32_min alp (f32_lit 12 10))) alp"

partial_function (option) alpha_loop ::
  "prune_kind \<Rightarrow> ('v \<Rightarrow> 'v \<Rightarrow> f32) \<Rightarrow> 'v cache \<Rightarrow> nat \<Rightarrow> f32 \<Rightarrow> f32 \<Rightarrow> occ_state \<Rightarrow> (fault + occ_state) option"
where
  "alpha_loop kind sim cache degree alp ca s =
     (if length (occ_dst s) < degree then
        (case occlude_pass kind sim cache degree ca [0..<length cache] s of
           None \<Rightarrow> None
         | Some (Inl e) \<Rightarrow> Some (Inl e)
         | Some (Inr s') \<Rightarrow>
             if f32_eq ca alp then Some (Inr s')
             else alpha_loop kind sim cache degree alp (next_alpha alp ca) s')
      else Some (Inr s))"

declare check_loop.simps [code] alpha_loop.simps [code]

section \<open>Saturation and the whole algorithm\<close>

fun saturate :: "nat \<Rightarrow> ('i \<Rightarrow> bool) \<Rightarrow> 'i neighbor list \<Rightarrow> 'i adjacency_list \<Rightarrow> 'i adjacency_list" where
  "saturate degree exclude [] dst = dst"
| "saturate degree exclude (n # ns) dst =
     (if degree \<le> length dst then dst
      else saturate degree exclude ns (if \<not> exclude (nbr_id n) then snd (al_push (nbr_id n) dst) else dst))"

definition make_cache :: "('i \<Rightarrow> 'v option) \<Rightarrow> ('i \<Rightarrow> bool) \<Rightarrow> 'i neighbor list \<Rightarrow> 'v cache" where
  "make_cache get exclude pool =
     map (\<lambda>n. if exclude (nbr_id n) then (nbr_distance n, None) else (nbr_distance n, get (nbr_id n))) pool"

definition occlude_list ::
  "config \<Rightarrow> ('v \<Rightarrow> 'v \<Rightarrow> f32) \<Rightarrow> ('i \<Rightarrow> 'v option) \<Rightarrow> ('i \<Rightarrow> bool) \<Rightarrow> bool \<Rightarrow> 'i prune_scratch
    \<Rightarrow> (fault + 'i prune_scratch) option"
where
  "occlude_list cfg sim get exclude force_saturate ctx =
     (if ps_pool ctx = [] then Some (Inr ctx)
      else
        let pool = ps_pool ctx;
            alp = alpha cfg;
            degree = pruned_degree cfg;
            s0 = \<lparr>occ_dst = [], occ_factor = replicate (length pool) f32_zero,
                  occ_last = replicate (length pool) 0\<rparr>;
            cache = make_cache get exclude pool
        in case alpha_loop (prune_kind_of cfg) sim cache degree alp f32_one s0 of
             None \<Rightarrow> None
           | Some (Inl e) \<Rightarrow> Some (Inl e)
           | Some (Inr s) \<Rightarrow>
               let dst = map (\<lambda>r. nbr_id (pool ! r)) (occ_dst s);
                   dst' = (if force_saturate \<or> (saturate_after_prune cfg \<and> f32_gt alp f32_one)
                           then saturate degree exclude pool dst else dst)
               in Some (Inr (ctx\<lparr>ps_occlude_factor := occ_factor s, ps_last_checked := occ_last s,
                                 ps_neighbors := dst'\<rparr>)))"

section \<open>The entry points\<close>

text \<open>What pruning uses of an accessor: its distance computer and \<open>fill\<close>, which brings the vectors
  of some identifiers into the working set and returns a view of it.  Both may fail.\<close>

record ('i, 'v, 'w, 'e) prune_accessor =
  pa_computer :: "'e + ('v \<Rightarrow> 'v \<Rightarrow> f32)"
  pa_fill :: "'w \<Rightarrow> 'i list \<Rightarrow> 'e + ('w \<times> ('i \<Rightarrow> 'v option))"

datatype ('i, 'e) list_error = FailedVectorRetrieval 'i | Other 'e | Panic fault

text \<open>The result of an entry point: its value or error, with the scratch space and the working set
  as it leaves them.\<close>

type_synonym ('i, 'w, 'e) prune_result =
  "((('i, 'e) list_error + unit) \<times> 'i prune_scratch \<times> 'w) option"

definition finish_prune :: "'i prune_scratch \<Rightarrow> 'w \<Rightarrow> (fault + 'i prune_scratch) option \<Rightarrow> ('i, 'w, 'e) prune_result" where
  "finish_prune scratch ws r =
     (case r of
        None \<Rightarrow> None
      | Some (Inl f) \<Rightarrow> Some (Inl (Panic f), scratch, ws)
      | Some (Inr scratch') \<Rightarrow> Some (Inr (), scratch', ws))"

definition robust_prune ::
  "config \<Rightarrow> ('i, 'v, 'w, 'e) prune_accessor \<Rightarrow> 'i \<Rightarrow> bool \<Rightarrow> 'i prune_scratch \<Rightarrow> 'w \<Rightarrow> ('i, 'w, 'e) prune_result"
where
  "robust_prune cfg acc location force_saturate context ws =
     (if ps_pool context = [] then Some (Inr (), context, ws)
      else case pa_computer acc of
        Inl e \<Rightarrow> Some (Inl (Other e), context, ws)
      | Inr computer \<Rightarrow>
          (case pa_fill acc ws (map nbr_id (ps_pool context)) of
             Inl e \<Rightarrow> Some (Inl (Other e), context, ws)
           | Inr (ws', view) \<Rightarrow>
               finish_prune context ws'
                 (occlude_list cfg computer view (\<lambda>i. i = location) force_saturate context)))"

definition robust_prune_list ::
  "config \<Rightarrow> ('i, 'v, 'w, 'e) prune_accessor \<Rightarrow> 'i \<Rightarrow> 'i adjacency_list \<Rightarrow> bool \<Rightarrow> 'i prune_scratch \<Rightarrow> 'w
    \<Rightarrow> ('i, 'w, 'e) prune_result"
where
  "robust_prune_list cfg acc location ids force_saturate scratch ws =
     (if ids = [] then Some (Inr (), scratch, ws)
      else case pa_computer acc of
        Inl e \<Rightarrow> Some (Inl (Other e), scratch, ws)
      | Inr computer \<Rightarrow>
          (case pa_fill acc ws (location # ids) of
             Inl e \<Rightarrow> Some (Inl (Other e), scratch, ws)
           | Inr (ws', view) \<Rightarrow>
               (case view location of
                  None \<Rightarrow> Some (Inl (FailedVectorRetrieval location), scratch\<lparr>ps_pool := []\<rparr>, ws')
                | Some v \<Rightarrow>
                    let pool = List.map_filter
                          (\<lambda>i. map_option (\<lambda>other. neighbor_new i (computer v other)) (view i))
                          (filter (\<lambda>i. i \<noteq> location) ids);
                        context = as_context (max_occlusion_size cfg) (scratch\<lparr>ps_pool := pool\<rparr>)
                    in finish_prune context ws'
                         (occlude_list cfg computer view (\<lambda>i. i = location) force_saturate context))))"

text \<open>\<open>robust_prune_with\<close> prunes the visited candidates of a search record together with extra
  candidates; it returns the record as well, which it extends and sorts.\<close>

definition robust_prune_with ::
  "config \<Rightarrow> ('i, 'v, 'w, 'e) prune_accessor \<Rightarrow> 'i \<Rightarrow> 'i list \<Rightarrow> 'i neighbor list \<Rightarrow> bool \<Rightarrow> 'i prune_scratch \<Rightarrow> 'w
    \<Rightarrow> ((('i, 'e) list_error + unit) \<times> 'i neighbor list \<times> 'i prune_scratch \<times> 'w) option"
where
  "robust_prune_with cfg acc internal_id extras visited force_saturate scratch ws =
     (case pa_computer acc of
        Inl e \<Rightarrow> Some (Inl (Other e), visited, scratch, ws)
      | Inr computer \<Rightarrow>
          (case pa_fill acc ws (take (max_occlusion_size cfg) (internal_id # extras @ map nbr_id visited)) of
             Inl e \<Rightarrow> Some (Inl (Other e), visited, scratch, ws)
           | Inr (ws', view) \<Rightarrow>
               if extras \<noteq> [] \<and> view internal_id = None
               then Some (Inl (FailedVectorRetrieval internal_id), visited, scratch, ws')
               else
                 let visited' = visited @ (case view internal_id of
                         None \<Rightarrow> []
                       | Some v \<Rightarrow> List.map_filter
                           (\<lambda>i. map_option (\<lambda>other. neighbor_new i (computer v other)) (view i)) extras);
                     pool = sorted_neighbors visited' (max_occlusion_size cfg);
                     context = \<lparr>ps_pool = pool, ps_occlude_factor = ps_occlude_factor scratch,
                       ps_last_checked = ps_last_checked scratch, ps_neighbors = ps_neighbors scratch\<rparr>
                 in map_option (\<lambda>(r, context', w). (r, pool, context'\<lparr>ps_pool := ps_pool scratch\<rparr>, w))
                      (finish_prune context ws'
                         (occlude_list cfg computer view (\<lambda>i. i = internal_id) force_saturate context))))"

section \<open>The inner loop\<close>

text \<open>A fact about every result compared so far: \<open>j\<close> before \<open>i\<close> in the pool does not occlude \<open>i\<close>
  beyond the bound \<open>b\<close> under the triangle rule.\<close>

definition not_occluded :: "('v \<Rightarrow> 'v \<Rightarrow> f32) \<Rightarrow> 'v cache \<Rightarrow> f32 \<Rightarrow> nat \<Rightarrow> nat \<Rightarrow> bool" where
  "not_occluded sim cache b i j \<longleftrightarrow>
     (case snd (cache ! i) of None \<Rightarrow> False
      | Some v \<Rightarrow>
          let ratio = f32_div (fst (cache ! i)) (result_distance sim cache v j)
          in result_distance sim cache v j \<noteq> f32_zero \<and> (ratio = NaN \<or> ratio \<le> b))"

lemma not_occluded_mono: "not_occluded sim cache b i j \<Longrightarrow> b \<le> b' \<Longrightarrow> not_occluded sim cache b' i j"
  unfolding not_occluded_def Let_def by (auto split: option.splits)

lemma unat_succ_u16: "unat (pos :: 16 word) < n \<Longrightarrow> n < 2 ^ 16 \<Longrightarrow> unat (pos + 1) = unat pos + 1"
  by (simp add: unat_word_ariths)

lemma check_loop_ok:
  assumes "unat pos \<le> length dst" "length dst < 2 ^ 16"
  shows "\<exists>pos' f skip. check_loop kind sim cache ca i d v dst pos factor = Some (Inr (pos', f, skip))
    \<and> unat pos \<le> unat pos' \<and> unat pos' \<le> length dst \<and> (skip \<longrightarrow> f32_gt f ca) \<and> (\<not> skip \<longrightarrow> unat pos' = length dst)"
  using assms(1)
proof (induction "length dst - unat pos" arbitrary: pos factor)
  case 0
  then show ?case by (subst check_loop.simps) auto
next
  case (Suc n)
  then have lt: "unat pos < length dst" by linarith
  note s = unat_succ_u16 [OF lt assms(2)]
  have "n = length dst - unat (pos + 1)" "unat (pos + 1) \<le> length dst" using Suc.hyps(2) lt s by linarith+
  note IH = Suc.hyps(1) [OF this]
  show ?case
  proof (cases "i \<le> dst ! unat pos")
    case True
    with IH [of factor] lt s show ?thesis by (subst check_loop.simps) (auto simp: Let_def)
  next
    case False
    let ?f = "update_occlude_factor kind d (result_distance sim cache v (dst ! unat pos)) factor ca"
    show ?thesis using IH [of ?f] lt s False by (subst check_loop.simps) (auto simp: Let_def)
  qed
qed

text \<open>Under the triangle rule the factor bounds the ratios of all results compared so far.\<close>

lemma check_loop_triangle:
  assumes "unat pos \<le> length dst" "length dst < 2 ^ 16" and ca: "ca < f32_MAX"
    and c: "cache ! i = (d, Some v)" and num: "factor \<noteq> NaN" "factor \<le> ca"
    and pre: "\<forall>p<unat pos. dst ! p < i \<longrightarrow> not_occluded sim cache factor i (dst ! p)"
    and r: "check_loop TriangleInequality sim cache ca i d v dst pos factor = Some (Inr (pos', f, skip))"
  shows "f \<noteq> NaN \<and> (f32_MAX \<le> f \<or> (\<forall>p<unat pos'. dst ! p < i \<longrightarrow> not_occluded sim cache f i (dst ! p)))"
  using assms(1) num pre r
proof (induction "length dst - unat pos" arbitrary: pos factor)
  case 0
  then show ?case by (subst (asm) check_loop.simps) (auto split: if_splits)
next
  case (Suc n)
  then have lt: "unat pos < length dst" by linarith
  note s = unat_succ_u16 [OF lt assms(2)]
  have n: "n = length dst - unat (pos + 1)" "unat (pos + 1) \<le> length dst" using Suc.hyps(2) lt s by linarith+
  note IH = Suc.hyps(1) [OF n]
  have step: "p < unat pos \<or> p = unat pos" if "p < unat (pos + 1)" for p using that s by linarith
  show ?case
  proof (cases "i \<le> dst ! unat pos")
    case True
    with Suc.prems(5) lt have "check_loop TriangleInequality sim cache ca i d v dst (pos + 1) factor = Some (Inr (pos', f, skip))"
      by (subst (asm) check_loop.simps) (simp add: Let_def)
    moreover have "\<forall>p<unat (pos + 1). dst ! p < i \<longrightarrow> not_occluded sim cache factor i (dst ! p)"
      using Suc.prems(4) step True by fastforce
    ultimately show ?thesis using IH Suc.prems by blast
  next
    case False
    let ?dist = "result_distance sim cache v (dst ! unat pos)"
    let ?f = "update_occlude_factor TriangleInequality d ?dist factor ca"
    have f: "?f \<noteq> NaN" using Suc.prems(2) by (simp add: update_occlude_factor_def f32_max_def f32_MAX_def max_def)
    have occ: "f32_MAX \<le> ?f \<or> (\<forall>p<unat (pos + 1). dst ! p < i \<longrightarrow> not_occluded sim cache ?f i (dst ! p))"
    proof (cases "?dist = f32_zero")
      case True
      then show ?thesis by (simp add: update_occlude_factor_def f32_eq_def f32_zero_def)
    next
      case nz: False
      then have fm: "?f = f32_max factor (f32_div d ?dist)" by (simp add: update_occlude_factor_def f32_eq_def)
      have "factor \<le> ?f" using Suc.prems(2) by (simp add: fm f32_max_def)
      moreover have "not_occluded sim cache ?f i (dst ! unat pos)"
        using nz Suc.prems(2) by (auto simp: not_occluded_def c fm f32_max_def Let_def)
      ultimately have "\<forall>p<unat (pos + 1). dst ! p < i \<longrightarrow> not_occluded sim cache ?f i (dst ! p)"
        using Suc.prems(4) step not_occluded_mono by blast
      then show ?thesis ..
    qed
    show ?thesis
    proof (cases "f32_gt ?f ca")
      case True
      with Suc.prems(5) lt False have "pos' = pos + 1" "f = ?f"
        by (subst (asm) check_loop.simps; simp add: Let_def)+
      with occ f show ?thesis by simp
    next
      case ngt: False
      with f ca Suc.prems(3) have le: "?f \<le> ca" by (auto simp: f32_gt_def f32_lt_def f32_MAX_def not_less)
      with occ ca have "\<forall>p<unat (pos + 1). dst ! p < i \<longrightarrow> not_occluded sim cache ?f i (dst ! p)"
        by (meson leD order_trans)
      moreover from Suc.prems(5) lt False ngt
      have "check_loop TriangleInequality sim cache ca i d v dst (pos + 1) ?f = Some (Inr (pos', f, skip))"
        by (subst (asm) check_loop.simps) (simp add: Let_def)
      ultimately show ?thesis using IH f le by blast
    qed
  qed
qed

section \<open>Invariants of the passes\<close>

definition occ_inv :: "'v cache \<Rightarrow> nat \<Rightarrow> occ_state \<Rightarrow> bool" where
  "occ_inv cache degree s \<longleftrightarrow>
     length (occ_factor s) = length cache \<and> length (occ_last s) = length cache
     \<and> length (occ_dst s) \<le> degree \<and> distinct (occ_dst s)
     \<and> (\<forall>j\<in>set (occ_dst s). j < length cache \<and> snd (cache ! j) \<noteq> None)
     \<and> (\<forall>i<length cache. unat (occ_last s ! i) \<le> length (occ_dst s))"

definition tri_inv :: "('v \<Rightarrow> 'v \<Rightarrow> f32) \<Rightarrow> 'v cache \<Rightarrow> f32 \<Rightarrow> occ_state \<Rightarrow> bool" where
  "tri_inv sim cache b s \<longleftrightarrow>
     (\<forall>i<length cache. occ_factor s ! i \<noteq> NaN
        \<and> (f32_MAX \<le> occ_factor s ! i
           \<or> (\<forall>p<unat (occ_last s ! i). occ_dst s ! p < i
                \<longrightarrow> not_occluded sim cache (occ_factor s ! i) i (occ_dst s ! p))))
     \<and> (\<forall>x y. x < y \<and> y < length (occ_dst s) \<and> occ_dst s ! x < occ_dst s ! y
          \<longrightarrow> not_occluded sim cache b (occ_dst s ! y) (occ_dst s ! x))"

lemma f32_MAX_num: "f32_MAX \<noteq> NaN"
  by (simp add: f32_MAX_def)

text \<open>What one step does, as a case distinction with the facts the invariants need.\<close>

lemma occlude_step_cases:
  assumes inv: "occ_inv cache degree s" and i: "i < length cache" and deg: "degree < 2 ^ 16"
  obtains (same) "occlude_step kind sim cache degree ca i s = Some (Inr s)"
        "degree \<le> length (occ_dst s) \<or> f32_gt (occ_factor s ! i) ca"
    | (absent) "occlude_step kind sim cache degree ca i s = Some (Inr (s\<lparr>occ_factor := (occ_factor s)[i := f32_MAX]\<rparr>))"
        "snd (cache ! i) = None"
    | (skip) v pos f where "snd (cache ! i) = Some v" "length (occ_dst s) < degree" "\<not> f32_gt (occ_factor s ! i) ca"
        "check_loop kind sim cache ca i (fst (cache ! i)) v (occ_dst s) (occ_last s ! i) (occ_factor s ! i) = Some (Inr (pos, f, True))
         \<or> check_loop kind sim cache ca i (fst (cache ! i)) v (occ_dst s) (occ_last s ! i) (occ_factor s ! i) = Some (Inr (pos, f, False)) \<and> f32_gt f ca"
        "unat pos \<le> length (occ_dst s)" "f32_gt f ca"
        "occlude_step kind sim cache degree ca i s
           = Some (Inr (s\<lparr>occ_factor := (occ_factor s)[i := f], occ_last := (occ_last s)[i := pos]\<rparr>))"
    | (push) v pos f where "snd (cache ! i) = Some v" "length (occ_dst s) < degree" "\<not> f32_gt (occ_factor s ! i) ca"
        "check_loop kind sim cache ca i (fst (cache ! i)) v (occ_dst s) (occ_last s ! i) (occ_factor s ! i) = Some (Inr (pos, f, False))"
        "unat pos = length (occ_dst s)" "\<not> f32_gt f ca"
        "occlude_step kind sim cache degree ca i s
           = Some (Inr (s\<lparr>occ_factor := (occ_factor s)[i := f32_MAX], occ_last := (occ_last s)[i := pos],
                          occ_dst := snd (al_push i (occ_dst s))\<rparr>))"
proof (cases "degree \<le> length (occ_dst s) \<or> f32_gt (occ_factor s ! i) ca")
  case True
  with same show ?thesis by (auto simp: occlude_step_def)
next
  case f: False
  show ?thesis
  proof (cases "snd (cache ! i)")
    case None
    with f absent show ?thesis by (simp add: occlude_step_def)
  next
    case (Some v)
    have "unat (occ_last s ! i) \<le> length (occ_dst s)" "length (occ_dst s) < 2 ^ 16"
      using inv i deg by (auto simp: occ_inv_def)
    from check_loop_ok [OF this, of kind sim cache ca i "fst (cache ! i)" v "occ_factor s ! i"]
    obtain pos' fac sk where r: "check_loop kind sim cache ca i (fst (cache ! i)) v (occ_dst s) (occ_last s ! i) (occ_factor s ! i)
        = Some (Inr (pos', fac, sk))" "unat pos' \<le> length (occ_dst s)" "sk \<longrightarrow> f32_gt fac ca"
        "\<not> sk \<longrightarrow> unat pos' = length (occ_dst s)"
      by blast
    have st: "occlude_step kind sim cache degree ca i s
        = (if sk \<or> f32_gt fac ca
           then Some (Inr (s\<lparr>occ_factor := (occ_factor s)[i := fac], occ_last := (occ_last s)[i := pos']\<rparr>))
           else Some (Inr (s\<lparr>occ_factor := (occ_factor s)[i := f32_MAX], occ_last := (occ_last s)[i := pos'],
                          occ_dst := snd (al_push i (occ_dst s))\<rparr>)))"
      using f Some r(1) by (simp add: occlude_step_def)
    show ?thesis
    proof (cases "sk \<or> f32_gt fac ca")
      case True
      then show ?thesis using skip [of v pos' fac] Some f r st by (cases sk) auto
    next
      case False
      then show ?thesis using push [of v pos' fac] Some f r st by auto
    qed
  qed
qed

lemma occlude_step_inv:
  assumes inv: "occ_inv cache degree s" and i: "i < length cache" and deg: "degree < 2 ^ 16"
  shows "\<exists>s'. occlude_step kind sim cache degree ca i s = Some (Inr s') \<and> occ_inv cache degree s'
    \<and> prefix (occ_dst s) (occ_dst s')"
  using inv i deg
proof (cases rule: occlude_step_cases [where kind = kind and sim = sim and ca = ca])
  case same
  then show ?thesis using inv by blast
next
  case absent
  then show ?thesis using inv by (simp add: occ_inv_def)
next
  case (skip v pos f)
  then show ?thesis using inv i by (auto simp: occ_inv_def nth_list_update)
next
  case (push v pos f)
  then show ?thesis using inv i
    by (auto simp: occ_inv_def al_push_def nth_list_update intro: le_SucI)
qed

lemma occlude_step_tri:
  assumes inv: "occ_inv cache degree s" and tri: "tri_inv sim cache b s"
    and i: "i < length cache" and deg: "degree < 2 ^ 16" and ca: "ca < f32_MAX" "ca \<le> b"
    and st: "occlude_step TriangleInequality sim cache degree ca i s = Some (Inr s')"
  shows "tri_inv sim cache b s'"
  using inv i deg
proof (cases rule: occlude_step_cases [where kind = TriangleInequality and sim = sim and ca = ca])
  case same
  then show ?thesis using tri st by simp
next
  case absent
  then have s': "s' = s\<lparr>occ_factor := (occ_factor s)[i := f32_MAX]\<rparr>" using st by simp
  show ?thesis using tri inv i unfolding s' by (auto simp: tri_inv_def occ_inv_def nth_list_update f32_MAX_num)
next
  case (skip v pos f)
  then have s': "s' = s\<lparr>occ_factor := (occ_factor s)[i := f], occ_last := (occ_last s)[i := pos]\<rparr>"
    using st by simp
  obtain skp where r: "check_loop TriangleInequality sim cache ca i (fst (cache ! i)) v (occ_dst s) (occ_last s ! i) (occ_factor s ! i)
      = Some (Inr (pos, f, skp))" using skip(4) by blast
  have "f \<noteq> NaN \<and> (f32_MAX \<le> f \<or> (\<forall>p<unat pos. occ_dst s ! p < i \<longrightarrow> not_occluded sim cache f i (occ_dst s ! p)))"
  proof (rule check_loop_triangle [OF _ _ ca(1) _ _ _ _ r])
    show "unat (occ_last s ! i) \<le> length (occ_dst s)" "length (occ_dst s) < 2 ^ 16"
      using inv i deg by (auto simp: occ_inv_def)
    show "cache ! i = (fst (cache ! i), Some v)" using skip(1) by (metis prod.collapse)
    show n: "occ_factor s ! i \<noteq> NaN" using tri i by (simp add: tri_inv_def)
    show le: "occ_factor s ! i \<le> ca" using skip(3) n ca(1) by (auto simp: f32_gt_def f32_lt_def f32_MAX_def)
    show "\<forall>p<unat (occ_last s ! i). occ_dst s ! p < i \<longrightarrow> not_occluded sim cache (occ_factor s ! i) i (occ_dst s ! p)"
      using tri i le ca(1) unfolding tri_inv_def by (meson leD le_less_trans)
  qed
  then show ?thesis using tri inv i unfolding s'
    by (auto simp: tri_inv_def occ_inv_def nth_list_update)
next
  case (push v pos f)
  let ?d = "occ_dst s"
  have n: "occ_factor s ! i \<noteq> NaN" using tri i by (simp add: tri_inv_def)
  have le: "occ_factor s ! i \<le> ca" using push(3) n ca(1) by (auto simp: f32_gt_def f32_lt_def f32_MAX_def)
  have "f \<noteq> NaN \<and> (f32_MAX \<le> f \<or> (\<forall>p<unat pos. ?d ! p < i \<longrightarrow> not_occluded sim cache f i (?d ! p)))"
  proof (rule check_loop_triangle [OF _ _ ca(1) _ n le _ push(4)])
    show "unat (occ_last s ! i) \<le> length ?d" "length ?d < 2 ^ 16" using inv i deg by (auto simp: occ_inv_def)
    show "cache ! i = (fst (cache ! i), Some v)" using push(1) by (metis prod.collapse)
    show "\<forall>p<unat (occ_last s ! i). ?d ! p < i \<longrightarrow> not_occluded sim cache (occ_factor s ! i) i (?d ! p)"
      using tri i le ca(1) unfolding tri_inv_def by (meson leD le_less_trans)
  qed
  moreover from this push(6) ca(1) have fle: "f \<le> ca" by (auto simp: f32_gt_def f32_lt_def f32_MAX_def)
  ultimately have new: "\<forall>p<length ?d. ?d ! p < i \<longrightarrow> not_occluded sim cache b i (?d ! p)"
    using push(5) ca not_occluded_mono by (metis leD le_less_trans order_trans)
  define d' where "d' = snd (al_push i ?d)"
  have d': "d' = ?d \<or> d' = ?d @ [i]" by (simp add: d'_def al_push_def)
  have s': "s' = s\<lparr>occ_factor := (occ_factor s)[i := f32_MAX], occ_last := (occ_last s)[i := pos], occ_dst := d'\<rparr>"
    using st push(7) by (simp add: d'_def)
  have old: "\<forall>p<length ?d. d' ! p = ?d ! p" using d' by (auto simp: nth_append)
  have "not_occluded sim cache b (d' ! y) (d' ! x)" if "x < y" "y < length d'" "d' ! x < d' ! y" for x y
  proof (cases "y < length ?d")
    case True
    then show ?thesis using tri old that unfolding tri_inv_def by simp
  next
    case False
    with that d' have y: "y = length ?d" "d' = ?d @ [i]" by auto
    then have "d' ! y = i" by simp
    then show ?thesis using new that old y by simp
  qed
  moreover have "d' ! p = ?d ! p" if "j < length cache" "p < unat (occ_last s ! j)" for j p
    using inv old that unfolding occ_inv_def by (meson order_less_le_trans)
  ultimately show ?thesis using tri inv i old unfolding s'
    by (auto simp: tri_inv_def occ_inv_def nth_list_update f32_MAX_num)
qed

section \<open>Passes and the loop over alpha\<close>

lemma occlude_pass_induct:
  assumes "\<And>i s. i \<in> set js \<Longrightarrow> P s \<Longrightarrow> \<exists>s'. occlude_step kind sim cache degree ca i s = Some (Inr s') \<and> P s'" and "P s"
  shows "\<exists>s'. occlude_pass kind sim cache degree ca js s = Some (Inr s') \<and> P s'"
  using assms
proof (induction js arbitrary: s)
  case Nil
  then show ?case by simp
next
  case (Cons i js)
  from Cons.prems(1) [of i s] Cons.prems(2) obtain t
    where t: "occlude_step kind sim cache degree ca i s = Some (Inr t)" "P t" by auto
  have "\<exists>s'. occlude_pass kind sim cache degree ca js t = Some (Inr s') \<and> P s'"
    using Cons.IH [OF _ t(2)] Cons.prems(1) by auto
  with t(1) show ?case by simp
qed

lemma alpha_loop_induct:
  assumes "(next_alpha alp ^^ n) ca = alp" and num: "alp \<noteq> NaN" and "P s" "Q ca"
    and pass: "\<And>ca s. Q ca \<Longrightarrow> P s \<Longrightarrow>
      \<exists>s'. occlude_pass kind sim cache degree ca [0..<length cache] s = Some (Inr s') \<and> P s'"
    and Q: "\<And>ca. Q ca \<Longrightarrow> Q (next_alpha alp ca)"
  shows "\<exists>s'. alpha_loop kind sim cache degree alp ca s = Some (Inr s') \<and> P s'"
  using assms(1,3,4)
proof (induction n arbitrary: ca s)
  case 0
  from pass [OF 0(3,2)] obtain s' where "occlude_pass kind sim cache degree ca [0..<length cache] s = Some (Inr s')" "P s'" by blast
  with 0 num show ?case by (subst alpha_loop.simps) (simp add: f32_eq_def)
next
  case (Suc n)
  from pass [OF Suc.prems(3,2)] obtain s' where s': "occlude_pass kind sim cache degree ca [0..<length cache] s = Some (Inr s')" "P s'" by blast
  have "(next_alpha alp ^^ n) (next_alpha alp ca) = alp"
    using Suc.prems(1) by (simp add: funpow_swap1)
  from Suc.IH [OF this s'(2) Q [OF Suc.prems(3)]] show ?case using s' Suc.prems(2)
    by (subst alpha_loop.simps) auto
qed

text \<open>The values of alpha: they start at 1 and reach the configured one.\<close>

lemma f32_lit_12_10: "f32_lit 12 10 = Fin 856348649651812620728817928007157825006469120"
  by code_simp

lemma f32_mul_grows:
  assumes "f32_scale \<le> k"
  shows "f32_mul (Fin k) (f32_lit 12 10) = PosInf
    \<or> (\<exists>k'. f32_mul (Fin k) (f32_lit 12 10) = Fin k' \<and> k < k' \<and> k' < 2 ^ 277)"
proof (cases "round_mag (k * 856348649651812620728817928007157825006469120) f32_scale")
  case None
  then show ?thesis using assms by (simp add: f32_lit_12_10 round_frac_def abs_mult)
next
  case (Some m)
  have "7 * (k * 856348649651812620728817928007157825006469120) \<le> 8 * (m * f32_scale)"
    by (rule round_mag_lower [OF _ _ Some]) (use assms in simp_all)
  then have "k < m" using assms by simp
  moreover have "m < 2 ^ 277" using Some by (auto simp: round_mag_def Let_def split: if_splits)
  ultimately show ?thesis using assms Some by (simp add: f32_lit_12_10 round_frac_def abs_mult)
qed

lemma alpha_reached_above:
  assumes alp: "f32_lit 12 10 < alp" "alp \<noteq> NaN" and "f32_scale \<le> k" "k < 2 ^ 277"
  shows "\<exists>n. (next_alpha alp ^^ n) (Fin k) = alp"
  using assms(3,4)
proof (induction "nat (2 ^ 277 - k)" arbitrary: k rule: less_induct)
  case less
  have inc: "f32_min alp (f32_lit 12 10) = f32_lit 12 10"
    using alp by (auto simp: f32_min_def f32_lit_12_10 min_def)
  from f32_mul_grows [OF less.prems(1)] show ?case
  proof (elim disjE exE conjE)
    assume "f32_mul (Fin k) (f32_lit 12 10) = PosInf"
    then have "next_alpha alp (Fin k) = f32_min PosInf alp" by (simp only: next_alpha_def inc)
    then have "next_alpha alp (Fin k) = alp" using alp(2) by (cases alp) (simp_all add: f32_min_def min_def less_eq_f32_def)
    then show ?thesis by (intro exI [of _ 1]) simp
  next
    fix k' assume k': "f32_mul (Fin k) (f32_lit 12 10) = Fin k'" "k < k'" "k' < 2 ^ 277"
    have nx: "next_alpha alp (Fin k) = f32_min (Fin k') alp" by (simp only: next_alpha_def inc k'(1))
    show ?thesis
    proof (cases "alp \<le> Fin k'")
      case True
      then have "next_alpha alp (Fin k) = alp" using alp(2) by (auto simp: nx f32_min_def min_def)
      then show ?thesis by (intro exI [of _ 1]) simp
    next
      case False
      then have n: "next_alpha alp (Fin k) = Fin k'" using alp(2) by (auto simp: nx f32_min_def min_def)
      have "\<exists>n. (next_alpha alp ^^ n) (Fin k') = alp"
        by (rule less.hyps) (use k' less.prems in auto)
      then obtain m where "(next_alpha alp ^^ m) (Fin k') = alp" ..
      then have "(next_alpha alp ^^ Suc m) (Fin k) = alp" by (simp add: funpow_swap1 n)
      then show ?thesis ..
    qed
  qed
qed

lemma alpha_reached:
  assumes "alp \<noteq> NaN" "f32_wf alp"
  shows "\<exists>n. (next_alpha alp ^^ n) f32_one = alp"
proof (cases "f32_lit 12 10 < alp")
  case True
  show ?thesis unfolding f32_one_def by (rule alpha_reached_above [OF True assms(1)]) simp_all
next
  case False
  then have "f32_min alp (f32_lit 12 10) = alp"
    using assms(1) by (auto simp: f32_min_def f32_lit_12_10 min_def)
  then have "next_alpha alp f32_one = alp"
    using assms by (simp add: next_alpha_def f32_mul_one f32_min_def)
  then show ?thesis by (intro exI [of _ 1]) simp
qed

lemma next_alpha_le: "alp \<noteq> NaN \<Longrightarrow> next_alpha alp ca \<le> alp"
  by (simp add: next_alpha_def f32_min_def)

section \<open>The result of \<open>occlude_list\<close>\<close>

lemma length_make_cache [simp]: "length (make_cache get exclude pool) = length pool"
  by (simp add: make_cache_def)

lemma make_cache_nth:
  "i < length pool \<Longrightarrow> make_cache get exclude pool ! i =
     (nbr_distance (pool ! i), if exclude (nbr_id (pool ! i)) then None else get (nbr_id (pool ! i)))"
  by (simp add: make_cache_def)

definition occ_start :: "nat \<Rightarrow> occ_state" where
  "occ_start n = \<lparr>occ_dst = [], occ_factor = replicate n f32_zero, occ_last = replicate n 0\<rparr>"

lemma occ_inv_start: "occ_inv cache degree (occ_start (length cache))"
  by (simp add: occ_inv_def occ_start_def)

lemma tri_inv_start: "tri_inv sim cache b (occ_start (length cache))"
  by (simp add: tri_inv_def occ_start_def f32_zero_def)

lemma alpha_loop_inv:
  assumes "alp \<noteq> NaN" "f32_wf alp" "degree < 2 ^ 16"
  shows "\<exists>s. alpha_loop kind sim cache degree alp f32_one (occ_start (length cache)) = Some (Inr s) \<and> occ_inv cache degree s"
proof -
  obtain n where "(next_alpha alp ^^ n) f32_one = alp" using alpha_reached [OF assms(1,2)] by blast
  then show ?thesis using assms(1) occ_inv_start
  proof (rule alpha_loop_induct [where Q = "\<lambda>_. True"])
    fix ca s assume "occ_inv cache degree s"
    then show "\<exists>s'. occlude_pass kind sim cache degree ca [0..<length cache] s = Some (Inr s') \<and> occ_inv cache degree s'"
      using occlude_step_inv [OF _ _ assms(3)] by (intro occlude_pass_induct) (auto, blast)
  qed simp_all
qed

lemma alpha_loop_tri:
  assumes "alp < f32_MAX" "f32_wf alp" "degree < 2 ^ 16"
  shows "\<exists>s. alpha_loop TriangleInequality sim cache degree alp f32_one (occ_start (length cache)) = Some (Inr s)
    \<and> occ_inv cache degree s \<and> tri_inv sim cache (max f32_one alp) s"
proof -
  have num: "alp \<noteq> NaN" using assms(1) by (auto simp: f32_MAX_def less_f32_def)
  obtain n where "(next_alpha alp ^^ n) f32_one = alp" using alpha_reached [OF num assms(2)] by blast
  then show ?thesis using num
  proof (rule alpha_loop_induct [where Q = "\<lambda>ca. ca < f32_MAX \<and> ca \<le> max f32_one alp"])
    show "occ_inv cache degree (occ_start (length cache)) \<and> tri_inv sim cache (max f32_one alp) (occ_start (length cache))"
      by (simp add: occ_inv_start tri_inv_start)
    show "f32_one < f32_MAX \<and> f32_one \<le> max f32_one alp" by (simp add: f32_one_def f32_MAX_def)
    fix ca assume "ca < f32_MAX \<and> ca \<le> max f32_one alp"
    show "next_alpha alp ca < f32_MAX \<and> next_alpha alp ca \<le> max f32_one alp"
      using next_alpha_le [OF num, of ca] assms(1) by (auto intro: max.coboundedI2)
  next
    fix ca s assume Q: "ca < f32_MAX \<and> ca \<le> max f32_one alp"
      and P: "occ_inv cache degree s \<and> tri_inv sim cache (max f32_one alp) s"
    show "\<exists>s'. occlude_pass TriangleInequality sim cache degree ca [0..<length cache] s = Some (Inr s')
        \<and> occ_inv cache degree s' \<and> tri_inv sim cache (max f32_one alp) s'"
    proof (rule occlude_pass_induct [where P = "\<lambda>s. occ_inv cache degree s \<and> tri_inv sim cache (max f32_one alp) s", OF _ P])
      fix i s assume i: "i \<in> set [0..<length cache]" and P: "occ_inv cache degree s \<and> tri_inv sim cache (max f32_one alp) s"
      then have "i < length cache" by simp
      with occlude_step_inv [OF _ this assms(3), of s TriangleInequality sim ca] P
        occlude_step_tri [OF _ _ this assms(3), of s sim "max f32_one alp" ca] Q
      show "\<exists>s'. occlude_step TriangleInequality sim cache degree ca i s = Some (Inr s')
          \<and> occ_inv cache degree s' \<and> tri_inv sim cache (max f32_one alp) s'" by blast
    qed
  qed
qed

lemma saturate_props:
  "length dst \<le> degree \<Longrightarrow> length (saturate degree exclude ns dst) \<le> degree"
  "distinct dst \<Longrightarrow> distinct (saturate degree exclude ns dst)"
  "set (saturate degree exclude ns dst) \<subseteq> set dst \<union> {nbr_id n | n. n \<in> set ns \<and> \<not> exclude (nbr_id n)}"
  "prefix dst (saturate degree exclude ns dst)"
proof -
  show "length dst \<le> degree \<Longrightarrow> length (saturate degree exclude ns dst) \<le> degree"
    by (induction ns arbitrary: dst) (auto simp: al_push_def)
  show "distinct dst \<Longrightarrow> distinct (saturate degree exclude ns dst)"
    by (induction ns arbitrary: dst) (auto simp: al_push_def)
  show "set (saturate degree exclude ns dst) \<subseteq> set dst \<union> {nbr_id n | n. n \<in> set ns \<and> \<not> exclude (nbr_id n)}"
  proof (induction ns arbitrary: dst)
    case (Cons n ns)
    let ?dst = "if \<not> exclude (nbr_id n) then snd (al_push (nbr_id n) dst) else dst"
    have "set ?dst \<subseteq> set dst \<union> {nbr_id m | m. m \<in> set (n # ns) \<and> \<not> exclude (nbr_id m)}"
      by (auto simp: al_push_def)
    with Cons.IH [of ?dst] show ?case by auto
  qed simp
  show "prefix dst (saturate degree exclude ns dst)"
  proof (induction ns arbitrary: dst)
    case (Cons n ns)
    have "prefix dst (if \<not> exclude (nbr_id n) then snd (al_push (nbr_id n) dst) else dst)"
      by (simp add: al_push_def)
    with Cons.IH show ?case by (auto intro: prefix_order.trans)
  qed simp
qed

lemma occlude_list_run:
  assumes "ps_pool ctx \<noteq> []"
    and "alpha_loop (prune_kind_of cfg) sim (make_cache get exclude (ps_pool ctx)) (pruned_degree cfg) (alpha cfg) f32_one
      (occ_start (length (ps_pool ctx))) = Some (Inr s)"
  shows "occlude_list cfg sim get exclude force ctx = Some (Inr (ctx\<lparr>ps_occlude_factor := occ_factor s,
      ps_last_checked := occ_last s,
      ps_neighbors := (let dst = map (\<lambda>r. nbr_id (ps_pool ctx ! r)) (occ_dst s) in
        if force \<or> (saturate_after_prune cfg \<and> f32_gt (alpha cfg) f32_one)
        then saturate (pruned_degree cfg) exclude (ps_pool ctx) dst else dst)\<rparr>))"
  using assms by (simp add: occlude_list_def Let_def occ_start_def)

text \<open>The configurations for which pruning is known to end.\<close>

definition prunable :: "config \<Rightarrow> bool" where
  "prunable cfg \<longleftrightarrow> alpha cfg \<noteq> NaN \<and> f32_wf (alpha cfg) \<and> pruned_degree cfg < 2 ^ 16"

lemma occlude_list_spec:
  assumes "alpha cfg \<noteq> NaN" "f32_wf (alpha cfg)" "pruned_degree cfg < 2 ^ 16"
  shows "\<exists>ctx'. occlude_list cfg sim get exclude force ctx = Some (Inr ctx')
    \<and> ps_pool ctx' = ps_pool ctx
    \<and> (ps_pool ctx \<noteq> [] \<longrightarrow>
        length (ps_neighbors ctx') \<le> pruned_degree cfg
        \<and> set (ps_neighbors ctx') \<subseteq> {nbr_id n | n. n \<in> set (ps_pool ctx) \<and> \<not> exclude (nbr_id n)}
        \<and> (distinct (map nbr_id (ps_pool ctx)) \<longrightarrow> distinct (ps_neighbors ctx'))
        \<and> (\<not> force \<and> \<not> saturate_after_prune cfg \<longrightarrow> (\<forall>i\<in>set (ps_neighbors ctx'). get i \<noteq> None)))"
proof (cases "ps_pool ctx = []")
  case True
  then show ?thesis by (simp add: occlude_list_def)
next
  case False
  let ?pool = "ps_pool ctx"
  let ?cache = "make_cache get exclude ?pool"
  from alpha_loop_inv [OF assms, of "prune_kind_of cfg" sim ?cache] obtain s where
    s: "alpha_loop (prune_kind_of cfg) sim ?cache (pruned_degree cfg) (alpha cfg) f32_one (occ_start (length ?pool)) = Some (Inr s)"
    and inv: "occ_inv ?cache (pruned_degree cfg) s" by auto
  let ?dst = "map (\<lambda>r. nbr_id (?pool ! r)) (occ_dst s)"
  have pos: "\<forall>r\<in>set (occ_dst s). r < length ?pool \<and> \<not> exclude (nbr_id (?pool ! r)) \<and> get (nbr_id (?pool ! r)) \<noteq> None"
    using inv by (auto simp: occ_inv_def make_cache_nth split: if_splits)
  have sub: "set ?dst \<subseteq> {nbr_id n | n. n \<in> set ?pool \<and> \<not> exclude (nbr_id n)}" using pos by auto
  have len: "length ?dst \<le> pruned_degree cfg" using inv by (simp add: occ_inv_def)
  have dis: "distinct ?dst" if "distinct (map nbr_id ?pool)"
  proof -
    have "inj_on (\<lambda>r. nbr_id (?pool ! r)) (set (occ_dst s))"
    proof (rule inj_onI)
      fix x y assume "x \<in> set (occ_dst s)" "y \<in> set (occ_dst s)" "nbr_id (?pool ! x) = nbr_id (?pool ! y)"
      then show "x = y" using pos that by (metis (no_types, lifting) length_map nth_eq_iff_index_eq nth_map)
    qed
    then show ?thesis using inv by (simp add: occ_inv_def distinct_map)
  qed
  note sat = saturate_props [where ns = ?pool and dst = ?dst and degree = "pruned_degree cfg" and exclude = exclude]
  have satsub: "set (saturate (pruned_degree cfg) exclude ?pool ?dst) \<subseteq> {nbr_id n | n. n \<in> set ?pool \<and> \<not> exclude (nbr_id n)}"
    using sat(3) sub by blast
  show ?thesis unfolding occlude_list_run [OF False s]
    using False sub len dis pos sat(1,2) satsub by (simp add: Let_def)
qed

text \<open>A list of neighbors that pruning may produce.\<close>

definition pruned_from :: "config \<Rightarrow> 'i set \<Rightarrow> 'i list \<Rightarrow> bool" where
  "pruned_from cfg S ns \<longleftrightarrow> length ns \<le> pruned_degree cfg \<and> distinct ns \<and> set ns \<subseteq> S"

lemma pruned_from_mono: "pruned_from cfg S ns \<Longrightarrow> S \<subseteq> T \<Longrightarrow> pruned_from cfg T ns"
  by (auto simp: pruned_from_def)

lemma distinct_pool:
  assumes "distinct ids"
  shows "distinct (map nbr_id (sorted_neighbors (List.map_filter (\<lambda>i. map_option (\<lambda>w. neighbor_new i (f w)) (view i)) ids) m))"
    "set (map nbr_id (sorted_neighbors (List.map_filter (\<lambda>i. map_option (\<lambda>w. neighbor_new i (f w)) (view i)) ids) m))
       \<subseteq> {i \<in> set ids. view i \<noteq> None}"
proof -
  let ?pool = "List.map_filter (\<lambda>i. map_option (\<lambda>w. neighbor_new i (f w)) (view i)) ids"
  have ids: "map nbr_id ?pool = filter (\<lambda>i. view i \<noteq> None) ids"
    by (induction ids) (auto simp: List.map_filter_simps)
  have "mset (map nbr_id (sort_key nbr_distance ?pool)) = mset (map nbr_id ?pool)" by simp
  then have m: "mset (map nbr_id (sort_key nbr_distance ?pool)) = mset (filter (\<lambda>i. view i \<noteq> None) ids)"
    by (simp only: ids)
  have "distinct (map nbr_id (sort_key nbr_distance ?pool))"
    unfolding mset_eq_imp_distinct_iff [OF m] using assms by simp
  moreover have "set (map nbr_id (sort_key nbr_distance ?pool)) = {i \<in> set ids. view i \<noteq> None}"
    using mset_eq_setD [OF m] by (simp only: set_filter)
  ultimately have "distinct (map nbr_id (sort_key nbr_distance ?pool))"
    "set (map nbr_id (sort_key nbr_distance ?pool)) \<subseteq> {i \<in> set ids. view i \<noteq> None}" by simp_all
  then show "distinct (map nbr_id (sorted_neighbors ?pool m))"
    "set (map nbr_id (sorted_neighbors ?pool m)) \<subseteq> {i \<in> set ids. view i \<noteq> None}"
    unfolding sorted_neighbors_def take_map [symmetric]
    by (blast intro: distinct_take, meson order_trans set_take_subset)
qed

text \<open>What \<open>robust_prune_list\<close> leaves: a pruned list, or the list that was there before.\<close>

lemma robust_prune_list_spec:
  assumes cfg: "prunable cfg" and ids: "distinct ids"
  obtains r sc' ws' where "robust_prune_list cfg acc location ids force sc ws = Some (r, sc', ws')"
    "\<And>f. r \<noteq> Inl (Panic f)" "ps_neighbors sc' = ps_neighbors sc \<or> pruned_from cfg (set ids - {location}) (ps_neighbors sc')"
    "r \<noteq> Inr () \<Longrightarrow> ps_neighbors sc' = ps_neighbors sc"
proof (cases "ids = []")
  case True
  then show thesis by (intro that) (auto simp: robust_prune_list_def)
next
  case ne: False
  show thesis
  proof (cases "pa_computer acc")
    case (Inl e)
    with ne show thesis by (intro that) (auto simp: robust_prune_list_def)
  next
    case c: (Inr computer)
    show thesis
    proof (cases "pa_fill acc ws (location # ids)")
      case (Inl e)
      with ne c show thesis by (intro that) (auto simp: robust_prune_list_def)
    next
      case (Inr wv)
      obtain ws' view where f: "pa_fill acc ws (location # ids) = Inr (ws', view)" using Inr by (cases wv) auto
      show thesis
      proof (cases "view location")
        case None
        with ne c f show thesis
          by (intro that [of "Inl (FailedVectorRetrieval location)" "sc\<lparr>ps_pool := []\<rparr>" ws'])
            (auto simp: robust_prune_list_def)
      next
        case v: (Some v)
        let ?pool = "List.map_filter (\<lambda>i. map_option (\<lambda>other. neighbor_new i (computer v other)) (view i))
            (filter (\<lambda>i. i \<noteq> location) ids)"
        let ?ctx = "as_context (max_occlusion_size cfg) (sc\<lparr>ps_pool := ?pool\<rparr>)"
        have run: "robust_prune_list cfg acc location ids force sc ws =
            finish_prune ?ctx ws' (occlude_list cfg computer view (\<lambda>i. i = location) force ?ctx)"
          using ne c f v by (simp add: robust_prune_list_def Let_def)
        have pool: "ps_pool ?ctx = sorted_neighbors ?pool (max_occlusion_size cfg)" "ps_neighbors ?ctx = ps_neighbors sc"
          by (simp_all add: as_context_def)
        note d = distinct_pool [of "filter (\<lambda>i. i \<noteq> location) ids" "computer v" view "max_occlusion_size cfg"]
        have "distinct (map nbr_id (ps_pool ?ctx))" "nbr_id ` set (ps_pool ?ctx) \<subseteq> set ids - {location}"
          using d ids unfolding pool by auto
        moreover from occlude_list_spec [of cfg computer view "\<lambda>i. i = location" force ?ctx] cfg obtain ctx' where
          oc: "occlude_list cfg computer view (\<lambda>i. i = location) force ?ctx = Some (Inr ctx')"
          "ps_pool ?ctx \<noteq> [] \<longrightarrow> length (ps_neighbors ctx') \<le> pruned_degree cfg
            \<and> set (ps_neighbors ctx') \<subseteq> {nbr_id n | n. n \<in> set (ps_pool ?ctx) \<and> nbr_id n \<noteq> location}
            \<and> (distinct (map nbr_id (ps_pool ?ctx)) \<longrightarrow> distinct (ps_neighbors ctx'))"
          by (auto simp: prunable_def)
        moreover from oc have "ps_neighbors ctx' = ps_neighbors sc" if "ps_pool ?ctx = []"
          using that pool(2) by (auto simp: occlude_list_def)
        ultimately have "robust_prune_list cfg acc location ids force sc ws = Some (Inr (), ctx', ws')"
          "ps_neighbors ctx' = ps_neighbors sc \<or> pruned_from cfg (set ids - {location}) (ps_neighbors ctx')"
          unfolding run pruned_from_def by (simp add: finish_prune_def, blast)
        then show thesis by (intro that [of "Inr ()" ctx' ws']) simp_all
      qed
    qed
  qed
qed

lemma sorted_neighbors_ids:
  assumes "distinct (map nbr_id ns)"
  shows "distinct (map nbr_id (sorted_neighbors ns m))" "set (map nbr_id (sorted_neighbors ns m)) \<subseteq> nbr_id ` set ns"
proof -
  have m: "mset (map nbr_id (sort_key nbr_distance ns)) = mset (map nbr_id ns)" by simp
  have "distinct (map nbr_id (sort_key nbr_distance ns))" unfolding mset_eq_imp_distinct_iff [OF m] by (rule assms)
  then show "distinct (map nbr_id (sorted_neighbors ns m))"
    unfolding sorted_neighbors_def take_map [symmetric] by (rule distinct_take)
  show "set (map nbr_id (sorted_neighbors ns m)) \<subseteq> nbr_id ` set ns"
    using set_take_subset [of m "sort_key nbr_distance ns"] by (auto simp: sorted_neighbors_def)
qed

text \<open>The same for a pool of candidates.\<close>

lemma occlude_list_pruned:
  assumes cfg: "prunable cfg" and pool: "distinct (map nbr_id (ps_pool ctx))"
  obtains ctx' where "occlude_list cfg computer view (\<lambda>i. i = location) force ctx = Some (Inr ctx')"
    "ps_neighbors ctx' = ps_neighbors ctx \<or> pruned_from cfg (nbr_id ` set (ps_pool ctx) - {location}) (ps_neighbors ctx')"
proof -
  from occlude_list_spec [of cfg computer view "\<lambda>i. i = location" force ctx] cfg obtain ctx' where
    oc: "occlude_list cfg computer view (\<lambda>i. i = location) force ctx = Some (Inr ctx')"
    "ps_pool ctx \<noteq> [] \<longrightarrow> length (ps_neighbors ctx') \<le> pruned_degree cfg
      \<and> set (ps_neighbors ctx') \<subseteq> {nbr_id n | n. n \<in> set (ps_pool ctx) \<and> nbr_id n \<noteq> location}
      \<and> (distinct (map nbr_id (ps_pool ctx)) \<longrightarrow> distinct (ps_neighbors ctx'))"
    by (auto simp: prunable_def)
  moreover from oc have "ps_neighbors ctx' = ps_neighbors ctx" if "ps_pool ctx = []"
    using that by (auto simp: occlude_list_def)
  ultimately have "ps_neighbors ctx' = ps_neighbors ctx \<or> pruned_from cfg (nbr_id ` set (ps_pool ctx) - {location}) (ps_neighbors ctx')"
    using pool unfolding pruned_from_def by blast
  with oc(1) show thesis by (rule that)
qed

lemma robust_prune_spec:
  assumes cfg: "prunable cfg" and pool: "distinct (map nbr_id (ps_pool ctx))"
  obtains r ctx' ws' where "robust_prune cfg acc location force ctx ws = Some (r, ctx', ws')"
    "\<And>f. r \<noteq> Inl (Panic f)"
    "ps_neighbors ctx' = ps_neighbors ctx \<or> pruned_from cfg (nbr_id ` set (ps_pool ctx) - {location}) (ps_neighbors ctx')"
proof (cases "ps_pool ctx = []")
  case True
  then show thesis by (intro that [of "Inr ()" ctx ws]) (auto simp: robust_prune_def)
next
  case ne: False
  show thesis
  proof (cases "pa_computer acc")
    case (Inl e)
    with ne show thesis by (intro that [of "Inl (Other e)" ctx ws]) (auto simp: robust_prune_def)
  next
    case c: (Inr computer)
    show thesis
    proof (cases "pa_fill acc ws (map nbr_id (ps_pool ctx))")
      case (Inl e)
      with ne c show thesis by (intro that [of "Inl (Other e)" ctx ws]) (auto simp: robust_prune_def)
    next
      case (Inr wv)
      obtain ws' view where f: "wv = (ws', view)" by fastforce
      obtain ctx' where "occlude_list cfg computer view (\<lambda>i. i = location) force ctx = Some (Inr ctx')"
        "ps_neighbors ctx' = ps_neighbors ctx \<or> pruned_from cfg (nbr_id ` set (ps_pool ctx) - {location}) (ps_neighbors ctx')"
        by (rule occlude_list_pruned [OF cfg pool])
      with ne c Inr f show thesis
        by (intro that [of "Inr ()" ctx' ws']) (auto simp: robust_prune_def finish_prune_def)
    qed
  qed
qed

lemma map_filter_ids: "map nbr_id (List.map_filter (\<lambda>i. map_option (\<lambda>w. neighbor_new i (f w)) (view i)) ids) = filter (\<lambda>i. view i \<noteq> None) ids"
  by (induction ids) (auto simp: List.map_filter_simps)

lemma robust_prune_with_spec:
  assumes cfg: "prunable cfg" and ids: "distinct (map nbr_id vis)" "distinct extras" "set extras \<inter> nbr_id ` set vis = {}"
  obtains r vis' sc' ws' where "robust_prune_with cfg acc location extras vis force sc ws = Some (r, vis', sc', ws')"
    "\<And>f. r \<noteq> Inl (Panic f)"
    "ps_neighbors sc' = ps_neighbors sc \<or> pruned_from cfg (nbr_id ` set vis \<union> set extras - {location}) (ps_neighbors sc')"
proof (cases "pa_computer acc")
  case (Inl e)
  then show thesis by (intro that [of "Inl (Other e)" vis sc ws]) (auto simp: robust_prune_with_def)
next
  case c: (Inr computer)
  let ?fill = "pa_fill acc ws (take (max_occlusion_size cfg) (location # extras @ map nbr_id vis))"
  show thesis
  proof (cases ?fill)
    case (Inl e)
    with c show thesis by (intro that [of "Inl (Other e)" vis sc ws]) (auto simp: robust_prune_with_def)
  next
    case (Inr wv)
    obtain ws' view where f: "wv = (ws', view)" by fastforce
    show thesis
    proof (cases "extras \<noteq> [] \<and> view location = None")
      case True
      with c Inr f show thesis
        by (intro that [of "Inl (FailedVectorRetrieval location)" vis sc ws']) (auto simp: robust_prune_with_def)
    next
      case False
      define new where "new = (case view location of None \<Rightarrow> []
        | Some v \<Rightarrow> List.map_filter (\<lambda>i. map_option (\<lambda>other. neighbor_new i (computer v other)) (view i)) extras)"
      let ?pool = "sorted_neighbors (vis @ new) (max_occlusion_size cfg)"
      let ?ctx = "\<lparr>ps_pool = ?pool, ps_occlude_factor = ps_occlude_factor sc, ps_last_checked = ps_last_checked sc,
        ps_neighbors = ps_neighbors sc\<rparr>"
      have "map nbr_id new = (if view location = None then [] else filter (\<lambda>i. view i \<noteq> None) extras)"
        using map_filter_ids by (auto simp: new_def split: option.splits)
      then have new: "distinct (map nbr_id new)" "set (map nbr_id new) \<subseteq> set extras" using ids(2) by auto
      then have "distinct (map nbr_id (vis @ new))" using ids(1,3) by auto
      note sn = sorted_neighbors_ids [OF this, of "max_occlusion_size cfg"]
      obtain ctx' where oc: "occlude_list cfg computer view (\<lambda>i. i = location) force ?ctx = Some (Inr ctx')"
        and ns: "ps_neighbors ctx' = ps_neighbors ?ctx \<or> pruned_from cfg (nbr_id ` set (ps_pool ?ctx) - {location}) (ps_neighbors ctx')"
        using sn(1) by (rule_tac occlude_list_pruned [OF cfg, of ?ctx computer view location force]) auto
      have "robust_prune_with cfg acc location extras vis force sc ws = Some (Inr (), ?pool, ctx'\<lparr>ps_pool := ps_pool sc\<rparr>, ws')"
        using c Inr f False oc unfolding robust_prune_with_def new_def [symmetric] by (auto simp: finish_prune_def Let_def new_def)
      moreover have "nbr_id ` set ?pool \<subseteq> nbr_id ` set vis \<union> set extras"
        using sn(2) new(2) unfolding set_append set_map image_Un by blast
      then have "ps_neighbors ctx' = ps_neighbors sc \<or> pruned_from cfg (nbr_id ` set vis \<union> set extras - {location}) (ps_neighbors ctx')"
        using ns unfolding pruned_from_def prune_scratch.simps by blast
      ultimately show thesis
        by (intro that [of "Inr ()" ?pool "ctx'\<lparr>ps_pool := ps_pool sc\<rparr>" ws']) simp_all
    qed
  qed
qed

text \<open>The first pass takes the first candidate whose vector is there.\<close>

lemma occlude_pass_prefix:
  assumes "occ_inv cache degree s" "degree < 2 ^ 16" "set js \<subseteq> {..<length cache}"
  shows "\<exists>s'. occlude_pass kind sim cache degree ca js s = Some (Inr s') \<and> occ_inv cache degree s'
    \<and> prefix (occ_dst s) (occ_dst s')"
proof (rule occlude_pass_induct [where P = "\<lambda>t. occ_inv cache degree t \<and> prefix (occ_dst s) (occ_dst t)"])
  fix i t assume "i \<in> set js" and t: "occ_inv cache degree t \<and> prefix (occ_dst s) (occ_dst t)"
  then have "i < length cache" using assms(3) by auto
  from occlude_step_inv [OF _ this assms(2), of t kind sim ca] t
  show "\<exists>s'. occlude_step kind sim cache degree ca i t = Some (Inr s') \<and> occ_inv cache degree s' \<and> prefix (occ_dst s) (occ_dst s')"
    by (meson prefix_order.trans)
qed (use assms in simp)

lemma occlude_pass_skip_absent:
  assumes "\<forall>i\<in>set js. snd (cache ! i) = None" "occ_dst s = []"
  shows "\<exists>s'. occlude_pass kind sim cache degree ca js s = Some (Inr s') \<and> occ_dst s' = [] \<and> occ_last s' = occ_last s
    \<and> (\<forall>i. i \<notin> set js \<longrightarrow> occ_factor s' ! i = occ_factor s ! i) \<and> length (occ_factor s') = length (occ_factor s)"
  using assms
proof (induction js arbitrary: s)
  case (Cons j js)
  let ?t = "if degree = 0 \<or> f32_gt (occ_factor s ! j) ca then s else s\<lparr>occ_factor := (occ_factor s)[j := f32_MAX]\<rparr>"
  have "occlude_step kind sim cache degree ca j s = Some (Inr ?t)"
    using Cons.prems by (simp add: occlude_step_def)
  moreover have "occ_dst ?t = []" using Cons.prems by simp
  with Cons.IH [of ?t] Cons.prems(1) obtain s' where "occlude_pass kind sim cache degree ca js ?t = Some (Inr s')"
    "occ_dst s' = []" "occ_last s' = occ_last ?t" "\<forall>i. i \<notin> set js \<longrightarrow> occ_factor s' ! i = occ_factor ?t ! i"
    "length (occ_factor s') = length (occ_factor ?t)" by auto
  ultimately show ?case by (intro exI [of _ s']) (auto split: if_splits)
qed simp

lemma occlude_pass_append:
  "occlude_pass kind sim cache degree ca (xs @ ys) s =
     (case occlude_pass kind sim cache degree ca xs s of None \<Rightarrow> None | Some (Inl e) \<Rightarrow> Some (Inl e)
      | Some (Inr t) \<Rightarrow> occlude_pass kind sim cache degree ca ys t)"
  by (induction xs arbitrary: s) (auto split: option.splits sum.splits)

lemma first_pass_first:
  assumes k: "k = first_index (\<lambda>c. snd c \<noteq> None) cache" "k < length cache" and deg: "0 < degree" "degree < 2 ^ 16"
  shows "\<exists>s. occlude_pass kind sim cache degree f32_one [0..<length cache] (occ_start (length cache)) = Some (Inr s)
    \<and> occ_inv cache degree s \<and> prefix [k] (occ_dst s)"
proof -
  let ?s0 = "occ_start (length cache)"
  obtain v where v: "snd (cache ! k) = Some v" using first_index_sat [of "\<lambda>c. snd c \<noteq> None" cache] k by auto
  have "\<forall>i\<in>set [0..<k]. snd (cache ! i) = None" using first_index_before [of _ "\<lambda>c. snd c \<noteq> None" cache] k by auto
  from occlude_pass_skip_absent [OF this, of ?s0 kind sim degree f32_one] obtain s1 where
    s1: "occlude_pass kind sim cache degree f32_one [0..<k] ?s0 = Some (Inr s1)" "occ_dst s1 = []"
      "occ_last s1 = occ_last ?s0" "occ_factor s1 ! k = occ_factor ?s0 ! k"
    by (auto simp: occ_start_def)
  have "set [0..<k] \<subseteq> {..<length cache}" using k(2) by auto
  from occlude_pass_prefix [OF occ_inv_start [of cache degree] deg(2) this, of kind sim f32_one] s1(1)
  have inv1: "occ_inv cache degree s1" by auto
  have f: "occ_factor s1 ! k = f32_zero" "occ_last s1 ! k = 0" using s1 k(2) by (simp_all add: occ_start_def)
  have "check_loop kind sim cache f32_one k (fst (cache ! k)) v [] 0 f32_zero = Some (Inr (0, f32_zero, False))"
    by (subst check_loop.simps) simp
  moreover have "\<not> f32_gt f32_zero f32_one" by (simp add: f32_gt_def f32_lt_def f32_one_def f32_zero_def)
  ultimately have "\<exists>s2. occlude_step kind sim cache degree f32_one k s1 = Some (Inr s2) \<and> occ_dst s2 = [k]"
    using deg(1) s1(2) f v by (simp add: occlude_step_def al_push_def)
  then obtain s2 where s2: "occlude_step kind sim cache degree f32_one k s1 = Some (Inr s2)" "occ_dst s2 = [k]" by blast
  have inv2: "occ_inv cache degree s2" using occlude_step_inv [OF inv1 k(2) deg(2), of kind sim f32_one] s2(1) by auto
  have "set [Suc k..<length cache] \<subseteq> {..<length cache}" by auto
  from occlude_pass_prefix [OF inv2 deg(2) this, of kind sim f32_one] s2(2) obtain s3 where
    s3: "occlude_pass kind sim cache degree f32_one [Suc k..<length cache] s2 = Some (Inr s3)" "occ_inv cache degree s3"
      "prefix [k] (occ_dst s3)" by auto
  have "[0..<length cache] = [0..<k] @ k # [Suc k..<length cache]"
    using k(2) by (metis less_imp_add_positive upt_add_eq_append upt_conv_Cons zero_le)
  then have "occlude_pass kind sim cache degree f32_one [0..<length cache] ?s0 = Some (Inr s3)"
    by (simp add: occlude_pass_append s1(1) s2(1) s3(1))
  with s3 show ?thesis by blast
qed

lemma alpha_loop_first:
  assumes "alp \<noteq> NaN" "f32_wf alp" "0 < degree" "degree < 2 ^ 16"
    and k: "k = first_index (\<lambda>c. snd c \<noteq> None) cache" "k < length cache"
    and r: "alpha_loop kind sim cache degree alp f32_one (occ_start (length cache)) = Some (Inr s)"
  shows "prefix [k] (occ_dst s)"
proof -
  let ?P = "\<lambda>s. occ_inv cache degree s \<and> prefix [k] (occ_dst s)"
  from first_pass_first [OF k assms(3,4), of kind sim] obtain s1 where
    s1: "occlude_pass kind sim cache degree f32_one [0..<length cache] (occ_start (length cache)) = Some (Inr s1)" "?P s1" by blast
  show ?thesis
  proof (cases "f32_eq f32_one alp")
    case True
    with r s1 assms(3) show ?thesis by (subst (asm) alpha_loop.simps) (simp add: occ_start_def)
  next
    case False
    obtain n where n: "(next_alpha alp ^^ n) f32_one = alp" using alpha_reached [OF assms(1,2)] by blast
    with False assms(1) obtain m where "n = Suc m" by (cases n) (auto simp: f32_eq_def f32_one_def)
    with n have "(next_alpha alp ^^ m) (next_alpha alp f32_one) = alp" by (simp add: funpow_swap1)
    then have "\<exists>s'. alpha_loop kind sim cache degree alp (next_alpha alp f32_one) s1 = Some (Inr s') \<and> ?P s'"
    proof (rule alpha_loop_induct [where Q = "\<lambda>_. True"])
      fix ca t assume t: "?P t"
      have "set [0..<length cache] \<subseteq> {..<length cache}" by auto
      from occlude_pass_prefix [OF _ assms(4) this, of t kind sim ca] t
      show "\<exists>s'. occlude_pass kind sim cache degree ca [0..<length cache] t = Some (Inr s') \<and> ?P s'"
        by (meson prefix_order.trans)
    qed (use s1 assms in simp_all)
    with r s1 False assms(3) show ?thesis by (subst (asm) alpha_loop.simps) (auto simp: occ_start_def)
  qed
qed

section \<open>Properties\<close>

text \<open>A configuration and a context for the examples: points on a line, each its own vector.\<close>

definition sample_config :: config where
  "sample_config = \<lparr>pruned_degree = 2, max_degree = 4, l_build = 10, alpha = f32_one,
     prune_kind_of = TriangleInequality, max_occlusion_size = 10, max_backedges = 2, max_minibatch_par = 1,
     intra_batch = IBAll, saturate_after_prune = False, experimental_insert_retry = None\<rparr>"

definition sample_context :: "nat prune_scratch" where
  "sample_context = \<lparr>ps_pool = [neighbor_new 5 (Fin 5), neighbor_new 6 (Fin 6)], ps_occlude_factor = [],
     ps_last_checked = [], ps_neighbors = [9]\<rparr>"

definition sample_sim :: "int \<Rightarrow> int \<Rightarrow> f32" where
  "sample_sim v w = Fin \<bar>v - w\<bar>"

lemma sample_config_simps:
  "alpha sample_config = f32_one" "pruned_degree sample_config = 2" "prune_kind_of sample_config = TriangleInequality"
  "\<not> saturate_after_prune sample_config" "f32_one \<noteq> NaN" "f32_wf f32_one" "f32_one < f32_MAX"
  by (simp_all add: sample_config_def f32_one_def f32_MAX_def f32_wf_def f32_mag_wf_def) code_simp



text \<open>C16: the pruning rule is kept: under the triangle rule and an alpha below \<open>f32::MAX\<close>, whenever
  two kept candidates \<open>j\<close> and \<open>k\<close> were taken in the order of the pool, their distance is not zero
  and the ratio of the distance of \<open>k\<close> to the distance between them is at most alpha (or 1, if
  alpha is below 1), unless it is not a number.\<close>

theorem occlude_list_separated:
  assumes "prune_kind_of cfg = TriangleInequality" "alpha cfg < f32_MAX" "f32_wf (alpha cfg)" "pruned_degree cfg < 2 ^ 16"
    and "\<not> saturate_after_prune cfg" "ps_pool ctx \<noteq> []"
  shows "\<exists>ctx' ps. occlude_list cfg sim get exclude False ctx = Some (Inr ctx')
    \<and> ps_neighbors ctx' = map (\<lambda>r. nbr_id (ps_pool ctx ! r)) ps \<and> distinct ps \<and> set ps \<subseteq> {..<length (ps_pool ctx)}
    \<and> (\<forall>x y. x < y \<and> y < length ps \<and> ps ! x < ps ! y \<longrightarrow>
        (\<exists>v w. get (nbr_id (ps_pool ctx ! (ps ! y))) = Some v \<and> get (nbr_id (ps_pool ctx ! (ps ! x))) = Some w
          \<and> sim v w \<noteq> f32_zero
          \<and> (let ratio = f32_div (nbr_distance (ps_pool ctx ! (ps ! y))) (sim v w)
             in ratio = NaN \<or> ratio \<le> max f32_one (alpha cfg))))"
proof -
  let ?pool = "ps_pool ctx"
  let ?cache = "make_cache get exclude ?pool"
  from alpha_loop_tri [OF assms(2,3,4), of sim ?cache] obtain s where
    s: "alpha_loop TriangleInequality sim ?cache (pruned_degree cfg) (alpha cfg) f32_one (occ_start (length ?pool)) = Some (Inr s)"
    and inv: "occ_inv ?cache (pruned_degree cfg) s" and tri: "tri_inv sim ?cache (max f32_one (alpha cfg)) s" by auto
  let ?ps = "occ_dst s"
  have pos: "\<forall>r\<in>set ?ps. r < length ?pool \<and> ?cache ! r = (nbr_distance (?pool ! r), get (nbr_id (?pool ! r)))
      \<and> get (nbr_id (?pool ! r)) \<noteq> None"
    using inv by (auto simp: occ_inv_def make_cache_nth split: if_splits)
  have "\<exists>v w. get (nbr_id (?pool ! (?ps ! y))) = Some v \<and> get (nbr_id (?pool ! (?ps ! x))) = Some w
      \<and> sim v w \<noteq> f32_zero
      \<and> (let ratio = f32_div (nbr_distance (?pool ! (?ps ! y))) (sim v w) in ratio = NaN \<or> ratio \<le> max f32_one (alpha cfg))"
    if "x < y" "y < length ?ps" "?ps ! x < ?ps ! y" for x y
  proof -
    have "?ps ! x \<in> set ?ps" "?ps ! y \<in> set ?ps" using that by simp_all
    with pos obtain v w where vw: "?cache ! (?ps ! y) = (nbr_distance (?pool ! (?ps ! y)), Some v)"
      "get (nbr_id (?pool ! (?ps ! y))) = Some v" "get (nbr_id (?pool ! (?ps ! x))) = Some w"
      "snd (?cache ! (?ps ! x)) = Some w" by force
    have "not_occluded sim ?cache (max f32_one (alpha cfg)) (?ps ! y) (?ps ! x)"
      using tri that unfolding tri_inv_def by blast
    with vw show ?thesis by (auto simp: not_occluded_def result_distance_def Let_def)
  qed
  then show ?thesis
    unfolding occlude_list_run [OF assms(6), of cfg sim get exclude, unfolded assms(1), OF s]
    using assms(5) inv by (intro exI [of _ ?ps] exI conjI) (auto simp: Let_def occ_inv_def)
qed

theorem occlude_list_separated_witness:
  "\<exists>ctx' ps. occlude_list sample_config sample_sim (\<lambda>i. Some (int i)) (\<lambda>i. i = 0) False sample_context = Some (Inr ctx')
    \<and> ps_neighbors ctx' = map (\<lambda>r. nbr_id (ps_pool sample_context ! r)) ps \<and> distinct ps"
proof -
  have "ps_pool sample_context \<noteq> []" by (simp add: sample_context_def)
  with occlude_list_separated [of sample_config sample_context sample_sim "\<lambda>i. Some (int i)" "\<lambda>i. i = 0"]
  show ?thesis unfolding sample_config_simps(1,2) using sample_config_simps by force
qed

text \<open>The closest candidate with a vector that is not excluded is always kept, and is the first
  neighbor.\<close>

theorem occlude_list_keeps_closest:
  assumes "alpha cfg \<noteq> NaN" "f32_wf (alpha cfg)" "0 < pruned_degree cfg" "pruned_degree cfg < 2 ^ 16"
    and "k = first_index (\<lambda>n. \<not> exclude (nbr_id n) \<and> get (nbr_id n) \<noteq> None) (ps_pool ctx)" "k < length (ps_pool ctx)"
  shows "\<exists>ctx'. occlude_list cfg sim get exclude force ctx = Some (Inr ctx')
    \<and> (\<exists>rest. ps_neighbors ctx' = nbr_id (ps_pool ctx ! k) # rest)"
proof -
  let ?pool = "ps_pool ctx"
  let ?cache = "make_cache get exclude ?pool"
  have ne: "?pool \<noteq> []" using assms(6) by auto
  from alpha_loop_inv [OF assms(1,2,4), of "prune_kind_of cfg" sim ?cache] obtain s where
    s: "alpha_loop (prune_kind_of cfg) sim ?cache (pruned_degree cfg) (alpha cfg) f32_one (occ_start (length ?cache)) = Some (Inr s)"
    by auto
  have k: "k = first_index (\<lambda>c. snd c \<noteq> None) ?cache"
    unfolding assms(5) make_cache_def first_index_map by (rule first_index_cong) auto
  from alpha_loop_first [OF assms(1-4) k _ s] assms(6) obtain ps where ps: "occ_dst s = k # ps"
    by (auto simp: prefix_def)
  let ?dst = "map (\<lambda>r. nbr_id (?pool ! r)) (occ_dst s)"
  obtain zs where "saturate (pruned_degree cfg) exclude ?pool ?dst = ?dst @ zs"
    using saturate_props(4) [of ?dst "pruned_degree cfg" exclude ?pool] by (auto simp: prefix_def)
  then show ?thesis using ps unfolding occlude_list_run [OF ne s [simplified]] by (auto simp: Let_def)
qed



lemma alpha_loop_NaN_diverges:
  assumes "alpha_loop kind sim cache degree alp ca s = Some r"
  shows "\<not> (alp = NaN \<and> 0 < degree \<and> (\<forall>c\<in>set cache. snd c = None) \<and> occ_dst s = [])"
proof (rule alpha_loop.raw_induct [OF _ assms, where P =
      "\<lambda>kind sim cache degree alp ca s r. \<not> (alp = NaN \<and> 0 < degree \<and> (\<forall>c\<in>set cache. snd c = None) \<and> occ_dst s = [])"],
    rule notI, goal_cases)
  case (1 rec kind sim cache degree alp ca s r)
  then have "\<forall>i\<in>set [0..<length cache]. snd (cache ! i) = None" "occ_dst s = []" by simp_all
  from occlude_pass_skip_absent [OF this, of kind sim degree ca] obtain s' where
    "occlude_pass kind sim cache degree ca [0..<length cache] s = Some (Inr s')" "occ_dst s' = []" by blast
  moreover from this 1(2,3) have "rec kind sim cache degree alp (next_alpha alp ca) s' = Some r"
    by (simp add: f32_eq_def)
  ultimately show ?case using 1(1) [of kind sim cache degree alp "next_alpha alp ca" s' r] 1(3) by blast
qed

text \<open>C32: with an alpha that is not a number the loop over alpha never reaches it: when no candidate
  has a vector, \<open>occlude_list\<close> does not return.\<close>

theorem occlude_list_NaN_alpha_diverges:
  assumes "alpha cfg = NaN" "0 < pruned_degree cfg" "ps_pool ctx \<noteq> []"
  shows "occlude_list cfg sim (\<lambda>_. None) exclude force ctx = None"
proof -
  let ?cache = "make_cache (\<lambda>_. None) exclude (ps_pool ctx)"
  have "\<forall>c\<in>set ?cache. snd c = None" by (auto simp: make_cache_def)
  then have "alpha_loop (prune_kind_of cfg) sim ?cache (pruned_degree cfg) (alpha cfg) f32_one s = None"
    if "occ_dst s = []" for s
    using alpha_loop_NaN_diverges [of "prune_kind_of cfg" sim ?cache "pruned_degree cfg" "alpha cfg" f32_one s] assms that
    by (metis option.exhaust)
  then show ?thesis using assms(3) by (simp add: occlude_list_def Let_def)
qed

theorem occlude_list_NaN_alpha_diverges_witness:
  "occlude_list (sample_config\<lparr>alpha := NaN\<rparr>) sample_sim (\<lambda>_. None) (\<lambda>i. False) False sample_context = None"
  by (rule occlude_list_NaN_alpha_diverges) (simp_all add: sample_config_def sample_context_def)

end
