(* ===== verification/Neighbor_Provider.thy ===== *)
theory Neighbor_Provider
  imports Adjacency_List F32
begin

text \<open>
  The in-memory graph store: \<open>AlignedMemoryVectorStore\<close> of
  \<open>diskann-providers/src/model/graph/provider/async_/common.rs\<close> and
  \<open>SimpleNeighborProviderAsync\<close> of \<open>simple_neighbor_provider.rs\<close> at 32-bit identifiers.

  A store is one flat vector: rows of \<open>dim\<close> elements, padded to whole cache lines, after an offset
  that aligns the first row.  The offset depends on the address the allocator returns, which is an
  argument (\<open>addr\<close>).  A row of the graph holds an adjacency list and, in its last slot, the length
  of the list.  Every operation holds the lock of its row from beginning to end, so an operation is
  one step here; what is left of the locks is their number, which bounds the identifiers.
\<close>

section \<open>The aligned store\<close>

record 'a vector_store =
  vs_store :: "'a list"
  vs_max_vectors :: nat
  vs_start_index :: nat
  vs_dim :: nat
  vs_padded :: nat

definition align_offset :: "nat \<Rightarrow> nat \<Rightarrow> nat" where
  "align_offset elem_size addr = ((64 - addr mod 64) mod 64) div elem_size"

definition padded_vector_dim :: "nat \<Rightarrow> nat \<Rightarrow> fault + nat" where
  "padded_vector_dim elem_size dim =
     (let extra_size = elem_size * dim mod 64 in
      if extra_size = 0 then Inr dim
      else let padding_needed_size = 64 - extra_size in
        if padding_needed_size mod elem_size \<noteq> 0 then Inl AssertFault
        else Inr (dim + padding_needed_size div elem_size))"

definition with_capacity :: "'a \<Rightarrow> nat \<Rightarrow> nat \<Rightarrow> nat \<Rightarrow> nat \<Rightarrow> fault + 'a vector_store" where
  "with_capacity zeroed elem_size addr max_vectors dim =
     (if 64 mod elem_size \<noteq> 0 then Inl AssertFault
      else rbind (padded_vector_dim elem_size dim) (\<lambda>padded.
        if padded * elem_size mod 64 \<noteq> 0 then Inl AssertFault
        else let last_elems = 64 div elem_size - 1 in
          Inr \<lparr>vs_store = replicate (max_vectors * padded + last_elems) zeroed,
               vs_max_vectors = max_vectors, vs_start_index = align_offset elem_size addr,
               vs_dim = dim, vs_padded = padded\<rparr>))"

definition row_offset :: "'a vector_store \<Rightarrow> nat \<Rightarrow> nat" where
  "row_offset vs index = index * vs_padded vs + vs_start_index vs"

definition vs_get_slice :: "'a vector_store \<Rightarrow> nat \<Rightarrow> fault + 'a list" where
  "vs_get_slice vs index =
     (if index < vs_max_vectors vs
      then Inr (take (vs_dim vs) (drop (row_offset vs index) (vs_store vs)))
      else Inl AssertFault)"

text \<open>A mutable slice is read with \<open>vs_get_slice\<close>; \<open>vs_put_slice\<close> is the store after its holder has
  left \<open>row\<close> in it.\<close>

definition vs_put_slice :: "nat \<Rightarrow> 'a list \<Rightarrow> 'a vector_store \<Rightarrow> 'a vector_store" where
  "vs_put_slice index row vs =
     (let off = row_offset vs index in
      vs\<lparr>vs_store := take off (vs_store vs) @ row @ drop (off + length row) (vs_store vs)\<rparr>)"

section \<open>The neighbor provider\<close>

record neighbor_provider =
  np_graph :: "32 word vector_store"
  np_locks :: nat
  np_num_start_points :: nat

definition np_new :: "nat \<Rightarrow> nat \<Rightarrow> nat \<Rightarrow> nat \<Rightarrow> f32 \<Rightarrow> fault + neighbor_provider" where
  "np_new addr max_points num_start_points max_degree graph_slack_factor =
     (let size = max_points + num_start_points in
      rbind (with_capacity 0 4 addr size
               (f32_as_usize (f32_mul (f32_of_nat max_degree) graph_slack_factor) + 1)) (\<lambda>graph.
      Inr \<lparr>np_graph = graph, np_locks = size, np_num_start_points = num_start_points\<rparr>))"

definition check_lock :: "neighbor_provider \<Rightarrow> nat \<Rightarrow> fault + unit" where
  "check_lock p i = (if i < np_locks p then Inr () else Inl IndexFault)"

text \<open>The length in the last slot of a row, and the prefix of that length.\<close>

definition row_len :: "32 word vector_store \<Rightarrow> 32 word list \<Rightarrow> fault + nat" where
  "row_len g row =
     (if vs_dim g - 1 < length row then Inr (unat (row ! (vs_dim g - 1))) else Inl IndexFault)"

definition row_prefix :: "32 word list \<Rightarrow> nat \<Rightarrow> fault + 32 word list" where
  "row_prefix row len = (if len \<le> length row then Inr (take len row) else Inl IndexFault)"

definition np_get_slice :: "neighbor_provider \<Rightarrow> nat \<Rightarrow> fault + 32 word list" where
  "np_get_slice p index =
     rbind (vs_get_slice (np_graph p) index) (\<lambda>s.
     rbind (row_len (np_graph p) s) (\<lambda>len. row_prefix s len))"

definition try_into_vector_id :: "nat \<Rightarrow> fault + 32 word" where
  "try_into_vector_id n = (if n < 2 ^ 32 then Inr (of_nat n) else Inl AssertFault)"

definition set_neighbors_sync :: "neighbor_provider \<Rightarrow> nat \<Rightarrow> 32 word list \<Rightarrow> fault + neighbor_provider" where
  "set_neighbors_sync p i neighbors =
     (let g = np_graph p in
      if \<not> length neighbors < vs_dim g then Inl AssertFault
      else rbind (check_lock p i) (\<lambda>_.
        rbind (vs_get_slice g i) (\<lambda>row.
        rbind (try_into_vector_id (length neighbors)) (\<lambda>len.
        let row' = (neighbors @ drop (length neighbors) row)[vs_dim g - 1 := len] in
        Inr (p\<lparr>np_graph := vs_put_slice i row' g\<rparr>)))))"

definition get_neighbors_sync :: "neighbor_provider \<Rightarrow> nat \<Rightarrow> 32 word list \<Rightarrow> fault + 32 word list" where
  "get_neighbors_sync p i neighbors =
     rbind (check_lock p i) (\<lambda>_. rbind (np_get_slice p i) (\<lambda>list. Inr (overwrite_trusted list neighbors)))"

fun append_loop :: "nat \<Rightarrow> 32 word list \<Rightarrow> nat \<Rightarrow> 32 word list \<Rightarrow> 32 word list \<times> nat" where
  "append_loop limit row new_len [] = (row, new_len)"
| "append_loop limit row new_len (i # ids) =
     (if contains_simd_u32 (take new_len row) i then append_loop limit row new_len ids
      else if new_len < limit then append_loop limit (row[new_len := i]) (new_len + 1) ids
      else (row, new_len))"

definition append_vector_sync :: "neighbor_provider \<Rightarrow> nat \<Rightarrow> 32 word list \<Rightarrow> fault + neighbor_provider" where
  "append_vector_sync p i new_neighbor_ids =
     (let g = np_graph p in
      rbind (check_lock p i) (\<lambda>_.
      rbind (vs_get_slice g i) (\<lambda>row.
      rbind (row_len g row) (\<lambda>len.
      rbind (row_prefix row len) (\<lambda>_.
      case append_loop (vs_dim g - 1) row len new_neighbor_ids of (row', new_len) \<Rightarrow>
      rbind (try_into_vector_id new_len) (\<lambda>len'.
      Inr (p\<lparr>np_graph := vs_put_slice i (row'[vs_dim g - 1 := len']) g\<rparr>)))))))"

section \<open>The layout of the store\<close>

definition store_wf :: "'a vector_store \<Rightarrow> bool" where
  "store_wf vs \<longleftrightarrow> vs_dim vs \<le> vs_padded vs
     \<and> vs_max_vectors vs * vs_padded vs + vs_start_index vs \<le> length (vs_store vs)"

lemma padded_vector_dim_ok:
  assumes "elem_size dvd 64"
  shows "\<exists>padded. padded_vector_dim elem_size dim = Inr padded \<and> dim \<le> padded \<and> padded * elem_size mod 64 = 0"
proof (cases "elem_size * dim mod 64 = 0")
  case True
  then show ?thesis by (simp add: padded_vector_dim_def mult.commute)
next
  case False
  define r where "r = elem_size * dim mod 64"
  have "elem_size dvd r" unfolding r_def using assms by (simp add: dvd_mod)
  then have d: "elem_size dvd 64 - r" using assms by (rule dvd_diff_nat [rotated])
  have "r < 64" by (simp add: r_def)
  have "(dim + (64 - r) div elem_size) * elem_size = elem_size * dim + (64 - r)"
    using d by (simp add: distrib_right)
  also have "\<dots> mod 64 = (r + (64 - r)) mod 64" unfolding r_def by (rule mod_add_left_eq [symmetric])
  also have "\<dots> = 0" using \<open>r < 64\<close> by simp
  finally show ?thesis using False d
    by (simp add: padded_vector_dim_def Let_def flip: r_def)
qed

lemma align_offset_lt: "elem_size dvd 64 \<Longrightarrow> align_offset elem_size addr < 64 div elem_size"
proof (cases "elem_size = 0")
  case False
  assume "elem_size dvd 64"
  then have "elem_size * (64 div elem_size) = 64" by simp
  then have "(64 - addr mod 64) mod 64 < 64 div elem_size * elem_size" by (simp add: mult.commute)
  then show ?thesis unfolding align_offset_def by (rule less_mult_imp_div_less)
qed simp

lemma with_capacity_ok:
  assumes e: "elem_size dvd 64"
  obtains vs where "with_capacity zeroed elem_size addr max_vectors dim = Inr vs" "store_wf vs"
    "vs_dim vs = dim" "vs_max_vectors vs = max_vectors" "set (vs_store vs) \<subseteq> {zeroed}"
    "vs_padded vs * elem_size mod 64 = 0" "vs_start_index vs = align_offset elem_size addr"
proof -
  from padded_vector_dim_ok [OF e, of dim] obtain padded
    where p: "padded_vector_dim elem_size dim = Inr padded" "dim \<le> padded" "padded * elem_size mod 64 = 0"
    by (elim exE conjE)
  have "64 mod elem_size = 0" using e by (rule dvd_imp_mod_0)
  moreover have "align_offset elem_size addr \<le> 64 div elem_size - 1" using align_offset_lt [OF e, of addr] by simp
  moreover define vs where "vs = \<lparr>vs_store = replicate (max_vectors * padded + (64 div elem_size - 1)) zeroed,
    vs_max_vectors = max_vectors, vs_start_index = align_offset elem_size addr, vs_dim = dim, vs_padded = padded\<rparr>"
  ultimately have "with_capacity zeroed elem_size addr max_vectors dim = Inr vs" "store_wf vs"
    by (simp_all only: with_capacity_def p rbind_simps Let_def store_wf_def vector_store.simps length_replicate
        if_False simp_thms add_le_mono1 add_le_cancel_left)
  then show thesis by (rule that) (simp_all add: vs_def p set_replicate_conv_if)
qed

lemma row_in_store:
  assumes "store_wf vs" "i < vs_max_vectors vs"
  shows "row_offset vs i + vs_dim vs \<le> length (vs_store vs)"
proof -
  have "Suc i * vs_padded vs \<le> vs_max_vectors vs * vs_padded vs" using assms(2) by (simp only: mult_le_mono Suc_leI order_refl)
  then show ?thesis using assms(1) by (simp add: store_wf_def row_offset_def)
qed

lemma rows_disjoint:
  assumes "store_wf vs" "i < j"
  shows "row_offset vs i + vs_dim vs \<le> row_offset vs j"
proof -
  have "Suc i * vs_padded vs \<le> j * vs_padded vs" using assms(2) by (simp only: mult_le_mono Suc_leI order_refl)
  then show ?thesis using assms(1) by (simp add: store_wf_def row_offset_def)
qed

lemma take_drop_splice:
  assumes "off + length row \<le> length xs" "o' + n \<le> off \<or> off + length row \<le> o'"
  shows "take n (drop o' (take off xs @ row @ drop (off + length row) xs)) = take n (drop o' xs)"
  using assms(2)
proof
  assume le: "o' + n \<le> off"
  then have "take n (drop o' (take off xs @ ys)) = take n (drop o' xs)" for ys
    using assms(1) by (simp add: take_drop)
  then show ?thesis .
next
  assume le: "off + length row \<le> o'"
  then have "o' - off - length row + (off + length row) = o'" by simp
  with le assms(1) show ?thesis by (simp add: drop_append min_def add.commute)
qed

lemma put_slice_props:
  assumes wf: "store_wf vs" and i: "i < vs_max_vectors vs" and len: "length row = vs_dim vs"
  shows "store_wf (vs_put_slice i row vs)" "vs_dim (vs_put_slice i row vs) = vs_dim vs"
    "vs_max_vectors (vs_put_slice i row vs) = vs_max_vectors vs"
    "vs_get_slice (vs_put_slice i row vs) i = Inr row"
    "j \<noteq> i \<Longrightarrow> vs_get_slice (vs_put_slice i row vs) j = vs_get_slice vs j"
proof -
  note inside = row_in_store [OF wf i]
  let ?off = "row_offset vs i" and ?vs' = "vs_put_slice i row vs"
  have st: "vs_store ?vs' = take ?off (vs_store vs) @ row @ drop (?off + length row) (vs_store vs)"
    by (simp add: vs_put_slice_def Let_def)
  show d: "vs_dim ?vs' = vs_dim vs" and m: "vs_max_vectors ?vs' = vs_max_vectors vs"
    by (simp_all add: vs_put_slice_def Let_def)
  have off: "row_offset ?vs' k = row_offset vs k" for k by (simp add: vs_put_slice_def row_offset_def Let_def)
  have "length (vs_store ?vs') = length (vs_store vs)" using inside len by (simp add: st)
  then show "store_wf ?vs'" using wf by (simp add: store_wf_def vs_put_slice_def Let_def)
  show "vs_get_slice ?vs' i = Inr row" using i inside len by (simp add: vs_get_slice_def d m off st)
  show "vs_get_slice ?vs' j = vs_get_slice vs j" if "j \<noteq> i"
  proof (cases "j < vs_max_vectors vs")
    case True
    have "row_offset vs j + vs_dim vs \<le> ?off \<or> ?off + length row \<le> row_offset vs j"
      using rows_disjoint [OF wf] that len by (cases i j rule: linorder_cases) auto
    from take_drop_splice [OF _ this, of "vs_store vs"] inside len show ?thesis
      by (simp only: vs_get_slice_def d m off st)
  qed (simp add: vs_get_slice_def m)
qed

section \<open>The contract of a neighbor accessor\<close>

text \<open>What the index relies on when it reads and writes adjacency lists: every valid identifier
  has a list of at most \<open>cap\<close> entries; writing a list is read back and leaves the other lists
  alone; appending adds the entries that are new, in order, as far as they fit.\<close>

locale neighbor_accessor =
  fixes wf :: "'p \<Rightarrow> bool" and valid :: "'p \<Rightarrow> 'k \<Rightarrow> bool" and cap :: "'p \<Rightarrow> nat"
    and getn :: "'p \<Rightarrow> 'k \<Rightarrow> 'e + 'i list"
    and setn :: "'p \<Rightarrow> 'k \<Rightarrow> 'i list \<Rightarrow> 'e + 'p"
    and appendn :: "'p \<Rightarrow> 'k \<Rightarrow> 'i list \<Rightarrow> 'e + 'p"
  assumes get_law: "wf p \<Longrightarrow> valid p i \<Longrightarrow> \<exists>ns. getn p i = Inr ns \<and> length ns \<le> cap p"
    and set_law: "wf p \<Longrightarrow> valid p i \<Longrightarrow> length ns \<le> cap p \<Longrightarrow>
      \<exists>p'. setn p i ns = Inr p' \<and> wf p' \<and> valid p' = valid p \<and> cap p' = cap p
        \<and> getn p' i = Inr ns \<and> (\<forall>j. j \<noteq> i \<longrightarrow> getn p' j = getn p j)"
    and append_law: "wf p \<Longrightarrow> valid p i \<Longrightarrow> getn p i = Inr old \<Longrightarrow>
      \<exists>p'. appendn p i ns = Inr p' \<and> wf p' \<and> valid p' = valid p \<and> cap p' = cap p
        \<and> getn p' i = Inr (take (cap p) (old @ fresh ns (set old))) \<and> (\<forall>j. j \<noteq> i \<longrightarrow> getn p' j = getn p j)"
begin

text \<open>Appending keeps lists free of duplicates, keeps the old entries and never exceeds the capacity.\<close>

lemma append_keeps:
  assumes "wf p" "valid p i" "getn p i = Inr old" "distinct old"
  shows "\<exists>p' new. appendn p i ns = Inr p' \<and> wf p' \<and> getn p' i = Inr new \<and> distinct new \<and> prefix old new
    \<and> set new \<subseteq> set old \<union> set ns \<and> length new \<le> cap p
    \<and> (length new < cap p \<longrightarrow> set new = set old \<union> set ns)"
proof -
  have len: "length old \<le> cap p" using get_law [OF assms(1,2)] assms(3) by simp
  let ?new = "take (cap p) (old @ fresh ns (set old))"
  have "prefix old ?new" using len by simp
  moreover have "distinct ?new" using assms(4) by (intro distinct_take) (auto simp: distinct_fresh set_fresh)
  moreover have "set ?new \<subseteq> set old \<union> set ns" by (auto simp: set_fresh dest: in_set_takeD)
  moreover have "set ?new = set old \<union> set ns" if "length ?new < cap p"
  proof -
    have "?new = old @ fresh ns (set old)" using that by simp
    then show ?thesis by (simp only: set_append set_fresh) blast
  qed
  ultimately show ?thesis using append_law [OF assms(1-3), of "ns"] by auto
qed

end

text \<open>The same for identifiers that are the numbers below \<open>size\<close>.\<close>

locale indexed_accessor =
  neighbor_accessor wf "\<lambda>p i. i < size p" cap getn setn appendn
  for wf :: "'p \<Rightarrow> bool" and size :: "'p \<Rightarrow> nat" and cap getn setn appendn
begin

lemma size_eq: "(\<lambda>i. i < size q) = (\<lambda>i. i < size p) \<Longrightarrow> size q = size p"
  by (metis less_irrefl linorder_neqE_nat)

text \<open>Writing the lists \<open>ls\<close> to the identifiers from \<open>k\<close> on.\<close>

lemma set_all:
  assumes "wf p" "k + length ls \<le> size p" "\<forall>l\<in>set ls. length l \<le> cap p"
  shows "\<exists>p'. rfold (\<lambda>(i, l) p. setn p i l) (enumerate k ls) p = Inr p' \<and> wf p' \<and> size p' = size p
    \<and> cap p' = cap p \<and> (\<forall>j<length ls. getn p' (k + j) = Inr (ls ! j))
    \<and> (\<forall>j. j < k \<or> k + length ls \<le> j \<longrightarrow> getn p' j = getn p j)"
  using assms
proof (induction ls arbitrary: k p)
  case Nil
  then show ?case by simp
next
  case (Cons l ls)
  obtain q where q: "setn p k l = Inr q" "wf q" "size q = size p" "cap q = cap p" "getn q k = Inr l"
    "\<forall>j. j \<noteq> k \<longrightarrow> getn q j = getn p j"
    using set_law [of p k l] Cons.prems size_eq by (auto simp del: fun_eq_iff)
  have "\<exists>p'. rfold (\<lambda>(i, l) p. setn p i l) (enumerate (Suc k) ls) q = Inr p' \<and> wf p' \<and> size p' = size q
    \<and> cap p' = cap q \<and> (\<forall>j<length ls. getn p' (Suc k + j) = Inr (ls ! j))
    \<and> (\<forall>j. j < Suc k \<or> Suc k + length ls \<le> j \<longrightarrow> getn p' j = getn q j)"
    using Cons.prems q by (intro Cons.IH) auto
  then obtain p' where p': "rfold (\<lambda>(i, l) p. setn p i l) (enumerate (Suc k) ls) q = Inr p'" "wf p'" "size p' = size q"
    "cap p' = cap q" "\<forall>j<length ls. getn p' (Suc k + j) = Inr (ls ! j)"
    "\<forall>j. j < Suc k \<or> Suc k + length ls \<le> j \<longrightarrow> getn p' j = getn q j" by blast
  have "\<forall>j<length (l # ls). getn p' (k + j) = Inr ((l # ls) ! j)"
  proof (intro allI impI)
    fix j
    assume "j < length (l # ls)"
    then show "getn p' (k + j) = Inr ((l # ls) ! j)" using p'(5,6) q(5) by (cases j) auto
  qed
  moreover have "\<forall>j. j < k \<or> k + length (l # ls) \<le> j \<longrightarrow> getn p' j = getn p j"
    using p'(6) q(6) by auto
  ultimately show ?case using p' q by auto
qed

end

section \<open>The provider implements the contract\<close>

definition np_wf :: "neighbor_provider \<Rightarrow> bool" where
  "np_wf p \<longleftrightarrow> store_wf (np_graph p) \<and> vs_max_vectors (np_graph p) = np_locks p
     \<and> 0 < vs_dim (np_graph p) \<and> vs_dim (np_graph p) \<le> 2 ^ 32
     \<and> (\<forall>i<np_locks p. \<forall>row. vs_get_slice (np_graph p) i = Inr row
          \<longrightarrow> unat (row ! (vs_dim (np_graph p) - 1)) < vs_dim (np_graph p))"

definition np_cap :: "neighbor_provider \<Rightarrow> nat" where
  "np_cap p = vs_dim (np_graph p) - 1"

lemma slice_row:
  assumes "np_wf p" "i < np_locks p"
  obtains row where "vs_get_slice (np_graph p) i = Inr row" "length row = vs_dim (np_graph p)"
    "unat (row ! np_cap p) \<le> np_cap p" "np_cap p < length row"
    "get_neighbors_sync p i ns = Inr (take (unat (row ! np_cap p)) row)"
proof -
  define row where "row = take (vs_dim (np_graph p)) (drop (row_offset (np_graph p) i) (vs_store (np_graph p)))"
  have row: "vs_get_slice (np_graph p) i = Inr row"
    using assms by (simp add: vs_get_slice_def np_wf_def row_def)
  have len: "length row = vs_dim (np_graph p)"
    using row_in_store [of "np_graph p" i] assms by (simp add: row_def np_wf_def)
  have u: "unat (row ! np_cap p) < vs_dim (np_graph p)" "np_cap p < length row"
    using assms row len by (auto simp: np_wf_def np_cap_def)
  have "get_neighbors_sync p i ns = Inr (take (unat (row ! np_cap p)) row)"
    using u len assms(2) by (simp add: get_neighbors_sync_def check_lock_def np_get_slice_def row row_len_def
        row_prefix_def overwrite_trusted_def al_clear_def np_cap_def)
  with row len u that show thesis by (simp add: np_cap_def)
qed

text \<open>Storing a row whose last slot is a valid length.\<close>

lemma put_row:
  assumes wf: "np_wf p" and i: "i < np_locks p" and len: "length row = vs_dim (np_graph p)"
    and ns: "unat (row ! np_cap p) \<le> np_cap p"
  defines "p' \<equiv> p\<lparr>np_graph := vs_put_slice i row (np_graph p)\<rparr>"
  shows "np_wf p'" "np_locks p' = np_locks p" "np_cap p' = np_cap p" "np_num_start_points p' = np_num_start_points p"
    "get_neighbors_sync p' i ms = Inr (take (unat (row ! np_cap p)) row)"
    "j \<noteq> i \<Longrightarrow> get_neighbors_sync p' j ms = get_neighbors_sync p j ms"
proof -
  have "store_wf (np_graph p)" "i < vs_max_vectors (np_graph p)" using wf i by (auto simp: np_wf_def)
  note put = put_slice_props [OF this len]
  show cap: "np_cap p' = np_cap p" and lk: "np_locks p' = np_locks p"
    and "np_num_start_points p' = np_num_start_points p" by (simp_all add: p'_def np_cap_def put)
  have "unat (r ! np_cap p) < vs_dim (np_graph p)" if "j < np_locks p" "vs_get_slice (np_graph p') j = Inr r" for j r
    using that wf ns put by (cases "j = i") (auto simp: p'_def np_wf_def np_cap_def)
  then show wf': "np_wf p'" using wf put by (auto simp: p'_def np_wf_def np_cap_def)
  show "get_neighbors_sync p' i ms = Inr (take (unat (row ! np_cap p)) row)"
  proof -
    obtain row2 where r2: "vs_get_slice (np_graph p') i = Inr row2"
      "get_neighbors_sync p' i ms = Inr (take (unat (row2 ! np_cap p')) row2)"
      using slice_row [OF wf', of i ms] i lk by metis
    have "row2 = row" using r2(1) put(4) by (simp add: p'_def)
    with r2(2) show ?thesis by (simp add: cap)
  qed
  show "get_neighbors_sync p' j ms = get_neighbors_sync p j ms" if "j \<noteq> i"
  proof -
    have "vs_dim (np_graph p') = vs_dim (np_graph p)" by (simp add: p'_def put)
    then have "row_len (np_graph p') r = row_len (np_graph p) r" for r unfolding row_len_def by simp
    then show ?thesis using put(5) [OF that] by (simp add: get_neighbors_sync_def np_get_slice_def check_lock_def p'_def)
  qed
qed

lemma append_loop_spec:
  assumes "append_loop limit row len ids = (row', n)" "len \<le> limit" "limit < length row"
  shows "length row' = length row \<and> n \<le> limit
    \<and> take n row' = take limit (take len row @ fresh ids (set (take len row)))"
  using assms
proof (induction limit row len ids rule: append_loop.induct)
  case (2 limit row len i ids)
  have snoc: "take (Suc len) (row[len := i]) = take len row @ [i]" if "len < limit"
    using that "2.prems"(3) by (simp add: take_Suc_conv_app_nth)
  consider "i \<in> set (take len row)" | "i \<notin> set (take len row)" "len < limit" | "i \<notin> set (take len row)" "len = limit"
    using "2.prems"(2) by linarith
  then show ?case
  proof cases
    case 1
    with 2 show ?thesis by (simp add: u32.contains_law)
  next
    case 2
    with "2.IH"(2) "2.prems" snoc show ?thesis by (simp add: u32.contains_law)
  next
    case 3
    with "2.prems" show ?thesis by (auto simp: u32.contains_law)
  qed
qed simp

lemma np_set_law:
  assumes wf: "np_wf p" and i: "i < np_locks p" and len: "length ns \<le> np_cap p"
  shows "\<exists>p'. set_neighbors_sync p i ns = Inr p' \<and> np_wf p' \<and> np_locks p' = np_locks p \<and> np_cap p' = np_cap p
    \<and> np_num_start_points p' = np_num_start_points p
    \<and> get_neighbors_sync p' i ms = Inr ns \<and> (\<forall>j. j \<noteq> i \<longrightarrow> get_neighbors_sync p' j ms = get_neighbors_sync p j ms)"
proof -
  let ?g = "np_graph p"
  obtain row where row: "vs_get_slice ?g i = Inr row" "length row = vs_dim ?g"
    using slice_row [OF wf i] by blast
  let ?row = "(ns @ drop (length ns) row)[vs_dim ?g - 1 := of_nat (length ns)]"
  have d: "0 < vs_dim ?g" "vs_dim ?g \<le> 2 ^ 32" using wf by (auto simp: np_wf_def)
  have lt: "length ns < vs_dim ?g" using len d by (simp add: np_cap_def)
  have l: "length ?row = vs_dim ?g" using row lt by simp
  have u: "unat (?row ! np_cap p) = length ns"
    using lt d row by (simp add: np_cap_def unat_of_nat)
  have t: "take (length ns) ?row = ns" using lt by (simp add: np_cap_def)
  have "set_neighbors_sync p i ns = Inr (p\<lparr>np_graph := vs_put_slice i ?row ?g\<rparr>)"
    using lt d i row by (simp add: set_neighbors_sync_def Let_def check_lock_def try_into_vector_id_def)
  then show ?thesis using put_row [OF wf i l] u t len by simp
qed

lemma np_append_law:
  assumes wf: "np_wf p" and i: "i < np_locks p" and old: "get_neighbors_sync p i ms = Inr old"
  shows "\<exists>p'. append_vector_sync p i ns = Inr p' \<and> np_wf p' \<and> np_locks p' = np_locks p \<and> np_cap p' = np_cap p
    \<and> np_num_start_points p' = np_num_start_points p
    \<and> get_neighbors_sync p' i ms = Inr (take (np_cap p) (old @ fresh ns (set old)))
    \<and> (\<forall>j. j \<noteq> i \<longrightarrow> get_neighbors_sync p' j ms = get_neighbors_sync p j ms)"
proof -
  let ?g = "np_graph p"
  obtain row where row: "vs_get_slice ?g i = Inr row" "length row = vs_dim ?g"
    "unat (row ! np_cap p) \<le> np_cap p" "np_cap p < length row"
    "get_neighbors_sync p i ms = Inr (take (unat (row ! np_cap p)) row)"
    using slice_row [OF wf i] by blast
  define len where "len = unat (row ! np_cap p)"
  have o: "old = take len row" using old row(5) by (simp add: len_def)
  obtain row' n where ap: "append_loop (np_cap p) row len ns = (row', n)" by (metis surj_pair)
  from append_loop_spec [OF ap] row(3,4) o
  have sp: "length row' = length row" "n \<le> np_cap p" "take n row' = take (np_cap p) (old @ fresh ns (set old))"
    by (auto simp: len_def)
  let ?row = "row'[vs_dim ?g - 1 := of_nat n]"
  have "vs_dim ?g \<le> 2 ^ 32" using wf by (simp add: np_wf_def)
  then have n32: "n < 2 ^ 32" using sp(2) row(2,4) by (simp add: np_cap_def)
  have l: "length ?row = vs_dim ?g" using sp(1) row(2) by simp
  have u: "unat (?row ! np_cap p) = n" using n32 row(2,4) sp(1) by (simp add: np_cap_def unat_of_nat)
  have t: "take n ?row = take n row'" using sp(2) by (simp add: np_cap_def)
  have "row_len ?g row = Inr len" "row_prefix row len = Inr old"
    using row(2-4) o by (simp_all add: row_len_def row_prefix_def len_def np_cap_def)
  then have "append_vector_sync p i ns = Inr (p\<lparr>np_graph := vs_put_slice i ?row ?g\<rparr>)"
    using i row(1) ap n32
    by (simp add: append_vector_sync_def Let_def check_lock_def try_into_vector_id_def np_cap_def)
  then show ?thesis using put_row [OF wf i l] u t sp by simp
qed

interpretation snp: indexed_accessor np_wf np_locks np_cap "\<lambda>p i. get_neighbors_sync p i []"
  set_neighbors_sync append_vector_sync
proof
  fix p i "ns" old
  assume a: "np_wf p" "i < np_locks p"
  show "\<exists>ns. get_neighbors_sync p i [] = Inr ns \<and> length ns \<le> np_cap p"
    using slice_row [OF a, of "[]"] by (metis length_take min.cobounded2 le_trans)
  show "\<exists>p'. set_neighbors_sync p i ns = Inr p' \<and> np_wf p' \<and> (\<lambda>i. i < np_locks p') = (\<lambda>i. i < np_locks p) \<and> np_cap p' = np_cap p
    \<and> get_neighbors_sync p' i [] = Inr ns \<and> (\<forall>j. j \<noteq> i \<longrightarrow> get_neighbors_sync p' j [] = get_neighbors_sync p j [])"
    if "length ns \<le> np_cap p" using np_set_law [OF a that, of "[]"] by metis
  show "\<exists>p'. append_vector_sync p i ns = Inr p' \<and> np_wf p' \<and> (\<lambda>i. i < np_locks p') = (\<lambda>i. i < np_locks p) \<and> np_cap p' = np_cap p
    \<and> get_neighbors_sync p' i [] = Inr (take (np_cap p) (old @ fresh ns (set old)))
    \<and> (\<forall>j. j \<noteq> i \<longrightarrow> get_neighbors_sync p' j [] = get_neighbors_sync p j [])"
    if "get_neighbors_sync p i [] = Inr old" using np_append_law [OF a that] by metis
qed

lemma np_new_ok:
  assumes "f32_as_usize (f32_mul (f32_of_nat max_degree) slack) < 2 ^ 32"
  shows "\<exists>p. np_new addr max_points num_start_points max_degree slack = Inr p \<and> np_wf p
    \<and> np_locks p = max_points + num_start_points \<and> np_num_start_points p = num_start_points
    \<and> np_cap p = f32_as_usize (f32_mul (f32_of_nat max_degree) slack)
    \<and> (\<forall>i<max_points + num_start_points. get_neighbors_sync p i [] = Inr [])"
proof -
  let ?size = "max_points + num_start_points" and ?dim = "f32_as_usize (f32_mul (f32_of_nat max_degree) slack) + 1"
  have "(4::nat) dvd 64" by simp
  from with_capacity_ok [OF this, of "0 :: 32 word" addr ?size ?dim]
  obtain vs :: "32 word vector_store" where vs: "with_capacity 0 4 addr ?size ?dim = Inr vs" "store_wf vs"
    "vs_dim vs = ?dim" "vs_max_vectors vs = ?size" "set (vs_store vs) \<subseteq> {0}" by blast
  define p where "p = \<lparr>np_graph = vs, np_locks = ?size, np_num_start_points = num_start_points\<rparr>"
  have new: "np_new addr max_points num_start_points max_degree slack = Inr p"
    using vs(1) by (simp add: np_new_def p_def)
  have zero: "row ! (?dim - 1) = 0" if "i < ?size" "vs_get_slice vs i = Inr row" for i row
  proof -
    have r: "row = take ?dim (drop (row_offset vs i) (vs_store vs))" using that vs by (simp add: vs_get_slice_def)
    then have "length row = ?dim" using row_in_store [OF vs(2), of i] that vs by simp
    then have "row ! (?dim - 1) \<in> set row" by (intro nth_mem) simp
    then show ?thesis using vs(5) r by (auto dest: in_set_takeD in_set_dropD)
  qed
  have wf: "np_wf p" using vs zero assms by (auto simp: np_wf_def p_def)
  moreover have "get_neighbors_sync p i [] = Inr []" if "i < ?size" for i
  proof -
    have "i < np_locks p" using that by (simp add: p_def)
    from slice_row [OF wf this, of "[]"] obtain row where "vs_get_slice (np_graph p) i = Inr row"
      "get_neighbors_sync p i [] = Inr (take (unat (row ! np_cap p)) row)" .
    then show ?thesis using zero [OF that, of row] vs by (simp add: p_def np_cap_def)
  qed
  ultimately show ?thesis using new vs by (auto simp: p_def np_cap_def)
qed

text \<open>The accessor of \<open>inmem/provider.rs\<close>: identifiers are 32-bit numbers.\<close>

definition na_get_neighbors :: "neighbor_provider \<Rightarrow> 32 word \<Rightarrow> fault + 32 word list" where
  "na_get_neighbors p i = get_neighbors_sync p (unat i) []"

definition na_set_neighbors :: "neighbor_provider \<Rightarrow> 32 word \<Rightarrow> 32 word list \<Rightarrow> fault + neighbor_provider" where
  "na_set_neighbors p i ns = set_neighbors_sync p (unat i) ns"

definition na_append_vector :: "neighbor_provider \<Rightarrow> 32 word \<Rightarrow> 32 word list \<Rightarrow> fault + neighbor_provider" where
  "na_append_vector p i ns = append_vector_sync p (unat i) ns"

definition na_valid :: "neighbor_provider \<Rightarrow> 32 word \<Rightarrow> bool" where
  "na_valid p i \<longleftrightarrow> unat i < np_locks p"

interpretation na: neighbor_accessor np_wf na_valid np_cap na_get_neighbors na_set_neighbors na_append_vector
proof
  fix p :: neighbor_provider and i :: "32 word" and "ns" old :: "32 word list"
  assume a: "np_wf p" "na_valid p i"
  then have v: "unat i < np_locks p" by (simp add: na_valid_def)
  have valid: "na_valid q = na_valid p" if "np_locks q = np_locks p" for q using that by (auto simp: na_valid_def)
  show "\<exists>ns. na_get_neighbors p i = Inr ns \<and> length ns \<le> np_cap p"
    using snp.get_law [OF a(1) v] by (simp add: na_get_neighbors_def)
  show "\<exists>p'. na_set_neighbors p i ns = Inr p' \<and> np_wf p' \<and> na_valid p' = na_valid p \<and> np_cap p' = np_cap p
    \<and> na_get_neighbors p' i = Inr ns \<and> (\<forall>j. j \<noteq> i \<longrightarrow> na_get_neighbors p' j = na_get_neighbors p j)"
    if "length ns \<le> np_cap p"
  proof -
    from np_set_law [OF a(1) v that, of "[]"] obtain q where "set_neighbors_sync p (unat i) ns = Inr q" "np_wf q"
      "np_locks q = np_locks p" "np_cap q = np_cap p" "get_neighbors_sync q (unat i) [] = Inr ns"
      "\<forall>j. j \<noteq> unat i \<longrightarrow> get_neighbors_sync q j [] = get_neighbors_sync p j []" by (elim exE conjE)
    then show ?thesis using valid [of q]
      by (intro exI [of _ q]) (simp add: na_set_neighbors_def na_get_neighbors_def word_unat_eq_iff)
  qed
  show "\<exists>p'. na_append_vector p i ns = Inr p' \<and> np_wf p' \<and> na_valid p' = na_valid p \<and> np_cap p' = np_cap p
    \<and> na_get_neighbors p' i = Inr (take (np_cap p) (old @ fresh ns (set old)))
    \<and> (\<forall>j. j \<noteq> i \<longrightarrow> na_get_neighbors p' j = na_get_neighbors p j)"
    if "na_get_neighbors p i = Inr old"
  proof -
    from np_append_law [OF a(1) v that [unfolded na_get_neighbors_def], of "ns"]
    obtain q where "append_vector_sync p (unat i) ns = Inr q" "np_wf q"
      "np_locks q = np_locks p" "np_cap q = np_cap p"
      "get_neighbors_sync q (unat i) [] = Inr (take (np_cap p) (old @ fresh ns (set old)))"
      "\<forall>j. j \<noteq> unat i \<longrightarrow> get_neighbors_sync q j [] = get_neighbors_sync p j []" by (elim exE conjE)
    then show ?thesis using valid [of q]
      by (intro exI [of _ q]) (simp add: na_append_vector_def na_get_neighbors_def word_unat_eq_iff)
  qed
qed

section \<open>Properties\<close>

text \<open>Whatever address the allocator returns, a vector store for elements whose size divides 64
  is created without a failed assertion, every row lies inside the allocation, starts at an address
  that is a multiple of 64 bytes, and rows do not overlap: the unsafe slices are in bounds.\<close>

theorem aligned_store_layout:
  assumes "elem_size dvd 64" "elem_size dvd addr"
  shows "\<exists>vs. with_capacity zeroed elem_size addr max_vectors dim = Inr vs
    \<and> (\<forall>i. i < max_vectors \<longrightarrow>
         row_offset vs i + dim \<le> length (vs_store vs)
         \<and> (addr + elem_size * row_offset vs i) mod 64 = 0
         \<and> (\<forall>j. i < j \<longrightarrow> row_offset vs i + dim \<le> row_offset vs j))"
proof -
  obtain vs where vs: "with_capacity zeroed elem_size addr max_vectors dim = Inr vs" "store_wf vs"
    "vs_dim vs = dim" "vs_max_vectors vs = max_vectors" "vs_padded vs * elem_size mod 64 = 0"
    "vs_start_index vs = align_offset elem_size addr"
    using with_capacity_ok [OF assms(1), of zeroed addr max_vectors dim] .
  have "elem_size dvd 64 - addr mod 64" by (intro dvd_diff_nat dvd_mod assms)
  then have "elem_size dvd (64 - addr mod 64) mod 64" by (intro dvd_mod assms)
  then have "addr + elem_size * vs_start_index vs = addr + (64 - addr mod 64) mod 64"
    by (simp add: vs(6) align_offset_def)
  also have "\<dots> mod 64 = (addr mod 64 + (64 - addr mod 64)) mod 64"
    by (simp only: mod_add_left_eq mod_add_right_eq)
  also have "\<dots> = 0" by (subst le_add_diff_inverse) (simp_all add: less_imp_le)
  finally have first: "64 dvd addr + elem_size * vs_start_index vs" by (rule mod_0_imp_dvd)
  have "64 dvd vs_padded vs * elem_size" using vs(5) by (rule mod_0_imp_dvd)
  then have "64 dvd i * (vs_padded vs * elem_size)" for i by (rule dvd_mult)
  with first have row: "64 dvd (addr + elem_size * vs_start_index vs) + i * (vs_padded vs * elem_size)" for i by (rule dvd_add)
  have "64 dvd addr + elem_size * row_offset vs i" for i
    using row [of i] unfolding row_offset_def by (simp only: distrib_left ac_simps)
  then have "(addr + elem_size * row_offset vs i) mod 64 = 0" for i by (rule dvd_imp_mod_0)
  then show ?thesis using vs row_in_store [OF vs(2)] rows_disjoint [OF vs(2)] by auto
qed

text \<open>C19: in a well-formed graph store, writing an adjacency list that fits is read back exactly and
  leaves all others alone; appending adds the new identifiers in order as far as they fit, without
  duplicates; a list that is too long or an identifier out of range is a panic.  A new store is well-formed and
  empty.\<close>

theorem neighbor_provider_correct:
  assumes "np_wf p" "i < np_locks p" "get_neighbors_sync p i [] = Inr old"
  shows "(if length ns \<le> np_cap p
      then \<exists>p'. set_neighbors_sync p i ns = Inr p' \<and> np_wf p' \<and> get_neighbors_sync p' i [] = Inr ns
             \<and> (\<forall>j. j \<noteq> i \<longrightarrow> get_neighbors_sync p' j [] = get_neighbors_sync p j [])
      else set_neighbors_sync p i ns = Inl AssertFault)
    \<and> (\<exists>p'. append_vector_sync p i ns = Inr p' \<and> np_wf p'
         \<and> get_neighbors_sync p' i [] = Inr (take (np_cap p) (old @ fresh ns (set old)))
         \<and> (\<forall>j. j \<noteq> i \<longrightarrow> get_neighbors_sync p' j [] = get_neighbors_sync p j []))
    \<and> (np_locks p \<le> k \<longrightarrow> get_neighbors_sync p k [] = Inl IndexFault \<and> append_vector_sync p k ns = Inl IndexFault)"
proof -
  have "set_neighbors_sync p i ns = Inl AssertFault" if "\<not> length ns \<le> np_cap p"
  proof -
    have "\<not> length ns < vs_dim (np_graph p)" using that by (simp add: np_cap_def)
    then show ?thesis by (simp add: set_neighbors_sync_def)
  qed
  moreover have "get_neighbors_sync p k [] = Inl IndexFault \<and> append_vector_sync p k ns = Inl IndexFault"
    if "np_locks p \<le> k" using that by (simp add: get_neighbors_sync_def append_vector_sync_def check_lock_def)
  moreover have "\<exists>p'. set_neighbors_sync p i ns = Inr p' \<and> np_wf p' \<and> get_neighbors_sync p' i [] = Inr ns
      \<and> (\<forall>j. j \<noteq> i \<longrightarrow> get_neighbors_sync p' j [] = get_neighbors_sync p j [])" if "length ns \<le> np_cap p"
    using snp.set_law [OF assms(1,2) that] by blast
  moreover note snp.append_law [OF assms, of "ns"]
  ultimately show ?thesis unfolding if_bool_eq_conj by blast
qed

theorem neighbor_provider_correct_witness:
  "\<exists>p p'. np_new 0 2 1 3 f32_one = Inr p \<and> append_vector_sync p 1 [7, 8, 7, 9, 5] = Inr p'
    \<and> get_neighbors_sync p' 1 [] = Inr [7, 8, 9]"
proof -
  have c: "f32_as_usize (f32_mul (f32_of_nat 3) f32_one) = 3" by (rule f32_of_nat_exact) simp
  then obtain p where p: "np_new 0 2 1 3 f32_one = Inr p" "np_wf p" "np_locks p = 3" "np_cap p = 3"
    "get_neighbors_sync p 1 [] = Inr []" using np_new_ok [of 3 f32_one 0 2 1] by auto
  with neighbor_provider_correct [OF p(2) _ p(5), of "[7, 8, 7, 9, 5]"]
  show ?thesis by auto
qed

end
