(* ===== verification/Graph_File.thy ===== *)
theory Graph_File
  imports Neighbor_Provider Bytes
begin

text \<open>
  The file format of a graph: \<open>save_graph\<close> and \<open>load_graph\<close> of
  \<open>diskann-providers/src/storage/bin.rs\<close>, and their use by the neighbor provider and by the
  adaptor that writes the format of the disk index.

  A file is its bytes and a position.  Writing to a file does not fail here; reading beyond its end
  is the error \<open>UnexpectedEof\<close>.  The file size in the header is a \<open>u64\<close> and the lengths are \<open>u32\<close>,
  both wrap.
\<close>

section \<open>Files\<close>

record out_file =
  f_bytes :: "byte list"
  f_pos :: nat

definition create_for_write :: out_file where
  "create_for_write = \<lparr>f_bytes = [], f_pos = 0\<rparr>"

definition write_all :: "byte list \<Rightarrow> out_file \<Rightarrow> out_file" where
  "write_all data f =
     f\<lparr>f_bytes := take (f_pos f) (f_bytes f) @ data @ drop (f_pos f + length data) (f_bytes f),
       f_pos := f_pos f + length data\<rparr>"

definition seek_start :: "nat \<Rightarrow> out_file \<Rightarrow> out_file" where
  "seek_start n f = f\<lparr>f_pos := n\<rparr>"

section \<open>Saving\<close>

text \<open>The trait \<open>GetAdjacencyList\<close>.\<close>

record 'e adjacency_source =
  get_adjacency_list :: "nat \<Rightarrow> 'e + 32 word list"
  src_total :: nat
  additional_points :: "64 word"
  src_max_degree :: "32 word option"

definition save_node ::
  "'e adjacency_source \<Rightarrow> nat \<Rightarrow> out_file \<times> 32 word \<times> 64 word \<Rightarrow> 'e + (out_file \<times> 32 word \<times> 64 word)" where
  "save_node graph i st =
     (case st of (out, observed_max_degree, index_size) \<Rightarrow>
        rbind (get_adjacency_list graph i) (\<lambda>neighbors.
          let num_neighbors = (of_nat (length neighbors) :: 32 word);
              out1 = write_all (le_bytes 4 (unat num_neighbors)) out;
              out2 = fold (\<lambda>n. write_all (le_bytes 4 (unat n))) neighbors out1
          in Inr (out2, max observed_max_degree num_neighbors,
                  index_size + of_nat (4 * (1 + length neighbors)))))"

definition save_graph :: "'e adjacency_source \<Rightarrow> 32 word \<Rightarrow> 'e + (byte list \<times> nat)" where
  "save_graph graph start_point =
     (let out = write_all (le_bytes 8 24) create_for_write;
          out = write_all (le_bytes 4 0) out;
          out = write_all (le_bytes 4 (unat start_point)) out;
          out = write_all (le_bytes 8 (unat (additional_points graph))) out
      in rbind (rfold (save_node graph) [0..<src_total graph] (out, 0, 24)) (\<lambda>(out, observed_max_degree, index_size).
           let max_degree = (case src_max_degree graph of Some d \<Rightarrow> d | None \<Rightarrow> observed_max_degree);
               out = seek_start 0 out;
               out = write_all (le_bytes 8 (unat index_size)) out;
               out = write_all (le_bytes 4 (unat max_degree)) out
           in Inr (f_bytes out, unat index_size)))"

section \<open>Loading\<close>

datatype load_error = UnexpectedEof | TooFewPoints nat nat | LoadPanic fault

definition load_panic :: "fault + 'a \<Rightarrow> load_error + 'a" where
  "load_panic r = (case r of Inl f \<Rightarrow> Inl (LoadPanic f) | Inr x \<Rightarrow> Inr x)"

definition read_uint :: "nat \<Rightarrow> byte list \<Rightarrow> nat \<Rightarrow> load_error + (nat \<times> nat)" where
  "read_uint n file pos =
     (if pos + n \<le> length file then Inr (from_le (take n (drop pos file)), pos + n) else Inl UnexpectedEof)"

fun read_u32_into :: "nat \<Rightarrow> byte list \<Rightarrow> nat \<Rightarrow> load_error + (32 word list \<times> nat)" where
  "read_u32_into 0 file pos = Inr ([], pos)"
| "read_u32_into (Suc n) file pos =
     rbind (read_uint 4 file pos) (\<lambda>(v, pos1).
     rbind (read_u32_into n file pos1) (\<lambda>(vs, pos2). Inr (of_nat v # vs, pos2)))"

text \<open>The first pass counts the points: the position the code tracks, the position of the file and
  the number of points.\<close>

function count_points :: "byte list \<Rightarrow> nat \<Rightarrow> nat \<Rightarrow> nat \<Rightarrow> nat \<Rightarrow> load_error + (nat \<times> nat \<times> nat)" where
  "count_points file file_size position pos num_points =
     (if position < file_size then
        rbind (read_uint 4 file pos) (\<lambda>(num_neighbors, pos').
          let seek_amount = num_neighbors * 4
          in count_points file file_size (position + (4 + seek_amount)) (pos' + seek_amount) (num_points + 1))
      else Inr (position, pos, num_points))"
  by pat_completeness auto
termination by (relation "measure (\<lambda>(_, file_size, position, _, _). file_size - position)") auto

declare count_points.simps [simp del]

text \<open>The second pass reads the lists into a buffer of \<open>max_degree\<close> entries and stores them.\<close>

function fill_graph ::
  "byte list \<Rightarrow> ('s \<Rightarrow> nat \<Rightarrow> 32 word list \<Rightarrow> fault + 's) \<Rightarrow> nat \<Rightarrow> nat \<Rightarrow> nat \<Rightarrow> nat \<Rightarrow> nat \<Rightarrow> 's \<Rightarrow> load_error + 's" where
  "fill_graph file set_adjacency_list max_degree file_size position pos num_points graph =
     (if position < file_size then
        rbind (read_uint 4 file pos) (\<lambda>(num_neighbors, pos1).
        if max_degree < num_neighbors then Inl (LoadPanic IndexFault)
        else rbind (read_u32_into num_neighbors file pos1) (\<lambda>(buffer, pos2).
          rbind (load_panic (set_adjacency_list graph num_points buffer)) (\<lambda>graph'.
          fill_graph file set_adjacency_list max_degree file_size (position + 4 * (1 + num_neighbors)) pos2
            (num_points + 1) graph')))
      else Inr graph)"
  by pat_completeness auto
termination by (relation "measure (\<lambda>(_, _, _, file_size, position, _, _, _). file_size - position)") auto

declare fill_graph.simps [simp del]

definition METADATA_SIZE :: nat where "METADATA_SIZE = 24"

definition load_graph ::
  "(nat \<Rightarrow> nat \<Rightarrow> nat \<Rightarrow> load_error + 's) \<Rightarrow> ('s \<Rightarrow> nat \<Rightarrow> 32 word list \<Rightarrow> fault + 's) \<Rightarrow> byte list \<Rightarrow> load_error + 's" where
  "load_graph create set_adjacency_list file =
     rbind (read_uint 8 file 0) (\<lambda>(file_size, pos).
     rbind (read_uint 4 file pos) (\<lambda>(max_degree, pos).
     rbind (read_uint 4 file pos) (\<lambda>(start, pos).
     rbind (read_uint 8 file pos) (\<lambda>(num_start_points, pos).
     rbind (count_points file file_size METADATA_SIZE pos 0) (\<lambda>(position, pos, num_points).
     rbind (create num_points max_degree num_start_points) (\<lambda>graph.
     fill_graph file set_adjacency_list max_degree file_size METADATA_SIZE (pos - (position - METADATA_SIZE)) 0 graph))))))"

section \<open>The provider's source, sink and adaptor\<close>

definition np_source :: "neighbor_provider \<Rightarrow> fault adjacency_source" where
  "np_source p =
     \<lparr>get_adjacency_list = (\<lambda>i. get_neighbors_sync p i al_new), src_total = np_locks p,
      additional_points = of_nat (np_num_start_points p), src_max_degree = Some (of_nat (vs_dim (np_graph p) - 1))\<rparr>"

definition save_direct :: "neighbor_provider \<Rightarrow> 32 word \<Rightarrow> fault + (byte list \<times> nat)" where
  "save_direct p start_point = save_graph (np_source p) start_point"

definition np_create :: "nat \<Rightarrow> nat \<Rightarrow> nat \<Rightarrow> nat \<Rightarrow> load_error + neighbor_provider" where
  "np_create addr num_points max_degree num_start_points =
     (if num_points < num_start_points then Inl (TooFewPoints num_start_points num_points)
      else load_panic (np_new addr (num_points - num_start_points) num_start_points max_degree f32_one))"

definition load_direct :: "nat \<Rightarrow> byte list \<Rightarrow> load_error + neighbor_provider" where
  "load_direct addr file = load_graph (np_create addr) set_neighbors_sync file"

text \<open>\<open>DiskAdaptor\<close>: the identifier of the virtual start point is replaced by a real one, the start
  points themselves are left out.\<close>

definition disk_adaptor :: "neighbor_provider \<Rightarrow> 32 word \<Rightarrow> 32 word \<Rightarrow> fault adjacency_source" where
  "disk_adaptor p inmem_start_point actual_start_point =
     \<lparr>get_adjacency_list = (\<lambda>i. rbind (get_neighbors_sync p i al_new) (\<lambda>list.
        Inr (map (\<lambda>n. if n = inmem_start_point then actual_start_point else n) list))),
      src_total = np_locks p - np_num_start_points p, additional_points = 0, src_max_degree = None\<rparr>"

definition save_disk_graph :: "neighbor_provider \<Rightarrow> 32 word \<Rightarrow> 32 word \<Rightarrow> fault + (byte list \<times> nat)" where
  "save_disk_graph p inmem_start_point actual_start_point =
     save_graph (disk_adaptor p inmem_start_point actual_start_point) actual_start_point"

section \<open>Reading what was written\<close>

lemma read_uint_at:
  assumes "file = pre @ le_bytes n v @ post" "v < 256 ^ n"
  shows "read_uint n file (length pre) = Inr (v, length pre + n)"
  using assms by (simp add: read_uint_def from_le_bytes)

lemma read_u32_into_at:
  assumes "file = pre @ concat (map (\<lambda>x. le_bytes 4 (unat x)) xs) @ post"
  shows "read_u32_into (length xs) file (length pre) = Inr (xs, length pre + 4 * length xs)"
  using assms
proof (induction xs arbitrary: pre)
  case (Cons x xs)
  have "unat x < 256 ^ 4" using unat_u32 [of x] by simp
  from read_uint_at [OF Cons.prems [unfolded list.map concat.simps append.assoc] this]
  have r: "read_uint 4 file (length pre) = Inr (unat x, length pre + 4)" .
  have "file = (pre @ le_bytes 4 (unat x)) @ concat (map (\<lambda>x. le_bytes 4 (unat x)) xs) @ post"
    using Cons.prems by simp
  from Cons.IH [OF this] r show ?case by simp
qed simp

section \<open>What is written\<close>

definition encode_list :: "32 word list \<Rightarrow> byte list" where
  "encode_list l = le_bytes 4 (length l) @ concat (map (\<lambda>x. le_bytes 4 (unat x)) l)"

definition body_size :: "32 word list list \<Rightarrow> nat" where
  "body_size ls = (\<Sum>l\<leftarrow>ls. 4 * (1 + length l))"

definition graph_bytes :: "nat \<Rightarrow> nat \<Rightarrow> nat \<Rightarrow> 32 word list list \<Rightarrow> byte list" where
  "graph_bytes max_degree start num_start ls =
     le_bytes 8 (24 + body_size ls) @ le_bytes 4 max_degree @ le_bytes 4 start @ le_bytes 8 num_start
     @ concat (map encode_list ls)"

lemma length_flat: "length (concat (map (\<lambda>x. le_bytes 4 (unat x)) l)) = 4 * length l"
  by (induction l) auto

lemma length_encode [simp]: "length (encode_list l) = 4 * (1 + length l)"
  by (simp add: encode_list_def length_flat)

lemma length_encodes: "length (concat (map encode_list ls)) = body_size ls"
  by (induction ls) (simp_all add: body_size_def)

definition at_end :: "out_file \<Rightarrow> bool" where
  "at_end f \<longleftrightarrow> f_pos f = length (f_bytes f)"

lemma write_at_end:
  assumes "at_end f"
  shows "at_end (write_all d f)" "f_bytes (write_all d f) = f_bytes f @ d"
  using assms by (auto simp: write_all_def at_end_def)

lemma write_fold_at_end:
  assumes "at_end f"
  shows "at_end (fold (\<lambda>n. write_all (g n)) xs f) \<and> f_bytes (fold (\<lambda>n. write_all (g n)) xs f) = f_bytes f @ concat (map g xs)"
  using assms by (induction xs arbitrary: f) (auto simp: write_at_end)

text \<open>What is known after the lists \<open>ls\<close> were written behind the bytes \<open>b0\<close>.\<close>

definition saved :: "byte list \<Rightarrow> 32 word list list \<Rightarrow> out_file \<times> 32 word \<times> 64 word \<Rightarrow> bool" where
  "saved b0 ls st \<longleftrightarrow>
     (case st of (out, observed, isize) \<Rightarrow>
        at_end out \<and> f_bytes out = b0 @ concat (map encode_list ls)
        \<and> unat observed = Max (insert 0 (length ` set ls)) \<and> isize = of_nat (24 + body_size ls))"

lemma save_node_saved:
  assumes "saved b0 ls st" "get_adjacency_list g i = Inr l" "length l < 2 ^ 32"
  obtains st' where "save_node g i st = Inr st'" "saved b0 (ls @ [l]) st'"
proof -
  obtain out observed isize where st: "st = (out, observed, isize)" by (cases st)
  from assms(1) have s: "at_end out" "f_bytes out = b0 @ concat (map encode_list ls)"
    "unat observed = Max (insert 0 (length ` set ls))" "isize = of_nat (24 + body_size ls)" by (simp_all add: saved_def st)
  have u: "unat (of_nat (length l) :: 32 word) = length l" using assms(3) by (simp add: unat_of_nat)
  let ?out1 = "write_all (le_bytes 4 (length l)) out"
  let ?out2 = "fold (\<lambda>n. write_all (le_bytes 4 (unat n))) l ?out1"
  let ?st = "(?out2, max observed (of_nat (length l)), isize + of_nat (4 * (1 + length l)))"
  have "save_node g i st = Inr ?st" using assms(2) by (simp add: save_node_def st Let_def u)
  moreover have "at_end ?out2 \<and> f_bytes ?out2 = b0 @ concat (map encode_list (ls @ [l]))"
    using write_fold_at_end [OF write_at_end(1) [OF s(1)]] write_at_end(2) [OF s(1)] s(2)
    by (simp add: encode_list_def)
  moreover have "unat (max observed (of_nat (length l))) = Max (insert 0 (length ` set (ls @ [l])))"
  proof -
    have "unat (max observed (of_nat (length l))) = max (unat observed) (length l)"
      by (simp add: max_def word_le_nat_alt u)
    also have "\<dots> = Max (insert (length l) (insert 0 (length ` set ls)))" by (simp add: s(3) max.commute)
    finally show ?thesis by (simp add: insert_commute)
  qed
  moreover have "isize + of_nat (4 * (1 + length l)) = of_nat (24 + body_size (ls @ [l]))"
    by (simp add: s(4) body_size_def)
  ultimately show thesis by (intro that [of ?st]) (simp_all add: saved_def)
qed

lemma save_nodes_saved:
  assumes "\<forall>i<length ls. get_adjacency_list g (k + i) = Inr (ls ! i) \<and> length (ls ! i) < 2 ^ 32" "saved b0 ls0 st"
  shows "\<exists>st'. rfold (save_node g) [k..<k + length ls] st = Inr st' \<and> saved b0 (ls0 @ ls) st'"
  using assms
proof (induction ls arbitrary: k ls0 st)
  case (Cons l ls)
  have l: "get_adjacency_list g k = Inr l" "length l < 2 ^ 32" using Cons.prems(1) by (auto dest: spec [of _ 0])
  from save_node_saved [OF Cons.prems(2) l] obtain st1 where st1: "save_node g k st = Inr st1" "saved b0 (ls0 @ [l]) st1" .
  have "\<forall>i<length ls. get_adjacency_list g (Suc k + i) = Inr (ls ! i) \<and> length (ls ! i) < 2 ^ 32"
    using Cons.prems(1) by (auto dest: spec [of _ "Suc _"])
  note IH = Cons.IH [OF this st1(2)]
  have "[k..<k + length (l # ls)] = k # [Suc k..<Suc k + length ls]" by (simp add: upt_conv_Cons del: upt_Suc)
  then have "rfold (save_node g) [k..<k + length (l # ls)] st = rfold (save_node g) [Suc k..<Suc k + length ls] st1"
    by (simp only: rfold.simps st1(1) rbind_simps)
  with IH show ?case by (simp only: append_Cons append_Nil append.assoc)
qed simp

lemma save_graph_bytes:
  assumes "\<forall>i<length ls. get_adjacency_list g i = Inr (ls ! i) \<and> length (ls ! i) < 2 ^ 32"
    and "src_total g = length ls" "24 + body_size ls < 2 ^ 64"
  shows "save_graph g start = Inr (graph_bytes
    (case src_max_degree g of Some d \<Rightarrow> unat d | None \<Rightarrow> Max (insert 0 (length ` set ls)))
    (unat start) (unat (additional_points g)) ls, 24 + body_size ls)"
proof -
  let ?hd = "le_bytes 4 (unat start) @ le_bytes 8 (unat (additional_points g))"
  let ?b0 = "le_bytes 8 24 @ le_bytes 4 0 @ ?hd"
  let ?out0 = "write_all (le_bytes 8 (unat (additional_points g))) (write_all (le_bytes 4 (unat start))
    (write_all (le_bytes 4 0) (write_all (le_bytes 8 24) create_for_write)))"
  have "at_end create_for_write" "f_bytes create_for_write = []" by (simp_all add: at_end_def create_for_write_def)
  then have "saved ?b0 [] (?out0, 0, 24)" by (simp add: saved_def write_at_end body_size_def)
  from save_nodes_saved [of ls g 0, OF _ this] assms(1) obtain out observed isize where
    r: "rfold (save_node g) [0..<length ls] (?out0, 0, 24) = Inr (out, observed, isize)"
    and s: "saved ?b0 ls (out, observed, isize)" by auto
  have u: "unat isize = 24 + body_size ls" using s assms(3)
    by (simp only: saved_def prod.case unat_of_nat) simp
  have b: "f_bytes out = ?b0 @ concat (map encode_list ls)" using s by (simp add: saved_def)
  have ov: "f_bytes (write_all (le_bytes 4 d) (write_all (le_bytes 8 v) (seek_start 0 out)))
      = le_bytes 8 v @ le_bytes 4 d @ ?hd @ concat (map encode_list ls)" for v d
    by (simp add: write_all_def seek_start_def b)
  have "unat (case src_max_degree g of None \<Rightarrow> observed | Some d \<Rightarrow> d)
      = (case src_max_degree g of Some d \<Rightarrow> unat d | None \<Rightarrow> Max (insert 0 (length ` set ls)))"
    using s by (simp add: saved_def split: option.splits)
  with r u ov show ?thesis by (simp add: save_graph_def Let_def assms(2) graph_bytes_def)
qed

section \<open>What is read back\<close>

lemma count_points_at:
  assumes "file = pre @ concat (map encode_list ls)" "\<forall>l\<in>set ls. length l < 2 ^ 32"
  shows "count_points file (length pre + body_size ls) (length pre) (length pre) k
    = Inr (length file, length file, k + length ls)"
  using assms
proof (induction ls arbitrary: pre k)
  case Nil
  then show ?case by (subst count_points.simps) (simp add: body_size_def)
next
  case (Cons l ls)
  have "read_uint 4 file (length pre) = Inr (length l, length pre + 4)"
    using Cons.prems by (intro read_uint_at) (auto simp: encode_list_def)
  moreover have "file = (pre @ encode_list l) @ concat (map encode_list ls)" using Cons.prems(1) by simp
  note Cons.IH [OF this, of "Suc k"]
  ultimately show ?case using Cons.prems(2)
    by (subst count_points.simps) (simp add: body_size_def Let_def algebra_simps)
qed

lemma fill_graph_at:
  assumes "file = pre @ concat (map encode_list ls)" "\<forall>l\<in>set ls. length l < 2 ^ 32 \<and> length l \<le> max_degree"
  shows "fill_graph file setl max_degree (length pre + body_size ls) (length pre) (length pre) k g
    = load_panic (rfold (\<lambda>(i, l) g. setl g i l) (enumerate k ls) g)"
  using assms
proof (induction ls arbitrary: pre k g)
  case Nil
  then show ?case by (subst fill_graph.simps) (simp add: body_size_def load_panic_def)
next
  case (Cons l ls)
  have "read_uint 4 file (length pre) = Inr (length l, length pre + 4)"
    using Cons.prems by (intro read_uint_at) (auto simp: encode_list_def)
  moreover have "read_u32_into (length l) file (length pre + 4) = Inr (l, length pre + 4 * (1 + length l))"
    using read_u32_into_at [of _ "pre @ le_bytes 4 (length l)" l "concat (map encode_list ls)"] Cons.prems(1)
    by (simp add: encode_list_def [of l])
  moreover have "file = (pre @ encode_list l) @ concat (map encode_list ls)" using Cons.prems(1) by simp
  note IH = Cons.IH [OF this, of "Suc k"]
  have "length pre < length pre + body_size (l # ls)" by (simp add: body_size_def)
  ultimately show ?case using Cons.prems(2) IH
    by (subst fill_graph.simps, cases "setl g k l") (simp_all add: body_size_def load_panic_def algebra_simps)
qed

lemma load_graph_bytes:
  assumes "\<forall>l\<in>set ls. length l \<le> max_degree" "max_degree < 2 ^ 32" "start < 2 ^ 32" "num_start < 2 ^ 64"
    and "24 + body_size ls < 2 ^ 64"
  shows "load_graph create setl (graph_bytes max_degree start num_start ls)
    = rbind (create (length ls) max_degree num_start) (\<lambda>g. load_panic (rfold (\<lambda>(i, l) g. setl g i l) (enumerate 0 ls) g))"
proof -
  let ?file = "graph_bytes max_degree start num_start ls"
  let ?size = "le_bytes 8 (24 + body_size ls)" and ?deg = "le_bytes 4 max_degree" and ?st = "le_bytes 4 start"
  let ?pre = "?size @ ?deg @ ?st @ le_bytes 8 num_start"
  have f: "?file = ?pre @ concat (map encode_list ls)" by (simp add: graph_bytes_def)
  have r: "read_uint 8 ?file 0 = Inr (24 + body_size ls, 8)"
    "read_uint 4 ?file 8 = Inr (max_degree, 12)"
    "read_uint 4 ?file 12 = Inr (start, 16)"
    "read_uint 8 ?file 16 = Inr (num_start, 24)"
    using assms by (simp_all add: read_uint_def graph_bytes_def from_le_bytes)
  have l: "\<forall>l\<in>set ls. length l < 2 ^ 32" using assms(1,2) by fastforce
  have c: "count_points ?file (24 + body_size ls) 24 24 0 = Inr (24 + body_size ls, 24 + body_size ls, length ls)"
    using count_points_at [OF f l, of 0] by (simp add: f length_encodes)
  have "fill_graph ?file setl max_degree (24 + body_size ls) 24 24 0 g
      = load_panic (rfold (\<lambda>(i, l) g. setl g i l) (enumerate 0 ls) g)" for g
    using fill_graph_at [OF f, of max_degree setl 0 g] assms(1) l by simp
  with r c show ?thesis by (simp add: load_graph_def METADATA_SIZE_def cong: rbind_cong)
qed

section \<open>Round trips of the provider\<close>

lemma set_neighbors_start_points:
  "set_neighbors_sync p i l = Inr q \<Longrightarrow> np_num_start_points q = np_num_start_points p"
  by (auto simp: set_neighbors_sync_def Let_def rbind_eq_Inr_iff split: if_splits)

lemma set_all_start_points:
  "rfold (\<lambda>(i, l) p. set_neighbors_sync p i l) xs p = Inr q \<Longrightarrow> np_num_start_points q = np_num_start_points p"
  by (erule rfold_invariant [where P = "\<lambda>q. np_num_start_points q = np_num_start_points p"])
    (auto simp: set_neighbors_start_points)

lemma load_direct_bytes:
  assumes "\<forall>l\<in>set ls. length l \<le> max_degree" "max_degree < 2 ^ 24" "start < 2 ^ 32"
    and "num_start \<le> length ls" "24 + body_size ls < 2 ^ 64"
  shows "\<exists>p. load_direct addr (graph_bytes max_degree start num_start ls) = Inr p \<and> np_wf p
    \<and> np_locks p = length ls \<and> np_num_start_points p = num_start \<and> np_cap p = max_degree
    \<and> (\<forall>i<length ls. get_neighbors_sync p i [] = Inr (ls ! i))"
proof -
  have "(\<Sum>l\<leftarrow>ls. 4 * (1 + length l)) \<ge> (\<Sum>l\<leftarrow>ls. 1)" by (rule sum_list_mono) simp
  then have "length ls \<le> body_size ls" by (simp add: body_size_def sum_list_triv)
  then have ns: "num_start < 2 ^ 64" and md: "max_degree < 2 ^ 32" using assms(2,4,5) by simp_all
  note d = f32_of_nat_exact(3) [OF assms(2)]
  have "f32_as_usize (f32_mul (f32_of_nat max_degree) f32_one) < 2 ^ 32" using md d by simp
  from np_new_ok [OF this, of addr "length ls - num_start" num_start] assms(4)
  obtain p0 where p0: "np_new addr (length ls - num_start) num_start max_degree f32_one = Inr p0" "np_wf p0"
    "np_locks p0 = length ls" "np_num_start_points p0 = num_start" "np_cap p0 = max_degree" by (auto simp: d)
  obtain p where p: "rfold (\<lambda>(i, l) p. set_neighbors_sync p i l) (enumerate 0 ls) p0 = Inr p" "np_wf p"
    "np_locks p = length ls" "np_cap p = max_degree" "\<forall>i<length ls. get_neighbors_sync p i [] = Inr (ls ! i)"
    using snp.set_all [OF p0(2), of 0 ls] p0(3,5) assms(1) by auto
  have "np_create addr (length ls) max_degree num_start = Inr p0"
    using assms(4) p0(1) by (simp add: np_create_def load_panic_def)
  then have "load_direct addr (graph_bytes max_degree start num_start ls) = Inr p"
    using load_graph_bytes [OF assms(1) md assms(3) ns assms(5), of "np_create addr" set_neighbors_sync] p(1)
    by (simp add: load_direct_def load_panic_def)
  with p p0(4) set_all_start_points [OF p(1)] show ?thesis by simp
qed

lemma body_size_le: "\<forall>l\<in>set ls. length l \<le> d \<Longrightarrow> body_size ls \<le> length ls * (4 * (1 + d))"
  using sum_list_mono [of ls "\<lambda>l. 4 * (1 + length l)" "\<lambda>_. 4 * (1 + d)"]
  by (simp add: body_size_def sum_list_triv)

lemma length_graph_bytes: "length (graph_bytes d st n ls) = 24 + body_size ls"
  by (simp add: graph_bytes_def length_encodes)

text \<open>The lists of a well-formed provider.\<close>

lemma provider_lists:
  assumes "np_wf p"
  obtains ls where "length ls = np_locks p" "\<forall>i<np_locks p. get_neighbors_sync p i [] = Inr (ls ! i)"
    "\<forall>l\<in>set ls. length l \<le> np_cap p"
proof -
  define ls where "ls = map (\<lambda>i. projr (get_neighbors_sync p i [])) [0..<np_locks p]"
  have "get_neighbors_sync p i [] = Inr (ls ! i) \<and> length (ls ! i) \<le> np_cap p" if "i < np_locks p" for i
    using snp.get_law [OF assms that] that by (auto simp: ls_def)
  then show thesis by (intro that [of ls]) (auto simp: ls_def in_set_conv_nth)
qed

section \<open>Properties\<close>

text \<open>C20: a graph that is saved and loaded again is the same graph: the number of points and of start
  points, the capacity and every adjacency list are restored, and the reported size is the size of
  the file.  The maximum degree has to be below \<open>2 ^ 24\<close>, the range in which it survives the
  conversion to \<open>f32\<close>, and the file has to be smaller than \<open>2 ^ 64\<close> bytes.\<close>

theorem graph_file_roundtrip:
  assumes wf: "np_wf p" and sp: "np_num_start_points p \<le> np_locks p" and cap: "np_cap p < 2 ^ 24"
    and sz: "24 + np_locks p * (4 * (1 + np_cap p)) < 2 ^ 64"
  shows "\<exists>file p'. save_direct p start = Inr (file, length file) \<and> load_direct addr file = Inr p'
    \<and> np_wf p' \<and> np_locks p' = np_locks p \<and> np_num_start_points p' = np_num_start_points p \<and> np_cap p' = np_cap p
    \<and> (\<forall>i. get_neighbors_sync p' i [] = get_neighbors_sync p i [])"
proof -
  obtain ls where ls: "length ls = np_locks p" "\<forall>i<np_locks p. get_neighbors_sync p i [] = Inr (ls ! i)"
    "\<forall>l\<in>set ls. length l \<le> np_cap p" using provider_lists [OF wf] .
  have b: "24 + body_size ls < 2 ^ 64" using body_size_le [OF ls(3)] sz ls(1) by simp
  have l32: "length (ls ! i) < 2 ^ 32" if "i < length ls" for i using ls(3) cap that by (auto dest!: nth_mem)
  have d: "unat (of_nat (np_cap p) :: 32 word) = np_cap p" using cap by (simp add: unat_of_nat)
  have n: "unat (of_nat (np_num_start_points p) :: 64 word) = np_num_start_points p"
  proof -
    have "np_locks p \<le> np_locks p * (4 * (1 + np_cap p))" by simp
    then have "np_num_start_points p < 2 ^ 64" using sp sz by linarith
    then show ?thesis by (simp add: unat_of_nat)
  qed
  have "save_direct p start = Inr (graph_bytes (np_cap p) (unat start) (np_num_start_points p) ls, 24 + body_size ls)"
    using save_graph_bytes [of ls "np_source p" start] ls l32 b d n
    by (simp add: save_direct_def np_source_def al_new_def np_cap_def)
  moreover obtain p' where p': "load_direct addr (graph_bytes (np_cap p) (unat start) (np_num_start_points p) ls) = Inr p'"
    "np_wf p'" "np_locks p' = np_locks p" "np_num_start_points p' = np_num_start_points p" "np_cap p' = np_cap p"
    "\<forall>i<np_locks p. get_neighbors_sync p' i [] = Inr (ls ! i)"
    using load_direct_bytes [OF ls(3) cap unat_u32 [of start] _ b, of "np_num_start_points p" addr] ls(1) sp by auto
  moreover have "get_neighbors_sync p' i [] = get_neighbors_sync p i []" for i
    using p'(3,6) ls(2) by (cases "i < np_locks p") (simp_all add: get_neighbors_sync_def check_lock_def)
  ultimately show ?thesis by (auto simp: length_graph_bytes)
qed

theorem graph_file_roundtrip_witness:
  "\<exists>p file p'. np_new 0 2 1 3 f32_one = Inr p \<and> save_direct p 2 = Inr (file, length file)
    \<and> load_direct 4 file = Inr p' \<and> get_neighbors_sync p' 1 [] = Inr []"
proof -
  have c: "f32_as_usize (f32_mul (f32_of_nat 3) f32_one) = 3" by (rule f32_of_nat_exact) simp
  then obtain p where p: "np_new 0 2 1 3 f32_one = Inr p" "np_wf p" "np_locks p = 3" "np_cap p = 3"
    "np_num_start_points p = 1" "get_neighbors_sync p 1 [] = Inr []" using np_new_ok [of 3 f32_one 0 2 1] by auto
  with graph_file_roundtrip [OF p(2), of 2 4] show ?thesis by auto
qed

text \<open>The file written for the disk index holds the points without the start points, every
  adjacency list with the virtual start point replaced by the real one, and as maximum degree the
  largest length of a list; loading it gives exactly that graph.\<close>

theorem disk_graph_file:
  assumes wf: "np_wf p" and cap: "np_cap p < 2 ^ 24" and sz: "24 + np_locks p * (4 * (1 + np_cap p)) < 2 ^ 64"
  shows "\<exists>file p'. save_disk_graph p inmem actual = Inr (file, length file) \<and> load_direct addr file = Inr p'
    \<and> np_locks p' = np_locks p - np_num_start_points p \<and> np_num_start_points p' = 0
    \<and> (\<forall>i<np_locks p - np_num_start_points p. \<exists>l. get_neighbors_sync p i [] = Inr l
         \<and> get_neighbors_sync p' i [] = Inr (map (\<lambda>n. if n = inmem then actual else n) l) \<and> length l \<le> np_cap p')"
proof -
  obtain ls where ls: "length ls = np_locks p" "\<forall>i<np_locks p. get_neighbors_sync p i [] = Inr (ls ! i)"
    "\<forall>l\<in>set ls. length l \<le> np_cap p" using provider_lists [OF wf] .
  let ?f = "map (\<lambda>n. if n = inmem then actual else n)" and ?n = "np_locks p - np_num_start_points p"
  define ms where "ms = map ?f (take ?n ls)"
  have len: "length ms = ?n" using ls(1) by (simp add: ms_def)
  have m: "ms ! i = ?f (ls ! i)" if "i < ?n" for i using that ls(1) by (simp add: ms_def)
  have short: "\<forall>l\<in>set ms. length l \<le> np_cap p" using ls(3) by (auto simp: ms_def dest: in_set_takeD)
  have "body_size ms \<le> np_locks p * (4 * (1 + np_cap p))"
    by (rule le_trans [OF body_size_le [OF short]], rule mult_le_mono1) (simp add: len)
  then have b: "24 + body_size ms < 2 ^ 64" using sz by simp
  let ?d = "Max (insert 0 (length ` set ms))"
  have d: "\<forall>l\<in>set ms. length l \<le> ?d" by (auto intro: Max_ge)
  have dc: "?d \<le> np_cap p" using short by (subst Max_le_iff) auto
  have l32: "length (ms ! i) < 2 ^ 32" if "i < length ms" for i using short cap that by (auto dest!: nth_mem)
  have "\<forall>i<length ms. get_adjacency_list (disk_adaptor p inmem actual) i = Inr (ms ! i) \<and> length (ms ! i) < 2 ^ 32"
    using ls(2) len m l32 by (auto simp: disk_adaptor_def al_new_def)
  from save_graph_bytes [OF this _ b, of actual]
  have sv: "save_disk_graph p inmem actual = Inr (graph_bytes ?d (unat actual) 0 ms, 24 + body_size ms)"
    by (simp add: save_disk_graph_def disk_adaptor_def len)
  obtain p' where p': "load_direct addr (graph_bytes ?d (unat actual) 0 ms) = Inr p'" "np_locks p' = ?n"
    "np_num_start_points p' = 0" "np_cap p' = ?d" "\<forall>i<?n. get_neighbors_sync p' i [] = Inr (ms ! i)"
    using load_direct_bytes [OF d le_less_trans [OF dc cap] unat_u32 [of actual] _ b, of 0 addr] len by auto
  have "length (ls ! i) \<le> ?d" if "i < ?n" for i
  proof -
    have "length (ms ! i) \<le> ?d" using that len by (intro bspec [OF d]) simp
    then show ?thesis by (simp only: m [OF that] length_map)
  qed
  with sv p' ls(2) m show ?thesis by (auto simp: length_graph_bytes)
qed

end
