(* ===== verification/Index_Update.thy ===== *)
theory Index_Update
  imports Graph_Search Prune Neighbor_Provider
begin

text \<open>
  The operations of \<open>diskann/src/graph/index.rs\<close> that change the graph: adding edges with pruning,
  insertion of a vector, consolidation, the removal of edges to deleted vectors, in-place deletion
  and the final pruning pass, and the two analyses of the graph (reachability and degrees).

  An operation threads the graph (any provider's state \<open>'p\<close>, with its accessor functions), the
  scratch space and the working set of the pruning, and returns a result or an error.  \<open>None\<close> is a
  loop that does not end.  Locking and concurrent tasks are not modelled: an operation runs alone.
\<close>

section \<open>State and control flow\<close>

record ('i, 'e, 'p) graph_ops =
  go_get :: "'p \<Rightarrow> 'i \<Rightarrow> 'e + 'i adjacency_list"
  go_set :: "'p \<Rightarrow> 'i \<Rightarrow> 'i list \<Rightarrow> 'e + 'p"
  go_append :: "'p \<Rightarrow> 'i \<Rightarrow> 'i list \<Rightarrow> 'e + 'p"

record ('i, 'w, 'p) istate =
  ix_graph :: 'p
  ix_scratch :: "'i prune_scratch"
  ix_ws :: 'w

type_synonym ('i, 'e, 'w, 'p, 'a) update =
  "('i, 'w, 'p) istate \<Rightarrow> ((('i, 'e) list_error + 'a) \<times> ('i, 'w, 'p) istate) option"

definition uret :: "'a \<Rightarrow> ('i, 'e, 'w, 'p, 'a) update" where
  "uret x s = Some (Inr x, s)"

definition uthrow :: "('i, 'e) list_error \<Rightarrow> ('i, 'e, 'w, 'p, 'a) update" where
  "uthrow e s = Some (Inl e, s)"

definition ubind ::
  "('i, 'e, 'w, 'p, 'a) update \<Rightarrow> ('a \<Rightarrow> ('i, 'e, 'w, 'p, 'b) update) \<Rightarrow> ('i, 'e, 'w, 'p, 'b) update" where
  "ubind m f s =
     (case m s of None \<Rightarrow> None | Some (Inl e, s') \<Rightarrow> Some (Inl e, s') | Some (Inr x, s') \<Rightarrow> f x s')"

definition ulift :: "'e + 'a \<Rightarrow> ('i, 'e, 'w, 'p, 'a) update" where
  "ulift r = (case r of Inl e \<Rightarrow> uthrow (Other e) | Inr x \<Rightarrow> uret x)"

fun ufor :: "'a list \<Rightarrow> ('a \<Rightarrow> ('i, 'e, 'w, 'p, unit) update) \<Rightarrow> ('i, 'e, 'w, 'p, unit) update" where
  "ufor [] f = uret ()"
| "ufor (x # xs) f = ubind (f x) (\<lambda>_. ufor xs f)"

text \<open>The accessor's calls.\<close>

definition get_neighbors :: "('i, 'e, 'p) graph_ops \<Rightarrow> 'i \<Rightarrow> ('i, 'e, 'w, 'p, 'i adjacency_list) update" where
  "get_neighbors ops i s = ulift (go_get ops (ix_graph s) i) s"

definition set_neighbors :: "('i, 'e, 'p) graph_ops \<Rightarrow> 'i \<Rightarrow> 'i list \<Rightarrow> ('i, 'e, 'w, 'p, unit) update" where
  "set_neighbors ops i ns s =
     (case go_set ops (ix_graph s) i ns of
        Inl e \<Rightarrow> uthrow (Other e) s
      | Inr p \<Rightarrow> uret () (s\<lparr>ix_graph := p\<rparr>))"

definition append_vector :: "('i, 'e, 'p) graph_ops \<Rightarrow> 'i \<Rightarrow> 'i list \<Rightarrow> ('i, 'e, 'w, 'p, unit) update" where
  "append_vector ops i ns s =
     (case go_append ops (ix_graph s) i ns of
        Inl e \<Rightarrow> uthrow (Other e) s
      | Inr p \<Rightarrow> uret () (s\<lparr>ix_graph := p\<rparr>))"

definition prune_list ::
  "config \<Rightarrow> ('i, 'v, 'w, 'e) prune_accessor \<Rightarrow> 'i \<Rightarrow> 'i adjacency_list \<Rightarrow> bool \<Rightarrow> ('i, 'e, 'w, 'p, 'i adjacency_list) update" where
  "prune_list cfg acc location ids force_saturate s =
     (case robust_prune_list cfg acc location ids force_saturate (ix_scratch s) (ix_ws s) of
        None \<Rightarrow> None
      | Some (r, sc, w) \<Rightarrow> Some (rbind r (\<lambda>_. Inr (ps_neighbors sc)), s\<lparr>ix_scratch := sc, ix_ws := w\<rparr>))"

section \<open>Adding edges\<close>

definition commit_edges ::
  "config \<Rightarrow> ('i, 'e, 'p) graph_ops \<Rightarrow> ('i, 'v, 'w, 'e) prune_accessor \<Rightarrow> 'i \<Rightarrow> bool \<Rightarrow> nat \<Rightarrow> 'i adjacency_list
    \<Rightarrow> ('i, 'e, 'w, 'p, unit) update" where
  "commit_edges cfg ops accessor source did_remove num_new_edges adj_list =
     (if num_new_edges = 0 \<and> \<not> did_remove then uret ()
      else if length adj_list \<le> max_degree cfg then
        (if did_remove then set_neighbors ops source adj_list
         else case al_last adj_list num_new_edges of
           Some edges \<Rightarrow> append_vector ops source edges
         | None \<Rightarrow> uret ())
      else ubind (prune_list cfg accessor source adj_list False) (\<lambda>neighbors.
           set_neighbors ops source neighbors))"

text \<open>A prune accessor is created for each call; its creation may fail.\<close>

definition add_edge_and_prune ::
  "config \<Rightarrow> ('i, 'e, 'p) graph_ops \<Rightarrow> 'e + ('i, 'v, 'w, 'e) prune_accessor \<Rightarrow> 'i list \<Rightarrow> 'i \<Rightarrow> 'i set option
    \<Rightarrow> ('i, 'e, 'w, 'p, unit) update" where
  "add_edge_and_prune cfg ops prune_accessor targets source to_remove =
     ubind (ulift prune_accessor) (\<lambda>accessor.
     ubind (get_neighbors ops source) (\<lambda>adj_list.
     let did_remove = (case to_remove of None \<Rightarrow> False | Some del \<Rightarrow> list_ex (\<lambda>i. i \<in> del) adj_list);
         adj_list = (case to_remove of None \<Rightarrow> adj_list | Some del \<Rightarrow> al_retain (\<lambda>i. i \<notin> del) adj_list);
         (num_new_edges, adj_list) = extend_from_slice targets adj_list
     in commit_edges cfg ops accessor source did_remove num_new_edges adj_list))"

section \<open>Deleted neighbors\<close>

text \<open>The status of an identifier is whether it is deleted.\<close>

type_synonym ('i, 'e) statuses = "'i \<Rightarrow> 'e ranked_error + bool"

definition on_neighbors ::
  "('i, 'e, 'p) graph_ops \<Rightarrow> ('i, 'e) statuses \<Rightarrow> 'i \<Rightarrow> ('i \<Rightarrow> 'c \<Rightarrow> 'c) \<Rightarrow> ('i \<Rightarrow> 'c \<Rightarrow> 'c) \<Rightarrow> 'c
    \<Rightarrow> ('i, 'e, 'w, 'p, 'c) update" where
  "on_neighbors ops status i on_present on_deleted c =
     ubind (get_neighbors ops i) (\<lambda>neighbors.
     uret (fold (\<lambda>j. case status j of
                       Inl _ \<Rightarrow> on_deleted j
                     | Inr is_deleted \<Rightarrow> if is_deleted then on_deleted j else on_present j) neighbors c))"

text \<open>\<open>PartitionedNeighbors\<close>: the neighbors that are not deleted and those that are.\<close>

definition get_undeleted_neighbors ::
  "('i, 'e, 'p) graph_ops \<Rightarrow> ('i, 'e) statuses \<Rightarrow> 'i \<Rightarrow> ('i, 'e, 'w, 'p, 'i list \<times> 'i list) update" where
  "get_undeleted_neighbors ops status i =
     on_neighbors ops status i (\<lambda>j (u, d). (u @ [j], d)) (\<lambda>j (u, d). (u, d @ [j])) ([], [])"

definition is_any_neighbor_deleted ::
  "('i, 'e, 'p) graph_ops \<Rightarrow> ('i, 'e) statuses \<Rightarrow> 'i \<Rightarrow> ('i, 'e, 'w, 'p, bool) update" where
  "is_any_neighbor_deleted ops status i =
     ubind (get_neighbors ops i) (\<lambda>neighbors.
     uret (list_ex (\<lambda>j. case status j of Inl _ \<Rightarrow> True | Inr is_deleted \<Rightarrow> is_deleted) neighbors))"

definition drop_adj_list :: "('i, 'e, 'p) graph_ops \<Rightarrow> 'i \<Rightarrow> ('i, 'e, 'w, 'p, unit) update" where
  "drop_adj_list ops i = set_neighbors ops i []"

fun return_refs_to_deleted_vertex ::
  "('i, 'e, 'p) graph_ops \<Rightarrow> 'i \<Rightarrow> 'i list \<Rightarrow> ('i, 'e, 'w, 'p, 'i list) update" where
  "return_refs_to_deleted_vertex ops vector_id [] = uret []"
| "return_refs_to_deleted_vertex ops vector_id (c # cs) =
     ubind (get_neighbors ops c) (\<lambda>candidate_adj_list.
     ubind (return_refs_to_deleted_vertex ops vector_id cs) (\<lambda>rest.
     uret (if al_contains candidate_adj_list vector_id then c # rest else rest)))"

datatype consolidate_kind = CDeleted | CFailedVectorRetrieval | CComplete

fun keep_non_orphans :: "('i, 'e, 'p) graph_ops \<Rightarrow> 'i list \<Rightarrow> 'i list \<Rightarrow> ('i, 'e, 'w, 'p, 'i list) update" where
  "keep_non_orphans ops [] pool = uret pool"
| "keep_non_orphans ops (d # ds) pool =
     ubind (get_neighbors ops d) (\<lambda>neighbors.
     keep_non_orphans ops ds (if neighbors \<noteq> [] then pool @ [d] else pool))"

definition drop_deleted_neighbors ::
  "config \<Rightarrow> ('i, 'e, 'p) graph_ops \<Rightarrow> ('i, 'e) statuses \<Rightarrow> 'i \<Rightarrow> bool \<Rightarrow> ('i, 'e, 'w, 'p, consolidate_kind) update" where
  "drop_deleted_neighbors cfg ops status vector_id only_orphans =
     ubind (ulift (escalate (status vector_id))) (\<lambda>is_deleted.
     if is_deleted then uret CDeleted
     else ubind (get_undeleted_neighbors ops status vector_id) (\<lambda>(pool, deleted_neighbors).
       ubind (if only_orphans then keep_non_orphans ops deleted_neighbors pool else uret pool) (\<lambda>pool.
       if deleted_neighbors = [] \<and> length pool \<le> pruned_degree cfg then uret CComplete
       else ubind (set_neighbors ops vector_id pool) (\<lambda>_. uret CComplete))))"

text \<open>The pool of \<open>consolidate_vector\<close> is a hash set: a list without duplicates here; the order in
  which it is iterated is the argument \<open>iter_order\<close>.\<close>

definition hash_insert :: "'i \<Rightarrow> 'i list \<Rightarrow> 'i list" where
  "hash_insert i pool = (if i \<in> set pool then pool else pool @ [i])"

fun neighbors_of_deleted ::
  "('i, 'e, 'p) graph_ops \<Rightarrow> ('i, 'e) statuses \<Rightarrow> 'i list \<Rightarrow> 'i list \<Rightarrow> ('i, 'e, 'w, 'p, 'i list) update" where
  "neighbors_of_deleted ops status [] pool = uret pool"
| "neighbors_of_deleted ops status (d # ds) pool =
     ubind (on_neighbors ops status d hash_insert (\<lambda>_ c. c) pool) (neighbors_of_deleted ops status ds)"

definition fresh_scratch :: "'w \<Rightarrow> ('i, 'w, 'p) istate \<Rightarrow> ('i, 'w, 'p) istate" where
  "fresh_scratch ws s = s\<lparr>ix_scratch := prune_scratch_new, ix_ws := ws\<rparr>"

definition finish_consolidate ::
  "config \<Rightarrow> ('i, 'e, 'p) graph_ops \<Rightarrow> ('i, 'v, 'w, 'e) prune_accessor \<Rightarrow> 'w \<Rightarrow> 'i \<Rightarrow> 'i adjacency_list
    \<Rightarrow> ('i, 'e, 'w, 'p, consolidate_kind) update" where
  "finish_consolidate cfg ops accessor working_set vector_id neighbors s =
     (if length neighbors < pruned_degree cfg
      then ubind (set_neighbors ops vector_id neighbors) (\<lambda>_. uret CComplete) s
      else case prune_list cfg accessor vector_id neighbors False (fresh_scratch working_set s) of
        None \<Rightarrow> None
      | Some (Inl (FailedVectorRetrieval i), s') \<Rightarrow> uret CFailedVectorRetrieval s'
      | Some (Inl e, s') \<Rightarrow> uthrow e s'
      | Some (Inr adj_list, s') \<Rightarrow> ubind (set_neighbors ops vector_id adj_list) (\<lambda>_. uret CComplete) s')"

definition consolidate_vector ::
  "config \<Rightarrow> ('i, 'e, 'p) graph_ops \<Rightarrow> 'e + ('i, 'v, 'w, 'e) prune_accessor \<Rightarrow> 'w \<Rightarrow> ('i list \<Rightarrow> 'i list)
    \<Rightarrow> ('i, 'e) statuses \<Rightarrow> 'i \<Rightarrow> ('i, 'e, 'w, 'p, consolidate_kind) update" where
  "consolidate_vector cfg ops prune_accessor working_set iter_order status vector_id =
     ubind (ulift (escalate (status vector_id))) (\<lambda>is_deleted.
     if is_deleted then uret CDeleted
     else ubind (ulift prune_accessor) (\<lambda>accessor.
       ubind (on_neighbors ops status vector_id (\<lambda>j (p, d). (hash_insert j p, d)) (\<lambda>j (p, d). (p, d @ [j])) ([], []))
         (\<lambda>(pool, deleted_neighbors).
       if deleted_neighbors = [] \<and> length pool \<le> pruned_degree cfg then uret CComplete
       else ubind (neighbors_of_deleted ops status deleted_neighbors pool) (\<lambda>pool.
         finish_consolidate cfg ops accessor working_set vector_id
           (from_iter_unique (iter_order (filter (\<lambda>i. i \<noteq> vector_id) pool)))))))"

section \<open>The final pruning pass\<close>

definition prune_vertex ::
  "config \<Rightarrow> ('i, 'e, 'p) graph_ops \<Rightarrow> ('i, 'v, 'w, 'e) prune_accessor \<Rightarrow> 'i \<Rightarrow> ('i, 'e, 'w, 'p, unit) update" where
  "prune_vertex cfg ops accessor i =
     ubind (get_neighbors ops i) (\<lambda>neighbors.
     if length neighbors \<le> pruned_degree cfg then uret ()
     else ubind (prune_list cfg accessor i neighbors False) (\<lambda>neighbors'. set_neighbors ops i neighbors'))"

text \<open>The range of identifiers is the list of its members.\<close>

definition prune_range ::
  "config \<Rightarrow> ('i, 'e, 'p) graph_ops \<Rightarrow> 'e + ('i, 'v, 'w, 'e) prune_accessor \<Rightarrow> 'w \<Rightarrow> 'i list \<Rightarrow> ('i, 'e, 'w, 'p, unit) update" where
  "prune_range cfg ops prune_accessor working_set ids =
     ubind (ulift prune_accessor) (\<lambda>accessor s.
       ufor ids (prune_vertex cfg ops accessor) (fresh_scratch working_set s))"

section \<open>Triples\<close>

text \<open>\<open>utriple P m Q E\<close>: started in a state with \<open>P\<close>, \<open>m\<close> ends, in a state with \<open>Q\<close> of the result or, after
  an error, with \<open>E\<close>.\<close>

definition utriple ::
  "(('i, 'w, 'p) istate \<Rightarrow> bool) \<Rightarrow> ('i, 'e, 'w, 'p, 'a) update \<Rightarrow> ('a \<Rightarrow> ('i, 'w, 'p) istate \<Rightarrow> bool)
    \<Rightarrow> (('i, 'e) list_error \<Rightarrow> ('i, 'w, 'p) istate \<Rightarrow> bool) \<Rightarrow> bool" where
  "utriple P m Q E \<longleftrightarrow>
     (\<forall>s. P s \<longrightarrow> (case m s of None \<Rightarrow> False | Some (Inl e, s') \<Rightarrow> E e s' | Some (Inr x, s') \<Rightarrow> Q x s'))"

lemma utripleI:
  assumes "\<And>s. P s \<Longrightarrow> (case m s of None \<Rightarrow> False | Some (Inl e, s') \<Rightarrow> E e s' | Some (Inr x, s') \<Rightarrow> Q x s')"
  shows "utriple P m Q E"
  using assms by (simp add: utriple_def)

lemma utripleD:
  assumes "utriple P m Q E" "P s"
  shows "\<exists>r s'. m s = Some (r, s') \<and> (case r of Inl e \<Rightarrow> E e s' | Inr x \<Rightarrow> Q x s')"
  using assms by (force simp: utriple_def split: option.splits sum.splits)

lemma utriple_okD:
  assumes "utriple P m Q (\<lambda>_ _. False)" "P s"
  obtains x s' where "m s = Some (Inr x, s')" "Q x s'"
proof -
  obtain r s' where "m s = Some (r, s')" "case r of Inl e \<Rightarrow> False | Inr x \<Rightarrow> Q x s'" using utripleD [OF assms] by blast
  then show thesis using that by (cases r) auto
qed

lemma utriple_pairD:
  assumes "utriple P m (\<lambda>(a, b). Q a b) (\<lambda>_ _. False)" "P s"
  obtains a b s' where "m s = Some (Inr (a, b), s')" "Q a b s'"
proof (rule utriple_okD [OF assms])
  fix x s' assume "m s = Some (Inr x, s')" "(case x of (a, b) \<Rightarrow> Q a b) s'"
  then show thesis using that [of "fst x" "snd x" s'] by (cases x) simp
qed

lemma utriple_weaken:
  assumes "utriple P m Q E" "\<And>s. P' s \<Longrightarrow> P s" "\<And>x s. Q x s \<Longrightarrow> Q' x s" "\<And>e s. E e s \<Longrightarrow> E' e s"
  shows "utriple P' m Q' E'"
  using assms by (force simp: utriple_def split: option.splits sum.splits)

lemma utriple_ret: "(\<And>s. P s \<Longrightarrow> Q x s) \<Longrightarrow> utriple P (uret x) Q E"
  by (simp add: utriple_def uret_def)

lemma utriple_throw: "(\<And>s. P s \<Longrightarrow> E e s) \<Longrightarrow> utriple P (uthrow e) Q E"
  by (simp add: utriple_def uthrow_def)

lemma utriple_bind:
  assumes "utriple P m R E" "\<And>x. utriple (R x) (f x) Q E"
  shows "utriple P (ubind m f) Q E"
  using assms by (fastforce simp: utriple_def ubind_def split: option.splits sum.splits)

lemma ubind_run: "m s = Some (Inr x, s') \<Longrightarrow> ubind m f s = f x s'"
  by (simp add: ubind_def)

lemma ubind_err: "m s = Some (Inl e, s') \<Longrightarrow> ubind m f s = Some (Inl e, s')"
  by (simp add: ubind_def)

lemma ubind_ret [simp]: "ubind (uret x) f = f x"
  by (simp add: ubind_def uret_def fun_eq_iff)

lemma ulift_simps [simp]: "ulift (Inr x) = uret x" "ulift (Inl e) = uthrow (Other e)"
  by (simp_all add: ulift_def)

lemma utriple_lift: "(\<And>s x. r = Inr x \<Longrightarrow> P s \<Longrightarrow> Q x s) \<Longrightarrow> (\<And>s e. r = Inl e \<Longrightarrow> P s \<Longrightarrow> E (Other e) s) \<Longrightarrow> utriple P (ulift r) Q E"
  by (cases r) (auto simp: ulift_def intro: utriple_ret utriple_throw)

lemma utriple_for:
  assumes "\<And>x. x \<in> set xs \<Longrightarrow> utriple I (f x) (\<lambda>_. I) E"
  shows "utriple I (ufor xs f) (\<lambda>_. I) E"
  using assms
proof (induction xs)
  case Nil
  then show ?case by (auto intro: utriple_ret)
next
  case (Cons x xs)
  then have "utriple I (f x) (\<lambda>_. I) E" "utriple I (ufor xs f) (\<lambda>_. I) E" by simp_all
  then show ?case unfolding ufor.simps by (rule utriple_bind)
qed

lemma utriple_pre: "(\<And>s. P s \<Longrightarrow> utriple (\<lambda>t. t = s) m Q E) \<Longrightarrow> utriple P m Q E"
  by (simp add: utriple_def)

section \<open>The invariant of the graph\<close>

definition good_list :: "config \<Rightarrow> 'i set \<Rightarrow> 'i list \<Rightarrow> bool" where
  "good_list cfg V ns \<longleftrightarrow> distinct ns \<and> length ns \<le> max_degree cfg \<and> set ns \<subseteq> V"

text \<open>\<open>V\<close> is the set of the identifiers: every adjacency list has at most \<open>max_degree\<close> entries, no
  duplicates, and leads to identifiers only; the provider has room for \<open>max_degree\<close> entries.\<close>

definition graph_inv ::
  "('p \<Rightarrow> bool) \<Rightarrow> ('p \<Rightarrow> 'i \<Rightarrow> bool) \<Rightarrow> ('p \<Rightarrow> nat) \<Rightarrow> ('i, 'e, 'p) graph_ops \<Rightarrow> config \<Rightarrow> 'i set \<Rightarrow> 'p \<Rightarrow> bool" where
  "graph_inv pwf valid cap ops cfg V p \<longleftrightarrow>
     pwf p \<and> (\<forall>i. valid p i \<longleftrightarrow> i \<in> V) \<and> max_degree cfg \<le> cap p
     \<and> (\<forall>i\<in>V. \<forall>ns. go_get ops p i = Inr ns \<longrightarrow> good_list cfg V ns)"

definition config_ok :: "config \<Rightarrow> bool" where
  "config_ok cfg \<longleftrightarrow> prunable cfg \<and> pruned_degree cfg \<le> max_degree cfg"

lemma pruned_good: "config_ok cfg \<Longrightarrow> pruned_from cfg S ns \<Longrightarrow> S \<subseteq> V \<Longrightarrow> good_list cfg V ns"
  by (auto simp: config_ok_def pruned_from_def good_list_def)

definition unchanged :: "('i, 'e, 'p) graph_ops \<Rightarrow> 'i set \<Rightarrow> 'p \<Rightarrow> 'p \<Rightarrow> bool" where
  "unchanged ops S p p' \<longleftrightarrow> (\<forall>j. j \<notin> S \<longrightarrow> go_get ops p' j = go_get ops p j)"

locale graph_update =
  neighbor_accessor wf valid cap "go_get ops" "go_set ops" "go_append ops"
  for wf :: "'p \<Rightarrow> bool" and valid :: "'p \<Rightarrow> 'i \<Rightarrow> bool" and cap :: "'p \<Rightarrow> nat" and ops :: "('i, 'e, 'p) graph_ops"
begin

abbreviation ginv :: "config \<Rightarrow> 'i set \<Rightarrow> 'p \<Rightarrow> bool" where
  "ginv \<equiv> graph_inv wf valid cap ops"

text \<open>The invariant of the whole state, with the graph changed at \<open>S\<close> only since \<open>p0\<close>, and the list
  that the scratch space holds.\<close>

definition sinv :: "config \<Rightarrow> 'i set \<Rightarrow> 'p \<Rightarrow> 'i set \<Rightarrow> ('i, 'w, 'p) istate \<Rightarrow> bool" where
  "sinv cfg V p0 S s \<longleftrightarrow> ginv cfg V (ix_graph s) \<and> unchanged ops S p0 (ix_graph s)
     \<and> pruned_from cfg V (ps_neighbors (ix_scratch s))"

lemma ginv_get:
  assumes "ginv cfg V p" "i \<in> V"
  obtains ns where "go_get ops p i = Inr ns" "good_list cfg V ns"
  using assms get_law [of p i] unfolding graph_inv_def by blast

lemma get_triple:
  assumes "i \<in> V"
  shows "utriple (\<lambda>s. s = s0 \<and> sinv cfg V p0 S s0) (get_neighbors ops i)
    (\<lambda>ns s. s = s0 \<and> sinv cfg V p0 S s0 \<and> go_get ops (ix_graph s0) i = Inr ns \<and> good_list cfg V ns) E"
proof (rule utripleI, elim conjE)
  fix s assume s: "s = s0" "sinv cfg V p0 S s0"
  obtain ns where "go_get ops (ix_graph s0) i = Inr ns" "good_list cfg V ns"
    using s(2) assms ginv_get unfolding sinv_def by blast
  then show "case get_neighbors ops i s of None \<Rightarrow> False | Some (Inl e, s') \<Rightarrow> E e s'
      | Some (Inr ns, s') \<Rightarrow> s' = s0 \<and> sinv cfg V p0 S s0 \<and> go_get ops (ix_graph s0) i = Inr ns \<and> good_list cfg V ns"
    using s by (simp add: get_neighbors_def ulift_def uret_def)
qed

lemma graph_inv_update:
  assumes "ginv cfg V p" "wf p'" "valid p' = valid p" "cap p' = cap p" "go_get ops p' i = Inr ns" "good_list cfg V ns"
    "\<forall>j. j \<noteq> i \<longrightarrow> go_get ops p' j = go_get ops p j"
  shows "ginv cfg V p'"
  unfolding graph_inv_def
proof (intro conjI ballI allI impI)
  fix k ms assume "k \<in> V" "go_get ops p' k = Inr ms"
  then show "good_list cfg V ms" using assms by (cases "k = i") (auto simp: graph_inv_def)
qed (use assms in \<open>auto simp: graph_inv_def\<close>)

lemma set_triple:
  fixes E :: "('i, 'e) list_error \<Rightarrow> ('i, 'w, 'p) istate \<Rightarrow> bool"
  assumes "i \<in> V" "good_list cfg V ns"
  shows "utriple (sinv cfg V p0 S) (set_neighbors ops i ns)
    (\<lambda>_ s. sinv cfg V p0 (insert i S) s \<and> go_get ops (ix_graph s) i = Inr ns) E"
proof (rule utripleI)
  fix s :: "('i, 'w, 'p) istate" assume s: "sinv cfg V p0 S s"
  let ?p = "ix_graph s"
  have "wf ?p" "valid ?p i" "length ns \<le> cap ?p"
    using s assms by (auto simp: sinv_def graph_inv_def good_list_def)
  from set_law [OF this] obtain p' where p': "go_set ops ?p i ns = Inr p'" "wf p'" "valid p' = valid ?p" "cap p' = cap ?p"
    "go_get ops p' i = Inr ns" "\<forall>j. j \<noteq> i \<longrightarrow> go_get ops p' j = go_get ops ?p j" by blast
  have "ginv cfg V p'" using graph_inv_update [OF _ p'(2-5) assms(2) p'(6)] s by (simp add: sinv_def)
  then have "sinv cfg V p0 (insert i S) (s\<lparr>ix_graph := p'\<rparr>)"
    using s p'(6) by (auto simp: sinv_def unchanged_def)
  then show "case set_neighbors ops i ns s of None \<Rightarrow> False | Some (Inl e, s') \<Rightarrow> E e s'
      | Some (Inr x, s') \<Rightarrow> sinv cfg V p0 (insert i S) s' \<and> go_get ops (ix_graph s') i = Inr ns"
    using p' by (simp add: set_neighbors_def uret_def)
qed

lemma append_triple:
  fixes E :: "('i, 'e) list_error \<Rightarrow> ('i, 'w, 'p) istate \<Rightarrow> bool"
  assumes "i \<in> V" "good_list cfg V (old @ fresh ns (set old))"
  shows "utriple (\<lambda>s. sinv cfg V p0 S s \<and> go_get ops (ix_graph s) i = Inr old) (append_vector ops i ns)
    (\<lambda>_ s. sinv cfg V p0 (insert i S) s \<and> go_get ops (ix_graph s) i = Inr (old @ fresh ns (set old))) E"
proof (rule utripleI, elim conjE)
  fix s :: "('i, 'w, 'p) istate" assume s: "sinv cfg V p0 S s" and old: "go_get ops (ix_graph s) i = Inr old"
  let ?p = "ix_graph s" and ?new = "old @ fresh ns (set old)"
  have "wf ?p" "valid ?p i" and len: "length ?new \<le> cap ?p"
    using s assms by (auto simp: sinv_def graph_inv_def good_list_def)
  from append_law [OF this(1,2) old, of "ns"] len obtain p' where p': "go_append ops ?p i ns = Inr p'" "wf p'"
    "valid p' = valid ?p" "cap p' = cap ?p"
    "go_get ops p' i = Inr ?new" "\<forall>j. j \<noteq> i \<longrightarrow> go_get ops p' j = go_get ops ?p j" by auto
  have "ginv cfg V p'" using graph_inv_update [OF _ p'(2-5) assms(2) p'(6)] s by (simp add: sinv_def)
  then have "sinv cfg V p0 (insert i S) (s\<lparr>ix_graph := p'\<rparr>)"
    using s p'(6) by (auto simp: sinv_def unchanged_def)
  then show "case append_vector ops i ns s of None \<Rightarrow> False | Some (Inl e, s') \<Rightarrow> E e s'
      | Some (Inr x, s') \<Rightarrow> sinv cfg V p0 (insert i S) s' \<and> go_get ops (ix_graph s') i = Inr ?new"
    using p' by (simp add: append_vector_def uret_def)
qed

text \<open>Pruning a list of identifiers: the result is a pruned list or the one of the scratch space; an
  error is not a panic.\<close>

lemma prune_triple:
  assumes cfg: "config_ok cfg" and ids: "distinct ids" "set ids \<subseteq> V"
  shows "utriple (\<lambda>s. s = s0 \<and> sinv cfg V p0 S s0) (prune_list cfg acc i ids force)
    (\<lambda>ns s. sinv cfg V p0 S s \<and> ix_graph s = ix_graph s0 \<and> good_list cfg V ns \<and> length ns \<le> pruned_degree cfg
      \<and> (pruned_from cfg (set ids - {i}) ns \<or> ns = ps_neighbors (ix_scratch s0)))
    (\<lambda>e s. sinv cfg V p0 S s \<and> ix_graph s = ix_graph s0 \<and> (\<forall>f. e \<noteq> Panic f))"
proof (rule utripleI, elim conjE)
  fix s assume s: "s = s0" "sinv cfg V p0 S s0"
  have "prunable cfg" using cfg by (simp add: config_ok_def)
  from robust_prune_list_spec [OF this ids(1), of acc i force "ix_scratch s0" "ix_ws s0"] obtain r sc ws where
    run: "robust_prune_list cfg acc i ids force (ix_scratch s0) (ix_ws s0) = Some (r, sc, ws)" and np: "\<And>f. r \<noteq> Inl (Panic f)"
    and n: "ps_neighbors sc = ps_neighbors (ix_scratch s0) \<or> pruned_from cfg (set ids - {i}) (ps_neighbors sc)" by metis
  have pf: "pruned_from cfg V (ps_neighbors sc)" using n s(2) ids(2) by (auto simp: sinv_def pruned_from_def)
  then have "sinv cfg V p0 S (s0\<lparr>ix_scratch := sc, ix_ws := ws\<rparr>)" using s(2) by (simp add: sinv_def)
  moreover have "good_list cfg V (ps_neighbors sc)" "length (ps_neighbors sc) \<le> pruned_degree cfg"
    using pf pruned_good [OF cfg pf] by (simp_all add: pruned_from_def)
  ultimately show "case prune_list cfg acc i ids force s of None \<Rightarrow> False
      | Some (Inl e, s') \<Rightarrow> sinv cfg V p0 S s' \<and> ix_graph s' = ix_graph s0 \<and> (\<forall>f. e \<noteq> Panic f)
      | Some (Inr ns, s') \<Rightarrow> sinv cfg V p0 S s' \<and> ix_graph s' = ix_graph s0 \<and> good_list cfg V ns
          \<and> length ns \<le> pruned_degree cfg
          \<and> (pruned_from cfg (set ids - {i}) ns \<or> ns = ps_neighbors (ix_scratch s0))"
    using run np n s(1) by (cases r) (auto simp: prune_list_def)
qed

end

section \<open>What the operations do to the graph\<close>

text \<open>The list of \<open>add_edge_and_prune\<close> before it is pruned: the old edges without those to remove, then
  the targets that are new.\<close>

definition kept_edges :: "'i set option \<Rightarrow> 'i list \<Rightarrow> 'i list" where
  "kept_edges to_remove old = (case to_remove of None \<Rightarrow> old | Some del \<Rightarrow> filter (\<lambda>i. i \<notin> del) old)"

definition merged_edges :: "'i set option \<Rightarrow> 'i list \<Rightarrow> 'i list \<Rightarrow> 'i list" where
  "merged_edges to_remove targets old =
     kept_edges to_remove old @ fresh targets (set (kept_edges to_remove old))"

lemma merged_edges_props:
  assumes "distinct old" "set old \<subseteq> V" "set targets \<subseteq> V"
  shows "distinct (merged_edges to_remove targets old)" "set (merged_edges to_remove targets old) \<subseteq> V"
proof -
  have "distinct (kept_edges to_remove old)" "set (kept_edges to_remove old) \<subseteq> V"
    using assms by (auto simp: kept_edges_def split: option.splits)
  then show "distinct (merged_edges to_remove targets old)" "set (merged_edges to_remove targets old) \<subseteq> V"
    using assms(3) by (auto simp: merged_edges_def distinct_fresh set_fresh)
qed

text \<open>The outcome of an edge update: the merged list if it fits, a pruned one or (when no candidate had a
  vector) the list left in the scratch space otherwise.\<close>

definition edge_outcome :: "config \<Rightarrow> 'i \<Rightarrow> 'i list \<Rightarrow> 'i list \<Rightarrow> 'i list \<Rightarrow> bool" where
  "edge_outcome cfg source stale all new \<longleftrightarrow>
     (if length all \<le> max_degree cfg then new = all
      else pruned_from cfg (set all - {source}) new \<or> new = stale)"

context graph_update
begin

lemma prune_and_set_triple:
  fixes s0 :: "('i, 'w, 'p) istate"
  assumes cfg: "config_ok cfg" and i: "i \<in> V" and ids: "distinct ids" "set ids \<subseteq> V"
  shows "utriple (\<lambda>s. s = s0 \<and> sinv cfg V p0 S s0) (ubind (prune_list cfg acc i ids force) (set_neighbors ops i))
    (\<lambda>_ s. sinv cfg V p0 (insert i S) s \<and> (\<exists>new. go_get ops (ix_graph s) i = Inr new \<and> length new \<le> pruned_degree cfg
      \<and> (pruned_from cfg (set ids - {i}) new \<or> new = ps_neighbors (ix_scratch s0))))
    (\<lambda>e s. sinv cfg V p0 S s \<and> ix_graph s = ix_graph s0 \<and> (\<forall>f. e \<noteq> Panic f))"
    (is "utriple _ _ ?Q ?E")
proof (rule utriple_bind [OF prune_triple [OF cfg ids]], rule utriple_pre, elim conjE)
  fix "ns" and t :: "('i, 'w, 'p) istate"
  assume t: "sinv cfg V p0 S t" "good_list cfg V ns" "length ns \<le> pruned_degree cfg"
    "pruned_from cfg (set ids - {i}) ns \<or> ns = ps_neighbors (ix_scratch s0)"
  from set_triple [OF i t(2), of p0 S ?E] show "utriple (\<lambda>u. u = t) (set_neighbors ops i ns) ?Q ?E"
    using t by (auto elim!: utriple_weaken)
qed

lemma commit_edges_triple:
  assumes cfg: "config_ok cfg" and V: "source \<in> V" "set all \<subseteq> V" "distinct all"
    and s: "sinv cfg V p0 S s0" "go_get ops (ix_graph s0) source = Inr old" "good_list cfg V old"
    and all: "all = kept @ new" "set kept \<inter> set new = {}" and did: "did \<or> kept = old"
  shows "utriple (\<lambda>s. s = s0) (commit_edges cfg ops acc source did (length new) all)
    (\<lambda>_ s. sinv cfg V p0 (insert source S) s \<and> (\<exists>res. go_get ops (ix_graph s) source = Inr res
      \<and> edge_outcome cfg source (ps_neighbors (ix_scratch s0)) all res))
    (\<lambda>e s. sinv cfg V p0 S s \<and> ix_graph s = ix_graph s0 \<and> (\<forall>f. e \<noteq> Panic f))"
    (is "utriple _ _ ?Q ?E")
proof -
  have last: "al_last all (length new) = Some new" by (simp add: al_last_def all(1))
  consider (skip) "new = []" "\<not> did" | (set) "length all \<le> max_degree cfg" "did"
    | (append) "length all \<le> max_degree cfg" "\<not> did" "new \<noteq> []"
    | (prune) "\<not> length all \<le> max_degree cfg" "new \<noteq> [] \<or> did" by blast
  then show ?thesis
  proof cases
    case skip
    then have "all = old" using did all(1) by simp
    then show ?thesis using skip s unfolding commit_edges_def
      by (auto intro!: utriple_ret simp: sinv_def unchanged_def good_list_def edge_outcome_def)
  next
    case set
    have "good_list cfg V all" using set(1) V by (simp add: good_list_def)
    from set_triple [OF V(1) this, of p0 S ?E] set show ?thesis
      using s unfolding commit_edges_def by (auto elim!: utriple_weaken simp: edge_outcome_def)
  next
    case append
    have f: "fresh new (set old) = new" using V(3) all append(2) did by (intro fresh_id) auto
    have "good_list cfg V (old @ fresh new (set old))"
      using append(1,2) V did all(1) unfolding f by (simp add: good_list_def)
    from append_triple [OF V(1) this, of p0 S ?E] append show ?thesis
      using s last did all(1) unfolding commit_edges_def f by (auto elim!: utriple_weaken simp: edge_outcome_def)
  next
    case prune
    then show ?thesis using prune_and_set_triple [OF cfg V(1,3,2), of s0 p0 S acc False] s(1)
      unfolding commit_edges_def by (auto elim!: utriple_weaken simp: edge_outcome_def)
  qed
qed

text \<open>The lists of \<open>add_edge_and_prune\<close> never exceed the maximum degree; without pruning the result is
  exactly the merged list.\<close>

lemma add_edge_triple:
  assumes cfg: "config_ok cfg" and V: "source \<in> V" "set targets \<subseteq> V"
  shows "utriple (\<lambda>s. s = s0 \<and> sinv cfg V p0 S s0) (add_edge_and_prune cfg ops acc targets source to_remove)
    (\<lambda>_ s. sinv cfg V p0 (insert source S) s \<and> (\<exists>old new. go_get ops (ix_graph s0) source = Inr old
      \<and> go_get ops (ix_graph s) source = Inr new
      \<and> edge_outcome cfg source (ps_neighbors (ix_scratch s0)) (merged_edges to_remove targets old) new))
    (\<lambda>e s. sinv cfg V p0 S s \<and> ix_graph s = ix_graph s0 \<and> (\<forall>f. e \<noteq> Panic f))"
  (is "utriple ?P _ ?Q ?E")
  unfolding add_edge_and_prune_def
proof (rule utriple_bind [of _ _ "\<lambda>_. ?P"], rule utriple_lift)
  show "?P s \<Longrightarrow> ?P s" "?P s \<Longrightarrow> ?E (Other e) s" for s e by auto
next
  fix accessor
  show "utriple ?P (ubind (get_neighbors ops source) (\<lambda>adj_list.
     let did_remove = (case to_remove of None \<Rightarrow> False | Some del \<Rightarrow> list_ex (\<lambda>i. i \<in> del) adj_list);
         adj_list = (case to_remove of None \<Rightarrow> adj_list | Some del \<Rightarrow> al_retain (\<lambda>i. i \<notin> del) adj_list);
         (num_new_edges, adj_list) = extend_from_slice targets adj_list
     in commit_edges cfg ops accessor source did_remove num_new_edges adj_list)) ?Q ?E"
  proof (rule utriple_bind [OF get_triple [OF V(1)]], rule utriple_pre, elim conjE)
    fix old s
    assume s: "s = s0" "sinv cfg V p0 S s0" "go_get ops (ix_graph s0) source = Inr old" "good_list cfg V old"
    let ?kept = "kept_edges to_remove old" and ?all = "merged_edges to_remove targets old"
    let ?did = "case to_remove of None \<Rightarrow> False | Some del \<Rightarrow> list_ex (\<lambda>i. i \<in> del) old"
    have kept: "(case to_remove of None \<Rightarrow> old | Some del \<Rightarrow> al_retain (\<lambda>i. i \<notin> del) old) = ?kept"
      by (cases to_remove) (simp_all add: kept_edges_def al_retain_def)
    have did: "?did \<or> ?kept = old"
      by (auto simp: kept_edges_def list_ex_iff filter_id_conv split: option.splits)
    have all: "set ?all \<subseteq> V" "distinct ?all" using merged_edges_props [of old V targets to_remove] s(4) V(2) by (simp_all add: good_list_def)
    from commit_edges_triple [OF cfg V(1) all s(2-4) merged_edges_def _ did, of accessor]
    show "utriple (\<lambda>t. t = s) (let did_remove = ?did;
         adj_list = (case to_remove of None \<Rightarrow> old | Some del \<Rightarrow> al_retain (\<lambda>i. i \<notin> del) old);
         (num_new_edges, adj_list) = extend_from_slice targets adj_list
     in commit_edges cfg ops accessor source did_remove num_new_edges adj_list) ?Q ?E"
      unfolding kept Let_def extend_from_slice_eq prod.case s(1) merged_edges_def [symmetric]
      by (auto elim!: utriple_weaken simp: s(3) set_fresh)
  qed
qed

end

section \<open>Partitioning neighbors\<close>

definition counts_deleted :: "('i, 'e) statuses \<Rightarrow> 'i \<Rightarrow> bool" where
  "counts_deleted status j = (case status j of Inl _ \<Rightarrow> True | Inr d \<Rightarrow> d)"

lemma fold_partition:
  "fold (\<lambda>j. case status j of Inl _ \<Rightarrow> (\<lambda>(u, d). (u, d @ [j]))
      | Inr is_deleted \<Rightarrow> if is_deleted then (\<lambda>(u, d). (u, d @ [j])) else (\<lambda>(u, d). (u @ [j], d))) xs (u, d)
   = (u @ filter (\<lambda>j. \<not> counts_deleted status j) xs, d @ filter (counts_deleted status) xs)"
proof (induction xs arbitrary: u d)
  case (Cons x xs)
  then show ?case by (cases "status x") (auto simp: counts_deleted_def)
qed simp

lemma fold_hash:
  "fold (\<lambda>j. case status j of Inl _ \<Rightarrow> (\<lambda>c. c) | Inr is_deleted \<Rightarrow> if is_deleted then (\<lambda>c. c) else hash_insert j) xs pool
   = pool @ fresh (filter (\<lambda>j. \<not> counts_deleted status j) xs) (set pool)"
proof (induction xs arbitrary: pool)
  case (Cons x xs)
  have "insert x (set pool) = set (pool @ [x])" by simp
  with Cons show ?case by (cases "status x") (auto simp: counts_deleted_def hash_insert_def insert_absorb)
qed simp

lemma fold_hash_partition:
  assumes "distinct (p @ xs)"
  shows "fold (\<lambda>j. case status j of Inl _ \<Rightarrow> (\<lambda>(p, d). (p, d @ [j]))
      | Inr is_deleted \<Rightarrow> if is_deleted then (\<lambda>(p, d). (p, d @ [j])) else (\<lambda>(p, d). (hash_insert j p, d))) xs (p, d)
   = (p @ filter (\<lambda>j. \<not> counts_deleted status j) xs, d @ filter (counts_deleted status) xs)"
  using assms
proof (induction xs arbitrary: p d)
  case (Cons x xs)
  then have "distinct ((p @ [x]) @ xs)" "distinct (p @ xs)" "x \<notin> set p" by auto
  with Cons.IH show ?case by (cases "status x") (auto simp: counts_deleted_def hash_insert_def)
qed simp

context graph_update
begin

lemma sinv_start: "sinv cfg V p0 S s \<Longrightarrow> sinv cfg V (ix_graph s) {} s"
  by (simp add: sinv_def unchanged_def)

lemma sinv_trans: "sinv cfg V p S s \<Longrightarrow> unchanged ops S' p0 p \<Longrightarrow> sinv cfg V p0 (S \<union> S') s"
  by (auto simp: sinv_def unchanged_def)

lemma sinv_mono: "sinv cfg V p S s \<Longrightarrow> S \<subseteq> S' \<Longrightarrow> sinv cfg V p S' s"
  by (auto simp: sinv_def unchanged_def)

lemma run_get:
  assumes "sinv cfg V p0 S s" "i \<in> V"
  obtains ns where "go_get ops (ix_graph s) i = Inr ns" "good_list cfg V ns" "get_neighbors ops i s = Some (Inr ns, s)"
  using assms ginv_get [of cfg V "ix_graph s" i] unfolding sinv_def
  by (auto simp: get_neighbors_def ulift_def uret_def)

lemma run_set:
  assumes "sinv cfg V p0 S s" "i \<in> V" "good_list cfg V ns"
  obtains s' where "set_neighbors ops i ns s = Some (Inr (), s')" "sinv cfg V p0 (insert i S) s'"
    "go_get ops (ix_graph s') i = Inr ns"
proof -
  from utripleD [OF set_triple [OF assms(2,3), of p0 S "\<lambda>_ _. False"] assms(1)] obtain r s' where
    "set_neighbors ops i ns s = Some (r, s')" and
    r: "case r of Inl e \<Rightarrow> False | Inr x \<Rightarrow> sinv cfg V p0 (insert i S) s' \<and> go_get ops (ix_graph s') i = Inr ns" by blast
  then show thesis using that [of s'] by (cases r) auto
qed

text \<open>The final pruning of one vertex.\<close>

definition short_list :: "config \<Rightarrow> 'i \<Rightarrow> ('i, 'w, 'p) istate \<Rightarrow> bool" where
  "short_list cfg i s \<longleftrightarrow> (\<exists>ns. go_get ops (ix_graph s) i = Inr ns \<and> length ns \<le> pruned_degree cfg)"

lemma prune_vertex_triple:
  assumes cfg: "config_ok cfg" and i: "i \<in> V"
  shows "utriple (\<lambda>s. s = s0 \<and> sinv cfg V p0 S s0) (prune_vertex cfg ops acc i)
    (\<lambda>_ s. sinv cfg V p0 (insert i S) s \<and> short_list cfg i s) (\<lambda>e s. sinv cfg V p0 S s \<and> (\<forall>f. e \<noteq> Panic f))"
  unfolding prune_vertex_def
proof (rule utriple_bind [OF get_triple [OF i]], rule utriple_pre, elim conjE)
  fix old s assume s: "s = s0" "sinv cfg V p0 S s0" "go_get ops (ix_graph s0) i = Inr old" "good_list cfg V old"
  then have old: "distinct old" "set old \<subseteq> V" by (auto simp: good_list_def)
  show "utriple (\<lambda>t. t = s) (if length old \<le> pruned_degree cfg then uret ()
      else ubind (prune_list cfg acc i old False) (set_neighbors ops i))
    (\<lambda>_ s. sinv cfg V p0 (insert i S) s \<and> short_list cfg i s) (\<lambda>e s. sinv cfg V p0 S s \<and> (\<forall>f. e \<noteq> Panic f))"
  proof (cases "length old \<le> pruned_degree cfg")
    case True
    then show ?thesis using s by (auto intro!: utriple_ret simp: short_list_def intro: sinv_mono)
  next
    case False
    then show ?thesis using prune_and_set_triple [OF cfg i old, of s0 p0 S acc False] s(1,2)
      by (auto elim!: utriple_weaken simp: short_list_def)
  qed
qed

lemma prune_range_for:
  fixes acc :: "('i, 'v, 'w, 'e) prune_accessor"
  assumes cfg: "config_ok cfg" and V: "set ids \<subseteq> V"
  shows "utriple (\<lambda>s. sinv cfg V p0 D s \<and> (\<forall>i\<in>D. short_list cfg i s)) (ufor ids (prune_vertex cfg ops acc))
    (\<lambda>_ s. sinv cfg V p0 (D \<union> set ids) s \<and> (\<forall>i\<in>D \<union> set ids. short_list cfg i s))
    (\<lambda>e s. (\<exists>S. S \<subseteq> D \<union> set ids \<and> sinv cfg V p0 S s) \<and> (\<forall>f. e \<noteq> Panic f))"
  using V
proof (induction ids arbitrary: D)
  case Nil
  then show ?case by (auto intro!: utriple_ret)
next
  case (Cons i ids)
  let ?E = "\<lambda>e s. (\<exists>S. S \<subseteq> D \<union> set (i # ids) \<and> sinv cfg V p0 S s) \<and> (\<forall>f. e \<noteq> Panic f)"
  have i: "i \<in> V" using Cons.prems by simp
  have "utriple (\<lambda>s. sinv cfg V p0 D s \<and> (\<forall>i\<in>D. short_list cfg i s)) (prune_vertex cfg ops acc i)
    (\<lambda>_ s. sinv cfg V p0 (insert i D) s \<and> (\<forall>j\<in>insert i D. short_list cfg j s)) ?E"
  proof (rule utriple_pre, elim conjE)
    fix s0 :: "('i, 'w, 'p) istate" assume s0: "sinv cfg V p0 D s0" "\<forall>i\<in>D. short_list cfg i s0"
    show "utriple (\<lambda>t. t = s0) (prune_vertex cfg ops acc i)
      (\<lambda>_ s. sinv cfg V p0 (insert i D) s \<and> (\<forall>j\<in>insert i D. short_list cfg j s)) ?E"
    proof (rule utriple_weaken [OF prune_vertex_triple [OF cfg i, of s0 "ix_graph s0" "{}" acc]])
      fix s assume "sinv cfg V (ix_graph s0) {i} s \<and> short_list cfg i s"
      then have s: "sinv cfg V (ix_graph s0) {i} s" "short_list cfg i s" by simp_all
      have "short_list cfg j s" if "j \<in> D" for j
        using that s s0(2) by (cases "j = i") (auto simp: short_list_def sinv_def unchanged_def)
      then show "sinv cfg V p0 (insert i D) s \<and> (\<forall>j\<in>insert i D. short_list cfg j s)"
        using s sinv_trans [OF s(1), of D p0] s0(1) by (auto simp: sinv_def)
    next
      fix e s assume "sinv cfg V (ix_graph s0) {} s \<and> (\<forall>f. e \<noteq> Panic f)"
      then show "?E e s" using sinv_trans [of cfg V "ix_graph s0" "{}" s D p0] s0(1) by (auto simp: sinv_def)
    qed (use s0(1) sinv_start in blast)
  qed
  moreover have "utriple (\<lambda>s. sinv cfg V p0 (insert i D) s \<and> (\<forall>j\<in>insert i D. short_list cfg j s))
      (ufor ids (prune_vertex cfg ops acc))
      (\<lambda>_ s. sinv cfg V p0 (D \<union> set (i # ids)) s \<and> (\<forall>j\<in>D \<union> set (i # ids). short_list cfg j s)) ?E"
    using Cons.IH [of "insert i D"] Cons.prems by (auto elim!: utriple_weaken)
  ultimately show ?case unfolding ufor.simps by (rule utriple_bind)
qed

text \<open>Partitioned neighbors.\<close>

lemma run_partition:
  assumes "sinv cfg V p0 S s" "i \<in> V"
  obtains ns where "go_get ops (ix_graph s) i = Inr ns" "good_list cfg V ns"
    "get_undeleted_neighbors ops status i s
       = Some (Inr (filter (\<lambda>j. \<not> counts_deleted status j) ns, filter (counts_deleted status) ns), s)"
    "on_neighbors ops status i (\<lambda>j (p, d). (hash_insert j p, d)) (\<lambda>j (p, d). (p, d @ [j])) ([], []) s
       = Some (Inr (filter (\<lambda>j. \<not> counts_deleted status j) ns, filter (counts_deleted status) ns), s)"
    "\<And>pool. on_neighbors ops status i hash_insert (\<lambda>_ c. c) pool s
       = Some (Inr (pool @ fresh (filter (\<lambda>j. \<not> counts_deleted status j) ns) (set pool)), s)"
proof -
  obtain ns where ns: "go_get ops (ix_graph s) i = Inr ns" "good_list cfg V ns" "get_neighbors ops i s = Some (Inr ns, s)"
    using run_get [OF assms] .
  have "distinct ([] @ ns)" using ns(2) by (simp add: good_list_def)
  with ns show thesis
    by (intro that [of "ns"]) (simp_all add: get_undeleted_neighbors_def on_neighbors_def ubind_def uret_def
        fold_partition fold_hash fold_hash_partition)
qed

lemma run_keep_non_orphans:
  assumes "sinv cfg V p0 S s" "set ds \<subseteq> V"
  shows "keep_non_orphans ops ds pool s = Some (Inr (pool @ filter (\<lambda>d. go_get ops (ix_graph s) d \<noteq> Inr []) ds), s)"
  using assms(2)
proof (induction ds arbitrary: pool)
  case (Cons d ds)
  obtain ns where "go_get ops (ix_graph s) d = Inr ns" "get_neighbors ops d s = Some (Inr ns, s)"
    using run_get [OF assms(1), of d] Cons.prems by auto
  with Cons show ?case by (simp add: ubind_def)
qed (simp add: uret_def)

text \<open>What \<open>drop_deleted_neighbors\<close> leaves of a list.\<close>

lemma drop_deleted_run:
  assumes s: "sinv cfg V p0 S s" and i: "i \<in> V" and st: "escalate (status i) = Inr False"
  obtains old pool s' where "go_get ops (ix_graph s) i = Inr old"
    "pool = filter (\<lambda>j. \<not> counts_deleted status j) old @
      (if only_orphans then filter (\<lambda>d. go_get ops (ix_graph s) d \<noteq> Inr []) (filter (counts_deleted status) old) else [])"
    "drop_deleted_neighbors cfg ops status i only_orphans s = Some (Inr CComplete, s')"
    "sinv cfg V p0 (insert i S) s'" "go_get ops (ix_graph s') i = Inr pool"
proof -
  obtain old where old: "go_get ops (ix_graph s) i = Inr old" "good_list cfg V old"
    and part: "get_undeleted_neighbors ops status i s
       = Some (Inr (filter (\<lambda>j. \<not> counts_deleted status j) old, filter (counts_deleted status) old), s)"
    using run_partition [OF s i] .
  let ?u = "filter (\<lambda>j. \<not> counts_deleted status j) old" and ?d = "filter (counts_deleted status) old"
  define pool where "pool = ?u @ (if only_orphans then filter (\<lambda>d. go_get ops (ix_graph s) d \<noteq> Inr []) ?d else [])"
  have keep: "(if only_orphans then keep_non_orphans ops ?d ?u else uret ?u) s = Some (Inr pool, s)"
    using run_keep_non_orphans [OF s, of ?d ?u] old(2) by (auto simp: pool_def uret_def good_list_def)
  have run: "drop_deleted_neighbors cfg ops status i only_orphans s =
      (if ?d = [] \<and> length pool \<le> pruned_degree cfg then Some (Inr CComplete, s)
       else ubind (set_neighbors ops i pool) (\<lambda>_. uret CComplete) s)"
    using st part keep by (simp add: drop_deleted_neighbors_def ubind_def ulift_def uret_def)
  have good: "good_list cfg V pool"
  proof -
    have "length pool \<le> length ?u + length ?d" by (simp add: pool_def del: filter_filter)
    also have "\<dots> = length old" using sum_length_filter_compl [of "counts_deleted status" old] by simp
    finally have "length pool \<le> length old" .
    then show ?thesis using old(2) by (auto simp: good_list_def pool_def)
  qed
  show thesis
  proof (cases "?d = [] \<and> length pool \<le> pruned_degree cfg")
    case True
    then have "pool = old" by (auto simp: pool_def filter_empty_conv filter_id_conv)
    with True run s old(1) show thesis by (intro that [of old pool s]) (auto simp: pool_def intro: sinv_mono)
  next
    case False
    obtain s' where
      "set_neighbors ops i pool s = Some (Inr (), s')" "sinv cfg V p0 (insert i S) s'" "go_get ops (ix_graph s') i = Inr pool"
      using run_set [OF s i good] .
    with False run old(1) show thesis by (intro that [of old pool s']) (auto simp: pool_def ubind_def uret_def)
  qed
qed

end

text \<open>The candidates of a consolidation: the neighbors that are not deleted, and those of the neighbors
  that are.\<close>

definition list_of :: "('i, 'e, 'p) graph_ops \<Rightarrow> 'p \<Rightarrow> 'i \<Rightarrow> 'i set" where
  "list_of ops p i = (case go_get ops p i of Inr ns \<Rightarrow> set ns | Inl _ \<Rightarrow> {})"

definition replacements :: "('i, 'e, 'p) graph_ops \<Rightarrow> ('i, 'e) statuses \<Rightarrow> 'p \<Rightarrow> 'i \<Rightarrow> 'i set" where
  "replacements ops status p i =
     {j. \<not> counts_deleted status j \<and> (j \<in> list_of ops p i
        \<or> (\<exists>d\<in>list_of ops p i. counts_deleted status d \<and> j \<in> list_of ops p d))}"

context graph_update
begin

lemma run_neighbors_of_deleted:
  assumes "sinv cfg V p0 S s" "set ds \<subseteq> V" "distinct pool" "set pool \<subseteq> V"
  shows "\<exists>pool'. neighbors_of_deleted ops status ds pool s = Some (Inr pool', s) \<and> distinct pool' \<and> set pool' \<subseteq> V
    \<and> set pool' = set pool \<union> {j. \<not> counts_deleted status j \<and> (\<exists>d\<in>set ds. j \<in> list_of ops (ix_graph s) d)}"
  using assms(2-4)
proof (induction ds arbitrary: pool)
  case (Cons d ds)
  obtain ns where ns: "go_get ops (ix_graph s) d = Inr ns" "good_list cfg V ns"
    "on_neighbors ops status d hash_insert (\<lambda>_ c. c) pool s
       = Some (Inr (pool @ fresh (filter (\<lambda>j. \<not> counts_deleted status j) ns) (set pool)), s)"
    using run_partition [OF assms(1), of d status] Cons.prems(1) by (metis list.set_intros(1) subsetD)
  let ?pool = "pool @ fresh (filter (\<lambda>j. \<not> counts_deleted status j) ns) (set pool)"
  have "distinct ?pool" "set ?pool \<subseteq> V"
    using Cons.prems ns(2) by (auto simp: distinct_fresh set_fresh good_list_def)
  from Cons.IH [OF _ this] Cons.prems(1) obtain pool' where
    "neighbors_of_deleted ops status ds ?pool s = Some (Inr pool', s)" "distinct pool'" "set pool' \<subseteq> V"
    "set pool' = set ?pool \<union> {j. \<not> counts_deleted status j \<and> (\<exists>d\<in>set ds. j \<in> list_of ops (ix_graph s) d)}" by auto
  with ns show ?case by (intro exI [of _ pool']) (auto simp: ubind_def set_fresh list_of_def)
qed (simp add: uret_def)

definition consolidated :: "config \<Rightarrow> ('i, 'e) statuses \<Rightarrow> 'i \<Rightarrow> ('i, 'w, 'p) istate \<Rightarrow> ('i, 'w, 'p) istate \<Rightarrow> bool" where
  "consolidated cfg status i s s' \<longleftrightarrow> (\<exists>new. go_get ops (ix_graph s') i = Inr new
     \<and> length new \<le> pruned_degree cfg \<and> set new \<subseteq> replacements ops status (ix_graph s) i)"

text \<open>The last part of \<open>consolidate_vector\<close>, for a pool of candidates.\<close>

lemma consolidate_finish:
  fixes acc :: "('i, 'v, 'w, 'e) prune_accessor"
  assumes cfg: "config_ok cfg" and s: "sinv cfg V p0 S s" and i: "i \<in> V"
    and ns: "distinct ns" "set ns \<subseteq> V" "set ns \<subseteq> replacements ops status (ix_graph s) i"
  shows "\<exists>r s'. finish_consolidate cfg ops acc working_set i ns s = Some (r, s')
     \<and> sinv cfg V p0 (insert i S) s' \<and> (\<forall>f. r \<noteq> Inl (Panic f))
     \<and> (if r = Inr CComplete then consolidated cfg status i s s' else ix_graph s' = ix_graph s)"
proof -
  have set: "\<exists>s'. ubind (set_neighbors ops i ms) (\<lambda>_. uret CComplete) t = Some (Inr CComplete, s')
      \<and> sinv cfg V p0 (insert i S) s' \<and> consolidated cfg status i s s'"
    if t: "sinv cfg V p0 S t" "good_list cfg V ms" and ms: "length ms \<le> pruned_degree cfg"
      "set ms \<subseteq> replacements ops status (ix_graph s) i" for ms and t :: "('i, 'w, 'p) istate"
  proof -
    obtain s' where
      "set_neighbors ops i ms t = Some (Inr (), s')" "sinv cfg V p0 (insert i S) s'" "go_get ops (ix_graph s') i = Inr ms"
      using run_set [OF t(1) i t(2)] .
    with ms show ?thesis by (auto simp: ubind_def uret_def consolidated_def)
  qed
  show ?thesis
  proof (cases "length ns < pruned_degree cfg")
    case True
    then have "good_list cfg V ns" using ns cfg by (simp add: good_list_def config_ok_def)
    from set [OF s this _ ns(3)] True show ?thesis by (auto simp: finish_consolidate_def)
  next
    case False
    let ?t = "fresh_scratch working_set s"
    have t: "sinv cfg V p0 S ?t" "ix_graph ?t = ix_graph s" "ps_neighbors (ix_scratch ?t) = []"
      using s by (auto simp: sinv_def fresh_scratch_def prune_scratch_new_def al_new_def pruned_from_def)
    from utripleD [OF prune_triple [OF cfg ns(1,2), of ?t p0 S acc i False], of ?t] t obtain r s' where
      run: "prune_list cfg acc i ns False ?t = Some (r, s')"
      and r: "case r of Inl e \<Rightarrow> sinv cfg V p0 S s' \<and> ix_graph s' = ix_graph s \<and> (\<forall>f. e \<noteq> Panic f)
        | Inr ms \<Rightarrow> sinv cfg V p0 S s' \<and> good_list cfg V ms \<and> length ms \<le> pruned_degree cfg
            \<and> (pruned_from cfg (set ns - {i}) ms \<or> ms = [])" by (fastforce split: sum.splits)
    show ?thesis
    proof (cases r)
      case (Inl e)
      then show ?thesis using run r False
        by (cases e) (auto simp: finish_consolidate_def uret_def uthrow_def intro: sinv_mono)
    next
      case (Inr ms)
      have "set ms \<subseteq> replacements ops status (ix_graph s) i" using r Inr ns(3) by (auto simp: pruned_from_def)
      with set [of s' ms] r Inr show ?thesis using run False by (auto simp: finish_consolidate_def)
    qed
  qed
qed

lemma consolidate_run:
  fixes acc :: "'e + ('i, 'v, 'w, 'e) prune_accessor"
  assumes cfg: "config_ok cfg" and s: "sinv cfg V p0 S s" and i: "i \<in> V"
    and iter: "\<And>xs. mset (iter_order xs) = mset xs"
  shows "\<exists>r s'. consolidate_vector cfg ops acc working_set iter_order status i s = Some (r, s')
     \<and> sinv cfg V p0 (insert i S) s' \<and> (\<forall>f. r \<noteq> Inl (Panic f))
     \<and> (if r = Inr CComplete then consolidated cfg status i s s' else ix_graph s' = ix_graph s)"
proof -
  consider (err) e where "escalate (status i) = Inl e" | (del) "escalate (status i) = Inr True"
    | (acc) e where "escalate (status i) = Inr False" "acc = Inl e"
    | (ok) a where "escalate (status i) = Inr False" "acc = Inr a"
    by (metis (full_types) sum.exhaust)
  then show ?thesis
  proof cases
    case ok
    obtain old where old: "go_get ops (ix_graph s) i = Inr old" "good_list cfg V old"
      "on_neighbors ops status i (\<lambda>j (p, d). (hash_insert j p, d)) (\<lambda>j (p, d). (p, d @ [j])) ([], []) s
         = Some (Inr (filter (\<lambda>j. \<not> counts_deleted status j) old, filter (counts_deleted status) old), s)"
      using run_partition [OF s i] by metis
    let ?u = "filter (\<lambda>j. \<not> counts_deleted status j) old" and ?d = "filter (counts_deleted status) old"
    obtain pool where pool: "neighbors_of_deleted ops status ?d ?u s = Some (Inr pool, s)" "distinct pool" "set pool \<subseteq> V"
      "set pool = set ?u \<union> {j. \<not> counts_deleted status j \<and> (\<exists>d\<in>set ?d. j \<in> list_of ops (ix_graph s) d)}"
    proof -
      have "set ?d \<subseteq> V" "distinct ?u" "set ?u \<subseteq> V" using old(2) by (auto simp: good_list_def)
      from run_neighbors_of_deleted [OF s this, of status] that show thesis by blast
    qed
    define ns where "ns = iter_order (filter (\<lambda>j. j \<noteq> i) pool)"
    have "set ns = set (filter (\<lambda>j. j \<noteq> i) pool)" using mset_eq_setD [OF iter] by (simp only: ns_def)
    moreover have "distinct ns"
      using pool(2) mset_eq_imp_distinct_iff [OF iter, of "filter (\<lambda>j. j \<noteq> i) pool"] by (simp add: ns_def)
    moreover have "set pool \<subseteq> replacements ops status (ix_graph s) i"
      using old(1) unfolding pool(4) by (auto simp: replacements_def list_of_def)
    ultimately have ns: "distinct ns" "set ns \<subseteq> V" "set ns \<subseteq> replacements ops status (ix_graph s) i" using pool(3) by auto
    show ?thesis
    proof (cases "?d = [] \<and> length ?u \<le> pruned_degree cfg")
      case True
      then have "?u = old" by (auto simp: filter_empty_conv filter_id_conv)
      then have "consolidated cfg status i s s" using True old(1)
        by (auto simp: consolidated_def replacements_def list_of_def filter_id_conv)
      with True ok old(3) s show ?thesis
        by (auto simp: consolidate_vector_def ubind_def ulift_def uret_def intro: sinv_mono)
    next
      case False
      have "consolidate_vector cfg ops acc working_set iter_order status i s = finish_consolidate cfg ops a working_set i ns s"
        using ok False by (auto simp: consolidate_vector_def ubind_run old(3) pool(1) ns_def from_iter_unique_def)
      with consolidate_finish [OF cfg s i ns, of a working_set] show ?thesis by simp
    qed
  qed (auto simp: consolidate_vector_def ubind_def ulift_def uret_def uthrow_def intro: sinv_mono [OF s])
qed

end

section \<open>The in-memory provider\<close>

definition na_ops :: "(32 word, fault, neighbor_provider) graph_ops" where
  "na_ops = \<lparr>go_get = na_get_neighbors, go_set = na_set_neighbors, go_append = na_append_vector\<rparr>"

interpretation ix: graph_update np_wf na_valid np_cap na_ops
  unfolding graph_update_def na_ops_def graph_ops.simps by (rule na.neighbor_accessor_axioms)

lemma na_ops_get [simp]: "go_get na_ops = na_get_neighbors"
  by (simp add: na_ops_def)

definition index_inv :: "config \<Rightarrow> 32 word set \<Rightarrow> (32 word, 'w, neighbor_provider) istate \<Rightarrow> bool" where
  "index_inv cfg V s \<longleftrightarrow> graph_inv np_wf na_valid np_cap na_ops cfg V (ix_graph s)
     \<and> pruned_from cfg V (ps_neighbors (ix_scratch s))"

lemma ix_sinv: "ix.sinv cfg V p0 S s \<longleftrightarrow> index_inv cfg V s \<and> unchanged na_ops S p0 (ix_graph s)"
  by (auto simp: ix.sinv_def index_inv_def)

lemma ix_sinv_refl: "index_inv cfg V s \<Longrightarrow> ix.sinv cfg V (ix_graph s) {} s"
  by (simp add: ix_sinv unchanged_def)

text \<open>A small graph for the examples: four vertices without edges.\<close>

definition sample_ids :: "32 word set" where
  "sample_ids = {i. unat i < 4}"

lemma sample_index:
  obtains p where "np_new 0 3 1 4 f32_one = Inr p"
    "index_inv sample_config sample_ids \<lparr>ix_graph = p, ix_scratch = prune_scratch_new, ix_ws = ()\<rparr>"
    "\<And>i. i \<in> sample_ids \<Longrightarrow> na_get_neighbors p i = Inr []"
proof -
  have c: "f32_as_usize (f32_mul (f32_of_nat 4) f32_one) = 4" by (rule f32_of_nat_exact) simp
  then obtain p where p: "np_new 0 3 1 4 f32_one = Inr p" "np_wf p" "np_locks p = 4" "np_cap p = 4"
    "\<forall>i<4. get_neighbors_sync p i [] = Inr []" using np_new_ok [of 4 f32_one 0 3 1] by auto
  have e: "na_get_neighbors p i = Inr []" if "i \<in> sample_ids" for i
    using that p(5) by (simp add: sample_ids_def na_get_neighbors_def)
  have "index_inv sample_config sample_ids \<lparr>ix_graph = p, ix_scratch = prune_scratch_new, ix_ws = ()\<rparr>"
    using p e by (auto simp: index_inv_def graph_inv_def na_valid_def good_list_def sample_ids_def
        sample_config_def pruned_from_def prune_scratch_new_def al_new_def)
  from that [OF p(1) this e] show thesis .
qed

lemma sample_config_ok: "config_ok sample_config"
proof -
  have "pruned_degree sample_config \<le> max_degree sample_config" by (simp add: sample_config_def)
  then show ?thesis by (simp add: config_ok_def prunable_def sample_config_simps)
qed

section \<open>Properties\<close>



text \<open>The final pruning pass ends without a panic and keeps the graph well-formed; it changes the
  vertices of its range only, and when it succeeds each of them has at most \<open>pruned_degree\<close>
  out-neighbors.\<close>

theorem prune_range_correct:
  assumes "config_ok cfg" "set ids \<subseteq> V" "index_inv cfg V s"
  shows "\<exists>r s'. prune_range cfg na_ops acc working_set ids s = Some (r, s')
    \<and> index_inv cfg V s' \<and> (\<forall>f. r \<noteq> Inl (Panic f))
    \<and> (\<forall>j. j \<notin> set ids \<longrightarrow> na_get_neighbors (ix_graph s') j = na_get_neighbors (ix_graph s) j)
    \<and> (r = Inr () \<longrightarrow> (\<forall>i\<in>set ids. \<exists>ns. na_get_neighbors (ix_graph s') i = Inr ns \<and> length ns \<le> pruned_degree cfg))"
proof (cases acc)
  case (Inl e)
  then show ?thesis using assms(3) by (auto simp: prune_range_def uthrow_def ubind_def)
next
  case (Inr a)
  let ?t = "fresh_scratch working_set s"
  have t: "ix.sinv cfg V (ix_graph s) {} ?t" using assms(3)
    by (simp add: ix_sinv index_inv_def fresh_scratch_def unchanged_def prune_scratch_new_def al_new_def pruned_from_def)
  from utripleD [OF ix.prune_range_for [OF assms(1,2), of "ix_graph s" "{}" a, unfolded Un_empty_left], of ?t] t
  obtain r s' where run: "ufor ids (prune_vertex cfg na_ops a) ?t = Some (r, s')"
    and r: "case r of Inl e \<Rightarrow> (\<exists>S\<subseteq>set ids. ix.sinv cfg V (ix_graph s) S s') \<and> (\<forall>f. e \<noteq> Panic f)
      | Inr _ \<Rightarrow> ix.sinv cfg V (ix_graph s) (set ids) s' \<and> (\<forall>i\<in>set ids. ix.short_list cfg i s')" by blast
  have "prune_range cfg na_ops acc working_set ids s = Some (r, s')" using run Inr by (simp add: prune_range_def)
  then show ?thesis using r by (cases r) (auto simp: ix_sinv unchanged_def ix.short_list_def)
qed

text \<open>On a vertex that is not deleted, \<open>drop_deleted_neighbors\<close> succeeds and leaves exactly the
  neighbors that are not deleted, in order, followed, if only orphans are to be dropped, by the
  deleted neighbors that still have out-neighbors; no other list changes.  On a deleted vertex
  nothing changes.\<close>

theorem drop_deleted_neighbors_correct:
  assumes "i \<in> V" "index_inv cfg V s"
  shows "(escalate (status i) = Inr False \<longrightarrow>
      (\<exists>old s'. na_get_neighbors (ix_graph s) i = Inr old
        \<and> drop_deleted_neighbors cfg na_ops status i only_orphans s = Some (Inr CComplete, s') \<and> index_inv cfg V s'
        \<and> na_get_neighbors (ix_graph s') i = Inr (filter (\<lambda>j. \<not> counts_deleted status j) old @
            (if only_orphans then filter (\<lambda>d. na_get_neighbors (ix_graph s) d \<noteq> Inr []) (filter (counts_deleted status) old) else []))
        \<and> (\<forall>j. j \<noteq> i \<longrightarrow> na_get_neighbors (ix_graph s') j = na_get_neighbors (ix_graph s) j)))
    \<and> (escalate (status i) = Inr True \<longrightarrow> drop_deleted_neighbors cfg na_ops status i only_orphans s = Some (Inr CDeleted, s))"
proof (intro conjI impI)
  assume "escalate (status i) = Inr True"
  then show "drop_deleted_neighbors cfg na_ops status i only_orphans s = Some (Inr CDeleted, s)"
    by (simp add: drop_deleted_neighbors_def uret_def)
next
  assume st: "escalate (status i) = Inr False"
  from ix.drop_deleted_run [OF ix_sinv_refl [OF assms(2)] assms(1), of status only_orphans, OF st] obtain old pool s'
    where "go_get na_ops (ix_graph s) i = Inr old"
    "pool = filter (\<lambda>j. \<not> counts_deleted status j) old @
      (if only_orphans then filter (\<lambda>d. go_get na_ops (ix_graph s) d \<noteq> Inr []) (filter (counts_deleted status) old) else [])"
    "drop_deleted_neighbors cfg na_ops status i only_orphans s = Some (Inr CComplete, s')"
    "ix.sinv cfg V (ix_graph s) {i} s'" "go_get na_ops (ix_graph s') i = Inr pool" .
  then show "\<exists>old s'. na_get_neighbors (ix_graph s) i = Inr old
      \<and> drop_deleted_neighbors cfg na_ops status i only_orphans s = Some (Inr CComplete, s') \<and> index_inv cfg V s'
      \<and> na_get_neighbors (ix_graph s') i = Inr (filter (\<lambda>j. \<not> counts_deleted status j) old @
          (if only_orphans then filter (\<lambda>d. na_get_neighbors (ix_graph s) d \<noteq> Inr []) (filter (counts_deleted status) old) else []))
      \<and> (\<forall>j. j \<noteq> i \<longrightarrow> na_get_neighbors (ix_graph s') j = na_get_neighbors (ix_graph s) j)"
    by (intro exI [of _ old] exI [of _ s']) (simp add: ix_sinv unchanged_def)
qed



end
