(* ===== verification/Async_Tools.thy ===== *)
theory Async_Tools
  imports Prelude "HOL-Library.Word"
begin

text \<open>
  \<open>diskann/src/utils/async_tools.rs\<close>: how the work of a batch is divided among tasks.  A window
  around a position of a slice, the dynamic balancer that tasks share through an atomic counter,
  chunks of a slice, and the static partition of a range.

  The balancer is a step relation on the interleavings of its tasks: an atomic operation on the
  counter is one step.  The counter is a \<open>usize\<close> and wraps; \<open>NonZeroUsize\<close> is a number that is not 0.
\<close>

section \<open>Around\<close>

record 'a around =
  ar_slice :: "'a list"
  ar_skip :: nat
  ar_position :: nat
  ar_remaining :: nat

definition div_ceil :: "nat \<Rightarrow> nat \<Rightarrow> nat" where
  "div_ceil a b = (a + b - 1) div b"

definition around_new :: "'a list \<Rightarrow> nat \<Rightarrow> nat \<Rightarrow> 'a around" where
  "around_new sl i len =
     (let maxlen = length sl in
      if maxlen = 0 then \<lparr>ar_slice = sl, ar_skip = 0, ar_position = 0, ar_remaining = 0\<rparr>
      else
        let len = min len (maxlen - 1);
            half = div_ceil len 2;
            i = min i (maxlen - 1);
            position = (if half \<le> i then i - half else maxlen - (half - i))
        in \<lparr>ar_slice = sl, ar_skip = i, ar_position = position, ar_remaining = len\<rparr>)"

definition around_inc :: "'a around \<Rightarrow> nat \<times> 'a around" where
  "around_inc a =
     (let current = ar_position a; nxt = current + 1
      in (current, a\<lparr>ar_position := (if nxt = length (ar_slice a) then 0 else nxt)\<rparr>))"

definition around_next :: "'a around \<Rightarrow> ('a \<times> 'a around) option" where
  "around_next a =
     (if ar_remaining a = 0 then None
      else
        let a1 = a\<lparr>ar_remaining := ar_remaining a - 1\<rparr>;
            (i, a2) = around_inc a1;
            (j, a3) = (if i = ar_skip a2 then around_inc a2 else (i, a2))
        in Some (ar_slice a3 ! j, a3))"

text \<open>The items of the iterator; a call of \<open>next\<close> uses up one of the remaining ones.\<close>

function around_items :: "'a around \<Rightarrow> 'a list" where
  "around_items a = (case around_next a of None \<Rightarrow> [] | Some (x, a') \<Rightarrow> x # around_items a')"
  by pat_completeness auto
termination
  by (relation "measure ar_remaining")
    (auto simp: around_next_def around_inc_def Let_def split: if_splits)

declare around_items.simps [simp del]

section \<open>Partition\<close>

datatype partition_error = PartitionError nat nat

definition partition_impl :: "nat \<Rightarrow> nat \<Rightarrow> nat \<Rightarrow> nat \<times> nat" where
  "partition_impl nitems ntasks task =
     (let k = nitems div ntasks; m = nitems - k * ntasks in
      if m \<le> task then let start = m * (k + 1) + (task - m) * k in (start, start + k)
      else let start = task * (k + 1) in (start, start + k + 1))"

definition partition_range :: "nat \<Rightarrow> nat \<Rightarrow> nat \<Rightarrow> partition_error + (nat \<times> nat)" where
  "partition_range nitems ntasks task =
     (if ntasks \<le> task then Inl (PartitionError ntasks task) else Inr (partition_impl nitems ntasks task))"

record partition_iter =
  pi_nitems :: nat
  pi_ntasks :: nat
  pi_current :: nat

definition partition_iter_new :: "nat \<Rightarrow> nat \<Rightarrow> partition_iter" where
  "partition_iter_new nitems ntasks = \<lparr>pi_nitems = nitems, pi_ntasks = ntasks, pi_current = 0\<rparr>"

definition partition_iter_next :: "partition_iter \<Rightarrow> ((nat \<times> nat) \<times> partition_iter) option" where
  "partition_iter_next it =
     (if pi_ntasks it \<le> pi_current it then None
      else Some (partition_impl (pi_nitems it) (pi_ntasks it) (pi_current it), it\<lparr>pi_current := pi_current it + 1\<rparr>))"

function partition_iter_items :: "partition_iter \<Rightarrow> (nat \<times> nat) list" where
  "partition_iter_items it =
     (case partition_iter_next it of None \<Rightarrow> [] | Some (r, it') \<Rightarrow> r # partition_iter_items it')"
  by pat_completeness auto
termination
  by (relation "measure (\<lambda>it. pi_ntasks it - pi_current it)") (auto simp: partition_iter_next_def split: if_splits)

declare partition_iter_items.simps [simp del]

section \<open>Chunks\<close>

record 'a arc_chunk =
  ch_data :: "'a list"
  ch_start :: nat
  ch_stop :: nat

definition arc_chunk_new :: "'a list \<Rightarrow> nat \<Rightarrow> nat \<Rightarrow> fault + 'a arc_chunk" where
  "arc_chunk_new data start stop =
     (if stop \<le> length data then Inr \<lparr>ch_data = data, ch_start = start, ch_stop = stop\<rparr> else Inl AssertFault)"

definition get_chunk :: "'a arc_chunk \<Rightarrow> 'a list" where
  "get_chunk c = take (ch_stop c - ch_start c) (drop (ch_start c) (ch_data c))"

definition chunk_get :: "'a arc_chunk \<Rightarrow> nat \<Rightarrow> fault + 'a" where
  "chunk_get c i = (if i < length (get_chunk c) then Inr (get_chunk c ! i) else Inl IndexFault)"

definition arc_chunks :: "'a list \<Rightarrow> nat \<Rightarrow> (fault + 'a arc_chunk) list" where
  "arc_chunks arc_slice chunk_size =
     (let slice_len = length arc_slice; num_chunks = div_ceil slice_len chunk_size in
      map (\<lambda>chunk. let start = chunk_size * chunk; stop = min (start + chunk_size) slice_len
                   in arc_chunk_new arc_slice start stop) [0..<num_chunks])"

section \<open>The dynamic balancer\<close>

text \<open>A task that calls \<open>next\<close> takes a number from the counter.  If it is the index of an item the call
  returns it, otherwise the task still has to put the number back before it returns \<open>None\<close>.\<close>

datatype 'a next_outcome = Claimed 'a nat | PutBack | Abort

definition next_fetch :: "'a list \<Rightarrow> 64 word \<Rightarrow> 'a next_outcome \<times> 64 word" where
  "next_fetch items current =
     (let i = current in
      (if unat i < length items then Claimed (items ! unat i) (unat i)
       else if i = - 1 then Abort else PutBack, current + 1))"

definition next_putback :: "64 word \<Rightarrow> 64 word" where
  "next_putback current = current - 1"

text \<open>The state of the tasks: which of them are about to put a number back, what was returned to whom,
  and how many calls returned \<open>None\<close>.\<close>

record ('t, 'a) balancer =
  bl_items :: "'a list"
  bl_current :: "64 word"
  bl_pending :: "'t set"
  bl_log :: "('t \<times> 'a \<times> nat) list"
  bl_none :: nat
  bl_aborted :: bool

definition balancer_new :: "'a list \<Rightarrow> ('t, 'a) balancer" where
  "balancer_new items =
     \<lparr>bl_items = items, bl_current = 0, bl_pending = {}, bl_log = [], bl_none = 0, bl_aborted = False\<rparr>"

inductive balancer_step :: "'t set \<Rightarrow> ('t, 'a) balancer \<Rightarrow> ('t, 'a) balancer \<Rightarrow> bool" for tasks where
  claim: "t \<in> tasks \<Longrightarrow> t \<notin> bl_pending s \<Longrightarrow> \<not> bl_aborted s \<Longrightarrow>
    next_fetch (bl_items s) (bl_current s) = (Claimed v i, c) \<Longrightarrow>
    balancer_step tasks s (s\<lparr>bl_current := c, bl_log := bl_log s @ [(t, v, i)]\<rparr>)"
| miss: "t \<in> tasks \<Longrightarrow> t \<notin> bl_pending s \<Longrightarrow> \<not> bl_aborted s \<Longrightarrow>
    next_fetch (bl_items s) (bl_current s) = (PutBack, c) \<Longrightarrow>
    balancer_step tasks s (s\<lparr>bl_current := c, bl_pending := insert t (bl_pending s)\<rparr>)"
| abort: "t \<in> tasks \<Longrightarrow> t \<notin> bl_pending s \<Longrightarrow> \<not> bl_aborted s \<Longrightarrow>
    next_fetch (bl_items s) (bl_current s) = (Abort, c) \<Longrightarrow>
    balancer_step tasks s (s\<lparr>bl_current := c, bl_aborted := True\<rparr>)"
| put_back: "t \<in> bl_pending s \<Longrightarrow> \<not> bl_aborted s \<Longrightarrow>
    balancer_step tasks s
      (s\<lparr>bl_current := next_putback (bl_current s), bl_pending := bl_pending s - {t}, bl_none := bl_none s + 1\<rparr>)"

inductive_cases balancer_stepE: "balancer_step tasks s s'"

definition balancer_reach :: "'t set \<Rightarrow> 'a list \<Rightarrow> ('t, 'a) balancer \<Rightarrow> bool" where
  "balancer_reach tasks items = (balancer_step tasks)\<^sup>*\<^sup>* (balancer_new items)"

text \<open>The same as a function of the task that moves: \<open>task_step t\<close> is the next atomic operation of
  task \<open>t\<close>, the put-back when it is in the middle of a call and the start of a call otherwise.\<close>

definition task_step :: "'t \<Rightarrow> ('t, 'a) balancer \<Rightarrow> ('t, 'a) balancer" where
  "task_step t s =
     (if bl_aborted s then s
      else if t \<in> bl_pending s then
        s\<lparr>bl_current := next_putback (bl_current s), bl_pending := bl_pending s - {t}, bl_none := bl_none s + 1\<rparr>
      else case next_fetch (bl_items s) (bl_current s) of
        (Claimed v i, c) \<Rightarrow> s\<lparr>bl_current := c, bl_log := bl_log s @ [(t, v, i)]\<rparr>
      | (PutBack, c) \<Rightarrow> s\<lparr>bl_current := c, bl_pending := insert t (bl_pending s)\<rparr>
      | (Abort, c) \<Rightarrow> s\<lparr>bl_current := c, bl_aborted := True\<rparr>)"

section \<open>Lemmas: around\<close>

lemma around_inc_mod:
  assumes "ar_position a < length (ar_slice a)"
  shows "around_inc a = (ar_position a, a\<lparr>ar_position := (ar_position a + 1) mod length (ar_slice a)\<rparr>)"
  using assms by (auto simp: around_inc_def Let_def)

lemma around_next_mod:
  assumes "ar_position a < length (ar_slice a)" "0 < ar_remaining a"
  shows "around_next a =
    (let n = length (ar_slice a);
         j = (if ar_position a = ar_skip a then (ar_position a + 1) mod n else ar_position a)
     in Some (ar_slice a ! j, a\<lparr>ar_remaining := ar_remaining a - 1, ar_position := (j + 1) mod n\<rparr>))"
proof -
  let ?n = "length (ar_slice a)" let ?a1 = "a\<lparr>ar_remaining := ar_remaining a - 1\<rparr>"
  let ?a2 = "?a1\<lparr>ar_position := (ar_position a + 1) mod ?n\<rparr>"
  have "0 < ?n" using assms(1) by linarith
  then have "around_inc ?a1 = (ar_position a, ?a2)"
    "around_inc ?a2 = ((ar_position a + 1) mod ?n, ?a2\<lparr>ar_position := ((ar_position a + 1) mod ?n + 1) mod ?n\<rparr>)"
    using around_inc_mod [of ?a1] around_inc_mod [of ?a2] assms(1) by (simp_all add: mod_less_divisor)
  then show ?thesis using assms(2)
    by (cases "ar_position a = ar_skip a") (simp_all add: around_next_def Let_def)
qed

lemma mod_ne_aux: "(c :: nat) < h \<Longrightarrow> h < c + n \<Longrightarrow> (b + h) mod n \<noteq> (b + c) mod n"
proof
  assume lt: "c < h" "h < c + n" and "(b + h) mod n = (b + c) mod n"
  then have "n dvd (b + h) - (b + c)" by (simp add: mod_eq_dvd_iff_nat)
  then show False using lt dvd_imp_le [of n "h - c"] by simp
qed

lemma mod_ne: "(c :: nat) \<noteq> h \<Longrightarrow> c < h + n \<Longrightarrow> h < c + n \<Longrightarrow> (b + c) mod n \<noteq> (b + h) mod n"
  using mod_ne_aux [of c h n b] mod_ne_aux [of h c n b] by (cases "c < h") auto

lemma around_items_after:
  assumes "ar_slice a = xs" "0 < length xs" "ar_position a = (b + c) mod length xs" "ar_skip a = (b + h) mod length xs"
    and "h < c" "c + ar_remaining a \<le> h + length xs"
  shows "around_items a = map (\<lambda>k. xs ! ((b + k) mod length xs)) [c..<c + ar_remaining a]"
  using assms
proof (induction "ar_remaining a" arbitrary: a c)
  case 0
  then show ?case by (subst around_items.simps) (simp add: around_next_def)
next
  case (Suc r)
  let ?n = "length xs"
  have p: "ar_position a < length (ar_slice a)" "0 < ar_remaining a" using Suc by simp_all
  have ne: "ar_position a \<noteq> ar_skip a" using mod_ne [of c h ?n b] Suc by simp
  let ?a = "a\<lparr>ar_remaining := ar_remaining a - 1, ar_position := (b + Suc c) mod ?n\<rparr>"
  have "around_next a = Some (xs ! ((b + c) mod ?n), ?a)"
    using around_next_mod [OF p] ne Suc.prems by (simp add: Let_def mod_Suc_eq)
  moreover have "around_items ?a = map (\<lambda>k. xs ! ((b + k) mod ?n)) [Suc c..<Suc c + ar_remaining ?a]"
    using Suc.hyps Suc.prems by (intro Suc.hyps(1)) simp_all
  ultimately show ?case using Suc.hyps(2)
    by (subst around_items.simps) (simp add: upt_conv_Cons del: upt_Suc)
qed

lemma around_items_before:
  assumes "ar_slice a = xs" "0 < length xs" "ar_position a = (b + c) mod length xs" "ar_skip a = (b + h) mod length xs"
    and "c \<le> h" "h \<le> c + ar_remaining a" "h < length xs" "ar_remaining a + c < h + length xs"
  shows "around_items a = map (\<lambda>k. xs ! ((b + k) mod length xs)) ([c..<h] @ [h + 1..<c + ar_remaining a + 1])"
  using assms
proof (induction "ar_remaining a" arbitrary: a c)
  case 0
  then show ?case by (subst around_items.simps) (simp add: around_next_def)
next
  case (Suc r)
  let ?n = "length xs"
  have p: "ar_position a < length (ar_slice a)" "0 < ar_remaining a" using Suc by simp_all
  show ?case
  proof (cases "c = h")
    case True
    let ?a = "a\<lparr>ar_remaining := ar_remaining a - 1, ar_position := (b + Suc (Suc c)) mod ?n\<rparr>"
    have "around_next a = Some (xs ! ((b + Suc c) mod ?n), ?a)"
      using around_next_mod [OF p] True Suc.prems by (simp add: Let_def) (metis mod_Suc_eq)
    moreover have "around_items ?a = map (\<lambda>k. xs ! ((b + k) mod ?n)) [Suc (Suc c)..<Suc (Suc c) + ar_remaining ?a]"
      using Suc.prems True Suc.hyps(2) by (intro around_items_after [where h = h]) simp_all
    ultimately show ?thesis using Suc.hyps(2) True
      by (subst around_items.simps) (simp add: upt_conv_Cons del: upt_Suc)
  next
    case False
    have ne: "ar_position a \<noteq> ar_skip a" using mod_ne [of c h ?n b] False Suc.prems by simp
    let ?a = "a\<lparr>ar_remaining := ar_remaining a - 1, ar_position := (b + Suc c) mod ?n\<rparr>"
    have "around_next a = Some (xs ! ((b + c) mod ?n), ?a)"
      using around_next_mod [OF p] ne Suc.prems by (simp add: Let_def mod_Suc_eq)
    moreover have "around_items ?a = map (\<lambda>k. xs ! ((b + k) mod ?n)) ([Suc c..<h] @ [h + 1..<Suc c + ar_remaining ?a + 1])"
      using Suc.hyps Suc.prems False by (intro Suc.hyps(1)) simp_all
    ultimately show ?thesis using Suc.hyps(2) False Suc.prems(5)
      by (subst around_items.simps) (simp add: upt_conv_Cons del: upt_Suc)
  qed
qed


lemma around_start_mod:
  assumes "h < n" "i < (n :: nat)"
  shows "(if h \<le> i then i - h else n - (h - i)) = (i + n - h) mod n"
proof (cases "h \<le> i")
  case True
  then have "i + n - h = (i - h) + n" by simp
  then have "(i + n - h) mod n = i - h" using assms by (simp del: add_diff_assoc2)
  then show ?thesis using True by simp
next
  case False
  then have "i + n - h < n" "i + n - h = n - (h - i)" using assms by linarith+
  then show ?thesis using False by (metis mod_less)
qed

text \<open>The window around a position: min len (n - 1) items, the positions that follow one another cyclically
  from ceil(len/2) before the position, itself left out.\<close>

lemma around_items_eq:
  "around_items (around_new xs i len) =
    (let n = length xs; l = min len (n - 1); half = (l + 1) div 2; i' = min i (n - 1)
     in map (\<lambda>k. xs ! ((i' + n - half + k) mod n)) ([0..<half] @ [half + 1..<l + 1]))"
proof (cases "xs = []")
  case True
  then show ?thesis by (subst around_items.simps) (simp add: around_new_def around_next_def)
next
  case False
  define n where "n = length xs"
  define l where "l = min len (n - 1)"
  define h where "h = (l + 1) div 2"
  define j where "j = min i (n - 1)"
  let ?a = "around_new xs i len" let ?b = "j + n - h"
  have n: "0 < n" using False by (simp add: n_def)
  have a: "?a = \<lparr>ar_slice = xs, ar_skip = j, ar_position = (if h \<le> j then j - h else n - (h - j)), ar_remaining = l\<rparr>"
    using False by (simp add: around_new_def Let_def div_ceil_def n_def l_def h_def j_def)
  have "l < n" "j < n" using n by (auto simp: l_def j_def)
  then have b: "h \<le> l" "l < n" "h < n" "j < n" by (auto simp: h_def)
  then have "?b + h = j + n" by linarith
  then have skip: "ar_skip ?a = (?b + h) mod n" using b(4) a by simp
  have pos: "ar_position ?a = (?b + 0) mod n" using around_start_mod [OF b(3,4)] a by simp
  have "around_items ?a = map (\<lambda>k. xs ! ((?b + k) mod length xs)) ([0..<h] @ [h + 1..<0 + ar_remaining ?a + 1])"
    using b n a pos skip n_def by (intro around_items_before) simp_all
  then show ?thesis unfolding Let_def a n_def [symmetric] l_def [symmetric] h_def [symmetric] j_def [symmetric] by simp
qed


text \<open>The window of a slice without duplicates has none.\<close>

lemma around_distinct:
  assumes "distinct xs"
  shows "distinct (around_items (around_new xs i len))" "set (around_items (around_new xs i len)) \<subseteq> set xs"
proof -
  define n where "n = length xs"
  define l where "l = min len (n - 1)"
  define b where "b = min i (n - 1) + n - (l + 1) div 2"
  let ?ks = "[0..<(l + 1) div 2] @ [(l + 1) div 2 + 1..<l + 1]"
  have eq: "around_items (around_new xs i len) = map (\<lambda>k. xs ! ((b + k) mod n)) ?ks"
    unfolding around_items_eq Let_def n_def [symmetric] l_def [symmetric] b_def [symmetric] ..
  have ks: "k < n" if "k \<in> set ?ks" for k
  proof -
    have "k \<le> l" "0 < l" using that by auto
    moreover have "l \<le> n - 1" by (simp add: l_def)
    ultimately show ?thesis by linarith
  qed
  have "inj_on (\<lambda>k. xs ! ((b + k) mod n)) (set ?ks)"
  proof (rule inj_onI, rule ccontr)
    fix k h assume k: "k \<in> set ?ks" "h \<in> set ?ks" "xs ! ((b + k) mod n) = xs ! ((b + h) mod n)" "k \<noteq> h"
    have "(b + k) mod n < length xs" "(b + h) mod n < length xs" using ks [OF k(1)] by (auto simp: n_def intro!: mod_less_divisor)
    then have "(b + k) mod n = (b + h) mod n" using k(3) nth_eq_iff_index_eq [OF assms] by blast
    moreover have "k < h + n" "h < k + n" using ks [OF k(1)] ks [OF k(2)] by linarith+
    ultimately show False using mod_ne [OF k(4), of n b] by blast
  qed
  moreover have "distinct ?ks" by auto
  ultimately show "distinct (around_items (around_new xs i len))" unfolding eq distinct_map by blast
  show "set (around_items (around_new xs i len)) \<subseteq> set xs"
  proof
    fix x assume "x \<in> set (around_items (around_new xs i len))"
    then obtain k where "k \<in> set ?ks" "x = xs ! ((b + k) mod n)" unfolding eq set_map by blast
    then show "x \<in> set xs" using ks [of k] by (auto simp: n_def intro!: nth_mem mod_less_divisor)
  qed
qed

section \<open>Lemmas: partition and chunks\<close>

lemma concat_upt_steps:
  assumes "\<And>t. t < n \<Longrightarrow> f t \<le> f (Suc t)"
  shows "f 0 \<le> f n \<and> concat (map (\<lambda>t. [f t..<f (Suc t)]) [0..<n]) = [f 0..<f n]"
  using assms
proof (induction n)
  case (Suc n)
  then have "f 0 \<le> f n" "f n \<le> f (Suc n)" "concat (map (\<lambda>t. [f t..<f (Suc t)]) [0..<n]) = [f 0..<f n]" by simp_all
  then show ?case using upt_add_eq_append [of "f 0" "f n" "f (Suc n) - f n"] by simp
qed simp

definition part_start :: "nat \<Rightarrow> nat \<Rightarrow> nat \<Rightarrow> nat" where
  "part_start nitems ntasks t = t * (nitems div ntasks) + min t (nitems mod ntasks)"

lemma partition_impl_start: "partition_impl nitems ntasks t = (part_start nitems ntasks t, part_start nitems ntasks (Suc t))"
proof -
  have m: "nitems - nitems div ntasks * ntasks = nitems mod ntasks" by (simp add: minus_div_mult_eq_mod)
  show ?thesis
  proof (cases "nitems mod ntasks \<le> t")
    case True
    then obtain d where "t = nitems mod ntasks + d" using le_Suc_ex by blast
    then show ?thesis using m by (simp add: partition_impl_def part_start_def Let_def algebra_simps)
  next
    case False
    then show ?thesis using m by (simp add: partition_impl_def part_start_def Let_def algebra_simps)
  qed
qed

lemma partition_iter_items_from:
  "partition_iter_items it = map (partition_impl (pi_nitems it) (pi_ntasks it)) [pi_current it..<pi_ntasks it]"
proof (induction it rule: partition_iter_items.induct)
  case (1 it)
  show ?case
  proof (cases "pi_ntasks it \<le> pi_current it")
    case True
    then show ?thesis by (subst partition_iter_items.simps) (simp add: partition_iter_next_def)
  next
    case False
    then have nxt: "partition_iter_next it =
        Some (partition_impl (pi_nitems it) (pi_ntasks it) (pi_current it), it\<lparr>pi_current := pi_current it + 1\<rparr>)"
      by (simp add: partition_iter_next_def)
    show ?thesis using "1.IH" [OF nxt refl] False
      by (subst partition_iter_items.simps) (simp add: nxt upt_conv_Cons)
  qed
qed

lemma partition_iter_items_new:
  "partition_iter_items (partition_iter_new nitems ntasks) = map (partition_impl nitems ntasks) [0..<ntasks]"
  by (simp add: partition_iter_items_from partition_iter_new_def)

lemma part_start_all: "0 < ntasks \<Longrightarrow> part_start nitems ntasks ntasks = nitems"
  by (simp add: part_start_def min_def) (metis add.commute mod_mult_div_eq mult.commute le_eq_less_or_eq mod_less_divisor not_less)

lemma part_start_mono: "part_start nitems ntasks t \<le> part_start nitems ntasks (Suc t)"
  by (simp add: part_start_def min_def)

lemma partition_concat:
  assumes "0 < ntasks"
  shows "concat (map (\<lambda>(a, b). [a..<b]) (partition_iter_items (partition_iter_new nitems ntasks))) = [0..<nitems]"
proof -
  let ?f = "part_start nitems ntasks"
  have "concat (map (\<lambda>t. [?f t..<?f (Suc t)]) [0..<ntasks]) = [?f 0..<?f ntasks]"
    using concat_upt_steps [of ntasks ?f] part_start_mono by blast
  moreover have "?f 0 = 0" by (simp add: part_start_def)
  ultimately show ?thesis using part_start_all [OF assms]
    by (simp add: partition_iter_items_new partition_impl_start comp_def)
qed

text \<open>The static partition: for at least one task, the ranges of the iterator follow one another and
  together are exactly 0 to nitems, their lengths are nitems / ntasks or one more, the range of a task is
  the one the iterator yields for it, and a task number that is not below ntasks is the error that names
  both numbers.\<close>

theorem partition_covers:
  assumes "0 < ntasks"
  shows "concat (map (\<lambda>(a, b). [a..<b]) (partition_iter_items (partition_iter_new nitems ntasks))) = [0..<nitems]
    \<and> length (partition_iter_items (partition_iter_new nitems ntasks)) = ntasks
    \<and> list_all (\<lambda>(a, b). a \<le> b \<and> b - a \<in> {nitems div ntasks, nitems div ntasks + 1})
        (partition_iter_items (partition_iter_new nitems ntasks))
    \<and> partition_range nitems ntasks task =
        (if task < ntasks then Inr (partition_iter_items (partition_iter_new nitems ntasks) ! task)
         else Inl (PartitionError ntasks task))"
proof -
  let ?f = "part_start nitems ntasks"
  have "?f (Suc t) - ?f t \<in> {nitems div ntasks, nitems div ntasks + 1}" for t by (auto simp: part_start_def min_def)
  then show ?thesis using partition_concat [OF assms, of nitems] part_start_mono
    by (simp add: partition_iter_items_new partition_impl_start list_all_iff partition_range_def)
qed

lemma div_ceil_bounds:
  assumes "0 < c"
  shows "n \<le> c * div_ceil n c" "t < div_ceil n c \<Longrightarrow> c * t < n"
proof -
  have d: "n + c - 1 = c * ((n + c - 1) div c) + (n + c - 1) mod c" by simp
  have "(n + c - 1) mod c < c" using assms by simp
  then show "n \<le> c * div_ceil n c" using d unfolding div_ceil_def by linarith
  assume "t < div_ceil n c"
  then have "c * Suc t \<le> c * ((n + c - 1) div c)" unfolding div_ceil_def by (intro mult_le_mono2) simp
  then have "c * Suc t \<le> n + c - 1" using d by linarith
  then show "c * t < n" using assms by simp
qed

lemma concat_slices:
  assumes "\<And>t. t < n \<Longrightarrow> f t \<le> f (Suc t)" "f n \<le> length xs"
  shows "concat (map (\<lambda>t. take (f (Suc t) - f t) (drop (f t) xs)) [0..<n]) = take (f n - f 0) (drop (f 0) xs)"
  using assms
proof (induction n)
  case (Suc n)
  have "f n \<le> f (Suc n)" "f 0 \<le> f n" using Suc.prems concat_upt_steps [of n f] by auto
  then have e: "f (Suc n) - f 0 = (f n - f 0) + (f (Suc n) - f n)" "drop (f n - f 0) (drop (f 0) xs) = drop (f n) xs" by simp_all
  have "concat (map (\<lambda>t. take (f (Suc t) - f t) (drop (f t) xs)) [0..<n]) = take (f n - f 0) (drop (f 0) xs)"
    using Suc.prems(1) le_trans [OF \<open>f n \<le> f (Suc n)\<close> Suc.prems(2)] by (intro Suc.IH) auto
  then show ?case unfolding e(1) take_add e(2) by simp
qed simp

text \<open>The chunks of a slice: for a chunk size that is not 0, no chunk's bounds check fails, the chunks
  follow one another and together are the whole slice, every chunk but the last has exactly
  \<open>chunk_size\<close> items, and none is empty.\<close>

theorem arc_chunks_cover:
  assumes "0 < chunk_size"
  shows "\<exists>cs. arc_chunks xs chunk_size = map Inr cs \<and> concat (map get_chunk cs) = xs
    \<and> (\<forall>t < length cs. get_chunk (cs ! t) \<noteq> []
        \<and> (Suc t < length cs \<longrightarrow> length (get_chunk (cs ! t)) = chunk_size)
        \<and> length (get_chunk (cs ! t)) \<le> chunk_size)"
proof -
  let ?n = "div_ceil (length xs) chunk_size"
  define f where "f t = min (chunk_size * t) (length xs)" for t
  define cs where "cs = map (\<lambda>t. \<lparr>ch_data = xs, ch_start = f t, ch_stop = f (Suc t)\<rparr>) [0..<?n]"
  note b = div_ceil_bounds [OF assms, where n = "length xs"]
  have start: "f t = chunk_size * t" if "t < ?n" for t using b(2) [OF that] by (simp add: f_def)
  have all: "f ?n = length xs" using b(1) by (simp add: f_def)
  have "arc_chunks xs chunk_size = map Inr cs"
    using b(2) by (auto simp: arc_chunks_def cs_def arc_chunk_new_def f_def Let_def add.commute)
  moreover have "concat (map get_chunk cs) = xs"
    using concat_slices [of ?n f xs] all by (simp add: cs_def get_chunk_def comp_def f_def)
  moreover have "get_chunk (cs ! t) \<noteq> [] \<and> (Suc t < length cs \<longrightarrow> length (get_chunk (cs ! t)) = chunk_size)
      \<and> length (get_chunk (cs ! t)) \<le> chunk_size" if "t < length cs" for t
  proof -
    have t: "t < ?n" using that by (simp add: cs_def)
    have "f t < f (Suc t)" using b(2) [OF t] assms by (simp add: f_def)
    moreover have "Suc t < ?n \<Longrightarrow> f (Suc t) = f t + chunk_size" using start t by simp
    moreover have "f (Suc t) \<le> f t + chunk_size" using start [OF t] by (simp add: f_def)
    moreover have "f (Suc t) \<le> length xs" by (simp add: f_def)
    ultimately show ?thesis using t by (auto simp: cs_def get_chunk_def)
  qed
  ultimately show ?thesis by blast
qed

section \<open>Lemmas: the balancer\<close>

text \<open>What holds in every interleaving: the counter is the number of items given out plus the number of
  tasks about to put a number back, and items are given out in order.\<close>

definition balancer_inv :: "'t set \<Rightarrow> 'a list \<Rightarrow> ('t, 'a) balancer \<Rightarrow> bool" where
  "balancer_inv tasks items s \<longleftrightarrow>
     bl_items s = items \<and> \<not> bl_aborted s \<and> bl_pending s \<subseteq> tasks
     \<and> unat (bl_current s) = length (bl_log s) + card (bl_pending s)
     \<and> length (bl_log s) \<le> length items
     \<and> map snd (bl_log s) = map (\<lambda>i. (items ! i, i)) [0..<length (bl_log s)]
     \<and> ((bl_pending s \<noteq> {} \<or> 0 < bl_none s) \<longrightarrow> length (bl_log s) = length items)"

lemma balancer_inv_new: "balancer_inv tasks items (balancer_new items)"
  by (simp add: balancer_inv_def balancer_new_def)

lemma unat_inc: "Suc (unat (c :: 64 word)) < 2 ^ 64 \<Longrightarrow> unat (c + 1) = Suc (unat c)"
  by (simp add: unat_word_ariths)

lemma unat_dec: "0 < unat (c :: 64 word) \<Longrightarrow> unat (c - 1) = unat c - 1"
  by (metis One_nat_def diff_is_0_eq' less_eq_Suc_le neq0_conv unat_1 unat_sub word_le_nat_alt)

lemma next_fetch_cases:
  assumes "next_fetch items c = (r, c')" "Suc (unat c) < 2 ^ 64"
  shows "unat c' = Suc (unat c)"
    and "r = (if unat c < length items then Claimed (items ! unat c) (unat c) else PutBack)"
proof -
  have "c \<noteq> - 1" using unat_inc [OF assms(2)] by auto
  then show "unat c' = Suc (unat c)" "r = (if unat c < length items then Claimed (items ! unat c) (unat c) else PutBack)"
    using assms unat_inc by (auto simp: next_fetch_def Let_def)
qed

lemma balancer_inv_step:
  assumes "finite tasks" "card tasks + length items + 1 < 2 ^ 64"
    and inv: "balancer_inv tasks items s" and step: "balancer_step tasks s s'"
  shows "balancer_inv tasks items s'"
proof -
  have fin: "finite (bl_pending s)" "card (bl_pending s) \<le> card tasks"
    using inv assms(1) by (auto simp: balancer_inv_def intro: finite_subset card_mono)
  have room: "Suc (unat (bl_current s)) < 2 ^ 64" using inv fin(2) assms(2) by (auto simp: balancer_inv_def)
  show ?thesis using step
  proof (cases rule: balancer_step.cases)
    case (claim t v i c)
    note f = next_fetch_cases [OF claim(5) room]
    then have lt: "unat (bl_current s) < length items" "i = unat (bl_current s)" "v = items ! i"
      using inv by (auto simp: balancer_inv_def split: if_splits)
    then have "length (bl_log s) \<noteq> length items" using inv by (auto simp: balancer_inv_def)
    then have "bl_pending s = {}" "bl_none s = 0" using inv by (auto simp: balancer_inv_def)
    then show ?thesis using inv claim(1) f(1) lt by (simp add: balancer_inv_def)
  next
    case (miss t c)
    note f = next_fetch_cases [OF miss(5) room]
    then have "length items \<le> unat (bl_current s)" using inv by (auto simp: balancer_inv_def split: if_splits)
    then have "length (bl_log s) = length items" using inv by (cases "bl_pending s = {}") (auto simp: balancer_inv_def)
    then show ?thesis using inv miss f(1) fin(1) by (simp add: balancer_inv_def)
  next
    case (abort t c)
    then show ?thesis using next_fetch_cases(2) [OF abort(5) room] by (simp split: if_splits)
  next
    case (put_back t)
    then have "0 < card (bl_pending s)" using fin(1) card_gt_0_iff by blast
    moreover have "unat (next_putback (bl_current s)) = unat (bl_current s) - 1"
      using inv calculation unat_dec [of "bl_current s"] by (simp add: balancer_inv_def next_putback_def)
    ultimately show ?thesis using inv put_back fin(1) by (auto simp: balancer_inv_def)
  qed
qed

lemma balancer_inv_reach:
  assumes "finite tasks" "card tasks + length items + 1 < 2 ^ 64" "balancer_reach tasks items s"
  shows "balancer_inv tasks items s"
  using assms(3) unfolding balancer_reach_def
  by (induction rule: rtranclp_induct) (auto intro: balancer_inv_new balancer_inv_step [OF assms(1,2)])


text \<open>A step that is taken while items are left claims the next one.\<close>

lemma balancer_step_claims:
  assumes "finite tasks" "card tasks + length items + 1 < 2 ^ 64"
    and inv: "balancer_inv tasks items s" and step: "balancer_step tasks s s'"
  shows "length (bl_log s') = min (Suc (length (bl_log s))) (length items)"
proof -
  have inv': "balancer_inv tasks items s'" by (rule balancer_inv_step [OF assms])
  show ?thesis using step
  proof (cases rule: balancer_step.cases)
    case (claim t v i c)
    then show ?thesis using inv' by (simp add: balancer_inv_def)
  next
    case (miss t c)
    then show ?thesis using inv' by (simp add: balancer_inv_def)
  next
    case (abort t c)
    then show ?thesis using inv' by (simp add: balancer_inv_def)
  next
    case (put_back t)
    then show ?thesis using inv' by (simp add: balancer_inv_def)
  qed
qed

text \<open>The function and the relation agree.\<close>

lemma task_step_iff:
  assumes "bl_pending s \<subseteq> tasks"
  shows "balancer_step tasks s s' \<longleftrightarrow> \<not> bl_aborted s \<and> (\<exists>t\<in>tasks. s' = task_step t s)"
proof
  assume "balancer_step tasks s s'"
  then show "\<not> bl_aborted s \<and> (\<exists>t\<in>tasks. s' = task_step t s)"
    using assms by (cases rule: balancer_step.cases) (auto simp: task_step_def split: prod.splits next_outcome.splits)
next
  assume "\<not> bl_aborted s \<and> (\<exists>t\<in>tasks. s' = task_step t s)"
  then obtain t where t: "t \<in> tasks" "s' = task_step t s" "\<not> bl_aborted s" by blast
  show "balancer_step tasks s s'"
  proof (cases "t \<in> bl_pending s")
    case True
    then show ?thesis using t put_back [of t s tasks] by (simp add: task_step_def)
  next
    case False
    obtain r c where "next_fetch (bl_items s) (bl_current s) = (r, c)" by fastforce
    then show ?thesis using claim [of t tasks s] miss [of t tasks s] abort [of t tasks s] t False
      by (cases r) (auto simp: task_step_def)
  qed
qed

lemma task_step_inv:
  assumes "finite tasks" "card tasks + length items + 1 < 2 ^ 64" "balancer_inv tasks items s" "t \<in> tasks"
  shows "balancer_step tasks s (task_step t s)" "balancer_inv tasks items (task_step t s)"
proof -
  show step: "balancer_step tasks s (task_step t s)"
    using assms(3,4) by (subst task_step_iff) (auto simp: balancer_inv_def)
  show "balancer_inv tasks items (task_step t s)" by (rule balancer_inv_step [OF assms(1-3) step])
qed

lemma schedule_inv:
  assumes "finite tasks" "card tasks + length items + 1 < 2 ^ 64" "balancer_inv tasks items s" "set ts \<subseteq> tasks"
  shows "(balancer_step tasks ^^ length ts) s (fold task_step ts s) \<and> balancer_inv tasks items (fold task_step ts s)
    \<and> length (bl_log (fold task_step ts s)) = min (length (bl_log s) + length ts) (length items)"
  using assms(4)
proof (induction ts rule: rev_induct)
  case Nil
  then show ?case using assms(3) by (simp add: balancer_inv_def)
next
  case (snoc t ts)
  let ?s = "fold task_step ts s"
  have t: "t \<in> tasks" "set ts \<subseteq> tasks" using snoc.prems by simp_all
  then have IH: "(balancer_step tasks ^^ length ts) s ?s" "balancer_inv tasks items ?s"
    "length (bl_log ?s) = min (length (bl_log s) + length ts) (length items)" using snoc.IH by blast+
  note st = task_step_inv [OF assms(1,2) IH(2) t(1)]
  have "length (bl_log (task_step t ?s)) = min (length (bl_log s) + length (ts @ [t])) (length items)"
    using balancer_step_claims [OF assms(1,2) IH(2) st(1)] IH(3) by (auto simp: min_def)
  then show ?case using IH(1) st by (auto intro: relcomppI)
qed

text \<open>A call that has to put its number back stays in that state under the steps of the others.\<close>

lemma pending_kept: "t \<in> bl_pending s \<Longrightarrow> set us \<subseteq> - {t} \<Longrightarrow> t \<in> bl_pending (fold task_step us s)"
proof (induction us arbitrary: s)
  case (Cons u us)
  then have "t \<in> bl_pending (task_step u s)"
    by (auto simp: task_step_def split: prod.splits next_outcome.splits)
  with Cons show ?case by simp
qed simp

lemma log_prefix: "\<exists>zs. bl_log (fold task_step us s) = bl_log s @ zs"
proof (induction us arbitrary: s)
  case (Cons u us)
  have "\<exists>zs. bl_log (task_step u s) = bl_log s @ zs"
    by (auto simp: task_step_def split: prod.splits next_outcome.splits)
  then show ?case using Cons [of "task_step u s"] by auto
qed simp

lemma task_step_call:
  assumes "finite tasks" "card tasks + length items + 1 < 2 ^ 64" "balancer_inv tasks items s" "t \<notin> bl_pending s"
  shows "length (bl_log s) < length items \<Longrightarrow>
      bl_log (task_step t s) = bl_log s @ [(t, items ! length (bl_log s), length (bl_log s))]
      \<and> bl_pending (task_step t s) = bl_pending s"
    and "length (bl_log s) = length items \<Longrightarrow> t \<in> bl_pending (task_step t s)"
proof -
  have fin: "finite (bl_pending s)" "card (bl_pending s) \<le> card tasks"
    using assms(1,3) by (auto simp: balancer_inv_def intro: finite_subset card_mono)
  have room: "Suc (unat (bl_current s)) < 2 ^ 64" using assms(2,3) fin(2) by (auto simp: balancer_inv_def)
  obtain r c where f: "next_fetch (bl_items s) (bl_current s) = (r, c)" by fastforce
  note r = next_fetch_cases(2) [OF f room]
  show "length (bl_log s) < length items \<Longrightarrow>
      bl_log (task_step t s) = bl_log s @ [(t, items ! length (bl_log s), length (bl_log s))]
      \<and> bl_pending (task_step t s) = bl_pending s"
    using assms(3,4) f r by (auto simp: balancer_inv_def task_step_def)
  show "length (bl_log s) = length items \<Longrightarrow> t \<in> bl_pending (task_step t s)"
    using assms(3,4) f r by (auto simp: balancer_inv_def task_step_def)
qed

text \<open>C21: Tasks that share a balancer never process an item twice and never lose one: in every
  interleaving of their atomic operations the process does not abort, the items given out so far are a
  prefix of the slice, each with its own index, and a call only returns \<open>None\<close> once all items have been
  given out, provided that the number of tasks and items together stays below the range of the counter.\<close>

theorem balancer_exactly_once:
  assumes "finite tasks" "card tasks + length items + 1 < 2 ^ 64" "balancer_reach tasks items s"
  shows "\<not> bl_aborted s
    \<and> map snd (bl_log s) = zip (take (length (bl_log s)) items) [0..<length (bl_log s)]
    \<and> (0 < bl_none s \<longrightarrow> map (fst \<circ> snd) (bl_log s) = items)"
proof -
  have inv: "balancer_inv tasks items s" by (rule balancer_inv_reach [OF assms])
  have log: "map snd (bl_log s) = zip (take (length (bl_log s)) items) [0..<length (bl_log s)]"
    using inv by (auto simp: balancer_inv_def intro!: nth_equalityI)
  have "map fst (map snd (bl_log s)) = map fst (zip (take (length (bl_log s)) items) [0..<length (bl_log s)])"
    by (rule arg_cong [OF log])
  also have "\<dots> = take (length (bl_log s)) items" using inv by (intro map_fst_zip) (simp add: balancer_inv_def)
  finally have claimed: "map (fst \<circ> snd) (bl_log s) = take (length (bl_log s)) items" by simp
  have "\<not> bl_aborted s" "0 < bl_none s \<Longrightarrow> length (bl_log s) = length items" using inv by (auto simp: balancer_inv_def)
  then show ?thesis using log claimed by simp
qed

text \<open>C27: The balancer is wait-free.  After any schedule \<open>ts\<close> of the tasks, which is a run of the
  step relation, one item has been given out per step until none is left.  A call of \<open>next\<close> that
  task \<open>t\<close> starts then returns the next item, with its index, at its first step while items are
  left; otherwise it returns \<open>None\<close> at its second step, whatever steps \<open>us\<close> the other tasks take in
  between.\<close>

theorem balancer_progress:
  assumes "finite tasks" "card tasks + length items + 1 < 2 ^ 64" "set ts \<subseteq> tasks" "t \<in> tasks"
    and "s = fold task_step ts (balancer_new items)" "t \<notin> bl_pending s" "set us \<subseteq> tasks - {t}"
  shows "(balancer_step tasks ^^ length ts) (balancer_new items) s
    \<and> length (bl_log s) = min (length ts) (length items)
    \<and> (if length ts < length items
       then bl_log (task_step t s) = bl_log s @ [(t, items ! length ts, length ts)] \<and> t \<notin> bl_pending (task_step t s)
       else let s1 = fold task_step us (task_step t s) in
            t \<in> bl_pending s1 \<and> t \<notin> bl_pending (task_step t s1)
            \<and> bl_none (task_step t s1) = bl_none s1 + 1 \<and> bl_log (task_step t s1) = bl_log s)"
proof -
  note run = schedule_inv [OF assms(1,2) balancer_inv_new assms(3), folded assms(5)]
  have inv: "balancer_inv tasks items s" and len: "length (bl_log s) = min (length ts) (length items)"
    using run by (auto simp: balancer_new_def)
  note call = task_step_call [OF assms(1,2) inv assms(6)]
  let ?s1 = "fold task_step us (task_step t s)"
  note inv1 = task_step_inv(2) [OF assms(1,2) inv assms(4)]
  have "set us \<subseteq> tasks" using assms(7) by blast
  note run1 = schedule_inv [OF assms(1,2) inv1 this]
  have last: "t \<in> bl_pending ?s1 \<and> t \<notin> bl_pending (task_step t ?s1)
      \<and> bl_none (task_step t ?s1) = bl_none ?s1 + 1 \<and> bl_log (task_step t ?s1) = bl_log s"
    if "\<not> length ts < length items"
  proof -
    have full: "length (bl_log s) = length items" using len that by simp
    have "t \<in> bl_pending ?s1" using pending_kept [OF call(2) [OF full]] assms(7) by blast
    moreover have "\<not> bl_aborted ?s1" using run1 by (simp add: balancer_inv_def)
    moreover have "bl_log ?s1 = bl_log s"
    proof -
      have 1: "bl_log (task_step t s) = bl_log s"
        using call(2) [OF full] assms(6) by (auto simp: task_step_def split: prod.splits next_outcome.splits if_splits)
      have "length (bl_log ?s1) = length (bl_log (task_step t s))" using run1 1 full by simp
      then show ?thesis using log_prefix [of us "task_step t s"] 1 by auto
    qed
    ultimately show ?thesis by (simp add: task_step_def)
  qed
  have first: "length ts < length items \<Longrightarrow>
      bl_log (task_step t s) = bl_log s @ [(t, items ! length ts, length ts)] \<and> t \<notin> bl_pending (task_step t s)"
    using call(1) len assms(6) by simp
  show ?thesis using run len first last by (simp add: Let_def balancer_new_def)
qed

text \<open>A run of two tasks over one item: the first takes it, the second finds nothing.\<close>

lemma balancer_sample:
  "(balancer_step {False, True} ^^ 3) (balancer_new [CHR ''a''])
    \<lparr>bl_items = ''a'', bl_current = 1, bl_pending = {}, bl_log = [(False, CHR ''a'', 0)], bl_none = 1, bl_aborted = False\<rparr>"
proof -
  let ?s = "\<lambda>c p k. \<lparr>bl_items = ''a'', bl_current = c, bl_pending = p, bl_log = [(False, CHR ''a'', 0)], bl_none = k, bl_aborted = False\<rparr>"
  have 1: "balancer_step {False, True} (balancer_new ''a'') (?s 1 {} 0)"
    using claim [of False "{False, True}" "balancer_new ''a''" "CHR ''a''" 0 1] by (simp add: balancer_new_def next_fetch_def)
  have 2: "balancer_step {False, True} (?s 1 {} 0) (?s 2 {True} 0)"
    using miss [of True "{False, True}" "?s 1 {} 0" 2] by (simp add: next_fetch_def)
  have 3: "balancer_step {False, True} (?s 2 {True} 0) (?s 1 {} 1)"
    using put_back [of True "?s 2 {True} 0" "{False, True}"] by (simp add: next_putback_def)
  show ?thesis using 1 2 3 by (auto simp: numeral_3_eq_3)
qed

theorem balancer_exactly_once_witness:
  "\<exists>s :: (bool, char) balancer. balancer_reach {False, True} ''a'' s \<and> \<not> bl_aborted s \<and> 0 < bl_none s
    \<and> map (fst \<circ> snd) (bl_log s) = ''a''"
proof -
  let ?s = "\<lparr>bl_items = ''a'', bl_current = 1, bl_pending = {}, bl_log = [(False, CHR ''a'', 0)], bl_none = 1, bl_aborted = False\<rparr>"
  have r: "balancer_reach {False, True} ''a'' ?s"
    using balancer_sample unfolding balancer_reach_def by (rule relpowp_imp_rtranclp)
  show ?thesis using balancer_exactly_once [OF _ _ r] r by (intro exI [of _ ?s]) simp
qed

theorem balancer_progress_witness:
  "\<exists>s :: (bool, char) balancer. s = fold task_step [False] (balancer_new ''ab'')
    \<and> bl_log (task_step True s) = [(False, CHR ''a'', 0), (True, CHR ''b'', 1)]
    \<and> bl_none (task_step True (fold task_step [False, False] (task_step True (task_step False s)))) = 2"
proof -
  note p = balancer_progress [of "{False, True}" "''ab''" "[False]" True _ "[]", OF _ _ _ _ refl]
    and q = balancer_progress [of "{False, True}" "''ab''" "[False, False]" True _ "[False, False]", OF _ _ _ _ refl]
  show ?thesis using p q by (simp add: balancer_new_def task_step_def next_fetch_def next_putback_def Let_def)
qed

end
