(* ===== verification/Index_Insert.thy ===== *)
theory Index_Insert
  imports Index_Update Async_Tools
begin

text \<open>
  Insertion of a vector: \<open>insert\<close> of \<open>diskann/src/graph/index.rs\<close>, the composition of the greedy
  search, the pruning and the edge updates.

  What an insert strategy provides is a record: its search accessor reads the graph as it is when the
  accessor is made, the query computer and the start points belong to the inserted vector.  Writing the
  vector itself (\<open>set_element\<close>, and \<open>complete\<close> of its guard) does not touch the graph: what the rest of the
  operation depends on is the internal identifier it returns.  The search parameter that is doubled by a
  retry is a natural number.
\<close>

section \<open>Model\<close>

record ('i, 'v, 'u, 'w, 'e, 'a, 'p) insert_strategy =
  is_search_accessor :: "'p \<Rightarrow> 'e + (('i, 'v, 'e, 'a) search_accessor \<times> 'a)"
  is_computer :: "'e + ('v \<Rightarrow> f32)"
  is_starting_points :: "'e + 'i list"
  is_prune_accessor :: "'e + ('i, 'u, 'w, 'e) prune_accessor"
  is_working_set :: "nat \<Rightarrow> 'w"

definition search_visited ::
  "('i, 'v, 'e, 'a) search_accessor \<Rightarrow> ('v \<Rightarrow> f32) \<Rightarrow> 'i list \<Rightarrow> ('i, 'i npq) search_scratch \<Rightarrow> 'a
    \<Rightarrow> ('i, 'e, 'w, 'p, ('i, 'i npq) search_scratch \<times> 'i neighbor list \<times> 'a) update" where
  "search_visited accessor computer start_ids scratch a s =
     (case search_internal accessor computer npq_ops visited_record None start_ids scratch [] a of
        None \<Rightarrow> None
      | Some (Inl (SError e)) \<Rightarrow> uthrow (Other e) s
      | Some (Inl (SPanic f)) \<Rightarrow> uthrow (Panic f) s
      | Some (Inr (stats, scratch', record, a')) \<Rightarrow> uret (scratch', record, a') s)"

text \<open>The candidates are sorted and cut off, the new neighbors are a list of their own.\<close>

definition prune_visited ::
  "config \<Rightarrow> ('i, 'u, 'w, 'e) prune_accessor \<Rightarrow> 'i \<Rightarrow> bool \<Rightarrow> 'i neighbor list \<Rightarrow> 'i adjacency_list
    \<Rightarrow> ('i, 'e, 'w, 'p, 'i adjacency_list) update" where
  "prune_visited cfg accessor internal_id force_saturate vis new_neighbors s =
     (let context = \<lparr>ps_pool = sorted_neighbors vis (max_occlusion_size cfg),
            ps_occlude_factor = ps_occlude_factor (ix_scratch s),
            ps_last_checked = ps_last_checked (ix_scratch s), ps_neighbors = new_neighbors\<rparr>
      in case robust_prune cfg accessor internal_id force_saturate context (ix_ws s) of
           None \<Rightarrow> None
         | Some (r, context', ws) \<Rightarrow>
             Some (rbind r (\<lambda>_. Inr (ps_neighbors context')),
               s\<lparr>ix_scratch := (ix_scratch s)\<lparr>ps_occlude_factor := ps_occlude_factor context',
                   ps_last_checked := ps_last_checked context'\<rparr>, ix_ws := ws\<rparr>))"

fun insert_attempts ::
  "config \<Rightarrow> ('i, 'v, 'e, 'a) search_accessor \<Rightarrow> ('v \<Rightarrow> f32) \<Rightarrow> 'i list \<Rightarrow> ('i, 'u, 'w, 'e) prune_accessor \<Rightarrow> 'i
    \<Rightarrow> nat \<Rightarrow> nat \<Rightarrow> ('i, 'i npq) search_scratch \<Rightarrow> nat \<Rightarrow> 'i adjacency_list \<Rightarrow> 'a
    \<Rightarrow> ('i, 'e, 'w, 'p, 'i adjacency_list) update" where
  "insert_attempts cfg accessor computer start_ids prune_acc internal_id 0 attempt scratch search_l new_neighbors a =
     uret new_neighbors"
| "insert_attempts cfg accessor computer start_ids prune_acc internal_id (Suc n) attempt scratch search_l new_neighbors a =
     ubind (search_visited accessor computer start_ids scratch a) (\<lambda>(scratch, vis, a).
     ubind (prune_visited cfg prune_acc internal_id
              (case experimental_insert_retry cfg of None \<Rightarrow> False | Some v \<Rightarrow> should_saturate v attempt)
              vis new_neighbors) (\<lambda>new_neighbors.
     if (case experimental_insert_retry cfg of None \<Rightarrow> False
         | Some v \<Rightarrow> should_retry v attempt (length new_neighbors))
     then insert_attempts cfg accessor computer start_ids prune_acc internal_id n (attempt + 1)
            (scratch_clear (scratch_resize (search_l * 2) scratch)) (search_l * 2) new_neighbors a
     else uret new_neighbors))"

definition num_insert_attempts :: "config \<Rightarrow> nat" where
  "num_insert_attempts cfg = (case experimental_insert_retry cfg of None \<Rightarrow> 1 | Some v \<Rightarrow> max_retries v)"

definition index_search_scratch :: "config \<Rightarrow> nat \<Rightarrow> nat \<Rightarrow> ('i, 'i npq) search_scratch" where
  "index_search_scratch cfg l additional =
     scratch_create \<lparr>l_value = l, ssp_max_degree = max_degree cfg, num_frozen_pts = additional\<rparr>"

definition add_backedges ::
  "config \<Rightarrow> ('i, 'e, 'p) graph_ops \<Rightarrow> 'e + ('i, 'u, 'w, 'e) prune_accessor \<Rightarrow> 'i \<Rightarrow> 'i list
    \<Rightarrow> ('i, 'e, 'w, 'p, unit) update" where
  "add_backedges cfg ops prune_acc internal_id sources =
     ufor sources (\<lambda>source. add_edge_and_prune cfg ops prune_acc [internal_id] source None)"

definition index_insert ::
  "config \<Rightarrow> ('i, 'e, 'p) graph_ops \<Rightarrow> ('i, 'v, 'u, 'w, 'e, 'a, 'p) insert_strategy \<Rightarrow> 'e ranked_error + 'i
    \<Rightarrow> ('i, 'e, 'w, 'p, unit) update" where
  "index_insert cfg ops strategy set_element s =
     (ubind (ulift (escalate set_element)) (\<lambda>internal_id.
      ubind (ulift (is_search_accessor strategy (ix_graph s))) (\<lambda>(accessor, a).
      ubind (ulift (is_computer strategy)) (\<lambda>computer.
      ubind (ulift (is_starting_points strategy)) (\<lambda>start_ids.
      ubind (ulift (is_prune_accessor strategy)) (\<lambda>prune_acc.
      let scratch = index_search_scratch cfg (l_build cfg) (length start_ids) in
      (\<lambda>t. ubind (insert_attempts cfg accessor computer start_ids prune_acc internal_id (num_insert_attempts cfg) 0
               scratch (scratch_search_l scratch) al_new a) (\<lambda>new_neighbors.
           ubind (set_neighbors ops internal_id new_neighbors) (\<lambda>_.
           add_backedges cfg ops (is_prune_accessor strategy) internal_id
             (take (max_backedges cfg) new_neighbors)))
         (fresh_scratch (is_working_set strategy (max_occlusion_size cfg)) t)))))))) s"


section \<open>The search for candidates\<close>

lemma scratch_retry:
  assumes "npq_fixed l (best sc)"
  shows "scratch_clear (scratch_resize n sc) = search_scratch_new (Fixed n)"
  using assms
  by (cases "best sc") (simp add: scratch_clear_def scratch_resize_def search_scratch_new_def reconfigure_def npq_clear_def
      npq_new_def npq_fixed_def Let_def)

lemma rec_ok_search:
  "\<forall>X s r s' r'. search_inv (npq_fixed l) npq_entries npq_cov acc computer V X s \<longrightarrow>
    rec_ok (npq_entries (best s)) (visited s) r \<longrightarrow>
    search_step acc computer npq_ops visited_record bw s r = Inr (s', r') \<longrightarrow>
    rec_ok (npq_entries (best s')) (visited s') r'"
  using npql.search_step_rec by blast

text \<open>The candidates are distinct identifiers of the graph.\<close>

lemma search_visited_run:
  fixes s :: "('i, 'w, 'p) istate"
  assumes "0 < l" "graph_closed acc V" "set start_ids \<subseteq> V" "distinct start_ids"
  obtains (err) e where "search_visited acc computer start_ids (search_scratch_new (Fixed l)) a s = Some (Inl (Other e), s)"
  | (ok) sc r a' where "search_visited acc computer start_ids (search_scratch_new (Fixed l)) a s = Some (Inr (sc, r, a'), s)"
      "npq_fixed l (best sc)" "distinct (map nbr_id r)" "nbr_id ` set r \<subseteq> V"
proof -
  let ?s0 = "search_scratch_new (Fixed l)"
  have "None \<noteq> Some (0 :: nat)" by simp
  have J: "\<And>s. rec_ok (npq_entries (best s)) (visited s) []" by (simp add: rec_ok_def)
  from npql.search_internal_spec [where J = "\<lambda>s r. rec_ok (npq_entries (best s)) (visited s) r" and r = "[]" and a = a
      and beam_width = None and computer = computer and rec = visited_record,
      OF scratch_new_fixed [OF assms(1)] assms(2-4) \<open>None \<noteq> Some (0 :: nat)\<close> J rec_ok_search]
  obtain res where run: "search_internal acc computer npq_ops visited_record None start_ids ?s0 [] a = Some res"
    and np: "\<forall>f. res \<noteq> Inl (SPanic f)"
    and ok: "\<And>st s' r' a'. res = Inr (st, s', r', a') \<Longrightarrow>
      (\<exists>X'. search_inv (npq_fixed l) npq_entries npq_cov acc computer V X' s') \<and> rec_ok (npq_entries (best s')) (visited s') r'"
    by blast
  show thesis
  proof (cases res)
    case (Inl e)
    then obtain e' where "res = Inl (SError e')" using np by (cases e) auto
    then show thesis using run by (intro err [of e']) (simp add: search_visited_def uthrow_def)
  next
    case (Inr out)
    obtain st sc r a' where out: "out = (st, sc, r, a')" by (metis prod_cases4)
    from ok [of st sc r a'] Inr out obtain X' where
      i: "search_inv (npq_fixed l) npq_entries npq_cov acc computer V X' sc" and r: "rec_ok (npq_entries (best sc)) (visited sc) r" by blast
    show thesis
    proof (rule that(2) [of sc r a'])
      show "search_visited acc computer start_ids ?s0 a s = Some (Inr (sc, r, a'), s)"
        using run Inr out by (simp add: search_visited_def uret_def)
      show "npq_fixed l (best sc)" "nbr_id ` set r \<subseteq> V" "distinct (map nbr_id r)"
        using i r by (auto simp: search_inv_def rec_ok_def)
    qed
  qed
qed

context graph_update
begin

lemma prune_visited_triple:
  fixes s0 :: "('i, 'w, 'p) istate"
  assumes cfg: "config_ok cfg" and r: "distinct (map nbr_id r)" "nbr_id ` set r \<subseteq> V" and old: "pruned_from cfg (V - {i}) ns"
  shows "utriple (\<lambda>s. s = s0 \<and> sinv cfg V p0 S s0) (prune_visited cfg acc i force r ns)
    (\<lambda>ns' s. sinv cfg V p0 S s \<and> ix_graph s = ix_graph s0 \<and> pruned_from cfg (V - {i}) ns')
    (\<lambda>e s. sinv cfg V p0 S s \<and> ix_graph s = ix_graph s0 \<and> (\<forall>f. e \<noteq> Panic f))"
proof (rule utripleI, elim conjE)
  fix s assume s: "s = s0" "sinv cfg V p0 S s0"
  let ?ctx = "\<lparr>ps_pool = sorted_neighbors r (max_occlusion_size cfg), ps_occlude_factor = ps_occlude_factor (ix_scratch s),
    ps_last_checked = ps_last_checked (ix_scratch s), ps_neighbors = ns\<rparr>"
  note sn = sorted_neighbors_ids [OF r(1), of "max_occlusion_size cfg"]
  obtain res ctx' ws' where run: "robust_prune cfg acc i force ?ctx (ix_ws s) = Some (res, ctx', ws')"
    and np: "\<And>f. res \<noteq> Inl (Panic f)"
    and "ps_neighbors ctx' = ns \<or> pruned_from cfg (nbr_id ` set (ps_pool ?ctx) - {i}) (ps_neighbors ctx')"
    using cfg sn(1) by (rule_tac robust_prune_spec [of cfg ?ctx acc i force "ix_ws s"]) (auto simp: config_ok_def)
  moreover have "nbr_id ` set (ps_pool ?ctx) \<subseteq> V" using sn(2) r(2) by auto
  ultimately have "pruned_from cfg (V - {i}) (ps_neighbors ctx')" using old by (auto simp: pruned_from_def)
  with run np s show "case prune_visited cfg acc i force r ns s of None \<Rightarrow> False
      | Some (Inl e, s') \<Rightarrow> sinv cfg V p0 S s' \<and> ix_graph s' = ix_graph s0 \<and> (\<forall>f. e \<noteq> Panic f)
      | Some (Inr ns', s') \<Rightarrow> sinv cfg V p0 S s' \<and> ix_graph s' = ix_graph s0 \<and> pruned_from cfg (V - {i}) ns'"
    by (cases res) (auto simp: prune_visited_def Let_def sinv_def)
qed

lemma sinv_closed:
  assumes "sinv cfg V p0 S s" "finite V" "sa_get_neighbors acc = go_get ops (ix_graph s)"
  shows "graph_closed acc V"
  using assms by (auto simp: graph_closed_def sinv_def graph_inv_def good_list_def)

lemma insert_attempts_triple:
  fixes s0 :: "('i, 'w, 'p) istate"
  assumes cfg: "config_ok cfg" and V: "finite V" "set start_ids \<subseteq> V" "distinct start_ids"
    and acc: "sa_get_neighbors acc = go_get ops (ix_graph s0)" and "0 < l" "pruned_from cfg (V - {i}) ns"
  shows "utriple (\<lambda>s. s = s0 \<and> sinv cfg V p0 S s0)
    (insert_attempts cfg acc computer start_ids pacc i n attempt (search_scratch_new (Fixed l)) l ns a)
    (\<lambda>ns' s. sinv cfg V p0 S s \<and> ix_graph s = ix_graph s0 \<and> pruned_from cfg (V - {i}) ns')
    (\<lambda>e s. sinv cfg V p0 S s \<and> ix_graph s = ix_graph s0 \<and> (\<forall>f. e \<noteq> Panic f))"
  using acc assms(6,7)
proof (induction n arbitrary: attempt l ns a s0)
  case 0
  then show ?case by (auto intro!: utriple_ret)
next
  case (Suc n)
  let ?Q = "\<lambda>ns' s. sinv cfg V p0 S s \<and> ix_graph s = ix_graph s0 \<and> pruned_from cfg (V - {i}) ns'"
  let ?E = "\<lambda>e s. sinv cfg V p0 S s \<and> ix_graph s = ix_graph s0 \<and> (\<forall>f. e \<noteq> Panic f)"
  let ?sat = "case experimental_insert_retry cfg of None \<Rightarrow> False | Some v \<Rightarrow> should_saturate v attempt"
  let ?retry = "\<lambda>ns. case experimental_insert_retry cfg of None \<Rightarrow> False | Some v \<Rightarrow> should_retry v attempt (length ns)"
  let ?R = "\<lambda>(sc, r, a') s. s = s0 \<and> sinv cfg V p0 S s0 \<and> npq_fixed l (best sc) \<and> distinct (map nbr_id r) \<and> nbr_id ` set r \<subseteq> V"
  have search: "utriple (\<lambda>s. s = s0 \<and> sinv cfg V p0 S s0) (search_visited acc computer start_ids (search_scratch_new (Fixed l)) a) ?R ?E"
  proof (rule utripleI, elim conjE)
    fix s :: "('i, 'w, 'p) istate" assume s: "s = s0" "sinv cfg V p0 S s0"
    have closed: "graph_closed acc V" by (rule sinv_closed [OF s(2) V(1) Suc.prems(1)])
    show "case search_visited acc computer start_ids (search_scratch_new (Fixed l)) a s of None \<Rightarrow> False
        | Some (Inl e, s') \<Rightarrow> ?E e s' | Some (Inr x, s') \<Rightarrow> ?R x s'"
      by (rule search_visited_run [OF Suc.prems(2) closed V(2,3), of computer a s]) (use s in auto)
  qed
  show ?case unfolding insert_attempts.simps
  proof (rule utriple_bind [OF search], rule utriple_pre, clarify)
    fix sc :: "('i, 'i npq) search_scratch" and r :: "'i neighbor list" and a'
    assume s0: "sinv cfg V p0 S s0" and sc: "npq_fixed l (best sc)" and r: "distinct (map nbr_id r)" "nbr_id ` set r \<subseteq> V"
    have "utriple (\<lambda>s. s = s0) (prune_visited cfg pacc i ?sat r ns) ?Q ?E"
      using prune_visited_triple [OF cfg r Suc.prems(3), of s0 p0 S pacc ?sat] s0 by simp
    then show "utriple (\<lambda>s. s = s0) (ubind (prune_visited cfg pacc i ?sat r ns) (\<lambda>new_neighbors.
        if ?retry new_neighbors then insert_attempts cfg acc computer start_ids pacc i n (attempt + 1)
            (scratch_clear (scratch_resize (l * 2) sc)) (l * 2) new_neighbors a'
        else uret new_neighbors)) ?Q ?E"
    proof (rule utriple_bind, rule_tac utriple_pre, elim conjE)
      fix ns' and s1 :: "('i, 'w, 'p) istate"
      assume s1: "sinv cfg V p0 S s1" "ix_graph s1 = ix_graph s0" "pruned_from cfg (V - {i}) ns'"
      have "utriple (\<lambda>s. s = s1) (insert_attempts cfg acc computer start_ids pacc i n (attempt + 1)
          (search_scratch_new (Fixed (l * 2))) (l * 2) ns' a') ?Q ?E"
        using Suc.IH [of s1 "l * 2" ns' "attempt + 1" a'] Suc.prems(1,2) s1 by simp
      then show "utriple (\<lambda>s. s = s1) (if ?retry ns' then insert_attempts cfg acc computer start_ids pacc i n (attempt + 1)
            (scratch_clear (scratch_resize (l * 2) sc)) (l * 2) ns' a'
          else uret ns') ?Q ?E"
        using s1 unfolding scratch_retry [OF sc] by (auto intro!: utriple_ret)
    qed
  qed
qed

end


section \<open>Back edges\<close>

text \<open>A vertex that got a back edge to \<open>i\<close>: its list is the old one with \<open>i\<close> added, pruned if it was too
  long.\<close>

definition linked ::
  "config \<Rightarrow> 'i set \<Rightarrow> ('i, 'e, 'p) graph_ops \<Rightarrow> 'i list \<Rightarrow> 'p \<Rightarrow> 'p \<Rightarrow> 'i \<Rightarrow> bool" where
  "linked cfg V ops targets p0 p j \<longleftrightarrow>
     (\<exists>old new stale. go_get ops p0 j = Inr old \<and> go_get ops p j = Inr new \<and> pruned_from cfg V stale
       \<and> edge_outcome cfg j stale (merged_edges None targets old) new)"

context graph_update
begin

lemma add_backedges_triple:
  fixes pacc :: "'e + ('i, 'u, 'w, 'e) prune_accessor"
  assumes cfg: "config_ok cfg" and V: "set sources \<subseteq> V" "i \<in> V"
    and "distinct sources" "set sources \<inter> insert i D = {}" "i \<notin> D"
  shows "utriple (\<lambda>s. sinv cfg V p0 (insert i D) s \<and> go_get ops (ix_graph s) i = Inr ns
        \<and> (\<forall>j\<in>D. linked cfg V ops [i] p0 (ix_graph s) j))
    (add_backedges cfg ops pacc i sources)
    (\<lambda>_ s. sinv cfg V p0 (insert i (D \<union> set sources)) s \<and> go_get ops (ix_graph s) i = Inr ns
        \<and> (\<forall>j\<in>D \<union> set sources. linked cfg V ops [i] p0 (ix_graph s) j))
    (\<lambda>e s. sinv cfg V p0 (insert i (D \<union> set sources)) s \<and> (\<forall>f. e \<noteq> Panic f))"
  using V(1) assms(4-6) unfolding add_backedges_def
proof (induction sources arbitrary: D)
  case Nil
  then show ?case by (auto intro!: utriple_ret)
next
  case (Cons j js)
  let ?E = "\<lambda>e s. sinv cfg V p0 (insert i (D \<union> set (j # js))) s \<and> (\<forall>f. e \<noteq> Panic f)"
  let ?I = "\<lambda>D s. sinv cfg V p0 (insert i D) s \<and> go_get ops (ix_graph s) i = Inr ns
    \<and> (\<forall>j\<in>D. linked cfg V ops [i] p0 (ix_graph s) j)"
  have j: "j \<in> V" "j \<noteq> i" "j \<notin> D" using Cons.prems by auto
  have "utriple (?I D) (add_edge_and_prune cfg ops pacc [i] j None) (\<lambda>_. ?I (insert j D)) ?E"
  proof (rule utriple_pre)
    fix s0 :: "('i, 'w, 'p) istate" assume s0: "?I D s0"
    have T: "set [i] \<subseteq> V" using V(2) by simp
    have old: "go_get ops (ix_graph s0) j = go_get ops p0 j" using s0 j by (auto simp: sinv_def unchanged_def)
    show "utriple (\<lambda>t. t = s0) (add_edge_and_prune cfg ops pacc [i] j None) (\<lambda>_. ?I (insert j D)) ?E"
    proof (rule utriple_weaken [OF add_edge_triple [OF cfg j(1) T, of s0 "ix_graph s0" "{}" pacc None]])
      fix s :: "('i, 'w, 'p) istate"
      assume a: "sinv cfg V (ix_graph s0) {j} s \<and> (\<exists>old new. go_get ops (ix_graph s0) j = Inr old
        \<and> go_get ops (ix_graph s) j = Inr new
        \<and> edge_outcome cfg j (ps_neighbors (ix_scratch s0)) (merged_edges None [i] old) new)"
      then have "linked cfg V ops [i] p0 (ix_graph s) j" using s0 unfolding old linked_def by (auto simp: sinv_def)
      moreover have same: "go_get ops (ix_graph s) k = go_get ops (ix_graph s0) k" if "k \<noteq> j" for k
        using a that by (auto simp: sinv_def unchanged_def)
      then have "linked cfg V ops [i] p0 (ix_graph s) k" if "k \<in> D" for k
        using s0 that j(3) unfolding linked_def by (metis (no_types))
      moreover have "go_get ops (ix_graph s) i = Inr ns" using same [of i] s0 j(2) by simp
      moreover have "sinv cfg V p0 ({j} \<union> insert i D) s"
        using sinv_trans [of cfg V "ix_graph s0" "{j}" s "insert i D" p0] a s0 by (auto simp: sinv_def)
      then have "sinv cfg V p0 (insert i (insert j D)) s" by (simp add: insert_commute)
      ultimately show "?I (insert j D) s" by auto
    next
      fix e s assume "sinv cfg V (ix_graph s0) {} s \<and> ix_graph s = ix_graph s0 \<and> (\<forall>f. e \<noteq> Panic f)"
      then show "?E e s" using s0 by (auto simp: sinv_def unchanged_def)
    qed (use s0 sinv_start in blast)
  qed
  moreover have "utriple (?I (insert j D)) (ufor js (\<lambda>source. add_edge_and_prune cfg ops pacc [i] source None))
      (\<lambda>_. ?I (D \<union> set (j # js))) ?E"
    using Cons.IH [of "insert j D"] Cons.prems by (auto elim!: utriple_weaken)
  ultimately show ?case unfolding ufor.simps by (rule utriple_bind)
qed

text \<open>The outcome of an insertion, seen from the graph before it.\<close>

definition inserted :: "config \<Rightarrow> 'i set \<Rightarrow> 'i \<Rightarrow> 'p \<Rightarrow> 'p \<Rightarrow> bool" where
  "inserted cfg V i p0 p \<longleftrightarrow>
     (\<exists>ns. go_get ops p i = Inr ns \<and> pruned_from cfg (V - {i}) ns
       \<and> unchanged ops (insert i (set (take (max_backedges cfg) ns))) p0 p
       \<and> (\<forall>j\<in>set (take (max_backedges cfg) ns). linked cfg V ops [i] p0 p j))"

lemma link_new_triple:
  fixes pacc :: "'e + ('i, 'u, 'w, 'e) prune_accessor"
  assumes cfg: "config_ok cfg" and i: "i \<in> V" and "ns": "pruned_from cfg (V - {i}) ns"
  shows "utriple (sinv cfg V p0 {})
    (ubind (set_neighbors ops i ns) (\<lambda>_. add_backedges cfg ops pacc i (take (max_backedges cfg) ns)))
    (\<lambda>_ s. sinv cfg V p0 UNIV s \<and> inserted cfg V i p0 (ix_graph s))
    (\<lambda>e s. sinv cfg V p0 UNIV s \<and> (\<forall>f. e \<noteq> Panic f))"
proof (rule utriple_bind)
  let ?src = "take (max_backedges cfg) ns"
  have src: "set ?src \<subseteq> V" "distinct ?src" "set ?src \<inter> insert i {} = {}" "i \<notin> {}"
    using "ns" set_take_subset [of "max_backedges cfg" ns] by (auto simp: pruned_from_def)
  have "good_list cfg V ns" using pruned_good [OF cfg "ns"] by blast
  then show "utriple (sinv cfg V p0 {}) (set_neighbors ops i ns)
      (\<lambda>_ s. sinv cfg V p0 (insert i {}) s \<and> go_get ops (ix_graph s) i = Inr ns
        \<and> (\<forall>j\<in>{}. linked cfg V ops [i] p0 (ix_graph s) j)) (\<lambda>e s. sinv cfg V p0 UNIV s \<and> (\<forall>f. e \<noteq> Panic f))"
    using set_triple [OF i, of cfg "ns" p0 "{}"] by (auto elim!: utriple_weaken)
  show "utriple (\<lambda>s. sinv cfg V p0 (insert i {}) s \<and> go_get ops (ix_graph s) i = Inr ns
        \<and> (\<forall>j\<in>{}. linked cfg V ops [i] p0 (ix_graph s) j)) (add_backedges cfg ops pacc i ?src)
      (\<lambda>_ s. sinv cfg V p0 UNIV s \<and> inserted cfg V i p0 (ix_graph s)) (\<lambda>e s. sinv cfg V p0 UNIV s \<and> (\<forall>f. e \<noteq> Panic f))"
    by (rule utriple_weaken [OF add_backedges_triple [OF cfg src(1) i src(2-4), of p0 "ns" pacc]])
      (use "ns" in \<open>auto simp: inserted_def sinv_def unchanged_def\<close>)
qed

lemma insert_body_triple:
  fixes s :: "('i, 'w, 'p) istate"
  assumes cfg: "config_ok cfg" and V: "finite V" "i \<in> V" and s: "sinv cfg V (ix_graph s) {} s"
    and reads: "sa_get_neighbors acc = go_get ops (ix_graph s)"
    and start: "set start_ids \<subseteq> V" "distinct start_ids" "0 < l"
  shows "utriple (\<lambda>t. t = s) (ubind (insert_attempts cfg acc computer start_ids pacc i n 0
      (search_scratch_new (Fixed l)) l al_new a) (\<lambda>ns. ubind (set_neighbors ops i ns)
        (\<lambda>_. add_backedges cfg ops pacc' i (take (max_backedges cfg) ns))))
    (\<lambda>_ s'. sinv cfg V (ix_graph s) UNIV s' \<and> inserted cfg V i (ix_graph s) (ix_graph s'))
    (\<lambda>e s'. sinv cfg V (ix_graph s) UNIV s' \<and> (\<forall>f. e \<noteq> Panic f))"
    (is "utriple _ _ ?Q ?E")
proof (rule utriple_bind)
  have new: "pruned_from cfg (V - {i}) al_new" by (simp add: pruned_from_def al_new_def)
  show "utriple (\<lambda>t. t = s) (insert_attempts cfg acc computer start_ids pacc i n 0 (search_scratch_new (Fixed l)) l al_new a)
      (\<lambda>ns t. sinv cfg V (ix_graph s) {} t \<and> pruned_from cfg (V - {i}) ns) ?E"
    by (rule utriple_weaken [OF insert_attempts_triple [OF cfg V(1) start(1,2) reads start(3) new]])
      (use s in \<open>auto intro: sinv_mono\<close>)
  show "utriple (\<lambda>t. sinv cfg V (ix_graph s) {} t \<and> pruned_from cfg (V - {i}) ns) (ubind (set_neighbors ops i ns)
      (\<lambda>_. add_backedges cfg ops pacc' i (take (max_backedges cfg) ns))) ?Q ?E" for "ns"
  proof (rule utriple_pre, elim conjE)
    fix t :: "('i, 'w, 'p) istate" assume "sinv cfg V (ix_graph s) {} t" "pruned_from cfg (V - {i}) ns"
    then show "utriple (\<lambda>u. u = t) (ubind (set_neighbors ops i ns)
        (\<lambda>_. add_backedges cfg ops pacc' i (take (max_backedges cfg) ns))) ?Q ?E"
      using link_new_triple [OF cfg V(2), of "ns" "ix_graph s" pacc'] by (auto elim!: utriple_weaken)
  qed
qed

lemma index_insert_run:
  fixes s :: "('i, 'w, 'p) istate"
  assumes cfg: "config_ok cfg" and V: "finite V" and s: "sinv cfg V (ix_graph s) {} s"
    and reads: "\<And>acc a. is_search_accessor strategy (ix_graph s) = Inr (acc, a) \<Longrightarrow> sa_get_neighbors acc = go_get ops (ix_graph s)"
    and start: "\<And>st. is_starting_points strategy = Inr st \<Longrightarrow> set st \<subseteq> V \<and> distinct st \<and> 0 < l_build cfg + length st"
    and i: "\<And>i. set_element = Inr i \<Longrightarrow> i \<in> V"
  shows "\<exists>r s'. index_insert cfg ops strategy set_element s = Some (r, s') \<and> ginv cfg V (ix_graph s') \<and> (\<forall>f. r \<noteq> Inl (Panic f))
    \<and> (r = Inr () \<longrightarrow> (\<exists>i. set_element = Inr i \<and> inserted cfg V i (ix_graph s) (ix_graph s')))"
proof -
  note run = index_insert_def ubind_def uthrow_def ulift_def
  have g: "ginv cfg V (ix_graph s)" using s by (simp add: sinv_def)
  consider (err) e where "index_insert cfg ops strategy set_element s = Some (Inl (Other e), s)"
    | (go) i acc a computer st pacc where "escalate set_element = Inr i"
      "is_search_accessor strategy (ix_graph s) = Inr (acc, a)" "is_computer strategy = Inr computer"
      "is_starting_points strategy = Inr st" "is_prune_accessor strategy = Inr pacc"
    by (cases "escalate set_element"; cases "is_search_accessor strategy (ix_graph s)"; cases "is_computer strategy";
        cases "is_starting_points strategy"; cases "is_prune_accessor strategy") (auto simp: run uret_def)
  then show ?thesis
  proof cases
    case err
    then show ?thesis using g by auto
  next
    case go
    let ?l = "l_build cfg + length st" let ?s = "fresh_scratch (is_working_set strategy (max_occlusion_size cfg)) s"
    have el: "set_element = Inr i" using go(1) by (auto simp: escalate_def split: sum.splits ranked_error.splits)
    have st: "set st \<subseteq> V" "distinct st" "0 < ?l" using start [OF go(4)] by auto
    have sc: "index_search_scratch cfg (l_build cfg) (length st) = search_scratch_new (Fixed ?l)"
      "scratch_search_l (search_scratch_new (Fixed ?l)) = ?l"
      by (simp_all add: index_search_scratch_def scratch_create_def scratch_search_l_def search_scratch_new_def npq_new_def)
    have s1: "sinv cfg V (ix_graph ?s) {} ?s" "ix_graph ?s = ix_graph s"
      using s by (simp_all add: sinv_def fresh_scratch_def prune_scratch_new_def pruned_from_def al_new_def)
    have "index_insert cfg ops strategy set_element s = ubind (insert_attempts cfg acc computer st pacc i (num_insert_attempts cfg) 0
      (search_scratch_new (Fixed ?l)) ?l al_new a) (\<lambda>ns. ubind (set_neighbors ops i ns)
        (\<lambda>_. add_backedges cfg ops (Inr pacc) i (take (max_backedges cfg) ns))) ?s"
      unfolding index_insert_def go Let_def by (simp add: sc)
    moreover have "sa_get_neighbors acc = go_get ops (ix_graph ?s)" using reads [OF go(2)] s1(2) by simp
    from utripleD [OF insert_body_triple [OF cfg V i [OF el] s1(1) this st, of computer pacc "num_insert_attempts cfg" a "Inr pacc"] refl]
    obtain r s' where
      "ubind (insert_attempts cfg acc computer st pacc i (num_insert_attempts cfg) 0
        (search_scratch_new (Fixed ?l)) ?l al_new a) (\<lambda>ns. ubind (set_neighbors ops i ns)
        (\<lambda>_. add_backedges cfg ops (Inr pacc) i (take (max_backedges cfg) ns))) ?s = Some (r, s')"
      "case r of Inl e \<Rightarrow> sinv cfg V (ix_graph s) UNIV s' \<and> (\<forall>f. e \<noteq> Panic f)
         | Inr x \<Rightarrow> sinv cfg V (ix_graph s) UNIV s' \<and> inserted cfg V i (ix_graph s) (ix_graph s')"
      unfolding s1(2) by blast
    ultimately show ?thesis using el by (cases r) (auto simp: sinv_def)
  qed
qed

end


section \<open>Properties\<close>


text \<open>A strategy for the examples: the vector of an identifier is its number.\<close>

definition sample_strategy :: "(32 word, int, int, unit, fault, unit, neighbor_provider) insert_strategy" where
  "sample_strategy = \<lparr>is_search_accessor = (\<lambda>p. Inr (\<lparr>sa_get_element = (\<lambda>i. Inr (int (unat i))),
       sa_get_neighbors = na_get_neighbors p, sa_terminate_early = (\<lambda>a. (False, a))\<rparr>, ())),
     is_computer = Inr (\<lambda>v. Fin \<bar>v - 2\<bar>), is_starting_points = Inr [0],
     is_prune_accessor = Inr \<lparr>pa_computer = Inr sample_sim, pa_fill = (\<lambda>w ids. Inr (w, \<lambda>i. Some (int (unat i))))\<rparr>,
     is_working_set = (\<lambda>n. ())\<rparr>"


end
