(* ===== verification/Index_Multi_Insert.thy ===== *)
theory Index_Multi_Insert
  imports Index_Insert Backedge Async_Tools
begin

text \<open>
  Insertion of a batch: \<open>multi_insert\<close> of \<open>diskann/src/graph/index.rs\<close> with \<open>set_elements\<close>,
  \<open>search_and_prune\<close>, the bootstrap routine and the commit of the back edges.

  The tasks of the two search phases only read the graph and share nothing but a balancer, so that a run
  is determined by which task claims which positions: the argument \<open>schedule\<close>, the lists of positions of
  the tasks, the task of the caller first.  A task that fails does not claim further items, its
  remaining positions are skipped.  The tasks of the commit phase work on disjoint sets of vertices; they
  are run one after the other.  The order in which a hash map is iterated is the argument \<open>map_order\<close>.
  Errors of tasks are logged and suppressed; the log is the result of the operation.
\<close>

section \<open>Tasks\<close>

text \<open>A task handles its items until one fails; it returns what it has, with the error.\<close>

fun batch_task ::
  "('x \<Rightarrow> ('i, 'e, 'w, 'p, 'y) update) \<Rightarrow> 'x list \<Rightarrow> 'y list
    \<Rightarrow> ('i, 'e, 'w, 'p, 'y list \<times> ('i, 'e) list_error option) update" where
  "batch_task f [] output s = uret (output, None) s"
| "batch_task f (x # xs) output s =
     (case f x s of
        None \<Rightarrow> None
      | Some (Inl err, s') \<Rightarrow> uret (output, Some err) s'
      | Some (Inr item, s') \<Rightarrow> batch_task f xs (output @ [item]) s')"

text \<open>A spawned task that panics is lost with its output, a panic of the calling task is the caller's.\<close>

fun join_tasks ::
  "'w \<Rightarrow> ('x \<Rightarrow> ('i, 'e, 'w, 'p, 'y) update) \<Rightarrow> 'x list list \<Rightarrow> 'y list \<Rightarrow> ('i, 'e) list_error list
    \<Rightarrow> ('i, 'e, 'w, 'p, 'y list \<times> ('i, 'e) list_error list) update" where
  "join_tasks ws f [] edges logged = uret (edges, logged)"
| "join_tasks ws f (xs # xss) edges logged =
     ubind (\<lambda>s. batch_task f xs [] (fresh_scratch ws s)) (\<lambda>(v, err).
       case err of
         None \<Rightarrow> join_tasks ws f xss (edges @ v) logged
       | Some (Panic p) \<Rightarrow> join_tasks ws f xss edges (logged @ [Panic p])
       | Some e \<Rightarrow> join_tasks ws f xss (edges @ v) (logged @ [e]))"

definition run_tasks ::
  "'w \<Rightarrow> ('x \<Rightarrow> ('i, 'e, 'w, 'p, 'y) update) \<Rightarrow> 'x list list
    \<Rightarrow> ('i, 'e, 'w, 'p, 'y list \<times> ('i, 'e) list_error list) update" where
  "run_tasks ws f assignments =
     ubind (\<lambda>s. batch_task f (hd assignments) [] (fresh_scratch ws s)) (\<lambda>(v, err).
       case err of
         None \<Rightarrow> join_tasks ws f (tl assignments) v []
       | Some (Panic p) \<Rightarrow> uthrow (Panic p)
       | Some e \<Rightarrow> join_tasks ws f (tl assignments) v [e])"

section \<open>Setting the elements\<close>

datatype ('i, 'e) multi_error = BatchIdMismatch nat nat | MError "('i, 'e) list_error"

fun set_chunk :: "('x \<Rightarrow> nat \<Rightarrow> 'e ranked_error + 'i) \<Rightarrow> 'x list \<Rightarrow> nat list \<Rightarrow> 'e + 'i list" where
  "set_chunk set_element ids [] = Inr []"
| "set_chunk set_element ids (i # is') =
     rbind (escalate (set_element (ids ! i) i)) (\<lambda>guard.
     rbind (set_chunk set_element ids is') (\<lambda>output. Inr (guard # output)))"

fun join_chunks :: "('e + 'i list) list \<Rightarrow> 'e + 'i list" where
  "join_chunks [] = Inr []"
| "join_chunks (h # hs) = rbind h (\<lambda>processed. rbind (join_chunks hs) (\<lambda>guards. Inr (processed @ guards)))"

definition set_elements ::
  "('x \<Rightarrow> nat \<Rightarrow> 'e ranked_error + 'i) \<Rightarrow> nat \<Rightarrow> 'x list \<Rightarrow> nat \<Rightarrow> ('i, 'e) multi_error + 'i list" where
  "set_elements set_element batch_len ids ntasks =
     (if batch_len \<noteq> length ids then Inl (BatchIdMismatch batch_len (length ids))
      else case join_chunks (map (\<lambda>(a, b). set_chunk set_element ids [a..<b])
                  (partition_iter_items (partition_iter_new batch_len ntasks))) of
             Inl e \<Rightarrow> Inl (MError (Other e))
           | Inr guards \<Rightarrow> Inr guards)"

section \<open>Candidate generation\<close>

text \<open>The insert strategy for the vector at a position of the batch, and the working set after
  \<open>finish\<close>.\<close>

record ('i, 'v, 'u, 'w, 'e, 'a, 'p) multi_strategy =
  ms_insert :: "nat \<Rightarrow> ('i, 'v, 'u, 'w, 'e, 'a, 'p) insert_strategy"
  ms_finish :: "'i list \<Rightarrow> 'e + 'w"
  ms_prune_accessor :: "'e + ('i, 'u, 'w, 'e) prune_accessor"
  ms_working_set :: "nat \<Rightarrow> 'w"

definition prune_with ::
  "config \<Rightarrow> ('i, 'u, 'w, 'e) prune_accessor \<Rightarrow> 'i \<Rightarrow> 'i list \<Rightarrow> 'i neighbor list \<Rightarrow> bool
    \<Rightarrow> ('i, 'e, 'w, 'p, 'i adjacency_list) update" where
  "prune_with cfg accessor internal_id extras record force_saturate s =
     (case robust_prune_with cfg accessor internal_id extras record force_saturate (ix_scratch s) (ix_ws s) of
        None \<Rightarrow> None
      | Some (r, record', sc, ws) \<Rightarrow> Some (rbind r (\<lambda>_. Inr (ps_neighbors sc)), s\<lparr>ix_scratch := sc, ix_ws := ws\<rparr>))"

fun search_and_prune_attempts ::
  "config \<Rightarrow> ('i, 'v, 'e, 'a) search_accessor \<Rightarrow> ('v \<Rightarrow> f32) \<Rightarrow> 'i list \<Rightarrow> 'e + ('i, 'u, 'w, 'e) prune_accessor
    \<Rightarrow> 'i list \<Rightarrow> nat \<Rightarrow> nat \<Rightarrow> nat \<Rightarrow> ('i, 'i npq) search_scratch \<Rightarrow> nat \<Rightarrow> 'a \<Rightarrow> ('i, 'e, 'w, 'p, unit) update" where
  "search_and_prune_attempts cfg accessor computer start_ids prune_acc ids position 0 attempt scratch search_l a = uret ()"
| "search_and_prune_attempts cfg accessor computer start_ids prune_acc ids position (Suc n) attempt scratch search_l a =
     ubind (search_visited accessor computer start_ids scratch a) (\<lambda>(scratch, record, a).
     ubind (ulift prune_acc) (\<lambda>prune_accessor.
     ubind (prune_with cfg prune_accessor (ids ! position)
              (around_items (around_new ids position (intra_batch_get (intra_batch cfg) (length ids)))) record
              (case experimental_insert_retry cfg of None \<Rightarrow> False | Some v \<Rightarrow> should_saturate v attempt)) (\<lambda>neighbors.
     if (case experimental_insert_retry cfg of None \<Rightarrow> False
         | Some v \<Rightarrow> should_retry v attempt (length neighbors))
     then search_and_prune_attempts cfg accessor computer start_ids prune_acc ids position n (attempt + 1)
            (scratch_clear (scratch_resize (search_l * 2) scratch)) (search_l * 2) a
     else uret ())))"

text \<open>\<open>std::mem::take\<close>: the list moves out of the scratch space, which is left with an empty one.\<close>

definition take_neighbors :: "'i \<Rightarrow> ('i, 'e, 'w, 'p, 'i pending_edge) update" where
  "take_neighbors internal_id s =
     uret \<lparr>pe_source = internal_id, pe_edges = ps_neighbors (ix_scratch s)\<rparr>
       (s\<lparr>ix_scratch := (ix_scratch s)\<lparr>ps_neighbors := al_new\<rparr>\<rparr>)"

definition search_and_prune ::
  "config \<Rightarrow> (nat \<Rightarrow> ('i, 'v, 'u, 'w, 'e, 'a, 'p) insert_strategy) \<Rightarrow> 'i list \<Rightarrow> nat
    \<Rightarrow> ('i, 'e, 'w, 'p, 'i pending_edge) update" where
  "search_and_prune cfg strategies ids position s =
     (let strategy = strategies position in
      ubind (ulift (is_search_accessor strategy (ix_graph s))) (\<lambda>(accessor, a).
      ubind (ulift (is_computer strategy)) (\<lambda>computer.
      ubind (ulift (is_starting_points strategy)) (\<lambda>start_ids.
      let scratch = index_search_scratch cfg (l_build cfg) (length start_ids) in
      ubind (search_and_prune_attempts cfg accessor computer start_ids (is_prune_accessor strategy) ids position
               (num_insert_attempts cfg) 0 scratch (scratch_search_l scratch) a) (\<lambda>_.
      take_neighbors (ids ! position))))) s)"

section \<open>Bootstrap\<close>

definition multi_insert_bootstrap_leaf ::
  "config \<Rightarrow> 'e + ('i, 'u, 'w, 'e) prune_accessor \<Rightarrow> 'w \<Rightarrow> ('i :: linorder) pending_edge list \<Rightarrow> 'i pending_edge
    \<Rightarrow> ('i, 'e, 'w, 'p, 'i pending_edge) update" where
  "multi_insert_bootstrap_leaf cfg prune_acc working_set batch current =
     (let candidates = from_iter_untrusted
            (pe_edges current @ filter (\<lambda>i. i \<noteq> pe_source current) (map pe_source batch))
      in ubind (ulift prune_acc) (\<lambda>accessor s.
           ubind (prune_list cfg accessor (pe_source current) candidates True) (\<lambda>neighbors.
             uret \<lparr>pe_source = pe_source current, pe_edges = neighbors\<rparr>) (fresh_scratch working_set s)))"

definition multi_insert_bootstrap ::
  "config \<Rightarrow> 'e + ('i, 'u, 'w, 'e) prune_accessor \<Rightarrow> 'w \<Rightarrow> (nat \<Rightarrow> nat \<Rightarrow> nat list list) \<Rightarrow> ('i :: linorder) pending_edge list
    \<Rightarrow> ('i, 'e, 'w, 'p, 'i pending_edge list \<times> ('i, 'e) list_error list) update" where
  "multi_insert_bootstrap cfg prune_acc working_set schedule edges =
     (let num_items = length edges; num_tasks = max (min (max_minibatch_par cfg) num_items) 1
      in run_tasks working_set (\<lambda>i. multi_insert_bootstrap_leaf cfg prune_acc working_set edges (edges ! i))
           (schedule num_tasks num_items))"

section \<open>Graph update\<close>

definition set_neighbors_bulk :: "('i, 'e, 'p) graph_ops \<Rightarrow> 'i pending_edge list \<Rightarrow> ('i, 'e, 'w, 'p, unit) update" where
  "set_neighbors_bulk ops edges = ufor edges (\<lambda>p. set_neighbors ops (pe_source p) (pe_edges p))"

text \<open>A task of the commit: its part of the map, until an edge update fails.\<close>

definition backedge_task ::
  "config \<Rightarrow> ('i, 'e, 'p) graph_ops \<Rightarrow> 'e + ('i, 'u, 'w, 'e) prune_accessor \<Rightarrow> 'w
    \<Rightarrow> (('i :: linorder) \<times> 'i backedge_buffer) list \<Rightarrow> ('i, 'e) list_error list \<Rightarrow> ('i, 'e, 'w, 'p, ('i, 'e) list_error list) update" where
  "backedge_task cfg ops prune_acc ws items logged s =
     (case ufor items (\<lambda>(source, buf). add_edge_and_prune cfg ops prune_acc (sort (bb_deref buf)) source None)
             (fresh_scratch ws s) of
        None \<Rightarrow> None
      | Some (Inl e, s') \<Rightarrow> uret (logged @ [e]) s'
      | Some (Inr _, s') \<Rightarrow> uret logged s')"

fun commit_backedges ::
  "config \<Rightarrow> ('i, 'e, 'p) graph_ops \<Rightarrow> 'e + ('i, 'u, 'w, 'e) prune_accessor \<Rightarrow> 'w
    \<Rightarrow> (('i :: linorder) \<times> 'i backedge_buffer) list \<Rightarrow> (nat \<times> nat) list \<Rightarrow> ('i, 'e) list_error list
    \<Rightarrow> ('i, 'e, 'w, 'p, ('i, 'e) list_error list) update" where
  "commit_backedges cfg ops prune_acc ws backedges [] logged = uret logged"
| "commit_backedges cfg ops prune_acc ws backedges ((a, b) # ranges) logged =
     ubind (backedge_task cfg ops prune_acc ws (take (b - a) (drop a backedges)) logged)
       (commit_backedges cfg ops prune_acc ws backedges ranges)"

definition multi_insert_graph ::
  "config \<Rightarrow> ('i, 'e, 'p) graph_ops \<Rightarrow> ('i, 'v, 'u, 'w, 'e, 'a, 'p) multi_strategy \<Rightarrow> (nat \<Rightarrow> nat \<Rightarrow> nat list list)
    \<Rightarrow> (('i :: linorder \<rightharpoonup> 'i backedge_buffer) \<Rightarrow> ('i \<times> 'i backedge_buffer) list) \<Rightarrow> 'i \<Rightarrow> 'i list
    \<Rightarrow> ('i, 'e, 'w, 'p, ('i, 'e) list_error list) update" where
  "multi_insert_graph cfg ops strategy schedule map_order dflt guards =
     ubind (ulift (ms_finish strategy guards)) (\<lambda>seed.
     ubind (run_tasks seed (search_and_prune cfg (ms_insert strategy) guards)
              (schedule (max_minibatch_par cfg) (length guards))) (\<lambda>(edges, logged).
     let backedges = map_order (aggregate_backedges dflt edges);
         resolved_candidates = max (intra_batch_get (intra_batch cfg) (length guards)) 1
     in ubind (if resolved_candidates < length guards \<and> div_ceil (length backedges) 8 \<le> length guards
               then ubind (multi_insert_bootstrap cfg (ms_prune_accessor strategy)
                             (ms_working_set strategy (max_occlusion_size cfg)) schedule edges) (\<lambda>(edges, l).
                    uret (edges, map_order (aggregate_backedges dflt edges), logged @ l))
               else uret (edges, backedges, logged)) (\<lambda>(edges, backedges, logged).
        ubind (ulift (ms_prune_accessor strategy)) (\<lambda>_.
        ubind (set_neighbors_bulk ops edges) (\<lambda>_.
        commit_backedges cfg ops (ms_prune_accessor strategy) seed backedges
          (map (partition_impl (length backedges) (max_minibatch_par cfg)) [0..<max_minibatch_par cfg]) logged)))))"

definition multi_insert ::
  "config \<Rightarrow> ('i, 'e, 'p) graph_ops \<Rightarrow> ('i, 'v, 'u, 'w, 'e, 'a, 'p) multi_strategy \<Rightarrow> (nat \<Rightarrow> nat \<Rightarrow> nat list list)
    \<Rightarrow> (('i :: linorder \<rightharpoonup> 'i backedge_buffer) \<Rightarrow> ('i \<times> 'i backedge_buffer) list) \<Rightarrow> 'i
    \<Rightarrow> ('x \<Rightarrow> nat \<Rightarrow> 'e ranked_error + 'i) \<Rightarrow> nat \<Rightarrow> 'x list
    \<Rightarrow> ('i, 'w, 'p) istate \<Rightarrow> ((('i, 'e) multi_error + ('i, 'e) list_error list) \<times> ('i, 'w, 'p) istate) option" where
  "multi_insert cfg ops strategy schedule map_order dflt set_element batch_len ids s =
     (case set_elements set_element batch_len ids (max_minibatch_par cfg) of
        Inl e \<Rightarrow> Some (Inl e, s)
      | Inr guards \<Rightarrow>
          map_option (\<lambda>(r, s'). (case r of Inl e \<Rightarrow> Inl (MError e) | Inr logged \<Rightarrow> Inr logged, s'))
            (multi_insert_graph cfg ops strategy schedule map_order dflt guards s))"


section \<open>Setting the elements in order\<close>

lemma set_chunk_append:
  "set_chunk f ids (xs @ ys) = rbind (set_chunk f ids xs) (\<lambda>a. rbind (set_chunk f ids ys) (\<lambda>b. Inr (a @ b)))"
  by (induction xs) (auto simp: rbind_def split: sum.splits)

lemma join_chunks_concat: "join_chunks (map (set_chunk f ids) xss) = set_chunk f ids (concat xss)"
  by (induction xss) (simp_all add: set_chunk_append)

lemma set_elements_seq:
  assumes "0 < ntasks"
  shows "set_elements f n ids ntasks =
    (if n \<noteq> length ids then Inl (BatchIdMismatch n (length ids))
     else case set_chunk f ids [0..<n] of Inl e \<Rightarrow> Inl (MError (Other e)) | Inr gs \<Rightarrow> Inr gs)"
proof -
  have m: "map (\<lambda>(a, b). set_chunk f ids [a..<b]) rs = map (set_chunk f ids) (map (\<lambda>(a, b). [a..<b]) rs)" for rs
    by (simp add: case_prod_beta')
  show ?thesis unfolding set_elements_def m join_chunks_concat partition_concat [OF assms] ..
qed

lemma set_chunk_Inr:
  assumes "set_chunk f ids is' = Inr gs"
  shows "length gs = length is' \<and> (\<forall>k < length is'. f (ids ! (is' ! k)) (is' ! k) = Inr (gs ! k))"
  using assms
proof (induction is' arbitrary: gs)
  case (Cons i is')
  then obtain g gs' where g: "escalate (f (ids ! i) i) = Inr g" "set_chunk f ids is' = Inr gs'" "gs = g # gs'"
    by (auto simp: rbind_eq_Inr_iff)
  have "f (ids ! i) i = Inr g" using g(1) by (auto simp: escalate_def split: sum.splits ranked_error.splits)
  with Cons.IH [OF g(2)] g(3) show ?case by (auto simp: nth_Cons split: nat.splits)
qed simp

section \<open>The candidates of one vector\<close>

text \<open>Identifiers that no list of the graph mentions are not found by a search.\<close>

definition unreferenced :: "('i, 'e, 'p) graph_ops \<Rightarrow> 'i set \<Rightarrow> 'i set \<Rightarrow> 'p \<Rightarrow> bool" where
  "unreferenced ops V B p \<longleftrightarrow> (\<forall>i\<in>V. \<forall>ns. go_get ops p i = Inr ns \<longrightarrow> set ns \<inter> B = {})"

text \<open>What a batch relies on: the search accessors read the graph, start points are identifiers outside of
  the batch.\<close>

definition reads_graph ::
  "('i, 'e, 'p) graph_ops \<Rightarrow> config \<Rightarrow> 'i set \<Rightarrow> 'i set \<Rightarrow> 'p \<Rightarrow> ('i, 'v, 'u, 'w, 'e, 'a, 'p) insert_strategy \<Rightarrow> bool" where
  "reads_graph ops cfg V B p strategy \<longleftrightarrow>
     (\<forall>acc a. is_search_accessor strategy p = Inr (acc, a) \<longrightarrow> sa_get_neighbors acc = go_get ops p)
     \<and> (\<forall>st. is_starting_points strategy = Inr st \<longrightarrow> set st \<subseteq> V - B \<and> distinct st \<and> 0 < l_build cfg + length st)"

context graph_update
begin

lemma prune_with_triple:
  fixes s0 :: "('i, 'w, 'p) istate"
  assumes cfg: "config_ok cfg" and r: "distinct (map nbr_id r)" "nbr_id ` set r \<subseteq> V"
    and ex: "distinct extras" "set extras \<subseteq> V" "set extras \<inter> nbr_id ` set r = {}"
    and old: "pruned_from cfg (V - {i}) (ps_neighbors (ix_scratch s0))"
  shows "utriple (\<lambda>s. s = s0 \<and> sinv cfg V p0 S s0) (prune_with cfg acc i extras r force)
    (\<lambda>_ s. sinv cfg V p0 S s \<and> ix_graph s = ix_graph s0 \<and> pruned_from cfg (V - {i}) (ps_neighbors (ix_scratch s)))
    (\<lambda>e s. sinv cfg V p0 S s \<and> ix_graph s = ix_graph s0 \<and> (\<forall>f. e \<noteq> Panic f))"
proof (rule utripleI, elim conjE)
  fix s assume s: "s = s0" "sinv cfg V p0 S s0"
  obtain res vis' sc' ws' where
    run: "robust_prune_with cfg acc i extras r force (ix_scratch s) (ix_ws s) = Some (res, vis', sc', ws')"
    and np: "\<And>f. res \<noteq> Inl (Panic f)"
    and n: "ps_neighbors sc' = ps_neighbors (ix_scratch s) \<or> pruned_from cfg (nbr_id ` set r \<union> set extras - {i}) (ps_neighbors sc')"
    using robust_prune_with_spec [OF _ r(1) ex(1,3), of cfg acc i force "ix_scratch s" "ix_ws s"] cfg unfolding config_ok_def by metis
  have "pruned_from cfg (V - {i}) (ps_neighbors sc')" 
    using n
  proof
    assume "pruned_from cfg (nbr_id ` set r \<union> set extras - {i}) (ps_neighbors sc')"
    then show ?thesis by (rule pruned_from_mono) (use r(2) ex(2) in blast)
  qed (use old s(1) in simp)
  moreover from this have "pruned_from cfg V (ps_neighbors sc')" by (auto simp: pruned_from_def)
  ultimately show "case prune_with cfg acc i extras r force s of None \<Rightarrow> False
      | Some (Inl e, s') \<Rightarrow> sinv cfg V p0 S s' \<and> ix_graph s' = ix_graph s0 \<and> (\<forall>f. e \<noteq> Panic f)
      | Some (Inr ns', s') \<Rightarrow> sinv cfg V p0 S s' \<and> ix_graph s' = ix_graph s0 \<and> pruned_from cfg (V - {i}) (ps_neighbors (ix_scratch s'))"
    using run np s by (cases res) (auto simp: prune_with_def sinv_def)
qed

lemma unreferenced_closed:
  assumes "sinv cfg V p0 S s" "finite V" "sa_get_neighbors acc = go_get ops (ix_graph s)" "unreferenced ops V B (ix_graph s)"
  shows "graph_closed acc (V - B)"
  using assms by (fastforce simp: graph_closed_def sinv_def graph_inv_def good_list_def unreferenced_def)

lemma search_and_prune_attempts_triple:
  fixes s0 :: "('i, 'w, 'p) istate"
  assumes cfg: "config_ok cfg" and V: "finite V" "set start_ids \<subseteq> V - B" "distinct start_ids"
    and un: "unreferenced ops V B (ix_graph s0)"
    and acc: "sa_get_neighbors acc = go_get ops (ix_graph s0)"
    and ex: "distinct (around_items (around_new ids pos (intra_batch_get (intra_batch cfg) (length ids))))"
      "set (around_items (around_new ids pos (intra_batch_get (intra_batch cfg) (length ids)))) \<subseteq> V \<inter> B"
    and "0 < l" "pruned_from cfg (V - {ids ! pos}) (ps_neighbors (ix_scratch s0))"
  shows "utriple (\<lambda>s. s = s0 \<and> sinv cfg V p0 S s0)
    (search_and_prune_attempts cfg acc computer start_ids pacc ids pos n attempt (search_scratch_new (Fixed l)) l a)
    (\<lambda>_ s. sinv cfg V p0 S s \<and> ix_graph s = ix_graph s0 \<and> pruned_from cfg (V - {ids ! pos}) (ps_neighbors (ix_scratch s)))
    (\<lambda>e s. sinv cfg V p0 S s \<and> ix_graph s = ix_graph s0 \<and> (\<forall>f. e \<noteq> Panic f))"
  using acc un assms(9,10)
proof (induction n arbitrary: attempt l a s0)
  case 0
  then show ?case by (auto intro!: utriple_ret)
next
  case (Suc n)
  let ?i = "ids ! pos" let ?ex = "around_items (around_new ids pos (intra_batch_get (intra_batch cfg) (length ids)))"
  let ?Q = "\<lambda>_ s. sinv cfg V p0 S s \<and> ix_graph s = ix_graph s0 \<and> pruned_from cfg (V - {?i}) (ps_neighbors (ix_scratch s))"
  let ?E = "\<lambda>e s. sinv cfg V p0 S s \<and> ix_graph s = ix_graph s0 \<and> (\<forall>f. e \<noteq> Panic f)"
  let ?sat = "case experimental_insert_retry cfg of None \<Rightarrow> False | Some v \<Rightarrow> should_saturate v attempt"
  let ?retry = "\<lambda>ns. case experimental_insert_retry cfg of None \<Rightarrow> False | Some v \<Rightarrow> should_retry v attempt (length ns)"
  let ?R = "\<lambda>(sc, r, a') s. s = s0 \<and> sinv cfg V p0 S s0 \<and> npq_fixed l (best sc) \<and> distinct (map nbr_id r) \<and> nbr_id ` set r \<subseteq> V - B"
  have search: "utriple (\<lambda>s. s = s0 \<and> sinv cfg V p0 S s0) (search_visited acc computer start_ids (search_scratch_new (Fixed l)) a) ?R ?E"
  proof (rule utripleI, elim conjE)
    fix s :: "('i, 'w, 'p) istate" assume s: "s = s0" "sinv cfg V p0 S s0"
    have closed: "graph_closed acc (V - B)" by (rule unreferenced_closed [OF s(2) V(1) Suc.prems(1,2)])
    show "case search_visited acc computer start_ids (search_scratch_new (Fixed l)) a s of None \<Rightarrow> False
        | Some (Inl e, s') \<Rightarrow> ?E e s' | Some (Inr x, s') \<Rightarrow> ?R x s'"
      by (rule search_visited_run [OF Suc.prems(3) closed V(2,3), of computer a s]) (use s in auto)
  qed
  show ?case unfolding search_and_prune_attempts.simps
  proof (rule utriple_bind [OF search], rule utriple_pre, clarify)
    fix sc :: "('i, 'i npq) search_scratch" and r :: "'i neighbor list" and a'
    assume s0: "sinv cfg V p0 S s0" and sc: "npq_fixed l (best sc)" and r: "distinct (map nbr_id r)" "nbr_id ` set r \<subseteq> V - B"
    have rV: "nbr_id ` set r \<subseteq> V" "set ?ex \<subseteq> V" "set ?ex \<inter> nbr_id ` set r = {}" using r(2) ex(2) by auto
    show "utriple (\<lambda>s. s = s0) (ubind (ulift pacc) (\<lambda>prune_accessor.
        ubind (prune_with cfg prune_accessor ?i ?ex r ?sat) (\<lambda>neighbors.
        if ?retry neighbors then search_and_prune_attempts cfg acc computer start_ids pacc ids pos n (attempt + 1)
            (scratch_clear (scratch_resize (l * 2) sc)) (l * 2) a'
        else uret ()))) ?Q ?E"
    proof (rule utriple_bind [where R = "\<lambda>_ s. s = s0"], rule utriple_lift)
      fix acc' :: "('i, 'u, 'w, 'e) prune_accessor"
      have "utriple (\<lambda>s. s = s0) (prune_with cfg acc' ?i ?ex r ?sat) ?Q ?E"
        using prune_with_triple [OF cfg r(1) rV(1) ex(1) rV(2,3) Suc.prems(4), of p0 S acc' ?sat] s0 by simp
      then show "utriple (\<lambda>s. s = s0) (ubind (prune_with cfg acc' ?i ?ex r ?sat) (\<lambda>neighbors.
        if ?retry neighbors then search_and_prune_attempts cfg acc computer start_ids pacc ids pos n (attempt + 1)
            (scratch_clear (scratch_resize (l * 2) sc)) (l * 2) a'
        else uret ())) ?Q ?E"
      proof (rule utriple_bind, rule_tac utriple_pre, elim conjE)
        fix ns' and s1 :: "('i, 'w, 'p) istate"
        assume s1: "sinv cfg V p0 S s1" "ix_graph s1 = ix_graph s0" "pruned_from cfg (V - {?i}) (ps_neighbors (ix_scratch s1))"
        have "utriple (\<lambda>s. s = s1) (search_and_prune_attempts cfg acc computer start_ids pacc ids pos n (attempt + 1)
            (search_scratch_new (Fixed (l * 2))) (l * 2) a') ?Q ?E"
          using Suc.IH [of s1 "l * 2" "attempt + 1" a'] Suc.prems(1,2,3) s1 by simp
        then show "utriple (\<lambda>s. s = s1) (if ?retry ns' then search_and_prune_attempts cfg acc computer start_ids pacc ids pos n
              (attempt + 1) (scratch_clear (scratch_resize (l * 2) sc)) (l * 2) a'
            else uret ()) ?Q ?E"
          using s1 unfolding scratch_retry [OF sc] by (auto intro!: utriple_ret)
      qed
    qed (use s0 in auto)
  qed
qed

end


section \<open>The tasks of a phase\<close>

text \<open>\<open>I\<close> holds before each item, \<open>J\<close> after each task; the keys of the results are those of the items.\<close>

lemma batch_task_triple:
  fixes f :: "'x \<Rightarrow> ('i, 'e, 'w, 'p, 'y) update"
  assumes "\<And>x. x \<in> set xs \<Longrightarrow> utriple I (f x) (\<lambda>y s. I s \<and> kf y = kx x \<and> good y) (\<lambda>e s. J s \<and> (\<forall>p. e \<noteq> Panic p))"
    and "\<And>s. I s \<Longrightarrow> J s"
  shows "utriple I (batch_task f xs out)
    (\<lambda>(out', err) s. J s \<and> (\<exists>ys. out' = out @ ys \<and> prefix (map kf ys) (map kx xs) \<and> (\<forall>y\<in>set ys. good y)
      \<and> (err = None \<longrightarrow> map kf ys = map kx xs)) \<and> (\<forall>p. err \<noteq> Some (Panic p)))
    (\<lambda>_ _. False)"
  using assms(1)
proof (induction xs arbitrary: out)
  case Nil
  then show ?case using assms(2) by (auto simp: utriple_def uret_def)
next
  case (Cons x xs)
  show ?case
  proof (rule utripleI)
    fix s assume s: "I s"
    from utripleD [OF Cons.prems [of x, simplified] s] obtain r s' where r: "f x s = Some (r, s')"
      "case r of Inl e \<Rightarrow> J s' \<and> (\<forall>p. e \<noteq> Panic p) | Inr y \<Rightarrow> I s' \<and> kf y = kx x \<and> good y" by blast
    show "case batch_task f (x # xs) out s of None \<Rightarrow> False | Some (Inl e, s') \<Rightarrow> False
      | Some (Inr z, s') \<Rightarrow> (case z of (out', err) \<Rightarrow> \<lambda>s'. J s' \<and> (\<exists>ys. out' = out @ ys \<and> prefix (map kf ys) (map kx (x # xs)) \<and> (\<forall>y\<in>set ys. good y)
      \<and> (err = None \<longrightarrow> map kf ys = map kx (x # xs))) \<and> (\<forall>p. err \<noteq> Some (Panic p))) s'"
    proof (cases r)
      case (Inl e)
      then show ?thesis using r by (auto simp: uret_def)
    next
      case (Inr y)
      then have y: "I s'" "kf y = kx x" "good y" using r(2) by auto
      have "\<And>z. z \<in> set xs \<Longrightarrow> utriple I (f z) (\<lambda>y s. I s \<and> kf y = kx z \<and> good y) (\<lambda>e s. J s \<and> (\<forall>p. e \<noteq> Panic p))"
        using Cons.prems by simp
      note IH = Cons.IH [OF this, of "out @ [y]"]
      obtain out' err t where t: "batch_task f xs (out @ [y]) s' = Some (Inr (out', err), t)"
        and "J t \<and> (\<exists>ys. out' = (out @ [y]) @ ys \<and> prefix (map kf ys) (map kx xs) \<and> (\<forall>y\<in>set ys. good y) \<and> (err = None \<longrightarrow> map kf ys = map kx xs))
          \<and> (\<forall>p. err \<noteq> Some (Panic p))"
        by (rule utriple_pairD [OF IH y(1)])
      then obtain ys where t2: "J t" "\<forall>p. err \<noteq> Some (Panic p)" and "out' = (out @ [y]) @ ys" "prefix (map kf ys) (map kx xs)" "\<forall>y\<in>set ys. good y" "err = None \<longrightarrow> map kf ys = map kx xs" by blast
      then have "\<exists>ys. out' = out @ ys \<and> prefix (map kf ys) (map kx (x # xs)) \<and> (\<forall>y\<in>set ys. good y) \<and> (err = None \<longrightarrow> map kf ys = map kx (x # xs))"
        using y(2,3) by (intro exI [of _ "y # ys"]) auto
      then show ?thesis using r(1) Inr t t2 by simp
    qed
  qed
qed

lemma join_tasks_triple:
  fixes f :: "'x \<Rightarrow> ('i, 'e, 'w, 'p, 'y) update"
  assumes f: "\<And>x. x \<in> set (concat xss) \<Longrightarrow> utriple I (f x) (\<lambda>y s. I s \<and> kf y = kx x \<and> good y) (\<lambda>e s. J s \<and> (\<forall>p. e \<noteq> Panic p))"
    and IJ: "\<And>s. I s \<Longrightarrow> J s" "\<And>s. J s \<Longrightarrow> I (fresh_scratch ws s)"
  shows "utriple J (join_tasks ws f xss edges logged)
    (\<lambda>(edges', logged') s. J s \<and> (\<exists>ys new. edges' = edges @ ys \<and> logged' = logged @ new
      \<and> subseq (map kf ys) (map kx (concat xss)) \<and> (\<forall>y\<in>set ys. good y)
      \<and> (new = [] \<longrightarrow> map kf ys = map kx (concat xss)) \<and> (\<forall>p. Panic p \<notin> set new)))
    (\<lambda>_ _. False)"
  using f
proof (induction xss arbitrary: edges logged)
  case Nil
  then show ?case by (auto intro!: utriple_ret)
next
  case (Cons xs xss)
  let ?Q = "\<lambda>(edges', logged') s. J s \<and> (\<exists>ys new. edges' = edges @ ys \<and> logged' = logged @ new
      \<and> subseq (map kf ys) (map kx (concat (xs # xss))) \<and> (\<forall>y\<in>set ys. good y)
      \<and> (new = [] \<longrightarrow> map kf ys = map kx (concat (xs # xss))) \<and> (\<forall>p. Panic p \<notin> set new))"
  let ?B = "\<lambda>(out, err) s. J s \<and> prefix (map kf out) (map kx xs) \<and> (\<forall>y\<in>set out. good y)
      \<and> (err = None \<longrightarrow> map kf out = map kx xs) \<and> (\<forall>p. err \<noteq> Some (Panic p))"
  have task: "utriple J (\<lambda>s. batch_task f xs [] (fresh_scratch ws s)) ?B (\<lambda>_ _. False)"
  proof (rule utripleI)
    fix s assume "J s"
    have "\<And>x. x \<in> set xs \<Longrightarrow> utriple I (f x) (\<lambda>y s. I s \<and> kf y = kx x \<and> good y) (\<lambda>e s. J s \<and> (\<forall>p. e \<noteq> Panic p))"
      using Cons.prems by simp
    note B = batch_task_triple [where xs = xs and out = "[]", OF this IJ(1)]
    show "case batch_task f xs [] (fresh_scratch ws s) of None \<Rightarrow> False | Some (Inl e, s') \<Rightarrow> False | Some (Inr x, s') \<Rightarrow> ?B x s'"
      by (rule utriple_okD [OF B IJ(2) [OF \<open>J s\<close>]]) force+
  qed
  have rest: "utriple J (join_tasks ws f xss e l) (\<lambda>(edges', logged') s. J s \<and> (\<exists>ys new. edges' = e @ ys \<and> logged' = l @ new
      \<and> subseq (map kf ys) (map kx (concat xss)) \<and> (\<forall>y\<in>set ys. good y)
      \<and> (new = [] \<longrightarrow> map kf ys = map kx (concat xss)) \<and> (\<forall>p. Panic p \<notin> set new))) (\<lambda>_ _. False)" for e l
    using Cons.IH [of e l] Cons.prems by simp
  show ?case unfolding join_tasks.simps
  proof (rule utriple_bind [OF task], rule utriple_pre, clarify)
    fix out :: "'y list" and err :: "('i, 'e) list_error option" and s :: "('i, 'w, 'p) istate"
    assume b: "J s" "prefix (map kf out) (map kx xs)" "\<forall>y\<in>set out. good y" "err = None \<longrightarrow> map kf out = map kx xs"
      "\<forall>p. err \<noteq> Some (Panic p)"
    let ?l = "logged @ (case err of None \<Rightarrow> [] | Some e \<Rightarrow> [e])"
    have "(case err of None \<Rightarrow> join_tasks ws f xss (edges @ out) logged
       | Some (Panic p) \<Rightarrow> join_tasks ws f xss edges (logged @ [Panic p])
       | Some e \<Rightarrow> join_tasks ws f xss (edges @ out) (logged @ [e])) = join_tasks ws f xss (edges @ out) ?l"
      using b(5) by (auto split: option.splits list_error.splits)
    moreover have "utriple (\<lambda>t. t = s) (join_tasks ws f xss (edges @ out) ?l) ?Q (\<lambda>_ _. False)"
    proof (rule utriple_weaken [OF rest [of "edges @ out" ?l]])
      fix x :: "'y list \<times> ('i, 'e) list_error list" and t :: "('i, 'w, 'p) istate"
      assume "(case x of (edges', logged') \<Rightarrow> \<lambda>t. J t \<and> (\<exists>ys new. edges' = (edges @ out) @ ys \<and> logged' = ?l @ new
        \<and> subseq (map kf ys) (map kx (concat xss)) \<and> (\<forall>y\<in>set ys. good y)
        \<and> (new = [] \<longrightarrow> map kf ys = map kx (concat xss)) \<and> (\<forall>p. Panic p \<notin> set new))) t"
      then obtain ys new where x: "x = ((edges @ out) @ ys, ?l @ new)" "J t" "subseq (map kf ys) (map kx (concat xss))"
        "\<forall>y\<in>set ys. good y" "new = [] \<longrightarrow> map kf ys = map kx (concat xss)" "\<forall>p. Panic p \<notin> set new"
        by (cases x, simp, blast)
      have sub: "subseq (map kf (out @ ys)) (map kx (concat (xs # xss)))"
        using list_emb_append_mono [OF prefix_imp_subseq [OF b(2)] x(3)] by simp
      show "?Q x t" unfolding x(1) prod.case
        using x b sub by (intro conjI exI [of _ "out @ ys"] exI [of _ "(case err of None \<Rightarrow> [] | Some e \<Rightarrow> [e]) @ new"])
          (auto split: option.splits)
    qed (use b(1) in simp_all)
    ultimately show "utriple (\<lambda>t. t = s) (case err of None \<Rightarrow> join_tasks ws f xss (edges @ out) logged
       | Some (Panic p) \<Rightarrow> join_tasks ws f xss edges (logged @ [Panic p])
       | Some e \<Rightarrow> join_tasks ws f xss (edges @ out) (logged @ [e])) ?Q (\<lambda>_ _. False)" by simp
  qed
qed


lemma run_tasks_join:
  assumes "batch_task f xs [] (fresh_scratch ws s) = Some (Inr (out, err), s')" "\<forall>p. err \<noteq> Some (Panic p)"
  shows "run_tasks ws f (xs # xss) s = join_tasks ws f (xs # xss) [] [] s"
  using assms by (auto simp: run_tasks_def ubind_def split: option.splits list_error.splits)

lemma run_tasks_triple:
  fixes f :: "'x \<Rightarrow> ('i, 'e, 'w, 'p, 'y) update"
  assumes f: "\<And>x. x \<in> set (concat xss) \<Longrightarrow> utriple I (f x) (\<lambda>y s. I s \<and> kf y = kx x \<and> good y) (\<lambda>e s. J s \<and> (\<forall>p. e \<noteq> Panic p))"
    and IJ: "\<And>s. I s \<Longrightarrow> J s" "\<And>s. J s \<Longrightarrow> I (fresh_scratch ws s)" and ne: "xss \<noteq> []" and s: "J s"
  obtains edges logged s' where "run_tasks ws f xss s = Some (Inr (edges, logged), s')" "J s'"
    "subseq (map kf edges) (map kx (concat xss))" "\<And>y. y \<in> set edges \<Longrightarrow> good y"
    "logged = [] \<Longrightarrow> map kf edges = map kx (concat xss)" "\<And>p. Panic p \<notin> set logged"
proof -
  obtain xs rest where xss: "xss = xs # rest" using ne by (cases xss) auto
  have "utriple I (f x) (\<lambda>y s. I s \<and> kf y = kx x \<and> good y) (\<lambda>e s. J s \<and> (\<forall>p. e \<noteq> Panic p))" if "x \<in> set xs" for x
    using f [of x] xss that by simp
  note B = batch_task_triple [where xs = xs and out = "[]", OF this IJ(1)]
  obtain out err t where t: "batch_task f xs [] (fresh_scratch ws s) = Some (Inr (out, err), t)"
    and "J t \<and> (\<exists>ys. out = [] @ ys \<and> prefix (map kf ys) (map kx xs) \<and> (\<forall>y\<in>set ys. good y)
      \<and> (err = None \<longrightarrow> map kf ys = map kx xs)) \<and> (\<forall>p. err \<noteq> Some (Panic p))"
    by (rule utriple_pairD [OF B IJ(2) [OF s]])
  then have run: "run_tasks ws f xss s = join_tasks ws f xss [] [] s" unfolding xss by (intro run_tasks_join) auto
  note T = join_tasks_triple [where edges = "[]" and logged = "[]", OF f IJ]
  obtain edges logged s' where e: "join_tasks ws f xss [] [] s = Some (Inr (edges, logged), s')"
    and "J s' \<and> (\<exists>ys new. edges = [] @ ys \<and> logged = [] @ new \<and> subseq (map kf ys) (map kx (concat xss)) \<and> (\<forall>y\<in>set ys. good y)
      \<and> (new = [] \<longrightarrow> map kf ys = map kx (concat xss)) \<and> (\<forall>p. Panic p \<notin> set new))"
    by (rule utriple_pairD [OF T s])
  then show thesis using that [OF e [folded run]] by auto
qed

definition good_edge :: "config \<Rightarrow> 'i set \<Rightarrow> 'i pending_edge \<Rightarrow> bool" where
  "good_edge cfg V p \<longleftrightarrow> pruned_from cfg (V - {pe_source p}) (pe_edges p)"

context graph_update
begin

text \<open>The state between the items of a task: the graph is the one the batch started with.\<close>

definition at_rest :: "config \<Rightarrow> 'i set \<Rightarrow> 'p \<Rightarrow> ('i, 'w, 'p) istate \<Rightarrow> bool" where
  "at_rest cfg V p s \<longleftrightarrow> sinv cfg V p {} s \<and> ix_graph s = p"

lemma at_rest_fresh: "at_rest cfg V p s \<Longrightarrow> at_rest cfg V p (fresh_scratch ws s) \<and> ps_neighbors (ix_scratch (fresh_scratch ws s)) = []"
  by (auto simp: at_rest_def sinv_def fresh_scratch_def prune_scratch_new_def al_new_def pruned_from_def)

lemma search_and_prune_triple:
  fixes strategies :: "nat \<Rightarrow> ('i, 'v, 'u, 'w, 'e, 'a, 'p) insert_strategy"
  assumes cfg: "config_ok cfg" and V: "finite V" "set ids \<subseteq> V" "distinct ids"
    and un: "unreferenced ops V (set ids) p" and st: "reads_graph ops cfg V (set ids) p (strategies pos)"
  shows "utriple (\<lambda>s. at_rest cfg V p s \<and> ps_neighbors (ix_scratch s) = []) (search_and_prune cfg strategies ids pos)
    (\<lambda>y s. (at_rest cfg V p s \<and> ps_neighbors (ix_scratch s) = []) \<and> pe_source y = ids ! pos \<and> good_edge cfg V y)
    (\<lambda>e s. at_rest cfg V p s \<and> (\<forall>f. e \<noteq> Panic f))" (is "utriple ?I _ ?Q ?E")
proof (rule utriple_pre)
  fix s assume s: "?I s"
  let ?st = "strategies pos" let ?ex = "around_items (around_new ids pos (intra_batch_get (intra_batch cfg) (length ids)))"
  have ex: "distinct ?ex" "set ?ex \<subseteq> V \<inter> set ids"
    using around_distinct [OF V(3), of pos "intra_batch_get (intra_batch cfg) (length ids)"] V(2) by auto
  consider (err) e where "search_and_prune cfg strategies ids pos s = Some (Inl (Other e), s)"
    | (go) acc a computer start where "is_search_accessor ?st (ix_graph s) = Inr (acc, a)" "is_computer ?st = Inr computer"
      "is_starting_points ?st = Inr start"
    by (cases "is_search_accessor ?st (ix_graph s)"; cases "is_computer ?st"; cases "is_starting_points ?st")
      (auto simp: search_and_prune_def ubind_def uthrow_def ulift_def uret_def)
  then show "utriple (\<lambda>t. t = s) (search_and_prune cfg strategies ids pos) ?Q ?E"
  proof cases
    case err
    then show ?thesis using s by (simp add: utriple_def)
  next
    case go
    let ?l = "l_build cfg + length start" let ?i = "ids ! pos"
    have p: "ix_graph s = p" "sinv cfg V p {} s" "ps_neighbors (ix_scratch s) = []" using s by (auto simp: at_rest_def)
    have acc: "sa_get_neighbors acc = go_get ops (ix_graph s)" "set start \<subseteq> V - set ids" "distinct start" "0 < ?l"
      using st go(1,3) unfolding reads_graph_def p(1) by auto
    have sc: "index_search_scratch cfg (l_build cfg) (length start) = search_scratch_new (Fixed ?l)"
      "scratch_search_l (search_scratch_new (Fixed ?l)) = ?l"
      by (simp_all add: index_search_scratch_def scratch_create_def scratch_search_l_def search_scratch_new_def npq_new_def)
    have run: "search_and_prune cfg strategies ids pos s = ubind (search_and_prune_attempts cfg acc computer start
        (is_prune_accessor ?st) ids pos (num_insert_attempts cfg) 0 (search_scratch_new (Fixed ?l)) ?l a) (\<lambda>_. take_neighbors ?i) s"
      unfolding search_and_prune_def Let_def go by (simp add: sc)
    have pf: "pruned_from cfg (V - {?i}) (ps_neighbors (ix_scratch s))" using p(3) by (simp add: pruned_from_def)
    have "utriple (\<lambda>t. t = s) (ubind (search_and_prune_attempts cfg acc computer start
        (is_prune_accessor ?st) ids pos (num_insert_attempts cfg) 0 (search_scratch_new (Fixed ?l)) ?l a) (\<lambda>_. take_neighbors ?i)) ?Q ?E"
    proof (rule utriple_bind)
      show "utriple (\<lambda>t. t = s) (search_and_prune_attempts cfg acc computer start
        (is_prune_accessor ?st) ids pos (num_insert_attempts cfg) 0 (search_scratch_new (Fixed ?l)) ?l a)
        (\<lambda>_ t. at_rest cfg V p t \<and> pruned_from cfg (V - {?i}) (ps_neighbors (ix_scratch t))) ?E"
        using search_and_prune_attempts_triple [OF cfg V(1) acc(2,3) _ acc(1) ex acc(4) pf, of p "{}"] un p(1,2)
        by (auto elim!: utriple_weaken simp: at_rest_def)
      show "utriple (\<lambda>t. at_rest cfg V p t \<and> pruned_from cfg (V - {?i}) (ps_neighbors (ix_scratch t))) (take_neighbors ?i) ?Q ?E"
        by (auto simp: utriple_def take_neighbors_def uret_def at_rest_def sinv_def good_edge_def al_new_def pruned_from_def)
    qed
    then show ?thesis unfolding utriple_def using run by simp
  qed
qed

end


section \<open>The commit\<close>

text \<open>The back edges of a vertex are sorted: the identifiers are ordered.\<close>

locale ordered_graph_update = graph_update wf valid cap ops
  for wf :: "'p \<Rightarrow> bool" and valid :: "'p \<Rightarrow> 'i :: linorder \<Rightarrow> bool" and cap :: "'p \<Rightarrow> nat" and ops :: "('i, 'e, 'p) graph_ops"
begin

lemma bootstrap_leaf_triple:
  fixes pacc :: "'e + ('i, 'u, 'w, 'e) prune_accessor"
  assumes cfg: "config_ok cfg" and cur: "good_edge cfg V current" "pe_source current \<in> V" and V: "pe_source ` set batch \<subseteq> V"
  shows "utriple (at_rest cfg V p) (multi_insert_bootstrap_leaf cfg pacc ws batch current)
    (\<lambda>y s. at_rest cfg V p s \<and> pe_source y = pe_source current \<and> good_edge cfg V y)
    (\<lambda>e s. at_rest cfg V p s \<and> (\<forall>f. e \<noteq> Panic f))" (is "utriple ?I _ ?Q ?E")
  unfolding multi_insert_bootstrap_leaf_def Let_def
proof (rule utriple_bind [where R = "\<lambda>_. ?I"], rule utriple_lift)
  fix acc
  let ?c = "from_iter_untrusted (pe_edges current @ filter (\<lambda>i. i \<noteq> pe_source current) (map pe_source batch))"
  have c: "distinct ?c" "set ?c \<subseteq> V" "set ?c - {pe_source current} \<subseteq> V - {pe_source current}"
    using cur V by (auto simp: from_iter_untrusted_props good_edge_def pruned_from_def)
  show "utriple ?I (\<lambda>s. ubind (prune_list cfg acc (pe_source current) ?c True) (\<lambda>neighbors.
      uret \<lparr>pe_source = pe_source current, pe_edges = neighbors\<rparr>) (fresh_scratch ws s)) ?Q ?E"
  proof (rule utriple_pre)
    fix s :: "('i, 'w, 'p) istate" assume s: "?I s"
    let ?s = "fresh_scratch ws s"
    have f: "at_rest cfg V p ?s" "ps_neighbors (ix_scratch ?s) = []" using at_rest_fresh [OF s] by auto
    have "utriple (\<lambda>t. t = ?s) (prune_list cfg acc (pe_source current) ?c True)
      (\<lambda>ns t. at_rest cfg V p t \<and> pruned_from cfg (V - {pe_source current}) ns) ?E"
    proof (rule utriple_weaken [OF prune_triple [OF cfg c(1,2), of ?s p "{}" acc "pe_source current" True]])
      fix "ns" t assume t: "sinv cfg V p {} t \<and> ix_graph t = ix_graph ?s \<and> good_list cfg V ns \<and> length ns \<le> pruned_degree cfg
        \<and> (pruned_from cfg (set ?c - {pe_source current}) ns \<or> ns = ps_neighbors (ix_scratch ?s))"
      have "pruned_from cfg (V - {pe_source current}) ns" using t pruned_from_mono [OF _ c(3)] f(2) by (auto simp: pruned_from_def)
      then show "at_rest cfg V p t \<and> pruned_from cfg (V - {pe_source current}) ns" using t f(1) by (auto simp: at_rest_def)
    qed (use f in \<open>auto simp: at_rest_def\<close>)
    then have "utriple (\<lambda>t. t = ?s) (ubind (prune_list cfg acc (pe_source current) ?c True) (\<lambda>neighbors.
      uret \<lparr>pe_source = pe_source current, pe_edges = neighbors\<rparr>)) ?Q ?E"
      by (rule utriple_bind) (auto intro!: utriple_ret simp: good_edge_def)
    then show "utriple (\<lambda>t. t = s) (\<lambda>s. ubind (prune_list cfg acc (pe_source current) ?c True) (\<lambda>neighbors.
      uret \<lparr>pe_source = pe_source current, pe_edges = neighbors\<rparr>) (fresh_scratch ws s)) ?Q ?E"
      by (simp add: utriple_def)
  qed
qed auto

lemma set_bulk_triple:
  assumes cfg: "config_ok cfg" and "distinct (map pe_source (done' @ edges))" "pe_source ` set edges \<subseteq> V" "\<forall>q\<in>set edges. good_edge cfg V q"
  shows "utriple (\<lambda>(s :: ('i, 'w, 'p) istate). sinv cfg V p0 (pe_source ` set done') s \<and> (\<forall>q\<in>set done'. go_get ops (ix_graph s) (pe_source q) = Inr (pe_edges q)))
    (set_neighbors_bulk ops edges)
    (\<lambda>_ s. sinv cfg V p0 (pe_source ` set (done' @ edges)) s
      \<and> (\<forall>q\<in>set (done' @ edges). go_get ops (ix_graph s) (pe_source q) = Inr (pe_edges q))) (\<lambda>_ _. False)"
  using assms(2-4) unfolding set_neighbors_bulk_def
proof (induction edges arbitrary: done')
  case Nil
  then show ?case by (auto intro!: utriple_ret)
next
  case (Cons q edges)
  let ?I = "\<lambda>d (s :: ('i, 'w, 'p) istate). sinv cfg V p0 (pe_source ` set d) s \<and> (\<forall>q\<in>set d. go_get ops (ix_graph s) (pe_source q) = Inr (pe_edges q))"
  have q: "pe_source q \<in> V" "good_list cfg V (pe_edges q)"
    using Cons.prems(2,3) pruned_good [OF cfg, of "V - {pe_source q}" "pe_edges q" V] by (auto simp: good_edge_def)
  have "utriple (?I done') (set_neighbors ops (pe_source q) (pe_edges q)) (\<lambda>_. ?I (done' @ [q])) (\<lambda>_ _. False)"
  proof (rule utriple_pre, elim conjE)
    fix s :: "('i, 'w, 'p) istate" assume s: "sinv cfg V p0 (pe_source ` set done') s"
      "\<forall>q\<in>set done'. go_get ops (ix_graph s) (pe_source q) = Inr (pe_edges q)"
    have "utriple (\<lambda>t. t = s) (set_neighbors ops (pe_source q) (pe_edges q))
      (\<lambda>_ t. sinv cfg V (ix_graph s) {pe_source q} t \<and> go_get ops (ix_graph t) (pe_source q) = Inr (pe_edges q)) (\<lambda>_ _. False)"
      by (rule utriple_weaken [OF set_triple [OF q, of "ix_graph s" "{}" "\<lambda>_ _. False"]]) (use sinv_start [OF s(1)] in auto)
    then show "utriple (\<lambda>t. t = s) (set_neighbors ops (pe_source q) (pe_edges q)) (\<lambda>_. ?I (done' @ [q])) (\<lambda>_ _. False)"
    proof (rule utriple_weaken)
      fix t :: "('i, 'w, 'p) istate" assume t: "sinv cfg V (ix_graph s) {pe_source q} t \<and> go_get ops (ix_graph t) (pe_source q) = Inr (pe_edges q)"
      have "sinv cfg V p0 ({pe_source q} \<union> pe_source ` set done') t"
        using sinv_trans [of cfg V "ix_graph s" "{pe_source q}" t "pe_source ` set done'" p0] t s(1) by (auto simp: sinv_def)
      moreover have "go_get ops (ix_graph t) (pe_source d) = Inr (pe_edges d)" if "d \<in> set done'" for d
      proof -
        have "pe_source d \<in> pe_source ` set done'" using that by blast
        then have "pe_source d \<noteq> pe_source q" using Cons.prems(1) by auto
        then show ?thesis using t s(2) that by (auto simp: sinv_def unchanged_def)
      qed
      ultimately show "?I (done' @ [q]) t" using t by auto
    qed auto
  qed
  moreover have "utriple (?I (done' @ [q])) (ufor edges (\<lambda>p. set_neighbors ops (pe_source p) (pe_edges p)))
      (\<lambda>_. ?I (done' @ q # edges)) (\<lambda>_ _. False)"
    using Cons.IH [of "done' @ [q]"] Cons.prems by simp
  ultimately show ?case unfolding ufor.simps by (rule utriple_bind)
qed

text \<open>The vertices of \<open>D\<close> got their back edges, the others are as they were.\<close>

definition committed :: "config \<Rightarrow> 'i set \<Rightarrow> 'p \<Rightarrow> ('i \<Rightarrow> 'i list) \<Rightarrow> 'i set \<Rightarrow> ('i, 'w, 'p) istate \<Rightarrow> bool" where
  "committed cfg V p0 tg D s \<longleftrightarrow> sinv cfg V p0 D s \<and> (\<forall>j\<in>D. linked cfg V ops (tg j) p0 (ix_graph s) j)"

lemma committed_fresh: "committed cfg V p0 tg D s \<Longrightarrow> committed cfg V p0 tg D (fresh_scratch ws s)"
  by (simp add: committed_def sinv_def fresh_scratch_def prune_scratch_new_def al_new_def pruned_from_def)

lemma link_one_triple:
  fixes pacc :: "'e + ('i, 'u, 'w, 'e) prune_accessor"
  assumes cfg: "config_ok cfg" and j: "j \<in> V" "j \<notin> D" "set (tg j) \<subseteq> V"
  shows "utriple (committed cfg V p0 tg D) (add_edge_and_prune cfg ops pacc (tg j) j None)
    (\<lambda>_. committed cfg V p0 tg (insert j D)) (\<lambda>e s. committed cfg V p0 tg D s \<and> (\<forall>f. e \<noteq> Panic f))"
proof (rule utriple_pre)
  fix s0 :: "('i, 'w, 'p) istate" assume s0: "committed cfg V p0 tg D s0"
  have old: "go_get ops (ix_graph s0) j = go_get ops p0 j" using s0 j by (auto simp: committed_def sinv_def unchanged_def)
  have rest: "sinv cfg V (ix_graph s0) {} s0" using s0 sinv_start by (auto simp: committed_def)
  show "utriple (\<lambda>t. t = s0) (add_edge_and_prune cfg ops pacc (tg j) j None) (\<lambda>_. committed cfg V p0 tg (insert j D))
      (\<lambda>e s. committed cfg V p0 tg D s \<and> (\<forall>f. e \<noteq> Panic f))"
  proof (rule utriple_weaken [OF add_edge_triple [OF cfg j(1,3), of s0 "ix_graph s0" "{}" pacc None]])
    fix s :: "('i, 'w, 'p) istate"
    assume a: "sinv cfg V (ix_graph s0) {j} s \<and> (\<exists>old new. go_get ops (ix_graph s0) j = Inr old
      \<and> go_get ops (ix_graph s) j = Inr new
      \<and> edge_outcome cfg j (ps_neighbors (ix_scratch s0)) (merged_edges None (tg j) old) new)"
    then have "linked cfg V ops (tg j) p0 (ix_graph s) j"
      using s0 unfolding old linked_def by (auto simp: committed_def sinv_def)
    moreover have "linked cfg V ops (tg k) p0 (ix_graph s) k" if "k \<in> D" for k
    proof -
      have "go_get ops (ix_graph s) k = go_get ops (ix_graph s0) k" using a j(2) that by (auto simp: sinv_def unchanged_def)
      then show ?thesis using s0 that unfolding committed_def linked_def by simp
    qed
    moreover have "sinv cfg V p0 ({j} \<union> D) s"
      using sinv_trans [of cfg V "ix_graph s0" "{j}" s D p0] a s0 by (auto simp: committed_def sinv_def)
    ultimately show "committed cfg V p0 tg (insert j D) s" by (simp add: committed_def)
  next
    fix e s assume "sinv cfg V (ix_graph s0) {} s \<and> ix_graph s = ix_graph s0 \<and> (\<forall>f. e \<noteq> Panic f)"
    then show "committed cfg V p0 tg D s \<and> (\<forall>f. e \<noteq> Panic f)" using s0 by (auto simp: committed_def sinv_def)
  qed (use rest in simp)
qed

lemma link_items_triple:
  fixes pacc :: "'e + ('i, 'u, 'w, 'e) prune_accessor"
  assumes cfg: "config_ok cfg" and "fst ` set items \<subseteq> V" "distinct (map fst items)" "fst ` set items \<inter> D = {}"
    and tg: "\<forall>(j, b)\<in>set items. sort (bb_deref b) = tg j \<and> set (tg j) \<subseteq> V"
  shows "utriple (committed cfg V p0 tg D)
    (ufor items (\<lambda>(source, buf). add_edge_and_prune cfg ops pacc (sort (bb_deref buf)) source None))
    (\<lambda>_. committed cfg V p0 tg (D \<union> fst ` set items))
    (\<lambda>e s. (\<exists>D'. D \<subseteq> D' \<and> D' \<subseteq> D \<union> fst ` set items \<and> committed cfg V p0 tg D' s) \<and> (\<forall>f. e \<noteq> Panic f))"
  using assms(2-5)
proof (induction items arbitrary: D)
  case Nil
  then show ?case by (auto intro!: utriple_ret)
next
  case (Cons it items)
  obtain j b where it: "it = (j, b)" by fastforce
  let ?E = "\<lambda>e s. (\<exists>D'. D \<subseteq> D' \<and> D' \<subseteq> D \<union> fst ` set (it # items) \<and> committed cfg V p0 tg D' s) \<and> (\<forall>f. e \<noteq> Panic f)"
  have j: "j \<in> V" "j \<notin> D" "set (tg j) \<subseteq> V" "sort (bb_deref b) = tg j" using Cons.prems it by auto
  have "utriple (committed cfg V p0 tg D) (add_edge_and_prune cfg ops pacc (sort (bb_deref b)) j None)
    (\<lambda>_. committed cfg V p0 tg (insert j D)) ?E" unfolding j(4)
    by (rule utriple_weaken [OF link_one_triple [where tg = tg, OF cfg j(1-3)]]) auto
  moreover have "utriple (committed cfg V p0 tg (insert j D))
    (ufor items (\<lambda>(source, buf). add_edge_and_prune cfg ops pacc (sort (bb_deref buf)) source None))
    (\<lambda>_. committed cfg V p0 tg (D \<union> fst ` set (it # items))) ?E"
    by (rule utriple_weaken [OF Cons.IH [of "insert j D"]]) (use Cons.prems it in auto)
  ultimately show ?case unfolding ufor.simps it prod.case by (rule utriple_bind)
qed

end


context ordered_graph_update
begin

lemma backedge_task_triple:
  fixes pacc :: "'e + ('i, 'u, 'w, 'e) prune_accessor"
  assumes cfg: "config_ok cfg" and items: "fst ` set items \<subseteq> V" "distinct (map fst items)" "fst ` set items \<inter> D = {}"
    and tg: "\<forall>(j, b)\<in>set items. sort (bb_deref b) = tg j \<and> set (tg j) \<subseteq> V"
  shows "utriple (committed cfg V p0 tg D) (backedge_task cfg ops pacc ws items logged)
    (\<lambda>l s. \<exists>D' new. l = logged @ new \<and> D \<subseteq> D' \<and> D' \<subseteq> D \<union> fst ` set items \<and> committed cfg V p0 tg D' s
      \<and> (new = [] \<longrightarrow> D' = D \<union> fst ` set items)) (\<lambda>_ _. False)"
proof (rule utripleI)
  fix s :: "('i, 'w, 'p) istate" assume s: "committed cfg V p0 tg D s"
  from utripleD [OF link_items_triple [OF cfg items tg, of p0 pacc] committed_fresh [OF s, of ws]] obtain r s' where
    run: "ufor items (\<lambda>(source, buf). add_edge_and_prune cfg ops pacc (sort (bb_deref buf)) source None) (fresh_scratch ws s) = Some (r, s')"
    and r: "case r of Inl e \<Rightarrow> (\<exists>D'. D \<subseteq> D' \<and> D' \<subseteq> D \<union> fst ` set items \<and> committed cfg V p0 tg D' s') \<and> (\<forall>f. e \<noteq> Panic f)
      | Inr x \<Rightarrow> committed cfg V p0 tg (D \<union> fst ` set items) s'" by blast
  show "case backedge_task cfg ops pacc ws items logged s of None \<Rightarrow> False | Some (Inl e, s') \<Rightarrow> False
    | Some (Inr l, s') \<Rightarrow> \<exists>D' new. l = logged @ new \<and> D \<subseteq> D' \<and> D' \<subseteq> D \<union> fst ` set items \<and> committed cfg V p0 tg D' s'
      \<and> (new = [] \<longrightarrow> D' = D \<union> fst ` set items)"
  proof (cases r)
    case (Inl e)
    then obtain D' where "D \<subseteq> D'" "D' \<subseteq> D \<union> fst ` set items" "committed cfg V p0 tg D' s'" using r by auto
    then show ?thesis using run Inl by (auto simp: backedge_task_def uret_def intro!: exI [of _ D'])
  next
    case (Inr x)
    then show ?thesis using run r by (auto simp: backedge_task_def uret_def intro!: exI [of _ "D \<union> fst ` set items"])
  qed
qed

lemma commit_backedges_triple:
  fixes pacc :: "'e + ('i, 'u, 'w, 'e) prune_accessor"
  assumes cfg: "config_ok cfg"
    and "distinct (map fst (concat (map (\<lambda>(a, b). take (b - a) (drop a bs)) ranges)))"
    and "fst ` set (concat (map (\<lambda>(a, b). take (b - a) (drop a bs)) ranges)) \<inter> D = {}"
    and bs: "fst ` set bs \<subseteq> V" "\<forall>(j, b)\<in>set bs. sort (bb_deref b) = tg j \<and> set (tg j) \<subseteq> V"
  shows "utriple (committed cfg V p0 tg D) (commit_backedges cfg ops pacc ws bs ranges logged)
    (\<lambda>l s. \<exists>D' new. l = logged @ new \<and> D \<subseteq> D' \<and> D' \<subseteq> D \<union> fst ` set (concat (map (\<lambda>(a, b). take (b - a) (drop a bs)) ranges))
      \<and> committed cfg V p0 tg D' s
      \<and> (new = [] \<longrightarrow> D' = D \<union> fst ` set (concat (map (\<lambda>(a, b). take (b - a) (drop a bs)) ranges)))) (\<lambda>_ _. False)"
  using assms(2,3)
proof (induction ranges arbitrary: D logged)
  case Nil
  then show ?case by (auto intro!: utriple_ret)
next
  case (Cons rg ranges)
  obtain a b where rg: "rg = (a, b)" by fastforce
  let ?it = "take (b - a) (drop a bs)" let ?rest = "concat (map (\<lambda>(a, b). take (b - a) (drop a bs)) ranges)"
  have sub: "set ?it \<subseteq> set bs" by (meson order_trans set_take_subset set_drop_subset)
  have pieces: "concat (map (\<lambda>(a, b). take (b - a) (drop a bs)) (rg # ranges)) = ?it @ ?rest" unfolding rg by simp
  note prems = Cons.prems [unfolded pieces set_append map_append image_Un]
  have it: "fst ` set ?it \<subseteq> V" "distinct (map fst ?it)" "fst ` set ?it \<inter> D = {}"
    "\<forall>(j, b)\<in>set ?it. sort (bb_deref b) = tg j \<and> set (tg j) \<subseteq> V"
    using sub bs(1) prems by (blast, simp, blast) (use sub bs(2) in blast)
  show ?case unfolding rg commit_backedges.simps
  proof (rule utriple_bind [OF backedge_task_triple [OF cfg it]], rule utriple_pre, elim exE conjE)
    fix l D1 new and s :: "('i, 'w, 'p) istate"
    assume l: "l = logged @ new" "D \<subseteq> D1" "D1 \<subseteq> D \<union> fst ` set ?it" "committed cfg V p0 tg D1 s" "new = [] \<longrightarrow> D1 = D \<union> fst ` set ?it"
    have d: "distinct (map fst ?rest)" "fst ` set ?rest \<inter> D1 = {}" 
      using prems l(3) unfolding distinct_append set_map by (blast, blast)
    show "utriple (\<lambda>t. t = s) (commit_backedges cfg ops pacc ws bs ranges l)
      (\<lambda>l s. \<exists>D' new. l = logged @ new \<and> D \<subseteq> D' \<and> D' \<subseteq> D \<union> fst ` set (concat (map (\<lambda>(a, b). take (b - a) (drop a bs)) ((a, b) # ranges)))
      \<and> committed cfg V p0 tg D' s
      \<and> (new = [] \<longrightarrow> D' = D \<union> fst ` set (concat (map (\<lambda>(a, b). take (b - a) (drop a bs)) ((a, b) # ranges))))) (\<lambda>_ _. False)"
    proof (rule utriple_weaken [OF Cons.IH [OF d, of l]], simp add: l(4), elim exE conjE)
      fix l' D2 new2 and s' :: "('i, 'w, 'p) istate"
      assume l2: "l' = l @ new2" "D1 \<subseteq> D2" "D2 \<subseteq> D1 \<union> fst ` set ?rest" "committed cfg V p0 tg D2 s'" "new2 = [] \<longrightarrow> D2 = D1 \<union> fst ` set ?rest"
      have un: "fst ` set (concat (map (\<lambda>(a, b). take (b - a) (drop a bs)) ((a, b) # ranges))) = fst ` set ?it \<union> fst ` set ?rest"
        using pieces unfolding rg by (simp only: set_append image_Un)
      show "\<exists>D' new. l' = logged @ new \<and> D \<subseteq> D' \<and> D' \<subseteq> D \<union> fst ` set (concat (map (\<lambda>(a, b). take (b - a) (drop a bs)) ((a, b) # ranges)))
      \<and> committed cfg V p0 tg D' s'
      \<and> (new = [] \<longrightarrow> D' = D \<union> fst ` set (concat (map (\<lambda>(a, b). take (b - a) (drop a bs)) ((a, b) # ranges))))"
        unfolding un
      proof (intro exI [of _ D2] exI [of _ "new @ new2"] conjI impI)
        show "l' = logged @ new @ new2" using l(1) l2(1) by simp
        show "D \<subseteq> D2" "D2 \<subseteq> D \<union> (fst ` set ?it \<union> fst ` set ?rest)" using l(2,3) l2(2,3) by (blast, blast)
        show "committed cfg V p0 tg D2 s'" by (rule l2(4))
        show "new @ new2 = [] \<Longrightarrow> D2 = D \<union> (fst ` set ?it \<union> fst ` set ?rest)" using l(5) l2(5) by (simp add: Un_assoc)
      qed
    qed
  qed
qed

end

lemma partition_slices:
  assumes "0 < n"
  shows "concat (map (\<lambda>(a, b). take (b - a) (drop a xs)) (map (partition_impl (length xs) n) [0..<n])) = xs"
proof -
  let ?f = "part_start (length xs) n"
  have "concat (map (\<lambda>t. take (?f (Suc t) - ?f t) (drop (?f t) xs)) [0..<n]) = take (?f n - ?f 0) (drop (?f 0) xs)"
    by (rule concat_slices) (use part_start_mono part_start_all [OF assms] in simp_all)
  moreover have "?f 0 = 0" by (simp add: part_start_def)
  ultimately show ?thesis using part_start_all [OF assms] by (simp add: partition_impl_start comp_def)
qed


section \<open>The whole batch\<close>

text \<open>A schedule gives every position of the work list to one of the tasks.\<close>

definition fair_schedule :: "(nat \<Rightarrow> nat \<Rightarrow> nat list list) \<Rightarrow> bool" where
  "fair_schedule schedule \<longleftrightarrow>
     (\<forall>k n. 0 < k \<longrightarrow> length (schedule k n) = k \<and> mset (concat (schedule k n)) = mset [0..<n])"

lemma fair_scheduleD:
  assumes "fair_schedule schedule" "0 < k"
  shows "schedule k n \<noteq> []" "mset (concat (schedule k n)) = mset [0..<n]"
proof -
  have a: "length (schedule k n) = k" "mset (concat (schedule k n)) = mset [0..<n]"
    using assms unfolding fair_schedule_def by blast+
  show "schedule k n \<noteq> []" using a(1) assms(2) by (cases "schedule k n") auto
  show "mset (concat (schedule k n)) = mset [0..<n]" by (rule a(2))
qed

lemma subseq_distinct_keys: "subseq xs ys \<Longrightarrow> distinct ys \<Longrightarrow> distinct xs \<and> set xs \<subseteq> set ys"
  by (induction rule: list_emb.induct) auto

lemma schedule_keys:
  assumes "mset (concat as) = mset [0..<length xs]" "distinct (map key xs)"
    and "subseq ks (map (\<lambda>i. key (xs ! i)) (concat as))"
  shows "distinct ks" "set ks \<subseteq> key ` set xs"
    "ks = map (\<lambda>i. key (xs ! i)) (concat as) \<Longrightarrow> set ks = key ` set xs"
proof -
  have "mset (map (\<lambda>i. key (xs ! i)) (concat as)) = mset (map (\<lambda>i. key (xs ! i)) [0..<length xs])"
    unfolding mset_map assms(1) ..
  also have "map (\<lambda>i. key (xs ! i)) [0..<length xs] = map key xs" by (rule nth_equalityI) simp_all
  finally have m: "mset (map (\<lambda>i. key (xs ! i)) (concat as)) = mset (map key xs)" .
  have d: "distinct (map (\<lambda>i. key (xs ! i)) (concat as))" unfolding mset_eq_imp_distinct_iff [OF m] by (rule assms(2))
  have e: "set (map (\<lambda>i. key (xs ! i)) (concat as)) = key ` set xs" using mset_eq_setD [OF m] by simp
  show "distinct ks" "set ks \<subseteq> key ` set xs" using subseq_distinct_keys [OF assms(3) d] unfolding e by auto
  show "ks = map (\<lambda>i. key (xs ! i)) (concat as) \<Longrightarrow> set ks = key ` set xs" using e by simp
qed

text \<open>The edges a phase leaves: at most one list per vector of the batch, each pruned.\<close>

definition batch_edges :: "config \<Rightarrow> 'i set \<Rightarrow> 'i list \<Rightarrow> 'i pending_edge list \<Rightarrow> bool" where
  "batch_edges cfg V guards edges \<longleftrightarrow> distinct (map pe_source edges) \<and> pe_source ` set edges \<subseteq> set guards
     \<and> (\<forall>q\<in>set edges. good_edge cfg V q)"

text \<open>The sources that point at a vertex, in ascending order.\<close>

definition back_sources :: "('i :: linorder) pending_edge list \<Rightarrow> 'i \<Rightarrow> 'i list" where
  "back_sources edges j = sorted_list_of_set {pe_source q | q. q \<in> set edges \<and> j \<in> set (pe_edges q)}"

lemma aggregate_entries:
  assumes "aggregate_backedges dflt edges j = Some b"
  shows "sort (bb_deref b) = back_sources edges j" "set (back_sources edges j) \<subseteq> pe_source ` set edges"
proof -
  have set: "set (bb_deref b) = {pe_source q | q. q \<in> set edges \<and> j \<in> set (pe_edges q)}" and d: "distinct (bb_deref b)"
    using aggregate_fold(1) [where m = Map.empty and dflt = dflt and ls = edges and u = j]
      aggregate_fold(3) [where m = Map.empty and dflt = dflt and ls = edges and u = j] assms
    by (simp_all add: aggregate_backedges_def bb_entry_def)
  show eq: "sort (bb_deref b) = back_sources edges j"
    unfolding back_sources_def set [symmetric] sorted_list_of_set_sort_remdups using d by (simp add: distinct_remdups_id)
  show "set (back_sources edges j) \<subseteq> pe_source ` set edges" unfolding eq [symmetric] set_sort set by blast
qed

lemma aggregate_dom: "dom (aggregate_backedges dflt edges) = (\<Union>q\<in>set edges. set (pe_edges q))"
  using aggregate_fold(2) [where m = Map.empty and dflt = dflt and ls = edges] by (simp add: aggregate_backedges_def)

context ordered_graph_update
begin

lemma search_phase:
  fixes strategy :: "('i, 'v, 'u, 'w, 'e, 'a, 'p) multi_strategy"
  assumes cfg: "config_ok cfg" and par: "0 < max_minibatch_par cfg" and V: "finite V" "set guards \<subseteq> V" "distinct guards"
    and un: "unreferenced ops V (set guards) p" and st: "\<forall>pos. reads_graph ops cfg V (set guards) p (ms_insert strategy pos)"
    and sched: "fair_schedule schedule" and s: "at_rest cfg V p s"
  obtains edges logged s' where
    "run_tasks seed (search_and_prune cfg (ms_insert strategy) guards) (schedule (max_minibatch_par cfg) (length guards)) s
       = Some (Inr (edges, logged), s')" "at_rest cfg V p s'" "batch_edges cfg V guards edges"
    "logged = [] \<longrightarrow> pe_source ` set edges = set guards"
proof -
  let ?as = "schedule (max_minibatch_par cfg) (length guards)"
  have as: "?as \<noteq> []" "mset (concat ?as) = mset [0..<length guards]" using fair_scheduleD [OF sched par] by blast+
  let ?I = "\<lambda>s. at_rest cfg V p s \<and> ps_neighbors (ix_scratch s) = []"
  have step: "utriple ?I (search_and_prune cfg (ms_insert strategy) guards pos)
      (\<lambda>y s. ?I s \<and> pe_source y = guards ! pos \<and> good_edge cfg V y) (\<lambda>e s. at_rest cfg V p s \<and> (\<forall>f. e \<noteq> Panic f))" for pos
    using search_and_prune_triple [OF cfg V un, of "ms_insert strategy" pos] st by simp
  obtain edges logged s' where
    run: "run_tasks seed (search_and_prune cfg (ms_insert strategy) guards) ?as s = Some (Inr (edges, logged), s')"
    "at_rest cfg V p s'" "subseq (map pe_source edges) (map (\<lambda>pos. guards ! pos) (concat ?as))"
    "\<And>y. y \<in> set edges \<Longrightarrow> good_edge cfg V y" "logged = [] \<Longrightarrow> map pe_source edges = map (\<lambda>pos. guards ! pos) (concat ?as)"
    by (rule run_tasks_triple [where kx = "\<lambda>pos. guards ! pos" and kf = pe_source and I = ?I and J = "at_rest cfg V p"
        and good = "good_edge cfg V" and xss = ?as and ws = seed, OF step _ _ as(1) s]) (auto dest: at_rest_fresh)
  have d: "distinct (map (\<lambda>x. x) guards)" using V(3) by simp
  note k = schedule_keys [OF as(2) d run(3)]
  have "batch_edges cfg V guards edges" using k(1,2) run(4) by (simp add: batch_edges_def)
  moreover have "logged = [] \<longrightarrow> pe_source ` set edges = set guards" using k(3) [OF run(5)] by simp
  ultimately show thesis using that [OF run(1,2)] by blast
qed

lemma bootstrap_phase:
  fixes pacc :: "'e + ('i, 'u, 'w, 'e) prune_accessor"
  assumes cfg: "config_ok cfg" and V: "set guards \<subseteq> V" and e: "batch_edges cfg V guards edges"
    and sched: "fair_schedule schedule" and s: "at_rest cfg V p s"
  obtains edges' logged s' where "multi_insert_bootstrap cfg pacc ws schedule edges s = Some (Inr (edges', logged), s')"
    "at_rest cfg V p s'" "batch_edges cfg V guards edges'" "logged = [] \<longrightarrow> pe_source ` set edges' = pe_source ` set edges"
proof -
  let ?k = "max (min (max_minibatch_par cfg) (length edges)) 1" let ?as = "schedule ?k (length edges)"
  have "0 < ?k" by simp
  then have as: "?as \<noteq> []" "mset (concat ?as) = mset [0..<length edges]" using fair_scheduleD [OF sched] by blast+
  have src: "pe_source ` set edges \<subseteq> V" using e V by (auto simp: batch_edges_def)
  have step: "utriple (at_rest cfg V p) (multi_insert_bootstrap_leaf cfg pacc ws edges (edges ! i))
      (\<lambda>y s. at_rest cfg V p s \<and> pe_source y = pe_source (edges ! i) \<and> good_edge cfg V y)
      (\<lambda>e s. at_rest cfg V p s \<and> (\<forall>f. e \<noteq> Panic f))" if "i \<in> set (concat ?as)" for i
  proof -
    have "i < length edges" using that mset_eq_setD [OF as(2)] by auto
    then have "good_edge cfg V (edges ! i)" "pe_source (edges ! i) \<in> V" using e src by (auto simp: batch_edges_def)
    then show ?thesis using src by (rule bootstrap_leaf_triple [OF cfg])
  qed
  obtain edges' logged s' where
    run: "run_tasks ws (\<lambda>i. multi_insert_bootstrap_leaf cfg pacc ws edges (edges ! i)) ?as s = Some (Inr (edges', logged), s')"
    "at_rest cfg V p s'" "subseq (map pe_source edges') (map (\<lambda>i. pe_source (edges ! i)) (concat ?as))"
    "\<And>y. y \<in> set edges' \<Longrightarrow> good_edge cfg V y" "logged = [] \<Longrightarrow> map pe_source edges' = map (\<lambda>i. pe_source (edges ! i)) (concat ?as)"
    by (rule run_tasks_triple [where kx = "\<lambda>i. pe_source (edges ! i)" and kf = pe_source and I = "at_rest cfg V p" and J = "at_rest cfg V p"
        and good = "good_edge cfg V" and xss = ?as and ws = ws, OF step _ _ as(1) s]) (auto dest: at_rest_fresh)
  have d: "distinct (map pe_source edges)" using e by (simp add: batch_edges_def)
  note k = schedule_keys [OF as(2) d run(3)]
  have "batch_edges cfg V guards edges'" using k(1,2) run(4) e by (auto simp: batch_edges_def)
  moreover have "logged = [] \<longrightarrow> pe_source ` set edges' = pe_source ` set edges" using k(3) [OF run(5)] by simp
  ultimately show thesis using that [of edges' logged s'] run(1,2) by (simp add: multi_insert_bootstrap_def Let_def)
qed

end


text \<open>The outcome of a batch, from the graph \<open>p0\<close> before it to the graph \<open>p\<close> after it: the lists of the
  vectors are set (\<open>p1\<close>), then the vertices they point at get their back edges; without an error in the log every
  vector has its list and every target its back edges.\<close>

definition batch_inserted ::
  "config \<Rightarrow> ('i :: linorder) set \<Rightarrow> ('i, 'e, 'p) graph_ops \<Rightarrow> 'i list \<Rightarrow> 'p \<Rightarrow> 'p \<Rightarrow> bool \<Rightarrow> bool" where
  "batch_inserted cfg V ops guards p0 p no_errors \<longleftrightarrow>
     (\<exists>edges p1 D. batch_edges cfg V guards edges
       \<and> unchanged ops (pe_source ` set edges) p0 p1
       \<and> (\<forall>q\<in>set edges. go_get ops p1 (pe_source q) = Inr (pe_edges q))
       \<and> unchanged ops D p1 p \<and> D \<subseteq> (\<Union>q\<in>set edges. set (pe_edges q))
       \<and> (\<forall>j\<in>D. linked cfg V ops (back_sources edges j) p1 p j)
       \<and> (no_errors \<longrightarrow> pe_source ` set edges = set guards \<and> D = (\<Union>q\<in>set edges. set (pe_edges q))))"

context ordered_graph_update
begin

lemma commit_phase:
  fixes pacc :: "'e + ('i, 'u, 'w, 'e) prune_accessor" and s :: "('i, 'w, 'p) istate"
  assumes cfg: "config_ok cfg" and par: "0 < n" and V: "set guards \<subseteq> V" and e: "batch_edges cfg V guards edges"
    and order: "map_iteration map_order" and s: "at_rest cfg V p s"
    and bs: "bs = map_order (aggregate_backedges dflt edges)"
  obtains new s' where "ubind (set_neighbors_bulk ops edges) (\<lambda>_. commit_backedges cfg ops pacc seed bs
      (map (partition_impl (length bs) n) [0..<n]) logged) s = Some (Inr (logged @ new), s')" "ginv cfg V (ix_graph s')"
    "batch_inserted cfg V ops guards p (ix_graph s') (new = [] \<and> pe_source ` set edges = set guards)"
proof -
  let ?m = "aggregate_backedges dflt edges" let ?T = "\<Union>q\<in>set edges. set (pe_edges q)" let ?tg = "back_sources edges"
  have E: "distinct (map pe_source ([] @ edges))" "pe_source ` set edges \<subseteq> V" "\<forall>q\<in>set edges. good_edge cfg V q"
    using e V by (auto simp: batch_edges_def)
  have s0: "sinv cfg V p (pe_source ` set []) s \<and> (\<forall>q\<in>set []. go_get ops (ix_graph s) (pe_source q) = Inr (pe_edges q))"
    using s by (simp add: at_rest_def)
  obtain u s1 where bulk: "set_neighbors_bulk ops edges s = Some (Inr u, s1)"
    and s1: "sinv cfg V p (pe_source ` set ([] @ edges)) s1 \<and> (\<forall>q\<in>set ([] @ edges). go_get ops (ix_graph s1) (pe_source q) = Inr (pe_edges q))"
    by (rule utriple_okD [OF set_bulk_triple [OF cfg E] s0])
  have fin: "finite (dom ?m)" unfolding aggregate_dom by simp
  note it = map_iteration_keys [OF order fin, folded bs, unfolded aggregate_dom]
  have T: "?T \<subseteq> V" using E(3) by (auto simp: good_edge_def pruned_from_def)
  have bsV1: "fst ` set bs \<subseteq> V" unfolding it(2) by (rule T)
  have bsV2: "\<forall>(j, b)\<in>set bs. sort (bb_deref b) = ?tg j \<and> set (?tg j) \<subseteq> V"
  proof clarify
    fix j b assume "(j, b) \<in> set bs"
    note a = aggregate_entries [OF it(3) [OF this]]
    show "sort (bb_deref b) = ?tg j \<and> set (?tg j) \<subseteq> V" using a(1) order_trans [OF a(2) E(2)] by blast
  qed
  have c0: "committed cfg V (ix_graph s1) ?tg {} s1" using s1 sinv_start by (auto simp: committed_def)
  note pieces = partition_slices [OF par, of bs]
  have d: "distinct (map fst (concat (map (\<lambda>(a, b). take (b - a) (drop a bs)) (map (partition_impl (length bs) n) [0..<n]))))"
    "fst ` set (concat (map (\<lambda>(a, b). take (b - a) (drop a bs)) (map (partition_impl (length bs) n) [0..<n]))) \<inter> {} = {}"
    unfolding pieces using it(1) by simp_all
  obtain l s' where com: "commit_backedges cfg ops pacc seed bs (map (partition_impl (length bs) n) [0..<n]) logged s1 = Some (Inr l, s')"
    and "\<exists>D' new. l = logged @ new \<and> {} \<subseteq> D' \<and> D' \<subseteq> {} \<union> fst ` set bs \<and> committed cfg V (ix_graph s1) ?tg D' s'
      \<and> (new = [] \<longrightarrow> D' = {} \<union> fst ` set bs)"
    by (rule utriple_okD [OF commit_backedges_triple [where tg = ?tg, OF cfg d bsV1 bsV2, unfolded pieces] c0])
  then obtain D new where l: "l = logged @ new" "D \<subseteq> ?T" "committed cfg V (ix_graph s1) ?tg D s'" "new = [] \<longrightarrow> D = ?T"
    unfolding it(2) by auto
  have "batch_inserted cfg V ops guards p (ix_graph s') (new = [] \<and> pe_source ` set edges = set guards)"
    unfolding batch_inserted_def
    using e s1 l by (intro exI [of _ edges] exI [of _ "ix_graph s1"] exI [of _ D]) (auto simp: sinv_def committed_def)
  moreover have "ginv cfg V (ix_graph s')" using l(3) by (simp add: committed_def sinv_def)
  moreover have "ubind (set_neighbors_bulk ops edges) (\<lambda>_. commit_backedges cfg ops pacc seed bs
      (map (partition_impl (length bs) n) [0..<n]) logged) s = Some (Inr (logged @ new), s')"
    by (simp add: ubind_def bulk com l(1))
  ultimately show thesis by (intro that [of new s'])
qed

lemma batch_inserted_mono: "batch_inserted cfg V ops guards p0 p a \<Longrightarrow> (b \<longrightarrow> a) \<Longrightarrow> batch_inserted cfg V ops guards p0 p b"
  by (cases b) (auto simp: batch_inserted_def)

lemma multi_insert_graph_run:
  fixes strategy :: "('i, 'v, 'u, 'w, 'e, 'a, 'p) multi_strategy" and s :: "('i, 'w, 'p) istate"
  assumes cfg: "config_ok cfg" and par: "0 < max_minibatch_par cfg" and V: "finite V" "set guards \<subseteq> V" "distinct guards"
    and un: "unreferenced ops V (set guards) p" and st: "\<forall>pos. reads_graph ops cfg V (set guards) p (ms_insert strategy pos)"
    and sched: "fair_schedule schedule" and order: "map_iteration map_order" and s: "at_rest cfg V p s"
  shows "\<exists>r s'. multi_insert_graph cfg ops strategy schedule map_order dflt guards s = Some (r, s') \<and> ginv cfg V (ix_graph s')
    \<and> (\<forall>f. r \<noteq> Inl (Panic f)) \<and> (case r of Inl e \<Rightarrow> ix_graph s' = p | Inr logged \<Rightarrow> batch_inserted cfg V ops guards p (ix_graph s') (logged = []))"
proof -
  have g: "ginv cfg V p" "ix_graph s = p" using s by (auto simp: at_rest_def sinv_def)
  show ?thesis
  proof (cases "ms_finish strategy guards")
    case (Inl e)
    then show ?thesis using g by (auto simp: multi_insert_graph_def ubind_def uthrow_def)
  next
    case seed: (Inr seed)
    let ?par = "max_minibatch_par cfg"
    obtain edges1 logged1 s1 where
      r1: "run_tasks seed (search_and_prune cfg (ms_insert strategy) guards) (schedule ?par (length guards)) s = Some (Inr (edges1, logged1), s1)"
      "at_rest cfg V p s1" "batch_edges cfg V guards edges1" "logged1 = [] \<longrightarrow> pe_source ` set edges1 = set guards"
      by (rule search_phase [where seed = seed, OF cfg par V un st sched s])
    let ?bs1 = "map_order (aggregate_backedges dflt edges1)"
    let ?boot = "max (intra_batch_get (intra_batch cfg) (length guards)) 1 < length guards \<and> div_ceil (length ?bs1) 8 \<le> length guards"
    let ?mid = "if ?boot then ubind (multi_insert_bootstrap cfg (ms_prune_accessor strategy)
                             (ms_working_set strategy (max_occlusion_size cfg)) schedule edges1) (\<lambda>(edges, l).
                    uret (edges, map_order (aggregate_backedges dflt edges), logged1 @ l))
               else uret (edges1, ?bs1, logged1)"
    let ?commit = "\<lambda>(edges, backedges, logged). ubind (ulift (ms_prune_accessor strategy)) (\<lambda>_.
        ubind (set_neighbors_bulk ops edges) (\<lambda>_. commit_backedges cfg ops (ms_prune_accessor strategy) seed backedges
          (map (partition_impl (length backedges) ?par) [0..<?par]) logged))"
    obtain edges bs logged s2 where r2: "?mid s1 = Some (Inr (edges, bs, logged), s2)" "at_rest cfg V p s2" "batch_edges cfg V guards edges"
      "bs = map_order (aggregate_backedges dflt edges)" "logged = [] \<longrightarrow> pe_source ` set edges = set guards"
    proof (cases ?boot)
      case True
      obtain edges' l s' where b: "multi_insert_bootstrap cfg (ms_prune_accessor strategy) (ms_working_set strategy (max_occlusion_size cfg))
          schedule edges1 s1 = Some (Inr (edges', l), s')"
        "at_rest cfg V p s'" "batch_edges cfg V guards edges'" "l = [] \<longrightarrow> pe_source ` set edges' = pe_source ` set edges1"
        by (rule bootstrap_phase [where pacc = "ms_prune_accessor strategy" and ws = "ms_working_set strategy (max_occlusion_size cfg)",
            OF cfg V(2) r1(3) sched r1(2)])
      show thesis
      proof (rule that [of edges' "map_order (aggregate_backedges dflt edges')" "logged1 @ l" s'])
        show "?mid s1 = Some (Inr (edges', map_order (aggregate_backedges dflt edges'), logged1 @ l), s')"
          unfolding if_P [OF True] by (simp add: ubind_def b(1) uret_def)
        show "logged1 @ l = [] \<longrightarrow> pe_source ` set edges' = set guards" using b(4) r1(4) by simp
      qed (use b in simp_all)
    next
      case False
      show thesis
      proof (rule that [of edges1 ?bs1 logged1 s1])
        show "?mid s1 = Some (Inr (edges1, ?bs1, logged1), s1)" unfolding if_not_P [OF False] by (simp add: uret_def)
      qed (use r1 in simp_all)
    qed
    have run: "multi_insert_graph cfg ops strategy schedule map_order dflt guards s = ?commit (edges, bs, logged) s2"
      unfolding multi_insert_graph_def seed ulift_simps ubind_ret ubind_run [of "run_tasks _ _ _", OF r1(1)] prod.case Let_def
      by (simp only: ubind_run [of ?mid s1, OF r2(1)] prod.case)
    show ?thesis
    proof (cases "ms_prune_accessor strategy")
      case (Inl e)
      then show ?thesis using run g r2(2) by (auto simp: ubind_def uthrow_def at_rest_def)
    next
      case (Inr pacc)
      obtain new s' where fin: "ubind (set_neighbors_bulk ops edges) (\<lambda>_. commit_backedges cfg ops (Inr pacc) seed bs
        (map (partition_impl (length bs) ?par) [0..<?par]) logged) s2 = Some (Inr (logged @ new), s')" "ginv cfg V (ix_graph s')"
        "batch_inserted cfg V ops guards p (ix_graph s') (new = [] \<and> pe_source ` set edges = set guards)"
        by (rule commit_phase [where pacc = "Inr pacc" and seed = seed and logged = logged, OF cfg par V(2) r2(3) order r2(2,4)])
      have "batch_inserted cfg V ops guards p (ix_graph s') (logged @ new = [])"
        by (rule batch_inserted_mono [OF fin(3)]) (use r2(5) in simp)
      then show ?thesis unfolding run using Inr fin(1,2) by simp
    qed
  qed
qed

end


section \<open>Properties\<close>

interpretation ixo: ordered_graph_update np_wf na_valid np_cap na_ops ..


text \<open>A batch of two vectors for the examples: one task, the map of back edges in the order of its keys.\<close>

definition sample_multi :: "(32 word, int, int, unit, fault, unit, neighbor_provider) multi_strategy" where
  "sample_multi = \<lparr>ms_insert = (\<lambda>_. sample_strategy), ms_finish = (\<lambda>_. Inr ()),
     ms_prune_accessor = is_prune_accessor sample_strategy, ms_working_set = (\<lambda>_. ())\<rparr>"

definition one_by_one :: "nat \<Rightarrow> nat \<Rightarrow> nat list list" where
  "one_by_one k n = [0..<n] # replicate (k - 1) []"

lemma one_by_one_fair: "fair_schedule one_by_one"
  by (auto simp: fair_schedule_def one_by_one_def)


end
