(* ===== verification/Index_Delete.thy ===== *)
theory Index_Delete
  imports Index_Insert
begin

text \<open>
  In-place deletion of a vector: \<open>inplace_delete\<close> of \<open>diskann/src/graph/index.rs\<close>, with the three ways
  of finding the vertices that point at the deleted one and the vertices that replace it.

  The record of the strategy describes the data provider for one external identifier: the translation
  to an internal one, the outcome of marking it as deleted, and what the provider answers afterwards.  What the
  post-processing of a search leaves of the best candidates (the deleted ones are gone) is a function of the
  candidates and of the room in the output.  The orders in which a hash map and a hash set are iterated are the
  arguments \<open>map_order\<close> and \<open>set_order\<close>.
\<close>

section \<open>Model\<close>

datatype inplace_delete_method = VisitedAndTopK nat nat | TwoHopAndOneHop | OneHop

record 'i work_list =
  replace_candidates :: "'i list"
  in_neighbors :: "'i list"

record ('i, 'v, 'u, 'w, 'e, 'a, 'p) delete_strategy =
  ds_internal_id :: "'e ranked_error + 'i"
  ds_delete :: "'e ranked_error + unit"
  ds_status :: "('i, 'e) statuses"
  ds_search_accessor :: "'p \<Rightarrow> 'e + (('i, 'v, 'e, 'a) search_accessor \<times> 'a)"
  ds_computer :: "'e + ('v \<Rightarrow> f32)"
  ds_starting_points :: "'e + 'i list"
  ds_post_process :: "'i neighbor list \<Rightarrow> nat \<Rightarrow> 'e + 'i neighbor list"
  ds_prune_accessor :: "'e + ('i, 'u, 'w, 'e) prune_accessor"
  ds_working_set :: "nat \<Rightarrow> 'w"

definition search_best ::
  "('i, 'v, 'e, 'a) search_accessor \<Rightarrow> ('v \<Rightarrow> f32) \<Rightarrow> 'i list \<Rightarrow> ('i, 'i npq) search_scratch \<Rightarrow> 'a
    \<Rightarrow> ('i, 'e, 'w, 'p, ('i, 'i npq) search_scratch) update" where
  "search_best accessor computer start_ids scratch a s =
     (case search_internal accessor computer npq_ops noop_record None start_ids scratch () a of
        None \<Rightarrow> None
      | Some (Inl (SError e)) \<Rightarrow> uthrow (Other e) s
      | Some (Inl (SPanic f)) \<Rightarrow> uthrow (Panic f) s
      | Some (Inr (stats, scratch', _, _)) \<Rightarrow> uret scratch' s)"

definition get_candidates_using_visited_and_topk ::
  "config \<Rightarrow> ('i, 'e, 'p) graph_ops \<Rightarrow> ('i, 'v, 'u, 'w, 'e, 'a, 'p) delete_strategy \<Rightarrow> 'i \<Rightarrow> nat \<Rightarrow> nat
    \<Rightarrow> ('i, 'e, 'w, 'p, 'i work_list) update" where
  "get_candidates_using_visited_and_topk cfg ops strategy vector_id l_val k_val s =
     ubind (ulift (ds_search_accessor strategy (ix_graph s))) (\<lambda>(accessor, a).
     ubind (ulift (ds_computer strategy)) (\<lambda>computer.
     ubind (ulift (ds_starting_points strategy)) (\<lambda>start_ids.
     ubind (search_best accessor computer start_ids (index_search_scratch cfg l_val (length start_ids)) a) (\<lambda>scratch.
     ubind (ulift (ds_post_process strategy (npq_iter (best scratch)) l_val)) (\<lambda>output.
     let undeleted_ids = map nbr_id (take l_val output) in
     ubind (return_refs_to_deleted_vertex ops vector_id undeleted_ids) (\<lambda>ids_to_modify.
     uret \<lparr>replace_candidates = take k_val undeleted_ids, in_neighbors = ids_to_modify\<rparr>)))))) s"

definition undeleted_one_hop ::
  "('i, 'e, 'p) graph_ops \<Rightarrow> ('i, 'e) statuses \<Rightarrow> 'i \<Rightarrow> ('i, 'e, 'w, 'p, 'i list) update" where
  "undeleted_one_hop ops status vector_id = on_neighbors ops status vector_id (\<lambda>i c. c @ [i]) (\<lambda>_ c. c) []"

fun two_hop :: "('i, 'e, 'p) graph_ops \<Rightarrow> 'i list \<Rightarrow> 'i list \<Rightarrow> ('i, 'e, 'w, 'p, 'i list) update" where
  "two_hop ops [] nbhs = uret nbhs"
| "two_hop ops (nbh # rest) nbhs =
     ubind (get_neighbors ops nbh) (\<lambda>nbh_adj_list.
     two_hop ops rest (fold hash_insert nbh_adj_list (hash_insert nbh nbhs)))"

fun keep_undeleted :: "('i, 'e) statuses \<Rightarrow> 'i list \<Rightarrow> ('i, 'e, 'w, 'p, 'i list) update" where
  "keep_undeleted status [] = uret []"
| "keep_undeleted status (n # ns) =
     ubind (ulift (allow_transient (status n))) (\<lambda>st.
     ubind (keep_undeleted status ns) (\<lambda>rest.
     uret (if (case st of None \<Rightarrow> True | Some is_deleted \<Rightarrow> is_deleted) then rest else n # rest)))"

definition get_candidates_using_twohop_and_onehop ::
  "('i, 'e, 'p) graph_ops \<Rightarrow> ('i, 'e) statuses \<Rightarrow> ('i list \<Rightarrow> 'i list) \<Rightarrow> 'i \<Rightarrow> ('i, 'e, 'w, 'p, 'i work_list) update" where
  "get_candidates_using_twohop_and_onehop ops status set_order vector_id =
     ubind (undeleted_one_hop ops status vector_id) (\<lambda>one_hop.
     ubind (two_hop ops one_hop []) (\<lambda>two_hop_nbhs.
     ubind (keep_undeleted status (set_order two_hop_nbhs)) (\<lambda>undeleted_two_hop_nbhs.
     ubind (return_refs_to_deleted_vertex ops vector_id undeleted_two_hop_nbhs) (\<lambda>ins.
     uret \<lparr>replace_candidates = one_hop, in_neighbors = ins\<rparr>))))"

definition get_candidates_using_onehop ::
  "('i, 'e, 'p) graph_ops \<Rightarrow> ('i, 'e) statuses \<Rightarrow> 'i \<Rightarrow> ('i, 'e, 'w, 'p, 'i work_list) update" where
  "get_candidates_using_onehop ops status vector_id =
     ubind (undeleted_one_hop ops status vector_id) (\<lambda>one_hop.
     ubind (return_refs_to_deleted_vertex ops vector_id one_hop) (\<lambda>ins.
     uret \<lparr>replace_candidates = one_hop, in_neighbors = ins\<rparr>))"

text \<open>The replacements that are closest to a vertex, itself left out.\<close>

definition closest_replacements ::
  "('u \<Rightarrow> 'u \<Rightarrow> f32) \<Rightarrow> ('i \<Rightarrow> 'u option) \<Rightarrow> nat \<Rightarrow> 'i list \<Rightarrow> 'i \<Rightarrow> 'u \<Rightarrow> 'i list" where
  "closest_replacements computer view num_to_replace candidates neighbor candidate =
     map nbr_id (take num_to_replace (sort_key nbr_distance
       (List.map_filter (\<lambda>other_id. if other_id = neighbor then None
          else map_option (\<lambda>other. neighbor_new other_id (computer candidate other)) (view other_id)) candidates)))"

definition edges_for_in_neighbor ::
  "('u \<Rightarrow> 'u \<Rightarrow> f32) \<Rightarrow> ('i \<Rightarrow> 'u option) \<Rightarrow> nat \<Rightarrow> 'i list \<Rightarrow> 'i \<Rightarrow> ('i \<rightharpoonup> 'i list) \<Rightarrow> ('i \<rightharpoonup> 'i list)" where
  "edges_for_in_neighbor computer view num_to_replace candidates neighbor edges_to_add =
     (case view neighbor of
        None \<Rightarrow> edges_to_add
      | Some candidate \<Rightarrow>
          edges_to_add(neighbor \<mapsto> closest_replacements computer view num_to_replace candidates neighbor candidate))"

definition push_edge :: "'i \<Rightarrow> 'i \<Rightarrow> ('i \<rightharpoonup> 'i list) \<Rightarrow> ('i \<rightharpoonup> 'i list)" where
  "push_edge neighbor source edges_to_add =
     edges_to_add(source \<mapsto> (case edges_to_add source of None \<Rightarrow> [] | Some es \<Rightarrow> es) @ [neighbor])"

definition edges_for_out_neighbor ::
  "('u \<Rightarrow> 'u \<Rightarrow> f32) \<Rightarrow> ('i \<Rightarrow> 'u option) \<Rightarrow> nat \<Rightarrow> 'i list \<Rightarrow> 'i \<Rightarrow> ('i \<rightharpoonup> 'i list) \<Rightarrow> ('i \<rightharpoonup> 'i list)" where
  "edges_for_out_neighbor computer view num_to_replace candidates neighbor edges_to_add =
     (case view neighbor of
        None \<Rightarrow> edges_to_add
      | Some candidate \<Rightarrow>
          fold (push_edge neighbor) (closest_replacements computer view num_to_replace candidates neighbor candidate) edges_to_add)"

definition delete_candidates ::
  "config \<Rightarrow> ('i, 'e, 'p) graph_ops \<Rightarrow> ('i, 'v, 'u, 'w, 'e, 'a, 'p) delete_strategy \<Rightarrow> ('i list \<Rightarrow> 'i list)
    \<Rightarrow> inplace_delete_method \<Rightarrow> 'i \<Rightarrow> ('i, 'e, 'w, 'p, 'i work_list) update" where
  "delete_candidates cfg ops strategy set_order how vector_id =
     (case how of
        VisitedAndTopK k l \<Rightarrow> get_candidates_using_visited_and_topk cfg ops strategy vector_id l k
      | TwoHopAndOneHop \<Rightarrow> get_candidates_using_twohop_and_onehop ops (ds_status strategy) set_order vector_id
      | OneHop \<Rightarrow> get_candidates_using_onehop ops (ds_status strategy) vector_id)"

definition inplace_delete_inner ::
  "config \<Rightarrow> ('i, 'e, 'p) graph_ops \<Rightarrow> ('i, 'v, 'u, 'w, 'e, 'a, 'p) delete_strategy \<Rightarrow> ('i list \<Rightarrow> 'i list) \<Rightarrow> nat
    \<Rightarrow> inplace_delete_method \<Rightarrow> ('i, 'e, 'w, 'p, 'i \<rightharpoonup> 'i list) update" where
  "inplace_delete_inner cfg ops strategy set_order num_to_replace how s =
     ubind (ulift (escalate (ds_internal_id strategy))) (\<lambda>vector_id.
     ubind (ulift (escalate (ds_delete strategy))) (\<lambda>_.
     ubind (ulift (ds_search_accessor strategy (ix_graph s))) (\<lambda>_.
     ubind (delete_candidates cfg ops strategy set_order how vector_id) (\<lambda>work.
     ubind (ulift (ds_prune_accessor strategy)) (\<lambda>accessor.
     ubind (get_undeleted_neighbors ops (ds_status strategy) vector_id) (\<lambda>(adjacency_list, _).
     ubind (ulift (pa_computer accessor)) (\<lambda>computer.
     ubind (ulift (pa_fill accessor (ds_working_set strategy (max_occlusion_size cfg))
              (replace_candidates work @ in_neighbors work @ adjacency_list))) (\<lambda>(_, view).
     uret (fold (edges_for_out_neighbor computer view num_to_replace (replace_candidates work)) adjacency_list
       (fold (edges_for_in_neighbor computer view num_to_replace (replace_candidates work)) (in_neighbors work) Map.empty)))))))))) s"

definition inplace_delete ::
  "config \<Rightarrow> ('i, 'e, 'p) graph_ops \<Rightarrow> ('i, 'v, 'u, 'w, 'e, 'a, 'p) delete_strategy
    \<Rightarrow> (('i \<rightharpoonup> 'i list) \<Rightarrow> ('i \<times> 'i list) list) \<Rightarrow> ('i list \<Rightarrow> 'i list) \<Rightarrow> nat \<Rightarrow> inplace_delete_method
    \<Rightarrow> ('i, 'e, 'w, 'p, unit) update" where
  "inplace_delete cfg ops strategy map_order set_order num_to_replace how =
     ubind (ulift (escalate (ds_internal_id strategy))) (\<lambda>vector_id.
     ubind (inplace_delete_inner cfg ops strategy set_order num_to_replace how) (\<lambda>edges_to_add.
     ubind (\<lambda>s. ufor (map_order edges_to_add) (\<lambda>(neighbor, edges).
              add_edge_and_prune cfg ops (ds_prune_accessor strategy) edges neighbor (Some {vector_id}))
              (fresh_scratch (ds_working_set strategy (max_occlusion_size cfg)) s)) (\<lambda>_.
     ubind (ulift (ds_prune_accessor strategy)) (\<lambda>_.
     drop_adj_list ops vector_id))))"


section \<open>The work list\<close>

definition points_at :: "('i, 'e, 'p) graph_ops \<Rightarrow> 'p \<Rightarrow> 'i \<Rightarrow> 'i \<Rightarrow> bool" where
  "points_at ops p i j \<longleftrightarrow> (\<exists>ns. go_get ops p j = Inr ns \<and> i \<in> set ns)"

definition live :: "'i set \<Rightarrow> ('i, 'e) statuses \<Rightarrow> 'i set" where
  "live V status = {j \<in> V. \<not> counts_deleted status j}"

lemma fold_undeleted:
  "fold (\<lambda>j. case status j of Inl _ \<Rightarrow> (\<lambda>c. c) | Inr is_deleted \<Rightarrow> if is_deleted then (\<lambda>c. c) else (\<lambda>c. c @ [j])) xs c
   = c @ filter (\<lambda>j. \<not> counts_deleted status j) xs"
proof (induction xs arbitrary: c)
  case (Cons x xs)
  then show ?case by (cases "status x") (auto simp: counts_deleted_def)
qed simp

lemma set_hash_insert [simp]: "set (hash_insert x xs) = insert x (set xs)"
  by (auto simp: hash_insert_def)

lemma set_fold_hash_insert: "set (fold hash_insert xs c) = set xs \<union> set c"
  by (induction xs arbitrary: c) auto

lemma keep_undeleted_run:
  "(\<exists>e. keep_undeleted status xs s = Some (Inl (Other e), s))
    \<or> keep_undeleted status xs s = Some (Inr (filter (\<lambda>j. \<not> counts_deleted status j) xs), s)"
proof (induction xs)
  case Nil
  then show ?case by (simp add: uret_def)
next
  case (Cons x xs)
  show ?case
  proof (cases "allow_transient (status x)")
    case (Inl e)
    then show ?thesis by (simp add: ubind_def uthrow_def)
  next
    case (Inr st)
    then have "(case st of None \<Rightarrow> True | Some d \<Rightarrow> d) \<longleftrightarrow> counts_deleted status x"
      by (auto simp: allow_transient_def counts_deleted_def split: sum.splits ranked_error.splits)
    with Cons show ?thesis using Inr by (auto simp: ubind_def uret_def)
  qed
qed

text \<open>The candidates of a search are identifiers of the graph.\<close>

lemma search_best_run:
  fixes s :: "('i, 'w, 'p) istate"
  assumes "0 < l" "graph_closed acc V" "set start_ids \<subseteq> V" "distinct start_ids"
  obtains (err) e where "search_best acc computer start_ids (search_scratch_new (Fixed l)) a s = Some (Inl (Other e), s)"
  | (ok) sc where "search_best acc computer start_ids (search_scratch_new (Fixed l)) a s = Some (Inr sc, s)"
      "nbr_id ` set (npq_iter (best sc)) \<subseteq> V"
proof -
  let ?s0 = "search_scratch_new (Fixed l)"
  have n: "None \<noteq> Some (0 :: nat)" by simp
  from npql.search_internal_spec [where J = "\<lambda>_ _. True" and r = "()" and a = a
      and beam_width = None and computer = computer and rec = noop_record,
      OF scratch_new_fixed [OF assms(1)] assms(2-4) n]
  obtain res where run: "search_internal acc computer npq_ops noop_record None start_ids ?s0 () a = Some res"
    and np: "\<forall>f. res \<noteq> Inl (SPanic f)"
    and ok: "\<And>st s' r' a'. res = Inr (st, s', r', a') \<Longrightarrow> \<exists>X'. search_inv (npq_fixed l) npq_entries npq_cov acc computer V X' s'"
    by blast
  show thesis
  proof (cases res)
    case (Inl e)
    then obtain e' where "res = Inl (SError e')" using np by (cases e) auto
    then show thesis using run by (intro err [of e']) (simp add: search_best_def uthrow_def)
  next
    case (Inr out)
    obtain st sc r a' where out: "out = (st, sc, r, a')" by (metis prod_cases4)
    from ok [of st sc r a'] Inr out obtain X' where i: "search_inv (npq_fixed l) npq_entries npq_cov acc computer V X' sc" by blast
    then have q: "npq_wf (best sc)" "set (eids (npq_entries (best sc))) \<subseteq> V"
      by (auto simp: search_inv_def npq_fixed_def npq_usable_def npq_inv_def)
    show thesis
    proof (rule that(2) [of sc])
      show "search_best acc computer start_ids ?s0 a s = Some (Inr sc, s)"
        using run Inr out by (simp add: search_best_def uret_def)
      have "nbr_id ` set (npq_iter (best sc)) \<subseteq> set (eids (npq_entries (best sc)))"
        unfolding npq_iter_entries [OF q(1)] eids_def by (force simp: entry_nbr_def dest: in_set_takeD)
      then show "nbr_id ` set (npq_iter (best sc)) \<subseteq> V" using q(2) by blast
    qed
  qed
qed

text \<open>What a deletion relies on: the search accessor reads the graph, start points are identifiers, and
  post-processing only keeps candidates that are not deleted.\<close>

definition delete_reads :: "('i, 'e, 'p) graph_ops \<Rightarrow> 'i set \<Rightarrow> 'p \<Rightarrow> ('i, 'v, 'u, 'w, 'e, 'a, 'p) delete_strategy \<Rightarrow> bool" where
  "delete_reads ops V p strategy \<longleftrightarrow>
     (\<forall>acc a. ds_search_accessor strategy p = Inr (acc, a) \<longrightarrow> sa_get_neighbors acc = go_get ops p)
     \<and> (\<forall>st. ds_starting_points strategy = Inr st \<longrightarrow> set st \<subseteq> V \<and> distinct st \<and> st \<noteq> [])
     \<and> (\<forall>c l out. ds_post_process strategy c l = Inr out \<longrightarrow>
          nbr_id ` set out \<subseteq> nbr_id ` set c - {j. counts_deleted (ds_status strategy) j})"

context graph_update
begin

lemma run_return_refs:
  assumes "sinv cfg V p0 S s" "set cs \<subseteq> V"
  shows "return_refs_to_deleted_vertex ops i cs s = Some (Inr (filter (points_at ops (ix_graph s) i) cs), s)"
  using assms(2)
proof (induction cs)
  case Nil
  then show ?case by (simp add: uret_def)
next
  case (Cons c cs)
  then have "c \<in> V" by simp
  from run_get [OF assms(1) this] obtain ns where "ns": "go_get ops (ix_graph s) c = Inr ns" "get_neighbors ops c s = Some (Inr ns, s)" by metis
  then have "points_at ops (ix_graph s) i c \<longleftrightarrow> al_contains ns i" by (simp add: points_at_def al_contains_def)
  with Cons "ns" show ?case by (simp add: ubind_def uret_def)
qed

lemma run_one_hop:
  assumes "sinv cfg V p0 S s" "i \<in> V"
  obtains ns where "go_get ops (ix_graph s) i = Inr ns" "set ns \<subseteq> V"
    "undeleted_one_hop ops status i s = Some (Inr (filter (\<lambda>j. \<not> counts_deleted status j) ns), s)"
proof -
  obtain ns where "ns": "go_get ops (ix_graph s) i = Inr ns" "good_list cfg V ns" "get_neighbors ops i s = Some (Inr ns, s)"
    using run_get [OF assms] .
  then show thesis
    by (intro that [of "ns"]) (auto simp: undeleted_one_hop_def on_neighbors_def ubind_def uret_def fold_undeleted good_list_def)
qed

lemma run_two_hop:
  assumes "sinv cfg V p0 S s" "set one \<subseteq> V"
  shows "\<exists>t. two_hop ops one acc s = Some (Inr t, s) \<and> set one \<union> set acc \<subseteq> set t \<and> set t \<subseteq> V \<union> set acc"
  using assms(2)
proof (induction one arbitrary: acc)
  case Nil
  then show ?case by (simp add: uret_def)
next
  case (Cons x one)
  then have "x \<in> V" "set one \<subseteq> V" by simp_all
  obtain ns where "ns": "good_list cfg V ns" "get_neighbors ops x s = Some (Inr ns, s)" using run_get [OF assms(1) \<open>x \<in> V\<close>] by metis
  let ?acc = "fold hash_insert ns (hash_insert x acc)"
  obtain t where t: "two_hop ops one ?acc s = Some (Inr t, s)" "set one \<union> set ?acc \<subseteq> set t" "set t \<subseteq> V \<union> set ?acc"
    using Cons.IH [OF \<open>set one \<subseteq> V\<close>, of ?acc] by blast
  have "set ?acc = set ns \<union> insert x (set acc)" "set ns \<subseteq> V"
    using "ns"(1) by (simp_all add: set_fold_hash_insert good_list_def)
  with t \<open>x \<in> V\<close> show ?case by (intro exI [of _ t]) (auto simp: ubind_def "ns"(2))
qed

text \<open>The work list: live replacements, and live vertices that point at the vector; the two local methods find
  every out-neighbor that points back.\<close>

definition work_ok :: "'i set \<Rightarrow> ('i, 'e) statuses \<Rightarrow> inplace_delete_method \<Rightarrow> 'i \<Rightarrow> 'p \<Rightarrow> 'i work_list \<Rightarrow> bool" where
  "work_ok V status how i p work \<longleftrightarrow> set (replace_candidates work) \<subseteq> live V status
     \<and> set (in_neighbors work) \<subseteq> {j \<in> live V status. points_at ops p i j}
     \<and> ((\<forall>k l. how \<noteq> VisitedAndTopK k l) \<longrightarrow>
        (\<forall>ns. go_get ops p i = Inr ns \<longrightarrow> {j \<in> set ns. j \<in> live V status \<and> points_at ops p i j} \<subseteq> set (in_neighbors work)))"

lemma onehop_run:
  assumes s: "sinv cfg V p0 S s" and i: "i \<in> V"
  shows "\<exists>w. get_candidates_using_onehop ops status i s = Some (Inr w, s) \<and> work_ok V status OneHop i (ix_graph s) w"
proof -
  obtain ns where "ns": "go_get ops (ix_graph s) i = Inr ns" "set ns \<subseteq> V"
    "undeleted_one_hop ops status i s = Some (Inr (filter (\<lambda>j. \<not> counts_deleted status j) ns), s)" by (rule run_one_hop [OF s i])
  let ?one = "filter (\<lambda>j. \<not> counts_deleted status j) ns"
  have "set ?one \<subseteq> V" using "ns"(2) by auto
  note refs = run_return_refs [OF s this, of i]
  have "get_candidates_using_onehop ops status i s
      = Some (Inr \<lparr>replace_candidates = ?one, in_neighbors = filter (points_at ops (ix_graph s) i) ?one\<rparr>, s)"
    by (simp add: get_candidates_using_onehop_def ubind_def "ns"(3) refs uret_def)
  moreover have "work_ok V status OneHop i (ix_graph s) \<lparr>replace_candidates = ?one, in_neighbors = filter (points_at ops (ix_graph s) i) ?one\<rparr>"
    using "ns"(1,2) by (auto simp: work_ok_def live_def)
  ultimately show ?thesis by blast
qed

lemma twohop_run:
  assumes s: "sinv cfg V p0 S s" and i: "i \<in> V" and order: "\<And>xs. set (set_order xs) = set xs"
  shows "(\<exists>e. get_candidates_using_twohop_and_onehop ops status set_order i s = Some (Inl (Other e), s))
    \<or> (\<exists>w. get_candidates_using_twohop_and_onehop ops status set_order i s = Some (Inr w, s)
        \<and> work_ok V status TwoHopAndOneHop i (ix_graph s) w)"
proof -
  obtain ns where "ns": "go_get ops (ix_graph s) i = Inr ns" "set ns \<subseteq> V"
    "undeleted_one_hop ops status i s = Some (Inr (filter (\<lambda>j. \<not> counts_deleted status j) ns), s)" by (rule run_one_hop [OF s i])
  let ?one = "filter (\<lambda>j. \<not> counts_deleted status j) ns"
  have one: "set ?one \<subseteq> V" using "ns"(2) by auto
  obtain t where t: "two_hop ops ?one [] s = Some (Inr t, s)" "set ?one \<subseteq> set t" "set t \<subseteq> V"
    using run_two_hop [OF s one, of "[]"] by auto
  let ?two = "filter (\<lambda>j. \<not> counts_deleted status j) (set_order t)"
  have two: "set ?two \<subseteq> V" using t(3) order by auto
  note refs = run_return_refs [OF s two, of i]
  let ?w = "\<lparr>replace_candidates = ?one, in_neighbors = filter (points_at ops (ix_graph s) i) ?two\<rparr>"
  have ok: "work_ok V status TwoHopAndOneHop i (ix_graph s) ?w"
    using "ns"(1,2) t(2,3) order by (auto simp: work_ok_def live_def)
  from keep_undeleted_run [of status "set_order t" s] show ?thesis
  proof
    assume "\<exists>e. keep_undeleted status (set_order t) s = Some (Inl (Other e), s)"
    then show ?thesis by (auto simp: get_candidates_using_twohop_and_onehop_def ubind_def "ns"(3) t(1))
  next
    assume "keep_undeleted status (set_order t) s = Some (Inr ?two, s)"
    then have "get_candidates_using_twohop_and_onehop ops status set_order i s = Some (Inr ?w, s)"
      by (simp add: get_candidates_using_twohop_and_onehop_def ubind_def "ns"(3) t(1) refs uret_def)
    with ok show ?thesis by blast
  qed
qed

lemma visited_run:
  fixes strategy :: "('i, 'v, 'u, 'w, 'e, 'a, 'p) delete_strategy" and s :: "('i, 'w, 'p) istate"
  assumes s: "sinv cfg V p0 S s" and V: "finite V" and rd: "delete_reads ops V (ix_graph s) strategy"
  shows "(\<exists>e. get_candidates_using_visited_and_topk cfg ops strategy i l k s = Some (Inl (Other e), s))
    \<or> (\<exists>w. get_candidates_using_visited_and_topk cfg ops strategy i l k s = Some (Inr w, s)
        \<and> work_ok V (ds_status strategy) (VisitedAndTopK k l) i (ix_graph s) w)"
proof -
  let ?get = "get_candidates_using_visited_and_topk cfg ops strategy i l k s"
  note run = get_candidates_using_visited_and_topk_def
  consider (err) e where "?get = Some (Inl (Other e), s)"
    | (go) acc a computer st where "ds_search_accessor strategy (ix_graph s) = Inr (acc, a)" "ds_computer strategy = Inr computer"
      "ds_starting_points strategy = Inr st"
    by (cases "ds_search_accessor strategy (ix_graph s)"; cases "ds_computer strategy"; cases "ds_starting_points strategy")
      (auto simp: run ubind_def uthrow_def ulift_def uret_def)
  then show ?thesis
  proof cases
    case err
    then show ?thesis by blast
  next
    case go
    have st: "set st \<subseteq> V" "distinct st" "0 < l + length st" and nb: "sa_get_neighbors acc = go_get ops (ix_graph s)"
      using rd go unfolding delete_reads_def by auto
    have closed: "graph_closed acc V" by (rule sinv_closed [OF s V nb])
    have sc: "index_search_scratch cfg l (length st) = search_scratch_new (Fixed (l + length st))"
      by (simp add: index_search_scratch_def scratch_create_def)
    have get: "?get = ubind (search_best acc computer st (search_scratch_new (Fixed (l + length st))) a) (\<lambda>scratch.
       ubind (ulift (ds_post_process strategy (npq_iter (best scratch)) l)) (\<lambda>output.
       let undeleted_ids = map nbr_id (take l output) in
       ubind (return_refs_to_deleted_vertex ops i undeleted_ids) (\<lambda>ids_to_modify.
       uret \<lparr>replace_candidates = take k undeleted_ids, in_neighbors = ids_to_modify\<rparr>))) s"
      unfolding run go by (simp add: sc)
    show ?thesis
    proof (rule search_best_run [OF st(3) closed st(1,2), of computer a s])
      fix e assume "search_best acc computer st (search_scratch_new (Fixed (l + length st))) a s = Some (Inl (Other e), s)"
      then show ?thesis unfolding get by (simp add: ubind_def)
    next
      fix sc assume b: "search_best acc computer st (search_scratch_new (Fixed (l + length st))) a s = Some (Inr sc, s)"
        and ids: "nbr_id ` set (npq_iter (best sc)) \<subseteq> V"
      show ?thesis
      proof (cases "ds_post_process strategy (npq_iter (best sc)) l")
        case (Inl e)
        then show ?thesis unfolding get by (simp add: ubind_def b uthrow_def)
      next
        case (Inr out)
        let ?ids = "map nbr_id (take l out)"
        have "nbr_id ` set out \<subseteq> live V (ds_status strategy)" using rd Inr ids unfolding delete_reads_def live_def by blast
        then have live: "set ?ids \<subseteq> live V (ds_status strategy)" using set_take_subset [of l out] by auto
        then have "set ?ids \<subseteq> V" by (auto simp: live_def)
        note refs = run_return_refs [OF s this, of i]
        let ?w = "\<lparr>replace_candidates = take k ?ids, in_neighbors = filter (points_at ops (ix_graph s) i) ?ids\<rparr>"
        have "?get = Some (Inr ?w, s)" unfolding get by (simp add: ubind_def b Inr refs uret_def Let_def)
        moreover have "work_ok V (ds_status strategy) (VisitedAndTopK k l) i (ix_graph s) ?w"
          using live set_take_subset [of k ?ids] unfolding work_ok_def by auto
        ultimately show ?thesis by blast
      qed
    qed
  qed
qed

end


section \<open>The edges to add\<close>

definition edges_ok :: "'i set \<Rightarrow> ('i \<rightharpoonup> 'i list) \<Rightarrow> bool" where
  "edges_ok L m \<longleftrightarrow> finite (dom m) \<and> (\<forall>j es. m j = Some es \<longrightarrow> j \<in> L \<and> set es \<subseteq> L)"

lemma closest_replacements_set: "set (closest_replacements computer view n candidates j c) \<subseteq> set candidates"
proof
  fix x assume "x \<in> set (closest_replacements computer view n candidates j c)"
  then obtain m where "m \<in> set (List.map_filter (\<lambda>other_id. if other_id = j then None
      else map_option (\<lambda>other. neighbor_new other_id (computer c other)) (view other_id)) candidates)" "x = nbr_id m"
    by (auto simp: closest_replacements_def dest: in_set_takeD)
  then show "x \<in> set candidates" by (auto simp: map_filter_def split: if_splits)
qed

lemma edges_for_in_neighbor_ok:
  assumes "edges_ok L m" "j \<in> L" "set candidates \<subseteq> L"
  shows "edges_ok L (edges_for_in_neighbor computer view n candidates j m)"
    "dom (edges_for_in_neighbor computer view n candidates j m) = dom m \<union> {j. view j \<noteq> None} \<inter> {j}"
proof -
  have sub: "set (closest_replacements computer view n candidates j c) \<subseteq> L" for c
    using closest_replacements_set assms(3) by (rule order_trans)
  show "edges_ok L (edges_for_in_neighbor computer view n candidates j m)"
    using assms(1,2) sub by (auto simp: edges_ok_def edges_for_in_neighbor_def split: option.splits)
  show "dom (edges_for_in_neighbor computer view n candidates j m) = dom m \<union> {j. view j \<noteq> None} \<inter> {j}"
    by (auto simp: edges_for_in_neighbor_def split: option.splits)
qed

lemma edges_for_in_neighbors_ok:
  assumes "edges_ok L m" "set js \<subseteq> L" "set candidates \<subseteq> L"
  shows "edges_ok L (fold (edges_for_in_neighbor computer view n candidates) js m)
    \<and> dom (fold (edges_for_in_neighbor computer view n candidates) js m) = dom m \<union> {j \<in> set js. view j \<noteq> None}"
  using assms(1,2)
proof (induction js arbitrary: m)
  case (Cons j js)
  have j: "j \<in> L" "set js \<subseteq> L" using Cons.prems(2) by auto
  note e = edges_for_in_neighbor_ok [OF Cons.prems(1) j(1) assms(3), of computer view n]
  show ?case using Cons.IH [OF e(1) j(2)] e(2) by auto
qed simp

lemma push_edges_ok:
  assumes "edges_ok L m" "j \<in> L" "set sources \<subseteq> L"
  shows "edges_ok L (fold (push_edge j) sources m) \<and> dom m \<subseteq> dom (fold (push_edge j) sources m)"
  using assms(1,3)
proof (induction sources arbitrary: m)
  case (Cons x xs)
  have old: "es \<in> ran m \<Longrightarrow> set es \<subseteq> L" for es using Cons.prems(1) by (auto simp: edges_ok_def ran_def)
  have "edges_ok L (push_edge j x m)" using Cons.prems assms(2) old [OF ranI]
    by (cases "m x") (auto simp: edges_ok_def push_edge_def split: if_splits)
  moreover have "dom m \<subseteq> dom (push_edge j x m)" by (auto simp: push_edge_def)
  ultimately show ?case using Cons.IH [of "push_edge j x m"] Cons.prems by auto
qed simp

lemma edges_for_out_neighbors_ok:
  assumes "edges_ok L m" "set js \<subseteq> L" "set candidates \<subseteq> L"
  shows "edges_ok L (fold (edges_for_out_neighbor computer view n candidates) js m)
    \<and> dom m \<subseteq> dom (fold (edges_for_out_neighbor computer view n candidates) js m)"
  using assms(1,2)
proof (induction js arbitrary: m)
  case (Cons j js)
  let ?m = "edges_for_out_neighbor computer view n candidates j m"
  have "edges_ok L ?m \<and> dom m \<subseteq> dom ?m"
  proof (cases "view j")
    case None
    then show ?thesis using Cons.prems by (simp add: edges_for_out_neighbor_def)
  next
    case (Some c)
    have "set (closest_replacements computer view n candidates j c) \<subseteq> L"
      using closest_replacements_set assms(3) by (rule order_trans)
    then show ?thesis using push_edges_ok [OF Cons.prems(1), of j] Cons.prems(2) Some by (simp add: edges_for_out_neighbor_def)
  qed
  then show ?case using Cons.IH [of ?m] Cons.prems(2) by auto
qed simp

section \<open>Updating the neighbors\<close>

text \<open>A vertex whose list was updated: the old list without the deleted vectors and with the new edges, pruned if
  it became too long; it does not lead to a deleted vector any more.\<close>

definition relinked ::
  "config \<Rightarrow> 'i set \<Rightarrow> ('i, 'e, 'p) graph_ops \<Rightarrow> 'i set \<Rightarrow> 'i list \<Rightarrow> 'p \<Rightarrow> 'p \<Rightarrow> 'i \<Rightarrow> bool" where
  "relinked cfg V ops del targets p0 p j \<longleftrightarrow>
     (\<exists>old new stale. go_get ops p0 j = Inr old \<and> go_get ops p j = Inr new \<and> set new \<inter> del = {} \<and> pruned_from cfg V stale
       \<and> edge_outcome cfg j stale (merged_edges (Some del) targets old) new)"

context graph_update
begin

text \<open>The list in the scratch space is the one of before or a part of the merged list.\<close>

lemma prune_list_scratch:
  assumes "prunable cfg" "distinct ids" "prune_list cfg acc i ids force s = Some (r, s')"
  shows "ix_graph s' = ix_graph s" "set (ps_neighbors (ix_scratch s')) \<subseteq> set (ps_neighbors (ix_scratch s)) \<union> set ids"
proof -
  obtain r' sc ws where p: "robust_prune_list cfg acc i ids force (ix_scratch s) (ix_ws s) = Some (r', sc, ws)"
    "ps_neighbors sc = ps_neighbors (ix_scratch s) \<or> pruned_from cfg (set ids - {i}) (ps_neighbors sc)"
    by (rule robust_prune_list_spec [OF assms(1,2), of acc i force "ix_scratch s" "ix_ws s"])
  then have s': "s' = s\<lparr>ix_scratch := sc, ix_ws := ws\<rparr>" using assms(3) by (simp add: prune_list_def)
  show "ix_graph s' = ix_graph s" "set (ps_neighbors (ix_scratch s')) \<subseteq> set (ps_neighbors (ix_scratch s)) \<union> set ids"
    using p(2) unfolding s' by (auto simp: pruned_from_def)
qed

lemma set_scratch: "set_neighbors ops i ns s = Some (r, s') \<Longrightarrow> ix_scratch s' = ix_scratch s"
  "append_vector ops i ns s = Some (r, s') \<Longrightarrow> ix_scratch s' = ix_scratch s"
  by (auto simp: set_neighbors_def append_vector_def uthrow_def uret_def split: sum.splits)

lemma commit_edges_scratch:
  assumes "prunable cfg" "distinct all" "commit_edges cfg ops acc source did n all s = Some (r, s')"
  shows "set (ps_neighbors (ix_scratch s')) \<subseteq> set (ps_neighbors (ix_scratch s)) \<union> set all"
proof (cases "(n = 0 \<and> \<not> did) \<or> length all \<le> max_degree cfg")
  case True
  then have "ix_scratch s' = ix_scratch s" using assms(3) set_scratch
    by (auto simp: commit_edges_def uret_def split: if_splits option.splits)
  then show ?thesis by simp
next
  case False
  then have run: "ubind (prune_list cfg acc source all False) (set_neighbors ops source) s = Some (r, s')"
    using assms(3) by (auto simp: commit_edges_def)
  then obtain r1 s1 where p: "prune_list cfg acc source all False s = Some (r1, s1)" by (auto simp: ubind_def split: option.splits)
  note sc = prune_list_scratch(2) [OF assms(1,2) p]
  show ?thesis
  proof (cases r1)
    case (Inl e)
    then show ?thesis using run p sc by (simp add: ubind_def)
  next
    case (Inr "ns")
    then have "set_neighbors ops source ns s1 = Some (r, s')" using run p by (simp add: ubind_def)
    from set_scratch(1) [OF this] show ?thesis using sc by simp
  qed
qed

lemma add_edge_scratch:
  assumes "prunable cfg" "go_get ops (ix_graph s) source = Inr old" "distinct (merged_edges to_remove targets old)"
    and "add_edge_and_prune cfg ops acc targets source to_remove s = Some (r, s')"
  shows "set (ps_neighbors (ix_scratch s')) \<subseteq> set (ps_neighbors (ix_scratch s)) \<union> set (merged_edges to_remove targets old)"
proof (cases acc)
  case (Inl e)
  then show ?thesis using assms(4) by (simp add: add_edge_and_prune_def ubind_def uthrow_def)
next
  case (Inr accessor)
  have kept: "(case to_remove of None \<Rightarrow> old | Some del \<Rightarrow> al_retain (\<lambda>i. i \<notin> del) old) = kept_edges to_remove old"
    by (cases to_remove) (simp_all add: kept_edges_def al_retain_def)
  obtain did n where "commit_edges cfg ops accessor source did n (merged_edges to_remove targets old) s = Some (r, s')"
    using assms(2,4) Inr
    by (auto simp: add_edge_and_prune_def ubind_def get_neighbors_def uret_def ulift_def Let_def kept extend_from_slice_eq
        merged_edges_def [symmetric])
  then show ?thesis by (rule commit_edges_scratch [OF assms(1,3)])
qed

text \<open>The vertices of \<open>D\<close> were updated, nothing in the scratch space is deleted.\<close>

definition cleaned :: "config \<Rightarrow> 'i set \<Rightarrow> 'i set \<Rightarrow> 'p \<Rightarrow> ('i \<Rightarrow> 'i list) \<Rightarrow> 'i set \<Rightarrow> ('i, 'w, 'p) istate \<Rightarrow> bool" where
  "cleaned cfg V del p0 tg D s \<longleftrightarrow> sinv cfg V p0 D s \<and> set (ps_neighbors (ix_scratch s)) \<inter> del = {}
     \<and> (\<forall>j\<in>D. relinked cfg V ops del (tg j) p0 (ix_graph s) j)"

lemma clean_one_triple:
  fixes pacc :: "'e + ('i, 'u, 'w, 'e) prune_accessor"
  assumes cfg: "config_ok cfg" and j: "j \<in> V" "j \<notin> D" "set (tg j) \<subseteq> V - del"
  shows "utriple (cleaned cfg V del p0 tg D) (add_edge_and_prune cfg ops pacc (tg j) j (Some del))
    (\<lambda>_. cleaned cfg V del p0 tg (insert j D)) (\<lambda>e s. sinv cfg V p0 D s \<and> (\<forall>f. e \<noteq> Panic f))"
proof (rule utriple_pre, rule utripleI, clarify)
  fix s0 :: "('i, 'w, 'p) istate" assume s0: "cleaned cfg V del p0 tg D s0"
  then have s1: "sinv cfg V p0 D s0" by (simp add: cleaned_def)
  have T: "set (tg j) \<subseteq> V" using j(3) by blast
  have rest: "s0 = s0 \<and> sinv cfg V (ix_graph s0) {} s0" using sinv_start [OF s1] by simp
  from utripleD [OF add_edge_triple [OF cfg j(1) T, of s0 "ix_graph s0" "{}" pacc "Some del"] rest]
  obtain r s where run: "add_edge_and_prune cfg ops pacc (tg j) j (Some del) s0 = Some (r, s)"
    and r: "case r of Inl e \<Rightarrow> sinv cfg V (ix_graph s0) {} s \<and> ix_graph s = ix_graph s0 \<and> (\<forall>f. e \<noteq> Panic f)
      | Inr _ \<Rightarrow> sinv cfg V (ix_graph s0) {j} s \<and> (\<exists>old new. go_get ops (ix_graph s0) j = Inr old
      \<and> go_get ops (ix_graph s) j = Inr new
      \<and> edge_outcome cfg j (ps_neighbors (ix_scratch s0)) (merged_edges (Some del) (tg j) old) new)" by blast
  show "case add_edge_and_prune cfg ops pacc (tg j) j (Some del) s0 of None \<Rightarrow> False
    | Some (Inl e, s') \<Rightarrow> sinv cfg V p0 D s' \<and> (\<forall>f. e \<noteq> Panic f) | Some (Inr x, s') \<Rightarrow> cleaned cfg V del p0 tg (insert j D) s'"
  proof (cases r)
    case (Inl e)
    then show ?thesis using run r s1 by (auto simp: sinv_def)
  next
    case (Inr u)
    then obtain old new where on: "sinv cfg V (ix_graph s0) {j} s" "go_get ops (ix_graph s0) j = Inr old" "go_get ops (ix_graph s) j = Inr new"
      "edge_outcome cfg j (ps_neighbors (ix_scratch s0)) (merged_edges (Some del) (tg j) old) new" using r by auto
    have old: "go_get ops p0 j = Inr old" using s1 j(2) on(2) by (auto simp: sinv_def unchanged_def)
    let ?all = "merged_edges (Some del) (tg j) old"
    have "good_list cfg V old" using s1 j(1) on(2) by (auto simp: sinv_def graph_inv_def)
    then have all: "distinct ?all" using merged_edges_props(1) [of old V "tg j"] T by (simp add: good_list_def)
    have clean: "set ?all \<inter> del = {}" using j(3) by (auto simp: merged_edges_def kept_edges_def set_fresh)
    have st: "set (ps_neighbors (ix_scratch s0)) \<inter> del = {}" "pruned_from cfg V (ps_neighbors (ix_scratch s0))"
      using s0 s1 by (auto simp: cleaned_def sinv_def)
    have "prunable cfg" using cfg by (simp add: config_ok_def)
    note scr = add_edge_scratch [OF this on(2) all run]
    have "set new \<subseteq> set ?all \<or> new = ps_neighbors (ix_scratch s0)"
      using on(4) by (auto simp: edge_outcome_def pruned_from_def split: if_splits)
    then have "set new \<inter> del = {}" using clean st(1) by blast
    then have "relinked cfg V ops del (tg j) p0 (ix_graph s) j" using old on(3,4) st(2) unfolding relinked_def by blast
    moreover have "relinked cfg V ops del (tg k) p0 (ix_graph s) k" if "k \<in> D" for k
    proof -
      have "go_get ops (ix_graph s) k = go_get ops (ix_graph s0) k" using on(1) j(2) that by (auto simp: sinv_def unchanged_def)
      then show ?thesis using s0 that unfolding cleaned_def relinked_def by simp
    qed
    moreover have "sinv cfg V p0 ({j} \<union> D) s" using sinv_trans [OF on(1), of D p0] s1 by (simp add: sinv_def)
    moreover have "set (ps_neighbors (ix_scratch s)) \<inter> del = {}" using scr clean st(1) by blast
    ultimately show ?thesis using run Inr by (simp add: cleaned_def)
  qed
qed

lemma clean_items_triple:
  fixes pacc :: "'e + ('i, 'u, 'w, 'e) prune_accessor"
  assumes cfg: "config_ok cfg" and "distinct (map fst items)" "fst ` set items \<inter> D = {}"
    and "\<forall>(j, es)\<in>set items. es = tg j \<and> j \<in> V \<and> set es \<subseteq> V - del"
  shows "utriple (cleaned cfg V del p0 tg D) (ufor items (\<lambda>(j, es). add_edge_and_prune cfg ops pacc es j (Some del)))
    (\<lambda>_. cleaned cfg V del p0 tg (D \<union> fst ` set items))
    (\<lambda>e s. (\<exists>D' \<subseteq> D \<union> fst ` set items. sinv cfg V p0 D' s) \<and> (\<forall>f. e \<noteq> Panic f))"
  using assms(2-4)
proof (induction items arbitrary: D)
  case Nil
  then show ?case by (auto intro!: utriple_ret)
next
  case (Cons it items)
  obtain j es where it: "it = (j, es)" by fastforce
  let ?E = "\<lambda>e s. (\<exists>D' \<subseteq> D \<union> fst ` set (it # items). sinv cfg V p0 D' s) \<and> (\<forall>f. e \<noteq> Panic f)"
  have j: "j \<in> V" "j \<notin> D" "set (tg j) \<subseteq> V - del" "es = tg j" using Cons.prems it by auto
  have "utriple (cleaned cfg V del p0 tg D) (add_edge_and_prune cfg ops pacc es j (Some del)) (\<lambda>_. cleaned cfg V del p0 tg (insert j D)) ?E"
    unfolding j(4) by (rule utriple_weaken [OF clean_one_triple [where tg = tg, OF cfg j(1-3)]]) auto
  moreover have "utriple (cleaned cfg V del p0 tg (insert j D)) (ufor items (\<lambda>(j, es). add_edge_and_prune cfg ops pacc es j (Some del)))
    (\<lambda>_. cleaned cfg V del p0 tg (D \<union> fst ` set (it # items))) ?E"
    by (rule utriple_weaken [OF Cons.IH [of "insert j D"]]) (use Cons.prems it in auto)
  ultimately show ?case unfolding ufor.simps it prod.case by (rule utriple_bind)
qed

end


section \<open>The whole deletion\<close>

text \<open>A working set that has every vector it was asked for.\<close>

definition fills :: "('i, 'u, 'w, 'e) prune_accessor \<Rightarrow> bool" where
  "fills acc \<longleftrightarrow> (\<forall>w ids w' view. pa_fill acc w ids = Inr (w', view) \<longrightarrow> (\<forall>i\<in>set ids. view i \<noteq> None))"

definition deleted_from ::
  "config \<Rightarrow> 'i set \<Rightarrow> ('i, 'e, 'p) graph_ops \<Rightarrow> ('i, 'e) statuses \<Rightarrow> 'i \<Rightarrow> 'p \<Rightarrow> 'p \<Rightarrow> bool" where
  "deleted_from cfg V ops status i p0 p \<longleftrightarrow>
     go_get ops p i = Inr []
     \<and> (\<exists>D tg. D \<subseteq> live V status \<and> unchanged ops (insert i D) p0 p
         \<and> (\<forall>j\<in>D. set (tg j) \<subseteq> live V status \<and> relinked cfg V ops {i} (tg j) p0 p j))"

context graph_update
begin

lemma candidates_run:
  fixes strategy :: "('i, 'v, 'u, 'w, 'e, 'a, 'p) delete_strategy" and s :: "('i, 'w, 'p) istate"
  assumes s: "sinv cfg V p0 S s" and V: "finite V" "i \<in> V" and rd: "delete_reads ops V (ix_graph s) strategy"
    and order: "\<And>xs. set (set_order xs) = set xs"
  shows "(\<exists>e. delete_candidates cfg ops strategy set_order how i s = Some (Inl (Other e), s))
    \<or> (\<exists>w. delete_candidates cfg ops strategy set_order how i s = Some (Inr w, s)
        \<and> work_ok V (ds_status strategy) how i (ix_graph s) w)"
proof (cases how)
  case (VisitedAndTopK k l)
  then show ?thesis using visited_run [OF s V(1) rd, of i l k] by (simp add: delete_candidates_def)
next
  case TwoHopAndOneHop
  then show ?thesis using twohop_run [OF s V(2) order, of "ds_status strategy"] by (simp add: delete_candidates_def)
next
  case OneHop
  then show ?thesis using onehop_run [OF s V(2), of "ds_status strategy"] by (simp add: delete_candidates_def)
qed

lemma inner_run:
  fixes strategy :: "('i, 'v, 'u, 'w, 'e, 'a, 'p) delete_strategy" and s :: "('i, 'w, 'p) istate"
  assumes s: "sinv cfg V p0 S s" and V: "finite V" "i \<in> V" and id: "escalate (ds_internal_id strategy) = Inr i"
    and rd: "delete_reads ops V (ix_graph s) strategy" and order: "\<And>xs. set (set_order xs) = set xs"
  shows "(\<exists>e. inplace_delete_inner cfg ops strategy set_order num how s = Some (Inl (Other e), s))
    \<or> (\<exists>m. inplace_delete_inner cfg ops strategy set_order num how s = Some (Inr m, s) \<and> edges_ok (live V (ds_status strategy)) m
        \<and> ((\<forall>k l. how \<noteq> VisitedAndTopK k l) \<and> (\<forall>acc. ds_prune_accessor strategy = Inr acc \<longrightarrow> fills acc) \<longrightarrow>
           (\<forall>ns. go_get ops (ix_graph s) i = Inr ns \<longrightarrow>
             {j \<in> set ns. j \<in> live V (ds_status strategy) \<and> points_at ops (ix_graph s) i j} \<subseteq> dom m)))"
    (is "?err \<or> ?ok")
proof -
  let ?st = "ds_status strategy" let ?L = "live V ?st" let ?run = "inplace_delete_inner cfg ops strategy set_order num how s"
  note def = inplace_delete_inner_def
  obtain ns where "ns": "go_get ops (ix_graph s) i = Inr ns" "good_list cfg V ns"
    "get_undeleted_neighbors ops ?st i s = Some (Inr (filter (\<lambda>j. \<not> counts_deleted ?st j) ns, filter (counts_deleted ?st) ns), s)"
    by (rule run_partition [OF s V(2), of ?st])
  let ?adj = "filter (\<lambda>j. \<not> counts_deleted ?st j) ns"
  have adj: "set ?adj \<subseteq> ?L" using "ns"(2) by (auto simp: good_list_def live_def)
  consider (err) ?err | (go) u x w acc computer where "escalate (ds_delete strategy) = Inr u" "ds_search_accessor strategy (ix_graph s) = Inr x"
      "delete_candidates cfg ops strategy set_order how i s = Some (Inr w, s)" "work_ok V ?st how i (ix_graph s) w"
      "ds_prune_accessor strategy = Inr acc" "pa_computer acc = Inr computer"
  proof (cases "escalate (ds_delete strategy)")
    case d: (Inr u)
    show thesis
    proof (cases "ds_search_accessor strategy (ix_graph s)")
      case a: (Inr x)
      from candidates_run [OF s V rd order, of how] show thesis
      proof (elim disjE exE conjE)
        fix e assume "delete_candidates cfg ops strategy set_order how i s = Some (Inl (Other e), s)"
        then show thesis using d a id by (intro err) (auto simp: def ubind_def uret_def)
      next
        fix w assume w: "delete_candidates cfg ops strategy set_order how i s = Some (Inr w, s)" "work_ok V ?st how i (ix_graph s) w"
        show thesis
        proof (cases "ds_prune_accessor strategy")
          case p: (Inr acc)
          show thesis
          proof (cases "pa_computer acc")
            case (Inr computer)
            then show thesis using that(2) d a w p by blast
          qed (use that(1) d a id w p "ns"(3) in \<open>auto simp: def ubind_def uret_def uthrow_def\<close>)
        qed (use that(1) d a id w in \<open>auto simp: def ubind_def uret_def uthrow_def\<close>)
      qed
    qed (use that(1) d id in \<open>auto simp: def ubind_def uret_def uthrow_def\<close>)
  qed (use that(1) id in \<open>auto simp: def ubind_def uret_def uthrow_def\<close>)
  then show ?thesis
  proof cases
    case err
    then show ?thesis ..
  next
    case go
    let ?ids = "replace_candidates w @ in_neighbors w @ ?adj"
    have run: "?run = ubind (ulift (pa_fill acc (ds_working_set strategy (max_occlusion_size cfg)) ?ids)) (\<lambda>(_, view).
       uret (fold (edges_for_out_neighbor computer view num (replace_candidates w)) ?adj
         (fold (edges_for_in_neighbor computer view num (replace_candidates w)) (in_neighbors w) Map.empty))) s"
      by (simp add: def ubind_def go id "ns"(3) uret_def)
    show ?thesis
    proof (cases "pa_fill acc (ds_working_set strategy (max_occlusion_size cfg)) ?ids")
      case (Inl e)
      then show ?thesis unfolding run by (simp add: ubind_def uthrow_def)
    next
      case (Inr wv)
      obtain w' view where wv: "wv = (w', view)" by fastforce
      let ?m1 = "fold (edges_for_in_neighbor computer view num (replace_candidates w)) (in_neighbors w) Map.empty"
      let ?m = "fold (edges_for_out_neighbor computer view num (replace_candidates w)) ?adj ?m1"
      have wk: "set (replace_candidates w) \<subseteq> ?L" "set (in_neighbors w) \<subseteq> ?L" using go(4) by (auto simp: work_ok_def)
      have "edges_ok ?L Map.empty" by (simp add: edges_ok_def)
      note m1 = edges_for_in_neighbors_ok [OF this wk(2,1), of computer view num]
      note m = edges_for_out_neighbors_ok [OF conjunct1 [OF m1] adj wk(1), of computer view num]
      have r: "?run = Some (Inr ?m, s)" unfolding run by (simp add: Inr wv uret_def)
      moreover have "{j \<in> set ns. j \<in> ?L \<and> points_at ops (ix_graph s) i j} \<subseteq> dom ?m"
        if hop: "\<forall>k l. how \<noteq> VisitedAndTopK k l" and f: "\<forall>acc. ds_prune_accessor strategy = Inr acc \<longrightarrow> fills acc"
      proof -
        have "view j \<noteq> None" if "j \<in> set (in_neighbors w)" for j
        proof -
          have "j \<in> set ?ids" using that by simp
          then show ?thesis using f go(5) Inr wv unfolding fills_def by blast
        qed
        then have "set (in_neighbors w) \<subseteq> dom ?m" using m1 m by auto
        moreover have "{j \<in> set ns. j \<in> ?L \<and> points_at ops (ix_graph s) i j} \<subseteq> set (in_neighbors w)"
          using go(4) hop "ns"(1) unfolding work_ok_def by blast
        ultimately show ?thesis by blast
      qed
      then have "\<forall>ns'. go_get ops (ix_graph s) i = Inr ns' \<longrightarrow> {j \<in> set ns'. j \<in> ?L \<and> points_at ops (ix_graph s) i j} \<subseteq> dom ?m"
        if "(\<forall>k l. how \<noteq> VisitedAndTopK k l) \<and> (\<forall>acc. ds_prune_accessor strategy = Inr acc \<longrightarrow> fills acc)"
        using that "ns"(1) by auto
      ultimately show ?thesis using m by blast
    qed
  qed
qed

lemma inplace_delete_run:
  fixes strategy :: "('i, 'v, 'u, 'w, 'e, 'a, 'p) delete_strategy" and s :: "('i, 'w, 'p) istate"
  assumes cfg: "config_ok cfg" and V: "finite V" and s: "sinv cfg V (ix_graph s) {} s"
    and id: "\<And>i. ds_internal_id strategy = Inr i \<Longrightarrow> i \<in> V \<and> counts_deleted (ds_status strategy) i"
    and rd: "delete_reads ops V (ix_graph s) strategy" and set_order: "\<And>xs. set (set_order xs) = set xs"
    and map_order: "map_iteration map_order"
  shows "\<exists>r s'. inplace_delete cfg ops strategy map_order set_order num how s = Some (r, s')
    \<and> ginv cfg V (ix_graph s') \<and> (\<forall>f. r \<noteq> Inl (Panic f))
    \<and> (r = Inr () \<longrightarrow> (\<exists>i. ds_internal_id strategy = Inr i \<and> deleted_from cfg V ops (ds_status strategy) i (ix_graph s) (ix_graph s')
        \<and> ((\<forall>k l. how \<noteq> VisitedAndTopK k l) \<and> (\<forall>acc. ds_prune_accessor strategy = Inr acc \<longrightarrow> fills acc) \<longrightarrow>
           (\<forall>ns j. go_get ops (ix_graph s) i = Inr ns \<longrightarrow> j \<in> set ns \<longrightarrow> j \<in> live V (ds_status strategy) \<longrightarrow>
             \<not> points_at ops (ix_graph s') i j))))"
proof (cases "escalate (ds_internal_id strategy)")
  case (Inl e)
  then show ?thesis using s by (simp add: inplace_delete_def ubind_def uthrow_def sinv_def)
next
  case esc: (Inr i)
  let ?p = "ix_graph s" let ?st = "ds_status strategy" let ?L = "live V ?st"
  have el: "ds_internal_id strategy = Inr i" using esc by (auto simp: escalate_def split: sum.splits ranked_error.splits)
  then have i: "i \<in> V" "i \<notin> ?L" using id by (auto simp: live_def)
  from inner_run [OF s V i(1) esc rd set_order, of num how] show ?thesis
  proof (elim disjE exE conjE)
    fix e assume "inplace_delete_inner cfg ops strategy set_order num how s = Some (Inl (Other e), s)"
    then show ?thesis using s esc by (auto simp: inplace_delete_def ubind_def uret_def sinv_def)
  next
    fix m assume inner: "inplace_delete_inner cfg ops strategy set_order num how s = Some (Inr m, s)" and ok: "edges_ok ?L m"
      and full: "(\<forall>k l. how \<noteq> VisitedAndTopK k l) \<and> (\<forall>acc. ds_prune_accessor strategy = Inr acc \<longrightarrow> fills acc) \<longrightarrow>
           (\<forall>ns. go_get ops ?p i = Inr ns \<longrightarrow> {j \<in> set ns. j \<in> ?L \<and> points_at ops ?p i j} \<subseteq> dom m)"
    let ?s = "fresh_scratch (ds_working_set strategy (max_occlusion_size cfg)) s" let ?tg = "\<lambda>j. the (m j)"
    let ?items = "map_order m"
    have mo: "distinct (map fst ?items)" "map_of ?items = m" using map_order ok by (auto simp: edges_ok_def map_iteration_def)
    have keys: "fst ` set ?items = dom m" using dom_map_of_conv_image_fst [of ?items] mo(2) by simp
    have items: "\<forall>(j, es)\<in>set ?items. es = ?tg j \<and> j \<in> V \<and> set es \<subseteq> V - {i}"
    proof clarify
      fix j es assume "(j, es) \<in> set ?items"
      then have "m j = Some es" using map_of_is_SomeI [OF mo(1)] mo(2) by simp
      then show "es = ?tg j \<and> j \<in> V \<and> set es \<subseteq> V - {i}" using ok i by (auto simp: edges_ok_def live_def)
    qed
    have c0: "cleaned cfg V {i} ?p ?tg {} ?s" using s
      by (simp add: cleaned_def sinv_def fresh_scratch_def prune_scratch_new_def al_new_def pruned_from_def)
    have disj: "fst ` set ?items \<inter> {} = {}" by simp
    from utripleD [OF clean_items_triple [where tg = ?tg, OF cfg mo(1) disj items, of ?p "ds_prune_accessor strategy"] c0, unfolded Un_empty_left keys]
    obtain r1 s1 where loop: "ufor ?items (\<lambda>(j, es). add_edge_and_prune cfg ops (ds_prune_accessor strategy) es j (Some {i})) ?s = Some (r1, s1)"
      and r1: "case r1 of Inl e \<Rightarrow> (\<exists>D' \<subseteq> dom m. sinv cfg V ?p D' s1) \<and> (\<forall>f. e \<noteq> Panic f) | Inr _ \<Rightarrow> cleaned cfg V {i} ?p ?tg (dom m) s1" by blast
    have run: "inplace_delete cfg ops strategy map_order set_order num how s = ubind (\<lambda>s. ufor ?items (\<lambda>(neighbor, edges).
              add_edge_and_prune cfg ops (ds_prune_accessor strategy) edges neighbor (Some {i}))
              (fresh_scratch (ds_working_set strategy (max_occlusion_size cfg)) s)) (\<lambda>_.
        ubind (ulift (ds_prune_accessor strategy)) (\<lambda>_. drop_adj_list ops i)) s"
      by (simp add: inplace_delete_def esc ubind_def inner uret_def)
    show ?thesis
    proof (cases r1)
      case (Inl e)
      then show ?thesis using run loop r1 by (auto simp: ubind_def sinv_def)
    next
      case (Inr u)
      then have c1: "cleaned cfg V {i} ?p ?tg (dom m) s1" using r1 by simp
      then have sv: "sinv cfg V ?p (dom m) s1" by (simp add: cleaned_def)
      show ?thesis
      proof (cases "ds_prune_accessor strategy")
        case pe: (Inl e)
        then show ?thesis using run loop Inr sv by (auto simp: ubind_def uthrow_def sinv_def)
      next
        case pa: (Inr acc)
        have "good_list cfg V []" by (simp add: good_list_def)
        from run_set [OF sv i(1) this] obtain s2 where set2: "set_neighbors ops i [] s1 = Some (Inr (), s2)"
          "sinv cfg V ?p (insert i (dom m)) s2" "go_get ops (ix_graph s2) i = Inr []" by metis
        have "sinv cfg V (ix_graph s1) {} s1" using sinv_start [OF sv] .
        from run_set [OF this i(1) \<open>good_list cfg V []\<close>] set2(1) have same: "unchanged ops {i} (ix_graph s1) (ix_graph s2)"
          by (auto simp: sinv_def)
        have fin: "inplace_delete cfg ops strategy map_order set_order num how s = Some (Inr (), s2)"
          using run loop Inr set2(1) pa by (simp add: ubind_def drop_adj_list_def)
        have dom: "dom m \<subseteq> ?L" using ok by (auto simp: edges_ok_def)
        have rel: "set (?tg j) \<subseteq> ?L \<and> relinked cfg V ops {i} (?tg j) ?p (ix_graph s2) j" if j: "j \<in> dom m" for j
        proof -
          have "j \<noteq> i" using j dom i(2) by blast
          then have "go_get ops (ix_graph s2) j = go_get ops (ix_graph s1) j" using same by (simp add: unchanged_def)
          then have "relinked cfg V ops {i} (?tg j) ?p (ix_graph s2) j" using c1 j unfolding cleaned_def relinked_def by simp
          moreover obtain es where es: "m j = Some es" using j by blast
          then have "set es \<subseteq> ?L" using ok unfolding edges_ok_def by blast
          ultimately show ?thesis using es by simp
        qed
        have del: "deleted_from cfg V ops ?st i ?p (ix_graph s2)"
          unfolding deleted_from_def using set2(2,3) dom rel by (auto simp: sinv_def intro!: exI [of _ "dom m"] exI [of _ ?tg])
        have gone: "\<not> points_at ops (ix_graph s2) i j" if j: "go_get ops ?p i = Inr ns" "j \<in> set ns" "j \<in> ?L"
          and f: "(\<forall>k l. how \<noteq> VisitedAndTopK k l) \<and> (\<forall>acc. ds_prune_accessor strategy = Inr acc \<longrightarrow> fills acc)" for j "ns"
        proof (cases "j \<in> dom m")
          case True
          then show ?thesis using rel [OF True] by (auto simp: relinked_def points_at_def)
        next
          case False
          then have "\<not> points_at ops ?p i j" using full f j by blast
          moreover have "go_get ops (ix_graph s2) j = go_get ops ?p j"
            using set2(2) False j(3) i(2) by (auto simp: sinv_def unchanged_def)
          ultimately show ?thesis by (simp add: points_at_def)
        qed
        show ?thesis using fin set2(2) el del gone by (auto simp: sinv_def)
      qed
    qed
  qed
qed

end


section \<open>Properties\<close>


definition sample_delete :: "(32 word, int, int, unit, fault, unit, neighbor_provider) delete_strategy" where
  "sample_delete = \<lparr>ds_internal_id = Inr 2, ds_delete = Inr (), ds_status = (\<lambda>i. Inr (i = 2)),
     ds_search_accessor = is_search_accessor sample_strategy, ds_computer = is_computer sample_strategy,
     ds_starting_points = Inr [0], ds_post_process = (\<lambda>c l. Inr (take l (filter (\<lambda>n. nbr_id n \<noteq> 2) c))),
     ds_prune_accessor = is_prune_accessor sample_strategy, ds_working_set = (\<lambda>_. ())\<rparr>"


end
