(* ===== verification/Graph_Analysis.thy ===== *)
theory Graph_Analysis
  imports Index_Update
begin

text \<open>
  The two analyses of \<open>diskann/src/graph/index.rs\<close>: the number of vertices that can be reached from the
  start points, and the degrees of the graph.  Both only read the graph; a loop that does not end is \<open>None\<close>.
\<close>

section \<open>Model\<close>

partial_function (option) reach_loop ::
  "('i \<Rightarrow> 'e + 'i adjacency_list) \<Rightarrow> 'i set \<Rightarrow> 'i list \<Rightarrow> ('e + 'i set) option" where
  "reach_loop get expanded_nodes queue =
     (case queue of
        [] \<Rightarrow> Some (Inr expanded_nodes)
      | i # rest \<Rightarrow>
          if i \<in> expanded_nodes then reach_loop get expanded_nodes rest
          else (case get i of
                  Inl e \<Rightarrow> Some (Inl e)
                | Inr neighbors \<Rightarrow> reach_loop get (insert i expanded_nodes) (rest @ neighbors)))"

declare reach_loop.simps [code]

definition count_reachable_nodes :: "('i, 'e, 'p) graph_ops \<Rightarrow> 'p \<Rightarrow> 'i list \<Rightarrow> ('e + nat) option" where
  "count_reachable_nodes ops p start_points =
     map_option (map_sum id card) (reach_loop (go_get ops p) {} start_points)"

datatype 'e stats_error = StatsError 'e | TryFromIntError

record degree_stats =
  stats_max_degree :: nat
  avg_degree :: f32
  stats_min_degree :: nat
  cnt_less_than_two :: nat

definition u32_try_from :: "nat \<Rightarrow> 'e stats_error + nat" where
  "u32_try_from n = (if n < 2 ^ 32 then Inr n else Inl TryFromIntError)"

record degree_acc =
  da_max :: nat
  da_min :: nat
  da_total :: nat
  da_less :: nat
  da_live :: nat

definition degree_step :: "('i \<Rightarrow> 'e + 'i adjacency_list) \<Rightarrow> 'i \<Rightarrow> degree_acc \<Rightarrow> 'e stats_error + degree_acc" where
  "degree_step get i acc =
     (case get i of
        Inl e \<Rightarrow> Inl (StatsError e)
      | Inr neighbors \<Rightarrow>
          let pool_size = length neighbors in
          Inr \<lparr>da_max = max (da_max acc) pool_size, da_min = min (da_min acc) pool_size,
               da_total = da_total acc + pool_size,
               da_less = (if pool_size < 2 then da_less acc + 1 else da_less acc), da_live = da_live acc + 1\<rparr>)"

definition get_degree_stats :: "('i, 'e, 'p) graph_ops \<Rightarrow> 'p \<Rightarrow> 'i list \<Rightarrow> 'e stats_error + degree_stats" where
  "get_degree_stats ops p ids =
     rbind (rfold (degree_step (go_get ops p)) ids
              \<lparr>da_max = 0, da_min = 2 ^ 64 - 1, da_total = 0, da_less = 0, da_live = 0\<rparr>) (\<lambda>acc.
     rbind (u32_try_from (da_max acc)) (\<lambda>mx.
     let avg = f32_div (f32_of_nat (da_total acc)) (f32_of_nat (da_live acc)) in
     rbind (u32_try_from (da_min acc)) (\<lambda>mn.
     Inr \<lparr>stats_max_degree = mx, avg_degree = avg, stats_min_degree = mn, cnt_less_than_two = da_less acc\<rparr>)))"

section \<open>Reachability\<close>

definition edge :: "('i \<Rightarrow> 'e + 'i adjacency_list) \<Rightarrow> 'i \<Rightarrow> 'i \<Rightarrow> bool" where
  "edge get i j \<longleftrightarrow> (\<exists>ns. get i = Inr ns \<and> j \<in> set ns)"

definition reachable_from :: "('i \<Rightarrow> 'e + 'i adjacency_list) \<Rightarrow> 'i list \<Rightarrow> 'i set" where
  "reachable_from get start = {j. \<exists>i\<in>set start. (edge get)\<^sup>*\<^sup>* i j}"

lemma reachable_closed:
  assumes "set start \<subseteq> X" "\<And>i j. i \<in> X \<Longrightarrow> edge get i j \<Longrightarrow> j \<in> X"
  shows "reachable_from get start \<subseteq> X"
proof -
  have "(edge get)\<^sup>*\<^sup>* i j \<Longrightarrow> i \<in> X \<Longrightarrow> j \<in> X" for i j
    by (induction rule: rtranclp_induct) (auto intro: assms(2))
  then show ?thesis using assms(1) by (auto simp: reachable_from_def)
qed

lemma reachable_step: "i \<in> reachable_from get start \<Longrightarrow> edge get i j \<Longrightarrow> j \<in> reachable_from get start"
  unfolding reachable_from_def by (blast intro: rtranclp.rtrancl_into_rtrancl)

text \<open>The loop expands every vertex of \<open>V\<close> at most once; what it has expanded leads to what is expanded or queued.\<close>

lemma reach_loop_spec:
  assumes V: "finite V" "\<And>i. i \<in> V \<Longrightarrow> \<exists>ns. get i = Inr ns \<and> set ns \<subseteq> V"
    and "X \<subseteq> V" "set q \<subseteq> V" "X \<union> set q \<subseteq> reachable_from get start" "set start \<subseteq> X \<union> set q"
    and "\<And>i j. i \<in> X \<Longrightarrow> edge get i j \<Longrightarrow> j \<in> X \<union> set q"
  shows "reach_loop get X q = Some (Inr (reachable_from get start))"
  using assms(3-7)
proof (induction "card (V - X)" arbitrary: X q rule: less_induct)
  case less
  note outer = less.hyps
  show ?case using less.prems
  proof (induction q)
    case Nil
    then have "X = reachable_from get start" using reachable_closed [of start X get] by auto
    then show ?case by (subst reach_loop.simps) simp
  next
    case (Cons i q)
    show ?case
    proof (cases "i \<in> X")
      case True
      have "reach_loop get X q = Some (Inr (reachable_from get start))"
        using Cons.prems True by (intro Cons.IH) (auto simp: insert_absorb)
      then show ?thesis using True by (subst reach_loop.simps) simp
    next
      case False
      have i: "i \<in> V" "i \<in> reachable_from get start" using Cons.prems by auto
      obtain ns where "ns": "get i = Inr ns" "set ns \<subseteq> V" using V(2) [OF i(1)] by blast
      have edge: "edge get i j \<longleftrightarrow> j \<in> set ns" for j using "ns"(1) by (simp add: edge_def)
      have "card (V - insert i X) < card (V - X)" using V(1) i(1) False by (intro psubset_card_mono) auto
      then have "reach_loop get (insert i X) (q @ ns) = Some (Inr (reachable_from get start))"
      proof (rule outer)
        show "insert i X \<union> set (q @ ns) \<subseteq> reachable_from get start"
          using Cons.prems(3) i(2) reachable_step [OF i(2)] edge by auto
        fix k j assume "k \<in> insert i X" "edge get k j"
        then show "j \<in> insert i X \<union> set (q @ ns)" using Cons.prems(5) [of k j] edge by auto
      qed (use Cons.prems i "ns" in auto)
      then show ?thesis using False "ns"(1) by (subst reach_loop.simps) simp
    qed
  qed
qed

section \<open>Degrees\<close>

definition degrees :: "('i \<Rightarrow> 'e + 'i adjacency_list) \<Rightarrow> 'i list \<Rightarrow> nat list" where
  "degrees get ids = map (\<lambda>i. case get i of Inr ns \<Rightarrow> length ns | Inl _ \<Rightarrow> 0) ids"

lemma degree_fold:
  assumes "\<And>i. i \<in> set ids \<Longrightarrow> \<exists>ns. get i = Inr ns"
  shows "rfold (degree_step get) ids acc = Inr \<lparr>da_max = fold max (degrees get ids) (da_max acc),
    da_min = fold min (degrees get ids) (da_min acc), da_total = da_total acc + sum_list (degrees get ids),
    da_less = da_less acc + length (filter (\<lambda>d. d < 2) (degrees get ids)), da_live = da_live acc + length ids\<rparr>"
  using assms
proof (induction ids arbitrary: acc)
  case Nil
  then show ?case by (simp add: degrees_def)
next
  case (Cons i ids)
  obtain ns where "ns": "get i = Inr ns" using Cons.prems by auto
  then show ?case using Cons by (simp add: degree_step_def Let_def degrees_def max.commute min.commute)
qed


lemma fold_max_Max: "ds \<noteq> [] \<Longrightarrow> fold max ds 0 = Max (set (ds :: nat list))"
  using Max.set_eq_fold [of 0 ds] by (simp add: Max_insert)

lemma fold_min_Min:
  assumes "ds \<noteq> []" "\<And>d. d \<in> set ds \<Longrightarrow> d \<le> (b :: nat)"
  shows "fold min ds b = Min (set ds)"
proof -
  have "Min (set ds) \<in> set ds" using assms(1) by (intro Min_in) auto
  then have "Min (set ds) \<le> b" by (rule assms(2))
  then show ?thesis using Min.set_eq_fold [of b ds] assms(1) by (simp add: Min_insert min_absorb2)
qed

section \<open>Properties\<close>

text \<open>C25: on a well-formed graph, counting the reachable vertices ends and returns the number of vertices that a path
  of edges connects with one of the start points.\<close>

theorem count_reachable_nodes_correct:
  assumes "index_inv cfg V s" "set start_points \<subseteq> V"
  shows "count_reachable_nodes na_ops (ix_graph s) start_points
    = Some (Inr (card (reachable_from (na_get_neighbors (ix_graph s)) start_points)))"
proof -
  let ?get = "na_get_neighbors (ix_graph s)"
  have inv: "ix.ginv cfg V (ix_graph s)" using assms(1) by (simp add: index_inv_def)
  have nb: "\<exists>ns. ?get i = Inr ns \<and> set ns \<subseteq> V" if "i \<in> V" for i
    using ix.ginv_get [OF inv that] by (metis good_list_def na_ops_get)
  have "reach_loop ?get {} start_points = Some (Inr (reachable_from ?get start_points))"
    by (rule reach_loop_spec [where V = V]) (use nb assms(2) in \<open>auto simp: reachable_from_def\<close>)
  then show ?thesis by (simp add: count_reachable_nodes_def)
qed

theorem count_reachable_nodes_correct_witness:
  "\<exists>p. np_new 0 3 1 4 f32_one = Inr p
    \<and> count_reachable_nodes na_ops p [0] = Some (Inr (card (reachable_from (na_get_neighbors p) [0])))"
proof -
  obtain p where p: "np_new 0 3 1 4 f32_one = Inr p"
    "index_inv sample_config sample_ids \<lparr>ix_graph = p, ix_scratch = prune_scratch_new, ix_ws = ()\<rparr>"
    using sample_index by metis
  have "set [0] \<subseteq> sample_ids" by (simp add: sample_ids_def)
  from count_reachable_nodes_correct [OF p(2) this] p(1) show ?thesis by simp
qed

text \<open>C33: the degree statistics of a well-formed graph are the largest and the smallest number of out-neighbors and
  the number of vertices with fewer than two; no degree exceeds the configured maximum.  For a provider without vertices the
  smallest degree keeps its initial value, does not fit, and the call is an error.\<close>

theorem get_degree_stats_correct:
  assumes "index_inv cfg V s" "set ids \<subseteq> V" "max_degree cfg < 2 ^ 32"
  shows "if ids = [] then get_degree_stats na_ops (ix_graph s) ids = Inl TryFromIntError
    else \<exists>stats. get_degree_stats na_ops (ix_graph s) ids = Inr stats
      \<and> stats_max_degree stats = Max (set (degrees (na_get_neighbors (ix_graph s)) ids))
      \<and> stats_min_degree stats = Min (set (degrees (na_get_neighbors (ix_graph s)) ids))
      \<and> cnt_less_than_two stats = length (filter (\<lambda>d. d < 2) (degrees (na_get_neighbors (ix_graph s)) ids))
      \<and> stats_max_degree stats \<le> max_degree cfg"
proof -
  let ?get = "na_get_neighbors (ix_graph s)" let ?ds = "degrees ?get ids"
  have inv: "ix.ginv cfg V (ix_graph s)" using assms(1) by (simp add: index_inv_def)
  have nb: "\<exists>ns. ?get i = Inr ns \<and> length ns \<le> max_degree cfg" if "i \<in> set ids" for i
    using ix.ginv_get [OF inv] that assms(2) by (metis good_list_def na_ops_get subsetD)
  then have small: "d \<le> max_degree cfg" if "d \<in> set ?ds" for d using that by (force simp: degrees_def)
  have "\<And>i. i \<in> set ids \<Longrightarrow> \<exists>ns. ?get i = Inr ns" using nb by blast
  note run = degree_fold [OF this]
  show ?thesis
  proof (cases "ids = []")
    case True
    then show ?thesis by (simp add: get_degree_stats_def u32_try_from_def)
  next
    case False
    then have ne: "?ds \<noteq> []" by (simp add: degrees_def)
    have "d \<le> 2 ^ 64 - 1" if "d \<in> set ?ds" for d using small [OF that] assms(3) by simp
    note mn = fold_min_Min [OF ne this]
    have mx: "Max (set ?ds) \<le> max_degree cfg" using small ne by simp
    have "Min (set ?ds) \<le> Max (set ?ds)" using ne by (intro Min.coboundedI) (auto intro: Max_in)
    with mx assms(3) have "Max (set ?ds) < 2 ^ 32" "Min (set ?ds) < 2 ^ 32" by linarith+
    then show ?thesis using False run mn mx fold_max_Max [OF ne]
      by (simp add: get_degree_stats_def u32_try_from_def Let_def)
  qed
qed

theorem get_degree_stats_correct_witness:
  "\<exists>p stats. np_new 0 3 1 4 f32_one = Inr p \<and> get_degree_stats na_ops p [0, 1] = Inr stats \<and> stats_max_degree stats \<le> 4"
proof -
  obtain p where p: "np_new 0 3 1 4 f32_one = Inr p"
    "index_inv sample_config sample_ids \<lparr>ix_graph = p, ix_scratch = prune_scratch_new, ix_ws = ()\<rparr>"
    using sample_index by metis
  have "set [0, 1] \<subseteq> sample_ids" "max_degree sample_config < 2 ^ 32" by (simp_all add: sample_ids_def sample_config_def)
  from get_degree_stats_correct [OF p(2) this] p(1) show ?thesis by (auto simp: sample_config_def)
qed

end
