(* ===== verification/Garnet_Store.thy ===== *)
theory Garnet_Store
  imports Bytes
begin

text \<open>
  The key-value store the Garnet integration keeps its data in: the wrappers \<open>Callbacks\<close> of
  \<open>diskann-garnet/src/garnet.rs\<close> around the functions the host passes in, and the in-memory store
  of \<open>diskann-garnet/src/test_utils.rs\<close> that implements these functions.

  The functions of the host are the record \<open>callbacks\<close> over a type of store states.  A read gets the
  number of keys and the keys, each after its length, and reports a value per key it finds, with the
  position of the key; a write and a read-modify-write get one key.  What a client relies on is the
  locale \<open>garnet_callbacks\<close>, and the in-memory store satisfies it.
\<close>

unbundle bit_operations_syntax

section \<open>The functions of the host\<close>

text \<open>The function passed to a read-modify-write changes the value and a captured variable, and may
  panic.  The captured variables of the crate are the flag \<open>changed\<close> of the free space map and the cached
  adjacency list of the start point; \<open>Untouched\<close> is the variable before the call.\<close>

datatype captured = Untouched | Changed bool | Cached "32 word list"

type_synonym modifier = "byte list \<Rightarrow> fault + (byte list \<times> captured)"

record 's callbacks =
  read_callback :: "64 word \<Rightarrow> nat \<Rightarrow> byte list \<Rightarrow> 's \<Rightarrow> (nat \<times> byte list) list"
  write_callback :: "64 word \<Rightarrow> byte list \<Rightarrow> byte list \<Rightarrow> 's \<Rightarrow> 's \<times> bool"
  delete_callback :: "64 word \<Rightarrow> byte list \<Rightarrow> 's \<Rightarrow> 's \<times> bool"
  rmw_callback :: "64 word \<Rightarrow> byte list \<Rightarrow> nat \<Rightarrow> modifier \<Rightarrow> 's \<Rightarrow> fault + ('s \<times> bool \<times> captured)"

datatype key_term = Vector | Neighbors | Quantized | Attributes | Metadata | IntMap | ExtMap

fun term_code :: "key_term \<Rightarrow> 64 word" where
  "term_code Vector = 0"
| "term_code Neighbors = 1"
| "term_code Quantized = 2"
| "term_code Attributes = 3"
| "term_code Metadata = 4"
| "term_code IntMap = 5"
| "term_code ExtMap = 6"

definition TERM_BITMASK :: "64 word" where "TERM_BITMASK = 7"

definition context_term :: "64 word \<Rightarrow> key_term \<Rightarrow> 64 word" where
  "context_term ctx kind = ctx OR (term_code kind AND TERM_BITMASK)"

section \<open>Keys\<close>

text \<open>A wide identifier is a \<open>u64\<close>, an internal one a \<open>u32\<close>; both are written in native byte order.\<close>

definition wid_key :: "64 word \<Rightarrow> byte list" where
  "wid_key key = le_bytes 8 (unat key)"

definition iid_key :: "32 word \<Rightarrow> byte list" where
  "iid_key i = le_bytes 4 (unat i)"

definition prefixed :: "byte list \<Rightarrow> byte list" where
  "prefixed key = le_bytes 4 (length key) @ key"

section \<open>Callbacks\<close>

definition exists_raw :: "'s callbacks \<Rightarrow> 64 word \<Rightarrow> byte list \<Rightarrow> 's \<Rightarrow> bool" where
  "exists_raw cb ctx key s \<longleftrightarrow> read_callback cb ctx 1 key s \<noteq> []"

text \<open>The read copies each reported value into the buffer of the caller, whose length must agree.\<close>

definition read_single_raw :: "'s callbacks \<Rightarrow> 64 word \<Rightarrow> byte list \<Rightarrow> byte list \<Rightarrow> 's \<Rightarrow> fault + (bool \<times> byte list)" where
  "read_single_raw cb ctx key value s =
     rfold (\<lambda>(_, data) (_, value). if length value = length data then Inr (True, data) else Inl AssertFault)
       (read_callback cb ctx 1 key s) (False, value)"

definition exists_wid :: "'s callbacks \<Rightarrow> 64 word \<Rightarrow> 64 word \<Rightarrow> 's \<Rightarrow> bool" where
  "exists_wid cb ctx key = exists_raw cb ctx (prefixed (wid_key key))"

definition exists_iid :: "'s callbacks \<Rightarrow> 64 word \<Rightarrow> 32 word \<Rightarrow> 's \<Rightarrow> bool" where
  "exists_iid cb ctx i = exists_raw cb ctx (prefixed (iid_key i))"

definition read_single_wid :: "'s callbacks \<Rightarrow> 64 word \<Rightarrow> 64 word \<Rightarrow> byte list \<Rightarrow> 's \<Rightarrow> fault + (bool \<times> byte list)" where
  "read_single_wid cb ctx key = read_single_raw cb ctx (prefixed (wid_key key))"

definition read_single_iid :: "'s callbacks \<Rightarrow> 64 word \<Rightarrow> 32 word \<Rightarrow> byte list \<Rightarrow> 's \<Rightarrow> fault + (bool \<times> byte list)" where
  "read_single_iid cb ctx i = read_single_raw cb ctx (prefixed (iid_key i))"

definition read_varsize_iid :: "'s callbacks \<Rightarrow> 64 word \<Rightarrow> 32 word \<Rightarrow> 's \<Rightarrow> byte list option" where
  "read_varsize_iid cb ctx i s =
     fold (\<lambda>(_, data) _. Some data) (read_callback cb ctx 1 (prefixed (iid_key i)) s) None"

definition write_wid :: "'s callbacks \<Rightarrow> 64 word \<Rightarrow> 64 word \<Rightarrow> byte list \<Rightarrow> 's \<Rightarrow> 's \<times> bool" where
  "write_wid cb ctx key = write_callback cb ctx (wid_key key)"

definition write_iid :: "'s callbacks \<Rightarrow> 64 word \<Rightarrow> 32 word \<Rightarrow> byte list \<Rightarrow> 's \<Rightarrow> 's \<times> bool" where
  "write_iid cb ctx i = write_callback cb ctx (iid_key i)"

definition delete_iid :: "'s callbacks \<Rightarrow> 64 word \<Rightarrow> 32 word \<Rightarrow> 's \<Rightarrow> 's \<times> bool" where
  "delete_iid cb ctx i = delete_callback cb ctx (iid_key i)"

definition rmw_wid :: "'s callbacks \<Rightarrow> 64 word \<Rightarrow> 64 word \<Rightarrow> nat \<Rightarrow> modifier \<Rightarrow> 's \<Rightarrow> fault + ('s \<times> bool \<times> captured)" where
  "rmw_wid cb ctx key = rmw_callback cb ctx (wid_key key)"

definition rmw_iid :: "'s callbacks \<Rightarrow> 64 word \<Rightarrow> 32 word \<Rightarrow> nat \<Rightarrow> modifier \<Rightarrow> 's \<Rightarrow> fault + ('s \<times> bool \<times> captured)" where
  "rmw_iid cb ctx i = rmw_callback cb ctx (iid_key i)"

text \<open>An external identifier holds its bytes after their length; dereferencing it skips the length.
  \<open>exists_eid\<close> passes the dereferenced bytes to the read.\<close>

datatype garnet_id = GarnetId (gid_inner: "byte list")

definition garnet_id_from :: "byte list \<Rightarrow> garnet_id" where
  "garnet_id_from value = GarnetId (le_bytes 4 (length value) @ value)"

definition as_prefixed_key_bytes :: "garnet_id \<Rightarrow> byte list" where
  "as_prefixed_key_bytes = gid_inner"

definition gid_deref :: "garnet_id \<Rightarrow> byte list" where
  "gid_deref i = drop 4 (gid_inner i)"

definition exists_eid :: "'s callbacks \<Rightarrow> 64 word \<Rightarrow> garnet_id \<Rightarrow> 's \<Rightarrow> bool" where
  "exists_eid cb ctx i = exists_raw cb ctx (gid_deref i)"

definition read_single_eid :: "'s callbacks \<Rightarrow> 64 word \<Rightarrow> garnet_id \<Rightarrow> byte list \<Rightarrow> 's \<Rightarrow> fault + (bool \<times> byte list)" where
  "read_single_eid cb ctx i = read_single_raw cb ctx (as_prefixed_key_bytes i)"

definition write_eid :: "'s callbacks \<Rightarrow> 64 word \<Rightarrow> garnet_id \<Rightarrow> byte list \<Rightarrow> 's \<Rightarrow> 's \<times> bool" where
  "write_eid cb ctx i = write_callback cb ctx (gid_deref i)"

definition delete_eid :: "'s callbacks \<Rightarrow> 64 word \<Rightarrow> garnet_id \<Rightarrow> 's \<Rightarrow> 's \<times> bool" where
  "delete_eid cb ctx i = delete_callback cb ctx (gid_deref i)"

text \<open>The identifiers of a read of several keys are passed as alternating lengths and identifiers.\<close>

definition read_multi_lpiid :: "'s callbacks \<Rightarrow> 64 word \<Rightarrow> 32 word list \<Rightarrow> 's \<Rightarrow> (nat \<times> byte list) list" where
  "read_multi_lpiid cb ctx ids s =
     (if ids = [] then [] else read_callback cb ctx (length ids div 2) (concat (map (\<lambda>i. le_bytes 4 (unat i)) ids)) s)"

lemma garnet_id_simps [simp]:
  "as_prefixed_key_bytes (garnet_id_from v) = prefixed v" "gid_deref (garnet_id_from v) = v"
  by (simp_all add: as_prefixed_key_bytes_def gid_deref_def garnet_id_from_def prefixed_def)

section \<open>The in-memory store\<close>

text \<open>The map from keys, the context and then the key, to values.\<close>

type_synonym mem_store = "byte list \<rightharpoonup> byte list"

definition store_key :: "64 word \<Rightarrow> byte list \<Rightarrow> byte list" where
  "store_key ctx key = le_bytes 8 (unat (ctx AND TERM_BITMASK)) @ key"

definition store_set :: "64 word \<Rightarrow> byte list \<Rightarrow> byte list \<Rightarrow> mem_store \<Rightarrow> mem_store" where
  "store_set ctx key value s = s(store_key ctx key \<mapsto> value)"

definition store_get :: "64 word \<Rightarrow> byte list \<Rightarrow> mem_store \<Rightarrow> byte list option" where
  "store_get ctx key s = s (store_key ctx key)"

definition store_delete :: "64 word \<Rightarrow> byte list \<Rightarrow> mem_store \<Rightarrow> mem_store" where
  "store_delete ctx key s = s(store_key ctx key := None)"

text \<open>A key that reaches beyond the bytes passed in would be an out of range slice in the loop of
  \<open>test_read\<close>; the loop below reads what is left.\<close>

fun test_read_loop :: "64 word \<Rightarrow> nat \<Rightarrow> nat \<Rightarrow> byte list \<Rightarrow> mem_store \<Rightarrow> (nat \<times> byte list) list" where
  "test_read_loop ctx idx 0 ids s = []"
| "test_read_loop ctx idx (Suc n) ids s =
     (let len = from_le (take 4 ids); rest = drop 4 ids; i = take len rest in
      (case store_get ctx i s of None \<Rightarrow> [] | Some v \<Rightarrow> [(idx, v)]) @ test_read_loop ctx (Suc idx) n (drop len rest) s)"

definition test_read :: "64 word \<Rightarrow> nat \<Rightarrow> byte list \<Rightarrow> mem_store \<Rightarrow> (nat \<times> byte list) list" where
  "test_read ctx num ids s = test_read_loop ctx 0 num ids s"

definition test_write :: "64 word \<Rightarrow> byte list \<Rightarrow> byte list \<Rightarrow> mem_store \<Rightarrow> mem_store \<times> bool" where
  "test_write ctx key value s = (store_set ctx key value s, True)"

definition test_delete :: "64 word \<Rightarrow> byte list \<Rightarrow> mem_store \<Rightarrow> mem_store \<times> bool" where
  "test_delete ctx key s = (store_delete ctx key s, True)"

definition test_rmw :: "64 word \<Rightarrow> byte list \<Rightarrow> nat \<Rightarrow> modifier \<Rightarrow> mem_store \<Rightarrow> fault + (mem_store \<times> bool \<times> captured)" where
  "test_rmw ctx key write_len f s =
     (let val = (case store_get ctx key s of Some v \<Rightarrow> v | None \<Rightarrow> replicate write_len 0) in
      rbind (f val) (\<lambda>(val', flag). Inr (store_set ctx key val' s, True, flag)))"

definition test_callbacks :: "mem_store callbacks" where
  "test_callbacks = \<lparr>read_callback = test_read, write_callback = test_write, delete_callback = test_delete,
     rmw_callback = test_rmw\<rparr>"

section \<open>What a client relies on\<close>

text \<open>A host that never reports a failure, under which the operations of the crate are shown to succeed.\<close>

definition callbacks_succeed :: "'s callbacks \<Rightarrow> bool" where
  "callbacks_succeed cb \<longleftrightarrow> (\<forall>ctx key v s. snd (write_callback cb ctx key v s))
     \<and> (\<forall>ctx key s. snd (delete_callback cb ctx key s))
     \<and> (\<forall>ctx key n f s s' ok var. rmw_callback cb ctx key n f s = Inr (s', ok, var) \<longrightarrow> ok)"

lemma callbacks_succeedD:
  assumes "callbacks_succeed cb"
  shows "write_callback cb ctx key v s = (s', ok) \<Longrightarrow> ok" "delete_callback cb ctx key s = (s', ok) \<Longrightarrow> ok"
    "rmw_callback cb ctx key n f s = Inr (s', ok, var) \<Longrightarrow> ok"
  using assms unfolding callbacks_succeed_def by (metis snd_conv)+

lemma test_callbacks_succeed: "callbacks_succeed test_callbacks"
  by (auto simp: callbacks_succeed_def test_callbacks_def test_write_def test_delete_def test_rmw_def Let_def rbind_eq_Inr_iff
      split: prod.splits)

text \<open>
  The laws of the host's store, over the value \<open>look ctx key s\<close> of a key in a context.  A read of one
  key finds its value.  A write that reports success stores the value, one that reports failure
  changes nothing, and either leaves the other keys of the context alone; a read-modify-write passes
  the value, or zeros when there is none, to the function.

  The repository documents that accesses to a single term are atomic (\<open>docs/data-design.md\<close>); that an
  access which reports failure has had no effect is how this development reads it, and every property
  of the free space map and of the provider rests on this hypothesis.
\<close>

locale garnet_callbacks =
  fixes cb :: "'s callbacks" and look :: "64 word \<Rightarrow> byte list \<Rightarrow> 's \<Rightarrow> byte list option"
  assumes read_law: "length key < 2 ^ 32 \<Longrightarrow> read_callback cb ctx 1 (prefixed key) s
      = (case look ctx key s of None \<Rightarrow> [] | Some v \<Rightarrow> [(0, v)])"
    and write_law: "write_callback cb ctx key v s = (s', ok) \<Longrightarrow>
      look ctx k s' = (if ok \<and> k = key then Some v else look ctx k s)"
    and rmw_panic: "rmw_callback cb ctx key n f s = Inl e \<Longrightarrow>
      f (case look ctx key s of Some v \<Rightarrow> v | None \<Rightarrow> replicate n 0) = Inl e"
    and rmw_success: "rmw_callback cb ctx key n f s = Inr (s', True, flag) \<Longrightarrow>
      \<exists>v. f (case look ctx key s of Some v \<Rightarrow> v | None \<Rightarrow> replicate n 0) = Inr (v, flag)
        \<and> (\<forall>k. look ctx k s' = (if k = key then Some v else look ctx k s))"
    and rmw_failure: "rmw_callback cb ctx key n f s = Inr (s', False, flag) \<Longrightarrow> look ctx k s' = look ctx k s"
begin

lemma exists_raw_iff:
  assumes "length key < 2 ^ 32"
  shows "exists_raw cb ctx (prefixed key) s \<longleftrightarrow> look ctx key s \<noteq> None"
  using assms by (simp only: exists_raw_def read_law) (simp split: option.splits)

lemma read_single_raw_eq:
  assumes "length key < 2 ^ 32"
  shows "read_single_raw cb ctx (prefixed key) buf s
    = (case look ctx key s of None \<Rightarrow> Inr (False, buf)
       | Some v \<Rightarrow> if length buf = length v then Inr (True, v) else Inl AssertFault)"
  using assms by (simp only: read_single_raw_def read_law) (simp split: option.splits)

end

text \<open>What a client that uses several terms relies on beyond that: a deletion that reports success removes
  the value, and no operation touches the keys of another term.\<close>

locale garnet_terms = garnet_callbacks +
  assumes delete_law: "delete_callback cb ctx key s = (s', ok) \<Longrightarrow>
      look ctx k s' = (if ok \<and> k = key then None else look ctx k s)"
    and write_frame: "write_callback cb ctx key v s = (s', ok) \<Longrightarrow> ctx AND TERM_BITMASK \<noteq> c AND TERM_BITMASK \<Longrightarrow>
      look c k s' = look c k s"
    and delete_frame: "delete_callback cb ctx key s = (s', ok) \<Longrightarrow> ctx AND TERM_BITMASK \<noteq> c AND TERM_BITMASK \<Longrightarrow>
      look c k s' = look c k s"
    and rmw_frame: "rmw_callback cb ctx key n f s = Inr (s', ok, var) \<Longrightarrow> ctx AND TERM_BITMASK \<noteq> c AND TERM_BITMASK \<Longrightarrow>
      look c k s' = look c k s"

lemma context_term_mask:
  assumes "ctx AND TERM_BITMASK = 0"
  shows "context_term ctx kind AND TERM_BITMASK = term_code kind"
proof -
  have "context_term ctx kind AND TERM_BITMASK = (ctx AND TERM_BITMASK) OR ((term_code kind AND TERM_BITMASK) AND TERM_BITMASK)"
    unfolding context_term_def by (rule bit.conj_disj_distrib2)
  also have "\<dots> = term_code kind" by (simp only: assms) (cases kind; simp add: TERM_BITMASK_def)
  finally show ?thesis .
qed

lemma term_code_inj: "term_code a = term_code b \<longleftrightarrow> a = b"
  by (cases a; cases b) simp_all

lemma context_terms_differ:
  assumes "ctx AND TERM_BITMASK = 0" "a \<noteq> b"
  shows "context_term ctx a AND TERM_BITMASK \<noteq> context_term ctx b AND TERM_BITMASK"
  using assms by (simp add: context_term_mask term_code_inj)

section \<open>The in-memory store keeps the laws\<close>

lemma store_key_eq: "store_key ctx k = store_key ctx key \<longleftrightarrow> k = key"
  by (simp add: store_key_def)

lemma store_get_set: "store_get ctx k (store_set ctx key v s) = (if k = key then Some v else store_get ctx k s)"
  by (simp add: store_get_def store_set_def store_key_eq)

lemma test_read_one:
  assumes "length key < 2 ^ 32"
  shows "test_read ctx 1 (prefixed key) s = (case store_get ctx key s of None \<Rightarrow> [] | Some v \<Rightarrow> [(0, v)])"
proof -
  have "from_le (take 4 (prefixed key)) = length key" "drop 4 (prefixed key) = key"
    using assms by (simp_all add: prefixed_def from_le_bytes)
  then show ?thesis by (simp add: test_read_def Let_def split: option.splits)
qed

interpretation mem: garnet_callbacks test_callbacks store_get
proof unfold_locales
  fix ctx and key :: "byte list" and s :: mem_store
  assume "length key < 2 ^ 32"
  then show "read_callback test_callbacks ctx 1 (prefixed key) s = (case store_get ctx key s of None \<Rightarrow> [] | Some v \<Rightarrow> [(0, v)])"
    using test_read_one by (simp add: test_callbacks_def)
qed (auto simp: test_callbacks_def test_write_def test_rmw_def store_get_set Let_def rbind_eq_Inl_iff rbind_eq_Inr_iff
      split: prod.splits)

lemma store_key_other:
  assumes "ctx AND TERM_BITMASK \<noteq> c AND TERM_BITMASK"
  shows "store_key c k \<noteq> store_key ctx key"
proof
  assume "store_key c k = store_key ctx key"
  then have "le_bytes 8 (unat (c AND TERM_BITMASK)) = le_bytes 8 (unat (ctx AND TERM_BITMASK))"
    by (simp add: store_key_def)
  then have "unat (c AND TERM_BITMASK) = unat (ctx AND TERM_BITMASK)"
    by (rule le_bytes_inj) (use unat_u64 [of "c AND TERM_BITMASK"] unat_u64 [of "ctx AND TERM_BITMASK"] in simp_all)
  then have "c AND TERM_BITMASK = ctx AND TERM_BITMASK" by (rule unsigned_word_eqI)
  with assms show False by simp
qed

interpretation memt: garnet_terms test_callbacks store_get
  by unfold_locales
    (auto simp: test_callbacks_def test_write_def test_delete_def test_rmw_def store_get_def store_set_def store_delete_def
      store_key_eq store_key_other Let_def rbind_eq_Inr_iff split: prod.splits)

end
