(* ===== verification/Free_Space_Map.thy ===== *)
theory Free_Space_Map
  imports Garnet_Store
begin

text \<open>
  The free space map of the Garnet integration, \<open>diskann-garnet/src/fsm.rs\<close>: which internal
  identifiers are in use.  The status of an identifier is a bit of a block in the store; in memory
  there are a bounded queue of identifiers to reuse, a flag that says whether to look for one, the
  number of the last block and the next identifier to mint.

  An operation takes the map and the state of the store and returns both with its result.  The
  atomics and the lock are read and written in the order of the code, by one caller at a time.
  The loops of \<open>next_id\<close> are partial functions, \<open>None\<close> when they do not end; they are shown to end.
\<close>

section \<open>The state\<close>

definition BLOCK_SIZE_IDS :: nat where "BLOCK_SIZE_IDS = 65536"

definition BLOCK_SIZE_BYTES :: nat where "BLOCK_SIZE_BYTES = 8192"

definition FAST_SIZE :: nat where "FAST_SIZE = 1024"

text \<open>The bytes of \<open>_fsm\<close> read as a big-endian number.\<close>

definition FSM_KEY_PREFIX :: "32 word" where "FSM_KEY_PREFIX = 0x5F66736D"

datatype garnet_error = ReadError | WriteError | DeleteError

datatype fsm_error = Garnet garnet_error | IdOutOfRange "32 word" | FsmPanic fault

record fsm =
  has_free_ids :: bool
  fast_free_list :: "32 word list"
  max_block :: "32 word"
  fsm_next_id :: "32 word"

type_synonym ('s, 'a) fsm_op = "fsm \<Rightarrow> 's \<Rightarrow> (fsm_error + 'a) \<times> fsm \<times> 's"

text \<open>\<open>ArrayQueue::push\<close> rejects an item when the queue is full, \<open>pop\<close> takes the oldest.\<close>

definition fast_push :: "32 word \<Rightarrow> 32 word list \<Rightarrow> bool \<times> 32 word list" where
  "fast_push i q = (if length q < FAST_SIZE then (True, q @ [i]) else (False, q))"

section \<open>Bits\<close>

definition bit_used :: "byte \<Rightarrow> nat \<Rightarrow> bool" where
  "bit_used b bidx \<longleftrightarrow> drop_bit (7 - bidx) b AND 1 = 1"

definition update_status :: "bool \<Rightarrow> byte \<Rightarrow> nat \<Rightarrow> bool \<times> byte" where
  "update_status used b bidx =
     (let msk = push_bit (7 - bidx) 1;
          value = push_bit (7 - bidx) (of_bool used);
          changed = (used \<and> b AND msk = 0 \<or> \<not> used \<and> b AND msk \<noteq> 0)
      in (changed, (b AND NOT msk) OR value))"

definition indexes_for_id :: "32 word \<Rightarrow> 32 word \<times> nat \<times> nat" where
  "indexes_for_id i =
     (let block_id = of_nat (unat i div BLOCK_SIZE_IDS); block_idx = unat i mod BLOCK_SIZE_IDS
      in (block_id, block_idx div 8, block_idx mod 8))"

definition block_key :: "32 word \<Rightarrow> 64 word" where
  "block_key block_id = push_bit 32 (ucast block_id) OR ucast FSM_KEY_PREFIX"

section \<open>Operations\<close>

definition mark_modifier :: "bool \<Rightarrow> nat \<Rightarrow> nat \<Rightarrow> modifier" where
  "mark_modifier used byte_idx bit_idx data =
     (if byte_idx < length data then
        (case update_status used (data ! byte_idx) bit_idx of (changed, b) \<Rightarrow> Inr (data[byte_idx := b], Changed changed))
      else Inl IndexFault)"

definition mark_id :: "'s callbacks \<Rightarrow> 64 word \<Rightarrow> 32 word \<Rightarrow> bool \<Rightarrow> ('s, bool) fsm_op" where
  "mark_id cb ctx i used f s =
     (if fsm_next_id f \<le> i then (Inl (IdOutOfRange i), f, s)
      else case indexes_for_id i of (block_id, byte_idx, bit_idx) \<Rightarrow>
        if max_block f < block_id \<or> max_block f = - 1 then (Inl (Garnet ReadError), f, s)
        else
          (case rmw_wid cb (context_term ctx Metadata) (block_key block_id) BLOCK_SIZE_BYTES
                  (mark_modifier used byte_idx bit_idx) s of
             Inl e \<Rightarrow> (Inl (FsmPanic e), f, s)
           | Inr (s', ok, var) \<Rightarrow>
               let changed = (var = Changed True) in
               if \<not> ok then (Inl (Garnet WriteError), f, s')
               else if \<not> used \<and> changed then
                 (Inr changed, f\<lparr>fast_free_list := snd (fast_push i (fast_free_list f)), has_free_ids := True\<rparr>, s')
               else (Inr changed, f, s')))"

definition mark_free :: "'s callbacks \<Rightarrow> 64 word \<Rightarrow> 32 word \<Rightarrow> ('s, unit) fsm_op" where
  "mark_free cb ctx i f s = apfst (map_sum id (\<lambda>_. ())) (mark_id cb ctx i False f s)"

definition mark_used :: "'s callbacks \<Rightarrow> 64 word \<Rightarrow> 32 word \<Rightarrow> ('s, bool) fsm_op" where
  "mark_used cb ctx i = mark_id cb ctx i True"

definition fsm_is_free :: "'s callbacks \<Rightarrow> 64 word \<Rightarrow> 32 word \<Rightarrow> fsm \<Rightarrow> 's \<Rightarrow> fsm_error + bool" where
  "fsm_is_free cb ctx i f s =
     (if fsm_next_id f \<le> i then Inl (IdOutOfRange i)
      else case indexes_for_id i of (block_id, byte_idx, bit_idx) \<Rightarrow>
        if max_block f < block_id \<or> max_block f = - 1 then Inl (Garnet ReadError)
        else
          (case read_single_wid cb (context_term ctx Metadata) (block_key block_id) (replicate BLOCK_SIZE_BYTES 0) s of
             Inl e \<Rightarrow> Inl (FsmPanic e)
           | Inr (found, block) \<Rightarrow>
               if \<not> found then Inl (Garnet ReadError)
               else Inr (\<not> bit_used (block ! byte_idx) bit_idx)))"

definition max_id :: "fsm \<Rightarrow> 32 word" where
  "max_id f = (if fsm_next_id f = 0 then 0 else fsm_next_id f - 1)"

definition expand_to :: "'s callbacks \<Rightarrow> 64 word \<Rightarrow> 32 word \<Rightarrow> ('s, unit) fsm_op" where
  "expand_to cb ctx i f s =
     (case indexes_for_id i of (block_id, _, _) \<Rightarrow>
        if max_block f = - 1 \<or> block_id = max_block f + 1 then
          (case write_wid cb (context_term ctx Metadata) (block_key block_id) (replicate BLOCK_SIZE_BYTES 0) s of (s', ok) \<Rightarrow>
             if \<not> ok then (Inl (Garnet WriteError), f, s')
             else (Inr (), f\<lparr>max_block := if max_block f = - 1 then 0 else max_block f + 1\<rparr>, s'))
        else if max_block f + 1 < block_id then (Inl (IdOutOfRange i), f, s)
        else (Inr (), f, s))"

subsection \<open>Scanning the blocks\<close>

text \<open>A loop whose body says whether to leave it.\<close>

fun scan :: "('a \<Rightarrow> 'st \<Rightarrow> 'st \<times> bool) \<Rightarrow> 'a list \<Rightarrow> 'st \<Rightarrow> 'st \<times> bool" where
  "scan body [] st = (st, False)"
| "scan body (x # xs) st = (case body x st of (st', stop) \<Rightarrow> if stop then (st', True) else scan body xs st')"

text \<open>The state of the scan of \<open>refill_fast_free_list\<close>: the identifier, the queue and the flag
  \<open>has_free_ids\<close>; storing \<open>true\<close> to the flag of the map on the way is the last component.\<close>

record refill_state =
  rf_id :: "32 word"
  rf_list :: "32 word list"
  rf_has :: bool
  rf_flag :: bool

definition refill_bit :: "byte \<Rightarrow> nat \<Rightarrow> refill_state \<Rightarrow> refill_state \<times> bool" where
  "refill_bit b bidx st =
     (if bit_used b bidx then (st\<lparr>rf_id := rf_id st + 1\<rparr>, False)
      else case fast_push (rf_id st) (rf_list st) of (pushed, q) \<Rightarrow>
        if pushed then (st\<lparr>rf_has := True, rf_flag := True, rf_list := q, rf_id := rf_id st + 1\<rparr>, False)
        else (st\<lparr>rf_has := True, rf_flag := True\<rparr>, True))"

definition refill_byte :: "byte \<Rightarrow> refill_state \<Rightarrow> refill_state \<times> bool" where
  "refill_byte b st = (if b = 0xff then (st\<lparr>rf_id := rf_id st + 8\<rparr>, False) else scan (refill_bit b) [0..<8] st)"

fun refill_blocks :: "'s callbacks \<Rightarrow> 64 word \<Rightarrow> nat list \<Rightarrow> 's \<Rightarrow> refill_state \<Rightarrow> refill_state \<times> fsm_error option" where
  "refill_blocks cb ctx [] s st = (st, None)"
| "refill_blocks cb ctx (b # bs) s st =
     (case read_single_wid cb (context_term ctx Metadata) (block_key (of_nat b)) (replicate BLOCK_SIZE_BYTES 0) s of
        Inl e \<Rightarrow> (st, Some (FsmPanic e))
      | Inr (found, block) \<Rightarrow>
          if \<not> found then (st, Some (Garnet ReadError))
          else (case scan refill_byte block st of (st', stop) \<Rightarrow>
                  if stop then (st', None) else refill_blocks cb ctx bs s st'))"

definition refill_fast_free_list :: "'s callbacks \<Rightarrow> 64 word \<Rightarrow> ('s, bool) fsm_op" where
  "refill_fast_free_list cb ctx f s =
     (if fast_free_list f \<noteq> [] then (Inr True, f, s)
      else case refill_blocks cb ctx [0..<unat (max_block f)] s
                  \<lparr>rf_id = 0, rf_list = fast_free_list f, rf_has = False, rf_flag = has_free_ids f\<rparr> of
        (st, Some e) \<Rightarrow> (Inl e, f\<lparr>fast_free_list := rf_list st, has_free_ids := rf_flag st\<rparr>, s)
      | (st, None) \<Rightarrow>
          (Inr (rf_has st), f\<lparr>fast_free_list := rf_list st, has_free_ids := rf_flag st \<and> rf_has st\<rparr>, s))"

subsection \<open>Minting and reusing identifiers\<close>

text \<open>The result of the loop over freed identifiers is \<open>Some\<close> when one was marked.\<close>

partial_function (option) reuse_loop :: "'s callbacks \<Rightarrow> 64 word \<Rightarrow> fsm \<Rightarrow> 's \<Rightarrow> ((fsm_error + 32 word option) \<times> fsm \<times> 's) option" where
  "reuse_loop cb ctx f s =
     (case fast_free_list f of
        i # rest \<Rightarrow>
          (case mark_used cb ctx i (f\<lparr>fast_free_list := rest\<rparr>) s of
             (Inl e, f', s') \<Rightarrow> Some (Inl e, f', s')
           | (Inr changed, f', s') \<Rightarrow> if \<not> changed then reuse_loop cb ctx f' s' else Some (Inr (Some i), f', s'))
      | [] \<Rightarrow>
          (case refill_fast_free_list cb ctx f s of
             (Inl e, f', s') \<Rightarrow> Some (Inl e, f', s')
           | (Inr found, f', s') \<Rightarrow>
               if \<not> found then Some (Inr None, f', s')
               else (case fast_free_list f' of
                       [] \<Rightarrow> Some (Inr None, f', s')
                     | i # rest \<Rightarrow>
                         (case mark_used cb ctx i (f'\<lparr>fast_free_list := rest\<rparr>) s' of
                            (Inl e, f'', s'') \<Rightarrow> Some (Inl e, f'', s'')
                          | (Inr changed, f'', s'') \<Rightarrow>
                              if \<not> changed then reuse_loop cb ctx f'' s'' else Some (Inr (Some i), f'', s'')))))"

partial_function (option) mint_loop :: "'s callbacks \<Rightarrow> 64 word \<Rightarrow> fsm \<Rightarrow> 's \<Rightarrow> ((fsm_error + 32 word) \<times> fsm \<times> 's) option" where
  "mint_loop cb ctx f s =
     (let i = fsm_next_id f; f1 = f\<lparr>fsm_next_id := fsm_next_id f + 1\<rparr> in
      case (case indexes_for_id i of (block_id, _, _) \<Rightarrow>
              if max_block f1 < block_id then expand_to cb ctx i f1 s else (Inr (), f1, s)) of
        (Inl e, f2, s2) \<Rightarrow> Some (Inl e, f2, s2)
      | (Inr _, f2, s2) \<Rightarrow>
          (case mark_used cb ctx i f2 s2 of
             (Inl e, f3, s3) \<Rightarrow> Some (Inl e, f3, s3)
           | (Inr changed, f3, s3) \<Rightarrow> if changed then Some (Inr i, f3, s3) else mint_loop cb ctx f3 s3))"

definition next_id :: "'s callbacks \<Rightarrow> 64 word \<Rightarrow> fsm \<Rightarrow> 's \<Rightarrow> ((fsm_error + 32 word) \<times> fsm \<times> 's) option" where
  "next_id cb ctx f s =
     (if has_free_ids f then
        (case reuse_loop cb ctx f s of
           None \<Rightarrow> None
         | Some (Inl e, f', s') \<Rightarrow> Some (Inl e, f', s')
         | Some (Inr (Some i), f', s') \<Rightarrow> Some (Inr i, f', s')
         | Some (Inr None, f', s') \<Rightarrow> mint_loop cb ctx f' s')
      else mint_loop cb ctx f s)"

subsection \<open>Loading the state\<close>

function count_blocks :: "'s callbacks \<Rightarrow> 64 word \<Rightarrow> nat \<Rightarrow> 's \<Rightarrow> fault + nat" where
  "count_blocks cb ctx max_block_id s =
     (if exists_wid cb (context_term ctx Metadata) (block_key (of_nat max_block_id)) s then
        (if max_block_id + 1 < 2 ^ 32 then count_blocks cb ctx (max_block_id + 1) s else Inl OverflowFault)
      else Inr max_block_id)"
  by pat_completeness auto

termination count_blocks
  by (relation "measure (\<lambda>(_, _, n, _). 2 ^ 32 - n)") auto

declare count_blocks.simps [simp del]

record load_state =
  ld_id :: "32 word"
  ld_last_used :: int
  ld_list :: "32 word list"

text \<open>The \<open>break\<close> on a full queue leaves the loop over the bits of one byte, before the identifier is
  decremented.\<close>

definition load_bit :: "byte \<Rightarrow> nat \<Rightarrow> load_state \<Rightarrow> load_state \<times> bool" where
  "load_bit b bidx st =
     (let next_st = (\<lambda>st. st\<lparr>ld_id := if ld_id st = 0 then 0 else ld_id st - 1\<rparr>) in
      if bit_used b bidx then (next_st (st\<lparr>ld_last_used := max (ld_last_used st) (int (unat (ld_id st)))\<rparr>), False)
      else if int (unat (ld_id st)) < ld_last_used st then
        (case fast_push (ld_id st) (ld_list st) of (pushed, q) \<Rightarrow>
           if pushed then (next_st (st\<lparr>ld_list := q\<rparr>), False) else (st, True))
      else (next_st st, False))"

definition load_byte :: "byte \<Rightarrow> load_state \<Rightarrow> load_state" where
  "load_byte b st = fst (scan (load_bit b) (rev [0..<8]) st)"

fun load_blocks :: "'s callbacks \<Rightarrow> 64 word \<Rightarrow> nat list \<Rightarrow> byte list \<Rightarrow> 's \<Rightarrow> load_state \<Rightarrow> fsm_error + load_state" where
  "load_blocks cb ctx [] buf s st = Inr st"
| "load_blocks cb ctx (b # bs) buf s st =
     (case read_single_wid cb (context_term ctx Metadata) (block_key (of_nat b)) buf s of
        Inl e \<Rightarrow> Inl (FsmPanic e)
      | Inr (found, block) \<Rightarrow>
          if \<not> found then Inr st
          else if 2 ^ 32 \<le> b * BLOCK_SIZE_IDS + BLOCK_SIZE_IDS - 1 then Inl (FsmPanic OverflowFault)
          else load_blocks cb ctx bs block s
                 (fold load_byte (rev block) (st\<lparr>ld_id := of_nat (b * BLOCK_SIZE_IDS + BLOCK_SIZE_IDS - 1)\<rparr>)))"

definition fsm_load_state :: "'s callbacks \<Rightarrow> 64 word \<Rightarrow> ('s, unit) fsm_op" where
  "fsm_load_state cb ctx f s =
     (case count_blocks cb ctx 0 s of
        Inl e \<Rightarrow> (Inl (FsmPanic e), f, s)
      | Inr max_block_id \<Rightarrow>
          (case load_blocks cb ctx (rev [0..<max_block_id]) (replicate BLOCK_SIZE_BYTES 0) s
                  \<lparr>ld_id = 0, ld_last_used = - 1, ld_list = fast_free_list f\<rparr> of
             Inl e \<Rightarrow> (Inl e, f, s)
           | Inr st \<Rightarrow>
               if max_block_id = 0 then (Inl (FsmPanic OverflowFault), f, s)
               else (Inr (), f\<lparr>fast_free_list := ld_list st, max_block := of_nat (max_block_id - 1),
                      fsm_next_id := of_int (ld_last_used st + 1),
                      has_free_ids := ld_list st \<noteq> [] \<or> has_free_ids f\<rparr>, s)))"

definition fsm_new :: "'s callbacks \<Rightarrow> 64 word \<Rightarrow> 's \<Rightarrow> (fsm_error + fsm) \<times> 's" where
  "fsm_new cb ctx s =
     (let this = \<lparr>has_free_ids = False, fast_free_list = [], max_block = - 1, fsm_next_id = 0\<rparr>;
          run = (if exists_wid cb (context_term ctx Metadata) (block_key 0) s then fsm_load_state cb ctx this s
                 else case indexes_for_id 0 of (block_id, _, _) \<Rightarrow> expand_to cb ctx block_id this s)
      in case run of (Inl e, _, s') \<Rightarrow> (Inl e, s') | (Inr _, f, s') \<Rightarrow> (Inr f, s'))"

section \<open>The bits of a byte\<close>

lemma bit_used_iff: "bit_used b i \<longleftrightarrow> bit b (7 - i)"
  by (simp add: bit_used_def bit_iff_and_drop_bit_eq_1)

lemma update_status_spec:
  assumes "update_status used b i = (changed, b')" "i < 8"
  shows "changed \<longleftrightarrow> bit_used b i \<noteq> used" "j < 8 \<Longrightarrow> bit_used b' j = (if j = i then used else bit_used b j)"
proof -
  define m :: byte where "m = push_bit (7 - i) 1"
  have m: "bit m n \<longleftrightarrow> n = 7 - i" for n
    using assms(2) by (auto simp: m_def bit_simps)
  have z: "b AND m = 0 \<longleftrightarrow> \<not> bit_used b i"
  proof
    assume "b AND m = 0"
    then have "\<not> bit (b AND m) (7 - i)" by simp
    then show "\<not> bit_used b i" by (simp add: bit_and_iff m bit_used_iff)
  next
    assume "\<not> bit_used b i"
    then show "b AND m = 0" by (intro bit_eqI) (auto simp: bit_and_iff m bit_used_iff)
  qed
  show "changed \<longleftrightarrow> bit_used b i \<noteq> used" using assms(1) z by (auto simp: update_status_def Let_def m_def)
  assume j: "j < 8"
  have b': "b' = (b AND NOT m) OR push_bit (7 - i) (of_bool used)" using assms(1) by (simp add: update_status_def Let_def m_def)
  have "bit (push_bit (7 - i) (of_bool used) :: byte) n \<longleftrightarrow> used \<and> n = 7 - i" for n
    using assms(2) by (cases used) (auto simp: bit_simps)
  moreover have "7 - j = 7 - i \<longleftrightarrow> j = i" using j assms(2) by auto
  moreover have "bit (NOT m) (7 - j) \<longleftrightarrow> j \<noteq> i" using j calculation(2) by (auto simp: bit_not_iff m)
  ultimately show "bit_used b' j = (if j = i then used else bit_used b j)"
    by (auto simp: b' bit_used_iff bit_or_iff bit_and_iff)
qed

lemma bit_used_full: "i < 8 \<Longrightarrow> bit_used 0xff i"
proof -
  assume "i < 8"
  then have "bit (mask 8 :: byte) (7 - i)" by (simp add: bit_mask_iff)
  moreover have "(mask 8 :: byte) = 0xff" by (simp add: mask_numeral)
  ultimately show ?thesis by (simp add: bit_used_iff)
qed

lemma bit_used_zero [simp]: "\<not> bit_used 0 i"
  by (simp add: bit_used_iff)

section \<open>Keys and blocks\<close>

lemma block_key_inj: "block_key a = block_key b \<longleftrightarrow> a = b"
proof
  assume eq: "block_key a = block_key b"
  have k: "bit (block_key x) (32 + n) \<longleftrightarrow> bit x n" if "n < 32" for x n
    using that by (simp add: block_key_def bit_or_iff bit_push_bit_iff bit_ucast_iff bit_imp_le_length [where 'a = 32])
      (auto dest: bit_imp_le_length)
  show "a = b"
  proof (rule bit_word_eqI)
    fix n assume "n < LENGTH(32)"
    then show "bit a n = bit b n" using k [of n a] k [of n b] eq by simp
  qed
qed simp

lemma wid_key_inj: "wid_key a = wid_key b \<longleftrightarrow> a = b"
proof
  assume "wid_key a = wid_key b"
  then have "unat a = unat b" unfolding wid_key_def
    by (rule le_bytes_inj) (use unat_u64 [of a] unat_u64 [of b] in simp_all)
  then show "a = b" by (rule unsigned_word_eqI)
qed simp

lemma length_wid_key [simp]: "length (wid_key k) = 8"
  by (simp add: wid_key_def)

section \<open>The abstract view\<close>

text \<open>The block a number names, and whether an identifier is in use.\<close>

definition fsm_block :: "(64 word \<Rightarrow> byte list \<Rightarrow> 's \<Rightarrow> byte list option) \<Rightarrow> 64 word \<Rightarrow> nat \<Rightarrow> 's \<Rightarrow> byte list option" where
  "fsm_block look ctx b s = look (context_term ctx Metadata) (wid_key (block_key (of_nat b))) s"

definition used_id :: "(64 word \<Rightarrow> byte list \<Rightarrow> 's \<Rightarrow> byte list option) \<Rightarrow> 64 word \<Rightarrow> 's \<Rightarrow> nat \<Rightarrow> bool" where
  "used_id look ctx s k \<longleftrightarrow> k < 2 ^ 32 \<and>
     (case fsm_block look ctx (k div 65536) s of None \<Rightarrow> False
      | Some block \<Rightarrow> bit_used (block ! (k mod 65536 div 8)) (k mod 8))"

text \<open>The blocks of the store are those up to the last one, each of the size of a block.\<close>

definition blocks_ok :: "(64 word \<Rightarrow> byte list \<Rightarrow> 's \<Rightarrow> byte list option) \<Rightarrow> 64 word \<Rightarrow> nat \<Rightarrow> 's \<Rightarrow> bool" where
  "blocks_ok look ctx m s \<longleftrightarrow> m < 65536 \<and>
     (\<forall>b < 2 ^ 32. case fsm_block look ctx b s of None \<Rightarrow> m < b | Some block \<Rightarrow> b \<le> m \<and> length block = 8192)"

definition list_ok :: "(64 word \<Rightarrow> byte list \<Rightarrow> 's \<Rightarrow> byte list option) \<Rightarrow> 64 word \<Rightarrow> fsm \<Rightarrow> 's \<Rightarrow> bool" where
  "list_ok look ctx f s \<longleftrightarrow> distinct (fast_free_list f) \<and> length (fast_free_list f) \<le> 1024
     \<and> (\<forall>i \<in> set (fast_free_list f). i < fsm_next_id f \<and> \<not> used_id look ctx s (unat i)
          \<and> unat i div 65536 \<le> unat (max_block f))
     \<and> (fast_free_list f \<noteq> [] \<longrightarrow> has_free_ids f)"

definition fsm_inv :: "(64 word \<Rightarrow> byte list \<Rightarrow> 's \<Rightarrow> byte list option) \<Rightarrow> 64 word \<Rightarrow> fsm \<Rightarrow> 's \<Rightarrow> bool" where
  "fsm_inv look ctx f s \<longleftrightarrow> blocks_ok look ctx (unat (max_block f)) s \<and> list_ok look ctx f s
     \<and> (\<forall>k. used_id look ctx s k \<longrightarrow> k < unat (fsm_next_id f))
     \<and> unat (max_block f) * 65536 \<le> unat (fsm_next_id f)"

lemma unat_of_u32 [simp]: "k < 2 ^ 32 \<Longrightarrow> unat (of_nat k :: 32 word) = k"
  by (simp add: unat_of_nat)

lemma of_nat_u32_inj: "a < 2 ^ 32 \<Longrightarrow> b < 2 ^ 32 \<Longrightarrow> (of_nat a :: 32 word) = of_nat b \<longleftrightarrow> a = b"
  using unat_of_u32 by metis

lemma block_keys_eq:
  assumes "a < 2 ^ 32" "b < 2 ^ 32"
  shows "wid_key (block_key (of_nat a)) = wid_key (block_key (of_nat b)) \<longleftrightarrow> a = b"
  using assms by (simp add: wid_key_inj block_key_inj of_nat_u32_inj)

lemma indexes_for_id_eq:
  "indexes_for_id i = (of_nat (unat i div 65536), unat i mod 65536 div 8, unat i mod 8)"
  by (simp add: indexes_for_id_def Let_def BLOCK_SIZE_IDS_def mod_mod_cancel)

lemma div_u32: "unat (i :: 32 word) div 65536 < 65536"
  using unat_u32 [of i] by (simp add: less_mult_imp_div_less)

lemma unat_block_of [simp]: "unat (of_nat (unat (i :: 32 word) div 65536) :: 32 word) = unat i div 65536"
proof (rule unat_of_u32)
  have "unat i div 65536 \<le> unat i" by (rule div_le_dividend)
  then show "unat i div 65536 < 2 ^ 32" using unat_u32 [of i] by (rule le_less_trans)
qed

text \<open>An identifier is its block, its byte and its bit.\<close>

lemma id_split_eq:
  "(k :: nat) = n \<longleftrightarrow> k div 65536 = n div 65536 \<and> k mod 65536 div 8 = n mod 65536 div 8 \<and> k mod 8 = n mod 8"
proof
  assume a: "k div 65536 = n div 65536 \<and> k mod 65536 div 8 = n mod 65536 div 8 \<and> k mod 8 = n mod 8"
  have e: "j mod 65536 = 8 * (j mod 65536 div 8) + j mod 8" for j :: nat
    using mult_div_mod_eq [of 8 "j mod 65536"] by (simp add: mod_mod_cancel)
  have "k mod 65536 = n mod 65536" by (subst (1) e, subst (2) e) (simp only: a)
  then show "k = n" using a by (metis mult_div_mod_eq)
qed simp

text \<open>What changing one block does to the identifiers in use.\<close>

definition blocks_agree :: "(64 word \<Rightarrow> byte list \<Rightarrow> 's \<Rightarrow> byte list option) \<Rightarrow> 64 word \<Rightarrow> 's \<Rightarrow> 's \<Rightarrow> bool" where
  "blocks_agree look ctx s s' \<longleftrightarrow> (\<forall>b. fsm_block look ctx b s' = fsm_block look ctx b s)"

lemma blocks_agree_used: "blocks_agree look ctx s s' \<Longrightarrow> used_id look ctx s' k = used_id look ctx s k"
  by (simp add: blocks_agree_def used_id_def)

lemma blocks_agree_inv: "blocks_agree look ctx s s' \<Longrightarrow> fsm_inv look ctx f s' = fsm_inv look ctx f s"
  by (simp add: fsm_inv_def blocks_ok_def list_ok_def blocks_agree_used) (simp add: blocks_agree_def)

lemma blocks_okD:
  assumes "blocks_ok look ctx m s" "b \<le> m"
  obtains block where "fsm_block look ctx b s = Some block" "length block = 8192"
  using assms by (auto simp: blocks_ok_def dest!: spec [of _ b] split: option.splits)

lemma used_id_block:
  assumes "used_id look ctx s k" "blocks_ok look ctx m s"
  shows "k div 65536 \<le> m"
proof -
  have "k div 65536 < 2 ^ 32" using assms(1) by (auto simp: used_id_def intro: le_less_trans [OF div_le_dividend])
  with assms show ?thesis by (auto simp: used_id_def blocks_ok_def split: option.splits)
qed

text \<open>A block in which one bit is changed.\<close>

lemma used_id_update:
  assumes old: "fsm_block look ctx b s = Some block" "length block = 8192"
    and new: "\<And>c. c < 2 ^ 32 \<Longrightarrow> fsm_block look ctx c s' = (if c = b then Some (block[n mod 65536 div 8 := byt]) else fsm_block look ctx c s)"
    and b: "b = n div 65536" and n: "n < 2 ^ 32"
    and upd: "update_status used (block ! (n mod 65536 div 8)) (n mod 8) = (changed, byt)"
  shows "used_id look ctx s' k = (if k = n then used else used_id look ctx s k)"
    "changed \<longleftrightarrow> used_id look ctx s n \<noteq> used"
proof -
  note st = update_status_spec [OF upd]
  have c: "k div 65536 < 2 ^ 32" if "k < 2 ^ 32" for k :: nat using that by (rule le_less_trans [OF div_le_dividend])
  have i: "n mod 65536 div 8 < length block" using old(2) by (simp add: less_mult_imp_div_less)
  show "changed \<longleftrightarrow> used_id look ctx s n \<noteq> used"
    using old n b st(1) by (simp add: used_id_def)
  show "used_id look ctx s' k = (if k = n then used else used_id look ctx s k)"
  proof (cases "k < 2 ^ 32 \<and> k div 65536 = b")
    case True
    then have k: "fsm_block look ctx (k div 65536) s' = Some (block[n mod 65536 div 8 := byt])" using new c by auto
    have e: "k = n \<longleftrightarrow> k mod 65536 div 8 = n mod 65536 div 8 \<and> k mod 8 = n mod 8"
      using True b by (subst id_split_eq) auto
    show ?thesis
    proof (cases "k mod 65536 div 8 = n mod 65536 div 8")
      case same: True
      have "bit_used byt (k mod 8) = (if k mod 8 = n mod 8 then used else bit_used (block ! (n mod 65536 div 8)) (k mod 8))"
        using st(2) [of "k mod 8"] by simp
      then show ?thesis using k True old(1) same e i by (simp add: used_id_def)
    next
      case False
      then show ?thesis using k True old(1) e by (simp add: used_id_def)
    qed
  next
    case False
    then have "used_id look ctx s' k = used_id look ctx s k" "k \<noteq> n" using new c b n by (auto simp: used_id_def)
    then show ?thesis by simp
  qed
qed

context garnet_callbacks
begin

lemma rmw_mark:
  assumes ok: "blocks_ok look ctx m s" and i: "unat (i :: 32 word) div 65536 \<le> m"
  obtains (marked) s' changed where
      "rmw_wid cb (context_term ctx Metadata) (block_key (of_nat (unat i div 65536))) BLOCK_SIZE_BYTES
         (mark_modifier used (unat i mod 65536 div 8) (unat i mod 8)) s = Inr (s', True, Changed changed)"
      "blocks_ok look ctx m s'" "\<forall>k. used_id look ctx s' k = (if k = unat i then used else used_id look ctx s k)"
      "changed \<longleftrightarrow> used_id look ctx s (unat i) \<noteq> used"
  | (failed) s' changed where
      "rmw_wid cb (context_term ctx Metadata) (block_key (of_nat (unat i div 65536))) BLOCK_SIZE_BYTES
         (mark_modifier used (unat i mod 65536 div 8) (unat i mod 8)) s = Inr (s', False, changed)"
      "blocks_agree look ctx s s'" "\<not> callbacks_succeed cb"
proof -
  let ?b = "unat i div 65536"
  let ?y = "unat i mod 65536 div 8"
  let ?key = "wid_key (block_key (of_nat ?b))"
  let ?c = "context_term ctx Metadata"
  let ?f = "mark_modifier used ?y (unat i mod 8)"
  obtain block where block: "fsm_block look ctx ?b s = Some block" "length block = 8192" using blocks_okD [OF ok i] .
  obtain changed byt where u: "update_status used (block ! ?y) (unat i mod 8) = (changed, byt)" by (cases "update_status used (block ! ?y) (unat i mod 8)")
  have y: "?y < 8192" by (simp add: less_mult_imp_div_less)
  have f: "?f (case look ?c ?key s of Some v \<Rightarrow> v | None \<Rightarrow> replicate BLOCK_SIZE_BYTES 0) = Inr (block[?y := byt], Changed changed)"
    using block y u by (simp add: mark_modifier_def fsm_block_def)
  have "\<exists>r. rmw_callback cb ?c ?key BLOCK_SIZE_BYTES ?f s = Inr r"
  proof (cases "rmw_callback cb ?c ?key BLOCK_SIZE_BYTES ?f s")
    case (Inl e)
    from rmw_panic [OF this] f show ?thesis by simp
  qed blast
  then obtain s' fin flag where r: "rmw_callback cb ?c ?key BLOCK_SIZE_BYTES ?f s = Inr (s', fin, flag)" by (metis surj_pair)
  show thesis
  proof (cases fin)
    case True
    with r have r': "rmw_callback cb ?c ?key BLOCK_SIZE_BYTES ?f s = Inr (s', True, flag)" by simp
    from rmw_success [OF r'] f
    have flag: "flag = Changed changed" and look': "\<And>k. look ?c k s' = (if k = ?key then Some (block[?y := byt]) else look ?c k s)" by auto
    have "?b < 2 ^ 32" using div_u32 [of i] by simp
    then have new: "fsm_block look ctx c s' = (if c = ?b then Some (block[?y := byt]) else fsm_block look ctx c s)" if "c < 2 ^ 32" for c
      using that look' [of "wid_key (block_key (of_nat c))"] block_keys_eq [of c ?b] by (simp add: fsm_block_def)
    note upd = used_id_update [OF block new refl unat_u32 u]
    have ok': "blocks_ok look ctx m s'"
      using ok new i block(2) by (auto simp: blocks_ok_def split: option.splits)
    have "rmw_wid cb ?c (block_key (of_nat ?b)) BLOCK_SIZE_BYTES ?f s = Inr (s', True, Changed changed)"
      using r True flag by (simp add: rmw_wid_def)
    then show ?thesis by (rule marked) (use ok' upd in blast)+
  next
    case False
    with r have r': "rmw_callback cb ?c ?key BLOCK_SIZE_BYTES ?f s = Inr (s', False, flag)" by simp
    then have "blocks_agree look ctx s s'" using rmw_failure [OF r'] by (simp add: blocks_agree_def fsm_block_def)
    moreover have "rmw_wid cb ?c (block_key (of_nat ?b)) BLOCK_SIZE_BYTES ?f s = Inr (s', False, flag)"
      using r False by (simp add: rmw_wid_def)
    ultimately show ?thesis using callbacks_succeedD(3) [OF _ r'] by (intro failed) auto
  qed
qed

end

section \<open>Marking\<close>

lemma unat_max_block:
  assumes "unat (m :: 32 word) < 65536"
  shows "m \<noteq> - 1" "\<not> m < of_nat (unat (i :: 32 word) div 65536) \<longleftrightarrow> unat i div 65536 \<le> unat m"
proof -
  have "unat (- 1 :: 32 word) = 2 ^ 32 - 1" by (simp add: unsigned_minus_1_eq_mask mask_eq_exp_minus_1)
  then show "m \<noteq> - 1" using assms by auto
  show "\<not> m < of_nat (unat i div 65536) \<longleftrightarrow> unat i div 65536 \<le> unat m"
    by (simp only: word_less_nat_alt unat_block_of not_less)
qed

lemma blocks_ok_less: "blocks_ok look ctx m s \<Longrightarrow> m < 65536"
  by (simp add: blocks_ok_def)

definition pushed_if :: "bool \<Rightarrow> 32 word \<Rightarrow> fsm \<Rightarrow> fsm" where
  "pushed_if c i f = (if c then f\<lparr>fast_free_list := snd (fast_push i (fast_free_list f)), has_free_ids := True\<rparr> else f)"

lemma pushed_if_simps [simp]:
  "pushed_if False i f = f" "max_block (pushed_if c i f) = max_block f" "fsm_next_id (pushed_if c i f) = fsm_next_id f"
  "c \<Longrightarrow> has_free_ids (pushed_if c i f)" "has_free_ids f \<Longrightarrow> has_free_ids (pushed_if c i f)"
  by (simp_all add: pushed_if_def)

lemma mark_id_out_of_range: "fsm_next_id f \<le> i \<Longrightarrow> mark_id cb ctx i used f s = (Inl (IdOutOfRange i), f, s)"
  by (simp add: mark_id_def)

lemma mark_id_no_block:
  assumes "i < fsm_next_id f" "unat (max_block f) < unat i div 65536"
  shows "mark_id cb ctx i used f s = (Inl (Garnet ReadError), f, s)"
proof -
  have "max_block f < of_nat (unat i div 65536)" using assms(2) by (simp only: word_less_nat_alt unat_block_of)
  then show ?thesis using assms(1) by (simp add: mark_id_def indexes_for_id_eq not_le)
qed

context garnet_callbacks
begin

lemma mark_id_run:
  assumes ok: "blocks_ok look ctx (unat (max_block f)) s" and i: "unat i div 65536 \<le> unat (max_block f)" "i < fsm_next_id f"
  obtains (marked) s' where
      "mark_id cb ctx i used f s = (Inr (used_id look ctx s (unat i) \<noteq> used),
         pushed_if (\<not> used \<and> used_id look ctx s (unat i)) i f, s')"
      "blocks_ok look ctx (unat (max_block f)) s'"
      "\<forall>k. used_id look ctx s' k = (if k = unat i then used else used_id look ctx s k)"
  | (failed) s' where "mark_id cb ctx i used f s = (Inl (Garnet WriteError), f, s')" "blocks_agree look ctx s s'"
      "\<not> callbacks_succeed cb"
proof -
  have g: "max_block f \<noteq> - 1" "\<not> max_block f < of_nat (unat i div 65536)" "\<not> fsm_next_id f \<le> i"
    using unat_max_block(1) [OF blocks_ok_less [OF ok]] unat_max_block(2) [OF blocks_ok_less [OF ok], of i] i by auto
  have start: "mark_id cb ctx i used f s =
    (case rmw_wid cb (context_term ctx Metadata) (block_key (of_nat (unat i div 65536))) BLOCK_SIZE_BYTES
            (mark_modifier used (unat i mod 65536 div 8) (unat i mod 8)) s of
       Inl e \<Rightarrow> (Inl (FsmPanic e), f, s)
     | Inr (s', ok, var) \<Rightarrow>
         let changed = (var = Changed True) in
         if \<not> ok then (Inl (Garnet WriteError), f, s')
         else if \<not> used \<and> changed then
           (Inr changed, f\<lparr>fast_free_list := snd (fast_push i (fast_free_list f)), has_free_ids := True\<rparr>, s')
         else (Inr changed, f, s'))"
    using g by (simp add: mark_id_def indexes_for_id_eq)
  from ok i(1) show thesis
  proof (cases rule: rmw_mark [where used = used])
    case (marked s' changed)
    show ?thesis
      by (rule that(1) [of s']) (use marked start in \<open>auto simp: pushed_if_def Let_def\<close>)
  next
    case (failed s' changed)
    show ?thesis by (rule that(2) [of s']) (use failed start in auto)
  qed
qed

lemma is_free_run:
  assumes ok: "blocks_ok look ctx (unat (max_block f)) s" and i: "unat i div 65536 \<le> unat (max_block f)" "i < fsm_next_id f"
  shows "fsm_is_free cb ctx i f s = Inr (\<not> used_id look ctx s (unat i))"
proof -
  obtain block where b: "fsm_block look ctx (unat i div 65536) s = Some block" "length block = 8192" using blocks_okD [OF ok i(1)] .
  have "read_single_wid cb (context_term ctx Metadata) (block_key (of_nat (unat i div 65536))) (replicate BLOCK_SIZE_BYTES 0) s
      = Inr (True, block)"
    using b by (simp add: read_single_wid_def read_single_raw_eq fsm_block_def BLOCK_SIZE_BYTES_def)
  moreover have "max_block f \<noteq> - 1" "\<not> max_block f < of_nat (unat i div 65536)" "\<not> fsm_next_id f \<le> i"
    using unat_max_block(1) [OF blocks_ok_less [OF ok]] unat_max_block(2) [OF blocks_ok_less [OF ok], of i] i by auto
  ultimately show ?thesis using b unat_u32 [of i] by (simp add: fsm_is_free_def indexes_for_id_eq used_id_def)
qed

end

lemma fsm_inv_push:
  assumes inv: "fsm_inv look ctx f s" and ok: "blocks_ok look ctx (unat (max_block f)) s'"
    and u: "\<forall>k. used_id look ctx s' k = (if k = unat i then False else used_id look ctx s k)"
    and i: "i < fsm_next_id f" "unat i div 65536 \<le> unat (max_block f)"
  shows "fsm_inv look ctx (pushed_if (used_id look ctx s (unat i)) i f) s'"
proof -
  have l: "list_ok look ctx f s" using inv by (simp add: fsm_inv_def)
  have "list_ok look ctx (pushed_if (used_id look ctx s (unat i)) i f) s'"
    using l u i by (auto simp: list_ok_def pushed_if_def fast_push_def FAST_SIZE_def)
  then show ?thesis using inv ok u by (auto simp: fsm_inv_def)
qed

section \<open>Refilling\<close>

lemma scan_rule:
  assumes "I 0 st" and "\<And>j st. j < length xs \<Longrightarrow> I j st \<Longrightarrow>
      (case body (xs ! j) st of (st', stop) \<Rightarrow> if stop then S st' else I (Suc j) st')"
  shows "case scan body xs st of (st', stop) \<Rightarrow> if stop then S st' else I (length xs) st'"
  using assms
proof (induction xs arbitrary: I st)
  case (Cons x xs)
  obtain st' stop where b: "body x st = (st', stop)" by (cases "body x st")
  have one: "if stop then S st' else I (Suc 0) st'" using Cons.prems(2) [of 0 st] Cons.prems(1) b by auto
  show ?case
  proof (cases stop)
    case False
    have "case scan body xs st' of (st'', stop) \<Rightarrow> if stop then S st'' else I (Suc (length xs)) st''"
    proof (rule Cons.IH [of "\<lambda>j. I (Suc j)"])
      show "I (Suc 0) st'" using one False by simp
      show "\<And>j st. j < length xs \<Longrightarrow> I (Suc j) st \<Longrightarrow>
          (case body (xs ! j) st of (st', stop) \<Rightarrow> if stop then S st' else I (Suc (Suc j)) st')"
        using Cons.prems(2) [of "Suc j" for j] by simp
    qed
    then show ?thesis using b False by (simp split: prod.splits)
  qed (use b one in simp)
qed simp

text \<open>The queue holds the first free identifiers below a bound, in increasing order.\<close>

definition refilled :: "(nat \<Rightarrow> bool) \<Rightarrow> bool \<Rightarrow> nat \<Rightarrow> refill_state \<Rightarrow> bool" where
  "refilled free flag n st \<longleftrightarrow> rf_list st = map of_nat (take 1024 (filter free [0..<n]))
     \<and> rf_has st = (\<exists>j<n. free j) \<and> rf_flag st = (flag \<or> rf_has st)"

lemma refilled_used: "\<not> free k \<Longrightarrow> refilled free flag (Suc k) st = refilled free flag k st"
  by (auto simp: refilled_def less_Suc_eq)

lemma refill_bit_step:
  assumes "refilled free flag k st" "rf_id st = of_nat k" "k < n" "bit_used b t \<longleftrightarrow> \<not> free k"
  shows "case refill_bit b t st of (st', stop) \<Rightarrow>
    if stop then refilled free flag n st' else refilled free flag (Suc k) st' \<and> rf_id st' = of_nat (Suc k)"
proof (cases "free k")
  case True
  show ?thesis
  proof (cases "length (rf_list st) < 1024")
    case room: True
    then have "length (filter free [0..<k]) < 1024" using assms(1) by (simp add: refilled_def)
    then show ?thesis using assms True room by (auto simp: refill_bit_def refilled_def fast_push_def FAST_SIZE_def add.commute)
  next
    case False
    then have len: "1024 \<le> length (filter free [0..<k])" using assms(1) by (simp add: refilled_def)
    have "[0..<n] = [0..<k] @ [k..<n]" using upt_add_eq_append [of 0 k "n - k"] assms(3) by simp
    then have "take 1024 (filter free [0..<n]) = take 1024 (filter free [0..<k])" using len by simp
    then show ?thesis using assms True False by (auto simp: refill_bit_def refilled_def fast_push_def FAST_SIZE_def)
  qed
next
  case False
  then show ?thesis using assms by (auto simp: refill_bit_def refilled_def add.commute less_Suc_eq)
qed

lemma refill_byte_step:
  assumes r: "refilled free flag k st" "rf_id st = of_nat k" and n: "k + 8 \<le> n"
    and bits: "\<And>t. t < 8 \<Longrightarrow> bit_used b t \<longleftrightarrow> \<not> free (k + t)"
  shows "case refill_byte b st of (st', stop) \<Rightarrow>
    if stop then refilled free flag n st' else refilled free flag (k + 8) st' \<and> rf_id st' = of_nat (k + 8)"
proof (cases "b = 0xff")
  case True
  then have "\<not> free (k + t)" if "t < 8" for t using bits [OF that] bit_used_full [OF that] by simp
  then have "refilled free flag (k + t) st" if "t \<le> 8" for t
    using that by (induction t) (use r(1) in \<open>simp_all add: refilled_used\<close>)
  then have "refilled free flag (k + 8) st" by simp
  then show ?thesis using True r(2) by (simp add: refill_byte_def refilled_def add.commute)
next
  case False
  let ?I = "\<lambda>j st. refilled free flag (k + j) st \<and> rf_id st = of_nat (k + j)"
  have "case scan (refill_bit b) [0..<8] st of (st', stop) \<Rightarrow>
      if stop then refilled free flag n st' else ?I (length [0..<8]) st'"
  proof (rule scan_rule)
    show "?I 0 st" using r by simp
    fix j st assume "j < length [0..<8::nat]" "?I j st"
    then show "case refill_bit b ([0..<8] ! j) st of (st', stop) \<Rightarrow> if stop then refilled free flag n st' else ?I (Suc j) st'"
      using refill_bit_step [of free flag "k + j" st n b j] n bits [of j] by (auto split: prod.splits if_splits)
  qed
  then show ?thesis using False by (auto simp: refill_byte_def split: prod.splits if_splits)
qed

context garnet_callbacks
begin

lemma read_block:
  assumes "fsm_block look ctx b s = Some block" "length block = 8192" "length buf = 8192"
  shows "read_single_wid cb (context_term ctx Metadata) (block_key (of_nat b)) buf s = Inr (True, block)"
  using assms by (simp add: read_single_wid_def read_single_raw_eq fsm_block_def)

lemma block_bit:
  assumes "fsm_block look ctx b s = Some block" "b < 65536" "y < 8192" "t < 8"
  shows "bit_used (block ! y) t \<longleftrightarrow> used_id look ctx s (b * 65536 + 8 * y + t)"
proof -
  have r: "8 * y + t < 65536" using assms by simp
  have "(b * 65536 + (8 * y + t)) div 65536 = b" "(b * 65536 + (8 * y + t)) mod 65536 = 8 * y + t" using r by simp_all
  moreover have "(8 * y + t) div 8 = y" using assms(4) by simp
  moreover have "(b * 65536 + (8 * y + t)) mod 8 = t"
  proof -
    have "b * 65536 + (8 * y + t) = 8 * (b * 8192 + y) + t" by simp
    then show ?thesis using assms(4) by (simp only: mod_mult_self4) simp
  qed
  moreover have "b * 65536 + (8 * y + t) < 2 ^ 32" using r assms(2) by simp
  ultimately show ?thesis using assms(1) by (simp add: used_id_def add.assoc)
qed

lemma refill_blocks_run:
  assumes ok: "blocks_ok look ctx m s" and "b \<le> e" "e \<le> m" "e * 65536 \<le> n"
    and r: "refilled (\<lambda>k. \<not> used_id look ctx s k) flag (b * 65536) st" "rf_id st = of_nat (b * 65536)" and n: "n = e * 65536"
  shows "\<exists>st'. refill_blocks cb ctx [b..<e] s st = (st', None) \<and> refilled (\<lambda>k. \<not> used_id look ctx s k) flag n st'"
  using assms(2) r
proof (induction "e - b" arbitrary: b st)
  case 0
  then show ?case using n by simp
next
  case (Suc d)
  let ?free = "\<lambda>k. \<not> used_id look ctx s k"
  have b: "b < e" "b < 65536" "b \<le> m" "[b..<e] = b # [Suc b..<e]"
    using Suc.hyps(2) assms(3) blocks_ok_less [OF ok] by (auto simp: upt_conv_Cons)
  obtain block where block: "fsm_block look ctx b s = Some block" "length block = 8192" using blocks_okD [OF ok b(3)] .
  let ?I = "\<lambda>j st. refilled ?free flag (b * 65536 + 8 * j) st \<and> rf_id st = of_nat (b * 65536 + 8 * j)"
  have "Suc b * 65536 \<le> n" using b(1) n by (simp only: mult_le_mono1 Suc_leI)
  then have le: "b * 65536 + 65536 \<le> n" by simp
  have sc: "case scan refill_byte block st of (st', stop) \<Rightarrow> if stop then refilled ?free flag n st' else ?I (length block) st'"
  proof (rule scan_rule)
    show "?I 0 st" using Suc.prems by simp
    fix j st assume j: "j < length block" "?I j st"
    have "bit_used (block ! j) t \<longleftrightarrow> \<not> ?free (b * 65536 + 8 * j + t)" if "t < 8" for t
      using block_bit [OF block(1) b(2) _ that, of j] j(1) block(2) by simp
    moreover have "b * 65536 + 8 * j + 8 \<le> n" using le j(1) block(2) by simp
    ultimately have step: "case refill_byte (block ! j) st of (st', stop) \<Rightarrow> if stop then refilled ?free flag n st'
        else refilled ?free flag (b * 65536 + 8 * j + 8) st' \<and> rf_id st' = of_nat (b * 65536 + 8 * j + 8)"
      using j(2) by (intro refill_byte_step) blast+
    have e: "b * 65536 + 8 * j + 8 = b * 65536 + 8 * Suc j" by simp
    show "case refill_byte (block ! j) st of (st', stop) \<Rightarrow> if stop then refilled ?free flag n st' else ?I (Suc j) st'"
      using step unfolding e .
  qed
  obtain st' stop where st': "scan refill_byte block st = (st', stop)" by (cases "scan refill_byte block st")
  have read: "read_single_wid cb (context_term ctx Metadata) (block_key (of_nat b)) (replicate BLOCK_SIZE_BYTES 0) s = Inr (True, block)"
    using read_block [OF block] by (simp add: BLOCK_SIZE_BYTES_def)
  show ?case
  proof (cases stop)
    case True
    then show ?thesis using sc st' read b(4) by simp
  next
    case False
    then have "refilled ?free flag (Suc b * 65536) st'" "rf_id st' = of_nat (Suc b * 65536)"
      using sc st' block(2) by (simp_all add: add.commute)
    moreover have "d = e - Suc b" "Suc b \<le> e" using Suc.hyps(2) b(1) by simp_all
    ultimately obtain st'' where "refill_blocks cb ctx [Suc b..<e] s st' = (st'', None)" "refilled ?free flag n st''"
      using Suc.hyps(1) by blast
    then show ?thesis using st' False read b(4) by simp
  qed
qed

end

text \<open>The identifiers a refill finds: free ones of all blocks but the last.\<close>

definition refill_ids :: "(64 word \<Rightarrow> byte list \<Rightarrow> 's \<Rightarrow> byte list option) \<Rightarrow> 64 word \<Rightarrow> fsm \<Rightarrow> 's \<Rightarrow> nat list" where
  "refill_ids look ctx f s = take 1024 (filter (\<lambda>k. \<not> used_id look ctx s k) [0..<unat (max_block f) * 65536])"

definition refill_result :: "(64 word \<Rightarrow> byte list \<Rightarrow> 's \<Rightarrow> byte list option) \<Rightarrow> 64 word \<Rightarrow> fsm \<Rightarrow> 's \<Rightarrow> fsm" where
  "refill_result look ctx f s =
     f\<lparr>fast_free_list := map of_nat (refill_ids look ctx f s), has_free_ids := refill_ids look ctx f s \<noteq> []\<rparr>"

lemma refill_ids_less:
  assumes "k \<in> set (refill_ids look ctx f s)"
  shows "k < unat (max_block f) * 65536" "\<not> used_id look ctx s k"
  using assms by (auto simp: refill_ids_def dest: in_set_takeD)

lemma refill_ids_empty: "refill_ids look ctx f s = [] \<longleftrightarrow> (\<forall>k < unat (max_block f) * 65536. used_id look ctx s k)"
  by (auto simp: refill_ids_def filter_empty_conv)

lemma u32_bound:
  assumes "blocks_ok look ctx m s"
  shows "m * 65536 < 2 ^ 32"
  using blocks_ok_less [OF assms] by simp

lemma refill_inv:
  assumes inv: "fsm_inv look ctx f s"
  shows "fsm_inv look ctx (refill_result look ctx f s) s"
proof -
  let ?ids = "refill_ids look ctx f s" and ?m = "unat (max_block f)"
  have ok: "blocks_ok look ctx ?m s" and le: "?m * 65536 \<le> unat (fsm_next_id f)" using inv by (simp_all add: fsm_inv_def)
  note b = u32_bound [OF ok]
  have k: "k < 2 ^ 32" "unat (of_nat k :: 32 word) = k" "k < unat (fsm_next_id f)" "k div 65536 \<le> ?m" "\<not> used_id look ctx s k"
    if "k \<in> set ?ids" for k
  proof -
    note l = refill_ids_less [OF that]
    show s: "k < 2 ^ 32" using l(1) b by (rule less_trans)
    then show "unat (of_nat k :: 32 word) = k" by (rule unat_of_u32)
    show "k < unat (fsm_next_id f)" using l(1) le by (rule less_le_trans)
    have "k div 65536 < ?m" using l(1) by (simp add: less_mult_imp_div_less)
    then show "k div 65536 \<le> ?m" by simp
  qed (rule refill_ids_less(2) [OF that])
  have "distinct ?ids" by (simp add: refill_ids_def)
  moreover have "inj_on (of_nat :: nat \<Rightarrow> 32 word) (set ?ids)" by (rule inj_onI) (metis k(2))
  ultimately have d: "distinct (map (of_nat :: nat \<Rightarrow> 32 word) ?ids)" by (simp add: distinct_map)
  have "length ?ids \<le> 1024" by (simp add: refill_ids_def)
  then have "list_ok look ctx (refill_result look ctx f s) s"
    using d k by (auto simp: list_ok_def refill_result_def word_less_nat_alt simp del: unat_of_u32)
  then show ?thesis using inv by (simp add: fsm_inv_def refill_result_def)
qed

context garnet_callbacks
begin

lemma refill_run:
  assumes ok: "blocks_ok look ctx (unat (max_block f)) s" and e: "fast_free_list f = []"
  shows "refill_fast_free_list cb ctx f s = (Inr (refill_ids look ctx f s \<noteq> []), refill_result look ctx f s, s)"
proof -
  let ?m = "unat (max_block f)" and ?free = "\<lambda>k. \<not> used_id look ctx s k"
  let ?st = "\<lparr>rf_id = 0, rf_list = [], rf_has = False, rf_flag = has_free_ids f\<rparr>"
  have "refilled ?free (has_free_ids f) (0 * 65536) ?st" "rf_id ?st = of_nat (0 * 65536)" by (simp_all add: refilled_def)
  from refill_blocks_run [OF ok _ order_refl order_refl this refl]
  obtain st' where st': "refill_blocks cb ctx [0..<?m] s ?st = (st', None)" "refilled ?free (has_free_ids f) (?m * 65536) st'" by auto
  have "rf_list st' = map of_nat (refill_ids look ctx f s)" "rf_has st' = (refill_ids look ctx f s \<noteq> [])"
    "rf_flag st' = (has_free_ids f \<or> rf_has st')"
    using st'(2) by (auto simp: refilled_def refill_ids_def filter_empty_conv)
  then show ?thesis using e st'(1) by (auto simp: refill_fast_free_list_def refill_result_def)
qed

end

section \<open>Handing out identifiers\<close>

text \<open>What \<open>next_id\<close> has done when it returns: the identifier it returns was free and is now in use, and
  nothing else changed; on an error nothing changed in the store.\<close>

definition handed_out ::
  "(64 word \<Rightarrow> byte list \<Rightarrow> 's \<Rightarrow> byte list option) \<Rightarrow> 64 word \<Rightarrow> 's \<Rightarrow> fsm_error + 32 word \<Rightarrow> fsm \<Rightarrow> 's \<Rightarrow> bool" where
  "handed_out look ctx s r f' s' \<longleftrightarrow>
     (case r of
        Inl e \<Rightarrow> (\<forall>k. used_id look ctx s' k = used_id look ctx s k) \<and> (\<forall>x. e \<noteq> FsmPanic x)
      | Inr i \<Rightarrow> \<not> used_id look ctx s (unat i) \<and> i < fsm_next_id f'
          \<and> (\<forall>k. used_id look ctx s' k = (k = unat i \<or> used_id look ctx s k)))"

lemma fsm_inv_pop:
  assumes inv: "fsm_inv look ctx f s" and l: "fast_free_list f = i # rest"
    and ok: "blocks_ok look ctx (unat (max_block f)) s'"
    and u: "\<forall>k. used_id look ctx s' k = (if k = unat i then True else used_id look ctx s k)"
  shows "fsm_inv look ctx (f\<lparr>fast_free_list := rest\<rparr>) s'"
proof -
  have "list_ok look ctx f s" using inv by (simp add: fsm_inv_def)
  then have "list_ok look ctx (f\<lparr>fast_free_list := rest\<rparr>) s'" "i < fsm_next_id f"
    using l u by (auto simp: list_ok_def dest!: unsigned_word_eqI)
  then show ?thesis using inv ok u by (auto simp: fsm_inv_def word_less_nat_alt)
qed

lemma fsm_inv_tl:
  assumes "fsm_inv look ctx f s" "fast_free_list f = i # rest"
  shows "fsm_inv look ctx (f\<lparr>fast_free_list := rest\<rparr>) s"
  using assms by (auto simp: fsm_inv_def list_ok_def)

context garnet_callbacks
begin

text \<open>Taking the oldest freed identifier: it is always marked, so the loop does not come back.\<close>

lemma pop_run:
  assumes inv: "fsm_inv look ctx f s" and l: "fast_free_list f = i # rest"
  obtains (got) s' where "mark_used cb ctx i (f\<lparr>fast_free_list := rest\<rparr>) s = (Inr True, f\<lparr>fast_free_list := rest\<rparr>, s')"
      "fsm_inv look ctx (f\<lparr>fast_free_list := rest\<rparr>) s'" "handed_out look ctx s (Inr i) (f\<lparr>fast_free_list := rest\<rparr>) s'"
  | (failed) s' where "mark_used cb ctx i (f\<lparr>fast_free_list := rest\<rparr>) s = (Inl (Garnet WriteError), f\<lparr>fast_free_list := rest\<rparr>, s')"
      "fsm_inv look ctx (f\<lparr>fast_free_list := rest\<rparr>) s'"
      "handed_out look ctx s (Inl (Garnet WriteError)) (f\<lparr>fast_free_list := rest\<rparr>) s'" "\<not> callbacks_succeed cb"
proof -
  let ?f = "f\<lparr>fast_free_list := rest\<rparr>"
  have ok: "blocks_ok look ctx (unat (max_block ?f)) s" using inv by (simp add: fsm_inv_def)
  have i: "i < fsm_next_id ?f" "\<not> used_id look ctx s (unat i)" "unat i div 65536 \<le> unat (max_block ?f)"
    using inv l by (simp_all add: fsm_inv_def list_ok_def)
  from ok i(3,1) show thesis
  proof (cases rule: mark_id_run [where used = True])
    case (marked s')
    have v: "fsm_inv look ctx ?f s'" using fsm_inv_pop [OF inv l _ marked(3)] marked(2) by simp
    have h: "handed_out look ctx s (Inr i) ?f s'" using marked(3) i by (auto simp: handed_out_def)
    have "mark_used cb ctx i ?f s = (Inr True, ?f, s')" using marked(1) i(2) by (simp add: mark_used_def)
    from got [OF this v h] show ?thesis .
  next
    case (failed s')
    have v: "fsm_inv look ctx ?f s'" using fsm_inv_tl [OF inv l] by (simp only: blocks_agree_inv [OF failed(2)])
    have h: "handed_out look ctx s (Inl (Garnet WriteError)) ?f s'"
      using blocks_agree_used [OF failed(2)] by (simp add: handed_out_def)
    have "mark_used cb ctx i ?f s = (Inl (Garnet WriteError), ?f, s')" using failed(1) by (simp add: mark_used_def)
    from that(2) [OF this v h failed(3)] show ?thesis .
  qed
qed

lemma reuse_run:
  assumes inv: "fsm_inv look ctx f s"
  obtains (none) f' where "reuse_loop cb ctx f s = Some (Inr None, f', s)" "fsm_inv look ctx f' s" "fsm_next_id f' = fsm_next_id f"
      "max_block f' = max_block f"
  | (got) i f' s' where "reuse_loop cb ctx f s = Some (Inr (Some i), f', s')" "fsm_inv look ctx f' s'" "handed_out look ctx s (Inr i) f' s'"
      "fsm_next_id f' = fsm_next_id f"
  | (failed) e f' s' where "reuse_loop cb ctx f s = Some (Inl e, f', s')" "fsm_inv look ctx f' s'" "handed_out look ctx s (Inl e) f' s'"
      "fsm_next_id f' = fsm_next_id f" "\<not> callbacks_succeed cb"
proof (cases "fast_free_list f")
  case (Cons i rest)
  from inv Cons show thesis
  proof (cases rule: pop_run)
    case got: (got s')
    show ?thesis by (rule that(2) [of i "f\<lparr>fast_free_list := rest\<rparr>" s']) (use got Cons in \<open>simp_all add: reuse_loop.simps\<close>)
  next
    case failed: (failed s')
    show ?thesis by (rule that(3) [of "Garnet WriteError" "f\<lparr>fast_free_list := rest\<rparr>" s']) (use failed Cons in \<open>simp_all add: reuse_loop.simps\<close>)
  qed
next
  case Nil
  let ?f = "refill_result look ctx f s"
  have ok: "blocks_ok look ctx (unat (max_block f)) s" using inv by (simp add: fsm_inv_def)
  note r = refill_run [OF ok Nil] refill_inv [OF inv]
  have nx: "fsm_next_id ?f = fsm_next_id f" "max_block ?f = max_block f" by (simp_all add: refill_result_def)
  show thesis
  proof (cases "refill_ids look ctx f s")
    case none: Nil
    show ?thesis by (rule that(1) [of ?f]) (use Nil r none nx in \<open>simp_all add: reuse_loop.simps\<close>)
  next
    case (Cons k ks)
    then have l: "fast_free_list ?f = of_nat k # map of_nat ks" by (simp add: refill_result_def)
    from r(2) l show ?thesis
    proof (cases rule: pop_run)
      case got: (got s')
      show ?thesis by (rule that(2) [of "of_nat k" "?f\<lparr>fast_free_list := map of_nat ks\<rparr>" s']) (use got Cons Nil r l nx in \<open>simp_all add: reuse_loop.simps\<close>)
    next
      case failed: (failed s')
      show ?thesis by (rule that(3) [of "Garnet WriteError" "?f\<lparr>fast_free_list := map of_nat ks\<rparr>" s']) (use failed Cons Nil r l nx in \<open>simp_all add: reuse_loop.simps\<close>)
    qed
  qed
qed

end

section \<open>Minting\<close>

lemma unat_Suc_u32: "unat (x :: 32 word) + 1 < 2 ^ 32 \<Longrightarrow> unat (x + 1) = unat x + 1"
  by (simp add: unat_word_ariths)

lemma new_block:
  assumes ok: "blocks_ok look ctx m s" and m: "Suc m < 65536"
    and new: "\<And>c. c < 2 ^ 32 \<Longrightarrow> fsm_block look ctx c s' = (if c = Suc m then Some (replicate 8192 0) else fsm_block look ctx c s)"
  shows "blocks_ok look ctx (Suc m) s'" "used_id look ctx s' k = used_id look ctx s k"
proof -
  have old: "fsm_block look ctx (Suc m) s = None" using ok m by (auto simp: blocks_ok_def dest!: spec [of _ "Suc m"] split: option.splits)
  show "blocks_ok look ctx (Suc m) s'"
    unfolding blocks_ok_def
  proof (intro conjI allI impI)
    fix b :: nat assume b: "b < 2 ^ 32"
    show "case fsm_block look ctx b s' of None \<Rightarrow> Suc m < b | Some block \<Rightarrow> b \<le> Suc m \<and> length block = 8192"
      using ok b new [OF b] by (auto simp: blocks_ok_def dest!: spec [of _ b] split: option.splits)
  qed (rule m)
  have i: "k mod 65536 div 8 < 8192" by (simp add: less_mult_imp_div_less)
  show "used_id look ctx s' k = used_id look ctx s k"
  proof (cases "k < 2 ^ 32")
    case True
    then have "k div 65536 < 2 ^ 32" by (rule le_less_trans [OF div_le_dividend])
    from new [OF this] old i show ?thesis by (simp add: used_id_def)
  qed (simp add: used_id_def)
qed

context garnet_callbacks
begin

lemma expand_run:
  assumes ok: "blocks_ok look ctx (unat (max_block f)) s" and b: "unat (max_block f) < unat i div 65536"
  obtains (added) s' where "expand_to cb ctx i f s = (Inr (), f\<lparr>max_block := max_block f + 1\<rparr>, s')"
      "unat (max_block f + 1) = unat i div 65536" "blocks_ok look ctx (unat i div 65536) s'"
      "\<forall>k. used_id look ctx s' k = used_id look ctx s k"
  | (failed) s' e where "expand_to cb ctx i f s = (Inl e, f, s')" "blocks_agree look ctx s s'" "\<forall>x. e \<noteq> FsmPanic x"
      "\<not> callbacks_succeed cb \<or> Suc (unat (max_block f)) < unat i div 65536"
proof -
  let ?m = "unat (max_block f)" and ?b = "unat i div 65536"
  have bb: "?b < 65536" by (rule div_u32)
  have m1: "unat (max_block f + 1) = Suc ?m" using b bb unat_Suc_u32 [of "max_block f"] by simp
  have eq: "(of_nat ?b = max_block f + 1) \<longleftrightarrow> ?b = Suc ?m"
    using m1 unat_block_of [of i] by (metis unsigned_word_eqI)
  have no: "max_block f \<noteq> - 1" using unat_max_block(1) b bb by (meson less_trans)
  show thesis
  proof (cases "?b = Suc ?m")
    case True
    obtain s' ok' where w: "write_wid cb (context_term ctx Metadata) (block_key (of_nat ?b)) (replicate BLOCK_SIZE_BYTES 0) s = (s', ok')"
      by (metis surj_pair)
    have law: "look (context_term ctx Metadata) k s' = (if ok' \<and> k = wid_key (block_key (of_nat ?b)) then Some (replicate 8192 0)
        else look (context_term ctx Metadata) k s)" for k
      using write_law [OF w [unfolded write_wid_def]] by (simp add: BLOCK_SIZE_BYTES_def)
    have b32: "Suc ?m < 2 ^ 32" using bb True by simp
    show ?thesis
    proof (cases ok')
      case good: True
      have "fsm_block look ctx c s' = (if c = Suc ?m then Some (replicate 8192 0) else fsm_block look ctx c s)" if "c < 2 ^ 32" for c
        using law [of "wid_key (block_key (of_nat c))"] good block_keys_eq [OF that b32] True by (simp add: fsm_block_def)
      note nb = new_block [OF ok bb [unfolded True] this]
      have run: "expand_to cb ctx i f s = (Inr (), f\<lparr>max_block := max_block f + 1\<rparr>, s')"
        using w good True no eq by (simp add: expand_to_def indexes_for_id_eq)
      show ?thesis by (rule added [OF run]) (use nb True m1 in auto)
    next
      case False
      then have "blocks_agree look ctx s s'" using law by (simp add: blocks_agree_def fsm_block_def)
      moreover have "expand_to cb ctx i f s = (Inl (Garnet WriteError), f, s')"
        using w False True no eq by (simp add: expand_to_def indexes_for_id_eq)
      moreover have "\<not> callbacks_succeed cb" using callbacks_succeedD(1) [OF _ w [unfolded write_wid_def]] False by auto
      ultimately show ?thesis using failed [of "Garnet WriteError" s'] by blast
    qed
  next
    case False
    then have "max_block f + 1 < of_nat ?b" using b m1 by (simp only: word_less_nat_alt unat_block_of)
    then have "expand_to cb ctx i f s = (Inl (IdOutOfRange i), f, s)"
      using False no eq by (simp add: expand_to_def indexes_for_id_eq)
    then show ?thesis by (rule failed) (use b False in \<open>simp_all add: blocks_agree_def\<close>)
  qed
qed

text \<open>Minting: the next identifier is free, so it is marked at once.\<close>

lemma mark_minted:
  assumes ok: "blocks_ok look ctx (unat (max_block f)) s" and l: "list_ok look ctx f s"
    and u: "\<forall>k. used_id look ctx s k \<longrightarrow> k < unat i" and f: "unat (fsm_next_id f) = unat i + 1"
    and b: "unat i div 65536 \<le> unat (max_block f)" "unat (max_block f) * 65536 \<le> unat i"
    and fresh: "\<forall>j \<in> set (fast_free_list f). j < i"
  shows "\<exists>r s'. mark_used cb ctx i f s = (map_sum id (\<lambda>_. True) r, f, s')
    \<and> (case r of Inl _ \<Rightarrow> \<not> callbacks_succeed cb | Inr j \<Rightarrow> j = i)
    \<and> fsm_inv look ctx f s' \<and> handed_out look ctx s r f s'"
proof -
  have i: "i < fsm_next_id f" using f by (simp add: word_less_nat_alt)
  have n: "\<not> used_id look ctx s (unat i)" using u by blast
  from ok b(1) i show ?thesis
  proof (cases rule: mark_id_run [where used = True])
    case (marked s')
    have "list_ok look ctx f s'" using l marked(3) fresh by (auto simp: list_ok_def dest!: unsigned_word_eqI)
    then have inv: "fsm_inv look ctx f s'" using marked(2,3) u f b by (auto simp: fsm_inv_def)
    have h: "handed_out look ctx s (Inr i) f s'" using marked(3) n i by (auto simp: handed_out_def)
    have "mark_used cb ctx i f s = (map_sum id (\<lambda>_. True) (Inr i), f, s')" using marked(1) n by (simp add: mark_used_def)
    with inv h show ?thesis by (intro exI [of _ "Inr i"] exI [of _ s']) simp
  next
    case (failed s')
    have "fsm_inv look ctx f s" using ok l u f b by (auto simp: fsm_inv_def)
    then have inv: "fsm_inv look ctx f s'" by (simp only: blocks_agree_inv [OF failed(2)])
    have h: "handed_out look ctx s (Inl (Garnet WriteError)) f s'"
      using blocks_agree_used [OF failed(2)] by (simp add: handed_out_def)
    have "mark_used cb ctx i f s = (map_sum id (\<lambda>_. True) (Inl (Garnet WriteError)), f, s')" using failed(1) by (simp add: mark_used_def)
    with inv h failed(3) show ?thesis by (intro exI [of _ "Inl (Garnet WriteError)"] exI [of _ s']) simp
  qed
qed

lemma mint_run:
  assumes inv: "fsm_inv look ctx f s" and n: "unat (fsm_next_id f) + 1 < 2 ^ 32"
  shows "\<exists>r f' s'. mint_loop cb ctx f s = Some (r, f', s') \<and> fsm_inv look ctx f' s' \<and> handed_out look ctx s r f' s'
    \<and> fsm_next_id f' = fsm_next_id f + 1
    \<and> (isl r \<longrightarrow> \<not> callbacks_succeed cb \<or> Suc (unat (max_block f)) < unat (fsm_next_id f) div 65536)"
proof -
  let ?i = "fsm_next_id f" and ?f1 = "f\<lparr>fsm_next_id := fsm_next_id f + 1\<rparr>"
  have ok: "blocks_ok look ctx (unat (max_block ?f1)) s" and le: "unat (max_block f) * 65536 \<le> unat ?i"
    and u: "\<forall>k. used_id look ctx s k \<longrightarrow> k < unat ?i" and l: "list_ok look ctx f s"
    using inv by (simp_all add: fsm_inv_def)
  note n1 = unat_Suc_u32 [OF n]
  have l1: "list_ok look ctx ?f1 s" using l n1 by (fastforce simp: list_ok_def word_less_nat_alt)
  have fr: "\<forall>j \<in> set (fast_free_list f). j < ?i" using l by (simp add: list_ok_def)
  have inv1: "fsm_inv look ctx ?f1 s" using ok l1 u le n1 by (auto simp: fsm_inv_def)
  have mark: "\<exists>r f' s'. mint_loop cb ctx f s = Some (r, f', s') \<and> fsm_inv look ctx f' s' \<and> handed_out look ctx s r f' s'
      \<and> fsm_next_id f' = ?i + 1
      \<and> (isl r \<longrightarrow> \<not> callbacks_succeed cb \<or> Suc (unat (max_block f)) < unat ?i div 65536)"
    if run: "(case indexes_for_id ?i of (block_id, _, _) \<Rightarrow> if max_block ?f1 < block_id then expand_to cb ctx ?i ?f1 s else (Inr (), ?f1, s))
        = (Inr (), f2, s2)"
      and f2: "fsm_next_id f2 = ?i + 1" "fast_free_list f2 = fast_free_list f" "has_free_ids f2 = has_free_ids f"
      and ok2: "blocks_ok look ctx (unat (max_block f2)) s2" "unat ?i div 65536 \<le> unat (max_block f2)"
        "unat (max_block f2) * 65536 \<le> unat ?i" "unat (max_block f) \<le> unat (max_block f2)"
      and u2: "\<forall>k. used_id look ctx s2 k = used_id look ctx s k" for f2 s2
  proof -
    have "list_ok look ctx f2 s2" using l1 f2 u2 ok2(4) by (fastforce simp: list_ok_def)
    from mark_minted [OF ok2(1) this _ _ ok2(2,3)] u u2 f2 n1 fr
    obtain r s' where m: "mark_used cb ctx ?i f2 s2 = (map_sum id (\<lambda>_. True) r, f2, s')"
      "case r of Inl _ \<Rightarrow> \<not> callbacks_succeed cb | Inr j \<Rightarrow> j = ?i"
      "fsm_inv look ctx f2 s'" "handed_out look ctx s2 r f2 s'" by auto
    have "mint_loop cb ctx f s = Some (r, f2, s')"
      using run m(1,2) by (cases r) (simp_all add: mint_loop.simps [of cb ctx f s] Let_def)
    moreover have "handed_out look ctx s r f2 s'" using m(4) u2 by (simp add: handed_out_def split: sum.splits)
    moreover have "isl r \<longrightarrow> \<not> callbacks_succeed cb" using m(2) by (cases r) simp_all
    ultimately show ?thesis using m(3) f2(1) by auto
  qed
  show ?thesis
  proof (cases "unat (max_block f) < unat ?i div 65536")
    case False
    moreover have "\<not> max_block ?f1 < of_nat (unat ?i div 65536)" using False by (simp add: word_less_nat_alt)
    ultimately show ?thesis using mark [of ?f1 s] ok le by (simp add: indexes_for_id_eq)
  next
    case True
    then have less: "max_block ?f1 < of_nat (unat ?i div 65536)" by (simp only: word_less_nat_alt unat_block_of) simp
    from ok True have "unat (max_block ?f1) < unat ?i div 65536" by simp
    with ok show ?thesis
    proof (cases rule: expand_run)
      case (added s')
      let ?f2 = "?f1\<lparr>max_block := max_block f + 1\<rparr>"
      have "unat ?i div 65536 * 65536 \<le> unat ?i" by (rule div_times_less_eq_dividend)
      then show ?thesis using mark [of ?f2 s'] added less True by (simp add: indexes_for_id_eq)
    next
      case (failed s' e)
      have "mint_loop cb ctx f s = Some (Inl e, ?f1, s')"
        using failed(1) less by (simp add: mint_loop.simps [of cb ctx f s] Let_def indexes_for_id_eq)
      moreover have "fsm_inv look ctx ?f1 s'" using inv1 by (simp only: blocks_agree_inv [OF failed(2)])
      moreover have "handed_out look ctx s (Inl e) ?f1 s'"
        using failed(3) blocks_agree_used [OF failed(2)] by (simp add: handed_out_def)
      ultimately show ?thesis using failed(4) by (intro exI [of _ "Inl e"] exI [of _ ?f1] exI [of _ s']) simp
    qed
  qed
qed

lemma next_id_run:
  assumes inv: "fsm_inv look ctx f s" and n: "unat (fsm_next_id f) + 1 < 2 ^ 32"
  shows "\<exists>r f' s'. next_id cb ctx f s = Some (r, f', s') \<and> fsm_inv look ctx f' s' \<and> handed_out look ctx s r f' s'
    \<and> unat (fsm_next_id f') \<le> unat (fsm_next_id f) + 1
    \<and> (isl r \<longrightarrow> \<not> callbacks_succeed cb \<or> Suc (unat (max_block f)) < unat (fsm_next_id f) div 65536)"
proof (cases "has_free_ids f")
  case True
  from inv show ?thesis
  proof (cases rule: reuse_run)
    case (none f')
    from mint_run [OF none(2)] none(3,4) n unat_Suc_u32 [OF n] show ?thesis using True none(1) by (auto simp: next_id_def)
  next
    case (got i f' s')
    then show ?thesis using True by (auto simp: next_id_def)
  next
    case (failed e f' s')
    then show ?thesis using True by (auto simp: next_id_def)
  qed
next
  case False
  then show ?thesis using mint_run [OF inv n] unat_Suc_u32 [OF n] by (auto simp: next_id_def)
qed

end

section \<open>Recovery\<close>

text \<open>The greatest identifier in use, \<open>- 1\<close> when there is none.\<close>

definition last_used :: "(nat \<Rightarrow> bool) \<Rightarrow> nat \<Rightarrow> int \<Rightarrow> bool" where
  "last_used used n x \<longleftrightarrow> - 1 \<le> x \<and> (\<forall>j<n. used j \<longrightarrow> int j \<le> x) \<and> (x = - 1 \<or> (\<exists>j<n. int j = x \<and> used j))"

lemma last_used_exists: "\<exists>x. last_used used n x"
proof (cases "\<exists>j<n. used j")
  case True
  let ?S = "{j. j < n \<and> used j}"
  have "Max ?S \<in> ?S" by (rule Max_in) (use True in auto)
  moreover have "j \<le> Max ?S" if "j < n" "used j" for j using that by (intro Max_ge) auto
  ultimately show ?thesis by (intro exI [of _ "int (Max ?S)"]) (auto simp: last_used_def)
next
  case False
  then show ?thesis by (intro exI [of _ "- 1"]) (auto simp: last_used_def)
qed

text \<open>The free identifiers below the last one in use, in decreasing order from a position on.\<close>

definition gaps :: "(nat \<Rightarrow> bool) \<Rightarrow> int \<Rightarrow> nat \<Rightarrow> nat \<Rightarrow> nat list" where
  "gaps used x k n = filter (\<lambda>j. \<not> used j \<and> int j < x) (rev [k..<n])"

lemma gaps_step: "k < n \<Longrightarrow> gaps used x k n = gaps used x (Suc k) n @ (if \<not> used k \<and> int k < x then [k] else [])"
  by (simp add: gaps_def upt_conv_Cons)

definition loaded :: "(nat \<Rightarrow> bool) \<Rightarrow> int \<Rightarrow> nat \<Rightarrow> nat \<Rightarrow> load_state \<Rightarrow> bool" where
  "loaded used x n k st \<longleftrightarrow> ld_last_used st = (if int k \<le> x then x else - 1)
     \<and> ld_list st = map of_nat (take 1024 (gaps used x k n))"

text \<open>After the queue was full once, the scan changes nothing any more, although the identifier it
  counts is no longer that of the bit it looks at.\<close>

definition load_stuck :: "(nat \<Rightarrow> bool) \<Rightarrow> int \<Rightarrow> nat \<Rightarrow> nat \<Rightarrow> load_state \<Rightarrow> bool" where
  "load_stuck used x n c st \<longleftrightarrow> ld_last_used st = x \<and> int c \<le> x \<and> int (unat (ld_id st)) \<le> x
     \<and> length (ld_list st) = 1024 \<and> ld_list st = map of_nat (take 1024 (gaps used x 0 n))"

lemma unat_pred: "(x :: 32 word) \<noteq> 0 \<Longrightarrow> unat (x - 1) = unat x - 1"
  by (metis unat_minus_one)

lemma load_stuck_bit:
  assumes "load_stuck used x n c st"
  shows "load_stuck used x n c (fst (load_bit b t st))"
proof -
  have "int (unat (ld_id st - 1)) \<le> int (unat (ld_id st))" if "ld_id st \<noteq> 0" using unat_pred [OF that] by (simp only: of_nat_le_iff diff_le_self)
  then show ?thesis using assms by (auto simp: load_stuck_def load_bit_def Let_def fast_push_def FAST_SIZE_def)
qed

lemma load_stuck_scan:
  "load_stuck used x n c st \<Longrightarrow> load_stuck used x n c (fst (scan (load_bit b) ts st))"
proof (induction ts arbitrary: st)
  case (Cons t ts)
  then show ?case using load_stuck_bit [OF Cons.prems, of b t] by (auto split: prod.splits)
qed simp

lemma gaps_prefix:
  assumes "k \<le> n" "1024 \<le> length (gaps used x k n)"
  shows "take 1024 (gaps used x 0 n) = take 1024 (gaps used x k n)"
proof -
  have "[0..<n] = [0..<k] @ [k..<n]" using upt_add_eq_append [of 0 k "n - k"] assms(1) by simp
  then show ?thesis using assms(2) by (simp add: gaps_def)
qed

lemma load_bit_step:
  assumes l: "loaded used x n (Suc j) st" "ld_id st = of_nat j" and x: "last_used used n x"
    and j: "j < n" "n \<le> 2 ^ 32" "c \<le> j" and b: "bit_used b t \<longleftrightarrow> used j"
  shows "case load_bit b t st of (st', stop) \<Rightarrow>
    if stop then load_stuck used x n c st' else loaded used x n j st' \<and> (0 < j \<longrightarrow> ld_id st' = of_nat (j - 1))"
proof -
  have u: "unat (ld_id st) = j" using l(2) j by simp
  have ids: "0 < j \<longrightarrow> ld_id st - 1 = of_nat (j - 1)" "ld_id st = 0 \<longleftrightarrow> j = 0"
    using l(2) u by (auto simp: of_nat_diff)
  show ?thesis
  proof (cases "used j")
    case True
    then have "int j \<le> x" using x j(1) by (simp add: last_used_def)
    then have "max (ld_last_used st) (int j) = x \<or> ld_last_used st = - 1 \<and> x = int j"
      using l(1) by (auto simp: loaded_def)
    then show ?thesis using True b l ids u j gaps_step [of j n used x] \<open>int j \<le> x\<close>
      by (auto simp: load_bit_def loaded_def Let_def)
  next
    case False
    then have nx: "int j \<noteq> x" using x by (auto simp: last_used_def)
    show ?thesis
    proof (cases "int j < x")
      case less: True
      then have lu: "ld_last_used st = x" using l(1) by (simp add: loaded_def)
      show ?thesis
      proof (cases "length (ld_list st) < 1024")
        case True
        then have "length (gaps used x (Suc j) n) < 1024" using l(1) by (simp add: loaded_def)
        then show ?thesis using True False less lu b l ids u j gaps_step [of j n used x]
          by (auto simp: load_bit_def loaded_def Let_def fast_push_def FAST_SIZE_def)
      next
        case full: False
        then have "1024 \<le> length (gaps used x (Suc j) n)" using l(1) by (simp add: loaded_def)
        from gaps_prefix [OF _ this] j(1) have "ld_list st = map of_nat (take 1024 (gaps used x 0 n))" "length (ld_list st) = 1024"
          using l(1) \<open>1024 \<le> length (gaps used x (Suc j) n)\<close> by (auto simp: loaded_def)
        then show ?thesis using full False less lu b u j by (simp add: load_bit_def Let_def fast_push_def FAST_SIZE_def load_stuck_def)
      qed
    next
      case more: False
      then show ?thesis using False nx b l ids u j gaps_step [of j n used x]
        by (auto simp: load_bit_def loaded_def Let_def)
    qed
  qed
qed

text \<open>The bits of a byte, from the last to the first.\<close>

lemma load_scan_step:
  assumes "loaded used x n (k + m) st" "0 < m \<Longrightarrow> ld_id st = of_nat (k + m - 1)" and x: "last_used used n x"
    and n: "k + m \<le> n" "n \<le> 2 ^ 32" and c: "c \<le> k" and b: "\<And>t. t < m \<Longrightarrow> bit_used b t \<longleftrightarrow> used (k + t)"
  shows "case scan (load_bit b) (rev [0..<m]) st of (st', stop) \<Rightarrow> load_stuck used x n c st'
    \<or> loaded used x n k st' \<and> (0 < k \<longrightarrow> 0 < m \<longrightarrow> ld_id st' = of_nat (k - 1))"
  using assms(1,2) n(1) b
proof (induction m arbitrary: st)
  case (Suc m)
  have st: "loaded used x n (Suc (k + m)) st" "ld_id st = of_nat (k + m)" using Suc.prems(1,2) by simp_all
  have j: "k + m < n" "c \<le> k + m" using Suc.prems(3) c by simp_all
  have bt: "bit_used b m \<longleftrightarrow> used (k + m)" using Suc.prems(4) [of m] by simp
  obtain st' stop where l: "load_bit b m st = (st', stop)" by (cases "load_bit b m st")
  note one = load_bit_step [OF st x j(1) n(2) j(2) bt, unfolded l prod.case]
  show ?case
  proof (cases stop)
    case True
    then have "load_stuck used x n (k + m) st' \<or> load_stuck used x n c st'" using one by simp
    then show ?thesis using l True one by simp
  next
    case False
    then have st': "loaded used x n (k + m) st'" "0 < k + m \<longrightarrow> ld_id st' = of_nat (k + m - 1)" using one by auto
    have "case scan (load_bit b) (rev [0..<m]) st' of (st'', stop) \<Rightarrow> load_stuck used x n c st''
      \<or> loaded used x n k st'' \<and> (0 < k \<longrightarrow> 0 < m \<longrightarrow> ld_id st'' = of_nat (k - 1))"
      using Suc.IH [OF st'(1)] st'(2) Suc.prems(3,4) by simp
    then show ?thesis using l False st' by (cases m) (auto split: prod.splits)
  qed
qed simp

lemma load_byte_step:
  assumes "load_stuck used x n c st \<or> loaded used x n (k + 8) st \<and> ld_id st = of_nat (k + 7)" and x: "last_used used n x"
    and n: "k + 8 \<le> n" "n \<le> 2 ^ 32" and c: "c \<le> k" and b: "\<And>t. t < 8 \<Longrightarrow> bit_used b t \<longleftrightarrow> used (k + t)"
  shows "load_stuck used x n c (load_byte b st)
    \<or> loaded used x n k (load_byte b st) \<and> (0 < k \<longrightarrow> ld_id (load_byte b st) = of_nat (k - 1))"
proof (cases "load_stuck used x n c st")
  case True
  then show ?thesis using load_stuck_scan [of used x n c st b] by (simp add: load_byte_def)
next
  case False
  then have "loaded used x n (k + 8) st" "ld_id st = of_nat (k + 8 - 1)" using assms(1) by (simp_all add: add.commute)
  from load_scan_step [OF this x n c b] show ?thesis by (auto simp: load_byte_def split: prod.splits)
qed

lemma load_bytes_step:
  assumes "load_stuck used x n c st \<or> loaded used x n (c + 8 * m) st \<and> (0 < m \<longrightarrow> ld_id st = of_nat (c + 8 * m - 1))"
    and x: "last_used used n x" and n: "c + 8 * m \<le> n" "n \<le> 2 ^ 32" and m: "m \<le> length block"
    and b: "\<And>y t. y < m \<Longrightarrow> t < 8 \<Longrightarrow> bit_used (block ! y) t \<longleftrightarrow> used (c + 8 * y + t)"
  shows "load_stuck used x n c (fold load_byte (rev (take m block)) st) \<or> loaded used x n c (fold load_byte (rev (take m block)) st)"
  using assms(1) n(1) m b
proof (induction m arbitrary: st)
  case (Suc m)
  have tk: "take (Suc m) block = take m block @ [block ! m]" using Suc.prems(3) by (simp add: take_Suc_conv_app_nth)
  have e: "c + 8 * m + 8 - 1 = c + 8 * m + 7" "c + 8 * Suc m = c + 8 * m + 8" by simp_all
  have "load_stuck used x n c st \<or> loaded used x n (c + 8 * m + 8) st \<and> ld_id st = of_nat (c + 8 * m + 7)"
    using Suc.prems(1) by (simp only: e zero_less_Suc simp_thms)
  moreover have "c + 8 * m + 8 \<le> n" using Suc.prems(2) by simp
  moreover have "bit_used (block ! m) t \<longleftrightarrow> used (c + 8 * m + t)" if "t < 8" for t using Suc.prems(4) [of m t] that by simp
  ultimately have st': "load_stuck used x n c (load_byte (block ! m) st) \<or> loaded used x n (c + 8 * m) (load_byte (block ! m) st)
      \<and> (0 < c + 8 * m \<longrightarrow> ld_id (load_byte (block ! m) st) = of_nat (c + 8 * m - 1))"
    by (intro load_byte_step [OF _ x _ n(2)]) simp_all
  then have "load_stuck used x n c (load_byte (block ! m) st) \<or> loaded used x n (c + 8 * m) (load_byte (block ! m) st)
      \<and> (0 < m \<longrightarrow> ld_id (load_byte (block ! m) st) = of_nat (c + 8 * m - 1))" by auto
  from Suc.IH [OF this] Suc.prems show ?case by (simp add: tk)
qed simp

context garnet_callbacks
begin

lemma count_blocks_run:
  assumes ok: "blocks_ok look ctx m s" and "k \<le> Suc m"
  shows "count_blocks cb ctx k s = Inr (Suc m)"
  using assms(2)
proof (induction "Suc m - k" arbitrary: k)
  case 0
  then have k: "k = Suc m" "k < 2 ^ 32" using blocks_ok_less [OF ok] by simp_all
  then have "fsm_block look ctx k s = None" using ok by (auto simp: blocks_ok_def dest!: spec [of _ k] split: option.splits)
  then have "\<not> exists_wid cb (context_term ctx Metadata) (block_key (of_nat k)) s"
    by (simp add: exists_wid_def exists_raw_iff fsm_block_def)
  then show ?case using k(1) by (simp add: count_blocks.simps)
next
  case (Suc d)
  then have k: "k \<le> m" "k + 1 < 2 ^ 32" "d = Suc m - (k + 1)" using blocks_ok_less [OF ok] by simp_all
  obtain block where "fsm_block look ctx k s = Some block" "length block = 8192" using blocks_okD [OF ok k(1)] .
  then have "exists_wid cb (context_term ctx Metadata) (block_key (of_nat k)) s"
    by (simp add: exists_wid_def exists_raw_iff fsm_block_def)
  then have "count_blocks cb ctx k s = count_blocks cb ctx (k + 1) s" using k(2) by (subst count_blocks.simps) simp
  then show ?case using Suc.hyps(1) [OF k(3)] k(1) by simp
qed

lemma load_blocks_run:
  assumes ok: "blocks_ok look ctx m s" and x: "last_used (used_id look ctx s) (Suc m * 65536) x"
    and e: "e \<le> Suc m" and buf: "length buf = 8192"
    and st: "load_stuck (used_id look ctx s) x (Suc m * 65536) (e * 65536) st \<or> loaded (used_id look ctx s) x (Suc m * 65536) (e * 65536) st"
  shows "\<exists>st'. load_blocks cb ctx (rev [0..<e]) buf s st = Inr st' \<and>
    (load_stuck (used_id look ctx s) x (Suc m * 65536) 0 st' \<or> loaded (used_id look ctx s) x (Suc m * 65536) 0 st')"
  using e buf st
proof (induction e arbitrary: buf st)
  case (Suc b)
  let ?u = "used_id look ctx s" and ?n = "Suc m * 65536"
  let ?st = "st\<lparr>ld_id := of_nat (b * BLOCK_SIZE_IDS + BLOCK_SIZE_IDS - 1)\<rparr>"
  have b: "b \<le> m" "b < 65536" using Suc.prems(1) blocks_ok_less [OF ok] by simp_all
  obtain block where block: "fsm_block look ctx b s = Some block" "length block = 8192" using blocks_okD [OF ok b(1)] .
  have id_eq: "b * BLOCK_SIZE_IDS + BLOCK_SIZE_IDS - 1 = b * 65536 + 8 * 8192 - 1" "Suc b * 65536 = b * 65536 + 8 * 8192"
    by (simp_all add: BLOCK_SIZE_IDS_def)
  have lim: "b * 65536 + 8 * 8192 - 1 < 2 ^ 32" using b(2) by simp
  have u: "unat (of_nat (b * 65536 + 8 * 8192 - 1) :: 32 word) = b * 65536 + 8 * 8192 - 1" using lim by (rule unat_of_u32)
  have "ld_id ?st = of_nat (b * BLOCK_SIZE_IDS + BLOCK_SIZE_IDS - 1)" by simp
  then have ld: "ld_id ?st = of_nat (b * 65536 + 8 * 8192 - 1)" by (simp only: id_eq(1))
  have "load_stuck ?u x ?n (b * 65536) ?st \<or> loaded ?u x ?n (b * 65536 + 8 * 8192) ?st
      \<and> (0 < (8192 :: nat) \<longrightarrow> ld_id ?st = of_nat (b * 65536 + 8 * 8192 - 1))"
    using Suc.prems(3)
  proof (rule disjE)
    assume a: "load_stuck ?u x ?n (Suc b * 65536) st"
    then have x: "int (Suc b * 65536) \<le> x" by (simp only: load_stuck_def)
    from ld have "unat (ld_id ?st) = b * 65536 + 8 * 8192 - 1" by (simp only: u)
    then have "int (unat (ld_id ?st)) \<le> x" "int (b * 65536) \<le> x" using x by simp_all
    then have "load_stuck ?u x ?n (b * 65536) ?st" using a by (auto simp: load_stuck_def)
    then show ?thesis ..
  next
    assume "loaded ?u x ?n (Suc b * 65536) st"
    then have "loaded ?u x ?n (Suc b * 65536) ?st" by (simp add: loaded_def)
    then have "loaded ?u x ?n (b * 65536 + 8 * 8192) ?st" by (simp only: id_eq(2))
    with ld show ?thesis by blast
  qed
  moreover have "b * 65536 + 8 * 8192 \<le> ?n" using b(1) by simp
  moreover have "?n \<le> 2 ^ 32" using blocks_ok_less [OF ok] by simp
  moreover have "bit_used (block ! y) t \<longleftrightarrow> ?u (b * 65536 + 8 * y + t)" if "y < 8192" "t < 8" for y t
    using block_bit [OF block(1) b(2) that] .
  ultimately have st': "load_stuck ?u x ?n (b * 65536) (fold load_byte (rev block) ?st) \<or> loaded ?u x ?n (b * 65536) (fold load_byte (rev block) ?st)"
    using load_bytes_step [of ?u x ?n "b * 65536" ?st 8192 block] x block(2) by simp
  have "load_blocks cb ctx (rev [0..<Suc b]) buf s st = load_blocks cb ctx (rev [0..<b]) block s (fold load_byte (rev block) ?st)"
    using read_block [OF block Suc.prems(2)] lim by (simp add: BLOCK_SIZE_IDS_def)
  then show ?case using Suc.IH [OF _ block(2) st'] b(1) by simp
qed simp

end

lemma last_used_nat:
  assumes "last_used (used_id look ctx s) n x" "\<forall>k. used_id look ctx s k \<longrightarrow> k < unat (y :: 32 word) \<and> k < n"
  obtains "unat (of_int (x + 1) :: 32 word) = nat (x + 1)" "nat (x + 1) \<le> unat y"
    "\<And>k. used_id look ctx s k \<Longrightarrow> k < nat (x + 1)" "0 < nat (x + 1) \<Longrightarrow> used_id look ctx s (nat (x + 1) - 1)"
proof -
  have le: "nat (x + 1) \<le> unat y" using assms by (auto simp: last_used_def)
  have "x + 1 = int (nat (x + 1))" using assms(1) by (simp add: last_used_def)
  then have "(of_int (x + 1) :: 32 word) = of_nat (nat (x + 1))" by (metis of_int_of_nat_eq)
  then have c1: "unat (of_int (x + 1) :: 32 word) = nat (x + 1)"
    using le unat_u32 [of y] unat_of_u32 [of "nat (x + 1)"] by (metis le_less_trans)
  have c2: "k < nat (x + 1)" if "used_id look ctx s k" for k
  proof -
    have "int k \<le> x" using assms that by (simp add: last_used_def)
    then show ?thesis by linarith
  qed
  have c3: "used_id look ctx s (nat (x + 1) - 1)" if "0 < nat (x + 1)"
  proof -
    have "x \<noteq> - 1" using that by auto
    then obtain j where j: "int j = x" "used_id look ctx s j" using assms(1) by (auto simp: last_used_def)
    then have "nat (x + 1) - 1 = j" by auto
    then show ?thesis using j(2) by simp
  qed
  show thesis by (rule that [OF c1 le c2 c3])
qed

lemma gaps_list_ok:
  assumes ok: "blocks_ok look ctx (unat m) s" and x: "nat (x + 1) < 2 ^ 32" "- 1 \<le> x" and l: "l = take 1024 (gaps (used_id look ctx s) x 0 n)"
    and n: "n = Suc (unat m) * 65536"
  shows "list_ok look ctx \<lparr>has_free_ids = l \<noteq> [], fast_free_list = map of_nat l, max_block = m,
    fsm_next_id = of_nat (nat (x + 1))\<rparr> s"
    and "k < nat (x + 1) \<Longrightarrow> \<not> used_id look ctx s k \<Longrightarrow> k < n \<Longrightarrow> int k \<noteq> x \<Longrightarrow> of_nat k \<in> set (map (of_nat :: nat \<Rightarrow> 32 word) l) \<or> length l = 1024"
proof -
  have k: "k < nat (x + 1)" "k < 2 ^ 32" "\<not> used_id look ctx s k" "unat (of_nat k :: 32 word) = k" "k div 65536 \<le> unat m" if "k \<in> set l" for k
  proof -
    have g: "k < n" "\<not> used_id look ctx s k" "int k < x" using that l by (auto simp: gaps_def dest: in_set_takeD)
    show "k < nat (x + 1)" using g(3) by linarith
    then show lim: "k < 2 ^ 32" using x(1) by (rule less_trans)
    show "\<not> used_id look ctx s k" by fact
    show "unat (of_nat k :: 32 word) = k" using lim by (rule unat_of_u32)
    have "k div 65536 < Suc (unat m)" using g(1) n by (simp only: less_mult_imp_div_less)
    then show "k div 65536 \<le> unat m" by simp
  qed
  have "distinct (gaps (used_id look ctx s) x 0 n)" by (simp add: gaps_def)
  then have "distinct l" using l by simp
  moreover have "inj_on (of_nat :: nat \<Rightarrow> 32 word) (set l)" by (rule inj_onI) (metis k(4))
  ultimately have d: "distinct (map (of_nat :: nat \<Rightarrow> 32 word) l)" by (simp add: distinct_map)
  have u: "unat (of_nat (nat (x + 1)) :: 32 word) = nat (x + 1)" using x(1) by (rule unat_of_u32)
  have "length l \<le> 1024" using l by simp
  then show "list_ok look ctx \<lparr>has_free_ids = l \<noteq> [], fast_free_list = map of_nat l, max_block = m,
      fsm_next_id = of_nat (nat (x + 1))\<rparr> s"
    using d k u by (auto simp: list_ok_def word_less_nat_alt simp del: unat_of_u32 of_nat_nat)
  show "k < nat (x + 1) \<Longrightarrow> \<not> used_id look ctx s k \<Longrightarrow> k < n \<Longrightarrow> int k \<noteq> x \<Longrightarrow>
      of_nat k \<in> set (map (of_nat :: nat \<Rightarrow> 32 word) l) \<or> length l = 1024"
  proof (cases "length (gaps (used_id look ctx s) x 0 n) < 1024")
    case True
    assume "k < nat (x + 1)" "\<not> used_id look ctx s k" "k < n" "int k \<noteq> x"
    then have "k \<in> set (gaps (used_id look ctx s) x 0 n)" by (auto simp: gaps_def)
    then show ?thesis using True l by simp
  qed (simp add: l)
qed

text \<open>The state after a restart: the blocks and the identifiers in use are those of the store, the next
  identifier to mint follows the last one in use, and the queue holds free identifiers below it, all
  of them unless it is full.\<close>

definition recovered :: "(64 word \<Rightarrow> byte list \<Rightarrow> 's \<Rightarrow> byte list option) \<Rightarrow> 64 word \<Rightarrow> fsm \<Rightarrow> 's \<Rightarrow> fsm \<Rightarrow> bool" where
  "recovered look ctx f s f' \<longleftrightarrow> max_block f' = max_block f \<and> fsm_next_id f' \<le> fsm_next_id f \<and> list_ok look ctx f' s
     \<and> (\<forall>k. used_id look ctx s k \<longrightarrow> k < unat (fsm_next_id f'))
     \<and> (fsm_next_id f' \<noteq> 0 \<longrightarrow> used_id look ctx s (unat (fsm_next_id f') - 1))
     \<and> (\<forall>i < fsm_next_id f'. \<not> used_id look ctx s (unat i) \<longrightarrow> i \<in> set (fast_free_list f') \<or> length (fast_free_list f') = 1024)
     \<and> has_free_ids f' = (fast_free_list f' \<noteq> [])"

lemma recovered_inv:
  assumes "recovered look ctx f s f'" "fsm_inv look ctx f s" "unat (max_block f) * 65536 \<le> unat (fsm_next_id f')"
  shows "fsm_inv look ctx f' s"
  using assms by (simp add: recovered_def fsm_inv_def)

lemma id_of_block:
  assumes "k div 65536 \<le> m"
  shows "k < Suc m * 65536"
proof -
  have "k div 65536 < Suc m" using assms by simp
  then show ?thesis by (simp only: div_less_iff_less_mult zero_less_numeral)
qed

context garnet_callbacks
begin

lemma load_run:
  assumes ok: "blocks_ok look ctx m s" and x: "last_used (used_id look ctx s) (Suc m * 65536) x"
    and f: "fast_free_list f = []" "\<not> has_free_ids f"
  shows "fsm_load_state cb ctx f s = (Inr (), f\<lparr>fast_free_list := map of_nat (take 1024 (gaps (used_id look ctx s) x 0 (Suc m * 65536))),
      max_block := of_nat m, fsm_next_id := of_int (x + 1),
      has_free_ids := take 1024 (gaps (used_id look ctx s) x 0 (Suc m * 65536)) \<noteq> []\<rparr>, s)"
proof -
  let ?st = "\<lparr>ld_id = 0, ld_last_used = - 1, ld_list = fast_free_list f\<rparr>" and ?u = "used_id look ctx s"
  have "x < int (Suc m * 65536)" using x by (auto simp: last_used_def)
  then have "loaded ?u x (Suc m * 65536) (Suc m * 65536) ?st" using f by (auto simp: loaded_def gaps_def)
  from load_blocks_run [OF ok x order_refl _ disjI2 [OF this], of "replicate BLOCK_SIZE_BYTES 0"]
  obtain st' where st': "load_blocks cb ctx (rev [0..<Suc m]) (replicate BLOCK_SIZE_BYTES 0) s ?st = Inr st'"
    "load_stuck ?u x (Suc m * 65536) 0 st' \<or> loaded ?u x (Suc m * 65536) 0 st'" by (auto simp: BLOCK_SIZE_BYTES_def)
  have "- 1 \<le> x" using x by (simp add: last_used_def)
  then have "ld_last_used st' = x" "ld_list st' = map of_nat (take 1024 (gaps ?u x 0 (Suc m * 65536)))"
    using st'(2) by (auto simp: load_stuck_def loaded_def)
  then show ?thesis using st'(1) count_blocks_run [OF ok, of 0] f by (auto simp: fsm_load_state_def)
qed

lemma recovery_run:
  assumes inv: "fsm_inv look ctx f s"
  shows "\<exists>f'. fsm_new cb ctx s = (Inr f', s) \<and> recovered look ctx f s f'"
proof -
  let ?m = "unat (max_block f)" and ?u = "used_id look ctx s"
  let ?n = "Suc ?m * 65536"
  have ok: "blocks_ok look ctx ?m s" and u: "\<forall>k. ?u k \<longrightarrow> k < unat (fsm_next_id f)" using inv by (simp_all add: fsm_inv_def)
  obtain x where x: "last_used ?u ?n x" using last_used_exists by blast
  have un: "\<forall>k. ?u k \<longrightarrow> k < unat (fsm_next_id f) \<and> k < ?n" using u id_of_block used_id_block [OF _ ok] by blast
  obtain n1: "unat (of_int (x + 1) :: 32 word) = nat (x + 1)" and n2: "nat (x + 1) \<le> unat (fsm_next_id f)"
    and n3: "\<And>k. ?u k \<Longrightarrow> k < nat (x + 1)" and n4: "0 < nat (x + 1) \<Longrightarrow> ?u (nat (x + 1) - 1)"
    using last_used_nat [OF x un] by blast
  define l where "l = take 1024 (gaps ?u x 0 ?n)"
  define f' where "f' = \<lparr>has_free_ids = l \<noteq> [], fast_free_list = map of_nat l, max_block = max_block f,
    fsm_next_id = of_int (x + 1) :: 32 word\<rparr>"
  let ?f0 = "\<lparr>has_free_ids = False, fast_free_list = [], max_block = - 1, fsm_next_id = 0\<rparr> :: fsm"
  obtain block where "fsm_block look ctx 0 s = Some block" "length block = 8192" using blocks_okD [OF ok, of 0] by blast
  then have "exists_wid cb (context_term ctx Metadata) (block_key 0) s" by (simp add: exists_wid_def exists_raw_iff fsm_block_def)
  moreover have "fsm_load_state cb ctx ?f0 s = (Inr (), f', s)"
    using load_run [OF ok x, of ?f0] by (simp add: l_def f'_def)
  ultimately have run: "fsm_new cb ctx s = (Inr f', s)" by (simp add: fsm_new_def)
  have x1: "- 1 \<le> x" using x by (simp add: last_used_def)
  have lim: "nat (x + 1) < 2 ^ 32" using n2 unat_u32 [of "fsm_next_id f"] by (rule le_less_trans)
  have nx: "(of_int (x + 1) :: 32 word) = of_nat (nat (x + 1))" using x1 by (metis of_int_of_nat_eq int_nat_eq le_add_same_cancel2 n1 unsigned_word_eqI unat_of_u32 lim)
  note g = gaps_list_ok [OF ok lim x1 l_def refl]
  have lo: "list_ok look ctx f' s" using g(1) unfolding f'_def nx .
  have fr: "i \<in> set (fast_free_list f') \<or> length (fast_free_list f') = 1024" if i: "i < fsm_next_id f'" "\<not> ?u (unat i)" for i
  proof -
    have k: "unat i < nat (x + 1)" using i(1) n1 by (simp add: f'_def word_less_nat_alt)
    moreover have "int (unat i) \<noteq> x"
    proof
      assume "int (unat i) = x"
      then have "x + 1 = int (unat i + 1)" by linarith
      then have "nat (x + 1) = unat i + 1" by (simp only: nat_int)
      then show False using n4 i(2) by simp
    qed
    moreover have "unat i < ?n"
    proof -
      have "nat (x + 1) - 1 < ?n" using n4 un k by (metis gr_implies_not0 neq0_conv)
      then show ?thesis using k by simp
    qed
    ultimately have "of_nat (unat i) \<in> set (map (of_nat :: nat \<Rightarrow> 32 word) l) \<or> length l = 1024" using g(2) i(2) by blast
    then show ?thesis by (simp add: f'_def)
  qed
  have "recovered look ctx f s f'" unfolding recovered_def
  proof (intro conjI)
    show "fsm_next_id f' \<le> fsm_next_id f" using n1 n2 by (simp add: f'_def word_le_nat_alt)
    show "\<forall>k. ?u k \<longrightarrow> k < unat (fsm_next_id f')" using n1 n3 by (simp add: f'_def)
    have "unat (fsm_next_id f') = nat (x + 1)" using n1 by (simp only: f'_def fsm.simps)
    then show "fsm_next_id f' \<noteq> 0 \<longrightarrow> ?u (unat (fsm_next_id f') - 1)" using n4 unat_gt_0 [of "fsm_next_id f'"] by metis
    show "\<forall>i < fsm_next_id f'. \<not> ?u (unat i) \<longrightarrow> i \<in> set (fast_free_list f') \<or> length (fast_free_list f') = 1024" using fr by blast
  qed (use lo in \<open>auto simp: f'_def\<close>)
  with run show ?thesis by blast
qed

end

section \<open>A fresh store\<close>

context garnet_callbacks
begin

lemma fresh_run:
  assumes "\<And>b. b < 2 ^ 32 \<Longrightarrow> fsm_block look ctx b s = None"
  obtains (ok) f s' where "fsm_new cb ctx s = (Inr f, s')" "fsm_inv look ctx f s'" "\<forall>k. \<not> used_id look ctx s' k" "fsm_next_id f = 0"
  | (failed) s' where "fsm_new cb ctx s = (Inl (Garnet WriteError), s')"
proof -
  let ?f0 = "\<lparr>has_free_ids = False, fast_free_list = [], max_block = - 1, fsm_next_id = 0\<rparr> :: fsm"
  obtain s' ok where w: "write_wid cb (context_term ctx Metadata) (block_key 0) (replicate BLOCK_SIZE_BYTES 0) s = (s', ok)" by (metis surj_pair)
  have "fsm_block look ctx 0 s = None" using assms [of 0] by simp
  then have "\<not> exists_wid cb (context_term ctx Metadata) (block_key 0) s" by (simp add: exists_wid_def exists_raw_iff fsm_block_def)
  then have run: "fsm_new cb ctx s = (if ok then Inr (?f0\<lparr>max_block := 0\<rparr>) else Inl (Garnet WriteError), s')"
    using w by (simp add: fsm_new_def indexes_for_id_eq expand_to_def)
  show thesis
  proof (cases ok)
    case True
    have new: "fsm_block look ctx b s' = (if b = 0 then Some (replicate 8192 0) else None)" if b: "b < 2 ^ 32" for b
      using write_law [OF w [unfolded write_wid_def], of "wid_key (block_key (of_nat b))"] True assms [OF b] block_keys_eq [OF b, of 0]
      by (simp add: fsm_block_def BLOCK_SIZE_BYTES_def)
    have "used_id look ctx s' k = False" for k
    proof (cases "k < 2 ^ 32")
      case True
      then have "k div 65536 < 2 ^ 32" by (rule le_less_trans [OF div_le_dividend])
      moreover have "k mod 65536 div 8 < 8192" by (simp add: less_mult_imp_div_less)
      ultimately show ?thesis using new [of "k div 65536"] by (simp add: used_id_def)
    qed (simp add: used_id_def)
    moreover have "blocks_ok look ctx 0 s'" using new by (simp add: blocks_ok_def)
    ultimately have "fsm_inv look ctx (?f0\<lparr>max_block := 0\<rparr>) s'" "\<forall>k. \<not> used_id look ctx s' k" by (simp_all add: fsm_inv_def list_ok_def)
    then show ?thesis using that(1) [of "?f0\<lparr>max_block := 0\<rparr>" s'] run True by simp
  qed (use that(2) run in simp)
qed

lemma mark_free_run:
  assumes inv: "fsm_inv look ctx f s" and i: "i < fsm_next_id f" "unat i div 65536 \<le> unat (max_block f)"
  obtains (freed) s' where "mark_free cb ctx i f s = (Inr (), pushed_if (used_id look ctx s (unat i)) i f, s')"
      "fsm_inv look ctx (pushed_if (used_id look ctx s (unat i)) i f) s'"
      "\<forall>k. used_id look ctx s' k = (k \<noteq> unat i \<and> used_id look ctx s k)"
  | (failed) s' where "mark_free cb ctx i f s = (Inl (Garnet WriteError), f, s')" "blocks_agree look ctx s s'"
      "\<not> callbacks_succeed cb"
proof -
  have ok: "blocks_ok look ctx (unat (max_block f)) s" using inv by (simp add: fsm_inv_def)
  from ok i(2,1) show thesis
  proof (cases rule: mark_id_run [where used = False])
    case (marked s')
    have "fsm_inv look ctx (pushed_if (used_id look ctx s (unat i)) i f) s'"
      using fsm_inv_push [OF inv marked(2) _ i] marked(3) by simp
    then show ?thesis by (intro that(1) [of s']) (use marked in \<open>auto simp: mark_free_def\<close>)
  next
    case (failed s')
    then show ?thesis by (intro that(2) [of s']) (auto simp: mark_free_def)
  qed
qed

end

section \<open>What every call keeps\<close>

text \<open>
  The identifiers in use are safe under weaker conditions than those under which the map works well: it is
  enough that the store holds the blocks up to \<open>max_block\<close>.  The counter may have wrapped, and after a
  restart it may lie in an earlier block than the last one, so that a refill queues identifiers at or above
  it.  An identifier is only handed out by a call that changed its bit.
\<close>

definition only_marked ::
  "(64 word \<Rightarrow> byte list \<Rightarrow> 's \<Rightarrow> byte list option) \<Rightarrow> 64 word \<Rightarrow> 's \<Rightarrow> 32 word option \<Rightarrow> 's \<Rightarrow> bool" where
  "only_marked look ctx s r s' \<longleftrightarrow>
     (case r of
        None \<Rightarrow> (\<forall>k. used_id look ctx s' k = used_id look ctx s k)
      | Some i \<Rightarrow> \<not> used_id look ctx s (unat i)
          \<and> (\<forall>k. used_id look ctx s' k = (k = unat i \<or> used_id look ctx s k)))"

lemma only_marked_trans:
  assumes "only_marked look ctx s None t" "only_marked look ctx t r s'"
  shows "only_marked look ctx s r s'"
  using assms by (simp add: only_marked_def split: option.splits)

lemma only_marked_refl: "only_marked look ctx s None s"
  by (simp add: only_marked_def)

definition handed :: "'e + 32 word \<Rightarrow> 32 word option" where
  "handed r = (case r of Inl _ \<Rightarrow> None | Inr i \<Rightarrow> Some i)"

definition reused :: "'e + 32 word option \<Rightarrow> 32 word option" where
  "reused r = (case r of Inl _ \<Rightarrow> None | Inr i \<Rightarrow> i)"

definition safe_step ::
  "(64 word \<Rightarrow> byte list \<Rightarrow> 's \<Rightarrow> byte list option) \<Rightarrow> 64 word \<Rightarrow> fsm \<Rightarrow> 's \<Rightarrow> 32 word option \<Rightarrow> fsm \<Rightarrow> 's \<Rightarrow> bool" where
  "safe_step look ctx f s r f' s' \<longleftrightarrow> (blocks_ok look ctx (unat (max_block f)) s \<longrightarrow>
     blocks_ok look ctx (unat (max_block f')) s' \<and> only_marked look ctx s r s')"

lemma safe_step_trans:
  "safe_step look ctx f s None f1 s1 \<Longrightarrow> safe_step look ctx f1 s1 r f' s' \<Longrightarrow> safe_step look ctx f s r f' s'"
  using only_marked_trans by (auto simp: safe_step_def)

context garnet_callbacks
begin

lemma mark_id_any:
  assumes ok: "blocks_ok look ctx (unat (max_block f)) s" and run: "mark_id cb ctx i used f s = (r, f', s')"
  shows "max_block f' = max_block f" "blocks_ok look ctx (unat (max_block f)) s'"
    "case r of Inl _ \<Rightarrow> \<forall>k. used_id look ctx s' k = used_id look ctx s k
     | Inr changed \<Rightarrow> (changed \<longleftrightarrow> used_id look ctx s (unat i) \<noteq> used)
         \<and> (\<forall>k. used_id look ctx s' k = (if k = unat i then used else used_id look ctx s k))"
proof -
  have "max_block f' = max_block f \<and> blocks_ok look ctx (unat (max_block f)) s' \<and>
    (case r of Inl _ \<Rightarrow> \<forall>k. used_id look ctx s' k = used_id look ctx s k
     | Inr changed \<Rightarrow> (changed \<longleftrightarrow> used_id look ctx s (unat i) \<noteq> used)
         \<and> (\<forall>k. used_id look ctx s' k = (if k = unat i then used else used_id look ctx s k)))"
  proof (cases "fsm_next_id f \<le> i \<or> unat (max_block f) < unat i div 65536")
    case True
    then have "\<exists>e. mark_id cb ctx i used f s = (Inl e, f, s)"
      using mark_id_out_of_range [of f i cb ctx used s] mark_id_no_block [of i f cb ctx used s] by (meson not_le)
    then show ?thesis using run ok by auto
  next
    case False
    then have i: "unat i div 65536 \<le> unat (max_block f)" "i < fsm_next_id f" by (auto simp: not_le)
    from ok i show ?thesis
    proof (cases rule: mark_id_run [where used = used])
      case (marked t)
      then show ?thesis using run by auto
    next
      case (failed t)
      then show ?thesis using run ok blocks_agree_used [OF failed(2)]
        by (auto simp: blocks_ok_def blocks_agree_def)
    qed
  qed
  then show "max_block f' = max_block f" "blocks_ok look ctx (unat (max_block f)) s'"
    "case r of Inl _ \<Rightarrow> \<forall>k. used_id look ctx s' k = used_id look ctx s k
     | Inr changed \<Rightarrow> (changed \<longleftrightarrow> used_id look ctx s (unat i) \<noteq> used)
         \<and> (\<forall>k. used_id look ctx s' k = (if k = unat i then used else used_id look ctx s k))"
    by blast+
qed

text \<open>Marking as used: unchanged exactly when the bit was set already.\<close>

lemma mark_used_any:
  assumes ok: "blocks_ok look ctx (unat (max_block f)) s" and run: "mark_used cb ctx i f s = (r, f', s')"
  shows "max_block f' = max_block f" "blocks_ok look ctx (unat (max_block f')) s'"
    "only_marked look ctx s (if r = Inr True then Some i else None) s'"
proof -
  note m = mark_id_any [OF ok run [unfolded mark_used_def]]
  show f: "max_block f' = max_block f" by (rule m(1))
  then show "blocks_ok look ctx (unat (max_block f')) s'" using m(2) by simp
  show "only_marked look ctx s (if r = Inr True then Some i else None) s'"
  proof (cases r)
    case (Inr changed)
    then show ?thesis using m(3) by (cases changed) (auto simp: only_marked_def)
  qed (use m(3) in \<open>simp add: only_marked_def\<close>)
qed

lemma mark_used_safe:
  assumes "mark_used cb ctx i f s = (r, f', s')"
  shows "safe_step look ctx f s (if r = Inr True then Some i else None) f' s'"
  using mark_used_any [OF _ assms] by (simp add: safe_step_def)

lemma refill_any:
  assumes "refill_fast_free_list cb ctx f s = (r, f', s')"
  shows "max_block f' = max_block f" "s' = s" "fsm_next_id f' = fsm_next_id f"
  using assms by (auto simp: refill_fast_free_list_def split: if_splits prod.splits option.splits)

lemma expand_any:
  assumes ok: "blocks_ok look ctx (unat (max_block f)) s" and b: "unat (max_block f) < unat i div 65536"
    and run: "expand_to cb ctx i f s = (r, f', s')"
  shows "blocks_ok look ctx (unat (max_block f')) s'" "only_marked look ctx s None s'"
proof -
  from ok b have "blocks_ok look ctx (unat (max_block f')) s' \<and> only_marked look ctx s None s'"
  proof (cases rule: expand_run)
    case (added t)
    then show ?thesis using run by (auto simp: only_marked_def)
  next
    case (failed t e)
    then show ?thesis using run ok blocks_agree_used [OF failed(2)]
      by (auto simp: only_marked_def blocks_ok_def blocks_agree_def)
  qed
  then show "blocks_ok look ctx (unat (max_block f')) s'" "only_marked look ctx s None s'" by blast+
qed

lemma reuse_any:
  assumes run: "reuse_loop cb ctx f s = Some y"
  shows "safe_step look ctx f s (reused (fst y)) (fst (snd y)) (snd (snd y))"
proof -
  have "cb = cb \<longrightarrow> ctx = ctx \<longrightarrow> safe_step look ctx f s (reused (fst y)) (fst (snd y)) (snd (snd y))"
  proof (rule reuse_loop.raw_induct [where P = "\<lambda>c x f s y. c = cb \<longrightarrow> x = ctx \<longrightarrow>
      safe_step look ctx f s (reused (fst y)) (fst (snd y)) (snd (snd y))", OF _ run], intro impI)
    fix rl :: "'s callbacks \<Rightarrow> 64 word \<Rightarrow> fsm \<Rightarrow> 's \<Rightarrow> ((fsm_error + 32 word option) \<times> fsm \<times> 's) option"
      and c x and f :: fsm and s :: 's and y :: "(fsm_error + 32 word option) \<times> fsm \<times> 's"
    assume ih: "\<And>c x f s y. rl c x f s = Some y \<Longrightarrow> c = cb \<longrightarrow> x = ctx \<longrightarrow>
        safe_step look ctx f s (reused (fst y)) (fst (snd y)) (snd (snd y))"
      and eq: "c = cb" "x = ctx"
    have step: "safe_step look ctx f s (reused (fst y)) (fst (snd y)) (snd (snd y))"
      if "(case mark_used cb ctx i f s of (Inl e, f', s') \<Rightarrow> Some (Inl e, f', s')
          | (Inr changed, f', s') \<Rightarrow> if \<not> changed then rl cb ctx f' s' else Some (Inr (Some i), f', s')) = Some y" for i f s
    proof -
      obtain r f' s' where m: "mark_used cb ctx i f s = (r, f', s')" by (metis surj_pair)
      note o = mark_used_safe [OF m]
      show ?thesis
      proof (cases "r = Inr False")
        case True
        then have "safe_step look ctx f' s' (reused (fst y)) (fst (snd y)) (snd (snd y))" using that m ih by auto
        with o True show ?thesis using safe_step_trans by simp
      next
        case False
        then have "y = (map_sum id (\<lambda>_. Some i) r, f', s')" using that m by (auto split: sum.splits if_splits)
        then show ?thesis using o False by (cases r) (simp_all add: reused_def)
      qed
    qed
    assume body: "(case fast_free_list f of [] \<Rightarrow> (case refill_fast_free_list c x f s of (Inl e, f', s') \<Rightarrow> Some (Inl e, f', s')
           | (Inr found, f', s') \<Rightarrow> if \<not> found then Some (Inr None, f', s')
               else case fast_free_list f' of [] \<Rightarrow> Some (Inr None, f', s')
                    | i # rest \<Rightarrow> (case mark_used c x i (f'\<lparr>fast_free_list := rest\<rparr>) s' of (Inl e, f'', s'') \<Rightarrow> Some (Inl e, f'', s'')
                        | (Inr changed, f'', s'') \<Rightarrow> if \<not> changed then rl c x f'' s'' else Some (Inr (Some i), f'', s'')))
       | i # rest \<Rightarrow> (case mark_used c x i (f\<lparr>fast_free_list := rest\<rparr>) s of (Inl e, f', s') \<Rightarrow> Some (Inl e, f', s')
           | (Inr changed, f', s') \<Rightarrow> if \<not> changed then rl c x f' s' else Some (Inr (Some i), f', s'))) = Some y"
    show "safe_step look ctx f s (reused (fst y)) (fst (snd y)) (snd (snd y))"
    proof (cases "fast_free_list f")
      case (Cons i rest)
      then have "safe_step look ctx (f\<lparr>fast_free_list := rest\<rparr>) s (reused (fst y)) (fst (snd y)) (snd (snd y))"
        using step [of i "f\<lparr>fast_free_list := rest\<rparr>" s] body unfolding eq by simp
      then show ?thesis by (simp add: safe_step_def)
    next
      case Nil
      obtain r f' s' where rf: "refill_fast_free_list cb ctx f s = (r, f', s')" by (metis surj_pair)
      note fr = refill_any [OF rf]
      have here: "safe_step look ctx f s None f' s'" using fr by (simp add: safe_step_def only_marked_def)
      show ?thesis
      proof (cases "r = Inr True \<and> fast_free_list f' \<noteq> []")
        case True
        then obtain i rest where l: "fast_free_list f' = i # rest" by (cases "fast_free_list f'") auto
        have "safe_step look ctx (f'\<lparr>fast_free_list := rest\<rparr>) s' (reused (fst y)) (fst (snd y)) (snd (snd y))"
          using step [of i "f'\<lparr>fast_free_list := rest\<rparr>" s'] body Nil rf True l unfolding eq by simp
        then show ?thesis using fr by (simp add: safe_step_def)
      next
        case False
        then have "reused (fst y) = None \<and> snd y = (f', s')"
          using body eq Nil rf by (auto simp: reused_def split: sum.splits if_splits list.splits)
        then show ?thesis using here by simp
      qed
    qed
  qed
  then show ?thesis by simp
qed

lemma mint_any:
  assumes run: "mint_loop cb ctx f s = Some y"
  shows "safe_step look ctx f s (handed (fst y)) (fst (snd y)) (snd (snd y))"
proof -
  have "cb = cb \<longrightarrow> ctx = ctx \<longrightarrow> safe_step look ctx f s (handed (fst y)) (fst (snd y)) (snd (snd y))"
  proof (rule mint_loop.raw_induct [where P = "\<lambda>c x f s y. c = cb \<longrightarrow> x = ctx \<longrightarrow>
      safe_step look ctx f s (handed (fst y)) (fst (snd y)) (snd (snd y))", OF _ run], intro impI)
    fix ml :: "'s callbacks \<Rightarrow> 64 word \<Rightarrow> fsm \<Rightarrow> 's \<Rightarrow> ((fsm_error + 32 word) \<times> fsm \<times> 's) option"
      and c x and f :: fsm and s :: 's and y :: "(fsm_error + 32 word) \<times> fsm \<times> 's"
    assume ih: "\<And>c x f s y. ml c x f s = Some y \<Longrightarrow> c = cb \<longrightarrow> x = ctx \<longrightarrow>
        safe_step look ctx f s (handed (fst y)) (fst (snd y)) (snd (snd y))"
      and eq: "c = cb" "x = ctx"
    let ?i = "fsm_next_id f" and ?f1 = "f\<lparr>fsm_next_id := fsm_next_id f + 1\<rparr>"
    assume body: "(let i = fsm_next_id f; f1 = f\<lparr>fsm_next_id := fsm_next_id f + 1\<rparr> in
      case (case indexes_for_id i of (block_id, _, _) \<Rightarrow> if max_block f1 < block_id then expand_to c x i f1 s else (Inr (), f1, s)) of
        (Inl e, f2, s2) \<Rightarrow> Some (Inl e, f2, s2)
      | (Inr _, f2, s2) \<Rightarrow> (case mark_used c x i f2 s2 of (Inl e, f3, s3) \<Rightarrow> Some (Inl e, f3, s3)
          | (Inr changed, f3, s3) \<Rightarrow> if changed then Some (Inr i, f3, s3) else ml c x f3 s3)) = Some y"
    obtain r2 f2 s2 where e: "(case indexes_for_id ?i of (block_id, _, _) \<Rightarrow>
        if max_block ?f1 < block_id then expand_to cb ctx ?i ?f1 s else (Inr (), ?f1, s)) = (r2, f2, s2)" by (metis surj_pair)
    have o2: "safe_step look ctx f s None f2 s2"
      using e expand_any [of ctx ?f1 s ?i r2 f2 s2]
      by (auto simp: safe_step_def only_marked_refl indexes_for_id_eq word_less_nat_alt split: if_splits)
    obtain r3 f3 s3 where m: "mark_used cb ctx ?i f2 s2 = (r3, f3, s3)" by (metis surj_pair)
    note o3 = mark_used_safe [OF m]
    show "safe_step look ctx f s (handed (fst y)) (fst (snd y)) (snd (snd y))"
    proof (cases r2)
      case (Inl a)
      then have "y = (Inl a, f2, s2)" using body e unfolding eq by (simp add: Let_def)
      then show ?thesis using o2 by (simp add: handed_def)
    next
      case (Inr u)
      show ?thesis
      proof (cases "r3 = Inr False")
        case True
        then have "ml cb ctx f3 s3 = Some y" using body e m Inr unfolding eq by (simp add: Let_def)
        then have "safe_step look ctx f3 s3 (handed (fst y)) (fst (snd y)) (snd (snd y))" using ih by blast
        with o3 True have "safe_step look ctx f2 s2 (handed (fst y)) (fst (snd y)) (snd (snd y))"
          using safe_step_trans by simp
        with o2 show ?thesis by (rule safe_step_trans)
      next
        case False
        then have "y = (map_sum id (\<lambda>_. ?i) r3, f3, s3)"
          using body e m Inr unfolding eq by (auto simp: Let_def split: sum.splits if_splits)
        then have "safe_step look ctx f2 s2 (handed (fst y)) (fst (snd y)) (snd (snd y))"
          using o3 False by (cases r3) (simp_all add: handed_def)
        with o2 show ?thesis by (rule safe_step_trans)
      qed
    qed
  qed
  then show ?thesis by simp
qed

lemma next_id_any:
  assumes "next_id cb ctx f s = Some (r, f', s')"
  shows "safe_step look ctx f s (handed r) f' s'"
proof (cases "has_free_ids f")
  case True
  obtain rr f1 s1 where re: "reuse_loop cb ctx f s = Some (rr, f1, s1)"
    using assms True by (auto simp: next_id_def split: option.splits prod.splits)
  have o1: "safe_step look ctx f s (reused rr) f1 s1" using reuse_any [OF re] by simp
  show ?thesis
  proof (cases "rr = Inr None")
    case True
    then have "mint_loop cb ctx f1 s1 = Some (r, f', s')" using assms \<open>has_free_ids f\<close> re by (simp add: next_id_def)
    from mint_any [OF this] o1 True show ?thesis using safe_step_trans by (simp add: reused_def)
  next
    case False
    then have "handed r = reused rr \<and> f' = f1 \<and> s' = s1"
      using assms \<open>has_free_ids f\<close> re by (auto simp: next_id_def handed_def reused_def split: sum.splits option.splits)
    then show ?thesis using o1 by simp
  qed
next
  case False
  then show ?thesis using assms mint_any [of ctx f s "(r, f', s')"] by (simp add: next_id_def)
qed

lemma restart_any:
  assumes ok: "blocks_ok look ctx m s"
  shows "\<exists>f. fsm_new cb ctx s = (Inr f, s) \<and> unat (max_block f) = m"
proof -
  obtain x where x: "last_used (used_id look ctx s) (Suc m * 65536) x" using last_used_exists by blast
  let ?f0 = "\<lparr>has_free_ids = False, fast_free_list = [], max_block = - 1, fsm_next_id = 0\<rparr> :: fsm"
  obtain block where "fsm_block look ctx 0 s = Some block" "length block = 8192" using blocks_okD [OF ok, of 0] by blast
  then have "exists_wid cb (context_term ctx Metadata) (block_key 0) s" by (simp add: exists_wid_def exists_raw_iff fsm_block_def)
  moreover have "m < 2 ^ 32" using blocks_ok_less [OF ok] by simp
  ultimately show ?thesis using load_run [OF ok x, of ?f0] unat_of_u32 [of m] by (simp add: fsm_new_def)
qed

end

section \<open>Runs\<close>

text \<open>
  The runs of the map on one store, with the identifiers that were handed out and not yet given
  back: \<open>next_id\<close> hands one out, \<open>mark_free\<close> gives one back, either may fail, and the process may
  stop at any point between calls and start again from what the store holds.  Nothing is assumed of the
  counter: it may wrap, and a restart may set it back.
\<close>

inductive fsm_run ::
  "'s callbacks \<Rightarrow> 64 word \<Rightarrow> 's \<Rightarrow> 32 word list \<Rightarrow> fsm \<Rightarrow> 's \<Rightarrow> bool"
  for cb :: "'s callbacks" and ctx and s0 where
  run_new: "fsm_new cb ctx s0 = (Inr f, s) \<Longrightarrow> fsm_run cb ctx s0 [] f s"
| run_next: "fsm_run cb ctx s0 out f s \<Longrightarrow> next_id cb ctx f s = Some (r, f', s') \<Longrightarrow>
    fsm_run cb ctx s0 (case r of Inl _ \<Rightarrow> out | Inr i \<Rightarrow> i # out) f' s'"
| run_free: "fsm_run cb ctx s0 out f s \<Longrightarrow> mark_free cb ctx i f s = (r, f', s') \<Longrightarrow>
    fsm_run cb ctx s0 (case r of Inl _ \<Rightarrow> out | Inr _ \<Rightarrow> remove1 i out) f' s'"
| run_restart: "fsm_run cb ctx s0 out f s \<Longrightarrow> fsm_new cb ctx s = (Inr f', s') \<Longrightarrow> fsm_run cb ctx s0 out f' s'"

context garnet_callbacks
begin

lemma fsm_run_safe:
  assumes "fsm_run cb ctx s0 out f s" and fresh: "\<And>b. b < 2 ^ 32 \<Longrightarrow> fsm_block look ctx b s0 = None"
  shows "blocks_ok look ctx (unat (max_block f)) s \<and> distinct out \<and> unat ` set out = {k. used_id look ctx s k}"
  using assms(1)
proof (induction rule: fsm_run.induct)
  case (run_new f s)
  from fresh show ?case by (cases rule: fresh_run) (use run_new in \<open>auto simp: fsm_inv_def\<close>)
next
  case (run_next out f s r f' s')
  have h: "blocks_ok look ctx (unat (max_block f')) s'" "only_marked look ctx s (handed r) s'"
    using next_id_any [OF run_next.hyps(2)] run_next.IH by (simp_all add: safe_step_def)
  show ?case
  proof (cases r)
    case (Inr i)
    then have i: "\<not> used_id look ctx s (unat i)" "\<And>k. used_id look ctx s' k = (k = unat i \<or> used_id look ctx s k)"
      using h(2) by (auto simp: handed_def only_marked_def)
    then have "i \<notin> set out" using run_next.IH by auto
    then show ?thesis using Inr h(1) i(2) run_next.IH by auto
  qed (use h run_next.IH in \<open>auto simp: handed_def only_marked_def\<close>)
next
  case (run_free out f s i r f' s')
  have ok: "blocks_ok look ctx (unat (max_block f)) s" using run_free.IH by simp
  obtain r' where m: "mark_id cb ctx i False f s = (r', f', s')" "r = map_sum id (\<lambda>_. ()) r'"
    using run_free.hyps(2) by (cases "mark_id cb ctx i False f s") (auto simp: mark_free_def)
  note a = mark_id_any [OF ok m(1)]
  show ?case
  proof (cases r')
    case (Inr changed)
    then have "{k. used_id look ctx s' k} = {k. used_id look ctx s k} - {unat i}" using a(3) by auto
    moreover have "unat ` (set out - {i}) = unat ` set out - {unat i}" by (auto dest!: unsigned_word_eqI)
    ultimately show ?thesis using Inr m(2) a(1,2) run_free.IH by (simp add: set_remove1_eq)
  qed (use m(2) a run_free.IH in simp)
next
  case (run_restart out f s f' s')
  from restart_any [of ctx "unat (max_block f)" s] run_restart show ?case by auto
qed

end

section \<open>A restart that loses the tail of the last blocks\<close>

text \<open>After a restart the counter may lie in an earlier block than the last one, when the identifiers of
  the last blocks were given back before.  A refill then finds identifiers at or above the counter,
  which \<open>mark_used\<close> rejects.  The state of such a map: it keeps looking for freed identifiers, because a
  refill always finds some, and so it never mints one.\<close>

definition fsm_no_mint :: "(64 word \<Rightarrow> byte list \<Rightarrow> 's \<Rightarrow> byte list option) \<Rightarrow> 64 word \<Rightarrow> 32 word \<Rightarrow> fsm \<Rightarrow> 's \<Rightarrow> bool" where
  "fsm_no_mint look ctx n f s \<longleftrightarrow> blocks_ok look ctx (unat (max_block f)) s \<and> has_free_ids f \<and> fsm_next_id f = n
     \<and> unat n < unat (max_block f) * 65536 \<and> (\<forall>k. used_id look ctx s k \<longrightarrow> k < unat n)"

text \<open>\<open>c\<close> requests one after the other, with their results.\<close>

fun next_ids :: "'s callbacks \<Rightarrow> 64 word \<Rightarrow> nat \<Rightarrow> fsm \<Rightarrow> 's \<Rightarrow> ((fsm_error + 32 word) list \<times> fsm \<times> 's) option" where
  "next_ids cb ctx 0 f s = Some ([], f, s)"
| "next_ids cb ctx (Suc c) f s =
     (case next_id cb ctx f s of
        None \<Rightarrow> None
      | Some (r, f', s') \<Rightarrow> map_option (apfst (\<lambda>rs. r # rs)) (next_ids cb ctx c f' s'))"

context garnet_callbacks
begin

text \<open>A freed identifier that is popped is rejected, or already in use, or marked.\<close>

lemma mark_used_no_mint:
  assumes st: "fsm_no_mint look ctx n f s"
  obtains (error) e s' where "mark_used cb ctx i f s = (Inl e, f, s')" "fsm_no_mint look ctx n f s'"
      "only_marked look ctx s None s'"
  | (used) s' where "mark_used cb ctx i f s = (Inr False, f, s')" "fsm_no_mint look ctx n f s'"
      "only_marked look ctx s None s'" "used_id look ctx s (unat i)"
  | (got) s' where "mark_used cb ctx i f s = (Inr True, f, s')" "fsm_no_mint look ctx n f s'"
      "only_marked look ctx s (Some i) s'" "i < n"
proof -
  obtain r f' s' where m: "mark_used cb ctx i f s = (r, f', s')" by (metis surj_pair)
  have ok: "blocks_ok look ctx (unat (max_block f)) s" using st by (simp add: fsm_no_mint_def)
  note a = mark_used_any [OF ok m]
  note b = mark_id_any(3) [OF ok m [unfolded mark_used_def]]
  have f: "f' = f" using m by (auto simp: mark_used_def mark_id_def Let_def split: prod.splits if_splits sum.splits)
  have i: "i < n" if "\<exists>x. r = Inr x"
  proof (rule ccontr)
    assume "\<not> i < n"
    then have "fsm_next_id f \<le> i" using st by (simp add: fsm_no_mint_def not_less)
    then show False using m that by (auto simp: mark_used_def mark_id_out_of_range)
  qed
  show thesis
  proof (cases r)
    case (Inl e)
    have "fsm_no_mint look ctx n f s'" using st a Inl by (simp add: fsm_no_mint_def only_marked_def f)
    then show ?thesis using that(1) [of e s'] m a(3) Inl f by simp
  next
    case (Inr changed)
    show ?thesis
    proof (cases changed)
      case True
      then have "fsm_no_mint look ctx n f s'" using st a Inr i by (auto simp: fsm_no_mint_def only_marked_def f word_less_nat_alt)
      moreover have "i < n" using i Inr by blast
      ultimately show ?thesis using that(3) [of s'] m a(3) Inr f True by simp
    next
      case False
      then have "fsm_no_mint look ctx n f s'" using st a Inr by (simp add: fsm_no_mint_def only_marked_def f)
      then show ?thesis using that(2) [of s'] m a(3) b Inr f False by simp
    qed
  qed
qed

lemma fsm_no_mint_list: "fsm_no_mint look ctx n (f\<lparr>fast_free_list := l\<rparr>) s = fsm_no_mint look ctx n f s"
  by (simp add: fsm_no_mint_def)

text \<open>The loop over freed identifiers ends with an error or an identifier below the counter; it never
  reports that there is none.\<close>

definition reuse_outcome where
  "reuse_outcome ctx n s y \<longleftrightarrow> (\<exists>r f' s'. y = Some (r, f', s') \<and> fsm_no_mint look ctx n f' s' \<and> r \<noteq> Inr None
     \<and> only_marked look ctx s (reused r) s' \<and> (\<forall>i. r = Inr (Some i) \<longrightarrow> i < n))"

lemma reuse_outcome_trans:
  "only_marked look ctx s None t \<Longrightarrow> reuse_outcome ctx n t y \<Longrightarrow> reuse_outcome ctx n s y"
  unfolding reuse_outcome_def by (elim exE conjE) (intro exI conjI, assumption+, rule only_marked_trans, assumption+)

lemma pop_no_mint:
  assumes st: "fsm_no_mint look ctx n f s"
    and again: "\<And>s'. used_id look ctx s (unat i) \<Longrightarrow> fsm_no_mint look ctx n f s' \<Longrightarrow> reuse_outcome ctx n s' (rl f s')"
  shows "reuse_outcome ctx n s (case mark_used cb ctx i f s of (Inl e, f', s') \<Rightarrow> Some (Inl e, f', s')
      | (Inr changed, f', s') \<Rightarrow> if \<not> changed then rl f' s' else Some (Inr (Some i), f', s'))"
  using st
proof (cases rule: mark_used_no_mint [where i = i])
  case (error e s')
  then show ?thesis by (simp add: reuse_outcome_def reused_def)
next
  case (used s')
  from reuse_outcome_trans [OF used(3) again [OF used(4,2)]] show ?thesis using used(1) by simp
next
  case (got s')
  then show ?thesis by (simp add: reuse_outcome_def reused_def)
qed

lemma refill_no_mint:
  assumes st: "fsm_no_mint look ctx n f s" and e: "fast_free_list f = []"
  shows "\<exists>k ks f'. refill_fast_free_list cb ctx f s = (Inr True, f', s) \<and> fast_free_list f' = of_nat k # ks
    \<and> \<not> used_id look ctx s (unat (of_nat k :: 32 word)) \<and> fsm_no_mint look ctx n f' s"
proof -
  have ok: "blocks_ok look ctx (unat (max_block f)) s" and u: "\<And>k. used_id look ctx s k \<Longrightarrow> k < unat n"
    and n: "unat n < unat (max_block f) * 65536" using st by (simp_all add: fsm_no_mint_def)
  have "refill_ids look ctx f s \<noteq> []" using u n by (auto simp: refill_ids_empty)
  then obtain k ks where k: "refill_ids look ctx f s = k # ks" by (cases "refill_ids look ctx f s") auto
  then have l: "k < unat (max_block f) * 65536" "\<not> used_id look ctx s k" using refill_ids_less [of k look ctx f s] by simp_all
  have "unat (of_nat k :: 32 word) = k" using l(1) u32_bound [OF ok] by (intro unat_of_u32) (rule less_trans)
  then show ?thesis using refill_run [OF ok e] k l(2) st
    by (intro exI [of _ k] exI [of _ "map of_nat ks"] exI [of _ "refill_result look ctx f s"])
      (simp add: refill_result_def fsm_no_mint_def)
qed

lemma reuse_no_mint: "fsm_no_mint look ctx n f s \<Longrightarrow> reuse_outcome ctx n s (reuse_loop cb ctx f s)"
proof (induction "length (fast_free_list f)" arbitrary: f s)
  case 0
  then have e: "fast_free_list f = []" by simp
  from refill_no_mint [OF 0(2) e] obtain k ks f' where r: "refill_fast_free_list cb ctx f s = (Inr True, f', s)"
    "fast_free_list f' = of_nat k # ks" "\<not> used_id look ctx s (unat (of_nat k :: 32 word))" "fsm_no_mint look ctx n f' s" by blast
  from pop_no_mint [of ctx n "f'\<lparr>fast_free_list := ks\<rparr>" s "of_nat k" "reuse_loop cb ctx"] r(3,4)
  show ?case by (subst reuse_loop.simps) (simp add: e r fsm_no_mint_list)
next
  case (Suc len)
  then obtain i rest where l: "fast_free_list f = i # rest" "len = length rest" by (cases "fast_free_list f") auto
  from pop_no_mint [of ctx n "f\<lparr>fast_free_list := rest\<rparr>" s i "reuse_loop cb ctx"]
    Suc.hyps(1) [of "f\<lparr>fast_free_list := rest\<rparr>"] Suc.prems l
  show ?case by (subst reuse_loop.simps) (simp add: fsm_no_mint_list)
qed

lemma next_id_no_mint:
  assumes st: "fsm_no_mint look ctx n f s"
  shows "\<exists>r f' s'. next_id cb ctx f s = Some (r, f', s') \<and> fsm_no_mint look ctx n f' s'
    \<and> only_marked look ctx s (handed r) s' \<and> (\<forall>i. r = Inr i \<longrightarrow> i < n)"
proof -
  obtain r f' s' where r: "reuse_loop cb ctx f s = Some (r, f', s')" "fsm_no_mint look ctx n f' s'" "r \<noteq> Inr None"
     "only_marked look ctx s (reused r) s'" "\<forall>i. r = Inr (Some i) \<longrightarrow> i < n"
    using reuse_no_mint [OF st] unfolding reuse_outcome_def by blast
  have h: "has_free_ids f" using st by (simp add: fsm_no_mint_def)
  show ?thesis
  proof (cases r)
    case (Inl e)
    then show ?thesis using r h by (simp add: next_id_def handed_def reused_def)
  next
    case (Inr found)
    then obtain i where "r = Inr (Some i)" using r(3) by (cases found) auto
    then show ?thesis using r h by (simp add: next_id_def handed_def reused_def)
  qed
qed

lemma next_ids_no_mint:
  assumes "fsm_no_mint look ctx n f s"
  shows "\<exists>rs f' s'. next_ids cb ctx c f s = Some (rs, f', s') \<and> length rs = c \<and> fsm_no_mint look ctx n f' s'
    \<and> (\<forall>i. Inr i \<in> set rs \<longrightarrow> i < n)
    \<and> card {k. used_id look ctx s k} + length (filter (\<lambda>r. \<not> isl r) rs) \<le> card {k. used_id look ctx s' k}"
  using assms
proof (induction c arbitrary: f s)
  case (Suc c)
  from next_id_no_mint [OF Suc.prems] obtain r f1 s1 where r: "next_id cb ctx f s = Some (r, f1, s1)"
    "fsm_no_mint look ctx n f1 s1" "only_marked look ctx s (handed r) s1" "\<forall>i. r = Inr i \<longrightarrow> i < n" by blast
  from Suc.IH [OF r(2)] obtain rs f' s' where rs: "next_ids cb ctx c f1 s1 = Some (rs, f', s')" "length rs = c"
    "fsm_no_mint look ctx n f' s'" "\<forall>i. Inr i \<in> set rs \<longrightarrow> i < n"
    "card {k. used_id look ctx s1 k} + length (filter (\<lambda>r. \<not> isl r) rs) \<le> card {k. used_id look ctx s' k}" by blast
  have fin: "finite {k. used_id look ctx s k}" by (rule finite_subset [of _ "{..<2 ^ 32}"]) (auto simp: used_id_def)
  have "card {k. used_id look ctx s k} + (if isl r then 0 else 1) = card {k. used_id look ctx s1 k}"
  proof (cases r)
    case (Inr i)
    then have "{k. used_id look ctx s1 k} = insert (unat i) {k. used_id look ctx s k}" "\<not> used_id look ctx s (unat i)"
      using r(3) by (auto simp: handed_def only_marked_def)
    then show ?thesis using fin Inr by simp
  qed (use r(3) in \<open>simp add: handed_def only_marked_def\<close>)
  then show ?case using r(1,4) rs by auto
qed simp

lemma restart_no_mint:
  assumes ok: "blocks_ok look ctx m s" and top: "used_id look ctx s j" "\<And>k. used_id look ctx s k \<Longrightarrow> k \<le> j"
    and low: "Suc j < m * 65536" and gap: "g < j" "\<not> used_id look ctx s g"
  shows "\<exists>f. fsm_new cb ctx s = (Inr f, s) \<and> fsm_no_mint look ctx (of_nat (Suc j)) f s"
proof -
  have b: "m < 2 ^ 32" "Suc j < 2 ^ 32" "unat (of_nat m :: 32 word) = m"
    using blocks_ok_less [OF ok] low u32_bound [OF ok] by (simp_all add: unat_of_u32)
  have j: "j < Suc m * 65536" using low by simp
  then have x: "last_used (used_id look ctx s) (Suc m * 65536) (int j)" using top by (auto simp: last_used_def)
  let ?init = "\<lparr>has_free_ids = False, fast_free_list = [], max_block = - 1, fsm_next_id = 0\<rparr> :: fsm"
  obtain block where "fsm_block look ctx 0 s = Some block" "length block = 8192" using blocks_okD [OF ok, of 0] by blast
  then have e: "exists_wid cb (context_term ctx Metadata) (block_key 0) s" by (simp add: exists_wid_def exists_raw_iff fsm_block_def)
  let ?l = "take 1024 (gaps (used_id look ctx s) (int j) 0 (Suc m * 65536))"
  have "g \<in> set (gaps (used_id look ctx s) (int j) 0 (Suc m * 65536))" using gap j by (auto simp: gaps_def)
  then have l: "?l \<noteq> []" by (cases "gaps (used_id look ctx s) (int j) 0 (Suc m * 65536)") auto
  let ?f = "\<lparr>has_free_ids = True, fast_free_list = map of_nat ?l, max_block = of_nat m, fsm_next_id = of_nat (Suc j)\<rparr> :: fsm"
  have "fsm_load_state cb ctx ?init s = (Inr (), ?f, s)"
    using load_run [OF ok x, of ?init] l by (simp add: add.commute)
  then have "fsm_new cb ctx s = (Inr ?f, s)" using e by (simp add: fsm_new_def)
  moreover have "fsm_no_mint look ctx (of_nat (Suc j)) ?f s"
    using ok b low top(2) unat_of_u32 [OF b(2)] by (fastforce simp: fsm_no_mint_def)
  ultimately show ?thesis by blast
qed

end

section \<open>The in-memory store as an example\<close>

definition mem_block :: "byte list \<Rightarrow> nat \<Rightarrow> mem_store \<Rightarrow> mem_store" where
  "mem_block block b = store_set (context_term 0 Metadata) (wid_key (block_key (of_nat b))) block"

lemma mem_block_get:
  assumes "b < 2 ^ 32" "c < 2 ^ 32"
  shows "fsm_block store_get 0 c (mem_block block b s) = (if c = b then Some block else fsm_block store_get 0 c s)"
  using block_keys_eq [OF assms(2,1)] by (simp add: fsm_block_def mem_block_def store_get_set)

lemma mem_no_block: "fsm_block store_get ctx b Map.empty = None"
  by (simp add: fsm_block_def store_get_def)

lemma mem_new:
  "fsm_new test_callbacks 0 Map.empty = (Inr \<lparr>has_free_ids = False, fast_free_list = [], max_block = 0, fsm_next_id = 0\<rparr>,
     mem_block (replicate BLOCK_SIZE_BYTES 0) 0 Map.empty)"
proof -
  have "\<not> exists_wid test_callbacks (context_term 0 Metadata) (block_key 0) Map.empty"
    using mem_no_block [of 0 0] by (simp add: exists_wid_def mem.exists_raw_iff fsm_block_def)
  then show ?thesis
    by (simp add: fsm_new_def indexes_for_id_eq expand_to_def write_wid_def test_callbacks_def test_write_def mem_block_def)
qed

lemma mem_new_inv:
  "fsm_inv store_get 0 \<lparr>has_free_ids = False, fast_free_list = [], max_block = 0, fsm_next_id = 0\<rparr>
     (mem_block (replicate BLOCK_SIZE_BYTES 0) 0 Map.empty)"
  using mem.fresh_run [of 0 Map.empty] mem_no_block mem_new by (metis (no_types, lifting) Inl_Inr_False Pair_inject sum.inject(2))

text \<open>Marking one identifier of an in-memory store as used, and adding a block to it.\<close>

lemma mem_mark:
  assumes ok: "blocks_ok store_get 0 m s" and k: "k div 65536 \<le> m" "k < 2 ^ 32"
  shows "\<exists>s'. blocks_ok store_get 0 m s' \<and> (\<forall>j. used_id store_get 0 s' j \<longleftrightarrow> j = k \<or> used_id store_get 0 s j)"
proof -
  obtain block where block: "fsm_block store_get 0 (k div 65536) s = Some block" "length block = 8192" using blocks_okD [OF ok k(1)] .
  obtain changed byt where u: "update_status True (block ! (k mod 65536 div 8)) (k mod 8) = (changed, byt)" by fastforce
  let ?s = "mem_block (block[k mod 65536 div 8 := byt]) (k div 65536) s"
  have "k div 65536 < 2 ^ 32" using k(2) by (rule le_less_trans [OF div_le_dividend])
  then have g: "fsm_block store_get 0 c ?s = (if c = k div 65536 then Some (block[k mod 65536 div 8 := byt]) else fsm_block store_get 0 c s)"
    if "c < 2 ^ 32" for c using mem_block_get [OF _ that] by simp
  have "used_id store_get 0 ?s j = (if j = k then True else used_id store_get 0 s j)" for j
    by (rule used_id_update(1) [OF block g refl k(2) u])
  moreover have "blocks_ok store_get 0 m ?s"
    using ok g block k(1) by (auto simp: blocks_ok_def split: option.splits)
  ultimately show ?thesis by (intro exI [of _ ?s]) simp
qed

lemma mem_two_blocks:
  "\<exists>s. blocks_ok store_get 0 1 s \<and> (\<forall>k. \<not> used_id store_get 0 s k)"
proof -
  let ?z = "replicate BLOCK_SIZE_BYTES 0 :: byte list"
  let ?s0 = "mem_block ?z 0 Map.empty"
  let ?s1 = "mem_block ?z 1 ?s0"
  have z: "?z = replicate 8192 0" by (simp only: BLOCK_SIZE_BYTES_def)
  have ok0: "blocks_ok store_get 0 0 ?s0" "\<And>k. \<not> used_id store_get 0 ?s0 k" using mem_new_inv by (auto simp: fsm_inv_def)
  have g1: "fsm_block store_get 0 c ?s1 = (if c = Suc 0 then Some (replicate 8192 0) else fsm_block store_get 0 c ?s0)"
    if "c < 2 ^ 32" for c using mem_block_get [OF _ that, of 1 ?z ?s0] unfolding z by simp
  have "Suc 0 < 65536" by simp
  note s1 = new_block [OF ok0(1) this g1]
  show ?thesis using s1 ok0(2) by (intro exI [of _ ?s1]) simp
qed

section \<open>Properties\<close>

text \<open>C17: start from a store without blocks and make any sequence of requests for an identifier, returns of
  one, failures of either and restarts: the identifiers that were handed out and not given back are
  pairwise different, they are exactly the ones the store marks as used, and \<open>is_free\<close> says of each that
  it is not free, or rejects it when the counter has wrapped and is not above it.\<close>

theorem fsm_ids_unique:
  assumes "garnet_callbacks cb look" "\<forall>b < 2 ^ 32. fsm_block look ctx b s0 = None" "fsm_run cb ctx s0 out f s"
  shows "distinct out \<and> unat ` set out = {k. used_id look ctx s k}
    \<and> (\<forall>i \<in> set out. fsm_is_free cb ctx i f s = (if fsm_next_id f \<le> i then Inl (IdOutOfRange i) else Inr False))"
proof -
  have r: "blocks_ok look ctx (unat (max_block f)) s" "distinct out" "unat ` set out = {k. used_id look ctx s k}"
    using garnet_callbacks.fsm_run_safe [OF assms(1,3)] assms(2) by auto
  have "\<forall>i \<in> set out. fsm_is_free cb ctx i f s = (if fsm_next_id f \<le> i then Inl (IdOutOfRange i) else Inr False)"
  proof
    fix i assume "i \<in> set out"
    then have u: "used_id look ctx s (unat i)" using r(3) by auto
    show "fsm_is_free cb ctx i f s = (if fsm_next_id f \<le> i then Inl (IdOutOfRange i) else Inr False)"
    proof (cases "fsm_next_id f \<le> i")
      case False
      then have "i < fsm_next_id f" by (simp add: not_le)
      from garnet_callbacks.is_free_run [OF assms(1) r(1) used_id_block [OF u r(1)] this] u False show ?thesis by simp
    qed (simp add: fsm_is_free_def)
  qed
  with r(2,3) show ?thesis by blast
qed

text \<open>A run on the in-memory store: two identifiers are handed out, the first is given back, and the
  process restarts.\<close>

lemma mem_mark_id: "mark_id test_callbacks ctx i used f s = (Inl (Garnet WriteError), f', s') \<Longrightarrow> False"
  by (auto simp: mark_id_def indexes_for_id_eq rmw_wid_def test_callbacks_def test_rmw_def Let_def rbind_def
      split: if_splits sum.splits prod.splits)

lemma mem_mint:
  assumes inv: "fsm_inv store_get 0 f s" and f: "\<not> has_free_ids f" "unat (fsm_next_id f) < 65535"
  shows "\<exists>f' s'. next_id test_callbacks 0 f s = Some (Inr (fsm_next_id f), f', s') \<and> fsm_inv store_get 0 f' s'
    \<and> \<not> has_free_ids f' \<and> fsm_next_id f' = fsm_next_id f + 1"
proof -
  let ?f1 = "f\<lparr>fsm_next_id := fsm_next_id f + 1\<rparr>" and ?i = "fsm_next_id f"
  obtain r f' s' where n: "next_id test_callbacks 0 f s = Some (r, f', s')" "fsm_inv store_get 0 f' s'"
    using mem.next_id_run [OF inv] f(2) by auto
  have d: "unat ?i div 65536 = 0" using f(2) by simp
  have ok: "blocks_ok store_get 0 (unat (max_block ?f1)) s" using inv by (simp add: fsm_inv_def)
  have i: "?i < fsm_next_id ?f1" using f(2) unat_Suc_u32 [of ?i] by (simp add: word_less_nat_alt)
  have free: "\<not> used_id store_get 0 s (unat ?i)" using inv by (auto simp: fsm_inv_def)
  have "unat ?i div 65536 \<le> unat (max_block ?f1)" using d by simp
  from ok this i have "\<exists>t. mark_used test_callbacks 0 ?i ?f1 s = (Inr True, ?f1, t)"
  proof (cases rule: mem.mark_id_run [where used = True])
    case (failed t)
    then show ?thesis using mem_mark_id [OF failed(1)] by simp
  qed (use free in \<open>auto simp: mark_used_def\<close>)
  then obtain t where m: "mark_used test_callbacks 0 ?i ?f1 s = (Inr True, ?f1, t)" by blast
  have "mint_loop test_callbacks 0 f s = Some (Inr ?i, ?f1, t)"
    using m d by (simp add: mint_loop.simps [of _ _ f] indexes_for_id_eq Let_def)
  then show ?thesis using n f(1) by (auto simp: next_id_def)
qed

lemma mem_run:
  "\<exists>f s. fsm_run test_callbacks 0 Map.empty [1] f s \<and> unat (fsm_next_id f) = 2"
proof -
  let ?f0 = "\<lparr>has_free_ids = False, fast_free_list = [], max_block = 0, fsm_next_id = 0\<rparr> :: fsm"
  let ?s0 = "mem_block (replicate BLOCK_SIZE_BYTES 0) 0 Map.empty"
  have r0: "fsm_run test_callbacks 0 Map.empty [] ?f0 ?s0" using mem_new by (rule fsm_run.run_new)
  from mem_mint [OF mem_new_inv] obtain f1 s1 where 1: "next_id test_callbacks 0 ?f0 ?s0 = Some (Inr 0, f1, s1)"
    "fsm_inv store_get 0 f1 s1" "\<not> has_free_ids f1" "fsm_next_id f1 = 1" by auto
  have r1: "fsm_run test_callbacks 0 Map.empty [0] f1 s1" using fsm_run.run_next [OF r0 1(1)] by simp
  from mem_mint [OF 1(2,3)] 1(4) obtain f2 s2 where 2: "next_id test_callbacks 0 f1 s1 = Some (Inr 1, f2, s2)"
    "fsm_inv store_get 0 f2 s2" "fsm_next_id f2 = 2" by auto
  have r2: "fsm_run test_callbacks 0 Map.empty [1, 0] f2 s2" using fsm_run.run_next [OF r1 2(1)] by simp
  have z: "0 < fsm_next_id f2" "unat (0 :: 32 word) div 65536 \<le> unat (max_block f2)" using 2(3) by simp_all
  have u2: "unat ` {1, 0 :: 32 word} = {k. used_id store_get 0 s2 k}" "unat (max_block f2) < 65536"
    using mem.fsm_run_safe [OF r2 mem_no_block] by (simp_all add: blocks_ok_def)
  from 2(2) z obtain f3 s3 where 3: "mark_free test_callbacks 0 0 f2 s2 = (Inr (), f3, s3)" "fsm_inv store_get 0 f3 s3"
  proof (cases rule: mem.mark_free_run)
    case (failed t)
    then have "mark_id test_callbacks 0 0 False f2 s2 = (Inl (Garnet WriteError), f2, t)"
      by (cases "mark_id test_callbacks 0 0 False f2 s2") (auto simp: mark_free_def map_sum_def split: sum.splits)
    then show ?thesis using mem_mark_id by blast
  qed (use that in blast)
  have r3: "fsm_run test_callbacks 0 Map.empty [1] f3 s3" using fsm_run.run_free [OF r2 3(1)] by simp
  from mem.recovery_run [OF 3(2)] obtain f4 where 4: "fsm_new test_callbacks 0 s3 = (Inr f4, s3)"
    "recovered store_get 0 f3 s3 f4" by blast
  have r4: "fsm_run test_callbacks 0 Map.empty [1] f4 s3" using fsm_run.run_restart [OF r3 4(1)] .
  have u: "unat ` {1 :: 32 word} = {k. used_id store_get 0 s3 k}" using mem.fsm_run_safe [OF r3 mem_no_block] by simp
  then have k: "used_id store_get 0 s3 k \<longleftrightarrow> k = 1" for k by (auto simp: set_eq_iff)
  have "1 < unat (fsm_next_id f4)" "fsm_next_id f4 \<noteq> 0 \<longrightarrow> unat (fsm_next_id f4) - 1 = 1"
    using 4(2) k by (simp_all add: recovered_def)
  then have "unat (fsm_next_id f4) = 2" by auto
  then show ?thesis using r4 by blast
qed

theorem fsm_ids_unique_witness:
  "\<exists>f s. fsm_run test_callbacks 0 Map.empty [1] f s \<and> {k. used_id store_get 0 s k} = {1}
    \<and> fsm_is_free test_callbacks 0 1 f s = Inr False"
proof -
  obtain f s where r: "fsm_run test_callbacks 0 Map.empty [1] f s" "unat (fsm_next_id f) = 2" using mem_run by blast
  have "\<forall>b < 2 ^ 32. fsm_block store_get 0 b Map.empty = None" by (simp add: mem_no_block)
  from fsm_ids_unique [OF mem.garnet_callbacks_axioms this r(1)] r show ?thesis
    by (intro exI [of _ f] exI [of _ s]) (auto simp: word_le_nat_alt)
qed

text \<open>C34: \<open>next_id\<close> ends; it returns an identifier that was free and has marked it as used and no other,
  or it fails without a panic and the identifiers in use are the same.  It fails only when an access to
  the store does, or when the counter is more than a block beyond the last block.\<close>

theorem next_id_correct:
  assumes "garnet_callbacks cb look" "fsm_inv look ctx f s" "unat (fsm_next_id f) + 1 < 2 ^ 32"
  shows "\<exists>r f' s'. next_id cb ctx f s = Some (r, f', s') \<and> fsm_inv look ctx f' s' \<and>
    (case r of
       Inl e \<Rightarrow> (\<forall>k. used_id look ctx s' k = used_id look ctx s k) \<and> (\<forall>x. e \<noteq> FsmPanic x)
         \<and> (\<not> callbacks_succeed cb \<or> Suc (unat (max_block f)) < unat (fsm_next_id f) div 65536)
     | Inr i \<Rightarrow> \<not> used_id look ctx s (unat i) \<and> (\<forall>k. used_id look ctx s' k = (k = unat i \<or> used_id look ctx s k)))"
proof -
  obtain r f' s' where "next_id cb ctx f s = Some (r, f', s')" "fsm_inv look ctx f' s'" "handed_out look ctx s r f' s'"
    "isl r \<longrightarrow> \<not> callbacks_succeed cb \<or> Suc (unat (max_block f)) < unat (fsm_next_id f) div 65536"
    using garnet_callbacks.next_id_run [OF assms] by blast
  then show ?thesis by (intro exI [of _ r] exI [of _ f'] exI [of _ s']) (auto simp: handed_out_def split: sum.splits)
qed

theorem next_id_correct_witness:
  "\<exists>i f s. next_id test_callbacks 0 \<lparr>has_free_ids = False, fast_free_list = [], max_block = 0, fsm_next_id = 0\<rparr>
    (mem_block (replicate BLOCK_SIZE_BYTES 0) 0 Map.empty) = Some (Inr i, f, s) \<and> fsm_inv store_get 0 f s
    \<and> used_id store_get 0 s (unat i)"
proof -
  let ?f = "\<lparr>has_free_ids = False, fast_free_list = [], max_block = 0, fsm_next_id = 0\<rparr> :: fsm"
  let ?s = "mem_block (replicate BLOCK_SIZE_BYTES 0) 0 Map.empty"
  obtain r f s where r: "next_id test_callbacks 0 ?f ?s = Some (r, f, s)" "fsm_inv store_get 0 f s"
    "case r of Inl e \<Rightarrow> False | Inr i \<Rightarrow> used_id store_get 0 s (unat i)"
    using next_id_correct [OF mem.garnet_callbacks_axioms mem_new_inv] test_callbacks_succeed by (fastforce split: sum.splits)
  then show ?thesis by (cases r) auto
qed



text \<open>C36: restart on a store whose last identifier in use, \<open>j\<close>, lies below the last block, so that the whole
  last block and what follows \<open>j\<close> before it is free, and in which some identifier below \<open>j\<close> is free too.
  The counter becomes \<open>j + 1\<close>, and however many requests follow, only free identifiers below \<open>j\<close> are ever
  handed out, at most as many as there are: every other request fails, although more than a block of
  identifiers is free, because the map keeps queueing identifiers at or above the counter, which it then
  rejects, and never mints one.\<close>

theorem fsm_restart_stuck:
  assumes "garnet_callbacks cb look" "blocks_ok look ctx m s"
    and "used_id look ctx s j" "\<forall>k. used_id look ctx s k \<longrightarrow> k \<le> j" "Suc j < m * 65536"
    and "g < j" "\<not> used_id look ctx s g"
  shows "\<exists>f. fsm_new cb ctx s = (Inr f, s) \<and> unat (fsm_next_id f) = Suc j
    \<and> (\<forall>c. \<exists>rs f' s'. next_ids cb ctx c f s = Some (rs, f', s') \<and> length rs = c
         \<and> (\<forall>i. Inr i \<in> set rs \<longrightarrow> unat i \<le> j)
         \<and> length (filter (\<lambda>r. \<not> isl r) rs) \<le> card {k. k < j \<and> \<not> used_id look ctx s k})"
proof -
  obtain f where f: "fsm_new cb ctx s = (Inr f, s)" "fsm_no_mint look ctx (of_nat (Suc j)) f s"
    using garnet_callbacks.restart_no_mint [OF assms(1-3) _ assms(5-7)] assms(4) by blast
  have n: "unat (of_nat (Suc j) :: 32 word) = Suc j" using assms(5) u32_bound [OF assms(2)] by (intro unat_of_u32) linarith
  have "\<exists>rs f' s'. next_ids cb ctx c f s = Some (rs, f', s') \<and> length rs = c
      \<and> (\<forall>i. Inr i \<in> set rs \<longrightarrow> unat i \<le> j) \<and> length (filter (\<lambda>r. \<not> isl r) rs) \<le> card {k. k < j \<and> \<not> used_id look ctx s k}" for c
  proof -
    obtain rs f' s' where rs: "next_ids cb ctx c f s = Some (rs, f', s')" "length rs = c" "fsm_no_mint look ctx (of_nat (Suc j)) f' s'"
      "\<forall>i. Inr i \<in> set rs \<longrightarrow> i < of_nat (Suc j)"
      "card {k. used_id look ctx s k} + length (filter (\<lambda>r. \<not> isl r) rs) \<le> card {k. used_id look ctx s' k}"
      using garnet_callbacks.next_ids_no_mint [OF assms(1) f(2)] by blast
    have "{k. used_id look ctx s' k} \<subseteq> {..j}" using rs(3) n by (auto simp: fsm_no_mint_def)
    then have top: "card {k. used_id look ctx s' k} \<le> Suc j" using card_mono [of "{..j}"] by fastforce
    have "{..j} = {k. k < j \<and> \<not> used_id look ctx s k} \<union> {k. used_id look ctx s k}" using assms(3,4) by (auto simp: order_le_less)
    moreover have "finite {k. used_id look ctx s k}" by (rule finite_subset [of _ "{..j}"]) (use assms(4) in auto)
    ultimately have "Suc j = card {k. k < j \<and> \<not> used_id look ctx s k} + card {k. used_id look ctx s k}"
      using card_Un_disjoint [of "{k. k < j \<and> \<not> used_id look ctx s k}" "{k. used_id look ctx s k}"] by (metis (no_types, lifting) card_atMost
        disjoint_iff finite_Un finite_atMost mem_Collect_eq)
    then have "length (filter (\<lambda>r. \<not> isl r) rs) \<le> card {k. k < j \<and> \<not> used_id look ctx s k}" using rs(5) top by linarith
    moreover have "\<forall>i. Inr i \<in> set rs \<longrightarrow> unat i \<le> j" using rs(4) n by (auto simp: word_less_nat_alt)
    ultimately show ?thesis using rs(1,2) by blast
  qed
  moreover have "unat (fsm_next_id f) = Suc j" using f(2) n by (simp add: fsm_no_mint_def)
  ultimately show ?thesis using f(1) by blast
qed

theorem fsm_restart_stuck_witness:
  "\<exists>s f rs f' s'. {k. used_id store_get 0 s k} = {1} \<and> fsm_new test_callbacks 0 s = (Inr f, s)
    \<and> next_ids test_callbacks 0 5 f s = Some (rs, f', s') \<and> length rs = 5 \<and> length (filter (\<lambda>r. \<not> isl r) rs) \<le> 1"
proof -
  obtain t where "blocks_ok store_get 0 1 t" "\<forall>k. \<not> used_id store_get 0 t k" using mem_two_blocks by blast
  then obtain s where s: "blocks_ok store_get 0 1 s" "\<And>k. used_id store_get 0 s k \<longleftrightarrow> k = 1"
    using mem_mark [of 1 t 1] by auto
  have c: "card {k. k < 1 \<and> \<not> used_id store_get 0 s k} = 1"
  proof -
    have "{k. k < 1 \<and> \<not> used_id store_get 0 s k} = {0}" using s(2) by auto
    then show ?thesis by simp
  qed
  have "\<exists>f. fsm_new test_callbacks 0 s = (Inr f, s) \<and> unat (fsm_next_id f) = Suc 1
    \<and> (\<forall>c. \<exists>rs f' s'. next_ids test_callbacks 0 c f s = Some (rs, f', s') \<and> length rs = c
         \<and> (\<forall>i. Inr i \<in> set rs \<longrightarrow> unat i \<le> 1)
         \<and> length (filter (\<lambda>r. \<not> isl r) rs) \<le> card {k. k < 1 \<and> \<not> used_id store_get 0 s k})"
    by (rule fsm_restart_stuck [OF mem.garnet_callbacks_axioms s(1), of 1 0]) (simp_all add: s(2))
  then obtain f where f: "fsm_new test_callbacks 0 s = (Inr f, s)"
    "\<forall>c. \<exists>rs f' s'. next_ids test_callbacks 0 c f s = Some (rs, f', s') \<and> length rs = c
         \<and> (\<forall>i. Inr i \<in> set rs \<longrightarrow> unat i \<le> 1) \<and> length (filter (\<lambda>r. \<not> isl r) rs) \<le> 1"
    unfolding c by (elim exE conjE)
  from f(2) obtain rs f' s' where "next_ids test_callbacks 0 5 f s = Some (rs, f', s')" "length rs = 5" "length (filter (\<lambda>r. \<not> isl r) rs) \<le> 1"
    by (elim allE [of _ 5] exE conjE)
  moreover have "{k. used_id store_get 0 s k} = {1}" using s(2) by simp
  ultimately show ?thesis using f(1) by (intro exI conjI)
qed

end
