(* ===== verification/Garnet_Provider.thy ===== *)
theory Garnet_Provider
  imports Free_Space_Map Neighbor_Provider
begin

text \<open>
  The data provider of the Garnet integration, \<open>diskann-garnet/src/provider.rs\<close>: vectors, the two maps
  between external and internal identifiers, and adjacency lists, all values of the host's store
  under different terms of one context, with the internal identifiers taken from the free space map.
  The start point has the identifier 0; its vector and its adjacency list are also kept in memory.

  A vector is its bytes.  An adjacency list is stored as \<open>max_degree + 1\<close> numbers of 32 bits, the last of
  which is the length.  The object pools only recycle buffers and are not modelled.
\<close>

section \<open>The state\<close>

datatype gp_error = GpGarnet garnet_error | GpFsm fsm_error | StartPoint | GpPanic fault

record garnet_provider =
  gp_dim_bytes :: nat
  gp_max_degree :: nat
  neighbor_cache :: "32 word \<rightharpoonup> 32 word list"
  start_point_cache :: "32 word \<rightharpoonup> byte list"
  gp_fsm :: fsm

text \<open>\<open>bytemuck::cast_slice\<close> between numbers and bytes.\<close>

definition u32_bytes :: "32 word list \<Rightarrow> byte list" where
  "u32_bytes xs = concat (map (\<lambda>x. le_bytes 4 (unat x)) xs)"

fun bytes_u32 :: "byte list \<Rightarrow> 32 word list" where
  "bytes_u32 (a # b # c # d # r) = of_nat (from_le [a, b, c, d]) # bytes_u32 r"
| "bytes_u32 _ = []"

section \<open>Identifiers and vectors\<close>

definition to_internal_id :: "'s callbacks \<Rightarrow> 64 word \<Rightarrow> garnet_id \<Rightarrow> 's \<Rightarrow> gp_error + 32 word" where
  "to_internal_id cb ctx gid s =
     (case read_single_eid cb (context_term ctx IntMap) gid (replicate 4 0) s of
        Inl e \<Rightarrow> Inl (GpPanic e)
      | Inr (found, v) \<Rightarrow> if \<not> found then Inl (GpGarnet ReadError) else Inr (of_nat (from_le v)))"

definition to_external_id :: "'s callbacks \<Rightarrow> 64 word \<Rightarrow> 32 word \<Rightarrow> 's \<Rightarrow> gp_error + garnet_id" where
  "to_external_id cb ctx i s =
     (case read_varsize_iid cb (context_term ctx ExtMap) i s of
        Some eid \<Rightarrow> Inr (garnet_id_from eid)
      | None \<Rightarrow> Inl (GpGarnet ReadError))"

definition set_attributes :: "'s callbacks \<Rightarrow> 64 word \<Rightarrow> garnet_id \<Rightarrow> byte list \<Rightarrow> 's \<Rightarrow> (gp_error + unit) \<times> 's" where
  "set_attributes cb ctx gid data s =
     (case write_eid cb (context_term ctx Attributes) gid data s of (s', ok) \<Rightarrow>
        (if ok then Inr () else Inl (GpGarnet WriteError), s'))"

definition vector_iid_exists :: "'s callbacks \<Rightarrow> 64 word \<Rightarrow> 32 word \<Rightarrow> garnet_provider \<Rightarrow> 's \<Rightarrow> bool" where
  "vector_iid_exists cb ctx i p s = (\<not> (case fsm_is_free cb ctx i (gp_fsm p) s of Inl _ \<Rightarrow> True | Inr free \<Rightarrow> free))"

definition vector_id_exists :: "'s callbacks \<Rightarrow> 64 word \<Rightarrow> garnet_id \<Rightarrow> garnet_provider \<Rightarrow> 's \<Rightarrow> bool" where
  "vector_id_exists cb ctx gid p s =
     (case to_internal_id cb ctx gid s of Inl _ \<Rightarrow> False | Inr i \<Rightarrow> vector_iid_exists cb ctx i p s)"

text \<open>\<open>ElementStatus\<close>: whether the element is deleted.\<close>

datatype element_status = Valid | Deleted

definition status_by_internal_id :: "'s callbacks \<Rightarrow> 64 word \<Rightarrow> 32 word \<Rightarrow> garnet_provider \<Rightarrow> 's \<Rightarrow> gp_error + element_status" where
  "status_by_internal_id cb ctx i p s =
     (case fsm_is_free cb ctx i (gp_fsm p) s of
        Inl e \<Rightarrow> Inl (GpFsm e)
      | Inr free \<Rightarrow> Inr (if free then Deleted else Valid))"

definition status_by_external_id :: "'s callbacks \<Rightarrow> 64 word \<Rightarrow> garnet_id \<Rightarrow> garnet_provider \<Rightarrow> 's \<Rightarrow> gp_error + element_status" where
  "status_by_external_id cb ctx gid p s =
     rbind (to_internal_id cb ctx gid s) (\<lambda>i. status_by_internal_id cb ctx i p s)"

text \<open>The three writes of an insertion; the first that fails ends it.\<close>

definition insert_data :: "'s callbacks \<Rightarrow> 64 word \<Rightarrow> 32 word \<Rightarrow> garnet_id \<Rightarrow> byte list \<Rightarrow> 's \<Rightarrow> 's \<times> bool" where
  "insert_data cb ctx i gid element s =
     (case write_iid cb (context_term ctx Vector) i element s of (s1, ok1) \<Rightarrow>
        if \<not> ok1 then (s1, False)
        else case write_iid cb (context_term ctx ExtMap) i (gid_deref gid) s1 of (s2, ok2) \<Rightarrow>
          if \<not> ok2 then (s2, False)
          else write_eid cb (context_term ctx IntMap) gid (iid_key i) s2)"

definition set_element ::
  "'s callbacks \<Rightarrow> 64 word \<Rightarrow> garnet_id \<Rightarrow> byte list \<Rightarrow> garnet_provider \<Rightarrow> 's \<Rightarrow> ((gp_error + 32 word) \<times> garnet_provider \<times> 's) option" where
  "set_element cb ctx gid element p s =
     (case next_id cb ctx (gp_fsm p) s of
        None \<Rightarrow> None
      | Some (Inl e, f, s1) \<Rightarrow> Some (Inl (GpFsm e), p\<lparr>gp_fsm := f\<rparr>, s1)
      | Some (Inr i, f, s1) \<Rightarrow>
          (case insert_data cb ctx i gid element s1 of (s2, ok) \<Rightarrow>
             if ok then Some (Inr i, p\<lparr>gp_fsm := f\<rparr>, s2)
             else (case mark_free cb ctx i f s2 of
                     (Inl e, f', s3) \<Rightarrow> Some (Inl (GpFsm e), p\<lparr>gp_fsm := f'\<rparr>, s3)
                   | (Inr _, f', s3) \<Rightarrow> Some (Inl (GpGarnet WriteError), p\<lparr>gp_fsm := f'\<rparr>, s3))))"

definition gp_delete :: "'s callbacks \<Rightarrow> 64 word \<Rightarrow> garnet_id \<Rightarrow> garnet_provider \<Rightarrow> 's \<Rightarrow> (gp_error + unit) \<times> garnet_provider \<times> 's" where
  "gp_delete cb ctx gid p s =
     (case to_internal_id cb ctx gid s of
        Inl e \<Rightarrow> (Inl e, p, s)
      | Inr i \<Rightarrow>
          (case mark_free cb ctx i (gp_fsm p) s of
             (Inl e, f, s1) \<Rightarrow> (Inl (GpFsm e), p\<lparr>gp_fsm := f\<rparr>, s1)
           | (Inr _, f, s1) \<Rightarrow>
               (case delete_iid cb (context_term ctx ExtMap) i s1 of (s2, ok2) \<Rightarrow>
                case delete_eid cb (context_term ctx IntMap) gid s2 of (s3, ok3) \<Rightarrow>
                case delete_eid cb (context_term ctx Attributes) gid s3 of (s4, ok4) \<Rightarrow>
                case delete_iid cb (context_term ctx Vector) i s4 of (s5, ok5) \<Rightarrow>
                (if ok2 \<and> ok3 \<and> ok4 \<and> ok5 then Inr () else Inl (GpGarnet DeleteError), p\<lparr>gp_fsm := f\<rparr>, s5))))"

section \<open>Adjacency lists\<close>

text \<open>The read into the guarded buffer of \<open>max_degree + 1\<close> numbers; copying a longer cached list, or
  finishing beyond the buffer, is a fault of the slice or a truncation.\<close>

definition gp_get_neighbors :: "'s callbacks \<Rightarrow> 64 word \<Rightarrow> 32 word \<Rightarrow> garnet_provider \<Rightarrow> 's \<Rightarrow> gp_error + 32 word list" where
  "gp_get_neighbors cb ctx i p s =
     (case (if i = 0 then neighbor_cache p i else None) of
        Some cached \<Rightarrow> if length cached \<le> gp_max_degree p + 1 then Inr cached else Inl (GpPanic IndexFault)
      | None \<Rightarrow>
          (case read_single_iid cb (context_term ctx Neighbors) i (replicate (4 * (gp_max_degree p + 1)) 0) s of
             Inl e \<Rightarrow> Inl (GpPanic e)
           | Inr (found, v) \<Rightarrow>
               if \<not> found then Inl (GpGarnet ReadError)
               else let guard = bytes_u32 v in Inr (guard_finish (unat (guard ! gp_max_degree p)) guard)))"

text \<open>The buffer of \<open>set_neighbors\<close> holds earlier identifiers behind the list, given here as \<open>buf\<close>.\<close>

definition gp_set_neighbors ::
  "'s callbacks \<Rightarrow> 64 word \<Rightarrow> 32 word list \<Rightarrow> 32 word \<Rightarrow> 32 word list \<Rightarrow> garnet_provider \<Rightarrow> 's \<Rightarrow> (gp_error + unit) \<times> garnet_provider \<times> 's" where
  "gp_set_neighbors cb ctx buf i neighbors p s =
     (let guard = al_resize 0 (gp_max_degree p + 1) buf in
      if gp_max_degree p + 1 < length neighbors then (Inl (GpPanic IndexFault), p, s)
      else let guard' = (neighbors @ drop (length neighbors) guard)[gp_max_degree p := of_nat (length neighbors)] in
        case write_iid cb (context_term ctx Neighbors) i (u32_bytes guard') s of (s', ok) \<Rightarrow>
          if \<not> ok then (Inl (GpGarnet WriteError), p, s')
          else (Inr (), if i = 0 then p\<lparr>neighbor_cache := (neighbor_cache p)(i \<mapsto> neighbors)\<rparr> else p, s'))"

text \<open>The loop over the new neighbors; the last component says whether it was left by \<open>return\<close>, which
  also skips the update of the cache behind the loop.\<close>

fun gp_append_loop :: "nat \<Rightarrow> 32 word list \<Rightarrow> nat \<Rightarrow> 32 word list \<Rightarrow> 32 word list \<times> nat \<times> bool" where
  "gp_append_loop max_degree data len [] = (data, len, False)"
| "gp_append_loop max_degree data len (nbr # ns) =
     (if len = max_degree then (data, len, True)
      else if contains_simd_u32 (take len data) nbr then gp_append_loop max_degree data len ns
      else gp_append_loop max_degree (data[len := nbr, max_degree := of_nat (len + 1)]) (len + 1) ns)"

definition gp_append_run :: "nat \<Rightarrow> 32 word list \<Rightarrow> 32 word list \<Rightarrow> 32 word list \<times> nat \<times> bool" where
  "gp_append_run max_degree neighbors data =
     gp_append_loop max_degree data (min (unat (data ! max_degree)) max_degree) neighbors"

definition gp_append_modifier :: "nat \<Rightarrow> 32 word list \<Rightarrow> bool \<Rightarrow> modifier" where
  "gp_append_modifier max_degree neighbors caching v =
     (let data = bytes_u32 v in
      if length data \<le> max_degree then Inl IndexFault
      else case gp_append_run max_degree neighbors data of (data', len, returned) \<Rightarrow>
        Inr (u32_bytes data', if \<not> returned \<and> caching then Cached (take len data') else Untouched))"

definition gp_append_vector ::
  "'s callbacks \<Rightarrow> 64 word \<Rightarrow> 32 word \<Rightarrow> 32 word list \<Rightarrow> garnet_provider \<Rightarrow> 's \<Rightarrow> (gp_error + unit) \<times> garnet_provider \<times> 's" where
  "gp_append_vector cb ctx i neighbors p s =
     (case rmw_iid cb (context_term ctx Neighbors) i (4 * (gp_max_degree p + 1))
             (gp_append_modifier (gp_max_degree p) neighbors (i = 0 \<and> neighbor_cache p i \<noteq> None)) s of
        Inl e \<Rightarrow> (Inl (GpPanic e), p, s)
      | Inr (s', ok, var) \<Rightarrow>
          (let p' = (case var of Cached ns \<Rightarrow> p\<lparr>neighbor_cache := (neighbor_cache p)(i \<mapsto> ns)\<rparr> | _ \<Rightarrow> p)
           in if \<not> ok then (Inl (GpGarnet WriteError), p', s') else (Inr (), p', s')))"

section \<open>The start point\<close>

text \<open>The vector and the list of identifier 0 as the store has them: \<open>None\<close> when there is no vector.\<close>

definition read_start :: "'s callbacks \<Rightarrow> 64 word \<Rightarrow> nat \<Rightarrow> nat \<Rightarrow> 's \<Rightarrow> gp_error + (byte list \<times> 32 word list) option" where
  "read_start cb ctx dim_bytes max_degree s =
     (case read_single_iid cb (context_term ctx Vector) 0 (replicate dim_bytes 0) s of
        Inl e \<Rightarrow> Inl (GpPanic e)
      | Inr (found, v) \<Rightarrow>
          if \<not> found then Inr None
          else (case read_single_iid cb (context_term ctx Neighbors) 0 (replicate (4 * (max_degree + 1)) 0) s of
                  Inl e \<Rightarrow> Inl (GpPanic e)
                | Inr (found', w) \<Rightarrow>
                    if \<not> found' then Inl (GpGarnet ReadError)
                    else let neighbors = bytes_u32 w in Inr (Some (v, take (unat (neighbors ! max_degree)) neighbors))))"

definition cache_start :: "(byte list \<times> 32 word list) option \<Rightarrow> garnet_provider \<Rightarrow> garnet_provider" where
  "cache_start r p =
     (case r of None \<Rightarrow> p
      | Some (v, ns) \<Rightarrow> p\<lparr>start_point_cache := (start_point_cache p)(0 \<mapsto> v), neighbor_cache := (neighbor_cache p)(0 \<mapsto> ns)\<rparr>)"

definition gp_new :: "'s callbacks \<Rightarrow> 64 word \<Rightarrow> nat \<Rightarrow> nat \<Rightarrow> 's \<Rightarrow> (gp_error + garnet_provider) \<times> 's" where
  "gp_new cb ctx dim_bytes max_degree s =
     (case read_start cb ctx dim_bytes max_degree s of
        Inl e \<Rightarrow> (Inl e, s)
      | Inr r \<Rightarrow>
          (case fsm_new cb ctx s of
             (Inl e, s') \<Rightarrow> (Inl (GpFsm e), s')
           | (Inr f, s') \<Rightarrow>
               (Inr (cache_start r \<lparr>gp_dim_bytes = dim_bytes, gp_max_degree = max_degree, neighbor_cache = Map.empty,
                  start_point_cache = Map.empty, gp_fsm = f\<rparr>), s')))"

definition maybe_set_start_point ::
  "'s callbacks \<Rightarrow> 64 word \<Rightarrow> byte list \<Rightarrow> garnet_provider \<Rightarrow> 's \<Rightarrow> ((gp_error + unit) \<times> garnet_provider \<times> 's) option" where
  "maybe_set_start_point cb ctx point p s =
     (case read_start cb ctx (gp_dim_bytes p) (gp_max_degree p) s of
        Inl e \<Rightarrow> Some (Inl e, p, s)
      | Inr (Some r) \<Rightarrow> Some (Inr (), cache_start (Some r) p, s)
      | Inr None \<Rightarrow>
          (case next_id cb ctx (gp_fsm p) s of
             None \<Rightarrow> None
           | Some (Inl e, f, s1) \<Rightarrow> Some (Inl (GpFsm e), p\<lparr>gp_fsm := f\<rparr>, s1)
           | Some (Inr i, f, s1) \<Rightarrow>
               if i \<noteq> 0 then
                 (case mark_free cb ctx i f s1 of
                    (Inl e, f', s2) \<Rightarrow> Some (Inl (GpFsm e), p\<lparr>gp_fsm := f'\<rparr>, s2)
                  | (Inr _, f', s2) \<Rightarrow> Some (Inl StartPoint, p\<lparr>gp_fsm := f'\<rparr>, s2))
               else
                 (case write_iid cb (context_term ctx Vector) 0 point s1 of (s2, ok2) \<Rightarrow>
                    if \<not> ok2 then Some (Inl (GpGarnet WriteError), p\<lparr>gp_fsm := f\<rparr>, s2)
                    else case write_iid cb (context_term ctx Neighbors) 0 (u32_bytes (replicate (gp_max_degree p + 1) 0)) s2 of
                      (s3, ok3) \<Rightarrow>
                        if \<not> ok3 then Some (Inl (GpGarnet WriteError), p\<lparr>gp_fsm := f\<rparr>, s3)
                        else Some (Inr (), cache_start (Some (point, [])) (p\<lparr>gp_fsm := f\<rparr>), s3))))"

definition start_points_exist :: "garnet_provider \<Rightarrow> bool" where
  "start_points_exist p \<longleftrightarrow> start_point_cache p 0 \<noteq> None \<and> neighbor_cache p 0 \<noteq> None"

definition get_element :: "'s callbacks \<Rightarrow> 64 word \<Rightarrow> 32 word \<Rightarrow> garnet_provider \<Rightarrow> 's \<Rightarrow> gp_error + byte list" where
  "get_element cb ctx i p s =
     (if i = 0 then
        (case start_point_cache p i of
           None \<Rightarrow> Inl (GpGarnet ReadError)
         | Some v \<Rightarrow> if length v = gp_dim_bytes p then Inr v else Inl (GpPanic AssertFault))
      else
        (case read_single_iid cb (context_term ctx Vector) i (replicate (gp_dim_bytes p) 0) s of
           Inl e \<Rightarrow> Inl (GpPanic e)
         | Inr (found, v) \<Rightarrow> if \<not> found then Inl (GpGarnet ReadError) else Inr v))"

section \<open>What the operations leave alone\<close>

definition others_same :: "(64 word \<Rightarrow> byte list \<Rightarrow> 's \<Rightarrow> byte list option) \<Rightarrow> 64 word \<Rightarrow> key_term \<Rightarrow> 's \<Rightarrow> 's \<Rightarrow> bool" where
  "others_same look ctx kind s s' \<longleftrightarrow>
     (\<forall>a k. a \<noteq> kind \<longrightarrow> look (context_term ctx a) k s' = look (context_term ctx a) k s)"

lemma others_same_refl [simp]: "others_same look ctx kind s s"
  by (simp add: others_same_def)

lemma others_same_trans: "others_same look ctx kind s t \<Longrightarrow> others_same look ctx kind t u \<Longrightarrow> others_same look ctx kind s u"
  by (simp add: others_same_def)

lemma others_same_blocks: "others_same look ctx kind s s' \<Longrightarrow> kind \<noteq> Metadata \<Longrightarrow> blocks_agree look ctx s s'"
  by (simp add: others_same_def blocks_agree_def fsm_block_def)

lemma refill_store: "refill_fast_free_list cb ctx f s = (r, f', s') \<Longrightarrow> s' = s"
  by (auto simp: refill_fast_free_list_def split: if_splits prod.splits option.splits)

context garnet_terms
begin

lemma mark_id_others:
  assumes "ctx AND TERM_BITMASK = 0" "mark_id cb ctx i used f s = (r, f', s')"
  shows "others_same look ctx Metadata s s'"
proof (cases "s' = s")
  case False
  then obtain b n g ok var where "rmw_wid cb (context_term ctx Metadata) (block_key b) n g s = Inr (s', ok, var)"
    using assms(2) by (auto simp: mark_id_def Let_def split: if_splits sum.splits prod.splits)
  then show ?thesis using rmw_frame context_terms_differ [OF assms(1)] by (auto simp: others_same_def rmw_wid_def)
qed simp

lemma expand_to_others:
  assumes "ctx AND TERM_BITMASK = 0" "expand_to cb ctx i f s = (r, f', s')"
  shows "others_same look ctx Metadata s s'"
proof (cases "s' = s")
  case False
  then obtain b v ok where "write_wid cb (context_term ctx Metadata) (block_key b) v s = (s', ok)"
    using assms(2) by (auto simp: expand_to_def split: if_splits prod.splits)
  then show ?thesis using write_frame context_terms_differ [OF assms(1)] by (auto simp: others_same_def write_wid_def)
qed simp

lemma mark_used_others:
  assumes "ctx AND TERM_BITMASK = 0" "mark_used cb ctx i f s = (r, f', s')"
  shows "others_same look ctx Metadata s s'"
  using mark_id_others assms by (simp add: mark_used_def)

lemma mark_free_others:
  assumes "ctx AND TERM_BITMASK = 0" "mark_free cb ctx i f s = (r, f', s')"
  shows "others_same look ctx Metadata s s'"
  using mark_id_others [OF assms(1)] assms(2) by (cases "mark_id cb ctx i False f s") (auto simp: mark_free_def)

lemma reuse_loop_others:
  assumes ctx: "ctx AND TERM_BITMASK = 0" and run: "reuse_loop cb ctx f s = Some y"
  shows "others_same look ctx Metadata s (snd (snd y))"
proof -
  have "cb = cb \<longrightarrow> ctx = ctx \<longrightarrow> others_same look ctx Metadata s (snd (snd y))"
  proof (rule reuse_loop.raw_induct [where P = "\<lambda>c x f s y. c = cb \<longrightarrow> x = ctx \<longrightarrow> others_same look ctx Metadata s (snd (snd y))", OF _ run], intro impI)
    fix rl :: "'a callbacks \<Rightarrow> 64 word \<Rightarrow> fsm \<Rightarrow> 'a \<Rightarrow> ((fsm_error + 32 word option) \<times> fsm \<times> 'a) option"
      and c x and f :: fsm and s :: 'a and y :: "(fsm_error + 32 word option) \<times> fsm \<times> 'a"
    assume ih: "\<And>c x f s y. rl c x f s = Some y \<Longrightarrow> c = cb \<longrightarrow> x = ctx \<longrightarrow> others_same look ctx Metadata s (snd (snd y))"
      and eq: "c = cb" "x = ctx"
    have step: "others_same look ctx Metadata s (snd (snd y))"
      if "(case mark_used cb ctx i f s of (Inl e, f', s') \<Rightarrow> Some (Inl e, f', s')
          | (Inr changed, f', s') \<Rightarrow> if \<not> changed then rl cb ctx f' s' else Some (Inr (Some i), f', s')) = Some y" for i f s
    proof -
      obtain r f' s' where m: "mark_used cb ctx i f s = (r, f', s')" by (metis surj_pair)
      note o = mark_used_others [OF ctx m]
      show ?thesis
      proof (cases "r = Inr False")
        case True
        then have "others_same look ctx Metadata s' (snd (snd y))" using that m ih by auto
        from others_same_trans [OF o this] show ?thesis .
      next
        case False
        then have "snd (snd y) = s'" using that m by (auto split: sum.splits if_splits)
        then show ?thesis using o by simp
      qed
    qed
    assume body: "(case fast_free_list f of [] \<Rightarrow> (case refill_fast_free_list c x f s of (Inl e, f', s') \<Rightarrow> Some (Inl e, f', s')
           | (Inr found, f', s') \<Rightarrow> if \<not> found then Some (Inr None, f', s')
               else case fast_free_list f' of [] \<Rightarrow> Some (Inr None, f', s')
                    | i # rest \<Rightarrow> (case mark_used c x i (f'\<lparr>fast_free_list := rest\<rparr>) s' of (Inl e, f'', s'') \<Rightarrow> Some (Inl e, f'', s'')
                        | (Inr changed, f'', s'') \<Rightarrow> if \<not> changed then rl c x f'' s'' else Some (Inr (Some i), f'', s'')))
        | i # rest \<Rightarrow> (case mark_used c x i (f\<lparr>fast_free_list := rest\<rparr>) s of (Inl e, f', s') \<Rightarrow> Some (Inl e, f', s')
            | (Inr changed, f', s') \<Rightarrow> if \<not> changed then rl c x f' s' else Some (Inr (Some i), f', s'))) = Some y"
    show "others_same look ctx Metadata s (snd (snd y))"
    proof (cases "fast_free_list f")
      case (Cons i rest)
      then show ?thesis using body step unfolding eq by simp
    next
      case Nil
      obtain r f' s' where rf: "refill_fast_free_list cb ctx f s = (r, f', s')" by (metis surj_pair)
      note [simp] = refill_store [OF rf]
      show ?thesis
      proof (cases "r = Inr True \<and> fast_free_list f' \<noteq> []")
        case True
        then obtain i rest where "fast_free_list f' = i # rest" by (cases "fast_free_list f'") auto
        then show ?thesis using True body Nil rf step unfolding eq by simp
      next
        case False
        then have "snd (snd y) = s" using body Nil rf unfolding eq by (auto split: sum.splits if_splits list.splits)
        then show ?thesis by simp
      qed
    qed
  qed
  then show ?thesis by simp
qed

lemma mint_loop_others:
  assumes ctx: "ctx AND TERM_BITMASK = 0" and run: "mint_loop cb ctx f s = Some y"
  shows "others_same look ctx Metadata s (snd (snd y))"
proof -
  have "cb = cb \<longrightarrow> ctx = ctx \<longrightarrow> others_same look ctx Metadata s (snd (snd y))"
  proof (rule mint_loop.raw_induct [where P = "\<lambda>c x f s y. c = cb \<longrightarrow> x = ctx \<longrightarrow> others_same look ctx Metadata s (snd (snd y))", OF _ run], intro impI)
    fix ml :: "'a callbacks \<Rightarrow> 64 word \<Rightarrow> fsm \<Rightarrow> 'a \<Rightarrow> ((fsm_error + 32 word) \<times> fsm \<times> 'a) option"
      and c x and f :: fsm and s :: 'a and y :: "(fsm_error + 32 word) \<times> fsm \<times> 'a"
    assume ih: "\<And>c x f s y. ml c x f s = Some y \<Longrightarrow> c = cb \<longrightarrow> x = ctx \<longrightarrow> others_same look ctx Metadata s (snd (snd y))"
      and eq: "c = cb" "x = ctx"
    let ?i = "fsm_next_id f" and ?f1 = "f\<lparr>fsm_next_id := fsm_next_id f + 1\<rparr>"
    assume body: "(let i = fsm_next_id f; f1 = f\<lparr>fsm_next_id := fsm_next_id f + 1\<rparr> in
      case (case indexes_for_id i of (block_id, _, _) \<Rightarrow> if max_block f1 < block_id then expand_to c x i f1 s else (Inr (), f1, s)) of
        (Inl e, f2, s2) \<Rightarrow> Some (Inl e, f2, s2)
      | (Inr _, f2, s2) \<Rightarrow> (case mark_used c x i f2 s2 of (Inl e, f3, s3) \<Rightarrow> Some (Inl e, f3, s3)
          | (Inr changed, f3, s3) \<Rightarrow> if changed then Some (Inr i, f3, s3) else ml c x f3 s3)) = Some y"
    obtain r2 f2 s2 where e: "(case indexes_for_id ?i of (block_id, _, _) \<Rightarrow>
        if max_block ?f1 < block_id then expand_to cb ctx ?i ?f1 s else (Inr (), ?f1, s)) = (r2, f2, s2)" by (metis surj_pair)
    then have o2: "others_same look ctx Metadata s s2"
      using expand_to_others [OF ctx, of ?i ?f1 s r2 f2 s2] by (auto split: prod.splits if_splits)
    obtain r3 f3 s3 where m: "mark_used cb ctx ?i f2 s2 = (r3, f3, s3)" by (metis surj_pair)
    note o3 = mark_used_others [OF ctx m]
    have "snd (snd y) = s2 \<or> snd (snd y) = s3 \<or> ml cb ctx f3 s3 = Some y"
      using body e m unfolding eq by (auto simp: Let_def split: sum.splits if_splits)
    then have "others_same look ctx Metadata s2 (snd (snd y))" using ih o3 others_same_trans by fastforce
    from others_same_trans [OF o2 this] show "others_same look ctx Metadata s (snd (snd y))" .
  qed
  then show ?thesis by simp
qed

lemma next_id_others:
  assumes ctx: "ctx AND TERM_BITMASK = 0" and run: "next_id cb ctx f s = Some (r, f', s')"
  shows "others_same look ctx Metadata s s'"
proof (cases "has_free_ids f")
  case True
  then obtain y where y: "reuse_loop cb ctx f s = Some y" using run by (auto simp: next_id_def split: option.splits)
  note o = reuse_loop_others [OF ctx y]
  obtain q f1 s1 where q: "y = (q, f1, s1)" by (metis surj_pair)
  have "s' = s1 \<or> mint_loop cb ctx f1 s1 = Some (r, f', s')"
    using run True y q by (auto simp: next_id_def split: sum.splits option.splits)
  then show ?thesis using o q mint_loop_others [OF ctx, of f1 s1 "(r, f', s')"] others_same_trans by fastforce
next
  case False
  then show ?thesis using run mint_loop_others [OF ctx, of f s "(r, f', s')"] by (simp add: next_id_def)
qed

end

section \<open>The maps between identifiers\<close>

lemma iid_key_inj: "iid_key i = iid_key j \<longleftrightarrow> i = j"
proof
  assume "iid_key i = iid_key j"
  then have "unat i = unat j" unfolding iid_key_def
    by (rule le_bytes_inj) (use unat_u32 [of i] unat_u32 [of j] in simp_all)
  then show "i = j" by (rule unsigned_word_eqI)
qed simp

lemma length_iid_key [simp]: "length (iid_key i) = 4"
  by (simp add: iid_key_def)

lemma from_iid_key [simp]: "of_nat (from_le (iid_key i)) = i"
  using unat_u32 [of i] by (simp add: iid_key_def from_le_bytes)

text \<open>Every external identifier is mapped to an internal one that is in use and is mapped back to it.\<close>

definition ids_ok :: "(64 word \<Rightarrow> byte list \<Rightarrow> 's \<Rightarrow> byte list option) \<Rightarrow> 64 word \<Rightarrow> 's \<Rightarrow> bool" where
  "ids_ok look ctx s \<longleftrightarrow> (\<forall>key v. look (context_term ctx IntMap) key s = Some v \<longrightarrow>
     (\<exists>i. v = iid_key i \<and> used_id look ctx s (unat i) \<and> look (context_term ctx ExtMap) (iid_key i) s = Some key))"

lemma ids_okD:
  assumes "ids_ok look ctx s" "look (context_term ctx IntMap) key s = Some v"
  obtains i where "v = iid_key i" "used_id look ctx s (unat i)" "look (context_term ctx ExtMap) (iid_key i) s = Some key"
  using assms unfolding ids_ok_def by blast

lemma ids_ok_inj:
  assumes "ids_ok look ctx s" "look (context_term ctx IntMap) a s = Some v" "look (context_term ctx IntMap) b s = Some v"
  shows "a = b"
proof -
  obtain i where i: "v = iid_key i" "look (context_term ctx ExtMap) (iid_key i) s = Some a" using ids_okD [OF assms(1,2)] .
  obtain j where j: "v = iid_key j" "look (context_term ctx ExtMap) (iid_key j) s = Some b" using ids_okD [OF assms(1,3)] .
  from i j have "iid_key i = iid_key j" by simp
  with i(2) j(2) show ?thesis by simp
qed

lemma ids_ok_others:
  assumes ok: "ids_ok look ctx s" and same: "\<And>k. look (context_term ctx IntMap) k s' = look (context_term ctx IntMap) k s"
    and u: "\<And>k. used_id look ctx s k \<Longrightarrow> used_id look ctx s' k"
    and ext: "\<And>j. used_id look ctx s (unat j) \<Longrightarrow> look (context_term ctx ExtMap) (iid_key j) s' = look (context_term ctx ExtMap) (iid_key j) s"
  shows "ids_ok look ctx s'"
  unfolding ids_ok_def
proof (intro allI impI)
  fix key v assume "look (context_term ctx IntMap) key s' = Some v"
  then have "look (context_term ctx IntMap) key s = Some v" using same by simp
  then obtain i where "v = iid_key i" "used_id look ctx s (unat i)" "look (context_term ctx ExtMap) (iid_key i) s = Some key"
    using ids_okD [OF ok] by blast
  then show "\<exists>i. v = iid_key i \<and> used_id look ctx s' (unat i) \<and> look (context_term ctx ExtMap) (iid_key i) s' = Some key"
    using u ext by auto
qed

context garnet_terms
begin

lemma to_internal_id_eq:
  assumes "length key < 2 ^ 32"
  shows "to_internal_id cb ctx (garnet_id_from key) s =
    (case look (context_term ctx IntMap) key s of None \<Rightarrow> Inl (GpGarnet ReadError)
     | Some v \<Rightarrow> if length v = 4 then Inr (of_nat (from_le v)) else Inl (GpPanic AssertFault))"
  using assms by (simp add: to_internal_id_def read_single_eid_def read_single_raw_eq split: option.splits)

lemma to_external_id_eq:
  "to_external_id cb ctx i s =
    (case look (context_term ctx ExtMap) (iid_key i) s of None \<Rightarrow> Inl (GpGarnet ReadError) | Some v \<Rightarrow> Inr (garnet_id_from v))"
  using read_law [of "iid_key i" "context_term ctx ExtMap" s]
  by (simp add: to_external_id_def read_varsize_iid_def split: option.splits)

lemma write_term:
  assumes "ctx AND TERM_BITMASK = 0" "write_callback cb (context_term ctx kind) key v s = (s', ok)"
  shows "look (context_term ctx kind) k s' = (if ok \<and> k = key then Some v else look (context_term ctx kind) k s)"
    "others_same look ctx kind s s'"
  using write_law [OF assms(2)] write_frame [OF assms(2)] context_terms_differ [OF assms(1)] by (auto simp: others_same_def)

lemma delete_term:
  assumes "ctx AND TERM_BITMASK = 0" "delete_callback cb (context_term ctx kind) key s = (s', ok)"
  shows "look (context_term ctx kind) k s' = (if ok \<and> k = key then None else look (context_term ctx kind) k s)"
    "others_same look ctx kind s s'"
  using delete_law [OF assms(2)] delete_frame [OF assms(2)] context_terms_differ [OF assms(1)] by (auto simp: others_same_def)

text \<open>The three writes: the vector and the external identifier of the new internal one, and then the
  internal identifier of the external one.\<close>

lemma insert_data_run:
  assumes ctx: "ctx AND TERM_BITMASK = 0" and run: "insert_data cb ctx i (garnet_id_from key) element s = (s', ok)"
  shows "blocks_agree look ctx s s'"
    "look (context_term ctx IntMap) k s' = (if ok \<and> k = key then Some (iid_key i) else look (context_term ctx IntMap) k s)"
    "k \<noteq> iid_key i \<Longrightarrow> look (context_term ctx ExtMap) k s' = look (context_term ctx ExtMap) k s"
    "k \<noteq> iid_key i \<Longrightarrow> look (context_term ctx Vector) k s' = look (context_term ctx Vector) k s"
    "ok \<Longrightarrow> look (context_term ctx ExtMap) (iid_key i) s' = Some key \<and> look (context_term ctx Vector) (iid_key i) s' = Some element"
    "a \<notin> {Vector, ExtMap, IntMap} \<Longrightarrow> look (context_term ctx a) k s' = look (context_term ctx a) k s"
    "callbacks_succeed cb \<Longrightarrow> ok"
proof -
  obtain s1 ok1 where w1: "write_callback cb (context_term ctx Vector) (iid_key i) element s = (s1, ok1)" by (metis surj_pair)
  obtain s2 ok2 where w2: "write_callback cb (context_term ctx ExtMap) (iid_key i) key s1 = (s2, ok2)" by (metis surj_pair)
  obtain s3 ok3 where w3: "write_callback cb (context_term ctx IntMap) key (iid_key i) s2 = (s3, ok3)" by (metis surj_pair)
  note t1 = write_term [OF ctx w1] and t2 = write_term [OF ctx w2] and t3 = write_term [OF ctx w3]
  have r: "(s', ok) = (if \<not> ok1 then (s1, False) else if \<not> ok2 then (s2, False) else (s3, ok3))"
    using run w1 w2 w3 by (cases ok1; cases ok2) (simp_all add: insert_data_def write_iid_def write_eid_def)
  show "ok" if "callbacks_succeed cb"
    using r callbacks_succeedD(1) [OF that w1] callbacks_succeedD(1) [OF that w2] callbacks_succeedD(1) [OF that w3] by simp
  show "look (context_term ctx a) k s' = look (context_term ctx a) k s" if "a \<notin> {Vector, ExtMap, IntMap}"
    using r t1(2) t2(2) t3(2) that by (auto simp: others_same_def split: if_splits)
  show "look (context_term ctx IntMap) k s' = (if ok \<and> k = key then Some (iid_key i) else look (context_term ctx IntMap) k s)"
    using r t1 t2 t3 by (auto simp: others_same_def split: if_splits)
  show "look (context_term ctx ExtMap) k s' = look (context_term ctx ExtMap) k s" if "k \<noteq> iid_key i"
    using r t1 t2 t3 that by (auto simp: others_same_def split: if_splits)
  show "look (context_term ctx Vector) k s' = look (context_term ctx Vector) k s" if "k \<noteq> iid_key i"
    using r t1 t2 t3 that by (auto simp: others_same_def split: if_splits)
  show "look (context_term ctx ExtMap) (iid_key i) s' = Some key \<and> look (context_term ctx Vector) (iid_key i) s' = Some element" if ok
    using r t1 t2 t3 that by (auto simp: others_same_def split: if_splits)
  have "blocks_agree look ctx s s1" "blocks_agree look ctx s1 s2" "blocks_agree look ctx s2 s3"
    using others_same_blocks [OF t1(2)] others_same_blocks [OF t2(2)] others_same_blocks [OF t3(2)] by simp_all
  then show "blocks_agree look ctx s s'" using r by (auto simp: blocks_agree_def split: if_splits)
qed

end

section \<open>Inserting and deleting a vector\<close>

text \<open>The effect of a successful insertion of \<open>element\<close> under the external identifier \<open>key\<close>: the new
  internal identifier is in use, its vector and the two maps have their entry, and nothing else has
  changed in these terms nor anything in the terms of adjacency lists, quantized vectors and attributes.\<close>

definition element_set ::
  "(64 word \<Rightarrow> byte list \<Rightarrow> 's \<Rightarrow> byte list option) \<Rightarrow> 64 word \<Rightarrow> byte list \<Rightarrow> byte list \<Rightarrow> 32 word \<Rightarrow> 's \<Rightarrow> 's \<Rightarrow> bool" where
  "element_set look ctx key element i s s' \<longleftrightarrow> \<not> used_id look ctx s (unat i)
     \<and> (\<forall>k. used_id look ctx s' k = (k = unat i \<or> used_id look ctx s k))
     \<and> look (context_term ctx IntMap) key s' = Some (iid_key i)
     \<and> look (context_term ctx ExtMap) (iid_key i) s' = Some key \<and> look (context_term ctx Vector) (iid_key i) s' = Some element
     \<and> (\<forall>k. k \<noteq> key \<longrightarrow> look (context_term ctx IntMap) k s' = look (context_term ctx IntMap) k s)
     \<and> (\<forall>j. j \<noteq> i \<longrightarrow> look (context_term ctx ExtMap) (iid_key j) s' = look (context_term ctx ExtMap) (iid_key j) s
            \<and> look (context_term ctx Vector) (iid_key j) s' = look (context_term ctx Vector) (iid_key j) s)
     \<and> (\<forall>a k. a \<in> {Neighbors, Quantized, Attributes} \<longrightarrow> look (context_term ctx a) k s' = look (context_term ctx a) k s)"

context garnet_terms
begin

lemma set_element_run:
  assumes ctx: "ctx AND TERM_BITMASK = 0" and inv: "fsm_inv look ctx (gp_fsm p) s"
    and n: "unat (fsm_next_id (gp_fsm p)) + 1 < 2 ^ 32"
    and ok: "ids_ok look ctx s"
  shows "\<exists>r p' s'. set_element cb ctx (garnet_id_from key) element p s = Some (r, p', s')
    \<and> fsm_inv look ctx (gp_fsm p') s' \<and> ids_ok look ctx s'
    \<and> (case r of Inr i \<Rightarrow> element_set look ctx key element i s s'
       | Inl _ \<Rightarrow> (\<forall>k. look (context_term ctx IntMap) k s' = look (context_term ctx IntMap) k s)
           \<and> (\<forall>k. used_id look ctx s k \<longrightarrow> used_id look ctx s' k)
           \<and> (\<forall>j. used_id look ctx s (unat j) \<longrightarrow> look (context_term ctx Vector) (iid_key j) s' = look (context_term ctx Vector) (iid_key j) s)
           \<and> (\<not> callbacks_succeed cb \<or> Suc (unat (max_block (gp_fsm p))) < unat (fsm_next_id (gp_fsm p)) div 65536))"
proof -
  obtain r f s1 where nx: "next_id cb ctx (gp_fsm p) s = Some (r, f, s1)" "fsm_inv look ctx f s1" "handed_out look ctx s r f s1"
    and good: "isl r \<longrightarrow> \<not> callbacks_succeed cb \<or> Suc (unat (max_block (gp_fsm p))) < unat (fsm_next_id (gp_fsm p)) div 65536"
    using next_id_run [OF inv n] by blast
  have o1: "others_same look ctx Metadata s s1" using next_id_others [OF ctx nx(1)] .
  then have s1: "look (context_term ctx IntMap) k s1 = look (context_term ctx IntMap) k s"
    "look (context_term ctx ExtMap) k s1 = look (context_term ctx ExtMap) k s"
    "look (context_term ctx Vector) k s1 = look (context_term ctx Vector) k s"
    "a \<noteq> Metadata \<Longrightarrow> look (context_term ctx a) k s1 = look (context_term ctx a) k s" for k a by (simp_all add: others_same_def)
  show ?thesis
  proof (cases r)
    case (Inl e)
    then have u: "used_id look ctx s1 k = used_id look ctx s k" for k using nx(3) by (simp add: handed_out_def)
    have "set_element cb ctx (garnet_id_from key) element p s = Some (Inl (GpFsm e), p\<lparr>gp_fsm := f\<rparr>, s1)"
      using nx(1) Inl by (simp add: set_element_def)
    moreover have "ids_ok look ctx s1" using ids_ok_others [OF ok] s1 u by blast
    ultimately show ?thesis using nx(2) s1(1,3) u good Inl by auto
  next
    case (Inr i)
    have h: "\<not> used_id look ctx s (unat i)" "i < fsm_next_id f" "\<And>k. used_id look ctx s1 k = (k = unat i \<or> used_id look ctx s k)"
      using nx(3) Inr by (auto simp: handed_out_def)
    obtain s2 okd where d: "insert_data cb ctx i (garnet_id_from key) element s1 = (s2, okd)" by (metis surj_pair)
    note dr = insert_data_run [OF ctx d]
    have inv2: "fsm_inv look ctx f s2" using nx(2) by (simp only: blocks_agree_inv [OF dr(1)])
    have u2: "used_id look ctx s2 k = (k = unat i \<or> used_id look ctx s k)" for k using h(3) blocks_agree_used [OF dr(1)] by simp
    have ext2: "look (context_term ctx ExtMap) (iid_key j) s2 = look (context_term ctx ExtMap) (iid_key j) s" if "j \<noteq> i" for j
      using dr(3) s1(2) that by (simp add: iid_key_inj)
    have vec2: "look (context_term ctx Vector) (iid_key j) s2 = look (context_term ctx Vector) (iid_key j) s" if "j \<noteq> i" for j
      using dr(4) s1(3) that by (simp add: iid_key_inj)
    show ?thesis
    proof (cases okd)
      case True
      have "element_set look ctx key element i s s2"
        using h(1) u2 dr(2,5,6) True s1(1,4) ext2 vec2 by (auto simp: element_set_def)
      moreover have "ids_ok look ctx s2" unfolding ids_ok_def
      proof (intro allI impI)
        fix k v assume k: "look (context_term ctx IntMap) k s2 = Some v"
        show "\<exists>i. v = iid_key i \<and> used_id look ctx s2 (unat i) \<and> look (context_term ctx ExtMap) (iid_key i) s2 = Some k"
        proof (cases "k = key")
          case True
          then show ?thesis using k dr(2,5) \<open>okd\<close> u2 by auto
        next
          case False
          then have "look (context_term ctx IntMap) k s = Some v" using k dr(2) s1(1) by simp
          then obtain j where "v = iid_key j" "used_id look ctx s (unat j)" "look (context_term ctx ExtMap) (iid_key j) s = Some k"
            using ids_okD [OF ok] by blast
          moreover have "j \<noteq> i" using calculation(2) h(1) by auto
          ultimately show ?thesis using u2 ext2 by auto
        qed
      qed
      moreover have "set_element cb ctx (garnet_id_from key) element p s = Some (Inr i, p\<lparr>gp_fsm := f\<rparr>, s2)"
        using nx(1) Inr d True by (simp add: set_element_def)
      ultimately show ?thesis using inv2 by (intro exI [of _ "Inr i"] exI [of _ "p\<lparr>gp_fsm := f\<rparr>"] exI [of _ s2]) simp
    next
      case False
      have ui: "used_id look ctx s2 (unat i)" using u2 by simp
      have b: "unat i div 65536 \<le> unat (max_block f)" using used_id_block [OF ui] inv2 by (simp add: fsm_inv_def)
      obtain q f' s3 where m: "mark_free cb ctx i f s2 = (q, f', s3)" by (metis surj_pair)
      have o3: "look (context_term ctx IntMap) k s3 = look (context_term ctx IntMap) k s"
        "j \<noteq> i \<longrightarrow> look (context_term ctx ExtMap) (iid_key j) s3 = look (context_term ctx ExtMap) (iid_key j) s"
        "j \<noteq> i \<longrightarrow> look (context_term ctx Vector) (iid_key j) s3 = look (context_term ctx Vector) (iid_key j) s" for k j
        using mark_free_others [OF ctx m] dr(2) False s1(1) ext2 vec2 by (simp_all add: others_same_def)
      have fr: "fsm_inv look ctx f' s3 \<and> (\<forall>k. used_id look ctx s k \<longrightarrow> used_id look ctx s3 k)"
        using inv2 h(2) b
      proof (cases rule: mark_free_run)
        case (freed t)
        then show ?thesis using m u2 h(1) ui by auto
      next
        case (failed t)
        then show ?thesis using m u2 inv2 blocks_agree_inv [OF failed(2)] blocks_agree_used [OF failed(2)] by auto
      qed
      have ok3: "ids_ok look ctx s3"
      proof (rule ids_ok_others [OF ok o3(1)])
        show "\<And>k. used_id look ctx s k \<Longrightarrow> used_id look ctx s3 k" using fr by blast
        show "look (context_term ctx ExtMap) (iid_key j) s3 = look (context_term ctx ExtMap) (iid_key j) s" if "used_id look ctx s (unat j)" for j
          using o3(2) [of j] h(1) that by (cases "j = i") auto
      qed
      have "\<exists>e. set_element cb ctx (garnet_id_from key) element p s = Some (Inl e, p\<lparr>gp_fsm := f'\<rparr>, s3)"
        using nx(1) Inr d False m by (cases q) (simp_all add: set_element_def)
      then obtain e where "set_element cb ctx (garnet_id_from key) element p s = Some (Inl e, p\<lparr>gp_fsm := f'\<rparr>, s3)" ..
      moreover have "look (context_term ctx Vector) (iid_key j) s3 = look (context_term ctx Vector) (iid_key j) s"
        if "used_id look ctx s (unat j)" for j using o3(3) [of j] h(1) that by (cases "j = i") auto
      ultimately show ?thesis using fr ok3 o3(1) dr(7) False
        by (intro exI [of _ "Inl e"] exI [of _ "p\<lparr>gp_fsm := f'\<rparr>"] exI [of _ s3]) auto
    qed
  qed
qed

end

text \<open>The effect of a successful deletion: the internal identifier is free, its vector, its external
  identifier, the way from the external identifier to it and the attributes are gone, and nothing else
  has changed in these terms nor anything in the terms of adjacency lists and quantized vectors.\<close>

definition element_deleted ::
  "(64 word \<Rightarrow> byte list \<Rightarrow> 's \<Rightarrow> byte list option) \<Rightarrow> 64 word \<Rightarrow> byte list \<Rightarrow> 32 word \<Rightarrow> 's \<Rightarrow> 's \<Rightarrow> bool" where
  "element_deleted look ctx key i s s' \<longleftrightarrow>
     (\<forall>k. used_id look ctx s' k = (k \<noteq> unat i \<and> used_id look ctx s k))
     \<and> (\<forall>k. look (context_term ctx IntMap) k s' = (if k = key then None else look (context_term ctx IntMap) k s))
     \<and> (\<forall>j. look (context_term ctx ExtMap) (iid_key j) s' = (if j = i then None else look (context_term ctx ExtMap) (iid_key j) s))
     \<and> (\<forall>j. look (context_term ctx Vector) (iid_key j) s' = (if j = i then None else look (context_term ctx Vector) (iid_key j) s))
     \<and> (\<forall>k. look (context_term ctx Attributes) k s' = (if k = key then None else look (context_term ctx Attributes) k s))
     \<and> (\<forall>a k. a \<in> {Neighbors, Quantized} \<longrightarrow> look (context_term ctx a) k s' = look (context_term ctx a) k s)"

context garnet_terms
begin

lemma delete_data:
  assumes ctx: "ctx AND TERM_BITMASK = 0"
    and run: "delete_iid cb (context_term ctx ExtMap) i s1 = (s2, ok2)" "delete_eid cb (context_term ctx IntMap) (garnet_id_from key) s2 = (s3, ok3)"
      "delete_eid cb (context_term ctx Attributes) (garnet_id_from key) s3 = (s4, ok4)" "delete_iid cb (context_term ctx Vector) i s4 = (s5, ok5)"
  shows "blocks_agree look ctx s1 s5"
    "look (context_term ctx IntMap) k s5 = (if ok3 \<and> k = key then None else look (context_term ctx IntMap) k s1)"
    "look (context_term ctx ExtMap) (iid_key j) s5 = (if ok2 \<and> j = i then None else look (context_term ctx ExtMap) (iid_key j) s1)"
    "look (context_term ctx Vector) (iid_key j) s5 = (if ok5 \<and> j = i then None else look (context_term ctx Vector) (iid_key j) s1)"
    "look (context_term ctx Attributes) k s5 = (if ok4 \<and> k = key then None else look (context_term ctx Attributes) k s1)"
    "a \<in> {Neighbors, Quantized} \<Longrightarrow> look (context_term ctx a) k s5 = look (context_term ctx a) k s1"
    "callbacks_succeed cb \<Longrightarrow> ok2 \<and> ok3 \<and> ok4 \<and> ok5"
proof -
  note t = delete_term [OF ctx run(1) [unfolded delete_iid_def]] delete_term [OF ctx run(2) [unfolded delete_eid_def]]
    delete_term [OF ctx run(3) [unfolded delete_eid_def]] delete_term [OF ctx run(4) [unfolded delete_iid_def]]
  show "look (context_term ctx IntMap) k s5 = (if ok3 \<and> k = key then None else look (context_term ctx IntMap) k s1)"
    "look (context_term ctx ExtMap) (iid_key j) s5 = (if ok2 \<and> j = i then None else look (context_term ctx ExtMap) (iid_key j) s1)"
    "look (context_term ctx Vector) (iid_key j) s5 = (if ok5 \<and> j = i then None else look (context_term ctx Vector) (iid_key j) s1)"
    "look (context_term ctx Attributes) k s5 = (if ok4 \<and> k = key then None else look (context_term ctx Attributes) k s1)"
    using t by (simp_all add: others_same_def iid_key_inj)
  show "look (context_term ctx a) k s5 = look (context_term ctx a) k s1" if "a \<in> {Neighbors, Quantized}"
    using t(2,4,6,8) that by (auto simp: others_same_def)
  show "ok2 \<and> ok3 \<and> ok4 \<and> ok5" if "callbacks_succeed cb"
    using callbacks_succeedD(2) [OF that] run unfolding delete_iid_def delete_eid_def by blast
  show "blocks_agree look ctx s1 s5"
    using others_same_blocks [OF t(2)] others_same_blocks [OF t(4)] others_same_blocks [OF t(6)] others_same_blocks [OF t(8)]
    by (simp add: blocks_agree_def)
qed

lemma gp_delete_run:
  assumes ctx: "ctx AND TERM_BITMASK = 0" and inv: "fsm_inv look ctx (gp_fsm p) s" and ok: "ids_ok look ctx s" and len: "length key < 2 ^ 32"
  shows "\<exists>r p' s'. gp_delete cb ctx (garnet_id_from key) p s = (r, p', s') \<and> fsm_inv look ctx (gp_fsm p') s'
    \<and> (look (context_term ctx IntMap) key s = None \<longrightarrow> r = Inl (GpGarnet ReadError) \<and> p' = p \<and> s' = s)
    \<and> (look (context_term ctx IntMap) key s \<noteq> None \<and> callbacks_succeed cb \<longrightarrow> r = Inr ())
    \<and> (r = Inr () \<longrightarrow> ids_ok look ctx s' \<and> (\<exists>i. look (context_term ctx IntMap) key s = Some (iid_key i) \<and> element_deleted look ctx key i s s'))"
proof (cases "look (context_term ctx IntMap) key s")
  case None
  then have "gp_delete cb ctx (garnet_id_from key) p s = (Inl (GpGarnet ReadError), p, s)"
    using to_internal_id_eq [OF len, of ctx s] by (simp add: gp_delete_def)
  then show ?thesis using inv None by simp
next
  case (Some v)
  obtain i where i: "v = iid_key i" "used_id look ctx s (unat i)" "look (context_term ctx ExtMap) (iid_key i) s = Some key"
    using ids_okD [OF ok Some] .
  have ti: "to_internal_id cb ctx (garnet_id_from key) s = Inr i" using to_internal_id_eq [OF len, of ctx s] Some i(1) by simp
  have lt: "i < fsm_next_id (gp_fsm p)" "unat i div 65536 \<le> unat (max_block (gp_fsm p))"
    using i(2) inv used_id_block [OF i(2)] by (auto simp: fsm_inv_def word_less_nat_alt)
  from inv lt show ?thesis
  proof (cases rule: mark_free_run)
    case (failed t)
    then have "gp_delete cb ctx (garnet_id_from key) p s = (Inl (GpFsm (Garnet WriteError)), p\<lparr>gp_fsm := gp_fsm p\<rparr>, t)"
      using ti by (simp add: gp_delete_def)
    then show ?thesis using inv Some failed(3) by (simp add: blocks_agree_inv [OF failed(2)])
  next
    case (freed s1)
    let ?f = "pushed_if (used_id look ctx s (unat i)) i (gp_fsm p)"
    obtain s2 ok2 where d2: "delete_iid cb (context_term ctx ExtMap) i s1 = (s2, ok2)" by (metis surj_pair)
    obtain s3 ok3 where d3: "delete_eid cb (context_term ctx IntMap) (garnet_id_from key) s2 = (s3, ok3)" by (metis surj_pair)
    obtain s4 ok4 where d4: "delete_eid cb (context_term ctx Attributes) (garnet_id_from key) s3 = (s4, ok4)" by (metis surj_pair)
    obtain s5 ok5 where d5: "delete_iid cb (context_term ctx Vector) i s4 = (s5, ok5)" by (metis surj_pair)
    note dd = delete_data [OF ctx d2 d3 d4 d5]
    let ?r = "if ok2 \<and> ok3 \<and> ok4 \<and> ok5 then Inr () else Inl (GpGarnet DeleteError)"
    have run: "gp_delete cb ctx (garnet_id_from key) p s = (?r, p\<lparr>gp_fsm := ?f\<rparr>, s5)"
      using ti freed(1) d2 d3 d4 d5 by (simp add: gp_delete_def)
    have inv5: "fsm_inv look ctx ?f s5" using freed(2) by (simp only: blocks_agree_inv [OF dd(1)])
    have s1: "look (context_term ctx a) k s1 = look (context_term ctx a) k s" if "a \<noteq> Metadata" for a k
      using mark_free_others [OF ctx freed(1)] that by (simp add: others_same_def)
    have u5: "used_id look ctx s5 k = (k \<noteq> unat i \<and> used_id look ctx s k)" for k using freed(3) blocks_agree_used [OF dd(1)] by simp
    have "ids_ok look ctx s5 \<and> element_deleted look ctx key i s s5" if okr: "ok2" "ok3" "ok4" "ok5"
    proof
      show "element_deleted look ctx key i s s5" using u5 dd(2-6) okr s1 by (auto simp: element_deleted_def)
      show "ids_ok look ctx s5" unfolding ids_ok_def
      proof (intro allI impI)
        fix k w assume k: "look (context_term ctx IntMap) k s5 = Some w"
        then have k': "k \<noteq> key" "look (context_term ctx IntMap) k s = Some w" using dd(2) okr s1 by (auto split: if_splits)
        obtain j where j: "w = iid_key j" "used_id look ctx s (unat j)" "look (context_term ctx ExtMap) (iid_key j) s = Some k"
          using ids_okD [OF ok k'(2)] .
        have "j \<noteq> i" using j(3) i(3) k'(1) by auto
        then have "unat j \<noteq> unat i" by (auto dest: unsigned_word_eqI)
        then show "\<exists>i. w = iid_key i \<and> used_id look ctx s5 (unat i) \<and> look (context_term ctx ExtMap) (iid_key i) s5 = Some k"
          using j u5 dd(3) s1 \<open>j \<noteq> i\<close> by auto
      qed
    qed
    then show ?thesis using run inv5 Some i(1) dd(7) by (intro exI [of _ ?r] exI [of _ "p\<lparr>gp_fsm := ?f\<rparr>"] exI [of _ s5]) auto
  qed
qed

end

section \<open>Adjacency lists as bytes\<close>

lemma length_u32_bytes [simp]: "length (u32_bytes xs) = 4 * length xs"
  by (induction xs) (simp_all add: u32_bytes_def)

lemma list_of_four: "length (l :: 'b list) = 4 \<Longrightarrow> \<exists>a b c d. l = [a, b, c, d]"
  by (auto simp: length_Suc_conv numeral_eq_Suc)

lemma bytes_u32_inverse [simp]: "bytes_u32 (u32_bytes xs) = xs"
proof (induction xs)
  case (Cons x xs)
  obtain a b c d where l: "le_bytes 4 (unat x) = [a, b, c, d]" using list_of_four [of "le_bytes 4 (unat x)"] by auto
  have "from_le [a, b, c, d] = unat x" using from_le_bytes [of 4 "unat x"] unat_u32 [of x] l by simp
  then have "of_nat (from_le [a, b, c, d]) = x" by simp
  then show ?case using Cons l by (simp add: u32_bytes_def del: from_le.simps)
qed (simp add: u32_bytes_def)

text \<open>The list a row of numbers holds, and the rows the provider writes.\<close>

definition row_list :: "nat \<Rightarrow> 32 word list \<Rightarrow> 32 word list" where
  "row_list m row = take (unat (row ! m)) row"

definition row_ok :: "nat \<Rightarrow> 32 word list \<Rightarrow> bool" where
  "row_ok m row \<longleftrightarrow> length row = m + 1 \<and> unat (row ! m) \<le> m"

lemma length_row_list: "row_ok m row \<Longrightarrow> length (row_list m row) = unat (row ! m)"
  by (simp add: row_ok_def row_list_def)

lemma set_row:
  assumes "length ns \<le> m" "m < 2 ^ 32" "length guard = m + 1"
  shows "row_ok m ((ns @ drop (length ns) guard)[m := of_nat (length ns)])"
    "row_list m ((ns @ drop (length ns) guard)[m := of_nat (length ns)]) = ns"
proof -
  have "unat (of_nat (length ns) :: 32 word) = length ns" using assms by (intro unat_of_u32) simp
  then show "row_ok m ((ns @ drop (length ns) guard)[m := of_nat (length ns)])"
    "row_list m ((ns @ drop (length ns) guard)[m := of_nat (length ns)]) = ns"
    using assms by (simp_all add: row_ok_def row_list_def)
qed

lemma append_loop_row:
  assumes "gp_append_loop m data len ns = (data', len', returned)" "len \<le> m" "m < 2 ^ 32" "length data = m + 1" "unat (data ! m) = len"
  shows "length data' = m + 1 \<and> len' \<le> m \<and> unat (data' ! m) = len'
    \<and> take len' data' = take m (take len data @ fresh ns (set (take len data)))
    \<and> (m < len + length (fresh ns (set (take len data))) \<longrightarrow> returned)"
  using assms
proof (induction m data len ns rule: gp_append_loop.induct)
  case (2 m data len nbr ns)
  show ?case
  proof (cases "len = m")
    case True
    then show ?thesis using "2.prems" by auto
  next
    case False
    then have lt: "len < m" using "2.prems"(2) by simp
    show ?thesis
    proof (cases "nbr \<in> set (take len data)")
      case True
      then show ?thesis using "2.IH"(1) "2.prems" False by (simp add: u32.contains_law)
    next
      case new: False
      let ?data = "data[len := nbr, m := of_nat (len + 1)]"
      have u: "unat (of_nat (len + 1) :: 32 word) = len + 1" using lt "2.prems"(3) by (intro unat_of_u32) simp
      have t: "take (len + 1) ?data = take len data @ [nbr]" using lt "2.prems"(4) by (simp add: take_Suc_conv_app_nth)
      have "gp_append_loop m ?data (len + 1) ns = (data', len', returned)" using "2.prems"(1) False new by (simp add: u32.contains_law)
      from "2.IH"(2) [OF False _ this] new lt "2.prems"(3,4) u
      have "length data' = m + 1 \<and> len' \<le> m \<and> unat (data' ! m) = len'
          \<and> take len' data' = take m (take (len + 1) ?data @ fresh ns (set (take (len + 1) ?data)))
          \<and> (m < len + 1 + length (fresh ns (set (take (len + 1) ?data))) \<longrightarrow> returned)" by (simp add: u32.contains_law)
      then show ?thesis using new unfolding t by simp
    qed
  qed
qed auto

lemma append_row:
  assumes "row_ok m row" "m < 2 ^ 32" "gp_append_run m ns row = (row', len, returned)"
  shows "row_ok m row'" "row_list m row' = take m (row_list m row @ fresh ns (set (row_list m row)))" "len = unat (row' ! m)"
    "m < length (row_list m row) + length (fresh ns (set (row_list m row))) \<Longrightarrow> returned"
proof -
  have r: "unat (row ! m) \<le> m" "length row = m + 1" using assms(1) by (simp_all add: row_ok_def)
  then have "gp_append_loop m row (unat (row ! m)) ns = (row', len, returned)" using assms(3) by (simp add: gp_append_run_def min_def)
  from append_loop_row [OF this r(1) assms(2) r(2) refl] length_row_list [OF assms(1)]
  show "row_ok m row'" "row_list m row' = take m (row_list m row @ fresh ns (set (row_list m row)))" "len = unat (row' ! m)"
    "m < length (row_list m row) + length (fresh ns (set (row_list m row))) \<Longrightarrow> returned"
    by (auto simp: row_ok_def row_list_def)
qed

section \<open>Adjacency lists in the store\<close>

definition stored_row :: "(64 word \<Rightarrow> byte list \<Rightarrow> 's \<Rightarrow> byte list option) \<Rightarrow> 64 word \<Rightarrow> nat \<Rightarrow> 32 word \<Rightarrow> 's \<Rightarrow> 32 word list \<Rightarrow> bool" where
  "stored_row look ctx m i s row \<longleftrightarrow> row_ok m row \<and> look (context_term ctx Neighbors) (iid_key i) s = Some (u32_bytes row)"

context garnet_terms
begin

lemma get_neighbors_run:
  assumes "stored_row look ctx (gp_max_degree p) i s row" "i \<noteq> 0 \<or> neighbor_cache p 0 = None"
  shows "gp_get_neighbors cb ctx i p s = Inr (row_list (gp_max_degree p) row)"
  using assms by (auto simp: gp_get_neighbors_def read_single_iid_def read_single_raw_eq stored_row_def row_ok_def row_list_def
      guard_finish_def al_truncate_def Let_def)

lemma get_neighbors_same:
  assumes "look (context_term ctx Neighbors) (iid_key i) s' = look (context_term ctx Neighbors) (iid_key i) s"
    "gp_max_degree p' = gp_max_degree p" "neighbor_cache p' = neighbor_cache p"
  shows "gp_get_neighbors cb ctx i p' s' = gp_get_neighbors cb ctx i p s"
proof -
  have "read_single_iid cb (context_term ctx Neighbors) i buf s' = read_single_iid cb (context_term ctx Neighbors) i buf s" for buf
    using assms(1) by (simp add: read_single_iid_def read_single_raw_eq)
  then show ?thesis by (simp only: gp_get_neighbors_def assms(2,3))
qed

lemma append_vector_run:
  assumes st: "stored_row look ctx (gp_max_degree p) i s row" and m: "gp_max_degree p < 2 ^ 32"
    and run: "gp_append_vector cb ctx i ns p s = (Inr (), p', s')"
  shows "\<exists>row'. stored_row look ctx (gp_max_degree p) i s' row'
    \<and> row_list (gp_max_degree p) row' = take (gp_max_degree p) (row_list (gp_max_degree p) row @ fresh ns (set (row_list (gp_max_degree p) row)))
    \<and> (\<forall>k. k \<noteq> iid_key i \<longrightarrow> look (context_term ctx Neighbors) k s' = look (context_term ctx Neighbors) k s)
    \<and> (p' = p \<or> i = 0 \<and> p' = p\<lparr>neighbor_cache := (neighbor_cache p)(0 \<mapsto> row_list (gp_max_degree p) row')\<rparr>)
    \<and> (gp_max_degree p < length (row_list (gp_max_degree p) row) + length (fresh ns (set (row_list (gp_max_degree p) row))) \<longrightarrow> p' = p)"
proof -
  let ?m = "gp_max_degree p" and ?c = "context_term ctx Neighbors"
  let ?caching = "i = 0 \<and> neighbor_cache p i \<noteq> None"
  let ?f = "gp_append_modifier ?m ns ?caching"
  have row: "row_ok ?m row" "look ?c (iid_key i) s = Some (u32_bytes row)" using st by (simp_all add: stored_row_def)
  obtain row' len returned where a: "gp_append_run ?m ns row = (row', len, returned)" by (metis surj_pair)
  note ar = append_row [OF row(1) m a]
  have f: "?f (case look ?c (iid_key i) s of Some v \<Rightarrow> v | None \<Rightarrow> replicate (4 * (?m + 1)) 0)
      = Inr (u32_bytes row', if \<not> returned \<and> ?caching then Cached (take len row') else Untouched)"
    using row a by (simp add: gp_append_modifier_def row_ok_def)
  obtain var where r: "rmw_callback cb ?c (iid_key i) (4 * (?m + 1)) ?f s = Inr (s', True, var)"
    and p': "p' = (case var of Cached ns \<Rightarrow> p\<lparr>neighbor_cache := (neighbor_cache p)(i \<mapsto> ns)\<rparr> | _ \<Rightarrow> p)"
    using run by (auto simp: gp_append_vector_def rmw_iid_def Let_def split: sum.splits if_splits)
  from rmw_success [OF r] f
  have look': "\<forall>k. look ?c k s' = (if k = iid_key i then Some (u32_bytes row') else look ?c k s)"
    and var: "var = (if \<not> returned \<and> ?caching then Cached (take len row') else Untouched)" by auto
  have "take len row' = row_list ?m row'" using ar(3) by (simp add: row_list_def)
  then have pp: "p' = p \<or> i = 0 \<and> p' = p\<lparr>neighbor_cache := (neighbor_cache p)(0 \<mapsto> row_list ?m row')\<rparr>" "returned \<Longrightarrow> p' = p"
    using p' var by (auto split: if_splits)
  show ?thesis using ar(1,2,4) look' pp by (intro exI [of _ row']) (auto simp: stored_row_def)
qed

lemma set_neighbors_run:
  assumes ns: "length ns \<le> gp_max_degree p" and m: "gp_max_degree p < 2 ^ 32"
    and run: "gp_set_neighbors cb ctx buf i ns p s = (Inr (), p', s')"
  shows "\<exists>row. stored_row look ctx (gp_max_degree p) i s' row \<and> row_list (gp_max_degree p) row = ns
    \<and> (\<forall>k. k \<noteq> iid_key i \<longrightarrow> look (context_term ctx Neighbors) k s' = look (context_term ctx Neighbors) k s)
    \<and> p' = (if i = 0 then p\<lparr>neighbor_cache := (neighbor_cache p)(0 \<mapsto> ns)\<rparr> else p)"
proof -
  let ?m = "gp_max_degree p"
  let ?guard = "al_resize 0 (?m + 1) buf"
  let ?row = "(ns @ drop (length ns) ?guard)[?m := of_nat (length ns)]"
  have "length ?guard = ?m + 1" by (simp add: al_resize_def)
  note sr = set_row [OF ns m this]
  obtain s'' ok where w: "write_callback cb (context_term ctx Neighbors) (iid_key i) (u32_bytes ?row) s = (s'', ok)" by (metis surj_pair)
  have "\<not> ?m + 1 < length ns" using ns by simp
  then have r: "ok" "s'' = s'" "p' = (if i = 0 then p\<lparr>neighbor_cache := (neighbor_cache p)(0 \<mapsto> ns)\<rparr> else p)"
    using run w by (auto simp: gp_set_neighbors_def Let_def write_iid_def split: if_splits)
  show ?thesis using sr write_law [OF w] r by (intro exI [of _ ?row]) (auto simp: stored_row_def)
qed

end

section \<open>The provider on the in-memory store as a neighbor accessor\<close>

text \<open>The lists of every identifier but the start point keep the contract the index relies on; the lists
  behind the start point are read from the cache, which \<open>append_vector\<close> can leave behind.\<close>

type_synonym gp_state = "garnet_provider \<times> mem_store"

definition gps_wf :: "gp_state \<Rightarrow> bool" where
  "gps_wf st \<longleftrightarrow> gp_max_degree (fst st) < 2 ^ 32 \<and>
     (\<forall>i v. i \<noteq> 0 \<longrightarrow> store_get (context_term 0 Neighbors) (iid_key i) (snd st) = Some v \<longrightarrow>
        (\<exists>row. stored_row store_get 0 (gp_max_degree (fst st)) i (snd st) row))"

definition gps_valid :: "gp_state \<Rightarrow> 32 word \<Rightarrow> bool" where
  "gps_valid st i \<longleftrightarrow> i \<noteq> 0 \<and> store_get (context_term 0 Neighbors) (iid_key i) (snd st) \<noteq> None"

definition gps_get :: "gp_state \<Rightarrow> 32 word \<Rightarrow> gp_error + 32 word list" where
  "gps_get st i = gp_get_neighbors test_callbacks 0 i (fst st) (snd st)"

definition gps_set :: "gp_state \<Rightarrow> 32 word \<Rightarrow> 32 word list \<Rightarrow> gp_error + gp_state" where
  "gps_set st i ns =
     (case gp_set_neighbors test_callbacks 0 [] i ns (fst st) (snd st) of
        (Inl e, _) \<Rightarrow> Inl e | (Inr _, st') \<Rightarrow> Inr st')"

definition gps_append :: "gp_state \<Rightarrow> 32 word \<Rightarrow> 32 word list \<Rightarrow> gp_error + gp_state" where
  "gps_append st i ns =
     (case gp_append_vector test_callbacks 0 i ns (fst st) (snd st) of (Inl e, _) \<Rightarrow> Inl e | (Inr _, st') \<Rightarrow> Inr st')"

lemma gps_row:
  assumes "gps_wf st" "gps_valid st i"
  obtains row where "stored_row store_get 0 (gp_max_degree (fst st)) i (snd st) row"
  using assms by (auto simp: gps_wf_def gps_valid_def)

text \<open>A change of one list keeps the contract.\<close>

lemma gps_changed:
  assumes wf: "gps_wf st" and i: "gps_valid st i" and st': "stored_row store_get 0 (gp_max_degree (fst st)) i s' row'"
    and same: "\<forall>k. k \<noteq> iid_key i \<longrightarrow> store_get (context_term 0 Neighbors) k s' = store_get (context_term 0 Neighbors) k (snd st)"
  shows "gps_wf (fst st, s')" "gps_valid (fst st, s') = gps_valid st" "gps_get (fst st, s') i = Inr (row_list (gp_max_degree (fst st)) row')"
    "j \<noteq> i \<Longrightarrow> gps_get (fst st, s') j = gps_get st j"
proof -
  have o: "store_get (context_term 0 Neighbors) (iid_key k) s' = store_get (context_term 0 Neighbors) (iid_key k) (snd st)" if "k \<noteq> i" for k
    using same that by (simp add: iid_key_inj)
  have "\<exists>row. stored_row store_get 0 (gp_max_degree (fst st)) k s' row"
    if k: "k \<noteq> 0" "store_get (context_term 0 Neighbors) (iid_key k) s' = Some v" for k v
  proof (cases "k = i")
    case False
    with k wf obtain row where "stored_row store_get 0 (gp_max_degree (fst st)) k (snd st) row" using o by (auto simp: gps_wf_def)
    then show ?thesis using o [OF False] by (auto simp: stored_row_def)
  qed (use st' in blast)
  then show "gps_wf (fst st, s')" using wf by (auto simp: gps_wf_def)
  have "store_get (context_term 0 Neighbors) (iid_key k) s' = None \<longleftrightarrow> store_get (context_term 0 Neighbors) (iid_key k) (snd st) = None" for k
    using o st' i by (cases "k = i") (auto simp: stored_row_def gps_valid_def)
  then show "gps_valid (fst st, s') = gps_valid st" by (auto simp: gps_valid_def fun_eq_iff)
  show "gps_get (fst st, s') i = Inr (row_list (gp_max_degree (fst st)) row')"
    using memt.get_neighbors_run [of 0 "fst st" i s' row'] st' i by (simp add: gps_get_def gps_valid_def)
  show "gps_get (fst st, s') j = gps_get st j" if "j \<noteq> i"
    using memt.get_neighbors_same [OF o [OF that] refl refl] by (simp add: gps_get_def)
qed

lemma mem_set_ok:
  assumes "length ns \<le> gp_max_degree p"
  shows "\<exists>p' s'. gp_set_neighbors test_callbacks 0 buf i ns p s = (Inr (), p', s')"
  using assms by (simp add: gp_set_neighbors_def Let_def write_iid_def test_callbacks_def test_write_def)

lemma mem_append_ok:
  assumes "stored_row store_get 0 (gp_max_degree p) i s row"
  shows "\<exists>p' s'. gp_append_vector test_callbacks 0 i ns p s = (Inr (), p', s')"
proof -
  obtain row' len returned where "gp_append_run (gp_max_degree p) ns row = (row', len, returned)" by (metis surj_pair)
  then show ?thesis using assms
    by (simp add: gp_append_vector_def rmw_iid_def test_callbacks_def test_rmw_def Let_def stored_row_def row_ok_def gp_append_modifier_def)
qed

interpretation gna: neighbor_accessor gps_wf gps_valid "\<lambda>st. gp_max_degree (fst st)" gps_get gps_set gps_append
proof
  fix st :: gp_state and i :: "32 word" and "ns" old :: "32 word list"
  assume a: "gps_wf st" "gps_valid st i"
  obtain row where row: "stored_row store_get 0 (gp_max_degree (fst st)) i (snd st) row" using gps_row [OF a] .
  have m: "gp_max_degree (fst st) < 2 ^ 32" and i: "i \<noteq> 0" using a by (simp_all add: gps_wf_def gps_valid_def)
  have get: "gps_get st i = Inr (row_list (gp_max_degree (fst st)) row)"
    using memt.get_neighbors_run [OF row] i by (simp add: gps_get_def)
  have "row_ok (gp_max_degree (fst st)) row" using row by (simp add: stored_row_def)
  then show "\<exists>ns. gps_get st i = Inr ns \<and> length ns \<le> gp_max_degree (fst st)"
    using get length_row_list by (simp add: row_ok_def)
  show "\<exists>st'. gps_set st i ns = Inr st' \<and> gps_wf st' \<and> gps_valid st' = gps_valid st \<and> gp_max_degree (fst st') = gp_max_degree (fst st)
      \<and> gps_get st' i = Inr ns \<and> (\<forall>j. j \<noteq> i \<longrightarrow> gps_get st' j = gps_get st j)" if len: "length ns \<le> gp_max_degree (fst st)"
  proof -
    obtain p' s' where r: "gp_set_neighbors test_callbacks 0 [] i ns (fst st) (snd st) = (Inr (), p', s')" using mem_set_ok [OF len] by blast
    obtain row' where row': "stored_row store_get 0 (gp_max_degree (fst st)) i s' row'" "row_list (gp_max_degree (fst st)) row' = ns"
      "\<forall>k. k \<noteq> iid_key i \<longrightarrow> store_get (context_term 0 Neighbors) k s' = store_get (context_term 0 Neighbors) k (snd st)" "p' = fst st"
      using memt.set_neighbors_run [OF len m r] i by auto
    then show ?thesis using gps_changed [OF a row'(1,3)] r by (intro exI [of _ "(fst st, s')"]) (simp add: gps_set_def)
  qed
  show "\<exists>st'. gps_append st i ns = Inr st' \<and> gps_wf st' \<and> gps_valid st' = gps_valid st \<and> gp_max_degree (fst st') = gp_max_degree (fst st)
      \<and> gps_get st' i = Inr (take (gp_max_degree (fst st)) (old @ fresh ns (set old))) \<and> (\<forall>j. j \<noteq> i \<longrightarrow> gps_get st' j = gps_get st j)"
    if old: "gps_get st i = Inr old"
  proof -
    have old': "old = row_list (gp_max_degree (fst st)) row" using old get by simp
    obtain p' s' where r: "gp_append_vector test_callbacks 0 i ns (fst st) (snd st) = (Inr (), p', s')" using mem_append_ok [OF row] by blast
    obtain row' where row': "stored_row store_get 0 (gp_max_degree (fst st)) i s' row'"
      "row_list (gp_max_degree (fst st)) row' = take (gp_max_degree (fst st)) (old @ fresh ns (set old))"
      "\<forall>k. k \<noteq> iid_key i \<longrightarrow> store_get (context_term 0 Neighbors) k s' = store_get (context_term 0 Neighbors) k (snd st)" "p' = fst st"
      using memt.append_vector_run [OF row m r] i old' by auto
    then show ?thesis using gps_changed [OF a row'(1,3)] r by (intro exI [of _ "(fst st, s')"]) (simp add: gps_append_def)
  qed
qed

section \<open>Properties\<close>

text \<open>C37: inserting a vector under an external identifier that is not present gives it an internal
  identifier that was free, after which the external identifier leads to the internal one and back and
  the vector is stored under it; no other internal identifier changes its status, its vector or its
  external identifier, no other external identifier what it leads to, and the adjacency lists, the
  quantized vectors and the attributes stay as they are.  A failed insertion changes nothing of the
  vectors that are in use; it happens only when an access to the store fails or the counter of
  identifiers is more than a block beyond the last block.\<close>

theorem set_element_correct:
  assumes "garnet_terms cb look" "ctx AND TERM_BITMASK = 0" "fsm_inv look ctx (gp_fsm p) s"
    "unat (fsm_next_id (gp_fsm p)) + 1 < 2 ^ 32" "ids_ok look ctx s" "length key < 2 ^ 32"
    "to_internal_id cb ctx (garnet_id_from key) s = Inl (GpGarnet ReadError)"
  shows "\<exists>r p' s'. set_element cb ctx (garnet_id_from key) element p s = Some (r, p', s')
    \<and> fsm_inv look ctx (gp_fsm p') s' \<and> ids_ok look ctx s'
    \<and> (case r of
         Inr i \<Rightarrow> element_set look ctx key element i s s'
           \<and> to_internal_id cb ctx (garnet_id_from key) s' = Inr i \<and> to_external_id cb ctx i s' = Inr (garnet_id_from key)
       | Inl _ \<Rightarrow> (\<forall>k. length k < 2 ^ 32 \<longrightarrow> to_internal_id cb ctx (garnet_id_from k) s' = to_internal_id cb ctx (garnet_id_from k) s)
           \<and> (\<forall>k. used_id look ctx s k \<longrightarrow> used_id look ctx s' k)
           \<and> (\<forall>j. used_id look ctx s (unat j) \<longrightarrow> look (context_term ctx Vector) (iid_key j) s' = look (context_term ctx Vector) (iid_key j) s)
           \<and> (\<not> callbacks_succeed cb \<or> Suc (unat (max_block (gp_fsm p))) < unat (fsm_next_id (gp_fsm p)) div 65536))"
proof -
  obtain r p' s' where r: "set_element cb ctx (garnet_id_from key) element p s = Some (r, p', s')"
    "fsm_inv look ctx (gp_fsm p') s'" "ids_ok look ctx s'"
    "case r of Inr i \<Rightarrow> element_set look ctx key element i s s'
     | Inl _ \<Rightarrow> (\<forall>k. look (context_term ctx IntMap) k s' = look (context_term ctx IntMap) k s)
         \<and> (\<forall>k. used_id look ctx s k \<longrightarrow> used_id look ctx s' k)
         \<and> (\<forall>j. used_id look ctx s (unat j) \<longrightarrow> look (context_term ctx Vector) (iid_key j) s' = look (context_term ctx Vector) (iid_key j) s)
         \<and> (\<not> callbacks_succeed cb \<or> Suc (unat (max_block (gp_fsm p))) < unat (fsm_next_id (gp_fsm p)) div 65536)"
    using garnet_terms.set_element_run [OF assms(1-5)] by blast
  note ti = garnet_terms.to_internal_id_eq [OF assms(1)] and te = garnet_terms.to_external_id_eq [OF assms(1)]
  show ?thesis
  proof (cases r)
    case (Inl e)
    then show ?thesis using r ti by (intro exI [of _ r] exI [of _ p'] exI [of _ s']) simp
  next
    case (Inr i)
    then have "element_set look ctx key element i s s'" using r(4) by simp
    moreover from this have "to_internal_id cb ctx (garnet_id_from key) s' = Inr i" "to_external_id cb ctx i s' = Inr (garnet_id_from key)"
      using ti [OF assms(6)] te by (simp_all add: element_set_def)
    ultimately show ?thesis using r(1-3) Inr by (intro exI [of _ r] exI [of _ p'] exI [of _ s']) simp
  qed
qed

lemma mem_block_other: "a \<noteq> Metadata \<Longrightarrow> store_get (context_term 0 a) k (mem_block v b Map.empty) = None"
  using store_key_other [of "context_term 0 Metadata" "context_term 0 a"] context_terms_differ [of 0 Metadata a]
  by (simp add: mem_block_def store_get_def store_set_def)

lemma mem_ids_ok: "ids_ok store_get 0 (mem_block v b Map.empty)"
  by (simp add: ids_ok_def mem_block_other)

definition sample_gp :: garnet_provider where
  "sample_gp = \<lparr>gp_dim_bytes = 4, gp_max_degree = 2, neighbor_cache = Map.empty, start_point_cache = Map.empty,
     gp_fsm = \<lparr>has_free_ids = False, fast_free_list = [], max_block = 0, fsm_next_id = 0\<rparr>\<rparr>"

definition sample_store :: mem_store where
  "sample_store = mem_block (replicate BLOCK_SIZE_BYTES 0) 0 Map.empty"

lemma sample_ok:
  "fsm_inv store_get 0 (gp_fsm sample_gp) sample_store" "unat (fsm_next_id (gp_fsm sample_gp)) + 1 < 2 ^ 32"
  "ids_ok store_get 0 sample_store" "max_block (gp_fsm sample_gp) = 0" "unat (fsm_next_id (gp_fsm sample_gp)) = 0"
  "store_get (context_term 0 IntMap) k sample_store = None"
  using mem_new_inv mem_ids_ok by (simp_all add: sample_gp_def sample_store_def mem_block_other)

theorem set_element_correct_witness:
  "\<exists>i p s. set_element test_callbacks 0 (garnet_id_from [97]) [1, 2, 3, 4] sample_gp sample_store = Some (Inr i, p, s)
     \<and> ids_ok store_get 0 s \<and> to_internal_id test_callbacks 0 (garnet_id_from [97]) s = Inr i
     \<and> store_get (context_term 0 Vector) (iid_key i) s = Some [1, 2, 3, 4]"
proof -
  have new: "to_internal_id test_callbacks 0 (garnet_id_from [97]) sample_store = Inl (GpGarnet ReadError)"
    using memt.to_internal_id_eq [of "[97]" 0 sample_store] sample_ok(6) by simp
  obtain r p s where r: "set_element test_callbacks 0 (garnet_id_from [97]) [1, 2, 3, 4] sample_gp sample_store = Some (r, p, s)"
    "ids_ok store_get 0 s"
    "case r of Inr i \<Rightarrow> element_set store_get 0 [97] [1, 2, 3, 4] i sample_store s \<and> to_internal_id test_callbacks 0 (garnet_id_from [97]) s = Inr i
     | Inl _ \<Rightarrow> False"
    using set_element_correct [OF memt.garnet_terms_axioms _ sample_ok(1-3) _ new, of "[1, 2, 3, 4]"] test_callbacks_succeed sample_ok(5)
    by (fastforce split: sum.splits)
  then show ?thesis by (cases r) (auto simp: element_set_def)
qed



text \<open>C39: when new edges of the start point do not all fit, \<open>append_vector\<close> stores the ones that fit but does
  not touch the cached list, and later reads of the start point miss them.\<close>

theorem append_leaves_cache_behind:
  assumes "garnet_terms cb look" "stored_row look ctx (gp_max_degree p) 0 s row" "gp_max_degree p < 2 ^ 32"
    "neighbor_cache p 0 = Some c" "c = row_list (gp_max_degree p) row" "length c < gp_max_degree p"
    "gp_max_degree p < length c + length (fresh ns (set c))" "gp_append_vector cb ctx 0 ns p s = (Inr (), p', s')"
  shows "gp_get_neighbors cb ctx 0 p' s' = Inr c
    \<and> (\<exists>row'. stored_row look ctx (gp_max_degree p) 0 s' row'
         \<and> row_list (gp_max_degree p) row' = take (gp_max_degree p) (c @ fresh ns (set c)) \<and> row_list (gp_max_degree p) row' \<noteq> c)"
proof -
  let ?new = "take (gp_max_degree p) (c @ fresh ns (set c))"
  obtain row' where row': "stored_row look ctx (gp_max_degree p) 0 s' row'" "row_list (gp_max_degree p) row' = ?new" "p' = p"
    using garnet_terms.append_vector_run [OF assms(1,2,3,8)] assms(5,7) by auto
  have "length ?new \<noteq> length c" using assms(6,7) by simp
  then have "?new \<noteq> c" by metis
  moreover have "gp_get_neighbors cb ctx 0 p' s' = Inr c" using row'(3) assms(4,6) by (simp add: gp_get_neighbors_def)
  ultimately show ?thesis using row' by auto
qed

theorem append_leaves_cache_behind_witness:
  "\<exists>p s p' s'. gp_append_vector test_callbacks 0 0 [6, 7] p s = (Inr (), p', s')
    \<and> gp_get_neighbors test_callbacks 0 0 p' s' = Inr [5] \<and> (\<exists>row. stored_row store_get 0 2 0 s' row \<and> row_list 2 row = [5, 6])"
proof -
  let ?p = "\<lparr>gp_dim_bytes = 4, gp_max_degree = 2, neighbor_cache = [0 \<mapsto> [5]], start_point_cache = Map.empty,
       gp_fsm = \<lparr>has_free_ids = False, fast_free_list = [], max_block = 0, fsm_next_id = 1\<rparr>\<rparr> :: garnet_provider"
  let ?s = "store_set (context_term 0 Neighbors) (iid_key 0) (u32_bytes [5, 0, 1]) Map.empty"
  have row: "stored_row store_get 0 (gp_max_degree ?p) 0 ?s [5, 0, 1]" by (simp add: stored_row_def row_ok_def store_get_set)
  obtain p' s' where run: "gp_append_vector test_callbacks 0 0 [6, 7] ?p ?s = (Inr (), p', s')" using mem_append_ok [OF row] by blast
  have c: "[5] = row_list (gp_max_degree ?p) [5, 0, 1]" by (simp add: row_list_def)
  have "gp_get_neighbors test_callbacks 0 0 p' s' = Inr [5]
      \<and> (\<exists>row'. stored_row store_get 0 (gp_max_degree ?p) 0 s' row'
           \<and> row_list (gp_max_degree ?p) row' = take (gp_max_degree ?p) ([5] @ fresh [6, 7] (set [5])) \<and> row_list (gp_max_degree ?p) row' \<noteq> [5])"
    by (rule append_leaves_cache_behind [OF memt.garnet_terms_axioms row _ _ c _ _ run]) simp_all
  then have "gp_get_neighbors test_callbacks 0 0 p' s' = Inr [5] \<and> (\<exists>row. stored_row store_get 0 2 0 s' row \<and> row_list 2 row = [5, 6])"
    by auto
  with run show ?thesis by blast
qed

end
