(* ===== verification/Range_Search.thy ===== *)
theory Range_Search
  imports Graph_Search Output_Buffer
begin

text \<open>
  Searches over the graph that return results: the search for the nearest neighbors
  (\<open>diskann/src/graph/search/knn_search.rs\<close>) and the search for all vectors within a radius
  (\<open>diskann/src/graph/search/range_search.rs\<close>), with their parameters.

  The range search runs the greedy search, takes the candidates within the radius, and when there are
  enough of them explores from them as long as it meets vectors within the radius times a slack.
  Its loop is a partial function, \<open>None\<close> when it does not end.  Post processing is the copying of
  identifiers and distances to an output buffer.
\<close>

section \<open>Parameters\<close>

datatype knn_error = LLessThanK nat nat | KnnBeamWidthZero | KnnKZero | KnnLZero

record knn =
  k_value :: nat
  knn_l_value :: nat
  knn_beam_width :: nat

definition knn_new :: "nat \<Rightarrow> nat \<Rightarrow> nat option \<Rightarrow> knn_error + knn" where
  "knn_new k l beam_width =
     (if k = 0 then Inl KnnKZero
      else if l = 0 then Inl KnnLZero
      else if l < k then Inl (LLessThanK l k)
      else case beam_width of
        None \<Rightarrow> Inr \<lparr>k_value = k, knn_l_value = l, knn_beam_width = 1\<rparr>
      | Some bw \<Rightarrow> if bw = 0 then Inl KnnBeamWidthZero else Inr \<lparr>k_value = k, knn_l_value = l, knn_beam_width = bw\<rparr>)"

datatype range_error = BeamWidthZero | LZero | StartingListSlackValueError | RangeSearchSlackValueError | InnerRadiusValueError

record range_params =
  max_returned :: "nat option"
  starting_l :: nat
  rg_beam_width :: "nat option"
  radius :: f32
  inner_radius :: "f32 option"
  initial_slack :: f32
  range_slack :: f32

definition range_with_options ::
  "nat option \<Rightarrow> nat \<Rightarrow> nat option \<Rightarrow> f32 \<Rightarrow> f32 option \<Rightarrow> f32 \<Rightarrow> f32 \<Rightarrow> range_error + range_params" where
  "range_with_options max_ret l beam_width rad inner islack rslack =
     (if beam_width = Some 0 then Inl BeamWidthZero
      else if l = 0 then Inl LZero
      else if \<not> (f32_le f32_zero islack \<and> f32_le islack f32_one) then Inl StartingListSlackValueError
      else if f32_lt rslack f32_one then Inl RangeSearchSlackValueError
      else if (case inner of None \<Rightarrow> False | Some ir \<Rightarrow> f32_gt ir rad) then Inl InnerRadiusValueError
      else Inr \<lparr>max_returned = max_ret, starting_l = l, rg_beam_width = beam_width, radius = rad, inner_radius = inner,
                initial_slack = islack, range_slack = rslack\<rparr>)"

definition range_new :: "nat \<Rightarrow> f32 \<Rightarrow> range_error + range_params" where
  "range_new l rad = range_with_options None l None rad None f32_one f32_one"

section \<open>Exploring within the radius\<close>

definition collect_in_range :: "f32 \<Rightarrow> nat option \<Rightarrow> 'i neighbor \<Rightarrow> 'i neighbor list \<times> 'i list \<Rightarrow> 'i neighbor list \<times> 'i list" where
  "collect_in_range limit max_ret n st =
     (case st of (found_in, frontier) \<Rightarrow>
        if f32_le (nbr_distance n) limit \<and> (case max_ret of None \<Rightarrow> True | Some m \<Rightarrow> length found_in < m)
        then (found_in @ [n], frontier @ [nbr_id n]) else (found_in, frontier))"

definition range_step ::
  "range_params \<Rightarrow> ('i, 'v, 'e, 'a) search_accessor \<Rightarrow> ('v \<Rightarrow> f32) \<Rightarrow> ('i, 'q) search_scratch \<Rightarrow> 'e + ('i, 'q) search_scratch" where
  "range_step p acc computer s =
     (let bw = (case rg_beam_width p of None \<Rightarrow> 1 | Some b \<Rightarrow> b);
          beam = take bw (range_frontier s); rest = drop bw (range_frontier s) in
      rbind (expand_beam acc computer beam (visited s, [])) (\<lambda>(vis, neighbors).
        case fold (collect_in_range (f32_mul (radius p) (range_slack p)) (max_returned p)) neighbors (in_range s, rest) of
          (found_in, frontier) \<Rightarrow>
            Inr (s\<lparr>visited := vis, beam_nodes := beam, in_range := found_in, range_frontier := frontier,
                   cmps := cmps s + of_nat (length neighbors), hops := hops s + of_nat (length beam)\<rparr>)))"

partial_function (option) range_loop ::
  "range_params \<Rightarrow> ('i, 'v, 'e, 'a) search_accessor \<Rightarrow> ('v \<Rightarrow> f32) \<Rightarrow> ('i, 'q) search_scratch \<Rightarrow> ('e + ('i, 'q) search_scratch) option" where
  "range_loop p acc computer s =
     (if range_frontier s = [] then Some (Inr s)
      else case range_step p acc computer s of
        Inl e \<Rightarrow> Some (Inl e)
      | Inr s' \<Rightarrow> range_loop p acc computer s')"

declare range_loop.simps [code]

definition range_search_internal ::
  "range_params \<Rightarrow> ('i, 'v, 'e, 'a) search_accessor \<Rightarrow> ('v \<Rightarrow> f32) \<Rightarrow> ('i, 'q) search_scratch
    \<Rightarrow> ('e + (search_stats \<times> ('i, 'q) search_scratch)) option" where
  "range_search_internal p acc computer s =
     map_option (\<lambda>res. rbind res (\<lambda>s'.
         Inr (\<lparr>stat_cmps = cmps s', stat_hops = hops s', range_search_second_round = True\<rparr>, s')))
       (range_loop p acc computer (s\<lparr>range_frontier := range_frontier s @ map nbr_id (in_range s)\<rparr>))"

section \<open>The searches\<close>

definition knn_candidates ::
  "knn \<Rightarrow> ('i, 'v, 'e, 'a) search_accessor \<Rightarrow> ('v \<Rightarrow> f32) \<Rightarrow> 'i list \<Rightarrow> 'a
    \<Rightarrow> ('e search_error + (search_stats \<times> 'i neighbor list)) option" where
  "knn_candidates p acc computer start_ids a =
     (let scratch = scratch_create \<lparr>l_value = knn_l_value p, ssp_max_degree = 0, num_frozen_pts = length start_ids\<rparr> in
      map_option (\<lambda>res. rbind res (\<lambda>(stats, s, _, _). Inr (stats, npq_iter (best s))))
        (search_internal acc computer npq_ops noop_record (Some (knn_beam_width p)) start_ids scratch () a))"

text \<open>The candidates of the greedy search within the radius; the visited set is then exactly these.\<close>

definition range_start :: "range_params \<Rightarrow> ('i, 'i npq) search_scratch \<Rightarrow> ('i, 'i npq) search_scratch" where
  "range_start p s =
     (let found_in = filter (\<lambda>n. f32_le (nbr_distance n) (radius p)) (take (starting_l p) (npq_iter (best s)))
      in s\<lparr>visited := set (map nbr_id found_in), in_range := found_in\<rparr>)"

definition enough_in_range :: "range_params \<Rightarrow> nat \<Rightarrow> bool" where
  "enough_in_range p n \<longleftrightarrow> f32_as_usize (f32_mul (f32_of_nat (starting_l p)) (initial_slack p)) \<le> n"

definition range_candidates ::
  "range_params \<Rightarrow> ('i, 'v, 'e, 'a) search_accessor \<Rightarrow> ('v \<Rightarrow> f32) \<Rightarrow> 'i list \<Rightarrow> 'a
    \<Rightarrow> ('e search_error + (search_stats \<times> 'i neighbor list)) option" where
  "range_candidates p acc computer start_ids a =
     (let scratch = scratch_create \<lparr>l_value = starting_l p, ssp_max_degree = 0, num_frozen_pts = length start_ids\<rparr> in
      case search_internal acc computer npq_ops noop_record (rg_beam_width p) start_ids scratch () a of
        None \<Rightarrow> None
      | Some (Inl e) \<Rightarrow> Some (Inl e)
      | Some (Inr (initial_stats, s, _, _)) \<Rightarrow>
          (let s1 = range_start p s in
           if enough_in_range p (length (in_range s1)) then
             (case range_search_internal p acc computer s1 of
                None \<Rightarrow> None
              | Some (Inl e) \<Rightarrow> Some (Inl (SError e))
              | Some (Inr (range_stats, s2)) \<Rightarrow>
                  Some (Inr (\<lparr>stat_cmps = stat_cmps initial_stats, stat_hops = stat_hops initial_stats + stat_hops range_stats,
                              range_search_second_round = True\<rparr>, in_range s2)))
           else Some (Inr (initial_stats, in_range s1))))"

section \<open>The filter in front of an output buffer\<close>

text \<open>\<open>DistanceFiltered\<close> wraps a buffer and passes on what satisfies a predicate on the distance.\<close>

definition df_push :: "(f32 \<Rightarrow> bool) \<Rightarrow> ('b \<Rightarrow> nat option) \<Rightarrow> ('b \<Rightarrow> 'i \<Rightarrow> f32 \<Rightarrow> buffer_state \<times> 'b) \<Rightarrow> 'b \<Rightarrow> 'i \<Rightarrow> f32 \<Rightarrow> buffer_state \<times> 'b" where
  "df_push pred size_hint push b i d =
     (if pred d then push b i d else (if size_hint b = Some 0 then Full else Available, b))"

definition df_extend :: "(f32 \<Rightarrow> bool) \<Rightarrow> ('b \<Rightarrow> ('i \<times> f32) list \<Rightarrow> nat \<times> 'b) \<Rightarrow> 'b \<Rightarrow> ('i \<times> f32) list \<Rightarrow> nat \<times> 'b" where
  "df_extend pred ext b itr = ext b (filter (\<lambda>x. pred (snd x)) itr)"

definition range_predicate :: "range_params \<Rightarrow> f32 \<Rightarrow> bool" where
  "range_predicate p dist =
     (if (case inner_radius p of None \<Rightarrow> False | Some ir \<Rightarrow> f32_le dist ir) then False else f32_le dist (radius p))"

section \<open>Post processing\<close>

text \<open>\<open>CopyIds\<close> hands the candidates to an output buffer; the statistics of a search also count the results.\<close>

definition copy_ids :: "('b \<Rightarrow> ('i \<times> f32) list \<Rightarrow> nat \<times> 'b) \<Rightarrow> 'i neighbor list \<Rightarrow> 'b \<Rightarrow> nat \<times> 'b" where
  "copy_ids ext candidates b = ext b (map (\<lambda>n. (nbr_id n, nbr_distance n)) candidates)"

record full_stats = search_stats +
  result_count :: "32 word"

definition finish :: "search_stats \<Rightarrow> nat \<Rightarrow> full_stats" where
  "finish st n = \<lparr>stat_cmps = stat_cmps st, stat_hops = stat_hops st,
     range_search_second_round = range_search_second_round st, result_count = of_nat n\<rparr>"

definition knn_search ::
  "knn \<Rightarrow> ('i, 'v, 'e, 'a) search_accessor \<Rightarrow> ('v \<Rightarrow> f32) \<Rightarrow> 'i list \<Rightarrow> 'a \<Rightarrow> ('b \<Rightarrow> ('i \<times> f32) list \<Rightarrow> nat \<times> 'b) \<Rightarrow> 'b
    \<Rightarrow> ('e search_error + (full_stats \<times> 'b)) option" where
  "knn_search p acc computer start_ids a ext output =
     map_option (\<lambda>res. rbind res (\<lambda>(stats, candidates).
         case copy_ids ext candidates output of (n, b) \<Rightarrow> Inr (finish stats n, b)))
       (knn_candidates p acc computer start_ids a)"

definition range_search ::
  "range_params \<Rightarrow> ('i, 'v, 'e, 'a) search_accessor \<Rightarrow> ('v \<Rightarrow> f32) \<Rightarrow> 'i list \<Rightarrow> 'a \<Rightarrow> ('b \<Rightarrow> ('i \<times> f32) list \<Rightarrow> nat \<times> 'b) \<Rightarrow> 'b
    \<Rightarrow> ('e search_error + (full_stats \<times> 'b)) option" where
  "range_search p acc computer start_ids a ext output =
     map_option (\<lambda>res. rbind res (\<lambda>(stats, candidates).
         case copy_ids (df_extend (range_predicate p) ext) candidates output of (n, b) \<Rightarrow> Inr (finish stats n, b)))
       (range_candidates p acc computer start_ids a)"

context search_output_buffer
begin

text \<open>Extending a filtered buffer is extending the buffer with what passes, and pushing one by one gives
  the same content.\<close>

lemma df_extend_content:
  assumes "inv b" "df_extend pred extend b xs = (n, b')"
  shows "inv b' \<and> content b' = content b @ take_room (size_hint b) (filter (\<lambda>x. pred (snd x)) xs)"
  using extend_law [OF assms(1)] assms(2) by (simp add: df_extend_def)

lemma df_push_all_content:
  assumes "inv b"
  shows "inv (fold (\<lambda>(i, d) b. snd (df_push pred size_hint push b i d)) xs b)
    \<and> content (fold (\<lambda>(i, d) b. snd (df_push pred size_hint push b i d)) xs b)
      = content b @ take_room (size_hint b) (filter (\<lambda>x. pred (snd x)) xs)"
proof -
  have "fold (\<lambda>(i, d) b. snd (df_push pred size_hint push b i d)) xs b = push_all (filter (\<lambda>x. pred (snd x)) xs) b" for b
    by (induction xs arbitrary: b) (auto simp: df_push_def push_all_def)
  then show ?thesis using push_all_content [OF assms] by simp
qed

end

section \<open>What is explored\<close>

text \<open>The vertices that are reachable from a set of roots through vertices within a limit.\<close>

inductive_set explored :: "('i, 'v, 'e, 'a) search_accessor \<Rightarrow> ('v \<Rightarrow> f32) \<Rightarrow> f32 \<Rightarrow> 'i set \<Rightarrow> 'i set"
  for acc :: "('i, 'v, 'e, 'a) search_accessor" and computer :: "'v \<Rightarrow> f32" and limit :: f32 and roots :: "'i set"
where
  root: "i \<in> roots \<Longrightarrow> i \<in> explored acc computer limit roots"
| step: "\<lbrakk>i \<in> explored acc computer limit roots; sa_get_neighbors acc i = Inr ns; j \<in> set ns;
     f32_le (dist_of acc computer j) limit\<rbrakk> \<Longrightarrow> j \<in> explored acc computer limit roots"

abbreviation range_limit :: "range_params \<Rightarrow> f32" where
  "range_limit p \<equiv> f32_mul (radius p) (range_slack p)"

text \<open>The invariant of the exploration: the vertices in range are what was explored so far, every one of
  them that is no longer in the frontier has all its out-neighbors visited, and what was visited and is
  not in range is beyond the limit.\<close>

definition range_inv ::
  "range_params \<Rightarrow> ('i, 'v, 'e, 'a) search_accessor \<Rightarrow> ('v \<Rightarrow> f32) \<Rightarrow> 'i set \<Rightarrow> 'i set \<Rightarrow> ('i, 'q) search_scratch \<Rightarrow> bool" where
  "range_inv p acc computer V roots s \<longleftrightarrow>
     distinct (map nbr_id (in_range s)) \<and> nbr_id ` set (in_range s) \<subseteq> visited s \<and> visited s \<subseteq> V
     \<and> (\<forall>n\<in>set (in_range s). n = found acc computer (nbr_id n))
     \<and> set (range_frontier s) \<subseteq> nbr_id ` set (in_range s)
     \<and> roots \<subseteq> nbr_id ` set (in_range s) \<and> nbr_id ` set (in_range s) \<subseteq> explored acc computer (range_limit p) roots
     \<and> (\<forall>i\<in>visited s - nbr_id ` set (in_range s). \<not> f32_le (dist_of acc computer i) (range_limit p))
     \<and> (\<forall>i\<in>nbr_id ` set (in_range s) - set (range_frontier s). \<exists>ns. sa_get_neighbors acc i = Inr ns \<and> set ns \<subseteq> visited s)"

lemma range_invD:
  assumes "range_inv p acc computer V roots s"
  shows "distinct (map nbr_id (in_range s))" "nbr_id ` set (in_range s) \<subseteq> visited s" "visited s \<subseteq> V"
    "\<forall>n\<in>set (in_range s). n = found acc computer (nbr_id n)" "set (range_frontier s) \<subseteq> nbr_id ` set (in_range s)"
    "roots \<subseteq> nbr_id ` set (in_range s)" "nbr_id ` set (in_range s) \<subseteq> explored acc computer (range_limit p) roots"
    "\<forall>i\<in>visited s - nbr_id ` set (in_range s). \<not> f32_le (dist_of acc computer i) (range_limit p)"
    "\<forall>i\<in>nbr_id ` set (in_range s) - set (range_frontier s). \<exists>ns. sa_get_neighbors acc i = Inr ns \<and> set ns \<subseteq> visited s"
  using assms unfolding range_inv_def by simp_all

lemma fold_collect_in_range:
  "fold (collect_in_range limit None) ns (found_in, frontier) =
     (found_in @ filter (\<lambda>n. f32_le (nbr_distance n) limit) ns,
      frontier @ map nbr_id (filter (\<lambda>n. f32_le (nbr_distance n) limit) ns))"
  by (induction ns arbitrary: found_in frontier) (auto simp: collect_in_range_def)

definition range_measure :: "'i set \<Rightarrow> ('i, 'q) search_scratch \<Rightarrow> nat" where
  "range_measure V s = card (V - visited s) + length (range_frontier s)"

lemma range_step_spec:
  assumes inv: "range_inv p acc computer V roots s" and closed: "graph_closed acc V" and total: "graph_total acc V"
    and p: "rg_beam_width p \<noteq> Some 0" "max_returned p = None" and fr: "range_frontier s \<noteq> []"
  shows "\<exists>s'. range_step p acc computer s = Inr s' \<and> range_inv p acc computer V roots s' \<and> range_measure V s' < range_measure V s"
proof -
  note I = range_invD [OF inv]
  define bw where "bw = (case rg_beam_width p of None \<Rightarrow> 1 | Some b \<Rightarrow> b)"
  define beam where "beam = take bw (range_frontier s)"
  define rest where "rest = drop bw (range_frontier s)"
  have bw: "0 < bw" using p(1) by (auto simp: bw_def split: option.splits)
  have fr_eq: "range_frontier s = beam @ rest" by (simp add: beam_def rest_def)
  have beam: "beam \<noteq> []" using bw fr by (simp add: beam_def)
  have beamI: "set beam \<subseteq> nbr_id ` set (in_range s)" using I(5) fr_eq by auto
  have beamV: "set beam \<subseteq> V" using beamI I(2,3) by blast
  obtain vis out where ex: "expand_beam acc computer beam (visited s, []) = Inr (vis, out)"
    using expand_beam_total [OF closed total beamV] by (metis surj_pair)
  from expand_beam_spec [OF ex, unfolded append_Nil] obtain fs where fs:
    "out = map (found acc computer) fs" "distinct fs" "set fs \<inter> visited s = {}" "vis = visited s \<union> set fs"
    "\<forall>j\<in>set fs. \<exists>i\<in>set beam. \<exists>ns. sa_get_neighbors acc i = Inr ns \<and> j \<in> set ns"
    "(\<forall>i\<in>set beam. \<forall>ns. sa_get_neighbors acc i = Inr ns \<longrightarrow> (\<forall>j\<in>set ns. \<exists>v. sa_get_element acc j = Inr v))
       \<longrightarrow> (\<forall>i\<in>set beam. \<exists>ns. sa_get_neighbors acc i = Inr ns \<and> set ns \<subseteq> vis)" by blast
  define gs where "gs = filter (\<lambda>j. f32_le (dist_of acc computer j) (range_limit p)) fs"
  have flt: "filter (\<lambda>n. f32_le (nbr_distance n) (range_limit p)) out = map (found acc computer) gs"
    by (simp add: fs(1) gs_def filter_map o_def)
  define s' where "s' = s\<lparr>visited := vis, beam_nodes := beam, in_range := in_range s @ map (found acc computer) gs,
      range_frontier := rest @ gs, cmps := cmps s + of_nat (length out), hops := hops s + of_nat (length beam)\<rparr>"
  have step: "range_step p acc computer s = Inr s'"
    unfolding range_step_def bw_def [symmetric] beam_def [symmetric] rest_def [symmetric] Let_def s'_def
    by (simp add: ex p(2) fold_collect_in_range flt o_def)
  have sub: "set gs \<subseteq> set fs" "distinct gs" using fs(2) by (auto simp: gs_def)
  have fsV: "set fs \<subseteq> V" using fs(5) beamV closed unfolding graph_closed_def by blast
  have gsE: "set gs \<subseteq> explored acc computer (range_limit p) roots"
  proof
    fix j assume j: "j \<in> set gs"
    then obtain i ns where "i \<in> set beam" "sa_get_neighbors acc i = Inr ns" "j \<in> set ns" using fs(5) sub(1) by blast
    moreover have "i \<in> explored acc computer (range_limit p) roots" using \<open>i \<in> set beam\<close> beamI I(7) by blast
    moreover have "f32_le (dist_of acc computer j) (range_limit p)" using j by (simp add: gs_def)
    ultimately show "j \<in> explored acc computer (range_limit p) roots" by (blast intro: explored.step)
  qed
  have done_beam: "\<forall>i\<in>set beam. \<exists>ns. sa_get_neighbors acc i = Inr ns \<and> set ns \<subseteq> vis"
    using fs(6) total closed beamV unfolding graph_total_def graph_closed_def by (meson subsetD)
  have ids: "nbr_id ` set (in_range s') = nbr_id ` set (in_range s) \<union> set gs" by (simp add: s'_def image_Un image_image)
  have "range_inv p acc computer V roots s'"
    unfolding range_inv_def ids
  proof (intro conjI)
    show "distinct (map nbr_id (in_range s'))" using I(1,2) sub fs(3) by (auto simp: s'_def o_def)
    show "nbr_id ` set (in_range s) \<union> set gs \<subseteq> visited s'" using I(2) sub fs(4) by (auto simp: s'_def)
    show "visited s' \<subseteq> V" using I(3) fs(4) fsV by (simp add: s'_def)
    show "\<forall>n\<in>set (in_range s'). n = found acc computer (nbr_id n)" using I(4) by (auto simp: s'_def)
    show "set (range_frontier s') \<subseteq> nbr_id ` set (in_range s) \<union> set gs" using I(5) fr_eq by (auto simp: s'_def)
    show "roots \<subseteq> nbr_id ` set (in_range s) \<union> set gs" using I(6) by blast
    show "nbr_id ` set (in_range s) \<union> set gs \<subseteq> explored acc computer (range_limit p) roots" using I(7) gsE by blast
    show "\<forall>i\<in>visited s' - (nbr_id ` set (in_range s) \<union> set gs). \<not> f32_le (dist_of acc computer i) (range_limit p)"
      using I(8) fs(4) by (auto simp: s'_def gs_def)
    show "\<forall>i\<in>nbr_id ` set (in_range s) \<union> set gs - set (range_frontier s').
        \<exists>ns. sa_get_neighbors acc i = Inr ns \<and> set ns \<subseteq> visited s'"
    proof
      fix i assume i: "i \<in> nbr_id ` set (in_range s) \<union> set gs - set (range_frontier s')"
      show "\<exists>ns. sa_get_neighbors acc i = Inr ns \<and> set ns \<subseteq> visited s'"
      proof (cases "i \<in> set beam")
        case True
        then show ?thesis using done_beam by (simp add: s'_def)
      next
        case False
        then have "i \<in> nbr_id ` set (in_range s) - set (range_frontier s)" using i fr_eq by (auto simp: s'_def)
        then obtain ns where "sa_get_neighbors acc i = Inr ns" "set ns \<subseteq> visited s" using I(9) by blast
        then show ?thesis using fs(4) by (auto simp: s'_def)
      qed
    qed
  qed
  moreover have "range_measure V s' < range_measure V s"
  proof -
    have fin: "finite V" using closed by (simp add: graph_closed_def)
    have "V - visited s = (V - vis) \<union> set fs" "(V - vis) \<inter> set fs = {}" using fs(3,4) fsV by auto
    then have "card (V - visited s) = card (V - vis) + length fs"
      using card_Un_disjoint [of "V - vis" "set fs"] fin fs(2) by (simp add: distinct_card)
    moreover have "length gs \<le> length fs" by (simp add: gs_def)
    moreover have "length (range_frontier s) = length beam + length rest" by (simp add: fr_eq)
    moreover have "0 < length beam" using beam by simp
    ultimately have "card (V - vis) + (length rest + length gs) < card (V - visited s) + length (range_frontier s)" by linarith
    then show ?thesis by (simp add: range_measure_def s'_def)
  qed
  ultimately show ?thesis using step by blast
qed

lemma range_loop_spec:
  assumes "range_inv p acc computer V roots s" "graph_closed acc V" "graph_total acc V"
    "rg_beam_width p \<noteq> Some 0" "max_returned p = None"
  shows "\<exists>s'. range_loop p acc computer s = Some (Inr s') \<and> range_inv p acc computer V roots s' \<and> range_frontier s' = []"
  using assms(1)
proof (induction "range_measure V s" arbitrary: s rule: less_induct)
  case less
  show ?case
  proof (cases "range_frontier s = []")
    case True
    then show ?thesis using less.prems by (subst range_loop.simps) auto
  next
    case False
    from range_step_spec [OF less.prems assms(2-5) False] obtain s1 where
      s1: "range_step p acc computer s = Inr s1" "range_inv p acc computer V roots s1" "range_measure V s1 < range_measure V s"
      by blast
    then have "range_loop p acc computer s = range_loop p acc computer s1" using False by (subst range_loop.simps) simp
    then show ?thesis using less.hyps [OF s1(3,2)] by simp
  qed
qed

text \<open>With an empty frontier what is in range is everything that can be explored.\<close>

lemma range_inv_complete:
  assumes "range_inv p acc computer V roots s" "range_frontier s = []"
  shows "nbr_id ` set (in_range s) = explored acc computer (range_limit p) roots"
proof -
  note I = range_invD [OF assms(1)]
  have "i \<in> nbr_id ` set (in_range s)" if "i \<in> explored acc computer (range_limit p) roots" for i
    using that
  proof induction
    case (root i)
    then show ?case using I(6) by blast
  next
    case (step i ns j)
    then have "j \<in> visited s" using I(9) assms(2) by force
    with step.hyps(4) I(8) show ?case by blast
  qed
  with I(7) show ?thesis by blast
qed

lemma search_loop_frontier:
  assumes "search_loop acc computer ops rec bw s r a = Some (Inr (s', r', a'))"
  shows "range_frontier s' = range_frontier s"
proof -
  have step: "range_frontier s1 = range_frontier s" if "search_step acc computer ops rec bw s r = Inr (s1, r1)" for s s1 r r1
  proof -
    have pop: "range_frontier s1 = range_frontier s" if "pop_beam ops rec n s r = Inr (s1, r1)" for n s s1 r r1
      using that by (induction n arbitrary: s r) (auto simp: rbind_eq_Inr_iff split: option.splits)
    show ?thesis using that pop by (fastforce simp: search_step_def rbind_eq_Inr_iff lift_eq_Inr)
  qed
  show ?thesis
  proof (rule search_loop.raw_induct [OF _ assms, where P = "\<lambda>acc0 computer0 ops0 rec0 bw0 s r a res.
          acc0 = acc \<longrightarrow> computer0 = computer \<longrightarrow> ops0 = ops \<longrightarrow> rec0 = rec \<longrightarrow> bw0 = bw \<longrightarrow>
          (\<forall>s' r' a'. res = Inr (s', r', a') \<longrightarrow> range_frontier s' = range_frontier s)", rule_format], goal_cases)
    case prems: (1 f acc0 computer0 ops0 rec0 bw0 s r a res s' r' a')
    then show ?case using step
      by (fastforce split: if_splits prod.splits sum.splits)
  qed simp_all
qed

lemma search_internal_frontier:
  assumes "search_internal acc computer ops rec bw starts s r a = Some (Inr (stats, s', r', a'))" "range_frontier s = []"
  shows "range_frontier s' = []"
proof -
  have "range_frontier s0 = []" if "rfold (init_start acc computer ops) starts s = Inr s0" for s0
    using rfold_invariant [OF that, where P = "\<lambda>s. range_frontier s = []"] assms(2)
    by (fastforce simp: init_start_def rbind_eq_Inr_iff)
  with assms show ?thesis
    by (fastforce simp: search_internal_def Let_def rbind_eq_Inr_iff dest: search_loop_frontier split: if_splits sum.splits)
qed

lemma range_with_optionsD:
  assumes "range_with_options m l bw rad inner islack rslack = Inr p"
  shows "p = \<lparr>max_returned = m, starting_l = l, rg_beam_width = bw, radius = rad, inner_radius = inner,
      initial_slack = islack, range_slack = rslack\<rparr>" "0 < l" "bw \<noteq> Some 0"
  using assms by (auto simp: range_with_options_def split: if_splits)

text \<open>The state in which the exploration starts.\<close>

lemma range_start_inv:
  assumes inv: "search_inv (npq_fixed l) npq_entries npq_cov acc computer V X s" and fr: "range_frontier s = []"
    and s1: "s1 = range_start p s"
  shows "range_inv p acc computer V (nbr_id ` set (in_range s1)) (s1\<lparr>range_frontier := range_frontier s1 @ map nbr_id (in_range s1)\<rparr>)"
    "\<forall>n\<in>set (in_range s1). n = found acc computer (nbr_id n) \<and> f32_le (nbr_distance n) (radius p)"
    "distinct (map nbr_id (in_range s1))"
proof -
  note I = inv [unfolded search_inv_def]
  let ?es = "npq_entries (best s)"
  have wf: "npq_wf (best s)" using I by (auto simp: npq_fixed_def npq_usable_def npq_inv_def)
  define ns where "ns = in_range s1"
  have it: "npq_iter (best s) = map entry_nbr (take (search_param_l (best s)) ?es)" by (rule npq_iter_entries [OF wf])
  have ns: "set ns \<subseteq> set (map entry_nbr ?es)" unfolding ns_def s1 range_start_def Let_def
    using it by (auto dest!: in_set_takeD)
  have "set ns \<subseteq> set (npq_iter (best s))" unfolding ns_def s1 range_start_def Let_def by (auto dest: in_set_takeD)
  have "distinct (map nbr_id (npq_iter (best s)))"
    using I by (simp add: it eids_def entry_nbr_def o_def take_map [symmetric])
  then have "distinct (map nbr_id (take (starting_l p) (npq_iter (best s))))" by (simp add: take_map [symmetric])
  then have d: "distinct (map nbr_id ns)"
    using distinct_map_filter by (simp add: ns_def s1 range_start_def Let_def)
  have f: "\<forall>n\<in>set ns. n = found acc computer (nbr_id n)" using ns I by (auto simp: entry_nbr_def found_def)
  have V: "nbr_id ` set ns \<subseteq> V" 
  proof -
    have "nbr_id ` set ns \<subseteq> nbr_id ` set (map entry_nbr ?es)" using ns by (rule image_mono)
    also have "\<dots> = set (eids ?es)" by (simp add: eids_def entry_nbr_def image_image)
    finally show ?thesis using I by blast
  qed
  show "range_inv p acc computer V (nbr_id ` set (in_range s1)) (s1\<lparr>range_frontier := range_frontier s1 @ map nbr_id (in_range s1)\<rparr>)"
    using d f V unfolding ns_def range_inv_def
    by (auto simp: s1 range_start_def Let_def fr intro: explored.root)
  show "\<forall>n\<in>set (in_range s1). n = found acc computer (nbr_id n) \<and> f32_le (nbr_distance n) (radius p)"
    using f unfolding ns_def by (auto simp: s1 range_start_def Let_def)
  show "distinct (map nbr_id (in_range s1))" using d by (simp add: ns_def)
qed

lemma range_candidates_spec:
  assumes "range_with_options None l bw rad inner islack rslack = Inr p" "graph_closed acc V" "graph_total acc V"
    "set start_ids \<subseteq> V" "distinct start_ids"
  shows "\<exists>stats res roots. range_candidates p acc computer start_ids a = Some (Inr (stats, res))
    \<and> distinct (map nbr_id res) \<and> (\<forall>n\<in>set res. nbr_distance n = dist_of acc computer (nbr_id n))
    \<and> finite roots \<and> (\<forall>i\<in>roots. f32_le (dist_of acc computer i) rad)
    \<and> nbr_id ` set res = (if f32_as_usize (f32_mul (f32_of_nat l) islack) \<le> card roots
         then explored acc computer (f32_mul rad rslack) roots else roots)
    \<and> (range_search_second_round stats \<longleftrightarrow> f32_as_usize (f32_mul (f32_of_nat l) islack) \<le> card roots)"
proof -
  note p = range_with_optionsD [OF assms(1)]
  have sp: "starting_l p = l" "rg_beam_width p = bw" "max_returned p = None" "radius p = rad" "initial_slack p = islack"
    "inner_radius p = inner" "range_slack p = rslack" by (simp_all add: p(1))
  let ?L = "l + length start_ids"
  have sc: "scratch_create \<lparr>l_value = l, ssp_max_degree = 0, num_frozen_pts = length start_ids\<rparr> = search_scratch_new (Fixed ?L)"
    by (simp add: scratch_create_def sp)
  have L: "0 < ?L" using p(2) by simp
  from npql.search_internal_spec [where J = "\<lambda>_ _. True" and r = "()" and a = a and computer = computer and rec = noop_record,
      OF scratch_new_fixed [OF L] assms(2,4,5) p(3)] assms(3)
  obtain stats s r' a' X where
    run: "search_internal acc computer npq_ops noop_record bw start_ids (search_scratch_new (Fixed ?L)) () a = Some (Inr (stats, s, r', a'))"
    and inv: "search_inv (npq_fixed ?L) npq_entries npq_cov acc computer V X s"
    and st: "stats = \<lparr>stat_cmps = cmps s, stat_hops = hops s, range_search_second_round = False\<rparr>"
    by (metis (no_types, lifting) prod.collapse)
  have "range_frontier (search_scratch_new (Fixed ?L) :: ('a, 'a npq) search_scratch) = []" by (simp add: search_scratch_new_def)
  from search_internal_frontier [OF run this] have fr: "range_frontier s = []" .
  define s1 where "s1 = range_start p s"
  note S = range_start_inv [OF inv fr s1_def]
  let ?roots = "nbr_id ` set (in_range s1)"
  have card: "card ?roots = length (in_range s1)" using distinct_card [OF S(3)] by simp
  have roots: "\<forall>i\<in>?roots. f32_le (dist_of acc computer i) rad" using S(2) sp(4) by (metis found_sel(2) imageE)
  show ?thesis
  proof (cases "enough_in_range p (length (in_range s1))")
    case False
    have "range_candidates p acc computer start_ids a = Some (Inr (stats, in_range s1))"
      using False by (simp add: range_candidates_def sc sp run Let_def s1_def)
    moreover have "\<not> f32_as_usize (f32_mul (f32_of_nat l) islack) \<le> card ?roots"
      using False by (simp add: enough_in_range_def sp card)
    moreover have "\<forall>n\<in>set (in_range s1). nbr_distance n = dist_of acc computer (nbr_id n)" using S(2) by (metis found_sel(2))
    ultimately show ?thesis using S(3) roots
      by (intro exI [of _ stats] exI [of _ "in_range s1"] exI [of _ ?roots]) (simp add: st)
  next
    case True
    from range_loop_spec [OF S(1) assms(2,3)] sp p(3) obtain s2 where
      loop: "range_loop p acc computer (s1\<lparr>range_frontier := range_frontier s1 @ map nbr_id (in_range s1)\<rparr>) = Some (Inr s2)"
      and inv2: "range_inv p acc computer V ?roots s2" and fr2: "range_frontier s2 = []" by auto
    have all: "nbr_id ` set (in_range s2) = explored acc computer (f32_mul rad rslack) ?roots"
      using range_inv_complete [OF inv2 fr2] by (simp add: sp)
    let ?st = "\<lparr>stat_cmps = stat_cmps stats, stat_hops = stat_hops stats + hops s2, range_search_second_round = True\<rparr>"
    have "range_candidates p acc computer start_ids a = Some (Inr (?st, in_range s2))"
      using True by (simp add: range_candidates_def sc sp run Let_def s1_def [symmetric] range_search_internal_def loop)
    moreover have "f32_as_usize (f32_mul (f32_of_nat l) islack) \<le> card ?roots"
      using True by (simp add: enough_in_range_def sp card)
    moreover have "\<forall>n\<in>set (in_range s2). nbr_distance n = dist_of acc computer (nbr_id n)"
      using range_invD(4) [OF inv2] by (metis found_sel(2))
    ultimately show ?thesis using range_invD(1) [OF inv2] roots all
      by (intro exI [of _ ?st] exI [of _ "in_range s2"] exI [of _ ?roots]) simp
  qed
qed

section \<open>Properties\<close>



text \<open>A k-NN search on a finite graph where no provider fails ends.  The output buffer receives, as long as it
  has room, distinct vertices with their distances in ascending order, none of which is not a number.  \<open>k\<close> is
  checked and then not used: the number of results is bounded by the buffer only.\<close>

theorem knn_search_correct:
  assumes "knn_new k l bw = Inr p" "graph_closed acc V" "graph_total acc V" "set start_ids \<subseteq> V" "distinct start_ids" "idd_inv b"
  shows "\<exists>stats b' cs. knn_search p acc computer start_ids a idd_extend b = Some (Inr (stats, b'))
    \<and> distinct cs \<and> sorted (map (dist_of acc computer) cs) \<and> (\<forall>i\<in>set cs. i \<in> V \<and> dist_of acc computer i \<noteq> NaN)
    \<and> length cs \<le> l + length start_ids
    \<and> idd_content b' = idd_content b @ take (idd_capacity b - idd_position b) (map (\<lambda>i. (i, dist_of acc computer i)) cs)"
proof -
  from assms(1) have p: "knn_l_value p = l" "0 < l" "Some (knn_beam_width p) \<noteq> Some 0"
    by (auto simp: knn_new_def split: if_splits option.splits)
  let ?L = "l + length start_ids"
  have L: "0 < ?L" using p(2) by simp
  have sc: "scratch_create \<lparr>l_value = l, ssp_max_degree = 0, num_frozen_pts = length start_ids\<rparr> = search_scratch_new (Fixed ?L)"
    by (simp add: scratch_create_def)
  from npql.search_internal_spec [where J = "\<lambda>_ _. True" and r = "()" and a = a and computer = computer and rec = noop_record,
      OF scratch_new_fixed [OF L] assms(2,4,5) p(3)] assms(3)
  obtain stats s r' a' X where
    run: "search_internal acc computer npq_ops noop_record (Some (knn_beam_width p)) start_ids (search_scratch_new (Fixed ?L)) () a
      = Some (Inr (stats, s, r', a'))"
    and inv: "search_inv (npq_fixed ?L) npq_entries npq_cov acc computer V X s"
    by (metis (no_types, lifting) prod.collapse)
  note I = inv [unfolded search_inv_def]
  let ?es = "npq_entries (best s)"
  have q: "npq_fixed ?L (best s)" and wf: "npq_wf (best s)" using I by (auto simp: npq_fixed_def npq_usable_def npq_inv_def)
  define es where "es = take ?L ?es"
  have sub: "set es \<subseteq> set ?es" by (simp add: es_def set_take_subset)
  have it: "npq_iter (best s) = map entry_nbr es" using npq_iter_entries [OF wf] q by (simp add: npq_fixed_def es_def)
  have d: "\<forall>e\<in>set es. fst e = dist_of acc computer (fst (snd e))" using I sub by blast
  have "(\<lambda>n. (nbr_id n, nbr_distance n)) (entry_nbr e) = (fst (snd e), dist_of acc computer (fst (snd e)))" if "e \<in> set es" for e
    using d that by (simp add: entry_nbr_def)
  then have pairs: "map (\<lambda>n. (nbr_id n, nbr_distance n)) (npq_iter (best s)) = map (\<lambda>i. (i, dist_of acc computer i)) (eids es)"
    by (simp add: it eids_def)
  obtain n b' where ext: "idd_extend b (map (\<lambda>i. (i, dist_of acc computer i)) (eids es)) = (n, b')" by fastforce
  have content: "idd_content b' = idd_content b @ take (idd_capacity b - idd_position b) (map (\<lambda>i. (i, dist_of acc computer i)) (eids es))"
    using idd.extend_law [OF assms(6) ext] by (simp add: idd_size_hint_def take_room_def)
  have "map (dist_of acc computer) (eids es) = map fst es" using d by (simp add: eids_def)
  then have "sorted (map (dist_of acc computer) (eids es))"
    using sorted_map_fst_entries [OF wf] by (simp add: es_def take_map [symmetric] sorted_wrt_take)
  moreover have "distinct (eids es)" using I by (simp add: es_def eids_def take_map [symmetric])
  moreover have "\<forall>i\<in>set (eids es). i \<in> V \<and> dist_of acc computer i \<noteq> NaN"
  proof
    fix i assume "i \<in> set (eids es)"
    then obtain e where e: "e \<in> set ?es" "i = fst (snd e)" "fst e = dist_of acc computer i" using sub d unfolding eids_def set_map by blast
    have "fst e \<in> set (distances (best s))" using e(1) map_fst_entries [OF wf] by (metis image_eqI list.set_map)
    moreover have "i \<in> V" using e(1,2) I by (auto simp: eids_def)
    ultimately show "i \<in> V \<and> dist_of acc computer i \<noteq> NaN" using npq_wfD(4) [OF wf] e(3) by metis
  qed
  moreover have "knn_search p acc computer start_ids a idd_extend b = Some (Inr (finish stats n, b'))"
    by (simp add: knn_search_def knn_candidates_def p(1) sc run copy_ids_def pairs ext)
  ultimately show ?thesis using content
    by (intro exI [of _ "finish stats n"] exI [of _ b'] exI [of _ "eids es"]) (simp add: es_def eids_def)
qed

text \<open>The slack widens the limit of the exploration only for a radius that is not negative: with the
  radius \<open>-1\<close> (an inner product, say) and the slack 2 the limit is \<open>-2\<close>, and no vertex at the radius is
  explored from.\<close>

theorem range_slack_negative_radius: "f32_lt (f32_mul (Fin (- f32_scale)) (Fin (2 * f32_scale))) (Fin (- f32_scale))"
  by code_simp

end
