(* ===== verification/Diverse_Spec.thy ===== *)
theory Diverse_Spec
  imports Neighbor_Queue
begin

text \<open>
  The specification of the diverse queue, on lists of distances with identifiers that are strictly sorted by distance: of
  all candidates, those are kept that have fewer than a bound of closer candidates with the same attribute, and of these the
  closest.  \<open>dins\<close> is the insertion of one candidate into such a selection; the main lemma says that it computes the selection
  of the longer list.
\<close>

type_synonym 'i cand = "f32 \<times> 'i"

abbreviation strictly :: "'i cand list \<Rightarrow> bool" where
  "strictly xs \<equiv> sorted_wrt (<) (map fst xs)"

definition same_attr :: "('i \<Rightarrow> 'a option) \<Rightarrow> 'i cand \<Rightarrow> 'i cand \<Rightarrow> bool" where
  "same_attr attr x y \<longleftrightarrow> attr (snd y) = attr (snd x)"

definition cand_rank :: "('i \<Rightarrow> 'a option) \<Rightarrow> 'i cand list \<Rightarrow> 'i cand \<Rightarrow> nat" where
  "cand_rank attr S x = length (filter (\<lambda>y. same_attr attr x y \<and> fst y < fst x) S)"

definition capped :: "('i \<Rightarrow> 'a option) \<Rightarrow> nat \<Rightarrow> 'i cand list \<Rightarrow> 'i cand list" where
  "capped attr m S = filter (\<lambda>x. cand_rank attr S x < m) S"

definition selected :: "('i \<Rightarrow> 'a option) \<Rightarrow> nat \<Rightarrow> nat \<Rightarrow> 'i cand list \<Rightarrow> 'i cand list" where
  "selected attr l m S = take l (capped attr m S)"

definition dins :: "('i \<Rightarrow> 'a option) \<Rightarrow> nat \<Rightarrow> nat \<Rightarrow> 'i cand \<Rightarrow> 'i cand list \<Rightarrow> 'i cand list" where
  "dins attr l m x G =
     (let L = filter (same_attr attr x) G in
      if length L < m \<and> length G < l then insort_key fst x G
      else if m \<le> length L then (if fst x < fst (last L) then insort_key fst x (filter (\<lambda>y. y \<noteq> last L) G) else G)
      else (if fst x < fst (last G) then insort_key fst x (butlast G) else G))"

section \<open>Strictly sorted lists\<close>

lemma strictlyD: "strictly xs \<Longrightarrow> sorted (map fst xs)" "strictly xs \<Longrightarrow> distinct xs" "strictly xs \<Longrightarrow> distinct (map fst xs)"
  by (auto simp: strict_sorted_iff distinct_map)

lemma strictly_filter: "strictly xs \<Longrightarrow> strictly (filter P xs)"
  by (induction xs) auto

lemma strictly_append: "strictly (xs @ ys) \<longleftrightarrow> strictly xs \<and> strictly ys \<and> (\<forall>x\<in>set xs. \<forall>y\<in>set ys. fst x < fst y)"
  by (auto simp: sorted_wrt_append)

lemma strictly_insort:
  assumes "strictly xs" "fst x \<notin> fst ` set xs"
  shows "strictly (insort_key fst x xs)"
proof -
  have "inj_on fst (insert x (set xs))" using strictlyD(3) [OF assms(1)] assms(2) by (auto simp: distinct_map inj_on_def image_iff)
  moreover have "distinct (insort_key fst x xs)" using assms strictlyD(2) [OF assms(1)] by (force simp: distinct_insort)
  ultimately show ?thesis unfolding strict_sorted_iff using strictlyD(1) [OF assms(1)]
    by (simp add: sorted_insort_key distinct_map set_insort_key)
qed

lemma strictly_unique:
  assumes "strictly xs" "strictly ys" "set xs = set ys"
  shows "xs = ys"
proof -
  have "sorted (map fst xs)" "sorted (map fst ys)" "distinct (map fst xs)" "distinct (map fst ys)" using assms strictlyD by blast+
  moreover have "set (map fst xs) = set (map fst ys)" using assms(3) by simp
  ultimately have eq: "map fst xs = map fst ys" by (metis sorted_distinct_set_unique)
  have "inj_on fst (set xs \<union> set ys)" using strictlyD(3) [OF assms(1)] assms(3) by (simp add: distinct_map)
  with eq show ?thesis using map_inj_on by blast
qed

lemma insort_append_right:
  assumes "\<forall>y\<in>set ys. fst x < fst y"
  shows "insort_key fst x (xs @ ys) = insort_key fst x xs @ (ys :: 'i cand list)"
  using assms by (induction xs) (cases ys; auto)+

lemma insort_append_left:
  assumes "\<forall>y\<in>set xs. fst y < fst x"
  shows "insort_key fst x (xs @ ys) = xs @ insort_key fst x (ys :: 'i cand list)"
  using assms by (induction xs) auto

text \<open>The position of an element is the number of smaller ones.\<close>

lemma filter_rank_take:
  assumes "strictly xs"
  shows "filter (\<lambda>x. length (filter (\<lambda>y. fst y < fst x) xs) < n) xs = take n xs"
proof (cases "n \<le> length xs")
  case True
  let ?P = "\<lambda>x. length (filter (\<lambda>y. fst y < fst x) xs) < n"
  have split: "xs = take n xs @ drop n xs" by simp
  have s: "strictly (take n xs @ drop n xs)" using assms by simp
  have "?P x" if x: "x \<in> set (take n xs)" for x
  proof -
    have "\<not> fst y < fst x" if "y \<in> set (drop n xs)" for y using s x that unfolding strictly_append by (meson less_asym)
    then have "filter (\<lambda>y. fst y < fst x) (drop n xs) = []" by (simp add: filter_empty_conv)
    then have "filter (\<lambda>y. fst y < fst x) xs = filter (\<lambda>y. fst y < fst x) (take n xs)"
      by (subst split) (simp only: filter_append append_Nil2)
    moreover have "length (filter (\<lambda>y. fst y < fst x) (take n xs)) < length (take n xs)"
      using x by (intro length_filter_less [of x]) auto
    ultimately show ?thesis using True by simp
  qed
  moreover have "\<not> ?P x" if x: "x \<in> set (drop n xs)" for x
  proof -
    have "filter (\<lambda>y. fst y < fst x) (take n xs) = take n xs" using s x unfolding strictly_append filter_id_conv by blast
    then have "length (filter (\<lambda>y. fst y < fst x) xs) = n + length (filter (\<lambda>y. fst y < fst x) (drop n xs))"
      using True by (subst split) (simp only: filter_append length_append length_take min_absorb2)
    then show ?thesis by simp
  qed
  ultimately have "filter ?P (take n xs) = take n xs" "filter ?P (drop n xs) = []" by (simp_all add: filter_id_conv filter_empty_conv)
  then show ?thesis by (metis (no_types, lifting) append_Nil2 filter_append split)
next
  case False
  have "length (filter (\<lambda>y. fst y < fst x) xs) < n" for x using False length_filter_le [of "\<lambda>y. fst y < fst x" xs] by linarith
  then have "filter (\<lambda>x. length (filter (\<lambda>y. fst y < fst x) xs) < n) xs = xs" by (intro filter_True) blast
  then show ?thesis using False by simp
qed

lemma capped_attr:
  assumes "strictly S"
  shows "filter (same_attr attr x) (capped attr m S) = take m (filter (same_attr attr x) S)"
proof -
  let ?F = "filter (same_attr attr x) S"
  have "filter (same_attr attr x) (capped attr m S) = filter (\<lambda>y. cand_rank attr S y < m) ?F"
    by (simp add: capped_def conj_commute)
  also have "\<dots> = filter (\<lambda>y. length (filter (\<lambda>z. fst z < fst y) ?F) < m) ?F"
    by (intro filter_cong) (auto simp: cand_rank_def same_attr_def conj_commute)
  also have "\<dots> = take m ?F" by (rule filter_rank_take [OF strictly_filter [OF assms]])
  finally show ?thesis .
qed

section \<open>Insertion of one candidate\<close>

lemma capped_strictly: "strictly S \<Longrightarrow> strictly (capped attr m S)"
  by (simp add: capped_def strictly_filter)

lemma cand_rank_insort:
  "cand_rank attr (insort_key fst x S) y = cand_rank attr S y + (if same_attr attr y x \<and> fst x < fst y then 1 else 0)"
proof -
  have "length (filter P (insort_key fst x S)) = length (filter P S) + (if P x then 1 else 0)" for P :: "'a cand \<Rightarrow> bool"
    by (induction S) auto
  then show ?thesis by (simp add: cand_rank_def)
qed

lemma same_attr_sym: "same_attr attr x y \<longleftrightarrow> same_attr attr y x"
  by (auto simp: same_attr_def)

text \<open>Candidates of one attribute: what is closer than an element has a smaller rank.\<close>

lemma cand_rank_less:
  assumes "same_attr attr x y" "y \<in> set S" "fst y < fst x"
  shows "cand_rank attr S y < cand_rank attr S x"
proof -
  have "filter (\<lambda>z. same_attr attr y z \<and> fst z < fst y) S
      = filter (\<lambda>z. same_attr attr y z \<and> fst z < fst y) (filter (\<lambda>z. same_attr attr x z \<and> fst z < fst x) S)"
    using assms(1,3) by (auto simp: same_attr_def intro!: filter_cong)
  moreover have "length (filter (\<lambda>z. same_attr attr y z \<and> fst z < fst y) (filter (\<lambda>z. same_attr attr x z \<and> fst z < fst x) S))
      < length (filter (\<lambda>z. same_attr attr x z \<and> fst z < fst x) S)"
    using assms by (intro length_filter_less [of y]) auto
  ultimately show ?thesis by (simp only: cand_rank_def)
qed

text \<open>The candidate that is displaced by a new one: the worst of its attribute, when there are \<open>m\<close>.\<close>

lemma rank_last_aux:
  assumes "strictly S" "length (filter (same_attr attr x) (capped attr m S)) = m" "0 < m"
  shows "cand_rank attr S (last (filter (same_attr attr x) (capped attr m S))) = m - 1"
proof -
  let ?F = "filter (same_attr attr x) S" let ?w = "last (take m ?F)"
  have F: "filter (same_attr attr x) (capped attr m S) = take m ?F" by (rule capped_attr [OF assms(1)])
  have len: "m \<le> length ?F" using assms(2) unfolding F by simp
  have w: "?w = ?F ! (m - 1)" using len assms(3) by (cases m) (auto simp: take_Suc_conv_app_nth)
  have s: "strictly ?F" by (rule strictly_filter [OF assms(1)])
  have ws: "same_attr attr x ?w" using len assms(3) nth_mem [of "m - 1" ?F] unfolding w by auto
  have "cand_rank attr S ?w = length (filter (\<lambda>z. fst z < fst ?w) ?F)"
    using ws by (auto simp: cand_rank_def same_attr_def conj_commute intro!: arg_cong [where f = length] filter_cong)
  also have "filter (\<lambda>z. fst z < fst ?w) ?F = take (m - 1) ?F"
  proof -
    have split: "?F = take (m - 1) ?F @ drop (m - 1) ?F" by simp
    have d: "drop (m - 1) ?F = ?w # drop m ?F" using len assms(3) w by (metis Cons_nth_drop_Suc Suc_diff_1 Suc_le_lessD)
    have st: "strictly (take (m - 1) ?F @ ?w # drop m ?F)" using s split d by metis
    then have "filter (\<lambda>z. fst z < fst ?w) (take (m - 1) ?F) = take (m - 1) ?F"
      unfolding strictly_append by (auto simp: filter_id_conv)
    moreover have "\<not> fst z < fst ?w" if "z \<in> set (?w # drop m ?F)" for z using st that unfolding strictly_append by auto
    then have "filter (\<lambda>z. fst z < fst ?w) (?w # drop m ?F) = []" unfolding filter_empty_conv by blast
    ultimately show ?thesis using split d by (metis (no_types, lifting) append_Nil2 filter_append)
  qed
  also have "length \<dots> = m - 1" using len assms(3) by simp
  finally show ?thesis unfolding F .
qed

lemma rank_last:
  assumes "strictly S" "FC = filter (same_attr attr x) (capped attr m S)" "length FC = m" "0 < m"
  shows "cand_rank attr S (last FC) = m - 1" "last FC \<in> set S" "same_attr attr x (last FC)"
proof -
  have "last FC \<in> set FC" using assms(3,4) by (intro last_in_set) auto
  then show "last FC \<in> set S" "same_attr attr x (last FC)" by (auto simp: assms(2) capped_def)
qed (use assms rank_last_aux in blast)

lemma rank_top:
  assumes "strictly S" "FC = filter (same_attr attr x) (capped attr m S)" "0 < m"
    "y \<in> set S" "same_attr attr y x" "cand_rank attr S y = m - 1"
  shows "length FC = m \<and> y = last FC"
proof -
  have yF: "y \<in> set FC" using assms(3-6) by (simp add: assms(2) capped_def same_attr_sym [of attr x])
  have "cand_rank attr S z < m" if "z \<in> set S" "same_attr attr y z" "fst z < fst y" for z
    using cand_rank_less [OF that(2,1,3)] assms(3,6) by linarith
  then have "filter (\<lambda>z. same_attr attr y z \<and> fst z < fst y) S = filter (\<lambda>z. fst z < fst y) FC"
    unfolding assms(2) capped_def filter_filter using assms(5) by (intro filter_cong) (auto simp: same_attr_def)
  then have "cand_rank attr S y = length (filter (\<lambda>z. fst z < fst y) FC)" by (simp add: cand_rank_def)
  moreover have "length (filter (\<lambda>z. fst z < fst y) FC) < length FC" using yF by (intro length_filter_less [of y]) auto
  moreover have "length FC \<le> m" unfolding assms(2) capped_attr [OF assms(1)] by simp
  ultimately have len: "length FC = m" using assms(3,6) by linarith
  note w = rank_last [OF assms(1,2) len assms(3)]
  have sy: "same_attr attr (last FC) y" "same_attr attr y (last FC)" using assms(5) w(3) by (auto simp: same_attr_def)
  have "\<not> fst y < fst (last FC)" "\<not> fst (last FC) < fst y"
    using cand_rank_less [OF sy(1) assms(4)] cand_rank_less [OF sy(2) w(2)] assms(6) w(1) by auto
  then have "fst y = fst (last FC)" by (meson linorder_less_linear)
  moreover have "inj_on fst (set S)" using strictlyD(3) [OF assms(1)] by (simp add: distinct_map)
  ultimately show ?thesis using assms(4) w(2) len by (meson inj_onD)
qed

text \<open>The cap of the longer list.\<close>

lemma capped_insort_far:
  assumes "strictly S" "fst x \<notin> fst ` set S" "m \<le> cand_rank attr S x"
  shows "capped attr m (insort_key fst x S) = capped attr m S"
proof (rule strictly_unique)
  show "strictly (capped attr m (insort_key fst x S))" "strictly (capped attr m S)"
    using assms(1,2) by (simp_all add: capped_strictly strictly_insort)
  have le: "cand_rank attr S x \<le> cand_rank attr S y" if "same_attr attr y x" "fst x < fst y" for y
  proof -
    have "filter (\<lambda>z. same_attr attr x z \<and> fst z < fst x) S
        = filter (\<lambda>z. same_attr attr x z \<and> fst z < fst x) (filter (\<lambda>z. same_attr attr y z \<and> fst z < fst y) S)"
      using that by (auto simp: same_attr_def intro!: filter_cong)
    then show ?thesis unfolding cand_rank_def using length_filter_le by (rule ssubst)
  qed
  have far: "m \<le> cand_rank attr S y" if "same_attr attr y x" "fst x < fst y" for y
    by (rule le_trans [OF assms(3) le [OF that]])
  have xS: "x \<notin> set S" using assms(2) by blast
  have "y \<in> set (capped attr m (insort_key fst x S)) \<longleftrightarrow> y \<in> set (capped attr m S)" for y
  proof (cases "same_attr attr y x \<and> fst x < fst y")
    case True
    then have "m \<le> cand_rank attr S y" using far by blast
    then show ?thesis by (simp add: capped_def cand_rank_insort)
  next
    case False
    then show ?thesis using assms(3) xS by (auto simp: capped_def cand_rank_insort set_insort_key)
  qed
  then show "set (capped attr m (insort_key fst x S)) = set (capped attr m S)" by blast
qed

lemma capped_insort_near:
  assumes "strictly S" "fst x \<notin> fst ` set S" "cand_rank attr S x < m" "FC = filter (same_attr attr x) (capped attr m S)"
  shows "capped attr m (insort_key fst x S)
    = insort_key fst x (filter (\<lambda>y. \<not> (length FC = m \<and> y = last FC)) (capped attr m S))" (is "?l = insort_key fst x ?r")
proof (rule strictly_unique)
  have m: "0 < m" using assms(3) by simp
  show "strictly ?l" using assms(1,2) by (simp add: capped_strictly strictly_insort)
  have "fst x \<notin> fst ` set ?r" using assms(2) by (auto simp: capped_def)
  then show "strictly (insort_key fst x ?r)" using assms(1) by (simp add: capped_strictly strictly_insort strictly_filter)
  have "y \<in> set ?l \<longleftrightarrow> y \<in> set (insort_key fst x ?r)" for y
  proof (cases "y = x \<or> y \<notin> set S \<or> m \<le> cand_rank attr S y")
    case True
    then show ?thesis using assms(3) by (auto simp: capped_def cand_rank_insort set_insort_key)
  next
    case False
    then have y: "y \<noteq> x" "y \<in> set S" "cand_rank attr S y < m" by auto
    have "Suc (cand_rank attr S y) = m \<and> same_attr attr y x \<and> fst x < fst y \<longleftrightarrow> length FC = m \<and> y = last FC"
    proof (intro iffI)
      assume "Suc (cand_rank attr S y) = m \<and> same_attr attr y x \<and> fst x < fst y"
      then show "length FC = m \<and> y = last FC" using rank_top [OF assms(1,4) m y(2)] by auto
    next
      assume yw: "length FC = m \<and> y = last FC"
      note w = rank_last [OF assms(1,4) conjunct1 [OF yw] m]
      have "fst x \<noteq> fst y" "\<not> fst y < fst x" using assms(2) y(2) cand_rank_less [OF w(3,2)] w(1) assms(3) yw by auto
      then show "Suc (cand_rank attr S y) = m \<and> same_attr attr y x \<and> fst x < fst y"
        using w m yw by (auto simp: same_attr_def)
    qed
    then show ?thesis using y by (auto simp: capped_def cand_rank_insort set_insort_key)
  qed
  then show "set ?l = set (insort_key fst x ?r)" by blast
qed

lemma take_insort:
  assumes "strictly (G @ R)" "G \<noteq> []" "fst x \<noteq> fst (last G)"
  shows "take (length G) (insort_key fst x (G @ R)) = (if fst x < fst (last G) then insort_key fst x (butlast G) else G)"
proof (cases "fst x < fst (last G)")
  case True
  have G: "G = butlast G @ [last G]" using assms(2) by simp
  have "\<forall>y\<in>set R. fst (last G) < fst y" using assms(1,2) unfolding strictly_append by simp
  then have far: "\<forall>y\<in>set (last G # R). fst x < fst y" using True by auto
  have "insort_key fst x (G @ R) = insort_key fst x (butlast G @ (last G # R))" using G by (metis append.assoc append_Cons append_Nil)
  also have "\<dots> = insort_key fst x (butlast G) @ last G # R" by (rule insort_append_right [OF far])
  finally have "take (length G) (insort_key fst x (G @ R)) = take (length G) (insort_key fst x (butlast G) @ last G # R)" by simp
  moreover have "length (insort_key fst x (butlast G)) = length G" using assms(2) by simp
  ultimately show ?thesis using True by simp
next
  case False
  then have lt: "fst (last G) < fst x" using assms(3) by (meson linorder_less_linear)
  have "strictly (butlast G @ [last G])" unfolding append_butlast_last_id [OF assms(2)]
    using assms(1) unfolding strictly_append by blast
  then have "\<forall>y\<in>set (butlast G). fst y < fst (last G)" unfolding strictly_append by simp
  then have "\<forall>y\<in>set (butlast G @ [last G]). fst y < fst x" using lt by (metis (no_types) Un_iff less_trans list.set_intros(1) set_append set_ConsD list.set(1) empty_iff)
  then have "\<forall>y\<in>set G. fst y < fst x" using assms(2) by simp
  from insort_append_left [OF this, of R] show ?thesis using False by simp
qed

text \<open>When the local part of the selection is below the cap, a candidate of the attribute that is within the cap but outside
  the selection is beyond all that is selected.\<close>

lemma selected_parts:
  assumes "strictly S"
  obtains R where "capped attr m S = selected attr l m S @ R" "strictly (selected attr l m S @ R)"
    "R \<noteq> [] \<longrightarrow> length (selected attr l m S) = l"
    "length (filter (same_attr attr x) (selected attr l m S)) + length (filter (same_attr attr x) R) \<le> m"
proof -
  have C: "capped attr m S = selected attr l m S @ drop l (capped attr m S)" by (simp add: selected_def)
  have "length (filter (same_attr attr x) (capped attr m S)) \<le> m" unfolding capped_attr [OF assms] by simp
  then have "length (filter (same_attr attr x) (selected attr l m S)) + length (filter (same_attr attr x) (drop l (capped attr m S))) \<le> m"
    by (metis C filter_append length_append)
  moreover have "strictly (selected attr l m S @ drop l (capped attr m S))" using capped_strictly [OF assms, of attr m] C by simp
  moreover have "drop l (capped attr m S) \<noteq> [] \<longrightarrow> length (selected attr l m S) = l" by (auto simp: selected_def)
  ultimately show ?thesis using that C by blast
qed

lemma dins_far:
  assumes "strictly S" "fst x \<notin> fst ` set S" "m \<le> cand_rank attr S x" "0 < l" "0 < m"
  shows "dins attr l m x (selected attr l m S) = selected attr l m S"
proof -
  let ?G = "selected attr l m S"
  obtain R where R: "capped attr m S = ?G @ R" "strictly (?G @ R)" "R \<noteq> [] \<longrightarrow> length ?G = l"
    "length (filter (same_attr attr x) ?G) + length (filter (same_attr attr x) R) \<le> m"
    using selected_parts [OF assms(1)] by metis
  let ?FC = "filter (same_attr attr x) (capped attr m S)"
  let ?near = "filter (\<lambda>z. fst z < fst x) (filter (same_attr attr x) S)"
  have "filter (same_attr attr x) S = ?near @ filter (\<lambda>z. \<not> fst z < fst x) (filter (same_attr attr x) S)"
  proof (rule strictly_unique)
    show "strictly (filter (same_attr attr x) S)" by (rule strictly_filter [OF assms(1)])
    show "strictly (?near @ filter (\<lambda>z. \<not> fst z < fst x) (filter (same_attr attr x) S))"
      unfolding strictly_append using assms(1) by (auto simp: strictly_filter intro: less_le_trans)
  qed auto
  moreover have "length ?near = cand_rank attr S x" by (simp add: cand_rank_def conj_commute)
  ultimately have FC: "?FC = take m ?near" unfolding capped_attr [OF assms(1)] using assms(3) by (metis append_Nil2 diff_is_0_eq take0 take_append)
  have len: "length ?FC = m" unfolding FC using assms(3) \<open>length ?near = _\<close> by simp
  have close: "fst y < fst x" if "y \<in> set ?FC" for y using that unfolding FC by (auto dest!: in_set_takeD)
  show ?thesis
  proof (cases "m \<le> length (filter (same_attr attr x) ?G)")
    case True
    then have "last (filter (same_attr attr x) ?G) \<in> set (filter (same_attr attr x) ?G)" using assms(5) by (intro last_in_set) auto
    then have "fst (last (filter (same_attr attr x) ?G)) < fst x" using close R(1) by simp
    then show ?thesis using True by (auto simp: dins_def Let_def)
  next
    case False
    then have "filter (same_attr attr x) R \<noteq> []" using len R(1) by auto
    then obtain y where y: "y \<in> set R" "same_attr attr x y" by (auto simp: filter_empty_conv)
    then have "R \<noteq> []" by auto
    then have l: "length ?G = l" "?G \<noteq> []" using R(3) assms(4) by auto
    then have "fst (last ?G) < fst y" using R(2) y(1) unfolding strictly_append by simp
    also have "fst y < fst x" using close y R(1) by simp
    finally show ?thesis using False l by (auto simp: dins_def Let_def)
  qed
qed

lemma dins_near:
  assumes "strictly S" "fst x \<notin> fst ` set S" "cand_rank attr S x < m" "0 < l"
  shows "dins attr l m x (selected attr l m S) = selected attr l m (insort_key fst x S)"
proof -
  define G where "G = selected attr l m S"
  define L where "L = filter (same_attr attr x) G"
  define FC where "FC = filter (same_attr attr x) (capped attr m S)"
  obtain R where R: "capped attr m S = G @ R" "strictly (G @ R)" "R \<noteq> [] \<longrightarrow> length G = l"
    "length L + length (filter (same_attr attr x) R) \<le> m"
    using selected_parts [OF assms(1)] unfolding G_def L_def by metis
  have m: "0 < m" using assms(3) by simp
  have xC: "fst x \<notin> fst ` set (G @ R)" using assms(2) unfolding R(1) [symmetric] by (auto simp: capped_def)
  have lG: "length G \<le> l" by (simp add: G_def selected_def)
  have FC: "FC = L @ filter (same_attr attr x) R" by (simp add: FC_def R(1) L_def)
  have C': "capped attr m (insort_key fst x S) = insort_key fst x (filter (\<lambda>y. \<not> (length FC = m \<and> y = last FC)) (G @ R))"
    using capped_insort_near [OF assms(1-3) FC_def] unfolding R(1) .
  have d: "distinct (G @ R)" using strictlyD(2) [OF R(2)] .
  show ?thesis unfolding G_def [symmetric]
  proof (cases "m \<le> length L")
    case True
    then have "length L = m" "length (filter (same_attr attr x) R) = 0" using R(4) by linarith+
    then have L: "length L = m" "filter (same_attr attr x) R = []" by auto
    have w: "FC = L" "length FC = m" using L by (simp_all add: FC)
    note wl = rank_last [OF assms(1) FC_def w(2) m]
    have wG: "last L \<in> set G" using L m last_in_set [of L] by (fastforce simp: L_def)
    then have wR: "last L \<notin> set R" using d by auto
    have "fst x \<noteq> fst (last L)" using xC wG by auto
    moreover have "\<not> fst (last L) < fst x" using cand_rank_less [OF wl(3,2)] wl(1) assms(3) w(1) by auto
    ultimately have near: "fst x < fst (last L)" by (meson linorder_less_linear)
    moreover have "fst (last L) < fst y" if "y \<in> set R" for y using R(2) wG that unfolding strictly_append by blast
    ultimately have far: "\<forall>y\<in>set R. fst x < fst y" by (meson less_trans)
    let ?H = "filter (\<lambda>y. y \<noteq> last L) G"
    have "filter (\<lambda>y. \<not> (length FC = m \<and> y = last FC)) (G @ R) = ?H @ R" using w wR by (auto simp: filter_id_conv)
    then have "selected attr l m (insort_key fst x S) = take l (insort_key fst x ?H @ R)"
      by (simp only: selected_def C' insort_append_right [OF far])
    moreover have "length (insort_key fst x ?H) = length G"
      using distinct_remove1_removeAll [of G "last L"] d wG length_remove1 [of "last L" G] length_pos_if_in_set [OF wG]
      by (auto simp: removeAll_filter_not_eq eq_commute [of "last L"])
    ultimately have "selected attr l m (insort_key fst x S) = insort_key fst x ?H" using R(3) lG by (cases "R = []") auto
    then show "dins attr l m x G = selected attr l m (insort_key fst x S)" using True near
      by (simp add: dins_def Let_def L_def [symmetric])
  next
    case False
    let ?R = "filter (\<lambda>y. \<not> (length FC = m \<and> y = last FC)) R"
    have "last FC \<notin> set G" if "length FC = m"
    proof -
      have "filter (same_attr attr x) R \<noteq> []" using that False FC by auto
      then have "last FC \<in> set (filter (same_attr attr x) R)" unfolding FC using last_in_set [of "filter (same_attr attr x) R"] by simp
      then show ?thesis using d by auto
    qed
    then have "filter (\<lambda>y. \<not> (length FC = m \<and> y = last FC)) (G @ R) = G @ ?R" by (auto simp: filter_id_conv)
    then have sel: "selected attr l m (insort_key fst x S) = take l (insort_key fst x (G @ ?R))" by (simp only: selected_def C')
    show "dins attr l m x G = selected attr l m (insort_key fst x S)"
    proof (cases "length G < l")
      case True
      then have "R = []" using R(3) by auto
      then show ?thesis using True False unfolding sel by (simp add: dins_def Let_def L_def [symmetric])
    next
      case full: False
      then have l: "length G = l" "G \<noteq> []" using lG assms(4) by auto
      have "strictly (G @ ?R)" using R(2) by (simp only: strictly_append strictly_filter) (auto simp: strictly_filter)
      moreover have "fst x \<noteq> fst (last G)" using xC l(2) by auto
      ultimately have "take l (insort_key fst x (G @ ?R)) = (if fst x < fst (last G) then insort_key fst x (butlast G) else G)"
        using take_insort [of G ?R x] l by simp
      then show ?thesis using l(2) full False unfolding sel
        by (simp add: dins_def Let_def L_def [symmetric])
    qed
  qed
qed

theorem dins_selected:
  assumes "strictly S" "fst x \<notin> fst ` set S" "0 < l" "0 < m"
  shows "dins attr l m x (selected attr l m S) = selected attr l m (insort_key fst x S)"
proof (cases "cand_rank attr S x < m")
  case False
  then have "m \<le> cand_rank attr S x" by simp
  from dins_far [OF assms(1,2) this assms(3,4)] capped_insort_far [OF assms(1,2) this] show ?thesis by (simp add: selected_def)
qed (use dins_near assms in blast)

end
