(* ===== verification/Diverse_Queue.thy ===== *)
theory Diverse_Queue
  imports Diverse_Spec Graph_Search "HOL-Library.AList"
begin

text \<open>
  \<open>diskann/src/neighbor/diverse_priority_queue.rs\<close>: a queue that bounds, besides the number of all candidates, the
  number of candidates with the same attribute.  A global queue holds all candidates, and for each attribute a
  local queue holds those with it.

  The map from attributes to local queues is an association list without duplicate keys; the only
  iteration over it, in \<open>post_process\<close>, gives the same result in every order.  The attribute provider is a function that
  does not change.
\<close>

section \<open>Operations\<close>

record ('i, 'a) vector_id_with_attribute =
  va_id :: 'i
  va_attribute :: 'a

definition va_new :: "'i \<Rightarrow> 'a \<Rightarrow> ('i, 'a) vector_id_with_attribute" where
  "va_new i a = \<lparr>va_id = i, va_attribute = a\<rparr>"

record ('i, 'a) diverse_queue =
  global_queue :: "('i, 'a) vector_id_with_attribute npq"
  local_queue_map :: "('a \<times> 'i npq) list"
  attribute_provider :: "'i \<Rightarrow> 'a option"
  diverse_results_l :: nat
  diverse_results_k :: nat

definition dq_new :: "nat \<Rightarrow> nat \<Rightarrow> nat \<Rightarrow> ('i \<Rightarrow> 'a option) \<Rightarrow> ('i, 'a) diverse_queue" where
  "dq_new l k dk provider = \<lparr>global_queue = npq_new l, local_queue_map = [], attribute_provider = provider,
     diverse_results_l = dk * l div k, diverse_results_k = dk\<rparr>"

definition removed_items :: "nat \<Rightarrow> ('a \<times> 'i npq) list \<Rightarrow> 'i set" where
  "removed_items dk m = (\<Union>(a, lq) \<in> set m. if dk < npq_size lq then nbr_id ` set (drop dk (npq_iter lq)) else {})"

definition post_process :: "('i, 'a) diverse_queue \<Rightarrow> ('i, 'a) diverse_queue" where
  "post_process q =
     (let dk = diverse_results_k q;
          removed = removed_items dk (local_queue_map q);
          q1 = q\<lparr>local_queue_map := map (\<lambda>(a, lq). (a, if dk < npq_size lq then npq_truncate lq dk else lq)) (local_queue_map q)\<rparr>
      in if removed = {} then q1
         else q1\<lparr>global_queue := npq_retain (\<lambda>n. va_id (nbr_id n) \<notin> removed) (global_queue q1)\<rparr>)"

text \<open>The local queue of an attribute, a new one when there is none (\<open>or_insert_with\<close>).\<close>

definition local_queue :: "('i, 'a) diverse_queue \<Rightarrow> 'a \<Rightarrow> 'i npq" where
  "local_queue q a = (case map_of (local_queue_map q) a of Some lq \<Rightarrow> lq | None \<Rightarrow> npq_new (diverse_results_l q))"

definition dq_insert :: "('i, 'a) diverse_queue \<Rightarrow> 'i neighbor \<Rightarrow> fault + ('i, 'a) diverse_queue" where
  "dq_insert q nbr =
     (case attribute_provider q (nbr_id nbr) of
        None \<Rightarrow> Inr q
      | Some a \<Rightarrow>
          (let lq = local_queue q a;
               q0 = q\<lparr>local_queue_map := AList.update a lq (local_queue_map q)\<rparr>;
               g = global_queue q;
               nbr_a = neighbor_new (va_new (nbr_id nbr) a) (nbr_distance nbr)
           in if \<not> is_full lq \<and> \<not> is_full g then
                rbind (npq_insert lq nbr) (\<lambda>lq1.
                rbind (npq_insert g nbr_a) (\<lambda>g1.
                Inr (q0\<lparr>local_queue_map := AList.update a lq1 (local_queue_map q0), global_queue := g1\<rparr>)))
              else if is_full lq then
                (if diverse_results_l q = 0 then Inl OverflowFault
                 else rbind (npq_get lq (diverse_results_l q - 1)) (\<lambda>worst.
                   if f32_lt (nbr_distance nbr) (nbr_distance worst) then
                     let g0 = snd (npq_remove g (neighbor_new (va_new (nbr_id worst) a) (nbr_distance worst))) in
                     rbind (npq_insert lq nbr) (\<lambda>lq1.
                     rbind (npq_insert g0 nbr_a) (\<lambda>g1.
                     Inr (q0\<lparr>local_queue_map := AList.update a lq1 (local_queue_map q0), global_queue := g1\<rparr>)))
                   else Inr q0))
              else
                (if search_param_l g = 0 then Inl OverflowFault
                 else rbind (npq_get g (search_param_l g - 1)) (\<lambda>worst.
                   if f32_lt (nbr_distance nbr) (nbr_distance worst) then
                     rbind (npq_insert lq nbr) (\<lambda>lq1.
                     rbind (npq_insert g nbr_a) (\<lambda>g1.
                     let m1 = AList.update a lq1 (local_queue_map q0);
                         aw = va_attribute (nbr_id worst);
                         m2 = (case map_of m1 aw of
                                 None \<Rightarrow> m1
                               | Some lw \<Rightarrow> AList.update aw
                                   (snd (npq_remove lw (neighbor_new (va_id (nbr_id worst)) (nbr_distance worst)))) m1)
                     in Inr (q0\<lparr>local_queue_map := m2, global_queue := g1\<rparr>)))
                   else Inr q0))))"

definition without_attribute :: "('i, 'a) vector_id_with_attribute neighbor \<Rightarrow> 'i neighbor" where
  "without_attribute n = neighbor_new (va_id (nbr_id n)) (nbr_distance n)"

definition dq_get :: "('i, 'a) diverse_queue \<Rightarrow> nat \<Rightarrow> fault + 'i neighbor" where
  "dq_get q index = rbind (npq_get (global_queue q) index) (\<lambda>n. Inr (without_attribute n))"

definition dq_closest_notvisited :: "('i, 'a) diverse_queue \<Rightarrow> fault + ('i neighbor option \<times> ('i, 'a) diverse_queue)" where
  "dq_closest_notvisited q =
     rbind (closest_notvisited (global_queue q)) (\<lambda>(c, g). Inr (map_option without_attribute c, q\<lparr>global_queue := g\<rparr>))"

definition dq_has_notvisited_node :: "('i, 'a) diverse_queue \<Rightarrow> bool" where
  "dq_has_notvisited_node q = has_notvisited_node (global_queue q)"

definition dq_clear :: "('i, 'a) diverse_queue \<Rightarrow> ('i, 'a) diverse_queue" where
  "dq_clear q = q\<lparr>global_queue := npq_clear (global_queue q), local_queue_map := []\<rparr>"

text \<open>\<open>BestCandidatesIterator\<close> reads \<open>min search_l size\<close> items with \<open>get\<close>; none of these reads is out of bounds.\<close>

definition dq_iter :: "('i, 'a) diverse_queue \<Rightarrow> 'i neighbor list" where
  "dq_iter q = map (\<lambda>i. without_attribute (get_unchecked (global_queue q) i))
     [0..<min (search_param_l (global_queue q)) (npq_size (global_queue q))]"

definition dq_ops :: "('i, ('i, 'a) diverse_queue) nq_ops" where
  "dq_ops = \<lparr>nq_insert = dq_insert, nq_get = dq_get, nq_closest_notvisited = dq_closest_notvisited,
     nq_has_notvisited_node = dq_has_notvisited_node, nq_size = (\<lambda>q. npq_size (global_queue q)),
     nq_capacity = (\<lambda>q. npq_capacity (global_queue q)), nq_search_l = (\<lambda>q. search_param_l (global_queue q)),
     nq_clear = dq_clear, nq_iter = dq_iter\<rparr>"

lemma dq_ops_simps [simp]:
  "nq_insert dq_ops = dq_insert" "nq_closest_notvisited dq_ops = dq_closest_notvisited"
  "nq_has_notvisited_node dq_ops = dq_has_notvisited_node" "nq_iter dq_ops = dq_iter"
  by (simp_all add: dq_ops_def)

section \<open>A removal followed by the insertion of something closer\<close>

text \<open>A removal at the cursor leaves the cursor in front of the entries that follow, visited or not.  The insertion of something
  closer puts the cursor right again.\<close>

lemma first_index_remove_at:
  assumes "i < length xs"
  shows "i < first_index P xs \<Longrightarrow> first_index P (remove_at i xs) = first_index P xs - 1"
    "first_index P xs < i \<Longrightarrow> first_index P (remove_at i xs) = first_index P xs"
    "first_index P xs = i \<Longrightarrow> i \<le> first_index P (remove_at i xs)"
proof -
  have xs: "xs = take i xs @ xs ! i # drop (Suc i) xs" using assms by (simp add: id_take_nth_drop [symmetric])
  have len: "length (take i xs) = i" using assms by simp
  have fi: "first_index P xs = (if \<exists>x\<in>set (take i xs). P x then first_index P (take i xs)
      else i + first_index P (xs ! i # drop (Suc i) xs))"
    using first_index_append [of P "take i xs" "xs ! i # drop (Suc i) xs"] unfolding xs [symmetric] len .
  have fr: "first_index P (remove_at i xs) = (if \<exists>x\<in>set (take i xs). P x then first_index P (take i xs)
      else i + first_index P (drop (Suc i) xs))"
    using first_index_append [of P "take i xs" "drop (Suc i) xs"] unfolding len by (simp add: remove_at_def)
  have lt: "first_index P (take i xs) < i" if "\<exists>x\<in>set (take i xs). P x"
    using that first_index_lt_iff [of P "take i xs"] len by simp
  show "i < first_index P xs \<Longrightarrow> first_index P (remove_at i xs) = first_index P xs - 1"
    "first_index P xs < i \<Longrightarrow> first_index P (remove_at i xs) = first_index P xs"
    "first_index P xs = i \<Longrightarrow> i \<le> first_index P (remove_at i xs)"
    using fi fr lt by (auto split: if_splits)
qed

lemma npq_insert_room_cursor:
  assumes "npq_wf q" "nbr_distance n \<noteq> NaN" "npq_size q < npq_capacity q" "npq_insert q n = Inr q'"
  defines "i \<equiv> first_index (\<lambda>x. nbr_distance n \<le> x) (distances q)"
  shows "npq_cursor q' = min i (npq_cursor q)"
    "first_index unvisited (id_visiteds q') = min i (first_index unvisited (id_visiteds q))"
proof -
  note w = npq_wfD [OF assms(1)]
  have i: "(if 0 < npq_size q then get_lower_bound q n else 0) = i"
    using lower_bound_distances [OF assms(1,2)] w(2) by (auto simp: i_def)
  have "npq_insert q n = insert_tail q n" using assms(2,3) by (simp add: npq_insert_def is_nan_def)
  then have t: "insert_tail q n = Inr q'" using assms(4) by simp
  have i_le: "i \<le> length (id_visiteds q)" using first_index_le [of _ "distances q"] w(1,2) by (simp add: i_def)
  from t show "npq_cursor q' = min i (npq_cursor q)"
    using assms(3) unfolding insert_tail_def i by (auto simp: Let_def min_def split: if_splits)
  from t have "id_visiteds q' = insert_at i (nbr_id n, False) (id_visiteds q)"
    using assms(3) unfolding insert_tail_def i by (auto simp: Let_def split: if_splits)
  then show "first_index unvisited (id_visiteds q') = min i (first_index unvisited (id_visiteds q))"
    using i_le by (simp add: first_index_insert_at unvisited_def)
qed

text \<open>The place of a removal.\<close>

lemma npq_remove_cases:
  assumes "npq_wf q" "nbr_distance w \<noteq> NaN"
  defines "i \<equiv> first_index (\<lambda>x. nbr_distance w \<le> x) (distances q)"
  obtains "npq_remove q w = (False, q)"
    | "i < npq_size q" "npq_wf (snd (npq_remove q w))" "npq_entries (snd (npq_remove q w)) = remove_at i (npq_entries q)"
      "fst (snd (npq_entries q ! i)) = nbr_id w"
      "snd (npq_remove q w) = q\<lparr>id_visiteds := remove_at i (id_visiteds q), distances := remove_at i (distances q),
         npq_size := npq_size q - 1, npq_cursor := (if i < npq_cursor q then npq_cursor q - 1 else npq_cursor q)\<rparr>"
proof -
  have ie: "first_index (\<lambda>e. nbr_distance w \<le> fst e) (npq_entries q) = i"
    by (simp add: i_def first_index_map flip: map_fst_entries [OF assms(1)])
  show ?thesis
  proof (cases "i < npq_size q \<and> nbr_id (entry_nbr (npq_entries q ! i)) = nbr_id w")
    case False
    then have "npq_remove q w = (False, q)" using npq_remove_spec(2) [OF assms(1,2)] unfolding ie by blast
    then show ?thesis by (rule that(1))
  next
    case True
    then have "npq_wf (snd (npq_remove q w))" "npq_entries (snd (npq_remove q w)) = remove_at i (npq_entries q)"
      using npq_remove_spec(1) [OF assms(1,2)] unfolding ie by blast+
    moreover have "get_lower_bound q w = i" using lower_bound_distances [OF assms(1,2)] by (simp add: i_def)
    ultimately show ?thesis using that(2) True
      by (auto simp: npq_remove_def Let_def get_unchecked_entry [OF assms(1)] entry_nbr_def)
  qed
qed

lemma cursor_after_remove:
  assumes "i < length ivs" "j \<le> i" "c = first_index unvisited ivs"
  shows "min j (if i < c then c - 1 else c) = min j (first_index unvisited (remove_at i ivs))"
proof (cases i c rule: linorder_cases)
  case less
  then show ?thesis using first_index_remove_at(1) [OF assms(1), of unvisited] assms(3) by simp
next
  case equal
  then have "j \<le> c" "j \<le> first_index unvisited (remove_at i ivs)"
    using first_index_remove_at(3) [OF assms(1), of unvisited] assms(2,3) by auto
  then show ?thesis using equal by simp
next
  case greater
  then show ?thesis using first_index_remove_at(2) [OF assms(1), of unvisited] assms(3) by simp
qed

lemma place_before_removed:
  fixes ds :: "f32 list"
  assumes "sorted ds" "d < dw" "i = first_index (\<lambda>x. dw \<le> x) ds" "i < length ds"
  shows "first_index (\<lambda>x. d \<le> x) (remove_at i ds) \<le> i"
proof (cases "i < length (remove_at i ds)")
  case True
  then have il: "Suc i < length ds" using assms(4) by simp
  have "dw \<le> ds ! i" using first_index_sat [of "\<lambda>x. dw \<le> x" ds] assms(3,4) by simp
  also have "\<dots> \<le> ds ! Suc i" using assms(1) il by (simp add: sorted_nth_mono)
  finally have "d \<le> remove_at i ds ! i" using assms(2,4) il by (simp add: nth_remove_at)
  then show ?thesis using first_index_before [of i "\<lambda>x. d \<le> x" "remove_at i ds"] by (meson not_le)
next
  case False
  then show ?thesis using first_index_le [of "\<lambda>x. d \<le> x" "remove_at i ds"] by linarith
qed

lemma mset_remove_at: "i < length xs \<Longrightarrow> mset xs = add_mset (xs ! i) (mset (remove_at i xs))"
proof -
  assume "i < length xs"
  then have "xs = take i xs @ xs ! i # drop (Suc i) xs" by (simp add: id_take_nth_drop [symmetric])
  then have "mset xs = mset (take i xs @ xs ! i # drop (Suc i) xs)" by (rule arg_cong)
  then show ?thesis by (simp add: remove_at_def)
qed

lemma npq_remove_insert:
  assumes q: "npq_fixed l q" and num: "nbr_distance n \<noteq> NaN" "nbr_distance w \<noteq> NaN" and lt: "nbr_distance n < nbr_distance w"
  obtains q' where "npq_insert (snd (npq_remove q w)) n = Inr q'" "npq_fixed l q'"
    "mset (npq_entries q') \<subseteq># add_mset (nbr_distance n, nbr_id n, False) (mset (npq_entries q))"
    "npq_size (snd (npq_remove q w)) < npq_size q \<Longrightarrow>
       npq_entries q' = ins_entry (nbr_distance n) (nbr_id n) (npq_entries (snd (npq_remove q w)))"
proof -
  from q have us: "npq_usable q" and wf: "npq_wf q" and c: "npq_cursor q = first_index unvisited (id_visiteds q)"
    and fx: "\<not> auto_resizable q" "npq_capacity q = l" "search_param_l q = l" "0 < l"
    by (auto simp: npq_fixed_def npq_usable_def npq_inv_def cursor_ok_def)
  note W = npq_wfD [OF wf]
  define i where "i = first_index (\<lambda>x. nbr_distance w \<le> x) (distances q)"
  let ?q = "snd (npq_remove q w)"
  show ?thesis
  proof (rule npq_remove_cases [OF wf num(2), folded i_def])
    assume "npq_remove q w = (False, q)"
    then show ?thesis using that npq_insert_usable [OF us, of n] npq_insert_fixed [OF q] by auto
  next
    assume R: "i < npq_size q" "npq_wf ?q" "npq_entries ?q = remove_at i (npq_entries q)"
      and upd: "?q = q\<lparr>id_visiteds := remove_at i (id_visiteds q), distances := remove_at i (distances q),
         npq_size := npq_size q - 1, npq_cursor := (if i < npq_cursor q then npq_cursor q - 1 else npq_cursor q)\<rparr>"
    have f: "\<not> auto_resizable ?q" "npq_capacity ?q = l" "search_param_l ?q = l" "npq_size ?q = npq_size q - 1"
      "id_visiteds ?q = remove_at i (id_visiteds q)" "distances ?q = remove_at i (distances q)"
      "npq_cursor ?q = (if i < npq_cursor q then npq_cursor q - 1 else npq_cursor q)"
      unfolding upd using fx by simp_all
    have room: "npq_size ?q < npq_capacity ?q" using f(2,4) R(1) W(3) fx by linarith
    obtain q' where q': "npq_insert ?q n = Inr q'" "npq_wf q'"
      "npq_entries q' = keep_best ?q (ins_entry (nbr_distance n) (nbr_id n) (npq_entries ?q))"
      "auto_resizable q' = auto_resizable ?q" "search_param_l q' = search_param_l ?q" "npq_capacity q' = npq_capacity ?q"
      using npq_insert_spec [OF R(2) num(1)] f(1,2) fx(4) by metis
    have ent: "npq_entries q' = ins_entry (nbr_distance n) (nbr_id n) (npq_entries ?q)"
      using q'(3) f(1,2) room length_entries [OF R(2)] by (simp add: keep_best_def ins_entry_def)
    have "first_index (\<lambda>x. nbr_distance n \<le> x) (distances ?q) \<le> i"
      unfolding f(6) using R(1) W(2) by (intro place_before_removed [OF W(5) lt i_def]) simp
    then have "cursor_ok q'" unfolding cursor_ok_def npq_insert_room_cursor [OF R(2) num(1) room q'(1)] f(5,7)
      using R(1) W(1) by (intro cursor_after_remove c) simp_all
    then have "npq_fixed l q'" using q' f fx(4) by (simp add: npq_fixed_def npq_usable_def npq_inv_def)
    moreover have "mset (npq_entries ?q) \<subseteq># mset (npq_entries q)"
      using mset_remove_at [of i "npq_entries q"] R(1) length_entries [OF wf] unfolding R(3) by simp
    then have "mset (npq_entries q') \<subseteq># add_mset (nbr_distance n, nbr_id n, False) (mset (npq_entries q))"
      unfolding ent by (simp add: ins_entry_def)
    ultimately show ?thesis using that q'(1) ent by blast
  qed
qed

section \<open>The invariant\<close>

text \<open>The local queues are sorted and of fixed capacity; their cursors are not used.  This is all that a search needs, whatever
  distances are equal.\<close>

definition npq_local :: "nat \<Rightarrow> 'i npq \<Rightarrow> bool" where
  "npq_local m lq \<longleftrightarrow> npq_wf lq \<and> \<not> auto_resizable lq \<and> npq_capacity lq = m \<and> search_param_l lq = m"

definition dq_usable :: "nat \<Rightarrow> nat \<Rightarrow> ('i, 'a) diverse_queue \<Rightarrow> bool" where
  "dq_usable l m q \<longleftrightarrow> npq_fixed l (global_queue q) \<and> 0 < m \<and> diverse_results_l q = m
     \<and> distinct (map fst (local_queue_map q)) \<and> (\<forall>(a, lq)\<in>set (local_queue_map q). npq_local m lq)"

definition dq_entries :: "('i, 'a) diverse_queue \<Rightarrow> 'i entry list" where
  "dq_entries q = map (\<lambda>e. (fst e, va_id (fst (snd e)), snd (snd e))) (npq_entries (global_queue q))"

lemma npq_local_insert:
  assumes "npq_local m lq" "0 < m"
  obtains lq' where "npq_insert lq n = Inr lq'" "npq_local m lq'"
    "nbr_distance n \<noteq> NaN \<Longrightarrow> npq_entries lq' = take m (ins_entry (nbr_distance n) (nbr_id n) (npq_entries lq))"
proof (cases "nbr_distance n = NaN")
  case True
  then show ?thesis using that npq_insert_NaN assms(1) by blast
next
  case False
  from assms have l: "npq_wf lq" "\<not> auto_resizable lq" "npq_capacity lq = m" "search_param_l lq = m" "auto_resizable lq \<or> 0 < npq_capacity lq"
    by (auto simp: npq_local_def)
  obtain lq' where "npq_insert lq n = Inr lq'" "npq_wf lq'"
    "npq_entries lq' = keep_best lq (ins_entry (nbr_distance n) (nbr_id n) (npq_entries lq))"
    "auto_resizable lq' = auto_resizable lq" "search_param_l lq' = search_param_l lq" "npq_capacity lq' = npq_capacity lq"
    using npq_insert_spec [OF l(1) False l(5)] l(2) by metis
  with that l show ?thesis by (simp add: npq_local_def keep_best_def)
qed

lemma npq_local_remove:
  assumes "npq_local m lq" "nbr_distance w \<noteq> NaN"
  shows "npq_local m (snd (npq_remove lq w))"
proof -
  from assms(1) have l: "npq_wf lq" "\<not> auto_resizable lq" "npq_capacity lq = m" "search_param_l lq = m" by (simp_all add: npq_local_def)
  show ?thesis by (rule npq_remove_cases [OF l(1) assms(2)]) (use l assms(1) in \<open>simp_all add: npq_local_def\<close>)
qed

lemma local_queue_local: "dq_usable l m q \<Longrightarrow> npq_local m (local_queue q a)"
  using npq_inv_new [of m]
  by (auto simp: dq_usable_def local_queue_def npq_local_def npq_inv_def npq_new_def split: option.splits dest!: map_of_SomeD)

lemma npq_get_last:
  assumes "npq_wf q" "npq_size q = m" "0 < m"
  shows "npq_get q (m - 1) = Inr (entry_nbr (last (npq_entries q)))"
proof -
  have "npq_entries q \<noteq> []" using length_entries [OF assms(1)] assms(2,3) by auto
  then show ?thesis using length_entries [OF assms(1)] assms by (simp add: npq_get_def get_unchecked_entry last_conv_nth)
qed

lemma npq_last_num:
  assumes "npq_wf q" "npq_entries q \<noteq> []"
  shows "fst (last (npq_entries q)) \<noteq> NaN"
proof -
  have "fst (last (npq_entries q)) \<in> set (map fst (npq_entries q))" using assms(2) by simp
  then show ?thesis using npq_wfD(4) [OF assms(1)] unfolding map_fst_entries [OF assms(1)] by metis
qed

text \<open>The queue after an insertion that is decided: the local queue of the attribute, the map of local queues, the global queue.\<close>

definition touched :: "('i, 'a) diverse_queue \<Rightarrow> 'a \<Rightarrow> 'i npq \<Rightarrow> ('i, 'a) vector_id_with_attribute npq \<Rightarrow> ('i, 'a) diverse_queue" where
  "touched q a lq g = q\<lparr>local_queue_map := AList.update a lq (local_queue_map q), global_queue := g\<rparr>"

definition drop_local :: "('i, 'a) vector_id_with_attribute entry \<Rightarrow> ('i, 'a) diverse_queue \<Rightarrow> ('i, 'a) diverse_queue" where
  "drop_local e q = q\<lparr>local_queue_map :=
     (case map_of (local_queue_map q) (va_attribute (fst (snd e))) of
        None \<Rightarrow> local_queue_map q
      | Some lw \<Rightarrow> AList.update (va_attribute (fst (snd e)))
          (snd (npq_remove lw (neighbor_new (va_id (fst (snd e))) (fst e)))) (local_queue_map q))\<rparr>"

lemma dq_worst:
  assumes us: "dq_usable l m q"
  shows "is_full (local_queue q a) \<Longrightarrow> npq_get (local_queue q a) (m - 1) = Inr (entry_nbr (last (npq_entries (local_queue q a))))
      \<and> fst (last (npq_entries (local_queue q a))) \<noteq> NaN \<and> npq_entries (local_queue q a) \<noteq> []"
    and "is_full (global_queue q) \<Longrightarrow> npq_get (global_queue q) (l - 1) = Inr (entry_nbr (last (npq_entries (global_queue q))))
      \<and> fst (last (npq_entries (global_queue q))) \<noteq> NaN \<and> npq_entries (global_queue q) \<noteq> []"
    and "0 < m" "diverse_results_l q = m" "0 < l" "search_param_l (global_queue q) = l"
proof -
  have last: "npq_get p (k - 1) = Inr (entry_nbr (last (npq_entries p))) \<and> fst (last (npq_entries p)) \<noteq> NaN \<and> npq_entries p \<noteq> []"
    if "npq_wf p" "npq_capacity p = k" "0 < k" "is_full p" for p :: "'x npq" and k
  proof -
    have "npq_entries p \<noteq> []" using length_entries [OF that(1)] that(2-4) by (auto simp: is_full_def)
    with npq_last_num [OF that(1) this] npq_get_last [OF that(1) _ that(3)] that show ?thesis by (simp add: is_full_def)
  qed
  have lq: "npq_wf (local_queue q a)" "npq_capacity (local_queue q a) = m" "0 < m" "diverse_results_l q = m" for a
    using local_queue_local [OF us, of a] us by (simp_all add: npq_local_def dq_usable_def)
  have g: "npq_wf (global_queue q)" "npq_capacity (global_queue q) = l" "0 < l" "search_param_l (global_queue q) = l"
    using us by (auto simp: dq_usable_def npq_fixed_def npq_usable_def npq_inv_def)
  show "0 < m" "diverse_results_l q = m" "0 < l" "search_param_l (global_queue q) = l" by (fact lq g)+
  show "npq_get (local_queue q a) (m - 1) = Inr (entry_nbr (last (npq_entries (local_queue q a))))
      \<and> fst (last (npq_entries (local_queue q a))) \<noteq> NaN \<and> npq_entries (local_queue q a) \<noteq> []" if "is_full (local_queue q a)"
    by (rule last [OF lq(1-3) that])
  show "npq_get (global_queue q) (l - 1) = Inr (entry_nbr (last (npq_entries (global_queue q))))
      \<and> fst (last (npq_entries (global_queue q))) \<noteq> NaN \<and> npq_entries (global_queue q) \<noteq> []" if "is_full (global_queue q)"
    by (rule last [OF g(1-3) that])
qed

lemma dq_insert_NaN:
  assumes us: "dq_usable l m q" and a: "attribute_provider q (nbr_id n) = Some a" and nan: "nbr_distance n = NaN"
  shows "dq_insert q n = Inr (touched q a (local_queue q a) (global_queue q))"
proof -
  note w = dq_worst [OF us]
  have upd: "AList.update a x (AList.update a y ms) = AList.update a x ms" for x y and ms :: "('b \<times> 'a npq) list"
    by (simp add: update_last)
  show ?thesis using w(1) [of a] w(2-6) nan a
    by (cases "is_full (local_queue q a)"; cases "is_full (global_queue q)")
      (simp_all add: dq_insert_def Let_def npq_insert_NaN touched_def upd f32_lt_def)
qed

lemma dq_insert_unfold:
  assumes us: "dq_usable l m q" and a: "attribute_provider q (nbr_id n) = Some a" and num: "nbr_distance n \<noteq> NaN"
  defines "lq \<equiv> local_queue q a" and "g \<equiv> global_queue q"
    and "nbr_a \<equiv> neighbor_new (va_new (nbr_id n) a) (nbr_distance n)"
  shows "dq_insert q n =
    (if \<not> is_full lq \<and> \<not> is_full g then rbind (npq_insert lq n) (\<lambda>lq1. rbind (npq_insert g nbr_a) (\<lambda>g1. Inr (touched q a lq1 g1)))
     else if is_full lq then
       (let w = last (npq_entries lq) in
        if nbr_distance n < fst w
        then rbind (npq_insert lq n) (\<lambda>lq1.
             rbind (npq_insert (snd (npq_remove g (neighbor_new (va_new (fst (snd w)) a) (fst w)))) nbr_a) (\<lambda>g1. Inr (touched q a lq1 g1)))
        else Inr (touched q a lq g))
     else
       (let w = last (npq_entries g) in
        if nbr_distance n < fst w
        then rbind (npq_insert lq n) (\<lambda>lq1. rbind (npq_insert g nbr_a) (\<lambda>g1. Inr (drop_local w (touched q a lq1 g1))))
        else Inr (touched q a lq g)))"
proof -
  note args = lq_def [symmetric] g_def [symmetric] nbr_a_def [symmetric]
  note w = dq_worst(1) [OF us, of a, unfolded args] dq_worst(2-6) [OF us, unfolded args]
  have upd: "AList.update a x (AList.update a y ms) = AList.update a x ms" for x y and ms :: "('b \<times> 'a npq) list"
    by (simp add: update_last)
  have comm: "q\<lparr>global_queue := x, local_queue_map := y\<rparr> = q\<lparr>local_queue_map := y, global_queue := x\<rparr>" for x y by simp
  consider (room) "\<not> is_full lq" "\<not> is_full g" | (lfull) "is_full lq" | (gfull) "\<not> is_full lq" "is_full g" by blast
  then show ?thesis
  proof cases
    case room
    then show ?thesis by (simp add: dq_insert_def a args Let_def touched_def upd)
  next
    case lfull
    then show ?thesis using w(1,3,4) num
      by (simp add: dq_insert_def a args Let_def touched_def upd entry_nbr_def f32_lt_def)
  next
    case gfull
    then show ?thesis using w(2,5,6) num
      by (simp add: dq_insert_def a args Let_def touched_def upd entry_nbr_def drop_local_def f32_lt_def comm cong: option.case_cong)
  qed
qed

lemma update_local:
  assumes "\<forall>(a, lq)\<in>set ms. npq_local m lq" "distinct (map fst ms)" "npq_local m lq"
  shows "\<forall>(a, lq)\<in>set (AList.update b lq ms). npq_local m lq" "distinct (map fst (AList.update b lq ms))"
proof -
  show d: "distinct (map fst (AList.update b lq ms))" using assms(2) by (rule distinct_update)
  show "\<forall>(a, lq)\<in>set (AList.update b lq ms). npq_local m lq"
  proof clarify
    fix a lq' assume "(a, lq') \<in> set (AList.update b lq ms)"
    then have "map_of (AList.update b lq ms) a = Some lq'" using d by simp
    then have "(a = b \<and> lq' = lq) \<or> map_of ms a = Some lq'" by (auto simp: update_conv' split: if_splits)
    then show "npq_local m lq'" using assms(1,3) by (auto dest!: map_of_SomeD)
  qed
qed

lemma touched_usable:
  assumes "dq_usable l m q" "npq_local m lq" "npq_fixed l g"
  shows "dq_usable l m (touched q a lq g)"
  using assms update_local [of "local_queue_map q" m lq a] by (simp add: dq_usable_def touched_def)

lemma drop_local_usable:
  assumes "dq_usable l m q" "fst e \<noteq> NaN"
  shows "dq_usable l m (drop_local e q)" "global_queue (drop_local e q) = global_queue q"
proof -
  show "dq_usable l m (drop_local e q)"
  proof (cases "map_of (local_queue_map q) (va_attribute (fst (snd e)))")
    case None
    then show ?thesis using assms(1) by (simp add: dq_usable_def drop_local_def)
  next
    case (Some lw)
    then have "npq_local m lw" using assms(1) by (auto simp: dq_usable_def dest!: map_of_SomeD)
    then have "npq_local m (snd (npq_remove lw (neighbor_new (va_id (fst (snd e))) (fst e))))" using assms(2) by (simp add: npq_local_remove)
    then show ?thesis using assms(1) Some update_local [of "local_queue_map q" m] by (simp add: dq_usable_def drop_local_def)
  qed
  show "global_queue (drop_local e q) = global_queue q" by (simp add: drop_local_def)
qed

text \<open>The global queue of a queue and its entries.\<close>

abbreviation plain :: "('i, 'a) vector_id_with_attribute entry \<Rightarrow> 'i entry" where
  "plain e \<equiv> (fst e, va_id (fst (snd e)), snd (snd e))"

lemma plain_mset:
  assumes "mset (npq_entries g) \<subseteq># add_mset (nbr_distance n, va_new (nbr_id n) a, False) (mset (npq_entries (global_queue q)))"
    "global_queue q' = g"
  shows "mset (dq_entries q') \<subseteq># add_mset (nbr_distance n, nbr_id n, False) (mset (dq_entries q))"
  using image_mset_subseteq_mono [OF assms(1), of plain] assms(2) by (simp add: dq_entries_def va_new_def)

text \<open>An insertion never fails, keeps the invariant and adds at most the new entry.\<close>

lemma dq_insert_usable:
  assumes us: "dq_usable l m q"
  shows "\<exists>q'. dq_insert q n = Inr q' \<and> dq_usable l m q'
    \<and> mset (dq_entries q') \<subseteq># add_mset (nbr_distance n, nbr_id n, False) (mset (dq_entries q))"
proof (cases "attribute_provider q (nbr_id n)")
  case None
  then show ?thesis using us by (simp add: dq_insert_def)
next
  case (Some a)
  let ?lq = "local_queue q a" and ?g = "global_queue q"
  let ?na = "neighbor_new (va_new (nbr_id n) a) (nbr_distance n)"
  have lq: "npq_local m ?lq" and g: "npq_fixed l ?g" and m: "0 < m"
    using local_queue_local [OF us] us by (auto simp: dq_usable_def)
  obtain lq1 where lq1: "npq_insert ?lq n = Inr lq1" "npq_local m lq1" using npq_local_insert [OF lq m] by blast
  obtain g1 where g1: "npq_insert ?g ?na = Inr g1" "npq_fixed l g1"
    "mset (npq_entries g1) \<subseteq># add_mset (nbr_distance n, va_new (nbr_id n) a, False) (mset (npq_entries ?g))"
    using npq_insert_usable [OF npq_fixed_usable [OF g], of ?na] npq_insert_fixed [OF g] by auto
  have keep: ?thesis if "dq_insert q n = Inr (touched q a ?lq ?g)"
    using that touched_usable [OF us lq g] by (auto simp: touched_def dq_entries_def)
  show ?thesis
  proof (cases "nbr_distance n = NaN")
    case True
    then show ?thesis using dq_insert_NaN [OF us Some] keep by blast
  next
    case num: False
    note U = dq_insert_unfold [OF us Some num]
    consider (room) "\<not> is_full ?lq" "\<not> is_full ?g" | (lfull) "is_full ?lq" | (gfull) "\<not> is_full ?lq" "is_full ?g" by blast
    then show ?thesis
    proof cases
      case room
      then have "dq_insert q n = Inr (touched q a lq1 g1)" unfolding U using lq1(1) g1(1) by simp
      then show ?thesis using touched_usable [OF us lq1(2) g1(2), of a] plain_mset [OF g1(3), of "touched q a lq1 g1"]
        by (simp add: touched_def)
    next
      case lfull
      let ?w = "last (npq_entries ?lq)"
      note wl = dq_worst(1) [OF us lfull]
      show ?thesis
      proof (cases "nbr_distance n < fst ?w")
        case True
        obtain g2 where g2: "npq_insert (snd (npq_remove ?g (neighbor_new (va_new (fst (snd ?w)) a) (fst ?w)))) ?na = Inr g2"
          "npq_fixed l g2" "mset (npq_entries g2) \<subseteq># add_mset (nbr_distance n, va_new (nbr_id n) a, False) (mset (npq_entries ?g))"
          using npq_remove_insert [OF g, of ?na "neighbor_new (va_new (fst (snd ?w)) a) (fst ?w)"] num wl True by auto
        then have "dq_insert q n = Inr (touched q a lq1 g2)" unfolding U using lfull True lq1(1) by (simp add: Let_def)
        then show ?thesis using touched_usable [OF us lq1(2) g2(2), of a] plain_mset [OF g2(3), of "touched q a lq1 g2"]
          by (simp add: touched_def)
      qed (use U lfull keep in \<open>simp add: Let_def\<close>)
    next
      case gfull
      let ?w = "last (npq_entries ?g)"
      note wg = dq_worst(2) [OF us gfull(2)]
      show ?thesis
      proof (cases "nbr_distance n < fst ?w")
        case True
        let ?q = "drop_local ?w (touched q a lq1 g1)"
        have "dq_insert q n = Inr ?q" unfolding U using gfull True lq1(1) g1(1) by (simp add: Let_def)
        moreover have "dq_usable l m ?q" "global_queue ?q = g1"
          using drop_local_usable [OF touched_usable [OF us lq1(2) g1(2)], of ?w] wg by (simp_all add: touched_def)
        ultimately show ?thesis using plain_mset [OF g1(3), of ?q] by blast
      qed (use U gfull keep in \<open>simp add: Let_def\<close>)
    qed
  qed
qed

text \<open>The other operations act on the global queue.\<close>

lemma dq_closest_usable:
  assumes us: "dq_usable l m q" and has: "dq_has_notvisited_node q"
  shows "\<exists>e q'. dq_closest_notvisited q = Inr (Some (entry_nbr e), q') \<and> dq_usable l m q'
    \<and> e \<in># mset (dq_entries q) \<and> entry_unvisited e \<and> (\<forall>e'\<in>set (dq_entries q). entry_unvisited e' \<longrightarrow> fst e \<le> fst e')
    \<and> mset (dq_entries q') = add_mset (visited_entry e) (mset (dq_entries q) - {#e#})
    \<and> search_param_l (global_queue q') = search_param_l (global_queue q)"
proof -
  let ?g = "global_queue q"
  have g: "npq_fixed l ?g" using us by (simp add: dq_usable_def)
  from closest_notvisited_usable [OF npq_fixed_usable [OF g]] has obtain e g' where
    e: "closest_notvisited ?g = Inr (Some (entry_nbr e), g')" "e \<in># mset (npq_entries ?g)" "entry_unvisited e"
      "\<forall>e'\<in>set (npq_entries ?g). entry_unvisited e' \<longrightarrow> fst e \<le> fst e'"
      "mset (npq_entries g') = add_mset (visited_entry e) (mset (npq_entries ?g) - {#e#})"
      "search_param_l g' = search_param_l ?g"
    unfolding dq_has_notvisited_node_def by blast
  have g': "npq_fixed l g'" by (rule closest_notvisited_fixed [OF g e(1)])
  let ?e = "plain e" and ?q = "q\<lparr>global_queue := g'\<rparr>"
  have "dq_closest_notvisited q = Inr (Some (entry_nbr ?e), ?q)"
    using e(1) by (simp add: dq_closest_notvisited_def without_attribute_def entry_nbr_def)
  moreover have "dq_usable l m ?q" using us g' by (simp add: dq_usable_def)
  moreover have "?e \<in># mset (dq_entries q)" "entry_unvisited ?e"
    "\<forall>e'\<in>set (dq_entries q). entry_unvisited e' \<longrightarrow> fst ?e \<le> fst e'"
    using e(2-4) by (auto simp: dq_entries_def entry_unvisited_def)
  moreover have "mset (dq_entries ?q) = add_mset (visited_entry ?e) (mset (dq_entries q) - {#?e#})"
  proof -
    obtain M where M: "mset (npq_entries ?g) = add_mset e M" using e(2) by (rule mset_add)
    have "mset (dq_entries q) = image_mset plain (mset (npq_entries ?g))"
      "mset (dq_entries ?q) = image_mset plain (mset (npq_entries g'))" by (simp_all add: dq_entries_def)
    then show ?thesis unfolding e(5) M by (simp add: visited_entry_def)
  qed
  ultimately show ?thesis using e(6) by (intro exI [of _ ?e] exI [of _ ?q]) simp
qed

lemma dq_iter_entries:
  assumes "dq_usable l m q"
  shows "dq_iter q = map entry_nbr (take l (dq_entries q))"
proof -
  have g: "npq_wf (global_queue q)" "search_param_l (global_queue q) = l"
    using assms by (simp_all add: dq_usable_def npq_fixed_def npq_usable_def npq_inv_def)
  have "dq_iter q = map without_attribute (npq_iter (global_queue q))" by (simp add: dq_iter_def npq_iter_def)
  also have "\<dots> = map entry_nbr (take l (dq_entries q))"
    by (simp add: npq_iter_entries [OF g(1)] g(2) dq_entries_def take_map without_attribute_def entry_nbr_def)
  finally show ?thesis .
qed

lemma dq_insert_search_l:
  assumes "dq_usable l m q" "dq_insert q n = Inr q'"
  shows "search_param_l (global_queue q') = search_param_l (global_queue q)"
proof -
  have "dq_usable l m q'" using dq_insert_usable [OF assms(1), of n] assms(2) by auto
  then show ?thesis using assms(1) by (simp add: dq_usable_def npq_fixed_def)
qed

text \<open>The diverse queue satisfies the interface of the search.  Nothing is promised about what it remembers.\<close>

interpretation dq: bounded_queue dq_ops "dq_usable l m" dq_entries "\<lambda>_ _ _. True" for l m
proof (standard, goal_cases)
  case (1 q n)
  then show ?case using dq_insert_usable [OF 1, of n] dq_insert_search_l [OF 1] by (auto simp: dq_ops_def)
next
  case (2 q)
  then show ?case by (simp add: dq_ops_def dq_closest_notvisited_def dq_has_notvisited_node_def closest_notvisited_None)
next
  case (3 q)
  then show ?case using dq_closest_usable [of l m q] by (simp add: dq_ops_def)
next
  case (4 q)
  then show ?case using npql.clear_law [of l "global_queue q"]
    by (simp add: dq_ops_def dq_clear_def dq_usable_def dq_entries_def npq_ops_def)
next
  case (5 q)
  then show ?case using dq_iter_entries [OF 5] dq_worst(6) [OF 5] by (simp add: dq_ops_def)
next
  case (6 q)
  then have wf: "npq_wf (global_queue q)" by (simp add: dq_usable_def npq_fixed_def npq_usable_def npq_inv_def)
  have "map fst (dq_entries q) = map fst (npq_entries (global_queue q))" by (simp add: dq_entries_def)
  then show ?case using sorted_map_fst_entries [OF wf] npq_wfD(4) [OF wf] map_fst_entries [OF wf] by (metis list.set_map)
qed simp_all

end
