(* ===== verification/Diverse_Refine.thy ===== *)
theory Diverse_Refine
  imports Diverse_Queue
begin

text \<open>
  The diverse queue implements its specification as long as no two candidates in it have the same distance: the entries of
  the global queue are the selection of \<open>Diverse_Spec\<close>, the entries of a local queue are those of the global one with
  its attribute, and the post-processing leaves the closest \<open>diverse_results_k\<close> of every attribute.
\<close>

section \<open>Keys of a queue\<close>

lemma ekey_ins_entry: "map ekey (ins_entry d i es) = insort_key fst (d, i) (map ekey es)"
proof (induction es)
  case (Cons e es)
  then show ?case by (simp add: ins_entry_def insert_at_def ekey_def)
qed (simp add: ins_entry_def insert_at_def ekey_def)

lemma fst_ekey: "map fst (map ekey es) = map fst es"
  by (simp add: ekey_def)

lemma remove_at_distinct:
  assumes "distinct xs" "j < length xs"
  shows "remove_at j xs = filter (\<lambda>x. x \<noteq> xs ! j) xs"
proof -
  have xs: "xs = take j xs @ xs ! j # drop (Suc j) xs" using assms(2) by (simp add: id_take_nth_drop [symmetric])
  have "distinct (take j xs @ xs ! j # drop (Suc j) xs)" using assms(1) xs by metis
  then have "filter (\<lambda>x. x \<noteq> xs ! j) (take j xs) = take j xs" "filter (\<lambda>x. x \<noteq> xs ! j) (drop (Suc j) xs) = drop (Suc j) xs"
    unfolding filter_id_conv by auto
  then have "filter (\<lambda>x. x \<noteq> xs ! j) (take j xs @ xs ! j # drop (Suc j) xs) = take j xs @ drop (Suc j) xs"
    by (simp only: filter_append filter.simps) simp
  then show ?thesis using xs by (simp add: remove_at_def)
qed

lemma npq_remove_key:
  assumes wf: "npq_wf q" and s: "strictly (map ekey (npq_entries q))" and w: "w \<in> set (map ekey (npq_entries q))"
  defines "q' \<equiv> snd (npq_remove q (neighbor_new (snd w) (fst w)))"
  shows "map ekey (npq_entries q') = filter (\<lambda>k. k \<noteq> w) (map ekey (npq_entries q))" "npq_size q' < npq_size q" "npq_wf q'"
    "set (npq_entries q') \<subseteq> set (npq_entries q)"
proof -
  let ?K = "map ekey (npq_entries q)" and ?w = "neighbor_new (snd w) (fst w)"
  obtain j where j: "j < length ?K" "?K ! j = w" using w by (metis in_set_conv_nth)
  have wd: "fst (npq_entries q ! j) = fst w" "fst (snd (npq_entries q ! j)) = snd w" using j by (auto simp: ekey_def)
  have "fst w \<in> set (distances q)" using w unfolding map_fst_entries [OF wf, symmetric] by (force simp: ekey_def)
  then have num: "nbr_distance ?w \<noteq> NaN" using npq_wfD(4) [OF wf] by auto
  have "first_index (\<lambda>e. fst w \<le> fst e) (npq_entries q) = j"
  proof (rule first_index_eqI)
    show "\<not> fst w \<le> fst (npq_entries q ! k)" if "k < j" for k
      using sorted_wrt_nth_less [OF s, of k j] that j wd(1) by (simp add: ekey_def)
  qed (use j wd in simp_all)
  then have i: "first_index (\<lambda>e. nbr_distance ?w \<le> fst e) (npq_entries q) = j" by simp
  have jl: "j < npq_size q" using j(1) length_entries [OF wf] by simp
  have "npq_wf q' \<and> npq_entries q' = remove_at j (npq_entries q)"
    using npq_remove_spec(1) [OF wf num] jl wd(2) unfolding i q'_def by (simp add: entry_nbr_def)
  then have e': "npq_wf q'" "npq_entries q' = remove_at j (npq_entries q)" by blast+
  show "npq_wf q'" "set (npq_entries q') \<subseteq> set (npq_entries q)" using e' set_remove_at_subset by metis+
  show "map ekey (npq_entries q') = filter (\<lambda>k. k \<noteq> w) ?K"
    using remove_at_distinct [OF strictlyD(2) [OF s] j(1)] unfolding e'(2) map_remove_at j(2) .
  show "npq_size q' < npq_size q" using e'(2) jl length_entries [OF wf] length_entries [OF e'(1)] by simp
qed

section \<open>Consistency of the queues\<close>

definition dq_keys :: "('i, 'a) diverse_queue \<Rightarrow> 'i cand list" where
  "dq_keys q = map ekey (dq_entries q)"

definition local_keys :: "('i, 'a) diverse_queue \<Rightarrow> 'a \<Rightarrow> 'i cand list" where
  "local_keys q a = map ekey (npq_entries (local_queue q a))"

definition with_attr :: "('i \<Rightarrow> 'a option) \<Rightarrow> 'a \<Rightarrow> 'i cand \<Rightarrow> bool" where
  "with_attr attr a x \<longleftrightarrow> attr (snd x) = Some a"

definition dq_consistent :: "('i \<Rightarrow> 'a option) \<Rightarrow> ('i, 'a) diverse_queue \<Rightarrow> bool" where
  "dq_consistent attr q \<longleftrightarrow> attribute_provider q = attr \<and> strictly (dq_keys q) \<and> distinct (map snd (dq_keys q))
     \<and> (\<forall>e\<in>set (npq_entries (global_queue q)). attr (va_id (fst (snd e))) = Some (va_attribute (fst (snd e))))
     \<and> (\<forall>a. local_keys q a = filter (with_attr attr a) (dq_keys q))"

lemma dq_consistentD:
  assumes "dq_consistent attr q"
  shows "attribute_provider q = attr" "strictly (dq_keys q)" "distinct (map snd (dq_keys q))"
    "e \<in> set (npq_entries (global_queue q)) \<Longrightarrow> attr (va_id (fst (snd e))) = Some (va_attribute (fst (snd e)))"
    "local_keys q a = filter (with_attr attr a) (dq_keys q)"
  using assms by (auto simp: dq_consistent_def)

definition va_key :: "f32 \<times> ('i, 'a) vector_id_with_attribute \<Rightarrow> 'i cand" where
  "va_key k = (fst k, va_id (snd k))"

lemma dq_keys_global: "dq_keys q = map va_key (map ekey (npq_entries (global_queue q)))"
  by (simp add: dq_keys_def dq_entries_def ekey_def va_key_def)

lemma fst_va_key: "map fst (map va_key ks) = map fst ks"
  by (simp add: va_key_def)

lemma va_key_insort: "map va_key (insort_key fst k ks) = insort_key fst (va_key k) (map va_key ks)"
  by (induction ks) (simp_all add: va_key_def)

lemma filter_with_attr_insort:
  assumes "strictly G" "with_attr attr a x"
  shows "filter (with_attr attr b) (insort_key fst x G)
    = (if b = a then insort_key fst x (filter (with_attr attr b) G) else filter (with_attr attr b) G)"
  using assms filter_insort [of fst G "with_attr attr b" x] strictlyD(1) [OF assms(1)]
  by (auto simp: with_attr_def filter_insort_triv)

lemma local_queue_touched: "local_queue (touched q a lq g) b = (if b = a then lq else local_queue q b)"
  by (simp add: local_queue_def touched_def update_conv' cong: option.case_cong)

text \<open>Establishing consistency after a change of one local queue and of the global queue.\<close>

lemma touched_consistent:
  assumes c: "dq_consistent attr q" and G: "map va_key (map ekey (npq_entries g)) = G" "strictly G" "distinct (map snd G)"
    and at: "\<forall>e\<in>set (npq_entries g). attr (va_id (fst (snd e))) = Some (va_attribute (fst (snd e)))"
    and a: "map ekey (npq_entries lq) = filter (with_attr attr a) G"
    and b: "\<And>b. b \<noteq> a \<Longrightarrow> filter (with_attr attr b) G = filter (with_attr attr b) (dq_keys q)"
  shows "dq_consistent attr (touched q a lq g)" "dq_keys (touched q a lq g) = G"
proof -
  show k: "dq_keys (touched q a lq g) = G" using G(1) by (simp add: dq_keys_global touched_def)
  show "dq_consistent attr (touched q a lq g)"
    unfolding dq_consistent_def k local_keys_def local_queue_touched
    using dq_consistentD [OF c] G(2,3) at a b by (simp add: touched_def local_keys_def)
qed

lemma touched_same:
  assumes "dq_consistent attr q"
  shows "dq_consistent attr (touched q a (local_queue q a) (global_queue q))"
    "dq_keys (touched q a (local_queue q a) (global_queue q)) = dq_keys q"
  using touched_consistent [where a = a and lq = "local_queue q a" and g = "global_queue q", OF assms dq_keys_global [symmetric]] dq_consistentD [OF assms]
  by (auto simp: local_keys_def [symmetric])

section \<open>Insertion\<close>

text \<open>What the three cases of the insertion do to the keys.\<close>

lemma filter_last:
  assumes "distinct xs" "xs \<noteq> []"
  shows "filter (\<lambda>y. y \<noteq> last xs) xs = butlast xs"
proof -
  have xs: "xs = butlast xs @ [last xs]" using assms(2) by simp
  have "distinct (butlast xs @ [last xs])" using assms by simp
  then have "filter (\<lambda>y. y \<noteq> last xs) (butlast xs @ [last xs]) = butlast xs" by (auto simp: filter_id_conv)
  then show ?thesis using xs by simp
qed

lemma local_insert_keys:
  assumes "npq_local m lq" "0 < m" "nbr_distance n \<noteq> NaN" "npq_insert lq n = Inr lq'" "x = (nbr_distance n, nbr_id n)"
    "strictly (map ekey (npq_entries lq))" "fst x \<notin> fst ` set (map ekey (npq_entries lq))"
  shows "\<not> is_full lq \<Longrightarrow> map ekey (npq_entries lq') = insort_key fst x (map ekey (npq_entries lq))"
    "is_full lq \<Longrightarrow> fst x < fst (last (npq_entries lq)) \<Longrightarrow>
      map ekey (npq_entries lq') = insort_key fst x (butlast (map ekey (npq_entries lq)))"
proof -
  let ?K = "map ekey (npq_entries lq)"
  have wf: "npq_wf lq" "npq_capacity lq = m" "\<not> auto_resizable lq" using assms(1) by (simp_all add: npq_local_def)
  note len = length_entries [OF wf(1)]
  have "npq_entries lq' = take m (ins_entry (nbr_distance n) (nbr_id n) (npq_entries lq))"
    using npq_local_insert [OF assms(1,2), of n] assms(3,4) by auto
  then have k: "map ekey (npq_entries lq') = take m (insort_key fst x ?K)" by (simp add: take_map [symmetric] ekey_ins_entry assms(5))
  show "map ekey (npq_entries lq') = insort_key fst x ?K" if "\<not> is_full lq"
    unfolding k using that wf npq_wfD(3) [OF wf(1)] len by (simp add: is_full_def)
  show "map ekey (npq_entries lq') = insort_key fst x (butlast ?K)" if f: "is_full lq" and lt: "fst x < fst (last (npq_entries lq))"
  proof -
    have m: "length ?K = m" "?K \<noteq> []" using f wf len assms(2) by (auto simp: is_full_def)
    then have l: "fst (last ?K) = fst (last (npq_entries lq))" by (simp add: last_map ekey_def)
    have "take (length ?K) (insort_key fst x (?K @ [])) = insort_key fst x (butlast ?K)"
      using take_insort [of ?K "[]" x] assms(6) m(2) lt l by simp
    then show ?thesis unfolding k m(1) [symmetric] by simp
  qed
qed

lemma global_insert_keys:
  assumes "npq_fixed l g" "nbr_distance n \<noteq> NaN" "npq_insert g (neighbor_new (va_new (nbr_id n) a) (nbr_distance n)) = Inr g'"
    "x = (nbr_distance n, nbr_id n)"
  shows "map va_key (map ekey (npq_entries g')) = take l (insort_key fst x (map va_key (map ekey (npq_entries g))))"
    "set (npq_entries g') \<subseteq> insert (nbr_distance n, va_new (nbr_id n) a, False) (set (npq_entries g))"
proof -
  let ?n = "neighbor_new (va_new (nbr_id n) a) (nbr_distance n)"
  have us: "npq_usable g" "\<not> auto_resizable g" "npq_capacity g = l" using assms(1) by (simp_all add: npq_fixed_def)
  have e: "npq_entries g' = take l (ins_entry (nbr_distance n) (va_new (nbr_id n) a) (npq_entries g))"
    using npq_insert_entries(2) [OF us(1) assms(3)] assms(2) us(2,3) by (simp add: keep_best_def)
  show "map va_key (map ekey (npq_entries g')) = take l (insort_key fst x (map va_key (map ekey (npq_entries g))))"
    unfolding e take_map [symmetric] ekey_ins_entry va_key_insort by (simp add: va_key_def va_new_def assms(4))
  show "set (npq_entries g') \<subseteq> insert (nbr_distance n, va_new (nbr_id n) a, False) (set (npq_entries g))"
    unfolding e using set_take_subset [of l "ins_entry (nbr_distance n) (va_new (nbr_id n) a) (npq_entries g)"] by (simp add: ins_entry_def)
qed

text \<open>The number of candidates in the queues.\<close>

lemma dq_full:
  assumes us: "dq_usable l m q" and c: "dq_consistent attr q" and x: "with_attr attr a x"
  shows "is_full (local_queue q a) \<longleftrightarrow> length (filter (same_attr attr x) (dq_keys q)) = m"
    "length (filter (same_attr attr x) (dq_keys q)) \<le> m"
    "is_full (global_queue q) \<longleftrightarrow> length (dq_keys q) = l" "length (dq_keys q) \<le> l"
proof -
  have sm: "same_attr attr x = with_attr attr a" using x by (auto simp: fun_eq_iff same_attr_def with_attr_def)
  have lq: "npq_wf (local_queue q a)" "npq_capacity (local_queue q a) = m" "\<not> auto_resizable (local_queue q a)"
    using local_queue_local [OF us, of a] by (simp_all add: npq_local_def)
  have g: "npq_wf (global_queue q)" "npq_capacity (global_queue q) = l" "\<not> auto_resizable (global_queue q)"
    using us by (auto simp: dq_usable_def npq_fixed_def npq_usable_def npq_inv_def)
  have L: "length (filter (same_attr attr x) (dq_keys q)) = npq_size (local_queue q a)"
    unfolding sm dq_consistentD(5) [OF c, symmetric] local_keys_def using length_entries [OF lq(1)] by simp
  have G: "length (dq_keys q) = npq_size (global_queue q)" using length_entries [OF g(1)] by (simp add: dq_keys_global)
  show "is_full (local_queue q a) \<longleftrightarrow> length (filter (same_attr attr x) (dq_keys q)) = m"
    "length (filter (same_attr attr x) (dq_keys q)) \<le> m"
    unfolding L using lq npq_wfD(3) [OF lq(1)] by (simp_all add: is_full_def)
  show "is_full (global_queue q) \<longleftrightarrow> length (dq_keys q) = l" "length (dq_keys q) \<le> l"
    unfolding G using g npq_wfD(3) [OF g(1)] by (simp_all add: is_full_def)
qed

text \<open>A candidate that is new to the queue: its distance and its identifier do not occur.\<close>

definition new_cand :: "('i \<Rightarrow> 'a option) \<Rightarrow> 'i cand list \<Rightarrow> 'i cand \<Rightarrow> bool" where
  "new_cand attr G x \<longleftrightarrow> fst x \<noteq> NaN \<and> fst x \<notin> fst ` set G \<and> snd x \<notin> snd ` set G"

lemma new_cand_insort:
  assumes "strictly G" "distinct (map snd G)" "new_cand attr G x"
  shows "strictly (insort_key fst x G)" "distinct (map snd (insort_key fst x G))"
proof -
  show "strictly (insort_key fst x G)" using assms by (simp add: strictly_insort new_cand_def)
  have "distinct (map snd (x # G))" using assms(2,3) by (simp add: new_cand_def)
  moreover have "mset (map snd (insort_key fst x G)) = mset (map snd (x # G))" by simp
  ultimately show "distinct (map snd (insort_key fst x G))" by (metis mset_eq_imp_distinct_iff)
qed

lemma new_cand_sub:
  assumes "new_cand attr G x" "set H \<subseteq> set G"
  shows "new_cand attr H x"
  using assms unfolding new_cand_def by blast

lemma new_cand_ne: "new_cand attr G x \<Longrightarrow> w \<in> set G \<Longrightarrow> x \<noteq> w"
  by (auto simp: new_cand_def)

text \<open>The local queue of an attribute holds what the global queue has of it.\<close>

lemma local_last:
  assumes us: "dq_usable l m q" and c: "dq_consistent attr q" and f: "is_full (local_queue q a)"
  defines "L \<equiv> filter (with_attr attr a) (dq_keys q)" and "w \<equiv> last (npq_entries (local_queue q a))"
  shows "L \<noteq> []" "last L = (fst w, fst (snd w))" "(fst w, va_new (fst (snd w)) a) \<in> set (map ekey (npq_entries (global_queue q)))"
proof -
  have ne: "npq_entries (local_queue q a) \<noteq> []" using dq_worst(1) [OF us f] by blast
  have L: "map ekey (npq_entries (local_queue q a)) = L" using dq_consistentD(5) [OF c, of a] by (simp add: local_keys_def L_def)
  show Lne: "L \<noteq> []" using ne L by auto
  show last: "last L = (fst w, fst (snd w))" using last_map [OF ne, of ekey] unfolding L w_def by (simp add: ekey_def)
  have "last L \<in> set (dq_keys q)" "with_attr attr a (last L)" using last_in_set [OF Lne] by (auto simp: L_def)
  then obtain e where e: "e \<in> set (npq_entries (global_queue q))" "fst e = fst w" "va_id (fst (snd e)) = fst (snd w)"
    unfolding last dq_keys_global by (auto simp: va_key_def ekey_def)
  have "va_attribute (fst (snd e)) = a" using dq_consistentD(4) [OF c e(1)] e(3) \<open>with_attr attr a (last L)\<close> last by (simp add: with_attr_def)
  then have "fst (snd e) = va_new (fst (snd w)) a" using e(3) by (simp add: va_new_def)
  then have "ekey e = (fst w, va_new (fst (snd w)) a)" using e(2) by (simp add: ekey_def)
  then show "(fst w, va_new (fst (snd w)) a) \<in> set (map ekey (npq_entries (global_queue q)))" using e(1) by (metis image_eqI list.set_map)
qed

lemma va_key_filter:
  assumes "strictly K" "w \<in> set K"
  shows "map va_key (filter (\<lambda>k. k \<noteq> w) K) = filter (\<lambda>y. y \<noteq> va_key w) (map va_key K)"
proof -
  have "inj_on fst (set K)" using strictlyD(3) [OF assms(1)] by (simp add: distinct_map)
  then have "va_key k = va_key w \<longleftrightarrow> k = w" if "k \<in> set K" for k
    using assms(2) that by (auto simp: va_key_def dest: inj_onD)
  then show ?thesis unfolding filter_map by (auto intro!: arg_cong [where f = "map va_key"] filter_cong)
qed

lemma dq_insert_room:
  assumes us: "dq_usable l m q" and c: "dq_consistent attr q" and x: "x = (nbr_distance n, nbr_id n)" "new_cand attr (dq_keys q) x"
    and a: "with_attr attr a x" and full: "\<not> is_full (local_queue q a)" "\<not> is_full (global_queue q)" and ins: "dq_insert q n = Inr q'"
  shows "dq_consistent attr q' \<and> dq_keys q' = insort_key fst x (dq_keys q)"
proof -
  note C = dq_consistentD [OF c]
  have num: "nbr_distance n \<noteq> NaN" and attr: "attribute_provider q (nbr_id n) = Some a" using x a C(1) by (simp_all add: new_cand_def with_attr_def)
  have lq: "npq_local m (local_queue q a)" "0 < m" "npq_fixed l (global_queue q)" using local_queue_local [OF us] us by (simp_all add: dq_usable_def)
  from ins full obtain lq1 g1 where i: "npq_insert (local_queue q a) n = Inr lq1"
    "npq_insert (global_queue q) (neighbor_new (va_new (nbr_id n) a) (nbr_distance n)) = Inr g1" "q' = touched q a lq1 g1"
    unfolding dq_insert_unfold [OF us attr num] by (auto simp: rbind_eq_Inr_iff)
  have L: "map ekey (npq_entries (local_queue q a)) = filter (with_attr attr a) (dq_keys q)" using C(5) [of a] by (simp add: local_keys_def)
  have "map ekey (npq_entries lq1) = insort_key fst x (filter (with_attr attr a) (dq_keys q))"
    using local_insert_keys(1) [OF lq(1,2) num i(1) x(1)] full(1) C(2) x(2) unfolding L by (auto simp: strictly_filter new_cand_def)
  moreover have "map va_key (map ekey (npq_entries g1)) = insort_key fst x (dq_keys q)"
    using global_insert_keys(1) [OF lq(3) num i(2) x(1)] dq_full(3,4) [OF us c a] full(2) unfolding dq_keys_global [symmetric] by simp
  moreover have "\<forall>e\<in>set (npq_entries g1). attr (va_id (fst (snd e))) = Some (va_attribute (fst (snd e)))"
    using global_insert_keys(2) [OF lq(3) num i(2) x(1)] C(4) a x(1) by (auto simp: va_new_def with_attr_def)
  ultimately show ?thesis unfolding i(3)
    using touched_consistent [OF c _ new_cand_insort [OF C(2,3) x(2)], of g1 lq1 a] filter_with_attr_insort [OF C(2) a] by auto
qed

text \<open>The worst candidate of a full local queue gives way in the global queue.\<close>

lemma global_replace_keys:
  assumes us: "dq_usable l m q" and c: "dq_consistent attr q" and a: "with_attr attr a x" and x: "x = (nbr_distance n, nbr_id n)"
    and full: "is_full (local_queue q a)" and L: "L = filter (with_attr attr a) (dq_keys q)"
    and w: "w = last (npq_entries (local_queue q a))" and lt: "nbr_distance n \<noteq> NaN" "nbr_distance n < fst w"
    and ins: "npq_insert (snd (npq_remove (global_queue q) (neighbor_new (va_new (fst (snd w)) a) (fst w))))
      (neighbor_new (va_new (nbr_id n) a) (nbr_distance n)) = Inr g1"
  shows "map va_key (map ekey (npq_entries g1)) = insort_key fst x (filter (\<lambda>y. y \<noteq> last L) (dq_keys q))"
    "\<forall>e\<in>set (npq_entries g1). attr (va_id (fst (snd e))) = Some (va_attribute (fst (snd e)))"
proof -
  note C = dq_consistentD [OF c]
  note wl = local_last [OF us c full, folded L w]
  let ?v = "(fst w, va_new (fst (snd w)) a)"
  let ?g = "snd (npq_remove (global_queue q) (neighbor_new (snd ?v) (fst ?v)))"
  have fx: "npq_fixed l (global_queue q)" using us by (simp add: dq_usable_def)
  then have g: "npq_wf (global_queue q)" by (simp add: npq_fixed_def npq_usable_def npq_inv_def)
  have sg: "strictly (map ekey (npq_entries (global_queue q)))" using C(2) unfolding dq_keys_global fst_va_key .
  note rm = npq_remove_key [OF g sg wl(3)]
  have wn: "fst w \<noteq> NaN" using dq_worst(1) [OF us full] w by simp
  obtain g2 where g2: "npq_insert ?g (neighbor_new (va_new (nbr_id n) a) (nbr_distance n)) = Inr g2"
    "npq_size ?g < npq_size (global_queue q) \<Longrightarrow> npq_entries g2 = ins_entry (nbr_distance n) (va_new (nbr_id n) a) (npq_entries ?g)"
    using npq_remove_insert [OF fx, of "neighbor_new (va_new (nbr_id n) a) (nbr_distance n)" "neighbor_new (snd ?v) (fst ?v)"] lt wn
    by auto
  have e1: "npq_entries g1 = ins_entry (nbr_distance n) (va_new (nbr_id n) a) (npq_entries ?g)" using g2 ins rm(2) by simp
  have keys: "map va_key (map ekey (npq_entries ?g)) = filter (\<lambda>y. y \<noteq> last L) (dq_keys q)"
    unfolding rm(1) va_key_filter [OF sg wl(3)] dq_keys_global [symmetric] by (simp add: va_key_def va_new_def wl(2))
  show "map va_key (map ekey (npq_entries g1)) = insort_key fst x (filter (\<lambda>y. y \<noteq> last L) (dq_keys q))"
    unfolding e1 ekey_ins_entry va_key_insort keys by (simp add: va_key_def va_new_def x)
  show "\<forall>e\<in>set (npq_entries g1). attr (va_id (fst (snd e))) = Some (va_attribute (fst (snd e)))"
    using rm(4) C(4) a x unfolding e1 by (auto simp: ins_entry_def va_new_def with_attr_def)
qed

lemma dq_insert_local_full:
  assumes us: "dq_usable l m q" and c: "dq_consistent attr q" and x: "x = (nbr_distance n, nbr_id n)" "new_cand attr (dq_keys q) x"
    and a: "with_attr attr a x" and full: "is_full (local_queue q a)" and ins: "dq_insert q n = Inr q'"
    and L: "L = filter (with_attr attr a) (dq_keys q)"
  shows "dq_consistent attr q' \<and> dq_keys q' = (if fst x < fst (last L) then insort_key fst x (filter (\<lambda>y. y \<noteq> last L) (dq_keys q)) else dq_keys q)"
proof -
  note C = dq_consistentD [OF c]
  let ?w = "last (npq_entries (local_queue q a))" let ?G = "filter (\<lambda>y. y \<noteq> last L) (dq_keys q)"
  have num: "nbr_distance n \<noteq> NaN" and attr: "attribute_provider q (nbr_id n) = Some a" using x a C(1) by (simp_all add: new_cand_def with_attr_def)
  have lq: "npq_local m (local_queue q a)" "0 < m" using local_queue_local [OF us] us by (simp_all add: dq_usable_def)
  note w = local_last [OF us c full, folded L]
  note U = dq_insert_unfold [OF us attr num]
  show ?thesis
  proof (cases "fst x < fst (last L)")
    case False
    then have "q' = touched q a (local_queue q a) (global_queue q)" using ins full w(2) x(1) unfolding U by (simp add: Let_def)
    then show ?thesis using touched_same [OF c] False by simp
  next
    case True
    from True ins full w(2) x(1) obtain lq1 g1 where i: "npq_insert (local_queue q a) n = Inr lq1"
      "npq_insert (snd (npq_remove (global_queue q) (neighbor_new (va_new (fst (snd ?w)) a) (fst ?w))))
        (neighbor_new (va_new (nbr_id n) a) (nbr_distance n)) = Inr g1" "q' = touched q a lq1 g1"
      unfolding U by (auto simp: Let_def rbind_eq_Inr_iff)
    have lt: "nbr_distance n < fst ?w" using True w(2) x(1) by simp
    note k1 = global_replace_keys [OF us c a x(1) full L refl num lt i(2)]
    have sub: "set ?G \<subseteq> set (dq_keys q)" by auto
    have G: "strictly ?G" "distinct (map snd ?G)" using C(2,3) by (simp_all add: strictly_filter distinct_map_filter)
    have K: "map ekey (npq_entries (local_queue q a)) = L" using C(5) [of a] by (simp add: local_keys_def L)
    have dL: "distinct L" "strictly L" "fst x \<notin> fst ` set L"
      using strictlyD(2) [OF C(2)] C(2) x(2) by (auto simp: L strictly_filter new_cand_def)
    have lk: "map ekey (npq_entries lq1) = insort_key fst x (butlast L)"
      using local_insert_keys(2) [OF lq num i(1) x(1), unfolded K, OF dL(2,3) full] lt x(1) by simp
    have "filter (with_attr attr a) ?G = filter (\<lambda>y. y \<noteq> last L) L" by (simp add: L conj_commute)
    then have fa: "filter (with_attr attr a) ?G = butlast L" using filter_last [OF dL(1) w(1)] by simp
    have "with_attr attr a (last L)" using last_in_set [OF w(1)] by (auto simp: L)
    then have fb: "filter (with_attr attr b) ?G = filter (with_attr attr b) (dq_keys q)" if "b \<noteq> a" for b
      using that by (auto simp: with_attr_def intro!: filter_cong)
    show ?thesis unfolding i(3)
      using touched_consistent [OF c k1(1) new_cand_insort [OF G new_cand_sub [OF x(2) sub]] k1(2), of lq1 a]
        filter_with_attr_insort [OF G(1) a] lk fa fb True by auto
  qed
qed

lemma local_queue_drop:
  assumes "b \<noteq> va_attribute (fst (snd e))"
  shows "local_queue (drop_local e q) b = local_queue q b"
  using assms by (simp add: local_queue_def drop_local_def update_conv' split: option.splits)

lemma local_queue_drop_same:
  assumes "npq_entries (local_queue q (va_attribute (fst (snd e)))) \<noteq> []"
  shows "local_queue (drop_local e q) (va_attribute (fst (snd e)))
    = snd (npq_remove (local_queue q (va_attribute (fst (snd e)))) (neighbor_new (va_id (fst (snd e))) (fst e)))"
proof -
  have "map_of (local_queue_map q) (va_attribute (fst (snd e))) \<noteq> None"
    using assms by (auto simp: local_queue_def npq_new_def npq_entries_def split: option.splits)
  then show ?thesis by (auto simp: local_queue_def drop_local_def update_conv')
qed

text \<open>A state in which the local queues are those of \<open>H\<close> becomes consistent when the global queue has lost the worst of \<open>H\<close> and its local
  queue loses it too.\<close>

lemma drop_local_consistent:
  assumes us: "dq_usable l m q" and at: "attribute_provider q = attr"
    and H: "strictly H" "distinct (map snd H)" "\<And>b. local_keys q b = filter (with_attr attr b) H"
    and w: "va_key (ekey e) \<in> set H" "attr (va_id (fst (snd e))) = Some (va_attribute (fst (snd e)))"
    and G: "dq_keys q = filter (\<lambda>y. y \<noteq> va_key (ekey e)) H"
    and ats: "\<forall>e\<in>set (npq_entries (global_queue q)). attr (va_id (fst (snd e))) = Some (va_attribute (fst (snd e)))"
  shows "dq_consistent attr (drop_local e q) \<and> dq_keys (drop_local e q) = dq_keys q"
proof -
  let ?w = "va_key (ekey e)" and ?a = "va_attribute (fst (snd e))"
  have wk: "?w = (fst e, va_id (fst (snd e)))" by (simp add: va_key_def ekey_def)
  have keys: "dq_keys (drop_local e q) = dq_keys q" by (simp add: dq_keys_def dq_entries_def drop_local_def)
  have wa: "with_attr attr b ?w \<longleftrightarrow> b = ?a" for b using w(2) by (auto simp: with_attr_def wk)
  have lq: "npq_wf (local_queue q ?a)" using local_queue_local [OF us] by (simp add: npq_local_def)
  have in_l: "?w \<in> set (map ekey (npq_entries (local_queue q ?a)))" using H(3) [of ?a] w(1) wa by (simp add: local_keys_def)
  then have ne: "npq_entries (local_queue q ?a) \<noteq> []" by auto
  have "strictly (map ekey (npq_entries (local_queue q ?a)))" using H(1) H(3) [of ?a] by (simp only: local_keys_def [symmetric] strictly_filter)
  from npq_remove_key(1) [OF lq this in_l] have
    "local_keys (drop_local e q) ?a = filter (\<lambda>k. k \<noteq> ?w) (filter (with_attr attr ?a) H)"
    unfolding local_keys_def local_queue_drop_same [OF ne] H(3) [of ?a, unfolded local_keys_def] by (simp add: wk)
  moreover have "local_keys (drop_local e q) b = filter (with_attr attr b) H" if "b \<noteq> ?a" for b
    using that H(3) [of b] by (simp add: local_keys_def local_queue_drop)
  ultimately have "local_keys (drop_local e q) b = filter (with_attr attr b) (dq_keys q)" for b
    unfolding G using wa [of b] by (cases "b = ?a") (auto intro!: filter_cong)
  then show ?thesis unfolding dq_consistent_def keys
    using at ats H(1,2) unfolding G by (simp add: strictly_filter distinct_map_filter drop_local_def)
qed

lemma dq_insert_global_full:
  assumes us: "dq_usable l m q" and c: "dq_consistent attr q" and x: "x = (nbr_distance n, nbr_id n)" "new_cand attr (dq_keys q) x"
    and a: "with_attr attr a x" and full: "\<not> is_full (local_queue q a)" "is_full (global_queue q)" and ins: "dq_insert q n = Inr q'"
  shows "dq_consistent attr q' \<and> dq_keys q'
    = (if fst x < fst (last (dq_keys q)) then insort_key fst x (butlast (dq_keys q)) else dq_keys q)"
proof -
  note C = dq_consistentD [OF c]
  let ?w = "last (npq_entries (global_queue q))" let ?G = "dq_keys q" and ?H = "insort_key fst x (dq_keys q)"
  have num: "nbr_distance n \<noteq> NaN" and attr: "attribute_provider q (nbr_id n) = Some a" using x a C(1) by (simp_all add: new_cand_def with_attr_def)
  have lq: "npq_local m (local_queue q a)" "0 < m" "npq_fixed l (global_queue q)" using local_queue_local [OF us] us by (simp_all add: dq_usable_def)
  have ne: "npq_entries (global_queue q) \<noteq> []" using dq_worst(2) [OF us full(2)] by blast
  have Gne: "?G \<noteq> []" and wl: "last ?G = va_key (ekey ?w)" using ne by (simp_all add: dq_keys_global last_map)
  have wd: "fst (last ?G) = fst ?w" by (simp add: wl va_key_def ekey_def)
  note U = dq_insert_unfold [OF us attr num]
  show ?thesis
  proof (cases "fst x < fst (last ?G)")
    case False
    then have "q' = touched q a (local_queue q a) (global_queue q)" using ins full wd x(1) unfolding U by (simp add: Let_def)
    then show ?thesis using touched_same [OF c] False by simp
  next
    case True
    from True ins full wd x(1) obtain lq1 g1 where i: "npq_insert (local_queue q a) n = Inr lq1"
      "npq_insert (global_queue q) (neighbor_new (va_new (nbr_id n) a) (nbr_distance n)) = Inr g1"
      "q' = drop_local ?w (touched q a lq1 g1)" unfolding U by (auto simp: Let_def rbind_eq_Inr_iff)
    let ?t = "touched q a lq1 g1"
    have "npq_local m lq1" using npq_local_insert [OF lq(1,2), of n] i(1) by auto
    then have ut: "dq_usable l m ?t" using touched_usable [OF us] npq_insert_fixed [OF lq(3) i(2)] by blast
    have H: "strictly ?H" "distinct (map snd ?H)" using new_cand_insort [OF C(2,3) x(2)] .
    have L: "map ekey (npq_entries (local_queue q a)) = filter (with_attr attr a) ?G" using C(5) [of a] by (simp add: local_keys_def)
    have "map ekey (npq_entries lq1) = insort_key fst x (filter (with_attr attr a) ?G)"
      using local_insert_keys(1) [OF lq(1,2) num i(1) x(1)] full(1) C(2) x(2) unfolding L by (auto simp: strictly_filter new_cand_def)
    then have lk: "local_keys ?t b = filter (with_attr attr b) ?H" for b
      using C(5) [of b] filter_with_attr_insort [OF C(2) a, of b] by (simp add: local_keys_def local_queue_touched)
    have wH: "last ?G \<in> set ?H" and xw: "x \<noteq> last ?G" using Gne new_cand_ne [OF x(2)] by (simp_all add: set_insort_key)
    have "map va_key (map ekey (npq_entries g1)) = take (length ?G) (insort_key fst x (?G @ []))"
      using global_insert_keys(1) [OF lq(3) num i(2) x(1)] dq_full(3) [OF us c a] full(2) unfolding dq_keys_global [symmetric] by simp
    also have "\<dots> = insort_key fst x (butlast ?G)" using take_insort [of ?G "[]" x] C(2) Gne True by simp
    finally have k: "dq_keys ?t = insort_key fst x (butlast ?G)" by (simp add: dq_keys_global touched_def)
    have "insort_key fst x (butlast ?G) = filter (\<lambda>y. y \<noteq> last ?G) ?H"
      using filter_insort [OF strictlyD(1) [OF C(2)], of "\<lambda>y. y \<noteq> last ?G" x] xw filter_last [OF strictlyD(2) [OF C(2)] Gne] by simp
    then have keys: "dq_keys ?t = filter (\<lambda>y. y \<noteq> va_key (ekey ?w)) ?H" "dq_keys ?t = insort_key fst x (butlast ?G)"
      using k unfolding wl by simp_all
    have "\<forall>e\<in>set (npq_entries (global_queue ?t)). attr (va_id (fst (snd e))) = Some (va_attribute (fst (snd e)))"
      using global_insert_keys(2) [OF lq(3) num i(2) x(1)] C(4) a x(1) by (auto simp: va_new_def with_attr_def touched_def)
    from drop_local_consistent [OF ut _ H lk wH [unfolded wl] C(4) [OF last_in_set [OF ne]] keys(1) this] C(1)
    show ?thesis unfolding i(3) using keys(2) True by (simp add: touched_def)
  qed
qed

text \<open>One insertion is the insertion of the specification.\<close>

lemma dq_insert_refines:
  assumes us: "dq_usable l m q" and c: "dq_consistent attr q" and x: "x = (nbr_distance n, nbr_id n)" "new_cand attr (dq_keys q) x"
    and a: "attr (snd x) \<noteq> None" and ins: "dq_insert q n = Inr q'"
  shows "dq_consistent attr q' \<and> dq_keys q' = dins attr l m x (dq_keys q)"
proof -
  from a obtain a where a: "with_attr attr a x" by (auto simp: with_attr_def)
  then have sm: "same_attr attr x = with_attr attr a" by (auto simp: fun_eq_iff same_attr_def with_attr_def)
  note f = dq_full [OF us c a, unfolded sm]
  consider (room) "\<not> is_full (local_queue q a)" "\<not> is_full (global_queue q)" | (lfull) "is_full (local_queue q a)"
    | (gfull) "\<not> is_full (local_queue q a)" "is_full (global_queue q)" by blast
  then show ?thesis
  proof cases
    case room
    with dq_insert_room [OF us c x a room ins] f show ?thesis by (simp add: dins_def Let_def sm)
  next
    case lfull
    with dq_insert_local_full [OF us c x a lfull ins refl] f show ?thesis by (simp add: dins_def Let_def sm)
  next
    case gfull
    with dq_insert_global_full [OF us c x a gfull ins] f show ?thesis by (simp add: dins_def Let_def sm)
  qed
qed

section \<open>The post-processing\<close>

lemma npq_truncate_local:
  assumes "npq_local m lq"
  shows "npq_local m (npq_truncate lq k)"
proof -
  have w: "npq_wf lq" using assms by (simp add: npq_local_def)
  have "sorted (take k (distances lq))" using npq_wfD(5) [OF w] by (rule sorted_wrt_take)
  then show ?thesis using assms npq_wfD [OF w] by (auto simp: npq_local_def npq_wf_def npq_truncate_def dest: in_set_takeD)
qed

text \<open>The identifiers to remove: per attribute those beyond the first \<open>dk\<close>.\<close>

lemma local_items:
  assumes us: "dq_usable l m q" and c: "dq_consistent attr q" and b: "(b, lq) \<in> set (local_queue_map q)"
  shows "(if dk < npq_size lq then nbr_id ` set (drop dk (npq_iter lq)) else {}) = snd ` set (drop dk (filter (with_attr attr b) (dq_keys q)))"
proof -
  have lq: "npq_local m lq" "local_queue q b = lq" using b us by (auto simp: dq_usable_def local_queue_def)
  then have k: "map ekey (npq_entries lq) = filter (with_attr attr b) (dq_keys q)" and wf: "npq_wf lq"
    and sz: "search_param_l lq = m" "npq_size lq \<le> m"
    using dq_consistentD(5) [OF c, of b] npq_wfD(3) by (auto simp: local_keys_def npq_local_def)
  have "npq_iter lq = map entry_nbr (npq_entries lq)" using npq_iter_entries [OF wf] sz length_entries [OF wf] by simp
  then have "map nbr_id (drop dk (npq_iter lq)) = map snd (drop dk (map ekey (npq_entries lq)))"
    by (simp add: drop_map entry_nbr_def ekey_def)
  then have "nbr_id ` set (drop dk (npq_iter lq)) = snd ` set (drop dk (filter (with_attr attr b) (dq_keys q)))"
    unfolding k by (metis list.set_map)
  moreover have "length (filter (with_attr attr b) (dq_keys q)) = npq_size lq" using length_entries [OF wf] k by (metis length_map)
  ultimately show ?thesis by (auto simp: not_less)
qed

lemma removed_items_keys:
  assumes us: "dq_usable l m q" and c: "dq_consistent attr q" and a: "with_attr attr a y" and y: "y \<in> set (dq_keys q)"
  shows "snd y \<in> removed_items dk (local_queue_map q) \<longleftrightarrow> y \<in> set (drop dk (filter (with_attr attr a) (dq_keys q)))"
proof -
  note C = dq_consistentD [OF c]
  have eq: "removed_items dk (local_queue_map q)
      = (\<Union>(b, lq) \<in> set (local_queue_map q). snd ` set (drop dk (filter (with_attr attr b) (dq_keys q))))"
    unfolding removed_items_def using local_items [OF us c, of _ _ dk] by (intro SUP_cong refl) (simp only: split_def prod.collapse)
  have ids: "inj_on snd (set (dq_keys q))" using C(3) by (simp add: distinct_map)
  show ?thesis
  proof
    assume "snd y \<in> removed_items dk (local_queue_map q)"
    then obtain b z where z: "z \<in> set (drop dk (filter (with_attr attr b) (dq_keys q)))" "snd z = snd y" unfolding eq by force
    then have zb: "z \<in> set (dq_keys q)" "with_attr attr b z" by (auto dest!: in_set_dropD)
    then have "z = y" using ids y z(2) by (meson inj_onD)
    then show "y \<in> set (drop dk (filter (with_attr attr a) (dq_keys q)))" using z(1) zb(2) a by (simp add: with_attr_def)
  next
    assume d: "y \<in> set (drop dk (filter (with_attr attr a) (dq_keys q)))"
    have "local_keys q a \<noteq> []" using d C(5) [of a] by auto
    then obtain lq where "map_of (local_queue_map q) a = Some lq"
      by (auto simp: local_keys_def local_queue_def npq_new_def npq_entries_def split: option.splits)
    then have "(a, lq) \<in> set (local_queue_map q)" by (rule map_of_SomeD)
    then show "snd y \<in> removed_items dk (local_queue_map q)" unfolding eq using d by blast
  qed
qed

lemma removed_items_iff:
  assumes us: "dq_usable l m q" and c: "dq_consistent attr q" and y: "y \<in> set (dq_keys q)"
  shows "snd y \<in> removed_items dk (local_queue_map q) \<longleftrightarrow> dk \<le> cand_rank attr (dq_keys q) y"
proof -
  note C = dq_consistentD [OF c]
  from y obtain e where e: "e \<in> set (npq_entries (global_queue q))" "y = va_key (ekey e)" by (auto simp: dq_keys_global)
  then obtain a where a: "with_attr attr a y" using C(4) by (simp add: with_attr_def va_key_def ekey_def)
  let ?F = "filter (with_attr attr a) (dq_keys q)"
  have F: "strictly ?F" "distinct (take dk ?F @ drop dk ?F)" "y \<in> set (take dk ?F @ drop dk ?F)"
    using strictly_filter [OF C(2)] strictlyD(2) [OF C(2)] y a by simp_all
  have "y \<in> set (take dk ?F) \<longleftrightarrow> length (filter (\<lambda>z. fst z < fst y) ?F) < dk"
    unfolding filter_rank_take [OF F(1), of dk, symmetric] using y a by simp
  moreover have "y \<in> set (take dk ?F) \<longleftrightarrow> y \<notin> set (drop dk ?F)" using F(2,3) unfolding distinct_append set_append by blast
  moreover have "length (filter (\<lambda>z. fst z < fst y) ?F) = cand_rank attr (dq_keys q) y"
    using a by (auto simp: cand_rank_def same_attr_def with_attr_def conj_commute intro!: arg_cong [where f = length] filter_cong)
  ultimately show ?thesis using removed_items_keys [OF us c a y, of dk] by (metis not_less)
qed

lemma retain_loop_params:
  "search_param_l (snd (retain_loop f n r w q)) = search_param_l q"
  by (induction n arbitrary: r w q) (auto simp: Let_def)

lemma npq_retain_params: "search_param_l (npq_retain f q) = search_param_l q"
  using retain_loop_params [of f "npq_size q" 0 0 q] by (auto simp: npq_retain_def npq_truncate_def split: prod.splits)

text \<open>What is left is the cap of the entries at \<open>diverse_results_k\<close>.\<close>

lemma post_process_keys:
  assumes us: "dq_usable l m q" and c: "dq_consistent attr q"
  shows "dq_keys (post_process q) = capped attr (diverse_results_k q) (dq_keys q)"
    "dq_iter (post_process q) = map (\<lambda>x. neighbor_new (snd x) (fst x)) (dq_keys (post_process q))"
proof -
  let ?dk = "diverse_results_k q" let ?R = "removed_items ?dk (local_queue_map q)" and ?g = "global_queue q"
  let ?f = "\<lambda>n. va_id (nbr_id n) \<notin> ?R"
  have g: "npq_wf ?g" "npq_capacity ?g = l" "search_param_l ?g = l"
    using us by (auto simp: dq_usable_def npq_fixed_def npq_usable_def npq_inv_def)
  define g' where "g' = (if ?R = {} then ?g else npq_retain ?f ?g)"
  have g': "global_queue (post_process q) = g'" by (simp add: post_process_def Let_def g'_def)
  have key: "ekey (unvisit e) = ekey e" for e :: "('i, 'a) vector_id_with_attribute entry" by (simp add: ekey_def unvisit_def)
  have "map ekey (npq_entries g') = filter (\<lambda>k. va_id (snd k) \<notin> ?R) (map ekey (npq_entries ?g))"
    using npq_retain_spec(1) [OF g(1), of ?f] by (simp add: g'_def key o_def filter_map entry_nbr_def ekey_def unvisit_def)
  then have "dq_keys (post_process q) = filter (\<lambda>y. snd y \<notin> ?R) (dq_keys q)"
    unfolding dq_keys_global g' by (simp add: filter_map o_def va_key_def)
  also have "\<dots> = capped attr ?dk (dq_keys q)"
    unfolding capped_def using removed_items_iff [OF us c] by (intro filter_cong refl) (simp add: not_le [symmetric])
  finally show "dq_keys (post_process q) = capped attr ?dk (dq_keys q)" .
  have wf: "npq_wf g'" "search_param_l g' = l"
    using g npq_retain_spec(2) [OF g(1)] by (simp_all add: g'_def npq_retain_params)
  have "length (npq_entries g') \<le> length (npq_entries ?g)" using npq_retain_spec(1) [OF g(1), of ?f] by (simp add: g'_def)
  then have "npq_size g' \<le> npq_size ?g" unfolding length_entries [OF wf(1)] length_entries [OF g(1)] .
  then have sz: "npq_size g' \<le> l" using npq_wfD(3) [OF g(1)] g(2) by simp
  have "dq_iter (post_process q) = map without_attribute (npq_iter g')" by (simp add: dq_iter_def npq_iter_def g')
  also have "\<dots> = map (\<lambda>x. neighbor_new (snd x) (fst x)) (dq_keys (post_process q))"
    using npq_iter_entries [OF wf(1)] wf(2) sz length_entries [OF wf(1)]
    by (simp add: dq_keys_global g' without_attribute_def entry_nbr_def va_key_def ekey_def)
  finally show "dq_iter (post_process q) = map (\<lambda>x. neighbor_new (snd x) (fst x)) (dq_keys (post_process q))" .
qed

section \<open>Sequences of insertions\<close>

text \<open>The candidates among some identifiers: those with an attribute and a distance that is a number, by distance.\<close>

definition candidates :: "('i \<Rightarrow> 'a option) \<Rightarrow> ('i \<Rightarrow> f32) \<Rightarrow> 'i list \<Rightarrow> 'i cand list" where
  "candidates attr D is = sort_key fst (map (\<lambda>i. (D i, i)) (filter (\<lambda>i. D i \<noteq> NaN \<and> attr i \<noteq> None) is))"

lemma set_candidates: "set (candidates attr D is) = (\<lambda>i. (D i, i)) ` {i \<in> set is. D i \<noteq> NaN \<and> attr i \<noteq> None}"
  by (auto simp: candidates_def)

lemma candidates_strictly:
  assumes "distinct is" "inj_on D {i \<in> set is. D i \<noteq> NaN}"
  shows "strictly (candidates attr D is)"
proof -
  let ?xs = "map (\<lambda>i. (D i, i)) (filter (\<lambda>i. D i \<noteq> NaN \<and> attr i \<noteq> None) is)"
  have "map fst ?xs = map D (filter (\<lambda>i. D i \<noteq> NaN \<and> attr i \<noteq> None) is)" by simp
  moreover have "distinct (map D (filter (\<lambda>i. D i \<noteq> NaN \<and> attr i \<noteq> None) is))"
    unfolding distinct_map using assms by (auto intro: inj_on_subset)
  ultimately have "distinct (map fst ?xs)" by (rule ssubst)
  moreover have "mset (map fst (sort_key fst ?xs)) = mset (map fst ?xs)" by (simp only: mset_map mset_sort)
  ultimately have "distinct (map fst (sort_key fst ?xs))" using mset_eq_imp_distinct_iff by blast
  then show ?thesis unfolding candidates_def strict_sorted_iff by simp
qed

lemma candidates_Cons:
  "candidates attr D (i # is) = (if D i \<noteq> NaN \<and> attr i \<noteq> None then insort_key fst (D i, i) (candidates attr D is) else candidates attr D is)"
  by (simp add: candidates_def)

lemma selected_sub: "set (selected attr l m S) \<subseteq> set S"
  by (auto simp: selected_def capped_def dest!: in_set_takeD)

text \<open>The state of a queue after the insertion of some identifiers.\<close>

definition dq_holds :: "('i \<Rightarrow> 'a option) \<Rightarrow> ('i \<Rightarrow> f32) \<Rightarrow> nat \<Rightarrow> nat \<Rightarrow> 'i list \<Rightarrow> ('i, 'a) diverse_queue \<Rightarrow> bool" where
  "dq_holds attr D l m is q \<longleftrightarrow> dq_usable l m q \<and> dq_consistent attr q \<and> dq_keys q = selected attr l m (candidates attr D is)"

lemma dq_holds_new:
  assumes "0 < l" "0 < dk * l div k"
  shows "dq_holds attr D l (dk * l div k) [] (dq_new l k dk attr)"
  using assms npq_inv_new [of l]
  by (simp add: dq_holds_def dq_usable_def dq_consistent_def dq_new_def dq_keys_def dq_entries_def candidates_def selected_def
      capped_def npq_fixed_def npq_usable_def npq_new_def npq_entries_def local_keys_def local_queue_def)

lemma dq_holds_insert:
  assumes h: "dq_holds attr D l m is q" and d: "distinct (i # is)" "inj_on D {j \<in> set (i # is). D j \<noteq> NaN}"
    and ins: "dq_insert q (neighbor_new i (D i)) = Inr q'"
  shows "dq_holds attr D l m (i # is) q'"
proof -
  let ?n = "neighbor_new i (D i)" and ?S = "candidates attr D is"
  from h have us: "dq_usable l m q" and c: "dq_consistent attr q" and k: "dq_keys q = selected attr l m ?S" by (simp_all add: dq_holds_def)
  have us': "dq_usable l m q'" using dq_insert_usable [OF us, of ?n] ins by auto
  note C = dq_consistentD [OF c]
  have lm: "0 < l" "0 < m" using dq_worst(3,5) [OF us] by simp_all
  consider (none) "attr i = None" | (nan) "attr i \<noteq> None" "D i = NaN" | (cand) "attr i \<noteq> None" "D i \<noteq> NaN" by blast
  then show ?thesis
  proof cases
    case none
    then have "q' = q" using ins C(1) by (simp add: dq_insert_def)
    then show ?thesis using h none by (simp add: dq_holds_def candidates_Cons)
  next
    case nan
    then obtain a where "attribute_provider q (nbr_id ?n) = Some a" using C(1) by auto
    then have "q' = touched q a (local_queue q a) (global_queue q)" using dq_insert_NaN [OF us] nan(2) ins by simp
    then show ?thesis using us' touched_same [OF c] k nan by (simp add: dq_holds_def candidates_Cons)
  next
    case cand
    let ?x = "(D i, i)"
    have S: "strictly ?S" using d by (intro candidates_strictly) (auto intro: inj_on_subset)
    have xS: "fst ?x \<notin> fst ` set ?S"
    proof
      assume "fst ?x \<in> fst ` set ?S"
      then obtain j where j: "j \<in> set is" "D j = D i" "D j \<noteq> NaN" by (auto simp: set_candidates)
      have "j = i" by (rule inj_onD [OF d(2) j(2)]) (use j cand(2) in auto)
      then show False using d(1) j(1) by simp
    qed
    have ids: "i \<notin> snd ` set ?S" using d(1) by (auto simp: set_candidates)
    have "new_cand attr (dq_keys q) ?x" unfolding new_cand_def k using xS ids cand(2) selected_sub [of attr l m ?S] unfolding fst_conv snd_conv by blast
    from dq_insert_refines [OF us c _ this _ ins] cand(1) have
      "dq_consistent attr q' \<and> dq_keys q' = dins attr l m ?x (selected attr l m ?S)" by (simp add: k)
    then show ?thesis using us' dins_selected [OF S xS lm] cand by (simp add: dq_holds_def candidates_Cons)
  qed
qed

lemma closest_notvisited_keys:
  assumes "npq_usable g" "closest_notvisited g = Inr (c, g')"
  shows "map ekey (npq_entries g') = map ekey (npq_entries g)"
proof (cases "has_notvisited_node g")
  case True
  have inv: "npq_inv g" using assms(1) by (simp add: npq_usable_def)
  then have lt: "npq_cursor g < length (npq_entries g)" using True length_entries [of g] by (simp add: has_notvisited_node_def npq_inv_def)
  from closest_notvisited_Some [OF inv True] assms(2) have "npq_entries g' = visit_entry (npq_cursor g) (npq_entries g)" by auto
  then show ?thesis using lt by (simp add: visit_entry_def map_update ekey_def list_update_same_conv)
next
  case False
  with assms(2) show ?thesis by (simp add: closest_notvisited_None)
qed

lemma dq_holds_visit:
  assumes h: "dq_holds attr D l m is q" and v: "dq_closest_notvisited q = Inr (c, q')"
  shows "dq_holds attr D l m is q'"
proof -
  from h have us: "dq_usable l m q" and cs: "dq_consistent attr q" and k: "dq_keys q = selected attr l m (candidates attr D is)"
    by (simp_all add: dq_holds_def)
  from v obtain c' g' where g': "closest_notvisited (global_queue q) = Inr (c', g')" "q' = q\<lparr>global_queue := g'\<rparr>"
    by (auto simp: dq_closest_notvisited_def rbind_eq_Inr_iff)
  have fx: "npq_fixed l (global_queue q)" using us by (simp add: dq_usable_def)
  have keys: "map ekey (npq_entries g') = map ekey (npq_entries (global_queue q))"
    by (rule closest_notvisited_keys [OF npq_fixed_usable [OF fx] g'(1)])
  have "dq_usable l m q'" using us closest_notvisited_fixed [OF fx g'(1)] by (simp add: dq_usable_def g'(2))
  moreover have kq: "dq_keys q' = dq_keys q" unfolding dq_keys_global g'(2) by (simp add: keys del: map_map)
  moreover have "attr (va_id (fst (snd e))) = Some (va_attribute (fst (snd e)))" if "e \<in> set (npq_entries g')" for e
  proof -
    have "ekey e \<in> ekey ` set (npq_entries (global_queue q))" using that keys by (metis image_eqI list.set_map)
    then show ?thesis using dq_consistentD(4) [OF cs] by (auto simp: ekey_def)
  qed
  moreover have "local_keys q' a = local_keys q a" for a by (simp add: g'(2) local_keys_def local_queue_def cong: option.case_cong)
  ultimately show ?thesis using cs k by (simp add: dq_holds_def dq_consistent_def g'(2))
qed

text \<open>In a selection a candidate has the same rank as among all candidates.\<close>

lemma selected_rank:
  assumes "strictly S" "y \<in> set (selected attr l m S)"
  shows "cand_rank attr (selected attr l m S) y = cand_rank attr S y"
proof -
  let ?G = "selected attr l m S"
  obtain R where R: "capped attr m S = ?G @ R" "strictly (?G @ R)" using selected_parts [OF assms(1)] by metis
  have ry: "cand_rank attr S y < m" using assms(2) R(1) by (auto simp: capped_def selected_def dest!: in_set_takeD)
  have "filter (\<lambda>z. same_attr attr y z \<and> fst z < fst y) ?G = filter (\<lambda>z. same_attr attr y z \<and> fst z < fst y) (?G @ R)"
  proof -
    have "\<not> fst z < fst y" if "z \<in> set R" for z using R(2) assms(2) that unfolding strictly_append by (meson less_asym)
    then have "filter (\<lambda>z. same_attr attr y z \<and> fst z < fst y) R = []" by (auto simp: filter_empty_conv)
    then show ?thesis by simp
  qed
  also have "\<dots> = filter (\<lambda>z. same_attr attr y z \<and> fst z < fst y) S"
  proof -
    have "cand_rank attr S z < m" if "z \<in> set S" "same_attr attr y z" "fst z < fst y" for z
      using cand_rank_less [OF that(2,1,3)] ry by linarith
    then show ?thesis unfolding R(1) [symmetric] capped_def filter_filter by (intro filter_cong) auto
  qed
  finally show ?thesis by (simp add: cand_rank_def)
qed

lemma post_process_holds:
  assumes h: "dq_holds attr D l m is q" and d: "distinct is" "inj_on D {i \<in> set is. D i \<noteq> NaN}"
  shows "dq_iter (post_process q) = map (\<lambda>x. neighbor_new (snd x) (fst x))
    (filter (\<lambda>x. cand_rank attr (candidates attr D is) x < diverse_results_k q) (selected attr l m (candidates attr D is)))"
proof -
  from h have us: "dq_usable l m q" and c: "dq_consistent attr q" and k: "dq_keys q = selected attr l m (candidates attr D is)"
    by (simp_all add: dq_holds_def)
  have "capped attr (diverse_results_k q) (dq_keys q)
      = filter (\<lambda>x. cand_rank attr (candidates attr D is) x < diverse_results_k q) (selected attr l m (candidates attr D is))"
    unfolding capped_def k by (intro filter_cong refl) (simp only: selected_rank [OF candidates_strictly [OF d]])
  then show ?thesis using post_process_keys [OF us c] by simp
qed

section \<open>Properties\<close>

lemma candidates_set:
  assumes "distinct is" "distinct js" "set is = set js" "inj_on D {i \<in> set is. D i \<noteq> NaN}"
  shows "candidates attr D is = candidates attr D js"
proof (rule strictly_unique)
  show "strictly (candidates attr D is)" "strictly (candidates attr D js)" using assms by (simp_all add: candidates_strictly)
  show "set (candidates attr D is) = set (candidates attr D js)" using assms(3) by (simp add: set_candidates)
qed

lemma dq_insert_results_k: "dq_insert q n = Inr q' \<Longrightarrow> diverse_results_k q' = diverse_results_k q"
  by (auto simp: dq_insert_def Let_def rbind_eq_Inr_iff split: option.splits if_splits)

lemma dq_insert_ids:
  assumes "dq_holds attr D l m ds q" "distinct (is @ ds)" "inj_on D {i \<in> set (is @ ds). D i \<noteq> NaN}"
  shows "\<exists>q'. rfold (\<lambda>i q. dq_insert q (neighbor_new i (D i))) is q = Inr q' \<and> dq_holds attr D l m (rev is @ ds) q'"
  using assms
proof (induction "is" arbitrary: ds q)
  case (Cons i "is")
  have us: "dq_usable l m q" using Cons.prems(1) by (simp add: dq_holds_def)
  obtain q1 where q1: "dq_insert q (neighbor_new i (D i)) = Inr q1" using dq_insert_usable [OF us] by blast
  have h1: "dq_holds attr D l m (i # ds) q1"
    using Cons.prems by (intro dq_holds_insert [OF Cons.prems(1) _ _ q1]) (auto elim: inj_on_subset)
  have "distinct (is @ i # ds)" "inj_on D {j \<in> set (is @ i # ds). D j \<noteq> NaN}" using Cons.prems by (auto elim: inj_on_subset)
  from Cons.IH [OF h1 this] q1 show ?case by simp
qed simp

text \<open>C9: when a diverse queue of length \<open>l\<close> is given distinct identifiers whose distances are distinct numbers or not
  numbers, every insertion succeeds.  The queue then yields, of all candidates with an attribute and a numeric distance, the
  \<open>l\<close> closest among those with fewer than \<open>diverse_results_l\<close> closer candidates of the same attribute, in
  ascending order; and after the post-processing those of them with fewer than \<open>diverse_results_k\<close> closer candidates of the same attribute.\<close>

theorem diverse_queue_selects:
  assumes "0 < l" "0 < dk * l div k" "distinct is" "inj_on D {i \<in> set is. D i \<noteq> NaN}"
  shows "\<exists>q. rfold (\<lambda>i q. dq_insert q (neighbor_new i (D i))) is (dq_new l k dk attr) = Inr q
    \<and> dq_iter q = map (\<lambda>x. neighbor_new (snd x) (fst x)) (selected attr l (dk * l div k) (candidates attr D is))
    \<and> dq_iter (post_process q) = map (\<lambda>x. neighbor_new (snd x) (fst x))
        (filter (\<lambda>x. cand_rank attr (candidates attr D is) x < dk) (selected attr l (dk * l div k) (candidates attr D is)))"
proof -
  let ?m = "dk * l div k"
  have dist: "distinct (is @ [])" "inj_on D {i \<in> set (is @ []). D i \<noteq> NaN}" using assms(3,4) by simp_all
  from dq_insert_ids [OF dq_holds_new [OF assms(1,2), of attr D] dist] obtain q where
    q: "rfold (\<lambda>i q. dq_insert q (neighbor_new i (D i))) is (dq_new l k dk attr) = Inr q" "dq_holds attr D l ?m (rev is) q" by auto
  have S: "candidates attr D (rev is) = candidates attr D is" using assms(3,4) by (intro candidates_set) simp_all
  have dk: "diverse_results_k q = dk"
    by (rule rfold_invariant [OF q(1)]) (simp_all add: dq_new_def dq_insert_results_k)
  have us: "dq_usable l ?m q" and k: "dq_keys q = selected attr l ?m (candidates attr D is)" using q(2) by (simp_all add: dq_holds_def S)
  have "length (dq_keys q) \<le> l" unfolding k by (simp add: selected_def)
  then have "dq_iter q = map (\<lambda>x. neighbor_new (snd x) (fst x)) (dq_keys q)"
    using dq_iter_entries [OF us] by (simp add: dq_keys_def entry_nbr_def ekey_def)
  moreover note post_process_holds [OF q(2)] 
  ultimately show ?thesis using q(1) assms(3,4) k dk by (simp add: S)
qed

theorem diverse_queue_selects_witness:
  "\<exists>q. rfold (\<lambda>i q. dq_insert q (neighbor_new i (Fin (int i)))) [5, 3, 1, 2] (dq_new 2 2 (1::nat) (\<lambda>i. Some (i mod 2))) = Inr q
    \<and> dq_iter (post_process q) = [neighbor_new 1 (Fin 1), neighbor_new (2::nat) (Fin 2)]"
proof -
  have "0 < (2::nat)" "0 < 1 * 2 div (2::nat)" "distinct [5, 3, 1, 2::nat]"
    "inj_on (\<lambda>i. Fin (int i)) {i \<in> set [5, 3, 1, 2::nat]. Fin (int i) \<noteq> NaN}" by (auto simp: inj_on_def)
  from diverse_queue_selects [OF this, of "\<lambda>i. Some (i mod 2)"] show ?thesis
    by (auto simp: selected_def capped_def cand_rank_def candidates_def same_attr_def)
qed

text \<open>With equal distances a removal can miss its candidate, because it looks at the first entry at that distance only.  Four candidates
  are asked for with at most one per attribute; 10 and 11 have the same attribute, and 20 has the distance of 10.
  When the closer 11 arrives, 10 leaves the local queue and stays in the global one, and both are results.\<close>

theorem diverse_queue_ties:
  "(case rfold (\<lambda>(i, d) q. dq_insert q (neighbor_new i (Fin d))) [(10, 2), (20, 2), (11, 1)]
        (dq_new 4 4 1 (\<lambda>i. Some (20 \<le> i))) of
      Inl _ \<Rightarrow> [] | Inr q \<Rightarrow> map nbr_id (dq_iter (post_process q))) = [11, 20, 10::nat]"
  by code_simp

text \<open>With \<open>diverse_results_k = 0\<close> the local queues have no room and the first candidate with an attribute makes \<open>insert\<close> compute \<open>0 - 1\<close>.\<close>

theorem diverse_queue_zero:
  assumes "attr i = Some a"
  shows "dq_insert (dq_new l k 0 attr) (neighbor_new i d) = Inl OverflowFault"
  using assms by (simp add: dq_insert_def dq_new_def Let_def local_queue_def is_full_def npq_new_def)

end
