(* ===== verification/Diverse_Search.thy ===== *)
theory Diverse_Search
  imports Range_Search Diverse_Refine
begin

text \<open>
  The diverse search of \<open>diskann/src/graph/search/diverse_search.rs\<close>: the greedy search with a diverse queue, its
  post-processing, and the copy of the results to the output buffer.  With distances that are all different, the results are
  the selection that \<open>Diverse_Spec\<close> makes of all vertices the search visited.
\<close>

section \<open>Operations\<close>

definition diverse_scratch :: "knn \<Rightarrow> nat \<Rightarrow> ('i \<Rightarrow> 'a option) \<Rightarrow> ('i, ('i, 'a) diverse_queue) search_scratch" where
  "diverse_scratch p dk provider =
     \<lparr>best = dq_new (knn_l_value p) (k_value p) dk provider, visited = {}, id_scratch = [], beam_nodes = [], range_frontier = [],
      in_range = [], hops = 0, cmps = 0\<rparr>"

definition diverse_search ::
  "knn \<Rightarrow> nat \<Rightarrow> ('i \<Rightarrow> 'x option) \<Rightarrow> ('i, 'v, 'e, 'a) search_accessor \<Rightarrow> ('v \<Rightarrow> f32) \<Rightarrow> 'i list \<Rightarrow> 'a
    \<Rightarrow> ('b \<Rightarrow> ('i \<times> f32) list \<Rightarrow> nat \<times> 'b) \<Rightarrow> 'b \<Rightarrow> ('e search_error + (full_stats \<times> 'b)) option" where
  "diverse_search p dk provider acc computer start_ids a ext output =
     map_option (\<lambda>res. rbind res (\<lambda>(stats, s, _, _).
         case copy_ids ext (take (knn_l_value p) (dq_iter (post_process (best s)))) output of (n, b) \<Rightarrow> Inr (finish stats n, b)))
       (search_internal acc computer dq_ops noop_record (Some (knn_beam_width p)) start_ids (diverse_scratch p dk provider) () a)"

section \<open>The queue during a search\<close>

text \<open>The queue holds the selection of what was visited.\<close>

definition diverse_state ::
  "('i \<Rightarrow> 'x option) \<Rightarrow> ('i \<Rightarrow> f32) \<Rightarrow> nat \<Rightarrow> nat \<Rightarrow> nat \<Rightarrow> ('i, ('i, 'x) diverse_queue) search_scratch \<Rightarrow> bool" where
  "diverse_state attr D l m dk s \<longleftrightarrow>
     (\<exists>vs. distinct vs \<and> set vs = visited s \<and> dq_holds attr D l m vs (best s)) \<and> diverse_results_k (best s) = dk"

lemma pop_beam_holds:
  assumes "dq_holds attr D l m vs (best s)" "pop_beam dq_ops rec n s r = Inr (s', r')"
  shows "dq_holds attr D l m vs (best s') \<and> visited s' = visited s \<and> diverse_results_k (best s') = diverse_results_k (best s)"
  using assms
proof (induction n arbitrary: s r)
  case (Suc n)
  from Suc.prems(2) obtain c q where c: "dq_closest_notvisited (best s) = Inr (c, q)"
    and rest: "(case c of None \<Rightarrow> Inr (s\<lparr>best := q\<rparr>, r)
       | Some node \<Rightarrow> pop_beam dq_ops rec n (s\<lparr>best := q, beam_nodes := beam_nodes s @ [nbr_id node]\<rparr>)
             (rec r node (hops s) (cmps s))) = Inr (s', r')"
    by (auto simp: rbind_eq_Inr_iff)
  have h: "dq_holds attr D l m vs q" by (rule dq_holds_visit [OF Suc.prems(1) c])
  have k: "diverse_results_k q = diverse_results_k (best s)" using c by (auto simp: dq_closest_notvisited_def rbind_eq_Inr_iff)
  show ?case
  proof (cases c)
    case None
    with rest h k show ?thesis by auto
  next
    case (Some node)
    with rest Suc.IH [of "s\<lparr>best := q, beam_nodes := beam_nodes s @ [nbr_id node]\<rparr>"] h k show ?thesis by auto
  qed
qed simp

lemma found_insert: "nq_insert dq_ops q (found acc computer i) = dq_insert q (neighbor_new i (dist_of acc computer i))"
  by (simp add: found_def)

lemma rfold_map: "rfold f (map g xs) s = rfold (\<lambda>x. f (g x)) xs s"
proof (induction xs arbitrary: s)
  case (Cons x xs)
  then have "rfold f (map g xs) = rfold (\<lambda>x. f (g x)) xs" by (intro ext)
  then show ?case by simp
qed simp

lemma insert_found_holds:
  assumes h: "dq_holds attr D l m vs q" and fs: "distinct fs" "set fs \<inter> set vs = {}" "distinct vs"
    and inj: "inj_on D {i \<in> V. D i \<noteq> NaN}" "set fs \<union> set vs \<subseteq> V" and D: "D = dist_of acc computer"
    and ins: "rfold (\<lambda>n q. nq_insert dq_ops q n) (map (found acc computer) fs) q = Inr q'"
  shows "dq_holds attr D l m (rev fs @ vs) q' \<and> diverse_results_k q' = diverse_results_k q"
proof -
  have ins': "rfold (\<lambda>i q. dq_insert q (neighbor_new i (D i))) fs q = Inr q'" using ins unfolding rfold_map found_insert D .
  have "distinct (fs @ vs)" "inj_on D {i \<in> set (fs @ vs). D i \<noteq> NaN}" using fs inj by (auto elim!: inj_on_subset)
  from dq_insert_ids [OF h this] ins' have "dq_holds attr D l m (rev fs @ vs) q'" by auto
  moreover have "diverse_results_k q' = diverse_results_k q"
    by (rule rfold_invariant [OF ins']) (simp_all add: dq_insert_results_k)
  ultimately show ?thesis by blast
qed

lemma search_step_holds:
  fixes acc :: "('i, 'v, 'e, 'a) search_accessor"
  assumes base: "search_base (dq_usable l m) dq_entries acc computer V s" and closed: "graph_closed acc V"
    and inj: "inj_on D {i \<in> V. D i \<noteq> NaN}" and D: "D = dist_of acc computer"
    and st: "diverse_state attr D l m dk s" and step: "search_step acc computer dq_ops rec bw s r = Inr (s', r')"
  shows "diverse_state attr D l m dk s' \<and> visited s \<subseteq> visited s'"
proof -
  from st obtain vs where vs: "distinct vs" "set vs = visited s" "dq_holds attr D l m vs (best s)" "diverse_results_k (best s) = dk"
    by (auto simp: diverse_state_def)
  from step obtain s1 r1 vis nbrs q where
    pop: "pop_beam dq_ops rec bw (s\<lparr>beam_nodes := []\<rparr>) r = Inr (s1, r1)"
    and ex: "expand_beam acc computer (beam_nodes s1) (visited s1, []) = Inr (vis, nbrs)"
    and ins: "rfold (\<lambda>n q. nq_insert dq_ops q n) nbrs (best s1) = Inr q"
    and s': "best s' = q" "visited s' = vis"
    by (auto simp: search_step_def lift_eq_Inr rbind_eq_Inr_iff)
  have s1: "dq_holds attr D l m vs (best s1)" "visited s1 = visited s" "diverse_results_k (best s1) = dk"
    using pop_beam_holds [OF _ pop, of attr D l m vs] vs by simp_all
  from expand_beam_spec [OF ex, unfolded append_Nil] obtain fs where fs: "nbrs = map (found acc computer) fs" "distinct fs"
    "set fs \<inter> visited s = {}" "vis = visited s \<union> set fs" unfolding s1(2) by blast
  have sub: "vis \<subseteq> V"
  proof -
    from dq.search_step_effect [OF base closed, of rec bw r] step have "search_base (dq_usable l m) dq_entries acc computer V s'"
      by (auto simp: search_round_def)
    then show ?thesis by (simp add: search_base_def s')
  qed
  have "dq_holds attr D l m (rev fs @ vs) q \<and> diverse_results_k q = diverse_results_k (best s1)"
    using fs vs(1,2) sub inj ins by (intro insert_found_holds [OF s1(1) _ _ _ inj _ D]) auto
  then have "diverse_state attr D l m dk s'"
    unfolding diverse_state_def s' using fs vs(1,2) s1(3) by (intro conjI exI [of _ "rev fs @ vs"]) auto
  then show ?thesis using s'(2) fs(4) by auto
qed

lemma init_holds:
  assumes "diverse_state attr D l m dk s" "distinct ids" "set ids \<inter> visited s = {}" "set ids \<union> visited s \<subseteq> V"
    and inj: "inj_on D {i \<in> V. D i \<noteq> NaN}" and D: "D = dist_of acc computer"
    and "rfold (init_start acc computer dq_ops) ids s = Inr s'"
  shows "diverse_state attr D l m dk s' \<and> visited s' = visited s \<union> set ids"
  using assms(1-4,7)
proof (induction ids arbitrary: s)
  case (Cons i ids)
  from Cons.prems(5) obtain s1 where s1: "init_start acc computer dq_ops i s = Inr s1" "rfold (init_start acc computer dq_ops) ids s1 = Inr s'"
    by (auto simp: rbind_eq_Inr_iff)
  from s1(1) obtain v q where v: "escalate (sa_get_element acc i) = Inr v" "dq_insert (best s) (neighbor_new i (computer v)) = Inr q"
    and b: "best s1 = q" "visited s1 = insert i (visited s)"
    by (auto simp: init_start_def rbind_eq_Inr_iff lift_eq_Inr)
  have "sa_get_element acc i = Inr v" using v(1) by (auto simp: escalate_def split: sum.splits ranked_error.splits)
  then have q: "dq_insert (best s) (neighbor_new i (D i)) = Inr q" using v(2) by (simp add: D dist_of_def)
  from Cons.prems(1) obtain vs where vs: "distinct vs" "set vs = visited s" "dq_holds attr D l m vs (best s)" "diverse_results_k (best s) = dk"
    by (auto simp: diverse_state_def)
  have "dq_holds attr D l m (i # vs) q"
    using Cons.prems vs inj by (intro dq_holds_insert [OF vs(3) _ _ q]) (auto elim!: inj_on_subset)
  then have "diverse_state attr D l m dk s1" unfolding diverse_state_def b
    using vs Cons.prems dq_insert_results_k [OF q] by (intro conjI exI [of _ "i # vs"]) auto
  with Cons.IH [of s1] Cons.prems s1(2) b(2) show ?case by auto
qed simp

section \<open>The whole search\<close>

lemma dq_all_visited:
  assumes us: "dq_usable l m q" and stop: "\<not> dq_has_notvisited_node q"
  shows "\<forall>e\<in>set (dq_entries q). fst (snd e) \<in> vids (dq_entries q)"
proof -
  let ?g = "global_queue q"
  have g: "npq_inv ?g" "npq_wf ?g" "search_param_l ?g = l" "npq_size ?g \<le> l"
    using us npq_wfD(3) [of ?g] by (auto simp: dq_usable_def npq_fixed_def npq_usable_def npq_inv_def)
  have "\<forall>e\<in>set (npq_entries ?g). \<not> entry_unvisited e"
    using stop has_notvisited_iff [OF g(1)] g(3,4) length_entries [OF g(2)] by (simp add: dq_has_notvisited_node_def)
  then have "\<forall>e\<in>set (dq_entries q). snd (snd e)" by (auto simp: dq_entries_def entry_unvisited_def)
  then show ?thesis unfolding vids_def by blast
qed

lemma diverse_internal:
  fixes acc :: "('i, 'v, 'e, 'a) search_accessor" and attr :: "'i \<Rightarrow> 'x option"
  assumes p: "knn_new k l bw = Inr p" and dk: "0 < dk" and closed: "graph_closed acc V" and tot: "graph_total acc V"
    and start: "set start_ids \<subseteq> V" "distinct start_ids" and D: "D = dist_of acc computer" and inj: "inj_on D {i \<in> V. D i \<noteq> NaN}"
    and te: "\<forall>a. \<not> fst (sa_terminate_early acc a)" and m: "m = dk * l div k"
  obtains stats s r' a' X where
    "search_internal acc computer dq_ops noop_record (Some (knn_beam_width p)) start_ids (diverse_scratch p dk attr) () a
      = Some (Inr (stats, s, r', a'))"
    "search_inv (dq_usable l m) dq_entries (\<lambda>_ _ _. True) acc computer V X s" "diverse_state attr D l m dk s"
    "set start_ids \<subseteq> visited s" "\<not> dq_has_notvisited_node (best s)"
proof -
  let ?s = "diverse_scratch p dk attr :: ('i, ('i, 'x) diverse_queue) search_scratch" and ?bw = "knn_beam_width p"
  from p have pl: "knn_l_value p = l" "k_value p = k" "0 < k" "k \<le> l" "0 < l" "0 < ?bw"
    by (auto simp: knn_new_def split: if_splits option.splits)
  have "k \<le> dk * l" using pl(4) dk by (metis One_nat_def Suc_leI le_trans mult_le_mono1 nat_mult_1)
  then have m0: "0 < dk * l div k" using pl(3) by (simp add: div_greater_zero_iff)
  have h0: "dq_holds attr D l m [] (best ?s)" using dq_holds_new [OF pl(5) m0, of attr D] by (simp add: diverse_scratch_def pl(1,2) m)
  then have st0: "diverse_state attr D l m dk ?s" by (auto simp: diverse_state_def diverse_scratch_def dq_new_def)
  have "search_inv (dq_usable l m) dq_entries (\<lambda>_ _ _. True) acc computer V {} ?s"
    using h0 by (simp add: search_inv_def dq_holds_def diverse_scratch_def dq_entries_def dq_new_def npq_entries_def npq_new_def eids_def vids_def)
  moreover have "finite V" "set start_ids \<inter> visited ?s = {}" using closed by (simp_all add: graph_closed_def diverse_scratch_def)
  ultimately obtain s1 where s1: "rfold (init_start acc computer dq_ops) start_ids ?s = Inr s1"
    "search_inv (dq_usable l m) dq_entries (\<lambda>_ _ _. True) acc computer V {} s1"
    using dq.init_all_spec [OF _ _ start] tot by blast
  have "diverse_state attr D l m dk s1 \<and> visited s1 = visited ?s \<union> set start_ids"
    using start by (intro init_holds [OF st0 start(2) _ _ inj D s1(1)]) (auto simp: diverse_scratch_def)
  then have j1: "diverse_state attr D l m dk s1 \<and> set start_ids \<subseteq> visited s1" by auto
  have "\<forall>X s r s' r'. search_inv (dq_usable l m) dq_entries (\<lambda>_ _ _. True) acc computer V X s \<longrightarrow>
      diverse_state attr D l m dk s \<and> set start_ids \<subseteq> visited s \<longrightarrow> search_step acc computer dq_ops noop_record ?bw s r = Inr (s', r') \<longrightarrow>
      diverse_state attr D l m dk s' \<and> set start_ids \<subseteq> visited s'"
    using search_step_holds [OF search_inv_base closed inj D] by (meson order_trans)
  from dq.search_loop_spec [where J = "\<lambda>s r. diverse_state attr D l m dk s \<and> set start_ids \<subseteq> visited s" and r = "()" and a = a,
      OF s1(2) closed pl(6) j1 this] tot te
  obtain s r' a' X where s: "search_loop acc computer dq_ops noop_record ?bw s1 () a = Some (Inr (s, r', a'))"
    "search_inv (dq_usable l m) dq_entries (\<lambda>_ _ _. True) acc computer V X s" "diverse_state attr D l m dk s"
    "set start_ids \<subseteq> visited s" "\<not> dq_has_notvisited_node (best s)" by auto
  have "visited ?s = {}" by (simp add: diverse_scratch_def)
  then have "search_internal acc computer dq_ops noop_record (Some ?bw) start_ids ?s () a
      = Some (Inr (\<lparr>stat_cmps = cmps s, stat_hops = hops s, range_search_second_round = False\<rparr>, s, r', a'))"
    using s1(1) s(1) by (simp add: search_internal_def)
  with that s show ?thesis by blast
qed

lemma capped_with_attr: "strictly S \<Longrightarrow> length (filter (with_attr attr c) (capped attr m S)) \<le> m"
proof (cases "\<exists>x\<in>set S. with_attr attr c x")
  case True
  assume S: "strictly S"
  from True obtain x where "with_attr attr c x" by blast
  then have "with_attr attr c = same_attr attr x" by (auto simp: fun_eq_iff same_attr_def with_attr_def)
  then show ?thesis by (simp add: capped_attr [OF S])
next
  case False
  then have "filter (with_attr attr c) (capped attr m S) = []" by (auto simp: filter_empty_conv capped_def)
  then show ?thesis by simp
qed

section \<open>Properties\<close>



text \<open>Starting points without an attribute never enter the queue: a search from such points only visits nothing else and returns nothing, whatever
  the graph.\<close>

theorem diverse_search_start_without_attribute:
  assumes "knn_new k l bw = Inr p" "0 < dk" "\<forall>i\<in>set start_ids. attr i = None \<and> (\<exists>v. sa_get_element acc i = Inr v)" "idd_inv b"
  shows "\<exists>stats b'. diverse_search p dk attr acc computer start_ids a idd_extend b = Some (Inr (stats, b'))
    \<and> idd_content b' = idd_content b"
proof -
  let ?s = "diverse_scratch p dk attr"
  have init: "\<exists>s'. rfold (init_start acc computer dq_ops) ids s = Inr s' \<and> best s' = best s"
    if "attribute_provider (best s) = attr" "\<forall>i\<in>set ids. attr i = None \<and> (\<exists>v. sa_get_element acc i = Inr v)" for ids s
    using that
  proof (induction ids arbitrary: s)
    case (Cons i ids)
    then obtain v where v: "sa_get_element acc i = Inr v" "attr i = None" by auto
    have "dq_insert (best s) (neighbor_new i (computer v)) = Inr (best s)" using v Cons.prems(1) by (simp add: dq_insert_def)
    then have "init_start acc computer dq_ops i s = Inr (s\<lparr>visited := insert i (visited s), best := best s, cmps := cmps s + 1\<rparr>)"
      using v by (simp add: init_start_def lift_error_def lift_fault_def)
    then show ?case using Cons.IH [of "s\<lparr>visited := insert i (visited s), best := best s, cmps := cmps s + 1\<rparr>"] Cons.prems by simp
  qed simp
  obtain s' where s': "rfold (init_start acc computer dq_ops) start_ids ?s = Inr s'" "best s' = best ?s"
    using init [of ?s start_ids] assms(3) by (auto simp: diverse_scratch_def dq_new_def)
  have no: "\<not> dq_has_notvisited_node (best s')" and it: "dq_iter (post_process (best s')) = []"
    unfolding s'(2) by (simp_all add: diverse_scratch_def dq_new_def dq_has_notvisited_node_def has_notvisited_node_def npq_new_def
      dq_iter_def post_process_def Let_def removed_items_def)
  have "search_loop acc computer dq_ops noop_record (knn_beam_width p) s' () a = Some (Inr (s', (), a))"
    using no by (subst search_loop.simps) simp
  moreover have "visited ?s = {}" by (simp add: diverse_scratch_def)
  ultimately have run: "search_internal acc computer dq_ops noop_record (Some (knn_beam_width p)) start_ids ?s () a
      = Some (Inr (\<lparr>stat_cmps = cmps s', stat_hops = hops s', range_search_second_round = False\<rparr>, s', (), a))"
    using s'(1) by (simp add: search_internal_def)
  obtain n b' where ext: "idd_extend b [] = (n, b')" by fastforce
  have "idd_content b' = idd_content b" using idd.extend_law [OF assms(4) ext] by (simp add: take_room_def split: option.splits)
  moreover have "diverse_search p dk attr acc computer start_ids a idd_extend b
      = Some (Inr (finish \<lparr>stat_cmps = cmps s', stat_hops = hops s', range_search_second_round = False\<rparr> n, b'))"
    by (simp add: diverse_search_def run it copy_ids_def ext)
  ultimately show ?thesis by blast
qed

end
