(* ===== verification/Multihop_Search.thy ===== *)
theory Multihop_Search
  imports Range_Search
begin

text \<open>
  The label-filtered search of \<open>diskann/src/graph/search/multihop_search.rs\<close>.  It keeps only vertices that match the filter and, to get past
  those that do not, expands the closest of the rejected out-neighbors at once and looks for matches among their out-neighbors.

  The label provider is a record of functions.  The order in which an unstable sort leaves equal distances (and distances that are
  not numbers, which its comparison calls equal to all others) is not fixed: the sort is a parameter.
\<close>

section \<open>Operations\<close>

datatype 'i query_visit_decision = Accept "'i neighbor" | Reject | Terminate

record 'i query_label_provider =
  is_match :: "'i \<Rightarrow> bool"
  on_visit :: "'i neighbor \<Rightarrow> 'i query_visit_decision"

text \<open>The default of \<open>on_visit\<close>.\<close>

definition default_on_visit :: "('i \<Rightarrow> bool) \<Rightarrow> 'i neighbor \<Rightarrow> 'i query_visit_decision" where
  "default_on_visit m n = (if m (nbr_id n) then Accept n else Reject)"

text \<open>\<open>NotInMutWithLabelCheck\<close>: the predicate of the second expansion.\<close>

definition label_eval :: "('i \<Rightarrow> bool) \<Rightarrow> 'i set \<Rightarrow> 'i \<Rightarrow> bool" where
  "label_eval m vis i \<longleftrightarrow> i \<notin> vis \<and> m i"

definition label_eval_mut :: "('i \<Rightarrow> bool) \<Rightarrow> 'i set \<Rightarrow> 'i \<Rightarrow> bool \<times> 'i set" where
  "label_eval_mut m vis i = (if m i then (i \<notin> vis, insert i vis) else (False, vis))"

definition on_neighbor_label :: "('i \<Rightarrow> bool) \<Rightarrow> f32 \<Rightarrow> 'i \<Rightarrow> 'i set \<times> 'i neighbor list \<Rightarrow> 'i set \<times> 'i neighbor list" where
  "on_neighbor_label m d i st =
     (case st of (vis, out) \<Rightarrow>
        case label_eval_mut m vis i of (ok, vis') \<Rightarrow> (vis', if ok then out @ [neighbor_new i d] else out))"

fun expand_beam_label ::
  "('i, 'v, 'e, 'a) search_accessor \<Rightarrow> ('v \<Rightarrow> f32) \<Rightarrow> ('i \<Rightarrow> bool) \<Rightarrow> 'i list \<Rightarrow> 'i set \<times> 'i neighbor list
    \<Rightarrow> 'e + ('i set \<times> 'i neighbor list)" where
  "expand_beam_label acc computer m [] st = Inr st"
| "expand_beam_label acc computer m (i # ids) st =
     rbind (sa_get_neighbors acc i) (\<lambda>ns.
       let ns' = al_retain (label_eval m (fst st)) ns;
           (r, st') = distances_unordered acc computer (on_neighbor_label m) ns' st
       in rbind (allow_transient r) (\<lambda>_. expand_beam_label acc computer m ids st'))"

definition multihop_init ::
  "('i, 'v, 'e, 'a) search_accessor \<Rightarrow> ('v \<Rightarrow> f32) \<Rightarrow> 'i \<Rightarrow> ('i, 'i npq) search_scratch \<Rightarrow> 'e search_error + ('i, 'i npq) search_scratch" where
  "multihop_init acc computer i s =
     rbind (lift_error (escalate (sa_get_element acc i))) (\<lambda>v.
     rbind (lift_fault (npq_insert (best s) (neighbor_new i (computer v)))) (\<lambda>q.
     Inr (s\<lparr>visited := insert i (visited s), best := q\<rparr>)))"

text \<open>The decisions on the one-hop neighbors: the flag says that the search is to end.\<close>

fun visit_one_hop ::
  "'i query_label_provider \<Rightarrow> 'i neighbor list \<Rightarrow> 'i npq \<Rightarrow> 'i neighbor list \<Rightarrow> fault + (bool \<times> 'i npq \<times> 'i neighbor list)" where
  "visit_one_hop lp [] q rejected = Inr (False, q, rejected)"
| "visit_one_hop lp (n # ns) q rejected =
     (case on_visit lp n of
        Accept n' \<Rightarrow> rbind (npq_insert q n') (\<lambda>q'. visit_one_hop lp ns q' rejected)
      | Reject \<Rightarrow> visit_one_hop lp ns q (rejected @ [n])
      | Terminate \<Rightarrow> Inr (True, q, rejected))"

definition multihop_step ::
  "nat \<Rightarrow> ('i neighbor list \<Rightarrow> 'i neighbor list) \<Rightarrow> ('i, 'v, 'e, 'a) search_accessor \<Rightarrow> ('v \<Rightarrow> f32) \<Rightarrow> 'i query_label_provider
    \<Rightarrow> ('r \<Rightarrow> 'i neighbor \<Rightarrow> 32 word \<Rightarrow> 32 word \<Rightarrow> 'r) \<Rightarrow> nat \<Rightarrow> ('i, 'i npq) search_scratch \<Rightarrow> 'r
    \<Rightarrow> 'e search_error + (bool \<times> ('i, 'i npq) search_scratch \<times> 'r)" where
  "multihop_step max_degree_with_slack order acc computer lp rec beam_width s r =
     rbind (lift_fault (pop_beam npq_ops rec beam_width (s\<lparr>beam_nodes := []\<rparr>) r)) (\<lambda>(s1, r1).
     rbind (lift_error (expand_beam acc computer (beam_nodes s1) (visited s1, []))) (\<lambda>(vis, one_hop).
     rbind (lift_fault (visit_one_hop lp one_hop (best s1) [])) (\<lambda>(stop, q, rejected).
     let s2 = s1\<lparr>visited := vis, best := q, cmps := cmps s1 + of_nat (length one_hop),
                hops := hops s1 + of_nat (length (beam_nodes s1))\<rparr>
     in if stop then Inr (True, s2, r1)
        else
          let ids = map nbr_id (take (max_degree_with_slack div 2) (order rejected)) in
          rbind (lift_error (expand_beam_label acc computer (is_match lp) ids (vis, []))) (\<lambda>(vis2, two_hop).
          rbind (lift_fault (rfold (\<lambda>n q. npq_insert q n) two_hop q)) (\<lambda>q2.
          Inr (False, s2\<lparr>visited := vis2, best := q2, cmps := cmps s2 + of_nat (length two_hop),
                        hops := hops s2 + of_nat (length ids)\<rparr>, r1))))))"

partial_function (option) multihop_loop ::
  "nat \<Rightarrow> ('i neighbor list \<Rightarrow> 'i neighbor list) \<Rightarrow> ('i, 'v, 'e, 'a) search_accessor \<Rightarrow> ('v \<Rightarrow> f32) \<Rightarrow> 'i query_label_provider
    \<Rightarrow> ('r \<Rightarrow> 'i neighbor \<Rightarrow> 32 word \<Rightarrow> 32 word \<Rightarrow> 'r) \<Rightarrow> nat \<Rightarrow> ('i, 'i npq) search_scratch \<Rightarrow> 'r \<Rightarrow> 'a
    \<Rightarrow> ('e search_error + (('i, 'i npq) search_scratch \<times> 'r \<times> 'a)) option"
where
  "multihop_loop max_degree_with_slack order acc computer lp rec beam_width s r a =
     (if has_notvisited_node (best s) then
        (case sa_terminate_early acc a of (stop, a') \<Rightarrow>
           if stop then Some (Inr (s, r, a'))
           else (case multihop_step max_degree_with_slack order acc computer lp rec beam_width s r of
                   Inl e \<Rightarrow> Some (Inl e)
                 | Inr (ended, s', r') \<Rightarrow>
                     if ended then Some (Inr (s', r', a'))
                     else multihop_loop max_degree_with_slack order acc computer lp rec beam_width s' r' a'))
      else Some (Inr (s, r, a)))"

declare multihop_loop.simps [code]

definition multihop_search_internal ::
  "nat \<Rightarrow> ('i neighbor list \<Rightarrow> 'i neighbor list) \<Rightarrow> ('i, 'v, 'e, 'a) search_accessor \<Rightarrow> ('v \<Rightarrow> f32) \<Rightarrow> 'i query_label_provider
    \<Rightarrow> ('r \<Rightarrow> 'i neighbor \<Rightarrow> 32 word \<Rightarrow> 32 word \<Rightarrow> 'r) \<Rightarrow> knn \<Rightarrow> 'i list \<Rightarrow> ('i, 'i npq) search_scratch \<Rightarrow> 'r \<Rightarrow> 'a
    \<Rightarrow> ('e search_error + (search_stats \<times> ('i, 'i npq) search_scratch \<times> 'r \<times> 'a)) option" where
  "multihop_search_internal max_degree_with_slack order acc computer lp rec p start_ids s r a =
     (case (if visited s = {} then rfold (multihop_init acc computer) start_ids s else Inr s) of
        Inl e \<Rightarrow> Some (Inl e)
      | Inr s0 \<Rightarrow>
          map_option (\<lambda>res. rbind res (\<lambda>(s', r', a').
              Inr (\<lparr>stat_cmps = cmps s', stat_hops = hops s', range_search_second_round = False\<rparr>, s', r', a')))
            (multihop_loop max_degree_with_slack order acc computer lp rec (knn_beam_width p) s0 r a))"

definition multihop_search ::
  "nat \<Rightarrow> ('i neighbor list \<Rightarrow> 'i neighbor list) \<Rightarrow> knn \<Rightarrow> 'i query_label_provider \<Rightarrow> ('i, 'v, 'e, 'a) search_accessor \<Rightarrow> ('v \<Rightarrow> f32)
    \<Rightarrow> 'i list \<Rightarrow> 'a \<Rightarrow> ('b \<Rightarrow> ('i \<times> f32) list \<Rightarrow> nat \<times> 'b) \<Rightarrow> 'b \<Rightarrow> ('e search_error + (full_stats \<times> 'b)) option" where
  "multihop_search max_degree_with_slack order p lp acc computer start_ids a ext output =
     (let scratch = scratch_create \<lparr>l_value = knn_l_value p, ssp_max_degree = 0, num_frozen_pts = length start_ids\<rparr> in
      map_option (\<lambda>res. rbind res (\<lambda>(stats, s, _, _).
          case copy_ids ext (take (knn_l_value p) (npq_iter (best s))) output of (n, b) \<Rightarrow> Inr (finish stats n, b)))
        (multihop_search_internal max_degree_with_slack order acc computer lp noop_record p start_ids scratch () a))"

section \<open>The filtered expansion\<close>

text \<open>The second expansion is the first one in the graph without the edges to vertices that do not match.\<close>

definition matching_accessor :: "('i \<Rightarrow> bool) \<Rightarrow> ('i, 'v, 'e, 'a) search_accessor \<Rightarrow> ('i, 'v, 'e, 'a) search_accessor" where
  "matching_accessor m acc = acc\<lparr>sa_get_neighbors := (\<lambda>i. rbind (sa_get_neighbors acc i) (\<lambda>ns. Inr (al_retain m ns)))\<rparr>"

lemma distances_unordered_label:
  "\<forall>i\<in>set ids. m i \<Longrightarrow> distances_unordered acc computer (on_neighbor_label m) ids st
    = distances_unordered (matching_accessor m acc) computer on_neighbor ids st"
proof (induction ids arbitrary: st)
  case (Cons i ids)
  have "on_neighbor_label m d i st = on_neighbor d i st" for d
    using Cons.prems by (cases st) (simp add: on_neighbor_label_def label_eval_mut_def)
  then show ?case using Cons by (simp add: matching_accessor_def split: sum.splits)
qed simp

lemma expand_beam_label_matching:
  "expand_beam_label acc computer m ids st = expand_beam (matching_accessor m acc) computer ids st"
proof (induction ids arbitrary: st)
  case (Cons i ids)
  show ?case
  proof (cases "sa_get_neighbors acc i")
    case (Inr ns)
    have r: "al_retain (not_in_eval (fst st)) (al_retain m ns) = al_retain (label_eval m (fst st)) ns"
      by (auto simp: al_retain_def label_eval_def not_in_eval_def intro!: filter_cong)
    have "\<forall>i\<in>set (al_retain (label_eval m (fst st)) ns). m i" by (simp add: al_retain_def label_eval_def)
    from distances_unordered_label [OF this, of acc computer st] Cons Inr show ?thesis
      by (simp add: r matching_accessor_def Let_def split_def)
  qed (simp add: matching_accessor_def)
qed simp

lemma matching_dist [simp]: "dist_of (matching_accessor m acc) computer i = dist_of acc computer i"
  "found (matching_accessor m acc) computer i = found acc computer i"
  by (simp_all add: dist_of_def found_def matching_accessor_def)

lemma matching_graph:
  assumes "graph_closed acc V" "graph_total acc V"
  shows "graph_closed (matching_accessor m acc) V" "graph_total (matching_accessor m acc) V"
  using assms by (fastforce simp: graph_closed_def graph_total_def matching_accessor_def al_retain_def rbind_eq_Inr_iff)+

text \<open>One expansion in a total graph: the new identifiers, each once, and all out-neighbors of what is expanded are visited.\<close>

lemma expand_found:
  assumes "graph_closed acc V" "graph_total acc V" "set ids \<subseteq> V"
  obtains fs where "expand_beam acc computer ids (vis, []) = Inr (vis \<union> set fs, map (found acc computer) fs)" "distinct fs"
    "set fs \<inter> vis = {}" "set fs \<subseteq> V" "\<forall>j\<in>set fs. \<exists>i\<in>set ids. \<exists>ns. sa_get_neighbors acc i = Inr ns \<and> j \<in> set ns"
    "\<forall>i\<in>set ids. \<exists>ns. sa_get_neighbors acc i = Inr ns \<and> set ns \<subseteq> vis \<union> set fs"
proof -
  obtain vis' out where ex: "expand_beam acc computer ids (vis, []) = Inr (vis', out)"
    using expand_beam_total [OF assms, of computer "(vis, [])"] by auto
  from expand_beam_spec [OF ex, unfolded append_Nil] obtain fs where fs: "out = map (found acc computer) fs" "distinct fs"
    "set fs \<inter> vis = {}" "vis' = vis \<union> set fs" "\<forall>j\<in>set fs. \<exists>i\<in>set ids. \<exists>ns. sa_get_neighbors acc i = Inr ns \<and> j \<in> set ns"
    "(\<forall>i\<in>set ids. \<forall>ns. sa_get_neighbors acc i = Inr ns \<longrightarrow> (\<forall>j\<in>set ns. \<exists>v. sa_get_element acc j = Inr v))
       \<longrightarrow> (\<forall>i\<in>set ids. \<exists>ns. sa_get_neighbors acc i = Inr ns \<and> set ns \<subseteq> vis')" by blast
  have "set fs \<subseteq> V" using fs(5) assms unfolding graph_closed_def by blast
  moreover have "\<forall>i\<in>set ids. \<forall>ns. sa_get_neighbors acc i = Inr ns \<longrightarrow> (\<forall>j\<in>set ns. \<exists>v. sa_get_element acc j = Inr v)"
    using assms unfolding graph_closed_def graph_total_def by (meson subsetD)
  ultimately show ?thesis using that [of fs] ex fs by blast
qed

section \<open>The invariant of the search\<close>

text \<open>The queue covers every visited vertex that matches, and holds starting points and matches only; \<open>X\<close> is the set of
  expanded vertices.\<close>

definition mh_state ::
  "('i, 'v, 'e, 'a) search_accessor \<Rightarrow> ('v \<Rightarrow> f32) \<Rightarrow> nat \<Rightarrow> 'i set \<Rightarrow> ('i \<Rightarrow> bool) \<Rightarrow> 'i set \<Rightarrow> 'i set \<Rightarrow> 'i set \<Rightarrow> 'i npq \<Rightarrow> bool" where
  "mh_state acc computer l V m starts X vis q \<longleftrightarrow>
     npq_fixed l q \<and> set (eids (npq_entries q)) \<subseteq> vis \<and> vis \<subseteq> V \<and> distinct (eids (npq_entries q))
     \<and> (\<forall>e\<in>set (npq_entries q). fst e = dist_of acc computer (fst (snd e)))
     \<and> (\<forall>i\<in>vis. m i \<longrightarrow> dist_of acc computer i \<noteq> NaN \<longrightarrow> npq_cov q (dist_of acc computer i) i)
     \<and> vids (npq_entries q) \<subseteq> X \<and> (\<forall>i\<in>set (eids (npq_entries q)). i \<in> starts \<or> m i)"

definition expanded :: "('i, 'v, 'e, 'a) search_accessor \<Rightarrow> 'i set \<Rightarrow> 'i set \<Rightarrow> bool" where
  "expanded acc X vis \<longleftrightarrow> (\<forall>i\<in>X. \<exists>ns. sa_get_neighbors acc i = Inr ns \<and> set ns \<subseteq> vis)"

lemma expanded_mono: "expanded acc X vis \<Longrightarrow> vis \<subseteq> vis' \<Longrightarrow> expanded acc X vis'"
  unfolding expanded_def by (meson subset_trans)

text \<open>New vertices are visited, and those of them that match are inserted.\<close>

lemma mh_insert:
  assumes st: "mh_state acc computer l V m starts X vis q" and fs: "distinct gs" "set gs \<subseteq> set fs" "set fs \<inter> vis = {}" "set fs \<subseteq> V"
    and gs: "\<forall>i\<in>set fs. m i \<longrightarrow> i \<in> set gs" "\<forall>i\<in>set gs. i \<in> starts \<or> m i"
  obtains q' where "rfold (\<lambda>n q. npq_insert q n) (map (found acc computer) gs) q = Inr q'"
    "mh_state acc computer l V m starts X (vis \<union> set fs) q'"
    "unvisited_count (npq_entries q') \<le> unvisited_count (npq_entries q) + length gs"
proof -
  note S = st [unfolded mh_state_def]
  have d: "set gs \<inter> set (eids (npq_entries q)) = {}" using S fs(2,3) by blast
  from npql.insert_found [OF _ fs(1) d, of l acc computer] S obtain q' where q':
    "rfold (\<lambda>n q. npq_insert q n) (map (found acc computer) gs) q = Inr q'" "npq_fixed l q'"
    "set (eids (npq_entries q')) \<subseteq> set (eids (npq_entries q)) \<union> set gs" "distinct (eids (npq_entries q'))"
    "\<forall>e\<in>set (npq_entries q'). fst e = dist_of acc computer (fst (snd e))"
    "vids (npq_entries q') \<subseteq> vids (npq_entries q)" "unvisited_count (npq_entries q') \<le> unvisited_count (npq_entries q) + length gs"
    "\<forall>d i. npq_cov q d i \<longrightarrow> npq_cov q' d i"
    "\<forall>i\<in>set gs. dist_of acc computer i \<noteq> NaN \<longrightarrow> npq_cov q' (dist_of acc computer i) i"
    by (auto simp: npq_ops_def)
  have "npq_cov q' (dist_of acc computer i) i" if "i \<in> vis \<union> set fs" "m i" "dist_of acc computer i \<noteq> NaN" for i
    using that S q'(8,9) gs(1) by blast
  moreover have "set (eids (npq_entries q')) \<subseteq> vis \<union> set fs" "vis \<union> set fs \<subseteq> V" "vids (npq_entries q') \<subseteq> X"
    "\<forall>i\<in>set (eids (npq_entries q')). i \<in> starts \<or> m i"
    using S q'(3,6) fs(2,4) gs(2) by blast+
  ultimately have "mh_state acc computer l V m starts X (vis \<union> set fs) q'" unfolding mh_state_def using q'(2,4,5) by blast
  then show ?thesis using that q'(1,7) by blast
qed

text \<open>The default decision splits the neighbors into those that match and the others.\<close>

lemma visit_one_hop_default:
  assumes "on_visit lp = default_on_visit (is_match lp)"
  shows "visit_one_hop lp (map (found acc computer) fs) q rej
    = rbind (rfold (\<lambda>n q. npq_insert q n) (map (found acc computer) (filter (is_match lp) fs)) q)
        (\<lambda>q'. Inr (False, q', rej @ map (found acc computer) (filter (\<lambda>i. \<not> is_match lp i) fs)))"
  using assms by (induction fs arbitrary: q rej) (auto simp: default_on_visit_def rbind_assoc)

lemma card_visit:
  assumes "finite V" "distinct fs" "set fs \<inter> vis = {}" "set fs \<subseteq> V"
  shows "card (V - vis) = card (V - (vis \<union> set fs)) + length fs"
proof -
  have "V - vis = (V - (vis \<union> set fs)) \<union> set fs" "(V - (vis \<union> set fs)) \<inter> set fs = {}" using assms by auto
  then show ?thesis using card_Un_disjoint [of "V - (vis \<union> set fs)" "set fs"] assms(1,2) by (simp add: distinct_card)
qed

lemma mh_pop:
  assumes st: "mh_state acc computer l V m starts X (visited s) (best s)"
  obtains q bs r' where "pop_beam npq_ops rec n s r = Inr (s\<lparr>best := q, beam_nodes := beam_nodes s @ bs\<rparr>, r')"
    "mh_state acc computer l V m starts (X \<union> set bs) (visited s) q" "set bs \<subseteq> V"
    "unvisited_count (npq_entries q) + length bs = unvisited_count (npq_entries (best s))"
    "0 < n \<and> has_notvisited_node (best s) \<longrightarrow> bs \<noteq> []"
proof -
  note S = st [unfolded mh_state_def]
  have "npq_fixed l (best s)" using S by blast
  from npql.pop_beam_spec [OF this, of rec n r] obtain q bs r' where
    pop: "pop_beam npq_ops rec n s r = Inr (s\<lparr>best := q, beam_nodes := beam_nodes s @ bs\<rparr>, r')"
    and q: "npq_fixed l q" "mset (map ekey (npq_entries q)) = mset (map ekey (npq_entries (best s)))" "npq_cov q = npq_cov (best s)"
      "unvisited_count (npq_entries q) + length bs = unvisited_count (npq_entries (best s))"
      "vids (npq_entries q) \<subseteq> vids (npq_entries (best s)) \<union> set bs" "set bs \<subseteq> set (eids (npq_entries (best s)))"
      "0 < n \<and> has_notvisited_node (best s) \<longrightarrow> bs \<noteq> []"
    by (auto simp: npq_ops_def)
  have ek: "ekey ` set (npq_entries q) = ekey ` set (npq_entries (best s))" using mset_eq_setD [OF q(2)] by simp
  have ids: "mset (eids (npq_entries q)) = mset (eids (npq_entries (best s)))" unfolding eids_ekey using q(2) by (metis mset_map)
  have "fst e = dist_of acc computer (fst (snd e))" if "e \<in> set (npq_entries q)" for e
  proof -
    from that obtain e' where "e' \<in> set (npq_entries (best s))" "ekey e' = ekey e" using ek by (metis image_iff)
    then show ?thesis using S by (auto simp: ekey_def)
  qed
  then have "mh_state acc computer l V m starts (X \<union> set bs) (visited s) q"
    unfolding mh_state_def q(3) using S q(1,5) mset_eq_setD [OF ids] mset_eq_imp_distinct_iff [OF ids] by auto
  moreover have "set bs \<subseteq> V" using q(6) S by blast
  ultimately show ?thesis using that pop q(4,7) by blast
qed

lemma multihop_step_spec:
  fixes acc :: "('i, 'v, 'e, 'a) search_accessor"
  assumes st: "mh_state acc computer l V (is_match lp) starts X (visited s) (best s)" and ex: "expanded acc X (visited s)"
    and closed: "graph_closed acc V" and tot: "graph_total acc V" and lp: "on_visit lp = default_on_visit (is_match lp)"
    and ord: "\<And>ns. set (order ns) = set ns" and go: "0 < bw" "has_notvisited_node (best s)"
  obtains s' r' X' where "multihop_step md order acc computer lp rec bw s r = Inr (False, s', r')"
    "mh_state acc computer l V (is_match lp) starts X' (visited s') (best s')" "expanded acc X' (visited s')"
    "search_measure npq_entries V s' < search_measure npq_entries V s" "visited s \<subseteq> visited s'"
proof -
  let ?m = "is_match lp" and ?s0 = "s\<lparr>beam_nodes := []\<rparr>"
  have fin: "finite V" using closed by (simp add: graph_closed_def)
  have st0: "mh_state acc computer l V ?m starts X (visited ?s0) (best ?s0)" using st by simp
  obtain q bs r1 where pop: "pop_beam npq_ops rec bw ?s0 r = Inr (?s0\<lparr>best := q, beam_nodes := beam_nodes ?s0 @ bs\<rparr>, r1)"
    and q: "mh_state acc computer l V ?m starts (X \<union> set bs) (visited s) q" "set bs \<subseteq> V"
      "unvisited_count (npq_entries q) + length bs = unvisited_count (npq_entries (best s))" "bs \<noteq> []"
    by (rule mh_pop [OF st0, of rec bw r]) (use go in auto)
  obtain fs where fs: "expand_beam acc computer bs (visited s, []) = Inr (visited s \<union> set fs, map (found acc computer) fs)" "distinct fs"
    "set fs \<inter> visited s = {}" "set fs \<subseteq> V" "\<forall>i\<in>set bs. \<exists>ns. sa_get_neighbors acc i = Inr ns \<and> set ns \<subseteq> visited s \<union> set fs"
    using expand_found [OF closed tot q(2)] by metis
  obtain q1 where q1: "rfold (\<lambda>n q. npq_insert q n) (map (found acc computer) (filter ?m fs)) q = Inr q1"
    "mh_state acc computer l V ?m starts (X \<union> set bs) (visited s \<union> set fs) q1"
    "unvisited_count (npq_entries q1) \<le> unvisited_count (npq_entries q) + length (filter ?m fs)"
    using mh_insert [OF q(1), of "filter ?m fs" fs] fs(2-4) by auto
  let ?rej = "map (found acc computer) (filter (\<lambda>i. \<not> ?m i) fs)"
  let ?ids = "map nbr_id (take (md div 2) (order ?rej))"
  have "set ?ids \<subseteq> nbr_id ` set (order ?rej)" by (auto dest: in_set_takeD)
  also have "\<dots> \<subseteq> set fs" unfolding ord by (auto simp: image_image)
  finally have ids: "set ?ids \<subseteq> V" using fs(4) by blast
  let ?macc = "matching_accessor ?m acc"
  obtain gs where gs: "expand_beam ?macc computer ?ids (visited s \<union> set fs, []) = Inr (visited s \<union> set fs \<union> set gs, map (found acc computer) gs)"
    "distinct gs" "set gs \<inter> (visited s \<union> set fs) = {}" "set gs \<subseteq> V"
    "\<forall>j\<in>set gs. \<exists>i\<in>set ?ids. \<exists>ns. sa_get_neighbors ?macc i = Inr ns \<and> j \<in> set ns"
    by (rule expand_found [where computer = computer, OF matching_graph [OF closed tot] ids]) (simp add: matching_dist cong: map_cong)
  have gm: "\<forall>i\<in>set gs. ?m i" using gs(5) by (auto simp: matching_accessor_def rbind_eq_Inr_iff al_retain_def)
  obtain q2 where q2: "rfold (\<lambda>n q. npq_insert q n) (map (found acc computer) gs) q1 = Inr q2"
    "mh_state acc computer l V ?m starts (X \<union> set bs) (visited s \<union> set fs \<union> set gs) q2"
    "unvisited_count (npq_entries q2) \<le> unvisited_count (npq_entries q1) + length gs"
    using mh_insert [OF q1(2) gs(2) _ gs(3,4)] gm by auto
  define s' where "s' = s\<lparr>visited := visited s \<union> set fs \<union> set gs, best := q2, beam_nodes := bs,
    cmps := cmps s + of_nat (length fs) + of_nat (length gs), hops := hops s + of_nat (length bs) + of_nat (length ?ids)\<rparr>"
  have step: "multihop_step md order acc computer lp rec bw s r = Inr (False, s', r1)"
    unfolding multihop_step_def pop expand_beam_label_matching
    by (simp add: lift_fault_def lift_error_def fs(1) visit_one_hop_default [OF lp] q1(1) gs(1) q2(1) s'_def)
  have exp: "expanded acc (X \<union> set bs) (visited s')"
    using ex fs(5) unfolding expanded_def s'_def by (simp, meson Un_iff subset_trans sup_ge1)
  have "card (V - visited s) = card (V - visited s') + length fs + length gs"
    using card_visit [OF fin fs(2-4)] card_visit [OF fin gs(2-4)] by (simp add: s'_def)
  moreover have "length (filter ?m fs) \<le> length fs" "0 < length bs" using q(4) by simp_all
  then have "unvisited_count (npq_entries q2) < unvisited_count (npq_entries (best s)) + length fs + length gs"
    using q(3) q1(3) q2(3) by linarith
  ultimately have "search_measure npq_entries V s' < search_measure npq_entries V s" by (simp add: search_measure_def s'_def)
  moreover have "mh_state acc computer l V ?m starts (X \<union> set bs) (visited s') (best s')" "visited s \<subseteq> visited s'"
    using q2(2) by (auto simp: s'_def)
  ultimately show ?thesis using that step exp by blast
qed

section \<open>The whole search\<close>

lemma multihop_loop_spec:
  fixes acc :: "('i, 'v, 'e, 'a) search_accessor"
  assumes st: "mh_state acc computer l V (is_match lp) starts X (visited s) (best s)" "expanded acc X (visited s)"
    and closed: "graph_closed acc V" and tot: "graph_total acc V" and lp: "on_visit lp = default_on_visit (is_match lp)"
    and ord: "\<And>ns. set (order ns) = set ns" and bw: "0 < bw" and te: "\<forall>a. \<not> fst (sa_terminate_early acc a)"
  shows "\<exists>s' r' a' X'. multihop_loop md order acc computer lp rec bw s r a = Some (Inr (s', r', a'))
    \<and> mh_state acc computer l V (is_match lp) starts X' (visited s') (best s') \<and> expanded acc X' (visited s')
    \<and> \<not> has_notvisited_node (best s') \<and> visited s \<subseteq> visited s'"
  using st
proof (induction "search_measure npq_entries V s" arbitrary: s r a X rule: less_induct)
  case less
  show ?case
  proof (cases "has_notvisited_node (best s)")
    case False
    then show ?thesis using less.prems by (subst multihop_loop.simps) auto
  next
    case True
    obtain a1 where t: "sa_terminate_early acc a = (False, a1)" using te by (metis prod.collapse)
    obtain s1 r1 X1 where s1: "multihop_step md order acc computer lp rec bw s r = Inr (False, s1, r1)"
      "mh_state acc computer l V (is_match lp) starts X1 (visited s1) (best s1)" "expanded acc X1 (visited s1)"
      "search_measure npq_entries V s1 < search_measure npq_entries V s" "visited s \<subseteq> visited s1"
      using multihop_step_spec [OF less.prems closed tot lp ord bw True, of md rec r] by blast
    have "multihop_loop md order acc computer lp rec bw s r a = multihop_loop md order acc computer lp rec bw s1 r1 a1"
      using True t s1(1) by (subst multihop_loop.simps) simp
    moreover obtain s' r' a' X' where "multihop_loop md order acc computer lp rec bw s1 r1 a1 = Some (Inr (s', r', a'))"
      "mh_state acc computer l V (is_match lp) starts X' (visited s') (best s')" "expanded acc X' (visited s')"
      "\<not> has_notvisited_node (best s')" "visited s1 \<subseteq> visited s'" using less.hyps [OF s1(4,2,3), of r1 a1] by blast
    ultimately show ?thesis using s1(5) by (intro exI [of _ s'] exI [of _ r'] exI [of _ a'] exI [of _ X']) simp
  qed
qed

lemma multihop_init_spec:
  assumes "mh_state acc computer l V m starts X (visited s) (best s)" "set ids \<subseteq> V" "distinct ids" "set ids \<inter> visited s = {}"
    "set ids \<subseteq> starts" and tot: "graph_total acc V"
  shows "\<exists>s'. rfold (multihop_init acc computer) ids s = Inr s' \<and> mh_state acc computer l V m starts X (visited s') (best s')
    \<and> visited s' = visited s \<union> set ids"
  using assms(1-5)
proof (induction ids arbitrary: s)
  case (Cons i ids)
  obtain v where v: "sa_get_element acc i = Inr v" using tot Cons.prems(2) unfolding graph_total_def by (metis list.set_intros(1) subsetD)
  then have f: "neighbor_new i (computer v) = found acc computer i" by (simp add: found_def dist_of_def)
  have new: "distinct [i]" "set [i] \<subseteq> set [i]" "set [i] \<inter> visited s = {}" "set [i] \<subseteq> V" "\<forall>j\<in>set [i]. m j \<longrightarrow> j \<in> set [i]"
    "\<forall>j\<in>set [i]. j \<in> starts \<or> m j" using Cons.prems by auto
  obtain q where q: "rfold (\<lambda>n q. npq_insert q n) (map (found acc computer) [i]) (best s) = Inr q"
    "mh_state acc computer l V m starts X (visited s \<union> set [i]) q" using mh_insert [OF Cons.prems(1) new] by blast
  let ?s = "s\<lparr>visited := insert i (visited s), best := q\<rparr>"
  have "npq_insert (best s) (found acc computer i) = Inr q" using q(1) by (auto simp: rbind_eq_Inr_iff)
  then have "multihop_init acc computer i s = Inr ?s" using v by (simp add: multihop_init_def lift_error_def lift_fault_def f)
  moreover have "mh_state acc computer l V m starts X (visited ?s) (best ?s)" using q(2) by simp
  ultimately show ?case using Cons.IH [of ?s] Cons.prems by (auto simp: insert_commute)
qed simp

lemma multihop_internal:
  fixes acc :: "('i, 'v, 'e, 'a) search_accessor"
  assumes l: "0 < l" and bw: "0 < knn_beam_width p" and closed: "graph_closed acc V" and tot: "graph_total acc V"
    and start: "set start_ids \<subseteq> V" "distinct start_ids" and te: "\<forall>a. \<not> fst (sa_terminate_early acc a)"
    and lp: "on_visit lp = default_on_visit (is_match lp)" and ord: "\<And>ns. set (order ns) = set ns"
  obtains stats s r' a' X where
    "multihop_search_internal md order acc computer lp rec p start_ids (search_scratch_new (Fixed l)) r a = Some (Inr (stats, s, r', a'))"
    "mh_state acc computer l V (is_match lp) (set start_ids) X (visited s) (best s)" "expanded acc X (visited s)"
    "\<not> has_notvisited_node (best s)" "set start_ids \<subseteq> visited s"
proof -
  let ?s = "search_scratch_new (Fixed l) :: ('i, 'i npq) search_scratch"
  have "mh_state acc computer l V (is_match lp) (set start_ids) {} (visited ?s) (best ?s)"
    by (simp add: mh_state_def eids_def vids_def scratch_new_fixed [OF l])
  from multihop_init_spec [OF this start _ subset_refl tot] obtain s1 where
    s1: "rfold (multihop_init acc computer) start_ids ?s = Inr s1"
      "mh_state acc computer l V (is_match lp) (set start_ids) {} (visited s1) (best s1)" "visited s1 = set start_ids"
    by (auto simp: scratch_new_fixed(3) [OF l])
  have "expanded acc {} (visited s1)" by (simp add: expanded_def)
  from multihop_loop_spec [OF s1(2) this closed tot lp ord bw te, of md rec r a] obtain s r' a' X where
    s: "multihop_loop md order acc computer lp rec (knn_beam_width p) s1 r a = Some (Inr (s, r', a'))"
      "mh_state acc computer l V (is_match lp) (set start_ids) X (visited s) (best s)" "expanded acc X (visited s)"
      "\<not> has_notvisited_node (best s)" "visited s1 \<subseteq> visited s" by blast
  have "multihop_search_internal md order acc computer lp rec p start_ids ?s r a
      = Some (Inr (\<lparr>stat_cmps = cmps s, stat_hops = hops s, range_search_second_round = False\<rparr>, s, r', a'))"
    using s1(1) s(1) by (simp add: multihop_search_internal_def scratch_new_fixed(3) [OF l])
  with that s s1(3) show ?thesis by metis
qed

section \<open>Properties\<close>



text \<open>The starting points are not asked whether they match: a filter that nothing matches still returns the starting point.\<close>

theorem multihop_returns_start:
  "map_option (\<lambda>res. case res of Inl _ \<Rightarrow> [] | Inr (stats, b) \<Rightarrow> idd_content b)
     (multihop_search 4 (sort_key nbr_distance) \<lparr>k_value = 1, knn_l_value = 1, knn_beam_width = 1\<rparr>
        \<lparr>is_match = (\<lambda>_. False), on_visit = default_on_visit (\<lambda>_. False)\<rparr> line_accessor (\<lambda>v. Fin \<bar>v - 3\<bar>) [0] ()
        idd_extend \<lparr>idd_ids = [7], idd_distances = [Fin 0], idd_position = 0\<rparr>) = Some [(0, Fin 3)]"
  by code_simp

end
