(* ===== verification/Paged_Search.thy ===== *)
theory Paged_Search
  imports Graph_Search
begin

text \<open>
  The paged search of \<open>diskann/src/graph/index.rs\<close>: \<open>start_paged_search_with_init_ids\<close> expands the
  initial identifiers into a queue that grows as needed, and every call of \<open>next_search_results\<close>
  continues the greedy search and hands out the next results.

  The accessor and the starting points are the same in all calls.  After a search that fails the state is
  not described.
\<close>

section \<open>Operations\<close>

record 'i search_state =
  ss_scratch :: "('i, 'i npq) search_scratch"
  computed_result :: "'i neighbor list"
  next_result_index :: nat
  ss_search_param_l :: nat

definition insert_neighbors :: "'i neighbor list \<Rightarrow> 'i npq \<Rightarrow> fault + 'i npq" where
  "insert_neighbors neighbors q = rfold (\<lambda>n q. npq_insert q n) neighbors q"

definition start_paged_search_with_init_ids ::
  "('i, 'v, 'e, 'a) search_accessor \<Rightarrow> ('v \<Rightarrow> f32) \<Rightarrow> 'i \<Rightarrow> 'i list \<Rightarrow> nat \<Rightarrow> 'i list option \<Rightarrow> 'e search_error + 'i search_state" where
  "start_paged_search_with_init_ids acc computer default_id start_ids l init_ids =
     (let init = (case init_ids of Some ids \<Rightarrow> ids | None \<Rightarrow> start_ids);
          s = search_scratch_new (Resizable (l + length start_ids)) in
      rbind (lift_error (expand_beam acc computer init (visited s \<union> set init, []))) (\<lambda>(vis, neighbors).
      rbind (lift_fault (insert_neighbors neighbors (best s))) (\<lambda>q.
      Inr \<lparr>ss_scratch = s\<lparr>visited := vis, best := q\<rparr>, computed_result = replicate l (neighbor_default default_id),
           next_result_index = l, ss_search_param_l = l\<rparr>)))"

definition start_paged_search ::
  "('i, 'v, 'e, 'a) search_accessor \<Rightarrow> ('v \<Rightarrow> f32) \<Rightarrow> 'i \<Rightarrow> 'i list \<Rightarrow> nat \<Rightarrow> 'e search_error + 'i search_state" where
  "start_paged_search acc computer default_id start_ids l =
     start_paged_search_with_init_ids acc computer default_id start_ids l None"

datatype 'e paged_error = KAboveL | KZero | OutputTooShort | PSearch "'e search_error"

text \<open>The copy of results to a slice of the output; the ranges of both slices are checked.\<close>

definition copy_to_output ::
  "'i search_state \<Rightarrow> nat \<Rightarrow> 'i neighbor list \<Rightarrow> nat \<Rightarrow> fault + ('i search_state \<times> 'i neighbor list)" where
  "copy_to_output st cnt out offset =
     (if length out < offset + cnt \<or> length (computed_result st) < next_result_index st + cnt then Inl IndexFault
      else Inr (st\<lparr>next_result_index := next_result_index st + cnt\<rparr>,
                take offset out @ take cnt (drop (next_result_index st) (computed_result st)) @ drop (offset + cnt) out))"

text \<open>The part after the search: the candidates leave the queue and become the computed results.\<close>

definition refill ::
  "'i list \<Rightarrow> nat \<Rightarrow> ('i, 'i npq) search_scratch \<Rightarrow> 'i search_state \<Rightarrow> 'i search_state" where
  "refill start_points k s st =
     (case filter_search_candidates start_points k (best s) of (candidates, total_considered) \<Rightarrow>
        st\<lparr>ss_scratch := s\<lparr>best := drain_best (best s) total_considered\<rparr>, computed_result := candidates,
           next_result_index := 0\<rparr>)"

definition lift_psearch :: "fault + 'a \<Rightarrow> 'e paged_error + 'a" where
  "lift_psearch r = (case r of Inl f \<Rightarrow> Inl (PSearch (SPanic f)) | Inr x \<Rightarrow> Inr x)"

definition next_search_results ::
  "('i, 'v, 'e, 'a) search_accessor \<Rightarrow> ('v \<Rightarrow> f32) \<Rightarrow> 'i list \<Rightarrow> 'i search_state \<Rightarrow> nat \<Rightarrow> 'i neighbor list \<Rightarrow> 'a
    \<Rightarrow> ('e paged_error + (nat \<times> 'i search_state \<times> 'i neighbor list)) option" where
  "next_search_results acc computer start_ids st k result_output a =
     (if ss_search_param_l st < k then Some (Inl KAboveL)
      else if k = 0 then Some (Inl KZero)
      else if length result_output < k then Some (Inl OutputTooShort)
      else if length (computed_result st) < next_result_index st then Some (Inl (PSearch (SPanic OverflowFault)))
      else
        let used = min k (length (computed_result st) - next_result_index st) in
        case (if 0 < used then copy_to_output st used result_output 0 else Inr (st, result_output)) of
          Inl f \<Rightarrow> Some (Inl (PSearch (SPanic f)))
        | Inr (st1, out1) \<Rightarrow>
            (if 0 < used \<and> used = k then Some (Inr (k, st1, out1))
             else case search_internal acc computer npq_ops noop_record None start_ids (ss_scratch st1) () a of
               None \<Rightarrow> None
             | Some (Inl e) \<Rightarrow> Some (Inl (PSearch e))
             | Some (Inr (_, s, _, _)) \<Rightarrow>
                 (let st2 = refill start_ids k s st1; leftover = min (k - used) (length (computed_result st2)) in
                  Some (rbind (lift_psearch (copy_to_output st2 leftover out1 used)) (\<lambda>(st3, out3).
                    Inr (used + leftover, st3, out3))))))"

text \<open>A client that asks for pages of the given sizes, one after the other, each into a new output.\<close>

fun run_pages ::
  "('i, 'v, 'e, 'a) search_accessor \<Rightarrow> ('v \<Rightarrow> f32) \<Rightarrow> 'i list \<Rightarrow> 'i neighbor \<Rightarrow> nat list \<Rightarrow> 'i search_state \<Rightarrow> 'a
    \<Rightarrow> ('e paged_error + ('i neighbor list list \<times> 'i search_state)) option" where
  "run_pages acc computer start_ids dflt [] st a = Some (Inr ([], st))"
| "run_pages acc computer start_ids dflt (k # ks) st a =
     (case next_search_results acc computer start_ids st k (replicate k dflt) a of
        None \<Rightarrow> None
      | Some (Inl e) \<Rightarrow> Some (Inl e)
      | Some (Inr (n, st', out)) \<Rightarrow>
          map_option (\<lambda>res. rbind res (\<lambda>(pages, st''). Inr (take n out # pages, st'')))
            (run_pages acc computer start_ids dflt ks st' a))"

section \<open>A queue that grows\<close>

text \<open>A predicate that every operation keeps may be added to the invariant of a queue.\<close>

context bounded_queue
begin

lemma bounded_queue_restrict:
  assumes ins: "\<And>q n q'. inv q \<Longrightarrow> P q \<Longrightarrow> nq_insert ops q n = Inr q' \<Longrightarrow> P q'"
    and visit: "\<And>q c q'. inv q \<Longrightarrow> P q \<Longrightarrow> nq_closest_notvisited ops q = Inr (c, q') \<Longrightarrow> P q'"
    and clear: "\<And>q. inv q \<Longrightarrow> P q \<Longrightarrow> P (nq_clear ops q)"
  shows "bounded_queue ops (\<lambda>q. inv q \<and> P q) ents cov"
proof (standard, goal_cases)
  case (1 q n)
  then show ?case using insert_law [of q n] ins by metis
next
  case (2 q)
  then show ?case using none_law by blast
next
  case (3 q)
  then show ?case using some_law [of q] visit by (elim conjE) metis
next
  case (4 q)
  then show ?case using clear_law clear by blast
next
  case (5 q)
  then show ?case using iter_law by blast
next
  case (6 q)
  then show ?case using sorted_law by blast
next
  case (7 q n q' d i)
  then show ?case using insert_covered by blast
next
  case (8 q n q')
  then show ?case using insert_covered_new by blast
next
  case (9 q c q')
  then show ?case using visit_cov by blast
qed

end

definition npq_resizable :: "nat \<Rightarrow> 'i npq \<Rightarrow> bool" where
  "npq_resizable L q \<longleftrightarrow> npq_usable q \<and> (auto_resizable q \<and> search_param_l q = L)"

lemma npq_insert_kind:
  assumes "npq_usable q" "npq_insert q n = Inr q'"
  shows "auto_resizable q' = auto_resizable q \<and> search_param_l q' = search_param_l q"
proof (cases "nbr_distance n = NaN")
  case True
  then show ?thesis using assms by (simp add: npq_insert_NaN)
next
  case False
  with npq_insert_spec [of q n] assms show ?thesis
    unfolding npq_usable_def npq_inv_def by (metis sum.inject(2))
qed

lemma closest_notvisited_kind:
  assumes "npq_usable q" "closest_notvisited q = Inr (c, q')"
  shows "auto_resizable q' = auto_resizable q \<and> search_param_l q' = search_param_l q"
proof (cases "has_notvisited_node q")
  case True
  then show ?thesis using closest_notvisited_Some [of q] assms
    unfolding npq_usable_def by (metis (no_types, lifting) prod.inject sum.inject(2))
qed (use assms in \<open>simp add: closest_notvisited_None\<close>)

interpretation npqr: bounded_queue npq_ops "npq_resizable L" npq_entries npq_cov for L
  unfolding npq_resizable_def [abs_def]
proof (rule npqb.bounded_queue_restrict, goal_cases)
  case (1 q n q')
  then show ?case using npq_insert_kind [of q n q'] by (simp add: npq_ops_def)
next
  case (2 q c q')
  then show ?case using closest_notvisited_kind [of q c q'] by (simp add: npq_ops_def)
next
  case (3 q)
  then show ?case by (simp add: npq_ops_def npq_clear_def)
qed

text \<open>Nothing is lost from a queue that grows: what it covers is an entry.\<close>

lemma resizable_covered:
  assumes "npq_resizable L q"
  shows "npq_cov q d i \<longleftrightarrow> (\<exists>b. (d, i, b) \<in> set (npq_entries q))"
  using assms by (simp add: npq_cov_def covered_def npq_resizable_def npq_full_def)

section \<open>Draining the queue\<close>

text \<open>Draining resets the cursor to the front, where an entry may have been visited.  Reopening that entry gives a
  queue with the cursor at its first unvisited entry, and a visit does not tell the two apart: the front entry is
  handed out once more.\<close>

definition reopen :: "'i npq \<Rightarrow> 'i npq" where
  "reopen q = (if npq_cursor q = 0 then q\<lparr>id_visiteds := (case id_visiteds q of [] \<Rightarrow> [] | x # xs \<Rightarrow> (fst x, False) # xs)\<rparr> else q)"

lemma reopen_sel [simp]:
  "npq_size (reopen q) = npq_size q" "npq_capacity (reopen q) = npq_capacity q" "npq_cursor (reopen q) = npq_cursor q"
  "distances (reopen q) = distances q" "auto_resizable (reopen q) = auto_resizable q" "search_param_l (reopen q) = search_param_l q"
  "length (id_visiteds (reopen q)) = length (id_visiteds q)"
  by (simp_all add: reopen_def split: list.splits)

lemma reopen_wf [simp]: "npq_wf (reopen q) = npq_wf q"
  by (simp add: npq_wf_def)

lemma reopen_inv: "npq_inv q \<Longrightarrow> reopen q = q"
  by (cases "id_visiteds q") (auto simp: reopen_def npq_inv_def cursor_ok_def unvisited_def prod_eq_iff split: if_splits)

lemma reopen_front:
  assumes "npq_wf q" "npq_cursor q = 0"
  shows "npq_inv (reopen q)"
  using assms by (cases "id_visiteds q") (auto simp: npq_inv_def cursor_ok_def reopen_def unvisited_def npq_wf_def)

lemma reopen_eids [simp]: "eids (npq_entries (reopen q)) = eids (npq_entries q)"
  by (cases "distances q"; cases "id_visiteds q") (simp_all add: eids_def npq_entries_def reopen_def)

lemma reopen_ekey: "map ekey (npq_entries (reopen q)) = map ekey (npq_entries q)"
  by (cases "distances q"; cases "id_visiteds q") (simp_all add: ekey_def npq_entries_def reopen_def)

lemma reopen_iter [simp]: "npq_iter (reopen q) = npq_iter q"
  by (auto simp: npq_iter_def get_unchecked_def reopen_def nth_Cons split: list.splits nat.splits)

lemma reopen_vids: "vids (npq_entries (reopen q)) \<subseteq> vids (npq_entries q)"
  by (cases "distances q"; cases "id_visiteds q") (auto simp: vids_def npq_entries_def reopen_def)

lemma reopen_has [simp]: "has_notvisited_node (reopen q) = has_notvisited_node q"
  by (simp add: has_notvisited_node_def)

lemma reopen_closest:
  assumes "npq_wf q" "has_notvisited_node q"
  shows "closest_notvisited (reopen q) = closest_notvisited q"
proof (cases "npq_cursor q = 0")
  case True
  from assms True obtain x xs where x: "id_visiteds q = x # xs"
    by (cases "id_visiteds q") (auto simp: has_notvisited_node_def npq_wf_def)
  show ?thesis using assms True
    by (simp add: closest_notvisited_def has_notvisited_node_def set_visited_def reopen_def x get_unchecked_def Let_def)
qed (simp add: reopen_def)

section \<open>The invariant between two pages\<close>

text \<open>What a paged search can find: the out-neighbors of the initial vertices, and further out-neighbors through
  vertices whose distance is a number.\<close>

inductive_set paged_reach :: "('i, 'v, 'e, 'a) search_accessor \<Rightarrow> ('v \<Rightarrow> f32) \<Rightarrow> 'i set \<Rightarrow> 'i set"
  for acc :: "('i, 'v, 'e, 'a) search_accessor" and computer :: "'v \<Rightarrow> f32" and init :: "'i set"
where
  first: "\<lbrakk>i \<in> init; sa_get_neighbors acc i = Inr ns; j \<in> set ns\<rbrakk> \<Longrightarrow> j \<in> paged_reach acc computer init"
| more: "\<lbrakk>i \<in> paged_reach acc computer init; dist_of acc computer i \<noteq> NaN; sa_get_neighbors acc i = Inr ns; j \<in> set ns\<rbrakk>
    \<Longrightarrow> j \<in> paged_reach acc computer init"

text \<open>\<open>G\<close> has the vertices that left the queue.  Every visited vertex with a distance is initial, has left the
  queue or is in it; initial vertices, those that left and the visited entries have all their out-neighbors visited.\<close>

definition paged_sets ::
  "('i, 'v, 'e, 'a) search_accessor \<Rightarrow> ('v \<Rightarrow> f32) \<Rightarrow> 'i set \<Rightarrow> 'i set \<Rightarrow> ('i, 'i npq) search_scratch \<Rightarrow> bool" where
  "paged_sets acc computer init G s \<longleftrightarrow>
     init \<union> G \<subseteq> visited s \<and> (init \<union> G) \<inter> set (eids (npq_entries (best s))) = {}
     \<and> (\<forall>i\<in>visited s. dist_of acc computer i \<noteq> NaN \<longrightarrow> i \<in> init \<union> G \<union> set (eids (npq_entries (best s))))
     \<and> visited s \<subseteq> init \<union> paged_reach acc computer init
     \<and> (\<forall>i\<in>init \<union> G \<union> vids (npq_entries (best s)). \<exists>ns. sa_get_neighbors acc i = Inr ns \<and> set ns \<subseteq> visited s)"

lemma paged_setsD:
  assumes "paged_sets acc computer init G s"
  shows "init \<union> G \<subseteq> visited s" "(init \<union> G) \<inter> set (eids (npq_entries (best s))) = {}"
    "\<And>i. i \<in> visited s \<Longrightarrow> dist_of acc computer i \<noteq> NaN \<Longrightarrow> i \<in> init \<union> G \<union> set (eids (npq_entries (best s)))"
    "visited s \<subseteq> init \<union> paged_reach acc computer init"
    "\<And>i. i \<in> init \<union> G \<union> vids (npq_entries (best s)) \<Longrightarrow> \<exists>ns. sa_get_neighbors acc i = Inr ns \<and> set ns \<subseteq> visited s"
  using assms unfolding paged_sets_def by blast+

definition reopened :: "('i, 'i npq) search_scratch \<Rightarrow> ('i, 'i npq) search_scratch" where
  "reopened s = s\<lparr>best := reopen (best s)\<rparr>"

lemma reopened_sel [simp]: "best (reopened s) = reopen (best s)" "visited (reopened s) = visited s"
  by (simp_all add: reopened_def)

definition paged_inv ::
  "('i, 'v, 'e, 'a) search_accessor \<Rightarrow> ('v \<Rightarrow> f32) \<Rightarrow> 'i set \<Rightarrow> nat \<Rightarrow> 'i set \<Rightarrow> 'i set \<Rightarrow> ('i, 'i npq) search_scratch \<Rightarrow> bool" where
  "paged_inv acc computer V L init G s \<longleftrightarrow>
     search_base (npq_resizable L) npq_entries acc computer V (reopened s) \<and> paged_sets acc computer init G s"

lemma resizable_entry:
  assumes "search_base (npq_resizable L) npq_entries acc computer V s" "i \<in> set (eids (npq_entries (best s)))"
  shows "dist_of acc computer i \<noteq> NaN" "npq_cov (best s) (dist_of acc computer i) i"
proof -
  note B = assms(1) [unfolded search_base_def]
  from assms(2) obtain e where e: "e \<in> set (npq_entries (best s))" "fst (snd e) = i" by (auto simp: eids_def)
  then have d: "fst e = dist_of acc computer i" using B by blast
  then show "dist_of acc computer i \<noteq> NaN" using npqr.sorted_law [of L "best s"] B e(1) by (metis image_eqI)
  show "npq_cov (best s) (dist_of acc computer i) i"
    using e d unfolding npq_cov_def by (metis covered_def prod.collapse)
qed

lemma resizable_is_entry:
  assumes "search_base (npq_resizable L) npq_entries acc computer V s" "npq_cov (best s) d i"
  shows "i \<in> set (eids (npq_entries (best s)))"
  using resizable_covered [of L "best s" d i] assms by (force simp: search_base_def eids_def)

lemma paged_sets_round:
  assumes base: "search_base (npq_resizable L) npq_entries acc computer V s" and total: "graph_total acc V"
    and round: "search_round (npq_resizable L) npq_entries npq_cov acc computer V bs fs s s'"
    and P: "paged_sets acc computer init G s"
  shows "paged_sets acc computer init G s'"
proof -
  note R = round [unfolded search_round_def]
  note S = paged_setsD [OF P]
  have base': "search_base (npq_resizable L) npq_entries acc computer V s'" and vis: "visited s' = visited s \<union> set fs"
    and fs: "set fs \<inter> visited s = {}" and bs: "set bs \<subseteq> set (eids (npq_entries (best s)))"
    and src: "\<forall>j\<in>set fs. \<exists>i\<in>set bs. \<exists>ns. sa_get_neighbors acc i = Inr ns \<and> j \<in> set ns"
    and ids: "set (eids (npq_entries (best s'))) \<subseteq> set (eids (npq_entries (best s))) \<union> set fs"
    and vids': "vids (npq_entries (best s')) \<subseteq> vids (npq_entries (best s)) \<union> set bs"
    using R by simp_all
  have exp: "\<forall>i\<in>set bs. \<exists>ns. sa_get_neighbors acc i = Inr ns \<and> set ns \<subseteq> visited s'" using R total by blast
  have "i \<in> init \<union> G \<union> set (eids (npq_entries (best s')))" if i: "i \<in> visited s'" "dist_of acc computer i \<noteq> NaN" for i
  proof (cases "i \<in> set fs")
    case True
    then have "npq_cov (best s') (dist_of acc computer i) i" using R i(2) by blast
    then show ?thesis using resizable_is_entry [OF base'] by blast
  next
    case False
    then have "i \<in> visited s" using i(1) vis by simp
    from S(3) [OF this i(2)] show ?thesis
    proof (elim UnE)
      assume "i \<in> set (eids (npq_entries (best s)))"
      then have "npq_cov (best s') (dist_of acc computer i) i"
        using R resizable_entry(2) [OF base] by blast
      then show ?thesis using resizable_is_entry [OF base'] by blast
    qed simp_all
  qed
  moreover have "set fs \<subseteq> paged_reach acc computer init"
  proof
    fix j assume "j \<in> set fs"
    then obtain i ns where i: "i \<in> set bs" "sa_get_neighbors acc i = Inr ns" "j \<in> set ns" using src by blast
    have e: "i \<in> set (eids (npq_entries (best s)))" using bs i(1) by blast
    then have "i \<notin> init" "i \<in> visited s" using S(2) base by (auto simp: search_base_def)
    then have "i \<in> paged_reach acc computer init" using S(4) by blast
    with i show "j \<in> paged_reach acc computer init" using resizable_entry(1) [OF base e] by (blast intro: paged_reach.more)
  qed
  moreover have "\<exists>ns. sa_get_neighbors acc i = Inr ns \<and> set ns \<subseteq> visited s'"
    if i: "i \<in> init \<union> G \<union> vids (npq_entries (best s'))" for i
  proof (cases "i \<in> set bs")
    case False
    then have "i \<in> init \<union> G \<union> vids (npq_entries (best s))" using i vids' by blast
    from S(5) [OF this] show ?thesis using vis by blast
  qed (use exp in blast)
  moreover have "(init \<union> G) \<inter> set (eids (npq_entries (best s'))) = {}" using S(1,2) ids fs by blast
  moreover have "init \<union> G \<subseteq> visited s'" using S(1) vis by blast
  moreover have "visited s' \<subseteq> init \<union> paged_reach acc computer init" if "set fs \<subseteq> paged_reach acc computer init"
    using S(4) vis that by blast
  ultimately show ?thesis unfolding paged_sets_def by simp
qed

lemma paged_sets_mono:
  assumes P: "paged_sets acc computer init G s"
    and eq: "visited s' = visited s" "set (eids (npq_entries (best s'))) = set (eids (npq_entries (best s)))"
      "vids (npq_entries (best s')) \<subseteq> vids (npq_entries (best s))"
  shows "paged_sets acc computer init G s'"
proof -
  note S = paged_setsD [OF P]
  have "\<exists>ns. sa_get_neighbors acc i = Inr ns \<and> set ns \<subseteq> visited s'" if "i \<in> init \<union> G \<union> vids (npq_entries (best s'))" for i
    using S(5) [of i] that eq(1,3) by auto
  then show ?thesis using S(1-4) unfolding paged_sets_def eq(1,2) by simp
qed

text \<open>The search between two pages: it ends, keeps the invariant, and the first \<open>L\<close> entries are visited.\<close>

lemma paged_search_internal:
  assumes inv: "paged_inv acc computer V L init G s" and closed: "graph_closed acc V" and total: "graph_total acc V"
    and go: "\<forall>a. \<not> fst (sa_terminate_early acc a)" and vis: "visited s \<noteq> {}"
  shows "\<exists>stats s' a'. search_internal acc computer npq_ops noop_record None start_ids s () a = Some (Inr (stats, s', (), a'))
    \<and> paged_inv acc computer V L init G s' \<and> visited s \<subseteq> visited s'
    \<and> set (take L (eids (npq_entries (best s')))) \<subseteq> vids (npq_entries (best s'))"
proof -
  let ?R = "reopened s"
  let ?J = "\<lambda>s' (r :: unit). paged_sets acc computer init G s' \<and> visited s \<subseteq> visited s'"
  from inv have base: "search_base (npq_resizable L) npq_entries acc computer V ?R" and P: "paged_sets acc computer init G s"
    by (simp_all add: paged_inv_def)
  have wf: "npq_wf (best s)" and ninv: "npq_inv (reopen (best s))" and L: "search_param_l (best s) = L"
    using base by (auto simp: search_base_def npq_resizable_def npq_usable_def npq_inv_def)
  have J: "?J ?R ()" using paged_sets_mono [OF P, of ?R] reopen_vids [of "best s"] by simp
  have step: "\<forall>s r s' r'. search_base (npq_resizable L) npq_entries acc computer V s \<longrightarrow> ?J s r \<longrightarrow>
      search_step acc computer npq_ops noop_record 1 s r = Inr (s', r') \<longrightarrow> ?J s' r'"
  proof (intro allI impI)
    fix s0 r s' r' assume b: "search_base (npq_resizable L) npq_entries acc computer V s0" and j: "?J s0 r"
      and st: "search_step acc computer npq_ops noop_record 1 s0 r = Inr (s', r')"
    from npqr.search_step_effect [OF b closed, of noop_record 1 r] st obtain bs fs where
      round: "search_round (npq_resizable L) npq_entries npq_cov acc computer V bs fs s0 s'" by auto
    then show "?J s' r'" using paged_sets_round [OF b total round] j by (auto simp: search_round_def)
  qed
  from npqr.search_loop_base [where J = ?J and a = a, OF base closed _ J step] total go obtain s1 r1 a1 where
    loop: "search_loop acc computer npq_ops noop_record 1 ?R () a = Some (Inr (s1, r1, a1))" and
    base1: "search_base (npq_resizable L) npq_entries acc computer V s1" and P1: "paged_sets acc computer init G s1"
    and vis1: "visited s \<subseteq> visited s1" and stop: "\<not> has_notvisited_node (best s1)"
    by (fastforce simp: npq_ops_def)
  have inv1: "npq_inv (best s1)" "search_param_l (best s1) = L" "reopened s1 = s1"
    using base1 by (auto simp: search_base_def npq_resizable_def npq_usable_def reopened_def reopen_inv)
  have visited: "set (take L (eids (npq_entries q))) \<subseteq> vids (npq_entries q)"
    if "npq_inv q" "search_param_l q = L" "\<not> has_notvisited_node q" for q :: "'a npq"
  proof
    fix i assume "i \<in> set (take L (eids (npq_entries q)))"
    then obtain e where e: "e \<in> set (take L (npq_entries q))" "i = fst (snd e)" by (auto simp: take_map eids_def)
    then have "snd (snd e)" using that(3) unfolding has_notvisited_iff [OF that(1)] that(2) entry_unvisited_def by blast
    then show "i \<in> vids (npq_entries q)" using e in_set_takeD unfolding vids_def by fast
  qed
  show ?thesis
  proof (cases "has_notvisited_node (best s)")
    case True
    obtain stop a2 where ea: "sa_terminate_early acc a = (stop, a2)" by fastforce
    have "search_step acc computer npq_ops noop_record 1 ?R () = search_step acc computer npq_ops noop_record 1 s ()"
    proof -
      obtain e q' where "closest_notvisited (best s) = Inr (Some e, q')" "closest_notvisited (reopen (best s)) = Inr (Some e, q')"
        using closest_notvisited_Some [OF ninv] True reopen_closest [OF wf True] by (metis reopen_has)
      then show ?thesis by (simp add: search_step_def npq_ops_def reopened_def)
    qed
    then have "search_loop acc computer npq_ops noop_record 1 s () a = search_loop acc computer npq_ops noop_record 1 ?R () a"
      using True ea go [rule_format, of a]
      by (subst (1 2) search_loop.simps) (simp add: npq_ops_def)
    then have "search_internal acc computer npq_ops noop_record None start_ids s () a
        = Some (Inr (\<lparr>stat_cmps = cmps s1, stat_hops = hops s1, range_search_second_round = False\<rparr>, s1, (), a1))"
      using loop vis by (simp add: search_internal_def)
    moreover have "paged_inv acc computer V L init G s1" using base1 P1 inv1(3) by (simp add: paged_inv_def)
    ultimately show ?thesis using vis1 visited [OF inv1(1,2) stop] by blast
  next
    case False
    then have "search_internal acc computer npq_ops noop_record None start_ids s () a
        = Some (Inr (\<lparr>stat_cmps = cmps s, stat_hops = hops s, range_search_second_round = False\<rparr>, s, (), a))"
      using vis by (simp add: search_internal_def search_loop.simps npq_ops_def)
    moreover have "set (take L (eids (npq_entries (best s)))) \<subseteq> vids (npq_entries (best s))"
      using visited [OF ninv] L False reopen_vids [of "best s"] by simp
    ultimately show ?thesis using inv by blast
  qed
qed

section \<open>One page\<close>

lemma eids_drop: "eids (drop n es) = drop n (eids es)"
  by (simp add: eids_def drop_map)

lemma refill_spec:
  assumes inv: "paged_inv acc computer V L init G s" and seen: "set (take L (eids (npq_entries (best s)))) \<subseteq> vids (npq_entries (best s))"
    and k: "0 < k" "k + length starts \<le> L" "distinct starts"
    and st'_def: "st' = refill starts k s st"
  shows "\<exists>ids. computed_result st' = map (found acc computer) (filter (\<lambda>i. i \<notin> set starts) ids)
    \<and> distinct ids \<and> set ids \<inter> (init \<union> G) = {} \<and> (\<forall>i\<in>set ids. dist_of acc computer i \<noteq> NaN)
    \<and> paged_inv acc computer V L init (G \<union> set ids) (ss_scratch st') \<and> length (computed_result st') \<le> k
    \<and> (length (computed_result st') < k \<longrightarrow> npq_entries (best (ss_scratch st')) = [])
    \<and> next_result_index st' = 0 \<and> ss_search_param_l st' = ss_search_param_l st \<and> visited (ss_scratch st') = visited s"
proof -
  let ?q = "best s" and ?es = "npq_entries (best s)"
  from inv have base: "search_base (npq_resizable L) npq_entries acc computer V (reopened s)" and P: "paged_sets acc computer init G s"
    by (simp_all add: paged_inv_def)
  note B = base [unfolded search_base_def]
  note S = paged_setsD [OF P]
  have wf: "npq_wf ?q" and L: "search_param_l ?q = L" and auto: "auto_resizable ?q"
    using B by (auto simp: npq_resizable_def npq_usable_def npq_inv_def)
  have dist: "distinct (eids ?es)" using B by simp
  have wfr: "npq_wf (reopen ?q)" using wf by simp
  have iter: "npq_iter ?q = map (found acc computer) (take L (eids ?es))"
  proof -
    have "npq_iter ?q = map entry_nbr (take L (npq_entries (reopen ?q)))" using npq_iter_entries [OF wfr] L by simp
    moreover have "map entry_nbr (npq_entries (reopen ?q)) = map (found acc computer) (eids (npq_entries (reopen ?q)))"
      using B by (simp add: eids_def entry_nbr_def found_def)
    ultimately show ?thesis by (metis reopen_eids take_map)
  qed
  obtain cs tot where flt: "filter_search_candidates starts k ?q = (cs, tot)" by fastforce
  from filter_candidates_spec [of "[]" k starts "npq_iter ?q" 0 cs tot] flt k(1) have tot: "tot \<le> length (npq_iter ?q)"
    "cs = filter (\<lambda>n. nbr_id n \<notin> set starts) (take tot (npq_iter ?q))" "length cs \<le> k" "tot < length (npq_iter ?q) \<longrightarrow> length cs = k"
    by (auto simp: filter_search_candidates_def)
  define ids where "ids = take tot (eids ?es)"
  have totL: "tot \<le> L" "tot \<le> length (eids ?es)" using tot(1) by (simp_all add: iter)
  have "take tot (npq_iter ?q) = map (found acc computer) ids" using totL by (simp add: iter ids_def take_map min_absorb1)
  then have cs: "cs = map (found acc computer) (filter (\<lambda>i. i \<notin> set starts) ids)" by (simp add: tot(2) filter_map o_def)
  have st': "st' = st\<lparr>ss_scratch := s\<lparr>best := drain_best ?q tot\<rparr>, computed_result := cs, next_result_index := 0\<rparr>"
    by (simp add: st'_def refill_def flt)
  note dr = drain_best_spec [OF wf, of tot]
  have drop: "eids (npq_entries (drain_best ?q tot)) = drop tot (eids ?es)" by (simp add: dr(2) eids_drop)
  have split: "eids ?es = ids @ drop tot (eids ?es)" by (simp add: ids_def)
  have idsd: "distinct ids" "set ids \<inter> set (drop tot (eids ?es)) = {}" "set ids \<subseteq> set (eids ?es)"
    using dist split by (metis distinct_append, metis distinct_append, metis Un_upper1 set_append)
  have ids_seen: "set ids \<subseteq> vids ?es" using seen totL(1) unfolding ids_def by (metis order_trans set_take_subset_set_take)
  have vid: "vids (drop tot ?es) \<subseteq> vids ?es" by (auto simp: vids_def dest: in_set_dropD)
  have "paged_sets acc computer init (G \<union> set ids) (s\<lparr>best := drain_best ?q tot\<rparr>)"
  proof -
    have "i \<in> init \<union> (G \<union> set ids) \<union> set (drop tot (eids ?es))" if "i \<in> visited s" "dist_of acc computer i \<noteq> NaN" for i
      using S(3) [OF that] split by (metis UnE UnI1 UnI2 set_append)
    moreover have "(init \<union> (G \<union> set ids)) \<inter> set (drop tot (eids ?es)) = {}" using S(2) idsd(2) by (auto dest: in_set_dropD)
    moreover have "init \<union> (G \<union> set ids) \<subseteq> visited s" using S(1) idsd(3) B by auto
    moreover have "\<exists>ns. sa_get_neighbors acc i = Inr ns \<and> set ns \<subseteq> visited s" if "i \<in> init \<union> (G \<union> set ids) \<union> vids (drop tot ?es)" for i
      using S(5) [of i] that ids_seen vid by blast
    ultimately show ?thesis unfolding paged_sets_def using S(4) by (intro conjI ballI impI) (simp_all add: dr(2) eids_drop)
  qed
  moreover have "search_base (npq_resizable L) npq_entries acc computer V (reopened (s\<lparr>best := drain_best ?q tot\<rparr>))"
  proof -
    let ?d = "drain_best ?q tot"
    have k: "auto_resizable ?d = auto_resizable ?q" "search_param_l ?d = search_param_l ?q" by (simp_all add: drain_best_def Let_def)
    have "npq_resizable L (reopen ?d)" using reopen_front [OF dr(1,3)] auto L k by (simp add: npq_resizable_def npq_usable_def)
    moreover have "fst e = dist_of acc computer (fst (snd e))" if e: "e \<in> set (npq_entries (reopen ?d))" for e
    proof -
      have "map ekey (npq_entries (reopen ?d)) = drop tot (map ekey (npq_entries (reopen ?q)))"
        using reopen_ekey [of ?d] reopen_ekey [of ?q] dr(2) by (simp add: drop_map)
      then have "ekey e \<in> ekey ` set (npq_entries (reopen ?q))" using e by (metis in_set_dropD list.set_map image_eqI)
      then show ?thesis using B by (auto simp: ekey_def)
    qed
    moreover have "distinct (drop tot (eids ?es))" "set (drop tot (eids ?es)) \<subseteq> visited s" using dist B by (auto dest: in_set_dropD)
    ultimately show ?thesis using B by (simp add: search_base_def drop)
  qed
  moreover have "npq_entries (drain_best ?q tot) = []" if short: "length cs < k"
  proof -
    have "tot = length (npq_iter ?q)" using tot(1,4) short by auto
    moreover have "length (filter (\<lambda>i. i \<in> set starts) ids) \<le> length starts"
    proof -
      have "length (filter (\<lambda>i. i \<in> set starts) ids) = card (set (filter (\<lambda>i. i \<in> set starts) ids))"
        using distinct_card [OF distinct_filter [OF idsd(1)]] by metis
      also have "\<dots> \<le> card (set starts)" by (intro card_mono) auto
      also have "\<dots> \<le> length starts" by (rule card_length)
      finally show ?thesis .
    qed
    moreover have "length ids = length (filter (\<lambda>i. i \<notin> set starts) ids) + length (filter (\<lambda>i. i \<in> set starts) ids)"
      using sum_length_filter_compl [of "\<lambda>i. i \<notin> set starts" ids] by simp
    ultimately have "tot < L" using short k(2) totL(2) by (simp add: cs ids_def)
    then have "length (eids ?es) \<le> tot" using \<open>tot = length (npq_iter ?q)\<close> by (simp add: iter)
    then show ?thesis by (simp add: dr(2) eids_def)
  qed
  moreover have "\<forall>i\<in>set ids. dist_of acc computer i \<noteq> NaN" using resizable_entry(1) [OF base] idsd(3) by auto
  moreover have "set ids \<inter> (init \<union> G) = {}" using idsd(3) S(2) by blast
  ultimately show ?thesis using idsd(1) tot(3) cs by (intro exI [of _ ids]) (simp add: st' paged_inv_def)
qed

text \<open>What is still to be found, and the state between two calls: \<open>out\<close> are the results handed out so far, the
  results after the index are computed and wait for the next call.\<close>

definition paged_target :: "('i, 'v, 'e, 'a) search_accessor \<Rightarrow> ('v \<Rightarrow> f32) \<Rightarrow> 'i list \<Rightarrow> 'i list \<Rightarrow> 'i set" where
  "paged_target acc computer init starts =
     {i \<in> paged_reach acc computer (set init). dist_of acc computer i \<noteq> NaN} - set init - set starts"

definition paged_state ::
  "('i, 'v, 'e, 'a) search_accessor \<Rightarrow> ('v \<Rightarrow> f32) \<Rightarrow> 'i set \<Rightarrow> nat \<Rightarrow> 'i list \<Rightarrow> 'i list \<Rightarrow> 'i neighbor list \<Rightarrow> 'i search_state \<Rightarrow> bool" where
  "paged_state acc computer V l init starts out st \<longleftrightarrow>
     (\<exists>G ids. paged_inv acc computer V (l + length starts) (set init) G (ss_scratch st)
        \<and> visited (ss_scratch st) \<noteq> {} \<and> ss_search_param_l st = l \<and> next_result_index st \<le> length (computed_result st)
        \<and> out @ drop (next_result_index st) (computed_result st) = map (found acc computer) ids
        \<and> distinct ids \<and> set ids = G - set starts \<and> G \<inter> set init = {} \<and> (\<forall>i\<in>G. dist_of acc computer i \<noteq> NaN))"

lemma paged_state_out:
  assumes "paged_state acc computer V l init starts out st"
  shows "distinct (map nbr_id out)" "\<forall>n\<in>set out. nbr_distance n = dist_of acc computer (nbr_id n)"
    "nbr_id ` set out \<subseteq> paged_target acc computer init starts"
proof -
  from assms obtain G ids where inv: "paged_inv acc computer V (l + length starts) (set init) G (ss_scratch st)"
    and eq: "out @ drop (next_result_index st) (computed_result st) = map (found acc computer) ids"
    and d: "distinct ids" and G: "set ids = G - set starts" "G \<inter> set init = {}" "\<forall>i\<in>G. dist_of acc computer i \<noteq> NaN"
    unfolding paged_state_def by blast
  from eq have out: "out = map (found acc computer) (take (length out) ids)" by (metis append_eq_conv_conj take_map)
  have "map nbr_id out = take (length out) ids" by (subst out) (simp add: o_def)
  then show "distinct (map nbr_id out)" using d by simp
  show "\<forall>n\<in>set out. nbr_distance n = dist_of acc computer (nbr_id n)" by (subst out) auto
  have sub: "nbr_id ` set out \<subseteq> set ids"
    using \<open>map nbr_id out = take (length out) ids\<close> by (metis list.set_map set_take_subset)
  have "G \<subseteq> set init \<union> paged_reach acc computer (set init)" using paged_setsD(1,4) inv unfolding paged_inv_def by fastforce
  then show "nbr_id ` set out \<subseteq> paged_target acc computer init starts" using sub G unfolding paged_target_def by blast
qed

text \<open>With an empty queue and nothing waiting everything was handed out.\<close>

lemma paged_state_complete:
  assumes "paged_state acc computer V l init starts out st" "npq_entries (best (ss_scratch st)) = []"
    "next_result_index st = length (computed_result st)"
  shows "nbr_id ` set out = paged_target acc computer init starts"
proof
  from assms(1) obtain G ids where inv: "paged_inv acc computer V (l + length starts) (set init) G (ss_scratch st)"
    and eq: "out @ drop (next_result_index st) (computed_result st) = map (found acc computer) ids"
    and G: "set ids = G - set starts" "G \<inter> set init = {}"
    unfolding paged_state_def by blast
  note S = paged_setsD [OF conjunct2 [OF inv [unfolded paged_inv_def]]]
  have "i \<in> visited (ss_scratch st)" if "i \<in> paged_reach acc computer (set init)" for i
    using that
  proof induction
    case (first i ns j)
    then show ?case using S(5) [of i] by fastforce
  next
    case (more i ns j)
    then have "i \<in> set init \<union> G" using S(3) assms(2) by (simp add: eids_def)
    then show ?case using S(5) [of i] more.hyps(3,4) by fastforce
  qed
  then have "paged_target acc computer init starts \<subseteq> G - set starts"
    using S(3) assms(2) unfolding paged_target_def by (fastforce simp: eids_def)
  moreover have "nbr_id ` set out = G - set starts" using eq assms(3) by (simp add: G(1) [symmetric] image_image)
  ultimately show "paged_target acc computer init starts \<subseteq> nbr_id ` set out" by simp
qed (rule paged_state_out(3) [OF assms(1)])

lemma next_search_results_spec:
  assumes st: "paged_state acc computer V l init starts out st" and closed: "graph_closed acc V" and total: "graph_total acc V"
    and go: "\<forall>a. \<not> fst (sa_terminate_early acc a)" and k: "0 < k" "k \<le> l" "length output = k" and starts: "distinct starts"
  shows "\<exists>n st' res. next_search_results acc computer starts st k output a = Some (Inr (n, st', res))
    \<and> n \<le> k \<and> length res = k \<and> paged_state acc computer V l init starts (out @ take n res) st'
    \<and> (n < k \<longrightarrow> nbr_id ` set (out @ take n res) = paged_target acc computer init starts)"
proof -
  from st obtain G ids where inv: "paged_inv acc computer V (l + length starts) (set init) G (ss_scratch st)"
    and vis: "visited (ss_scratch st) \<noteq> {}" and l: "ss_search_param_l st = l" and nx: "next_result_index st \<le> length (computed_result st)"
    and eq: "out @ drop (next_result_index st) (computed_result st) = map (found acc computer) ids"
    and d: "distinct ids" and G: "set ids = G - set starts" "G \<inter> set init = {}" "\<forall>i\<in>G. dist_of acc computer i \<noteq> NaN"
    unfolding paged_state_def by blast
  define pend where "pend = drop (next_result_index st) (computed_result st)"
  define used where "used = min k (length pend)"
  define st1 where "st1 = st\<lparr>next_result_index := next_result_index st + used\<rparr>"
  have len: "length (computed_result st) - next_result_index st = length pend" by (simp add: pend_def)
  have copy1: "(if 0 < used then copy_to_output st used output 0 else Inr (st, output)) = Inr (st1, take used pend @ drop used output)"
  proof (cases "used = 0")
    case False
    have "next_result_index st + used \<le> length (computed_result st)" using nx len by (simp add: used_def)
    then show ?thesis using False k(3) by (simp add: copy_to_output_def used_def pend_def st1_def)
  qed (simp add: st1_def)
  have nsr: "next_search_results acc computer starts st k output a =
      (if 0 < used \<and> used = k then Some (Inr (k, st1, take used pend @ drop used output))
       else case search_internal acc computer npq_ops noop_record None starts (ss_scratch st1) () a of
         None \<Rightarrow> None | Some (Inl e) \<Rightarrow> Some (Inl (PSearch e))
       | Some (Inr (_, s, _, _)) \<Rightarrow>
           (let st2 = refill starts k s st1; leftover = min (k - used) (length (computed_result st2)) in
            Some (rbind (lift_psearch (copy_to_output st2 leftover (take used pend @ drop used output) used)) (\<lambda>(st3, out3).
              Inr (used + leftover, st3, out3)))))"
    unfolding next_search_results_def l using k nx copy1 by (simp add: used_def [symmetric] len Let_def)
  show ?thesis
  proof (cases "used = k")
    case True
    then have "length pend \<ge> k" by (simp add: used_def)
    then have "take k (take used pend @ drop used output) = take k pend" using True by simp
    moreover have "drop (next_result_index st1) (computed_result st1) = drop k pend" using True by (simp add: st1_def pend_def add.commute)
    moreover have "next_result_index st1 \<le> length (computed_result st1)" using \<open>length pend \<ge> k\<close> True nx len by (simp add: st1_def)
    ultimately have "paged_state acc computer V l init starts (out @ take k (take used pend @ drop used output)) st1"
      unfolding paged_state_def using inv vis l eq d G
      by (intro exI [of _ G] exI [of _ ids]) (simp add: pend_def [symmetric], simp add: st1_def)
    then show ?thesis using nsr True k(1,3) \<open>length pend \<ge> k\<close> by (intro exI [of _ k]) simp
  next
    case False
    then have used: "used = length pend" "used < k" by (auto simp: used_def)
    have s1: "ss_scratch st1 = ss_scratch st" "ss_search_param_l st1 = l" by (simp_all add: st1_def l)
    from paged_search_internal [OF inv closed total go vis, of starts a] obtain stats s a' where
      run: "search_internal acc computer npq_ops noop_record None starts (ss_scratch st) () a = Some (Inr (stats, s, (), a'))"
      and inv': "paged_inv acc computer V (l + length starts) (set init) G s" and vis': "visited (ss_scratch st) \<subseteq> visited s"
      and seen: "set (take (l + length starts) (eids (npq_entries (best s)))) \<subseteq> vids (npq_entries (best s))" by blast
    define st2 where "st2 = refill starts k s st1"
    have "k + length starts \<le> l + length starts" using k(2) by simp
    from refill_spec [OF inv' seen k(1) this starts st2_def] obtain js where
      cs: "computed_result st2 = map (found acc computer) (filter (\<lambda>i. i \<notin> set starts) js)"
      and js: "distinct js" "set js \<inter> (set init \<union> G) = {}" "\<forall>i\<in>set js. dist_of acc computer i \<noteq> NaN"
      and inv2: "paged_inv acc computer V (l + length starts) (set init) (G \<union> set js) (ss_scratch st2)"
      and lek: "length (computed_result st2) \<le> k"
      and short: "length (computed_result st2) < k \<longrightarrow> npq_entries (best (ss_scratch st2)) = []"
      and nx2: "next_result_index st2 = 0" "ss_search_param_l st2 = l" "visited (ss_scratch st2) = visited s"
      using s1(2) by metis
    define left where "left = min (k - used) (length (computed_result st2))"
    define st3 where "st3 = st2\<lparr>next_result_index := left\<rparr>"
    define res where "res = pend @ take left (computed_result st2) @ drop (used + left) output"
    have copy2: "copy_to_output st2 left (take used pend @ drop used output) used = Inr (st3, res)"
      using used k(3) nx2(1) by (simp add: copy_to_output_def left_def st3_def res_def add.commute)
    have run2: "next_search_results acc computer starts st k output a = Some (Inr (used + left, st3, res))"
      unfolding nsr s1(1) run using used(2) copy2
      by (simp add: st2_def [symmetric] Let_def lift_psearch_def) (simp add: left_def [symmetric])
    have res: "take (used + left) res = pend @ take left (computed_result st2)" "length res = k"
      using used(1) k(3) used(2) by (auto simp: res_def left_def)
    let ?ids = "ids @ filter (\<lambda>i. i \<notin> set starts) js"
    have ids: "(out @ pend @ take left (computed_result st2)) @ drop (next_result_index st3) (computed_result st3)
        = map (found acc computer) ?ids"
      using eq by (simp add: st3_def pend_def [symmetric] cs)
    have state: "paged_state acc computer V l init starts (out @ take (used + left) res) st3"
      unfolding paged_state_def res(1)
    proof (intro exI [of _ "G \<union> set js"] exI [of _ ?ids] conjI)
      show "paged_inv acc computer V (l + length starts) (set init) (G \<union> set js) (ss_scratch st3)"
        using inv2 by (simp add: st3_def)
      show "visited (ss_scratch st3) \<noteq> {}" using vis vis' nx2(3) by (auto simp: st3_def)
      show "ss_search_param_l st3 = l" "next_result_index st3 \<le> length (computed_result st3)"
        using nx2 by (simp_all add: st3_def left_def)
      show "(out @ pend @ take left (computed_result st2)) @ drop (next_result_index st3) (computed_result st3)
        = map (found acc computer) ?ids" by (rule ids)
      show "distinct ?ids" using d js(1,2) G(1) by auto
      show "set ?ids = G \<union> set js - set starts" using G(1) by auto
      show "(G \<union> set js) \<inter> set init = {}" using G(2) js(2) by blast
      show "\<forall>i\<in>G \<union> set js. dist_of acc computer i \<noteq> NaN" using G(3) js(3) by blast
    qed
    have "nbr_id ` set (out @ take (used + left) res) = paged_target acc computer init starts" if "used + left < k"
    proof (rule paged_state_complete [OF state])
      have left: "left = length (computed_result st2)" "length (computed_result st2) < k" using that by (auto simp: left_def)
      then show "npq_entries (best (ss_scratch st3)) = []" using short by (simp add: st3_def)
      show "next_result_index st3 = length (computed_result st3)" using left by (simp add: st3_def)
    qed
    then show ?thesis using run2 state res(2) used(2) by (intro exI [of _ "used + left"]) (auto simp: left_def)
  qed
qed

section \<open>All pages\<close>

lemma start_paged_search_spec:
  assumes closed: "graph_closed acc V" and total: "graph_total acc V"
    and init: "set (case init_ids of Some ids \<Rightarrow> ids | None \<Rightarrow> starts) \<subseteq> V" "(case init_ids of Some ids \<Rightarrow> ids | None \<Rightarrow> starts) \<noteq> []"
  shows "\<exists>st. start_paged_search_with_init_ids acc computer di starts l init_ids = Inr st
    \<and> paged_state acc computer V l (case init_ids of Some ids \<Rightarrow> ids | None \<Rightarrow> starts) starts [] st"
proof -
  define ini where "ini = (case init_ids of Some ids \<Rightarrow> ids | None \<Rightarrow> starts)"
  define s :: "('a, 'a npq) search_scratch" where "s = search_scratch_new (Resizable (l + length starts))"
  let ?L = "l + length starts"
  have ini: "set ini \<subseteq> V" "ini \<noteq> []" using init by (simp_all add: ini_def)
  have s0: "visited s = {}" "npq_resizable ?L (best s)" "npq_entries (best s) = []"
    by (simp_all add: s_def search_scratch_new_def npq_resizable_def npq_usable_def npq_entries_def,
        simp_all add: auto_resizable_with_search_param_l_def)
  obtain vis out where ex: "expand_beam acc computer ini (set ini, []) = Inr (vis, out)"
    using expand_beam_total [OF closed total ini(1)] by (metis surj_pair)
  from expand_beam_spec [OF ex, unfolded append_Nil] obtain fs where fs:
    "out = map (found acc computer) fs" "distinct fs" "set fs \<inter> set ini = {}" "vis = set ini \<union> set fs"
    "\<forall>j\<in>set fs. \<exists>i\<in>set ini. \<exists>ns. sa_get_neighbors acc i = Inr ns \<and> j \<in> set ns"
    "(\<forall>i\<in>set ini. \<forall>ns. sa_get_neighbors acc i = Inr ns \<longrightarrow> (\<forall>j\<in>set ns. \<exists>v. sa_get_element acc j = Inr v))
       \<longrightarrow> (\<forall>i\<in>set ini. \<exists>ns. sa_get_neighbors acc i = Inr ns \<and> set ns \<subseteq> vis)" by blast
  have e0: "set fs \<inter> set (eids (npq_entries (best s))) = {}" "distinct (eids (npq_entries (best s)))"
    "\<forall>e\<in>set (npq_entries (best s)). fst e = dist_of acc computer (fst (snd e))" by (simp_all add: s0(3) eids_def)
  from npqr.insert_found [OF s0(2) fs(2) e0] obtain q where
    q: "insert_neighbors out (best s) = Inr q" "npq_resizable ?L q" "set (eids (npq_entries q)) \<subseteq> set fs" "distinct (eids (npq_entries q))"
      "\<forall>e\<in>set (npq_entries q). fst e = dist_of acc computer (fst (snd e))" "vids (npq_entries q) = {}"
      "\<forall>i\<in>set fs. dist_of acc computer i \<noteq> NaN \<longrightarrow> npq_cov q (dist_of acc computer i) i"
    unfolding fs(1) insert_neighbors_def by (auto simp: s0(3) eids_def vids_def npq_ops_def)
  define s1 where "s1 = s\<lparr>visited := vis, best := q\<rparr>"
  define st where "st = \<lparr>ss_scratch = s1, computed_result = replicate l (neighbor_default di), next_result_index = l, ss_search_param_l = l\<rparr>"
  have run: "start_paged_search_with_init_ids acc computer di starts l init_ids = Inr st"
    by (simp add: start_paged_search_with_init_ids_def Let_def ini_def [symmetric] s_def [symmetric] s0(1) ex q(1)
        lift_error_def lift_fault_def s1_def st_def)
  have fsV: "set fs \<subseteq> V" using fs(5) ini(1) closed unfolding graph_closed_def by blast
  have base: "search_base (npq_resizable ?L) npq_entries acc computer V s1"
    unfolding search_base_def using q(2-5) fs(4) fsV ini(1) by (auto simp: s1_def)
  have "\<forall>i\<in>set ini. \<exists>ns. sa_get_neighbors acc i = Inr ns \<and> set ns \<subseteq> vis"
    using fs(6) total closed ini(1) unfolding graph_total_def graph_closed_def by (meson subsetD)
  moreover have "i \<in> set (eids (npq_entries q))" if "i \<in> set fs" "dist_of acc computer i \<noteq> NaN" for i
    using resizable_is_entry [OF base, of "dist_of acc computer i" i] q(7) that by (simp add: s1_def)
  moreover have "set fs \<subseteq> paged_reach acc computer (set ini)" using fs(5) by (blast intro: paged_reach.first)
  ultimately have "paged_sets acc computer (set ini) {} s1"
    unfolding paged_sets_def using fs(3,4) q(3,6) by (auto simp: s1_def)
  moreover have "reopened s1 = s1" using q(2) by (simp add: reopened_def reopen_inv npq_resizable_def npq_usable_def s1_def)
  ultimately have "paged_inv acc computer V ?L (set ini) {} s1" using base by (simp add: paged_inv_def)
  moreover have "visited s1 \<noteq> {}" using ini(2) fs(4) by (simp add: s1_def)
  ultimately have "paged_state acc computer V l ini starts [] st"
    unfolding paged_state_def by (intro exI [of _ "{}"] exI [of _ "[]"]) (simp add: st_def)
  with run show ?thesis by (simp add: ini_def)
qed

lemma run_pages_spec:
  assumes "paged_state acc computer V l init starts out st" "graph_closed acc V" "graph_total acc V"
    "\<forall>a. \<not> fst (sa_terminate_early acc a)" "distinct starts" "\<forall>k\<in>set ks. 0 < k \<and> k \<le> l"
  shows "\<exists>pgs st'. run_pages acc computer starts dflt ks st a = Some (Inr (pgs, st')) \<and> list_all2 (\<lambda>p k. length p \<le> k) pgs ks
    \<and> paged_state acc computer V l init starts (out @ concat pgs) st'
    \<and> (\<not> list_all2 (\<lambda>p k. length p = k) pgs ks \<longrightarrow> nbr_id ` set (out @ concat pgs) = paged_target acc computer init starts)"
  using assms(1,6)
proof (induction ks arbitrary: out st)
  case Nil
  then show ?case by simp
next
  case (Cons k ks)
  have k: "0 < k" "k \<le> l" using Cons.prems(2) by simp_all
  from next_search_results_spec [OF Cons.prems(1) assms(2-4) k length_replicate assms(5), of dflt a] obtain n st1 res where
    page: "next_search_results acc computer starts st k (replicate k dflt) a = Some (Inr (n, st1, res))" "n \<le> k" "length res = k"
      "paged_state acc computer V l init starts (out @ take n res) st1"
      "n < k \<longrightarrow> nbr_id ` set (out @ take n res) = paged_target acc computer init starts" by blast
  from Cons.IH [OF page(4)] Cons.prems(2) obtain pgs st' where
    rest: "run_pages acc computer starts dflt ks st1 a = Some (Inr (pgs, st'))" "list_all2 (\<lambda>p k. length p \<le> k) pgs ks"
      "paged_state acc computer V l init starts ((out @ take n res) @ concat pgs) st'"
      "\<not> list_all2 (\<lambda>p k. length p = k) pgs ks \<longrightarrow> nbr_id ` set ((out @ take n res) @ concat pgs) = paged_target acc computer init starts"
    by auto
  have "nbr_id ` set (out @ concat (take n res # pgs)) = paged_target acc computer init starts" if "n < k"
  proof
    show "nbr_id ` set (out @ concat (take n res # pgs)) \<subseteq> paged_target acc computer init starts"
      using paged_state_out(3) [OF rest(3)] by simp
    have "nbr_id ` set (out @ take n res) \<subseteq> nbr_id ` set (out @ concat (take n res # pgs))" by (intro image_mono) auto
    then show "paged_target acc computer init starts \<subseteq> nbr_id ` set (out @ concat (take n res # pgs))"
      using page(5) that by simp
  qed
  moreover have "nbr_id ` set (out @ concat (take n res # pgs)) = paged_target acc computer init starts"
    if "\<not> list_all2 (\<lambda>p k. length p = k) pgs ks" using rest(4) that by simp
  moreover have "n = k" if "\<not> n < k" using page(2) that by simp
  ultimately show ?case using page(1-3) rest(1-3)
    by (intro exI [of _ "take n res # pgs"] exI [of _ st'] conjI impI) (simp, simp, simp, fastforce)
qed

section \<open>Properties\<close>



end
