(* ===== verification/Index_Multi_Delete.thy ===== *)
theory Index_Multi_Delete
  imports Index_Delete Index_Multi_Insert
begin

text \<open>
  In-place deletion of a batch: \<open>multi_inplace_delete\<close> of \<open>diskann/src/graph/index.rs\<close>.

  The identifiers are handled in chunks.  The tasks that compute the edges of a chunk only read the graph, one task per
  identifier; each has its own record of the strategy, so that the statuses a task sees may depend on how far the other tasks of
  the chunk are.  The tasks that change the graph take the vertices of a shared iterator; which task takes which is the
  argument \<open>schedule\<close>, as for the insertion of a batch, and they work on distinct vertices and are run
  one after the other.  \<open>iter_set\<close> is the order in which a hash set is iterated.  Errors of tasks are logged and suppressed; the log is the result.
\<close>

section \<open>Model\<close>

fun translate_chunk :: "('i, 'v, 'u, 'w, 'e, 'a, 'p) delete_strategy list \<Rightarrow> 'i set \<Rightarrow> 'e + 'i set" where
  "translate_chunk [] ids_to_delete = Inr ids_to_delete"
| "translate_chunk (d # ds) ids_to_delete =
     rbind (escalate (ds_internal_id d)) (\<lambda>vector_id. translate_chunk ds (insert vector_id ids_to_delete))"

fun delete_inner_tasks ::
  "config \<Rightarrow> ('i, 'e, 'p) graph_ops \<Rightarrow> ('i list \<Rightarrow> 'i list) \<Rightarrow> nat \<Rightarrow> inplace_delete_method
    \<Rightarrow> ('i, 'v, 'u, 'w, 'e, 'a, 'p) delete_strategy list \<Rightarrow> ('i \<rightharpoonup> 'i list) list \<Rightarrow> ('i, 'e) list_error list
    \<Rightarrow> ('i, 'e, 'w, 'p, ('i \<rightharpoonup> 'i list) list \<times> ('i, 'e) list_error list) update" where
  "delete_inner_tasks cfg ops set_order num_to_replace how [] edge_hashmaps logged s = uret (edge_hashmaps, logged) s"
| "delete_inner_tasks cfg ops set_order num_to_replace how (d # ds) edge_hashmaps logged s =
     (case inplace_delete_inner cfg ops d set_order num_to_replace how s of
        None \<Rightarrow> None
      | Some (Inl err, s') \<Rightarrow> delete_inner_tasks cfg ops set_order num_to_replace how ds edge_hashmaps (logged @ [err]) s'
      | Some (Inr edges, s') \<Rightarrow> delete_inner_tasks cfg ops set_order num_to_replace how ds (edge_hashmaps @ [edges]) logged s')"

definition edges_of :: "('i \<rightharpoonup> 'i list) list \<Rightarrow> 'i \<Rightarrow> 'i list" where
  "edges_of edge_hashmaps source = concat (List.map_filter (\<lambda>m. m source) edge_hashmaps)"

definition delete_edges_task ::
  "config \<Rightarrow> ('i, 'e, 'p) graph_ops \<Rightarrow> 'e + ('i, 'u, 'w, 'e) prune_accessor \<Rightarrow> 'w \<Rightarrow> 'i set \<Rightarrow> ('i \<rightharpoonup> 'i list) list
    \<Rightarrow> 'i list \<Rightarrow> ('i, 'e) list_error list \<Rightarrow> ('i, 'e, 'w, 'p, ('i, 'e) list_error list) update" where
  "delete_edges_task cfg ops prune_acc ws ids_to_delete edge_hashmaps sources logged s =
     (case ufor sources (\<lambda>source s. add_edge_and_prune cfg ops prune_acc (edges_of edge_hashmaps source) source
              (Some ids_to_delete) (fresh_scratch ws s)) s of
        None \<Rightarrow> None
      | Some (Inl e, s') \<Rightarrow> uret (logged @ [e]) s'
      | Some (Inr _, s') \<Rightarrow> uret logged s')"

fun delete_edges_tasks ::
  "config \<Rightarrow> ('i, 'e, 'p) graph_ops \<Rightarrow> 'e + ('i, 'u, 'w, 'e) prune_accessor \<Rightarrow> 'w \<Rightarrow> 'i set \<Rightarrow> ('i \<rightharpoonup> 'i list) list
    \<Rightarrow> 'i list list \<Rightarrow> ('i, 'e) list_error list \<Rightarrow> ('i, 'e, 'w, 'p, ('i, 'e) list_error list) update" where
  "delete_edges_tasks cfg ops prune_acc ws ids_to_delete edge_hashmaps [] logged = uret logged"
| "delete_edges_tasks cfg ops prune_acc ws ids_to_delete edge_hashmaps (sources # rest) logged =
     ubind (delete_edges_task cfg ops prune_acc ws ids_to_delete edge_hashmaps sources logged)
       (delete_edges_tasks cfg ops prune_acc ws ids_to_delete edge_hashmaps rest)"

definition multi_delete_chunk ::
  "config \<Rightarrow> ('i, 'e, 'p) graph_ops \<Rightarrow> 'e + ('i, 'u, 'w, 'e) prune_accessor \<Rightarrow> 'w \<Rightarrow> (nat \<Rightarrow> nat \<Rightarrow> nat list list)
    \<Rightarrow> ('i set \<Rightarrow> 'i list) \<Rightarrow> ('i list \<Rightarrow> 'i list) \<Rightarrow> nat \<Rightarrow> inplace_delete_method
    \<Rightarrow> ('i, 'v, 'u, 'w, 'e, 'a, 'p) delete_strategy list \<Rightarrow> ('i, 'e) list_error list
    \<Rightarrow> ('i, 'e, 'w, 'p, ('i, 'e) list_error list) update" where
  "multi_delete_chunk cfg ops prune_acc ws schedule iter_set set_order num_to_replace how ds logged =
     ubind (ulift (translate_chunk ds {})) (\<lambda>ids_to_delete.
     ubind (delete_inner_tasks cfg ops set_order num_to_replace how ds [] logged) (\<lambda>(edge_hashmaps, logged).
     let ids_to_modify = iter_set (\<Union>(dom ` set edge_hashmaps));
         num_tasks = min (if ids_to_modify = [] then max_minibatch_par cfg else length ids_to_modify) (max_minibatch_par cfg)
     in ubind (delete_edges_tasks cfg ops prune_acc ws ids_to_delete edge_hashmaps
                 (map (map (\<lambda>i. ids_to_modify ! i)) (schedule num_tasks (length ids_to_modify))) logged) (\<lambda>logged.
     ubind (ulift prune_acc) (\<lambda>_.
     ubind (ufor (iter_set ids_to_delete) (drop_adj_list ops)) (\<lambda>_.
     uret logged)))))"

fun multi_delete_chunks ::
  "config \<Rightarrow> ('i, 'e, 'p) graph_ops \<Rightarrow> 'e + ('i, 'u, 'w, 'e) prune_accessor \<Rightarrow> 'w \<Rightarrow> (nat \<Rightarrow> nat \<Rightarrow> nat list list)
    \<Rightarrow> ('i set \<Rightarrow> 'i list) \<Rightarrow> ('i list \<Rightarrow> 'i list) \<Rightarrow> nat \<Rightarrow> inplace_delete_method
    \<Rightarrow> (fault + ('i, 'v, 'u, 'w, 'e, 'a, 'p) delete_strategy arc_chunk) list \<Rightarrow> ('i, 'e) list_error list
    \<Rightarrow> ('i, 'e, 'w, 'p, ('i, 'e) list_error list) update" where
  "multi_delete_chunks cfg ops prune_acc ws schedule iter_set set_order num_to_replace how [] logged = uret logged"
| "multi_delete_chunks cfg ops prune_acc ws schedule iter_set set_order num_to_replace how (Inl f # cs) logged = uthrow (Panic f)"
| "multi_delete_chunks cfg ops prune_acc ws schedule iter_set set_order num_to_replace how (Inr c # cs) logged =
     ubind (multi_delete_chunk cfg ops prune_acc ws schedule iter_set set_order num_to_replace how (get_chunk c) logged)
       (multi_delete_chunks cfg ops prune_acc ws schedule iter_set set_order num_to_replace how cs)"

definition multi_inplace_delete ::
  "config \<Rightarrow> ('i, 'e, 'p) graph_ops \<Rightarrow> 'e + ('i, 'u, 'w, 'e) prune_accessor \<Rightarrow> 'w \<Rightarrow> (nat \<Rightarrow> nat \<Rightarrow> nat list list)
    \<Rightarrow> ('i set \<Rightarrow> 'i list) \<Rightarrow> ('i list \<Rightarrow> 'i list) \<Rightarrow> nat \<Rightarrow> inplace_delete_method
    \<Rightarrow> ('i, 'v, 'u, 'w, 'e, 'a, 'p) delete_strategy list \<Rightarrow> ('i, 'e, 'w, 'p, ('i, 'e) list_error list) update" where
  "multi_inplace_delete cfg ops prune_acc ws schedule iter_set set_order num_to_replace how ds =
     multi_delete_chunks cfg ops prune_acc ws schedule iter_set set_order num_to_replace how
       (arc_chunks ds (max_minibatch_par cfg)) []"

section \<open>The tasks of a chunk\<close>

definition deleted_ids :: "('i, 'v, 'u, 'w, 'e, 'a, 'p) delete_strategy list \<Rightarrow> 'i set" where
  "deleted_ids ds = {i. \<exists>d\<in>set ds. ds_internal_id d = Inr i}"

lemma escalate_eq_Inr: "escalate r = Inr x \<longleftrightarrow> r = Inr x"
  by (auto simp: escalate_def split: sum.splits ranked_error.splits)

lemma translate_chunk_Inr:
  "translate_chunk ds del = Inr del' \<Longrightarrow> del' = del \<union> deleted_ids ds \<and> (\<forall>d\<in>set ds. \<exists>i. ds_internal_id d = Inr i)"
proof (induction ds arbitrary: del)
  case (Cons d ds)
  then obtain i where i: "ds_internal_id d = Inr i" "translate_chunk ds (insert i del) = Inr del'"
    by (auto simp: rbind_eq_Inr_iff escalate_eq_Inr)
  from Cons.IH [OF i(2)] i(1) show ?case by (auto simp: deleted_ids_def)
qed (simp add: deleted_ids_def)

text \<open>A delete strategy that fits the graph: its identifier is one of the graph, and its accessors read the graph.\<close>

definition delete_fits :: "('i, 'e, 'p) graph_ops \<Rightarrow> 'i set \<Rightarrow> ('i, 'v, 'u, 'w, 'e, 'a, 'p) delete_strategy \<Rightarrow> bool" where
  "delete_fits ops V d \<longleftrightarrow> (\<forall>i. ds_internal_id d = Inr i \<longrightarrow> i \<in> V) \<and> (\<forall>p. delete_reads ops V p d)"

lemma edges_of_sub:
  assumes "\<forall>m\<in>set maps. \<exists>d\<in>set ds. edges_ok (live V (ds_status d)) m" "x \<in> set (edges_of maps j)"
  shows "\<exists>d\<in>set ds. x \<in> live V (ds_status d)"
proof -
  from assms(2) obtain m es where "m \<in> set maps" "m j = Some es" "x \<in> set es"
    by (auto simp: edges_of_def map_filter_def)
  then show ?thesis using assms(1) unfolding edges_ok_def by blast
qed

context graph_update
begin

lemma delete_inner_tasks_run:
  fixes s :: "('i, 'w, 'p) istate" and ds :: "('i, 'v, 'u, 'w, 'e, 'a, 'p) delete_strategy list"
  assumes s: "sinv cfg V p0 S s" and V: "finite V" and order: "\<And>xs. set (set_order xs) = set xs"
    and ds: "\<forall>d\<in>set ds. delete_fits ops V d \<and> (\<exists>i. ds_internal_id d = Inr i)"
  shows "\<exists>maps' logged'. delete_inner_tasks cfg ops set_order num how ds maps logged s = Some (Inr (maps @ maps', logged'), s)
    \<and> (\<forall>m\<in>set maps'. \<exists>d\<in>set ds. edges_ok (live V (ds_status d)) m)"
  using ds
proof (induction ds arbitrary: maps logged)
  case Nil
  then show ?case by (simp add: uret_def)
next
  case (Cons d ds)
  then obtain i where "ds_internal_id d = Inr i" "i \<in> V" "delete_reads ops V (ix_graph s) d" by (auto simp: delete_fits_def)
  then have "escalate (ds_internal_id d) = Inr i" by (simp add: escalate_eq_Inr)
  from inner_run [OF s V \<open>i \<in> V\<close> this \<open>delete_reads ops V (ix_graph s) d\<close> order, of num how]
  consider e where "inplace_delete_inner cfg ops d set_order num how s = Some (Inl (Other e), s)"
    | m where "inplace_delete_inner cfg ops d set_order num how s = Some (Inr m, s)" "edges_ok (live V (ds_status d)) m" by blast
  then show ?case
  proof cases
    case (1 e)
    then show ?thesis using Cons.IH [of maps "logged @ [Other e]"] Cons.prems by auto
  next
    case (2 m)
    obtain maps' logged' where "delete_inner_tasks cfg ops set_order num how ds (maps @ [m]) logged s = Some (Inr ((maps @ [m]) @ maps', logged'), s)"
      "\<forall>m\<in>set maps'. \<exists>d\<in>set ds. edges_ok (live V (ds_status d)) m" using Cons.IH [of "maps @ [m]" logged] Cons.prems by auto
    with 2 show ?thesis by (intro exI [of _ "m # maps'"] exI [of _ logged']) auto
  qed
qed

text \<open>The vertices of \<open>D\<close> have new lists; when \<open>strict\<close> holds these do not lead to \<open>del\<close>.\<close>

definition batch_cleaned ::
  "config \<Rightarrow> 'i set \<Rightarrow> 'i set \<Rightarrow> 'p \<Rightarrow> ('i \<Rightarrow> 'i list) \<Rightarrow> bool \<Rightarrow> 'i set \<Rightarrow> ('i, 'w, 'p) istate \<Rightarrow> bool" where
  "batch_cleaned cfg V del p0 tg strict D s \<longleftrightarrow> sinv cfg V p0 D s
     \<and> (strict \<longrightarrow> (\<forall>j\<in>D. relinked cfg V ops del (tg j) p0 (ix_graph s) j))"

lemma batch_one_triple:
  fixes pacc :: "'e + ('i, 'u, 'w, 'e) prune_accessor"
  assumes cfg: "config_ok cfg" and j: "j \<in> V" "j \<notin> D" "set (tg j) \<subseteq> V" "strict \<Longrightarrow> set (tg j) \<inter> del = {}"
  shows "utriple (batch_cleaned cfg V del p0 tg strict D) (\<lambda>s. add_edge_and_prune cfg ops pacc (tg j) j (Some del) (fresh_scratch ws s))
    (\<lambda>_. batch_cleaned cfg V del p0 tg strict (insert j D)) (\<lambda>e s. batch_cleaned cfg V del p0 tg strict D s \<and> (\<forall>f. e \<noteq> Panic f))"
proof (rule utripleI)
  fix s :: "('i, 'w, 'p) istate" assume s: "batch_cleaned cfg V del p0 tg strict D s"
  let ?f = "fresh_scratch ws s"
  have sv: "sinv cfg V p0 D ?f" using s
    by (simp add: batch_cleaned_def sinv_def fresh_scratch_def prune_scratch_new_def al_new_def pruned_from_def)
  have "?f = ?f \<and> sinv cfg V p0 D ?f" using sv by simp
  from utripleD [OF add_edge_triple [OF cfg j(1,3), of ?f p0 D pacc "Some del"] this] obtain r s' where
    run: "add_edge_and_prune cfg ops pacc (tg j) j (Some del) ?f = Some (r, s')" and
    r: "case r of Inl e \<Rightarrow> sinv cfg V p0 D s' \<and> ix_graph s' = ix_graph ?f \<and> (\<forall>f. e \<noteq> Panic f) | Inr _ \<Rightarrow> sinv cfg V p0 (insert j D) s'"
    by (elim exE conjE) (metis (mono_tags, lifting) sum.case_eq_if)
  show "case add_edge_and_prune cfg ops pacc (tg j) j (Some del) ?f of None \<Rightarrow> False
    | Some (Inl e, s') \<Rightarrow> batch_cleaned cfg V del p0 tg strict D s' \<and> (\<forall>f. e \<noteq> Panic f)
    | Some (Inr x, s') \<Rightarrow> batch_cleaned cfg V del p0 tg strict (insert j D) s'"
  proof (cases r)
    case (Inl e)
    have "relinked cfg V ops del (tg k) p0 (ix_graph s') k" if "strict" "k \<in> D" for k
      using s that Inl r by (simp add: batch_cleaned_def fresh_scratch_def)
    then show ?thesis using run r Inl by (simp add: batch_cleaned_def)
  next
    case (Inr u)
    have "\<forall>k\<in>insert j D. relinked cfg V ops del (tg k) p0 (ix_graph s') k" if st: strict
    proof -
      have T: "set (tg j) \<subseteq> V - del" using j(3,4) st by blast
      have "cleaned cfg V del p0 tg D ?f" using s sv st
        by (simp add: cleaned_def batch_cleaned_def fresh_scratch_def prune_scratch_new_def al_new_def)
      from utripleD [OF clean_one_triple [where tg = tg, OF cfg j(1,2) T, of p0 pacc] this] run Inr
      show ?thesis by (auto simp: cleaned_def)
    qed
    then show ?thesis using run r Inr by (simp add: batch_cleaned_def)
  qed
qed

lemma batch_items_run:
  fixes pacc :: "'e + ('i, 'u, 'w, 'e) prune_accessor"
  assumes cfg: "config_ok cfg" and "distinct js" "set js \<inter> D = {}" "set js \<subseteq> V"
    and tg: "\<forall>j\<in>set js. set (tg j) \<subseteq> V \<and> (strict \<longrightarrow> set (tg j) \<inter> del = {})"
    and s: "batch_cleaned cfg V del p0 tg strict D s"
  shows "\<exists>r s' D'. ufor js (\<lambda>j s. add_edge_and_prune cfg ops pacc (tg j) j (Some del) (fresh_scratch ws s)) s = Some (r, s')
    \<and> batch_cleaned cfg V del p0 tg strict D' s' \<and> D \<subseteq> D' \<and> D' \<subseteq> D \<union> set js"
  using assms(2-6)
proof (induction js arbitrary: D s)
  case Nil
  then show ?case by (auto simp: uret_def)
next
  case (Cons j js)
  have j: "j \<in> V" "j \<notin> D" "set (tg j) \<subseteq> V" "strict \<Longrightarrow> set (tg j) \<inter> del = {}" using Cons.prems by auto
  from utripleD [OF batch_one_triple [where tg = tg and strict = strict and del = del, OF cfg j, of p0 pacc ws] Cons.prems(5)]
  obtain r s1 where run: "add_edge_and_prune cfg ops pacc (tg j) j (Some del) (fresh_scratch ws s) = Some (r, s1)" and
    r: "case r of Inl e \<Rightarrow> batch_cleaned cfg V del p0 tg strict D s1 \<and> (\<forall>f. e \<noteq> Panic f) | Inr _ \<Rightarrow> batch_cleaned cfg V del p0 tg strict (insert j D) s1"
    by blast
  show ?case
  proof (cases r)
    case (Inl e)
    then show ?thesis using run r by (auto simp: ubind_def)
  next
    case (Inr u)
    then have "batch_cleaned cfg V del p0 tg strict (insert j D) s1" using r by simp
    from Cons.IH [OF _ _ _ _ this] Cons.prems(1-4) obtain r2 s2 D2 where
      "ufor js (\<lambda>j s. add_edge_and_prune cfg ops pacc (tg j) j (Some del) (fresh_scratch ws s)) s1 = Some (r2, s2)"
      "batch_cleaned cfg V del p0 tg strict D2 s2" "insert j D \<subseteq> D2" "D2 \<subseteq> insert j D \<union> set js" by auto
    then show ?thesis using run Inr by (intro exI [of _ r2] exI [of _ s2] exI [of _ D2]) (auto simp: ubind_def)
  qed
qed

lemma delete_edges_tasks_run:
  fixes pacc :: "'e + ('i, 'u, 'w, 'e) prune_accessor"
  assumes cfg: "config_ok cfg" and "distinct (concat jss)" "set (concat jss) \<inter> D = {}" "set (concat jss) \<subseteq> V"
    and tg: "\<forall>j\<in>set (concat jss). set (edges_of maps j) \<subseteq> V \<and> (strict \<longrightarrow> set (edges_of maps j) \<inter> del = {})"
    and s: "batch_cleaned cfg V del p0 (edges_of maps) strict D s"
  shows "\<exists>logged' s' D'. delete_edges_tasks cfg ops pacc ws del maps jss logged s = Some (Inr logged', s')
    \<and> batch_cleaned cfg V del p0 (edges_of maps) strict D' s' \<and> D' \<subseteq> D \<union> set (concat jss)"
  using assms(2-6)
proof (induction jss arbitrary: D s logged)
  case Nil
  then show ?case by (auto simp: uret_def)
next
  case (Cons js jss)
  have js: "distinct js" "set js \<inter> D = {}" "set js \<subseteq> V" "\<forall>j\<in>set js. set (edges_of maps j) \<subseteq> V \<and> (strict \<longrightarrow> set (edges_of maps j) \<inter> del = {})"
    using Cons.prems by auto
  from batch_items_run [OF cfg js Cons.prems(5), of pacc ws] obtain r s1 D1 where
    run: "ufor js (\<lambda>j s. add_edge_and_prune cfg ops pacc (edges_of maps j) j (Some del) (fresh_scratch ws s)) s = Some (r, s1)"
    and s1: "batch_cleaned cfg V del p0 (edges_of maps) strict D1 s1" "D1 \<subseteq> D \<union> set js" by blast
  obtain l1 where task: "delete_edges_task cfg ops pacc ws del maps js logged s = Some (Inr l1, s1)"
    using run by (cases r) (auto simp: delete_edges_task_def uret_def)
  have "set (concat jss) \<inter> D1 = {}" using Cons.prems(1,2) s1(2) by auto
  from Cons.IH [OF _ this _ _ s1(1), of l1] Cons.prems obtain l2 s2 D2 where
    "delete_edges_tasks cfg ops pacc ws del maps jss l1 s1 = Some (Inr l2, s2)"
    "batch_cleaned cfg V del p0 (edges_of maps) strict D2 s2" "D2 \<subseteq> D1 \<union> set (concat jss)" by auto
  then show ?case using task s1(2) by (intro exI [of _ l2] exI [of _ s2] exI [of _ D2]) (auto simp: ubind_def)
qed

lemma drop_all_run:
  assumes "sinv cfg V p0 S s" "set js \<subseteq> V"
  shows "\<exists>s'. ufor js (drop_adj_list ops) s = Some (Inr (), s') \<and> sinv cfg V p0 (S \<union> set js) s'
    \<and> (\<forall>j\<in>set js. go_get ops (ix_graph s') j = Inr []) \<and> unchanged ops (set js) (ix_graph s) (ix_graph s')"
  using assms
proof (induction js arbitrary: S s)
  case Nil
  then show ?case by (simp add: uret_def unchanged_def)
next
  case (Cons j js)
  have nil: "good_list cfg V []" by (simp add: good_list_def)
  have jV: "j \<in> V" "set js \<subseteq> V" using Cons.prems(2) by auto
  from run_set [OF Cons.prems(1) jV(1) nil] obtain s1 where
    s1: "set_neighbors ops j [] s = Some (Inr (), s1)" "sinv cfg V p0 (insert j S) s1" "go_get ops (ix_graph s1) j = Inr []" .
  from run_set [OF sinv_start [OF Cons.prems(1)] jV(1) nil] s1(1) have u: "unchanged ops {j} (ix_graph s) (ix_graph s1)"
    by (auto simp: sinv_def)
  from Cons.IH [OF s1(2) jV(2)] obtain s2 where s2: "ufor js (drop_adj_list ops) s1 = Some (Inr (), s2)"
    "sinv cfg V p0 (insert j S \<union> set js) s2" "\<forall>j\<in>set js. go_get ops (ix_graph s2) j = Inr []"
    "unchanged ops (set js) (ix_graph s1) (ix_graph s2)" by blast
  have "go_get ops (ix_graph s2) j = Inr []" using s1(3) s2(3,4) by (cases "j \<in> set js") (auto simp: unchanged_def)
  with s1(1) s2 u show ?case by (intro exI [of _ s2]) (auto simp: ubind_def drop_adj_list_def [of ops j] unchanged_def)
qed

end

section \<open>Chunks\<close>

definition set_iteration :: "('i set \<Rightarrow> 'i list) \<Rightarrow> bool" where
  "set_iteration iter_set \<longleftrightarrow> (\<forall>S. finite S \<longrightarrow> distinct (iter_set S) \<and> set (iter_set S) = S)"

text \<open>Every task sees the identifiers of \<open>Del\<close> as deleted.\<close>

definition all_marked :: "'i set \<Rightarrow> ('i, 'v, 'u, 'w, 'e, 'a, 'p) delete_strategy list \<Rightarrow> bool" where
  "all_marked Del ds \<longleftrightarrow> (\<forall>d\<in>set ds. \<forall>i\<in>Del. counts_deleted (ds_status d) i)"

definition chunk_deleted ::
  "('i, 'e, 'p) graph_ops \<Rightarrow> ('i, 'v, 'u, 'w, 'e, 'a, 'p) delete_strategy list \<Rightarrow> 'i set \<Rightarrow> 'p \<Rightarrow> 'p \<Rightarrow> bool" where
  "chunk_deleted ops ds Del p0 p \<longleftrightarrow> (\<forall>d\<in>set ds. \<exists>i. ds_internal_id d = Inr i)
     \<and> (\<forall>i\<in>deleted_ids ds. go_get ops p i = Inr [])
     \<and> (all_marked Del ds \<longrightarrow> (\<forall>j\<in>Del - deleted_ids ds. go_get ops p j = go_get ops p0 j)
         \<and> (deleted_ids ds \<subseteq> Del \<longrightarrow> (\<forall>j. j \<notin> deleted_ids ds \<longrightarrow> go_get ops p j \<noteq> go_get ops p0 j \<longrightarrow>
              (\<forall>i\<in>deleted_ids ds. \<not> points_at ops p i j))))"

lemma schedule_sources:
  assumes "fair_schedule schedule" "0 < k" "distinct xs"
  shows "distinct (concat (map (map (\<lambda>i. xs ! i)) (schedule k (length xs))))"
    "set (concat (map (map (\<lambda>i. xs ! i)) (schedule k (length xs)))) = set xs"
proof -
  have "mset (map (\<lambda>i. xs ! i) (concat (schedule k (length xs)))) = mset (map (\<lambda>i. xs ! i) [0..<length xs])"
    unfolding mset_map fair_scheduleD(2) [OF assms(1,2)] ..
  then have m: "mset (concat (map (map (\<lambda>i. xs ! i)) (schedule k (length xs)))) = mset xs"
    by (simp add: map_concat map_nth)
  show "distinct (concat (map (map (\<lambda>i. xs ! i)) (schedule k (length xs))))" using mset_eq_imp_distinct_iff [OF m] assms(3) by simp
  show "set (concat (map (map (\<lambda>i. xs ! i)) (schedule k (length xs)))) = set xs" by (rule mset_eq_setD [OF m])
qed

context graph_update
begin

lemma chunk_run:
  fixes s :: "('i, 'w, 'p) istate" and ds :: "('i, 'v, 'u, 'w, 'e, 'a, 'p) delete_strategy list" and pacc :: "'e + ('i, 'u, 'w, 'e) prune_accessor"
  assumes cfg: "config_ok cfg" "0 < max_minibatch_par cfg" and V: "finite V" and s: "sinv cfg V (ix_graph s) {} s"
    and order: "\<And>xs. set (set_order xs) = set xs" and iter: "set_iteration iter_set" and fair: "fair_schedule schedule"
    and ds: "\<forall>d\<in>set ds. delete_fits ops V d"
  shows "\<exists>r s'. multi_delete_chunk cfg ops pacc ws schedule iter_set set_order num how ds logged s = Some (r, s')
    \<and> sinv cfg V (ix_graph s') {} s' \<and> (\<forall>f. r \<noteq> Inl (Panic f))
    \<and> (\<forall>l. r = Inr l \<longrightarrow> (\<forall>Del. chunk_deleted ops ds Del (ix_graph s) (ix_graph s')))"
proof (cases "translate_chunk ds {}")
  case (Inl e)
  then show ?thesis using s by (simp add: multi_delete_chunk_def ubind_def uthrow_def)
next
  case (Inr del)
  let ?p = "ix_graph s"
  from translate_chunk_Inr [OF Inr] have del: "del = deleted_ids ds" and ids: "\<forall>d\<in>set ds. \<exists>i. ds_internal_id d = Inr i" by auto
  have delV: "del \<subseteq> V" using ds by (auto simp: del deleted_ids_def delete_fits_def)
  then have fdel: "finite del" using V finite_subset by blast
  from delete_inner_tasks_run [OF s V order, of ds num how "[]" logged] ds ids obtain maps l1 where
    inner: "delete_inner_tasks cfg ops set_order num how ds [] logged s = Some (Inr (maps, l1), s)"
    and maps: "\<forall>m\<in>set maps. \<exists>d\<in>set ds. edges_ok (live V (ds_status d)) m" by auto
  let ?S = "\<Union>(dom ` set maps)"
  define xs where "xs = iter_set ?S"
  define k where "k = min (if xs = [] then max_minibatch_par cfg else length xs) (max_minibatch_par cfg)"
  have "\<exists>d\<in>set ds. j \<in> live V (ds_status d)" if "j \<in> ?S" for j using that maps unfolding edges_ok_def by blast
  then have SV: "?S \<subseteq> V" by (auto simp: live_def)
  then have "finite ?S" using V finite_subset by blast
  then have xs: "distinct xs" "set xs = ?S" using iter by (auto simp: xs_def set_iteration_def)
  have k: "0 < k" using cfg(2) by (simp add: k_def)
  let ?jss = "map (map (\<lambda>i. xs ! i)) (schedule k (length xs))"
  note js = schedule_sources [OF fair k xs(1)]
  define strict where "strict \<longleftrightarrow> all_marked del ds"
  have tg: "\<forall>j\<in>set (concat ?jss). set (edges_of maps j) \<subseteq> V \<and> (strict \<longrightarrow> set (edges_of maps j) \<inter> del = {})"
    using edges_of_sub [OF maps] by (fastforce simp: live_def strict_def all_marked_def)
  have c0: "batch_cleaned cfg V del ?p (edges_of maps) strict {} s" using s by (simp add: batch_cleaned_def)
  have jsV: "set (concat ?jss) \<subseteq> V" using js(2) xs(2) SV by simp
  from delete_edges_tasks_run [OF cfg(1) js(1) _ jsV tg c0, of pacc ws l1] obtain l2 s1 D where
    tasks: "delete_edges_tasks cfg ops pacc ws del maps ?jss l1 s = Some (Inr l2, s1)"
    and c1: "batch_cleaned cfg V del ?p (edges_of maps) strict D s1" and D: "D \<subseteq> ?S" unfolding js(2) xs(2) by auto
  have run: "multi_delete_chunk cfg ops pacc ws schedule iter_set set_order num how ds logged s =
      ubind (ulift pacc) (\<lambda>_. ubind (ufor (iter_set del) (drop_adj_list ops)) (\<lambda>_. uret l2)) s1"
    using tasks unfolding multi_delete_chunk_def Inr
    unfolding ubind_def [of "ulift (Inr del)"] ubind_def [of "delete_inner_tasks cfg ops set_order num how ds [] logged"]
    by (simp only: ulift_def uret_def sum.case option.case prod.case inner xs_def [symmetric] k_def [symmetric] Let_def)
      (simp add: ubind_def)
  have sv: "sinv cfg V ?p D s1" using c1 by (simp add: batch_cleaned_def)
  show ?thesis
  proof (cases pacc)
    case (Inl e)
    then show ?thesis using run sinv_start [OF sv] by (simp add: ubind_def uthrow_def)
  next
    case acc: (Inr a)
    have idel: "set (iter_set del) = del" using iter fdel by (simp add: set_iteration_def)
    from drop_all_run [OF sv, of "iter_set del"] delV obtain s2 where
      s2: "ufor (iter_set del) (drop_adj_list ops) s1 = Some (Inr (), s2)" "sinv cfg V ?p (D \<union> del) s2"
        "\<forall>j\<in>del. go_get ops (ix_graph s2) j = Inr []" "unchanged ops del (ix_graph s1) (ix_graph s2)" unfolding idel by auto
    have fin: "multi_delete_chunk cfg ops pacc ws schedule iter_set set_order num how ds logged s = Some (Inr l2, s2)"
      using run s2(1) by (simp add: acc ubind_def uret_def)
    have "chunk_deleted ops ds Del ?p (ix_graph s2)" for Del
      unfolding chunk_deleted_def
    proof (intro conjI impI ballI allI)
      show "\<exists>i. ds_internal_id d = Inr i" if "d \<in> set ds" for d using ids that by blast
      show "go_get ops (ix_graph s2) i = Inr []" if "i \<in> deleted_ids ds" for i using s2(3) that del by simp
      show "go_get ops (ix_graph s2) j = go_get ops ?p j" if m: "all_marked Del ds" and j: "j \<in> Del - deleted_ids ds" for j
      proof -
        have "j \<notin> ?S" using maps m j unfolding edges_ok_def live_def all_marked_def by blast
        then have "j \<notin> D \<union> del" using D j del by blast
        then show ?thesis using s2(2) by (simp add: sinv_def unchanged_def)
      qed
      show "\<not> points_at ops (ix_graph s2) i j" if m: "all_marked Del ds" and sub: "deleted_ids ds \<subseteq> Del"
        and j: "j \<notin> deleted_ids ds" "go_get ops (ix_graph s2) j \<noteq> go_get ops ?p j" and i: "i \<in> deleted_ids ds" for i j
      proof -
        have st: strict using m sub by (auto simp: strict_def all_marked_def del)
        have "j \<in> D" using s2(2) j del by (auto simp: sinv_def unchanged_def)
        then have "relinked cfg V ops del (edges_of maps j) ?p (ix_graph s1) j" using c1 st by (simp add: batch_cleaned_def)
        moreover have "go_get ops (ix_graph s2) j = go_get ops (ix_graph s1) j" using s2(4) j(1) del by (simp add: unchanged_def)
        ultimately show ?thesis using i del by (auto simp: relinked_def points_at_def)
      qed
    qed
    then show ?thesis using fin sinv_start [OF s2(2)] by blast
  qed
qed

lemma chunks_run:
  fixes s :: "('i, 'w, 'p) istate" and cs :: "('i, 'v, 'u, 'w, 'e, 'a, 'p) delete_strategy arc_chunk list" and pacc :: "'e + ('i, 'u, 'w, 'e) prune_accessor"
  assumes cfg: "config_ok cfg" "0 < max_minibatch_par cfg" and V: "finite V" and s: "sinv cfg V (ix_graph s) {} s"
    and order: "\<And>xs. set (set_order xs) = set xs" and iter: "set_iteration iter_set" and fair: "fair_schedule schedule"
    and ds: "\<forall>d\<in>set (concat (map get_chunk cs)). delete_fits ops V d"
    and Del: "deleted_ids (concat (map get_chunk cs)) \<subseteq> Del"
  shows "\<exists>r s'. multi_delete_chunks cfg ops pacc ws schedule iter_set set_order num how (map Inr cs) logged s = Some (r, s')
    \<and> sinv cfg V (ix_graph s') {} s' \<and> (\<forall>f. r \<noteq> Inl (Panic f))
    \<and> (\<forall>l. r = Inr l \<longrightarrow> (\<forall>d\<in>set (concat (map get_chunk cs)). \<exists>i. ds_internal_id d = Inr i)
        \<and> (all_marked Del (concat (map get_chunk cs)) \<longrightarrow>
            (\<forall>i\<in>Del. i \<in> deleted_ids (concat (map get_chunk cs)) \<or> go_get ops (ix_graph s) i = Inr [] \<longrightarrow> go_get ops (ix_graph s') i = Inr [])))"
  using s ds Del
proof (induction cs arbitrary: s logged)
  case Nil
  then show ?case by (simp add: uret_def deleted_ids_def)
next
  case (Cons c cs)
  have c: "\<forall>d\<in>set (get_chunk c). delete_fits ops V d" using Cons.prems(2) by simp
  from chunk_run [OF cfg V Cons.prems(1) order iter fair c, of pacc ws num how logged] obtain r s1 where
    run: "multi_delete_chunk cfg ops pacc ws schedule iter_set set_order num how (get_chunk c) logged s = Some (r, s1)"
    and s1: "sinv cfg V (ix_graph s1) {} s1" and r: "\<forall>f. r \<noteq> Inl (Panic f)"
      "\<And>l Del. r = Inr l \<Longrightarrow> chunk_deleted ops (get_chunk c) Del (ix_graph s) (ix_graph s1)" by blast
  show ?case
  proof (cases r)
    case (Inl e)
    then show ?thesis using run s1 r(1) by (auto simp: ubind_def)
  next
    case (Inr l)
    note cd = r(2) [OF Inr, of Del, unfolded chunk_deleted_def]
    have sub: "deleted_ids (concat (map get_chunk cs)) \<subseteq> Del" using Cons.prems(3) by (auto simp: deleted_ids_def)
    from Cons.IH [OF s1 _ sub, of l] Cons.prems(2) obtain r2 s2 where
      rest: "multi_delete_chunks cfg ops pacc ws schedule iter_set set_order num how (map Inr cs) l s1 = Some (r2, s2)"
        "sinv cfg V (ix_graph s2) {} s2" "\<forall>f. r2 \<noteq> Inl (Panic f)"
      and fin: "\<And>l. r2 = Inr l \<Longrightarrow> (\<forall>d\<in>set (concat (map get_chunk cs)). \<exists>i. ds_internal_id d = Inr i)
        \<and> (all_marked Del (concat (map get_chunk cs)) \<longrightarrow>
            (\<forall>i\<in>Del. i \<in> deleted_ids (concat (map get_chunk cs)) \<or> go_get ops (ix_graph s1) i = Inr [] \<longrightarrow> go_get ops (ix_graph s2) i = Inr []))"
      by auto
    have ids: "\<forall>d\<in>set (concat (map get_chunk (c # cs))). \<exists>i. ds_internal_id d = Inr i" if "r2 = Inr l2" for l2
      using fin [OF that] cd by auto
    have "go_get ops (ix_graph s2) i = Inr []" if r2: "r2 = Inr l2" and m: "all_marked Del (concat (map get_chunk (c # cs)))"
      and i: "i \<in> Del" "i \<in> deleted_ids (concat (map get_chunk (c # cs))) \<or> go_get ops (ix_graph s) i = Inr []" for i l2
    proof -
      have ms: "all_marked Del (get_chunk c)" "all_marked Del (concat (map get_chunk cs))" using m by (auto simp: all_marked_def)
      have "i \<in> deleted_ids (concat (map get_chunk cs)) \<or> i \<in> deleted_ids (get_chunk c) \<or> go_get ops (ix_graph s) i = Inr []"
        using i(2) by (auto simp: deleted_ids_def)
      then have "i \<in> deleted_ids (concat (map get_chunk cs)) \<or> go_get ops (ix_graph s1) i = Inr []"
        using cd ms(1) i(1) by (cases "i \<in> deleted_ids (get_chunk c)") auto
      then show ?thesis using fin [OF r2] ms(2) i(1) by blast
    qed
    then show ?thesis using run Inr rest ids by (intro exI [of _ r2] exI [of _ s2]) (simp add: ubind_def)
  qed
qed

end

lemma arc_chunks_one:
  assumes "xs \<noteq> []" "length xs \<le> k"
  shows "\<exists>c. arc_chunks xs k = [Inr c] \<and> get_chunk c = xs"
proof -
  have "div_ceil (length xs) k = 1" unfolding div_ceil_def using assms
    by (intro div_nat_eqI) (auto simp: Suc_le_eq length_greater_0_conv [symmetric] simp del: length_greater_0_conv)
  then show ?thesis using assms(2) by (simp add: arc_chunks_def arc_chunk_new_def get_chunk_def)
qed

section \<open>Properties\<close>


lemma sorted_iteration: "set_iteration (sorted_list_of_set :: 'i::linorder set \<Rightarrow> 'i list)"
  by (simp add: set_iteration_def)


end
