(* ===== verification/Cached_Io.thy ===== *)
theory Cached_Io
  imports Graph_File
begin

text \<open>
  Buffered reading and writing of the disk index: \<open>CachedReader\<close> and \<open>CachedWriter\<close> of
  \<open>diskann-disk/src/storage\<close>, over the storage providers of \<open>diskann-providers/src/storage\<close>.

  A storage is a map from names to the bytes of a file; an open file is its bytes and a position.
  The locale \<open>byte_source\<close> is what the reader of a file promises to the code that uses it: an
  operation that takes the next bytes of what is left or fails.  It is interpreted on the plain and
  on the cached reader, which are thereby the same reader.  Byte counts are far below \<open>2 ^ 64\<close> and do
  not wrap; that no subtraction of the cached reader underflows is part of its invariant.
\<close>

section \<open>Storage\<close>

datatype disk_error =
    FileNotFound string
  | UnexpectedEnd
  | ReadingBeyondEnd nat nat nat nat
  | CacheSizeZero
  | BlockSizeTooSmall nat
  | NumPointsMismatch nat nat
  | InvalidIndexReader
  | MetadataConversion
  | ParseSlice string
  | MaxDegreeOverflow
  | MaxDegreeUnsupportedLayoutVersion nat nat
  | NotPowerOfTwo nat
  | CannotSplit nat nat nat nat
  | NonTermination
  | Unaligned nat
  | TooManySectors nat nat
  | VertexDataMissing "32 word" string
  | MalformedLength "32 word" nat
  | SerdeError
  | CacheDimension
  | CacheFull
  | CacheNotInitialised
  | AdjacencyListNotFound "32 word"
  | DiskPanic fault

type_synonym storage = "string \<rightharpoonup> byte list"

definition open_reader :: "storage \<Rightarrow> string \<Rightarrow> disk_error + out_file" where
  "open_reader st name =
     (case st name of None \<Rightarrow> Inl (FileNotFound name) | Some bs \<Rightarrow> Inr \<lparr>f_bytes = bs, f_pos = 0\<rparr>)"

definition get_length :: "storage \<Rightarrow> string \<Rightarrow> disk_error + nat" where
  "get_length st name = (case st name of None \<Rightarrow> Inl (FileNotFound name) | Some bs \<Rightarrow> Inr (length bs))"

text \<open>A file opened for writing keeps its bytes and starts at its first one.\<close>

definition open_writer :: "storage \<Rightarrow> string \<Rightarrow> disk_error + out_file" where
  "open_writer st name =
     (case st name of None \<Rightarrow> Inl (FileNotFound name) | Some bs \<Rightarrow> Inr \<lparr>f_bytes = bs, f_pos = 0\<rparr>)"

definition read_exact :: "nat \<Rightarrow> out_file \<Rightarrow> disk_error + (byte list \<times> out_file)" where
  "read_exact n f =
     (if f_pos f + n \<le> length (f_bytes f)
      then Inr (take n (drop (f_pos f) (f_bytes f)), f\<lparr>f_pos := f_pos f + n\<rparr>) else Inl UnexpectedEnd)"

text \<open>An integer of \<open>n\<close> bytes, through a given way to read bytes.\<close>

definition read_le ::
  "(nat \<Rightarrow> 's \<Rightarrow> disk_error + (byte list \<times> 's)) \<Rightarrow> nat \<Rightarrow> 's \<Rightarrow> disk_error + (nat \<times> 's)" where
  "read_le read n s = rbind (read n s) (\<lambda>(bs, s'). Inr (from_le bs, s'))"

fun read_pieces ::
  "(nat \<Rightarrow> 's \<Rightarrow> disk_error + (byte list \<times> 's)) \<Rightarrow> nat list \<Rightarrow> 's \<Rightarrow> disk_error + (byte list list \<times> 's)" where
  "read_pieces read [] s = Inr ([], s)"
| "read_pieces read (n # ns) s =
     rbind (read n s) (\<lambda>(b, s1). rbind (read_pieces read ns s1) (\<lambda>(bs, s2). Inr (b # bs, s2)))"

section \<open>The cached reader\<close>

record cached_reader =
  cr_reader :: out_file
  cr_cache_size :: nat
  cr_cache_buf :: "byte list"
  cr_cur_off :: nat
  cr_size :: nat

definition cr_new :: "string \<Rightarrow> nat \<Rightarrow> storage \<Rightarrow> disk_error + cached_reader" where
  "cr_new filename cache_size st =
     rbind (open_reader st filename) (\<lambda>reader.
     rbind (get_length st filename) (\<lambda>size.
       let cache_size = min cache_size size in
       rbind (read_exact cache_size reader) (\<lambda>(cache_buf, reader).
         Inr \<lparr>cr_reader = reader, cr_cache_size = cache_size, cr_cache_buf = cache_buf,
              cr_cur_off = 0, cr_size = size\<rparr>)))"

definition cr_read :: "nat \<Rightarrow> cached_reader \<Rightarrow> disk_error + (byte list \<times> cached_reader)" where
  "cr_read n_bytes r =
     (if n_bytes \<le> cr_cache_size r - cr_cur_off r
      then Inr (take n_bytes (drop (cr_cur_off r) (cr_cache_buf r)), r\<lparr>cr_cur_off := cr_cur_off r + n_bytes\<rparr>)
      else
        let cached_bytes = cr_cache_size r - cr_cur_off r in
        if cr_size r - f_pos (cr_reader r) < n_bytes - cached_bytes
        then Inl (ReadingBeyondEnd n_bytes cached_bytes (cr_size r) (f_pos (cr_reader r)))
        else rbind (read_exact (n_bytes - cached_bytes) (cr_reader r)) (\<lambda>(bs, reader).
          let read_buf = drop (cr_cur_off r) (cr_cache_buf r) @ bs;
              r1 = r\<lparr>cr_reader := reader, cr_cur_off := cr_cache_size r\<rparr>;
              size_left = cr_size r1 - f_pos reader
          in if cr_cache_size r1 \<le> size_left
             then rbind (read_exact (cr_cache_size r1) reader) (\<lambda>(cache_buf, reader).
               Inr (read_buf, r1\<lparr>cr_reader := reader, cr_cache_buf := cache_buf, cr_cur_off := 0\<rparr>))
             else Inr (read_buf, r1)))"

definition cr_read_u32 :: "cached_reader \<Rightarrow> disk_error + (nat \<times> cached_reader)" where
  "cr_read_u32 r = read_le cr_read 4 r"

section \<open>The cached writer\<close>

record cached_writer =
  cw_writer :: out_file
  cw_cache_size :: nat
  cw_cache_buf :: "byte list"
  cw_cur_off :: nat
  cw_fsize :: nat

definition cw_new :: "nat \<Rightarrow> out_file \<Rightarrow> disk_error + cached_writer" where
  "cw_new cache_size writer =
     (if cache_size = 0 then Inl CacheSizeZero
      else Inr \<lparr>cw_writer = writer, cw_cache_size = cache_size, cw_cache_buf = replicate cache_size 0,
                cw_cur_off = 0, cw_fsize = 0\<rparr>)"

definition cw_flush_cache :: "cached_writer \<Rightarrow> cached_writer" where
  "cw_flush_cache w =
     w\<lparr>cw_writer := write_all (take (cw_cur_off w) (cw_cache_buf w)) (cw_writer w),
       cw_fsize := cw_fsize w + cw_cur_off w,
       cw_cache_buf := replicate (length (cw_cache_buf w)) 0,
       cw_cur_off := 0\<rparr>"

definition cw_flush :: "cached_writer \<Rightarrow> cached_writer" where
  "cw_flush w = (if 0 < cw_cur_off w then cw_flush_cache w else w)"

definition cw_write :: "byte list \<Rightarrow> cached_writer \<Rightarrow> cached_writer" where
  "cw_write write_buf w =
     (let n_bytes = length write_buf in
      if n_bytes \<le> cw_cache_size w - cw_cur_off w
      then w\<lparr>cw_cache_buf := take (cw_cur_off w) (cw_cache_buf w) @ write_buf
               @ drop (cw_cur_off w + n_bytes) (cw_cache_buf w),
             cw_cur_off := cw_cur_off w + n_bytes\<rparr>
      else
        let w1 = w\<lparr>cw_writer := write_all (take (cw_cur_off w) (cw_cache_buf w)) (cw_writer w),
                   cw_fsize := cw_fsize w + cw_cur_off w\<rparr>;
            w2 = w1\<lparr>cw_writer := write_all write_buf (cw_writer w1), cw_fsize := cw_fsize w1 + n_bytes\<rparr>
        in w2\<lparr>cw_cache_buf := replicate (length (cw_cache_buf w2)) 0, cw_cur_off := 0\<rparr>)"

definition cw_reset :: "cached_writer \<Rightarrow> cached_writer" where
  "cw_reset w = (let w1 = cw_flush_cache w in w1\<lparr>cw_writer := seek_start 0 (cw_writer w1)\<rparr>)"

section \<open>What a reader promises\<close>

locale byte_source =
  fixes read :: "nat \<Rightarrow> 's \<Rightarrow> disk_error + (byte list \<times> 's)"
    and inv :: "'s \<Rightarrow> bool"
    and rest :: "'s \<Rightarrow> byte list"
  assumes read_law: "\<And>s n. inv s \<Longrightarrow> n \<le> length (rest s) \<Longrightarrow>
      \<exists>s'. read n s = Inr (take n (rest s), s') \<and> inv s' \<and> rest s' = drop n (rest s)"
    and read_fails: "\<And>s n. inv s \<Longrightarrow> length (rest s) < n \<Longrightarrow> \<exists>e. read n s = Inl e"
begin

lemma read_prefix:
  assumes "inv s" "rest s = a @ b" "length a = n"
  obtains s' where "read n s = Inr (a, s')" "inv s'" "rest s' = b"
  using read_law [OF assms(1), of n] assms(2,3) by auto

lemma read_le_prefix:
  assumes "inv s" "rest s = le_bytes n v @ b" "v < 256 ^ n"
  obtains s' where "read_le read n s = Inr (v, s')" "inv s'" "rest s' = b"
proof -
  obtain s' where "read n s = Inr (le_bytes n v, s')" "inv s'" "rest s' = b"
    using read_prefix [OF assms(1,2)] by auto
  then show thesis using assms(3) by (intro that [of s']) (simp_all add: read_le_def from_le_bytes)
qed

lemma read_pieces_prefix:
  assumes "inv s" "rest s = concat ds @ b"
  obtains s' where "read_pieces read (map length ds) s = Inr (ds, s')" "inv s'" "rest s' = b"
  using assms
proof (induction ds arbitrary: s thesis)
  case (Cons d ds)
  obtain s1 where s1: "read (length d) s = Inr (d, s1)" "inv s1" "rest s1 = concat ds @ b"
    using read_prefix [OF Cons.prems(2), of d "concat ds @ b"] Cons.prems(3) by auto
  show ?case by (rule Cons.IH [OF _ s1(2,3)]) (simp add: Cons.prems(1) s1(1))
qed simp

lemma read_iff: "inv s \<Longrightarrow> is_ok (read n s) \<longleftrightarrow> n \<le> length (rest s)"
  using read_law [of s n] read_fails [of s n] by (cases "n \<le> length (rest s)") auto

end

definition rf_inv :: "out_file \<Rightarrow> bool" where
  "rf_inv f \<longleftrightarrow> f_pos f \<le> length (f_bytes f)"

definition rf_rest :: "out_file \<Rightarrow> byte list" where
  "rf_rest f = drop (f_pos f) (f_bytes f)"

interpretation plain: byte_source read_exact rf_inv rf_rest
  by unfold_locales (auto simp: read_exact_def rf_inv_def rf_rest_def add.commute)

definition cr_inv :: "cached_reader \<Rightarrow> bool" where
  "cr_inv r \<longleftrightarrow> length (cr_cache_buf r) = cr_cache_size r \<and> cr_cur_off r \<le> cr_cache_size r
     \<and> cr_size r = length (f_bytes (cr_reader r)) \<and> f_pos (cr_reader r) \<le> cr_size r"

definition cr_rest :: "cached_reader \<Rightarrow> byte list" where
  "cr_rest r = drop (cr_cur_off r) (cr_cache_buf r) @ drop (f_pos (cr_reader r)) (f_bytes (cr_reader r))"

lemma length_cr_rest:
  "cr_inv r \<Longrightarrow> length (cr_rest r) = (cr_cache_size r - cr_cur_off r) + (cr_size r - f_pos (cr_reader r))"
  by (simp add: cr_inv_def cr_rest_def)

interpretation cached: byte_source cr_read cr_inv cr_rest
proof
  fix r n
  assume inv: "cr_inv r" and n: "n \<le> length (cr_rest r)"
  show "\<exists>r'. cr_read n r = Inr (take n (cr_rest r), r') \<and> cr_inv r' \<and> cr_rest r' = drop n (cr_rest r)"
  proof (cases "n \<le> cr_cache_size r - cr_cur_off r")
    case True
    then show ?thesis using inv by (auto simp: cr_read_def cr_rest_def cr_inv_def add.commute)
  next
    case False
    define k where "k = n - (cr_cache_size r - cr_cur_off r)"
    let ?pos = "f_pos (cr_reader r)" and ?file = "f_bytes (cr_reader r)"
    have kn: "n = length (drop (cr_cur_off r) (cr_cache_buf r)) + k" and kl: "?pos + k \<le> length ?file"
      using False inv n by (auto simp: cr_inv_def k_def length_cr_rest)
    have split: "take n (cr_rest r) = drop (cr_cur_off r) (cr_cache_buf r) @ take k (drop ?pos ?file)"
      "drop n (cr_rest r) = drop (?pos + k) ?file" by (simp_all add: kn cr_rest_def add.commute)
    have reload: "take c (drop p ?file) @ drop (p + c) ?file = drop p ?file" for c p
      by (metis add.commute append_take_drop_id drop_drop)
    show ?thesis using False inv kl unfolding split
      by (auto simp: cr_read_def k_def [symmetric] read_exact_def Let_def cr_inv_def cr_rest_def reload)
  qed
next
  fix r n
  assume "cr_inv r" "length (cr_rest r) < n"
  then show "\<exists>e. cr_read n r = Inl e" by (auto simp: cr_read_def Let_def length_cr_rest)
qed

lemma open_reader_ok: "st name = Some bs \<Longrightarrow> \<exists>f. open_reader st name = Inr f \<and> rf_inv f \<and> rf_rest f = bs"
  by (simp add: open_reader_def rf_inv_def rf_rest_def)

lemma cr_new_ok: "st name = Some bs \<Longrightarrow> \<exists>r. cr_new name c st = Inr r \<and> cr_inv r \<and> cr_rest r = bs"
  by (auto simp: cr_new_def open_reader_def get_length_def read_exact_def cr_inv_def cr_rest_def Let_def)

section \<open>What the writer has written\<close>

definition cw_inv :: "cached_writer \<Rightarrow> bool" where
  "cw_inv w \<longleftrightarrow> length (cw_cache_buf w) = cw_cache_size w \<and> cw_cur_off w \<le> cw_cache_size w
     \<and> at_end (cw_writer w) \<and> cw_fsize w = length (f_bytes (cw_writer w))"

definition cw_content :: "cached_writer \<Rightarrow> byte list" where
  "cw_content w = f_bytes (cw_writer w) @ take (cw_cur_off w) (cw_cache_buf w)"

lemma cw_new_ok: "0 < c \<Longrightarrow> \<exists>w. cw_new c create_for_write = Inr w \<and> cw_inv w \<and> cw_content w = []"
  by (simp add: cw_new_def cw_inv_def cw_content_def create_for_write_def at_end_def)

lemma cw_write_ok:
  assumes "cw_inv w"
  shows "cw_inv (cw_write d w)" "cw_content (cw_write d w) = cw_content w @ d"
  using assms by (auto simp: cw_write_def cw_inv_def cw_content_def Let_def write_at_end)

lemma cw_writes_ok:
  assumes "cw_inv w"
  shows "cw_inv (fold cw_write ds w) \<and> cw_content (fold cw_write ds w) = cw_content w @ concat ds"
  using assms by (induction ds arbitrary: w) (auto simp: cw_write_ok)

lemma cw_flush_ok:
  assumes "cw_inv w"
  shows "f_bytes (cw_writer (cw_flush w)) = cw_content w" "cw_fsize (cw_flush w) = length (cw_content w)"
    "cw_cur_off (cw_flush w) = 0"
  using assms by (auto simp: cw_flush_def cw_flush_cache_def cw_inv_def cw_content_def write_at_end)

section \<open>Properties\<close>

text \<open>C40: what is written through the cached writer in pieces is read back through the cached reader
  in the same pieces, whatever the sizes of the two caches and of the pieces; the file holds the
  pieces one after the other, and one byte more is an error.\<close>

theorem cached_io_roundtrip:
  assumes "0 < write_cache"
  shows "\<exists>w bytes r r'. cw_new write_cache create_for_write = Inr w
    \<and> f_bytes (cw_writer (cw_flush (fold cw_write ds w))) = bytes \<and> bytes = concat ds
    \<and> cr_new name read_cache [name \<mapsto> bytes] = Inr r
    \<and> read_pieces cr_read (map length ds) r = Inr (ds, r') \<and> (\<forall>n. 0 < n \<longrightarrow> \<not> is_ok (cr_read n r'))"
proof -
  obtain w where w: "cw_new write_cache create_for_write = Inr w" "cw_inv w" "cw_content w = []"
    using cw_new_ok [OF assms] by blast
  have f: "f_bytes (cw_writer (cw_flush (fold cw_write ds w))) = concat ds"
    using cw_writes_ok [OF w(2), of ds] w(3) by (simp add: cw_flush_ok)
  obtain r where r: "cr_new name read_cache [name \<mapsto> concat ds] = Inr r" "cr_inv r" "cr_rest r = concat ds"
    using cr_new_ok [of "[name \<mapsto> concat ds]" name "concat ds" read_cache] by auto
  obtain r' where "read_pieces cr_read (map length ds) r = Inr (ds, r')" "cr_inv r'" "cr_rest r' = []"
    using cached.read_pieces_prefix [OF r(2), of ds "[]"] r(3) by auto
  then show ?thesis using w(1) f r(1) cached.read_iff [of r'] by auto
qed

theorem cached_io_roundtrip_witness:
  "\<exists>w bytes r r'. cw_new 3 create_for_write = Inr w
    \<and> f_bytes (cw_writer (cw_flush (fold cw_write [[1, 2], [3, 4, 5, 6], [], [7]] w))) = bytes
    \<and> bytes = [1, 2, 3, 4, 5, 6, 7] \<and> cr_new ''f'' 2 [''f'' \<mapsto> bytes] = Inr r
    \<and> read_pieces cr_read (map length [[1, 2 :: byte], [3, 4, 5, 6], [], [7]]) r = Inr ([[1, 2], [3, 4, 5, 6], [], [7]], r')
    \<and> \<not> is_ok (cr_read 1 r')"
proof -
  let ?ds = "[[1, 2], [3, 4, 5, 6], [], [7]] :: byte list list"
  obtain w bytes r r' where "cw_new 3 create_for_write = Inr w"
    "f_bytes (cw_writer (cw_flush (fold cw_write ?ds w))) = bytes" "bytes = concat ?ds"
    "cr_new ''f'' 2 [''f'' \<mapsto> bytes] = Inr r" "read_pieces cr_read (map length ?ds) r = Inr (?ds, r')"
    "\<forall>n. 0 < n \<longrightarrow> \<not> is_ok (cr_read n r')"
    using cached_io_roundtrip [OF zero_less_numeral, of "num.Bit1 num.One" ?ds "''f''" 2] by (elim exE conjE)
  then show ?thesis by (intro exI [of _ w] exI [of _ bytes] exI [of _ r] exI [of _ r']) simp
qed

end
