(* ===== verification/Disk_Header.thy ===== *)
theory Disk_Header
  imports Cached_Io
begin

text \<open>
  The header of the disk index: \<open>GraphMetadata\<close>, \<open>GraphLayoutVersion\<close> and \<open>GraphHeader\<close> of
  \<open>diskann-disk/src/data_model\<close>.  The fields are numbers below \<open>2 ^ 64\<close> (\<open>2 ^ 32\<close> for the two
  parts of the version), written in eight (four) bytes; \<open>metadata_ok\<close> and \<open>version_ok\<close> say so.
\<close>

section \<open>Metadata\<close>

record graph_metadata =
  gm_num_pts :: nat
  gm_dims :: nat
  gm_medoid :: nat
  gm_node_len :: nat
  gm_num_nodes_per_block :: nat
  gm_vamana_frozen_num :: nat
  gm_vamana_frozen_loc :: nat
  gm_disk_index_file_size :: nat
  gm_associated_data_length :: nat

definition gm_to_bytes :: "graph_metadata \<Rightarrow> byte list" where
  "gm_to_bytes m =
     le_bytes 8 (gm_num_pts m) @ le_bytes 8 (gm_dims m) @ le_bytes 8 (gm_medoid m) @ le_bytes 8 (gm_node_len m)
     @ le_bytes 8 (gm_num_nodes_per_block m) @ le_bytes 8 (gm_vamana_frozen_num m) @ le_bytes 8 (gm_vamana_frozen_loc m)
     @ le_bytes 8 0 @ le_bytes 8 (gm_disk_index_file_size m) @ le_bytes 8 (gm_associated_data_length m)"

definition gm_get_size :: nat where
  "gm_get_size = 8 * 10"

definition cursor :: "byte list \<Rightarrow> out_file" where
  "cursor bs = \<lparr>f_bytes = bs, f_pos = 0\<rparr>"

definition gm_try_from :: "byte list \<Rightarrow> disk_error + graph_metadata" where
  "gm_try_from bs =
     (if length bs < gm_get_size then Inl (ParseSlice ''GraphMetadata'')
      else
        let read_u64 = read_le read_exact 8 in
        rbind (read_u64 (cursor bs)) (\<lambda>(num_pts, c).
        rbind (read_u64 c) (\<lambda>(dims, c).
        rbind (read_u64 c) (\<lambda>(medoid, c).
        rbind (read_u64 c) (\<lambda>(node_len, c).
        rbind (read_u64 c) (\<lambda>(num_nodes_per_sector, c).
        rbind (read_u64 c) (\<lambda>(vamana_frozen_num, c).
        rbind (read_u64 c) (\<lambda>(vamana_frozen_loc, c).
        rbind (read_u64 c) (\<lambda>(_, c).
        rbind (read_u64 c) (\<lambda>(disk_index_file_size, c).
        rbind (read_u64 c) (\<lambda>(associated_data_length, c).
          Inr \<lparr>gm_num_pts = num_pts, gm_dims = dims, gm_medoid = medoid, gm_node_len = node_len,
               gm_num_nodes_per_block = num_nodes_per_sector, gm_vamana_frozen_num = vamana_frozen_num,
               gm_vamana_frozen_loc = vamana_frozen_loc, gm_disk_index_file_size = disk_index_file_size,
               gm_associated_data_length = associated_data_length\<rparr>)))))))))))"

section \<open>Layout version\<close>

datatype graph_layout_version = GraphLayoutVersion (major: nat) (minor: nat)

definition glv_to_bytes :: "graph_layout_version \<Rightarrow> byte list" where
  "glv_to_bytes v = le_bytes 4 (major v) @ le_bytes 4 (minor v)"

definition glv_try_from :: "byte list \<Rightarrow> disk_error + graph_layout_version" where
  "glv_try_from bs =
     (if length bs < 8 then Inl (ParseSlice ''GraphLayoutVersion'')
      else rbind (read_le read_exact 4 (cursor bs)) (\<lambda>(major, c).
           rbind (read_le read_exact 4 c) (\<lambda>(minor, c). Inr (GraphLayoutVersion major minor))))"

text \<open>Versions are compared by their major part, then by their minor part.\<close>

instantiation graph_layout_version :: linorder
begin

definition less_eq_graph_layout_version :: "graph_layout_version \<Rightarrow> graph_layout_version \<Rightarrow> bool" where
  "less_eq_graph_layout_version v w \<longleftrightarrow> (if major v = major w then minor v \<le> minor w else major v < major w)"

definition less_graph_layout_version :: "graph_layout_version \<Rightarrow> graph_layout_version \<Rightarrow> bool" where
  "less_graph_layout_version v w \<longleftrightarrow> (if major v = major w then minor v < minor w else major v < major w)"

instance
  by standard
    (auto simp: less_eq_graph_layout_version_def less_graph_layout_version_def graph_layout_version.expand split: if_splits)

end

section \<open>Header\<close>

record graph_header =
  gh_metadata :: graph_metadata
  gh_block_size :: nat
  gh_layout_version :: graph_layout_version

definition CURRENT_LAYOUT_VERSION :: graph_layout_version where
  "CURRENT_LAYOUT_VERSION = GraphLayoutVersion 1 0"

definition gh_to_bytes :: "graph_header \<Rightarrow> byte list" where
  "gh_to_bytes h = gm_to_bytes (gh_metadata h) @ le_bytes 8 (gh_block_size h) @ glv_to_bytes (gh_layout_version h)"

definition gh_get_size :: nat where
  "gh_get_size = gm_get_size + 8 + 8"

definition gh_try_from :: "byte list \<Rightarrow> disk_error + graph_header" where
  "gh_try_from bs =
     (if length bs < gh_get_size then Inl (ParseSlice ''GraphHeader'')
      else
        let metadata_len = gm_get_size in
        rbind (gm_try_from (take metadata_len bs)) (\<lambda>metadata.
        rbind (read_le read_exact 8 (cursor (drop metadata_len bs))) (\<lambda>(block_size, _).
        rbind (glv_try_from (drop (metadata_len + 8) bs)) (\<lambda>layout_version.
          Inr \<lparr>gh_metadata = metadata, gh_block_size = block_size, gh_layout_version = layout_version\<rparr>))))"

definition checked_sub :: "nat \<Rightarrow> nat \<Rightarrow> nat option" where
  "checked_sub a b = (if b \<le> a then Some (a - b) else None)"

text \<open>\<open>data_size\<close> is the size of an element of a vector.\<close>

definition gh_max_degree :: "nat \<Rightarrow> graph_header \<Rightarrow> disk_error + nat" where
  "gh_max_degree data_size h =
     (if gh_layout_version h \<in> {GraphLayoutVersion 0 0, GraphLayoutVersion 1 0} then
        let m = gh_metadata h; vector_len = data_size * gm_dims m in
        if 2 ^ 64 \<le> vector_len then Inl (DiskPanic OverflowFault)
        else case Option.bind (checked_sub (gm_node_len m) vector_len) (\<lambda>len.
               Option.bind (checked_sub len (gm_associated_data_length m)) (\<lambda>len.
               checked_sub (len div 4) 1))
          of Some degree \<Rightarrow> Inr degree | None \<Rightarrow> Inl MaxDegreeOverflow
      else Inl (MaxDegreeUnsupportedLayoutVersion (major (gh_layout_version h)) (minor (gh_layout_version h))))"

section \<open>What is written is read back\<close>

definition metadata_ok :: "graph_metadata \<Rightarrow> bool" where
  "metadata_ok m \<longleftrightarrow> (\<forall>v\<in>{gm_num_pts m, gm_dims m, gm_medoid m, gm_node_len m, gm_num_nodes_per_block m,
     gm_vamana_frozen_num m, gm_vamana_frozen_loc m, gm_disk_index_file_size m, gm_associated_data_length m}. v < 2 ^ 64)"

definition header_ok :: "graph_header \<Rightarrow> bool" where
  "header_ok h \<longleftrightarrow> metadata_ok (gh_metadata h) \<and> gh_block_size h < 2 ^ 64
     \<and> major (gh_layout_version h) < 2 ^ 32 \<and> minor (gh_layout_version h) < 2 ^ 32"

lemma length_gm_to_bytes [simp]: "length (gm_to_bytes m) = 80"
  by (simp add: gm_to_bytes_def)

lemma length_gh_to_bytes [simp]: "length (gh_to_bytes h) = 96"
  by (simp add: gh_to_bytes_def glv_to_bytes_def)

lemma gm_try_from_to_bytes: "metadata_ok m \<Longrightarrow> gm_try_from (gm_to_bytes m) = Inr m"
  by (simp add: gm_try_from_def gm_get_size_def gm_to_bytes_def metadata_ok_def cursor_def read_le_def read_exact_def
      from_le_bytes)

lemma glv_try_from_to_bytes:
  "major v < 2 ^ 32 \<Longrightarrow> minor v < 2 ^ 32 \<Longrightarrow> glv_try_from (glv_to_bytes v @ rest) = Inr v"
  by (simp add: glv_try_from_def glv_to_bytes_def cursor_def read_le_def read_exact_def from_le_bytes)

lemma gh_try_from_to_bytes:
  assumes "header_ok h"
  shows "gh_try_from (gh_to_bytes h @ rest) = Inr h"
proof -
  have "drop 88 (gh_to_bytes h @ rest) = glv_to_bytes (gh_layout_version h) @ rest"
    by (simp add: gh_to_bytes_def)
  moreover have "read_le read_exact 8 (cursor (drop 80 (gh_to_bytes h @ rest)))
      = Inr (gh_block_size h, (cursor (drop 80 (gh_to_bytes h @ rest)))\<lparr>f_pos := 8\<rparr>)"
    using assms by (simp add: gh_to_bytes_def cursor_def read_le_def read_exact_def from_le_bytes header_ok_def)
  moreover have "take 80 (gh_to_bytes h @ rest) = gm_to_bytes (gh_metadata h)" by (simp add: gh_to_bytes_def)
  ultimately show ?thesis using assms
    by (simp add: gh_try_from_def gh_get_size_def gm_get_size_def header_ok_def gm_try_from_to_bytes glv_try_from_to_bytes)
qed

lemma gh_try_from_short: "length bs < 96 \<Longrightarrow> gh_try_from bs = Inl (ParseSlice ''GraphHeader'')"
  by (simp add: gh_try_from_def gh_get_size_def gm_get_size_def)

end
