(* ===== verification/Disk_Writer.thy ===== *)
theory Disk_Writer
  imports Disk_Header
begin

text \<open>
  \<open>DiskIndexWriter\<close> of \<open>diskann-disk/src/storage/disk_index_writer.rs\<close>: from the graph file, the
  file of vectors and the optional file of associated data it makes the disk index, in which the
  vector, the neighbors and the associated data of a vertex are next to each other at a place that
  is computed from its identifier.

  The type parameters of the code enter through the sizes of their values in bytes: \<open>vsz\<close> for an
  element of a vector, \<open>asz\<close> for an element of the associated data.  Lengths are numbers; they are
  sums and products of a few 32-bit numbers and do not reach \<open>2 ^ 64\<close>.  The debug assertions on the
  number of neighbors are panics, as in a build with debug assertions.  An operation that fails
  gives the error only: the partial file that is left behind is not described.
\<close>

section \<open>State\<close>

definition READ_WRITE_BLOCK_SIZE :: nat where
  "READ_WRITE_BLOCK_SIZE = 64 * 1024 * 1024"

record writer_state =
  ws_index_reader :: "out_file option"
  ws_associated_data_reader :: "cached_reader option"
  ws_dataset_reader :: "cached_reader option"
  ws_dims :: nat
  ws_num_pts :: nat
  ws_max_degree :: nat
  ws_medoid :: nat
  ws_vamana_frozen_num :: nat
  ws_node_len :: nat
  ws_associated_data_length :: nat
  ws_read_blk_size :: nat
  ws_write_blk_size :: nat

definition ws_new :: writer_state where
  "ws_new = \<lparr>ws_index_reader = None, ws_associated_data_reader = None, ws_dataset_reader = None,
     ws_dims = 0, ws_num_pts = 0, ws_max_degree = 0, ws_medoid = 0, ws_vamana_frozen_num = 0, ws_node_len = 0,
     ws_associated_data_length = 0, ws_read_blk_size = READ_WRITE_BLOCK_SIZE, ws_write_blk_size = READ_WRITE_BLOCK_SIZE\<rparr>"

record disk_index_writer =
  diw_dataset_file :: string
  diw_index_path_prefix :: string
  diw_associated_data_file :: "string option"
  diw_block_size :: nat

definition diw_new :: "string \<Rightarrow> string \<Rightarrow> string option \<Rightarrow> nat \<Rightarrow> disk_error + disk_index_writer" where
  "diw_new dataset_file index_path_prefix associated_data_file block_size =
     (if block_size < gm_get_size then Inl (BlockSizeTooSmall gm_get_size)
      else Inr \<lparr>diw_dataset_file = dataset_file, diw_index_path_prefix = index_path_prefix,
                diw_associated_data_file = associated_data_file, diw_block_size = block_size\<rparr>)"

definition get_mem_index_file :: "string \<Rightarrow> string" where
  "get_mem_index_file index_path_prefix = index_path_prefix @ ''_mem.index''"

definition get_disk_index_file :: "string \<Rightarrow> string" where
  "get_disk_index_file index_path_prefix = index_path_prefix @ ''_disk.index''"

section \<open>Opening the inputs\<close>

definition get_neighbors_number :: "writer_state \<Rightarrow> disk_error + (nat \<times> writer_state)" where
  "get_neighbors_number state =
     (case ws_index_reader state of
        Some vamana_reader \<Rightarrow> rbind (read_le read_exact 4 vamana_reader) (\<lambda>(num_nbrs, vamana_reader).
          Inr (num_nbrs, state\<lparr>ws_index_reader := Some vamana_reader\<rparr>))
      | None \<Rightarrow> Inl InvalidIndexReader)"

definition copy_neighbors :: "nat \<Rightarrow> writer_state \<Rightarrow> disk_error + (byte list \<times> writer_state)" where
  "copy_neighbors n state =
     (case ws_index_reader state of
        Some vamana_reader \<Rightarrow> rbind (read_exact n vamana_reader) (\<lambda>(nbrs_buf, vamana_reader).
          Inr (nbrs_buf, state\<lparr>ws_index_reader := Some vamana_reader\<rparr>))
      | None \<Rightarrow> Inl InvalidIndexReader)"

definition open_vamana_reader :: "disk_index_writer \<Rightarrow> storage \<Rightarrow> writer_state \<Rightarrow> disk_error + writer_state" where
  "open_vamana_reader w sp state =
     (let mem_index_file = get_mem_index_file (diw_index_path_prefix w) in
      rbind (get_length sp mem_index_file) (\<lambda>actual_file_size.
      rbind (open_reader sp mem_index_file) (\<lambda>r.
      rbind (read_le read_exact 8 r) (\<lambda>(index_file_size, r).
      rbind (read_le read_exact 4 r) (\<lambda>(max_degree, r).
      rbind (read_le read_exact 4 r) (\<lambda>(medoid, r).
      rbind (read_le read_exact 8 r) (\<lambda>(vamana_frozen_num, r).
        Inr (state\<lparr>ws_index_reader := Some r, ws_max_degree := max_degree, ws_medoid := medoid,
                   ws_vamana_frozen_num := vamana_frozen_num\<rparr>))))))))"

definition open_associated_data_reader :: "disk_index_writer \<Rightarrow> storage \<Rightarrow> writer_state \<Rightarrow> disk_error + writer_state" where
  "open_associated_data_reader w sp state =
     (case diw_associated_data_file w of
        Some associated_data_stream \<Rightarrow>
          rbind (cr_new associated_data_stream (ws_read_blk_size state) sp) (\<lambda>r.
          rbind (cr_read_u32 r) (\<lambda>(associated_data_num_pts, r).
          rbind (cr_read_u32 r) (\<lambda>(len, r).
          if ws_num_pts state \<noteq> associated_data_num_pts
          then Inl (NumPointsMismatch (ws_num_pts state) associated_data_num_pts)
          else Inr (state\<lparr>ws_associated_data_reader := Some r, ws_associated_data_length := len\<rparr>))))
      | None \<Rightarrow> Inr (state\<lparr>ws_associated_data_reader := None, ws_associated_data_length := 0\<rparr>))"

definition open_dataset_reader :: "disk_index_writer \<Rightarrow> storage \<Rightarrow> writer_state \<Rightarrow> disk_error + writer_state" where
  "open_dataset_reader w sp state =
     rbind (cr_new (diw_dataset_file w) (ws_read_blk_size state) sp) (\<lambda>r.
     rbind (cr_read_u32 r) (\<lambda>(num_pts, r).
     rbind (cr_read_u32 r) (\<lambda>(dims, r).
       Inr (state\<lparr>ws_dataset_reader := Some r, ws_num_pts := num_pts, ws_dims := dims\<rparr>))))"

section \<open>One node\<close>

text \<open>Copying into a part of a buffer that has to be inside of it.\<close>

definition put_slice :: "byte list \<Rightarrow> nat \<Rightarrow> byte list \<Rightarrow> disk_error + byte list" where
  "put_slice buf i data =
     (if i + length data \<le> length buf then Inr (take i buf @ data @ drop (i + length data) buf)
      else Inl (DiskPanic IndexFault))"

definition slice_check :: "nat \<Rightarrow> nat \<Rightarrow> byte list \<Rightarrow> disk_error + unit" where
  "slice_check i j buf = (if i \<le> j \<and> j \<le> length buf then Inr () else Inl (DiskPanic IndexFault))"

definition read_coords :: "nat \<Rightarrow> writer_state \<Rightarrow> byte list \<Rightarrow> disk_error + (writer_state \<times> byte list)" where
  "read_coords vsz state block_buf =
     (case ws_dataset_reader state of
        Some dataset_reader \<Rightarrow>
          rbind (cr_read (ws_dims state * vsz) dataset_reader) (\<lambda>(cur_node_coords, dataset_reader).
          rbind (put_slice block_buf 0 cur_node_coords) (\<lambda>block_buf.
          Inr (state\<lparr>ws_dataset_reader := Some dataset_reader\<rparr>, block_buf)))
      | None \<Rightarrow> Inr (state, block_buf))"

definition read_associated_data :: "nat \<Rightarrow> writer_state \<Rightarrow> byte list \<Rightarrow> disk_error + (writer_state \<times> byte list)" where
  "read_associated_data asz state block_buf =
     (case ws_associated_data_reader state of
        Some associated_data_reader \<Rightarrow>
          let start = ws_node_len state - ws_associated_data_length state * asz in
          rbind (slice_check start (ws_node_len state) block_buf) (\<lambda>_.
          rbind (cr_read (ws_node_len state - start) associated_data_reader) (\<lambda>(bs, associated_data_reader).
          rbind (put_slice block_buf start bs) (\<lambda>block_buf.
          Inr (state\<lparr>ws_associated_data_reader := Some associated_data_reader\<rparr>, block_buf))))
      | None \<Rightarrow> Inr (state, block_buf))"

definition read_neighbors :: "nat \<Rightarrow> nat \<Rightarrow> writer_state \<Rightarrow> byte list \<Rightarrow> disk_error + (writer_state \<times> byte list)" where
  "read_neighbors vsz asz state block_buf =
     (let block_buf = replicate (length block_buf) 0 in
      rbind (read_coords vsz state block_buf) (\<lambda>(state, block_buf).
      rbind (get_neighbors_number state) (\<lambda>(num_nbrs, state).
      if num_nbrs = 0 \<or> ws_max_degree state < num_nbrs then Inl (DiskPanic AssertFault) else
      let num_nbrs_start = ws_dims state * vsz;
          nbrs_buf_start = num_nbrs_start + 4
      in rbind (put_slice block_buf num_nbrs_start (le_bytes 4 num_nbrs)) (\<lambda>block_buf.
         let nbr_buf_end = nbrs_buf_start + num_nbrs * 4 in
         rbind (slice_check nbrs_buf_start nbr_buf_end block_buf) (\<lambda>_.
         rbind (copy_neighbors (nbr_buf_end - nbrs_buf_start) state) (\<lambda>(nbrs_buf, state).
         rbind (put_slice block_buf nbrs_buf_start nbrs_buf) (\<lambda>block_buf.
         read_associated_data asz state block_buf)))))))"

section \<open>The file\<close>

definition save_bytes :: "byte list \<Rightarrow> nat \<Rightarrow> nat \<Rightarrow> nat \<Rightarrow> out_file \<Rightarrow> disk_error + out_file" where
  "save_bytes data npts ndims offset writer =
     (let writer = seek_start offset writer in
      if 2 ^ 32 \<le> npts \<or> 2 ^ 32 \<le> ndims then Inl MetadataConversion
      else Inr (write_all data (write_all (le_bytes 4 npts @ le_bytes 4 ndims) writer)))"

definition write_header ::
  "nat \<Rightarrow> writer_state \<Rightarrow> nat \<Rightarrow> nat \<Rightarrow> nat \<Rightarrow> out_file \<Rightarrow> disk_error + out_file" where
  "write_header asz state block_size num_nodes_per_block disk_index_file_size writer =
     (let vamana_frozen_loc = (if ws_vamana_frozen_num state = 1 then ws_medoid state else 0);
          graph_metadata =
            \<lparr>gm_num_pts = ws_num_pts state, gm_dims = ws_dims state, gm_medoid = ws_medoid state,
             gm_node_len = ws_node_len state, gm_num_nodes_per_block = num_nodes_per_block,
             gm_vamana_frozen_num = ws_vamana_frozen_num state, gm_vamana_frozen_loc = vamana_frozen_loc,
             gm_disk_index_file_size = disk_index_file_size,
             gm_associated_data_length = ws_associated_data_length state * asz\<rparr>;
          header = \<lparr>gh_metadata = graph_metadata, gh_block_size = block_size, gh_layout_version = CURRENT_LAYOUT_VERSION\<rparr>;
          bytes_header = gh_to_bytes header
      in save_bytes bytes_header (length bytes_header) 1 0 writer)"

definition div_ceil :: "nat \<Rightarrow> nat \<Rightarrow> nat" where
  "div_ceil a b = (if a mod b = 0 then a div b else a div b + 1)"

text \<open>One node of a block; once all the points are written the loop has ended.\<close>

definition fill_node ::
  "nat \<Rightarrow> nat \<Rightarrow> nat \<Rightarrow> writer_state \<times> byte list \<times> byte list \<times> nat \<Rightarrow> disk_error + (writer_state \<times> byte list \<times> byte list \<times> nat)" where
  "fill_node vsz asz sector_node_id st =
     (case st of (state, node_buf, block_buf, cur_node_id) \<Rightarrow>
        if ws_num_pts state \<le> cur_node_id then Inr st
        else rbind (read_neighbors vsz asz state node_buf) (\<lambda>(state, node_buf).
          let sector_node_buf_start = sector_node_id * ws_node_len state in
          rbind (put_slice block_buf sector_node_buf_start (take (ws_node_len state) node_buf)) (\<lambda>block_buf.
          Inr (state, node_buf, block_buf, cur_node_id + 1))))"

definition write_block ::
  "nat \<Rightarrow> nat \<Rightarrow> nat \<Rightarrow> nat \<Rightarrow> nat \<Rightarrow> writer_state \<times> byte list \<times> nat \<times> cached_writer
   \<Rightarrow> disk_error + (writer_state \<times> byte list \<times> nat \<times> cached_writer)" where
  "write_block vsz asz block_size num_nodes_per_block sector st =
     (case st of (state, node_buf, cur_node_id, diskann_writer) \<Rightarrow>
        rbind (rfold (fill_node vsz asz) [0..<num_nodes_per_block] (state, node_buf, replicate block_size 0, cur_node_id))
          (\<lambda>(state, node_buf, block_buf, cur_node_id).
             Inr (state, node_buf, cur_node_id, cw_write block_buf diskann_writer)))"

definition write_long_node ::
  "nat \<Rightarrow> nat \<Rightarrow> nat \<Rightarrow> writer_state \<times> byte list \<times> cached_writer \<Rightarrow> disk_error + (writer_state \<times> byte list \<times> cached_writer)" where
  "write_long_node vsz asz node_idx st =
     (case st of (state, multi_block_buf, diskann_writer) \<Rightarrow>
        rbind (read_neighbors vsz asz state multi_block_buf) (\<lambda>(state, multi_block_buf).
          Inr (state, multi_block_buf, cw_write multi_block_buf diskann_writer)))"

definition write_nodes ::
  "nat \<Rightarrow> nat \<Rightarrow> nat \<Rightarrow> nat \<Rightarrow> nat \<Rightarrow> writer_state \<Rightarrow> cached_writer \<Rightarrow> disk_error + (writer_state \<times> cached_writer)" where
  "write_nodes vsz asz block_size num_nodes_per_block num_blocks state diskann_writer =
     (if 0 < num_nodes_per_block then
        rbind (rfold (write_block vsz asz block_size num_nodes_per_block) [0..<num_blocks]
                 (state, replicate (ws_node_len state) 0, 0, diskann_writer))
          (\<lambda>(state, _, _, diskann_writer). Inr (state, diskann_writer))
      else
        rbind (rfold (write_long_node vsz asz) [0..<ws_num_pts state]
                 (state, replicate (div_ceil (ws_node_len state) block_size * block_size) 0, diskann_writer))
          (\<lambda>(state, _, diskann_writer). Inr (state, diskann_writer)))"

definition create_disk_layout :: "nat \<Rightarrow> nat \<Rightarrow> disk_index_writer \<Rightarrow> storage \<Rightarrow> disk_error + storage" where
  "create_disk_layout vsz asz w sp =
     (let block_size = diw_block_size w in
      rbind (open_dataset_reader w sp ws_new) (\<lambda>state.
      rbind (open_associated_data_reader w sp state) (\<lambda>state.
      rbind (open_vamana_reader w sp state) (\<lambda>state.
      let vector_size = ws_dims state * vsz;
          state = state\<lparr>ws_node_len := (ws_max_degree state + 1) * 4 + vector_size + ws_associated_data_length state * asz\<rparr>;
          num_nodes_per_block = block_size div ws_node_len state;
          num_blocks = (if 0 < num_nodes_per_block then div_ceil (ws_num_pts state) num_nodes_per_block
                        else ws_num_pts state * div_ceil (ws_node_len state) block_size);
          disk_layout_file = get_disk_index_file (diw_index_path_prefix w)
      in rbind (cw_new (ws_write_blk_size state) create_for_write) (\<lambda>diskann_writer.
         let diskann_writer = cw_write (replicate block_size 0) diskann_writer in
         rbind (write_nodes vsz asz block_size num_nodes_per_block num_blocks state diskann_writer)
           (\<lambda>(state, diskann_writer).
         let sp = sp(disk_layout_file \<mapsto> f_bytes (cw_writer (cw_flush diskann_writer))) in
         rbind (open_writer sp disk_layout_file) (\<lambda>storage_writer.
         let disk_index_file_size = (num_blocks + 1) * block_size in
         rbind (write_header asz state block_size num_nodes_per_block disk_index_file_size storage_writer)
           (\<lambda>storage_writer. Inr (sp(disk_layout_file \<mapsto> f_bytes storage_writer))))))))))"

definition index_build_cleanup :: "disk_index_writer \<Rightarrow> storage \<Rightarrow> storage" where
  "index_build_cleanup w sp =
     (let inmem_index_identifier = get_mem_index_file (diw_index_path_prefix w) in
      if sp inmem_index_identifier \<noteq> None then sp(inmem_index_identifier := None) else sp)"

end
