(* ===== verification/Disk_Layout.thy ===== *)
theory Disk_Layout
  imports Disk_Writer
begin

text \<open>
  What \<open>create_disk_layout\<close> writes: for points given by their vector, their neighbors and their
  associated data, the bytes of the whole file, and where the bytes of a point are in it.
\<close>

section \<open>The intended file\<close>

text \<open>The bytes of a vector, the neighbors, the bytes of the associated data.\<close>

type_synonym point = "byte list \<times> 32 word list \<times> byte list"

definition zeros :: "nat \<Rightarrow> byte list" where
  "zeros n = replicate n 0"

definition node_image :: "nat \<Rightarrow> point \<Rightarrow> byte list" where
  "node_image d p = (case p of (v, l, a) \<Rightarrow> v @ encode_list l @ zeros (4 * (d - length l)) @ a)"

definition point_ok :: "nat \<Rightarrow> nat \<Rightarrow> nat \<Rightarrow> point \<Rightarrow> bool" where
  "point_ok vlen d alen p \<longleftrightarrow> (case p of (v, l, a) \<Rightarrow> length v = vlen \<and> l \<noteq> [] \<and> length l \<le> d \<and> length a = alen)"

fun chunks :: "nat \<Rightarrow> nat \<Rightarrow> 'a list \<Rightarrow> 'a list list" where
  "chunks 0 k xs = []"
| "chunks (Suc b) k xs = take k xs # chunks b k (drop k xs)"

definition padded :: "nat \<Rightarrow> byte list \<Rightarrow> byte list" where
  "padded n bs = bs @ zeros (n - length bs)"

definition body_blocks :: "nat \<Rightarrow> nat \<Rightarrow> nat \<Rightarrow> byte list list \<Rightarrow> byte list list" where
  "body_blocks block_size node_len num_blocks images =
     (let k = block_size div node_len in
      if 0 < k then map (\<lambda>c. padded block_size (concat c)) (chunks num_blocks k images)
      else map (padded (div_ceil node_len block_size * block_size)) images)"

section \<open>Lists\<close>

lemma length_zeros [simp]: "length (zeros n) = n"
  by (simp add: zeros_def)

lemma take_zeros [simp]: "take k (zeros n) = zeros (min k n)"
  by (simp add: zeros_def min.commute)

lemma drop_zeros [simp]: "drop k (zeros n) = zeros (n - k)"
  by (simp add: zeros_def)

lemma zeros_add: "zeros m @ zeros n = zeros (m + n)"
  by (simp add: zeros_def replicate_add)

lemma length_node_image: "point_ok vlen d alen p \<Longrightarrow> length (node_image d p) = (d + 1) * 4 + vlen + alen"
  by (auto simp: point_ok_def node_image_def split: prod.splits)

lemma put_slice_at:
  assumes "length pre = i"
  shows "put_slice (pre @ zeros n) i data = (if length data \<le> n then Inr (pre @ data @ zeros (n - length data))
    else Inl (DiskPanic IndexFault))"
  using assms by (auto simp: put_slice_def)

lemma nth_chunks: "i < b \<Longrightarrow> chunks b k xs ! i = take k (drop (i * k) xs)"
  by (induction b k xs arbitrary: i rule: chunks.induct) (auto simp: nth_Cons' add.commute diff_mult_distrib)

lemma length_chunks [simp]: "length (chunks b k xs) = b"
  by (induction b k xs rule: chunks.induct) auto

lemma length_concat_uniform: "\<forall>x\<in>set xs. length x = n \<Longrightarrow> length (concat xs) = length xs * n"
  by (induction xs) auto

lemma take_drop_concat_uniform:
  assumes "\<forall>x\<in>set xs. length x = n" "i < length xs"
  shows "take n (drop (i * n) (concat xs)) = xs ! i"
  using assms
proof (induction xs arbitrary: i)
  case (Cons x xs)
  then show ?case by (cases i) auto
qed simp

section \<open>Reading one node\<close>

text \<open>The readers have the points \<open>ps\<close> ahead of them.\<close>

definition ready :: "nat \<Rightarrow> nat \<Rightarrow> writer_state \<Rightarrow> point list \<Rightarrow> bool" where
  "ready vsz asz st ps \<longleftrightarrow>
     (\<exists>r e. ws_dataset_reader st = Some r \<and> cr_inv r \<and> cr_rest r = concat (map fst ps) @ e)
     \<and> (\<exists>r e. ws_index_reader st = Some r \<and> rf_inv r \<and> rf_rest r = concat (map (\<lambda>p. encode_list (fst (snd p))) ps) @ e)
     \<and> (case ws_associated_data_reader st of None \<Rightarrow> ws_associated_data_length st = 0
        | Some r \<Rightarrow> cr_inv r \<and> (\<exists>e. cr_rest r = concat (map (snd \<circ> snd) ps) @ e))
     \<and> (\<forall>p\<in>set ps. point_ok (ws_dims st * vsz) (ws_max_degree st) (ws_associated_data_length st * asz) p)
     \<and> ws_node_len st = (ws_max_degree st + 1) * 4 + ws_dims st * vsz + ws_associated_data_length st * asz
     \<and> ws_max_degree st < 2 ^ 32"

text \<open>The parameters of the state, which reading does not change.\<close>

definition same_params :: "writer_state \<Rightarrow> writer_state \<Rightarrow> bool" where
  "same_params st st' \<longleftrightarrow>
     st'\<lparr>ws_dataset_reader := None, ws_index_reader := None, ws_associated_data_reader := None\<rparr>
     = st\<lparr>ws_dataset_reader := None, ws_index_reader := None, ws_associated_data_reader := None\<rparr>"

lemma same_params_fields:
  assumes "same_params st st'"
  shows "ws_dims st' = ws_dims st" "ws_num_pts st' = ws_num_pts st" "ws_max_degree st' = ws_max_degree st"
    "ws_medoid st' = ws_medoid st" "ws_vamana_frozen_num st' = ws_vamana_frozen_num st"
    "ws_node_len st' = ws_node_len st" "ws_associated_data_length st' = ws_associated_data_length st"
  using assms by (cases st, cases st', simp add: same_params_def)+

lemma same_params_trans: "same_params a b \<Longrightarrow> same_params b c \<Longrightarrow> same_params a c"
  by (simp add: same_params_def)

lemma same_params_refl [simp]: "same_params a a"
  by (simp add: same_params_def)

lemma read_coords_ok:
  assumes "ready vsz asz st ((v, l, a) # ps)" "length v \<le> n"
  obtains r e where "read_coords vsz st (zeros n) = Inr (st\<lparr>ws_dataset_reader := Some r\<rparr>, v @ zeros (n - length v))"
    "cr_inv r" "cr_rest r = concat (map fst ps) @ e"
proof -
  obtain r e where r: "ws_dataset_reader st = Some r" "cr_inv r" "cr_rest r = v @ concat (map fst ps) @ e"
    using assms(1) by (auto simp: ready_def)
  have v: "length v = ws_dims st * vsz" using assms(1) by (simp add: ready_def point_ok_def)
  obtain r' where r': "cr_read (ws_dims st * vsz) r = Inr (v, r')" "cr_inv r'" "cr_rest r' = concat (map fst ps) @ e"
    using cached.read_prefix [OF r(2,3) v] .
  then show thesis using put_slice_at [of "[]" 0 n v] assms(2) by (intro that) (auto simp: read_coords_def r(1))
qed

lemma read_index_ok:
  assumes "ws_index_reader st = Some r" "rf_inv r" "rf_rest r = encode_list l @ e" "length l < 2 ^ 32"
  obtains r1 r2 where "get_neighbors_number st = Inr (length l, st\<lparr>ws_index_reader := Some r1\<rparr>)"
    "copy_neighbors (4 * length l) (st\<lparr>ws_index_reader := Some r1\<rparr>)
      = Inr (concat (map (\<lambda>x. le_bytes 4 (unat x)) l), st\<lparr>ws_index_reader := Some r2\<rparr>)"
    "rf_inv r2" "rf_rest r2 = e"
proof -
  let ?ids = "concat (map (\<lambda>x. le_bytes 4 (unat x)) l)"
  have "rf_rest r = le_bytes 4 (length l) @ ?ids @ e" using assms(3) by (simp add: encode_list_def)
  from plain.read_le_prefix [OF assms(2) this] assms(4)
  obtain r1 where r1: "read_le read_exact 4 r = Inr (length l, r1)" "rf_inv r1" "rf_rest r1 = ?ids @ e" by auto
  obtain r2 where r2: "read_exact (4 * length l) r1 = Inr (?ids, r2)" "rf_inv r2" "rf_rest r2 = e"
    using plain.read_prefix [OF r1(2,3)] by (auto simp: length_flat)
  from r1(1) r2 show thesis
    by (intro that [of r1 r2]) (simp_all add: get_neighbors_number_def copy_neighbors_def assms(1))
qed

lemma read_associated_ok:
  assumes "ready vsz asz st ((v, l, a) # ps)" "ws_associated_data_reader st' = ws_associated_data_reader st"
    "same_params st st'" "length pre + length a = ws_node_len st"
  obtains r where "read_associated_data asz st' (pre @ zeros (length a + n))
      = Inr (st'\<lparr>ws_associated_data_reader := r\<rparr>, pre @ a @ zeros n)"
    "case r of None \<Rightarrow> ws_associated_data_length st = 0 | Some r \<Rightarrow> cr_inv r \<and> (\<exists>e. cr_rest r = concat (map (snd \<circ> snd) ps) @ e)"
proof (cases "ws_associated_data_reader st")
  case None
  then have "a = []" using assms(1) by (auto simp: ready_def point_ok_def)
  moreover have "st'\<lparr>ws_associated_data_reader := None\<rparr> = st'" using None assms(2) by (cases st') simp
  ultimately show ?thesis using None assms(1,2)
    by (intro that [of None]) (auto simp: read_associated_data_def ready_def)
next
  case (Some r)
  then obtain e where r: "cr_inv r" "cr_rest r = a @ concat (map (snd \<circ> snd) ps) @ e" using assms(1) by (auto simp: ready_def)
  obtain r' where r': "cr_read (length a) r = Inr (a, r')" "cr_inv r'" "cr_rest r' = concat (map (snd \<circ> snd) ps) @ e"
    using cached.read_prefix [OF r refl] .
  have len: "ws_associated_data_length st' * asz = length a" "ws_node_len st' = length pre + length a"
    using assms(1,4) same_params_fields [OF assms(3)] by (simp_all add: ready_def point_ok_def)
  show ?thesis using r' Some assms(2) put_slice_at [of pre "length pre" "length a + n" a]
    by (intro that [of "Some r'"]) (auto simp: read_associated_data_def len slice_check_def Let_def)
qed

lemma read_neighbors_ok:
  assumes rdy: "ready vsz asz st (p # ps)" and buf: "ws_node_len st \<le> length buf"
  obtains st' where "read_neighbors vsz asz st buf = Inr (st', padded (length buf) (node_image (ws_max_degree st) p))"
    "ready vsz asz st' ps" "same_params st st'"
proof -
  obtain v l a where p: "p = (v, l, a)" by (cases p)
  let ?d = "ws_max_degree st" and ?ids = "concat (map (\<lambda>x. le_bytes 4 (unat x)) l)" and ?n = "length buf"
  have len: "length v = ws_dims st * vsz" "length l \<le> ?d" "length a = ws_associated_data_length st * asz"
    "ws_node_len st = (?d + 1) * 4 + length v + length a" "?d < 2 ^ 32" and ne: "l \<noteq> []"
    using rdy by (simp_all add: ready_def point_ok_def p)
  then have l32: "length l < 2 ^ 32" by simp
  obtain r e where rc: "read_coords vsz st (zeros ?n) = Inr (st\<lparr>ws_dataset_reader := Some r\<rparr>, v @ zeros (?n - length v))"
    "cr_inv r" "cr_rest r = concat (map fst ps) @ e"
    using read_coords_ok [OF rdy [unfolded p], of ?n] buf len(4) by auto
  obtain ri ei where ri: "ws_index_reader st = Some ri" "rf_inv ri"
    "rf_rest ri = encode_list l @ concat (map (\<lambda>p. encode_list (fst (snd p))) ps) @ ei"
    using rdy by (auto simp: ready_def p)
  let ?st1 = "st\<lparr>ws_dataset_reader := Some r\<rparr>"
  have "ws_index_reader ?st1 = Some ri" using ri(1) by simp
  from read_index_ok [OF this ri(2,3) l32] obtain r1 r2 where
    gn: "get_neighbors_number ?st1 = Inr (length l, ?st1\<lparr>ws_index_reader := Some r1\<rparr>)"
    and cn: "copy_neighbors (4 * length l) (?st1\<lparr>ws_index_reader := Some r1\<rparr>) = Inr (?ids, ?st1\<lparr>ws_index_reader := Some r2\<rparr>)"
    and r2: "rf_inv r2" "rf_rest r2 = concat (map (\<lambda>p. encode_list (fst (snd p))) ps) @ ei" .
  let ?st2 = "?st1\<lparr>ws_index_reader := Some r2\<rparr>"
  let ?pre = "v @ encode_list l @ zeros (4 * (?d - length l))"
  define k where "k = ?n - ws_node_len st"
  have pre: "length ?pre + length a = ws_node_len st" using len by simp
  have z: "zeros (?n - length v - 4 - 4 * length l) = zeros (4 * (?d - length l)) @ zeros (length a + k)"
  proof -
    have "?n - length v - 4 - 4 * length l = 4 * (?d - length l) + (length a + k)"
      using buf len(2,4) by (simp add: k_def)
    then show ?thesis by (simp only: zeros_add)
  qed
  obtain ra where ra: "read_associated_data asz ?st2 (?pre @ zeros (length a + k))
      = Inr (?st2\<lparr>ws_associated_data_reader := ra\<rparr>, ?pre @ a @ zeros k)"
    "case ra of None \<Rightarrow> ws_associated_data_length st = 0 | Some r \<Rightarrow> cr_inv r \<and> (\<exists>e. cr_rest r = concat (map (snd \<circ> snd) ps) @ e)"
    by (rule read_associated_ok [OF rdy [unfolded p] _ _ pre, of ?st2 k]) (simp_all add: same_params_def)
  let ?st' = "?st2\<lparr>ws_associated_data_reader := ra\<rparr>"
  have s1: "put_slice (v @ zeros (?n - length v)) (ws_dims st * vsz) (le_bytes 4 (length l))
      = Inr ((v @ le_bytes 4 (length l)) @ zeros (?n - length v - 4))"
    using put_slice_at [of v "length v" "?n - length v" "le_bytes 4 (length l)"] buf len by simp
  have s2: "put_slice ((v @ le_bytes 4 (length l)) @ zeros (?n - length v - 4)) (ws_dims st * vsz + 4) ?ids
      = Inr (?pre @ zeros (length a + k))"
    using put_slice_at [of "v @ le_bytes 4 (length l)" "length v + 4" "?n - length v - 4" ?ids] buf len(2,4) z
    by (simp add: length_flat encode_list_def len(1) [symmetric])
  have c: "slice_check (ws_dims st * vsz + 4) (ws_dims st * vsz + 4 + length l * 4)
      ((v @ le_bytes 4 (length l)) @ zeros (?n - length v - 4)) = Inr ()"
    using buf len by (simp add: slice_check_def)
  have "read_neighbors vsz asz st buf = Inr (?st', ?pre @ a @ zeros k)"
    using rc(1) gn cn s1 s2 c ra(1) ne len(2) by (simp add: read_neighbors_def zeros_def [symmetric] mult.commute)
  moreover have "?pre @ a @ zeros k = padded ?n (node_image ?d p)"
    using pre by (simp add: padded_def node_image_def p k_def add.assoc)
  moreover have "ready vsz asz ?st' ps" using rdy rc(2,3) r2 ra(2) by (auto simp: ready_def split: option.splits)
  ultimately show thesis by (intro that [of ?st']) (simp_all add: same_params_def)
qed

section \<open>Writing the blocks\<close>

lemma length_padded: "length bs \<le> n \<Longrightarrow> length (padded n bs) = n"
  by (simp add: padded_def)

lemma padded_same: "length bs = n \<Longrightarrow> padded n bs = bs"
  by (simp add: padded_def zeros_def)

lemma ready_image: "ready vsz asz st ps \<Longrightarrow> p \<in> set ps \<Longrightarrow> length (node_image (ws_max_degree st) p) = ws_node_len st"
  by (auto simp: ready_def length_node_image)

lemma fill_node_ok:
  assumes rdy: "ready vsz asz st (p # ps)" and buf: "length node_buf = ws_node_len st" and cur: "cur < ws_num_pts st"
    and dn: "\<forall>x\<in>set imgs. length x = ws_node_len st" "length imgs = k" and room: "(k + 1) * ws_node_len st \<le> bs"
  obtains st' node_buf' where
    "fill_node vsz asz k (st, node_buf, padded bs (concat imgs), cur)
      = Inr (st', node_buf', padded bs (concat (imgs @ [node_image (ws_max_degree st) p])), cur + 1)"
    "ready vsz asz st' ps" "same_params st st'" "length node_buf' = ws_node_len st'"
proof -
  let ?img = "node_image (ws_max_degree st) p" and ?n = "ws_node_len st"
  have img: "length ?img = ?n" using ready_image [OF rdy] by simp
  obtain st' where st': "read_neighbors vsz asz st node_buf = Inr (st', ?img)" "ready vsz asz st' ps" "same_params st st'"
    using read_neighbors_ok [OF rdy, of node_buf] buf img by (auto simp: padded_same)
  have len: "length (concat imgs) = k * ?n" using length_concat_uniform [OF dn(1)] dn(2) by simp
  have "put_slice (padded bs (concat imgs)) (k * ?n) ?img = Inr (padded bs (concat (imgs @ [?img])))"
    using room put_slice_at [of "concat imgs" "k * ?n" "bs - k * ?n" ?img]
    by (simp add: padded_def len img add.commute)
  then show thesis using st' img cur same_params_fields(6) [OF st'(3)]
    by (intro that [of st' ?img]) (simp_all add: fill_node_def)
qed

lemma fill_done: "ws_num_pts st \<le> cur \<Longrightarrow> rfold (fill_node vsz asz) ks (st, nb, bb, cur) = Inr (st, nb, bb, cur)"
  by (induction ks) (simp_all add: fill_node_def)

lemma fill_nodes_ok:
  assumes "ready vsz asz st ps" "length node_buf = ws_node_len st" "ws_num_pts st = cur + length ps"
    "\<forall>x\<in>set imgs. length x = ws_node_len st" "length imgs = k" "(k + m) * ws_node_len st \<le> bs"
  shows "\<exists>st' node_buf'. rfold (fill_node vsz asz) [k..<k + m] (st, node_buf, padded bs (concat imgs), cur)
      = Inr (st', node_buf', padded bs (concat (imgs @ map (node_image (ws_max_degree st)) (take m ps))),
             cur + length (take m ps))
    \<and> ready vsz asz st' (drop m ps) \<and> same_params st st' \<and> length node_buf' = ws_node_len st'"
  using assms
proof (induction m arbitrary: st ps node_buf cur imgs k)
  case (Suc m)
  show ?case
  proof (cases ps)
    case Nil
    then show ?thesis using Suc.prems fill_done [of st cur] by simp
  next
    case (Cons p qs)
    let ?img = "node_image (ws_max_degree st) p"
    have cur: "cur < ws_num_pts st" using Suc.prems(3) Cons by simp
    have room: "(k + 1) * ws_node_len st \<le> bs"
      by (rule le_trans [OF mult_le_mono1 Suc.prems(6)]) simp
    obtain st1 nb1 where f: "fill_node vsz asz k (st, node_buf, padded bs (concat imgs), cur)
        = Inr (st1, nb1, padded bs (concat (imgs @ [?img])), cur + 1)"
      "ready vsz asz st1 qs" "same_params st st1" "length nb1 = ws_node_len st1"
      using fill_node_ok [OF Suc.prems(1) [unfolded Cons] Suc.prems(2) cur Suc.prems(4,5) room] .
    note par = same_params_fields [OF f(3)]
    have img: "length ?img = ws_node_len st" using ready_image [OF Suc.prems(1)] Cons by simp
    obtain st' nb' where "rfold (fill_node vsz asz) [Suc k..<Suc k + m] (st1, nb1, padded bs (concat (imgs @ [?img])), cur + 1)
        = Inr (st', nb', padded bs (concat ((imgs @ [?img]) @ map (node_image (ws_max_degree st1)) (take m qs))),
               cur + 1 + length (take m qs))"
      "ready vsz asz st' (drop m qs)" "same_params st1 st'" "length nb' = ws_node_len st'"
      using Suc.IH [OF f(2,4), of "cur + 1" "imgs @ [?img]" "Suc k"] Suc.prems(3-6) Cons img by (auto simp: par)
    then show ?thesis using f(1) same_params_trans [OF f(3)] Cons
      by (simp add: upt_conv_Cons par(3) del: upt_Suc)
  qed
qed simp

lemma write_blocks_ok:
  assumes "ready vsz asz st ps" "length node_buf = ws_node_len st" "ws_num_pts st = cur + length ps" "cw_inv w"
    "m * ws_node_len st \<le> bs"
  shows "\<exists>st' node_buf' cur' w'. rfold (write_block vsz asz bs m) [j..<j + b] (st, node_buf, cur, w)
      = Inr (st', node_buf', cur', w')
    \<and> ready vsz asz st' (drop (b * m) ps) \<and> same_params st st' \<and> cw_inv w'
    \<and> cw_content w' = cw_content w
        @ concat (map (\<lambda>c. padded bs (concat c)) (chunks b m (map (node_image (ws_max_degree st)) ps)))"
  using assms
proof (induction b arbitrary: st ps node_buf cur w j)
  case (Suc b)
  obtain st1 nb1 where f: "rfold (fill_node vsz asz) [0..<m] (st, node_buf, padded bs (concat []), cur)
      = Inr (st1, nb1, padded bs (concat (map (node_image (ws_max_degree st)) (take m ps))), cur + length (take m ps))"
    "ready vsz asz st1 (drop m ps)" "same_params st st1" "length nb1 = ws_node_len st1"
    using fill_nodes_ok [OF Suc.prems(1-3), of "[]" 0 m bs] Suc.prems(5) by auto
  note par = same_params_fields [OF f(3)]
  let ?blk = "padded bs (concat (map (node_image (ws_max_degree st)) (take m ps)))"
  have wb: "write_block vsz asz bs m j (st, node_buf, cur, w) = Inr (st1, nb1, cur + length (take m ps), cw_write ?blk w)"
    using f(1) by (simp add: write_block_def padded_def zeros_def)
  have n: "ws_num_pts st1 = (cur + length (take m ps)) + length (drop m ps)" using Suc.prems(3) by (simp add: par)
  have ci: "cw_inv (cw_write ?blk w)" using Suc.prems(4) by (rule cw_write_ok)
  obtain st' nb' cur' w' where "rfold (write_block vsz asz bs m) [Suc j..<Suc j + b]
      (st1, nb1, cur + length (take m ps), cw_write ?blk w) = Inr (st', nb', cur', w')"
    "ready vsz asz st' (drop (b * m) (drop m ps))" "same_params st1 st'" "cw_inv w'"
    "cw_content w' = cw_content (cw_write ?blk w)
        @ concat (map (\<lambda>c. padded bs (concat c)) (chunks b m (map (node_image (ws_max_degree st1)) (drop m ps))))"
    using Suc.IH [OF f(2,4) n ci, of "Suc j"] Suc.prems(5) by (auto simp: par)
  then show ?case using wb same_params_trans [OF f(3)] Suc.prems(4)
    by (simp add: upt_conv_Cons cw_write_ok par(3) take_map drop_map add.commute del: upt_Suc)
qed simp

lemma write_long_nodes_ok:
  assumes "ready vsz asz st ps" "ws_node_len st \<le> length buf" "cw_inv w"
  shows "\<exists>st' buf' w'. rfold (write_long_node vsz asz) [j..<j + length ps] (st, buf, w) = Inr (st', buf', w')
    \<and> same_params st st' \<and> cw_inv w'
    \<and> cw_content w' = cw_content w @ concat (map (padded (length buf)) (map (node_image (ws_max_degree st)) ps))"
  using assms
proof (induction ps arbitrary: st buf w j)
  case (Cons p ps)
  let ?img = "padded (length buf) (node_image (ws_max_degree st) p)"
  obtain st1 where st1: "read_neighbors vsz asz st buf = Inr (st1, ?img)" "ready vsz asz st1 ps" "same_params st st1"
    using read_neighbors_ok [OF Cons.prems(1,2)] .
  note par = same_params_fields [OF st1(3)]
  have len: "length ?img = length buf" using ready_image [OF Cons.prems(1)] Cons.prems(2) by (intro length_padded) simp
  have ci: "cw_inv (cw_write ?img w)" using Cons.prems(3) by (rule cw_write_ok)
  have li: "ws_node_len st1 \<le> length ?img" using Cons.prems(2) by (simp add: par len)
  obtain st' buf' w' where "rfold (write_long_node vsz asz) [Suc j..<Suc j + length ps] (st1, ?img, cw_write ?img w)
      = Inr (st', buf', w')" "same_params st1 st'" "cw_inv w'"
    "cw_content w' = cw_content (cw_write ?img w) @ concat (map (padded (length ?img)) (map (node_image (ws_max_degree st1)) ps))"
    using Cons.IH [OF st1(2) li ci, of "Suc j"] by blast
  moreover have "write_long_node vsz asz j (st, buf, w) = Inr (st1, ?img, cw_write ?img w)"
    using st1(1) by (simp add: write_long_node_def)
  ultimately show ?case using same_params_trans [OF st1(3)] Cons.prems(3)
    by (simp add: upt_conv_Cons cw_write_ok par(3) len del: upt_Suc)
qed simp

section \<open>The whole file\<close>

text \<open>The inputs: the file of vectors, the graph file and the file of associated data of the points
  \<open>ps\<close>; a writer without a file of associated data has points without any.\<close>

definition inputs_ok ::
  "nat \<Rightarrow> nat \<Rightarrow> disk_index_writer \<Rightarrow> storage \<Rightarrow> nat \<Rightarrow> nat \<Rightarrow> nat \<Rightarrow> nat \<Rightarrow> nat \<Rightarrow> point list \<Rightarrow> bool" where
  "inputs_ok vsz asz w sp dims d medoid frozen alen ps \<longleftrightarrow>
     sp (diw_dataset_file w) = Some (le_bytes 4 (length ps) @ le_bytes 4 dims @ concat (map fst ps))
     \<and> sp (get_mem_index_file (diw_index_path_prefix w)) = Some (graph_bytes d medoid frozen (map (fst \<circ> snd) ps))
     \<and> (case diw_associated_data_file w of None \<Rightarrow> alen = 0
        | Some f \<Rightarrow> sp f = Some (le_bytes 4 (length ps) @ le_bytes 4 alen @ concat (map (snd \<circ> snd) ps)))
     \<and> (\<forall>p\<in>set ps. point_ok (dims * vsz) d (alen * asz) p)
     \<and> length ps < 2 ^ 32 \<and> dims < 2 ^ 32 \<and> alen < 2 ^ 32 \<and> d < 2 ^ 32 \<and> medoid < 2 ^ 32 \<and> frozen < 2 ^ 64
     \<and> 24 + body_size (map (fst \<circ> snd) ps) < 2 ^ 64"

definition node_length :: "nat \<Rightarrow> nat \<Rightarrow> nat \<Rightarrow> nat" where
  "node_length vlen d alen = (d + 1) * 4 + vlen + alen"

definition block_count :: "nat \<Rightarrow> nat \<Rightarrow> nat \<Rightarrow> nat" where
  "block_count block_size node_len n =
     (if 0 < block_size div node_len then div_ceil n (block_size div node_len) else n * div_ceil node_len block_size)"

definition layout_header :: "nat \<Rightarrow> nat \<Rightarrow> nat \<Rightarrow> nat \<Rightarrow> nat \<Rightarrow> nat \<Rightarrow> nat \<Rightarrow> nat \<Rightarrow> graph_header" where
  "layout_header block_size vlen dims d medoid frozen alen n =
     (let l = node_length vlen d alen in
      \<lparr>gh_metadata =
         \<lparr>gm_num_pts = n, gm_dims = dims, gm_medoid = medoid, gm_node_len = l,
          gm_num_nodes_per_block = block_size div l, gm_vamana_frozen_num = frozen,
          gm_vamana_frozen_loc = (if frozen = 1 then medoid else 0),
          gm_disk_index_file_size = (block_count block_size l n + 1) * block_size, gm_associated_data_length = alen\<rparr>,
       gh_block_size = block_size, gh_layout_version = CURRENT_LAYOUT_VERSION\<rparr>)"

definition disk_file :: "nat \<Rightarrow> graph_header \<Rightarrow> nat \<Rightarrow> point list \<Rightarrow> byte list" where
  "disk_file block_size h d ps =
     padded block_size (le_bytes 4 96 @ le_bytes 4 1 @ gh_to_bytes h)
     @ concat (body_blocks block_size (gm_node_len (gh_metadata h))
         (block_count block_size (gm_node_len (gh_metadata h)) (length ps)) (map (node_image d) ps))"

lemma div_ceil_ge: "0 < b \<Longrightarrow> a \<le> div_ceil a b * b"
  by (metis add_mult_distrib div_ceil_def div_mult_mod_eq le_add1 less_imp_le mod_less_divisor mult_1
      nat_add_left_cancel_le add_0_right order_refl)

lemma open_dataset_ok:
  assumes "inputs_ok vsz asz w sp dims d medoid frozen alen ps"
  obtains r where "open_dataset_reader w sp st = Inr (st\<lparr>ws_dataset_reader := Some r, ws_num_pts := length ps, ws_dims := dims\<rparr>)"
    "cr_inv r" "cr_rest r = concat (map fst ps)"
proof -
  have b: "length ps < 256 ^ 4" "dims < 256 ^ 4" using assms by (simp_all add: inputs_ok_def)
  have "sp (diw_dataset_file w) = Some (le_bytes 4 (length ps) @ le_bytes 4 dims @ concat (map fst ps))"
    using assms by (simp add: inputs_ok_def)
  from cr_new_ok [of sp "diw_dataset_file w", OF this] obtain r0 where r0: "cr_new (diw_dataset_file w) (ws_read_blk_size st) sp = Inr r0" "cr_inv r0"
    "cr_rest r0 = le_bytes 4 (length ps) @ le_bytes 4 dims @ concat (map fst ps)" by blast
  obtain r1 where r1: "cr_read_u32 r0 = Inr (length ps, r1)" "cr_inv r1" "cr_rest r1 = le_bytes 4 dims @ concat (map fst ps)"
    using cached.read_le_prefix [OF r0(2,3) b(1)] by (auto simp: cr_read_u32_def)
  obtain r2 where r2: "cr_read_u32 r1 = Inr (dims, r2)" "cr_inv r2" "cr_rest r2 = concat (map fst ps)"
    using cached.read_le_prefix [OF r1(2,3) b(2)] by (auto simp: cr_read_u32_def)
  show thesis by (rule that [OF _ r2(2,3)]) (simp add: open_dataset_reader_def r0(1) r1(1) r2(1))
qed

lemma open_associated_ok:
  assumes "inputs_ok vsz asz w sp dims d medoid frozen alen ps" "ws_num_pts st = length ps"
  obtains r where "open_associated_data_reader w sp st
      = Inr (st\<lparr>ws_associated_data_reader := r, ws_associated_data_length := alen\<rparr>)"
    "case r of None \<Rightarrow> alen = 0 | Some r \<Rightarrow> cr_inv r \<and> cr_rest r = concat (map (snd \<circ> snd) ps)"
proof (cases "diw_associated_data_file w")
  case None
  then show ?thesis using assms(1) by (intro that [of None]) (simp_all add: open_associated_data_reader_def inputs_ok_def)
next
  case (Some f)
  have b: "length ps < 256 ^ 4" "alen < 256 ^ 4" using assms(1) by (simp_all add: inputs_ok_def)
  let ?a = "concat (map (snd \<circ> snd) ps)"
  have "sp f = Some (le_bytes 4 (length ps) @ le_bytes 4 alen @ ?a)" using assms(1) Some by (simp add: inputs_ok_def)
  from cr_new_ok [of sp f, OF this] obtain r0 where r0: "cr_new f (ws_read_blk_size st) sp = Inr r0" "cr_inv r0"
    "cr_rest r0 = le_bytes 4 (length ps) @ le_bytes 4 alen @ ?a" by blast
  obtain r1 where r1: "cr_read_u32 r0 = Inr (length ps, r1)" "cr_inv r1" "cr_rest r1 = le_bytes 4 alen @ ?a"
    using cached.read_le_prefix [OF r0(2,3) b(1)] by (auto simp: cr_read_u32_def)
  obtain r2 where r2: "cr_read_u32 r1 = Inr (alen, r2)" "cr_inv r2" "cr_rest r2 = ?a"
    using cached.read_le_prefix [OF r1(2,3) b(2)] by (auto simp: cr_read_u32_def)
  show ?thesis by (rule that [of "Some r2"]) (simp_all add: open_associated_data_reader_def Some r0(1) r1(1) r2 assms(2))
qed

lemma open_vamana_ok:
  assumes "inputs_ok vsz asz w sp dims d medoid frozen alen ps"
  obtains r where "open_vamana_reader w sp st
      = Inr (st\<lparr>ws_index_reader := Some r, ws_max_degree := d, ws_medoid := medoid, ws_vamana_frozen_num := frozen\<rparr>)"
    "rf_inv r" "rf_rest r = concat (map (\<lambda>p. encode_list (fst (snd p))) ps)"
proof -
  let ?f = "get_mem_index_file (diw_index_path_prefix w)" and ?ls = "map (fst \<circ> snd) ps"
  let ?b = "concat (map encode_list ?ls)"
  have f: "sp ?f = Some (le_bytes 8 (24 + body_size ?ls) @ le_bytes 4 d @ le_bytes 4 medoid @ le_bytes 8 frozen @ ?b)"
    using assms by (simp add: inputs_ok_def graph_bytes_def)
  have b: "24 + body_size ?ls < 256 ^ 8" "d < 256 ^ 4" "medoid < 256 ^ 4" "frozen < 256 ^ 8"
    using assms by (simp_all add: inputs_ok_def)
  obtain r0 where r0: "open_reader sp ?f = Inr r0" "rf_inv r0"
    "rf_rest r0 = le_bytes 8 (24 + body_size ?ls) @ le_bytes 4 d @ le_bytes 4 medoid @ le_bytes 8 frozen @ ?b"
    using open_reader_ok [of sp ?f, OF f] by blast
  obtain r1 where r1: "read_le read_exact 8 r0 = Inr (24 + body_size ?ls, r1)" "rf_inv r1"
    "rf_rest r1 = le_bytes 4 d @ le_bytes 4 medoid @ le_bytes 8 frozen @ ?b" using plain.read_le_prefix [OF r0(2,3) b(1)] .
  obtain r2 where r2: "read_le read_exact 4 r1 = Inr (d, r2)" "rf_inv r2" "rf_rest r2 = le_bytes 4 medoid @ le_bytes 8 frozen @ ?b"
    using plain.read_le_prefix [OF r1(2,3) b(2)] .
  obtain r3 where r3: "read_le read_exact 4 r2 = Inr (medoid, r3)" "rf_inv r3" "rf_rest r3 = le_bytes 8 frozen @ ?b"
    using plain.read_le_prefix [OF r2(2,3) b(3)] .
  obtain r4 where r4: "read_le read_exact 8 r3 = Inr (frozen, r4)" "rf_inv r4" "rf_rest r4 = ?b"
    using plain.read_le_prefix [OF r3(2,3) b(4)] .
  have "get_length sp ?f = Inr (length (the (sp ?f)))" by (simp add: get_length_def f)
  with r0(1) r1(1) r2(1) r3(1) r4(1) show thesis
    by (intro that [OF _ r4(2)]) (simp_all add: open_vamana_reader_def r4(3) comp_def)
qed

lemma write_nodes_ok:
  assumes rdy: "ready vsz asz st ps" and n: "ws_num_pts st = length ps" and w: "cw_inv w" and bs: "0 < bs"
    and k: "k = bs div ws_node_len st" and b: "b = block_count bs (ws_node_len st) (length ps)"
  shows "\<exists>st' w'. write_nodes vsz asz bs k b st w = Inr (st', w') \<and> same_params st st' \<and> cw_inv w'
    \<and> cw_content w' = cw_content w
        @ concat (body_blocks bs (ws_node_len st) b (map (node_image (ws_max_degree st)) ps))"
proof (cases "0 < k")
  case True
  have room: "k * ws_node_len st \<le> bs" by (simp add: k)
  obtain st' nb cur w' where "rfold (write_block vsz asz bs k) [0..<0 + b] (st, replicate (ws_node_len st) 0, 0, w)
      = Inr (st', nb, cur, w')" "same_params st st'" "cw_inv w'"
    "cw_content w' = cw_content w
        @ concat (map (\<lambda>c. padded bs (concat c)) (chunks b k (map (node_image (ws_max_degree st)) ps)))"
    using write_blocks_ok [OF rdy _ _ w room, of "replicate (ws_node_len st) 0" 0 0 b] n by auto
  then show ?thesis using True by (simp add: write_nodes_def body_blocks_def k [symmetric])
next
  case False
  let ?m = "div_ceil (ws_node_len st) bs * bs"
  have "ws_node_len st \<le> length (replicate ?m 0 :: byte list)" using div_ceil_ge [OF bs] by simp
  from write_long_nodes_ok [OF rdy this w, of 0] obtain st' nb w' where
    "rfold (write_long_node vsz asz) [0..<0 + length ps] (st, replicate ?m 0, w) = Inr (st', nb, w')"
    "same_params st st'" "cw_inv w'"
    "cw_content w' = cw_content w @ concat (map (padded ?m) (map (node_image (ws_max_degree st)) ps))" by auto
  then show ?thesis using False n by (simp add: write_nodes_def body_blocks_def k [symmetric])
qed

lemma write_header_over:
  assumes "104 \<le> bs"
  shows "\<exists>f'. write_header asz st bs k fsize \<lparr>f_bytes = zeros bs @ body, f_pos = 0\<rparr> = Inr f'
    \<and> f_bytes f' = padded bs (le_bytes 4 96 @ le_bytes 4 1 @ gh_to_bytes
        \<lparr>gh_metadata = \<lparr>gm_num_pts = ws_num_pts st, gm_dims = ws_dims st, gm_medoid = ws_medoid st,
           gm_node_len = ws_node_len st, gm_num_nodes_per_block = k, gm_vamana_frozen_num = ws_vamana_frozen_num st,
           gm_vamana_frozen_loc = (if ws_vamana_frozen_num st = 1 then ws_medoid st else 0),
           gm_disk_index_file_size = fsize, gm_associated_data_length = ws_associated_data_length st * asz\<rparr>,
         gh_block_size = bs, gh_layout_version = CURRENT_LAYOUT_VERSION\<rparr>) @ body"
  using assms by (simp add: write_header_def save_bytes_def seek_start_def write_all_def padded_def Let_def)

theorem create_disk_layout_file:
  assumes inp: "inputs_ok vsz asz w sp dims d medoid frozen alen ps" and bs: "104 \<le> diw_block_size w"
  shows "create_disk_layout vsz asz w sp = Inr (sp(get_disk_index_file (diw_index_path_prefix w) \<mapsto>
    disk_file (diw_block_size w)
      (layout_header (diw_block_size w) (dims * vsz) dims d medoid frozen (alen * asz) (length ps)) d ps))"
proof -
  let ?bs = "diw_block_size w" and ?L = "node_length (dims * vsz) d (alen * asz)"
  obtain rd where rd: "open_dataset_reader w sp ws_new
      = Inr (ws_new\<lparr>ws_dataset_reader := Some rd, ws_num_pts := length ps, ws_dims := dims\<rparr>)" (is "_ = Inr ?s1")
    "cr_inv rd" "cr_rest rd = concat (map fst ps)" using open_dataset_ok [OF inp] .
  obtain ra where ra: "open_associated_data_reader w sp ?s1
      = Inr (?s1\<lparr>ws_associated_data_reader := ra, ws_associated_data_length := alen\<rparr>)" (is "_ = Inr ?s2")
    "case ra of None \<Rightarrow> alen = 0 | Some r \<Rightarrow> cr_inv r \<and> cr_rest r = concat (map (snd \<circ> snd) ps)"
    by (rule open_associated_ok [OF inp, of ?s1]) simp_all
  obtain ri where ri: "open_vamana_reader w sp ?s2
      = Inr (?s2\<lparr>ws_index_reader := Some ri, ws_max_degree := d, ws_medoid := medoid, ws_vamana_frozen_num := frozen\<rparr>)"
    (is "_ = Inr ?s3")
    "rf_inv ri" "rf_rest ri = concat (map (\<lambda>p. encode_list (fst (snd p))) ps)" using open_vamana_ok [OF inp] .
  define st where "st = ?s3\<lparr>ws_node_len := ?L\<rparr>"
  have fl: "ws_dims st = dims" "ws_num_pts st = length ps" "ws_max_degree st = d" "ws_medoid st = medoid"
    "ws_vamana_frozen_num st = frozen" "ws_node_len st = ?L" "ws_associated_data_length st = alen"
    "ws_write_blk_size st = READ_WRITE_BLOCK_SIZE" by (simp_all add: st_def ws_new_def)
  have "ready vsz asz st ps" using rd(2,3) ra(2) ri(2,3) inp
    by (auto simp: ready_def fl inputs_ok_def node_length_def st_def split: option.splits)
  moreover obtain cw where cw: "cw_new (ws_write_blk_size st) create_for_write = Inr cw" "cw_inv cw" "cw_content cw = []"
    using cw_new_ok [of "ws_write_blk_size st"] by (auto simp: fl READ_WRITE_BLOCK_SIZE_def)
  let ?k = "?bs div ?L" and ?b = "block_count ?bs ?L (length ps)" and ?cw = "cw_write (replicate ?bs 0) cw"
  let ?body = "concat (body_blocks ?bs ?L ?b (map (node_image d) ps))"
  have "cw_inv ?cw" "cw_content ?cw = zeros ?bs" using cw_write_ok [OF cw(2)] cw(3) by (simp_all add: zeros_def)
  ultimately obtain st' cw' where wn: "write_nodes vsz asz ?bs ?k ?b st ?cw = Inr (st', cw')" "same_params st st'"
    "cw_inv cw'" "cw_content cw' = zeros ?bs @ ?body"
    using write_nodes_ok [of vsz asz st ps ?cw ?bs ?k ?b] bs by (auto simp: fl)
  note par = same_params_fields [OF wn(2), unfolded fl]
  obtain f' where f': "write_header asz st' ?bs ?k ((?b + 1) * ?bs) \<lparr>f_bytes = zeros ?bs @ ?body, f_pos = 0\<rparr> = Inr f'"
    "f_bytes f' = disk_file ?bs (layout_header ?bs (dims * vsz) dims d medoid frozen (alen * asz) (length ps)) d ps"
    using write_header_over [OF bs, of asz st' ?k "(?b + 1) * ?bs" ?body]
    by (auto simp: par disk_file_def layout_header_def Let_def)
  have s3: "ws_dims ?s3 = dims" "ws_num_pts ?s3 = length ps" "ws_max_degree ?s3 = d" "ws_associated_data_length ?s3 = alen" by simp_all
  have st: "?s3\<lparr>ws_node_len := (ws_max_degree ?s3 + 1) * 4 + ws_dims ?s3 * vsz + ws_associated_data_length ?s3 * asz\<rparr> = st"
    by (simp only: st_def s3 node_length_def)
  have bc: "(if 0 < ?k then div_ceil (length ps) ?k else length ps * div_ceil ?L ?bs) = ?b" by (simp only: block_count_def)
  have ow: "open_writer (sp(f \<mapsto> bytes)) f = Inr \<lparr>f_bytes = bytes, f_pos = 0\<rparr>" for f bytes by (simp add: open_writer_def)
  show ?thesis
    by (simp only: create_disk_layout_def Let_def rbind_simps rd(1) ra(1) ri(1) st fl bc cw(1) [unfolded fl] wn(1)
        prod.case ow cw_flush_ok(1) [OF wn(3)] wn(4) f' fun_upd_upd)
qed

section \<open>Where a node is\<close>

definition sectors_per_node :: "nat \<Rightarrow> nat \<Rightarrow> nat" where
  "sectors_per_node block_size node_len = (if 0 < block_size div node_len then 1 else div_ceil node_len block_size)"

definition sector_of :: "nat \<Rightarrow> nat \<Rightarrow> nat \<Rightarrow> nat" where
  "sector_of block_size node_len i =
     1 + (if 0 < block_size div node_len then i div (block_size div node_len) else i * sectors_per_node block_size node_len)"

definition offset_of :: "nat \<Rightarrow> nat \<Rightarrow> nat \<Rightarrow> nat" where
  "offset_of block_size node_len i =
     (if block_size div node_len = 0 then 0 else i mod (block_size div node_len) * node_len)"

text \<open>Blocks of several nodes and nodes of several blocks have in common: the body is a sequence of
  units of equal length, and a node is inside of the unit with its number.\<close>

definition unit_of :: "nat \<Rightarrow> nat \<Rightarrow> nat \<Rightarrow> nat" where
  "unit_of block_size node_len i = (if 0 < block_size div node_len then i div (block_size div node_len) else i)"

lemma div_ceil_less: "0 < k \<Longrightarrow> i < n \<Longrightarrow> i div k < div_ceil n k"
  using div_ceil_ge [of k n] by (simp add: less_mult_imp_div_less)

lemma unit_sector:
  "sector_of bs L i * bs = bs + unit_of bs L i * (sectors_per_node bs L * bs)"
  by (simp add: sector_of_def unit_of_def sectors_per_node_def algebra_simps)

lemma body_blocks_units:
  assumes img: "\<forall>x\<in>set imgs. length x = L" and L: "0 < L" and bs: "0 < bs"
  shows "\<forall>u\<in>set (body_blocks bs L (block_count bs L (length imgs)) imgs). length u = sectors_per_node bs L * bs"
    "length (body_blocks bs L (block_count bs L (length imgs)) imgs) * sectors_per_node bs L = block_count bs L (length imgs)"
    "i < length imgs \<Longrightarrow> unit_of bs L i < length (body_blocks bs L (block_count bs L (length imgs)) imgs)"
proof -
  have chunk: "length (concat c) \<le> bs" if mem: "c \<in> set (chunks b (bs div L) imgs)" for c b
  proof -
    obtain j where "c = take (bs div L) (drop (j * (bs div L)) imgs)" using mem by (auto simp: in_set_conv_nth nth_chunks)
    then have "\<forall>x\<in>set c. length x = L" and c: "length c \<le> bs div L" using img by (auto dest!: in_set_takeD in_set_dropD)
    then have "length (concat c) = length c * L" by (intro length_concat_uniform)
    also have "\<dots> \<le> bs div L * L" using c by (rule mult_le_mono1)
    finally show ?thesis using div_times_less_eq_dividend [of bs L] by (rule le_trans)
  qed
  show "\<forall>u\<in>set (body_blocks bs L (block_count bs L (length imgs)) imgs). length u = sectors_per_node bs L * bs"
    using chunk img div_ceil_ge [OF bs, of L] by (auto simp: body_blocks_def Let_def sectors_per_node_def length_padded)
  show "length (body_blocks bs L (block_count bs L (length imgs)) imgs) * sectors_per_node bs L = block_count bs L (length imgs)"
    by (simp add: body_blocks_def Let_def sectors_per_node_def block_count_def)
  show "i < length imgs \<Longrightarrow> unit_of bs L i < length (body_blocks bs L (block_count bs L (length imgs)) imgs)"
    by (simp add: body_blocks_def Let_def unit_of_def block_count_def div_ceil_less)
qed

lemma node_in_unit:
  assumes img: "\<forall>x\<in>set imgs. length x = L" and L: "0 < L" and bs: "0 < bs" and i: "i < length imgs"
  shows "take L (drop (offset_of bs L i) (body_blocks bs L (block_count bs L (length imgs)) imgs ! unit_of bs L i)) = imgs ! i"
proof (cases "0 < bs div L")
  case True
  let ?k = "bs div L" and ?c = "take (bs div L) (drop (i div (bs div L) * (bs div L)) imgs)"
  have c: "\<forall>x\<in>set ?c. length x = L" using img by (auto dest!: in_set_takeD in_set_dropD)
  have "i div ?k * ?k + i mod ?k = i" by (rule div_mult_mod_eq)
  then have j: "i mod ?k < length ?c" using True i mod_less_divisor [OF True, of i] by simp
  have "take L (drop (i mod ?k * L) (concat ?c)) = ?c ! (i mod ?k)" by (rule take_drop_concat_uniform [OF c j])
  also have "\<dots> = imgs ! i" using j True by (simp add: div_mult_mod_eq)
  finally have "take L (drop (i mod ?k * L) (concat ?c)) = imgs ! i" .
  moreover have "i mod ?k * L + L \<le> length (concat ?c)"
  proof -
    have "(i mod ?k + 1) * L \<le> length ?c * L" using j by (intro mult_le_mono1) simp
    then show ?thesis using length_concat_uniform [OF c] by simp
  qed
  ultimately show ?thesis using True i
    by (simp add: offset_of_def body_blocks_def Let_def unit_of_def block_count_def nth_chunks div_ceil_less padded_def)
next
  case False
  then show ?thesis using img i by (simp add: offset_of_def body_blocks_def Let_def unit_of_def padded_def)
qed

lemma length_disk_file:
  assumes ok: "\<forall>p\<in>set ps. point_ok vlen d alen p" and L: "gm_node_len (gh_metadata h) = node_length vlen d alen"
    and bs: "104 \<le> bs"
  shows "length (disk_file bs h d ps) = (block_count bs (node_length vlen d alen) (length ps) + 1) * bs"
proof -
  let ?n = "node_length vlen d alen" and ?imgs = "map (node_image d) ps"
  have img: "\<forall>x\<in>set ?imgs. length x = ?n" using ok by (auto simp: length_node_image node_length_def)
  have "0 < ?n" "0 < bs" using bs by (simp_all add: node_length_def)
  note u = body_blocks_units [OF img this, unfolded length_map]
  have "length (concat (body_blocks bs ?n (block_count bs ?n (length ps)) ?imgs)) = block_count bs ?n (length ps) * bs"
    using length_concat_uniform [OF u(1)] u(2) by (metis mult.assoc)
  moreover have "length (padded bs (le_bytes 4 96 @ le_bytes 4 1 @ gh_to_bytes h)) = bs" using bs by (intro length_padded) simp
  ultimately show ?thesis by (simp only: disk_file_def L length_append) simp
qed

lemma disk_file_sector:
  assumes ok: "\<forall>p\<in>set ps. point_ok vlen d alen p" and L: "gm_node_len (gh_metadata h) = node_length vlen d alen"
    and bs: "104 \<le> bs" and i: "i < length ps"
  defines "n \<equiv> node_length vlen d alen"
  shows "sector_of bs n i * bs + sectors_per_node bs n * bs \<le> length (disk_file bs h d ps)"
    "take n (drop (offset_of bs n i) (take (sectors_per_node bs n * bs) (drop (sector_of bs n i * bs) (disk_file bs h d ps))))
      = node_image d (ps ! i)"
    "offset_of bs n i + n \<le> sectors_per_node bs n * bs"
proof -
  let ?imgs = "map (node_image d) ps" and ?U = "sectors_per_node bs n * bs"
  let ?B = "body_blocks bs n (block_count bs n (length ps)) ?imgs"
  have img: "\<forall>x\<in>set ?imgs. length x = n" using ok by (auto simp: length_node_image n_def node_length_def)
  have n0: "0 < n" and b0: "0 < bs" using bs by (simp_all add: n_def node_length_def)
  note u = body_blocks_units [OF img n0 b0, unfolded length_map]
  define hd where "hd = padded bs (le_bytes 4 96 @ le_bytes 4 1 @ gh_to_bytes h)"
  have f: "disk_file bs h d ps = hd @ concat ?B" by (simp add: disk_file_def L n_def hd_def)
  have first: "length hd = bs" using bs unfolding hd_def by (intro length_padded) simp
  have idx: "unit_of bs n i < length ?B" using u(3) i by simp
  have "(unit_of bs n i + 1) * ?U \<le> length ?B * ?U" using idx by (intro mult_le_mono1) simp
  then show "sector_of bs n i * bs + ?U \<le> length (disk_file bs h d ps)"
    using length_concat_uniform [OF u(1)] by (simp add: unit_sector f first)
  have s: "take ?U (drop (sector_of bs n i * bs) (disk_file bs h d ps)) = ?B ! unit_of bs n i"
    using take_drop_concat_uniform [OF u(1) idx] by (simp add: unit_sector f first)
  then show "take n (drop (offset_of bs n i) (take ?U (drop (sector_of bs n i * bs) (disk_file bs h d ps)))) = node_image d (ps ! i)"
    using node_in_unit [OF img n0 b0, of i] i by simp
  show "offset_of bs n i + n \<le> ?U"
  proof (cases "0 < bs div n")
    case True
    have "(i mod (bs div n) + 1) * n \<le> bs div n * n" using True by (intro mult_le_mono1) (simp add: Suc_leI)
    then have "(i mod (bs div n) + 1) * n \<le> bs" using div_times_less_eq_dividend [of bs n] by (rule le_trans)
    then show ?thesis using True by (simp add: offset_of_def sectors_per_node_def)
  qed (use div_ceil_ge [OF b0, of n] in \<open>simp add: offset_of_def sectors_per_node_def\<close>)
qed

end
