(* ===== verification/Disk_Graph.thy ===== *)
theory Disk_Graph
  imports Disk_Layout "HOL-Library.AList"
begin

text \<open>
  Reading the disk index: \<open>AlignedRead\<close> and \<open>StorageProviderAlignedFileReader\<close> of
  \<open>diskann-disk/src/utils/aligned_file_reader\<close>, \<open>AlignedBoxWithSlice\<close> of \<open>diskann-providers\<close>, and of
  \<open>diskann-disk/src/search/provider\<close> the sector graph, the vertex provider and the header read by its
  factory.

  A buffer of vector elements is the list of its bytes; the default of the element types is made of
  zero bytes.  A hash map is an association list with distinct keys.  The deserialization of the
  associated data by the library \<open>bincode\<close> is a parameter.  The error value of a failed operation is
  all that is described of it.
\<close>

section \<open>Aligned buffers and reads\<close>

fun is_power_of_two :: "nat \<Rightarrow> bool" where
  "is_power_of_two n = (if n = 0 then False else if n = 1 then True else n mod 2 = 0 \<and> is_power_of_two (n div 2))"

declare is_power_of_two.simps [simp del]

definition aligned_box_new :: "nat \<Rightarrow> nat \<Rightarrow> disk_error + byte list" where
  "aligned_box_new capacity alignment =
     (if is_power_of_two alignment then Inr (replicate capacity 0) else Inl (NotPowerOfTwo alignment))"

text \<open>The slices are given by where they start.\<close>

function slice_starts :: "nat \<Rightarrow> nat \<Rightarrow> nat \<Rightarrow> nat list" where
  "slice_starts start remaining slice_len =
     (if 0 < slice_len \<and> slice_len \<le> remaining
      then start # slice_starts (start + slice_len) (remaining - slice_len) slice_len else [])"
  by pat_completeness auto
termination by (relation "measure (\<lambda>(_, remaining, _). remaining)") auto

declare slice_starts.simps [simp del]

text \<open>With slices of length 0 the loop of the code does not end.\<close>

definition split_into_nonoverlapping_mut_slices :: "byte list \<Rightarrow> nat \<Rightarrow> nat \<Rightarrow> nat \<Rightarrow> disk_error + nat list" where
  "split_into_nonoverlapping_mut_slices buf range_start range_end slice_len =
     (if (range_end - range_start) mod slice_len \<noteq> 0 \<or> length buf < range_end
      then Inl (CannotSplit range_start range_end (length buf) slice_len)
      else if slice_len = 0 then Inl NonTermination
      else Inr (slice_starts range_start (range_end - range_start) slice_len))"

definition DISK_IO_ALIGNMENT :: nat where
  "DISK_IO_ALIGNMENT = 512"

definition assert_is_aligned :: "nat \<Rightarrow> disk_error + unit" where
  "assert_is_aligned val = (if val mod DISK_IO_ALIGNMENT = 0 then Inr () else Inl (Unaligned DISK_IO_ALIGNMENT))"

text \<open>A request: where to read from, and the start and the length of the buffer to read into.\<close>

definition aligned_read_new :: "nat \<Rightarrow> nat \<Rightarrow> nat \<Rightarrow> disk_error + (nat \<times> nat \<times> nat)" where
  "aligned_read_new offset buf_start buf_len =
     rbind (assert_is_aligned offset) (\<lambda>_.
     rbind (assert_is_aligned buf_len) (\<lambda>_. Inr (offset, buf_start, buf_len)))"

definition reader_new :: "storage \<Rightarrow> string \<Rightarrow> disk_error + byte list" where
  "reader_new sp file_name =
     rbind (get_length sp file_name) (\<lambda>file_length.
     rbind (open_reader sp file_name) (\<lambda>r.
     rbind (read_exact file_length r) (\<lambda>(data, _). Inr data)))"

definition reader_read :: "byte list \<Rightarrow> (nat \<times> nat \<times> nat) list \<Rightarrow> byte list \<Rightarrow> disk_error + byte list" where
  "reader_read data read_requests buf =
     rfold (\<lambda>(offset, start, len) buf.
       if offset + len \<le> length data then put_slice buf start (take len (drop offset data))
       else Inl (DiskPanic IndexFault)) read_requests buf"

section \<open>The sector graph\<close>

definition DEFAULT_DISK_SECTOR_LEN :: nat where
  "DEFAULT_DISK_SECTOR_LEN = 4096"

record disk_sector_graph =
  sg_reader :: "byte list"
  sg_sectors_data :: "byte list"
  sg_cur_sector_idx :: nat
  sg_num_nodes_per_sector :: nat
  sg_node_len :: nat
  sg_max_n_batch_sector_read :: nat
  sg_num_sectors_per_node :: nat
  sg_block_size :: nat

definition sg_new :: "byte list \<Rightarrow> graph_header \<Rightarrow> nat \<Rightarrow> disk_error + disk_sector_graph" where
  "sg_new sector_reader header max_n_batch_sector_read =
     (let version = gh_layout_version header;
          block_size = (if major version = 0 \<and> minor version = 0 \<or> gh_block_size header = 0
                        then DEFAULT_DISK_SECTOR_LEN else gh_block_size header);
          num_nodes_per_sector = gm_num_nodes_per_block (gh_metadata header);
          node_len = gm_node_len (gh_metadata header);
          num_sectors_per_node = (if 0 < num_nodes_per_sector then 1 else div_ceil node_len block_size)
      in rbind (aligned_box_new (max_n_batch_sector_read * num_sectors_per_node * block_size) block_size) (\<lambda>sectors_data.
         Inr \<lparr>sg_reader = sector_reader, sg_sectors_data = sectors_data, sg_cur_sector_idx = 0,
              sg_num_nodes_per_sector = num_nodes_per_sector, sg_node_len = node_len,
              sg_max_n_batch_sector_read = max_n_batch_sector_read,
              sg_num_sectors_per_node = num_sectors_per_node, sg_block_size = block_size\<rparr>))"

definition sg_reconfigure :: "nat \<Rightarrow> disk_sector_graph \<Rightarrow> disk_error + disk_sector_graph" where
  "sg_reconfigure max_n_batch_sector_read g =
     (if sg_max_n_batch_sector_read g < max_n_batch_sector_read then
        rbind (aligned_box_new (max_n_batch_sector_read * sg_num_sectors_per_node g * sg_block_size g) (sg_block_size g))
          (\<lambda>sectors_data. Inr (g\<lparr>sg_max_n_batch_sector_read := max_n_batch_sector_read, sg_sectors_data := sectors_data\<rparr>))
      else Inr g)"

definition sg_reset :: "disk_sector_graph \<Rightarrow> disk_sector_graph" where
  "sg_reset g = g\<lparr>sg_cur_sector_idx := 0\<rparr>"

fun rmap :: "('a \<Rightarrow> 'e + 'b) \<Rightarrow> 'a list \<Rightarrow> 'e + 'b list" where
  "rmap f [] = Inr []"
| "rmap f (x # xs) = rbind (f x) (\<lambda>y. rbind (rmap f xs) (\<lambda>ys. Inr (y # ys)))"

definition read_graph :: "nat list \<Rightarrow> disk_sector_graph \<Rightarrow> disk_error + disk_sector_graph" where
  "read_graph sectors_to_fetch g =
     (let cur = sg_cur_sector_idx g in
      if sg_max_n_batch_sector_read g < cur then Inl (DiskPanic OverflowFault)
      else if sg_max_n_batch_sector_read g - cur < length sectors_to_fetch
      then Inl (TooManySectors (length sectors_to_fetch) (sg_max_n_batch_sector_read g - cur))
      else
        let len_per_node = sg_num_sectors_per_node g * sg_block_size g in
        rbind (split_into_nonoverlapping_mut_slices (sg_sectors_data g) (cur * len_per_node)
                 ((cur + length sectors_to_fetch) * len_per_node) len_per_node) (\<lambda>sector_slices.
        rbind (rmap (\<lambda>(local_sector_idx, slice).
                 if length sectors_to_fetch \<le> local_sector_idx then Inl (DiskPanic IndexFault)
                 else aligned_read_new (sectors_to_fetch ! local_sector_idx * sg_block_size g) slice len_per_node)
               (enumerate 0 sector_slices)) (\<lambda>read_requests.
        rbind (reader_read (sg_reader g) read_requests (sg_sectors_data g)) (\<lambda>sectors_data.
        Inr (g\<lparr>sg_sectors_data := sectors_data, sg_cur_sector_idx := cur + length sectors_to_fetch\<rparr>)))))"

definition get_slice :: "nat \<Rightarrow> nat \<Rightarrow> byte list \<Rightarrow> disk_error + byte list" where
  "get_slice i j buf = (if i \<le> j \<and> j \<le> length buf then Inr (take (j - i) (drop i buf)) else Inl (DiskPanic IndexFault))"

definition get_sector_buf :: "nat \<Rightarrow> disk_sector_graph \<Rightarrow> disk_error + byte list" where
  "get_sector_buf local_sector_idx g =
     (let len_per_node = sg_num_sectors_per_node g * sg_block_size g in
      get_slice (local_sector_idx * len_per_node) ((local_sector_idx + 1) * len_per_node) (sg_sectors_data g))"

definition get_node_offset :: "32 word \<Rightarrow> disk_sector_graph \<Rightarrow> nat" where
  "get_node_offset vertex_id g =
     (if sg_num_nodes_per_sector g = 0 then 0 else unat vertex_id mod sg_num_nodes_per_sector g * sg_node_len g)"

definition node_disk_buf :: "nat \<Rightarrow> 32 word \<Rightarrow> disk_sector_graph \<Rightarrow> disk_error + byte list" where
  "node_disk_buf node_index_local vertex_id g =
     rbind (get_sector_buf node_index_local g) (\<lambda>sector_buf.
       let node_offset = get_node_offset vertex_id g
       in get_slice node_offset (node_offset + sg_node_len g) sector_buf)"

definition node_sector_index :: "32 word \<Rightarrow> disk_sector_graph \<Rightarrow> nat" where
  "node_sector_index vertex_id g =
     1 + (if 0 < sg_num_nodes_per_sector g then unat vertex_id div sg_num_nodes_per_sector g
          else unat vertex_id * sg_num_sectors_per_node g)"

section \<open>The vertex provider\<close>

text \<open>An entry of the loaded vertices is the index of its list and the index of its sector.\<close>

record 'a disk_vertex_provider =
  dv_centroid_vertex_id :: nat
  dv_vector_element_size :: nat
  dv_memory_aligned_dimension :: nat
  dv_fp_vector_len :: nat
  dv_sector_graph :: disk_sector_graph
  dv_aligned_vector_buf :: "byte list"
  dv_cached_adjacency_list :: "32 word list list"
  dv_cached_associated_data :: "'a list"
  dv_loaded_nodes :: "(32 word \<times> (nat \<times> nat)) list"
  dv_associated_data_size :: nat
  dv_node_len :: nat
  dv_io_operations :: "32 word"
  dv_max_batch_size :: nat

definition FP_VECTOR_MEM_ALIGN :: nat where
  "FP_VECTOR_MEM_ALIGN = 32"

definition dv_new :: "nat \<Rightarrow> graph_header \<Rightarrow> nat \<Rightarrow> byte list \<Rightarrow> disk_error + 'a disk_vertex_provider" where
  "dv_new vsz header max_batch_size sector_reader =
     (let metadata = gh_metadata header;
          memory_aligned_dimension = div_ceil (gm_dims metadata) 8 * 8
      in rbind (sg_new sector_reader header max_batch_size) (\<lambda>sector_graph.
         rbind (aligned_box_new (max_batch_size * memory_aligned_dimension * vsz) FP_VECTOR_MEM_ALIGN) (\<lambda>aligned_vector_buf.
         Inr \<lparr>dv_centroid_vertex_id = gm_medoid metadata, dv_vector_element_size = vsz,
              dv_memory_aligned_dimension = memory_aligned_dimension, dv_fp_vector_len = gm_dims metadata * vsz,
              dv_sector_graph = sector_graph, dv_aligned_vector_buf = aligned_vector_buf,
              dv_cached_adjacency_list = [], dv_cached_associated_data = [], dv_loaded_nodes = [],
              dv_associated_data_size = gm_associated_data_length metadata, dv_node_len = gm_node_len metadata,
              dv_io_operations = 0, dv_max_batch_size = max_batch_size\<rparr>)))"

definition dv_get_vector :: "32 word \<Rightarrow> 'a disk_vertex_provider \<Rightarrow> disk_error + byte list" where
  "dv_get_vector vertex_id p =
     (case map_of (dv_loaded_nodes p) vertex_id of
        Some (vec_idx, idx) \<Rightarrow>
          let len = dv_memory_aligned_dimension p * dv_vector_element_size p
          in get_slice (idx * len) (idx * len + len) (dv_aligned_vector_buf p)
      | None \<Rightarrow> Inl (VertexDataMissing vertex_id ''Vector''))"

definition dv_get_adjacency_list :: "32 word \<Rightarrow> 'a disk_vertex_provider \<Rightarrow> disk_error + 32 word list" where
  "dv_get_adjacency_list vertex_id p =
     (case map_of (dv_loaded_nodes p) vertex_id of
        Some (vec_idx, idx) \<Rightarrow>
          if vec_idx < length (dv_cached_adjacency_list p) then Inr (dv_cached_adjacency_list p ! vec_idx)
          else Inl (DiskPanic IndexFault)
      | None \<Rightarrow> Inl (VertexDataMissing vertex_id ''AdjacencyList''))"

definition dv_get_associated_data :: "32 word \<Rightarrow> 'a disk_vertex_provider \<Rightarrow> disk_error + 'a" where
  "dv_get_associated_data vertex_id p =
     (case map_of (dv_loaded_nodes p) vertex_id of
        Some (vec_idx, idx) \<Rightarrow>
          if vec_idx < length (dv_cached_associated_data p) then Inr (dv_cached_associated_data p ! vec_idx)
          else Inl (DiskPanic IndexFault)
      | None \<Rightarrow> Inl (VertexDataMissing vertex_id ''AssociatedData''))"

definition dv_clear_before_next_read :: "'a disk_vertex_provider \<Rightarrow> 'a disk_vertex_provider" where
  "dv_clear_before_next_read p =
     p\<lparr>dv_sector_graph := sg_reset (dv_sector_graph p), dv_loaded_nodes := [],
       dv_cached_adjacency_list := [], dv_cached_associated_data := []\<rparr>"

definition dv_reconfigure :: "nat \<Rightarrow> 'a disk_vertex_provider \<Rightarrow> disk_error + 'a disk_vertex_provider" where
  "dv_reconfigure max_batch_size p =
     (if dv_max_batch_size p < max_batch_size then
        let p = dv_clear_before_next_read p in
        rbind (sg_reconfigure max_batch_size (dv_sector_graph p)) (\<lambda>sector_graph.
        rbind (aligned_box_new (max_batch_size * dv_memory_aligned_dimension p * dv_vector_element_size p) FP_VECTOR_MEM_ALIGN)
          (\<lambda>aligned_vector_buf.
          Inr (p\<lparr>dv_sector_graph := sector_graph, dv_aligned_vector_buf := aligned_vector_buf,
                 dv_max_batch_size := max_batch_size\<rparr>)))
      else Inr p)"

definition fetch_nodes :: "32 word list \<Rightarrow> 'a disk_vertex_provider \<Rightarrow> disk_error + 'a disk_vertex_provider" where
  "fetch_nodes nodes_to_fetch p =
     rbind (dv_reconfigure (length nodes_to_fetch) p) (\<lambda>p.
       let sectors_to_fetch = map (\<lambda>vertex_id. node_sector_index vertex_id (dv_sector_graph p)) nodes_to_fetch in
       rbind (read_graph sectors_to_fetch (dv_sector_graph p)) (\<lambda>sector_graph. Inr (p\<lparr>dv_sector_graph := sector_graph\<rparr>)))"

definition dv_load_vertices :: "32 word list \<Rightarrow> 'a disk_vertex_provider \<Rightarrow> disk_error + 'a disk_vertex_provider" where
  "dv_load_vertices vertex_ids p =
     rbind (fetch_nodes vertex_ids (dv_clear_before_next_read p)) (\<lambda>p.
       Inr (p\<lparr>dv_io_operations := dv_io_operations p + of_nat (length vertex_ids)\<rparr>))"

fun words_of :: "nat \<Rightarrow> byte list \<Rightarrow> 32 word list" where
  "words_of 0 bs = []"
| "words_of (Suc n) bs = of_nat (from_le (take 4 bs)) # words_of n (drop 4 bs)"

definition dv_process_loaded_node ::
  "(byte list \<Rightarrow> 'a option) \<Rightarrow> 32 word \<Rightarrow> nat \<Rightarrow> 'a disk_vertex_provider \<Rightarrow> disk_error + 'a disk_vertex_provider" where
  "dv_process_loaded_node deserialize vertex_id idx p =
     rbind (node_disk_buf idx vertex_id (dv_sector_graph p)) (\<lambda>node_buf.
     rbind (get_slice 0 (dv_fp_vector_len p) node_buf) (\<lambda>fp_vector_buf.
     let len = dv_memory_aligned_dimension p * dv_vector_element_size p in
     rbind (slice_check (idx * len) (idx * len + len) (dv_aligned_vector_buf p)) (\<lambda>_.
     rbind (put_slice (dv_aligned_vector_buf p) (idx * len) fp_vector_buf) (\<lambda>aligned_vector_buf.
     let neighbor_and_data_buf = drop (dv_fp_vector_len p) node_buf in
     rbind (get_slice 0 4 neighbor_and_data_buf) (\<lambda>num_buf.
     let num_neighbors = from_le num_buf in
     if length neighbor_and_data_buf < 4 + num_neighbors * 4
     then Inl (MalformedLength vertex_id num_neighbors)
     else
       let adjacency_list = words_of num_neighbors (drop 4 neighbor_and_data_buf);
           data_end = dv_node_len p - dv_fp_vector_len p
       in if data_end < dv_associated_data_size p then Inl (DiskPanic OverflowFault)
       else rbind (get_slice (data_end - dv_associated_data_size p) data_end neighbor_and_data_buf) (\<lambda>data_buf.
         case deserialize data_buf of
           None \<Rightarrow> Inl SerdeError
         | Some associated_data \<Rightarrow>
             let vec_idx = length (dv_loaded_nodes p)
             in Inr (p\<lparr>dv_aligned_vector_buf := aligned_vector_buf,
                       dv_cached_adjacency_list := dv_cached_adjacency_list p @ [adjacency_list],
                       dv_cached_associated_data := dv_cached_associated_data p @ [associated_data],
                       dv_loaded_nodes := AList.update vertex_id (vec_idx, idx) (dv_loaded_nodes p)\<rparr>)))))))"

definition dv_clear :: "'a disk_vertex_provider \<Rightarrow> 'a disk_vertex_provider" where
  "dv_clear p = (dv_clear_before_next_read p)\<lparr>dv_io_operations := 0\<rparr>"

section \<open>Loading a batch, and the header\<close>

text \<open>\<open>ensure_vertex_loaded\<close>, over the two operations of a vertex provider.\<close>

definition ensure_vertex_loaded ::
  "(32 word list \<Rightarrow> 'p \<Rightarrow> disk_error + 'p) \<Rightarrow> (32 word \<Rightarrow> nat \<Rightarrow> 'p \<Rightarrow> disk_error + 'p) \<Rightarrow> 32 word list \<Rightarrow> 'p
   \<Rightarrow> disk_error + 'p" where
  "ensure_vertex_loaded load_vertices process_loaded_node ids p =
     rbind (load_vertices ids p) (rfold (\<lambda>(idx, id). process_loaded_node id idx) (enumerate 0 ids))"

definition get_header :: "byte list \<Rightarrow> disk_error + graph_header" where
  "get_header reader =
     (let buffer_len = div_ceil gh_get_size DEFAULT_DISK_SECTOR_LEN * DEFAULT_DISK_SECTOR_LEN in
      rbind (aligned_box_new buffer_len buffer_len) (\<lambda>read_buf.
      rbind (aligned_read_new 0 0 (length read_buf)) (\<lambda>aligned_read.
      rbind (reader_read reader [aligned_read] read_buf) (\<lambda>read_buf.
      gh_try_from (drop 8 read_buf)))))"

end
