(* ===== verification/Disk_Cache.thy ===== *)
theory Disk_Cache
  imports Disk_Graph Adjacency_List
begin

text \<open>
  The cache of vertices in front of the disk: \<open>Cache\<close> of \<open>diskann-disk/src/data_model/cache.rs\<close>,
  \<open>CachedDiskVertexProvider\<close>, and the factory that fills the cache by a breadth-first walk from the
  medoid, of \<open>diskann-disk/src/search/provider\<close>.
\<close>

section \<open>The cache\<close>

record 'a vertex_cache =
  vc_mapping :: "(32 word \<times> nat) list"
  vc_vectors :: "byte list"
  vc_adjacency_lists :: "32 word adjacency_list list"
  vc_associated_data :: "'a list"
  vc_element_size :: nat
  vc_dimension :: nat
  vc_capacity :: nat

definition vc_new :: "nat \<Rightarrow> nat \<Rightarrow> nat \<Rightarrow> disk_error + 'a vertex_cache" where
  "vc_new vsz dimension capacity =
     rbind (aligned_box_new (capacity * dimension * vsz) FP_VECTOR_MEM_ALIGN) (\<lambda>vectors.
       Inr \<lparr>vc_mapping = [], vc_vectors = vectors, vc_adjacency_lists = [], vc_associated_data = [],
            vc_element_size = vsz, vc_dimension = dimension, vc_capacity = capacity\<rparr>)"

definition vc_contains :: "32 word \<Rightarrow> 'a vertex_cache \<Rightarrow> bool" where
  "vc_contains vector_id c \<longleftrightarrow> map_of (vc_mapping c) vector_id \<noteq> None"

definition vc_get_vector :: "32 word \<Rightarrow> 'a vertex_cache \<Rightarrow> disk_error + byte list option" where
  "vc_get_vector vector_id c =
     (case map_of (vc_mapping c) vector_id of
        Some idx \<Rightarrow>
          let len = vc_dimension c * vc_element_size c
          in rbind (get_slice (idx * len) ((idx + 1) * len) (vc_vectors c)) (\<lambda>v. Inr (Some v))
      | None \<Rightarrow> Inr None)"

definition vc_get_adjacency_list :: "32 word \<Rightarrow> 'a vertex_cache \<Rightarrow> disk_error + 32 word adjacency_list option" where
  "vc_get_adjacency_list vector_id c =
     (case map_of (vc_mapping c) vector_id of
        Some idx \<Rightarrow> if idx < length (vc_adjacency_lists c) then Inr (Some (vc_adjacency_lists c ! idx)) else Inl (DiskPanic IndexFault)
      | None \<Rightarrow> Inr None)"

definition vc_get_associated_data :: "32 word \<Rightarrow> 'a vertex_cache \<Rightarrow> disk_error + 'a option" where
  "vc_get_associated_data vector_id c =
     (case map_of (vc_mapping c) vector_id of
        Some idx \<Rightarrow> if idx < length (vc_associated_data c) then Inr (Some (vc_associated_data c ! idx)) else Inl (DiskPanic IndexFault)
      | None \<Rightarrow> Inr None)"

definition copy_to_cache ::
  "nat \<Rightarrow> byte list \<Rightarrow> 32 word adjacency_list \<Rightarrow> 'a \<Rightarrow> 'a vertex_cache \<Rightarrow> disk_error + 'a vertex_cache" where
  "copy_to_cache idx vector adjacency_list associated_data c =
     (let len = vc_dimension c * vc_element_size c in
      rbind (slice_check (idx * len) ((idx + 1) * len) (vc_vectors c)) (\<lambda>_.
      rbind (put_slice (vc_vectors c) (idx * len) vector) (\<lambda>vectors.
      Inr (c\<lparr>vc_vectors := vectors, vc_adjacency_lists := vc_adjacency_lists c @ [adjacency_list],
             vc_associated_data := vc_associated_data c @ [associated_data]\<rparr>))))"

definition vc_len :: "'a vertex_cache \<Rightarrow> nat" where
  "vc_len c = length (vc_mapping c)"

definition vc_insert ::
  "32 word \<Rightarrow> byte list \<Rightarrow> 32 word adjacency_list \<Rightarrow> 'a \<Rightarrow> 'a vertex_cache \<Rightarrow> disk_error + 'a vertex_cache" where
  "vc_insert vector_id vector adjacency_list associated_data c =
     (if vc_dimension c * vc_element_size c \<noteq> length vector then Inl CacheDimension
      else case map_of (vc_mapping c) vector_id of
          Some idx \<Rightarrow> copy_to_cache idx vector adjacency_list associated_data c
        | None \<Rightarrow>
            if vc_capacity c \<le> vc_len c then Inl CacheFull
            else
              let idx = vc_len c;
                  c1 = c\<lparr>vc_mapping := AList.update vector_id idx (vc_mapping c)\<rparr>
              in copy_to_cache idx vector adjacency_list associated_data c1)"

section \<open>The cached provider\<close>

record 'a cached_provider =
  cp_cache :: "'a vertex_cache"
  cp_vector_provider :: "'a disk_vertex_provider"
  cp_local_idx_to_filtered_idx :: "(nat \<times> nat) list"
  cp_vertices_loaded_count :: "32 word"

definition cp_new :: "nat \<Rightarrow> graph_header \<Rightarrow> nat \<Rightarrow> byte list \<Rightarrow> 'a vertex_cache \<Rightarrow> disk_error + 'a cached_provider" where
  "cp_new vsz header max_batch_size sector_reader cache =
     rbind (dv_new vsz header max_batch_size sector_reader) (\<lambda>vector_provider.
       Inr \<lparr>cp_cache = cache, cp_vector_provider = vector_provider, cp_local_idx_to_filtered_idx = [],
            cp_vertices_loaded_count = 0\<rparr>)"

definition cp_get_vector :: "32 word \<Rightarrow> 'a cached_provider \<Rightarrow> disk_error + byte list" where
  "cp_get_vector vertex_id p =
     rbind (vc_get_vector vertex_id (cp_cache p)) (\<lambda>r.
       case r of Some vector \<Rightarrow> Inr vector | None \<Rightarrow> dv_get_vector vertex_id (cp_vector_provider p))"

definition cp_get_adjacency_list :: "32 word \<Rightarrow> 'a cached_provider \<Rightarrow> disk_error + 32 word list" where
  "cp_get_adjacency_list vertex_id p =
     rbind (vc_get_adjacency_list vertex_id (cp_cache p)) (\<lambda>r.
       case r of Some adj_list \<Rightarrow> Inr adj_list | None \<Rightarrow> dv_get_adjacency_list vertex_id (cp_vector_provider p))"

definition cp_get_associated_data :: "32 word \<Rightarrow> 'a cached_provider \<Rightarrow> disk_error + 'a" where
  "cp_get_associated_data vertex_id p =
     rbind (vc_get_associated_data vertex_id (cp_cache p)) (\<lambda>r.
       case r of Some data \<Rightarrow> Inr data | None \<Rightarrow> dv_get_associated_data vertex_id (cp_vector_provider p))"

definition cp_clear_before_next_read :: "'a cached_provider \<Rightarrow> 'a cached_provider" where
  "cp_clear_before_next_read p = p\<lparr>cp_local_idx_to_filtered_idx := []\<rparr>"

fun filter_loop ::
  "'a vertex_cache \<Rightarrow> (nat \<times> 32 word) list \<Rightarrow> (nat \<times> nat) list \<times> 32 word list \<Rightarrow> (nat \<times> nat) list \<times> 32 word list" where
  "filter_loop cache [] st = st"
| "filter_loop cache ((idx, vertex_id) # rest) (m, uncached_vertex_ids) =
     (if vc_contains vertex_id cache then filter_loop cache rest (m, uncached_vertex_ids)
      else filter_loop cache rest (AList.update idx (length uncached_vertex_ids) m, uncached_vertex_ids @ [vertex_id]))"

definition filter_cached_nodes :: "32 word list \<Rightarrow> 'a cached_provider \<Rightarrow> 32 word list \<times> 'a cached_provider" where
  "filter_cached_nodes vertex_ids p =
     (let (m, uncached_vertex_ids) = filter_loop (cp_cache p) (enumerate 0 vertex_ids) (cp_local_idx_to_filtered_idx p, [])
      in (uncached_vertex_ids, p\<lparr>cp_local_idx_to_filtered_idx := m\<rparr>))"

definition cp_load_vertices :: "32 word list \<Rightarrow> 'a cached_provider \<Rightarrow> disk_error + 'a cached_provider" where
  "cp_load_vertices vertex_ids p =
     (let p = cp_clear_before_next_read p;
          p = p\<lparr>cp_vertices_loaded_count := cp_vertices_loaded_count p + of_nat (length vertex_ids)\<rparr>;
          (uncached_vertex_ids, p) = filter_cached_nodes vertex_ids p
      in if uncached_vertex_ids = [] then Inr p
         else rbind (dv_load_vertices uncached_vertex_ids (cp_vector_provider p)) (\<lambda>vp. Inr (p\<lparr>cp_vector_provider := vp\<rparr>)))"

definition cp_process_loaded_node ::
  "(byte list \<Rightarrow> 'a option) \<Rightarrow> 32 word \<Rightarrow> nat \<Rightarrow> 'a cached_provider \<Rightarrow> disk_error + 'a cached_provider" where
  "cp_process_loaded_node deserialize vertex_id idx p =
     (if vc_contains vertex_id (cp_cache p) then Inr p
      else case map_of (cp_local_idx_to_filtered_idx p) idx of
          None \<Rightarrow> Inl (DiskPanic IndexFault)
        | Some idx \<Rightarrow> rbind (dv_process_loaded_node deserialize vertex_id idx (cp_vector_provider p)) (\<lambda>vp.
            Inr (p\<lparr>cp_vector_provider := vp\<rparr>)))"

definition cp_clear :: "'a cached_provider \<Rightarrow> 'a cached_provider" where
  "cp_clear p =
     (let p = cp_clear_before_next_read p
      in p\<lparr>cp_vector_provider := dv_clear (cp_vector_provider p), cp_vertices_loaded_count := 0\<rparr>)"

section \<open>Filling the cache\<close>

definition BEAM_WIDTH_FOR_BFS :: nat where
  "BEAM_WIDTH_FOR_BFS = 32"

definition insert_in_cache ::
  "(byte list \<Rightarrow> 'a option) \<Rightarrow> 32 word \<Rightarrow> nat \<Rightarrow> 'a disk_vertex_provider \<Rightarrow> 'a vertex_cache
   \<Rightarrow> disk_error + ('a disk_vertex_provider \<times> 'a vertex_cache)" where
  "insert_in_cache deserialize node idx vertex_provider cache =
     rbind (dv_process_loaded_node deserialize node idx vertex_provider) (\<lambda>vertex_provider.
     rbind (dv_get_vector node vertex_provider) (\<lambda>vector.
     rbind (dv_get_adjacency_list node vertex_provider) (\<lambda>adjacency_list.
     rbind (dv_get_associated_data node vertex_provider) (\<lambda>associated_data.
     rbind (vc_insert node vector (from_iter_untrusted adjacency_list) associated_data cache) (\<lambda>cache.
     Inr (vertex_provider, cache))))))"

text \<open>The neighbors that are met for the first time are queued.\<close>

definition bfs_visit :: "32 word \<Rightarrow> 32 word list \<times> 32 word list \<Rightarrow> 32 word list \<times> 32 word list" where
  "bfs_visit neighbor_id st =
     (case st of (visited, queue) \<Rightarrow>
        if neighbor_id \<notin> set visited then (visited @ [neighbor_id], queue @ [neighbor_id]) else (visited, queue))"

fun bfs_nodes ::
  "(byte list \<Rightarrow> 'a option) \<Rightarrow> nat \<Rightarrow> (nat \<times> 32 word) list
   \<Rightarrow> 'a disk_vertex_provider \<times> 'a vertex_cache \<times> 32 word list \<times> 32 word list
   \<Rightarrow> disk_error + ('a disk_vertex_provider \<times> 'a vertex_cache \<times> 32 word list \<times> 32 word list)" where
  "bfs_nodes deserialize num_nodes_to_cache [] st = Inr st"
| "bfs_nodes deserialize num_nodes_to_cache ((idx, node) # rest) (vertex_provider, cache, visited, queue) =
     rbind (insert_in_cache deserialize node idx vertex_provider cache) (\<lambda>(vertex_provider, cache).
     rbind (vc_get_adjacency_list node cache) (\<lambda>r.
       case r of
         None \<Rightarrow> Inl (AdjacencyListNotFound node)
       | Some adjacency_list \<Rightarrow>
           let (visited, queue) = fold bfs_visit adjacency_list (visited, queue)
           in if num_nodes_to_cache \<le> vc_len cache then Inr (vertex_provider, cache, visited, queue)
              else bfs_nodes deserialize num_nodes_to_cache rest (vertex_provider, cache, visited, queue)))"

text \<open>Every vertex is queued once, so the loop ends.\<close>

lemma bfs_visit_measure:
  assumes "fold bfs_visit l (visited, queue) = (visited', queue')"
  shows "2 * card (- set visited') + length queue' \<le> 2 * card (- set visited) + length queue"
  using assms
proof (induction l arbitrary: visited queue)
  case (Cons x l)
  show ?case
  proof (cases "x \<in> set visited")
    case True
    then show ?thesis using Cons by (simp add: bfs_visit_def)
  next
    case False
    have "- set (visited @ [x]) = - set visited - {x}" by auto
    then have "card (- set (visited @ [x])) = card (- set visited) - 1" "0 < card (- set visited)"
      using False by (simp_all add: card_gt_0_iff) auto
    then show ?thesis using Cons.IH [of "visited @ [x]" "queue @ [x]"] Cons.prems False by (simp add: bfs_visit_def)
  qed
qed simp

lemma bfs_nodes_measure:
  assumes "bfs_nodes deserialize num nodes (vp, cache, visited, queue) = Inr (vp', cache', visited', queue')"
  shows "2 * card (- set visited') + length queue' \<le> 2 * card (- set visited) + length queue"
  using assms
proof (induction nodes arbitrary: vp cache visited queue)
  case (Cons n nodes)
  obtain idx node where n: "n = (idx, node)" by (cases n)
  from Cons.prems obtain vp1 c1 l where s: "insert_in_cache deserialize node idx vp cache = Inr (vp1, c1)"
    "vc_get_adjacency_list node c1 = Inr (Some l)"
    by (auto simp: n rbind_eq_Inr_iff split: option.splits)
  obtain vis1 q1 where v: "fold bfs_visit l (visited, queue) = (vis1, q1)" by (cases "fold bfs_visit l (visited, queue)")
  note bfs_visit_measure [OF v]
  moreover have "2 * card (- set visited') + length queue' \<le> 2 * card (- set vis1) + length q1"
    using Cons.prems Cons.IH [of vp1 c1 vis1 q1] by (auto simp: n s v split: if_splits)
  ultimately show ?case by simp
qed simp

function bfs_loop ::
  "(byte list \<Rightarrow> 'a option) \<Rightarrow> nat \<Rightarrow> 'a disk_vertex_provider \<Rightarrow> 'a vertex_cache \<Rightarrow> 32 word list \<Rightarrow> 32 word list
   \<Rightarrow> disk_error + 'a vertex_cache" where
  "bfs_loop deserialize num_nodes_to_cache vertex_provider cache visited queue =
     (if queue \<noteq> [] \<and> vc_len cache < num_nodes_to_cache then
        let batch_size = min (length queue) BEAM_WIDTH_FOR_BFS;
            nodes_in_a_batch = take batch_size queue
        in rbind (dv_load_vertices nodes_in_a_batch vertex_provider) (\<lambda>vertex_provider.
           rbind (bfs_nodes deserialize num_nodes_to_cache (enumerate 0 nodes_in_a_batch)
                    (vertex_provider, cache, visited, drop batch_size queue))
             (\<lambda>(vertex_provider, cache, visited, queue).
                bfs_loop deserialize num_nodes_to_cache vertex_provider cache visited queue))
      else Inr cache)"
  by pat_completeness auto
termination
proof (relation "measure (\<lambda>(_, _, _, _, visited, queue). 2 * card (- set visited) + length queue)", goal_cases)
  case (2 des num vp cache visited queue b batch vp1 st vp2 r c2 r2 vis2 q2)
  then have "2 * card (- set vis2) + length q2 \<le> 2 * card (- set visited) + length (drop b queue)"
    by (auto dest: bfs_nodes_measure)
  moreover have "length (drop b queue) < length queue" using 2 by (cases queue) (auto simp: BEAM_WIDTH_FOR_BFS_def)
  ultimately show ?case by simp
qed simp

declare bfs_loop.simps [simp del]

definition build_cache_via_bfs ::
  "nat \<Rightarrow> (byte list \<Rightarrow> 'a option) \<Rightarrow> byte list \<Rightarrow> 32 word \<Rightarrow> nat \<Rightarrow> nat \<Rightarrow> disk_error + 'a vertex_cache" where
  "build_cache_via_bfs vsz deserialize reader start_node num_nodes_to_cache dimension =
     rbind (vc_new vsz dimension num_nodes_to_cache) (\<lambda>cache.
     rbind (get_header reader) (\<lambda>header.
     rbind (dv_new vsz header BEAM_WIDTH_FOR_BFS reader) (\<lambda>vertex_provider.
     bfs_loop deserialize num_nodes_to_cache vertex_provider cache [start_node] [start_node])))"

datatype caching_strategy = NoCaching | StaticCacheWithBfsNodes nat

record 'a vertex_provider_factory =
  vf_reader :: "byte list"
  vf_caching_strategy :: caching_strategy
  vf_cache :: "'a vertex_cache option"

text \<open>The error for zero nodes is built and logged but not returned.\<close>

definition setup_cache ::
  "nat \<Rightarrow> (byte list \<Rightarrow> 'a option) \<Rightarrow> 'a vertex_provider_factory \<Rightarrow> disk_error + 'a vertex_provider_factory" where
  "setup_cache vsz deserialize f =
     (case vf_caching_strategy f of
        StaticCacheWithBfsNodes num_nodes_to_cache \<Rightarrow>
          rbind (get_header (vf_reader f)) (\<lambda>header.
            let graph_metadata = gh_metadata header;
                memory_aligned_dimension = div_ceil (gm_dims graph_metadata) 8 * 8;
                num_nodes_to_cache = (if gm_num_pts graph_metadata < num_nodes_to_cache then gm_num_pts graph_metadata
                                      else num_nodes_to_cache);
                start_node = of_nat (gm_medoid graph_metadata)
            in rbind (build_cache_via_bfs vsz deserialize (vf_reader f) start_node num_nodes_to_cache memory_aligned_dimension)
                 (\<lambda>cache. Inr (f\<lparr>vf_cache := Some cache\<rparr>)))
      | NoCaching \<Rightarrow> Inr f)"

definition vf_new ::
  "nat \<Rightarrow> (byte list \<Rightarrow> 'a option) \<Rightarrow> byte list \<Rightarrow> caching_strategy \<Rightarrow> disk_error + 'a vertex_provider_factory" where
  "vf_new vsz deserialize aligned_reader caching_strategy =
     (let f = \<lparr>vf_reader = aligned_reader, vf_caching_strategy = caching_strategy, vf_cache = None\<rparr>
      in if caching_strategy \<noteq> NoCaching then setup_cache vsz deserialize f else Inr f)"

definition create_vertex_provider ::
  "nat \<Rightarrow> nat \<Rightarrow> graph_header \<Rightarrow> 'a vertex_provider_factory \<Rightarrow> disk_error + 'a cached_provider" where
  "create_vertex_provider vsz max_batch_size header f =
     (case vf_caching_strategy f of
        StaticCacheWithBfsNodes _ \<Rightarrow>
          (case vf_cache f of
             Some cache \<Rightarrow> cp_new vsz header max_batch_size (vf_reader f) cache
           | None \<Rightarrow> Inl CacheNotInitialised)
      | NoCaching \<Rightarrow> rbind (vc_new vsz 0 0) (\<lambda>cache. cp_new vsz header max_batch_size (vf_reader f) cache))"

end
