(* ===== verification/Disk_Roundtrip.thy ===== *)
theory Disk_Roundtrip
  imports Disk_Graph
begin

text \<open>
  What is laid out on disk is what a vertex provider reads: the invariants of the sector graph and of
  the vertex provider on a file written by \<open>create_disk_layout\<close>, that loading a batch keeps them, and
  the contents of every vertex of the batch.
\<close>

section \<open>Buffers\<close>

lemma is_power_of_two_power: "is_power_of_two (2 ^ k)"
  by (induction k) (simp_all add: is_power_of_two.simps [of "2 * _"] is_power_of_two.simps [of "Suc 0"])

lemma slice_starts_eq: "0 < U \<Longrightarrow> slice_starts s (m * U) U = map (\<lambda>j. s + j * U) [0..<m]"
proof (induction m arbitrary: s)
  case 0
  then show ?case by (simp add: slice_starts.simps)
next
  case (Suc m)
  then show ?case
    by (subst slice_starts.simps) (simp add: upt_conv_Cons map_Suc_upt [symmetric] algebra_simps del: upt_Suc)
qed

lemma rmap_map: "\<forall>x\<in>set xs. f x = Inr (g x) \<Longrightarrow> rmap f xs = Inr (map g xs)"
  by (induction xs) auto

lemma update_new: "k \<notin> fst ` set al \<Longrightarrow> AList.update k v al = al @ [(k, v)]"
  by (induction al) auto

text \<open>The part with number \<open>j\<close> of a buffer of parts of length \<open>len\<close>.\<close>

definition slot :: "nat \<Rightarrow> nat \<Rightarrow> byte list \<Rightarrow> byte list" where
  "slot len j buf = take len (drop (j * len) buf)"

lemma slot_end: "j < m \<Longrightarrow> j * len + len \<le> m * len" for j m len :: nat
  using mult_le_mono1 [of "j + 1" m len] by simp

lemma take_drop_take: "a + n \<le> b \<Longrightarrow> take n (drop a (take b xs)) = take n (drop a xs)"
  by (simp add: drop_take)

lemma put_slice_slot:
  assumes "length buf = m * len" "i < m" "length data \<le> len"
  obtains buf' where "put_slice buf (i * len) data = Inr buf'" "length buf' = length buf"
    "\<forall>j. slot len j buf' = (if j = i then data @ drop (length data) (slot len i buf) else slot len j buf)"
proof -
  note e = slot_end [OF assms(2), of len]
  let ?buf' = "take (i * len) buf @ data @ drop (i * len + length data) buf"
  have "slot len j ?buf' = slot len j buf" if "j \<noteq> i" for j
  proof (cases "j < i")
    case True
    then have "j * len + len \<le> i * len" by (rule slot_end)
    then show ?thesis using e assms(1) by (simp add: slot_def take_drop_take del: drop_take)
  next
    case False
    with \<open>j \<noteq> i\<close> have "i * len + len \<le> j * len" by (intro slot_end) simp
    then have "i * len \<le> j * len" "i * len + length data \<le> j * len" using assms(3) by linarith+
    then show ?thesis using e assms by (simp add: slot_def)
  qed
  moreover have "slot len i ?buf' = data @ drop (length data) (slot len i buf)"
    using e assms by (simp add: slot_def drop_take add.commute)
  ultimately show thesis using e assms by (intro that [of ?buf']) (auto simp: put_slice_def)
qed

lemma length_part: "off + U \<le> length data \<Longrightarrow> length (take U (drop off data)) = U"
  by simp

lemma reader_read_slots:
  assumes "\<forall>j<m. off j + U \<le> length data" "m * U \<le> length buf"
  shows "reader_read data (map (\<lambda>j. (off j, j * U, U)) [0..<m]) buf
    = Inr (concat (map (\<lambda>j. take U (drop (off j) data)) [0..<m]) @ drop (m * U) buf)"
  using assms
proof (induction m)
  case (Suc m)
  let ?pre = "concat (map (\<lambda>j. take U (drop (off j) data)) [0..<m])"
  have pre: "length ?pre = m * U" using Suc.prems(1) by (subst length_concat_uniform [where n = U]) (auto intro!: length_part simp del: length_take)
  have "reader_read data (map (\<lambda>j. (off j, j * U, U)) [0..<m]) buf = Inr (?pre @ drop (m * U) buf)"
    using Suc by simp
  moreover have "put_slice (?pre @ drop (m * U) buf) (m * U) (take U (drop (off m) data))
      = Inr (?pre @ take U (drop (off m) data) @ drop (Suc m * U) buf)"
  proof -
    have "length (take U (drop (off m) data)) = U" using Suc.prems(1) by (intro length_part) simp
    then show ?thesis using Suc.prems(2) pre by (simp add: put_slice_def del: length_take length_drop) (simp add: add.commute)
  qed
  ultimately show ?case using Suc.prems(1) by (simp add: reader_read_def rfold_append)
qed (simp add: reader_read_def)

section \<open>The sector graph\<close>

definition sg_ok :: "byte list \<Rightarrow> nat \<Rightarrow> nat \<Rightarrow> disk_sector_graph \<Rightarrow> bool" where
  "sg_ok file bs L g \<longleftrightarrow> sg_reader g = file \<and> sg_num_nodes_per_sector g = bs div L \<and> sg_node_len g = L
     \<and> sg_num_sectors_per_node g = sectors_per_node bs L \<and> sg_block_size g = bs
     \<and> length (sg_sectors_data g) = sg_max_n_batch_sector_read g * (sectors_per_node bs L * bs)"

lemma sg_reconfigure_ok:
  assumes "sg_ok file bs L g" "is_power_of_two bs"
  shows "\<exists>g'. sg_reconfigure m g = Inr g' \<and> sg_ok file bs L g' \<and> sg_cur_sector_idx g' = sg_cur_sector_idx g
    \<and> sg_max_n_batch_sector_read g' = max m (sg_max_n_batch_sector_read g)"
  using assms by (simp add: sg_reconfigure_def sg_ok_def aligned_box_new_def)

lemma read_graph_ok:
  assumes ok: "sg_ok file bs L g" and cur: "sg_cur_sector_idx g = 0" and m: "length secs \<le> sg_max_n_batch_sector_read g"
    and rng: "\<forall>s\<in>set secs. s * bs + sectors_per_node bs L * bs \<le> length file" and al: "512 dvd bs"
    and U0: "0 < sectors_per_node bs L * bs"
  obtains g' where "read_graph secs g = Inr g'" "sg_ok file bs L g'"
    "sg_max_n_batch_sector_read g' = sg_max_n_batch_sector_read g"
    "\<And>j. j < length secs \<Longrightarrow> get_sector_buf j g' = Inr (take (sectors_per_node bs L * bs) (drop (secs ! j * bs) file))"
proof -
  let ?U = "sectors_per_node bs L * bs" and ?m = "length secs"
  let ?sec = "\<lambda>j. take ?U (drop (secs ! j * bs) file)"
  have fl: "sg_reader g = file" "sg_num_sectors_per_node g = sectors_per_node bs L" "sg_block_size g = bs"
    using ok by (simp_all add: sg_ok_def)
  have buf: "?m * ?U \<le> length (sg_sectors_data g)" using ok m by (auto simp: sg_ok_def intro: mult_le_mono1)
  have sp: "split_into_nonoverlapping_mut_slices (sg_sectors_data g) 0 (?m * ?U) ?U = Inr (map (\<lambda>j. j * ?U) [0..<?m])"
    using buf U0 slice_starts_eq [OF U0, of 0 ?m] by (simp add: split_into_nonoverlapping_mut_slices_def)
  let ?f = "\<lambda>(local_sector_idx, slice). if ?m \<le> local_sector_idx then Inl (DiskPanic IndexFault)
    else aligned_read_new (secs ! local_sector_idx * bs) slice ?U"
  have en: "enumerate 0 (map (\<lambda>j. j * ?U) [0..<?m]) = map (\<lambda>j. (j, j * ?U)) [0..<?m]"
    by (rule nth_equalityI) (simp_all add: nth_enumerate_eq)
  have "?f (j, j * ?U) = Inr (secs ! j * bs, j * ?U, ?U)" if "j < ?m" for j
    using that al by (simp add: aligned_read_new_def assert_is_aligned_def DISK_IO_ALIGNMENT_def)
  then have rq: "rmap ?f (enumerate 0 (map (\<lambda>j. j * ?U) [0..<?m])) = Inr (map (\<lambda>j. (secs ! j * bs, j * ?U, ?U)) [0..<?m])"
    unfolding en by (subst rmap_map [where g = "\<lambda>(j, s). (secs ! j * bs, s, ?U)"]) auto
  let ?data = "concat (map ?sec [0..<?m]) @ drop (?m * ?U) (sg_sectors_data g)"
  have rd: "reader_read file (map (\<lambda>j. (secs ! j * bs, j * ?U, ?U)) [0..<?m]) (sg_sectors_data g) = Inr ?data"
    using rng buf by (intro reader_read_slots) auto
  let ?g = "g\<lparr>sg_sectors_data := ?data, sg_cur_sector_idx := ?m\<rparr>"
  have uni: "\<forall>x\<in>set (map ?sec [0..<?m]). length x = ?U" using rng by (auto intro!: length_part simp del: length_take)
  have len: "length ?data = length (sg_sectors_data g)" using length_concat_uniform [OF uni] buf by simp
  have "read_graph secs g = Inr ?g" unfolding read_graph_def fl cur Let_def using m sp rq rd by simp
  moreover have "sg_ok file bs L ?g" using ok len by (simp add: sg_ok_def)
  moreover have "get_sector_buf j ?g = Inr (?sec j)" if "j < ?m" for j
  proof -
    have "j * ?U + ?U \<le> ?m * ?U" using that by (rule slot_end)
    moreover have "take ?U (drop (j * ?U) (concat (map ?sec [0..<?m]))) = ?sec j"
      using take_drop_concat_uniform [OF uni, of j] that by simp
    moreover have "length (concat (map ?sec [0..<?m])) = ?m * ?U" using length_concat_uniform [OF uni] by simp
    ultimately have "get_slice (j * ?U) ((j + 1) * ?U) ?data = Inr (?sec j)" by (simp add: get_slice_def add.commute)
    then show ?thesis by (simp add: get_sector_buf_def fl Let_def)
  qed
  ultimately show thesis by (intro that [of ?g]) simp_all
qed

section \<open>The bytes of a node\<close>

lemma words_of_flat: "words_of (length l) (concat (map (\<lambda>x. le_bytes 4 (unat x)) l) @ rest) = l"
proof (induction l)
  case (Cons x l)
  have "of_nat (unat x mod 256 ^ 4) = x" using unat_u32 [of x] by simp
  with Cons show ?case by (simp add: from_le_bytes)
qed simp

lemma node_image_parts:
  assumes "point_ok vlen d alen (v, l, a)" "d < 2 ^ 32"
  defines "b \<equiv> drop vlen (node_image d (v, l, a))"
  shows "take vlen (node_image d (v, l, a)) = v" "length b = (d + 1) * 4 + alen" "from_le (take 4 b) = length l"
    "words_of (length l) (drop 4 b) = l" "take alen (drop (length b - alen) b) = a"
proof -
  have len: "length v = vlen" "length l \<le> d" "length a = alen" using assms(1) by (simp_all add: point_ok_def)
  have b: "b = le_bytes 4 (length l) @ concat (map (\<lambda>x. le_bytes 4 (unat x)) l) @ zeros (4 * (d - length l)) @ a"
    using len by (simp add: b_def node_image_def encode_list_def)
  show "take vlen (node_image d (v, l, a)) = v" using len by (simp add: node_image_def)
  show lb: "length b = (d + 1) * 4 + alen" using len by (simp add: b length_flat)
  show "from_le (take 4 b) = length l" using len(2) assms(2) by (simp add: b from_le_bytes)
  show "words_of (length l) (drop 4 b) = l" by (simp add: b words_of_flat)
  show "take alen (drop (length b - alen) b) = a" using len by (simp add: b length_flat zeros_def)
qed

text \<open>The points are where the sector graph looks for them.\<close>

definition nodes_at :: "byte list \<Rightarrow> nat \<Rightarrow> nat \<Rightarrow> nat \<Rightarrow> nat \<Rightarrow> point list \<Rightarrow> bool" where
  "nodes_at file bs vlen d alen ps \<longleftrightarrow>
     (\<forall>p\<in>set ps. point_ok vlen d alen p) \<and> d < 2 ^ 32
     \<and> (let L = node_length vlen d alen; U = sectors_per_node bs L * bs in
        \<forall>i<length ps. sector_of bs L i * bs + U \<le> length file \<and> offset_of bs L i + L \<le> U
          \<and> take L (drop (offset_of bs L i) (take U (drop (sector_of bs L i * bs) file))) = node_image d (ps ! i))"

lemma nodes_at_disk_file:
  assumes "\<forall>p\<in>set ps. point_ok vlen d alen p" "gm_node_len (gh_metadata h) = node_length vlen d alen" "104 \<le> bs" "d < 2 ^ 32"
  shows "nodes_at (disk_file bs h d ps) bs vlen d alen ps"
  using assms disk_file_sector [OF assms(1-3)] by (simp add: nodes_at_def Let_def)

section \<open>Loading a batch\<close>

definition vector_bytes :: "nat \<Rightarrow> nat \<Rightarrow> nat" where
  "vector_bytes vsz dims = div_ceil dims 8 * 8 * vsz"

definition dv_ok :: "byte list \<Rightarrow> nat \<Rightarrow> nat \<Rightarrow> nat \<Rightarrow> nat \<Rightarrow> nat \<Rightarrow> 'a disk_vertex_provider \<Rightarrow> bool" where
  "dv_ok file bs L vsz dims alen p \<longleftrightarrow>
     sg_ok file bs L (dv_sector_graph p) \<and> dv_vector_element_size p = vsz \<and> dv_memory_aligned_dimension p = div_ceil dims 8 * 8
     \<and> dv_fp_vector_len p = dims * vsz \<and> dv_associated_data_size p = alen \<and> dv_node_len p = L
     \<and> sg_max_n_batch_sector_read (dv_sector_graph p) = dv_max_batch_size p
     \<and> length (dv_aligned_vector_buf p) = dv_max_batch_size p * vector_bytes vsz dims
     \<and> (\<forall>j<dv_max_batch_size p. drop (dims * vsz) (slot (vector_bytes vsz dims) j (dv_aligned_vector_buf p))
          = zeros (vector_bytes vsz dims - dims * vsz))"

lemma slot_zeros: "j < m \<Longrightarrow> slot len j (replicate (m * len) 0) = zeros len"
  using slot_end [of j m len] by (simp add: slot_def zeros_def [symmetric])

lemma aligned_32: "is_power_of_two FP_VECTOR_MEM_ALIGN"
  using is_power_of_two_power [of 5] by (simp add: FP_VECTOR_MEM_ALIGN_def)

lemma dv_clear_ok: "dv_ok file bs L vsz dims alen p \<Longrightarrow> dv_ok file bs L vsz dims alen (dv_clear_before_next_read p)"
  by (simp add: dv_ok_def dv_clear_before_next_read_def sg_reset_def sg_ok_def)

definition cleared :: "'a disk_vertex_provider \<Rightarrow> bool" where
  "cleared p \<longleftrightarrow> dv_loaded_nodes p = [] \<and> dv_cached_adjacency_list p = [] \<and> dv_cached_associated_data p = []
     \<and> sg_cur_sector_idx (dv_sector_graph p) = 0"

lemma cleared_clear: "cleared (dv_clear_before_next_read p)"
  by (simp add: cleared_def dv_clear_before_next_read_def sg_reset_def)

lemma clear_cleared: "cleared p \<Longrightarrow> dv_clear_before_next_read p = p"
  by (cases p, cases "dv_sector_graph p") (simp add: cleared_def dv_clear_before_next_read_def sg_reset_def)

lemma dv_reconfigure_ok:
  assumes ok: "dv_ok file bs L vsz dims alen p" and bs: "is_power_of_two bs" and cl: "cleared p"
  shows "\<exists>p'. dv_reconfigure m p = Inr p' \<and> dv_ok file bs L vsz dims alen p' \<and> m \<le> dv_max_batch_size p' \<and> cleared p'"
proof (cases "dv_max_batch_size p < m")
  case True
  have sg: "sg_ok file bs L (dv_sector_graph p)" using ok by (simp add: dv_ok_def)
  obtain g' where g': "sg_reconfigure m (dv_sector_graph p) = Inr g'" "sg_ok file bs L g'"
    "sg_cur_sector_idx g' = sg_cur_sector_idx (dv_sector_graph p)"
    "sg_max_n_batch_sector_read g' = max m (sg_max_n_batch_sector_read (dv_sector_graph p))"
    using sg_reconfigure_ok [OF sg bs] by blast
  let ?p = "p\<lparr>dv_sector_graph := g', dv_aligned_vector_buf := replicate (m * vector_bytes vsz dims) 0, dv_max_batch_size := m\<rparr>"
  have "dv_reconfigure m p = Inr ?p" using True ok g'(1) aligned_32
    by (simp add: dv_reconfigure_def clear_cleared [OF cl] aligned_box_new_def dv_ok_def vector_bytes_def mult.assoc)
  moreover have "sg_max_n_batch_sector_read (dv_sector_graph p) = dv_max_batch_size p" using ok by (simp add: dv_ok_def)
  then have "dv_ok file bs L vsz dims alen ?p" using ok g'(2,4) True by (simp add: dv_ok_def slot_zeros)
  moreover have "cleared ?p" using cl g'(3) by (simp add: cleared_def)
  ultimately show ?thesis by simp
qed (use assms in \<open>simp add: dv_reconfigure_def\<close>)

lemma dv_load_vertices_ok:
  assumes ok: "dv_ok file bs L vsz dims alen p" and bs: "is_power_of_two bs" "512 dvd bs"
    and at: "nodes_at file bs (dims * vsz) d alen ps" and L: "L = node_length (dims * vsz) d alen"
    and ids: "\<forall>id\<in>set ids. unat id < length ps"
  shows "\<exists>p'. dv_load_vertices ids p = Inr p' \<and> dv_ok file bs L vsz dims alen p' \<and> length ids \<le> dv_max_batch_size p'
    \<and> dv_loaded_nodes p' = [] \<and> dv_cached_adjacency_list p' = [] \<and> dv_cached_associated_data p' = []
    \<and> (\<forall>j<length ids. node_disk_buf j (ids ! j) (dv_sector_graph p') = Inr (node_image d (ps ! unat (ids ! j))))"
proof -
  obtain p1 where p1: "dv_reconfigure (length ids) (dv_clear_before_next_read p) = Inr p1" "dv_ok file bs L vsz dims alen p1"
    "length ids \<le> dv_max_batch_size p1" "cleared p1"
    using dv_reconfigure_ok [OF dv_clear_ok [OF ok] bs(1) cleared_clear] by blast
  let ?g = "dv_sector_graph p1" and ?U = "sectors_per_node bs L * bs"
  have sg: "sg_ok file bs L ?g" "sg_max_n_batch_sector_read ?g = dv_max_batch_size p1" using p1(2) by (simp_all add: dv_ok_def)
  have secs: "map (\<lambda>id. node_sector_index id ?g) ids = map (\<lambda>id. sector_of bs L (unat id)) ids" (is "_ = ?secs")
    using sg(1) by (simp add: node_sector_index_def sector_of_def sg_ok_def)
  have at': "sector_of bs L i * bs + ?U \<le> length file" "offset_of bs L i + L \<le> ?U"
    "take L (drop (offset_of bs L i) (take ?U (drop (sector_of bs L i * bs) file))) = node_image d (ps ! i)"
    if "i < length ps" for i using at that by (simp_all add: nodes_at_def Let_def L)
  have "0 < bs" using bs(1) by (cases "bs = 0") (simp_all add: is_power_of_two.simps)
  moreover have "0 < L" by (simp add: L node_length_def)
  ultimately have U0: "0 < ?U" using div_ceil_ge [of bs L] by (cases "div_ceil L bs") (auto simp: sectors_per_node_def)
  have cur: "sg_cur_sector_idx ?g = 0" and room: "length ?secs \<le> sg_max_n_batch_sector_read ?g"
    and rng: "\<forall>s\<in>set ?secs. s * bs + ?U \<le> length file" using p1(3,4) sg(2) at'(1) ids by (auto simp: cleared_def)
  obtain g' where g': "read_graph ?secs ?g = Inr g'" "sg_ok file bs L g'" "sg_max_n_batch_sector_read g' = dv_max_batch_size p1"
    and buf: "\<And>j. j < length ?secs \<Longrightarrow> get_sector_buf j g' = Inr (take ?U (drop (?secs ! j * bs) file))"
    using read_graph_ok [OF sg(1) cur room rng bs(2) U0] sg(2) by metis
  have nd: "node_disk_buf j (ids ! j) g' = Inr (node_image d (ps ! unat (ids ! j)))" if "j < length ids" for j
  proof -
    have i: "unat (ids ! j) < length ps" using ids that by simp
    have "get_node_offset (ids ! j) g' = offset_of bs L (unat (ids ! j))" "sg_node_len g' = L"
      using g'(2) by (simp_all add: get_node_offset_def offset_of_def sg_ok_def)
    then show ?thesis using buf [of j] that at' [OF i] by (simp add: node_disk_buf_def get_slice_def)
  qed
  let ?p = "p1\<lparr>dv_sector_graph := g', dv_io_operations := dv_io_operations p1 + of_nat (length ids)\<rparr>"
  have "dv_load_vertices ids p = Inr ?p" using p1(1) g'(1) by (simp add: dv_load_vertices_def fetch_nodes_def secs)
  moreover have "dv_ok file bs L vsz dims alen ?p" using p1(2) g'(2,3) by (simp add: dv_ok_def)
  ultimately show ?thesis using p1(3,4) nd by (intro exI [of _ ?p]) (simp add: cleared_def)
qed

text \<open>The state after the first \<open>k\<close> vertices of a batch are processed.\<close>

definition processed ::
  "(byte list \<Rightarrow> 'a option) \<Rightarrow> nat \<Rightarrow> point list \<Rightarrow> 32 word list \<Rightarrow> nat \<Rightarrow> 'a disk_vertex_provider \<Rightarrow> bool" where
  "processed deserialize len ps ids k p \<longleftrightarrow>
     dv_loaded_nodes p = map (\<lambda>j. (ids ! j, j, j)) [0..<k]
     \<and> dv_cached_adjacency_list p = map (\<lambda>j. fst (snd (ps ! unat (ids ! j)))) [0..<k]
     \<and> map Some (dv_cached_associated_data p) = map (\<lambda>j. deserialize (snd (snd (ps ! unat (ids ! j))))) [0..<k]
     \<and> (\<forall>j<k. slot len j (dv_aligned_vector_buf p) = padded len (fst (ps ! unat (ids ! j))))"

lemma process_ok:
  assumes ok: "dv_ok file bs L vsz dims alen p" and at: "nodes_at file bs (dims * vsz) d alen ps"
    and L: "L = node_length (dims * vsz) d alen" and k: "k < length ids" "length ids \<le> dv_max_batch_size p"
    and ids: "distinct ids" "unat (ids ! k) < length ps" and des: "deserialize (snd (snd (ps ! unat (ids ! k)))) \<noteq> None"
    and nd: "node_disk_buf k (ids ! k) (dv_sector_graph p) = Inr (node_image d (ps ! unat (ids ! k)))"
    and pr: "processed deserialize (vector_bytes vsz dims) ps ids k p"
  shows "\<exists>p'. dv_process_loaded_node deserialize (ids ! k) k p = Inr p' \<and> dv_ok file bs L vsz dims alen p'
    \<and> dv_sector_graph p' = dv_sector_graph p \<and> dv_max_batch_size p' = dv_max_batch_size p
    \<and> processed deserialize (vector_bytes vsz dims) ps ids (Suc k) p'"
proof -
  obtain v l a where q: "ps ! unat (ids ! k) = (v, l, a)" by (cases "ps ! unat (ids ! k)")
  let ?len = "vector_bytes vsz dims" and ?buf = "dv_aligned_vector_buf p" and ?img = "node_image d (v, l, a)"
  have pt: "point_ok (dims * vsz) d alen (v, l, a)" "d < 2 ^ 32"
    using at ids(2) q nth_mem [OF ids(2)] by (auto simp: nodes_at_def)
  note parts = node_image_parts [OF pt]
  have lim: "length ?img = L" using length_node_image [OF pt(1)] by (simp add: L node_length_def)
  have fl: "dv_vector_element_size p = vsz" "dv_memory_aligned_dimension p * vsz = ?len" "dv_fp_vector_len p = dims * vsz"
    "dv_associated_data_size p = alen" "dv_node_len p = L" using ok by (simp_all add: dv_ok_def vector_bytes_def)
  have lv: "length v = dims * vsz" using pt(1) by (simp add: point_ok_def)
  have "dims * vsz \<le> div_ceil dims 8 * 8 * vsz" by (intro mult_le_mono1 div_ceil_ge) simp
  then have vlen: "length v \<le> ?len" by (simp add: lv vector_bytes_def)
  have bl: "length ?buf = dv_max_batch_size p * ?len" using ok by (simp add: dv_ok_def)
  have km: "k < dv_max_batch_size p" using k by simp
  obtain buf' where b': "put_slice ?buf (k * ?len) v = Inr buf'" "length buf' = length ?buf"
    "\<forall>j. slot ?len j buf' = (if j = k then v @ drop (length v) (slot ?len k ?buf) else slot ?len j ?buf)"
    using put_slice_slot [OF bl km vlen] .
  have pad: "drop (dims * vsz) (slot ?len j ?buf) = zeros (?len - dims * vsz)" if "j < dv_max_batch_size p" for j
    using ok that by (simp add: dv_ok_def)
  have sc: "slice_check (k * ?len) (k * ?len + ?len) ?buf = Inr ()"
    using slot_end [OF km, of ?len] by (simp add: slice_check_def bl)
  obtain ad where ad: "deserialize a = Some ad" using des q by auto
  have new: "ids ! k \<notin> fst ` set (dv_loaded_nodes p)"
    using pr ids(1) k(1) by (auto simp: processed_def nth_eq_iff_index_eq)
  let ?p = "p\<lparr>dv_aligned_vector_buf := buf', dv_cached_adjacency_list := dv_cached_adjacency_list p @ [l],
    dv_cached_associated_data := dv_cached_associated_data p @ [ad], dv_loaded_nodes := dv_loaded_nodes p @ [(ids ! k, k, k)]\<rparr>"
  have ld: "length (dv_loaded_nodes p) = k" using pr by (simp add: processed_def)
  have upd: "AList.update (ids ! k) (k, k) (dv_loaded_nodes p) = dv_loaded_nodes p @ [(ids ! k, k, k)]"
    using new by (rule update_new)
  have ll: "length l \<le> d" "length a = alen" using pt(1) by (simp_all add: point_ok_def)
  have "dv_process_loaded_node deserialize (ids ! k) k p = Inr ?p"
    using nd lim parts sc b'(1) ad upd ld ll
    by (simp add: dv_process_loaded_node_def q fl get_slice_def Let_def L node_length_def)
  moreover have "dv_ok file bs L vsz dims alen ?p" using ok b'(2,3) pad lv by (simp add: dv_ok_def)
  moreover have "processed deserialize ?len ps ids (Suc k) ?p"
    using pr b'(3) pad [OF km] q ad lv by (auto simp: processed_def padded_def less_Suc_eq)
  ultimately show ?thesis by (intro exI [of _ ?p]) simp
qed

abbreviation dv_ensure ::
  "(byte list \<Rightarrow> 'a option) \<Rightarrow> 32 word list \<Rightarrow> 'a disk_vertex_provider \<Rightarrow> disk_error + 'a disk_vertex_provider" where
  "dv_ensure deserialize \<equiv> ensure_vertex_loaded dv_load_vertices (dv_process_loaded_node deserialize)"

definition batch_ok :: "point list \<Rightarrow> 32 word list \<Rightarrow> bool" where
  "batch_ok ps ids \<longleftrightarrow> distinct ids \<and> (\<forall>id\<in>set ids. unat id < length ps)"

lemma ensure_ok:
  assumes ok: "dv_ok file bs L vsz dims alen p" and bs: "is_power_of_two bs" "512 dvd bs"
    and at: "nodes_at file bs (dims * vsz) d alen ps" and L: "L = node_length (dims * vsz) d alen"
    and des: "\<forall>p\<in>set ps. deserialize (snd (snd p)) \<noteq> None" and ids: "batch_ok ps ids"
  shows "\<exists>p'. dv_ensure deserialize ids p = Inr p' \<and> dv_ok file bs L vsz dims alen p'
    \<and> processed deserialize (vector_bytes vsz dims) ps ids (length ids) p' \<and> length ids \<le> dv_max_batch_size p'"
proof -
  have rng: "\<forall>id\<in>set ids. unat id < length ps" and di: "distinct ids" using ids by (simp_all add: batch_ok_def)
  obtain p1 where p1: "dv_load_vertices ids p = Inr p1" "dv_ok file bs L vsz dims alen p1" "length ids \<le> dv_max_batch_size p1"
    "dv_loaded_nodes p1 = []" "dv_cached_adjacency_list p1 = []" "dv_cached_associated_data p1 = []"
    and nd: "\<forall>j<length ids. node_disk_buf j (ids ! j) (dv_sector_graph p1) = Inr (node_image d (ps ! unat (ids ! j)))"
    using dv_load_vertices_ok [OF ok bs at L rng] by (elim exE conjE)
  let ?f = "\<lambda>(idx, id). dv_process_loaded_node deserialize id idx"
  have "\<exists>p'. rfold ?f (take k (enumerate 0 ids)) p1 = Inr p' \<and> dv_ok file bs L vsz dims alen p'
      \<and> dv_sector_graph p' = dv_sector_graph p1 \<and> dv_max_batch_size p' = dv_max_batch_size p1
      \<and> processed deserialize (vector_bytes vsz dims) ps ids k p'" if "k \<le> length ids" for k
    using that
  proof (induction k)
    case 0
    then show ?case using p1 by (simp add: processed_def)
  next
    case (Suc k)
    then obtain p2 where p2: "rfold ?f (take k (enumerate 0 ids)) p1 = Inr p2" "dv_ok file bs L vsz dims alen p2"
      "dv_sector_graph p2 = dv_sector_graph p1" "dv_max_batch_size p2 = dv_max_batch_size p1"
      "processed deserialize (vector_bytes vsz dims) ps ids k p2" by auto
    have k: "k < length ids" "length ids \<le> dv_max_batch_size p2" using Suc.prems p1(3) p2(4) by simp_all
    have i: "unat (ids ! k) < length ps" using rng k(1) by simp
    obtain p3 where "dv_process_loaded_node deserialize (ids ! k) k p2 = Inr p3" "dv_ok file bs L vsz dims alen p3"
      "dv_sector_graph p3 = dv_sector_graph p2" "dv_max_batch_size p3 = dv_max_batch_size p2"
      "processed deserialize (vector_bytes vsz dims) ps ids (Suc k) p3"
      using process_ok [OF p2(2) at L k di i _ _ p2(5)] des nth_mem [OF i] nd k(1) p2(3) by auto
    then show ?case using p2 k(1) by (simp add: take_Suc_conv_app_nth rfold_append nth_enumerate_eq)
  qed
  from this [of "length ids"] p1(1,3) show ?thesis by (auto simp: ensure_vertex_loaded_def)
qed

lemma processed_get:
  assumes ok: "dv_ok file bs L vsz dims alen p" and pr: "processed deserialize (vector_bytes vsz dims) ps ids (length ids) p"
    and di: "distinct ids" and mb: "length ids \<le> dv_max_batch_size p" and x: "x \<in> set ids"
  shows "dv_get_vector x p = Inr (padded (vector_bytes vsz dims) (fst (ps ! unat x)))"
    "dv_get_adjacency_list x p = Inr (fst (snd (ps ! unat x)))"
    "\<exists>ad. dv_get_associated_data x p = Inr ad \<and> deserialize (snd (snd (ps ! unat x))) = Some ad"
proof -
  obtain j where j: "j < length ids" "x = ids ! j" using x by (auto simp: in_set_conv_nth)
  let ?m = "map (\<lambda>j. (ids ! j, j, j)) [0..<length ids]"
  have "map fst ?m = ids" by (simp add: comp_def map_nth)
  then have mo: "map_of (dv_loaded_nodes p) x = Some (j, j)"
    using pr j di by (intro map_of_is_SomeI) (auto simp: processed_def)
  have len: "dv_memory_aligned_dimension p * dv_vector_element_size p = vector_bytes vsz dims"
    using ok by (simp add: dv_ok_def vector_bytes_def)
  have "j < dv_max_batch_size p" using j(1) mb by simp
  from slot_end [OF this] show "dv_get_vector x p = Inr (padded (vector_bytes vsz dims) (fst (ps ! unat x)))"
    using ok pr j mo len by (auto simp: dv_get_vector_def get_slice_def dv_ok_def processed_def slot_def Let_def)
  show "dv_get_adjacency_list x p = Inr (fst (snd (ps ! unat x)))"
    using pr j mo by (simp add: dv_get_adjacency_list_def processed_def)
  have as: "map Some (dv_cached_associated_data p) = map (\<lambda>j. deserialize (snd (snd (ps ! unat (ids ! j))))) [0..<length ids]"
    using pr by (simp add: processed_def)
  have la: "j < length (dv_cached_associated_data p)" using arg_cong [OF as, of length] j(1) by simp
  have "Some (dv_cached_associated_data p ! j) = deserialize (snd (snd (ps ! unat x)))"
    using arg_cong [OF as, of "\<lambda>xs. xs ! j"] la j by simp
  then show "\<exists>ad. dv_get_associated_data x p = Inr ad \<and> deserialize (snd (snd (ps ! unat x))) = Some ad"
    using mo la by (simp add: dv_get_associated_data_def)
qed

section \<open>Opening the index\<close>

lemma get_header_ok:
  assumes "header_ok h" "104 \<le> bs" "4096 \<le> length (disk_file bs h d ps)"
  shows "get_header (disk_file bs h d ps) = Inr h"
proof -
  obtain r where f: "disk_file bs h d ps = (le_bytes 4 96 @ le_bytes 4 1) @ gh_to_bytes h @ r"
    by (simp add: disk_file_def padded_def)
  let ?f = "disk_file bs h d ps"
  have c: "div_ceil gh_get_size DEFAULT_DISK_SECTOR_LEN * DEFAULT_DISK_SECTOR_LEN = 4096"
    by (simp add: div_ceil_def gh_get_size_def gm_get_size_def DEFAULT_DISK_SECTOR_LEN_def)
  have a: "aligned_box_new 4096 4096 = Inr (replicate 4096 0)"
    using is_power_of_two_power [of 12] by (simp add: aligned_box_new_def)
  have "put_slice (replicate 4096 0) 0 (take 4096 ?f) = Inr (take 4096 ?f)"
    using assms(3) by (simp add: put_slice_def)
  then have r: "reader_read ?f [(0, 0, 4096)] (replicate 4096 0) = Inr (take 4096 ?f)"
    using assms(3) by (simp add: reader_read_def)
  have d: "drop 8 (take 4096 ?f) = gh_to_bytes h @ take 3992 r" by (simp add: f)
  show ?thesis using gh_try_from_to_bytes [OF assms(1)] r d
    by (simp add: get_header_def c a aligned_read_new_def assert_is_aligned_def DISK_IO_ALIGNMENT_def Let_def)
qed

lemma dv_new_ok:
  assumes h: "h = layout_header bs (dims * vsz) dims d medoid frozen alen n" and bs: "is_power_of_two bs"
  shows "\<exists>p. dv_new vsz h m file = Inr p \<and> dv_ok file bs (node_length (dims * vsz) d alen) vsz dims alen p"
proof -
  have b0: "bs \<noteq> 0" using bs by (cases "bs = 0") (simp_all add: is_power_of_two.simps)
  let ?L = "node_length (dims * vsz) d alen"
  let ?p = "\<lparr>dv_centroid_vertex_id = medoid, dv_vector_element_size = vsz,
              dv_memory_aligned_dimension = div_ceil dims 8 * 8, dv_fp_vector_len = dims * vsz,
              dv_sector_graph = \<lparr>sg_reader = file, sg_sectors_data = replicate (m * sectors_per_node bs ?L * bs) 0,
                sg_cur_sector_idx = 0, sg_num_nodes_per_sector = bs div ?L, sg_node_len = ?L,
                sg_max_n_batch_sector_read = m, sg_num_sectors_per_node = sectors_per_node bs ?L, sg_block_size = bs\<rparr>,
              dv_aligned_vector_buf = replicate (m * vector_bytes vsz dims) 0,
              dv_cached_adjacency_list = [], dv_cached_associated_data = [], dv_loaded_nodes = [],
              dv_associated_data_size = alen, dv_node_len = ?L, dv_io_operations = 0, dv_max_batch_size = m\<rparr>"
  have "dv_new vsz h m file = Inr ?p" using bs b0 aligned_32
    by (simp add: dv_new_def sg_new_def h layout_header_def Let_def aligned_box_new_def CURRENT_LAYOUT_VERSION_def
        sectors_per_node_def vector_bytes_def mult.assoc)
  moreover have "dv_ok file bs ?L vsz dims alen ?p" by (simp add: dv_ok_def sg_ok_def slot_zeros)
  ultimately show ?thesis by blast
qed

lemma layout_max_degree:
  assumes "dims * vsz < 2 ^ 64"
  shows "gh_max_degree vsz (layout_header bs (dims * vsz) dims d medoid frozen alen n) = Inr d"
  using assms by (simp add: gh_max_degree_def layout_header_def CURRENT_LAYOUT_VERSION_def checked_sub_def
      node_length_def Let_def mult.commute)

lemma layout_header_ok:
  assumes "n < 2 ^ 32" "dims < 2 ^ 32" "medoid < 2 ^ 32" "frozen < 2 ^ 64" "node_length vlen d alen < 2 ^ 64"
    "(block_count bs (node_length vlen d alen) n + 1) * bs < 2 ^ 64"
  shows "header_ok (layout_header bs vlen dims d medoid frozen alen n)"
proof -
  let ?L = "node_length vlen d alen"
  have bs: "bs < 2 ^ 64" using assms(6) by (simp add: add_lessD1)
  have "bs div ?L \<le> bs" by simp
  then have "bs div ?L < 2 ^ 64" using bs by (rule le_less_trans)
  moreover have "alen < 2 ^ 64" using assms(5) by (simp add: node_length_def)
  ultimately show ?thesis using assms bs
    by (simp add: header_ok_def metadata_ok_def layout_header_def CURRENT_LAYOUT_VERSION_def Let_def)
qed

section \<open>Properties\<close>

lemma index_written:
  assumes inp: "inputs_ok vsz asz w sp dims d medoid frozen alen ps" and block: "diw_block_size w = 2 ^ e" "9 \<le> e"
    and node: "node_length (dims * vsz) d (alen * asz) < 2 ^ 64"
    and fsize: "4096 \<le> (block_count (2 ^ e) (node_length (dims * vsz) d (alen * asz)) (length ps) + 1) * 2 ^ e"
      "(block_count (2 ^ e) (node_length (dims * vsz) d (alen * asz)) (length ps) + 1) * 2 ^ e < 2 ^ 64"
  obtains sp' index h where "create_disk_layout vsz asz w sp = Inr sp'"
    "reader_new sp' (get_disk_index_file (diw_index_path_prefix w)) = Inr index" "get_header index = Inr h"
    "h = layout_header (2 ^ e) (dims * vsz) dims d medoid frozen (alen * asz) (length ps)" "gh_max_degree vsz h = Inr d"
    "nodes_at index (2 ^ e) (dims * vsz) d (alen * asz) ps" "is_power_of_two (2 ^ e)" "512 dvd (2 ^ e :: nat)"
proof -
  let ?bs = "2 ^ e :: nat" and ?A = "alen * asz" and ?L = "node_length (dims * vsz) d (alen * asz)"
  let ?h = "layout_header ?bs (dims * vsz) dims d medoid frozen ?A (length ps)"
  let ?f = "disk_file ?bs ?h d ps" and ?name = "get_disk_index_file (diw_index_path_prefix w)"
  have "(2::nat) ^ 9 \<le> 2 ^ e" using block(2) by (intro power_increasing) simp_all
  then have b104: "104 \<le> ?bs" by simp
  have "(2::nat) ^ 9 dvd 2 ^ e" using block(2) by (rule le_imp_power_dvd)
  then have al: "is_power_of_two ?bs" "512 dvd ?bs" by (simp_all add: is_power_of_two_power)
  have pts: "\<forall>p\<in>set ps. point_ok (dims * vsz) d ?A p" "d < 2 ^ 32" and small: "length ps < 2 ^ 32" "dims < 2 ^ 32"
    "medoid < 2 ^ 32" "frozen < 2 ^ 64" using inp by (simp_all add: inputs_ok_def)
  have hL: "gm_node_len (gh_metadata ?h) = ?L" by (simp add: layout_header_def Let_def)
  note lf = length_disk_file [OF pts(1) hL b104]
  have cl: "create_disk_layout vsz asz w sp = Inr (sp(?name \<mapsto> ?f))"
    using create_disk_layout_file [OF inp] b104 by (simp add: block(1))
  have rd: "reader_new (sp(?name \<mapsto> ?f)) ?name = Inr ?f"
    by (simp add: reader_new_def get_length_def open_reader_def read_exact_def)
  have hd: "get_header ?f = Inr ?h"
    using get_header_ok [OF layout_header_ok [OF small node fsize(2)] b104] lf fsize(1) by simp
  have "dims * vsz < 2 ^ 64" using node by (simp add: node_length_def)
  note deg = layout_max_degree [OF this]
  show thesis by (rule that [OF cl rd hd refl deg nodes_at_disk_file [OF pts(1) hL b104 pts(2)] al])
qed

lemma ensure_batches_ok:
  fixes deserialize :: "byte list \<Rightarrow> 'a option"
  assumes "dv_ok file bs L vsz dims alen p" "is_power_of_two bs" "512 dvd bs" "nodes_at file bs (dims * vsz) d alen ps"
    "L = node_length (dims * vsz) d alen" "\<forall>p\<in>set ps. deserialize (snd (snd p)) \<noteq> None" "\<forall>b\<in>set bts. batch_ok ps b"
  shows "\<exists>p'. rfold (dv_ensure deserialize) bts p = Inr p' \<and> dv_ok file bs L vsz dims alen p'"
proof (rule rfold_total [where P = "dv_ok file bs L vsz dims alen", OF assms(1)])
  fix b and q :: "'a disk_vertex_provider"
  assume "b \<in> set bts" "dv_ok file bs L vsz dims alen q"
  then show "\<exists>q'. dv_ensure deserialize b q = Inr q' \<and> dv_ok file bs L vsz dims alen q'"
    using ensure_ok [OF _ assms(2-6)] assms(7) by blast
qed



end
