(* ===== verification/Disk_Cache_Correct.thy ===== *)
theory Disk_Cache_Correct
  imports Disk_Cache Disk_Roundtrip
begin

text \<open>
  What a vertex provider promises is the locale \<open>vertex_provider\<close>: a batch of distinct vertices can be
  loaded, and then every vertex of the batch has its vector, its neighbors and its associated data.
  The provider that reads the disk and the one with a cache in front of it both interpret it.  The
  breadth-first walk fills a cache with right entries: it is full, or it holds every vertex that can
  be reached from the medoid.
\<close>

section \<open>A disk index\<close>

record 'a disk_env =
  de_file :: "byte list"
  de_block_size :: nat
  de_vsz :: nat
  de_dims :: nat
  de_degree :: nat
  de_alen :: nat
  de_deserialize :: "byte list \<Rightarrow> 'a option"
  de_points :: "point list"

definition env_ok :: "'a disk_env \<Rightarrow> bool" where
  "env_ok E \<longleftrightarrow> is_power_of_two (de_block_size E) \<and> 512 dvd de_block_size E
     \<and> nodes_at (de_file E) (de_block_size E) (de_dims E * de_vsz E) (de_degree E) (de_alen E) (de_points E)
     \<and> (\<forall>p\<in>set (de_points E). de_deserialize E (snd (snd p)) \<noteq> None)"

definition vector_of :: "'a disk_env \<Rightarrow> 32 word \<Rightarrow> byte list" where
  "vector_of E x = padded (vector_bytes (de_vsz E) (de_dims E)) (fst (de_points E ! unat x))"

definition neighbors_of :: "'a disk_env \<Rightarrow> 32 word \<Rightarrow> 32 word list" where
  "neighbors_of E x = fst (snd (de_points E ! unat x))"

definition data_of :: "'a disk_env \<Rightarrow> 32 word \<Rightarrow> 'a" where
  "data_of E x = the (de_deserialize E (snd (snd (de_points E ! unat x))))"

text \<open>The neighbors as they are served: as they are stored, or, from a cache, sorted and without
  repetitions.\<close>

definition served_list :: "'a disk_env \<Rightarrow> bool \<Rightarrow> 32 word \<Rightarrow> 32 word list" where
  "served_list E in_cache x = (if in_cache then sorted_list_of_set (set (neighbors_of E x)) else neighbors_of E x)"

lemma set_served_list [simp]: "set (served_list E b x) = set (neighbors_of E x)"
  by (simp add: served_list_def)

section \<open>What a vertex provider promises\<close>

locale vertex_provider =
  fixes load :: "32 word list \<Rightarrow> 'p \<Rightarrow> disk_error + 'p"
    and process :: "(byte list \<Rightarrow> 'a option) \<Rightarrow> 32 word \<Rightarrow> nat \<Rightarrow> 'p \<Rightarrow> disk_error + 'p"
    and get_vec :: "32 word \<Rightarrow> 'p \<Rightarrow> disk_error + byte list"
    and get_adj :: "32 word \<Rightarrow> 'p \<Rightarrow> disk_error + 32 word list"
    and get_data :: "32 word \<Rightarrow> 'p \<Rightarrow> disk_error + 'a"
    and cached :: "'p \<Rightarrow> 32 word \<Rightarrow> bool"
    and serves :: "'a disk_env \<Rightarrow> 'p \<Rightarrow> bool"
  assumes ensure_law: "\<And>E p ids. serves E p \<Longrightarrow> batch_ok (de_points E) ids \<Longrightarrow>
      \<exists>p'. ensure_vertex_loaded load (process (de_deserialize E)) ids p = Inr p' \<and> serves E p' \<and> cached p' = cached p
        \<and> (\<forall>x\<in>set ids. get_vec x p' = Inr (vector_of E x) \<and> get_data x p' = Inr (data_of E x)
             \<and> get_adj x p' = Inr (served_list E (cached p x) x))"
begin

lemma ensure_batches:
  assumes "serves E p" "\<forall>b\<in>set bts. batch_ok (de_points E) b"
  shows "\<exists>p'. rfold (ensure_vertex_loaded load (process (de_deserialize E))) bts p = Inr p' \<and> serves E p' \<and> cached p' = cached p"
proof (rule rfold_total [where P = "\<lambda>q. serves E q \<and> cached q = cached p"])
  show "serves E p \<and> cached p = cached p" using assms(1) by simp
next
  fix b q
  assume "b \<in> set bts" "serves E q \<and> cached q = cached p"
  then show "\<exists>q'. ensure_vertex_loaded load (process (de_deserialize E)) b q = Inr q' \<and> serves E q' \<and> cached q' = cached p"
    using ensure_law [of E q b] assms(2) by metis
qed

lemma ensure_last:
  assumes "serves E p" "\<forall>b\<in>set (bts @ [ids]). batch_ok (de_points E) b"
  shows "\<exists>p'. rfold (ensure_vertex_loaded load (process (de_deserialize E))) (bts @ [ids]) p = Inr p' \<and> serves E p'
    \<and> (\<forall>x\<in>set ids. get_vec x p' = Inr (vector_of E x) \<and> get_data x p' = Inr (data_of E x)
         \<and> get_adj x p' = Inr (served_list E (cached p x) x))"
proof -
  obtain q where q: "rfold (ensure_vertex_loaded load (process (de_deserialize E))) bts p = Inr q" "serves E q" "cached q = cached p"
    using ensure_batches [OF assms(1), of bts] assms(2) by auto
  with ensure_law [OF q(2), of ids] assms(2) show ?thesis by (fastforce simp: rfold_append)
qed

end

section \<open>Reading the disk\<close>

definition dv_serves :: "'a disk_env \<Rightarrow> 'a disk_vertex_provider \<Rightarrow> bool" where
  "dv_serves E p \<longleftrightarrow> env_ok E
     \<and> dv_ok (de_file E) (de_block_size E) (node_length (de_dims E * de_vsz E) (de_degree E) (de_alen E))
         (de_vsz E) (de_dims E) (de_alen E) p"

definition dv_processed :: "'a disk_env \<Rightarrow> 32 word list \<Rightarrow> nat \<Rightarrow> 'a disk_vertex_provider \<Rightarrow> bool" where
  "dv_processed E ids k p \<longleftrightarrow> dv_serves E p \<and> length ids \<le> dv_max_batch_size p
     \<and> processed (de_deserialize E) (vector_bytes (de_vsz E) (de_dims E)) (de_points E) ids k p"

lemma dv_processed_get:
  assumes "dv_processed E ids k p" "k \<le> length ids" "distinct ids" "x \<in> set (take k ids)"
  shows "dv_get_vector x p = Inr (vector_of E x)" "dv_get_adjacency_list x p = Inr (neighbors_of E x)"
    "dv_get_associated_data x p = Inr (data_of E x)"
proof -
  have pr: "processed (de_deserialize E) (vector_bytes (de_vsz E) (de_dims E)) (de_points E) (take k ids) (length (take k ids)) p"
    using assms(1,2) by (simp add: dv_processed_def processed_def)
  have "length (take k ids) \<le> dv_max_batch_size p" using assms(1,2) by (simp add: dv_processed_def)
  moreover have "dv_ok (de_file E) (de_block_size E) (node_length (de_dims E * de_vsz E) (de_degree E) (de_alen E))
      (de_vsz E) (de_dims E) (de_alen E) p" using assms(1) by (simp add: dv_processed_def dv_serves_def)
  ultimately have get: "dv_get_vector x p = Inr (vector_of E x)" "dv_get_adjacency_list x p = Inr (neighbors_of E x)"
    "\<exists>ad. dv_get_associated_data x p = Inr ad \<and> de_deserialize E (snd (snd (de_points E ! unat x))) = Some ad"
    using processed_get [OF _ pr distinct_take [OF assms(3)] _ assms(4)] by (auto simp: vector_of_def neighbors_of_def)
  show "dv_get_vector x p = Inr (vector_of E x)" "dv_get_adjacency_list x p = Inr (neighbors_of E x)"
    "dv_get_associated_data x p = Inr (data_of E x)"
    using get by (auto simp: data_of_def)
qed

interpretation disk: vertex_provider dv_load_vertices dv_process_loaded_node dv_get_vector dv_get_adjacency_list
    dv_get_associated_data "\<lambda>p x. False" dv_serves
proof
  fix E :: "'a disk_env" and p ids
  assume s: "dv_serves E p" and b: "batch_ok (de_points E) ids"
  obtain p' where p': "dv_ensure (de_deserialize E) ids p = Inr p'" "dv_processed E ids (length ids) p'"
    using ensure_ok [of "de_file E" "de_block_size E" _ "de_vsz E" "de_dims E" "de_alen E" p "de_degree E" "de_points E"
        "de_deserialize E" ids] s b by (auto simp: dv_serves_def env_ok_def dv_processed_def)
  then show "\<exists>p'. dv_ensure (de_deserialize E) ids p = Inr p' \<and> dv_serves E p' \<and> (\<lambda>x :: 32 word. False) = (\<lambda>x. False)
        \<and> (\<forall>x\<in>set ids. dv_get_vector x p' = Inr (vector_of E x) \<and> dv_get_associated_data x p' = Inr (data_of E x)
             \<and> dv_get_adjacency_list x p' = Inr (served_list E False x))"
    using dv_processed_get [OF p'(2) order_refl] b by (auto simp: dv_processed_def batch_ok_def served_list_def)
qed

section \<open>The cached provider\<close>

text \<open>What is in the cache is right.\<close>

definition cache_serves :: "'a disk_env \<Rightarrow> 'a vertex_cache \<Rightarrow> bool" where
  "cache_serves E c \<longleftrightarrow>
     (\<forall>x. vc_contains x c \<longrightarrow> vc_get_vector x c = Inr (Some (vector_of E x))
        \<and> vc_get_adjacency_list x c = Inr (Some (from_iter_untrusted (neighbors_of E x)))
        \<and> vc_get_associated_data x c = Inr (Some (data_of E x)))"

definition cp_serves :: "'a disk_env \<Rightarrow> 'a cached_provider \<Rightarrow> bool" where
  "cp_serves E p \<longleftrightarrow> cache_serves E (cp_cache p) \<and> dv_serves E (cp_vector_provider p)"

lemma not_contained: "\<not> vc_contains x c \<Longrightarrow>
  vc_get_vector x c = Inr None \<and> vc_get_adjacency_list x c = Inr None \<and> vc_get_associated_data x c = Inr None"
  by (simp add: vc_contains_def vc_get_vector_def vc_get_adjacency_list_def vc_get_associated_data_def)

lemma filter_loop_eq:
  "\<exists>m'. filter_loop c (enumerate s ids) (m, us) = (m', us @ filter (\<lambda>x. \<not> vc_contains x c) ids)
     \<and> (\<forall>i < s. map_of m' i = map_of m i)
     \<and> (\<forall>j<length ids. \<not> vc_contains (ids ! j) c \<longrightarrow>
          map_of m' (s + j) = Some (length us + length (filter (\<lambda>x. \<not> vc_contains x c) (take j ids))))"
proof (induction ids arbitrary: s m us)
  case (Cons x ids)
  let ?u = "\<lambda>x. \<not> vc_contains x c"
  let ?m = "if vc_contains x c then m else AList.update s (length us) m" and ?us = "if vc_contains x c then us else us @ [x]"
  obtain m' where m': "filter_loop c (enumerate (Suc s) ids) (?m, ?us) = (m', ?us @ filter ?u ids)"
    "\<forall>i<Suc s. map_of m' i = map_of ?m i"
    "\<forall>j<length ids. ?u (ids ! j) \<longrightarrow> map_of m' (Suc s + j) = Some (length ?us + length (filter ?u (take j ids)))"
    using Cons.IH [of "Suc s" ?m ?us] by blast
  have "\<forall>i < s. map_of m' i = map_of m i" using m'(2) by (auto simp: update_conv')
  moreover have "map_of m' (s + j) = Some (length us + length (filter ?u (take j (x # ids))))"
    if "j < length (x # ids)" "?u ((x # ids) ! j)" for j
    using that m'(2,3) by (cases j) (auto simp: update_conv' split: if_splits)
  moreover have "filter_loop c (enumerate s (x # ids)) (m, us) = (m', us @ filter ?u (x # ids))"
    using m'(1) by (simp split: if_splits)
  ultimately show ?case by blast
qed simp

lemma cp_process_loop:
  assumes "\<forall>j<length ids. \<not> vc_contains (ids ! j) (cp_cache p) \<longrightarrow> map_of (cp_local_idx_to_filtered_idx p) (s + j)
      = Some (u + length (filter (\<lambda>x. \<not> vc_contains x (cp_cache p)) (take j ids)))"
  shows "rfold (\<lambda>(idx, id). cp_process_loaded_node des id idx) (enumerate s ids) p
    = rbind (rfold (\<lambda>(idx, id). dv_process_loaded_node des id idx)
               (enumerate u (filter (\<lambda>x. \<not> vc_contains x (cp_cache p)) ids)) (cp_vector_provider p))
        (\<lambda>vp. Inr (p\<lparr>cp_vector_provider := vp\<rparr>))"
  using assms
proof (induction ids arbitrary: s u p)
  case (Cons x ids)
  show ?case
  proof (cases "vc_contains x (cp_cache p)")
    case True
    have "\<forall>j<length ids. \<not> vc_contains (ids ! j) (cp_cache p) \<longrightarrow> map_of (cp_local_idx_to_filtered_idx p) (Suc s + j)
        = Some (u + length (filter (\<lambda>x. \<not> vc_contains x (cp_cache p)) (take j ids)))"
      using Cons.prems True by (auto dest: spec [of _ "Suc _"])
    from Cons.IH [OF this] True show ?thesis by (simp add: cp_process_loaded_node_def)
  next
    case False
    have h: "map_of (cp_local_idx_to_filtered_idx p) s = Some u" using Cons.prems False by (auto dest: spec [of _ 0])
    have t: "\<forall>j<length ids. \<not> vc_contains (ids ! j) (cp_cache p) \<longrightarrow> map_of (cp_local_idx_to_filtered_idx p) (Suc s + j)
        = Some (Suc u + length (filter (\<lambda>x. \<not> vc_contains x (cp_cache p)) (take j ids)))"
      using Cons.prems False by (auto dest: spec [of _ "Suc _"])
    show ?thesis
    proof (cases "dv_process_loaded_node des x u (cp_vector_provider p)")
      case (Inl e)
      then show ?thesis using False h by (simp add: cp_process_loaded_node_def)
    next
      case (Inr vp)
      then show ?thesis using False h Cons.IH [of "p\<lparr>cp_vector_provider := vp\<rparr>" "Suc s" "Suc u"] t
        by (simp add: cp_process_loaded_node_def)
    qed
  qed
qed simp

lemma cp_ensure_ok:
  assumes s: "cp_serves E p" and b: "batch_ok (de_points E) ids"
  shows "\<exists>p'. ensure_vertex_loaded cp_load_vertices (cp_process_loaded_node (de_deserialize E)) ids p = Inr p' \<and> cp_serves E p'
    \<and> cp_cache p' = cp_cache p
    \<and> (\<forall>x\<in>set ids. \<not> vc_contains x (cp_cache p) \<longrightarrow> dv_get_vector x (cp_vector_provider p') = Inr (vector_of E x)
         \<and> dv_get_associated_data x (cp_vector_provider p') = Inr (data_of E x)
         \<and> dv_get_adjacency_list x (cp_vector_provider p') = Inr (neighbors_of E x))"
proof -
  let ?unc = "filter (\<lambda>x. \<not> vc_contains x (cp_cache p)) ids"
  obtain m where m: "filter_loop (cp_cache p) (enumerate 0 ids) ([], []) = (m, ?unc)"
    "\<forall>j<length ids. \<not> vc_contains (ids ! j) (cp_cache p) \<longrightarrow>
       map_of m j = Some (length (filter (\<lambda>x. \<not> vc_contains x (cp_cache p)) (take j ids)))"
    using filter_loop_eq [of "cp_cache p" 0 ids "[]" "[]"] by auto
  let ?p = "p\<lparr>cp_vertices_loaded_count := cp_vertices_loaded_count p + of_nat (length ids),
    cp_local_idx_to_filtered_idx := m\<rparr>"
  have ld: "cp_load_vertices ids p = (if ?unc = [] then Inr ?p
      else rbind (dv_load_vertices ?unc (cp_vector_provider p)) (\<lambda>vp. Inr (?p\<lparr>cp_vector_provider := vp\<rparr>)))"
    using m(1) by (simp add: cp_load_vertices_def filter_cached_nodes_def cp_clear_before_next_read_def)
  have pl: "rfold (\<lambda>(idx, id). cp_process_loaded_node des id idx) (enumerate 0 ids) (?p\<lparr>cp_vector_provider := vp\<rparr>)
      = rbind (rfold (\<lambda>(idx, id). dv_process_loaded_node des id idx) (enumerate 0 ?unc) vp)
          (\<lambda>vp. Inr (?p\<lparr>cp_vector_provider := vp\<rparr>))" for des vp
    using cp_process_loop [of ids "?p\<lparr>cp_vector_provider := vp\<rparr>" 0 0 des] m(2) by simp
  show ?thesis
  proof (cases "?unc = []")
    case True
    have same: "?p\<lparr>cp_vector_provider := cp_vector_provider p\<rparr> = ?p" by simp
    have "ensure_vertex_loaded cp_load_vertices (cp_process_loaded_node (de_deserialize E)) ids p = Inr ?p"
      using pl [of "de_deserialize E" "cp_vector_provider p"] unfolding same
      by (simp add: ensure_vertex_loaded_def ld True)
    then show ?thesis using True s by (intro exI [of _ ?p]) (auto simp: cp_serves_def filter_empty_conv)
  next
    case False
    have bu: "batch_ok (de_points E) ?unc" using b by (simp add: batch_ok_def)
    have sv: "dv_serves E (cp_vector_provider p)" using s by (simp add: cp_serves_def)
    obtain vp where vp: "dv_ensure (de_deserialize E) ?unc (cp_vector_provider p) = Inr vp" "dv_serves E vp"
      "\<forall>x\<in>set ?unc. dv_get_vector x vp = Inr (vector_of E x) \<and> dv_get_associated_data x vp = Inr (data_of E x)
         \<and> dv_get_adjacency_list x vp = Inr (neighbors_of E x)"
      using disk.ensure_law [OF sv bu] by (auto simp: served_list_def)
    then obtain vp1 where vp1: "dv_load_vertices ?unc (cp_vector_provider p) = Inr vp1"
      "rfold (\<lambda>(idx, id). dv_process_loaded_node (de_deserialize E) id idx) (enumerate 0 ?unc) vp1 = Inr vp"
      by (auto simp: ensure_vertex_loaded_def rbind_eq_Inr_iff)
    have "ensure_vertex_loaded cp_load_vertices (cp_process_loaded_node (de_deserialize E)) ids p
        = Inr (?p\<lparr>cp_vector_provider := vp\<rparr>)"
      using False vp1 pl [of "de_deserialize E" vp1] by (simp add: ensure_vertex_loaded_def ld)
    then show ?thesis using vp(2,3) s by (intro exI [of _ "?p\<lparr>cp_vector_provider := vp\<rparr>"]) (simp add: cp_serves_def)
  qed
qed

interpretation caching: vertex_provider cp_load_vertices cp_process_loaded_node cp_get_vector cp_get_adjacency_list
    cp_get_associated_data "\<lambda>p x. vc_contains x (cp_cache p)" cp_serves
proof
  fix E :: "'a disk_env" and p ids
  assume s: "cp_serves E p" and b: "batch_ok (de_points E) ids"
  obtain p' where p': "ensure_vertex_loaded cp_load_vertices (cp_process_loaded_node (de_deserialize E)) ids p = Inr p'"
    "cp_serves E p'" "cp_cache p' = cp_cache p"
    and g: "\<forall>x\<in>set ids. \<not> vc_contains x (cp_cache p) \<longrightarrow> dv_get_vector x (cp_vector_provider p') = Inr (vector_of E x)
         \<and> dv_get_associated_data x (cp_vector_provider p') = Inr (data_of E x)
         \<and> dv_get_adjacency_list x (cp_vector_provider p') = Inr (neighbors_of E x)"
    using cp_ensure_ok [OF s b] by (elim exE conjE)
  have "cp_get_vector x p' = Inr (vector_of E x) \<and> cp_get_associated_data x p' = Inr (data_of E x)
      \<and> cp_get_adjacency_list x p' = Inr (served_list E (vc_contains x (cp_cache p)) x)" if "x \<in> set ids" for x
  proof (cases "vc_contains x (cp_cache p)")
    case True
    then show ?thesis using s p'(3) 
      by (auto simp: served_list_def from_iter_untrusted_eq cp_serves_def cache_serves_def cp_get_vector_def cp_get_adjacency_list_def cp_get_associated_data_def)
  next
    case False
    then show ?thesis using g that p'(3) not_contained [OF False]
      by (simp add: served_list_def cp_get_vector_def cp_get_adjacency_list_def cp_get_associated_data_def)
  qed
  with p' show "\<exists>p'. ensure_vertex_loaded cp_load_vertices (cp_process_loaded_node (de_deserialize E)) ids p = Inr p' \<and> cp_serves E p'
        \<and> (\<lambda>x. vc_contains x (cp_cache p')) = (\<lambda>x. vc_contains x (cp_cache p))
        \<and> (\<forall>x\<in>set ids. cp_get_vector x p' = Inr (vector_of E x) \<and> cp_get_associated_data x p' = Inr (data_of E x)
             \<and> cp_get_adjacency_list x p' = Inr (served_list E (vc_contains x (cp_cache p)) x))" by metis
qed

section \<open>Filling the cache\<close>

text \<open>The cache holds the vertices \<open>ks\<close>, in the order of their insertion.\<close>

definition cache_ok :: "'a disk_env \<Rightarrow> nat \<Rightarrow> 32 word list \<Rightarrow> 'a vertex_cache \<Rightarrow> bool" where
  "cache_ok E cap ks c \<longleftrightarrow> distinct ks \<and> vc_mapping c = map (\<lambda>j. (ks ! j, j)) [0..<length ks]
     \<and> vc_dimension c * vc_element_size c = vector_bytes (de_vsz E) (de_dims E) \<and> vc_capacity c = cap
     \<and> length (vc_vectors c) = cap * vector_bytes (de_vsz E) (de_dims E)
     \<and> vc_adjacency_lists c = map (\<lambda>k. from_iter_untrusted (neighbors_of E k)) ks
     \<and> vc_associated_data c = map (data_of E) ks
     \<and> (\<forall>j<length ks. slot (vector_bytes (de_vsz E) (de_dims E)) j (vc_vectors c) = vector_of E (ks ! j))"

lemma cache_ok_mapping:
  assumes "cache_ok E cap ks c"
  shows "map_of (vc_mapping c) x = Some j \<longleftrightarrow> j < length ks \<and> x = ks ! j" "vc_contains x c \<longleftrightarrow> x \<in> set ks" "vc_len c = length ks"
proof -
  let ?m = "map (\<lambda>j. (ks ! j, j)) [0..<length ks]"
  have "map fst ?m = ks" by (simp add: comp_def map_nth)
  then have d: "distinct (map fst ?m)" using assms by (simp add: cache_ok_def)
  show "map_of (vc_mapping c) x = Some j \<longleftrightarrow> j < length ks \<and> x = ks ! j"
    using map_of_eq_Some_iff [OF d, of x j] assms by (auto simp: cache_ok_def)
  show "vc_contains x c \<longleftrightarrow> x \<in> set ks"
    using assms by (auto simp: cache_ok_def vc_contains_def map_of_eq_None_iff image_def in_set_conv_nth)
  show "vc_len c = length ks" using assms by (simp add: cache_ok_def vc_len_def)
qed

lemma cache_ok_serves:
  assumes ok: "cache_ok E cap ks c" and cap: "length ks \<le> cap"
  shows "cache_serves E c"
proof (unfold cache_serves_def, intro allI impI)
  fix x
  assume "vc_contains x c"
  then obtain j where j: "j < length ks" "x = ks ! j" using cache_ok_mapping(2) [OF ok] by (auto simp: in_set_conv_nth)
  then have m: "map_of (vc_mapping c) x = Some j" using cache_ok_mapping(1) [OF ok] by blast
  have "j < cap" using j(1) cap by simp
  from slot_end [OF this] show "vc_get_vector x c = Inr (Some (vector_of E x))
        \<and> vc_get_adjacency_list x c = Inr (Some (from_iter_untrusted (neighbors_of E x)))
        \<and> vc_get_associated_data x c = Inr (Some (data_of E x))"
    using m j ok by (auto simp: vc_get_vector_def vc_get_adjacency_list_def vc_get_associated_data_def cache_ok_def
        get_slice_def slot_def Let_def add.commute)
qed

lemma cache_insert_ok:
  assumes ok: "cache_ok E cap ks c" and x: "x \<notin> set ks" and cap: "length ks < cap"
    and v: "length (vector_of E x) = vector_bytes (de_vsz E) (de_dims E)"
  shows "\<exists>c'. vc_insert x (vector_of E x) (from_iter_untrusted (neighbors_of E x)) (data_of E x) c = Inr c'
    \<and> cache_ok E cap (ks @ [x]) c'"
proof -
  let ?len = "vector_bytes (de_vsz E) (de_dims E)" and ?n = "length ks"
  have bl: "length (vc_vectors c) = cap * ?len" and dl: "vc_dimension c * vc_element_size c = ?len" "vc_capacity c = cap"
    using ok by (simp_all add: cache_ok_def)
  obtain buf' where b': "put_slice (vc_vectors c) (?n * ?len) (vector_of E x) = Inr buf'" "length buf' = length (vc_vectors c)"
    "\<forall>j. slot ?len j buf' = (if j = ?n then vector_of E x @ drop (length (vector_of E x)) (slot ?len ?n (vc_vectors c))
       else slot ?len j (vc_vectors c))"
    by (rule put_slice_slot [OF bl cap, of "vector_of E x"]) (simp_all add: v)
  have ls: "length (slot ?len ?n (vc_vectors c)) = ?len" using slot_end [OF cap, of ?len] by (simp add: slot_def bl)
  have none: "map_of (vc_mapping c) x = None" using cache_ok_mapping(2) [OF ok, of x] x by (simp add: vc_contains_def)
  then have upd: "AList.update x ?n (vc_mapping c) = vc_mapping c @ [(x, ?n)]" by (intro update_new) (simp add: map_of_eq_None_iff)
  have sc: "slice_check (?n * ?len) ((?n + 1) * ?len) (vc_vectors c) = Inr ()"
    using slot_end [OF cap, of ?len] by (simp add: slice_check_def bl)
  let ?c = "c\<lparr>vc_mapping := vc_mapping c @ [(x, ?n)], vc_vectors := buf',
    vc_adjacency_lists := vc_adjacency_lists c @ [from_iter_untrusted (neighbors_of E x)],
    vc_associated_data := vc_associated_data c @ [data_of E x]\<rparr>"
  have "vc_insert x (vector_of E x) (from_iter_untrusted (neighbors_of E x)) (data_of E x) c = Inr ?c"
    using none cap v sc b'(1) upd by (simp add: vc_insert_def copy_to_cache_def dl cache_ok_mapping(3) [OF ok] Let_def)
  moreover have "cache_ok E cap (ks @ [x]) ?c"
    using ok x b'(2,3) v ls by (auto simp: cache_ok_def nth_append less_Suc_eq)
  ultimately show ?thesis by blast
qed

text \<open>What can be reached from a vertex.\<close>

definition reach :: "'a disk_env \<Rightarrow> 32 word \<Rightarrow> 32 word set" where
  "reach E start = {x. (\<lambda>x y. y \<in> set (neighbors_of E x))\<^sup>*\<^sup>* start x}"

lemma reach_refl: "start \<in> reach E start"
  by (simp add: reach_def)

lemma reach_step: "x \<in> reach E start \<Longrightarrow> set (neighbors_of E x) \<subseteq> reach E start"
  by (auto simp: reach_def intro: rtranclp.rtrancl_into_rtrancl)

lemma reach_least:
  assumes "start \<in> S" "\<forall>x\<in>S. set (neighbors_of E x) \<subseteq> S"
  shows "reach E start \<subseteq> S"
proof
  fix x
  assume "x \<in> reach E start"
  then have "(\<lambda>x y. y \<in> set (neighbors_of E x))\<^sup>*\<^sup>* start x" by (simp add: reach_def)
  then show "x \<in> S" using assms by (induction rule: rtranclp_induct) auto
qed

text \<open>The state of the walk: the cached vertices \<open>ks\<close>, and the vertices that are still to come.\<close>

definition bfs_inv ::
  "'a disk_env \<Rightarrow> 32 word \<Rightarrow> nat \<Rightarrow> 32 word list \<Rightarrow> 32 word list \<Rightarrow> 32 word list \<Rightarrow> 'a vertex_cache \<Rightarrow> bool" where
  "bfs_inv E start num ks visited pending c \<longleftrightarrow>
     cache_ok E num ks c \<and> length ks \<le> num \<and> distinct (ks @ pending) \<and> set visited = set ks \<union> set pending
     \<and> start \<in> set visited \<and> set visited \<subseteq> reach E start \<and> (\<forall>k\<in>set ks. set (neighbors_of E k) \<subseteq> set visited)"

lemma fold_bfs_visit:
  "\<exists>new. fold bfs_visit l (visited, queue) = (visited @ new, queue @ new) \<and> distinct new \<and> set new = set l - set visited"
proof (induction l arbitrary: visited queue)
  case (Cons x l)
  show ?case
  proof (cases "x \<in> set visited")
    case True
    then show ?thesis using Cons.IH [of visited queue] by (auto simp: bfs_visit_def)
  next
    case False
    obtain new where new: "fold bfs_visit l (visited @ [x], queue @ [x]) = ((visited @ [x]) @ new, (queue @ [x]) @ new)"
      "distinct new" "set new = set l - set (visited @ [x])" using Cons.IH [of "visited @ [x]" "queue @ [x]"] by blast
    have "fold bfs_visit (x # l) (visited, queue) = (visited @ x # new, queue @ x # new)"
      using new(1) False by (simp add: bfs_visit_def)
    moreover have "distinct (x # new)" "set (x # new) = set (x # l) - set visited" using new(2,3) False by auto
    ultimately show ?thesis by blast
  qed
qed simp

lemma bfs_node_ok:
  assumes inv: "bfs_inv E start num ks visited ((node # rest) @ queue) c" and room: "length ks < num"
    and pr: "dv_processed E ids k vp" and k: "k < length ids" "ids ! k = node" and b: "batch_ok (de_points E) ids"
    and nd: "node_disk_buf k node (dv_sector_graph vp) = Inr (node_image (de_degree E) (de_points E ! unat node))"
  shows "\<exists>vp' c' new. insert_in_cache (de_deserialize E) node k vp c = Inr (vp', c') \<and> dv_processed E ids (Suc k) vp'
    \<and> dv_sector_graph vp' = dv_sector_graph vp
    \<and> vc_get_adjacency_list node c' = Inr (Some (from_iter_untrusted (neighbors_of E node)))
    \<and> fold bfs_visit (from_iter_untrusted (neighbors_of E node)) (visited, queue) = (visited @ new, queue @ new)
    \<and> bfs_inv E start num (ks @ [node]) (visited @ new) (rest @ queue @ new) c' \<and> vc_len c' = Suc (length ks)"
proof -
  have di: "distinct ids" and rng: "unat (ids ! k) < length (de_points E)" using b k(1) by (simp_all add: batch_ok_def)
  have env: "env_ok E" using pr by (simp add: dv_processed_def dv_serves_def)
  have pk: "dv_process_loaded_node (de_deserialize E) (ids ! k) k vp = Inr vp' \<and> dv_processed E ids (Suc k) vp'
      \<and> dv_sector_graph vp' = dv_sector_graph vp \<Longrightarrow> ?thesis" for vp'
  proof -
    assume vp': "dv_process_loaded_node (de_deserialize E) (ids ! k) k vp = Inr vp' \<and> dv_processed E ids (Suc k) vp'
      \<and> dv_sector_graph vp' = dv_sector_graph vp"
    have "node \<in> set (take (Suc k) ids)" using k by (auto simp: take_Suc_conv_app_nth)
    note get = dv_processed_get [OF conjunct1 [OF conjunct2 [OF vp']] Suc_leI [OF k(1)] di this]
    have ok: "cache_ok E num ks c" and nk: "node \<notin> set ks" using inv by (auto simp: bfs_inv_def)
    have "length (fst (de_points E ! unat node)) \<le> vector_bytes (de_vsz E) (de_dims E)"
    proof -
      have "point_ok (de_dims E * de_vsz E) (de_degree E) (de_alen E) (de_points E ! unat node)"
        using env rng k(2) by (auto simp: env_ok_def nodes_at_def)
      moreover have "de_dims E * de_vsz E \<le> div_ceil (de_dims E) 8 * 8 * de_vsz E" by (intro mult_le_mono1 div_ceil_ge) simp
      ultimately show ?thesis by (auto simp: point_ok_def vector_bytes_def split: prod.splits)
    qed
    then have "length (vector_of E node) = vector_bytes (de_vsz E) (de_dims E)" unfolding vector_of_def by (rule length_padded)
    from cache_insert_ok [OF ok nk room this] obtain c' where
      c': "vc_insert node (vector_of E node) (from_iter_untrusted (neighbors_of E node)) (data_of E node) c = Inr c'"
      "cache_ok E num (ks @ [node]) c'" by blast
    have "cache_serves E c'" using cache_ok_serves [OF c'(2)] room by simp
    then have adj: "vc_get_adjacency_list node c' = Inr (Some (from_iter_untrusted (neighbors_of E node)))"
      using cache_ok_mapping(2) [OF c'(2), of node] by (simp add: cache_serves_def)
    obtain new where new: "fold bfs_visit (from_iter_untrusted (neighbors_of E node)) (visited, queue) = (visited @ new, queue @ new)"
      "distinct new" "set new = set (neighbors_of E node) - set visited"
      using fold_bfs_visit [of "from_iter_untrusted (neighbors_of E node)" visited queue]
        from_iter_untrusted_props(2) [of "neighbors_of E node"] by auto
    have "node \<in> reach E start" using inv by (auto simp: bfs_inv_def)
    note reach_step [OF this]
    moreover have i: "distinct (ks @ (node # rest) @ queue)" "set visited = set ks \<union> set ((node # rest) @ queue)"
      "start \<in> set visited" "set visited \<subseteq> reach E start" "\<forall>k\<in>set ks. set (neighbors_of E k) \<subseteq> set visited"
      using inv unfolding bfs_inv_def by blast+
    ultimately have "set (visited @ new) \<subseteq> reach E start" using new(3) by auto
    moreover have "distinct ((ks @ [node]) @ rest @ queue @ new)" "set (visited @ new) = set (ks @ [node]) \<union> set (rest @ queue @ new)"
      using i(1,2) new(2,3) by auto
    moreover have "\<forall>k\<in>set (ks @ [node]). set (neighbors_of E k) \<subseteq> set (visited @ new)" using i(5) new(3) by auto
    moreover have "start \<in> set (visited @ new)" "length (ks @ [node]) \<le> num" using i(3) room by simp_all
    ultimately have "bfs_inv E start num (ks @ [node]) (visited @ new) (rest @ queue @ new) c'"
      using c'(2) unfolding bfs_inv_def by (intro conjI)
    with vp' get c'(1) adj new(1) cache_ok_mapping(3) [OF c'(2)] k(2) show ?thesis
      by (intro exI [of _ vp'] exI [of _ c'] exI [of _ new]) (simp add: insert_in_cache_def)
  qed
  show ?thesis
    using process_ok [of "de_file E" "de_block_size E" "node_length (de_dims E * de_vsz E) (de_degree E) (de_alen E)" "de_vsz E"
        "de_dims E" "de_alen E" vp "de_degree E" "de_points E" k ids "de_deserialize E"] pr env k di rng nd pk
    by (auto simp: dv_processed_def dv_serves_def env_ok_def)
qed

lemma bfs_nodes_ok:
  assumes "bfs_inv E start num ks visited (rest @ queue) c" "length ks < num"
    "dv_processed E ids k vp" "ids = pre @ rest" "length pre = k" "batch_ok (de_points E) ids"
    "\<forall>j<length ids. node_disk_buf j (ids ! j) (dv_sector_graph vp) = Inr (node_image (de_degree E) (de_points E ! unat (ids ! j)))"
  shows "\<exists>vp' c' ks' visited' queue'. bfs_nodes (de_deserialize E) num (enumerate k rest) (vp, c, visited, queue)
      = Inr (vp', c', visited', queue') \<and> dv_serves E vp'
    \<and> (if length ks' = num then \<exists>pending. bfs_inv E start num ks' visited' pending c'
       else bfs_inv E start num ks' visited' queue' c')"
  using assms
proof (induction rest arbitrary: ks visited queue c k vp pre)
  case Nil
  then show ?case by (auto simp: dv_processed_def)
next
  case (Cons node rest)
  have k: "k < length ids" "ids ! k = node" using Cons.prems(4,5) by auto
  obtain vp1 c1 new where s: "insert_in_cache (de_deserialize E) node k vp c = Inr (vp1, c1)" "dv_processed E ids (Suc k) vp1"
    "dv_sector_graph vp1 = dv_sector_graph vp"
    "vc_get_adjacency_list node c1 = Inr (Some (from_iter_untrusted (neighbors_of E node)))"
    "fold bfs_visit (from_iter_untrusted (neighbors_of E node)) (visited, queue) = (visited @ new, queue @ new)"
    "bfs_inv E start num (ks @ [node]) (visited @ new) (rest @ queue @ new) c1" "vc_len c1 = Suc (length ks)"
    using bfs_node_ok [OF Cons.prems(1,2,3) k Cons.prems(6)] Cons.prems(7) k by metis
  show ?case
  proof (cases "num \<le> Suc (length ks)")
    case True
    then have "length (ks @ [node]) = num" using Cons.prems(2) by simp
    moreover have "bfs_nodes (de_deserialize E) num (enumerate k (node # rest)) (vp, c, visited, queue)
        = Inr (vp1, c1, visited @ new, queue @ new)" using True s(1,4,5,7) by simp
    ultimately show ?thesis using s(2,6) by (metis dv_processed_def)
  next
    case False
    have "bfs_nodes (de_deserialize E) num (enumerate k (node # rest)) (vp, c, visited, queue)
        = bfs_nodes (de_deserialize E) num (enumerate (Suc k) rest) (vp1, c1, visited @ new, queue @ new)"
      using False s(1,4,5,7) by simp
    moreover have "length (ks @ [node]) < num" using False by simp
    note Cons.IH [OF _ this s(2), of "visited @ new" "queue @ new" c1 "pre @ [node]"]
    ultimately show ?thesis using s(3,6) Cons.prems(4-7) by simp
  qed
qed

text \<open>At the end the cache is full, or it holds what can be reached.\<close>

definition bfs_result :: "'a disk_env \<Rightarrow> 32 word \<Rightarrow> nat \<Rightarrow> 'a vertex_cache \<Rightarrow> bool" where
  "bfs_result E start num c \<longleftrightarrow>
     (\<exists>ks. cache_ok E num ks c \<and> set ks \<subseteq> reach E start \<and> length ks \<le> num \<and> (length ks = num \<or> set ks = reach E start))"

lemma bfs_inv_result:
  assumes "bfs_inv E start num ks visited pending c" "length ks = num \<or> pending = []"
  shows "bfs_result E start num c"
proof -
  have i: "cache_ok E num ks c" "length ks \<le> num" "set visited = set ks \<union> set pending" "start \<in> set visited"
    "set visited \<subseteq> reach E start" "\<forall>k\<in>set ks. set (neighbors_of E k) \<subseteq> set visited"
    using assms(1) unfolding bfs_inv_def by blast+
  have "set ks = reach E start" if "pending = []" using that reach_least [of start "set ks" E] i by auto
  with assms(2) i show ?thesis unfolding bfs_result_def by blast
qed

lemma bfs_loop_ok:
  assumes "bfs_inv E start num ks visited queue c" "dv_serves E vp" "\<forall>x\<in>reach E start. unat x < length (de_points E)"
  shows "\<exists>c'. bfs_loop (de_deserialize E) num vp c visited queue = Inr c' \<and> bfs_result E start num c'"
  using assms
proof (induction "2 * card (- set visited) + length queue" arbitrary: ks visited queue c vp rule: less_induct)
  case less
  have len: "vc_len c = length ks" and le: "length ks \<le> num" using less.prems(1) cache_ok_mapping(3) by (auto simp: bfs_inv_def)
  show ?case
  proof (cases "queue \<noteq> [] \<and> length ks < num")
    case False
    then have "bfs_loop (de_deserialize E) num vp c visited queue = Inr c" by (subst bfs_loop.simps) (auto simp: len)
    moreover have "length ks = num \<or> queue = []" using False le by auto
    ultimately show ?thesis using bfs_inv_result [OF less.prems(1)] by simp
  next
    case True
    define b where "b = min (length queue) BEAM_WIDTH_FOR_BFS"
    let ?ids = "take b queue"
    have b0: "0 < b" using True by (simp add: b_def BEAM_WIDTH_FOR_BFS_def)
    have q: "distinct queue" "set queue \<subseteq> reach E start" using less.prems(1) by (auto simp: bfs_inv_def)
    have bt: "batch_ok (de_points E) ?ids" using q less.prems(3) by (auto simp: batch_ok_def dest!: in_set_takeD)
    then have rng: "\<forall>x\<in>set ?ids. unat x < length (de_points E)" by (simp add: batch_ok_def)
    obtain vp1 where vp1: "dv_load_vertices ?ids vp = Inr vp1" "dv_processed E ?ids 0 vp1"
      and nd: "\<forall>j<length ?ids. node_disk_buf j (?ids ! j) (dv_sector_graph vp1)
          = Inr (node_image (de_degree E) (de_points E ! unat (?ids ! j)))"
      using dv_load_vertices_ok [OF _ _ _ _ refl rng, of "de_file E" "de_block_size E" "de_dims E" "de_vsz E" "de_degree E" "de_alen E" vp]
        less.prems(2) by (auto simp: dv_serves_def env_ok_def dv_processed_def processed_def)
    have iq: "bfs_inv E start num ks visited (?ids @ drop b queue) c" using less.prems(1) by simp
    obtain vp' c' ks' visited' queue' where r: "bfs_nodes (de_deserialize E) num (enumerate 0 ?ids) (vp1, c, visited, drop b queue)
        = Inr (vp', c', visited', queue')" "dv_serves E vp'"
      and i': "if length ks' = num then \<exists>pending. bfs_inv E start num ks' visited' pending c' else bfs_inv E start num ks' visited' queue' c'"
      using bfs_nodes_ok [OF iq _ vp1(2) _ _ bt nd, of "[]"] True by auto
    have step: "bfs_loop (de_deserialize E) num vp c visited queue = bfs_loop (de_deserialize E) num vp' c' visited' queue'"
      using True vp1(1) r(1) by (subst bfs_loop.simps) (simp add: len b_def [symmetric])
    show ?thesis
    proof (cases "length ks' = num")
      case full: True
      then obtain pending where p: "bfs_inv E start num ks' visited' pending c'" using i' by auto
      then have "vc_len c' = num" using full cache_ok_mapping(3) by (auto simp: bfs_inv_def)
      then have "bfs_loop (de_deserialize E) num vp' c' visited' queue' = Inr c'" by (subst bfs_loop.simps) simp
      with step bfs_inv_result [OF p] full show ?thesis by simp
    next
      case False
      have "2 * card (- set visited') + length queue' < 2 * card (- set visited) + length queue"
      proof -
        have "length (drop b queue) < length queue" using b0 True by (cases queue) simp_all
        then show ?thesis using bfs_nodes_measure [OF r(1)] by linarith
      qed
      from less.hyps [OF this _ r(2) less.prems(3)] i' False step show ?thesis by simp
    qed
  qed
qed

section \<open>Properties\<close>

definition index_env ::
  "nat \<Rightarrow> nat \<Rightarrow> nat \<Rightarrow> nat \<Rightarrow> nat \<Rightarrow> (byte list \<Rightarrow> 'a option) \<Rightarrow> point list \<Rightarrow> byte list \<Rightarrow> 'a disk_env" where
  "index_env vsz block_size dims d alen deserialize ps index =
     \<lparr>de_file = index, de_block_size = block_size, de_vsz = vsz, de_dims = dims, de_degree = d, de_alen = alen,
      de_deserialize = deserialize, de_points = ps\<rparr>"

lemma reach_in_range:
  assumes "\<forall>p\<in>set (de_points E). \<forall>x\<in>set (fst (snd p)). unat x < length (de_points E)" "unat start < length (de_points E)"
  shows "\<forall>x\<in>reach E start. unat x < length (de_points E)"
proof -
  have "\<forall>x\<in>{x. unat x < length (de_points E)}. set (neighbors_of E x) \<subseteq> {x. unat x < length (de_points E)}"
    using assms(1) by (auto simp: neighbors_of_def)
  with reach_least [of start "{x. unat x < length (de_points E)}" E] assms(2) show ?thesis by auto
qed

lemma dv_new_serves:
  assumes "env_ok E" "h = layout_header (de_block_size E) (de_dims E * de_vsz E) (de_dims E) (de_degree E) medoid frozen (de_alen E) n"
  shows "\<exists>p. dv_new (de_vsz E) h m (de_file E) = Inr p \<and> dv_serves E p"
  using dv_new_ok [OF assms(2), of m "de_file E"] assms(1) by (auto simp: dv_serves_def env_ok_def)

lemma build_cache_ok:
  assumes env: "env_ok E"
    and h: "h = layout_header (de_block_size E) (de_dims E * de_vsz E) (de_dims E) (de_degree E) medoid frozen (de_alen E) n"
    and hd: "get_header (de_file E) = Inr h" and rng: "\<forall>x\<in>reach E start. unat x < length (de_points E)"
  shows "\<exists>c. build_cache_via_bfs (de_vsz E) (de_deserialize E) (de_file E) start num (div_ceil (de_dims E) 8 * 8) = Inr c
    \<and> bfs_result E start num c"
proof -
  obtain vp where vp: "dv_new (de_vsz E) h BEAM_WIDTH_FOR_BFS (de_file E) = Inr vp" "dv_serves E vp"
    using dv_new_serves [OF env h] by blast
  obtain c0 :: "'a vertex_cache" where c0: "vc_new (de_vsz E) (div_ceil (de_dims E) 8 * 8) num = Inr c0" "cache_ok E num [] c0"
    using aligned_32 by (simp add: vc_new_def aligned_box_new_def cache_ok_def vector_bytes_def)
  have "bfs_inv E start num [] [start] [start] c0" using c0(2) by (simp add: bfs_inv_def reach_refl)
  from bfs_loop_ok [OF this vp(2) rng] vp(1) c0(1) hd show ?thesis by (simp add: build_cache_via_bfs_def)
qed

lemma bfs_result_serves: "bfs_result E start num c \<Longrightarrow> cache_serves E c"
  using cache_ok_serves by (auto simp: bfs_result_def)



text \<open>Inserting a vertex that is already in the cache does not update it, although the code says so: the
  new list is appended, the vertex keeps its old list, and the next vertex to be inserted gets the
  list that was meant for the update.\<close>

theorem cache_update_appends:
  "\<exists>c0 c1 c2 c3. vc_new 4 0 3 = Inr c0 \<and> vc_insert 1 [] [2] () c0 = Inr c1 \<and> vc_insert 1 [] [3] () c1 = Inr c2
    \<and> vc_get_adjacency_list 1 c2 = Inr (Some [2]) \<and> vc_insert 4 [] [5] () c2 = Inr c3
    \<and> vc_get_adjacency_list 4 c3 = Inr (Some [3])"
  using aligned_32
  by (simp add: vc_new_def aligned_box_new_def vc_insert_def copy_to_cache_def vc_len_def slice_check_def put_slice_def
      vc_get_adjacency_list_def)

end
