(* ===== verification/Spec2Isabelle.thy ===== *)
theory Spec2Isabelle
  imports Graph_Search Output_Buffer Backedge Prune Graph_File Index_Multi_Insert Index_Delete Graph_Analysis Garnet_Provider
    Diverse_Search Multihop_Search Paged_Search Index_Multi_Delete Disk_Cache_Correct
begin

text \<open>
  A verification library for the graph index of DiskANN: the Rust crates \<open>diskann\<close>,
  \<open>diskann-providers\<close>, \<open>diskann-vector\<close>, \<open>diskann-disk\<close> and \<open>diskann-garnet\<close> under \<open>src/DiskANN\<close>.

  \<^bold>\<open>The program.\<close> The index is a directed graph over vectors with bounded out-degree.  A greedy search
  walks it from the starting points and keeps the best candidates in a bounded priority queue.  An
  insertion searches for the new vector, prunes the visited candidates to its out-neighbors, and adds
  reverse edges; a batch does so for many vectors and applies the reverse edges afterwards; a deletion
  reconnects the in-neighbors of the deleted vector.  A data provider stores vectors and adjacency lists:
  in memory, or in the key-value store of a host.  A graph can be saved to and loaded from a file, and laid out
  with its vectors as a disk index from which vertices are read in batches.

  \<^bold>\<open>The theories\<close> and the sources they translate:

  \<^item> \<open>Prelude\<close>: results of fallible operations, vectors, iteration over maps; \<open>Bytes\<close>: integers as bytes;
    \<open>F32\<close>: the values of \<open>f32\<close> with infinities and NaN (the two zeros are one value), their order, and arithmetic that
    rounds the exact result to the nearest value, ties to even.
  \<^item> \<open>Neighbor\<close>, \<open>Neighbor_Queue\<close> (\<open>diskann/src/neighbor/mod.rs\<close>, \<open>queue.rs\<close>): candidates and the priority
    queue, a record of two vectors with a size and a cursor; invariant, refinement of sorted insertion, the \<open>l\<close>
    best of what was inserted, the cursor.  The interface of a queue is the locale the search is proved in.
  \<^item> \<open>Contains_Simd\<close> (\<open>diskann-vector/src/contains.rs\<close>), \<open>Adjacency_List\<close>, \<open>Backedge\<close>, \<open>Output_Buffer\<close>,
    \<open>Graph_Config\<close> (\<open>diskann/src/graph\<close>): membership tests, edge lists, buffers of reverse edges, result buffers, build
    parameters.
  \<^item> \<open>Prune\<close> (\<open>graph/index.rs\<close>, \<open>occlude_list\<close> and \<open>robust_prune\<close>): the pruning loop with its alphas; degree bound,
    separation of the kept candidates, the closest candidate is kept, and the cases where the loop does not end.
  \<^item> \<open>Ranked_Error\<close>, \<open>Graph_Search\<close> (\<open>search_internal\<close>): the search loop over any queue and any accessor; it ends, and
    what it returns is a local optimum of the explored part of the graph.
  \<^item> \<open>Range_Search\<close>, \<open>Paged_Search\<close>, \<open>Multihop_Search\<close> (\<open>graph/search\<close>, \<open>graph/index.rs\<close>): the searches built on the greedy one.  A range
    search returns what it can explore within the radius; the pages of a paged search are distinct and exhaust what can be reached; a
    label-filtered search returns starting points and matches, and no closer match next to them is missing.
  \<^item> \<open>Diverse_Spec\<close>, \<open>Diverse_Queue\<close>, \<open>Diverse_Refine\<close>, \<open>Diverse_Search\<close> (\<open>neighbor/diverse_priority_queue.rs\<close>, \<open>graph/search/diverse_search.rs\<close>): a
    selection of candidates with a bound per attribute on sorted lists, the queues that compute it, the proof that they do when distances
    differ, and the search whose results are the selection of all it visited.
  \<^item> \<open>Neighbor_Provider\<close> (\<open>SimpleNeighborProviderAsync\<close> and the aligned store): rows in one vector; the contract of a
    neighbor accessor is a locale that this provider and the one of \<open>Garnet_Provider\<close> interpret.
  \<^item> \<open>Graph_File\<close> (\<open>diskann-providers/src/storage/bin.rs\<close>): saving and loading, byte for byte.
  \<^item> \<open>Cached_Io\<close>, \<open>Disk_Header\<close>, \<open>Disk_Writer\<close>, \<open>Disk_Layout\<close>, \<open>Disk_Graph\<close>, \<open>Disk_Roundtrip\<close>, \<open>Disk_Cache\<close>,
    \<open>Disk_Cache_Correct\<close> (\<open>diskann-disk/src/storage\<close>, \<open>data_model\<close>, \<open>search/provider\<close>): cached files, whose readers interpret the locale of a source of bytes; the header; the writer of
    the disk index and the exact bytes of the file it makes; sectors and vertices read back, and that they are what
    was written; the cache filled by a breadth-first walk.  The interface of a vertex provider is a locale that the provider
    on the disk and the one with the cache interpret.
  \<^item> \<open>Index_Update\<close>, \<open>Index_Insert\<close>, \<open>Index_Multi_Insert\<close>, \<open>Index_Delete\<close>, \<open>Index_Multi_Delete\<close>, \<open>Graph_Analysis\<close> (\<open>graph/index.rs\<close>): the
    operations that change the graph, as state and error passing functions, with Hoare triples over the graph; degree bounds and
    membership are kept, new vectors are linked, deleted ones are no longer referenced; reachability and degrees.
  \<^item> \<open>Async_Tools\<close> (\<open>utils/async_tools.rs\<close>): the division of work among tasks; the balancer is a transition system with
    all interleavings of its atomic operations.
  \<^item> \<open>Garnet_Store\<close>, \<open>Free_Space_Map\<close>, \<open>Garnet_Provider\<close> (\<open>diskann-garnet/src\<close>): the host's store with its laws as a
    locale, the allocation of identifiers in bit maps with its recovery after a restart, and the provider on top of both.

  \<^bold>\<open>How the parts rest on each other.\<close> The search is proved over the interface of a queue and over an accessor that gives
  neighbors and vectors; insertion and deletion use the search, the pruning and the graph operations of a
  neighbor accessor.  What is not under \<open>src\<close> or is numerical is a parameter: distances, the accessors'
  behaviour on errors, the iteration order of hash maps and the interleaving of tasks, the functions of the
  Garnet host.

  \<^bold>\<open>Loops.\<close> Loops with a structural bound are recursive functions.  The loops of the greedy, the range and the label-filtered search, the alpha loop of the pruning and the
  two loops of \<open>next_id\<close> are partial functions whose value is \<open>None\<close> when they do not end, and
  each is shown to end under stated conditions; no fuel is used.  Counters that wrap in the code are words.

  \<^bold>\<open>Not modelled.\<close> The distance kernels (SIMD) and quantization, so distances are parameters;
  of the disk index the partitioned build, the search over compressed vectors and the readers of the operating systems; label filters, which rest on third-party bitmaps and parsers; the
  foreign function interface with its raw pointers; error formatting, object pools, tools and benchmarks.
  Interleavings inside the index operations are modelled as sequences of whole reads and writes of adjacency lists;
  the free space map is modelled for one caller at a time.
\<close>

end
